(* ===== verification/Prelude.thy ===== *)
theory Prelude
  imports Main "HOL-Library.Word" "HOL-Library.Multiset"
begin

text \<open>
  Shared vocabulary of the development: the model of a JavaScript \<open>Map\<close> (an association list in
  insertion order), results with errors as values, JavaScript strings as UTF-16 code units with
  their UTF-8 length, and two interfaces that several components implement: a keyed store and an
  event machine with an invariant.
\<close>

named_theorems jmap_simps \<open>lookup, key and length facts of the insertion-ordered map\<close>

section \<open>JavaScript maps\<close>

text \<open>
  A \<open>Map\<close> iterates in insertion order, \<open>set\<close> on a present key keeps its position, \<open>set\<close> on an
  absent key appends, and \<open>delete\<close> of an absent key does nothing.
\<close>

type_synonym ('k, 'v) jmap = "('k \<times> 'v) list"

fun jget :: "('k, 'v) jmap \<Rightarrow> 'k \<Rightarrow> 'v option" where
  "jget [] k = None"
| "jget ((a, b) # m) k = (if a = k then Some b else jget m k)"

fun jset :: "'k \<Rightarrow> 'v \<Rightarrow> ('k, 'v) jmap \<Rightarrow> ('k, 'v) jmap" where
  "jset k v [] = [(k, v)]"
| "jset k v ((a, b) # m) = (if a = k then (k, v) # m else (a, b) # jset k v m)"

definition jdel :: "'k \<Rightarrow> ('k, 'v) jmap \<Rightarrow> ('k, 'v) jmap" where
  "jdel k m = filter (\<lambda>p. fst p \<noteq> k) m"

abbreviation jkeys :: "('k, 'v) jmap \<Rightarrow> 'k list" where
  "jkeys m \<equiv> map fst m"

abbreviation jok :: "('k, 'v) jmap \<Rightarrow> bool" where
  "jok m \<equiv> distinct (jkeys m)"

lemma jget_map_of: "jget m = map_of m"
  by (induction m) auto

lemma jget_jset [simp, jmap_simps]: "jget (jset k v m) = (jget m)(k \<mapsto> v)"
  by (induction k v m rule: jset.induct) (auto simp: fun_eq_iff)

lemma jget_jdel [simp, jmap_simps]: "jget (jdel k m) = (jget m)(k := None)"
  unfolding jdel_def by (induction m) (auto simp: fun_eq_iff)

lemma set_jkeys_jset [simp, jmap_simps]: "set (jkeys (jset k v m)) = insert k (set (jkeys m))"
  by (induction k v m rule: jset.induct) auto

lemma set_jkeys_jdel [simp, jmap_simps]: "set (jkeys (jdel k m)) = set (jkeys m) - {k}"
  unfolding jdel_def by auto

lemma fst_set_jset [simp, jmap_simps]: "fst ` set (jset k v m) = insert k (fst ` set m)"
  by (induction k v m rule: jset.induct) auto

lemma fst_set_jdel [simp, jmap_simps]: "fst ` set (jdel k m) = fst ` set m - {k}"
  unfolding jdel_def by auto

lemma jok_jset [intro]: "jok m \<Longrightarrow> jok (jset k v m)"
  by (induction k v m rule: jset.induct) auto

lemma jok_jdel [intro]: "jok m \<Longrightarrow> jok (jdel k m)"
  unfolding jdel_def by (induction m) auto

lemma jset_fresh: "k \<notin> fst ` set m \<Longrightarrow> jset k v m = m @ [(k, v)]"
  by (induction k v m rule: jset.induct) auto

lemma jdel_fresh: "k \<notin> fst ` set m \<Longrightarrow> jdel k m = m"
  unfolding jdel_def by (auto simp: filter_id_conv)

lemma length_jset: "length (jset k v m) = (if k \<in> fst ` set m then length m else Suc (length m))"
  by (induction k v m rule: jset.induct) auto

lemma length_jdel_le: "length (jdel k m) \<le> length m"
  unfolding jdel_def by simp

lemma jget_None_iff: "jget m k = None \<longleftrightarrow> k \<notin> fst ` set m"
  by (simp add: jget_map_of map_of_eq_None_iff)

lemma jget_append: "jget (m @ n) k = (case jget m k of None \<Rightarrow> jget n k | Some v \<Rightarrow> Some v)"
  by (induction m) auto

lemma jget_SomeD: "jget m k = Some v \<Longrightarrow> (k, v) \<in> set m"
  by (auto simp: jget_map_of dest: map_of_SomeD)

lemma jget_Some_iff: "jok m \<Longrightarrow> jget m k = Some v \<longleftrightarrow> (k, v) \<in> set m"
  by (simp add: jget_map_of)

lemma jdel_Nil [simp]: "jdel k [] = []"
  unfolding jdel_def by simp

lemma jdel_Cons [simp]: "jdel k ((a, b) # m) = (if a = k then jdel k m else (a, b) # jdel k m)"
  unfolding jdel_def by simp

lemma jdel_append [simp]: "jdel k (m @ n) = jdel k m @ jdel k n"
  unfolding jdel_def by simp

lemma jdel_mset:
  assumes "jok m" "jget m k = Some v"
  shows "mset m = add_mset (k, v) (mset (jdel k m))"
  using assms
proof (induction m)
  case (Cons p m)
  obtain a b where p: "p = (a, b)" by fastforce
  show ?case
  proof (cases "a = k")
    case True
    with Cons.prems p have "k \<notin> fst ` set m" by auto
    with True Cons.prems p show ?thesis by (simp add: jdel_fresh)
  next
    case False
    with Cons p show ?thesis by simp
  qed
qed simp

lemma set_jdel: "set (jdel k m) = {p \<in> set m. fst p \<noteq> k}"
  unfolding jdel_def by auto

lemma jok_set_jset: "jok m \<Longrightarrow> set (jset k v m) = insert (k, v) {p \<in> set m. fst p \<noteq> k}"
  by (induction k v m rule: jset.induct) force+

section \<open>Interface: a keyed store\<close>

text \<open>
  What a component relies on when it keeps its state in a \<open>Map\<close>: the laws of lookup after an
  insertion or a deletion.  The touch of an LRU (delete and re-insert) is proved once here.
\<close>

locale keyed_store =
  fixes get :: "'m \<Rightarrow> 'k \<Rightarrow> 'v option"
    and put :: "'k \<Rightarrow> 'v \<Rightarrow> 'm \<Rightarrow> 'm"
    and del :: "'k \<Rightarrow> 'm \<Rightarrow> 'm"
    and ok :: "'m \<Rightarrow> bool"
  assumes get_put: "get (put k v m) = (get m)(k := Some v)"
    and get_del: "get (del k m) = (get m)(k := None)"
    and ok_put: "ok m \<Longrightarrow> ok (put k v m)"
    and ok_del: "ok m \<Longrightarrow> ok (del k m)"
begin

lemma get_put_same: "get (put k v m) k = Some v"
  by (simp add: get_put)

lemma get_put_other: "j \<noteq> k \<Longrightarrow> get (put k v m) j = get m j"
  by (simp add: get_put)

lemma get_del_same: "get (del k m) k = None"
  by (simp add: get_del)

lemma touch_get: "get m k = Some v \<Longrightarrow> get (put k v (del k m)) = get m"
  by (auto simp: get_put get_del)

lemma touch_ok: "ok m \<Longrightarrow> ok (put k v (del k m))"
  by (intro ok_put ok_del)

end

interpretation jm: keyed_store jget jset jdel jok
  by unfold_locales auto

section \<open>Interface: an event machine with an invariant\<close>

text \<open>
  A component whose handlers run one at a time: a step function over its events and an invariant
  every step keeps.  Whatever the order and number of events, the invariant holds after the run.
\<close>

locale event_machine =
  fixes step :: "'e \<Rightarrow> 's \<Rightarrow> 's"
    and inv :: "'s \<Rightarrow> bool"
  assumes step_inv: "inv s \<Longrightarrow> inv (step e s)"
begin

lemma run_inv: "inv s \<Longrightarrow> inv (fold step es s)"
  by (induction es arbitrary: s) (auto intro: step_inv)

lemma run_append_inv: "inv s \<Longrightarrow> inv (fold step (es @ fs) s)"
  by (rule run_inv)

lemma run_prefix_inv: "inv s \<Longrightarrow> inv (fold step (take n es) s)"
  by (rule run_inv)

end

lemma find_SomeD: "find P xs = Some x \<Longrightarrow> x \<in> set xs \<and> P x"
  by (induction xs) (auto split: if_splits)

section \<open>Lists as bags\<close>

lemma mset_subset_distinct: "mset xs \<subseteq># mset ys \<Longrightarrow> distinct ys \<Longrightarrow> distinct xs"
proof -
  assume s: "mset xs \<subseteq># mset ys" and d: "distinct ys"
  have "count (mset xs) x \<le> 1" for x
  proof -
    have "count (mset xs) x \<le> count (mset ys) x" by (rule mset_subset_eq_count [OF s])
    also have "\<dots> \<le> 1" using d unfolding distinct_count_atmost_1 by simp
    finally show ?thesis .
  qed
  then show ?thesis
    unfolding distinct_count_atmost_1 by (metis One_nat_def count_mset_0_iff le_Suc_eq le_zero_eq)
qed

lemma filter_mset_cong_list: "mset vs = mset ws \<Longrightarrow> mset (filter P vs) = mset (filter P ws)"
  by (simp add: mset_filter)

lemma map_mset_cong_list: "mset vs = mset ws \<Longrightarrow> mset (map f vs) = mset (map f ws)"
  by simp

lemma map_filter_mset_cong_list:
  "mset xs = mset ys \<Longrightarrow> mset (List.map_filter f xs) = mset (List.map_filter f ys)"
  unfolding List.map_filter_def by (intro map_mset_cong_list filter_mset_cong_list)

lemma mset_Nil_cong: "mset vs = mset ws \<Longrightarrow> vs = [] \<longleftrightarrow> ws = []"
  by (metis mset_zero_iff)

lemma distinct_mset_cong: "mset vs = mset ws \<Longrightarrow> distinct vs \<longleftrightarrow> distinct ws"
  by (metis distinct_count_atmost_1 set_mset_mset)

section \<open>Results with errors\<close>

definition ebind :: "'e + 'a \<Rightarrow> ('a \<Rightarrow> 'e + 'b) \<Rightarrow> 'e + 'b" where
  "ebind r f = (case r of Inl e \<Rightarrow> Inl e | Inr a \<Rightarrow> f a)"

lemma ebind_simps [simp]: "ebind (Inl e) f = Inl e" "ebind (Inr a) f = f a"
  by (simp_all add: ebind_def)

lemma ebind_Inr_iff: "ebind r f = Inr b \<longleftrightarrow> (\<exists>a. r = Inr a \<and> f a = Inr b)"
  by (cases r) auto

section \<open>JavaScript strings\<close>

text \<open>
  A string of the terminal input path is a list of UTF-16 code units; \<open>Buffer.byteLength\<close> counts
  the bytes of its UTF-8 encoding, where an unpaired surrogate is encoded as U+FFFD (3 bytes).
\<close>

type_synonym jstring = "16 word list"

definition high_surrogate :: "16 word \<Rightarrow> bool" where
  "high_surrogate u \<longleftrightarrow> 0xD800 \<le> u \<and> u \<le> 0xDBFF"

definition low_surrogate :: "16 word \<Rightarrow> bool" where
  "low_surrogate u \<longleftrightarrow> 0xDC00 \<le> u \<and> u \<le> 0xDFFF"

fun utf8_byte_length :: "jstring \<Rightarrow> nat" where
  "utf8_byte_length [] = 0"
| "utf8_byte_length [u] = (if u < 0x80 then 1 else if u < 0x800 then 2 else 3)"
| "utf8_byte_length (u # v # us) =
     (if u < 0x80 then 1 + utf8_byte_length (v # us)
      else if u < 0x800 then 2 + utf8_byte_length (v # us)
      else if high_surrogate u \<and> low_surrogate v then 4 + utf8_byte_length us
      else 3 + utf8_byte_length (v # us))"

lemma utf8_byte_length_bounds:
  "length s \<le> utf8_byte_length s \<and> utf8_byte_length s \<le> 3 * length s"
  by (induction s rule: utf8_byte_length.induct) auto

end
