(* ===== verification/InputBudget.thy ===== *)
theory InputBudget
  imports Prelude
begin

text \<open>
  \<open>apps/server/api/src/api/ws/input-budget.ts\<close>: the charge every dispatched or retained terminal
  write holds against its socket, its node and the whole process.  The \<open>Usage\<close> objects are shared
  by the tables and by the release closures, so each table keeps an explicit store of them: a
  closure remembers the object it captured, not the key.
\<close>

section \<open>Limits\<close>

definition INPUT_FRAME_MAX_BYTES :: int where "INPUT_FRAME_MAX_BYTES = 64 * 1024"
definition INPUT_SOCKET_MAX_FRAMES :: int where "INPUT_SOCKET_MAX_FRAMES = 512"
definition INPUT_SOCKET_MAX_BYTES :: int where "INPUT_SOCKET_MAX_BYTES = 16 * 1024 * 1024"
definition INPUT_NODE_MAX_FRAMES :: int where "INPUT_NODE_MAX_FRAMES = 1024"
definition INPUT_NODE_MAX_BYTES :: int where "INPUT_NODE_MAX_BYTES = 16 * 1024 * 1024"
definition INPUT_GLOBAL_MAX_FRAMES :: int where "INPUT_GLOBAL_MAX_FRAMES = 4096"
definition INPUT_GLOBAL_MAX_BYTES :: int where "INPUT_GLOBAL_MAX_BYTES = 64 * 1024 * 1024"

lemmas input_limits =
  INPUT_FRAME_MAX_BYTES_def INPUT_SOCKET_MAX_FRAMES_def INPUT_SOCKET_MAX_BYTES_def
  INPUT_NODE_MAX_FRAMES_def INPUT_NODE_MAX_BYTES_def INPUT_GLOBAL_MAX_FRAMES_def
  INPUT_GLOBAL_MAX_BYTES_def

section \<open>Usage tables\<close>

record usage =
  u_frames :: int
  u_bytes :: int

definition no_usage :: usage where
  "no_usage = \<lparr>u_frames = 0, u_bytes = 0\<rparr>"

text \<open>A table of usage objects: \<open>sockets\<close> (keyed by socket data) or \<open>nodes\<close> (keyed by node id).\<close>

record 'k utable =
  ut_map :: "('k, nat) jmap"
  ut_obj :: "nat \<Rightarrow> usage"
  ut_next :: nat

definition ut_empty :: "'k utable" where
  "ut_empty = \<lparr>ut_map = [], ut_obj = (\<lambda>_. no_usage), ut_next = 0\<rparr>"

text \<open>\<open>table.get(k) ?? { frames: 0, bytes: 0 }\<close>: the stored object or a newly allocated one.\<close>

definition ut_fetch :: "'k \<Rightarrow> 'k utable \<Rightarrow> nat \<times> 'k utable" where
  "ut_fetch k t = (case jget (ut_map t) k of
      Some ob \<Rightarrow> (ob, t)
    | None \<Rightarrow> (ut_next t, t\<lparr>ut_obj := (ut_obj t)(ut_next t := no_usage), ut_next := Suc (ut_next t)\<rparr>))"

definition ut_set :: "'k \<Rightarrow> nat \<Rightarrow> 'k utable \<Rightarrow> 'k utable" where
  "ut_set k ob t = t\<lparr>ut_map := jset k ob (ut_map t)\<rparr>"

definition add_usage :: "int \<Rightarrow> usage \<Rightarrow> usage" where
  "add_usage b u = \<lparr>u_frames = u_frames u + 1, u_bytes = u_bytes u + b\<rparr>"

definition sub_usage :: "int \<Rightarrow> usage \<Rightarrow> usage" where
  "sub_usage b u = \<lparr>u_frames = u_frames u - 1, u_bytes = u_bytes u - b\<rparr>"

definition ut_add :: "nat \<Rightarrow> int \<Rightarrow> 'k utable \<Rightarrow> 'k utable" where
  "ut_add ob b t = t\<lparr>ut_obj := (ut_obj t)(ob := add_usage b (ut_obj t ob))\<rparr>"

definition ut_release :: "'k \<Rightarrow> nat \<Rightarrow> int \<Rightarrow> 'k utable \<Rightarrow> 'k utable" where
  "ut_release k ob b t =
     (let t' = t\<lparr>ut_obj := (ut_obj t)(ob := sub_usage b (ut_obj t ob))\<rparr>
      in if u_frames (ut_obj t' ob) = 0 then t'\<lparr>ut_map := jdel k (ut_map t')\<rparr> else t')"

section \<open>State\<close>

record ws_data =
  wd_nodeId :: string
  wd_subshellId :: string
  wd_session :: jstring
  wd_canInput :: bool
  wd_accessRevoked :: bool
  wd_inputClosed :: bool

text \<open>What one release closure captured.\<close>

record charge =
  ch_sock :: nat
  ch_sockObj :: nat
  ch_node :: string
  ch_nodeObj :: nat
  ch_bytes :: int

text \<open>
  A release closure is a number; its \<open>released\<close> flag is set exactly when it has left \<open>bs_live\<close>.
  \<open>bs_closes\<close> records the \<open>ws.close\<close> calls of \<open>closeForInputLimit\<close> with their codes.
\<close>

record budget_state =
  bs_data :: "nat \<Rightarrow> ws_data"
  bs_sockets :: "nat utable"
  bs_nodes :: "string utable"
  bs_total :: usage
  bs_live :: "(nat, charge) jmap"
  bs_nextCharge :: nat
  bs_closes :: "(nat \<times> nat) list"

section \<open>Operations\<close>

definition hasSharedCapacity :: "usage \<Rightarrow> usage \<Rightarrow> int \<Rightarrow> bool" where
  "hasSharedCapacity node tot bytes \<longleftrightarrow>
     u_frames node < INPUT_NODE_MAX_FRAMES \<and>
     u_bytes node + bytes \<le> INPUT_NODE_MAX_BYTES \<and>
     u_frames tot < INPUT_GLOBAL_MAX_FRAMES \<and>
     u_bytes tot + bytes \<le> INPUT_GLOBAL_MAX_BYTES"

definition closeForInputLimit :: "nat \<Rightarrow> nat \<Rightarrow> ('a budget_state_scheme) \<Rightarrow> 'a budget_state_scheme" where
  "closeForInputLimit ws code s =
     s\<lparr>bs_data := (bs_data s)(ws := (bs_data s ws)\<lparr>wd_inputClosed := True\<rparr>),
       bs_closes := bs_closes s @ [(ws, code)]\<rparr>"

definition releaseCharge :: "nat \<Rightarrow> ('a budget_state_scheme) \<Rightarrow> 'a budget_state_scheme" where
  "releaseCharge c s =
     (case jget (bs_live s) c of
        None \<Rightarrow> s
      | Some ch \<Rightarrow>
          s\<lparr>bs_live := jdel c (bs_live s),
            bs_nodes := ut_release (ch_node ch) (ch_nodeObj ch) (ch_bytes ch) (bs_nodes s),
            bs_sockets := ut_release (ch_sock ch) (ch_sockObj ch) (ch_bytes ch) (bs_sockets s),
            bs_total := sub_usage (ch_bytes ch) (bs_total s)\<rparr>)"

definition chargeInput ::
  "nat \<Rightarrow> nat \<Rightarrow> string \<Rightarrow> nat \<Rightarrow> int \<Rightarrow> ('a budget_state_scheme) \<Rightarrow> nat option \<times> 'a budget_state_scheme" where
  "chargeInput ws so node no bytes s =
     (Some (bs_nextCharge s),
      s\<lparr>bs_sockets := ut_add so bytes (ut_set ws so (bs_sockets s)),
        bs_nodes := ut_add no bytes (ut_set node no (bs_nodes s)),
        bs_total := add_usage bytes (bs_total s),
        bs_live := bs_live s @ [(bs_nextCharge s,
           \<lparr>ch_sock = ws, ch_sockObj = so, ch_node = node, ch_nodeObj = no, ch_bytes = bytes\<rparr>)],
        bs_nextCharge := Suc (bs_nextCharge s)\<rparr>)"

text \<open>The optional callback \<open>reclaimSharedCapacity\<close> may change the whole state before the second look.\<close>

type_synonym 'a reclaim = "'a budget_state_scheme \<Rightarrow> bool \<times> 'a budget_state_scheme"

definition takeInputBudget ::
  "'a reclaim option \<Rightarrow> nat \<Rightarrow> jstring \<Rightarrow> ('a budget_state_scheme) \<Rightarrow> nat option \<times> 'a budget_state_scheme" where
  "takeInputBudget reclaim ws payload s =
     (let d = bs_data s ws in
      if wd_inputClosed d \<or> wd_accessRevoked d then (None, s)
      else
        let bytes = int (utf8_byte_length payload);
            (so, socks) = ut_fetch ws (bs_sockets s);
            (no, nds) = ut_fetch (wd_nodeId d) (bs_nodes s);
            s1 = s\<lparr>bs_sockets := socks, bs_nodes := nds\<rparr>;
            u = ut_obj socks so
        in
          if bytes > INPUT_FRAME_MAX_BYTES \<or> u_frames u \<ge> INPUT_SOCKET_MAX_FRAMES \<or>
             u_bytes u + bytes > INPUT_SOCKET_MAX_BYTES
          then (None, closeForInputLimit ws (if bytes > INPUT_FRAME_MAX_BYTES then 1009 else 1013) s1)
          else if hasSharedCapacity (ut_obj nds no) (bs_total s1) bytes
          then chargeInput ws so (wd_nodeId d) no bytes s1
          else
            (case reclaim of
               None \<Rightarrow> (None, closeForInputLimit ws 1013 s1)
             | Some f \<Rightarrow>
                 (let (freed, s2) = f s1 in
                  if \<not> freed \<or> \<not> hasSharedCapacity (ut_obj (bs_nodes s2) no) (bs_total s2) bytes
                  then (None, closeForInputLimit ws 1013 s2)
                  else chargeInput ws so (wd_nodeId d) no bytes s2)))"

section \<open>The ledger of a table\<close>

text \<open>
  The abstract content of a table: the bag of outstanding charges, each with its key, the object
  its closure captured and its bytes.
\<close>

type_synonym 'k ledger = "('k \<times> nat \<times> int) multiset"

definition keyLedger :: "'k \<Rightarrow> 'k ledger \<Rightarrow> 'k ledger" where
  "keyLedger k L = filter_mset (\<lambda>x. fst x = k) L"

definition ledgerBytes :: "'k ledger \<Rightarrow> int" where
  "ledgerBytes L = (\<Sum>x\<in>#L. snd (snd x))"

definition ledgerUsage :: "'k ledger \<Rightarrow> usage" where
  "ledgerUsage L = \<lparr>u_frames = int (size L), u_bytes = ledgerBytes L\<rparr>"

lemma keyLedger_add:
  "keyLedger k (add_mset x L) = (if fst x = k then add_mset x (keyLedger k L) else keyLedger k L)"
  by (simp add: keyLedger_def)

lemma ledgerUsage_add: "ledgerUsage (add_mset (k, ob, b) L) = add_usage b (ledgerUsage L)"
  by (simp add: ledgerUsage_def add_usage_def ledgerBytes_def)

lemma sub_add_usage [simp]: "sub_usage b (add_usage b u) = u"
  by (simp add: sub_usage_def add_usage_def)

lemma ledgerUsage_empty [simp]: "ledgerUsage {#} = no_usage"
  by (simp add: ledgerUsage_def no_usage_def ledgerBytes_def)

lemma ledgerUsage_zero_iff: "u_frames (ledgerUsage L) = 0 \<longleftrightarrow> L = {#}"
  by (simp add: ledgerUsage_def)

text \<open>
  A table agrees with its ledger: every outstanding charge's object is the one filed under its key,
  every filed object counts exactly the charges of its key and there is at least one, and no object
  is filed twice.
\<close>

definition ut_inv :: "'k utable \<Rightarrow> 'k ledger \<Rightarrow> bool" where
  "ut_inv t L \<longleftrightarrow>
     jok (ut_map t) \<and>
     (\<forall>k ob b. (k, ob, b) \<in># L \<longrightarrow> jget (ut_map t) k = Some ob) \<and>
     (\<forall>k ob. jget (ut_map t) k = Some ob \<longrightarrow>
        ob < ut_next t \<and> keyLedger k L \<noteq> {#} \<and> ut_obj t ob = ledgerUsage (keyLedger k L)) \<and>
     (\<forall>k k' ob. jget (ut_map t) k = Some ob \<longrightarrow> jget (ut_map t) k' = Some ob \<longrightarrow> k = k')"

text \<open>The object a caller holds for a key: filed, or empty and filed nowhere.\<close>

definition ut_held :: "'k \<Rightarrow> nat \<Rightarrow> 'k utable \<Rightarrow> bool" where
  "ut_held k ob t \<longleftrightarrow>
     jget (ut_map t) k = Some ob \<or>
     (jget (ut_map t) k = None \<and> ob < ut_next t \<and> ut_obj t ob = no_usage \<and>
      (\<forall>j. jget (ut_map t) j \<noteq> Some ob))"

lemma ut_inv_live: "ut_inv t L \<Longrightarrow> (k, ob, b) \<in># L \<Longrightarrow> jget (ut_map t) k = Some ob"
  unfolding ut_inv_def by blast

lemma ut_inv_filed:
  assumes "ut_inv t L" "jget (ut_map t) k = Some ob"
  shows "ob < ut_next t" "keyLedger k L \<noteq> {#}" "ut_obj t ob = ledgerUsage (keyLedger k L)"
  using assms unfolding ut_inv_def by blast+

lemma ut_inv_inj:
  "ut_inv t L \<Longrightarrow> jget (ut_map t) k = Some ob \<Longrightarrow> jget (ut_map t) j = Some ob \<Longrightarrow> j = k"
  unfolding ut_inv_def by blast

lemma ut_invI:
  assumes "jok (ut_map t)"
    and "\<And>k ob b. (k, ob, b) \<in># L \<Longrightarrow> jget (ut_map t) k = Some ob"
    and "\<And>k ob. jget (ut_map t) k = Some ob \<Longrightarrow>
           ob < ut_next t \<and> keyLedger k L \<noteq> {#} \<and> ut_obj t ob = ledgerUsage (keyLedger k L)"
    and "\<And>k k' ob. jget (ut_map t) k = Some ob \<Longrightarrow> jget (ut_map t) k' = Some ob \<Longrightarrow> k = k'"
  shows "ut_inv t L"
  using assms unfolding ut_inv_def by blast

lemma ut_inv_jok: "ut_inv t L \<Longrightarrow> jok (ut_map t)"
  unfolding ut_inv_def by blast

lemma ut_inv_empty: "ut_inv ut_empty {#}"
  by (rule ut_invI) (simp_all add: ut_empty_def)

lemma keyLedger_empty_iff: "keyLedger k L = {#} \<longleftrightarrow> (\<forall>ob b. (k, ob, b) \<notin># L)"
  by (auto simp: keyLedger_def filter_mset_eq_mempty_iff)

lemma ut_inv_unfiled: "ut_inv t L \<Longrightarrow> jget (ut_map t) k = None \<Longrightarrow> keyLedger k L = {#}"
  by (auto simp: keyLedger_empty_iff dest: ut_inv_live)

lemma ut_fetch_inv:
  assumes inv: "ut_inv t L" and f: "ut_fetch k t = (ob, t')"
  shows "ut_inv t' L" "ut_held k ob t'" "ut_map t' = ut_map t"
proof -
  have "ut_inv t' L \<and> ut_held k ob t' \<and> ut_map t' = ut_map t"
  proof (cases "jget (ut_map t) k")
    case None
    then have t': "ob = ut_next t"
      "t' = t\<lparr>ut_obj := (ut_obj t)(ut_next t := no_usage), ut_next := Suc (ut_next t)\<rparr>"
      using f by (auto simp: ut_fetch_def)
    have old: "ob' < ut_next t" if "jget (ut_map t) j = Some ob'" for j ob'
      using ut_inv_filed(1) [OF inv that] .
    have "ut_inv t' L"
    proof (rule ut_invI)
      fix j ob' assume "jget (ut_map t') j = Some ob'"
      then have j: "jget (ut_map t) j = Some ob'" by (simp add: t')
      then show "ob' < ut_next t' \<and> keyLedger j L \<noteq> {#} \<and> ut_obj t' ob' = ledgerUsage (keyLedger j L)"
        using old [OF j] ut_inv_filed [OF inv j] by (auto simp: t')
    qed (use inv in \<open>auto simp: t' dest: ut_inv_jok ut_inv_live ut_inv_inj\<close>)
    moreover have "ut_held k ob t'"
      using None old by (fastforce simp: ut_held_def t')
    ultimately show ?thesis by (simp add: t')
  next
    case (Some ob')
    then show ?thesis using inv f by (auto simp: ut_fetch_def ut_held_def)
  qed
  then show "ut_inv t' L" "ut_held k ob t'" "ut_map t' = ut_map t" by auto
qed

lemma ut_held_usage:
  assumes inv: "ut_inv t L" and held: "ut_held k ob t"
  shows "ut_obj t ob = ledgerUsage (keyLedger k L)" "ob < ut_next t"
    "jget (ut_map t) k = None \<or> jget (ut_map t) k = Some ob"
    "\<And>j. jget (ut_map t) j = Some ob \<Longrightarrow> j = k"
  using held ut_inv_unfiled [OF inv] ut_inv_filed [OF inv] ut_inv_inj [OF inv]
  unfolding ut_held_def by auto

lemma ut_charge_inv:
  assumes inv: "ut_inv t L" and held: "ut_held k ob t"
  shows "ut_inv (ut_add ob b (ut_set k ob t)) (add_mset (k, ob, b) L)" (is "ut_inv ?t ?L")
proof (rule ut_invI)
  note h = ut_held_usage [OF inv held]
  show "jok (ut_map ?t)" using inv by (auto simp: ut_add_def ut_set_def dest: ut_inv_jok)
  have map: "jget (ut_map ?t) = (jget (ut_map t))(k \<mapsto> ob)" by (simp add: ut_add_def ut_set_def)
  show "jget (ut_map ?t) j = Some ob'" if "(j, ob', b') \<in># ?L" for j ob' b'
    using that h(3) ut_inv_live [OF inv, of j ob' b'] by (auto simp: map)
  show "ob' < ut_next ?t \<and> keyLedger j ?L \<noteq> {#} \<and> ut_obj ?t ob' = ledgerUsage (keyLedger j ?L)"
    if "jget (ut_map ?t) j = Some ob'" for j ob'
  proof (cases "j = k")
    case True
    with that have "ob' = ob" by (simp add: map)
    with True show ?thesis using h(1,2)
      by (simp add: ut_add_def ut_set_def keyLedger_add ledgerUsage_add)
  next
    case False
    with that have j: "jget (ut_map t) j = Some ob'" by (simp add: map)
    moreover from this False have "ob' \<noteq> ob" using h(4) by auto
    ultimately show ?thesis using False ut_inv_filed [OF inv j]
      by (simp add: ut_add_def ut_set_def keyLedger_add)
  qed
  show "i = j" if "jget (ut_map ?t) i = Some ob'" "jget (ut_map ?t) j = Some ob'" for i j ob'
    using that h(4) ut_inv_inj [OF inv, of i ob' j] by (auto simp: map split: if_splits)
qed

lemma ut_release_fields:
  assumes inv: "ut_inv t (add_mset (k, ob, b) L)"
  shows "ut_next (ut_release k ob b t) = ut_next t"
    and "ut_obj (ut_release k ob b t) = (ut_obj t)(ob := ledgerUsage (keyLedger k L))"
    and "jget (ut_map (ut_release k ob b t)) =
           (if keyLedger k L = {#} then (jget (ut_map t))(k := None) else jget (ut_map t))"
    and "jok (ut_map (ut_release k ob b t))"
proof -
  have "jget (ut_map t) k = Some ob" by (rule ut_inv_live [OF inv, where b = b]) simp
  then have obj: "ut_obj t ob = add_usage b (ledgerUsage (keyLedger k L))"
    using ut_inv_filed(3) [OF inv] by (simp add: keyLedger_add ledgerUsage_add)
  then show "ut_obj (ut_release k ob b t) = (ut_obj t)(ob := ledgerUsage (keyLedger k L))"
    and "jget (ut_map (ut_release k ob b t)) =
           (if keyLedger k L = {#} then (jget (ut_map t))(k := None) else jget (ut_map t))"
    by (simp_all add: ut_release_def Let_def ledgerUsage_zero_iff)
  show "ut_next (ut_release k ob b t) = ut_next t" "jok (ut_map (ut_release k ob b t))"
    using ut_inv_jok [OF inv] by (auto simp: ut_release_def Let_def)
qed

lemma ut_release_inv:
  assumes inv: "ut_inv t (add_mset (k, ob, b) L)"
  shows "ut_inv (ut_release k ob b t) L"
proof (rule ut_invI)
  note f = ut_release_fields [OF inv]
  have k: "jget (ut_map t) k = Some ob" by (rule ut_inv_live [OF inv, where b = b]) simp
  show "jok (ut_map (ut_release k ob b t))" by (rule f(4))
  show "jget (ut_map (ut_release k ob b t)) j = Some ob'" if "(j, ob', b') \<in># L" for j ob' b'
    using that ut_inv_live [OF inv, of j ob' b'] by (auto simp: f(3) keyLedger_empty_iff)
  show "ob' < ut_next (ut_release k ob b t) \<and> keyLedger j L \<noteq> {#} \<and>
        ut_obj (ut_release k ob b t) ob' = ledgerUsage (keyLedger j L)"
    if "jget (ut_map (ut_release k ob b t)) j = Some ob'" for j ob'
  proof (cases "j = k")
    case True
    then show ?thesis
      using that k ut_inv_filed(1) [OF inv k] by (simp add: f split: if_splits)
  next
    case False
    with that have j: "jget (ut_map t) j = Some ob'" by (simp add: f(3) split: if_splits)
    moreover from this False k have "ob' \<noteq> ob" using ut_inv_inj [OF inv] by blast
    ultimately show ?thesis using False ut_inv_filed [OF inv j] by (simp add: f keyLedger_add)
  qed
  show "i = j" if "jget (ut_map (ut_release k ob b t)) i = Some ob'"
    "jget (ut_map (ut_release k ob b t)) j = Some ob'" for i j ob'
    using that ut_inv_inj [OF inv, of i ob' j] by (auto simp: f(3) split: if_splits)
qed

lemma ut_release_held:
  assumes inv: "ut_inv t (add_mset (k, ob, b) L)" and held: "ut_held j oj t"
  shows "ut_held j oj (ut_release k ob b t)"
proof -
  note f = ut_release_fields [OF inv]
  have k: "jget (ut_map t) k = Some ob" by (rule ut_inv_live [OF inv, where b = b]) simp
  have inj: "i = k" if "jget (ut_map t) i = Some ob" for i using ut_inv_inj [OF inv k that] .
  note own = ut_inv_filed(1) [OF inv k]
  from held show ?thesis
    unfolding ut_held_def [of j oj t]
  proof (elim disjE conjE)
    assume j: "jget (ut_map t) j = Some oj"
    show ?thesis
    proof (cases "j = k")
      case True
      with j k have "oj = ob" by simp
      with True k own show ?thesis unfolding ut_held_def f
        by (cases "keyLedger k L = {#}") (auto dest: inj)
    next
      case False
      with j show ?thesis unfolding ut_held_def f by simp
    qed
  next
    assume "jget (ut_map t) j = None" and "oj < ut_next t" and "ut_obj t oj = no_usage"
      and out: "\<forall>i. jget (ut_map t) i \<noteq> Some oj"
    moreover from out k have "oj \<noteq> ob" by blast
    ultimately show ?thesis unfolding ut_held_def f by simp
  qed
qed

section \<open>The invariant of the module\<close>

definition sockLedger :: "('a budget_state_scheme) \<Rightarrow> nat ledger" where
  "sockLedger s = image_mset (\<lambda>(_, ch). (ch_sock ch, ch_sockObj ch, ch_bytes ch)) (mset (bs_live s))"

definition nodeLedger :: "('a budget_state_scheme) \<Rightarrow> string ledger" where
  "nodeLedger s = image_mset (\<lambda>(_, ch). (ch_node ch, ch_nodeObj ch, ch_bytes ch)) (mset (bs_live s))"

text \<open>The reference accounting: what the outstanding charges add up to.\<close>

definition chargedUsage :: "('a budget_state_scheme) \<Rightarrow> (charge \<Rightarrow> bool) \<Rightarrow> usage" where
  "chargedUsage s P =
     \<lparr>u_frames = int (length (filter (P \<circ> snd) (bs_live s))),
      u_bytes = sum_list (map (ch_bytes \<circ> snd) (filter (P \<circ> snd) (bs_live s)))\<rparr>"

definition within_limits :: "usage \<Rightarrow> int \<Rightarrow> int \<Rightarrow> bool" where
  "within_limits u f b \<longleftrightarrow> u_frames u \<le> f \<and> u_bytes u \<le> b"

definition budget_limits :: "('a budget_state_scheme) \<Rightarrow> bool" where
  "budget_limits s \<longleftrightarrow>
     within_limits (chargedUsage s (\<lambda>_. True)) INPUT_GLOBAL_MAX_FRAMES INPUT_GLOBAL_MAX_BYTES \<and>
     (\<forall>n. within_limits (chargedUsage s (\<lambda>ch. ch_node ch = n)) INPUT_NODE_MAX_FRAMES INPUT_NODE_MAX_BYTES) \<and>
     (\<forall>w. within_limits (chargedUsage s (\<lambda>ch. ch_sock ch = w)) INPUT_SOCKET_MAX_FRAMES INPUT_SOCKET_MAX_BYTES) \<and>
     (\<forall>(c, ch) \<in> set (bs_live s). 0 \<le> ch_bytes ch \<and> ch_bytes ch \<le> INPUT_FRAME_MAX_BYTES)"

definition budget_tables :: "('a budget_state_scheme) \<Rightarrow> bool" where
  "budget_tables s \<longleftrightarrow>
     ut_inv (bs_sockets s) (sockLedger s) \<and> ut_inv (bs_nodes s) (nodeLedger s) \<and>
     bs_total s = chargedUsage s (\<lambda>_. True) \<and>
     jok (bs_live s) \<and> (\<forall>c \<in> fst ` set (bs_live s). c < bs_nextCharge s)"

definition budget_inv :: "('a budget_state_scheme) \<Rightarrow> bool" where
  "budget_inv s \<longleftrightarrow> budget_tables s \<and> budget_limits s"

lemma ledger_key_usage:
  "ledgerUsage (keyLedger n (nodeLedger s)) = chargedUsage s (\<lambda>ch. ch_node ch = n)"
  "ledgerUsage (keyLedger w (sockLedger s)) = chargedUsage s (\<lambda>ch. ch_sock ch = w)"
proof -
  have *: "\<lparr>u_frames = int (size (filter_mset (\<lambda>x. fst x = k) (image_mset g (mset m)))),
         u_bytes = (\<Sum>x\<in>#filter_mset (\<lambda>x. fst x = k) (image_mset g (mset m)). snd (snd x))\<rparr> =
        \<lparr>u_frames = int (length (filter (\<lambda>p. fst (g p) = k) m)),
         u_bytes = sum_list (map (\<lambda>p. snd (snd (g p))) (filter (\<lambda>p. fst (g p) = k) m))\<rparr>"
    for g :: "nat \<times> charge \<Rightarrow> 'x \<times> nat \<times> int" and k m
    by (induction m) auto
  show "ledgerUsage (keyLedger n (nodeLedger s)) = chargedUsage s (\<lambda>ch. ch_node ch = n)"
    unfolding ledgerUsage_def keyLedger_def nodeLedger_def ledgerBytes_def chargedUsage_def *
    by (simp add: case_prod_unfold comp_def)
  show "ledgerUsage (keyLedger w (sockLedger s)) = chargedUsage s (\<lambda>ch. ch_sock ch = w)"
    unfolding ledgerUsage_def keyLedger_def sockLedger_def ledgerBytes_def chargedUsage_def *
    by (simp add: case_prod_unfold comp_def)
qed

section \<open>Releasing\<close>

lemma releaseCharge_None: "jget (bs_live s) c = None \<Longrightarrow> releaseCharge c s = s"
  by (simp add: releaseCharge_def)

lemma releaseCharge_Some:
  assumes "jget (bs_live s) c = Some ch"
  shows "bs_nodes (releaseCharge c s) = ut_release (ch_node ch) (ch_nodeObj ch) (ch_bytes ch) (bs_nodes s)"
    and "bs_sockets (releaseCharge c s) = ut_release (ch_sock ch) (ch_sockObj ch) (ch_bytes ch) (bs_sockets s)"
    and "bs_total (releaseCharge c s) = sub_usage (ch_bytes ch) (bs_total s)"
  using assms by (simp_all add: releaseCharge_def)

lemma releaseCharge_live: "bs_live (releaseCharge c s) = jdel c (bs_live s)"
  by (auto simp: releaseCharge_def jget_None_iff jdel_fresh split: option.split)

lemma releaseCharge_frame [simp]:
  "bs_data (releaseCharge c s) = bs_data s"
  "bs_nextCharge (releaseCharge c s) = bs_nextCharge s"
  "bs_closes (releaseCharge c s) = bs_closes s"
  by (simp_all add: releaseCharge_def split: option.split)

lemma releaseCharge_more [simp]: "budget_state.more (releaseCharge c s) = budget_state.more s"
  by (simp add: releaseCharge_def split: option.split)

text \<open>Releasing twice is releasing once: the \<open>released\<close> flag.\<close>

lemma releaseCharge_idem: "releaseCharge c (releaseCharge c s) = releaseCharge c s"
  by (rule releaseCharge_None) (simp add: releaseCharge_live)

lemma chargedUsage_jdel:
  assumes "jok (bs_live s)" "jget (bs_live s) c = Some ch" "bs_live s' = jdel c (bs_live s)"
  shows "chargedUsage s P = (if P ch then add_usage (ch_bytes ch) (chargedUsage s' P) else chargedUsage s' P)"
proof -
  have "mset (bs_live s) = add_mset (c, ch) (mset (bs_live s'))"
    using jdel_mset [OF assms(1,2)] assms(3) by simp
  then have "mset (filter (P \<circ> snd) (bs_live s)) =
      (if P ch then add_mset (c, ch) (mset (filter (P \<circ> snd) (bs_live s')))
       else mset (filter (P \<circ> snd) (bs_live s')))"
    by (simp add: mset_filter)
  moreover have "sum_list (map f xs) = sum_mset (image_mset f (mset xs))" for f :: "nat \<times> charge \<Rightarrow> int" and xs
    by (simp flip: sum_mset_sum_list)
  ultimately show ?thesis
    unfolding chargedUsage_def add_usage_def by (auto simp flip: size_mset)
qed

lemma ledger_release:
  assumes "jok (bs_live s)" "jget (bs_live s) c = Some ch" "bs_live s' = jdel c (bs_live s)"
  shows "sockLedger s = add_mset (ch_sock ch, ch_sockObj ch, ch_bytes ch) (sockLedger s')"
    and "nodeLedger s = add_mset (ch_node ch, ch_nodeObj ch, ch_bytes ch) (nodeLedger s')"
  using jdel_mset [OF assms(1,2)] assms(3) by (simp_all add: sockLedger_def nodeLedger_def)

lemma budget_inv_live:
  assumes "budget_inv s" "jget (bs_live s) c = Some ch"
  shows "0 \<le> ch_bytes ch" "ch_bytes ch \<le> INPUT_FRAME_MAX_BYTES" "c < bs_nextCharge s"
proof -
  have "(c, ch) \<in> set (bs_live s)" using assms(2) by (rule jget_SomeD)
  then show "0 \<le> ch_bytes ch" "ch_bytes ch \<le> INPUT_FRAME_MAX_BYTES" "c < bs_nextCharge s"
    using assms(1) by (auto simp: budget_inv_def budget_limits_def budget_tables_def)
qed

lemma within_limits_less:
  "within_limits (if P then add_usage b u else u) f m \<Longrightarrow> 0 \<le> b \<Longrightarrow> within_limits u f m"
  by (auto simp: within_limits_def add_usage_def split: if_splits)

lemma release_budget_inv:
  assumes inv: "budget_inv s"
  shows "budget_inv (releaseCharge c s)"
proof (cases "jget (bs_live s) c")
  case None
  then show ?thesis using inv by (simp add: releaseCharge_None)
next
  case (Some ch)
  let ?s = "releaseCharge c s"
  note live = releaseCharge_live [of c s]
  have ok: "jok (bs_live s)" using inv by (simp add: budget_inv_def budget_tables_def)
  note led = ledger_release [OF ok Some live]
  note cu = chargedUsage_jdel [OF ok Some live]
  note b = budget_inv_live [OF inv Some]
  have "ut_inv (bs_sockets ?s) (sockLedger ?s)" "ut_inv (bs_nodes ?s) (nodeLedger ?s)"
    using inv led Some unfolding budget_inv_def budget_tables_def
    by (auto simp: releaseCharge_Some [OF Some] intro!: ut_release_inv)
  moreover have "bs_total ?s = chargedUsage ?s (\<lambda>_. True)"
    using inv cu [of "\<lambda>_. True"]
    by (simp add: budget_inv_def budget_tables_def releaseCharge_Some [OF Some])
  moreover have "jok (bs_live ?s)" "\<forall>d \<in> fst ` set (bs_live ?s). d < bs_nextCharge ?s"
    using inv by (auto simp: live budget_inv_def budget_tables_def)
  moreover have "budget_limits ?s"
    using inv b(1) unfolding budget_inv_def budget_limits_def cu
    by (auto simp: live set_jdel intro: within_limits_less)
  ultimately show ?thesis by (simp add: budget_inv_def budget_tables_def)
qed

lemma release_held:
  assumes inv: "budget_inv s"
  shows "ut_held k ob (bs_sockets s) \<Longrightarrow> ut_held k ob (bs_sockets (releaseCharge c s))"
    and "ut_held n on (bs_nodes s) \<Longrightarrow> ut_held n on (bs_nodes (releaseCharge c s))"
proof -
  have "(ut_held k ob (bs_sockets s) \<longrightarrow> ut_held k ob (bs_sockets (releaseCharge c s))) \<and>
        (ut_held n on (bs_nodes s) \<longrightarrow> ut_held n on (bs_nodes (releaseCharge c s)))"
  proof (cases "jget (bs_live s) c")
    case None
    then show ?thesis by (simp add: releaseCharge_None)
  next
    case (Some ch)
    have ok: "jok (bs_live s)" using inv by (simp add: budget_inv_def budget_tables_def)
    note led = ledger_release [OF ok Some releaseCharge_live]
    have "ut_inv (bs_sockets s) (sockLedger s)" "ut_inv (bs_nodes s) (nodeLedger s)"
      using inv by (simp_all add: budget_inv_def budget_tables_def)
    then show ?thesis
      unfolding led releaseCharge_Some [OF Some] by (auto intro: ut_release_held)
  qed
  then show "ut_held k ob (bs_sockets s) \<Longrightarrow> ut_held k ob (bs_sockets (releaseCharge c s))"
    and "ut_held n on (bs_nodes s) \<Longrightarrow> ut_held n on (bs_nodes (releaseCharge c s))" by auto
qed

lemma release_shrinks:
  assumes inv: "budget_inv s"
  shows "u_frames (chargedUsage (releaseCharge c s) P) \<le> u_frames (chargedUsage s P)"
    and "u_bytes (chargedUsage (releaseCharge c s) P) \<le> u_bytes (chargedUsage s P)"
proof -
  have "u_frames (chargedUsage (releaseCharge c s) P) \<le> u_frames (chargedUsage s P) \<and>
        u_bytes (chargedUsage (releaseCharge c s) P) \<le> u_bytes (chargedUsage s P)"
  proof (cases "jget (bs_live s) c")
    case (Some ch)
    have ok: "jok (bs_live s)" using inv by (simp add: budget_inv_def budget_tables_def)
    show ?thesis
      using chargedUsage_jdel [OF ok Some releaseCharge_live, of P] budget_inv_live(1) [OF inv Some]
      by (simp add: add_usage_def)
  qed (simp add: releaseCharge_None)
  then show "u_frames (chargedUsage (releaseCharge c s) P) \<le> u_frames (chargedUsage s P)"
    and "u_bytes (chargedUsage (releaseCharge c s) P) \<le> u_bytes (chargedUsage s P)" by auto
qed

section \<open>Charging\<close>

lemma chargedUsage_charge:
  assumes "bs_live s' = bs_live s @ [(c, ch)]"
  shows "chargedUsage s' P = (if P ch then add_usage (ch_bytes ch) (chargedUsage s P) else chargedUsage s P)"
  using assms by (simp add: chargedUsage_def add_usage_def)

lemma charge_budget_inv:
  assumes inv: "budget_inv s"
    and so: "ut_held ws so (bs_sockets s)" and no: "ut_held node no (bs_nodes s)"
    and frame: "0 \<le> b" "b \<le> INPUT_FRAME_MAX_BYTES"
    and sock: "u_frames (chargedUsage s (\<lambda>ch. ch_sock ch = ws)) < INPUT_SOCKET_MAX_FRAMES"
      "u_bytes (chargedUsage s (\<lambda>ch. ch_sock ch = ws)) + b \<le> INPUT_SOCKET_MAX_BYTES"
    and cap: "hasSharedCapacity (ut_obj (bs_nodes s) no) (bs_total s) b"
  shows "budget_inv (snd (chargeInput ws so node no b s))" (is "budget_inv ?s")
proof -
  let ?ch = "\<lparr>ch_sock = ws, ch_sockObj = so, ch_node = node, ch_nodeObj = no, ch_bytes = b\<rparr>"
  have live: "bs_live ?s = bs_live s @ [(bs_nextCharge s, ?ch)]" by (simp add: chargeInput_def)
  note cu = chargedUsage_charge [OF live]
  have led: "sockLedger ?s = add_mset (ws, so, b) (sockLedger s)"
    "nodeLedger ?s = add_mset (node, no, b) (nodeLedger s)"
    by (simp_all add: sockLedger_def nodeLedger_def live)
  have t: "ut_inv (bs_sockets s) (sockLedger s)" "ut_inv (bs_nodes s) (nodeLedger s)"
    "bs_total s = chargedUsage s (\<lambda>_. True)" "jok (bs_live s)"
    "\<forall>c \<in> fst ` set (bs_live s). c < bs_nextCharge s"
    using inv by (simp_all add: budget_inv_def budget_tables_def)
  have "budget_tables ?s"
    unfolding budget_tables_def led cu
    using ut_charge_inv [OF t(1) so, of b] ut_charge_inv [OF t(2) no, of b] t(3-5)
    by (auto simp: chargeInput_def ut_add_def ut_set_def)
  moreover have "ut_obj (bs_nodes s) no = chargedUsage s (\<lambda>ch. ch_node ch = node)"
    using ut_held_usage(1) [OF t(2) no] by (simp add: ledger_key_usage)
  then have "budget_limits ?s"
    using inv frame sock cap t(3) unfolding budget_inv_def budget_limits_def cu
    by (auto simp: live within_limits_def add_usage_def hasSharedCapacity_def)
  ultimately show ?thesis by (simp add: budget_inv_def)
qed

lemma close_budget_inv: "budget_inv (closeForInputLimit ws code s) = budget_inv s"
  by (simp add: closeForInputLimit_def budget_inv_def budget_tables_def budget_limits_def
      sockLedger_def nodeLedger_def chargedUsage_def)

lemma fetch_budget_inv:
  assumes "budget_inv s" "ut_fetch ws (bs_sockets s) = (so, socks)" "ut_fetch n (bs_nodes s) = (no, nds)"
  shows "budget_inv (s\<lparr>bs_sockets := socks, bs_nodes := nds\<rparr>)"
    and "ut_held ws so socks" "ut_held n no nds"
  using assms ut_fetch_inv [OF _ assms(2), of "sockLedger s"] ut_fetch_inv [OF _ assms(3), of "nodeLedger s"]
  by (simp_all add: budget_inv_def budget_tables_def budget_limits_def sockLedger_def nodeLedger_def
      chargedUsage_def)

section \<open>Interface: the owner of the retry queue\<close>

text \<open>
  What \<open>takeInputBudget\<close> relies on when it calls \<open>reclaimSharedCapacity\<close>: the owner of the retry
  queue may only give charges back.  Under that contract no call can break the accounting.
\<close>

locale capacity_reclaimer =
  fixes reclaim :: "'a budget_state_scheme \<Rightarrow> bool \<times> 'a budget_state_scheme"
  assumes reclaim_inv: "budget_inv s \<Longrightarrow> budget_inv (snd (reclaim s))"
    and reclaim_sock: "budget_inv s \<Longrightarrow> ut_held w ob (bs_sockets s) \<Longrightarrow>
                         ut_held w ob (bs_sockets (snd (reclaim s)))"
    and reclaim_node: "budget_inv s \<Longrightarrow> ut_held n ob (bs_nodes s) \<Longrightarrow>
                         ut_held n ob (bs_nodes (snd (reclaim s)))"
    and reclaim_frames: "budget_inv s \<Longrightarrow>
          u_frames (chargedUsage (snd (reclaim s)) P) \<le> u_frames (chargedUsage s P)"
    and reclaim_bytes: "budget_inv s \<Longrightarrow>
          u_bytes (chargedUsage (snd (reclaim s)) P) \<le> u_bytes (chargedUsage s P)"
begin

lemma take_inv:
  assumes inv: "budget_inv s"
  shows "budget_inv (snd (takeInputBudget (Some reclaim) ws payload s))"
proof (cases "wd_inputClosed (bs_data s ws) \<or> wd_accessRevoked (bs_data s ws)")
  case True
  then show ?thesis using inv by (simp add: takeInputBudget_def Let_def)
next
  case False
  let ?n = "wd_nodeId (bs_data s ws)" and ?b = "int (utf8_byte_length payload)"
  obtain so socks where so: "ut_fetch ws (bs_sockets s) = (so, socks)" by fastforce
  obtain no nds where no: "ut_fetch ?n (bs_nodes s) = (no, nds)" by fastforce
  define s1 where "s1 = s\<lparr>bs_sockets := socks, bs_nodes := nds\<rparr>"
  have i1: "budget_inv s1" and hs: "ut_held ws so (bs_sockets s1)" and hn: "ut_held ?n no (bs_nodes s1)"
    using fetch_budget_inv [OF inv so no] by (simp_all add: s1_def)
  obtain freed s2 where r: "reclaim s1 = (freed, s2)" by fastforce
  have u: "ut_obj socks so = chargedUsage s1 (\<lambda>ch. ch_sock ch = ws)"
    using i1 ut_held_usage(1) [OF _ hs, of "sockLedger s1"]
    by (simp add: budget_inv_def budget_tables_def ledger_key_usage s1_def)
  let ?over = "?b > INPUT_FRAME_MAX_BYTES \<or> u_frames (ut_obj socks so) \<ge> INPUT_SOCKET_MAX_FRAMES \<or>
    u_bytes (ut_obj socks so) + ?b > INPUT_SOCKET_MAX_BYTES"
  have i2: "budget_inv s2" using reclaim_inv [OF i1] r by simp
  have c1: "budget_inv (snd (chargeInput ws so ?n no ?b s1))"
    if "\<not> ?over" "hasSharedCapacity (ut_obj nds no) (bs_total s1) ?b"
    using that u by (intro charge_budget_inv [OF i1 hs hn]) (auto simp: s1_def)
  have c2: "budget_inv (snd (chargeInput ws so ?n no ?b s2))"
    if "\<not> ?over" "hasSharedCapacity (ut_obj (bs_nodes s2) no) (bs_total s2) ?b"
    using that u reclaim_sock [OF i1 hs] reclaim_node [OF i1 hn]
      reclaim_frames [OF i1, of "\<lambda>ch. ch_sock ch = ws"] reclaim_bytes [OF i1, of "\<lambda>ch. ch_sock ch = ws"]
    by (intro charge_budget_inv [OF i2]) (auto simp: r)
  have "takeInputBudget (Some reclaim) ws payload s =
      (if ?over then (None, closeForInputLimit ws (if ?b > INPUT_FRAME_MAX_BYTES then 1009 else 1013) s1)
       else if hasSharedCapacity (ut_obj nds no) (bs_total s1) ?b then chargeInput ws so ?n no ?b s1
       else if \<not> freed \<or> \<not> hasSharedCapacity (ut_obj (bs_nodes s2) no) (bs_total s2) ?b
       then (None, closeForInputLimit ws 1013 s2) else chargeInput ws so ?n no ?b s2)"
    using False unfolding takeInputBudget_def Let_def so no prod.case s1_def [symmetric] r option.case
    by simp
  then show ?thesis using i1 i2 c1 c2 by (simp add: close_budget_inv)
qed

end

text \<open>Without a callback the same holds: the caller that never frees anything.\<close>

definition noReclaim :: "'a budget_state_scheme \<Rightarrow> bool \<times> 'a budget_state_scheme" where
  "noReclaim s = (False, s)"

interpretation no_reclaim: capacity_reclaimer noReclaim
  by unfold_locales (simp_all add: noReclaim_def)

lemma takeInputBudget_None: "takeInputBudget None ws payload s = takeInputBudget (Some noReclaim) ws payload s"
  by (simp add: takeInputBudget_def noReclaim_def Let_def split: prod.split)

lemma take_None_inv: "budget_inv s \<Longrightarrow> budget_inv (snd (takeInputBudget None ws payload s))"
  unfolding takeInputBudget_None by (rule no_reclaim.take_inv)

section \<open>What a call changes\<close>

lemma takeInputBudget_refused_data:
  "wd_accessRevoked (bs_data (snd (takeInputBudget None ws payload s)) w) = wd_accessRevoked (bs_data s w)"
  by (simp add: takeInputBudget_def chargeInput_def closeForInputLimit_def Let_def split: prod.split)

end
