(* ===== verification/InputWindow.thy ===== *)
theory InputWindow
  imports Prelude
begin

text \<open>
  \<open>apps/server/api/src/api/ws/input-window.ts\<close>: the rolling window of completed input ids, per
  subshell and per client session, that makes a client's re-send safe after its ack was lost.
\<close>

section \<open>One session's window\<close>

definition WINDOW_SIZE :: nat where "WINDOW_SIZE = 512"
definition MAX_SESSIONS :: nat where "MAX_SESSIONS = 512"
definition MAX_SESSION_ID_LEN :: nat where "MAX_SESSION_ID_LEN = 64"

lemmas window_sizes = WINDOW_SIZE_def MAX_SESSIONS_def MAX_SESSION_ID_LEN_def

text \<open>\<open>IdWindow\<close>: a set for the consults and the FIFO order for the evictions.\<close>

record id_window =
  iw_seen :: "nat set"
  iw_order :: "nat list"

definition newIdWindow :: id_window where
  "newIdWindow = \<lparr>iw_seen = {}, iw_order = []\<rparr>"

definition iw_has :: "nat \<Rightarrow> id_window \<Rightarrow> bool" where
  "iw_has i w \<longleftrightarrow> i \<in> iw_seen w"

definition iw_add :: "nat \<Rightarrow> id_window \<Rightarrow> id_window" where
  "iw_add i w =
     (if i \<in> iw_seen w then w
      else let order = iw_order w @ [i]; seen = insert i (iw_seen w) in
        if length order > WINDOW_SIZE
        then \<lparr>iw_seen = seen - {hd order}, iw_order = tl order\<rparr>
        else \<lparr>iw_seen = seen, iw_order = order\<rparr>)"

definition iw_inv :: "id_window \<Rightarrow> bool" where
  "iw_inv w \<longleftrightarrow> iw_seen w = set (iw_order w) \<and> distinct (iw_order w) \<and>
                length (iw_order w) \<le> WINDOW_SIZE"

lemma iw_inv_new: "iw_inv newIdWindow"
  by (simp add: iw_inv_def newIdWindow_def)

lemma iw_inv_add:
  assumes "iw_inv w"
  shows "iw_inv (iw_add i w)"
proof -
  obtain x xs where "iw_order w @ [i] = x # xs" by (cases "iw_order w @ [i]") auto
  moreover from this have "set (x # xs) = insert i (set (iw_order w))"
    "length (x # xs) = Suc (length (iw_order w))"
    "distinct (iw_order w) \<Longrightarrow> i \<notin> set (iw_order w) \<Longrightarrow> distinct (x # xs)"
    by (metis append_Cons list.set(2) rotate1.simps(2) set_rotate1 append_Nil2 list.simps(15) set_append
        Un_insert_right list.set(1) sup_bot_right, metis length_append_singleton,
        metis distinct_append distinct_singleton disjoint_insert(1) empty_set inf_bot_right list.simps(15))
  ultimately show ?thesis
    using assms by (auto simp: iw_inv_def iw_add_def Let_def)
qed

text \<open>Fresh ids queue up and push the oldest out: the order is a suffix of everything committed.\<close>

definition lastN :: "nat \<Rightarrow> 'a list \<Rightarrow> 'a list" where
  "lastN n xs = drop (length xs - n) xs"

lemma lastN_snoc: "lastN n (lastN n xs @ [x]) = lastN n (xs @ [x])"
proof (cases "length xs \<le> n")
  case True
  then show ?thesis by (simp add: lastN_def)
next
  case False
  then have "length xs = n + (length xs - n)" by simp
  then obtain d where d: "length xs = n + d" by blast
  have "d \<le> length xs" using d by simp
  then show ?thesis using d by (cases n) (auto simp: lastN_def Suc_diff_le drop_Suc_Cons)
qed

lemma length_lastN [simp]: "length (lastN n xs) = min n (length xs)"
  by (simp add: lastN_def)

lemma set_lastN: "set (lastN n xs) \<subseteq> set xs"
  by (simp add: lastN_def set_drop_subset)

lemma iw_add_fresh_order:
  assumes inv: "iw_inv w" and new: "i \<notin> iw_seen w"
  shows "iw_order (iw_add i w) = lastN WINDOW_SIZE (iw_order w @ [i])"
proof (cases "length (iw_order w) = WINDOW_SIZE")
  case True
  then have "iw_order w \<noteq> []" "Suc 0 - WINDOW_SIZE = 0" by (auto simp: WINDOW_SIZE_def)
  then show ?thesis using True new by (simp add: iw_add_def Let_def lastN_def drop_Suc)
next
  case False
  then have "length (iw_order w) < WINDOW_SIZE" using inv by (simp add: iw_inv_def)
  then show ?thesis using new by (simp add: iw_add_def Let_def lastN_def)
qed

text \<open>Committing distinct ids from an empty window keeps exactly the newest ones.\<close>

lemma iw_adds_distinct:
  "distinct ids \<Longrightarrow>
     iw_inv (fold iw_add ids newIdWindow) \<and>
     iw_order (fold iw_add ids newIdWindow) = lastN WINDOW_SIZE ids"
proof (induction ids rule: rev_induct)
  case Nil
  then show ?case by (simp add: iw_inv_new) (simp add: newIdWindow_def lastN_def)
next
  case (snoc i ids)
  let ?w = "fold iw_add ids newIdWindow"
  have w: "iw_inv ?w" "iw_order ?w = lastN WINDOW_SIZE ids" using snoc by auto
  then have "i \<notin> iw_seen ?w"
    using snoc.prems set_lastN [of WINDOW_SIZE ids] by (auto simp: iw_inv_def)
  then show ?case using w by (simp add: iw_inv_add iw_add_fresh_order lastN_snoc)
qed

lemma iw_add_seen: "iw_seen (iw_add i w) \<subseteq> insert i (iw_seen w)"
  by (auto simp: iw_add_def Let_def)

lemma iw_adds_sound: "iw_has i (fold iw_add ids w) \<Longrightarrow> iw_has i w \<or> i \<in> set ids"
  by (induction ids arbitrary: w) (use iw_add_seen in \<open>fastforce simp: iw_has_def\<close>)+

lemma iw_add_has: "iw_inv w \<Longrightarrow> iw_has i (iw_add i w)"
proof (cases "i \<in> iw_seen w")
  case False
  assume inv: "iw_inv w"
  have "i \<in> set (iw_order (iw_add i w))"
    by (simp add: iw_add_fresh_order [OF inv False] lastN_def WINDOW_SIZE_def Suc_diff_le)
  then show ?thesis using iw_inv_add [OF inv, of i] by (simp add: iw_has_def iw_inv_def)
qed (simp add: iw_has_def iw_add_def)

section \<open>The session id a client may claim\<close>

text \<open>Code units of the alphabet \<open>[A-Za-z0-9_-]\<close>.\<close>

definition safe_sid_unit :: "16 word \<Rightarrow> bool" where
  "safe_sid_unit u \<longleftrightarrow>
     (65 \<le> u \<and> u \<le> 90) \<or> (97 \<le> u \<and> u \<le> 122) \<or> (48 \<le> u \<and> u \<le> 57) \<or> u = 95 \<or> u = 45"

definition sanitizeInputSession :: "jstring option \<Rightarrow> jstring option" where
  "sanitizeInputSession raw =
     (let cleaned = take MAX_SESSION_ID_LEN
                      (filter safe_sid_unit (case raw of None \<Rightarrow> [] | Some r \<Rightarrow> r))
      in if cleaned = [] then None else Some cleaned)"

section \<open>All windows\<close>

text \<open>Subshell id to session id to that session's window.\<close>

type_synonym session_map = "(jstring, id_window) jmap"
type_synonym windows = "(string, session_map) jmap"

definition inputWindowHas :: "string \<Rightarrow> jstring \<Rightarrow> nat \<Rightarrow> windows \<Rightarrow> bool \<times> windows" where
  "inputWindowHas sub sess i ws =
     (case jget ws sub of
        None \<Rightarrow> (False, ws)
      | Some sessions \<Rightarrow>
          (case jget sessions sess of
             None \<Rightarrow> (False, ws)
           | Some window \<Rightarrow>
               (iw_has i window, jset sub (jset sess window (jdel sess sessions)) ws)))"

text \<open>The eviction loop: the oldest key goes until the cap holds.\<close>

fun evictSessions :: "session_map \<Rightarrow> session_map" where
  "evictSessions [] = []"
| "evictSessions (p # m) = (if length (p # m) > MAX_SESSIONS then evictSessions m else p # m)"

text \<open>
  \<open>window.add(id)\<close> runs last, on the object: its effect shows in the map only when the entry is
  still there.
\<close>

definition inputWindowAdd :: "string \<Rightarrow> jstring \<Rightarrow> nat \<Rightarrow> windows \<Rightarrow> windows" where
  "inputWindowAdd sub sess i ws =
     (let sessions = (case jget ws sub of None \<Rightarrow> [] | Some m \<Rightarrow> m);
          existing = jget sessions sess;
          window = (case existing of None \<Rightarrow> newIdWindow | Some w \<Rightarrow> w);
          sessions1 = (case existing of None \<Rightarrow> sessions | Some _ \<Rightarrow> jdel sess sessions);
          sessions2 = evictSessions (jset sess window sessions1);
          sessions3 = (case jget sessions2 sess of
                         None \<Rightarrow> sessions2 | Some _ \<Rightarrow> jset sess (iw_add i window) sessions2)
      in jset sub sessions3 ws)"

definition windowOf :: "string \<Rightarrow> jstring \<Rightarrow> windows \<Rightarrow> id_window option" where
  "windowOf sub sess ws = (case jget ws sub of None \<Rightarrow> None | Some m \<Rightarrow> jget m sess)"

lemma evictSessions_drop: "evictSessions m = drop (length m - MAX_SESSIONS) m"
  by (induction m) (auto simp: drop_Cons' Suc_diff_le not_less)

lemma evict_append_last:
  "evictSessions (m @ [p]) = drop (Suc (length m) - MAX_SESSIONS) m @ [p]"
  by (simp add: evictSessions_drop window_sizes)

lemma inputWindowAdd_sessions:
  assumes "case jget ws sub of None \<Rightarrow> m = [] | Some m' \<Rightarrow> m = m'" "jok m"
  shows "inputWindowAdd sub sess i ws =
    jset sub (drop (Suc (length (jdel sess m)) - MAX_SESSIONS) (jdel sess m) @
      [(sess, iw_add i (case jget m sess of None \<Rightarrow> newIdWindow | Some w \<Rightarrow> w))]) ws"
proof -
  define w where "w = (case jget m sess of None \<Rightarrow> newIdWindow | Some w \<Rightarrow> w)"
  define r where "r = drop (Suc (length (jdel sess m)) - MAX_SESSIONS) (jdel sess m)"
  have m: "(case jget ws sub of None \<Rightarrow> [] | Some m \<Rightarrow> m) = m"
    using assms(1) by (simp split: option.splits)
  have d: "(case jget m sess of None \<Rightarrow> m | Some _ \<Rightarrow> jdel sess m) = jdel sess m"
    by (auto simp: jget_None_iff jdel_fresh split: option.splits)
  have k: "sess \<notin> fst ` set (jdel sess m)" by simp
  have r: "sess \<notin> fst ` set r" using k set_drop_subset unfolding r_def by fast
  have "evictSessions (jset sess w (jdel sess m)) = r @ [(sess, w)]"
    using k by (simp add: jset_fresh evict_append_last r_def)
  moreover have "jget (r @ [(sess, w)]) sess = Some w"
    using r by (simp add: jget_append jget_None_iff [THEN iffD2])
  moreover have "jset sess v (r @ [(sess, w)]) = r @ [(sess, v)]" for v
    using r by (induction r) auto
  ultimately show ?thesis
    unfolding inputWindowAdd_def m Let_def d w_def [symmetric] r_def [symmetric] by simp
qed

section \<open>Every session map stays well formed\<close>

definition windows_inv :: "windows \<Rightarrow> bool" where
  "windows_inv ws \<longleftrightarrow> jok ws \<and>
     (\<forall>(sub, m) \<in> set ws. jok m \<and> length m \<le> MAX_SESSIONS \<and> (\<forall>(sess, w) \<in> set m. iw_inv w))"

lemma windows_invD:
  assumes "windows_inv ws" "jget ws sub = Some m"
  shows "jok m" "length m \<le> MAX_SESSIONS" "\<And>sess w. jget m sess = Some w \<Longrightarrow> iw_inv w"
  using assms jget_SomeD [of ws sub m] jget_SomeD [of m] unfolding windows_inv_def by fast+

lemma windows_inv_jset:
  assumes "windows_inv ws" "jok m" "length m \<le> MAX_SESSIONS" "\<forall>(sess, w) \<in> set m. iw_inv w"
  shows "windows_inv (jset sub m ws)"
  using assms unfolding windows_inv_def by (auto simp: jok_set_jset)

text \<open>The sessions of one subshell, and what a touch or a commit leaves there.\<close>

definition sessionsOf :: "string \<Rightarrow> windows \<Rightarrow> session_map" where
  "sessionsOf sub ws = (case jget ws sub of None \<Rightarrow> [] | Some m \<Rightarrow> m)"

lemma sessionsOf_inv:
  assumes "windows_inv ws"
  shows "jok (sessionsOf sub ws)" "length (sessionsOf sub ws) \<le> MAX_SESSIONS"
    "(sess, w) \<in> set (sessionsOf sub ws) \<Longrightarrow> iw_inv w"
proof -
  note d = windows_invD [OF assms]
  show "jok (sessionsOf sub ws)" "length (sessionsOf sub ws) \<le> MAX_SESSIONS"
    using d by (auto simp: sessionsOf_def split: option.split)
  show "iw_inv w" if "(sess, w) \<in> set (sessionsOf sub ws)"
  proof (cases "jget ws sub")
    case (Some m)
    then show ?thesis using that d(1,3) [OF Some] by (simp add: sessionsOf_def jget_Some_iff)
  qed (use that in \<open>simp add: sessionsOf_def\<close>)
qed

lemma windowOf_sessionsOf: "windowOf sub sess ws = jget (sessionsOf sub ws) sess"
  by (simp add: windowOf_def sessionsOf_def split: option.split)

lemma sessionsOf_add:
  assumes "windows_inv ws"
  shows "sessionsOf sub' (inputWindowAdd sub sess i ws) =
    (if sub' = sub then
       drop (Suc (length (jdel sess (sessionsOf sub ws))) - MAX_SESSIONS) (jdel sess (sessionsOf sub ws)) @
       [(sess, iw_add i (case windowOf sub sess ws of None \<Rightarrow> newIdWindow | Some w \<Rightarrow> w))]
     else sessionsOf sub' ws)"
proof -
  have "case jget ws sub of None \<Rightarrow> sessionsOf sub ws = [] | Some m' \<Rightarrow> sessionsOf sub ws = m'"
    by (simp add: sessionsOf_def split: option.split)
  from inputWindowAdd_sessions [OF this sessionsOf_inv(1) [OF assms], of sess i] show ?thesis
    by (simp add: sessionsOf_def [of sub'] windowOf_sessionsOf)
qed

lemma inputWindowAdd_inv:
  assumes inv: "windows_inv ws"
  shows "windows_inv (inputWindowAdd sub sess i ws)"
proof -
  let ?m = "sessionsOf sub ws"
  let ?w = "case jget ?m sess of None \<Rightarrow> newIdWindow | Some w \<Rightarrow> w"
  let ?r = "drop (Suc (length (jdel sess ?m)) - MAX_SESSIONS) (jdel sess ?m)"
  note m = sessionsOf_inv(3) [OF inv, of _ _ sub] sessionsOf_inv(1,2) [OF inv, of sub]
  have c: "case jget ws sub of None \<Rightarrow> ?m = [] | Some m' \<Rightarrow> ?m = m'"
    by (simp add: sessionsOf_def split: option.split)
  have sub: "set ?r \<subseteq> set (jdel sess ?m)" by (rule set_drop_subset)
  have w: "iw_inv ?w"
    using m(1) jget_SomeD [of ?m sess] by (auto simp: iw_inv_new split: option.split)
  have "jok (jdel sess ?m)" using m by auto
  then have d: "jok ?r" by (simp add: drop_map [symmetric])
  have k: "sess \<notin> fst ` set ?r" using sub by (fastforce simp: set_jdel)
  have "windows_inv (jset sub (?r @ [(sess, iw_add i ?w)]) ws)"
  proof (rule windows_inv_jset [OF inv])
    show "jok (?r @ [(sess, iw_add i ?w)])" using d k by auto
    show "length (?r @ [(sess, iw_add i ?w)]) \<le> MAX_SESSIONS" by (simp add: MAX_SESSIONS_def)
    show "\<forall>(sess', w') \<in> set (?r @ [(sess, iw_add i ?w)]). iw_inv w'"
      using sub m(1) iw_inv_add [OF w] by (fastforce simp: set_jdel)
  qed
  then show ?thesis by (simp add: inputWindowAdd_sessions [OF c m(2)])
qed

lemma sessionsOf_has:
  assumes "windows_inv ws"
  shows "sessionsOf sub' (snd (inputWindowHas sub sess i ws)) =
    (if sub' = sub then
       (case windowOf sub sess ws of None \<Rightarrow> sessionsOf sub ws
        | Some w \<Rightarrow> jdel sess (sessionsOf sub ws) @ [(sess, w)])
     else sessionsOf sub' ws)"
  by (auto simp: inputWindowHas_def sessionsOf_def windowOf_def jset_fresh split: option.splits)

lemma inputWindowHas_inv:
  assumes inv: "windows_inv ws"
  shows "windows_inv (snd (inputWindowHas sub sess i ws))"
proof (cases "jget ws sub")
  case (Some m)
  note m = windows_invD [OF inv Some]
  show ?thesis
  proof (cases "jget m sess")
    case (Some w)
    have "mset m = add_mset (sess, w) (mset (jdel sess m))" by (rule jdel_mset [OF m(1) Some])
    then have "length m = Suc (length (jdel sess m))" by (metis size_add_mset size_mset)
    moreover have "\<forall>(s, w) \<in> set m. iw_inv w" using m by (auto simp: jget_Some_iff)
    moreover have "jset sess w (jdel sess m) = jdel sess m @ [(sess, w)]" by (simp add: jset_fresh)
    moreover have "jok (jdel sess m)" using m(1) by auto
    ultimately show ?thesis
      using \<open>jget ws sub = Some m\<close> Some m inv
      by (auto simp: inputWindowHas_def set_jdel intro!: windows_inv_jset)
  qed (use Some inv in \<open>simp add: inputWindowHas_def\<close>)
qed (use inv in \<open>simp add: inputWindowHas_def\<close>)

lemma inputWindowHas_windowOf:
  "windowOf sub' sess' (snd (inputWindowHas sub sess i ws)) = windowOf sub' sess' ws"
  by (auto simp: inputWindowHas_def windowOf_def split: option.splits)

lemma inputWindowHas_fst:
  "fst (inputWindowHas sub sess i ws) \<longleftrightarrow> (\<exists>w. windowOf sub sess ws = Some w \<and> iw_has i w)"
  by (auto simp: inputWindowHas_def windowOf_def split: option.splits)

lemma windowOf_add_same:
  assumes "windows_inv ws"
  shows "windowOf sub sess (inputWindowAdd sub sess i ws) =
     Some (iw_add i (case windowOf sub sess ws of None \<Rightarrow> newIdWindow | Some w \<Rightarrow> w))"
proof -
  have "sess \<notin> fst ` set (drop n (jdel sess m))" for n and m :: session_map
    using set_drop_subset [of n "jdel sess m"] by (fastforce simp: set_jdel)
  then show ?thesis
    unfolding windowOf_sessionsOf [of _ _ "inputWindowAdd sub sess i ws"] sessionsOf_add [OF assms]
    by (simp add: jget_append jget_None_iff [THEN iffD2])
qed

lemma commit_recognised:
  assumes inv: "windows_inv ws"
  shows "fst (inputWindowHas sub sess i (inputWindowAdd sub sess i ws))"
proof -
  have "iw_inv w" if "windowOf sub sess ws = Some w" for w
    using that sessionsOf_inv(3) [OF inv] jget_SomeD by (fastforce simp: windowOf_sessionsOf)
  then show ?thesis
    by (auto simp: inputWindowHas_fst windowOf_add_same [OF inv] iw_inv_new intro!: iw_add_has split: option.split)
qed

lemma windowOf_add_other:
  assumes inv: "windows_inv ws" and ne: "(sub', sess') \<noteq> (sub, sess)"
    and some: "windowOf sub' sess' (inputWindowAdd sub sess i ws) = Some w"
  shows "windowOf sub' sess' ws = Some w"
proof (cases "sub' = sub")
  case True
  let ?r = "drop (Suc (length (jdel sess (sessionsOf sub ws))) - MAX_SESSIONS) (jdel sess (sessionsOf sub ws))"
  have "jget ?r sess' = Some w"
    using some True ne unfolding windowOf_sessionsOf [of _ _ "inputWindowAdd sub sess i ws"]
      sessionsOf_add [OF inv] by (auto simp: jget_append split: option.splits if_splits)
  then have "(sess', w) \<in> set (jdel sess (sessionsOf sub ws))"
    using set_drop_subset jget_SomeD by fast
  then show ?thesis
    using True sessionsOf_inv(1) [OF inv] by (simp add: set_jdel windowOf_sessionsOf jget_Some_iff)
next
  case False
  then show ?thesis using some sessionsOf_add [OF inv, of sub' sub] by (simp add: windowOf_sessionsOf)
qed

section \<open>Any sequence of consults and commits\<close>

datatype window_event = Consult string jstring nat | Commit string jstring nat

fun window_step :: "window_event \<Rightarrow> windows \<Rightarrow> windows" where
  "window_step (Consult sub sess i) ws = snd (inputWindowHas sub sess i ws)"
| "window_step (Commit sub sess i) ws = inputWindowAdd sub sess i ws"

interpretation window_machine: event_machine window_step windows_inv
proof unfold_locales
  fix ws e assume "windows_inv ws"
  then show "windows_inv (window_step e ws)"
    by (cases e) (auto intro: inputWindowAdd_inv inputWindowHas_inv)
qed

lemma windows_inv_Nil: "windows_inv []"
  by (simp add: windows_inv_def)

lemmas windows_run_inv = window_machine.run_inv [OF windows_inv_Nil]

text \<open>What a session committed, in order, and the sessions of a subshell that ever committed.\<close>

fun commitsOf :: "string \<Rightarrow> jstring \<Rightarrow> window_event list \<Rightarrow> nat list" where
  "commitsOf sub sess [] = []"
| "commitsOf sub sess (Consult _ _ _ # es) = commitsOf sub sess es"
| "commitsOf sub sess (Commit sub' sess' i # es) =
     (if sub' = sub \<and> sess' = sess then i # commitsOf sub sess es else commitsOf sub sess es)"

fun committers :: "string \<Rightarrow> window_event list \<Rightarrow> jstring set" where
  "committers sub [] = {}"
| "committers sub (Consult _ _ _ # es) = committers sub es"
| "committers sub (Commit sub' sess' i # es) =
     (if sub' = sub then insert sess' (committers sub es) else committers sub es)"

lemma commitsOf_append: "commitsOf sub sess (es @ fs) = commitsOf sub sess es @ commitsOf sub sess fs"
  by (induction sub sess es rule: commitsOf.induct) auto

lemma committers_append: "committers sub (es @ fs) = committers sub es \<union> committers sub fs"
  by (induction sub es rule: committers.induct) auto

lemma finite_committers: "finite (committers sub es)"
  by (induction sub es rule: committers.induct) auto

lemma run_sound:
  "windowOf sub sess (fold window_step es []) = Some w \<Longrightarrow> iw_seen w \<subseteq> set (commitsOf sub sess es)"
proof (induction es arbitrary: w rule: rev_induct)
  case (snoc e es)
  let ?ws = "fold window_step es []"
  show ?case
  proof (cases e)
    case (Consult sub' sess' i)
    then show ?thesis using snoc by (simp add: inputWindowHas_windowOf commitsOf_append)
  next
    case (Commit sub' sess' i)
    show ?thesis
    proof (cases "(sub, sess) = (sub', sess')")
      case True
      have "w = iw_add i (case windowOf sub sess ?ws of None \<Rightarrow> newIdWindow | Some v \<Rightarrow> v)"
        using snoc.prems Commit True by (simp add: windowOf_add_same [OF windows_run_inv])
      then show ?thesis using Commit True snoc.IH iw_add_seen [of i]
        by (fastforce simp: commitsOf_append newIdWindow_def split: option.splits)
    next
      case False
      then show ?thesis
        using snoc Commit windowOf_add_other [OF windows_run_inv False, of i es] by (auto simp: commitsOf_append)
    qed
  qed
qed (simp add: windowOf_def)

lemma run_exact:
  assumes "card (committers sub es) \<le> MAX_SESSIONS"
  shows "fst ` set (sessionsOf sub (fold window_step es [])) \<subseteq> committers sub es \<and>
    windowOf sub sess (fold window_step es []) =
      (if commitsOf sub sess es = [] then None else Some (fold iw_add (commitsOf sub sess es) newIdWindow))"
  using assms
proof (induction es rule: rev_induct)
  case (snoc e es)
  let ?ws = "fold window_step es []"
  have "card (committers sub es) \<le> card (committers sub (es @ [e]))"
    by (intro card_mono) (auto simp: finite_committers committers_append)
  then have IH: "fst ` set (sessionsOf sub ?ws) \<subseteq> committers sub es"
    "windowOf sub sess ?ws =
      (if commitsOf sub sess es = [] then None else Some (fold iw_add (commitsOf sub sess es) newIdWindow))"
    using snoc by simp_all
  note wi = windows_run_inv [of es]
  show ?case
  proof (cases e)
    case (Consult sub' sess' i)
    have "fst ` set (sessionsOf sub (snd (inputWindowHas sub' sess' i ?ws))) = fst ` set (sessionsOf sub ?ws)"
      using jget_None_iff [of "sessionsOf sub ?ws" sess']
      by (auto simp: sessionsOf_has [OF wi] windowOf_sessionsOf split: option.split)
    then show ?thesis
      using Consult IH by (simp add: inputWindowHas_windowOf commitsOf_append committers_append)
  next
    case (Commit sub' sess' i)
    let ?m = "sessionsOf sub ?ws"
    show ?thesis
    proof (cases "sub' = sub")
      case False
      then show ?thesis using Commit IH
        by (simp add: commitsOf_append committers_append sessionsOf_add [OF wi] windowOf_sessionsOf)
    next
      case True
      have "distinct (jkeys (jdel sess' ?m))" using sessionsOf_inv(1) [OF wi, of sub] by (intro jok_jdel)
      then have "length (jdel sess' ?m) = card (fst ` set ?m - {sess'})"
        by (metis distinct_card length_map fst_set_jdel set_map)
      also have "\<dots> \<le> card (committers sub es - {sess'})"
        using IH(1) by (intro card_mono) (auto simp: finite_committers)
      finally have "Suc (length (jdel sess' ?m)) \<le> card (insert sess' (committers sub es))"
        by (simp add: card.insert_remove finite_committers)
      then have "Suc (length (jdel sess' ?m)) - MAX_SESSIONS = 0"
        using snoc.prems Commit True by (simp add: committers_append)
      then have new: "sessionsOf sub (inputWindowAdd sub' sess' i ?ws) =
         jdel sess' ?m @ [(sess', iw_add i (case windowOf sub sess' ?ws of None \<Rightarrow> newIdWindow | Some w \<Rightarrow> w))]"
        using True by (simp add: sessionsOf_add [OF wi])
      have "jget (jdel sess' ?m) sess' = None" by simp
      then have "windowOf sub sess (inputWindowAdd sub' sess' i ?ws) =
         (if sess = sess' then Some (iw_add i (case windowOf sub sess ?ws of None \<Rightarrow> newIdWindow | Some w \<Rightarrow> w))
          else windowOf sub sess ?ws)"
        by (auto simp: windowOf_sessionsOf [of _ _ "inputWindowAdd sub' sess' i ?ws"] new jget_append
            simp del: jget_jdel split: option.split)
          (auto simp: windowOf_sessionsOf)
      moreover have "fst ` set (sessionsOf sub (inputWindowAdd sub' sess' i ?ws)) = insert sess' (fst ` set ?m)"
        unfolding new by auto
      ultimately show ?thesis
        using Commit True IH by (auto simp: commitsOf_append committers_append)
    qed
  qed
qed (simp add: windowOf_def sessionsOf_def)

section \<open>Properties\<close>

text \<open>
  C20: A re-sent input is recognised exactly when its id is among the newest 512 its session
  committed.  For any interleaving of consults and commits by up to 512 sessions of a subshell (and
  any number on others), a session whose ids are fresh is answered from a window that holds
  precisely its last 512 ids: a retry within the client's queue cap is always absorbed, and an id
  that was never written is never swallowed.
\<close>

theorem window_recognises_newest:
  assumes "distinct (commitsOf sub sess es)"
    and "card (committers sub es) \<le> MAX_SESSIONS"
  shows "fst (inputWindowHas sub sess i (fold window_step es [])) \<longleftrightarrow>
           i \<in> set (lastN WINDOW_SIZE (commitsOf sub sess es))"
proof -
  have "iw_has i (fold iw_add (commitsOf sub sess es) newIdWindow) \<longleftrightarrow>
        i \<in> set (lastN WINDOW_SIZE (commitsOf sub sess es))"
    using iw_adds_distinct [OF assms(1)] by (simp add: iw_has_def iw_inv_def)
  then show ?thesis
    using run_exact [OF assms(2), of sess] by (auto simp: inputWindowHas_fst lastN_def)
qed

theorem window_recognises_newest_witness:
  "\<not> fst (inputWindowHas ''s'' [65] 2 (fold window_step
      [Commit ''s'' [65] 1, Consult ''s'' [66] 1, Commit ''s'' [66] 2, Commit ''s'' [65] 3] []))"
  by (subst window_recognises_newest)
    (simp_all add: lastN_def MAX_SESSIONS_def WINDOW_SIZE_def card_insert_if)

text \<open>
  Whatever the evictions, an id is reported as already written only if this very session of
  this very subshell committed it, the sessions kept for a subshell never exceed 512, each keeps at
  most 512 ids, and a commit is recognised at once.
\<close>

theorem window_sound_and_bounded:
  "(fst (inputWindowHas sub sess i (fold window_step es [])) \<longrightarrow> i \<in> set (commitsOf sub sess es)) \<and>
   length (sessionsOf sub (fold window_step es [])) \<le> MAX_SESSIONS \<and>
   (\<forall>w. windowOf sub sess (fold window_step es []) = Some w \<longrightarrow>
      finite (iw_seen w) \<and> card (iw_seen w) \<le> WINDOW_SIZE) \<and>
   fst (inputWindowHas sub sess i (fold window_step (es @ [Commit sub sess i]) []))"
proof (intro conjI)
  note wi = windows_run_inv [of es]
  show "fst (inputWindowHas sub sess i (fold window_step es [])) \<longrightarrow> i \<in> set (commitsOf sub sess es)"
    using run_sound by (fastforce simp: inputWindowHas_fst iw_has_def)
  show "length (sessionsOf sub (fold window_step es [])) \<le> MAX_SESSIONS"
    by (rule sessionsOf_inv(2) [OF wi])
  have w: "iw_inv w" if "windowOf sub sess (fold window_step es []) = Some w" for w
    using that sessionsOf_inv(3) [OF wi] jget_SomeD by (fastforce simp: windowOf_sessionsOf)
  then show "\<forall>w. windowOf sub sess (fold window_step es []) = Some w \<longrightarrow>
      finite (iw_seen w) \<and> card (iw_seen w) \<le> WINDOW_SIZE"
    by (auto simp: iw_inv_def distinct_card)
  show "fst (inputWindowHas sub sess i (fold window_step (es @ [Commit sub sess i]) []))"
    by (simp add: commit_recognised [OF wi])
qed

theorem window_sound_and_bounded_witness:
  "1 \<in> set (commitsOf ''s'' [65] [Commit ''s'' [65] 1])"
proof -
  have "fst (inputWindowHas ''s'' [65] 1 (fold window_step [Commit ''s'' [65] 1] []))"
    using window_sound_and_bounded [of "''s''" "[65]" 1 "[]"] by simp
  then show ?thesis
    using window_sound_and_bounded [of "''s''" "[65]" 1 "[Commit ''s'' [65] 1]"] by blast
qed

text \<open>
  C21: Whatever a client puts in its \<open>sid\<close> parameter, the session id it gets is drawn from
  \<open>[A-Za-z0-9_-]\<close>, between 1 and 64 units long, and sanitising it again changes nothing; a safe
  non-empty parameter of at most 64 units is taken as it is.
\<close>

theorem sanitized_session_safe:
  "(case sanitizeInputSession raw of None \<Rightarrow> True
    | Some sid \<Rightarrow> (\<forall>u \<in> set sid. safe_sid_unit u) \<and> sid \<noteq> [] \<and> length sid \<le> 64 \<and>
                  sanitizeInputSession (Some sid) = Some sid) \<and>
   ((\<forall>u \<in> set r. safe_sid_unit u) \<and> r \<noteq> [] \<and> length r \<le> 64 \<longrightarrow>
      sanitizeInputSession (Some r) = Some r)"
proof -
  have safe: "u \<in> set (take n (filter safe_sid_unit r)) \<Longrightarrow> safe_sid_unit u" for u n r
    by (auto dest: in_set_takeD)
  have id: "(\<forall>u \<in> set r. safe_sid_unit u) \<and> r \<noteq> [] \<and> length r \<le> 64 \<Longrightarrow>
           sanitizeInputSession (Some r) = Some r" for r
    by (simp add: sanitizeInputSession_def MAX_SESSION_ID_LEN_def filter_True)
  moreover have "(\<forall>u \<in> set sid. safe_sid_unit u) \<and> sid \<noteq> [] \<and> length sid \<le> 64"
    if "sanitizeInputSession raw = Some sid" for sid
  proof -
    define q where "q = (case raw of None \<Rightarrow> [] | Some r \<Rightarrow> r)"
    have "sid = take 64 (filter safe_sid_unit q)" "sid \<noteq> []"
      using that unfolding sanitizeInputSession_def Let_def MAX_SESSION_ID_LEN_def q_def [symmetric]
      by (auto split: if_split_asm)
    moreover from this(1) have "length sid \<le> 64" by simp
    moreover have "\<forall>u \<in> set sid. safe_sid_unit u"
      by (rule ballI, rule safe [of _ 64 q]) (simp only: \<open>sid = _\<close>)
    ultimately show ?thesis by blast
  qed
  ultimately show ?thesis by (cases "sanitizeInputSession raw") simp_all
qed

theorem sanitized_session_safe_witness:
  "sanitizeInputSession (Some [97, 46, 98]) = Some [97, 98] \<and>
   sanitizeInputSession (Some [97, 98]) = Some [97, 98]"
proof
  show "sanitizeInputSession (Some [97, 46, 98]) = Some [97, 98]"
    by (simp add: sanitizeInputSession_def safe_sid_unit_def MAX_SESSION_ID_LEN_def)
  have "(\<forall>u \<in> set [97, 98]. safe_sid_unit u) \<and> [97, 98] \<noteq> ([] :: jstring) \<and> length [97 :: 16 word, 98] \<le> 64"
    by (simp add: safe_sid_unit_def)
  then show "sanitizeInputSession (Some [97, 98]) = Some [97, 98]"
    by (rule sanitized_session_safe [THEN conjunct2, THEN mp])
qed

end
