(* ===== verification/InputHold.thy ===== *)
theory InputHold
  imports InputBudget InputWindow
begin

text \<open>
  \<open>apps/server/api/src/api/ws/input-hold.ts\<close> and the input branch of
  \<open>handleSubshellMessage\<close> / \<open>cleanupSubshellWs\<close> in \<open>subshell-ws.ts\<close>: terminal input from the frame to
  the pane and back to the ack.  Handlers run to completion one at a time; a call of
  \<open>launcher.sendInput\<close> is a pending promise that a later event settles either way, in any order.
\<close>

section \<open>State\<close>

text \<open>A held input and one session's queue.  Both are objects the closures share: heap cells.\<close>

record hold_entry =
  he_id :: nat
  he_payload :: jstring
  he_sock :: nat
  he_charge :: nat
  he_inFlight :: bool

record session_hold =
  sh_queue :: "nat list"
  sh_draining :: bool

text \<open>\<open>nodeId \<rightarrow> subshellId \<rightarrow> sessionId \<rightarrow> hold\<close>.\<close>

type_synonym hold_map = "(string, (string, (jstring, nat) jmap) jmap) jmap"

text \<open>
  What a settled promise continues with: a first write (the \<open>then/catch/finally\<close> chain), a write
  without id, the \<open>await\<close> of a drain loop, and the \<open>finally(release)\<close> that runs after the others.
\<close>

datatype pending =
    FreshWrite nat jstring nat jstring nat
  | BareWrite nat
  | DrainWrite nat nat jstring
  | ReleaseLater nat

record pane_write =
  pw_sock :: nat
  pw_sub :: string
  pw_sess :: jstring
  pw_id :: "nat option"
  pw_payload :: jstring

text \<open>
  The logs record what leaves the module: the calls of \<open>sendInput\<close>, the writes that resolved, the
  \<open>ack\<close> frames.
\<close>

record input_state = budget_state +
  is_attached :: "nat set"
  is_windows :: windows
  is_holds :: hold_map
  is_hold :: "nat \<Rightarrow> session_hold"
  is_nextHold :: nat
  is_entry :: "nat \<Rightarrow> hold_entry"
  is_nextEntry :: nat
  is_pending :: "(nat, pending) jmap"
  is_nextPending :: nat
  is_writes :: "pane_write list"
  is_landed :: "(string \<times> jstring \<times> nat) list"
  is_acks :: "(nat \<times> nat) list"

definition LOCAL_NODE_ID :: string where "LOCAL_NODE_ID = ''local''"

section \<open>The hold map\<close>

abbreviation subsAt :: "string \<Rightarrow> hold_map \<Rightarrow> (string, (jstring, nat) jmap) jmap" where
  "subsAt n m \<equiv> (case jget m n of None \<Rightarrow> [] | Some subs \<Rightarrow> subs)"

abbreviation sessAt :: "string \<Rightarrow> (string, (jstring, nat) jmap) jmap \<Rightarrow> (jstring, nat) jmap" where
  "sessAt sub subs \<equiv> (case jget subs sub of None \<Rightarrow> [] | Some sessions \<Rightarrow> sessions)"

definition holdAt :: "string \<Rightarrow> string \<Rightarrow> jstring \<Rightarrow> hold_map \<Rightarrow> nat option" where
  "holdAt n sub sess m = jget (sessAt sub (subsAt n m)) sess"

definition putHold :: "string \<Rightarrow> string \<Rightarrow> jstring \<Rightarrow> nat \<Rightarrow> hold_map \<Rightarrow> hold_map" where
  "putHold n sub sess h m =
     (let subs = subsAt n m; sessions = sessAt sub subs
      in jset n (jset sub (jset sess h sessions) subs) m)"

text \<open>\<open>sessions.delete\<close>, and the emptied levels above it.\<close>

definition delHold :: "string \<Rightarrow> string \<Rightarrow> jstring \<Rightarrow> hold_map \<Rightarrow> hold_map" where
  "delHold n sub sess m =
     (let subs = subsAt n m; sessions = jdel sess (sessAt sub subs);
          subs' = (if sessions = [] then jdel sub subs else jset sub sessions subs)
      in if subs' = [] then jdel n m else jset n subs' m)"

text \<open>The nested iteration of \<open>reclaimOneHeldInput\<close> and \<open>refireInputHoldsForNode\<close>.\<close>

definition subSessions :: "string \<Rightarrow> (string, (jstring, nat) jmap) jmap \<Rightarrow> ((string \<times> string \<times> jstring) \<times> nat) list" where
  "subSessions n subs = concat (map (\<lambda>(sub, sessions). map (\<lambda>(sess, h). ((n, sub, sess), h)) sessions) subs)"

definition heldSessions :: "hold_map \<Rightarrow> ((string \<times> string \<times> jstring) \<times> nat) list" where
  "heldSessions m = concat (map (\<lambda>(n, subs). subSessions n subs) m)"

section \<open>Small state changes\<close>

definition setQueue :: "nat \<Rightarrow> nat list \<Rightarrow> input_state \<Rightarrow> input_state" where
  "setQueue h q s = s\<lparr>is_hold := (is_hold s)(h := (is_hold s h)\<lparr>sh_queue := q\<rparr>)\<rparr>"

definition setDraining :: "nat \<Rightarrow> bool \<Rightarrow> input_state \<Rightarrow> input_state" where
  "setDraining h b s = s\<lparr>is_hold := (is_hold s)(h := (is_hold s h)\<lparr>sh_draining := b\<rparr>)\<rparr>"

definition setInFlight :: "nat \<Rightarrow> bool \<Rightarrow> input_state \<Rightarrow> input_state" where
  "setInFlight e b s = s\<lparr>is_entry := (is_entry s)(e := (is_entry s e)\<lparr>he_inFlight := b\<rparr>)\<rparr>"

definition addPending :: "pending \<Rightarrow> input_state \<Rightarrow> input_state" where
  "addPending p s = s\<lparr>is_pending := is_pending s @ [(is_nextPending s, p)],
                      is_nextPending := Suc (is_nextPending s)\<rparr>"

definition sendInput :: "nat \<Rightarrow> jstring \<Rightarrow> nat option \<Rightarrow> jstring \<Rightarrow> input_state \<Rightarrow> input_state" where
  "sendInput ws sess i payload s =
     s\<lparr>is_writes := is_writes s @
        [\<lparr>pw_sock = ws, pw_sub = wd_subshellId (bs_data s ws), pw_sess = sess, pw_id = i, pw_payload = payload\<rparr>]\<rparr>"

text \<open>\<open>sendFrame\<close>: nothing reaches a revoked socket.\<close>

definition sendAck :: "nat \<Rightarrow> nat \<Rightarrow> input_state \<Rightarrow> input_state" where
  "sendAck ws i s =
     (if wd_accessRevoked (bs_data s ws) then s else s\<lparr>is_acks := is_acks s @ [(ws, i)]\<rparr>)"

text \<open>A resolved write is committed to the window before its ack.\<close>

definition commitWrite :: "nat \<Rightarrow> jstring \<Rightarrow> nat \<Rightarrow> input_state \<Rightarrow> input_state" where
  "commitWrite ws sess i s =
     (let sub = wd_subshellId (bs_data s ws) in
      sendAck ws i (s\<lparr>is_windows := inputWindowAdd sub sess i (is_windows s)\<rparr>))"

section \<open>The drain\<close>

text \<open>
  The loop from its test up to the next \<open>await\<close>: entries of dead sockets are released and dropped,
  the first living one is written and awaited; an empty queue ends the loop and its \<open>finally\<close> clears
  the guard.  The list argument is the hold's queue.
\<close>

fun drainLoop :: "nat \<Rightarrow> jstring \<Rightarrow> nat list \<Rightarrow> input_state \<Rightarrow> input_state" where
  "drainLoop h sess [] s = setDraining h False s"
| "drainLoop h sess (e # q) s =
     (let en = is_entry s e; d = bs_data s (he_sock en) in
      if wd_accessRevoked d \<or> wd_inputClosed d
      then drainLoop h sess q (setQueue h q (releaseCharge (he_charge en) s))
      else addPending (DrainWrite h e sess)
             (sendInput (he_sock en) sess (Some (he_id en)) (he_payload en) (setInFlight e True s)))"

definition drain :: "nat \<Rightarrow> jstring \<Rightarrow> input_state \<Rightarrow> input_state" where
  "drain h sess s =
     (if sh_draining (is_hold s h) then s
      else drainLoop h sess (sh_queue (is_hold s h)) (setDraining h True s))"

definition drainResolved :: "nat \<Rightarrow> nat \<Rightarrow> jstring \<Rightarrow> input_state \<Rightarrow> input_state" where
  "drainResolved h e sess s =
     (let en = is_entry s e;
          s1 = releaseCharge (he_charge en) (setInFlight e False s);
          s2 = setQueue h (tl (sh_queue (is_hold s1 h))) s1;
          s3 = commitWrite (he_sock en) sess (he_id en) s2
      in drainLoop h sess (sh_queue (is_hold s3 h)) s3)"

definition drainRejected :: "nat \<Rightarrow> nat \<Rightarrow> input_state \<Rightarrow> input_state" where
  "drainRejected h e s =
     (let s1 = (if e \<in> set (sh_queue (is_hold s h)) then s else releaseCharge (he_charge (is_entry s e)) s)
      in setDraining h False (setInFlight e False s1))"

section \<open>The operations of the hold\<close>

definition hasHeldInput :: "string \<Rightarrow> string \<Rightarrow> jstring \<Rightarrow> input_state \<Rightarrow> bool" where
  "hasHeldInput n sub sess s =
     (case holdAt n sub sess (is_holds s) of None \<Rightarrow> False | Some h \<Rightarrow> sh_queue (is_hold s h) \<noteq> [])"

fun releaseIdle :: "nat list \<Rightarrow> input_state \<Rightarrow> input_state" where
  "releaseIdle [] s = s"
| "releaseIdle (e # q) s =
     releaseIdle q (if he_inFlight (is_entry s e) then s else releaseCharge (he_charge (is_entry s e)) s)"

definition dropInputHolds :: "string \<Rightarrow> string \<Rightarrow> jstring \<Rightarrow> input_state \<Rightarrow> input_state" where
  "dropInputHolds n sub sess s =
     (case holdAt n sub sess (is_holds s) of
        None \<Rightarrow> s
      | Some h \<Rightarrow>
          (let s1 = setQueue h [] (releaseIdle (sh_queue (is_hold s h)) s)
           in s1\<lparr>is_holds := delHold n sub sess (is_holds s1)\<rparr>))"

definition getHold :: "string \<Rightarrow> string \<Rightarrow> jstring \<Rightarrow> input_state \<Rightarrow> nat \<times> input_state" where
  "getHold n sub sess s =
     (case holdAt n sub sess (is_holds s) of
        Some h \<Rightarrow> (h, s)
      | None \<Rightarrow>
          (let h = is_nextHold s in
           (h, s\<lparr>is_holds := putHold n sub sess h (is_holds s),
                 is_hold := (is_hold s)(h := \<lparr>sh_queue = [], sh_draining = False\<rparr>),
                 is_nextHold := Suc h\<rparr>)))"

definition pushEntry :: "nat \<Rightarrow> nat \<Rightarrow> jstring \<Rightarrow> nat \<Rightarrow> nat \<Rightarrow> input_state \<Rightarrow> input_state" where
  "pushEntry h i payload ws c s =
     (let e = is_nextEntry s in
      setQueue h (sh_queue (is_hold s h) @ [e])
        (s\<lparr>is_entry := (is_entry s)(e :=
               \<lparr>he_id = i, he_payload = payload, he_sock = ws, he_charge = c, he_inFlight = False\<rparr>),
           is_nextEntry := Suc e\<rparr>))"

definition holdFailedInput ::
  "string \<Rightarrow> string \<Rightarrow> jstring \<Rightarrow> nat \<Rightarrow> jstring \<Rightarrow> nat \<Rightarrow> input_state \<Rightarrow> input_state" where
  "holdFailedInput n sub sess i payload ws s =
     (if wd_accessRevoked (bs_data s ws) \<or> wd_inputClosed (bs_data s ws) then s
      else
        (let (h, s1) = getHold n sub sess s in
         if \<exists>e \<in> set (sh_queue (is_hold s1 h)). he_id (is_entry s1 e) = i
         then drain h sess s1
         else
           (case takeInputBudget None ws payload s1 of
              (None, s2) \<Rightarrow> dropInputHolds n sub sess s2
            | (Some c, s2) \<Rightarrow> drain h sess (pushEntry h i payload ws c s2))))"

definition idleEntry :: "input_state \<Rightarrow> nat \<Rightarrow> nat option" where
  "idleEntry s h = find (\<lambda>e. \<not> he_inFlight (is_entry s e)) (sh_queue (is_hold s h))"

definition reclaimOneHeldInput :: "input_state \<Rightarrow> bool \<times> input_state" where
  "reclaimOneHeldInput s =
     (case find (\<lambda>(k, h). idleEntry s h \<noteq> None) (heldSessions (is_holds s)) of
        None \<Rightarrow> (False, s)
      | Some ((n, sub, sess), h) \<Rightarrow>
          (let e = the (idleEntry s h);
               s1 = setQueue h (remove1 e (sh_queue (is_hold s h))) s;
               s2 = releaseCharge (he_charge (is_entry s e)) s1
           in (True, if sh_queue (is_hold s2 h) = []
                     then s2\<lparr>is_holds := delHold n sub sess (is_holds s2)\<rparr> else s2)))"

definition refireInputHoldsForNode :: "string \<Rightarrow> input_state \<Rightarrow> input_state" where
  "refireInputHoldsForNode n s =
     fold (\<lambda>((_, _, sess), h) s. if sh_queue (is_hold s h) \<noteq> [] then drain h sess s else s)
       (subSessions n (subsAt n (is_holds s))) s"

section \<open>The message handler's input branch\<close>

definition handleInputFrame :: "nat \<Rightarrow> jstring \<Rightarrow> nat option \<Rightarrow> input_state \<Rightarrow> input_state" where
  "handleInputFrame ws payload fid s =
     (let d = bs_data s ws; n = wd_nodeId d; sub = wd_subshellId d; sess = wd_session d in
      if ws \<notin> is_attached s \<or> wd_accessRevoked d \<or> wd_inputClosed d then s
      else if payload = [] then s
      else if \<not> wd_canInput d then s
      else
        (case fid of
           Some i \<Rightarrow>
             (let (seen, wins) = inputWindowHas sub sess i (is_windows s); s1 = s\<lparr>is_windows := wins\<rparr> in
              if seen then sendAck ws i s1
              else if hasHeldInput n sub sess s1 then holdFailedInput n sub sess i payload ws s1
              else
                (case takeInputBudget (Some reclaimOneHeldInput) ws payload s1 of
                   (None, s2) \<Rightarrow> s2
                 | (Some c, s2) \<Rightarrow>
                     addPending (FreshWrite ws sess i payload c) (sendInput ws sess (Some i) payload s2)))
         | None \<Rightarrow>
             (case takeInputBudget (Some reclaimOneHeldInput) ws payload s of
                (None, s2) \<Rightarrow> s2
              | (Some c, s2) \<Rightarrow> addPending (BareWrite c) (sendInput ws sess None payload s2))))"

text \<open>What runs when a promise settles; \<open>ok\<close> says which way.\<close>

fun continueWrite :: "pending \<Rightarrow> bool \<Rightarrow> input_state \<Rightarrow> input_state" where
  "continueWrite (FreshWrite ws sess i payload c) ok s =
     (if ok then addPending (ReleaseLater c) (commitWrite ws sess i s)
      else
        (let s1 = releaseCharge c s; d = bs_data s ws in
         addPending (ReleaseLater c)
           (if wd_nodeId d \<noteq> LOCAL_NODE_ID
            then holdFailedInput (wd_nodeId d) (wd_subshellId d) sess i payload ws s1 else s1)))"
| "continueWrite (BareWrite c) ok s = addPending (ReleaseLater c) s"
| "continueWrite (DrainWrite h e sess) ok s = (if ok then drainResolved h e sess s else drainRejected h e s)"
| "continueWrite (ReleaseLater c) ok s = releaseCharge c s"

text \<open>
  The write a promise stands for, if it carries an id.  Its resolution is logged where the promise settles,
  before and apart from what the code does with it; a rejection is not logged.
\<close>

fun resolvedWrite :: "pending \<Rightarrow> input_state \<Rightarrow> (string \<times> jstring \<times> nat) list" where
  "resolvedWrite (FreshWrite ws sess i payload c) s = [(wd_subshellId (bs_data s ws), sess, i)]"
| "resolvedWrite (DrainWrite h e sess) s =
     [(wd_subshellId (bs_data s (he_sock (is_entry s e))), sess, he_id (is_entry s e))]"
| "resolvedWrite (BareWrite c) s = []"
| "resolvedWrite (ReleaseLater c) s = []"

definition logResolved :: "pending \<Rightarrow> bool \<Rightarrow> input_state \<Rightarrow> input_state" where
  "logResolved w ok s = (if ok then s\<lparr>is_landed := is_landed s @ resolvedWrite w s\<rparr> else s)"

definition settle :: "nat \<Rightarrow> bool \<Rightarrow> input_state \<Rightarrow> input_state" where
  "settle p ok s =
     (case jget (is_pending s) p of
        None \<Rightarrow> s
      | Some w \<Rightarrow> continueWrite w ok ((logResolved w ok s)\<lparr>is_pending := jdel p (is_pending s)\<rparr>))"

text \<open>The parts of \<open>cleanupSubshellWs\<close> and of the access lease that bear on input.\<close>

definition cleanupInput :: "nat \<Rightarrow> input_state \<Rightarrow> input_state" where
  "cleanupInput ws s =
     (let d = bs_data s ws;
          s1 = s\<lparr>bs_data := (bs_data s)(ws := d\<lparr>wd_inputClosed := True\<rparr>)\<rparr>
      in if ws \<in> is_attached s then dropInputHolds (wd_nodeId d) (wd_subshellId d) (wd_session d) s1 else s1)"

definition revokeAccess :: "nat \<Rightarrow> input_state \<Rightarrow> input_state" where
  "revokeAccess ws s =
     s\<lparr>bs_data := (bs_data s)(ws := (bs_data s ws)\<lparr>wd_accessRevoked := True, wd_canInput := False\<rparr>)\<rparr>"

text \<open>An attach assigns the socket's data unless the socket was closed or revoked before.\<close>

definition attachSocket :: "nat \<Rightarrow> input_state \<Rightarrow> input_state" where
  "attachSocket ws s =
     (if wd_inputClosed (bs_data s ws) \<or> wd_accessRevoked (bs_data s ws) then s
      else s\<lparr>is_attached := insert ws (is_attached s)\<rparr>)"

datatype input_event =
    Attach nat
  | Frame nat jstring "nat option"
  | Settle nat bool
  | NodeReady string
  | Close nat
  | Revoke nat

fun input_step :: "input_event \<Rightarrow> input_state \<Rightarrow> input_state" where
  "input_step (Attach ws) s = attachSocket ws s"
| "input_step (Frame ws payload fid) s = handleInputFrame ws payload fid s"
| "input_step (Settle p ok) s = settle p ok s"
| "input_step (NodeReady n) s = refireInputHoldsForNode n s"
| "input_step (Close ws) s = cleanupInput ws s"
| "input_step (Revoke ws) s = revokeAccess ws s"

text \<open>The state at start-up; \<open>d\<close> is what an attach of each socket will have assigned.\<close>

definition input_init :: "(nat \<Rightarrow> ws_data) \<Rightarrow> input_state" where
  "input_init d =
     \<lparr>bs_data = d, bs_sockets = ut_empty, bs_nodes = ut_empty, bs_total = no_usage, bs_live = [],
      bs_nextCharge = 0, bs_closes = [],
      is_attached = {}, is_windows = [], is_holds = [],
      is_hold = (\<lambda>_. \<lparr>sh_queue = [], sh_draining = False\<rparr>), is_nextHold = 0,
      is_entry = (\<lambda>_. \<lparr>he_id = 0, he_payload = [], he_sock = 0, he_charge = 0, he_inFlight = False\<rparr>),
      is_nextEntry = 0, is_pending = [], is_nextPending = 0, is_writes = [], is_landed = [], is_acks = []\<rparr>"

definition input_run :: "(nat \<Rightarrow> ws_data) \<Rightarrow> input_event list \<Rightarrow> input_state" where
  "input_run d es = fold input_step es (input_init d)"

section \<open>What each change leaves alone\<close>

lemma releaseCharge_input [simp]:
  fixes s :: input_state
  shows
    "is_attached (releaseCharge c s) = is_attached s"
    "is_windows (releaseCharge c s) = is_windows s"
    "is_holds (releaseCharge c s) = is_holds s"
    "is_hold (releaseCharge c s) = is_hold s"
    "is_nextHold (releaseCharge c s) = is_nextHold s"
    "is_entry (releaseCharge c s) = is_entry s"
    "is_nextEntry (releaseCharge c s) = is_nextEntry s"
    "is_pending (releaseCharge c s) = is_pending s"
    "is_nextPending (releaseCharge c s) = is_nextPending s"
    "is_writes (releaseCharge c s) = is_writes s"
    "is_landed (releaseCharge c s) = is_landed s"
    "is_acks (releaseCharge c s) = is_acks s"
  by (simp_all add: releaseCharge_def split: option.split)

lemma closeForInputLimit_input [simp]:
  fixes s :: input_state
  shows
    "is_attached (closeForInputLimit ws code s) = is_attached s"
    "is_windows (closeForInputLimit ws code s) = is_windows s"
    "is_holds (closeForInputLimit ws code s) = is_holds s"
    "is_hold (closeForInputLimit ws code s) = is_hold s"
    "is_nextHold (closeForInputLimit ws code s) = is_nextHold s"
    "is_entry (closeForInputLimit ws code s) = is_entry s"
    "is_nextEntry (closeForInputLimit ws code s) = is_nextEntry s"
    "is_pending (closeForInputLimit ws code s) = is_pending s"
    "is_nextPending (closeForInputLimit ws code s) = is_nextPending s"
    "is_writes (closeForInputLimit ws code s) = is_writes s"
    "is_landed (closeForInputLimit ws code s) = is_landed s"
    "is_acks (closeForInputLimit ws code s) = is_acks s"
  by (simp_all add: closeForInputLimit_def)

lemma chargeInput_input [simp]:
  fixes s :: input_state
  shows
    "is_attached (snd (chargeInput ws so n no b s)) = is_attached s"
    "is_windows (snd (chargeInput ws so n no b s)) = is_windows s"
    "is_holds (snd (chargeInput ws so n no b s)) = is_holds s"
    "is_hold (snd (chargeInput ws so n no b s)) = is_hold s"
    "is_nextHold (snd (chargeInput ws so n no b s)) = is_nextHold s"
    "is_entry (snd (chargeInput ws so n no b s)) = is_entry s"
    "is_nextEntry (snd (chargeInput ws so n no b s)) = is_nextEntry s"
    "is_pending (snd (chargeInput ws so n no b s)) = is_pending s"
    "is_nextPending (snd (chargeInput ws so n no b s)) = is_nextPending s"
    "is_writes (snd (chargeInput ws so n no b s)) = is_writes s"
    "is_landed (snd (chargeInput ws so n no b s)) = is_landed s"
    "is_acks (snd (chargeInput ws so n no b s)) = is_acks s"
  by (simp_all add: chargeInput_def)

text \<open>The accounting ignores everything but its own tables.\<close>

lemma budget_inv_cong:
  assumes "bs_sockets s = bs_sockets s'" "bs_nodes s = bs_nodes s'" "bs_total s = bs_total s'"
    "bs_live s = bs_live s'" "bs_nextCharge s = bs_nextCharge s'"
  shows "budget_inv s = budget_inv s'"
  using assms by (simp add: budget_inv_def budget_tables_def budget_limits_def sockLedger_def
      nodeLedger_def chargedUsage_def)

text \<open>The tables of the accounting, as one value.\<close>

definition budgetPart :: "input_state \<Rightarrow> nat utable \<times> string utable \<times> usage \<times> (nat, charge) jmap \<times> nat" where
  "budgetPart s = (bs_sockets s, bs_nodes s, bs_total s, bs_live s, bs_nextCharge s)"

lemma budget_inv_part: "budgetPart s = budgetPart s' \<Longrightarrow> budget_inv s = budget_inv s'"
  by (intro budget_inv_cong) (simp_all add: budgetPart_def)

lemma budgetPart_updates [simp]:
  "budgetPart (s\<lparr>is_attached := x1\<rparr>) = budgetPart s" "budgetPart (s\<lparr>is_windows := x2\<rparr>) = budgetPart s"
  "budgetPart (s\<lparr>is_holds := x3\<rparr>) = budgetPart s" "budgetPart (s\<lparr>is_hold := x4\<rparr>) = budgetPart s"
  "budgetPart (s\<lparr>is_nextHold := x5\<rparr>) = budgetPart s" "budgetPart (s\<lparr>is_entry := x6\<rparr>) = budgetPart s"
  "budgetPart (s\<lparr>is_nextEntry := x7\<rparr>) = budgetPart s" "budgetPart (s\<lparr>is_pending := x8\<rparr>) = budgetPart s"
  "budgetPart (s\<lparr>is_nextPending := x9\<rparr>) = budgetPart s" "budgetPart (s\<lparr>is_writes := x10\<rparr>) = budgetPart s"
  "budgetPart (s\<lparr>is_landed := x11\<rparr>) = budgetPart s" "budgetPart (s\<lparr>is_acks := x12\<rparr>) = budgetPart s"
  "budgetPart (s\<lparr>bs_data := x13\<rparr>) = budgetPart s"
  by (simp_all add: budgetPart_def)

lemma budgetPart_small [simp]:
  "budgetPart (setQueue h q s) = budgetPart s" "budgetPart (setDraining h b s) = budgetPart s"
  "budgetPart (setInFlight e b s) = budgetPart s" "budgetPart (addPending p s) = budgetPart s"
  "budgetPart (sendInput ws sess i payload s) = budgetPart s" "budgetPart (sendAck ws j s) = budgetPart s"
  "budgetPart (commitWrite ws sess j s) = budgetPart s" "budgetPart (pushEntry h j payload ws c s) = budgetPart s"
  "budgetPart (snd (getHold n sub sess s)) = budgetPart s" "budgetPart (attachSocket ws s) = budgetPart s"
  "budgetPart (revokeAccess ws s) = budgetPart s"
  by (simp_all add: setQueue_def setDraining_def setInFlight_def addPending_def sendInput_def sendAck_def
      commitWrite_def pushEntry_def getHold_def attachSocket_def revokeAccess_def Let_def budgetPart_def
      split: option.split)

lemma budget_inv_small [simp]:
  "budget_inv (setQueue h q s) = budget_inv s" "budget_inv (setDraining h b s) = budget_inv s"
  "budget_inv (setInFlight e b s) = budget_inv s" "budget_inv (addPending p s) = budget_inv s"
  "budget_inv (sendInput ws sess i payload s) = budget_inv s" "budget_inv (sendAck ws j s) = budget_inv s"
  "budget_inv (commitWrite ws sess j s) = budget_inv s" "budget_inv (pushEntry h j payload ws c s) = budget_inv s"
  "budget_inv (snd (getHold n sub sess s)) = budget_inv s" "budget_inv (attachSocket ws s) = budget_inv s"
  "budget_inv (revokeAccess ws s) = budget_inv s"
  "budget_inv (s\<lparr>is_holds := x3\<rparr>) = budget_inv s" "budget_inv (s\<lparr>is_pending := x8\<rparr>) = budget_inv s"
  "budget_inv (s\<lparr>is_windows := x2\<rparr>) = budget_inv s" "budget_inv (s\<lparr>bs_data := x13\<rparr>) = budget_inv s"
  "budget_inv (s\<lparr>is_landed := x11\<rparr>) = budget_inv s"
  by (intro budget_inv_part; simp)+

lemma logResolved_budget [simp]: "budget_inv (logResolved w ok s) = budget_inv s"
  by (simp add: logResolved_def)

lemma logResolved_frame [simp]:
  "bs_data (logResolved w ok s) = bs_data s" "is_pending (logResolved w ok s) = is_pending s"
  "is_entry (logResolved w ok s) = is_entry s" "is_hold (logResolved w ok s) = is_hold s"
  "is_holds (logResolved w ok s) = is_holds s" "is_windows (logResolved w ok s) = is_windows s"
  "is_acks (logResolved w ok s) = is_acks s" "is_writes (logResolved w ok s) = is_writes s"
  "is_nextPending (logResolved w ok s) = is_nextPending s" "is_nextEntry (logResolved w ok s) = is_nextEntry s"
  "is_attached (logResolved w ok s) = is_attached s" "is_nextHold (logResolved w ok s) = is_nextHold s"
  "is_landed (logResolved w ok s) = is_landed s @ (if ok then resolvedWrite w s else [])"
  by (simp_all add: logResolved_def)

section \<open>The accounting survives every operation\<close>

lemma drainLoop_budget: "budget_inv s \<Longrightarrow> budget_inv (drainLoop h sess q s)"
  by (induction h sess q s rule: drainLoop.induct) (simp_all add: Let_def release_budget_inv)

lemma drain_budget: "budget_inv s \<Longrightarrow> budget_inv (drain h sess s)"
  by (simp add: drain_def drainLoop_budget)

lemma releaseIdle_budget: "budget_inv s \<Longrightarrow> budget_inv (releaseIdle q s)"
  by (induction q s rule: releaseIdle.induct) (simp_all add: release_budget_inv)

lemma dropInputHolds_budget: "budget_inv s \<Longrightarrow> budget_inv (dropInputHolds n sub sess s)"
  by (simp add: dropInputHolds_def Let_def releaseIdle_budget split: option.split)

lemma holdFailedInput_budget: "budget_inv s \<Longrightarrow> budget_inv (holdFailedInput n sub sess i payload ws s)"
proof -
  assume inv: "budget_inv s"
  obtain h s1 where g: "getHold n sub sess s = (h, s1)" by fastforce
  then have s1: "budget_inv s1" using inv budget_inv_small(9) [of n sub sess s] by simp
  obtain r s2 where t: "takeInputBudget None ws payload s1 = (r, s2)" by fastforce
  then have "budget_inv s2" using take_None_inv [OF s1, of ws payload] by simp
  then show ?thesis using inv s1
    by (simp add: holdFailedInput_def g t drain_budget dropInputHolds_budget split: option.split)
qed

lemma reclaim_cases:
  obtains (none) "reclaimOneHeldInput s = (False, s)" "\<forall>(k, h) \<in> set (heldSessions (is_holds s)). idleEntry s h = None"
  | (some) n sub sess h e where
      "((n, sub, sess), h) \<in> set (heldSessions (is_holds s))" "idleEntry s h = Some e"
      "e \<in> set (sh_queue (is_hold s h))" "\<not> he_inFlight (is_entry s e)"
      "reclaimOneHeldInput s =
         (True, let s2 = releaseCharge (he_charge (is_entry s e)) (setQueue h (remove1 e (sh_queue (is_hold s h))) s)
                in if sh_queue (is_hold s2 h) = []
                   then s2\<lparr>is_holds := delHold n sub sess (is_holds s2)\<rparr> else s2)"
proof (cases "find (\<lambda>(k, h). idleEntry s h \<noteq> None) (heldSessions (is_holds s))")
  case None
  show ?thesis
  proof (rule none)
    show "reclaimOneHeldInput s = (False, s)" unfolding reclaimOneHeldInput_def None by simp
    show "\<forall>(k, h) \<in> set (heldSessions (is_holds s)). idleEntry s h = None"
      using None by (auto simp: find_None_iff)
  qed
next
  case (Some r)
  obtain n sub sess h where r: "r = ((n, sub, sess), h)" by (metis surj_pair)
  have "r \<in> set (heldSessions (is_holds s))" "idleEntry s h \<noteq> None"
    using find_SomeD [OF Some] r by auto
  moreover from this(2) obtain e where e: "idleEntry s h = Some e" by blast
  moreover from e have "e \<in> set (sh_queue (is_hold s h))" "\<not> he_inFlight (is_entry s e)"
    by (auto simp: idleEntry_def dest: find_SomeD)
  moreover have "reclaimOneHeldInput s =
         (True, let s2 = releaseCharge (he_charge (is_entry s e)) (setQueue h (remove1 e (sh_queue (is_hold s h))) s)
                in if sh_queue (is_hold s2 h) = []
                   then s2\<lparr>is_holds := delHold n sub sess (is_holds s2)\<rparr> else s2)"
    unfolding reclaimOneHeldInput_def Some r option.case prod.case e option.sel Let_def by simp
  ultimately show ?thesis using some r by simp
qed

text \<open>The owner of the retry queue only gives charges back.\<close>

lemma chargedUsage_part: "budgetPart s = budgetPart s' \<Longrightarrow> chargedUsage s P = chargedUsage s' P"
  by (simp add: budgetPart_def chargedUsage_def)

lemma reclaim_budgetPart:
  "\<exists>t. budgetPart t = budgetPart s \<and>
     (budgetPart (snd (reclaimOneHeldInput s)) = budgetPart s \<or>
      (\<exists>c. budgetPart (snd (reclaimOneHeldInput s)) = budgetPart (releaseCharge c t)))"
  by (cases s rule: reclaim_cases) (auto simp: Let_def intro: budgetPart_small)

interpretation held_input: capacity_reclaimer reclaimOneHeldInput
proof unfold_locales
  fix s :: input_state and w n ob and P :: "charge \<Rightarrow> bool"
  assume inv: "budget_inv s"
  let ?s = "snd (reclaimOneHeldInput s)"
  obtain t where t: "budgetPart t = budgetPart s"
    and r: "budgetPart ?s = budgetPart s \<or> (\<exists>c. budgetPart ?s = budgetPart (releaseCharge c t))"
    using reclaim_budgetPart by blast
  have it: "budget_inv t" using inv budget_inv_part [OF t] by simp
  from r show "budget_inv ?s"
    using inv release_budget_inv [OF it] by (elim disjE exE) (blast dest: budget_inv_part [THEN iffD2])+
  show "ut_held w ob (bs_sockets ?s)" if "ut_held w ob (bs_sockets s)" for w
    using that r t release_held(1) [OF it, of w ob] by (auto simp: budgetPart_def)
  show "ut_held n ob (bs_nodes ?s)" if "ut_held n ob (bs_nodes s)" for n
    using that r t release_held(2) [OF it, of n ob] by (auto simp: budgetPart_def)
  show "u_frames (chargedUsage ?s P) \<le> u_frames (chargedUsage s P)"
    and "u_bytes (chargedUsage ?s P) \<le> u_bytes (chargedUsage s P)"
  proof -
    have "chargedUsage ?s P = chargedUsage s P \<or> (\<exists>c. chargedUsage ?s P = chargedUsage (releaseCharge c t) P)"
      using r by (blast dest: chargedUsage_part)
    then show "u_frames (chargedUsage ?s P) \<le> u_frames (chargedUsage s P)"
      "u_bytes (chargedUsage ?s P) \<le> u_bytes (chargedUsage s P)"
      using release_shrinks [OF it, of _ P] chargedUsage_part [OF t, of P] by auto
  qed
qed

lemma handleInputFrame_budget: "budget_inv s \<Longrightarrow> budget_inv (handleInputFrame ws payload fid s)"
proof -
  assume inv: "budget_inv s"
  have take: "budget_inv s2" if "takeInputBudget (Some reclaimOneHeldInput) ws payload s1 = (r, s2)" "budget_inv s1"
    for r s1 s2 using held_input.take_inv [OF that(2), of ws payload] that(1) by simp
  show ?thesis
    using inv unfolding handleInputFrame_def Let_def
    by (auto split: option.split prod.split intro!: holdFailedInput_budget dest!: take)
qed

lemma continueWrite_budget: "budget_inv s \<Longrightarrow> budget_inv (continueWrite w ok s)"
  by (cases w) (simp_all add: Let_def release_budget_inv holdFailedInput_budget drainResolved_def
      drainRejected_def drainLoop_budget)

lemma refire_budget: "budget_inv s \<Longrightarrow> budget_inv (refireInputHoldsForNode n s)"
proof -
  assume "budget_inv s"
  have "budget_inv (fold (\<lambda>((_, _, sess), h) s. if sh_queue (is_hold s h) \<noteq> [] then drain h sess s else s) xs s)"
    if "budget_inv s" for xs :: "((string \<times> string \<times> jstring) \<times> nat) list" and s
    using that by (induction xs arbitrary: s) (auto simp: drain_budget)
  with \<open>budget_inv s\<close> show ?thesis by (simp add: refireInputHoldsForNode_def)
qed

interpretation input_budget: event_machine input_step budget_inv
proof unfold_locales
  fix s :: input_state and e assume "budget_inv s"
  then show "budget_inv (input_step e s)"
    by (cases e) (simp_all add: handleInputFrame_budget settle_def continueWrite_budget refire_budget
        cleanupInput_def Let_def dropInputHolds_budget split: option.split)
qed

lemma input_init_budget: "budget_inv (input_init d)"
  by (auto simp: budget_inv_def budget_tables_def budget_limits_def input_init_def ut_inv_empty
      sockLedger_def nodeLedger_def chargedUsage_def no_usage_def within_limits_def input_limits)

lemma input_run_budget: "budget_inv (input_run d es)"
  unfolding input_run_def by (rule input_budget.run_inv [OF input_init_budget])

section \<open>The hold map as a lookup\<close>

definition nested_ok :: "hold_map \<Rightarrow> bool" where
  "nested_ok m \<longleftrightarrow> jok m \<and> (\<forall>(n, subs) \<in> set m. jok subs \<and> (\<forall>(sub, sessions) \<in> set subs. jok sessions))"

lemma nested_ok_subs:
  assumes "nested_ok m"
  shows "jok (subsAt n m) \<and> (\<forall>(sub, ses) \<in> set (subsAt n m). jok ses)"
proof (cases "jget m n")
  case (Some subs)
  then have "(n, subs) \<in> set m" by (rule jget_SomeD)
  then show ?thesis using assms Some unfolding nested_ok_def by auto
qed simp

lemma nested_ok_sessions:
  assumes "nested_ok m"
  shows "jok (sessAt sub (subsAt n m))"
proof (cases "jget (subsAt n m) sub")
  case (Some ses)
  then have "(sub, ses) \<in> set (subsAt n m)" by (rule jget_SomeD)
  then show ?thesis using nested_ok_subs [OF assms, of n] Some by auto
qed simp

lemma nested_ok_jset:
  assumes "nested_ok m" "jok subs" "\<forall>(sub, sessions) \<in> set subs. jok sessions"
  shows "nested_ok (jset n subs m)"
  using assms unfolding nested_ok_def by (auto simp: jok_set_jset)

lemma nested_ok_jdel: "nested_ok m \<Longrightarrow> nested_ok (jdel n m)"
  unfolding nested_ok_def by (auto simp: set_jdel)

lemma holdAt_put:
  "holdAt n' sub' sess' (putHold n sub sess h m) =
     (if n' = n \<and> sub' = sub \<and> sess' = sess then Some h else holdAt n' sub' sess' m)"
  by (simp add: holdAt_def putHold_def Let_def)

lemma nested_ok_put: "nested_ok m \<Longrightarrow> nested_ok (putHold n sub sess h m)"
  unfolding putHold_def Let_def
  using nested_ok_subs [of m n] nested_ok_sessions [of m n sub]
  by (intro nested_ok_jset) (auto simp: jok_set_jset)

lemma holdAt_del:
  "holdAt n' sub' sess' (delHold n sub sess m) =
     (if n' = n \<and> sub' = sub \<and> sess' = sess then None else holdAt n' sub' sess' m)"
proof -
  let ?s = "jdel sess (sessAt sub (subsAt n m))"
  let ?u = "if ?s = [] then jdel sub (subsAt n m) else jset sub ?s (subsAt n m)"
  have s: "jget ?s sess' = (if sess' = sess then None else jget (sessAt sub (subsAt n m)) sess')" by simp
  have u: "jget (sessAt sub' ?u) sess' = (if sub' = sub then jget ?s sess' else jget (sessAt sub' (subsAt n m)) sess')"
  proof (cases "?s = []")
    case True
    then have "jget ?s sess' = None" by simp
    then show ?thesis using True by (simp del: jget_jdel) simp
  qed simp
  have "subsAt n' (if ?u = [] then jdel n m else jset n ?u m) = (if n' = n then ?u else subsAt n' m)"
    by (cases "?u = []") simp_all
  then have "holdAt n' sub' sess' (delHold n sub sess m) =
      jget (sessAt sub' (if n' = n then ?u else subsAt n' m)) sess'"
    unfolding holdAt_def delHold_def Let_def by simp
  then show ?thesis using s u unfolding holdAt_def by (cases "n' = n") (simp_all split: if_split_asm)
qed

lemma nested_ok_del: "nested_ok m \<Longrightarrow> nested_ok (delHold n sub sess m)"
proof -
  assume ok: "nested_ok m"
  note a = nested_ok_subs [OF ok, of n] nested_ok_sessions [OF ok, of n sub]
  have s: "jok (jdel sess (sessAt sub (subsAt n m)))" using a(2) by (rule jok_jdel)
  have d: "jok (jdel sub (subsAt n m)) \<and> (\<forall>(sub', sessions) \<in> set (jdel sub (subsAt n m)). jok sessions)"
    using a by (auto simp: set_jdel)
  have j: "jok (jset sub ses (subsAt n m)) \<and> (\<forall>(sub', sessions) \<in> set (jset sub ses (subsAt n m)). jok sessions)"
    if "jok ses" for ses
    using a that by (auto simp: jok_set_jset)
  show ?thesis
    unfolding delHold_def Let_def using ok d j [OF s]
    by (auto intro: nested_ok_jset nested_ok_jdel simp del: jdel_Nil)
qed

lemma heldSessions_holdAt:
  assumes "nested_ok m"
  shows "((n, sub, sess), h) \<in> set (heldSessions m) \<longleftrightarrow> holdAt n sub sess m = Some h"
proof -
  have ok: "jok m" "\<And>n subs. (n, subs) \<in> set m \<Longrightarrow> jok subs"
    "\<And>n subs sub ses. (n, subs) \<in> set m \<Longrightarrow> (sub, ses) \<in> set subs \<Longrightarrow> jok ses"
    using assms unfolding nested_ok_def by blast+
  have "((n, sub, sess), h) \<in> set (heldSessions m) \<longleftrightarrow>
      (\<exists>subs ses. (n, subs) \<in> set m \<and> (sub, ses) \<in> set subs \<and> (sess, h) \<in> set ses)"
    unfolding heldSessions_def subSessions_def by force
  also have "\<dots> \<longleftrightarrow> (\<exists>subs ses. jget m n = Some subs \<and> jget subs sub = Some ses \<and> jget ses sess = Some h)"
    using ok by (metis jget_Some_iff)
  also have "\<dots> \<longleftrightarrow> holdAt n sub sess m = Some h"
    by (auto simp: holdAt_def split: option.splits)
  finally show ?thesis .
qed

lemma subSessions_holdAt:
  assumes "nested_ok m"
  shows "((n', sub, sess), h) \<in> set (subSessions n (subsAt n m)) \<longleftrightarrow> n' = n \<and> holdAt n sub sess m = Some h"
proof -
  have ok: "jok (subsAt n m)" "\<And>sub ses. (sub, ses) \<in> set (subsAt n m) \<Longrightarrow> jok ses"
    using nested_ok_subs [OF assms, of n] by blast+
  have "((n', sub, sess), h) \<in> set (subSessions n (subsAt n m)) \<longleftrightarrow>
      n' = n \<and> (\<exists>ses. (sub, ses) \<in> set (subsAt n m) \<and> (sess, h) \<in> set ses)"
    unfolding subSessions_def by force
  also have "\<dots> \<longleftrightarrow> n' = n \<and> (\<exists>ses. jget (subsAt n m) sub = Some ses \<and> jget ses sess = Some h)"
    using ok by (metis jget_Some_iff)
  also have "\<dots> \<longleftrightarrow> n' = n \<and> holdAt n sub sess m = Some h"
    by (auto simp: holdAt_def split: option.splits)
  finally show ?thesis .
qed

section \<open>The branches of the message handler\<close>

abbreviation inputLive :: "nat \<Rightarrow> jstring \<Rightarrow> input_state \<Rightarrow> bool" where
  "inputLive ws payload s \<equiv> ws \<in> is_attached s \<and> \<not> wd_accessRevoked (bs_data s ws) \<and>
     \<not> wd_inputClosed (bs_data s ws) \<and> payload \<noteq> [] \<and> wd_canInput (bs_data s ws)"

lemma handle_cases:
  obtains (ignored) "\<not> inputLive ws payload s" "handleInputFrame ws payload fid s = s"
  | (known) i wins where "inputLive ws payload s" "fid = Some i"
      "inputWindowHas (wd_subshellId (bs_data s ws)) (wd_session (bs_data s ws)) i (is_windows s) = (True, wins)"
      "handleInputFrame ws payload fid s = sendAck ws i (s\<lparr>is_windows := wins\<rparr>)"
  | (joins) i wins where "inputLive ws payload s" "fid = Some i"
      "inputWindowHas (wd_subshellId (bs_data s ws)) (wd_session (bs_data s ws)) i (is_windows s) = (False, wins)"
      "hasHeldInput (wd_nodeId (bs_data s ws)) (wd_subshellId (bs_data s ws)) (wd_session (bs_data s ws))
         (s\<lparr>is_windows := wins\<rparr>)"
      "handleInputFrame ws payload fid s =
         holdFailedInput (wd_nodeId (bs_data s ws)) (wd_subshellId (bs_data s ws)) (wd_session (bs_data s ws))
           i payload ws (s\<lparr>is_windows := wins\<rparr>)"
  | (takes) wins r s2 where "inputLive ws payload s"
      "\<And>i. fid = Some i \<Longrightarrow>
         inputWindowHas (wd_subshellId (bs_data s ws)) (wd_session (bs_data s ws)) i (is_windows s) = (False, wins) \<and>
         \<not> hasHeldInput (wd_nodeId (bs_data s ws)) (wd_subshellId (bs_data s ws)) (wd_session (bs_data s ws)) s"
      "fid = None \<Longrightarrow> wins = is_windows s"
      "takeInputBudget (Some reclaimOneHeldInput) ws payload (s\<lparr>is_windows := wins\<rparr>) = (r, s2)"
      "handleInputFrame ws payload fid s =
         (case r of None \<Rightarrow> s2
          | Some c \<Rightarrow>
              addPending (case fid of Some i \<Rightarrow> FreshWrite ws (wd_session (bs_data s ws)) i payload c | None \<Rightarrow> BareWrite c)
                (sendInput ws (wd_session (bs_data s ws)) fid payload s2))"
proof (cases "inputLive ws payload s")
  case False
  then show ?thesis using ignored by (auto simp: handleInputFrame_def Let_def)
next
  case True
  let ?sub = "wd_subshellId (bs_data s ws)" and ?sess = "wd_session (bs_data s ws)"
  show ?thesis
  proof (cases fid)
    case None
    obtain r s2 where t: "takeInputBudget (Some reclaimOneHeldInput) ws payload s = (r, s2)" by fastforce
    show ?thesis
    proof (rule takes [OF True, of "is_windows s" r s2])
      show "handleInputFrame ws payload fid s =
         (case r of None \<Rightarrow> s2
          | Some c \<Rightarrow>
              addPending (case fid of Some i \<Rightarrow> FreshWrite ws ?sess i payload c | None \<Rightarrow> BareWrite c)
                (sendInput ws ?sess fid payload s2))"
        using True by (simp add: handleInputFrame_def Let_def None t split: option.split)
    qed (use None t in simp_all)
  next
    case (Some i)
    obtain seen wins where h: "inputWindowHas ?sub ?sess i (is_windows s) = (seen, wins)" by fastforce
    let ?s1 = "s\<lparr>is_windows := wins\<rparr>"
    obtain r s2 where t: "takeInputBudget (Some reclaimOneHeldInput) ws payload ?s1 = (r, s2)" by fastforce
    have hh: "hasHeldInput n sub sess ?s1 = hasHeldInput n sub sess s" for n sub sess
      by (simp add: hasHeldInput_def split: option.split)
    have eq: "handleInputFrame ws payload fid s =
        (if seen then sendAck ws i ?s1
         else if hasHeldInput (wd_nodeId (bs_data s ws)) ?sub ?sess ?s1
         then holdFailedInput (wd_nodeId (bs_data s ws)) ?sub ?sess i payload ws ?s1
         else case r of None \<Rightarrow> s2
          | Some c \<Rightarrow> addPending (FreshWrite ws ?sess i payload c) (sendInput ws ?sess (Some i) payload s2))"
      using True unfolding handleInputFrame_def Let_def Some option.case h prod.case t by simp
    show ?thesis
    proof (cases seen)
      case True
      with known [OF \<open>inputLive ws payload s\<close> Some, of wins] h eq show ?thesis by simp
    next
      case new: False
      show ?thesis
      proof (cases "hasHeldInput (wd_nodeId (bs_data s ws)) ?sub ?sess ?s1")
        case held: True
        show ?thesis by (rule joins [OF True Some, of wins]) (use new held h eq in simp_all)
      next
        case idle: False
        show ?thesis
          by (rule takes [OF True, of wins r s2]) (use Some new idle h eq t hh in \<open>simp_all split: option.split\<close>)
      qed
    qed
  qed
qed

end
