(* ===== verification/InputHoldInv.thy ===== *)
theory InputHoldInv
  imports InputHold
begin

text \<open>
  The shape every reachable state of the input path has: which hold a queued entry belongs to, which
  write is in flight, who still owes the release of each charge.
\<close>

section \<open>The invariant\<close>

definition sockIdent :: "input_state \<Rightarrow> nat \<Rightarrow> string \<times> string \<times> jstring" where
  "sockIdent s w = (wd_nodeId (bs_data s w), wd_subshellId (bs_data s w), wd_session (bs_data s w))"

type_synonym hold_key = "string \<times> string \<times> jstring"

definition heldAt :: "input_state \<Rightarrow> hold_key \<Rightarrow> nat option" where
  "heldAt s k = holdAt (fst k) (fst (snd k)) (snd (snd k)) (is_holds s)"

lemma heldAt_simp: "heldAt s (n, sub, sess) = holdAt n sub sess (is_holds s)"
  by (simp add: heldAt_def)

lemma heldAt_cong: "is_holds s' = is_holds s \<Longrightarrow> heldAt s' = heldAt s"
  by (simp add: heldAt_def fun_eq_iff)

definition held :: "input_state \<Rightarrow> nat \<Rightarrow> bool" where
  "held s h \<longleftrightarrow> (\<exists>k. heldAt s k = Some h)"

lemma heldI: "heldAt s k = Some h \<Longrightarrow> held s h"
  unfolding held_def by (rule exI)

lemma held_cong: "is_holds s' = is_holds s \<Longrightarrow> held s' = held s"
  by (rule ext) (simp only: held_def heldAt_def)

abbreviation queueOf :: "input_state \<Rightarrow> nat \<Rightarrow> nat list" where
  "queueOf s h \<equiv> sh_queue (is_hold s h)"

abbreviation drains :: "input_state \<Rightarrow> nat \<Rightarrow> nat \<Rightarrow> nat \<Rightarrow> jstring \<Rightarrow> bool" where
  "drains s p h e sess \<equiv> jget (is_pending s) p = Some (DrainWrite h e sess)"

fun pendingCharge :: "input_state \<Rightarrow> pending \<Rightarrow> nat" where
  "pendingCharge s (FreshWrite ws sess i payload c) = c"
| "pendingCharge s (BareWrite c) = c"
| "pendingCharge s (DrainWrite h e sess) = he_charge (is_entry s e)"
| "pendingCharge s (ReleaseLater c) = c"

text \<open>Who will release a charge: a pending continuation, or a queued entry.\<close>

definition owned :: "input_state \<Rightarrow> nat \<Rightarrow> bool" where
  "owned s c \<longleftrightarrow>
     (\<exists>p w. jget (is_pending s) p = Some w \<and> pendingCharge s w = c) \<or>
     (\<exists>h. \<exists>e \<in> set (queueOf s h). he_charge (is_entry s e) = c)"

definition maps_wf :: "input_state \<Rightarrow> bool" where
  "maps_wf s \<longleftrightarrow> nested_ok (is_holds s) \<and>
     (\<forall>k h. heldAt s k = Some h \<longrightarrow> h < is_nextHold s) \<and>
     (\<forall>k k' h. heldAt s k = Some h \<longrightarrow> heldAt s k' = Some h \<longrightarrow> k = k')"

definition queues_wf :: "input_state \<Rightarrow> bool" where
  "queues_wf s \<longleftrightarrow>
     (\<forall>h e. e \<in> set (queueOf s h) \<longrightarrow>
        e < is_nextEntry s \<and> heldAt s (sockIdent s (he_sock (is_entry s e))) = Some h) \<and>
     (\<forall>h. distinct (queueOf s h)) \<and>
     (\<forall>h h' e. e \<in> set (queueOf s h) \<longrightarrow> e \<in> set (queueOf s h') \<longrightarrow> h = h')"

definition pending_wf :: "input_state \<Rightarrow> bool" where
  "pending_wf s \<longleftrightarrow> jok (is_pending s) \<and> (\<forall>p \<in> fst ` set (is_pending s). p < is_nextPending s)"

text \<open>\<open>X\<close>: holds whose loop is running right now, before its next \<open>await\<close>.\<close>

definition drain_ok :: "input_state \<Rightarrow> nat \<Rightarrow> nat \<Rightarrow> jstring \<Rightarrow> bool" where
  "drain_ok s h e sess \<longleftrightarrow>
     h < is_nextHold s \<and> e < is_nextEntry s \<and> sh_draining (is_hold s h) \<and> he_inFlight (is_entry s e) \<and>
     wd_session (bs_data s (he_sock (is_entry s e))) = sess \<and>
     (if held s h then \<exists>q. queueOf s h = e # q else queueOf s h = [])"

definition drains_wf :: "nat set \<Rightarrow> input_state \<Rightarrow> bool" where
  "drains_wf X s \<longleftrightarrow>
     (\<forall>p h e sess. drains s p h e sess \<longrightarrow> drain_ok s h e sess) \<and>
     (\<forall>p p' h h' e e' sess sess'. drains s p h e sess \<longrightarrow> drains s p' h' e' sess' \<longrightarrow>
        h = h' \<or> e = e' \<longrightarrow> p = p') \<and>
     (\<forall>h e. e \<in> set (queueOf s h) \<longrightarrow> he_inFlight (is_entry s e) \<longrightarrow> (\<exists>p sess. drains s p h e sess)) \<and>
     (\<forall>h. sh_draining (is_hold s h) \<longrightarrow> h \<in> X \<or> (\<exists>p e sess. drains s p h e sess))"

text \<open>\<open>Y\<close>: charges the running handler itself still holds.\<close>

definition owned_wf :: "nat set \<Rightarrow> input_state \<Rightarrow> bool" where
  "owned_wf Y s \<longleftrightarrow> (\<forall>c \<in> fst ` set (bs_live s). c \<in> Y \<or> owned s c)"

definition hold_wf :: "nat set \<Rightarrow> nat set \<Rightarrow> input_state \<Rightarrow> bool" where
  "hold_wf X Y s \<longleftrightarrow> maps_wf s \<and> queues_wf s \<and> pending_wf s \<and> drains_wf X s \<and> owned_wf Y s"

lemmas wf_defs = maps_wf_def queues_wf_def pending_wf_def

lemma hold_wfD:
  assumes "hold_wf X Y s"
  shows "maps_wf s" "queues_wf s" "pending_wf s" "drains_wf X s" "owned_wf Y s"
  using assms by (simp_all add: hold_wf_def)

lemma queue_held:
  assumes "hold_wf X Y s" "e \<in> set (queueOf s h)"
  shows "e < is_nextEntry s" "heldAt s (sockIdent s (he_sock (is_entry s e))) = Some h" "h < is_nextHold s"
  using hold_wfD(1,2) [OF assms(1)] assms(2) unfolding maps_wf_def queues_wf_def by blast+

lemma drains_wfD:
  assumes "drains_wf X s"
  shows "drains s p h e sess \<Longrightarrow> drain_ok s h e sess"
    "drains s p h e sess \<Longrightarrow> drains s p' h' e' sess' \<Longrightarrow> h = h' \<or> e = e' \<Longrightarrow> p = p'"
    "e \<in> set (queueOf s h) \<Longrightarrow> he_inFlight (is_entry s e) \<Longrightarrow> \<exists>p sess. drains s p h e sess"
    "sh_draining (is_hold s h) \<Longrightarrow> h \<in> X \<or> (\<exists>p e sess. drains s p h e sess)"
  using assms unfolding drains_wf_def by - (elim conjE; blast)+

lemma drains_wfI:
  assumes "\<And>p h e sess. drains s p h e sess \<Longrightarrow> drain_ok s h e sess"
    and "\<And>p p' h h' e e' sess sess'. drains s p h e sess \<Longrightarrow> drains s p' h' e' sess' \<Longrightarrow>
           h = h' \<or> e = e' \<Longrightarrow> p = p'"
    and "\<And>h e. e \<in> set (queueOf s h) \<Longrightarrow> he_inFlight (is_entry s e) \<Longrightarrow> \<exists>p sess. drains s p h e sess"
    and "\<And>h. sh_draining (is_hold s h) \<Longrightarrow> h \<in> X \<or> (\<exists>p e sess. drains s p h e sess)"
  shows "drains_wf X s"
  using assms unfolding drains_wf_def by blast

lemma drainsD:
  assumes "hold_wf X Y s" "drains s p h e sess"
  shows "h < is_nextHold s" "e < is_nextEntry s" "sh_draining (is_hold s h)" "he_inFlight (is_entry s e)"
    "wd_session (bs_data s (he_sock (is_entry s e))) = sess"
    "held s h \<Longrightarrow> \<exists>q. queueOf s h = e # q"
    "\<not> held s h \<Longrightarrow> queueOf s h = []"
  using drains_wfD(1) [OF hold_wfD(4) [OF assms(1)] assms(2)] unfolding drain_ok_def
  by (auto split: if_split_asm)

lemma drains_unique:
  assumes "hold_wf X Y s" "drains s p h e sess" "drains s p' h' e' sess'" "h = h' \<or> e = e'"
  shows "p = p'"
  by (rule drains_wfD(2) [OF hold_wfD(4) [OF assms(1)] assms(2-4)])

lemma idle_not_inFlight:
  assumes "hold_wf X Y s" "\<forall>p e sess. \<not> drains s p h e sess" "e \<in> set (queueOf s h)"
  shows "\<not> he_inFlight (is_entry s e)"
  using drains_wfD(3) [OF hold_wfD(4) [OF assms(1)] assms(3)] assms(2) by blast

lemma queues_wfI:
  assumes "\<And>h e. e \<in> set (queueOf s h) \<Longrightarrow>
        e < is_nextEntry s \<and> heldAt s (sockIdent s (he_sock (is_entry s e))) = Some h"
    and "\<And>h. distinct (queueOf s h)"
    and "\<And>h h' e. e \<in> set (queueOf s h) \<Longrightarrow> e \<in> set (queueOf s h') \<Longrightarrow> h = h'"
  shows "queues_wf s"
  using assms unfolding queues_wf_def by blast

lemma hold_wfI:
  "maps_wf s \<Longrightarrow> queues_wf s \<Longrightarrow> pending_wf s \<Longrightarrow> drains_wf X s \<Longrightarrow> owned_wf Y s \<Longrightarrow> hold_wf X Y s"
  by (simp add: hold_wf_def)

section \<open>Changes outside the queues\<close>

text \<open>The invariant reads the queues, the pending writes, the sockets' identities and which charges live.\<close>

lemma owned_cong:
  assumes "is_pending s' = is_pending s" "is_hold s' = is_hold s" "is_entry s' = is_entry s"
  shows "owned s' c = owned s c"
proof -
  have "pendingCharge s' w = pendingCharge s w" for w by (cases w) (simp_all add: assms)
  then show ?thesis by (simp add: owned_def assms)
qed

lemma hold_wf_frame:
  assumes "hold_wf X Y s"
    and "is_holds s' = is_holds s" "is_nextHold s' = is_nextHold s" "is_hold s' = is_hold s"
    "is_entry s' = is_entry s" "is_nextEntry s' = is_nextEntry s" "is_pending s' = is_pending s"
    "is_nextPending s' = is_nextPending s"
    and id: "\<And>w. sockIdent s' w = sockIdent s w"
    and live: "\<And>c. c \<in> fst ` set (bs_live s') \<Longrightarrow> c \<in> Y' \<or> (c \<in> fst ` set (bs_live s) \<and> (c \<in> Y \<longrightarrow> c \<in> Y'))"
  shows "hold_wf X Y' s'"
proof -
  have w: "wd_session (bs_data s' w) = wd_session (bs_data s w)" for w
    using id [of w] by (simp add: sockIdent_def)
  have o: "owned s' c = owned s c" for c by (rule owned_cong) (simp_all add: assms)
  note k = heldAt_cong [OF assms(2)] held_cong [OF assms(2)]
  have "maps_wf s'" using hold_wfD(1) [OF assms(1)] unfolding maps_wf_def assms(2-8) k .
  moreover have "queues_wf s'" using hold_wfD(2) [OF assms(1)] unfolding queues_wf_def assms(2-8) id k .
  moreover have "pending_wf s'" using hold_wfD(3) [OF assms(1)] unfolding pending_wf_def assms(2-8) .
  moreover have "drains_wf X s'"
    using hold_wfD(4) [OF assms(1)] unfolding drains_wf_def drain_ok_def assms(2-8) w k .
  moreover have "owned_wf Y' s'"
    using hold_wfD(5) [OF assms(1)] live unfolding owned_wf_def o by blast
  ultimately show ?thesis by (simp add: hold_wf_def)
qed

lemma hold_wf_release:
  assumes "hold_wf X (insert c Y) s"
  shows "hold_wf X Y (releaseCharge c s)"
  by (rule hold_wf_frame [OF assms]) (auto simp: sockIdent_def releaseCharge_live)

lemma hold_wf_weaken: "hold_wf X Y s \<Longrightarrow> Y \<subseteq> Y' \<Longrightarrow> hold_wf X Y' s"
  unfolding hold_wf_def owned_wf_def by blast

lemma hold_wf_release_any: "hold_wf X Y s \<Longrightarrow> hold_wf X Y (releaseCharge c s)"
  by (rule hold_wf_release, rule hold_wf_weaken) auto

lemma hold_wf_commit:
  assumes "hold_wf X Y s"
  shows "hold_wf X Y (commitWrite ws sess i s)"
  by (rule hold_wf_frame [OF assms]) (auto simp: sockIdent_def commitWrite_def sendAck_def Let_def split: if_splits)

lemma hold_wf_ack:
  assumes "hold_wf X Y s"
  shows "hold_wf X Y (sendAck ws i s)"
  by (rule hold_wf_frame [OF assms]) (auto simp: sockIdent_def sendAck_def split: if_splits)

lemma hold_wf_send:
  assumes "hold_wf X Y s"
  shows "hold_wf X Y (sendInput ws sess i payload s)"
  by (rule hold_wf_frame [OF assms]) (auto simp: sockIdent_def sendInput_def)

lemma hold_wf_windows:
  assumes "hold_wf X Y s"
  shows "hold_wf X Y (s\<lparr>is_windows := w\<rparr>)"
  by (rule hold_wf_frame [OF assms]) (auto simp: sockIdent_def)

lemma hold_wf_flags:
  assumes "hold_wf X Y s" "\<And>w. sockIdent (s\<lparr>bs_data := d\<rparr>) w = sockIdent s w"
  shows "hold_wf X Y (s\<lparr>bs_data := d\<rparr>)"
  by (rule hold_wf_frame [OF assms(1)]) (auto simp: assms(2))

section \<open>Changes to the pending writes\<close>

lemma pending_fresh:
  assumes "hold_wf X Y s"
  shows "jget (is_pending s) (is_nextPending s) = None"
  using hold_wfD(3) [OF assms] by (auto simp: pending_wf_def jget_None_iff)

lemma addPending_get:
  assumes "hold_wf X Y s"
  shows "jget (is_pending (addPending w s)) = (jget (is_pending s))(is_nextPending s \<mapsto> w)"
  using pending_fresh [OF assms] by (auto simp: addPending_def jget_append fun_eq_iff split: option.split)

lemma addPending_proj [simp]:
  "is_holds (addPending w s) = is_holds s" "is_nextHold (addPending w s) = is_nextHold s"
  "is_hold (addPending w s) = is_hold s" "is_entry (addPending w s) = is_entry s"
  "is_nextEntry (addPending w s) = is_nextEntry s" "bs_data (addPending w s) = bs_data s"
  "bs_live (addPending w s) = bs_live s"
  by (simp_all add: addPending_def)

lemma addPending_pending_wf: "pending_wf s \<Longrightarrow> pending_wf (addPending w s)"
  by (auto simp: pending_wf_def addPending_def less_Suc_eq)

lemma pendingCharge_add [simp]: "pendingCharge (addPending w s) v = pendingCharge s v"
  by (cases v) simp_all

lemma hold_wf_addPending:
  assumes wf: "hold_wf X (insert (pendingCharge s w) Y) s" and w: "\<And>h e sess. w \<noteq> DrainWrite h e sess"
  shows "hold_wf X Y (addPending w s)"
proof -
  let ?s = "addPending w s"
  note get = addPending_get [OF wf, of w] and fresh = pending_fresh [OF wf]
  have d: "drains ?s p h e sess \<longleftrightarrow> drains s p h e sess" for p h e sess
    using w fresh unfolding get by auto
  have i: "sockIdent ?s = sockIdent s" by (simp add: sockIdent_def fun_eq_iff)
  have k: "heldAt ?s = heldAt s" "held ?s = held s"
    by (rule heldAt_cong, simp) (rule held_cong, simp)
  have "maps_wf ?s" using hold_wfD(1) [OF wf] unfolding maps_wf_def k addPending_proj .
  moreover have "queues_wf ?s" using hold_wfD(2) [OF wf] unfolding queues_wf_def i k addPending_proj .
  moreover have "drains_wf X ?s"
    using hold_wfD(4) [OF wf] unfolding drains_wf_def drain_ok_def d k addPending_proj .
  moreover have "owned_wf Y ?s"
  proof -
    have keep: "jget (is_pending s) p = Some v \<Longrightarrow> jget (is_pending ?s) p = Some v" for p v
      using fresh unfolding get by auto
    have new: "jget (is_pending ?s) (is_nextPending s) = Some w" unfolding get by simp
    have "owned ?s c" if "c = pendingCharge s w \<or> owned s c" for c
      using that keep new unfolding owned_def pendingCharge_add addPending_proj by blast
    then show ?thesis using hold_wfD(5) [OF wf] unfolding owned_wf_def by auto
  qed
  ultimately show ?thesis using addPending_pending_wf [OF hold_wfD(3) [OF wf]] by (simp add: hold_wf_def)
qed

lemma hold_wf_removePending:
  assumes wf: "hold_wf X Y s" and p: "jget (is_pending s) p = Some w" and w: "\<And>h e sess. w \<noteq> DrainWrite h e sess"
  shows "hold_wf X (insert (pendingCharge s w) Y) (s\<lparr>is_pending := jdel p (is_pending s)\<rparr>)" (is "hold_wf _ _ ?s")
proof -
  have d: "drains ?s p' h e sess \<longleftrightarrow> drains s p' h e sess" for p' h e sess
    using w p by auto
  have i: "sockIdent ?s = sockIdent s" by (simp add: sockIdent_def fun_eq_iff)
  have k: "heldAt ?s = heldAt s" "held ?s = held s"
    by (rule heldAt_cong, simp) (rule held_cong, simp)
  have pr: "is_holds ?s = is_holds s" "is_nextHold ?s = is_nextHold s" "is_hold ?s = is_hold s"
    "is_entry ?s = is_entry s" "is_nextEntry ?s = is_nextEntry s" "bs_data ?s = bs_data s" by simp_all
  have "maps_wf ?s" using hold_wfD(1) [OF wf] unfolding maps_wf_def k pr .
  moreover have "queues_wf ?s" using hold_wfD(2) [OF wf] unfolding queues_wf_def i k pr .
  moreover have "pending_wf ?s" using hold_wfD(3) [OF wf] by (auto simp: pending_wf_def)
  moreover have "drains_wf X ?s"
    using hold_wfD(4) [OF wf] unfolding drains_wf_def d drain_ok_def k pr .
  moreover have "owned_wf (insert (pendingCharge s w) Y) ?s"
  proof -
    have c: "pendingCharge ?s v = pendingCharge s v" for v by (cases v) simp_all
    have keep: "jget (is_pending s) p' = Some v \<Longrightarrow> v \<noteq> w \<Longrightarrow> jget (is_pending ?s) p' = Some v" for p' v
      using p by auto
    have "owned ?s c" if "c \<noteq> pendingCharge s w" "owned s c" for c
      using that keep unfolding owned_def c pr by blast
    then show ?thesis using hold_wfD(5) [OF wf] unfolding owned_wf_def by auto
  qed
  ultimately show ?thesis by (simp add: hold_wf_def)
qed

section \<open>Changes to a queue\<close>

lemma setQueue_proj [simp]:
  "is_holds (setQueue h q s) = is_holds s" "is_nextHold (setQueue h q s) = is_nextHold s"
  "is_entry (setQueue h q s) = is_entry s" "is_nextEntry (setQueue h q s) = is_nextEntry s"
  "is_pending (setQueue h q s) = is_pending s" "is_nextPending (setQueue h q s) = is_nextPending s"
  "bs_data (setQueue h q s) = bs_data s" "bs_live (setQueue h q s) = bs_live s"
  "queueOf (setQueue h q s) h' = (if h' = h then q else queueOf s h')"
  "sh_draining (is_hold (setQueue h q s) h') = sh_draining (is_hold s h')"
  by (simp_all add: setQueue_def)

lemma pendingCharge_cong: "is_entry s' = is_entry s \<Longrightarrow> pendingCharge s' w = pendingCharge s w"
  by (cases w) simp_all

lemma maps_wf_cong:
  assumes "is_holds s' = is_holds s" "is_nextHold s' = is_nextHold s" "maps_wf s"
  shows "maps_wf s'"
  using assms(3) unfolding maps_wf_def heldAt_def assms(1,2) .

lemma sockIdent_cong: "bs_data s' = bs_data s \<Longrightarrow> sockIdent s' w = sockIdent s w"
  by (simp add: sockIdent_def)

lemma hold_wf_shrink:
  assumes wf: "hold_wf X Y s" and sub: "set q \<subseteq> set (queueOf s h)" "distinct q"
    and head: "\<And>p e sess. drains s p h e sess \<Longrightarrow> held s h \<Longrightarrow> \<exists>r. q = e # r"
    and Y: "Y \<subseteq> Y'" "\<And>e. e \<in> set (queueOf s h) \<Longrightarrow> e \<notin> set q \<Longrightarrow> he_charge (is_entry s e) \<in> Y'"
  shows "hold_wf X Y' (setQueue h q s)" (is "hold_wf _ _ ?s")
proof (rule hold_wfI)
  have k: "heldAt ?s = heldAt s" "held ?s = held s"
    by (rule heldAt_cong, simp) (rule held_cong, simp)
  have i: "sockIdent ?s w = sockIdent s w" for w by (rule sockIdent_cong) simp
  have mem: "e \<in> set (queueOf s h')" if "e \<in> set (queueOf ?s h')" for e h'
    using that sub(1) by (auto split: if_split_asm)
  note Q = hold_wfD(2) [OF wf, unfolded queues_wf_def]
  note D = drains_wfD [OF hold_wfD(4) [OF wf]]
  show "maps_wf ?s" by (rule maps_wf_cong [OF _ _ hold_wfD(1) [OF wf]]) simp_all
  show "queues_wf ?s"
  proof (rule queues_wfI)
    fix h' h'' e
    show "e < is_nextEntry ?s \<and> heldAt ?s (sockIdent ?s (he_sock (is_entry ?s e))) = Some h'"
      if "e \<in> set (queueOf ?s h')" using Q mem [OF that] unfolding i k setQueue_proj by blast
    show "distinct (queueOf ?s h')" using Q sub(2) by simp
    show "h' = h''" if "e \<in> set (queueOf ?s h')" "e \<in> set (queueOf ?s h'')"
      using Q mem that by blast
  qed
  show "pending_wf ?s" using hold_wfD(3) [OF wf] by (simp add: pending_wf_def)
  show "drains_wf X ?s"
  proof (rule drains_wfI)
    fix p p' h1 h2 e e' sess sess'
    show "drain_ok ?s h1 e sess" if "drains ?s p h1 e sess"
      using D(1) [of p h1 e sess] head [of p e sess] that sub(1)
      unfolding drain_ok_def k by (auto split: if_split_asm)
    show "p = p'" if "drains ?s p h1 e sess" "drains ?s p' h2 e' sess'" "h1 = h2 \<or> e = e'"
      by (rule D(2) [of p h1 e sess p' h2 e' sess']) (use that in simp_all)
    show "\<exists>p sess. drains ?s p h1 e sess" if "e \<in> set (queueOf ?s h1)" "he_inFlight (is_entry ?s e)"
      using D(3) [OF mem [OF that(1)]] that(2) by simp
    show "h1 \<in> X \<or> (\<exists>p e sess. drains ?s p h1 e sess)" if "sh_draining (is_hold ?s h1)"
      using D(4) [of h1] that by simp
  qed
  show "owned_wf Y' ?s"
  proof -
    have c: "pendingCharge ?s v = pendingCharge s v" for v by (rule pendingCharge_cong) simp
    have "c \<in> Y' \<or> owned ?s c" if c0: "owned s c" for c
    proof (cases "\<exists>e \<in> set (queueOf s h). e \<notin> set q \<and> he_charge (is_entry s e) = c")
      case False
      then have "e \<in> set (queueOf ?s h')" if "e \<in> set (queueOf s h')" "he_charge (is_entry s e) = c" for h' e
        using that by auto
      then have "owned ?s c" using c0 unfolding owned_def c by (metis setQueue_proj(3,5))
      then show ?thesis ..
    qed (use Y(2) in blast)
    then show ?thesis using hold_wfD(5) [OF wf] Y(1) unfolding owned_wf_def setQueue_proj by blast
  qed
qed

lemma hold_wf_trim:
  assumes "hold_wf X Y' s" "\<And>c. c \<in> fst ` set (bs_live s) \<Longrightarrow> c \<in> Y' \<Longrightarrow> c \<in> Y"
  shows "hold_wf X Y s"
  using assms unfolding hold_wf_def owned_wf_def by blast

lemma hold_wf_owned:
  assumes "hold_wf X (insert c Y) s" "owned s c"
  shows "hold_wf X Y s"
proof -
  have "owned_wf Y s" using hold_wfD(5) [OF assms(1)] assms(2) unfolding owned_wf_def by (metis insertE)
  then show ?thesis using assms(1) by (simp add: hold_wf_def)
qed

text \<open>Taking a hold out of the map: the idle entries' charges are the caller's to release.\<close>

lemma hold_wf_unhold:
  assumes wf: "hold_wf X Y s" and at: "holdAt n sub sess (is_holds s) = Some h"
    and Y: "Y \<subseteq> Y'" "\<And>e. e \<in> set (queueOf s h) \<Longrightarrow> he_inFlight (is_entry s e) \<or> he_charge (is_entry s e) \<in> Y'"
  shows "hold_wf X Y' ((setQueue h [] s)\<lparr>is_holds := delHold n sub sess (is_holds s)\<rparr>)" (is "hold_wf _ _ ?s")
proof (rule hold_wfI)
  note M = hold_wfD(1) [OF wf, unfolded maps_wf_def]
  note Q = hold_wfD(2) [OF wf, unfolded queues_wf_def]
  note D = drains_wfD [OF hold_wfD(4) [OF wf]]
  have key: "heldAt s (n, sub, sess) = Some h" using at by (simp add: heldAt_simp)
  have k: "heldAt ?s k = (if k = (n, sub, sess) then None else heldAt s k)" for k
    by (cases k) (simp add: heldAt_simp holdAt_del)
  have hd: "held ?s h' \<longleftrightarrow> held s h' \<and> h' \<noteq> h" for h'
    unfolding held_def k using M key by (metis option.distinct(1) option.inject)
  have i: "sockIdent ?s w = sockIdent s w" for w by (rule sockIdent_cong) simp
  have pr: "is_nextHold ?s = is_nextHold s" "is_entry ?s = is_entry s" "is_nextEntry ?s = is_nextEntry s"
    "is_pending ?s = is_pending s" "is_nextPending ?s = is_nextPending s" "bs_data ?s = bs_data s"
    "bs_live ?s = bs_live s" "\<And>h'. queueOf ?s h' = (if h' = h then [] else queueOf s h')"
    "\<And>h'. sh_draining (is_hold ?s h') = sh_draining (is_hold s h')" by simp_all
  have "nested_ok (is_holds ?s)" using M by (simp add: nested_ok_del)
  then show "maps_wf ?s"
    using M unfolding maps_wf_def k pr by (meson option.distinct(1))
  show "queues_wf ?s"
  proof (rule queues_wfI)
    fix h' h'' e
    show "e < is_nextEntry ?s \<and> heldAt ?s (sockIdent ?s (he_sock (is_entry ?s e))) = Some h'"
      if "e \<in> set (queueOf ?s h')"
    proof -
      have e: "e \<in> set (queueOf s h')" "h' \<noteq> h" using that unfolding pr by (auto split: if_split_asm)
      then have "e < is_nextEntry s" "heldAt s (sockIdent s (he_sock (is_entry s e))) = Some h'"
        using Q by blast+
      then show ?thesis using e key unfolding i k pr by auto
    qed
    show "distinct (queueOf ?s h')" unfolding pr using Q by simp
    show "h' = h''" if "e \<in> set (queueOf ?s h')" "e \<in> set (queueOf ?s h'')"
      using Q that unfolding pr by (metis empty_iff list.set(1))
  qed
  show "pending_wf ?s" using hold_wfD(3) [OF wf] unfolding pending_wf_def pr .
  show "drains_wf X ?s"
  proof (rule drains_wfI)
    fix p p' h1 h2 e e' sess sess'
    show "drain_ok ?s h1 e sess" if "drains ?s p h1 e sess"
      using D(1) [of p h1 e sess] that unfolding drain_ok_def hd pr by (simp split: if_split_asm)
    show "p = p'" if "drains ?s p h1 e sess" "drains ?s p' h2 e' sess'" "h1 = h2 \<or> e = e'"
      by (rule D(2) [of p h1 e sess p' h2 e' sess']) (use that in simp_all)
    show "\<exists>p sess. drains ?s p h1 e sess" if "e \<in> set (queueOf ?s h1)" "he_inFlight (is_entry ?s e)"
      using D(3) [of e h1] that unfolding pr by (simp split: if_split_asm)
    show "h1 \<in> X \<or> (\<exists>p e sess. drains ?s p h1 e sess)" if "sh_draining (is_hold ?s h1)"
      using D(4) [of h1] that unfolding pr by simp
  qed
  show "owned_wf Y' ?s"
  proof -
    have c: "pendingCharge ?s v = pendingCharge s v" for v by (rule pendingCharge_cong) simp
    have "c \<in> Y' \<or> owned ?s c" if c0: "owned s c" for c
    proof -
      consider (pend) p w where "jget (is_pending s) p = Some w" "pendingCharge s w = c"
        | (gone) e where "e \<in> set (queueOf s h)" "he_charge (is_entry s e) = c"
        | (other) h' e where "h' \<noteq> h" "e \<in> set (queueOf s h')" "he_charge (is_entry s e) = c"
        using c0 unfolding owned_def by metis
      then show ?thesis
      proof cases
        case pend
        then show ?thesis unfolding owned_def c pr by blast
      next
        case gone
        show ?thesis
        proof (cases "he_inFlight (is_entry s e)")
          case True
          then obtain p sess where "drains s p h e sess" using D(3) [OF gone(1)] by blast
          then show ?thesis using gone(2) unfolding owned_def c pr by (metis pendingCharge.simps(3))
        qed (use Y(2) [OF gone(1)] gone(2) in simp)
      next
        case other
        then have "e \<in> set (queueOf ?s h')" unfolding pr by simp
        then show ?thesis using other(3) unfolding owned_def pr(2) by blast
      qed
    qed
    then show ?thesis using hold_wfD(5) [OF wf] Y(1) unfolding owned_wf_def pr by blast
  qed
qed

section \<open>The drain guard and the write in flight\<close>

lemma setDraining_proj [simp]:
  "is_holds (setDraining h b s) = is_holds s" "is_nextHold (setDraining h b s) = is_nextHold s"
  "is_entry (setDraining h b s) = is_entry s" "is_nextEntry (setDraining h b s) = is_nextEntry s"
  "is_pending (setDraining h b s) = is_pending s" "is_nextPending (setDraining h b s) = is_nextPending s"
  "bs_data (setDraining h b s) = bs_data s" "bs_live (setDraining h b s) = bs_live s"
  "queueOf (setDraining h b s) h' = queueOf s h'"
  "sh_draining (is_hold (setDraining h b s) h') = (if h' = h then b else sh_draining (is_hold s h'))"
  by (simp_all add: setDraining_def)

lemma setInFlight_proj [simp]:
  "is_holds (setInFlight e b s) = is_holds s" "is_nextHold (setInFlight e b s) = is_nextHold s"
  "is_hold (setInFlight e b s) = is_hold s" "is_nextEntry (setInFlight e b s) = is_nextEntry s"
  "is_pending (setInFlight e b s) = is_pending s" "is_nextPending (setInFlight e b s) = is_nextPending s"
  "bs_data (setInFlight e b s) = bs_data s" "bs_live (setInFlight e b s) = bs_live s"
  "he_inFlight (is_entry (setInFlight e b s) e') = (if e' = e then b else he_inFlight (is_entry s e'))"
  "he_sock (is_entry (setInFlight e b s) e') = he_sock (is_entry s e')"
  "he_charge (is_entry (setInFlight e b s) e') = he_charge (is_entry s e')"
  by (simp_all add: setInFlight_def)

lemma pendingCharge_inFlight [simp]:
  "pendingCharge (setInFlight e b s) w = pendingCharge s w"
  by (cases w) simp_all

lemma owned_proj:
  assumes "\<And>w. pendingCharge s' w = pendingCharge s w" "is_pending s' = is_pending s"
    "\<And>h. queueOf s' h = queueOf s h" "\<And>e. he_charge (is_entry s' e) = he_charge (is_entry s e)"
  shows "owned s' c = owned s c"
  by (simp add: owned_def assms)

lemma hold_wf_draining:
  assumes wf: "hold_wf X Y s" and b: "b \<or> (\<forall>p e sess. \<not> drains s p h e sess)"
  shows "hold_wf (if b then insert h X else X - {h}) Y (setDraining h b s)" (is "hold_wf ?X _ ?s")
proof (rule hold_wfI)
  have k: "heldAt ?s = heldAt s" "held ?s = held s"
    by (rule heldAt_cong, simp) (rule held_cong, simp)
  have i: "sockIdent ?s w = sockIdent s w" for w by (rule sockIdent_cong) simp
  note D = drains_wfD [OF hold_wfD(4) [OF wf]]
  show "maps_wf ?s" by (rule maps_wf_cong [OF _ _ hold_wfD(1) [OF wf]]) simp_all
  show "queues_wf ?s" using hold_wfD(2) [OF wf] unfolding queues_wf_def k i setDraining_proj .
  show "pending_wf ?s" using hold_wfD(3) [OF wf] by (simp add: pending_wf_def)
  show "drains_wf ?X ?s"
  proof (rule drains_wfI)
    fix p p' h1 h2 e e' sess sess'
    show "drain_ok ?s h1 e sess" if "drains ?s p h1 e sess"
      using D(1) [of p h1 e sess] that b unfolding drain_ok_def k by auto
    show "p = p'" if "drains ?s p h1 e sess" "drains ?s p' h2 e' sess'" "h1 = h2 \<or> e = e'"
      by (rule D(2) [of p h1 e sess p' h2 e' sess']) (use that in simp_all)
    show "\<exists>p sess. drains ?s p h1 e sess" if "e \<in> set (queueOf ?s h1)" "he_inFlight (is_entry ?s e)"
      using D(3) [of e h1] that by simp
    show "h1 \<in> ?X \<or> (\<exists>p e sess. drains ?s p h1 e sess)" if "sh_draining (is_hold ?s h1)"
      using D(4) [of h1] that by (auto split: if_split_asm)
  qed
  have "pendingCharge ?s w = pendingCharge s w" for w by (rule pendingCharge_cong) simp
  then have "owned ?s c = owned s c" for c by (rule owned_proj) simp_all
  then show "owned_wf Y ?s" using hold_wfD(5) [OF wf] by (simp add: owned_wf_def)
qed

text \<open>The head of the queue goes out.\<close>

lemma hold_wf_dispatch:
  assumes wf: "hold_wf X Y s" and none: "\<forall>p e sess. \<not> drains s p h e sess"
    and q: "queueOf s h = e # q" and dr: "sh_draining (is_hold s h)"
    and sess: "wd_session (bs_data s (he_sock (is_entry s e))) = sess"
  shows "hold_wf (X - {h}) Y (addPending (DrainWrite h e sess) (sendInput ws sess i payload (setInFlight e True s)))"
    (is "hold_wf ?X _ ?s")
proof (rule hold_wfI)
  let ?t = "sendInput ws sess i payload (setInFlight e True s)"
  have e: "e \<in> set (queueOf s h)" by (simp add: q)
  note eq = queue_held [OF wf e]
  note Q = hold_wfD(2) [OF wf, unfolded queues_wf_def]
  have pr: "is_holds ?t = is_holds s" "is_nextHold ?t = is_nextHold s" "is_hold ?t = is_hold s"
    "is_nextEntry ?t = is_nextEntry s" "is_pending ?t = is_pending s" "bs_data ?t = bs_data s"
    "is_nextPending ?t = is_nextPending s" "bs_live ?t = bs_live s"
    "he_inFlight (is_entry ?t e') = (e' = e \<or> he_inFlight (is_entry s e'))"
    "he_sock (is_entry ?t e') = he_sock (is_entry s e')"
    "he_charge (is_entry ?t e') = he_charge (is_entry s e')" for e'
    by (simp_all add: sendInput_def)
  have fresh: "jget (is_pending s) (is_nextPending s) = None" by (rule pending_fresh [OF wf])
  have "jget (is_pending ?s) = (jget (is_pending s))(is_nextPending s \<mapsto> DrainWrite h e sess)"
    using fresh by (auto simp: addPending_def pr jget_append fun_eq_iff split: option.split)
  then have d: "drains ?s p h' e' sess' \<longleftrightarrow>
      (if p = is_nextPending s then h' = h \<and> e' = e \<and> sess' = sess else drains s p h' e' sess')" for p h' e' sess'
    by auto
  have k: "heldAt ?s = heldAt s" "held ?s = held s"
    by (rule heldAt_cong, simp add: pr) (rule held_cong, simp add: pr)
  have i: "sockIdent ?s w = sockIdent s w" for w by (rule sockIdent_cong) (simp add: pr)
  note D = drains_wfD [OF hold_wfD(4) [OF wf]]
  have only: "\<not> drains s p h' e sess'" for p h' sess'
    using idle_not_inFlight [OF wf none e] drainsD(4) [OF wf] by blast
  show "maps_wf ?s" by (rule maps_wf_cong [OF _ _ hold_wfD(1) [OF wf]]) (simp_all add: pr)
  show "queues_wf ?s" using Q unfolding queues_wf_def k i addPending_proj pr .
  have "pending_wf ?t" using hold_wfD(3) [OF wf] by (simp add: pending_wf_def pr)
  then show "pending_wf ?s" by (rule addPending_pending_wf)
  show "drains_wf ?X ?s"
  proof (rule drains_wfI)
    fix p p' h1 h2 e1 e2 sess1 sess2
    show "drain_ok ?s h1 e1 sess1" if "drains ?s p h1 e1 sess1"
    proof (cases "p = is_nextPending s")
      case True
      then have "h1 = h" "e1 = e" "sess1 = sess" using that d by auto
      then show ?thesis using eq q dr sess heldI [OF eq(2)] unfolding drain_ok_def k by (simp add: pr)
    next
      case False
      then show ?thesis using that d D(1) [of p h1 e1 sess1] unfolding drain_ok_def k by (simp add: pr)
    qed
    show "p = p'" if "drains ?s p h1 e1 sess1" "drains ?s p' h2 e2 sess2" "h1 = h2 \<or> e1 = e2"
      using that none only D(2) [of p h1 e1 sess1 p' h2 e2 sess2] unfolding d by (auto split: if_split_asm)
    show "\<exists>p sess. drains ?s p h1 e1 sess" if m: "e1 \<in> set (queueOf ?s h1)" "he_inFlight (is_entry ?s e1)"
    proof (cases "e1 = e")
      case True
      then have "h1 = h" using Q m e unfolding addPending_proj pr by blast
      then show ?thesis using True d by metis
    next
      case False
      then obtain p sess' where "drains s p h1 e1 sess'" using D(3) [of e1 h1] m by (auto simp: pr)
      moreover from this fresh have "p \<noteq> is_nextPending s" by auto
      ultimately show ?thesis using d by metis
    qed
    show "h1 \<in> ?X \<or> (\<exists>p e sess. drains ?s p h1 e sess)" if "sh_draining (is_hold ?s h1)"
    proof (cases "h1 = h")
      case True
      then show ?thesis using d by metis
    next
      case False
      have "h1 \<in> X \<or> (\<exists>p e sess. drains s p h1 e sess)" using D(4) [of h1] that by (simp add: pr)
      then show ?thesis using False d fresh by (metis DiffI option.distinct(1) singletonD)
    qed
  qed
  show "owned_wf Y ?s"
  proof -
    have c: "pendingCharge ?s w = pendingCharge s w" for w by (cases w) (simp_all add: pr)
    have keep: "jget (is_pending s) p = Some w \<Longrightarrow> jget (is_pending ?s) p = Some w" for p w
      using fresh by (auto simp: addPending_def pr jget_append)
    have "owned ?s c'" if "owned s c'" for c'
      using that keep unfolding owned_def c addPending_proj pr by blast
    then show ?thesis using hold_wfD(5) [OF wf] unfolding owned_wf_def addPending_proj pr by blast
  qed
qed

text \<open>The awaited write comes back: its pending record is gone, its entry idle again.\<close>

lemma hold_wf_return:
  assumes wf: "hold_wf X Y s" and p: "drains s p h e sess"
  shows "hold_wf (insert h X) (insert (he_charge (is_entry s e)) Y)
           (setInFlight e False (s\<lparr>is_pending := jdel p (is_pending s)\<rparr>))" (is "hold_wf _ _ ?s")
    and "\<forall>p' e' sess'. \<not> drains (setInFlight e False (s\<lparr>is_pending := jdel p (is_pending s)\<rparr>)) p' h e' sess'"
proof -
  have pr: "is_holds ?s = is_holds s" "is_nextHold ?s = is_nextHold s" "is_hold ?s = is_hold s"
    "is_nextEntry ?s = is_nextEntry s" "bs_data ?s = bs_data s" "bs_live ?s = bs_live s"
    "he_inFlight (is_entry ?s e') = (e' \<noteq> e \<and> he_inFlight (is_entry s e'))"
    "he_sock (is_entry ?s e') = he_sock (is_entry s e')"
    "he_charge (is_entry ?s e') = he_charge (is_entry s e')" for e'
    by (simp_all add: setInFlight_def)
  have d: "drains ?s p' h' e' sess' \<longleftrightarrow> p' \<noteq> p \<and> drains s p' h' e' sess'" for p' h' e' sess'
    by simp
  have uniq: "p' = p" if "drains s p' h' e' sess'" "h' = h \<or> e' = e" for p' h' e' sess'
    by (rule drains_unique [OF wf that(1) p that(2)])
  then show "\<forall>p' e' sess'. \<not> drains ?s p' h e' sess'" unfolding d by blast
  have k: "heldAt ?s = heldAt s" "held ?s = held s"
    by (rule heldAt_cong, simp) (rule held_cong, simp)
  have i: "sockIdent ?s w = sockIdent s w" for w by (rule sockIdent_cong) simp
  note D = drains_wfD [OF hold_wfD(4) [OF wf]]
  show "hold_wf (insert h X) (insert (he_charge (is_entry s e)) Y) ?s"
  proof (rule hold_wfI)
    show "maps_wf ?s" by (rule maps_wf_cong [OF _ _ hold_wfD(1) [OF wf]]) simp_all
    show "queues_wf ?s" using hold_wfD(2) [OF wf] unfolding queues_wf_def k i pr .
    show "pending_wf ?s" using hold_wfD(3) [OF wf] by (auto simp: pending_wf_def)
    show "drains_wf (insert h X) ?s"
    proof (rule drains_wfI)
      fix p1 p2 h1 h2 e1 e2 sess1 sess2
      show "drain_ok ?s h1 e1 sess1" if "drains ?s p1 h1 e1 sess1"
      proof -
        have "drains s p1 h1 e1 sess1" "e1 \<noteq> e" using that uniq unfolding d by blast+
        then show ?thesis using D(1) [of p1 h1 e1 sess1] unfolding drain_ok_def k by (simp add: pr)
      qed
      show "p1 = p2" if "drains ?s p1 h1 e1 sess1" "drains ?s p2 h2 e2 sess2" "h1 = h2 \<or> e1 = e2"
        by (rule D(2) [of p1 h1 e1 sess1 p2 h2 e2 sess2]) (use that in \<open>simp_all split: if_split_asm\<close>)
      show "\<exists>p sess. drains ?s p h1 e1 sess" if m: "e1 \<in> set (queueOf ?s h1)" "he_inFlight (is_entry ?s e1)"
      proof -
        obtain p' sess' where *: "drains s p' h1 e1 sess'" using D(3) [of e1 h1] m unfolding pr by blast
        have "p' \<noteq> p" using * p m(2) unfolding pr by auto
        then show ?thesis using * d by blast
      qed
      show "h1 \<in> insert h X \<or> (\<exists>p e sess. drains ?s p h1 e sess)" if dr: "sh_draining (is_hold ?s h1)"
      proof -
        have "h1 \<in> X \<or> (\<exists>p e sess. drains s p h1 e sess)" using D(4) [of h1] dr unfolding pr by blast
        then show ?thesis
        proof (elim disjE exE)
          fix p' e' sess' assume *: "drains s p' h1 e' sess'"
          show ?thesis
          proof (cases "p' = p")
            case True
            then have "h1 = h" using * p by simp
            then show ?thesis by simp
          next
            case False
            then show ?thesis using * d by blast
          qed
        qed simp
      qed
    qed
    show "owned_wf (insert (he_charge (is_entry s e)) Y) ?s"
    proof -
      have c: "pendingCharge ?s w = pendingCharge s w" for w by (cases w) (simp_all add: pr)
      have keep: "jget (is_pending s) p' = Some w \<Longrightarrow> w \<noteq> DrainWrite h e sess \<Longrightarrow> jget (is_pending ?s) p' = Some w" for p' w
        using p by auto
      have "owned ?s c'" if "c' \<noteq> he_charge (is_entry s e)" "owned s c'" for c'
        using that keep unfolding owned_def c pr by (metis pendingCharge.simps(3))
      then show ?thesis using hold_wfD(5) [OF wf] unfolding owned_wf_def pr by blast
    qed
  qed
qed

section \<open>The drain loop\<close>

lemma releaseCharge_live_mem: "c \<notin> fst ` set (bs_live (releaseCharge c s))"
  by (simp add: releaseCharge_live)

lemma drainLoop_wf:
  assumes "hold_wf (insert h X) Y s" "h \<notin> X" "\<forall>p e sess. \<not> drains s p h e sess"
    "sh_draining (is_hold s h)" "queueOf s h = q"
    "\<forall>e \<in> set q. wd_session (bs_data s (he_sock (is_entry s e))) = sess"
  shows "hold_wf X Y (drainLoop h sess q s)"
  using assms
proof (induction h sess q s rule: drainLoop.induct)
  case (1 h sess s)
  have "hold_wf (insert h X - {h}) Y (setDraining h False s)"
    using hold_wf_draining [OF 1(1), of False h] 1(3) by simp
  then show ?case using 1(2) by simp
next
  case (2 h sess e q s)
  let ?en = "is_entry s e"
  let ?d = "bs_data s (he_sock ?en)"
  let ?r = "releaseCharge (he_charge ?en) s"
  show ?case
  proof (cases "wd_accessRevoked ?d \<or> wd_inputClosed ?d")
    case True
    have r: "hold_wf (insert h X) Y ?r" by (rule hold_wf_release_any [OF 2(2)])
    have q: "queueOf ?r h = e # q" using 2(6) by simp
    have "distinct (queueOf ?r h)" using hold_wfD(2) [OF r] unfolding queues_wf_def by blast
    then have "hold_wf (insert h X) (insert (he_charge ?en) Y) (setQueue h q ?r)"
      using 2(4) q by (intro hold_wf_shrink [OF r]) auto
    then have "hold_wf (insert h X) Y (setQueue h q ?r)"
      by (rule hold_wf_trim) (simp_all add: releaseCharge_live)
    moreover note IH = 2(1) [OF refl refl True]
    ultimately have "hold_wf X Y (drainLoop h sess q (setQueue h q ?r))"
      using 2(3-7) by (intro IH) auto
    then show ?thesis using True by (simp add: Let_def)
  next
    case False
    have "hold_wf (insert h X - {h}) Y (addPending (DrainWrite h e sess)
        (sendInput (he_sock ?en) sess (Some (he_id ?en)) (he_payload ?en) (setInFlight e True s)))"
      using 2(3-7) by (intro hold_wf_dispatch [OF 2(2)]) auto
    then show ?thesis using False 2(3) by (simp add: Let_def)
  qed
qed

lemma held_session:
  assumes wf: "hold_wf X Y s" and at: "heldAt s (n, sub, sess) = Some h" and e: "e \<in> set (queueOf s h)"
  shows "sockIdent s (he_sock (is_entry s e)) = (n, sub, sess)"
    "wd_session (bs_data s (he_sock (is_entry s e))) = sess"
proof -
  show i: "sockIdent s (he_sock (is_entry s e)) = (n, sub, sess)"
    using hold_wfD(1) [OF wf] queue_held(2) [OF wf e] at unfolding maps_wf_def by blast
  then show "wd_session (bs_data s (he_sock (is_entry s e))) = sess" by (simp add: sockIdent_def)
qed

lemma drain_wf:
  assumes wf: "hold_wf X Y s" and "h \<notin> X" and at: "heldAt s (n, sub, sess) = Some h"
  shows "hold_wf X Y (drain h sess s)"
proof (cases "sh_draining (is_hold s h)")
  case False
  then have none: "\<forall>p e sess. \<not> drains s p h e sess" using drainsD(3) [OF wf] by blast
  have "hold_wf (insert h X) Y (setDraining h True s)" using hold_wf_draining [OF wf, of True h] by simp
  then have "hold_wf X Y (drainLoop h sess (queueOf s h) (setDraining h True s))"
    using \<open>h \<notin> X\<close> none held_session(2) [OF wf at] by (intro drainLoop_wf) simp_all
  then show ?thesis using False by (simp add: drain_def)
qed (use wf in \<open>simp add: drain_def\<close>)

section \<open>Dropping, creating and filling a hold\<close>

lemma releaseIdle_proj [simp]:
  "is_holds (releaseIdle q s) = is_holds s" "is_nextHold (releaseIdle q s) = is_nextHold s"
  "is_hold (releaseIdle q s) = is_hold s" "is_entry (releaseIdle q s) = is_entry s"
  "is_nextEntry (releaseIdle q s) = is_nextEntry s" "is_pending (releaseIdle q s) = is_pending s"
  "bs_data (releaseIdle q s) = bs_data s"
  by (induction q s rule: releaseIdle.induct) simp_all

lemma releaseIdle_wf: "hold_wf X Y s \<Longrightarrow> hold_wf X Y (releaseIdle q s)"
  by (induction q s rule: releaseIdle.induct) (simp_all add: hold_wf_release_any)

lemma releaseIdle_live:
  "c \<in> fst ` set (bs_live (releaseIdle q s)) \<Longrightarrow>
     c \<in> fst ` set (bs_live s) \<and> (\<forall>e \<in> set q. he_inFlight (is_entry s e) \<or> he_charge (is_entry s e) \<noteq> c)"
  by (induction q s rule: releaseIdle.induct) (auto simp: releaseCharge_live split: if_split_asm)

lemma drop_wf:
  assumes wf: "hold_wf X Y s"
  shows "hold_wf X Y (dropInputHolds n sub sess s)"
proof (cases "holdAt n sub sess (is_holds s)")
  case (Some h)
  let ?r = "releaseIdle (queueOf s h) s"
  define Z where "Z = {he_charge (is_entry s e) | e. e \<in> set (queueOf s h) \<and> \<not> he_inFlight (is_entry s e)}"
  have "hold_wf X (Y \<union> Z) ((setQueue h [] ?r)\<lparr>is_holds := delHold n sub sess (is_holds ?r)\<rparr>)"
    using Some by (intro hold_wf_unhold [OF releaseIdle_wf [OF wf]]) (auto simp: Z_def)
  then have "hold_wf X Y ((setQueue h [] ?r)\<lparr>is_holds := delHold n sub sess (is_holds ?r)\<rparr>)"
    by (rule hold_wf_trim) (auto simp: Z_def dest!: releaseIdle_live)
  then show ?thesis using Some by (simp add: dropInputHolds_def Let_def)
qed (use wf in \<open>simp add: dropInputHolds_def\<close>)

lemma getHold_at:
  assumes "getHold n sub sess s = (h, s1)"
  shows "heldAt s1 (n, sub, sess) = Some h"
  using assms by (auto simp: getHold_def heldAt_simp holdAt_put Let_def split: option.splits)

lemma getHold_wf:
  assumes wf: "hold_wf X Y s" and X: "\<forall>x \<in> X. x < is_nextHold s" and g: "getHold n sub sess s = (h, s1)"
  shows "hold_wf X Y s1"
proof (cases "holdAt n sub sess (is_holds s)")
  case (Some h')
  then show ?thesis using g wf by (simp add: getHold_def)
next
  case None
  then have h: "h = is_nextHold s" and s1: "s1 = s\<lparr>is_holds := putHold n sub sess h (is_holds s),
      is_hold := (is_hold s)(h := \<lparr>sh_queue = [], sh_draining = False\<rparr>), is_nextHold := Suc h\<rparr>"
    using g by (auto simp: getHold_def Let_def)
  note M = hold_wfD(1) [OF wf, unfolded maps_wf_def]
  note Q = hold_wfD(2) [OF wf, unfolded queues_wf_def]
  note D = drains_wfD [OF hold_wfD(4) [OF wf]]
  have empty: "queueOf s h = []"
    using queue_held(3) [OF wf, of _ h] h by (cases "queueOf s h") auto
  have k: "heldAt s1 k = (if k = (n, sub, sess) then Some h else heldAt s k)" for k
    by (cases k) (simp add: s1 heldAt_simp holdAt_put)
  have none: "heldAt s (n, sub, sess) = None" using None by (simp add: heldAt_simp)
  have old: "heldAt s k \<noteq> Some h" for k using M h by (metis less_irrefl)
  have hd: "held s1 h' \<longleftrightarrow> h' = h \<or> held s h'" for h'
    unfolding held_def k using none by (metis option.distinct(1) option.inject)
  have pr: "is_nextHold s1 = Suc h" "is_entry s1 = is_entry s" "is_nextEntry s1 = is_nextEntry s"
    "is_pending s1 = is_pending s" "is_nextPending s1 = is_nextPending s" "bs_data s1 = bs_data s"
    "bs_live s1 = bs_live s" "queueOf s1 h' = queueOf s h'"
    "sh_draining (is_hold s1 h') = (h' \<noteq> h \<and> sh_draining (is_hold s h'))" for h'
    using empty by (simp_all add: s1)
  have i: "sockIdent s1 w = sockIdent s w" for w by (rule sockIdent_cong) (simp add: pr)
  show ?thesis
  proof (rule hold_wfI)
    have "nested_ok (is_holds s1)" using M by (simp add: s1 nested_ok_put)
    then show "maps_wf s1"
      using M h old unfolding maps_wf_def k pr by (metis less_Suc_eq option.inject)
    show "queues_wf s1"
    proof (rule queues_wfI)
      fix h' h'' e
      show "e < is_nextEntry s1 \<and> heldAt s1 (sockIdent s1 (he_sock (is_entry s1 e))) = Some h'"
        if "e \<in> set (queueOf s1 h')"
      proof -
        have "e < is_nextEntry s" "heldAt s (sockIdent s (he_sock (is_entry s e))) = Some h'"
          using Q that unfolding pr by blast+
        then show ?thesis using none unfolding i k pr by auto
      qed
      show "distinct (queueOf s1 h')" unfolding pr using Q by blast
      show "h' = h''" if "e \<in> set (queueOf s1 h')" "e \<in> set (queueOf s1 h'')"
        using Q that unfolding pr by blast
    qed
    show "pending_wf s1" using hold_wfD(3) [OF wf] unfolding pending_wf_def pr .
    show "drains_wf X s1"
    proof (rule drains_wfI)
      fix p p' h1 h2 e e' sess1 sess2
      show "drain_ok s1 h1 e sess1" if "drains s1 p h1 e sess1"
      proof -
        have "drain_ok s h1 e sess1" using D(1) [of p h1 e sess1] that unfolding pr by blast
        moreover from this have "h1 \<noteq> h" using h by (auto simp: drain_ok_def)
        ultimately show ?thesis using h unfolding drain_ok_def hd pr by auto
      qed
      show "p = p'" if "drains s1 p h1 e sess1" "drains s1 p' h2 e' sess2" "h1 = h2 \<or> e = e'"
        by (rule D(2) [of p h1 e sess1 p' h2 e' sess2]) (use that in \<open>simp_all add: pr\<close>)
      show "\<exists>p sess. drains s1 p h1 e sess" if "e \<in> set (queueOf s1 h1)" "he_inFlight (is_entry s1 e)"
        using D(3) [of e h1] that unfolding pr by blast
      show "h1 \<in> X \<or> (\<exists>p e sess. drains s1 p h1 e sess)" if "sh_draining (is_hold s1 h1)"
        using D(4) [of h1] that unfolding pr by blast
    qed
    have "pendingCharge s1 w = pendingCharge s w" for w by (rule pendingCharge_cong) (simp add: pr)
    then have "owned s1 c = owned s c" for c by (rule owned_proj) (simp_all add: pr)
    then show "owned_wf Y s1" using hold_wfD(5) [OF wf] unfolding owned_wf_def pr by blast
  qed
qed

lemma push_wf:
  assumes wf: "hold_wf X (insert c Y) s" and at: "heldAt s (sockIdent s ws) = Some h"
  shows "hold_wf X Y (pushEntry h i payload ws c s)" (is "hold_wf _ _ ?s")
proof -
  define e where "e = is_nextEntry s"
  note M = hold_wfD(1) [OF wf, unfolded maps_wf_def]
  note Q = hold_wfD(2) [OF wf, unfolded queues_wf_def]
  note D = drains_wfD [OF hold_wfD(4) [OF wf]]
  have pr: "is_holds ?s = is_holds s" "is_nextHold ?s = is_nextHold s" "is_nextEntry ?s = Suc e"
    "is_pending ?s = is_pending s" "is_nextPending ?s = is_nextPending s" "bs_data ?s = bs_data s"
    "bs_live ?s = bs_live s" "queueOf ?s h' = (if h' = h then queueOf s h @ [e] else queueOf s h')"
    "sh_draining (is_hold ?s h') = sh_draining (is_hold s h')"
    "is_entry ?s = (is_entry s)(e := \<lparr>he_id = i, he_payload = payload, he_sock = ws, he_charge = c, he_inFlight = False\<rparr>)"
    for h'
    by (simp_all add: pushEntry_def Let_def e_def setQueue_def)
  have k: "heldAt ?s = heldAt s" "held ?s = held s"
    by (rule heldAt_cong, simp add: pr) (rule held_cong, simp add: pr)
  have id: "sockIdent ?s w = sockIdent s w" for w by (rule sockIdent_cong) (simp add: pr)
  have new: "e \<notin> set (queueOf s h')" for h' using Q e_def by (metis less_irrefl)
  have nd: "\<not> drains s p h' e sess" for p h' sess using drainsD(2) [OF wf] e_def by (metis less_irrefl)
  show ?thesis
  proof (rule hold_wfI)
    show "maps_wf ?s" by (rule maps_wf_cong [OF _ _ hold_wfD(1) [OF wf]]) (simp_all add: pr)
    show "queues_wf ?s"
    proof (rule queues_wfI)
      fix h' h'' e'
      show "e' < is_nextEntry ?s \<and> heldAt ?s (sockIdent ?s (he_sock (is_entry ?s e'))) = Some h'"
        if m: "e' \<in> set (queueOf ?s h')"
      proof (cases "e' = e")
        case True
        then have "h' = h" using m new by (auto simp: pr split: if_split_asm)
        then show ?thesis using True at unfolding id k by (simp add: pr)
      next
        case False
        then have "e' \<in> set (queueOf s h')" using m by (auto simp: pr split: if_split_asm)
        then have "e' < is_nextEntry s" "heldAt s (sockIdent s (he_sock (is_entry s e'))) = Some h'"
          using Q by blast+
        then show ?thesis using False e_def unfolding id k by (simp add: pr)
      qed
      show "distinct (queueOf ?s h')" using Q new by (simp add: pr)
      show "h' = h''" if "e' \<in> set (queueOf ?s h')" "e' \<in> set (queueOf ?s h'')"
        using Q that new by (auto simp: pr split: if_split_asm)
    qed
    show "pending_wf ?s" using hold_wfD(3) [OF wf] unfolding pending_wf_def pr .
    show "drains_wf X ?s"
    proof (rule drains_wfI)
      fix p p' h1 h2 e1 e2 sess1 sess2
      show "drain_ok ?s h1 e1 sess1" if "drains ?s p h1 e1 sess1"
      proof -
        have "drain_ok s h1 e1 sess1" using D(1) [of p h1 e1 sess1] that unfolding pr by blast
        moreover have "e1 \<noteq> e" using nd that unfolding pr by blast
        ultimately show ?thesis using e_def heldI [OF at] unfolding drain_ok_def k by (auto simp: pr)
      qed
      show "p = p'" if "drains ?s p h1 e1 sess1" "drains ?s p' h2 e2 sess2" "h1 = h2 \<or> e1 = e2"
        by (rule D(2) [of p h1 e1 sess1 p' h2 e2 sess2]) (use that in \<open>simp_all add: pr\<close>)
      show "\<exists>p sess. drains ?s p h1 e1 sess" if "e1 \<in> set (queueOf ?s h1)" "he_inFlight (is_entry ?s e1)"
        using D(3) [of e1 h1] that by (auto simp: pr split: if_split_asm)
      show "h1 \<in> X \<or> (\<exists>p e sess. drains ?s p h1 e sess)" if "sh_draining (is_hold ?s h1)"
        using D(4) [of h1] that unfolding pr by blast
    qed
    show "owned_wf Y ?s"
    proof -
      have ch: "he_charge (is_entry ?s e') = he_charge (is_entry s e')" if "e' \<noteq> e" for e' using that by (simp add: pr)
      have mem: "e' \<in> set (queueOf ?s h')" "e' \<noteq> e" if "e' \<in> set (queueOf s h')" for e' h'
        using that new by (auto simp: pr)
      have pc: "pendingCharge ?s w = pendingCharge s w" if "jget (is_pending s) p = Some w" for p w
      proof (cases w)
        case (DrainWrite h' e' sess)
        then have "e' \<noteq> e" using that nd by blast
        then show ?thesis using ch DrainWrite by simp
      qed simp_all
      have "owned ?s c'" if "owned s c'" for c'
        using that mem ch pc unfolding owned_def pr(4) by metis
      moreover have "e \<in> set (queueOf ?s h)" "he_charge (is_entry ?s e) = c" by (simp_all add: pr)
      then have "owned ?s c" unfolding owned_def by blast
      ultimately show ?thesis using hold_wfD(5) [OF wf] unfolding owned_wf_def pr(7) by (metis insertE)
    qed
  qed
qed

section \<open>Taking budget\<close>

lemma charge_wf:
  assumes "hold_wf X Y s"
  shows "hold_wf X (insert (bs_nextCharge s) Y) (snd (chargeInput ws so n no b s))"
  by (rule hold_wf_frame [OF assms]) (auto simp: sockIdent_def chargeInput_def)

lemma close_wf:
  assumes "hold_wf X Y s"
  shows "hold_wf X Y (closeForInputLimit ws code s)"
  by (rule hold_wf_frame [OF assms]) (auto simp: sockIdent_def closeForInputLimit_def)

lemma fetch_wf:
  assumes "hold_wf X Y s"
  shows "hold_wf X Y (s\<lparr>bs_sockets := so, bs_nodes := no\<rparr>)"
  by (rule hold_wf_frame [OF assms]) (auto simp: sockIdent_def)

text \<open>What a call of \<open>takeInputBudget\<close> amounts to: bookkeeping, perhaps a reclaim, then a close or a charge.\<close>

lemma take_shape:
  assumes "takeInputBudget r ws payload s = (res, s')"
  obtains (refused) "res = None" "s' = s"
  | (closed) so no t code where "res = None" "s' = closeForInputLimit ws code t"
      "t = s\<lparr>bs_sockets := so, bs_nodes := no\<rparr> \<or>
       (\<exists>f. r = Some f \<and> t = snd (f (s\<lparr>bs_sockets := so, bs_nodes := no\<rparr>)))"
  | (charged) so no t o1 n o2 b where "res = Some (bs_nextCharge t)" "s' = snd (chargeInput ws o1 n o2 b t)"
      "t = s\<lparr>bs_sockets := so, bs_nodes := no\<rparr> \<or>
       (\<exists>f. r = Some f \<and> t = snd (f (s\<lparr>bs_sockets := so, bs_nodes := no\<rparr>)))"
proof (cases "wd_inputClosed (bs_data s ws) \<or> wd_accessRevoked (bs_data s ws)")
  case True
  then show ?thesis using assms refused by (simp add: takeInputBudget_def Let_def)
next
  case False
  let ?n = "wd_nodeId (bs_data s ws)" and ?b = "int (utf8_byte_length payload)"
  obtain so socks where so: "ut_fetch ws (bs_sockets s) = (so, socks)" by fastforce
  obtain no nds where no: "ut_fetch ?n (bs_nodes s) = (no, nds)" by fastforce
  define s1 where "s1 = s\<lparr>bs_sockets := socks, bs_nodes := nds\<rparr>"
  define T where "T t \<longleftrightarrow> t = s1 \<or> (\<exists>f. r = Some f \<and> t = snd (f s1))" for t
  have *: "\<exists>t. T t \<and> ((\<exists>code. (res, s') = (None, closeForInputLimit ws code t)) \<or>
                        (res, s') = chargeInput ws so ?n no ?b t)"
  proof -
    let ?over = "?b > INPUT_FRAME_MAX_BYTES \<or> u_frames (ut_obj socks so) \<ge> INPUT_SOCKET_MAX_FRAMES \<or>
      u_bytes (ut_obj socks so) + ?b > INPUT_SOCKET_MAX_BYTES"
    let ?cap = "hasSharedCapacity (ut_obj nds no) (bs_total s1) ?b"
    let ?code = "if ?b > INPUT_FRAME_MAX_BYTES then 1009 else 1013"
    have one: "T t \<Longrightarrow> x = (None, closeForInputLimit ws code t) \<or> x = chargeInput ws so ?n no ?b t \<Longrightarrow>
      \<exists>t. T t \<and> ((\<exists>code. x = (None, closeForInputLimit ws code t)) \<or> x = chargeInput ws so ?n no ?b t)"
      for t code x by blast
    have start: "T s1" by (simp add: T_def)
    show ?thesis
    proof (cases r)
      case None
      have "(res, s') = (if ?over then (None, closeForInputLimit ws ?code s1)
          else if ?cap then chargeInput ws so ?n no ?b s1 else (None, closeForInputLimit ws 1013 s1))"
        unfolding assms [symmetric] takeInputBudget_def Let_def so no prod.case s1_def [symmetric] None option.case
        using False by (simp only: if_False)
      then show ?thesis
        by (cases ?over; cases ?cap; simp only: if_True if_False) (blast intro: one [OF start])+
    next
      case (Some f)
      obtain freed s2 where f: "f s1 = (freed, s2)" by fastforce
      have second: "T s2" using Some f by (simp add: T_def)
      let ?cap2 = "\<not> freed \<or> \<not> hasSharedCapacity (ut_obj (bs_nodes s2) no) (bs_total s2) ?b"
      have "(res, s') = (if ?over then (None, closeForInputLimit ws ?code s1)
          else if ?cap then chargeInput ws so ?n no ?b s1
          else if ?cap2 then (None, closeForInputLimit ws 1013 s2) else chargeInput ws so ?n no ?b s2)"
        unfolding assms [symmetric] takeInputBudget_def Let_def so no prod.case s1_def [symmetric] Some option.case f
        using False by (simp only: if_False)
      then show ?thesis
        by (cases ?over; cases ?cap; cases ?cap2; simp only: if_True if_False)
          (blast intro: one [OF start] one [OF second])+
    qed
  qed
  then obtain t where t: "T t" and c: "(\<exists>code. (res, s') = (None, closeForInputLimit ws code t)) \<or>
      (res, s') = chargeInput ws so ?n no ?b t" by blast
  note T = t [unfolded T_def s1_def]
  from c show ?thesis
  proof (elim disjE exE)
    fix code assume "(res, s') = (None, closeForInputLimit ws code t)"
    then show ?thesis using closed [OF _ _ T, of code] by simp
  next
    assume "(res, s') = chargeInput ws so ?n no ?b t"
    then show ?thesis using charged [OF _ _ T, of so ?n no ?b] by (simp add: chargeInput_def)
  qed
qed

lemma take_wf:
  assumes wf: "hold_wf X Y s" and t: "takeInputBudget r ws payload s = (res, s')"
    and r: "\<And>f t. r = Some f \<Longrightarrow> hold_wf X Y t \<Longrightarrow> hold_wf X Y (snd (f t))"
  shows "case res of None \<Rightarrow> hold_wf X Y s' | Some c \<Rightarrow> hold_wf X (insert c Y) s'"
proof -
  have w: "hold_wf X Y t"
    if "t = s\<lparr>bs_sockets := so, bs_nodes := no\<rparr> \<or> (\<exists>f. r = Some f \<and> t = snd (f (s\<lparr>bs_sockets := so, bs_nodes := no\<rparr>)))"
    for t so no using that fetch_wf [OF wf] r by blast
  from t show ?thesis
    by (cases rule: take_shape) (use wf w in \<open>auto intro!: close_wf charge_wf\<close>)
qed

lemma take_None_frame:
  assumes "takeInputBudget None ws payload s = (res, s')"
  shows "heldAt s' k = heldAt s k" "sockIdent s' w = sockIdent s w" "is_pending s' = is_pending s"
    "is_hold s' = is_hold s" "is_holds s' = is_holds s" "is_entry s' = is_entry s"
    "is_writes s' = is_writes s" "is_acks s' = is_acks s" "is_landed s' = is_landed s"
    "is_windows s' = is_windows s" "is_attached s' = is_attached s" "is_nextHold s' = is_nextHold s"
    "is_nextEntry s' = is_nextEntry s"
proof -
  have "heldAt s' k = heldAt s k \<and> sockIdent s' w = sockIdent s w \<and> is_pending s' = is_pending s \<and>
    is_hold s' = is_hold s \<and> is_holds s' = is_holds s \<and> is_entry s' = is_entry s \<and>
    is_writes s' = is_writes s \<and> is_acks s' = is_acks s \<and> is_landed s' = is_landed s \<and>
    is_windows s' = is_windows s \<and> is_attached s' = is_attached s \<and> is_nextHold s' = is_nextHold s \<and>
    is_nextEntry s' = is_nextEntry s"
    using assms by (cases rule: take_shape)
      (auto simp: heldAt_def sockIdent_def closeForInputLimit_def chargeInput_def)
  then show "heldAt s' k = heldAt s k" "sockIdent s' w = sockIdent s w" "is_pending s' = is_pending s"
    "is_hold s' = is_hold s" "is_holds s' = is_holds s" "is_entry s' = is_entry s"
    "is_writes s' = is_writes s" "is_acks s' = is_acks s" "is_landed s' = is_landed s"
    "is_windows s' = is_windows s" "is_attached s' = is_attached s" "is_nextHold s' = is_nextHold s"
    "is_nextEntry s' = is_nextEntry s" by blast+
qed

lemma getHold_frame:
  assumes "getHold n sub sess s = (h, s1)"
  shows "sockIdent s1 w = sockIdent s w" "is_pending s1 = is_pending s" "is_entry s1 = is_entry s"
    "is_writes s1 = is_writes s" "is_acks s1 = is_acks s" "is_landed s1 = is_landed s"
    "is_windows s1 = is_windows s" "is_attached s1 = is_attached s" "bs_data s1 = bs_data s"
    "is_nextEntry s1 = is_nextEntry s"
  using assms by (auto simp: getHold_def sockIdent_def Let_def split: option.splits)

section \<open>Every handler keeps the shape\<close>

lemma holdFailed_wf:
  assumes wf: "hold_wf {} Y s" and id: "sockIdent s ws = (n, sub, sess)"
  shows "hold_wf {} Y (holdFailedInput n sub sess i payload ws s)"
proof (cases "wd_accessRevoked (bs_data s ws) \<or> wd_inputClosed (bs_data s ws)")
  case False
  obtain h s1 where g: "getHold n sub sess s = (h, s1)" by fastforce
  have w1: "hold_wf {} Y s1" by (rule getHold_wf [OF wf _ g]) simp
  note at1 = getHold_at [OF g]
  have id1: "sockIdent s1 ws = (n, sub, sess)" using getHold_frame(1) [OF g] id by simp
  obtain res s2 where t: "takeInputBudget None ws payload s1 = (res, s2)" by fastforce
  note w2 = take_wf [OF w1 t]
  have at2: "heldAt s2 (n, sub, sess) = Some h" using at1 take_None_frame(1) [OF t] by simp
  have id2: "sockIdent s2 ws = (n, sub, sess)" using id1 take_None_frame(2) [OF t] by simp
  have "hold_wf {} Y (drain h sess s1)" by (rule drain_wf [OF w1 _ at1]) simp
  moreover have "hold_wf {} Y (dropInputHolds n sub sess s2)" if "res = None"
    by (rule drop_wf) (use w2 that in simp)
  moreover have "hold_wf {} Y (drain h sess (pushEntry h i payload ws c s2))" if "res = Some c" for c
  proof (rule drain_wf)
    show "hold_wf {} Y (pushEntry h i payload ws c s2)"
      by (rule push_wf) (use w2 that at2 id2 in simp_all)
    have "is_holds (pushEntry h i payload ws c s2) = is_holds s2" by (simp add: pushEntry_def Let_def)
    then show "heldAt (pushEntry h i payload ws c s2) (n, sub, sess) = Some h"
      using at2 by (simp add: heldAt_def)
  qed simp
  ultimately show ?thesis using False by (cases res) (simp_all add: holdFailedInput_def g t)
qed (use wf in \<open>simp add: holdFailedInput_def\<close>)

lemma reclaim_wf:
  assumes wf: "hold_wf {} Y s"
  shows "hold_wf {} Y (snd (reclaimOneHeldInput s))"
proof (cases s rule: reclaim_cases)
  case none
  then show ?thesis using wf by simp
next
  case (some n sub sess h e)
  let ?c = "he_charge (is_entry s e)"
  let ?q = "remove1 e (queueOf s h)"
  let ?s = "releaseCharge ?c (setQueue h ?q s)"
  have at: "holdAt n sub sess (is_holds s) = Some h"
    using some(1) hold_wfD(1) [OF wf] by (simp add: heldSessions_holdAt maps_wf_def)
  then have hld: "held s h" by (intro heldI [of s "(n, sub, sess)"]) (simp add: heldAt_simp)
  have dist: "distinct (queueOf s h)" using hold_wfD(2) [OF wf] by (simp add: queues_wf_def)
  have head: "\<exists>r. ?q = e' # r" if d: "drains s p h e' sess'" for p e' sess'
  proof -
    obtain r where "queueOf s h = e' # r" using drainsD(6) [OF wf d hld] by blast
    moreover have "e' \<noteq> e" using drainsD(4) [OF wf d] some(4) by blast
    ultimately show ?thesis by simp
  qed
  have "hold_wf {} (insert ?c Y) (setQueue h ?q s)"
    using dist head by (intro hold_wf_shrink [OF wf]) (auto simp: set_remove1_eq)
  then have w: "hold_wf {} Y ?s" by (rule hold_wf_release)
  have "hold_wf {} Y (?s\<lparr>is_holds := delHold n sub sess (is_holds ?s)\<rparr>)" if e: "queueOf ?s h = []"
  proof -
    have "setQueue h [] ?s = ?s" using e by (simp add: setQueue_def fun_upd_idem)
    then show ?thesis using hold_wf_unhold [OF w, of n sub sess h Y] at e by simp
  qed
  then show ?thesis using w by (simp add: some(5) Let_def)
qed

lemma handle_wf:
  assumes wf: "hold_wf {} {} s"
  shows "hold_wf {} {} (handleInputFrame ws payload fid s)"
proof (cases rule: handle_cases [where ws = ws and payload = payload and s = s and fid = fid])
  case (known i wins)
  then show ?thesis using wf by (simp add: hold_wf_ack hold_wf_windows)
next
  case (joins i wins)
  show ?thesis unfolding joins(5)
    by (rule holdFailed_wf [OF hold_wf_windows [OF wf]]) (simp add: sockIdent_def)
next
  case (takes wins r s2)
  let ?sess = "wd_session (bs_data s ws)"
  have t: "case r of None \<Rightarrow> hold_wf {} {} s2 | Some c \<Rightarrow> hold_wf {} (insert c {}) s2"
    using reclaim_wf by (intro take_wf [OF hold_wf_windows [OF wf] takes(4)]) auto
  show ?thesis
  proof (cases r)
    case (Some c)
    let ?w = "case fid of Some i \<Rightarrow> FreshWrite ws ?sess i payload c | None \<Rightarrow> BareWrite c"
    let ?t = "sendInput ws ?sess fid payload s2"
    have "pendingCharge ?t ?w = c" "\<And>h e sess. ?w \<noteq> DrainWrite h e sess" by (auto split: option.split)
    moreover have "hold_wf {} (insert c {}) ?t" using t Some by (simp add: hold_wf_send)
    ultimately have "hold_wf {} {} (addPending ?w ?t)" by (intro hold_wf_addPending) simp_all
    then show ?thesis using takes(5) Some by simp
  qed (use t takes(5) in simp)
qed (use wf in simp)

section \<open>Settling a write\<close>

lemma drainResolved_wf:
  assumes wf: "hold_wf {} Y s" and p: "drains s p h e sess"
  shows "hold_wf {} Y (drainResolved h e sess (s\<lparr>is_pending := jdel p (is_pending s)\<rparr>))"
proof -
  let ?t = "setInFlight e False (s\<lparr>is_pending := jdel p (is_pending s)\<rparr>)"
  let ?c = "he_charge (is_entry s e)"
  let ?r = "releaseCharge ?c ?t"
  let ?q = "tl (queueOf s h)"
  let ?u = "setQueue h ?q ?r"
  let ?v = "commitWrite (he_sock (is_entry s e)) sess (he_id (is_entry s e)) ?u"
  note ret = hold_wf_return [OF wf p]
  have head: "queueOf s h = [] \<or> queueOf s h = e # ?q"
    using drainsD(6,7) [OF wf p] by fastforce
  have dist: "distinct (queueOf s h)" using hold_wfD(2) [OF wf] by (simp add: queues_wf_def)
  have none: "\<forall>p e sess. \<not> drains ?r p h e sess" using ret(2) by simp
  have "hold_wf {h} (insert ?c Y) ?u"
  proof (rule hold_wf_shrink)
    show "hold_wf {h} Y ?r" by (rule hold_wf_release [OF ret(1)])
    show "set ?q \<subseteq> set (queueOf ?r h)" by (cases "queueOf s h") auto
    show "distinct ?q" using dist by (simp add: distinct_tl)
    show "Y \<subseteq> insert ?c Y" by auto
    show "he_charge (is_entry ?r e') \<in> insert ?c Y" if "e' \<in> set (queueOf ?r h)" "e' \<notin> set ?q" for e'
    proof -
      have "e' = e" using that head by (cases "queueOf s h") auto
      then show ?thesis by (simp add: setInFlight_def)
    qed
  qed (use none in blast)
  then have "hold_wf {h} Y ?u" by (rule hold_wf_trim) (simp_all add: releaseCharge_live)
  then have v: "hold_wf {h} Y ?v" by (rule hold_wf_commit)
  have pr: "is_pending ?v = is_pending ?r" "bs_data ?v = bs_data s" "is_entry ?v = is_entry ?t"
    "is_hold ?v = is_hold ?u"
    by (simp_all add: commitWrite_def sendAck_def Let_def)
  have q: "queueOf ?v h = ?q" unfolding pr by simp
  have "hold_wf {} Y (drainLoop h sess (queueOf ?v h) ?v)"
  proof (rule drainLoop_wf)
    show "\<forall>p e sess. \<not> drains ?v p h e sess" using none unfolding pr by simp
    show "sh_draining (is_hold ?v h)" unfolding pr using drainsD(3) [OF wf p] by simp
    show "\<forall>e' \<in> set (queueOf ?v h). wd_session (bs_data ?v (he_sock (is_entry ?v e'))) = sess"
    proof
      fix e' assume "e' \<in> set (queueOf ?v h)"
      then have m: "e' \<in> set (queueOf s h)" and ne: "queueOf s h = e # ?q"
        unfolding q using head by (cases "queueOf s h"; auto)+
      then have "e \<in> set (queueOf s h)" by (metis list.set_intros(1))
      then have "heldAt s (sockIdent s (he_sock (is_entry s e))) = Some h" by (rule queue_held(2) [OF wf])
      moreover have "wd_session (bs_data s (he_sock (is_entry s e))) = sess" by (rule drainsD(5) [OF wf p])
      ultimately have "wd_session (bs_data s (he_sock (is_entry s e'))) = sess"
        using held_session(2) [OF wf _ m] by (simp add: sockIdent_def)
      then show "wd_session (bs_data ?v (he_sock (is_entry ?v e'))) = sess" unfolding pr by simp
    qed
  qed (use v in simp_all)
  moreover have "drainResolved h e sess (s\<lparr>is_pending := jdel p (is_pending s)\<rparr>) = drainLoop h sess (queueOf ?v h) ?v"
    by (simp add: drainResolved_def Let_def setInFlight_def)
  ultimately show ?thesis by simp
qed

lemma drainRejected_wf:
  assumes wf: "hold_wf {} Y s" and p: "drains s p h e sess"
  shows "hold_wf {} Y (drainRejected h e (s\<lparr>is_pending := jdel p (is_pending s)\<rparr>))"
proof -
  let ?p = "s\<lparr>is_pending := jdel p (is_pending s)\<rparr>"
  let ?t = "setInFlight e False ?p"
  let ?c = "he_charge (is_entry s e)"
  note ret = hold_wf_return [OF wf p]
  have fin: "hold_wf {} Y (setDraining h False u)"
    if "hold_wf {h} Y u" "is_pending u = is_pending ?t" for u
  proof -
    have "hold_wf ({h} - {h}) Y (setDraining h False u)"
      using hold_wf_draining [OF that(1), of False h] ret(2) that(2) by simp
    then show ?thesis by simp
  qed
  show ?thesis
  proof (cases "e \<in> set (queueOf s h)")
    case True
    have "hold_wf {h} Y ?t"
    proof -
      have "owned ?t ?c" unfolding owned_def using True by auto
      then show ?thesis by (rule hold_wf_owned [OF ret(1)])
    qed
    then show ?thesis using True by (simp add: drainRejected_def fin)
  next
    case False
    have "releaseCharge ?c ?t = setInFlight e False (releaseCharge ?c ?p)"
      by (simp add: setInFlight_def releaseCharge_def split: option.split)
    moreover have "hold_wf {h} Y (releaseCharge ?c ?t)" by (rule hold_wf_release [OF ret(1)])
    ultimately show ?thesis using False fin [of "releaseCharge ?c ?t"] by (simp add: drainRejected_def)
  qed
qed

lemma continue_wf:
  assumes wf: "hold_wf {} {} s" and Some: "jget (is_pending s) p = Some w"
    and fresh: "\<And>ws sess i payload c. w = FreshWrite ws sess i payload c \<Longrightarrow> sess = wd_session (bs_data s ws)"
  shows "hold_wf {} {} (continueWrite w ok (s\<lparr>is_pending := jdel p (is_pending s)\<rparr>))"
proof -
  let ?s = "s\<lparr>is_pending := jdel p (is_pending s)\<rparr>"
  show ?thesis
  proof (cases w)
    case (DrainWrite h e sess)
    then show ?thesis using Some drainResolved_wf [OF wf] drainRejected_wf [OF wf] by simp
  next
    case (FreshWrite ws sess i payload c)
    let ?d = "bs_data s ws"
    have rm: "hold_wf {} {c} ?s" using hold_wf_removePending [OF wf Some] FreshWrite by simp
    have "hold_wf {} {c} (commitWrite ws sess i ?s)" by (rule hold_wf_commit [OF rm])
    then have "hold_wf {} {} (addPending (ReleaseLater c) (commitWrite ws sess i ?s))"
      by (intro hold_wf_addPending) simp_all
    moreover
    have r: "hold_wf {} {} (releaseCharge c ?s)" by (rule hold_wf_release [OF rm])
    have id: "sockIdent (releaseCharge c ?s) ws = (wd_nodeId ?d, wd_subshellId ?d, sess)"
      using fresh Some FreshWrite by (simp add: sockIdent_def)
    have "hold_wf {} {} (addPending (ReleaseLater c) u)" if "hold_wf {} {} u" for u
      by (rule hold_wf_addPending) (use hold_wf_weaken [OF that] in auto)
    ultimately show ?thesis using Some FreshWrite r holdFailed_wf [OF r id] by (simp add: Let_def)
  next
    case (BareWrite c)
    have "hold_wf {} {c} ?s" using hold_wf_removePending [OF wf Some] BareWrite by simp
    then have "hold_wf {} {} (addPending (ReleaseLater c) ?s)" by (intro hold_wf_addPending) simp_all
    then show ?thesis using Some BareWrite by simp
  next
    case (ReleaseLater c)
    have "hold_wf {} {c} ?s" using hold_wf_removePending [OF wf Some] ReleaseLater by simp
    then show ?thesis using Some ReleaseLater by (simp add: hold_wf_release)
  qed
qed

lemma hold_wf_logged: "hold_wf X Y s \<Longrightarrow> hold_wf X Y (logResolved w ok s)"
  unfolding logResolved_def by (cases ok) (auto simp: sockIdent_def elim!: hold_wf_frame)

lemma settle_wf:
  assumes wf: "hold_wf {} {} s"
    and fresh: "\<And>p ws sess i payload c. jget (is_pending s) p = Some (FreshWrite ws sess i payload c) \<Longrightarrow>
                  sess = wd_session (bs_data s ws)"
  shows "hold_wf {} {} (settle p ok s)"
proof (cases "jget (is_pending s) p")
  case (Some w)
  then show ?thesis
    using continue_wf [OF hold_wf_logged [OF wf, of w ok], of p w ok] fresh [of p] by (simp add: settle_def)
qed (use wf in \<open>simp add: settle_def\<close>)

section \<open>What was written, committed and acknowledged\<close>

text \<open>
  A committed id has landed and so has an acknowledged one, for the session of the socket it went
  to; a first write in flight belongs to its socket's session.
\<close>

definition log_wf :: "input_state \<Rightarrow> bool" where
  "log_wf s \<longleftrightarrow>
     (\<forall>p ws sess i payload c. (p, FreshWrite ws sess i payload c) \<in> set (is_pending s) \<longrightarrow>
        sess = wd_session (bs_data s ws)) \<and>
     windows_inv (is_windows s) \<and>
     (\<forall>sub sess w i. windowOf sub sess (is_windows s) = Some w \<longrightarrow> i \<in> iw_seen w \<longrightarrow>
        (sub, sess, i) \<in> set (is_landed s)) \<and>
     (\<forall>ws i. (ws, i) \<in> set (is_acks s) \<longrightarrow>
        (wd_subshellId (bs_data s ws), wd_session (bs_data s ws), i) \<in> set (is_landed s))"

lemma log_wf_fresh:
  "log_wf s \<Longrightarrow> (p, FreshWrite ws sess i payload c) \<in> set (is_pending s) \<Longrightarrow> sess = wd_session (bs_data s ws)"
  unfolding log_wf_def by blast

text \<open>Steps that neither commit nor acknowledge.\<close>

definition quiet :: "input_state \<Rightarrow> input_state \<Rightarrow> bool" where
  "quiet s s' \<longleftrightarrow>
     is_windows s' = is_windows s \<and> is_landed s' = is_landed s \<and> is_acks s' = is_acks s \<and>
     (\<forall>w. sockIdent s' w = sockIdent s w) \<and>
     (\<forall>p ws sess i payload c. (p, FreshWrite ws sess i payload c) \<in> set (is_pending s') \<longrightarrow>
        (p, FreshWrite ws sess i payload c) \<in> set (is_pending s))"

lemma quiet_refl [simp]: "quiet s s"
  by (simp add: quiet_def)

lemma quiet_trans [trans]: "quiet s t \<Longrightarrow> quiet t u \<Longrightarrow> quiet s u"
  by (simp add: quiet_def)

lemma quiet_log: "quiet s s' \<Longrightarrow> log_wf s \<Longrightarrow> log_wf s'"
  unfolding quiet_def log_wf_def sockIdent_def by simp blast

lemma quiet_small [simp]:
  "quiet s (releaseCharge c s)" "quiet s (setQueue h q s)" "quiet s (setDraining h b s)"
  "quiet s (setInFlight e b s)" "quiet s (sendInput ws sess i payload s)"
  "quiet s (s\<lparr>is_holds := m\<rparr>)" "quiet s (pushEntry h j payload ws c s)"
  "quiet s (closeForInputLimit ws code s)" "quiet s (snd (chargeInput ws so n no bts s))"
  "quiet s (s\<lparr>is_pending := jdel p (is_pending s)\<rparr>)"
  by (simp_all add: quiet_def sockIdent_def setQueue_def setDraining_def setInFlight_def sendInput_def
      pushEntry_def closeForInputLimit_def chargeInput_def Let_def set_jdel)

fun fresh_write :: "pending \<Rightarrow> bool" where
  "fresh_write (FreshWrite _ _ _ _ _) = True"
| "fresh_write _ = False"

lemma quiet_add: "\<not> fresh_write w \<Longrightarrow> quiet s (addPending w s)"
  by (auto simp: quiet_def addPending_def sockIdent_def)

lemma quiet_drainLoop: "quiet s (drainLoop h sess q s)"
proof (induction h sess q s rule: drainLoop.induct)
  case (2 h sess e q s)
  let ?en = "is_entry s e"
  let ?r = "setQueue h q (releaseCharge (he_charge ?en) s)"
  show ?case
  proof (cases "wd_accessRevoked (bs_data s (he_sock ?en)) \<or> wd_inputClosed (bs_data s (he_sock ?en))")
    case True
    have "quiet s ?r" by (rule quiet_trans [OF quiet_small(1,2)])
    from quiet_trans [OF this 2 [OF refl refl True]] True show ?thesis by (simp add: Let_def)
  next
    case False
    have "quiet s (sendInput (he_sock ?en) sess (Some (he_id ?en)) (he_payload ?en) (setInFlight e True s))"
      by (rule quiet_trans [OF quiet_small(4,5)])
    from quiet_trans [OF this quiet_add] False show ?thesis by (simp add: Let_def)
  qed
qed simp

lemma quiet_drain: "quiet s (drain h sess s)"
  using quiet_trans [OF quiet_small(3) quiet_drainLoop] by (simp add: drain_def)

lemma quiet_releaseIdle: "quiet s (releaseIdle q s)"
  by (induction q s rule: releaseIdle.induct) (auto intro: quiet_trans quiet_small)

lemma quiet_drop: "quiet s (dropInputHolds n sub sess s)"
  unfolding dropInputHolds_def Let_def
  by (auto split: option.split intro!: quiet_trans [OF quiet_trans [OF quiet_releaseIdle quiet_small(2)] quiet_small(6)])

lemma quiet_getHold: "getHold n sub sess s = (h, s1) \<Longrightarrow> quiet s s1"
  by (auto simp: quiet_def getHold_frame)

lemma quiet_reclaim: "quiet s (snd (reclaimOneHeldInput s))"
proof (cases s rule: reclaim_cases)
  case (some n sub sess h e)
  have "quiet s (releaseCharge (he_charge (is_entry s e)) (setQueue h (remove1 e (queueOf s h)) s))" (is "quiet s ?s")
    by (rule quiet_trans [OF quiet_small(2,1)])
  moreover have "quiet s (?s\<lparr>is_holds := delHold n sub sess (is_holds ?s)\<rparr>)"
    by (rule quiet_trans [OF calculation quiet_small(6)])
  ultimately show ?thesis
    unfolding some(5) Let_def snd_conv by (cases "queueOf ?s h = []") (simp_all only: if_True if_False simp_thms)
qed simp

lemma quiet_fetch [simp]: "quiet s (s\<lparr>bs_sockets := so, bs_nodes := no\<rparr>)"
  by (simp add: quiet_def sockIdent_def)

lemma quiet_take:
  assumes "takeInputBudget r ws payload s = (res, s')" "\<And>f t. r = Some f \<Longrightarrow> quiet t (snd (f t))"
  shows "quiet s s'"
proof -
  have w: "quiet s t"
    if "t = s\<lparr>bs_sockets := so, bs_nodes := no\<rparr> \<or> (\<exists>f. r = Some f \<and> t = snd (f (s\<lparr>bs_sockets := so, bs_nodes := no\<rparr>)))"
    for t so no using that quiet_fetch quiet_trans [OF quiet_fetch assms(2)] by blast
  from assms(1) show ?thesis
    by (cases rule: take_shape) (use w in \<open>auto intro: quiet_trans [OF w quiet_small(8)] quiet_trans [OF w quiet_small(9)]\<close>)
qed

lemma quiet_holdFailed: "quiet s (holdFailedInput n sub sess i payload ws s)"
proof (cases "wd_accessRevoked (bs_data s ws) \<or> wd_inputClosed (bs_data s ws)")
  case False
  obtain h s1 where g: "getHold n sub sess s = (h, s1)" by fastforce
  obtain res s2 where t: "takeInputBudget None ws payload s1 = (res, s2)" by fastforce
  note q1 = quiet_getHold [OF g]
  have q2: "quiet s s2" by (rule quiet_trans [OF q1 quiet_take [OF t]]) simp
  show ?thesis using False
    by (auto simp: holdFailedInput_def g t quiet_trans [OF q1 quiet_drain] quiet_trans [OF q2 quiet_drop]
        split: option.split intro: quiet_trans [OF quiet_trans [OF q2 quiet_small(7)] quiet_drain])
qed (simp add: holdFailedInput_def)

lemma log_wf_logged: "log_wf s \<Longrightarrow> log_wf (logResolved w ok s)"
  unfolding log_wf_def by auto

lemma log_wf_commit:
  assumes "log_wf s" "sess = wd_session (bs_data s ws)" "(wd_subshellId (bs_data s ws), sess, i) \<in> set (is_landed s)"
  shows "log_wf (commitWrite ws sess i s)"
proof -
  let ?sub = "wd_subshellId (bs_data s ws)"
  let ?ws = "inputWindowAdd ?sub sess i (is_windows s)"
  note l = assms(1) [unfolded log_wf_def]
  have inv: "windows_inv (is_windows s)" using l by blast
  have seen: "(sub', sess', j) \<in> insert (?sub, sess, i) (set (is_landed s))"
    if "windowOf sub' sess' ?ws = Some w" "j \<in> iw_seen w" for sub' sess' w j
  proof (cases "(sub', sess') = (?sub, sess)")
    case True
    then have "w = iw_add i (case windowOf ?sub sess (is_windows s) of None \<Rightarrow> newIdWindow | Some v \<Rightarrow> v)"
      using that(1) by (simp add: windowOf_add_same [OF inv])
    then have "j = i \<or> (\<exists>v. windowOf ?sub sess (is_windows s) = Some v \<and> j \<in> iw_seen v)"
      using that(2) iw_add_seen by (fastforce simp: newIdWindow_def split: option.splits)
    then show ?thesis using True l by auto
  next
    case False
    then show ?thesis using windowOf_add_other [OF inv False that(1)] that(2) l by blast
  qed
  have "log_wf (s\<lparr>is_windows := ?ws\<rparr>)" (is "log_wf ?s")
    unfolding log_wf_def using l seen assms(3) inputWindowAdd_inv [OF inv] by auto
  moreover from this have "log_wf (?s\<lparr>is_acks := is_acks ?s @ [(ws, i)]\<rparr>)"
    unfolding log_wf_def using assms(2,3) by auto
  ultimately show ?thesis by (simp add: commitWrite_def sendAck_def Let_def)
qed

section \<open>The invariant of the input path\<close>

definition input_wf :: "input_state \<Rightarrow> bool" where
  "input_wf s \<longleftrightarrow> hold_wf {} {} s \<and> log_wf s"

lemma log_wf_ack:
  assumes "log_wf s" "(wd_subshellId (bs_data s ws), wd_session (bs_data s ws), i) \<in> set (is_landed s)"
  shows "log_wf (sendAck ws i s)"
  using assms unfolding log_wf_def sendAck_def by auto

lemma log_wf_touch:
  assumes "log_wf s" "inputWindowHas sub sess i (is_windows s) = (b, wins)"
  shows "log_wf (s\<lparr>is_windows := wins\<rparr>)"
proof -
  have "wins = snd (inputWindowHas sub sess i (is_windows s))" using assms(2) by simp
  then have "windows_inv wins" "windowOf sub' sess' wins = windowOf sub' sess' (is_windows s)" for sub' sess'
    using assms(1) inputWindowHas_inv inputWindowHas_windowOf by (simp_all add: log_wf_def)
  then show ?thesis using assms(1) unfolding log_wf_def by simp
qed

lemma log_wf_addFresh:
  "log_wf s \<Longrightarrow> sess = wd_session (bs_data s ws) \<Longrightarrow> log_wf (addPending (FreshWrite ws sess i payload c) s)"
  unfolding log_wf_def addPending_def by auto

lemma handle_log:
  assumes "log_wf s"
  shows "log_wf (handleInputFrame ws payload fid s)"
proof (cases rule: handle_cases [where ws = ws and payload = payload and s = s and fid = fid])
  case (known i wins)
  have "fst (inputWindowHas (wd_subshellId (bs_data s ws)) (wd_session (bs_data s ws)) i (is_windows s))"
    using known(3) by simp
  then have "(wd_subshellId (bs_data s ws), wd_session (bs_data s ws), i) \<in> set (is_landed s)"
    using assms unfolding inputWindowHas_fst iw_has_def log_wf_def by blast
  then show ?thesis unfolding known(4) by (intro log_wf_ack log_wf_touch [OF assms known(3)]) simp
next
  case (joins i wins)
  show ?thesis unfolding joins(5) by (rule quiet_log [OF quiet_holdFailed log_wf_touch [OF assms joins(3)]])
next
  case (takes wins r s2)
  let ?sess = "wd_session (bs_data s ws)"
  have "log_wf (s\<lparr>is_windows := wins\<rparr>)"
  proof (cases fid)
    case None
    then show ?thesis using takes(3) assms by simp
  next
    case (Some i)
    show ?thesis by (rule log_wf_touch [OF assms takes(2) [OF Some, THEN conjunct1]])
  qed
  moreover have q: "quiet (s\<lparr>is_windows := wins\<rparr>) s2"
    by (rule quiet_take [OF takes(4)]) (use quiet_reclaim in auto)
  ultimately have s2: "log_wf s2" by (rule quiet_log [rotated])
  have "sockIdent s2 ws = sockIdent (s\<lparr>is_windows := wins\<rparr>) ws" using q unfolding quiet_def by blast
  then have sess: "?sess = wd_session (bs_data s2 ws)" by (simp add: sockIdent_def)
  have t: "log_wf (sendInput ws ?sess fid payload s2)" by (rule quiet_log [OF quiet_small(5) s2])
  have "log_wf (addPending (case fid of Some i \<Rightarrow> FreshWrite ws ?sess i payload c | None \<Rightarrow> BareWrite c)
      (sendInput ws ?sess fid payload s2))" for c
    using quiet_log [OF quiet_add t] log_wf_addFresh [OF t] sess
    by (cases fid) (simp_all add: sendInput_def)
  then show ?thesis using s2 takes(5) by (cases r) simp_all
qed (use assms in simp)

lemma continue_log:
  assumes wf: "hold_wf {} {} s" and log: "log_wf s" and Some: "jget (is_pending s) p = Some w"
    and landed: "ok \<Longrightarrow> set (resolvedWrite w s) \<subseteq> set (is_landed s)"
  shows "log_wf (continueWrite w ok (s\<lparr>is_pending := jdel p (is_pending s)\<rparr>))"
proof -
  let ?s = "s\<lparr>is_pending := jdel p (is_pending s)\<rparr>"
  have l: "log_wf ?s" by (rule quiet_log [OF quiet_small(10) log])
  show ?thesis
  proof (cases w)
    case (FreshWrite ws sess i payload c)
    have "(p, FreshWrite ws sess i payload c) \<in> set (is_pending s)"
      using jget_SomeD [OF Some] FreshWrite by simp
    from log_wf_fresh [OF log this] have "sess = wd_session (bs_data ?s ws)" by simp
    then have ok: "log_wf (addPending (ReleaseLater c) (commitWrite ws sess i ?s))" if ok
      using landed [OF that] FreshWrite by (intro quiet_log [OF quiet_add] log_wf_commit l) simp_all
    have r: "log_wf (releaseCharge c ?s)" by (rule quiet_log [OF quiet_small(1) l])
    have "log_wf (addPending (ReleaseLater c) u)" if "log_wf u" for u
      by (rule quiet_log [OF quiet_add that]) simp
    then show ?thesis using FreshWrite ok r quiet_log [OF quiet_holdFailed r]
      by (simp add: Let_def)
  next
    case (BareWrite c)
    then show ?thesis using Some quiet_log [OF quiet_add l] by simp
  next
    case (ReleaseLater c)
    then show ?thesis using Some quiet_log [OF quiet_small(1) l] by simp
  next
    case (DrainWrite h e sess)
    let ?t = "releaseCharge (he_charge (is_entry s e)) (setInFlight e False ?s)"
    let ?u = "setQueue h (tl (queueOf ?t h)) ?t"
    have "quiet ?s ?u" by (intro quiet_trans [OF quiet_trans [OF quiet_small(4) quiet_small(1)] quiet_small(2)])
    then have "log_wf (commitWrite (he_sock (is_entry s e)) sess (he_id (is_entry s e)) ?u)" if ok
      using drainsD(5) [OF wf, of p h e sess] Some DrainWrite landed [OF that]
      by (intro log_wf_commit) (auto simp: setQueue_def setInFlight_def intro: quiet_log [OF _ l])
    then have "log_wf (drainResolved h e sess ?s)" if ok
      using that unfolding drainResolved_def Let_def by (auto intro: quiet_log [OF quiet_drainLoop])
    moreover have "log_wf (drainRejected h e ?s)"
    proof -
      have "quiet ?s (setDraining h False (setInFlight e False u))" if "quiet ?s u" for u
        by (rule quiet_trans [OF quiet_trans [OF that quiet_small(4)] quiet_small(3)])
      then have "quiet ?s (drainRejected h e ?s)" by (auto simp: drainRejected_def Let_def)
      then show ?thesis by (rule quiet_log [OF _ l])
    qed
    ultimately show ?thesis using Some DrainWrite by simp
  qed
qed

lemma settle_log:
  assumes wf: "hold_wf {} {} s" and log: "log_wf s"
  shows "log_wf (settle p ok s)"
proof (cases "jget (is_pending s) p")
  case (Some w)
  have "resolvedWrite w (logResolved w True s) = resolvedWrite w s" by (cases w) simp_all
  then show ?thesis
    using continue_log [OF hold_wf_logged [OF wf, of w ok] log_wf_logged [OF log, of w ok], of p w ok] Some by (simp add: settle_def)
qed (use log in \<open>simp add: settle_def\<close>)

text \<open>Flags of sockets change, their identities never.\<close>

lemma hold_wf_setData:
  assumes "hold_wf X Y s" "sockIdent (s\<lparr>bs_data := (bs_data s)(ws := d)\<rparr>) ws = sockIdent s ws"
  shows "hold_wf X Y (s\<lparr>bs_data := (bs_data s)(ws := d)\<rparr>)"
  by (rule hold_wf_flags [OF assms(1)]) (use assms(2) in \<open>auto simp: sockIdent_def\<close>)

lemma quiet_setData:
  assumes "sockIdent (s\<lparr>bs_data := (bs_data s)(ws := d)\<rparr>) ws = sockIdent s ws"
  shows "quiet s (s\<lparr>bs_data := (bs_data s)(ws := d)\<rparr>)"
  using assms by (auto simp: quiet_def sockIdent_def)

lemma drain_holds: "is_holds (drain h sess s) = is_holds s"
proof -
  have "is_holds (drainLoop h sess q s) = is_holds s" for q s
    by (induction h sess q s rule: drainLoop.induct) (simp_all add: Let_def sendInput_def)
  then show ?thesis by (simp add: drain_def)
qed

lemma refire_wf:
  assumes wf: "hold_wf {} {} s"
  shows "hold_wf {} {} (refireInputHoldsForNode n s)" "quiet s (refireInputHoldsForNode n s)"
proof -
  let ?f = "\<lambda>((_ :: string, _ :: string, sess), h) s. if sh_queue (is_hold s h) \<noteq> [] then drain h sess s else s"
  have "hold_wf {} {} (fold ?f xs t) \<and> quiet t (fold ?f xs t)"
    if "hold_wf {} {} t" "is_holds t = is_holds s"
      "\<forall>((n', sub, sess), h) \<in> set xs. holdAt n' sub sess (is_holds s) = Some h" for xs t
    using that
  proof (induction xs arbitrary: t)
    case (Cons x xs)
    obtain n' sub sess h where x: "x = ((n', sub, sess), h)" by (metis surj_pair)
    let ?t = "?f x t"
    have "heldAt t (n', sub, sess) = Some h" using Cons.prems by (simp add: x heldAt_simp)
    from drain_wf [OF Cons.prems(1) _ this] have "hold_wf {} {} ?t" "is_holds ?t = is_holds s" "quiet t ?t"
      using Cons.prems by (simp_all add: x drain_holds quiet_drain)
    with Cons.IH [of ?t] Cons.prems(3) show ?case using quiet_trans by auto
  qed simp
  moreover have "\<forall>((n', sub, sess), h) \<in> set (subSessions n (subsAt n (is_holds s))). holdAt n' sub sess (is_holds s) = Some h"
    using hold_wfD(1) [OF wf] subSessions_holdAt [of "is_holds s"] unfolding maps_wf_def by auto
  ultimately show "hold_wf {} {} (refireInputHoldsForNode n s)" "quiet s (refireInputHoldsForNode n s)"
    using wf by (simp_all add: refireInputHoldsForNode_def)
qed

interpretation input_machine: event_machine input_step input_wf
proof unfold_locales
  fix s e assume wf: "input_wf s"
  then have h: "hold_wf {} {} s" and l: "log_wf s" by (simp_all add: input_wf_def)
  have data: "input_wf (s\<lparr>bs_data := (bs_data s)(ws := d)\<rparr>)"
    if "wd_nodeId d = wd_nodeId (bs_data s ws)" "wd_subshellId d = wd_subshellId (bs_data s ws)"
      "wd_session d = wd_session (bs_data s ws)" for ws d
    unfolding input_wf_def using that
    by (intro conjI hold_wf_setData [OF h] quiet_log [OF quiet_setData l]) (simp_all add: sockIdent_def)
  show "input_wf (input_step e s)"
  proof (cases e)
    case (Attach ws)
    have "hold_wf {} {} (s\<lparr>is_attached := A\<rparr>)" for A
      by (rule hold_wf_frame [OF h]) (auto simp: sockIdent_def)
    moreover have "log_wf (s\<lparr>is_attached := A\<rparr>)" for A
      by (rule quiet_log [OF _ l]) (simp add: quiet_def sockIdent_def)
    ultimately show ?thesis using wf Attach by (simp add: attachSocket_def input_wf_def)
  next
    case (Frame ws payload fid)
    then show ?thesis using handle_wf [OF h] handle_log [OF l] by (simp add: input_wf_def)
  next
    case (Settle p ok)
    have "sess = wd_session (bs_data s ws)" if "jget (is_pending s) p = Some (FreshWrite ws sess i payload c)"
      for p ws sess i payload c using l jget_SomeD [OF that] unfolding log_wf_def by blast
    then show ?thesis using Settle settle_wf [OF h] settle_log [OF h l] by (simp add: input_wf_def)
  next
    case (NodeReady n)
    then show ?thesis using refire_wf [OF h] quiet_log [OF _ l] by (simp add: input_wf_def)
  next
    case (Close ws)
    let ?s = "s\<lparr>bs_data := (bs_data s)(ws := (bs_data s ws)\<lparr>wd_inputClosed := True\<rparr>)\<rparr>"
    have w: "input_wf ?s" by (rule data) simp_all
    then have "input_wf (dropInputHolds n sub sess ?s)" for n sub sess
      using drop_wf quiet_log [OF quiet_drop] by (simp add: input_wf_def)
    then show ?thesis using Close w by (simp add: cleanupInput_def Let_def)
  next
    case (Revoke ws)
    show ?thesis unfolding Revoke input_step.simps revokeAccess_def by (rule data) simp_all
  qed
qed

lemma input_init_wf: "input_wf (input_init d)"
proof -
  have "holdAt n sub sess [] = None" for n sub sess by (simp add: holdAt_def)
  then show ?thesis
    by (simp add: input_wf_def hold_wf_def maps_wf_def queues_wf_def pending_wf_def drains_wf_def
        drain_ok_def owned_wf_def log_wf_def input_init_def heldAt_def nested_ok_def windows_inv_def windowOf_def)
qed

lemma input_run_wf: "input_wf (input_run d es)"
  unfolding input_run_def by (rule input_machine.run_inv [OF input_init_wf])

end
