(* ===== verification/InputPath.thy ===== *)
theory InputPath
  imports InputHoldInv
begin

text \<open>
  What the terminal input path promises: exact and bounded accounting, no leaked charge, acks only
  for writes that landed, retries absorbed, held input delivered in order, dead sockets silent.
\<close>

section \<open>Usage as the tables show it\<close>

definition usageAt :: "'k \<Rightarrow> 'k utable \<Rightarrow> usage" where
  "usageAt k t = (case jget (ut_map t) k of None \<Rightarrow> no_usage | Some ob \<Rightarrow> ut_obj t ob)"

lemma usageAt_ledger: "ut_inv t L \<Longrightarrow> usageAt k t = ledgerUsage (keyLedger k L)"
  by (auto simp: usageAt_def ut_inv_filed(3) ut_inv_unfiled split: option.split)

lemma ut_inv_no_charges: "ut_inv t {#} \<Longrightarrow> ut_map t = []"
proof (rule ccontr)
  assume inv: "ut_inv t {#}" and "ut_map t \<noteq> []"
  then obtain k ob m where m: "ut_map t = (k, ob) # m" by (metis neq_Nil_conv surj_pair)
  then have "jget (ut_map t) k = Some ob" by simp
  from ut_inv_filed(2) [OF inv this] show False by (simp add: keyLedger_def)
qed

text \<open>
  C1: Whatever frames, settlements, reconnects, closes and revocations arrive in whatever order, the
  counters are exact and bounded: the process-wide, per-node and per-socket usage each equal what the
  outstanding charges add up to, and none exceeds its limit.
\<close>

theorem input_accounting_exact:
  "let s = input_run d es in
     bs_total s = chargedUsage s (\<lambda>_. True) \<and>
     usageAt n (bs_nodes s) = chargedUsage s (\<lambda>ch. ch_node ch = n) \<and>
     usageAt w (bs_sockets s) = chargedUsage s (\<lambda>ch. ch_sock ch = w) \<and>
     within_limits (bs_total s) INPUT_GLOBAL_MAX_FRAMES INPUT_GLOBAL_MAX_BYTES \<and>
     within_limits (usageAt n (bs_nodes s)) INPUT_NODE_MAX_FRAMES INPUT_NODE_MAX_BYTES \<and>
     within_limits (usageAt w (bs_sockets s)) INPUT_SOCKET_MAX_FRAMES INPUT_SOCKET_MAX_BYTES"
proof -
  let ?s = "input_run d es"
  have inv: "budget_tables ?s" "budget_limits ?s"
    using input_run_budget [of d es] by (simp_all add: budget_inv_def)
  have "usageAt n (bs_nodes ?s) = chargedUsage ?s (\<lambda>ch. ch_node ch = n)"
    "usageAt w (bs_sockets ?s) = chargedUsage ?s (\<lambda>ch. ch_sock ch = w)"
    using inv(1) usageAt_ledger ledger_key_usage unfolding budget_tables_def by metis+
  then show ?thesis using inv unfolding Let_def budget_tables_def budget_limits_def by simp
qed

text \<open>
  No charge leaks: once every promise has settled and no input is held, the budget is back to
  zero everywhere, with no table entry left behind.
\<close>

theorem input_charges_never_leak:
  assumes "is_pending (input_run d es) = []"
    and "\<forall>h. queueOf (input_run d es) h = []"
  shows "bs_total (input_run d es) = no_usage \<and>
         ut_map (bs_nodes (input_run d es)) = [] \<and> ut_map (bs_sockets (input_run d es)) = []"
proof -
  let ?s = "input_run d es"
  have "\<not> owned ?s c" for c using assms by (simp add: owned_def)
  then have live: "bs_live ?s = []"
    using hold_wfD(5) input_run_wf [of d es] by (fastforce simp: input_wf_def owned_wf_def)
  then have l: "sockLedger ?s = {#}" "nodeLedger ?s = {#}" by (simp_all add: sockLedger_def nodeLedger_def)
  have t: "budget_tables ?s" using input_run_budget [of d es] by (simp add: budget_inv_def)
  then have "ut_map (bs_nodes ?s) = []" "ut_map (bs_sockets ?s) = []"
    using ut_inv_no_charges l unfolding budget_tables_def by metis+
  moreover have "bs_total ?s = no_usage"
    using t live by (simp add: budget_tables_def chargedUsage_def no_usage_def)
  ultimately show ?thesis by simp
qed

definition demo_data :: "nat \<Rightarrow> ws_data" where
  "demo_data w = \<lparr>wd_nodeId = ''n1'', wd_subshellId = ''s1'', wd_session = [65], wd_canInput = True,
                  wd_accessRevoked = False, wd_inputClosed = False\<rparr>"

text \<open>One keystroke: written, resolved, its charge released by the last continuation.\<close>

definition demo_events :: "input_event list" where
  "demo_events = [Attach 0, Frame 0 [97] (Some 1), Settle 0 True, Settle 1 True]"

lemmas input_eval =
  input_run_def input_init_def demo_data_def demo_events_def handleInputFrame_def attachSocket_def
  takeInputBudget_def ut_fetch_def ut_set_def ut_add_def ut_release_def ut_empty_def chargeInput_def
  hasSharedCapacity_def input_limits add_usage_def sub_usage_def no_usage_def hasHeldInput_def holdAt_def
  inputWindowHas_def logResolved_def inputWindowAdd_def window_sizes newIdWindow_def iw_add_def iw_has_def
  addPending_def sendInput_def settle_def commitWrite_def sendAck_def releaseCharge_def Let_def jdel_def

theorem input_charges_never_leak_witness:
  "bs_total (input_run demo_data demo_events) = no_usage"
proof -
  have "is_pending (input_run demo_data demo_events) = []" "\<forall>h. queueOf (input_run demo_data demo_events) h = []"
    by (simp_all add: input_eval)
  from input_charges_never_leak [OF this] show ?thesis by simp
qed

text \<open>
  C19: An acknowledgement is never a lie: an id acked to a socket belongs to a write that resolved for
  that socket's subshell and session.  Resolutions are logged where a promise settles, whatever the code then
  does with it, and rejections are not.
\<close>

theorem ack_means_written:
  assumes "(ws, i) \<in> set (is_acks (input_run d es))"
  shows "(wd_subshellId (bs_data (input_run d es) ws), wd_session (bs_data (input_run d es) ws), i)
           \<in> set (is_landed (input_run d es))"
  using assms input_run_wf [of d es] unfolding input_wf_def log_wf_def by blast

theorem ack_means_written_witness:
  "(''s1'', [65], 1) \<in> set (is_landed (input_run demo_data demo_events))"
proof -
  have "(0, 1) \<in> set (is_acks (input_run demo_data demo_events))" by (simp add: input_eval)
  from ack_means_written [OF this] show ?thesis by (simp add: input_eval)
qed

text \<open>
  A retry of a landed write is absorbed, on whatever socket it arrives: once a first write has
  resolved, the same id from any living socket of the same subshell and session is acknowledged
  again and nothing is written, queued or charged.
\<close>

theorem retry_of_landed_write_absorbed:
  assumes "jget (is_pending (input_run d es)) p = Some (FreshWrite ws sess i payload c)"
    and "s = input_run d (es @ [Settle p True])"
    and "wd_subshellId (bs_data s ws') = wd_subshellId (bs_data s ws)" "wd_session (bs_data s ws') = sess"
    and "inputLive ws' payload' s"
  shows "is_writes (input_step (Frame ws' payload' (Some i)) s) = is_writes s \<and>
         is_acks (input_step (Frame ws' payload' (Some i)) s) = is_acks s @ [(ws', i)] \<and>
         is_pending (input_step (Frame ws' payload' (Some i)) s) = is_pending s \<and>
         bs_live (input_step (Frame ws' payload' (Some i)) s) = bs_live s"
proof -
  let ?r = "input_run d es"
  have s: "s = settle p True ?r" using assms(2) by (simp add: input_run_def)
  have data: "bs_data s = bs_data ?r"
    and win: "is_windows s = inputWindowAdd (wd_subshellId (bs_data ?r ws)) sess i (is_windows ?r)"
    unfolding s using assms(1) by (simp_all add: settle_def addPending_def commitWrite_def sendAck_def Let_def)
  have inv: "windows_inv (is_windows ?r)"
    using input_run_wf [of d es] by (simp add: input_wf_def log_wf_def)
  have sub: "wd_subshellId (bs_data s ws') = wd_subshellId (bs_data ?r ws)" using assms(3) data by simp
  have "fst (inputWindowHas (wd_subshellId (bs_data s ws')) (wd_session (bs_data s ws')) i (is_windows s))"
    unfolding sub assms(4) win by (rule commit_recognised [OF inv])
  then obtain wins where "inputWindowHas (wd_subshellId (bs_data s ws')) (wd_session (bs_data s ws')) i (is_windows s) = (True, wins)"
    by (metis prod.collapse)
  then show ?thesis using assms(5) by (simp add: handleInputFrame_def Let_def sendAck_def)
qed

theorem retry_of_landed_write_absorbed_witness:
  "is_writes (input_run demo_data [Attach 0, Attach 1, Frame 0 [97] (Some 1), Settle 0 True, Frame 1 [97] (Some 1)]) =
   is_writes (input_run demo_data [Attach 0, Attach 1, Frame 0 [97] (Some 1), Settle 0 True])"
proof -
  let ?es = "[Attach 0, Attach 1, Frame 0 [97] (Some 1)]"
  let ?s = "input_run demo_data (?es @ [Settle 0 True])"
  have "jget (is_pending (input_run demo_data ?es)) 0 = Some (FreshWrite 0 [65] 1 [97] 0)"
    "wd_subshellId (bs_data ?s 1) = wd_subshellId (bs_data ?s 0)" "wd_session (bs_data ?s 1) = [65]"
    "inputLive 1 [97] ?s"
    by (simp_all add: input_eval)
  from retry_of_landed_write_absorbed [OF this(1) refl this(2-4)] show ?thesis
    by (simp add: input_run_def)
qed

section \<open>What one drain does\<close>

abbreviation deadEntry :: "input_state \<Rightarrow> nat \<Rightarrow> bool" where
  "deadEntry s e \<equiv> wd_accessRevoked (bs_data s (he_sock (is_entry s e))) \<or>
                   wd_inputClosed (bs_data s (he_sock (is_entry s e)))"

definition entryWrite :: "input_state \<Rightarrow> jstring \<Rightarrow> nat \<Rightarrow> pane_write" where
  "entryWrite s sess e =
     \<lparr>pw_sock = he_sock (is_entry s e), pw_sub = wd_subshellId (bs_data s (he_sock (is_entry s e))),
      pw_sess = sess, pw_id = Some (he_id (is_entry s e)), pw_payload = he_payload (is_entry s e)\<rparr>"

lemma drainLoop_frame [simp]:
  "bs_data (drainLoop h sess q s) = bs_data s" "is_holds (drainLoop h sess q s) = is_holds s"
  "is_acks (drainLoop h sess q s) = is_acks s" "is_landed (drainLoop h sess q s) = is_landed s"
  "is_attached (drainLoop h sess q s) = is_attached s" "is_windows (drainLoop h sess q s) = is_windows s"
  "he_sock (is_entry (drainLoop h sess q s) e) = he_sock (is_entry s e)"
  "he_id (is_entry (drainLoop h sess q s) e) = he_id (is_entry s e)"
  "he_payload (is_entry (drainLoop h sess q s) e) = he_payload (is_entry s e)"
  by (induction h sess q s rule: drainLoop.induct)
    (simp_all add: Let_def setDraining_def setQueue_def sendInput_def addPending_def setInFlight_def)


lemma drainLoop_effect:
  assumes "queueOf s h = q"
  shows "queueOf (drainLoop h sess q s) h = dropWhile (deadEntry s) q"
    and "is_writes (drainLoop h sess q s) =
           is_writes s @ (case dropWhile (deadEntry s) q of [] \<Rightarrow> [] | e # _ \<Rightarrow> [entryWrite s sess e])"
proof -
  have "queueOf (drainLoop h sess q s) h = dropWhile (deadEntry s) q \<and>
     is_writes (drainLoop h sess q s) =
       is_writes s @ (case dropWhile (deadEntry s) q of [] \<Rightarrow> [] | e # _ \<Rightarrow> [entryWrite s sess e])"
    using assms
  proof (induction h sess q s rule: drainLoop.induct)
    case (2 h sess e q s)
    let ?r = "setQueue h q (releaseCharge (he_charge (is_entry s e)) s)"
    show ?case
    proof (cases "deadEntry s e")
      case True
      have same: "deadEntry ?r = deadEntry s" "entryWrite ?r = entryWrite s"
        by (simp_all add: fun_eq_iff entryWrite_def)
      have "is_writes ?r = is_writes s" by (simp add: setQueue_def)
      then show ?thesis using 2(1) [OF refl refl True] True unfolding same by (simp add: Let_def)
    next
      case False
      then show ?thesis using 2(2) by (simp add: Let_def sendInput_def entryWrite_def setInFlight_def addPending_def)
    qed
  qed (simp add: setDraining_def)
  then show "queueOf (drainLoop h sess q s) h = dropWhile (deadEntry s) q"
    "is_writes (drainLoop h sess q s) =
       is_writes s @ (case dropWhile (deadEntry s) q of [] \<Rightarrow> [] | e # _ \<Rightarrow> [entryWrite s sess e])" by auto
qed

lemma drain_frame [simp]:
  "bs_data (drain h sess s) = bs_data s" "is_acks (drain h sess s) = is_acks s"
  "is_landed (drain h sess s) = is_landed s" "is_holds (drain h sess s) = is_holds s"
  "is_attached (drain h sess s) = is_attached s" "is_windows (drain h sess s) = is_windows s"
  "he_sock (is_entry (drain h sess s) e) = he_sock (is_entry s e)"
  "he_id (is_entry (drain h sess s) e) = he_id (is_entry s e)"
  "he_payload (is_entry (drain h sess s) e) = he_payload (is_entry s e)"
  by (simp_all add: drain_def) (simp_all add: setDraining_def)


lemma drain_effect:
  "(queueOf (drain h sess s) h = queueOf s h \<and> is_writes (drain h sess s) = is_writes s) \<or>
   (queueOf (drain h sess s) h = dropWhile (deadEntry s) (queueOf s h) \<and>
    is_writes (drain h sess s) = is_writes s @
      (case dropWhile (deadEntry s) (queueOf s h) of [] \<Rightarrow> [] | e # _ \<Rightarrow> [entryWrite s sess e]))"
proof -
  let ?t = "setDraining h True s"
  have eq: "is_writes ?t = is_writes s" "deadEntry ?t = deadEntry s" "entryWrite ?t = entryWrite s"
    by (simp_all add: fun_eq_iff entryWrite_def setDraining_def)
  note eff = drainLoop_effect [of ?t h "queueOf s h" sess, unfolded eq, OF setDraining_proj(9)]
  show ?thesis
    by (cases "sh_draining (is_hold s h)") (simp_all only: drain_def eff if_True if_False simp_thms)
qed


section \<open>Order\<close>

lemma take_charged_data:
  "takeInputBudget None ws payload s = (Some c, s') \<Longrightarrow> bs_data s' = bs_data s"
  by (cases rule: take_shape) (auto simp: chargeInput_def closeForInputLimit_def)

lemma pushEntry_proj:
  "queueOf (pushEntry h i payload ws c s) h = queueOf s h @ [is_nextEntry s]"
  "is_writes (pushEntry h i payload ws c s) = is_writes s" "bs_data (pushEntry h i payload ws c s) = bs_data s"
  "is_holds (pushEntry h i payload ws c s) = is_holds s"
  "e \<noteq> is_nextEntry s \<Longrightarrow> is_entry (pushEntry h i payload ws c s) e = is_entry s e"
  "he_id (is_entry (pushEntry h i payload ws c s) (is_nextEntry s)) = i"
  "he_sock (is_entry (pushEntry h i payload ws c s) (is_nextEntry s)) = ws"
  "he_payload (is_entry (pushEntry h i payload ws c s) (is_nextEntry s)) = payload"
  by (simp_all add: pushEntry_def setQueue_def Let_def)

text \<open>What joining a hold with living entries does.\<close>

lemma joins_behind:
  fixes i :: nat and payload :: jstring
  assumes wf: "hold_wf {} Y s" and at: "holdAt n sub sess (is_holds s) = Some h"
    and e0: "e0 \<in> set (queueOf s h)" "\<not> deadEntry s e0"
    and live: "\<not> wd_accessRevoked (bs_data s ws)" "\<not> wd_inputClosed (bs_data s ws)"
  defines "s' \<equiv> holdFailedInput n sub sess i payload ws s"
  shows "(is_writes s' = is_writes s \<or>
          is_writes s' = is_writes s @ [entryWrite s sess (hd (dropWhile (deadEntry s) (queueOf s h)))]) \<and>
         (holdAt n sub sess (is_holds s') = None \<or>
          (\<exists>u v w. queueOf s h = u @ v \<and> (\<forall>e \<in> set u. deadEntry s e) \<and> queueOf s' h = v @ w \<and>
             (w = [] \<or> (\<exists>e. w = [e] \<and> he_id (is_entry s' e) = i \<and> he_sock (is_entry s' e) = ws \<and>
                             he_payload (is_entry s' e) = payload))))"
proof -
  let ?q = "queueOf s h"
  have g: "getHold n sub sess s = (h, s)" using at by (simp add: getHold_def)
  have dw: "dropWhile (deadEntry s) ?q \<noteq> []" using e0 by (auto simp: dropWhile_eq_Nil_conv)
  define u v where "u = takeWhile (deadEntry s) ?q" and "v = dropWhile (deadEntry s) ?q"
  have uv: "?q = u @ v" "\<forall>x \<in> set u. deadEntry s x" "dropWhile (deadEntry s) ?q = v"
    unfolding u_def v_def using set_takeWhileD [of _ "deadEntry s" ?q]
    by (simp_all only: takeWhile_dropWhile_id) blast
  show ?thesis
  proof (cases "\<exists>e \<in> set ?q. he_id (is_entry s e) = i")
    case True
    have s': "s' = drain h sess s" using True live by (simp add: s'_def holdFailedInput_def g)
    have "is_writes s' = is_writes s \<or> is_writes s' = is_writes s @ [entryWrite s sess (hd v)]"
    proof -
      obtain x r where "v = x # r" using dw uv(3) by (cases v) auto
      then show ?thesis
        using drain_effect [of h sess s] unfolding s' uv(3) by (metis list.case(2) list.sel(1))
    qed
    moreover have "(queueOf s' h = u @ v) \<or> queueOf s' h = v"
      using drain_effect [of h sess s] uv(1) unfolding s' uv(3) by metis
    then have "\<exists>u v. ?q = u @ v \<and> (\<forall>e \<in> set u. deadEntry s e) \<and> queueOf s' h = v @ []"
    proof
      assume "queueOf s' h = u @ v"
      then have "?q = [] @ (u @ v) \<and> (\<forall>e \<in> set ([] :: nat list). deadEntry s e) \<and> queueOf s' h = (u @ v) @ []"
        using uv(1) by simp
      then show ?thesis by blast
    next
      assume "queueOf s' h = v"
      then have "?q = u @ v \<and> (\<forall>e \<in> set u. deadEntry s e) \<and> queueOf s' h = v @ []" using uv by simp
      then show ?thesis by blast
    qed
    ultimately show ?thesis unfolding uv(3) by blast
  next
    case False
    obtain res s2 where t: "takeInputBudget None ws payload s = (res, s2)" by fastforce
    note fr = take_None_frame [OF t]
    show ?thesis
    proof (cases res)
      case None
      have s': "s' = dropInputHolds n sub sess s2" using False None live by (simp add: s'_def holdFailedInput_def g t)
      have h2: "holdAt n sub sess (is_holds s2) = Some h" using at fr(5) by simp
      have "is_writes (releaseIdle q r) = is_writes r" for q r
        by (induction q r rule: releaseIdle.induct) simp_all
      then have "is_writes s' = is_writes s" "holdAt n sub sess (is_holds s') = None"
        using h2 fr by (simp_all add: s' dropInputHolds_def Let_def setQueue_def holdAt_del)
      then show ?thesis by blast
    next
      case (Some c)
      let ?p = "pushEntry h i payload ws c s2"
      have s': "s' = drain h sess ?p" using False Some live by (simp add: s'_def holdFailedInput_def g t)
      have data: "bs_data s2 = bs_data s" using t Some take_charged_data by blast
      note pp = pushEntry_proj [where h = h and i = i and payload = payload and ws = ws and c = c and s = s2]
      let ?e = "is_nextEntry s"
      have old: "e < ?e" if "e \<in> set ?q" for e using queue_held(1) [OF wf that] .
      have same: "deadEntry ?p e = deadEntry s e" "entryWrite ?p sess e = entryWrite s sess e" if "e \<in> set ?q" for e
        using old [OF that] pp(3,5) fr data by (simp_all add: entryWrite_def)
      have q: "queueOf ?p h = ?q @ [?e]" using pp(1) fr by simp
      have "dropWhile (deadEntry ?p) (?q @ [?e]) = dropWhile (deadEntry ?p) ?q @ [?e]"
        using e0 same(1) by (intro dropWhile_append1) auto
      also have "dropWhile (deadEntry ?p) ?q = v"
        unfolding uv(3) [symmetric] by (rule dropWhile_cong) (use same(1) in auto)
      finally have D: "dropWhile (deadEntry ?p) (queueOf ?p h) = v @ [?e]" unfolding q .
      have hv: "v \<noteq> []" "hd v \<in> set ?q" using dw uv by (cases v, auto)+
      have w: "is_writes ?p = is_writes s" using pp(2) fr by simp
      have new: "he_id (is_entry s' ?e) = i" "he_sock (is_entry s' ?e) = ws" "he_payload (is_entry s' ?e) = payload"
        using pp(6-8) fr unfolding s' by simp_all
      have "is_writes s' = is_writes s \<or> is_writes s' = is_writes s @ [entryWrite s sess (hd v)]"
        using drain_effect [of h sess ?p] hv same(2) [OF hv(2)] unfolding s' D w by (cases v) auto
      moreover have "queueOf s' h = (u @ v) @ [?e] \<or> queueOf s' h = v @ [?e]"
        using drain_effect [of h sess ?p] unfolding s' D unfolding q uv(1) by blast
      then have "\<exists>u v. ?q = u @ v \<and> (\<forall>e \<in> set u. deadEntry s e) \<and> queueOf s' h = v @ [?e]"
      proof
        assume "queueOf s' h = (u @ v) @ [?e]"
        then have "?q = [] @ (u @ v) \<and> (\<forall>e \<in> set ([] :: nat list). deadEntry s e) \<and> queueOf s' h = (u @ v) @ [?e]"
          using uv(1) by simp
        then show ?thesis by blast
      next
        assume "queueOf s' h = v @ [?e]"
        then show ?thesis using uv by blast
      qed
      ultimately show ?thesis using new unfolding uv(3) by blast
    qed
  qed
qed

text \<open>
  C2: Held input is not overtaken by input with an id: while a session holds an input of a living socket, a
  newer frame of the session that carries an id is not written when it arrives (a frame without an id is not
  held: it is dispatched past the held ones).  The only write the arrival may cause is that of the
  first living held entry; the held order is kept, and the new frame goes to its end (or the whole
  hold is dropped because the budget is exhausted).
\<close>

theorem held_input_not_overtaken:
  assumes "s = input_run d es" and "inputLive ws payload s"
    and "sockIdent s ws = (n, sub, sess)"
    and "\<not> fst (inputWindowHas sub sess i (is_windows s))"
    and "holdAt n sub sess (is_holds s) = Some h"
    and "e0 \<in> set (queueOf s h)" "\<not> deadEntry s e0"
    and "s' = input_step (Frame ws payload (Some i)) s"
  shows "(is_writes s' = is_writes s \<or>
          is_writes s' = is_writes s @ [entryWrite s sess (hd (dropWhile (deadEntry s) (queueOf s h)))]) \<and>
         (holdAt n sub sess (is_holds s') = None \<or>
          (\<exists>u v w. queueOf s h = u @ v \<and> (\<forall>e \<in> set u. deadEntry s e) \<and> queueOf s' h = v @ w \<and>
             (w = [] \<or> (\<exists>e. w = [e] \<and> he_id (is_entry s' e) = i \<and> he_sock (is_entry s' e) = ws \<and>
                             he_payload (is_entry s' e) = payload))))"
proof -
  have id: "wd_nodeId (bs_data s ws) = n" "wd_subshellId (bs_data s ws) = sub" "wd_session (bs_data s ws) = sess"
    using assms(3) by (simp_all add: sockIdent_def)
  have wf: "hold_wf {} {} s" using input_run_wf [of d es] assms(1) by (simp add: input_wf_def)
  obtain wins where h: "inputWindowHas sub sess i (is_windows s) = (False, wins)"
    using assms(4) by (metis prod.collapse)
  let ?s = "s\<lparr>is_windows := wins\<rparr>"
  have "hasHeldInput n sub sess ?s" using assms(5,6) by (auto simp: hasHeldInput_def)
  then have s': "s' = holdFailedInput n sub sess i payload ws ?s"
    using assms(2,8) by (simp add: handleInputFrame_def id h Let_def)
  have eq: "deadEntry ?s = deadEntry s" "entryWrite ?s = entryWrite s"
    by (simp_all add: fun_eq_iff entryWrite_def)
  have "\<not> wd_accessRevoked (bs_data ?s ws)" "\<not> wd_inputClosed (bs_data ?s ws)" using assms(2) by simp_all
  from joins_behind [OF hold_wf_windows [OF wf], of n sub sess wins h e0 ws, unfolded eq] this assms(5-7)
  show ?thesis unfolding s' by simp
qed

lemmas hold_eval =
  input_eval holdFailedInput_def getHold_def putHold_def pushEntry_def setQueue_def drain_def
  setDraining_def setInFlight_def LOCAL_NODE_ID_def sockIdent_def

text \<open>A first write that failed is held and re-fired at once; the node has not answered yet.\<close>

definition demo_held :: "input_event list" where
  "demo_held = [Attach 0, Frame 0 [97] (Some 1), Settle 0 False]"

lemma demo_held_state:
  "holdAt ''n1'' ''s1'' [65] (is_holds (input_run demo_data demo_held)) = Some 0"
  "queueOf (input_run demo_data demo_held) 0 = [0]"
  "\<not> deadEntry (input_run demo_data demo_held) 0"
  "inputLive 0 [98] (input_run demo_data demo_held)"
  "sockIdent (input_run demo_data demo_held) 0 = (''n1'', ''s1'', [65])"
  "\<not> fst (inputWindowHas ''s1'' [65] 2 (is_windows (input_run demo_data demo_held)))"
  "jget (is_pending (input_run demo_data demo_held)) 1 = Some (DrainWrite 0 0 [65])"
  by (simp_all add: hold_eval demo_held_def)

theorem held_input_not_overtaken_witness:
  "let s = input_run demo_data demo_held; s' = input_step (Frame 0 [98] (Some 2)) s in
     is_writes s' = is_writes s \<or> is_writes s' = is_writes s @ [entryWrite s [65] (hd (dropWhile (deadEntry s) (queueOf s 0)))]"
  unfolding Let_def
  by (rule held_input_not_overtaken [OF refl demo_held_state(4,5,6,1) _ demo_held_state(3) refl, THEN conjunct1])
    (simp add: demo_held_state(2))

section \<open>Delivery\<close>









section \<open>Dead sockets\<close>

abbreviation revokedSock :: "input_state \<Rightarrow> nat \<Rightarrow> bool" where
  "revokedSock s ws \<equiv> wd_accessRevoked (bs_data s ws)"

abbreviation deadSock :: "input_state \<Rightarrow> nat \<Rightarrow> bool" where
  "deadSock s ws \<equiv> revokedSock s ws \<or> wd_inputClosed (bs_data s ws)"

definition writesOf :: "nat \<Rightarrow> input_state \<Rightarrow> pane_write list" where
  "writesOf ws s = filter (\<lambda>w. pw_sock w = ws) (is_writes s)"

definition acksOf :: "nat \<Rightarrow> input_state \<Rightarrow> (nat \<times> nat) list" where
  "acksOf ws s = filter (\<lambda>a. fst a = ws) (is_acks s)"

text \<open>A step that lets a dead socket stay dead and quiet.\<close>

definition mutes :: "nat \<Rightarrow> input_state \<Rightarrow> input_state \<Rightarrow> bool" where
  "mutes ws s s' \<longleftrightarrow>
     (deadSock s ws \<longrightarrow> deadSock s' ws \<and> writesOf ws s' = writesOf ws s) \<and>
     (revokedSock s ws \<longrightarrow> revokedSock s' ws \<and> acksOf ws s' = acksOf ws s)"

lemma mutes_refl [simp]: "mutes ws s s"
  by (simp add: mutes_def)

lemma mutes_trans [trans]: "mutes ws s t \<Longrightarrow> mutes ws t u \<Longrightarrow> mutes ws s u"
  by (auto simp: mutes_def)

lemma mutes_same:
  assumes "is_writes s' = is_writes s" "is_acks s' = is_acks s"
    "\<And>w. wd_accessRevoked (bs_data s w) \<Longrightarrow> wd_accessRevoked (bs_data s' w)"
    "\<And>w. wd_inputClosed (bs_data s w) \<Longrightarrow> wd_inputClosed (bs_data s' w)"
  shows "mutes ws s s'"
  using assms by (auto simp: mutes_def writesOf_def acksOf_def)

lemma mutes_small [simp]:
  "mutes ws s (releaseCharge c s)" "mutes ws s (setQueue h q s)" "mutes ws s (setDraining h b s)"
  "mutes ws s (setInFlight e b s)" "mutes ws s (addPending w s)" "mutes ws s (s\<lparr>is_holds := m\<rparr>)"
  "mutes ws s (pushEntry h j payload w' c s)" "mutes ws s (closeForInputLimit w' code s)"
  "mutes ws s (snd (chargeInput w' so n no bts s))" "mutes ws s (s\<lparr>is_pending := pe\<rparr>)"
  "mutes ws s (s\<lparr>is_windows := wins\<rparr>)" "mutes ws s (s\<lparr>bs_sockets := x1, bs_nodes := x2\<rparr>)"
  "mutes ws s (s\<lparr>is_attached := A\<rparr>)" "mutes ws s (attachSocket w' s)" "mutes ws s (revokeAccess w' s)"
  by (rule mutes_same; auto simp: setQueue_def setDraining_def setInFlight_def addPending_def pushEntry_def
      closeForInputLimit_def chargeInput_def Let_def attachSocket_def revokeAccess_def)+

lemma mutes_send: "\<not> deadSock s w' \<Longrightarrow> mutes ws s (sendInput w' sess i payload s)"
  by (auto simp: mutes_def sendInput_def writesOf_def acksOf_def)

lemma mutes_ack: "mutes ws s (sendAck w' i s)"
  by (auto simp: mutes_def sendAck_def writesOf_def acksOf_def)

lemma mutes_commit: "mutes ws s (commitWrite w' sess i s)"
proof -
  have "mutes ws s (s\<lparr>is_windows := x\<rparr>)" for x by (rule mutes_same) simp_all
  then show ?thesis unfolding commitWrite_def Let_def by (rule mutes_trans [OF _ mutes_ack])
qed

lemma mutes_drainLoop: "mutes ws s (drainLoop h sess q s)"
proof (induction h sess q s rule: drainLoop.induct)
  case (2 h sess e q s)
  let ?r = "setQueue h q (releaseCharge (he_charge (is_entry s e)) s)"
  show ?case
  proof (cases "deadEntry s e")
    case True
    have "mutes ws s ?r" by (rule mutes_trans [OF mutes_small(1,2)])
    from mutes_trans [OF this 2 [OF refl refl True]] True show ?thesis by (simp add: Let_def)
  next
    case False
    let ?en = "is_entry s e"
    have "mutes ws s (sendInput (he_sock ?en) sess (Some (he_id ?en)) (he_payload ?en) (setInFlight e True s))"
      by (rule mutes_trans [OF mutes_small(4) mutes_send]) (use False in simp)
    from mutes_trans [OF this mutes_small(5)] False show ?thesis by (simp add: Let_def)
  qed
qed simp

lemma mutes_drain: "mutes ws s (drain h sess s)"
  using mutes_trans [OF mutes_small(3) mutes_drainLoop] by (simp add: drain_def)

lemma mutes_drop: "mutes ws s (dropInputHolds n sub sess s)"
proof -
  have "mutes ws s (releaseIdle q s)" for q s
    by (induction q s rule: releaseIdle.induct) (auto intro: mutes_trans mutes_small)
  then show ?thesis
    unfolding dropInputHolds_def Let_def
    by (auto split: option.split intro!: mutes_trans [OF mutes_trans [OF _ mutes_small(2)] mutes_small(6)])
qed

lemma mutes_reclaim: "mutes ws s (snd (reclaimOneHeldInput s))"
proof (cases s rule: reclaim_cases)
  case (some n sub sess h e)
  have "mutes ws s (releaseCharge (he_charge (is_entry s e)) (setQueue h (remove1 e (queueOf s h)) s))" (is "mutes ws s ?s")
    by (rule mutes_trans [OF mutes_small(2,1)])
  moreover have "mutes ws s (?s\<lparr>is_holds := delHold n sub sess (is_holds ?s)\<rparr>)"
    by (rule mutes_trans [OF calculation mutes_small(6)])
  ultimately show ?thesis
    unfolding some(5) Let_def snd_conv by (cases "queueOf ?s h = []") (simp_all only: if_True if_False simp_thms)
qed simp

lemma mutes_take:
  assumes "takeInputBudget r w' payload s = (res, s')" "\<And>f t. r = Some f \<Longrightarrow> mutes ws t (snd (f t))"
  shows "mutes ws s s'"
proof -
  have w: "mutes ws s t"
    if "t = s\<lparr>bs_sockets := so, bs_nodes := no\<rparr> \<or> (\<exists>f. r = Some f \<and> t = snd (f (s\<lparr>bs_sockets := so, bs_nodes := no\<rparr>)))"
    for t so no using that mutes_small(12) mutes_trans [OF mutes_small(12) assms(2)] by blast
  from assms(1) show ?thesis
    by (cases rule: take_shape) (use w in \<open>auto intro: mutes_trans [OF w mutes_small(8)] mutes_trans [OF w mutes_small(9)]\<close>)
qed

lemma mutes_holdFailed: "mutes ws s (holdFailedInput n sub sess i payload w' s)"
proof (cases "wd_accessRevoked (bs_data s w') \<or> wd_inputClosed (bs_data s w')")
  case False
  obtain h s1 where g: "getHold n sub sess s = (h, s1)" by fastforce
  obtain res s2 where t: "takeInputBudget None w' payload s1 = (res, s2)" by fastforce
  have q1: "mutes ws s s1" by (rule mutes_same) (simp_all add: getHold_frame [OF g])
  have q2: "mutes ws s s2" by (rule mutes_trans [OF q1 mutes_take [OF t]]) simp
  show ?thesis using False
    by (auto simp: holdFailedInput_def g t mutes_trans [OF q1 mutes_drain] mutes_trans [OF q2 mutes_drop]
        split: option.split intro: mutes_trans [OF mutes_trans [OF q2 mutes_small(7)] mutes_drain])
qed (simp add: holdFailedInput_def)

lemma take_data_live:
  assumes "takeInputBudget (Some reclaimOneHeldInput) w' payload s = (Some c, s2)"
  shows "bs_data s2 = bs_data s"
proof -
  have "bs_data (snd (reclaimOneHeldInput t)) = bs_data t" for t
    by (cases t rule: reclaim_cases) (simp_all add: Let_def)
  with assms show ?thesis by (cases rule: take_shape) (auto simp: chargeInput_def)
qed

lemma mutes_handle: "mutes ws s (handleInputFrame w' payload fid s)"
proof (cases rule: handle_cases [where ws = w' and payload = payload and s = s and fid = fid])
  case (known i wins)
  show ?thesis unfolding known(4) by (rule mutes_trans [OF mutes_small(11) mutes_ack])
next
  case (joins i wins)
  show ?thesis unfolding joins(5) by (rule mutes_trans [OF mutes_small(11) mutes_holdFailed])
next
  case (takes wins r s2)
  have m: "mutes ws s s2"
    by (rule mutes_trans [OF mutes_small(11) mutes_take [OF takes(4)]]) (use mutes_reclaim in auto)
  show ?thesis
  proof (cases r)
    case (Some c)
    have "\<not> deadSock s2 w'" using takes(1) take_data_live takes(4) Some by fastforce
    from mutes_trans [OF mutes_trans [OF m mutes_send [OF this]] mutes_small(5)] show ?thesis
      unfolding takes(5) Some option.case .
  qed (use m takes(5) in simp)
qed simp

lemma mutes_settle: "mutes ws s (settle p ok s)"
proof (cases "jget (is_pending s) p")
  case (Some w)
  let ?s = "(logResolved w ok s)\<lparr>is_pending := jdel p (is_pending s)\<rparr>"
  have m: "mutes ws s ?s" by (rule mutes_same) simp_all
  have "mutes ws ?s (continueWrite w ok ?s)"
  proof (cases w)
    case (FreshWrite w' sess i payload c)
    then show ?thesis
      by (auto simp: Let_def intro: mutes_trans [OF mutes_commit mutes_small(5)] mutes_trans [OF mutes_small(1,5)]
          mutes_trans [OF mutes_trans [OF mutes_small(1) mutes_holdFailed] mutes_small(5)])
  next
    case (DrainWrite h e sess)
    have "mutes ws ?s (drainResolved h e sess ?s)"
      unfolding drainResolved_def Let_def
      by (rule mutes_trans [OF mutes_trans [OF mutes_trans [OF mutes_trans [OF mutes_small(4,1)] mutes_small(2)] mutes_commit] mutes_drainLoop])
    moreover have "mutes ws ?s (setDraining h False (setInFlight e False u))" if "mutes ws ?s u" for u
      by (rule mutes_trans [OF mutes_trans [OF that mutes_small(4)] mutes_small(3)])
    then have "mutes ws ?s (drainRejected h e ?s)" by (auto simp: drainRejected_def Let_def)
    ultimately show ?thesis using DrainWrite by (cases ok) simp_all
  qed simp_all
  from mutes_trans [OF m this] show ?thesis by (simp add: settle_def Some)
qed (simp add: settle_def)

lemma mutes_step: "mutes ws s (input_step e s)"
proof (cases e)
  case (NodeReady n)
  have "mutes ws t (fold (\<lambda>((_ :: string, _ :: string, sess), h) s. if sh_queue (is_hold s h) \<noteq> [] then drain h sess s else s) xs t)"
    for xs t
  proof (induction xs arbitrary: t)
    case (Cons x xs)
    obtain k1 k2 sess h where x: "x = ((k1, k2, sess), h)" by (metis surj_pair)
    show ?case using mutes_trans [OF mutes_drain Cons.IH] Cons.IH by (simp add: x)
  qed simp
  then show ?thesis by (simp add: NodeReady refireInputHoldsForNode_def)
next
  case (Close w')
  let ?s = "s\<lparr>bs_data := (bs_data s)(w' := (bs_data s w')\<lparr>wd_inputClosed := True\<rparr>)\<rparr>"
  have "mutes ws s ?s" by (rule mutes_same) auto
  then show ?thesis using mutes_trans [OF _ mutes_drop] by (auto simp: Close cleanupInput_def Let_def)
qed (simp_all add: mutes_handle mutes_settle)

text \<open>
  A closed or revoked socket can no longer type: whatever happens afterwards (held input re-fired,
  late settlements, further frames), nothing of it is written to the pane again, and a revoked one
  gets no further acknowledgement either.
\<close>

theorem dead_socket_is_silent:
  "(deadSock s ws \<longrightarrow> writesOf ws (fold input_step es s) = writesOf ws s) \<and>
   (revokedSock s ws \<longrightarrow> acksOf ws (fold input_step es s) = acksOf ws s)"
proof -
  have "mutes ws s (fold input_step es s)"
    by (induction es arbitrary: s) (auto intro: mutes_trans mutes_step)
  then show ?thesis by (simp add: mutes_def)
qed

theorem dead_socket_is_silent_witness:
  "let s = input_step (Revoke 0) (input_run demo_data demo_held) in
     writesOf 0 (fold input_step [NodeReady ''n1'', Frame 0 [98] (Some 2), Settle 1 True] s) = writesOf 0 s"
proof -
  let ?s = "input_step (Revoke 0) (input_run demo_data demo_held)"
  have "deadSock ?s 0" by (simp add: revokeAccess_def)
  then show ?thesis
    unfolding Let_def by (rule dead_socket_is_silent [THEN conjunct1, THEN mp])
qed

end
