(* ===== verification/Text.thy ===== *)
theory Text
  imports Prelude
begin

text \<open>
  The text operations several components share: \<open>split\<close> and \<open>join\<close> on a separator, and numbers in
  a base up to ten as digit characters (\<open>toString(b)\<close>, \<open>Number(s)\<close>, \<open>parseInt(s, b)\<close> on digits).
\<close>

section \<open>Split and join\<close>

fun splitOn :: "'a \<Rightarrow> 'a list \<Rightarrow> 'a list list" where
  "splitOn c [] = [[]]"
| "splitOn c (x # xs) =
     (if x = c then [] # splitOn c xs
      else case splitOn c xs of [] \<Rightarrow> [[x]] | w # ws \<Rightarrow> (x # w) # ws)"

fun joinWith :: "'a \<Rightarrow> 'a list list \<Rightarrow> 'a list" where
  "joinWith c [] = []"
| "joinWith c [w] = w"
| "joinWith c (w # v # ws) = w @ c # joinWith c (v # ws)"

lemma splitOn_not_Nil [simp]: "splitOn c xs \<noteq> []"
  by (induction xs) (auto split: list.split)

lemma splitOn_no_sep: "w \<in> set (splitOn c xs) \<Longrightarrow> c \<notin> set w"
  by (induction xs arbitrary: w) (auto split: if_split_asm list.splits)

lemma splitOn_fresh: "c \<notin> set w \<Longrightarrow> splitOn c w = [w]"
  by (induction w) auto

lemma splitOn_append: "c \<notin> set w \<Longrightarrow> splitOn c (w @ c # xs) = w # splitOn c xs"
  by (induction w) auto

lemma splitOn_joinWith:
  assumes "ws \<noteq> []" "\<forall>w \<in> set ws. c \<notin> set w"
  shows "splitOn c (joinWith c ws) = ws"
  using assms
proof (induction c ws rule: joinWith.induct)
  case (2 c w)
  then show ?case by (simp add: splitOn_fresh)
next
  case (3 c w v ws)
  then show ?case by (simp add: splitOn_append)
qed simp

lemma joinWith_splitOn: "joinWith c (splitOn c xs) = xs"
proof (induction xs)
  case (Cons x xs)
  obtain w ws where s: "splitOn c xs = w # ws" by (cases "splitOn c xs") auto
  then show ?case using Cons by (cases ws) auto
qed simp

lemma set_joinWith: "set (joinWith c ws) \<subseteq> insert c (\<Union>(set ` set ws))"
  by (induction c ws rule: joinWith.induct) auto

lemma joinWith_append:
  "us \<noteq> [] \<Longrightarrow> vs \<noteq> [] \<Longrightarrow> joinWith c (us @ vs) = joinWith c us @ c # joinWith c vs"
proof (induction c us rule: joinWith.induct)
  case (2 c w)
  then show ?case by (cases vs) auto
qed auto

section \<open>Numbers as digits\<close>

definition digit_char :: "nat \<Rightarrow> char" where
  "digit_char d = char_of (48 + d)"

definition char_digit :: "char \<Rightarrow> nat" where
  "char_digit c = of_char c - 48"

definition is_digit :: "nat \<Rightarrow> char \<Rightarrow> bool" where
  "is_digit b c \<longleftrightarrow> 48 \<le> (of_char c :: nat) \<and> (of_char c :: nat) < 48 + b"

lemma char_digit_char: "d < 10 \<Longrightarrow> char_digit (digit_char d) = d"
  by (simp add: digit_char_def char_digit_def of_char_of)

lemma is_digit_char: "d < b \<Longrightarrow> b \<le> 10 \<Longrightarrow> is_digit b (digit_char d)"
  by (simp add: digit_char_def is_digit_def of_char_of)

lemma char_digit_less: "is_digit b c \<Longrightarrow> char_digit c < b"
  by (auto simp: is_digit_def char_digit_def)

text \<open>Least significant digit last, no leading zeros, \<open>0\<close> for zero.\<close>

fun to_digits :: "nat \<Rightarrow> nat \<Rightarrow> string" where
  "to_digits b n = (if b < 2 \<or> n < b then [digit_char n] else to_digits b (n div b) @ [digit_char (n mod b)])"

declare to_digits.simps [simp del]

definition of_digits :: "nat \<Rightarrow> string \<Rightarrow> nat" where
  "of_digits b s = foldl (\<lambda>a c. a * b + char_digit c) 0 s"

lemma of_digits_snoc: "of_digits b (s @ [c]) = of_digits b s * b + char_digit c"
  by (simp add: of_digits_def)

lemma of_digits_Nil [simp]: "of_digits b [] = 0"
  by (simp add: of_digits_def)

lemma of_to_digits: "2 \<le> b \<Longrightarrow> b \<le> 10 \<Longrightarrow> of_digits b (to_digits b n) = n"
proof (induction b n rule: to_digits.induct)
  case (1 b n)
  show ?case
  proof (cases "n < b")
    case True
    then show ?thesis using 1 by (simp add: to_digits.simps [of b n] of_digits_def char_digit_char)
  next
    case False
    have "n mod b < 10" using mod_less_divisor [of b n] 1 by linarith
    then show ?thesis using 1 False by (simp add: to_digits.simps [of b n] of_digits_snoc char_digit_char)
  qed
qed

lemma to_digits_digits: "2 \<le> b \<Longrightarrow> b \<le> 10 \<Longrightarrow> c \<in> set (to_digits b n) \<Longrightarrow> is_digit b c"
proof (induction b n rule: to_digits.induct)
  case (1 b n)
  then show ?case by (auto simp: to_digits.simps [of b n] is_digit_char split: if_split_asm)
qed

lemma to_digits_not_Nil [simp]: "to_digits b n \<noteq> []"
  by (simp add: to_digits.simps [of b n])

lemma length_to_digits: "2 \<le> b \<Longrightarrow> n < b ^ k \<Longrightarrow> 0 < k \<Longrightarrow> length (to_digits b n) \<le> k"
proof (induction k arbitrary: n)
  case (Suc k)
  show ?case
  proof (cases "n < b")
    case True
    then show ?thesis by (simp add: to_digits.simps [of b n])
  next
    case False
    then have "k \<noteq> 0" using Suc.prems by (cases k) auto
    moreover have "n div b < b ^ k" using Suc.prems by (simp add: less_mult_imp_div_less mult.commute)
    ultimately show ?thesis using Suc False by (simp add: to_digits.simps [of b n])
  qed
qed simp

lemma length_to_digits_conv: "2 \<le> b \<Longrightarrow> 0 < k \<Longrightarrow> length (to_digits b n) \<le> k \<longleftrightarrow> n < b ^ k"
proof (induction k arbitrary: n)
  case (Suc k)
  show ?case
  proof (cases "n < b")
    case True
    have "b ^ 1 \<le> b ^ Suc k" using Suc.prems by (intro power_increasing) auto
    then have "n < b ^ Suc k" using True by (simp only: power_one_right)
    then show ?thesis using True by (simp add: to_digits.simps [of b n] del: power_Suc)
  next
    case False
    have "length (to_digits b n) = Suc (length (to_digits b (n div b)))"
      using False Suc.prems by (simp add: to_digits.simps [of b n])
    moreover have "n < b ^ Suc k \<longleftrightarrow> n div b < b ^ k"
      using Suc.prems by (simp add: div_less_iff_less_mult mult.commute)
    moreover have "length (to_digits b (n div b)) \<noteq> 0" by simp
    moreover have "n div b \<noteq> 0" using False Suc.prems by (simp add: div_eq_0_iff)
    ultimately show ?thesis using Suc by (cases "k = 0") simp_all
  qed
qed simp

lemma to_digits_hd: "2 \<le> b \<Longrightarrow> b \<le> 10 \<Longrightarrow> 0 < n \<Longrightarrow> hd (to_digits b n) \<noteq> digit_char 0"
proof (induction b n rule: to_digits.induct)
  case (1 b n)
  have inj: "digit_char d \<noteq> digit_char 0" if "0 < d" "d < 10" for d
    using char_digit_char [OF that(2)] that(1) char_digit_char [of 0] by fastforce
  show ?case
  proof (cases "n < b")
    case True
    then show ?thesis using 1 inj by (simp add: to_digits.simps [of b n])
  next
    case False
    then have "0 < n div b" using 1 by (simp add: div_greater_zero_iff)
    then show ?thesis using 1 False by (simp add: to_digits.simps [of b n])
  qed
qed

lemma of_digits_zeros: "of_digits b (replicate k (digit_char 0) @ s) = of_digits b s"
proof (induction s rule: rev_induct)
  case Nil
  have "of_digits b (replicate k (digit_char 0)) = 0"
    by (induction k) (simp_all add: of_digits_def char_digit_char)
  then show ?case by simp
next
  case (snoc c s)
  then show ?case by (metis append_assoc of_digits_snoc)
qed

end
