(* ===== verification/Json.thy ===== *)
theory Json
  imports Prelude
begin

text \<open>
  Parsed JSON values, shared by the components that read stored or received documents.  The parser
  and the printer themselves are the language's \<open>JSON.parse\<close> and \<open>JSON.stringify\<close>.
\<close>

section \<open>JSON\<close>

text \<open>
  Numbers are only passed through: they are kept as their text.  Objects have distinct keys and keep
  insertion order (the engine's reordering of integer-like keys is not modelled, no key of a layout
  is one).
\<close>

datatype json =
    JNull
  | JBool bool
  | JNum string
  | JStr string
  | JArr "json list"
  | JObj "(string, json) jmap"

definition isRecord :: "json \<Rightarrow> (string, json) jmap option" where
  "isRecord v = (case v of JObj m \<Rightarrow> Some m | _ \<Rightarrow> None)"

lemma size_jget: "jget m k = Some v \<Longrightarrow> size v < size (JObj m)"
proof (induction m)
  case (Cons p m)
  then show ?case by (cases p) (auto split: if_split_asm)
qed simp

lemma size_data_child: "jget m k = Some (JArr cs) \<Longrightarrow> c \<in> set cs \<Longrightarrow> size c < size (JObj m)"
  using size_jget [of m k "JArr cs"] size_list_estimation' [of c cs "size c" size] by fastforce

end
