(* ===== verification/Layout.thy ===== *)
theory Layout
  imports Text Json
begin

text \<open>
  \<open>apps/server/api/src/modules/workspaces/layout.ts\<close> and
  \<open>packages/subshell-protocol/src/workspace-preview.ts\<close>: the server's repair of a stored dockview
  layout.  The layout body is stored as a client sent it, so it is arbitrary JSON.
\<close>

section \<open>Preview ids\<close>

datatype preview_view =
    PvApp nat "json option"
  | PvService string nat "nat option" "json option"
  | PvScreen
  | PvBrowser

definition lower_hex :: "char \<Rightarrow> bool" where
  "lower_hex c \<longleftrightarrow> is_digit 10 c \<or> c \<in> set ''abcdef''"

definition is_uuid :: "string \<Rightarrow> bool" where
  "is_uuid s \<longleftrightarrow> map length (splitOn CHR ''-'' s) = [8, 4, 4, 4, 12] \<and>
                  (\<forall>w \<in> set (splitOn CHR ''-'' s). \<forall>c \<in> set w. lower_hex c)"

text \<open>\<open>[1-9]\d{0,4}\<close> and \<open>0|[1-9]\d{0,15}\<close>.\<close>

definition is_port_text :: "string \<Rightarrow> bool" where
  "is_port_text s \<longleftrightarrow> s \<noteq> [] \<and> length s \<le> 5 \<and> (\<forall>c \<in> set s. is_digit 10 c) \<and> hd s \<noteq> CHR ''0''"

definition is_revision_text :: "string \<Rightarrow> bool" where
  "is_revision_text s \<longleftrightarrow> s = ''0'' \<or>
     (s \<noteq> [] \<and> length s \<le> 16 \<and> (\<forall>c \<in> set s. is_digit 10 c) \<and> hd s \<noteq> CHR ''0'')"

definition MAX_SAFE_INTEGER :: nat where "MAX_SAFE_INTEGER = 2 ^ 53 - 1"

definition servicePreview :: "string \<Rightarrow> string \<Rightarrow> string \<Rightarrow> string option \<Rightarrow> (string \<times> preview_view) option" where
  "servicePreview pane uuid port rv =
     (if pane \<noteq> [] \<and> is_uuid uuid \<and> is_port_text port \<and> (\<forall>r. rv = Some r \<longrightarrow> is_revision_text r)
      then if of_digits 10 port \<le> 65535 \<and> (\<forall>r. rv = Some r \<longrightarrow> of_digits 10 r \<le> MAX_SAFE_INTEGER)
           then Some (pane, PvService uuid (of_digits 10 port) (map_option (of_digits 10) rv) None)
           else None
      else None)"

text \<open>The two regular expressions; no group of theirs contains a colon, so they split on it.\<close>

definition parsePreviewBase :: "string \<Rightarrow> (string \<times> preview_view) option" where
  "parsePreviewBase i =
     (case splitOn CHR '':'' i of
        [p, pane, kind] \<Rightarrow>
          (if p = ''preview'' \<and> pane \<noteq> []
           then if kind = ''screen'' then Some (pane, PvScreen)
                else if kind = ''browser'' then Some (pane, PvBrowser) else None
           else None)
      | [p, pane, kind, port] \<Rightarrow>
          (if p = ''preview'' \<and> pane \<noteq> [] \<and> kind = ''app'' \<and> is_port_text port \<and>
              1 \<le> of_digits 10 port \<and> of_digits 10 port \<le> 65535
           then Some (pane, PvApp (of_digits 10 port) None) else None)
      | [p, pane, kind, uuid, port] \<Rightarrow>
          (if p = ''preview'' \<and> kind = ''service'' then servicePreview pane uuid port None else None)
      | [p, pane, kind, uuid, port, r, rv] \<Rightarrow>
          (if p = ''preview'' \<and> kind = ''service'' \<and> r = ''revision''
           then servicePreview pane uuid port (Some rv) else None)
      | _ \<Rightarrow> None)"

fun findSub :: "string \<Rightarrow> string \<Rightarrow> (string \<times> string) option" where
  "findSub pat [] = (if pat = [] then Some ([], []) else None)"
| "findSub pat (x # xs) =
     (if take (length pat) (x # xs) = pat then Some ([], drop (length pat) (x # xs))
      else map_option (\<lambda>(a, b). (x # a, b)) (findSub pat xs))"

fun withConfig :: "json \<Rightarrow> preview_view \<Rightarrow> preview_view option" where
  "withConfig c (PvApp p _) = Some (PvApp p (Some c))"
| "withConfig c (PvService u p r _) = Some (PvService u p r (Some c))"
| "withConfig c _ = None"

text \<open>
  \<open>cfg\<close> stands for \<open>parsePreviewConfiguration(JSON.parse(decodeURIComponent(text)))\<close>, a throw being
  \<open>None\<close>.
\<close>

definition parseWorkspacePreviewId :: "(string \<Rightarrow> json option) \<Rightarrow> string \<Rightarrow> (string \<times> preview_view) option" where
  "parseWorkspacePreviewId cfg i =
     (case findSub '':config:'' i of
        None \<Rightarrow> parsePreviewBase i
      | Some (pre, post) \<Rightarrow>
          (if length i > 4096 then None
           else case parsePreviewBase pre of
               None \<Rightarrow> None
             | Some (pane, view) \<Rightarrow>
                 (case cfg post of
                    None \<Rightarrow> None
                  | Some c \<Rightarrow> map_option (Pair pane) (withConfig c view))))"

text \<open>\<open>workspacePreviewId\<close> for a view without configuration.\<close>

fun workspacePreviewId :: "string \<Rightarrow> preview_view \<Rightarrow> string" where
  "workspacePreviewId pane (PvApp port _) = ''preview:'' @ pane @ '':app:'' @ to_digits 10 port"
| "workspacePreviewId pane (PvService u port rv _) =
     ''preview:'' @ pane @ '':service:'' @ u @ '':'' @ to_digits 10 port @
     (case rv of None \<Rightarrow> [] | Some r \<Rightarrow> '':revision:'' @ to_digits 10 r)"
| "workspacePreviewId pane PvScreen = ''preview:'' @ pane @ '':screen''"
| "workspacePreviewId pane PvBrowser = ''preview:'' @ pane @ '':browser''"

definition configField :: "json option \<Rightarrow> (string, json) jmap" where
  "configField c = (case c of None \<Rightarrow> [] | Some v \<Rightarrow> [(''configuration'', v)])"

fun viewJson :: "preview_view \<Rightarrow> json" where
  "viewJson (PvApp p c) = JObj ([(''kind'', JStr ''app''), (''port'', JNum (to_digits 10 p))] @ configField c)"
| "viewJson (PvService u p r c) =
     JObj ([(''kind'', JStr ''service''), (''serviceId'', JStr u), (''port'', JNum (to_digits 10 p))] @
           (case r of None \<Rightarrow> [] | Some n \<Rightarrow> [(''revision'', JNum (to_digits 10 n))]) @ configField c)"
| "viewJson PvScreen = JObj [(''kind'', JStr ''screen'')]"
| "viewJson PvBrowser = JObj [(''kind'', JStr ''browser'')]"

definition previewJson :: "string \<times> preview_view \<Rightarrow> json" where
  "previewJson pv = JObj [(''paneId'', JStr (fst pv)), (''view'', viewJson (snd pv))]"

section \<open>Reading ids out of a layout\<close>

definition panelIdsInLayout :: "json \<Rightarrow> string list" where
  "panelIdsInLayout layout =
     (case isRecord layout of
        None \<Rightarrow> []
      | Some m \<Rightarrow> (case jget m ''panels'' of Some (JObj p) \<Rightarrow> jkeys p | _ \<Rightarrow> []))"

fun stringsOf :: "json list \<Rightarrow> string list" where
  "stringsOf [] = []"
| "stringsOf (JStr s # vs) = s # stringsOf vs"
| "stringsOf (_ # vs) = stringsOf vs"

definition viewIdsOfGroupState :: "json \<Rightarrow> string list" where
  "viewIdsOfGroupState v =
     (case isRecord v of
        None \<Rightarrow> []
      | Some m \<Rightarrow> (case jget m ''views'' of Some (JArr vs) \<Rightarrow> stringsOf vs | _ \<Rightarrow> []))"

function collectViewIdsFromGrid :: "json \<Rightarrow> string list" where
  "collectViewIdsFromGrid v =
     (case v of
        JObj m \<Rightarrow>
          (case jget m ''data'' of
             Some (JArr cs) \<Rightarrow> concat (map collectViewIdsFromGrid cs)
           | Some d \<Rightarrow> viewIdsOfGroupState d
           | None \<Rightarrow> [])
      | _ \<Rightarrow> [])"
  by pat_completeness auto
termination
  by (relation "measure size") (auto dest: size_data_child simp del: json.size)

declare collectViewIdsFromGrid.simps [simp del]

function collectGroupIds :: "json \<Rightarrow> string list" where
  "collectGroupIds v =
     (case v of
        JObj m \<Rightarrow>
          (case jget m ''data'' of
             Some (JArr cs) \<Rightarrow> concat (map collectGroupIds cs)
           | Some (JObj d) \<Rightarrow> (case jget d ''id'' of Some (JStr s) \<Rightarrow> [s] | _ \<Rightarrow> [])
           | _ \<Rightarrow> [])
      | _ \<Rightarrow> [])"
  by pat_completeness auto
termination
  by (relation "measure size") (auto dest: size_data_child simp del: json.size)

declare collectGroupIds.simps [simp del]

definition viewIdsInWindowEntry :: "json \<Rightarrow> string list" where
  "viewIdsInWindowEntry entry =
     (case isRecord entry of
        None \<Rightarrow> []
      | Some m \<Rightarrow>
          (case jget m ''data'' of None \<Rightarrow> [] | Some d \<Rightarrow> viewIdsOfGroupState d) @
          (case jget m ''grid'' of
             Some (JObj g) \<Rightarrow> (case jget g ''root'' of None \<Rightarrow> [] | Some r \<Rightarrow> collectViewIdsFromGrid r)
           | _ \<Rightarrow> []))"

definition EDGE_POSITIONS :: "string list" where
  "EDGE_POSITIONS = [''top'', ''bottom'', ''left'', ''right'']"

definition viewIdsInEdgeGroups :: "json \<Rightarrow> string list" where
  "viewIdsInEdgeGroups edge =
     (case isRecord edge of
        None \<Rightarrow> []
      | Some m \<Rightarrow> concat (map (\<lambda>pos. case jget m pos of
            Some (JObj e) \<Rightarrow> (case jget e ''group'' of None \<Rightarrow> [] | Some g \<Rightarrow> viewIdsOfGroupState g)
          | _ \<Rightarrow> []) EDGE_POSITIONS))"

section \<open>Pruning\<close>

abbreviation liveView :: "string set \<Rightarrow> json \<Rightarrow> bool" where
  "liveView live v \<equiv> (case v of JStr s \<Rightarrow> s \<in> live | _ \<Rightarrow> False)"

fun records :: "json list \<Rightarrow> (string, json) jmap list" where
  "records [] = []"
| "records (JObj m # vs) = m # records vs"
| "records (_ # vs) = records vs"

definition groupPanelIds :: "string set \<Rightarrow> (string, json) jmap \<Rightarrow> json list" where
  "groupPanelIds live m = (case jget m ''panelIds'' of Some (JArr ps) \<Rightarrow> filter (liveView live) ps | _ \<Rightarrow> [])"

definition pruneTabGroups :: "string set \<Rightarrow> json list \<Rightarrow> json list" where
  "pruneTabGroups live gs =
     map (\<lambda>m. JObj (jset ''panelIds'' (JArr (groupPanelIds live m)) m))
       (filter (\<lambda>m. groupPanelIds live m \<noteq> []) (records gs))"

definition leafViews :: "string set \<Rightarrow> (string, json) jmap \<Rightarrow> json list" where
  "leafViews live d = (case jget d ''views'' of Some (JArr vs) \<Rightarrow> filter (liveView live) vs | _ \<Rightarrow> [])"

definition pruneLeaf :: "string set \<Rightarrow> (string, json) jmap \<Rightarrow> (string, json) jmap option" where
  "pruneLeaf live d =
     (let views = leafViews live d in
      if views = [] then None
      else
        let activeView = (case jget d ''activeView'' of
              Some (JStr a) \<Rightarrow> (if JStr a \<in> set views then JStr a else hd views)
            | _ \<Rightarrow> hd views);
            data = jset ''activeView'' activeView (jset ''views'' (JArr views) d)
        in Some (case jget d ''tabGroups'' of
                   Some (JArr gs) \<Rightarrow> jset ''tabGroups'' (JArr (pruneTabGroups live gs)) data
                 | _ \<Rightarrow> data))"

lemma map_filter_cong [fundef_cong]:
  "xs = ys \<Longrightarrow> (\<And>x. x \<in> set ys \<Longrightarrow> f x = g x) \<Longrightarrow> List.map_filter f xs = List.map_filter g ys"
  by (induction xs arbitrary: ys) (auto simp: map_filter_simps split: option.split)

function pruneNode :: "string set \<Rightarrow> json \<Rightarrow> json option" where
  "pruneNode live v =
     (case v of
        JObj m \<Rightarrow>
          (case jget m ''data'' of
             Some (JArr cs) \<Rightarrow>
               (let children = List.map_filter (pruneNode live) cs
                in if children = [] then None else Some (JObj (jset ''data'' (JArr children) m)))
           | Some (JObj d) \<Rightarrow> map_option (\<lambda>d'. JObj (jset ''data'' (JObj d') m)) (pruneLeaf live d)
           | _ \<Rightarrow> None)
      | _ \<Rightarrow> None)"
  by pat_completeness auto
termination
  by (relation "measure (\<lambda>(_, v). size v)") (auto dest: size_data_child simp del: json.size)

declare pruneNode.simps [simp del]

definition allowedPanel :: "(string \<Rightarrow> json option) \<Rightarrow> string set \<Rightarrow> string \<Rightarrow> bool" where
  "allowedPanel cfg live i \<longleftrightarrow>
     i \<in> live \<or> (case parseWorkspacePreviewId cfg i of Some (pane, _) \<Rightarrow> pane | None \<Rightarrow> []) \<in> live"

definition prunedPanel :: "(string \<Rightarrow> json option) \<Rightarrow> (string, json) jmap \<Rightarrow> string \<Rightarrow> json" where
  "prunedPanel cfg panels i =
     (let panel = (case jget panels i of Some v \<Rightarrow> v | None \<Rightarrow> JNull) in
      case (parseWorkspacePreviewId cfg i, isRecord panel) of
        (Some preview, Some m) \<Rightarrow>
          JObj (jset ''renderer'' (JStr ''always'')
                 (jset ''params'' (previewJson preview) (jset ''contentComponent'' (JStr ''preview'') m)))
      | _ \<Rightarrow> panel)"

definition dropIf :: "bool \<Rightarrow> string \<Rightarrow> (string, json) jmap \<Rightarrow> (string, json) jmap" where
  "dropIf b k m = (if b then jdel k m else m)"

definition windowsStale :: "string set \<Rightarrow> (string, json) jmap \<Rightarrow> string \<Rightarrow> bool" where
  "windowsStale live m field =
     (case jget m field of
        Some (JArr entries) \<Rightarrow> (\<exists>e \<in> set entries. \<exists>i \<in> set (viewIdsInWindowEntry e). i \<notin> live)
      | _ \<Rightarrow> False)"

definition edgesStale :: "string set \<Rightarrow> (string, json) jmap \<Rightarrow> bool" where
  "edgesStale live m =
     (case jget m ''edgeGroups'' of
        Some e \<Rightarrow> (\<exists>i \<in> set (viewIdsInEdgeGroups e). i \<notin> live) | None \<Rightarrow> False)"

definition repairActiveGroup :: "json \<Rightarrow> (string, json) jmap \<Rightarrow> (string, json) jmap \<Rightarrow> (string, json) jmap" where
  "repairActiveGroup root m result =
     (case jget m ''activeGroup'' of
        Some (JStr g) \<Rightarrow>
          (if g \<in> set (collectGroupIds root) then result
           else case collectGroupIds root of
               f # _ \<Rightarrow> jset ''activeGroup'' (JStr f) result
             | [] \<Rightarrow> jdel ''activeGroup'' result)
      | _ \<Rightarrow> result)"

definition pruneLayout ::
  "(string \<Rightarrow> json option) \<Rightarrow> json \<Rightarrow> string set \<Rightarrow> (string, json) jmap option" where
  "pruneLayout cfg layout live =
     (case layout of
        JObj m \<Rightarrow>
          (case (jget m ''panels'', jget m ''grid'') of
             (Some (JObj p), Some (JObj g)) \<Rightarrow>
               (let panelIds = jkeys p; survivors = filter (allowedPanel cfg live) panelIds in
                if survivors = [] then None
                else
                  let panels = fold (\<lambda>i acc. jset i (prunedPanel cfg p i) acc) survivors [];
                      keep = set survivors
                  in case (case jget g ''root'' of Some r \<Rightarrow> pruneNode keep r | None \<Rightarrow> None) of
                       None \<Rightarrow> None
                     | Some root \<Rightarrow>
                         let result = jset ''panels'' (JObj panels) (jset ''grid'' (JObj (jset ''root'' root g)) m)
                         in if length survivors = length panelIds then Some result
                            else Some
                              (dropIf (edgesStale keep m) ''edgeGroups''
                                (dropIf (windowsStale keep m ''popoutGroups'') ''popoutGroups''
                                  (dropIf (windowsStale keep m ''floatingGroups'') ''floatingGroups''
                                    (repairActiveGroup root m result)))))
           | _ \<Rightarrow> None)
      | _ \<Rightarrow> None)"

section \<open>Backfilling\<close>

function appendToFirstLeaf :: "string list \<Rightarrow> json \<Rightarrow> bool \<Rightarrow> json \<times> bool" where
  "appendToFirstLeaf ids v appended =
     (case v of
        JObj m \<Rightarrow>
          (if appended then (v, True)
           else case jget m ''data'' of
               Some (JArr cs) \<Rightarrow>
                 (let (cs', b) = fold (\<lambda>c (acc, b). let (c', b') = appendToFirstLeaf ids c b in (acc @ [c'], b'))
                                   cs ([], False)
                  in (JObj (jset ''data'' (JArr cs') m), b))
             | Some (JObj d) \<Rightarrow>
                 (let views = (case jget d ''views'' of Some (JArr vs) \<Rightarrow> vs | _ \<Rightarrow> [])
                  in (JObj (jset ''data'' (JObj (jset ''views'' (JArr (views @ map JStr ids)) d)) m), True))
             | _ \<Rightarrow> (v, False))
      | _ \<Rightarrow> (v, appended))"
  by pat_completeness auto
termination
  by (relation "measure (\<lambda>(_, v, _). size v)") (auto dest: size_data_child simp del: json.size)

declare appendToFirstLeaf.simps [simp del]

record layout_pane =
  lp_id :: string
  lp_title :: string

definition backfillPanel :: "layout_pane \<Rightarrow> json" where
  "backfillPanel pane = JObj
     [(''id'', JStr (lp_id pane)), (''contentComponent'', JStr ''subshell''),
      (''params'', JObj [(''paneId'', JStr (lp_id pane))]), (''title'', JStr (lp_title pane)),
      (''renderer'', JStr ''always'')]"

definition backfillLayout :: "json \<Rightarrow> layout_pane list \<Rightarrow> json" where
  "backfillLayout layout panes =
     (case layout of
        JObj m \<Rightarrow>
          (case (jget m ''panels'', jget m ''grid'') of
             (Some (JObj p), Some (JObj g)) \<Rightarrow>
               (let missing = filter (\<lambda>l. lp_id l \<notin> set (jkeys p)) panes in
                if missing = [] then layout
                else
                  let root = (case jget g ''root'' of Some r \<Rightarrow> r | None \<Rightarrow> JNull);
                      inGrid = set (collectViewIdsFromGrid root);
                      appendIds = map lp_id (filter (\<lambda>l. lp_id l \<notin> inGrid) missing);
                      panels = fold (\<lambda>l acc. jset (lp_id l) (backfillPanel l) acc) missing p
                  in if appendIds = [] then JObj (jset ''panels'' (JObj panels) m)
                     else case appendToFirstLeaf appendIds root False of
                         (root', appended) \<Rightarrow>
                           if \<not> appended then layout
                           else JObj (jset ''panels'' (JObj panels) (jset ''grid'' (JObj (jset ''root'' root' g)) m)))
           | _ \<Rightarrow> layout)
      | _ \<Rightarrow> layout)"

section \<open>Unfolding the walks\<close>

lemma pruneNode_simps [simp]:
  "pruneNode live (JObj m) =
     (case jget m ''data'' of
        Some (JArr cs) \<Rightarrow>
          (let children = List.map_filter (pruneNode live) cs
           in if children = [] then None else Some (JObj (jset ''data'' (JArr children) m)))
      | Some (JObj d) \<Rightarrow> map_option (\<lambda>d'. JObj (jset ''data'' (JObj d') m)) (pruneLeaf live d)
      | _ \<Rightarrow> None)"
  "pruneNode live JNull = None" "pruneNode live (JBool b) = None" "pruneNode live (JNum n) = None"
  "pruneNode live (JStr t) = None" "pruneNode live (JArr vs) = None"
  by (subst pruneNode.simps, simp)+

lemma collectViewIds_simps [simp]:
  "collectViewIdsFromGrid (JObj m) =
     (case jget m ''data'' of
        Some (JArr cs) \<Rightarrow> concat (map collectViewIdsFromGrid cs)
      | Some d \<Rightarrow> viewIdsOfGroupState d | None \<Rightarrow> [])"
  "collectViewIdsFromGrid JNull = []" "collectViewIdsFromGrid (JBool b) = []" "collectViewIdsFromGrid (JNum n) = []"
  "collectViewIdsFromGrid (JStr t) = []" "collectViewIdsFromGrid (JArr vs) = []"
  by (subst collectViewIdsFromGrid.simps, simp)+

lemma collectGroupIds_simps [simp]:
  "collectGroupIds (JObj m) =
     (case jget m ''data'' of
        Some (JArr cs) \<Rightarrow> concat (map collectGroupIds cs)
      | Some (JObj d) \<Rightarrow> (case jget d ''id'' of Some (JStr s) \<Rightarrow> [s] | _ \<Rightarrow> [])
      | _ \<Rightarrow> [])"
  "collectGroupIds JNull = []" "collectGroupIds (JBool b) = []" "collectGroupIds (JNum n) = []"
  "collectGroupIds (JStr t) = []" "collectGroupIds (JArr vs) = []"
  by (subst collectGroupIds.simps, simp)+

section \<open>The shape of a repaired grid\<close>

definition tabGroupOk :: "string set \<Rightarrow> json \<Rightarrow> bool" where
  "tabGroupOk live g \<longleftrightarrow>
     (case g of
        JObj m \<Rightarrow> (case jget m ''panelIds'' of
            Some (JArr ps) \<Rightarrow> ps \<noteq> [] \<and> (\<forall>p \<in> set ps. liveView live p) | _ \<Rightarrow> False)
      | _ \<Rightarrow> False)"

text \<open>
  A leaf dockview accepts: it shows at least one panel, only live ones, one of them is focused, and
  every tab group has a live member.
\<close>

definition leafOk :: "string set \<Rightarrow> (string, json) jmap \<Rightarrow> bool" where
  "leafOk live d \<longleftrightarrow>
     (case jget d ''views'' of
        Some (JArr vs) \<Rightarrow>
          vs \<noteq> [] \<and> (\<forall>v \<in> set vs. liveView live v) \<and>
          (case jget d ''activeView'' of Some a \<Rightarrow> a \<in> set vs | None \<Rightarrow> False) \<and>
          (case jget d ''tabGroups'' of Some (JArr gs) \<Rightarrow> (\<forall>g \<in> set gs. tabGroupOk live g) | _ \<Rightarrow> True)
      | _ \<Rightarrow> False)"

function gridOk :: "string set \<Rightarrow> json \<Rightarrow> bool" where
  "gridOk live v =
     (case v of
        JObj m \<Rightarrow>
          (case jget m ''data'' of
             Some (JArr cs) \<Rightarrow> cs \<noteq> [] \<and> (\<forall>c \<in> set cs. gridOk live c)
           | Some (JObj d) \<Rightarrow> leafOk live d
           | _ \<Rightarrow> False)
      | _ \<Rightarrow> False)"
  by pat_completeness auto
termination
  by (relation "measure (\<lambda>(_, v). size v)") (auto dest: size_data_child simp del: json.size)

declare gridOk.simps [simp del]

lemma gridOk_simps [simp]:
  "gridOk live (JObj m) =
     (case jget m ''data'' of
        Some (JArr cs) \<Rightarrow> cs \<noteq> [] \<and> (\<forall>c \<in> set cs. gridOk live c)
      | Some (JObj d) \<Rightarrow> leafOk live d
      | _ \<Rightarrow> False)"
  "\<not> gridOk live JNull" "\<not> gridOk live (JBool b)" "\<not> gridOk live (JNum n)"
  "\<not> gridOk live (JStr t)" "\<not> gridOk live (JArr vs)"
  by (subst gridOk.simps, simp)+

lemma filter_liveView_id: "\<forall>v \<in> set vs. liveView live v \<Longrightarrow> filter (liveView live) vs = vs"
  by (simp add: filter_True)

lemma groupPanelIds_live: "v \<in> set (groupPanelIds live m) \<Longrightarrow> liveView live v"
  unfolding groupPanelIds_def by (cases "jget m ''panelIds''"; cases "the (jget m ''panelIds'')") simp_all

lemma pruneTabGroups_ok: "g \<in> set (pruneTabGroups live gs) \<Longrightarrow> tabGroupOk live g"
  using groupPanelIds_live by (fastforce simp: pruneTabGroups_def tabGroupOk_def)

lemma leafViews_live: "v \<in> set (leafViews live d) \<Longrightarrow> liveView live v"
  unfolding leafViews_def by (cases "jget d ''views''"; cases "the (jget d ''views'')") simp_all

lemma pruneLeaf_ok: "pruneLeaf live d = Some d' \<Longrightarrow> leafOk live d'"
proof -
  assume p: "pruneLeaf live d = Some d'"
  define views where "views = leafViews live d"
  have ne: "views \<noteq> []" using p by (auto simp: pruneLeaf_def Let_def views_def split: if_split_asm)
  define active where "active = (case jget d ''activeView'' of
      Some (JStr a) \<Rightarrow> (if JStr a \<in> set views then JStr a else hd views) | _ \<Rightarrow> hd views)"
  have a: "active \<in> set views" using ne by (auto simp: active_def split: option.split json.split)
  have d': "d' = (case jget d ''tabGroups'' of
      Some (JArr gs) \<Rightarrow> jset ''tabGroups'' (JArr (pruneTabGroups live gs))
         (jset ''activeView'' active (jset ''views'' (JArr views) d))
    | _ \<Rightarrow> jset ''activeView'' active (jset ''views'' (JArr views) d))"
    using p ne unfolding pruneLeaf_def Let_def views_def [symmetric] active_def [symmetric] by simp
  have l: "\<forall>v \<in> set views. liveView live v" using leafViews_live unfolding views_def by blast
  have "jget d' ''views'' = Some (JArr views)" "jget d' ''activeView'' = Some active"
    unfolding d' by (simp_all split: option.split json.split)
  moreover have "case jget d' ''tabGroups'' of Some (JArr gs) \<Rightarrow> (\<forall>g \<in> set gs. tabGroupOk live g) | _ \<Rightarrow> True"
  proof (cases "\<exists>gs. jget d ''tabGroups'' = Some (JArr gs)")
    case True
    then show ?thesis using pruneTabGroups_ok unfolding d' by auto
  next
    case False
    then have "d' = jset ''activeView'' active (jset ''views'' (JArr views) d)"
      unfolding d' by (simp split: option.split json.split)
    then show ?thesis using False by (simp split: option.split json.split)
  qed
  ultimately show ?thesis using ne a l by (simp add: leafOk_def)
qed

lemma pruneNode_ok: "pruneNode live v = Some v' \<Longrightarrow> gridOk live v'"
proof (induction live v arbitrary: v' rule: pruneNode.induct)
  case (1 live v)
  from 1(2) obtain m where v: "v = JObj m" by (cases v) simp_all
  show ?case
  proof (cases "jget m ''data''")
    case (Some dat)
    note data = Some
    show ?thesis
    proof (cases dat)
      case (JArr cs)
      let ?ch = "List.map_filter (pruneNode live) cs"
      have v': "?ch \<noteq> []" "v' = JObj (jset ''data'' (JArr ?ch) m)"
        using 1(2) by (auto simp: v data JArr  Let_def split: if_split_asm)
      have "gridOk live c" if "c \<in> set ?ch" for c
        using that 1(1) [OF v _ JArr] data by (auto simp: List.map_filter_def)
      then show ?thesis using v'(1) by (simp add: v'(2) )
    next
      case (JObj d)
      then obtain d' where "pruneLeaf live d = Some d'" "v' = JObj (jset ''data'' (JObj d') m)"
        using 1(2) by (auto simp: v data )
      then show ?thesis using pruneLeaf_ok by simp
    qed (use 1(2) in \<open>simp_all add: v data \<close>)
  qed (use 1(2) in \<open>simp add: v \<close>)
qed

text \<open>A grid that is already in shape is left as it is.\<close>

lemma jset_same: "jget m k = Some v \<Longrightarrow> jset k v m = m"
  by (induction k v m rule: jset.induct) (auto split: if_split_asm)

lemma pruneTabGroups_id:
  assumes "\<forall>g \<in> set gs. tabGroupOk live g"
  shows "pruneTabGroups live gs = gs"
  using assms
proof (induction gs)
  case (Cons g gs)
  then obtain m ps where g: "g = JObj m" "jget m ''panelIds'' = Some (JArr ps)" "ps \<noteq> []"
    "\<forall>p \<in> set ps. liveView live p"
    by (auto simp: tabGroupOk_def split: json.splits option.splits)
  then have "groupPanelIds live m = ps" by (simp add: groupPanelIds_def filter_liveView_id)
  then show ?case using g Cons by (simp add: pruneTabGroups_def jset_same)
qed (simp add: pruneTabGroups_def)

lemma pruneLeaf_id:
  assumes "leafOk live d"
  shows "pruneLeaf live d = Some d"
proof -
  obtain vs a where vs: "jget d ''views'' = Some (JArr vs)" "vs \<noteq> []" "\<forall>v \<in> set vs. liveView live v"
    and a: "jget d ''activeView'' = Some a" "a \<in> set vs"
    and g: "case jget d ''tabGroups'' of Some (JArr gs) \<Rightarrow> (\<forall>g \<in> set gs. tabGroupOk live g) | _ \<Rightarrow> True"
    using assms unfolding leafOk_def by (auto split: option.splits json.splits)
  have views: "leafViews live d = vs" using vs by (simp add: leafViews_def filter_liveView_id)
  obtain s where "a = JStr s" using vs(3) a(2) by (cases a) (auto split: json.splits)
  then have act: "(case jget d ''activeView'' of
      Some (JStr a) \<Rightarrow> (if JStr a \<in> set vs then JStr a else hd vs) | _ \<Rightarrow> hd vs) = a"
    using a by simp
  have d: "jset ''activeView'' a (jset ''views'' (JArr vs) d) = d" using vs(1) a(1) by (simp add: jset_same)
  have "(case jget d ''tabGroups'' of
           Some (JArr gs) \<Rightarrow> jset ''tabGroups'' (JArr (pruneTabGroups live gs)) d | _ \<Rightarrow> d) = d"
    using g pruneTabGroups_id by (auto simp: jset_same split: option.split json.split)
  then show ?thesis using vs(2) unfolding pruneLeaf_def Let_def views act d by simp
qed

lemma map_filter_Some: "\<forall>x \<in> set xs. f x = Some x \<Longrightarrow> List.map_filter f xs = xs"
  by (induction xs) (simp_all add: map_filter_simps)

lemma pruneNode_id: "gridOk live v \<Longrightarrow> pruneNode live v = Some v"
proof (induction live v rule: gridOk.induct)
  case (1 live v)
  from 1(2) obtain m dat where v: "v = JObj m" and data: "jget m ''data'' = Some dat"
    by (cases v) (auto simp:  split: option.splits)
  show ?case
  proof (cases dat)
    case (JArr cs)
    then have cs: "cs \<noteq> []" "\<forall>c \<in> set cs. gridOk live c"
      using 1(2) by (simp_all add: v data )
    then have "List.map_filter (pruneNode live) cs = cs"
      using 1(1) [OF v _ JArr] data by (intro map_filter_Some) auto
    then show ?thesis using cs(1) data by (simp add: v JArr  jset_same)
  next
    case (JObj d)
    then have "leafOk live d" using 1(2) by (simp add: v data )
    then show ?thesis using data by (simp add: v JObj  pruneLeaf_id jset_same)
  qed (use 1(2) in \<open>simp_all add: v data \<close>)
qed

section \<open>No surviving panel loses its place\<close>

lemma stringsOf_filter: "stringsOf (filter (liveView live) vs) = filter (\<lambda>i. i \<in> live) (stringsOf vs)"
  by (induction vs rule: stringsOf.induct) auto

lemma stringsOf_map [simp]: "stringsOf (map JStr xs) = xs"
  by (induction xs) simp_all

lemma stringsOf_append: "stringsOf (vs @ ws) = stringsOf vs @ stringsOf ws"
  by (induction vs rule: stringsOf.induct) auto

lemma leafViews_strings:
  "stringsOf (leafViews live d) = filter (\<lambda>i. i \<in> live) (viewIdsOfGroupState (JObj d))"
  by (auto simp: leafViews_def viewIdsOfGroupState_def isRecord_def stringsOf_filter split: option.split json.split)

lemma leafViews_Nil: "leafViews live d = [] \<longleftrightarrow> filter (\<lambda>i. i \<in> live) (viewIdsOfGroupState (JObj d)) = []"
proof -
  have "stringsOf vs = [] \<Longrightarrow> \<forall>v \<in> set vs. liveView live v \<Longrightarrow> vs = []" for vs
    by (cases vs rule: stringsOf.cases) auto
  from this [of "leafViews live d"] show ?thesis
    using leafViews_live unfolding leafViews_strings [symmetric] by (metis stringsOf.simps(1))
qed

lemma pruneLeaf_views:
  assumes "pruneLeaf live d = Some d'"
  shows "viewIdsOfGroupState (JObj d') = filter (\<lambda>i. i \<in> live) (viewIdsOfGroupState (JObj d))"
proof -
  have "jget d' ''views'' = Some (JArr (leafViews live d))"
    using assms by (auto simp: pruneLeaf_def Let_def split: if_split_asm option.splits json.splits)
  then show ?thesis unfolding leafViews_strings [symmetric] by (simp add: viewIdsOfGroupState_def isRecord_def)
qed

text \<open>A pruned-away node held no surviving view; a kept one holds exactly its surviving views, in order.\<close>

lemma pruneNode_views:
  "(case pruneNode live v of None \<Rightarrow> [] | Some v' \<Rightarrow> collectViewIdsFromGrid v') =
     filter (\<lambda>i. i \<in> live) (collectViewIdsFromGrid v)"
proof (induction live v rule: pruneNode.induct)
  case (1 live v)
  show ?case
  proof (cases v)
    case (JObj m)
    note v = JObj
    show ?thesis
    proof (cases "jget m ''data''")
      case None
      then show ?thesis by (simp add: v)
    next
      case (Some dat)
      note data = Some
      show ?thesis
      proof (cases dat)
        case (JArr cs)
        let ?ch = "List.map_filter (pruneNode live) cs"
        have "concat (map collectViewIdsFromGrid (List.map_filter (pruneNode live) xs)) =
            filter (\<lambda>i. i \<in> live) (concat (map collectViewIdsFromGrid xs))" if "set xs \<subseteq> set cs" for xs
          using that
        proof (induction xs)
          case (Cons x xs)
          have "(case pruneNode live x of None \<Rightarrow> [] | Some v' \<Rightarrow> collectViewIdsFromGrid v') =
              filter (\<lambda>i. i \<in> live) (collectViewIdsFromGrid x)"
            using 1(1) [OF v _ JArr] data Cons.prems by auto
          then show ?case using Cons by (auto simp: map_filter_simps split: option.splits)
        qed (simp add: map_filter_simps)
        then have c: "concat (map collectViewIdsFromGrid ?ch) =
            filter (\<lambda>i. i \<in> live) (concat (map collectViewIdsFromGrid cs))" by blast
        show ?thesis
          by (cases "?ch = []")
            (use c in \<open>simp_all add: v data JArr  
              \<close>)
      next
        case (JObj d)
        show ?thesis
        proof (cases "pruneLeaf live d")
          case None
          then have "leafViews live d = []" by (auto simp: pruneLeaf_def Let_def split: if_split_asm)
          then show ?thesis using None leafViews_Nil [of live d]
            by (simp add: v data JObj)
        next
          case (Some d')
          then show ?thesis using pruneLeaf_views [OF Some]
            by (simp add: v data JObj)
        qed
      qed (simp_all add: v data  
            viewIdsOfGroupState_def isRecord_def)
    qed
  qed simp_all
qed

section \<open>Whole layouts\<close>

definition layoutRoot :: "json \<Rightarrow> json option" where
  "layoutRoot layout =
     (case layout of
        JObj m \<Rightarrow> (case jget m ''grid'' of Some (JObj g) \<Rightarrow> jget g ''root'' | _ \<Rightarrow> None)
      | _ \<Rightarrow> None)"

lemma fold_jset_keys: "fst ` set (fold (\<lambda>i acc. jset i (f i) acc) is acc) = set is \<union> fst ` set acc"
  by (induction "is" arbitrary: acc) auto

lemma fold_jset_get:
  "jget (fold (\<lambda>i acc. jset i (f i) acc) is acc) k = (if k \<in> set is then Some (f k) else jget acc k)"
  by (induction "is" arbitrary: acc) auto

lemma fold_jset_distinct:
  assumes "distinct is" "set is \<inter> fst ` set acc = {}"
  shows "fold (\<lambda>i acc. jset i (f i) acc) is acc = acc @ map (\<lambda>i. (i, f i)) is"
  using assms
proof (induction "is" arbitrary: acc)
  case (Cons i "is")
  then have "jset i (f i) acc = acc @ [(i, f i)]" by (intro jset_fresh) auto
  then show ?case using Cons by auto
qed simp

lemma repair_other: "k \<noteq> ''activeGroup'' \<Longrightarrow> jget (repairActiveGroup root m result) k = jget result k"
  by (auto simp: repairActiveGroup_def split: option.split json.split list.split)

lemma dropIf_get: "jget (dropIf b k m) k' = (if b \<and> k' = k then None else jget m k')"
  by (simp add: dropIf_def)

text \<open>Everything a successful prune tells about its result.\<close>

lemma pruneLayout_Some:
  assumes "pruneLayout cfg layout live = Some r"
  obtains m p g rt root where
    "layout = JObj m" "jget m ''panels'' = Some (JObj p)" "jget m ''grid'' = Some (JObj g)"
    "jget g ''root'' = Some rt"
    "filter (allowedPanel cfg live) (jkeys p) \<noteq> []"
    "pruneNode (set (filter (allowedPanel cfg live) (jkeys p))) rt = Some root"
    "jget r ''panels'' = Some (JObj (fold (\<lambda>i acc. jset i (prunedPanel cfg p i) acc)
                                          (filter (allowedPanel cfg live) (jkeys p)) []))"
    "jget r ''grid'' = Some (JObj (jset ''root'' root g))"
    "length (filter (allowedPanel cfg live) (jkeys p)) = length (jkeys p) \<Longrightarrow>
       r = jset ''panels'' (JObj (fold (\<lambda>i acc. jset i (prunedPanel cfg p i) acc)
                                       (filter (allowedPanel cfg live) (jkeys p)) []))
             (jset ''grid'' (JObj (jset ''root'' root g)) m)"
    "length (filter (allowedPanel cfg live) (jkeys p)) \<noteq> length (jkeys p) \<Longrightarrow>
       r = (let keep = set (filter (allowedPanel cfg live) (jkeys p)) in
            dropIf (edgesStale keep m) ''edgeGroups''
              (dropIf (windowsStale keep m ''popoutGroups'') ''popoutGroups''
                (dropIf (windowsStale keep m ''floatingGroups'') ''floatingGroups''
                  (repairActiveGroup root m
                    (jset ''panels'' (JObj (fold (\<lambda>i acc. jset i (prunedPanel cfg p i) acc)
                                       (filter (allowedPanel cfg live) (jkeys p)) []))
                      (jset ''grid'' (JObj (jset ''root'' root g)) m))))))"
proof -
  obtain m where m: "layout = JObj m" using assms by (cases layout) (simp_all add: pruneLayout_def)
  obtain p where p: "jget m ''panels'' = Some (JObj p)"
    using assms unfolding m pruneLayout_def by (auto split: option.splits json.splits)
  obtain g where g: "jget m ''grid'' = Some (JObj g)"
    using assms unfolding m pruneLayout_def by (auto split: option.splits json.splits)
  let ?sv = "filter (allowedPanel cfg live) (jkeys p)"
  have ne: "?sv \<noteq> []"
    using assms unfolding m pruneLayout_def json.case p g prod.case option.case Let_def by (auto split: if_split_asm)
  obtain rt root where rt: "jget g ''root'' = Some rt" "pruneNode (set ?sv) rt = Some root"
    using assms unfolding m pruneLayout_def json.case p g prod.case option.case Let_def
    by (auto split: if_split_asm option.splits)
  define panels where "panels = fold (\<lambda>i acc. jset i (prunedPanel cfg p i) acc) ?sv []"
  define res where "res = jset ''panels'' (JObj panels) (jset ''grid'' (JObj (jset ''root'' root g)) m)"
  have r: "r = (if length ?sv = length (jkeys p) then res
      else dropIf (edgesStale (set ?sv) m) ''edgeGroups''
              (dropIf (windowsStale (set ?sv) m ''popoutGroups'') ''popoutGroups''
                (dropIf (windowsStale (set ?sv) m ''floatingGroups'') ''floatingGroups''
                  (repairActiveGroup root m res))))"
    using assms ne
    unfolding m pruneLayout_def json.case p g prod.case option.case Let_def rt panels_def [symmetric] res_def [symmetric]
    by (simp split: if_split_asm)
  have "jget r ''panels'' = Some (JObj panels)" "jget r ''grid'' = Some (JObj (jset ''root'' root g))"
    unfolding r by (simp_all add: dropIf_get repair_other res_def)
  then show ?thesis
    using that [OF m p g rt(1) ne rt(2)] r unfolding panels_def [symmetric] res_def [symmetric] Let_def by simp
qed

text \<open>
  C24: A pruned layout is one the dock can restore: its panels are exactly the panels whose pane is
  alive (or the preview of one that is), every leaf shows at least one of them and focuses one it
  shows, no branch is empty, tab groups keep only living members; and no survivor loses its place:
  the views left in the grid are the old ones, in the old order, minus the dead.
\<close>

theorem prune_layout_sound:
  assumes "pruneLayout cfg layout live = Some r"
  shows "\<exists>p g root rt. jget r ''panels'' = Some (JObj p) \<and> jget r ''grid'' = Some (JObj g) \<and>
     jget g ''root'' = Some root \<and> layoutRoot layout = Some rt \<and>
     set (jkeys p) = {i \<in> set (panelIdsInLayout layout). allowedPanel cfg live i} \<and> p \<noteq> [] \<and>
     gridOk (set (jkeys p)) root \<and>
     collectViewIdsFromGrid root = filter (\<lambda>i. i \<in> set (jkeys p)) (collectViewIdsFromGrid rt)"
proof -
  obtain m p g rt root where r: "layout = JObj m" "jget m ''panels'' = Some (JObj p)"
    "jget m ''grid'' = Some (JObj g)" "jget g ''root'' = Some rt"
    "filter (allowedPanel cfg live) (jkeys p) \<noteq> []"
    "pruneNode (set (filter (allowedPanel cfg live) (jkeys p))) rt = Some root"
    "jget r ''panels'' = Some (JObj (fold (\<lambda>i acc. jset i (prunedPanel cfg p i) acc)
                                          (filter (allowedPanel cfg live) (jkeys p)) []))"
    "jget r ''grid'' = Some (JObj (jset ''root'' root g))"
    by (rule pruneLayout_Some [OF assms]) blast
  let ?sv = "filter (allowedPanel cfg live) (jkeys p)"
  let ?p = "fold (\<lambda>i acc. jset i (prunedPanel cfg p i) acc) ?sv []"
  have keys: "set (jkeys ?p) = set ?sv" by (simp only: set_map fold_jset_keys) simp
  then have "?p \<noteq> []" using r(5) by (metis list.map_disc_iff set_empty)
  moreover have "set (jkeys ?p) = {i \<in> set (panelIdsInLayout layout). allowedPanel cfg live i}"
    unfolding keys by (auto simp: panelIdsInLayout_def isRecord_def r(1,2))
  moreover have "gridOk (set (jkeys ?p)) root" unfolding keys by (rule pruneNode_ok [OF r(6)])
  moreover have "collectViewIdsFromGrid root = filter (\<lambda>i. i \<in> set (jkeys ?p)) (collectViewIdsFromGrid rt)"
    unfolding keys using pruneNode_views [of "set ?sv" rt] r(6) by simp
  moreover have "layoutRoot layout = Some rt" by (simp add: layoutRoot_def r)
  moreover have "jget (jset ''root'' root g) ''root'' = Some root" by simp
  ultimately show ?thesis using r(7,8) by blast
qed

definition demo_layout :: json where
  "demo_layout = JObj
     [(''panels'', JObj [(''a'', JObj []), (''b'', JObj []), (''preview:a:screen'', JObj [])]),
      (''grid'', JObj [(''root'', JObj [(''type'', JStr ''branch''), (''data'', JArr
         [JObj [(''type'', JStr ''leaf''), (''data'', JObj
            [(''id'', JStr ''1''), (''views'', JArr [JStr ''b'']), (''activeView'', JStr ''b'')])],
          JObj [(''type'', JStr ''leaf''), (''data'', JObj
            [(''id'', JStr ''2''), (''views'', JArr [JStr ''b'', JStr ''a'', JStr ''preview:a:screen'']),
             (''activeView'', JStr ''b'')])]])])]),
      (''activeGroup'', JStr ''1'')]"

lemmas layout_eval = pruneLayout_def demo_layout_def allowedPanel_def parseWorkspacePreviewId_def
  parsePreviewBase_def pruneLeaf_def leafViews_def map_filter_simps prunedPanel_def isRecord_def Let_def
  repairActiveGroup_def dropIf_def windowsStale_def edgesStale_def previewJson_def

lemma demo_pruned: "\<exists>r. pruneLayout (\<lambda>_. None) demo_layout {''a''} = Some r \<and> jget r ''activeGroup'' = Some (JStr ''2'')"
  by (simp add: layout_eval)

theorem prune_layout_sound_witness:
  "\<exists>r p. pruneLayout (\<lambda>_. None) demo_layout {''a''} = Some r \<and> jget r ''panels'' = Some (JObj p) \<and> p \<noteq> []"
proof -
  obtain r where "pruneLayout (\<lambda>_. None) demo_layout {''a''} = Some r" using demo_pruned by blast
  then show ?thesis using prune_layout_sound by blast
qed

text \<open>
  Repairing a repaired layout changes nothing: what was stored after one prune is returned
  unchanged by the next one for the same panes, whatever the client's other fields.
\<close>

theorem prune_layout_idempotent:
  assumes "pruneLayout cfg layout live = Some r" and "distinct (panelIdsInLayout layout)"
  shows "pruneLayout cfg (JObj r) live = Some r"
proof -
  obtain m p g rt root where r: "layout = JObj m" "jget m ''panels'' = Some (JObj p)"
    "jget m ''grid'' = Some (JObj g)" "jget g ''root'' = Some rt"
    "filter (allowedPanel cfg live) (jkeys p) \<noteq> []"
    "pruneNode (set (filter (allowedPanel cfg live) (jkeys p))) rt = Some root"
    "jget r ''panels'' = Some (JObj (fold (\<lambda>i acc. jset i (prunedPanel cfg p i) acc)
                                          (filter (allowedPanel cfg live) (jkeys p)) []))"
    "jget r ''grid'' = Some (JObj (jset ''root'' root g))"
    by (rule pruneLayout_Some [OF assms(1)]) blast
  let ?sv = "filter (allowedPanel cfg live) (jkeys p)"
  define q where "q = fold (\<lambda>i acc. jset i (prunedPanel cfg p i) acc) ?sv []"
  have d: "distinct ?sv" using assms(2) by (simp add: panelIdsInLayout_def isRecord_def r(1,2))
  have q: "q = map (\<lambda>i. (i, prunedPanel cfg p i)) ?sv" unfolding q_def using fold_jset_distinct [OF d, of "[]"] by simp
  then have keys: "jkeys q = ?sv" by (simp add: comp_def)
  have sv: "filter (allowedPanel cfg live) (jkeys q) = ?sv" unfolding keys by simp
  have get: "jget q i = Some (prunedPanel cfg p i)" if "i \<in> set ?sv" for i
    unfolding q_def fold_jset_get using that by simp
  have same: "prunedPanel cfg q i = prunedPanel cfg p i" if "i \<in> set ?sv" for i
    unfolding prunedPanel_def [of cfg q] get [OF that]
    by (auto simp: prunedPanel_def Let_def isRecord_def jset_same split: option.split json.split)
  have "fold (\<lambda>i acc. jset i (prunedPanel cfg q i) acc) ?sv [] = map (\<lambda>i. (i, prunedPanel cfg q i)) ?sv"
    using fold_jset_distinct [OF d, of "[]"] by simp
  also have "\<dots> = map (\<lambda>i. (i, prunedPanel cfg p i)) ?sv" by (rule map_cong [OF refl]) (simp only: same)
  also have "\<dots> = q" by (rule q [symmetric])
  finally have panels: "fold (\<lambda>i acc. jset i (prunedPanel cfg q i) acc) ?sv [] = q" .
  have root: "pruneNode (set ?sv) root = Some root" by (rule pruneNode_id [OF pruneNode_ok [OF r(6)]])
  have rp: "jget r ''panels'' = Some (JObj q)" using r(7) by (simp add: q_def)
  have gr: "jset ''root'' root (jset ''root'' root g) = jset ''root'' root g" by (rule jset_same) simp
  have "jset ''panels'' (JObj q) (jset ''grid'' (JObj (jset ''root'' root g)) r) = r"
    using r(8) rp by (simp add: jset_same)
  then show ?thesis
    unfolding pruneLayout_def json.case rp r(8) prod.case option.case Let_def sv panels
    using r(5) root keys by (simp add: gr)
qed

theorem prune_layout_idempotent_witness:
  "\<exists>r. pruneLayout (\<lambda>_. None) demo_layout {''a''} = Some r \<and> pruneLayout (\<lambda>_. None) (JObj r) {''a''} = Some r"
proof -
  obtain r where r: "pruneLayout (\<lambda>_. None) demo_layout {''a''} = Some r" using demo_pruned by blast
  have "distinct (panelIdsInLayout demo_layout)"
    by (simp add: panelIdsInLayout_def demo_layout_def isRecord_def)
  from prune_layout_idempotent [OF r this] r show ?thesis by blast
qed


section \<open>Backfill\<close>

lemma appendToFirstLeaf_done [simp]: "appendToFirstLeaf ids v True = (v, True)"
  by (subst appendToFirstLeaf.simps) (simp split: json.split)

lemma appendToFirstLeaf_simps:
  "appendToFirstLeaf ids (JObj m) False =
     (case jget m ''data'' of
        Some (JArr cs) \<Rightarrow>
          (let (cs', b) = fold (\<lambda>c (acc, b). let (c', b') = appendToFirstLeaf ids c b in (acc @ [c'], b')) cs ([], False)
           in (JObj (jset ''data'' (JArr cs') m), b))
      | Some (JObj d) \<Rightarrow>
          (let views = (case jget d ''views'' of Some (JArr vs) \<Rightarrow> vs | _ \<Rightarrow> [])
           in (JObj (jset ''data'' (JObj (jset ''views'' (JArr (views @ map JStr ids)) d)) m), True))
      | _ \<Rightarrow> (JObj m, False))"
  by (subst appendToFirstLeaf.simps) simp

text \<open>What an append did to a subtree: it put \<open>ids\<close> at one place among the views, or nothing.\<close>

definition appendedViews :: "string list \<Rightarrow> string list \<Rightarrow> string list \<Rightarrow> bool" where
  "appendedViews ids old new \<longleftrightarrow> (\<exists>xs ys. old = xs @ ys \<and> new = xs @ ids @ ys)"

definition appendOk :: "string list \<Rightarrow> json \<Rightarrow> json \<times> bool \<Rightarrow> bool" where
  "appendOk ids v r \<longleftrightarrow>
     (if snd r then appendedViews ids (collectViewIdsFromGrid v) (collectViewIdsFromGrid (fst r)) else fst r = v)"

lemma appendedViews_pre: "appendedViews ids old new \<Longrightarrow> appendedViews ids (zs @ old) (zs @ new)"
  unfolding appendedViews_def by (metis append_assoc)

lemma appendedViews_post: "appendedViews ids old new \<Longrightarrow> appendedViews ids (old @ zs) (new @ zs)"
  unfolding appendedViews_def by (metis append_assoc)

abbreviation appendStep :: "string list \<Rightarrow> json \<Rightarrow> json list \<times> bool \<Rightarrow> json list \<times> bool" where
  "appendStep ids c p \<equiv> (case p of (acc, b) \<Rightarrow> let (c', b') = appendToFirstLeaf ids c b in (acc @ [c'], b'))"

lemma append_fold_done: "fold (appendStep ids) cs (acc, True) = (acc @ cs, True)"
  by (induction cs arbitrary: acc) simp_all

lemma append_fold:
  assumes "\<And>c. c \<in> set cs \<Longrightarrow> appendOk ids c (appendToFirstLeaf ids c False)"
  shows "\<exists>ds b. fold (appendStep ids) cs (acc, False) = (acc @ ds, b) \<and>
     (if b then appendedViews ids (concat (map collectViewIdsFromGrid cs)) (concat (map collectViewIdsFromGrid ds))
      else ds = cs)"
  using assms
proof (induction cs arbitrary: acc)
  case (Cons c cs)
  obtain c' b where c: "appendToFirstLeaf ids c False = (c', b)" by (metis surj_pair)
  have ok: "appendOk ids c (c', b)" using Cons.prems [of c] c by simp
  show ?case
  proof (cases b)
    case True
    then have "appendedViews ids (collectViewIdsFromGrid c) (collectViewIdsFromGrid c')"
      using ok by (simp add: appendOk_def)
    then have "appendedViews ids (concat (map collectViewIdsFromGrid (c # cs))) (concat (map collectViewIdsFromGrid (c' # cs)))"
      by (simp add: appendedViews_post)
    moreover have "fold (appendStep ids) (c # cs) (acc, False) = (acc @ (c' # cs), True)"
      using c True append_fold_done [of ids cs "acc @ [c']"] by simp
    ultimately show ?thesis by (metis (full_types))
  next
    case False
    then have same: "c' = c" using ok by (simp add: appendOk_def)
    obtain ds b' where ds: "fold (appendStep ids) cs (acc @ [c], False) = ((acc @ [c]) @ ds, b')"
      "if b' then appendedViews ids (concat (map collectViewIdsFromGrid cs)) (concat (map collectViewIdsFromGrid ds)) else ds = cs"
      using Cons.IH [of "acc @ [c]"] Cons.prems by auto
    have "fold (appendStep ids) (c # cs) (acc, False) = (acc @ (c # ds), b')"
      using c False same ds(1) by simp
    moreover have "if b' then appendedViews ids (concat (map collectViewIdsFromGrid (c # cs)))
        (concat (map collectViewIdsFromGrid (c # ds))) else c # ds = c # cs"
      using ds(2) by (simp add: appendedViews_pre split: if_split_asm)
    ultimately show ?thesis by blast
  qed
qed auto

lemma appendToFirstLeaf_ok: "appendOk ids v (appendToFirstLeaf ids v False)"
proof (induction v rule: measure_induct_rule [of size])
  case (less v)
  have plain: "appendOk ids v (v, False)" by (simp add: appendOk_def)
  show ?case
  proof (cases v)
    case (JObj m)
    show ?thesis
    proof (cases "jget m ''data''")
      case None then show ?thesis using plain by (simp add: JObj appendToFirstLeaf_simps)
    next
      case (Some d)
      show ?thesis
      proof (cases d)
        case (JArr cs)
        have "\<And>c. c \<in> set cs \<Longrightarrow> appendOk ids c (appendToFirstLeaf ids c False)"
          using less size_data_child [of m "''data''" cs] Some JArr JObj by blast
        from append_fold [OF this, of cs "[]"] obtain ds b where
          f: "fold (appendStep ids) cs ([], False) = (ds, b)" and
          b: "if b then appendedViews ids (concat (map collectViewIdsFromGrid cs)) (concat (map collectViewIdsFromGrid ds))
              else ds = cs" by auto
        have "appendToFirstLeaf ids v False = (JObj (jset ''data'' (JArr ds) m), b)"
          using f by (simp add: JObj appendToFirstLeaf_simps Some JArr)
        then show ?thesis using b Some JArr by (auto simp: appendOk_def JObj jset_same split: if_split_asm)
      next
        case (JObj d')
        then have "appendToFirstLeaf ids v False = (JObj (jset ''data'' (JObj (jset ''views''
             (JArr ((case jget d' ''views'' of Some (JArr vs) \<Rightarrow> vs | _ \<Rightarrow> []) @ map JStr ids)) d')) m), True)"
          by (simp add: \<open>v = _\<close> appendToFirstLeaf_simps Some)
        moreover have "collectViewIdsFromGrid v = stringsOf (case jget d' ''views'' of Some (JArr vs) \<Rightarrow> vs | _ \<Rightarrow> [])"
          by (cases "jget d' ''views''"; cases "the (jget d' ''views'')")
             (simp_all add: \<open>v = _\<close> Some JObj viewIdsOfGroupState_def isRecord_def)
        ultimately show ?thesis
          by (simp add: appendOk_def appendedViews_def viewIdsOfGroupState_def isRecord_def stringsOf_append)
             (metis append_Nil2)
      qed (use plain in \<open>simp_all add: JObj appendToFirstLeaf_simps Some\<close>)
    qed
  qed (use plain in \<open>simp_all add: appendToFirstLeaf.simps\<close>)
qed


lemma append_needs_leaf: "\<not> snd (appendToFirstLeaf ids v False) \<Longrightarrow> collectViewIdsFromGrid v = []"
proof (induction v rule: measure_induct_rule [of size])
  case (less v)
  show ?case
  proof (cases v)
    case (JObj m)
    show ?thesis
    proof (cases "jget m ''data''")
      case (Some d)
      show ?thesis
      proof (cases d)
        case (JArr cs)
        have stay: "fold (appendStep ids) xs (acc, False) = (bs, False) \<Longrightarrow> c \<in> set xs \<Longrightarrow>
            \<not> snd (appendToFirstLeaf ids c False)" for xs acc bs c
        proof (induction xs arbitrary: acc)
          case (Cons x xs)
          obtain x' b where x: "appendToFirstLeaf ids x False = (x', b)" by (metis surj_pair)
          have b: "\<not> b" using Cons.prems(1) x append_fold_done [of ids xs "acc @ [x']"] by (cases b) simp_all
          show ?case using Cons.prems Cons.IH [of "acc @ [x']"] x b by auto
        qed simp
        obtain bs b where f: "fold (appendStep ids) cs ([], False) = (bs, b)" by (metis surj_pair)
        then have "appendToFirstLeaf ids v False = (JObj (jset ''data'' (JArr bs) m), b)"
          by (simp add: JObj appendToFirstLeaf_simps Some JArr)
        then have "\<not> b" using less.prems by simp
        then have no: "\<not> snd (appendToFirstLeaf ids c False)" if "c \<in> set cs" for c
          using stay [of cs "[]" bs c] f that by simp
        have "size c < size v" if "c \<in> set cs" for c
          using size_data_child [OF _ that, of m "''data''"] Some JArr JObj by simp
        then have "\<forall>c \<in> set cs. collectViewIdsFromGrid c = []" using less.IH no by blast
        then show ?thesis by (simp add: JObj Some JArr)
      next
        case (JObj d') then show ?thesis using less.prems by (simp add: \<open>v = _\<close> appendToFirstLeaf_simps Some)
      qed (simp_all add: JObj Some viewIdsOfGroupState_def isRecord_def)
    qed (simp add: JObj)
  qed simp_all
qed

lemma fold_panels_get: "i \<notin> lp_id ` set ls \<Longrightarrow> jget (fold (\<lambda>l acc. jset (lp_id l) (F l) acc) ls p) i = jget p i"
  by (induction ls arbitrary: p) auto

lemma fold_panels_keys: "set (jkeys (fold (\<lambda>l acc. jset (lp_id l) (F l) acc) ls p)) = set (jkeys p) \<union> lp_id ` set ls"
  by (induction ls arbitrary: p) auto

text \<open>The ids that get a new view: panes with neither a panel nor a view, in membership order.\<close>

definition forgottenIds :: "(string, json) jmap \<Rightarrow> json \<Rightarrow> layout_pane list \<Rightarrow> string list" where
  "forgottenIds p rt panes =
     map lp_id (filter (\<lambda>l. lp_id l \<notin> set (jkeys p) \<and> lp_id l \<notin> set (collectViewIdsFromGrid rt)) panes)"

text \<open>
  Saving a layout never forgets a pane: once a layout shows anything at all, the stored one has a
  panel for every pane of the workspace, the panels it had are untouched, and the panes it did not
  show are added together, in membership order, at one place among the views, whose order is kept.
\<close>

theorem backfill_complete:
  assumes "layout = JObj m" and "jget m ''panels'' = Some (JObj p)" and "layoutRoot layout = Some rt"
    and "collectViewIdsFromGrid rt \<noteq> []"
  shows "\<exists>p' rt'. panelIdsInLayout (backfillLayout layout panes) = jkeys p' \<and>
     layoutRoot (backfillLayout layout panes) = Some rt' \<and>
     set (jkeys p') = set (jkeys p) \<union> lp_id ` set panes \<and>
     (\<forall>i \<in> set (jkeys p). jget p' i = jget p i) \<and>
     appendedViews (forgottenIds p rt panes) (collectViewIdsFromGrid rt) (collectViewIdsFromGrid rt')"
proof -
  obtain g where g: "jget m ''grid'' = Some (JObj g)" "jget g ''root'' = Some rt"
    using assms(3) unfolding layoutRoot_def assms(1) by (auto split: option.splits json.splits)
  let ?missing = "filter (\<lambda>l. lp_id l \<notin> set (jkeys p)) panes"
  let ?panels = "fold (\<lambda>l acc. jset (lp_id l) (backfillPanel l) acc) ?missing p"
  have ids: "map lp_id (filter (\<lambda>l. lp_id l \<notin> set (collectViewIdsFromGrid rt)) ?missing) = forgottenIds p rt panes"
    by (simp add: forgottenIds_def conj_commute)
  have keys: "set (jkeys ?panels) = set (jkeys p) \<union> lp_id ` set panes" unfolding fold_panels_keys by auto
  have get: "\<forall>i \<in> set (jkeys p). jget ?panels i = jget p i" by (intro ballI fold_panels_get) (auto simp del: set_map)
  obtain rt' b where app: "appendToFirstLeaf (forgottenIds p rt panes) rt False = (rt', b)" by (metis surj_pair)
  have b: "b" using append_needs_leaf [of "forgottenIds p rt panes" rt] app assms(4) by auto
  have views: "appendedViews (forgottenIds p rt panes) (collectViewIdsFromGrid rt) (collectViewIdsFromGrid rt')"
    using appendToFirstLeaf_ok [of "forgottenIds p rt panes" rt] app b by (simp add: appendOk_def)
  have same: "appendedViews [] vs vs" for vs by (auto simp: appendedViews_def)
  have r: "backfillLayout layout panes =
     (if ?missing = [] then layout
      else if forgottenIds p rt panes = [] then JObj (jset ''panels'' (JObj ?panels) m)
      else JObj (jset ''panels'' (JObj ?panels) (jset ''grid'' (JObj (jset ''root'' rt' g)) m)))"
    unfolding backfillLayout_def assms(1) json.case assms(2) g prod.case option.case Let_def ids
    using app b by (simp add: forgottenIds_def)
  consider "?missing = []" | "?missing \<noteq> []" "forgottenIds p rt panes = []"
    | "?missing \<noteq> []" "forgottenIds p rt panes \<noteq> []" by blast
  then show ?thesis
  proof cases
    case 1
    then have "forgottenIds p rt panes = []" "lp_id ` set panes \<subseteq> set (jkeys p)"
      by (auto simp: forgottenIds_def filter_empty_conv)
    then show ?thesis unfolding r using 1 assms(1-3) same by (auto simp: panelIdsInLayout_def isRecord_def)
  next
    case 2
    then show ?thesis unfolding r if_not_P [OF 2(1)] if_P [OF 2(2)]
      using keys get same g by (auto simp: panelIdsInLayout_def isRecord_def layoutRoot_def simp del: set_map)
  next
    case 3
    then show ?thesis unfolding r if_not_P [OF 3(1)] if_not_P [OF 3(2)]
      using keys get views by (auto simp: panelIdsInLayout_def isRecord_def layoutRoot_def simp del: set_map)
  qed
qed

theorem backfill_complete_witness:
  "\<exists>rt'. layoutRoot (backfillLayout demo_layout [\<lparr>lp_id = ''c'', lp_title = ''new''\<rparr>]) = Some rt' \<and>
     appendedViews [''c''] [''b'', ''b'', ''a'', ''preview:a:screen''] (collectViewIdsFromGrid rt')"
proof -
  obtain m p rt where d: "demo_layout = JObj m" "jget m ''panels'' = Some (JObj p)" "layoutRoot demo_layout = Some rt"
    "collectViewIdsFromGrid rt = [''b'', ''b'', ''a'', ''preview:a:screen'']" "jkeys p = [''a'', ''b'', ''preview:a:screen'']"
    by (simp add: demo_layout_def layoutRoot_def viewIdsOfGroupState_def isRecord_def)
  have "forgottenIds p rt [\<lparr>lp_id = ''c'', lp_title = ''new''\<rparr>] = [''c'']" by (simp add: forgottenIds_def d del: set_map)
  then show ?thesis using backfill_complete [OF d(1-3), of "[\<lparr>lp_id = ''c'', lp_title = ''new''\<rparr>]"] d(4) by auto
qed


section \<open>Nothing dangles\<close>

lemma dropIf_absent: "\<not> P \<Longrightarrow> dropIf P k m = m" and dropIf_gone: "P \<Longrightarrow> jget (dropIf P k m) k = None"
  by (simp_all add: dropIf_def)

lemma dropIf_other: "k' \<noteq> k \<Longrightarrow> jget (dropIf P k m) k' = jget m k'"
  by (simp add: dropIf_def)

lemma dropIf_at: "jget (dropIf P k m) k = (if P then None else jget m k)"
  by (simp add: dropIf_def)

lemma repair_at:
  "jget (repairActiveGroup root m res) ''activeGroup'' = Some (JStr g) \<Longrightarrow>
   jget res ''activeGroup'' = jget m ''activeGroup'' \<Longrightarrow> g \<in> set (collectGroupIds root)"
  unfolding repairActiveGroup_def
  by (cases "jget m ''activeGroup''"; cases "the (jget m ''activeGroup'')"; cases "collectGroupIds root")
     (auto split: if_split_asm)

text \<open>
  Once a panel vanished nothing in the layout refers to it any more: the focused group is a group
  of the repaired grid, and a floating, popout or edge area that still named a vanished panel is gone.
  Fields the server does not interpret are handed back as they were.
\<close>

theorem prune_leaves_nothing_dangling:
  assumes "pruneLayout cfg (JObj m) live = Some r"
    and "\<exists>i \<in> set (panelIdsInLayout (JObj m)). \<not> allowedPanel cfg live i"
  shows "(\<forall>rt g. layoutRoot (JObj r) = Some rt \<and> jget r ''activeGroup'' = Some (JStr g) \<longrightarrow>
            g \<in> set (collectGroupIds rt)) \<and>
     \<not> windowsStale (set (panelIdsInLayout (JObj r))) r ''floatingGroups'' \<and>
     \<not> windowsStale (set (panelIdsInLayout (JObj r))) r ''popoutGroups'' \<and>
     \<not> edgesStale (set (panelIdsInLayout (JObj r))) r \<and>
     (\<forall>k. k \<notin> {''panels'', ''grid'', ''activeGroup'', ''floatingGroups'', ''popoutGroups'', ''edgeGroups''} \<longrightarrow>
        jget r k = jget m k)"
proof -
  obtain p g rt root where r: "jget m ''panels'' = Some (JObj p)"
    "jget m ''grid'' = Some (JObj g)"
    "jget r ''panels'' = Some (JObj (fold (\<lambda>i acc. jset i (prunedPanel cfg p i) acc)
                                          (filter (allowedPanel cfg live) (jkeys p)) []))"
    "jget r ''grid'' = Some (JObj (jset ''root'' root g))"
    "length (filter (allowedPanel cfg live) (jkeys p)) \<noteq> length (jkeys p) \<Longrightarrow>
       r = (let keep = set (filter (allowedPanel cfg live) (jkeys p)) in
            dropIf (edgesStale keep m) ''edgeGroups''
              (dropIf (windowsStale keep m ''popoutGroups'') ''popoutGroups''
                (dropIf (windowsStale keep m ''floatingGroups'') ''floatingGroups''
                  (repairActiveGroup root m
                    (jset ''panels'' (JObj (fold (\<lambda>i acc. jset i (prunedPanel cfg p i) acc)
                                       (filter (allowedPanel cfg live) (jkeys p)) []))
                      (jset ''grid'' (JObj (jset ''root'' root g)) m))))))"
    by (rule pruneLayout_Some [OF assms(1)]) blast
  let ?sv = "filter (allowedPanel cfg live) (jkeys p)"
  let ?res = "jset ''panels'' (JObj (fold (\<lambda>i acc. jset i (prunedPanel cfg p i) acc) ?sv []))
                (jset ''grid'' (JObj (jset ''root'' root g)) m)"
  have "\<exists>i \<in> set (jkeys p). \<not> allowedPanel cfg live i"
    using assms(2) by (simp add: panelIdsInLayout_def isRecord_def r(1) del: set_map)
  then have "length ?sv < length (jkeys p)" by (metis length_filter_less)
  then have eq: "r = dropIf (edgesStale (set ?sv) m) ''edgeGroups''
              (dropIf (windowsStale (set ?sv) m ''popoutGroups'') ''popoutGroups''
                (dropIf (windowsStale (set ?sv) m ''floatingGroups'') ''floatingGroups''
                  (repairActiveGroup root m ?res)))"
    using r(5) by (simp add: Let_def)
  have keys: "set (panelIdsInLayout (JObj r)) = set ?sv"
    by (simp only: panelIdsInLayout_def isRecord_def json.case option.case r(3) set_map fold_jset_keys) simp
  have rt: "layoutRoot (JObj r) = Some root" by (simp add: layoutRoot_def r(4))
  have "g' \<in> set (collectGroupIds root)" if "jget r ''activeGroup'' = Some (JStr g')" for g'
    by (rule repair_at [of root m ?res]) (use that in \<open>simp_all add: eq dropIf_other\<close>)
  moreover have "\<not> windowsStale (set ?sv) r ''floatingGroups''" "\<not> windowsStale (set ?sv) r ''popoutGroups''"
    "\<not> edgesStale (set ?sv) r"
  proof -
    have "jget r ''floatingGroups'' = (if windowsStale (set ?sv) m ''floatingGroups'' then None else jget m ''floatingGroups'')"
      "jget r ''popoutGroups'' = (if windowsStale (set ?sv) m ''popoutGroups'' then None else jget m ''popoutGroups'')"
      "jget r ''edgeGroups'' = (if edgesStale (set ?sv) m then None else jget m ''edgeGroups'')"
      by (simp_all only: eq dropIf_other dropIf_at list.inject char.inject simp_thms repair_other) simp_all
    then show "\<not> windowsStale (set ?sv) r ''floatingGroups''" "\<not> windowsStale (set ?sv) r ''popoutGroups''"
      "\<not> edgesStale (set ?sv) r"
      by (auto simp: windowsStale_def edgesStale_def split: if_split_asm)
  qed
  moreover have "jget r k = jget m k"
    if "k \<notin> {''panels'', ''grid'', ''activeGroup'', ''floatingGroups'', ''popoutGroups'', ''edgeGroups''}" for k
    using that by (simp add: eq dropIf_other repair_other)
  ultimately show ?thesis by (simp only: keys rt) blast
qed

theorem prune_leaves_nothing_dangling_witness:
  "\<exists>r. pruneLayout (\<lambda>_. None) demo_layout {''a''} = Some r \<and> \<not> edgesStale (set (panelIdsInLayout (JObj r))) r"
proof -
  obtain r where r: "pruneLayout (\<lambda>_. None) demo_layout {''a''} = Some r" using demo_pruned by blast
  obtain m where m: "demo_layout = JObj m" by (simp add: demo_layout_def)
  have "\<exists>i \<in> set (panelIdsInLayout demo_layout). \<not> allowedPanel (\<lambda>_. None) {''a''} i"
    by (simp add: panelIdsInLayout_def demo_layout_def isRecord_def allowedPanel_def parseWorkspacePreviewId_def
        parsePreviewBase_def)
  then show ?thesis using prune_leaves_nothing_dangling [of "\<lambda>_. None" m "{''a''}" r] r m by auto
qed

section \<open>Preview ids read back\<close>

lemma findSub_Some: "findSub pat xs = Some (a, b) \<Longrightarrow> xs = a @ pat @ b"
proof (induction xs arbitrary: a)
  case (Cons x xs)
  then show ?case
    by (auto split: if_split_asm) (metis append_take_drop_id)
qed (simp split: if_split_asm)

lemma splitOn_append_sep: "splitOn c (xs @ c # ys) = splitOn c xs @ splitOn c ys"
  by (induction xs) (auto split: list.split)

lemma no_config:
  assumes "\<forall>w \<in> set ws. CHR '':'' \<notin> set w \<and> w \<noteq> ''config''" "ws \<noteq> []"
  shows "findSub '':config:'' (joinWith CHR '':'' ws) = None"
proof (rule ccontr)
  assume "findSub '':config:'' (joinWith CHR '':'' ws) \<noteq> None"
  then obtain a b where "findSub '':config:'' (joinWith CHR '':'' ws) = Some (a, b)" by auto
  from findSub_Some [OF this] have j: "joinWith CHR '':'' ws = a @ CHR '':'' # ''config'' @ CHR '':'' # b" by simp
  have "ws = splitOn CHR '':'' (joinWith CHR '':'' ws)" using assms by (simp add: splitOn_joinWith)
  also have "\<dots> = splitOn CHR '':'' a @ ''config'' # splitOn CHR '':'' b"
    unfolding j splitOn_append_sep by (simp add: splitOn_fresh)
  finally have "''config'' \<in> set ws" by auto
  then show False using assms(1) by blast
qed

fun validView :: "preview_view \<Rightarrow> bool" where
  "validView (PvApp port c) \<longleftrightarrow> 0 < port \<and> port \<le> 65535 \<and> c = None"
| "validView (PvService u port rv c) \<longleftrightarrow>
     is_uuid u \<and> 0 < port \<and> port \<le> 65535 \<and> (\<forall>r. rv = Some r \<longrightarrow> r \<le> MAX_SAFE_INTEGER) \<and> c = None"
| "validView PvScreen \<longleftrightarrow> True"
| "validView PvBrowser \<longleftrightarrow> True"

lemma zero_char: "CHR ''0'' = digit_char 0"
  by (simp add: digit_char_def char_of_def bit_iff_odd)

lemma is_port_text_digits: "0 < p \<Longrightarrow> p \<le> 65535 \<Longrightarrow> is_port_text (to_digits 10 p)"
  using length_to_digits [of 10 p 5] to_digits_digits [of 10 _ p] to_digits_hd [of 10 p]
  by (auto simp: is_port_text_def zero_char)

lemma is_revision_text_digits: "r \<le> MAX_SAFE_INTEGER \<Longrightarrow> is_revision_text (to_digits 10 r)"
  using length_to_digits [of 10 r 16] to_digits_digits [of 10 _ r] to_digits_hd [of 10 r]
  by (cases "r = 0") (auto simp: is_revision_text_def zero_char MAX_SAFE_INTEGER_def to_digits.simps [of 10 0])

lemma digits_no_colon: "CHR '':'' \<notin> set (to_digits 10 n)"
  using to_digits_digits [of 10 "CHR '':''" n] by (auto simp: is_digit_def)

lemma digits_not_config: "to_digits 10 n \<noteq> ''config''"
  using to_digits_digits [of 10 "CHR ''c''" n] by (auto simp: is_digit_def)

lemma uuid_no_colon: "is_uuid u \<Longrightarrow> CHR '':'' \<notin> set u"
proof
  assume u: "is_uuid u" "CHR '':'' \<in> set u"
  have "set u \<subseteq> insert CHR ''-'' (\<Union>(set ` set (splitOn CHR ''-'' u)))"
    using set_joinWith [of "CHR ''-''" "splitOn CHR ''-'' u"] by (simp only: joinWith_splitOn)
  then obtain w where "w \<in> set (splitOn CHR ''-'' u)" "CHR '':'' \<in> set w" using u(2) by auto
  then have "lower_hex CHR '':''" using u(1) by (auto simp: is_uuid_def)
  then show False by (simp add: lower_hex_def is_digit_def)
qed

lemma uuid_not_config: "is_uuid u \<Longrightarrow> u \<noteq> ''config''"
  by (auto simp: is_uuid_def)

text \<open>The segments of a preview id.\<close>

fun previewSegments :: "string \<Rightarrow> preview_view \<Rightarrow> string list" where
  "previewSegments pane (PvApp port _) = [''preview'', pane, ''app'', to_digits 10 port]"
| "previewSegments pane (PvService u port rv _) = [''preview'', pane, ''service'', u, to_digits 10 port] @
     (case rv of None \<Rightarrow> [] | Some r \<Rightarrow> [''revision'', to_digits 10 r])"
| "previewSegments pane PvScreen = [''preview'', pane, ''screen'']"
| "previewSegments pane PvBrowser = [''preview'', pane, ''browser'']"

lemma workspacePreviewId_segments: "workspacePreviewId pane v = joinWith CHR '':'' (previewSegments pane v)"
  by (cases v) (auto split: option.split)

lemma previewSegments_ok:
  assumes "validView v" "CHR '':'' \<notin> set pane" "pane \<noteq> ''config''"
  shows "\<forall>w \<in> set (previewSegments pane v). CHR '':'' \<notin> set w \<and> w \<noteq> ''config''"
  using assms
  by (cases v) (auto simp: digits_no_colon digits_not_config uuid_not_config dest: uuid_no_colon split: option.splits)

text \<open>
  The id of a preview panel names its owner and its view: reading the id of a valid view back
  yields exactly the pane and the view it was made from, so a saved panel is never attributed to
  another pane.
\<close>

theorem preview_id_roundtrip:
  assumes "validView v" and "pane \<noteq> []" and "CHR '':'' \<notin> set pane" and "pane \<noteq> ''config''"
  shows "parseWorkspacePreviewId cfg (workspacePreviewId pane v) = Some (pane, v)"
proof -
  note seg = previewSegments_ok [OF assms(1,3,4)]
  have ne: "previewSegments pane v \<noteq> []" by (cases v) simp_all
  have split: "splitOn CHR '':'' (workspacePreviewId pane v) = previewSegments pane v"
    unfolding workspacePreviewId_segments by (rule splitOn_joinWith [OF ne]) (use seg in blast)
  have "parsePreviewBase (workspacePreviewId pane v) = Some (pane, v)"
    unfolding parsePreviewBase_def split
    using assms by (cases v)
      (auto simp: is_port_text_digits of_to_digits is_revision_text_digits servicePreview_def split: option.splits)
  then show ?thesis
    unfolding parseWorkspacePreviewId_def workspacePreviewId_segments no_config [OF seg ne] by simp
qed

theorem preview_id_roundtrip_witness:
  "parseWorkspacePreviewId (\<lambda>_. None) (workspacePreviewId ''p1'' (PvApp 8080 None)) = Some (''p1'', PvApp 8080 None)"
  by (rule preview_id_roundtrip) simp_all

end
