(* ===== verification/SharedGrid.thy ===== *)
theory SharedGrid
  imports Prelude
begin

text \<open>
  \<open>packages/subshell-protocol/src/shared-geometry.ts\<close>: one tmux pane has one grid, and this rule
  decides it from the capacities of all attached viewers and the operator's sizing policy.
\<close>

section \<open>Data\<close>

record grid =
  g_cols :: int
  g_rows :: int

text \<open>
  A reported axis is any JavaScript number; the code only distinguishes the integers from the rest
  (\<open>NaN\<close>, infinities, fractions) by \<open>Number.isInteger\<close>.
\<close>

datatype jsnum = IntNum int | NonIntNum

record viewer_capacity =
  vc_id :: string
  vc_capacity :: "(jsnum \<times> jsnum) option"
  vc_hidden :: bool
  vc_canInput :: "bool option"

datatype sizing_mode = Auto | Pinned

record sizing_policy =
  mode :: sizing_mode
  pinnedViewerId :: "string option"

definition DEFAULT_SIZING :: sizing_policy where
  "DEFAULT_SIZING = \<lparr>mode = Auto, pinnedViewerId = None\<rparr>"

definition MIN_SHARED_COLS :: int where "MIN_SHARED_COLS = 20"

definition MIN_SHARED_ROWS :: int where "MIN_SHARED_ROWS = 5"

definition isUsable :: "grid \<Rightarrow> bool" where
  "isUsable g \<longleftrightarrow> g_cols g \<ge> MIN_SHARED_COLS \<and> g_rows g \<ge> MIN_SHARED_ROWS"

text \<open>The narrowed viewer: one that reported a positive integral grid.\<close>

record sized_viewer =
  sv_id :: string
  sv_capacity :: grid
  sv_hidden :: bool
  sv_canInput :: "bool option"

fun isSized :: "viewer_capacity \<Rightarrow> sized_viewer option" where
  "isSized v = (case vc_capacity v of
      Some (IntNum c, IntNum r) \<Rightarrow>
        (if c > 0 \<and> r > 0
         then Some \<lparr>sv_id = vc_id v, sv_capacity = \<lparr>g_cols = c, g_rows = r\<rparr>,
                    sv_hidden = vc_hidden v, sv_canInput = vc_canInput v\<rparr>
         else None)
    | _ \<Rightarrow> None)"

datatype pick = PickMin | PickMax

fun better :: "pick \<Rightarrow> int \<Rightarrow> int \<Rightarrow> int" where
  "better PickMin a b = min a b"
| "better PickMax a b = max a b"

datatype grid_reason = ReasonPinned | ReasonSmallest | ReasonFallback

record grid_decision =
  gd_grid :: grid
  gd_cols :: "string list"
  gd_rows :: "string list"
  gd_reason :: grid_reason

section \<open>The decision\<close>

definition extremeOf :: "sized_viewer list \<Rightarrow> pick \<Rightarrow> grid_reason \<Rightarrow> grid_decision" where
  "extremeOf viewers p reason =
     (let first = sv_capacity (hd viewers);
          g = foldl (\<lambda>acc v. \<lparr>g_cols = better p (g_cols acc) (g_cols (sv_capacity v)),
                               g_rows = better p (g_rows acc) (g_rows (sv_capacity v))\<rparr>) first viewers
      in \<lparr>gd_grid = g,
          gd_cols = map sv_id (filter (\<lambda>v. g_cols (sv_capacity v) = g_cols g) viewers),
          gd_rows = map sv_id (filter (\<lambda>v. g_rows (sv_capacity v) = g_rows g) viewers),
          gd_reason = reason\<rparr>)"

text \<open>The three rungs of \<open>decideSharedGrid\<close>, strongest claim first.\<close>

definition sharedRungs :: "sized_viewer list \<Rightarrow> sized_viewer list list" where
  "sharedRungs valid =
     [filter (\<lambda>v. \<not> sv_hidden v \<and> sv_canInput v \<noteq> Some False) valid,
      filter (\<lambda>v. \<not> sv_hidden v) valid,
      valid]"

definition usableOf :: "sized_viewer list \<Rightarrow> sized_viewer list" where
  "usableOf rung = filter (\<lambda>v. isUsable (sv_capacity v)) rung"

fun firstUsableRung :: "sized_viewer list list \<Rightarrow> sized_viewer list option" where
  "firstUsableRung [] = None"
| "firstUsableRung (r # rs) = (if usableOf r \<noteq> [] then Some (usableOf r) else firstUsableRung rs)"

definition autoDecision :: "sized_viewer list \<Rightarrow> grid_decision" where
  "autoDecision valid =
     (case firstUsableRung (sharedRungs valid) of
        Some usable \<Rightarrow> extremeOf usable PickMin ReasonSmallest
      | None \<Rightarrow>
          (let considered = (case find (\<lambda>r. r \<noteq> []) (sharedRungs valid) of
                               Some r \<Rightarrow> r | None \<Rightarrow> valid)
           in extremeOf considered PickMax ReasonFallback))"

definition pinnedViewer :: "sized_viewer list \<Rightarrow> sizing_policy \<Rightarrow> sized_viewer option" where
  "pinnedViewer valid policy =
     (case (mode policy, pinnedViewerId policy) of
        (Pinned, Some pid) \<Rightarrow> (if pid = [] then None else find (\<lambda>v. sv_id v = pid) valid)
      | _ \<Rightarrow> None)"

definition decideSharedGrid :: "viewer_capacity list \<Rightarrow> sizing_policy \<Rightarrow> grid_decision option" where
  "decideSharedGrid viewers policy =
     (let valid = List.map_filter isSized viewers
      in if valid = [] then None
         else case pinnedViewer valid policy of
             Some p \<Rightarrow> Some \<lparr>gd_grid = sv_capacity p, gd_cols = [sv_id p], gd_rows = [sv_id p],
                              gd_reason = ReasonPinned\<rparr>
           | None \<Rightarrow> Some (autoDecision valid))"

definition resolveSharedGrid :: "viewer_capacity list \<Rightarrow> sizing_policy \<Rightarrow> grid option" where
  "resolveSharedGrid viewers policy = map_option gd_grid (decideSharedGrid viewers policy)"

section \<open>Lemmas on the extremes\<close>

lemma foldl_better_Min: "foldl (better PickMin) a xs = Min (insert a (set xs))"
proof (induction xs arbitrary: a)
  case (Cons x xs)
  show ?case
  proof (cases "xs = []")
    case False
    then show ?thesis using Cons by (simp add: min.left_commute min.commute min.assoc)
  qed (use Cons in simp)
qed simp

lemma foldl_better_Max: "foldl (better PickMax) a xs = Max (insert a (set xs))"
proof (induction xs arbitrary: a)
  case (Cons x xs)
  show ?case
  proof (cases "xs = []")
    case False
    then show ?thesis using Cons by (simp add: max.left_commute max.commute max.assoc)
  qed (use Cons in simp)
qed simp

fun extreme :: "pick \<Rightarrow> int set \<Rightarrow> int" where
  "extreme PickMin A = Min A"
| "extreme PickMax A = Max A"

lemma foldl_better: "foldl (better p) a xs = extreme p (insert a (set xs))"
  by (cases p) (simp_all add: foldl_better_Min foldl_better_Max)

lemma foldl_grid:
  "foldl (\<lambda>acc v. \<lparr>g_cols = better p (g_cols acc) (g_cols (sv_capacity v)),
                   g_rows = better p (g_rows acc) (g_rows (sv_capacity v))\<rparr>) g vs =
   \<lparr>g_cols = foldl (better p) (g_cols g) (map (g_cols \<circ> sv_capacity) vs),
    g_rows = foldl (better p) (g_rows g) (map (g_rows \<circ> sv_capacity) vs)\<rparr>"
  by (induction vs arbitrary: g) auto

definition colsOf :: "sized_viewer list \<Rightarrow> int set" where
  "colsOf vs = (\<lambda>v. g_cols (sv_capacity v)) ` set vs"

definition rowsOf :: "sized_viewer list \<Rightarrow> int set" where
  "rowsOf vs = (\<lambda>v. g_rows (sv_capacity v)) ` set vs"

lemma axes_finite [simp]: "finite (colsOf vs)" "finite (rowsOf vs)"
  by (simp_all add: colsOf_def rowsOf_def)

lemma axes_empty [simp]: "colsOf vs = {} \<longleftrightarrow> vs = []" "rowsOf vs = {} \<longleftrightarrow> vs = []"
  by (simp_all add: colsOf_def rowsOf_def)

lemma extremeOf_grid:
  assumes "vs \<noteq> []"
  shows "gd_grid (extremeOf vs p r) =
           \<lparr>g_cols = extreme p (colsOf vs), g_rows = extreme p (rowsOf vs)\<rparr>"
proof -
  from assms have "hd vs \<in> set vs" by simp
  then have "insert (g_cols (sv_capacity (hd vs))) ((g_cols \<circ> sv_capacity) ` set vs) = colsOf vs"
    and "insert (g_rows (sv_capacity (hd vs))) ((g_rows \<circ> sv_capacity) ` set vs) = rowsOf vs"
    by (auto simp: colsOf_def rowsOf_def)
  then show ?thesis
    by (simp add: extremeOf_def foldl_grid foldl_better Let_def)
qed

lemma extremeOf_reason [simp]: "gd_reason (extremeOf vs p r) = r"
  by (simp add: extremeOf_def Let_def)

lemma extremeOf_names:
  "gd_cols (extremeOf vs p r) =
     map sv_id (filter (\<lambda>v. g_cols (sv_capacity v) = g_cols (gd_grid (extremeOf vs p r))) vs)"
  "gd_rows (extremeOf vs p r) =
     map sv_id (filter (\<lambda>v. g_rows (sv_capacity v) = g_rows (gd_grid (extremeOf vs p r))) vs)"
  by (simp_all add: extremeOf_def Let_def)

section \<open>Order independence\<close>

text \<open>What a decision says, with the two name lists read as bags.\<close>

definition decisionView :: "grid_decision \<Rightarrow> grid \<times> grid_reason \<times> string multiset \<times> string multiset" where
  "decisionView d = (gd_grid d, gd_reason d, mset (gd_cols d), mset (gd_rows d))"

lemma extremeOf_cong:
  assumes "mset vs = mset ws"
  shows "decisionView (extremeOf vs p r) = decisionView (extremeOf ws p r)"
proof (cases "vs = []")
  case True
  with assms show ?thesis by simp
next
  case False
  from assms have s: "set vs = set ws" by (rule mset_eq_setD)
  with False have "ws \<noteq> []" by auto
  with False s have g: "gd_grid (extremeOf vs p r) = gd_grid (extremeOf ws p r)"
    by (simp add: extremeOf_grid colsOf_def rowsOf_def)
  have "mset (map sv_id (filter P vs)) = mset (map sv_id (filter P ws))" for P
    using assms by (intro map_mset_cong_list filter_mset_cong_list)
  with g show ?thesis
    by (simp add: decisionView_def extremeOf_names)
qed

lemma find_by_id:
  assumes "distinct (map sv_id vs)"
  shows "find (\<lambda>v. sv_id v = k) vs = Some v \<longleftrightarrow> v \<in> set vs \<and> sv_id v = k"
  using assms by (induction vs) (auto simp: image_iff)

lemma find_by_id_cong:
  assumes "mset vs = mset ws" "distinct (map sv_id vs)"
  shows "find (\<lambda>v. sv_id v = k) vs = find (\<lambda>v. sv_id v = k) ws"
proof -
  have "distinct (map sv_id ws)"
    using assms distinct_mset_cong map_mset_cong_list by blast
  moreover have "set vs = set ws" using assms(1) by (rule mset_eq_setD)
  ultimately have "find (\<lambda>v. sv_id v = k) vs = Some v \<longleftrightarrow> find (\<lambda>v. sv_id v = k) ws = Some v" for v
    by (simp add: find_by_id assms(2))
  then show ?thesis by (metis option.exhaust)
qed

lemma firstUsableRung_cong:
  assumes "list_all2 (\<lambda>r s. mset r = mset s) rs ss"
  shows "rel_option (\<lambda>r s. mset r = mset s) (firstUsableRung rs) (firstUsableRung ss)"
  using assms
proof (induction rs ss rule: list_all2_induct)
  case (Cons r rs s ss)
  then have "mset (usableOf r) = mset (usableOf s)"
    unfolding usableOf_def by (intro filter_mset_cong_list)
  with Cons show ?case using mset_Nil_cong by fastforce
qed simp

lemma sharedRungs_cong:
  "mset vs = mset ws \<Longrightarrow> list_all2 (\<lambda>r s. mset r = mset s) (sharedRungs vs) (sharedRungs ws)"
  unfolding sharedRungs_def by (simp add: filter_mset_cong_list)

lemma considered_cong:
  "list_all2 (\<lambda>r s. mset r = mset s) rs ss \<Longrightarrow>
     rel_option (\<lambda>r s. mset r = mset s) (find (\<lambda>r. r \<noteq> []) rs) (find (\<lambda>r. r \<noteq> []) ss)"
  by (induction rs ss rule: list_all2_induct) (auto dest: mset_Nil_cong)

lemma autoDecision_cong:
  assumes "mset vs = mset ws"
  shows "decisionView (autoDecision vs) = decisionView (autoDecision ws)"
  using firstUsableRung_cong [OF sharedRungs_cong [OF assms]]
    considered_cong [OF sharedRungs_cong [OF assms]] assms
  unfolding autoDecision_def
  by (auto simp: option_rel_Some1 option_rel_Some2 Let_def intro!: extremeOf_cong
      split: option.split)

lemma isSized_id: "isSized v = Some s \<Longrightarrow> sv_id s = vc_id v"
  by (auto split: option.splits prod.splits jsnum.splits if_splits)

lemma isSized_positive:
  "isSized v = Some s \<Longrightarrow> g_cols (sv_capacity s) > 0 \<and> g_rows (sv_capacity s) > 0"
  by (auto split: option.splits prod.splits jsnum.splits if_splits)

declare isSized.simps [simp del]

lemma set_map_filter_iff: "s \<in> set (List.map_filter f vs) \<longleftrightarrow> (\<exists>v\<in>set vs. f v = Some s)"
  by (induction vs) (auto simp: List.map_filter_simps split: option.splits)

lemma distinct_sized_ids:
  "distinct (map vc_id vs) \<Longrightarrow> distinct (map sv_id (List.map_filter isSized vs))"
  by (induction vs)
    (auto simp: List.map_filter_simps set_map_filter_iff image_iff isSized_id split: option.splits,
     metis isSized_id)

lemma decideSharedGrid_unpinned:
  assumes "valid = List.map_filter isSized viewers" "valid \<noteq> []" "pinnedViewer valid policy = None"
  shows "decideSharedGrid viewers policy = Some (autoDecision valid)"
  using assms by (simp add: decideSharedGrid_def)

lemma firstUsableRung_Some:
  "firstUsableRung rs = Some u \<Longrightarrow> \<exists>r\<in>set rs. u = usableOf r \<and> u \<noteq> []"
  by (induction rs) (auto split: if_splits)

lemma firstUsableRung_ex:
  "r \<in> set rs \<Longrightarrow> usableOf r \<noteq> [] \<Longrightarrow> firstUsableRung rs \<noteq> None"
  by (induction rs) auto

lemma Min_usable:
  assumes "u = usableOf r" "u \<noteq> []"
  shows "isUsable (gd_grid (extremeOf u PickMin x))"
proof -
  have "\<forall>v\<in>set u. isUsable (sv_capacity v)" using assms(1) by (simp add: usableOf_def)
  then have "\<forall>c\<in>colsOf u. MIN_SHARED_COLS \<le> c" "\<forall>c\<in>rowsOf u. MIN_SHARED_ROWS \<le> c"
    by (auto simp: isUsable_def colsOf_def rowsOf_def)
  then show ?thesis
    using assms(2) by (simp add: extremeOf_grid isUsable_def)
qed

section \<open>Properties\<close>

text \<open>
  The shared grid is a function of the set of attached viewers, not of the order they
  attached or spoke in: two orders of the same viewers give the same grid, the same reason and
  the same named devices on each axis, under every sizing policy.
\<close>

theorem shared_grid_order_independent:
  assumes "mset viewers = mset viewers'" and "distinct (map vc_id viewers)"
  shows "map_option decisionView (decideSharedGrid viewers policy) =
         map_option decisionView (decideSharedGrid viewers' policy)"
proof -
  let ?v = "List.map_filter isSized viewers" and ?w = "List.map_filter isSized viewers'"
  have m: "mset ?v = mset ?w" using assms(1) by (rule map_filter_mset_cong_list)
  have d: "distinct (map sv_id ?v)" using assms(2) by (rule distinct_sized_ids)
  have "pinnedViewer ?v policy = pinnedViewer ?w policy"
    unfolding pinnedViewer_def using find_by_id_cong [OF m d]
    by (simp split: sizing_mode.split option.split)
  then show ?thesis
    unfolding decideSharedGrid_def Let_def
    using mset_Nil_cong [OF m] autoDecision_cong [OF m]
    by (auto split: option.split)
qed

definition phone :: viewer_capacity where
  "phone = \<lparr>vc_id = ''phone'', vc_capacity = Some (IntNum 40, IntNum 60), vc_hidden = False,
             vc_canInput = Some True\<rparr>"

definition laptop :: viewer_capacity where
  "laptop = \<lparr>vc_id = ''laptop'', vc_capacity = Some (IntNum 120, IntNum 40), vc_hidden = False,
              vc_canInput = None\<rparr>"

theorem shared_grid_order_independent_witness:
  "map_option decisionView (decideSharedGrid [phone, laptop] DEFAULT_SIZING) =
   map_option decisionView (decideSharedGrid [laptop, phone] DEFAULT_SIZING)"
  by (rule shared_grid_order_independent) (simp_all add: phone_def laptop_def)

text \<open>
  Nobody clips and nobody who only watches decides: without an effective pin, when some visible
  device that may type reports a usable size, the grid is the per-axis minimum over exactly those
  devices, so each of them can display all of it, each axis is attained by one of them, and hidden
  viewers, \<open>view\<close> grantees and degenerate reports have no influence.
\<close>

theorem shared_grid_smallest_writer:
  assumes "valid = List.map_filter isSized viewers"
    and "pinnedViewer valid policy = None"
    and "deciders = filter (\<lambda>v. \<not> sv_hidden v \<and> sv_canInput v \<noteq> Some False \<and> isUsable (sv_capacity v)) valid"
    and "deciders \<noteq> []"
  shows "\<exists>d. decideSharedGrid viewers policy = Some d \<and> gd_reason d = ReasonSmallest \<and>
    gd_grid d = \<lparr>g_cols = Min (colsOf deciders), g_rows = Min (rowsOf deciders)\<rparr> \<and>
    (\<forall>v\<in>set deciders. g_cols (gd_grid d) \<le> g_cols (sv_capacity v) \<and>
                       g_rows (gd_grid d) \<le> g_rows (sv_capacity v))"
proof -
  have u: "usableOf (filter (\<lambda>v. \<not> sv_hidden v \<and> sv_canInput v \<noteq> Some False) valid) = deciders"
    using assms(3) by (auto simp: usableOf_def intro: filter_cong)
  have "valid \<noteq> []" using assms(3,4) by auto
  then have "decideSharedGrid viewers policy = Some (autoDecision valid)"
    using assms(1,2) by (intro decideSharedGrid_unpinned)
  moreover have "autoDecision valid = extremeOf deciders PickMin ReasonSmallest"
    using u assms(4) by (simp add: autoDecision_def sharedRungs_def)
  ultimately show ?thesis
    using assms(4) by (auto simp: extremeOf_grid colsOf_def rowsOf_def)
qed

definition hiddenTablet :: viewer_capacity where
  "hiddenTablet = \<lparr>vc_id = ''tablet'', vc_capacity = Some (IntNum 30, IntNum 10),
                    vc_hidden = True, vc_canInput = Some True\<rparr>"

theorem shared_grid_smallest_writer_witness:
  "\<exists>d. decideSharedGrid [phone, hiddenTablet, laptop] DEFAULT_SIZING = Some d \<and>
       gd_grid d = \<lparr>g_cols = 40, g_rows = 40\<rparr>"
  using shared_grid_smallest_writer
    [OF refl, of "[phone, hiddenTablet, laptop]" DEFAULT_SIZING, OF _ refl]
  by (auto simp: phone_def laptop_def hiddenTablet_def isSized.simps List.map_filter_simps
      pinnedViewer_def DEFAULT_SIZING_def isUsable_def MIN_SHARED_COLS_def MIN_SHARED_ROWS_def
      colsOf_def rowsOf_def)

text \<open>
  One mid-layout report never drags the pane to a strip: without an effective pin, as long as
  any attached viewer (visible or not, typing or not) has reported a usable size, the decided grid
  is itself usable.
\<close>

theorem shared_grid_never_degenerate:
  assumes "valid = List.map_filter isSized viewers"
    and "pinnedViewer valid policy = None"
    and "v \<in> set valid" and "isUsable (sv_capacity v)"
  shows "\<exists>g. resolveSharedGrid viewers policy = Some g \<and> isUsable g"
proof -
  have "valid \<noteq> []" using assms(3) by auto
  then have d: "decideSharedGrid viewers policy = Some (autoDecision valid)"
    using assms(1,2) by (intro decideSharedGrid_unpinned)
  have "usableOf valid \<noteq> []"
    using assms(3,4) unfolding usableOf_def by (metis filter_empty_conv)
  then obtain u where u: "firstUsableRung (sharedRungs valid) = Some u"
    using firstUsableRung_ex [of valid "sharedRungs valid"] by (auto simp: sharedRungs_def)
  then have "autoDecision valid = extremeOf u PickMin ReasonSmallest"
    by (simp add: autoDecision_def)
  moreover have "isUsable (gd_grid (extremeOf u PickMin ReasonSmallest))"
    using firstUsableRung_Some [OF u] Min_usable by blast
  ultimately show ?thesis by (simp add: resolveSharedGrid_def d)
qed

definition dragging :: viewer_capacity where
  "dragging = \<lparr>vc_id = ''drag'', vc_capacity = Some (IntNum 2, IntNum 1), vc_hidden = False,
                vc_canInput = Some True\<rparr>"

theorem shared_grid_never_degenerate_witness:
  "\<exists>g. resolveSharedGrid [hiddenTablet, dragging] DEFAULT_SIZING = Some g \<and> isUsable g"
  by (rule shared_grid_never_degenerate [OF refl, where v = "the (isSized hiddenTablet)"])
    (simp_all add: hiddenTablet_def dragging_def isSized.simps List.map_filter_simps
      pinnedViewer_def DEFAULT_SIZING_def isUsable_def MIN_SHARED_COLS_def MIN_SHARED_ROWS_def)

end
