(* ===== verification/GeometryQueue.thy ===== *)
theory GeometryQueue
  imports SharedGrid
begin

text \<open>
  \<open>apps/server/api/src/api/ws/pane-geometry.ts\<close>: the per-subshell resize queue.  At most one apply per
  entry is in flight, requests arriving meanwhile collapse to the last, and each settled size is read
  back and announced.
\<close>

section \<open>State\<close>

text \<open>
  The fields after \<open>ge_released\<close> record the history the properties speak of: the size the queue is
  heading for, whether something else moved the pane during the last apply, and whether that apply
  failed.  No operation reads them.
\<close>

record geo_entry =
  ge_busy :: bool
  ge_pending :: "grid option"
  ge_pendingSizer :: "nat option"
  ge_applied :: "grid option"
  ge_released :: bool
  ge_target :: "grid option"
  ge_mixed :: bool
  ge_failed :: bool

definition newEntry :: geo_entry where
  "newEntry = \<lparr>ge_busy = False, ge_pending = None, ge_pendingSizer = None, ge_applied = None, ge_released = False,
               ge_target = None, ge_mixed = False, ge_failed = False\<rparr>"

text \<open>One \<open>run\<close> of the drain, suspended at \<open>await sizer.apply\<close> or at \<open>await sizer.read\<close>.\<close>

datatype geo_phase = Applying | Reading

record geo_run =
  gr_key :: string
  gr_entry :: nat
  gr_size :: grid
  gr_sizer :: nat
  gr_phase :: geo_phase

text \<open>Entries are objects: a run keeps its own after \<open>release\<close> removed it from the map.\<close>

record geo_state =
  gq_entries :: "(string, nat) jmap"
  gq_entry :: "nat \<Rightarrow> geo_entry"
  gq_next :: nat
  gq_runs :: "(nat, geo_run) jmap"
  gq_nextRun :: nat
  gq_applies :: "(string \<times> nat \<times> grid) list"

definition geo_init :: geo_state where
  "geo_init = \<lparr>gq_entries = [], gq_entry = (\<lambda>_. newEntry), gq_next = 0, gq_runs = [], gq_nextRun = 0, gq_applies = []\<rparr>"

section \<open>Operations\<close>

definition updEntry :: "nat \<Rightarrow> (geo_entry \<Rightarrow> geo_entry) \<Rightarrow> geo_state \<Rightarrow> geo_state" where
  "updEntry e f s = s\<lparr>gq_entry := (gq_entry s)(e := f (gq_entry s e))\<rparr>"

definition entryFor :: "string \<Rightarrow> geo_state \<Rightarrow> nat \<times> geo_state" where
  "entryFor key s =
     (case jget (gq_entries s) key of
        Some e \<Rightarrow> (e, s)
      | None \<Rightarrow> (gq_next s, s\<lparr>gq_entries := jset key (gq_next s) (gq_entries s),
                              gq_entry := (gq_entry s)(gq_next s := newEntry),
                              gq_next := Suc (gq_next s)\<rparr>))"

text \<open>The call of \<open>sizer.apply\<close>.\<close>

definition callApply :: "nat \<Rightarrow> geo_run \<Rightarrow> geo_state \<Rightarrow> geo_state" where
  "callApply r run s =
     updEntry (gr_entry run) (\<lambda>en. en\<lparr>ge_mixed := False, ge_failed := False\<rparr>)
       (s\<lparr>gq_runs := jset r run (gq_runs s), gq_applies := gq_applies s @ [(gr_key run, gr_sizer run, gr_size run)]\<rparr>)"

definition startRun :: "string \<Rightarrow> nat \<Rightarrow> grid \<Rightarrow> nat \<Rightarrow> geo_state \<Rightarrow> geo_state" where
  "startRun key e sz sizer s =
     callApply (gq_nextRun s)
       \<lparr>gr_key = key, gr_entry = e, gr_size = sz, gr_sizer = sizer, gr_phase = Applying\<rparr>
       (updEntry e (\<lambda>en. en\<lparr>ge_busy := True\<rparr>) (s\<lparr>gq_nextRun := Suc (gq_nextRun s)\<rparr>))"

definition geoRequest :: "string \<Rightarrow> grid \<Rightarrow> nat \<Rightarrow> geo_state \<Rightarrow> geo_state" where
  "geoRequest key sz sizer s =
     (if g_cols sz \<le> 0 \<or> g_rows sz \<le> 0 then s
      else
        (let (e, s1) = entryFor key s; s2 = updEntry e (\<lambda>en. en\<lparr>ge_target := Some sz\<rparr>) s1 in
         if ge_busy (gq_entry s2 e)
         then updEntry e (\<lambda>en. en\<lparr>ge_pending := Some sz, ge_pendingSizer := Some sizer\<rparr>) s2
         else if ge_applied (gq_entry s2 e) = Some sz then s2
         else startRun key e sz sizer s2))"

definition geoSeed :: "string \<Rightarrow> grid \<Rightarrow> geo_state \<Rightarrow> geo_state" where
  "geoSeed key sz s =
     (if g_cols sz \<le> 0 \<or> g_rows sz \<le> 0 then s
      else
        (let (e, s1) = entryFor key s in
         updEntry e (\<lambda>en. en\<lparr>ge_applied := Some sz,
                            ge_target := (if ge_busy en then ge_target en else Some sz),
                            ge_mixed := ge_busy en, ge_failed := (ge_busy en \<and> ge_failed en)\<rparr>) s1))"

definition geoRelease :: "string \<Rightarrow> geo_state \<Rightarrow> geo_state" where
  "geoRelease key s =
     (let s1 = (case jget (gq_entries s) key of
                  None \<Rightarrow> s | Some e \<Rightarrow> updEntry e (\<lambda>en. en\<lparr>ge_released := True\<rparr>) s)
      in s1\<lparr>gq_entries := jdel key (gq_entries s1)\<rparr>)"

text \<open>The end of the drain and its \<open>finally\<close>.\<close>

definition finishRun :: "nat \<Rightarrow> nat \<Rightarrow> geo_state \<Rightarrow> geo_state" where
  "finishRun r e s = updEntry e (\<lambda>en. en\<lparr>ge_busy := False\<rparr>) (s\<lparr>gq_runs := jdel r (gq_runs s)\<rparr>)"

text \<open>What follows one attempt: stop, or go round with the size requested meanwhile.\<close>

definition afterAttempt :: "nat \<Rightarrow> geo_run \<Rightarrow> geo_state \<Rightarrow> geo_state" where
  "afterAttempt r run s =
     (let e = gr_entry run; en = gq_entry s e in
      if ge_released en then finishRun r e s
      else
        (let s1 = updEntry e (\<lambda>en. en\<lparr>ge_pending := None, ge_pendingSizer := None\<rparr>) s in
         case (ge_pending en, ge_pendingSizer en) of
           (Some nxt, Some sizer) \<Rightarrow>
             (if ge_applied en = Some nxt then finishRun r e s1
              else callApply r (run\<lparr>gr_size := nxt, gr_sizer := sizer, gr_phase := Applying\<rparr>) s1)
         | _ \<Rightarrow> finishRun r e s1))"

definition settleApply :: "nat \<Rightarrow> bool \<Rightarrow> geo_state \<Rightarrow> geo_state" where
  "settleApply r ok s =
     (case jget (gq_runs s) r of
        None \<Rightarrow> s
      | Some run \<Rightarrow>
          (if gr_phase run = Reading then s
           else if ok
           then (updEntry (gr_entry run) (\<lambda>en. en\<lparr>ge_applied := Some (gr_size run), ge_failed := False\<rparr>) s)
                  \<lparr>gq_runs := jset r (run\<lparr>gr_phase := Reading\<rparr>) (gq_runs s)\<rparr>
           else afterAttempt r run (updEntry (gr_entry run) (\<lambda>en. en\<lparr>ge_failed := True\<rparr>) s)))"

datatype read_result = ReadGrid grid | ReadNull | ReadFailed

text \<open>\<open>onGeometry\<close> is the first component: the key and the measured grid to announce.\<close>

definition settleRead :: "nat \<Rightarrow> read_result \<Rightarrow> geo_state \<Rightarrow> (string \<times> grid) option \<times> geo_state" where
  "settleRead r res s =
     (case jget (gq_runs s) r of
        None \<Rightarrow> (None, s)
      | Some run \<Rightarrow>
          (if gr_phase run = Applying then (None, s)
           else
             ((case res of
                 ReadGrid g \<Rightarrow> (if ge_released (gq_entry s (gr_entry run)) then None else Some (gr_key run, g))
               | _ \<Rightarrow> None),
              afterAttempt r run s)))"

section \<open>The invariant\<close>

text \<open>
  A live entry is busy exactly while one run drains it.  While busy, it heads for the pending size if
  there is one and for the run's size otherwise; idle, it is where it was heading, unless something
  else moved the pane during the last apply or that apply failed.
\<close>

definition runsOf :: "nat \<Rightarrow> geo_state \<Rightarrow> (nat \<times> geo_run) list" where
  "runsOf e s = filter (\<lambda>p. gr_entry (snd p) = e) (gq_runs s)"

definition entry_ok :: "geo_entry \<Rightarrow> (nat \<times> geo_run) list \<Rightarrow> bool" where
  "entry_ok en runs \<longleftrightarrow>
     length runs = (if ge_busy en then 1 else 0) \<and>
     (ge_pending en = None \<longleftrightarrow> ge_pendingSizer en = None) \<and>
     (\<not> ge_released en \<longrightarrow>
        (if ge_busy en
         then ge_target en = (case ge_pending en of Some p \<Rightarrow> Some p | None \<Rightarrow> Some (gr_size (snd (hd runs)))) \<and>
              (gr_phase (snd (hd runs)) = Reading \<and> \<not> ge_mixed en \<longrightarrow> ge_applied en = Some (gr_size (snd (hd runs))))
         else ge_pending en = None \<and> (\<not> ge_mixed en \<and> \<not> ge_failed en \<longrightarrow> ge_applied en = ge_target en)))"

definition geo_inv :: "geo_state \<Rightarrow> bool" where
  "geo_inv s \<longleftrightarrow>
     jok (gq_entries s) \<and> jok (gq_runs s) \<and> distinct (map snd (gq_entries s)) \<and>
     (\<forall>(k, e) \<in> set (gq_entries s). e < gq_next s \<and> \<not> ge_released (gq_entry s e)) \<and>
     (\<forall>(r, run) \<in> set (gq_runs s). r < gq_nextRun s \<and> gr_entry run < gq_next s \<and>
        (\<not> ge_released (gq_entry s (gr_entry run)) \<longrightarrow> (gr_key run, gr_entry run) \<in> set (gq_entries s))) \<and>
     (\<forall>e < gq_next s. entry_ok (gq_entry s e) (runsOf e s))"


section \<open>Changing one entry\<close>

lemma jset_present: "jok m \<Longrightarrow> jget m r = Some v \<Longrightarrow> jset r w m = map (\<lambda>p. if fst p = r then (r, w) else p) m"
proof (induction m)
  case (Cons p m)
  obtain a b where p: "p = (a, b)" by fastforce
  show ?case
  proof (cases "a = r")
    case True
    then have "\<forall>q \<in> set m. fst q \<noteq> r" using Cons.prems p by force
    then have "map (\<lambda>q. if fst q = r then (r, w) else q) m = m" by (simp add: map_idI)
    then show ?thesis using True p by simp
  qed (use Cons p in simp)
qed simp

lemma runsOf_upd [simp]: "runsOf e (updEntry e' f s) = runsOf e s"
  by (simp add: runsOf_def updEntry_def)

lemma runsOf_jset_same:
  assumes "jok (gq_runs s)" "jget (gq_runs s) r = Some run" "gr_entry run' = gr_entry run"
    "gq_runs s' = jset r run' (gq_runs s)"
  shows "runsOf e s' = (if e = gr_entry run then map (\<lambda>p. if fst p = r then (r, run') else p) (runsOf e s) else runsOf e s)"
proof -
  have m: "(r, run) \<in> set (gq_runs s)" using assms(2) by (rule jget_SomeD)
  have u: "p = (r, run)" if "p \<in> set (gq_runs s)" "fst p = r" for p
    using that m assms(1) by (metis eq_key_imp_eq_value prod.collapse)
  let ?f = "\<lambda>p. if fst p = r then (r, run') else p"
  have "runsOf e s' = map ?f (filter (\<lambda>p. gr_entry (snd (?f p)) = e) (gq_runs s))"
    unfolding runsOf_def assms(4) jset_present [OF assms(1,2)] by (simp add: filter_map comp_def)
  also have "filter (\<lambda>p. gr_entry (snd (?f p)) = e) (gq_runs s) = runsOf e s"
    unfolding runsOf_def by (rule filter_cong) (use u assms(3) in auto)
  also have "map ?f (runsOf e s) = runsOf e s" if "e \<noteq> gr_entry run"
    using that u by (intro map_idI) (auto simp: runsOf_def)
  ultimately show ?thesis by simp
qed

lemma runsOf_jdel:
  assumes "jok (gq_runs s)" "jget (gq_runs s) r = Some run" "gq_runs s' = jdel r (gq_runs s)"
  shows "runsOf e s' = (if e = gr_entry run then filter (\<lambda>p. fst p \<noteq> r) (runsOf e s) else runsOf e s)"
proof -
  have "filter (\<lambda>p. fst p \<noteq> r) (runsOf e s) = runsOf e s" if "e \<noteq> gr_entry run"
    unfolding runsOf_def filter_filter
    by (rule filter_cong [OF refl])
       (use that assms(1,2) in \<open>metis eq_key_imp_eq_value jget_SomeD prod.collapse\<close>)
  then show ?thesis unfolding runsOf_def assms(3) jdel_def by (auto simp: filter_filter conj_commute)
qed

lemma geo_invD:
  assumes "geo_inv s"
  shows "jok (gq_entries s)" "jok (gq_runs s)" "distinct (map snd (gq_entries s))"
    "(k, e) \<in> set (gq_entries s) \<Longrightarrow> e < gq_next s \<and> \<not> ge_released (gq_entry s e)"
    "(r, run) \<in> set (gq_runs s) \<Longrightarrow> r < gq_nextRun s \<and> gr_entry run < gq_next s"
    "(r, run) \<in> set (gq_runs s) \<Longrightarrow> \<not> ge_released (gq_entry s (gr_entry run)) \<Longrightarrow>
       (gr_key run, gr_entry run) \<in> set (gq_entries s)"
    "e < gq_next s \<Longrightarrow> entry_ok (gq_entry s e) (runsOf e s)"
  using assms unfolding geo_inv_def by auto

text \<open>A run in flight is the only one of its entry, and that entry is busy.\<close>

lemma runsOf_single:
  assumes "geo_inv s" "jget (gq_runs s) r = Some run"
  shows "ge_busy (gq_entry s (gr_entry run)) \<and> runsOf (gr_entry run) s = [(r, run)]"
proof -
  have m: "(r, run) \<in> set (gq_runs s)" using assms(2) by (rule jget_SomeD)
  then have "(r, run) \<in> set (runsOf (gr_entry run) s)" by (simp add: runsOf_def)
  moreover have "entry_ok (gq_entry s (gr_entry run)) (runsOf (gr_entry run) s)"
    using geo_invD(5,7) [OF assms(1)] m by blast
  ultimately show ?thesis
    by (cases "runsOf (gr_entry run) s"; cases "tl (runsOf (gr_entry run) s)") (auto simp: entry_ok_def split: if_split_asm)
qed

lemma idle_no_runs: "geo_inv s \<Longrightarrow> e < gq_next s \<Longrightarrow> \<not> ge_busy (gq_entry s e) \<Longrightarrow> runsOf e s = []"
  using geo_invD(7) [of s e] by (simp add: entry_ok_def)

text \<open>A step that touches one entry and its runs keeps the invariant if that entry stays right.\<close>

lemma geo_inv_change:
  assumes inv: "geo_inv s"
    and "gq_entries s' = gq_entries s" "gq_next s' = gq_next s"
    and other: "\<And>e'. e' \<noteq> e \<Longrightarrow> gq_entry s' e' = gq_entry s e' \<and> runsOf e' s' = runsOf e' s"
    and rel: "ge_released (gq_entry s' e) = ge_released (gq_entry s e)"
    and runs: "jok (gq_runs s')"
      "\<And>r run. (r, run) \<in> set (gq_runs s') \<Longrightarrow> gr_entry run = e \<Longrightarrow> r < gq_nextRun s' \<and> e < gq_next s \<and>
         (\<not> ge_released (gq_entry s e) \<longrightarrow> (gr_key run, e) \<in> set (gq_entries s))"
      "gq_nextRun s \<le> gq_nextRun s'"
    and ok: "e < gq_next s \<Longrightarrow> entry_ok (gq_entry s' e) (runsOf e s')"
  shows "geo_inv s'"
proof -
  have rel': "ge_released (gq_entry s' e') = ge_released (gq_entry s e')" for e'
    using other [of e'] rel by (cases "e' = e") auto
  have old: "(r, run) \<in> set (gq_runs s)" if "(r, run) \<in> set (gq_runs s')" "gr_entry run \<noteq> e" for r run
  proof -
    have "(r, run) \<in> set (runsOf (gr_entry run) s')" using that by (simp add: runsOf_def)
    then have "(r, run) \<in> set (runsOf (gr_entry run) s)" using other [OF that(2)] by (simp only:)
    then show ?thesis by (simp add: runsOf_def)
  qed
  have "r < gq_nextRun s' \<and> gr_entry run < gq_next s \<and>
      (\<not> ge_released (gq_entry s (gr_entry run)) \<longrightarrow> (gr_key run, gr_entry run) \<in> set (gq_entries s))"
    if m: "(r, run) \<in> set (gq_runs s')" for r run
  proof (cases "gr_entry run = e")
    case True
    then show ?thesis using runs(2) [OF m] by simp
  next
    case False
    then show ?thesis using geo_invD(5,6) [OF inv old [OF m]] runs(3) by fastforce
  qed
  moreover have "entry_ok (gq_entry s' e') (runsOf e' s')" if "e' < gq_next s" for e'
    using other [of e'] ok that geo_invD(7) [OF inv that] by (cases "e' = e") auto
  ultimately show ?thesis
    using geo_invD [OF inv] runs(1) unfolding geo_inv_def assms(2,3) rel' by auto
qed

lemma upd_simps [simp]:
  "gq_entries (updEntry e f s) = gq_entries s" "gq_next (updEntry e f s) = gq_next s"
  "gq_runs (updEntry e f s) = gq_runs s" "gq_nextRun (updEntry e f s) = gq_nextRun s"
  "gq_applies (updEntry e f s) = gq_applies s"
  "gq_entry (updEntry e f s) = (gq_entry s)(e := f (gq_entry s e))"
  by (simp_all add: updEntry_def)


section \<open>Every operation keeps the invariant\<close>

lemma entryFor_inv:
  assumes inv: "geo_inv s" and "entryFor key s = (e, s')"
  shows "geo_inv s' \<and> jget (gq_entries s') key = Some e \<and> e < gq_next s'"
proof (cases "jget (gq_entries s) key")
  case None
  then have e: "e = gq_next s" "s' = s\<lparr>gq_entries := jset key (gq_next s) (gq_entries s),
      gq_entry := (gq_entry s)(gq_next s := newEntry), gq_next := Suc (gq_next s)\<rparr>"
    using assms(2) by (auto simp: entryFor_def)
  have fresh: "key \<notin> fst ` set (gq_entries s)" using None by (simp add: jget_None_iff)
  have none: "runsOf (gq_next s) s' = []"
    using geo_invD(5) [OF inv] by (fastforce simp: runsOf_def e filter_empty_conv)
  have "entry_ok newEntry []" by (simp add: entry_ok_def newEntry_def)
  moreover have "entry_ok (gq_entry s' e') (runsOf e' s')" if "e' < gq_next s" for e'
    using geo_invD(7) [OF inv that] that by (simp add: e runsOf_def)
  ultimately have "\<forall>e' < gq_next s'. entry_ok (gq_entry s' e') (runsOf e' s')"
    using none by (auto simp: e less_Suc_eq)
  moreover have "\<forall>(k, e') \<in> set (gq_entries s'). e' < gq_next s' \<and> \<not> ge_released (gq_entry s' e')"
    using geo_invD(4) [OF inv] fresh by (fastforce simp: e jset_fresh newEntry_def)
  moreover have "\<forall>(r, run) \<in> set (gq_runs s'). r < gq_nextRun s' \<and> gr_entry run < gq_next s' \<and>
      (\<not> ge_released (gq_entry s' (gr_entry run)) \<longrightarrow> (gr_key run, gr_entry run) \<in> set (gq_entries s'))"
    using geo_invD(5,6) [OF inv] fresh by (fastforce simp: e jset_fresh)
  moreover have "distinct (map snd (gq_entries s'))"
    using geo_invD(3,4) [OF inv] fresh by (fastforce simp: e jset_fresh)
  ultimately show ?thesis using geo_invD(1,2) [OF inv] unfolding geo_inv_def by (auto simp: e)
next
  case (Some e')
  then have "e' = e" "s' = s" using assms(2) by (simp_all add: entryFor_def)
  then show ?thesis using Some geo_invD(4) [OF inv] jget_SomeD [OF Some] inv by auto
qed

text \<open>An update of an entry's own fields.\<close>

lemma updEntry_inv:
  assumes inv: "geo_inv s" and "\<And>en. ge_released (f en) = ge_released en"
    and "e < gq_next s \<Longrightarrow> entry_ok (gq_entry s e) (runsOf e s) \<Longrightarrow> entry_ok (f (gq_entry s e)) (runsOf e s)"
  shows "geo_inv (updEntry e f s)"
  using geo_invD [OF inv] assms(2,3)
  by (intro geo_inv_change [OF inv, where e = e]) auto

lemma startRun_inv:
  assumes inv: "geo_inv s" and e: "(key, e) \<in> set (gq_entries s)" "\<not> ge_busy (gq_entry s e)"
    and t: "ge_target (gq_entry s e) = Some sz" and p: "ge_pending (gq_entry s e) = None"
  shows "geo_inv (startRun key e sz sizer s)"
proof -
  have lt: "e < gq_next s" "\<not> ge_released (gq_entry s e)" using geo_invD(4) [OF inv e(1)] by blast+
  have ps: "ge_pendingSizer (gq_entry s e) = None" using geo_invD(7) [OF inv lt(1)] p by (simp add: entry_ok_def)
  have fresh: "gq_nextRun s \<notin> fst ` set (gq_runs s)" using geo_invD(5) [OF inv] by fastforce
  define run where "run = \<lparr>gr_key = key, gr_entry = e, gr_size = sz, gr_sizer = sizer, gr_phase = Applying\<rparr>"
  define s' where "s' = startRun key e sz sizer s"
  have runs: "gq_runs s' = gq_runs s @ [(gq_nextRun s, run)]"
    by (simp add: s'_def startRun_def callApply_def run_def jset_fresh [OF fresh])
  have s': "gq_entries s' = gq_entries s" "gq_next s' = gq_next s" "gq_nextRun s' = Suc (gq_nextRun s)"
    "gq_entry s' = (gq_entry s)(e := (gq_entry s e)\<lparr>ge_busy := True, ge_mixed := False, ge_failed := False\<rparr>)"
    by (simp_all add: s'_def startRun_def callApply_def)
  have rn: "runsOf e' s' = (if e' = e then [(gq_nextRun s, run)] else runsOf e' s)" for e'
    using idle_no_runs [OF inv lt(1) e(2)] by (simp add: runsOf_def runs run_def)
  have rk: "gr_key run = key" "gr_entry run = e" by (simp_all add: run_def)
  have ok: "entry_ok (gq_entry s' e) (runsOf e s')" using t p ps by (simp add: entry_ok_def s' rn run_def)
  have "geo_inv s'"
  proof (rule geo_inv_change [OF inv, where e = e])
    fix r run' assume m: "(r, run') \<in> set (gq_runs s')" and "gr_entry run' = e"
    then have "r < gq_nextRun s' \<and> gr_key run' = key \<or> (r, run') \<in> set (gq_runs s)" by (auto simp: runs rk s')
    moreover have "(r, run') \<notin> set (gq_runs s)"
      using idle_no_runs [OF inv lt(1) e(2)] \<open>gr_entry run' = e\<close> by (auto simp: runsOf_def filter_empty_conv)
    ultimately show "r < gq_nextRun s' \<and> e < gq_next s \<and>
        (\<not> ge_released (gq_entry s e) \<longrightarrow> (gr_key run', e) \<in> set (gq_entries s))" using e(1) lt by blast
  qed (use ok fresh geo_invD(2) [OF inv] in \<open>simp_all add: s' rn runs\<close>)
  then show ?thesis by (simp add: s'_def)
qed

lemma geoRequest_inv:
  assumes inv: "geo_inv s"
  shows "geo_inv (geoRequest key sz sizer s)"
proof (cases "g_cols sz \<le> 0 \<or> g_rows sz \<le> 0")
  case False
  obtain e s1 where e: "entryFor key s = (e, s1)" by fastforce
  have i1: "geo_inv s1" "jget (gq_entries s1) key = Some e" "e < gq_next s1"
    using entryFor_inv [OF inv e] by blast+
  note ok = geo_invD(7) [OF i1(1,3)]
  let ?s2 = "updEntry e (\<lambda>en. en\<lparr>ge_target := Some sz\<rparr>) s1"
  have r: "geoRequest key sz sizer s =
      (if ge_busy (gq_entry s1 e)
       then updEntry e (\<lambda>en. en\<lparr>ge_target := Some sz, ge_pending := Some sz, ge_pendingSizer := Some sizer\<rparr>) s1
       else if ge_applied (gq_entry s1 e) = Some sz then ?s2 else startRun key e sz sizer ?s2)"
    using False by (simp add: geoRequest_def e updEntry_def)
  show ?thesis
  proof (cases "ge_busy (gq_entry s1 e)")
    case True
    then show ?thesis unfolding r if_P [OF True] by (intro updEntry_inv [OF i1(1)]) (auto simp: entry_ok_def)
  next
    case idle: False
    show ?thesis
    proof (cases "ge_applied (gq_entry s1 e) = Some sz")
      case True
      then show ?thesis unfolding r using idle by (auto intro!: updEntry_inv [OF i1(1)] simp: entry_ok_def)
    next
      case False
      have runs: "runsOf e s1 = []" by (rule idle_no_runs [OF i1(1,3) idle])
      have mem: "(key, e) \<in> set (gq_entries s1)" using i1(2) by (rule jget_SomeD)
      have pend: "ge_pending (gq_entry s1 e) = None"
        using ok idle geo_invD(4) [OF i1(1) mem] by (simp add: entry_ok_def)
      let ?pre = "updEntry e (\<lambda>en. en\<lparr>ge_target := Some sz, ge_mixed := True\<rparr>) s1"
      have "geo_inv ?pre" using idle by (intro updEntry_inv [OF i1(1)]) (auto simp: entry_ok_def)
      then have "geo_inv (startRun key e sz sizer ?pre)"
        by (rule startRun_inv) (use idle mem pend in simp_all)
      also have "startRun key e sz sizer ?pre = startRun key e sz sizer ?s2"
        by (simp add: startRun_def callApply_def updEntry_def)
      finally show ?thesis unfolding r using idle False by simp
    qed
  qed
qed (simp add: geoRequest_def inv)

lemma geoSeed_inv:
  assumes inv: "geo_inv s"
  shows "geo_inv (geoSeed key sz s)"
proof (cases "g_cols sz \<le> 0 \<or> g_rows sz \<le> 0")
  case False
  obtain e s1 where e: "entryFor key s = (e, s1)" by fastforce
  have i1: "geo_inv s1" using entryFor_inv [OF inv e] by blast
  show ?thesis using False by (auto simp: geoSeed_def e intro!: updEntry_inv [OF i1]) (auto simp: entry_ok_def)
qed (simp add: geoSeed_def inv)

lemma geoRelease_inv:
  assumes inv: "geo_inv s"
  shows "geo_inv (geoRelease key s)"
proof (cases "jget (gq_entries s) key")
  case None
  then have "jdel key (gq_entries s) = gq_entries s" by (simp add: jdel_fresh jget_None_iff)
  then have "geoRelease key s = s" using None by (simp add: geoRelease_def)
  then show ?thesis using inv by simp
next
  case (Some e)
  define s' where "s' = geoRelease key s"
  have s': "gq_entries s' = jdel key (gq_entries s)" "gq_next s' = gq_next s" "gq_runs s' = gq_runs s"
    "gq_nextRun s' = gq_nextRun s" "gq_entry s' = (gq_entry s)(e := (gq_entry s e)\<lparr>ge_released := True\<rparr>)"
    by (simp_all add: s'_def geoRelease_def Some)
  have mem: "(key, e) \<in> set (gq_entries s)" using Some by (rule jget_SomeD)
  have uniq: "k = key" if "(k, e) \<in> set (gq_entries s)" for k
    using geo_invD(3) [OF inv] that mem by (force simp: distinct_map inj_on_def)
  have runs: "runsOf e' s' = runsOf e' s" for e' by (simp add: runsOf_def s')
  have sub: "set (jdel key (gq_entries s)) \<subseteq> set (gq_entries s)" by (auto simp: set_jdel)
  have "distinct (map snd (gq_entries s'))"
    using geo_invD(3) [OF inv] by (simp add: s' jdel_def distinct_map inj_on_def)
  moreover have "\<forall>(k, e') \<in> set (gq_entries s'). e' < gq_next s' \<and> \<not> ge_released (gq_entry s' e')"
    using geo_invD(4) [OF inv] uniq by (auto simp: s' set_jdel)
  moreover have "\<forall>(r, run) \<in> set (gq_runs s'). r < gq_nextRun s' \<and> gr_entry run < gq_next s' \<and>
      (\<not> ge_released (gq_entry s' (gr_entry run)) \<longrightarrow> (gr_key run, gr_entry run) \<in> set (gq_entries s'))"
  proof -
    have "gr_key run \<noteq> key" if "(r, run) \<in> set (gq_runs s)" "gr_entry run \<noteq> e"
      "(gr_key run, gr_entry run) \<in> set (gq_entries s)" for r run
      using that mem geo_invD(1) [OF inv] by (metis eq_key_imp_eq_value)
    then show ?thesis using geo_invD(5,6) [OF inv] by (fastforce simp: s' set_jdel split: if_split_asm)
  qed
  moreover have "\<forall>e' < gq_next s'. entry_ok (gq_entry s' e') (runsOf e' s')"
    using geo_invD(7) [OF inv] by (auto simp: runs s' entry_ok_def)
  ultimately show ?thesis using geo_invD(1,2) [OF inv] unfolding s'_def [symmetric] geo_inv_def
    by (auto simp: s')
qed


lemma finishRun_inv:
  assumes inv: "geo_inv s" and run: "jget (gq_runs s) r = Some run" and e: "e = gr_entry run"
    and rel: "ge_released (f (gq_entry s e)) = ge_released (gq_entry s e)"
    and ok: "entry_ok ((f (gq_entry s e))\<lparr>ge_busy := False\<rparr>) []"
  shows "geo_inv (finishRun r e (updEntry e f s))"
proof -
  define s' where "s' = finishRun r e (updEntry e f s)"
  have s': "gq_entries s' = gq_entries s" "gq_next s' = gq_next s" "gq_nextRun s' = gq_nextRun s"
    "gq_runs s' = jdel r (gq_runs s)" "gq_entry s' = (gq_entry s)(e := (f (gq_entry s e))\<lparr>ge_busy := False\<rparr>)"
    by (simp_all add: s'_def finishRun_def)
  have single: "runsOf e s = [(r, run)]" using runsOf_single [OF inv run] e by simp
  have rn: "runsOf e' s' = (if e' = e then [] else runsOf e' s)" for e'
    using runsOf_jdel [OF geo_invD(2) [OF inv] run s'(4), of e'] single e by simp
  have "geo_inv s'"
  proof (rule geo_inv_change [OF inv, where e = e])
    fix r' run' assume "(r', run') \<in> set (gq_runs s')" "gr_entry run' = e"
    then have "(r', run') \<in> set (runsOf e s')" by (simp add: runsOf_def)
    then show "r' < gq_nextRun s' \<and> e < gq_next s \<and>
        (\<not> ge_released (gq_entry s e) \<longrightarrow> (gr_key run', e) \<in> set (gq_entries s))" by (simp add: rn)
  next
    show "jok (gq_runs s')" unfolding s'(4) by (rule jok_jdel [OF geo_invD(2) [OF inv]])
  qed (use ok rel in \<open>simp_all add: s'(1-3,5) rn\<close>)
  then show ?thesis by (simp add: s'_def)
qed

lemma goRound_inv:
  assumes inv: "geo_inv s" and run: "jget (gq_runs s) r = Some run" and e: "e = gr_entry run"
    and run': "gr_entry run' = e" "gr_key run' = gr_key run" "gr_phase run' = Applying"
    and rel: "ge_released (f (gq_entry s e)) = ge_released (gq_entry s e)" "ge_busy (f (gq_entry s e))"
    and pend: "ge_pending (f (gq_entry s e)) = None" "ge_pendingSizer (f (gq_entry s e)) = None"
    and target: "ge_target (f (gq_entry s e)) = Some (gr_size run')"
  shows "geo_inv (callApply r run' (updEntry e f s))"
proof -
  define s' where "s' = callApply r run' (updEntry e f s)"
  have s': "gq_entries s' = gq_entries s" "gq_next s' = gq_next s" "gq_nextRun s' = gq_nextRun s"
    "gq_runs s' = jset r run' (gq_runs s)"
    "gq_entry s' = (gq_entry s)(e := (f (gq_entry s e))\<lparr>ge_mixed := False, ge_failed := False\<rparr>)"
    by (simp_all add: s'_def callApply_def run'(1))
  have single: "runsOf e s = [(r, run)]" using runsOf_single [OF inv run] e by simp
  have rn: "runsOf e' s' = (if e' = e then [(r, run')] else runsOf e' s)" for e'
    using runsOf_jset_same [OF geo_invD(2) [OF inv] run _ s'(4), of e'] single e run'(1) by simp
  have m: "(r, run) \<in> set (gq_runs s)" using run by (rule jget_SomeD)
  have "geo_inv s'"
  proof (rule geo_inv_change [OF inv, where e = e])
    fix r0 run0 assume "(r0, run0) \<in> set (gq_runs s')" "gr_entry run0 = e"
    then have "(r0, run0) \<in> set (runsOf e s')" by (simp add: runsOf_def)
    then have "r0 = r" "run0 = run'" by (simp_all add: rn)
    then show "r0 < gq_nextRun s' \<and> e < gq_next s \<and>
        (\<not> ge_released (gq_entry s e) \<longrightarrow> (gr_key run0, e) \<in> set (gq_entries s))"
      using geo_invD(5,6) [OF inv m] by (simp add: s' run' e)
  next
    show "jok (gq_runs s')" unfolding s'(4) by (rule jok_jset [OF geo_invD(2) [OF inv]])
  qed (use rel pend target run'(3) in \<open>simp_all add: s'(1-3,5) rn entry_ok_def\<close>)
  then show ?thesis by (simp add: s'_def)
qed

lemma afterAttempt_inv:
  assumes inv: "geo_inv s" and run: "jget (gq_runs s) r = Some run"
    and at: "\<not> ge_released (gq_entry s (gr_entry run)) \<Longrightarrow> \<not> ge_mixed (gq_entry s (gr_entry run)) \<Longrightarrow>
      \<not> ge_failed (gq_entry s (gr_entry run)) \<Longrightarrow> ge_applied (gq_entry s (gr_entry run)) = Some (gr_size run)"
  shows "geo_inv (afterAttempt r run s)"
proof -
  let ?e = "gr_entry run"
  let ?en = "gq_entry s ?e"
  let ?clear = "\<lambda>en. en\<lparr>ge_pending := None, ge_pendingSizer := None\<rparr>"
  have e: "?e < gq_next s" using geo_invD(5) [OF inv] jget_SomeD [OF run] by blast
  have single: "runsOf ?e s = [(r, run)]" "ge_busy ?en" using runsOf_single [OF inv run] by blast+
  note ok = geo_invD(7) [OF inv e, unfolded single]
  show ?thesis
  proof (cases "ge_released ?en")
    case True
    then have "afterAttempt r run s = finishRun r ?e (updEntry ?e id s)"
      by (simp add: afterAttempt_def updEntry_def)
    moreover have "geo_inv (finishRun r ?e (updEntry ?e id s))"
      by (rule finishRun_inv [OF inv run refl]) (use ok True in \<open>simp_all add: entry_ok_def\<close>)
    ultimately show ?thesis by simp
  next
    case live: False
    show ?thesis
    proof (cases "ge_pending ?en")
      case None
      then have "afterAttempt r run s = finishRun r ?e (updEntry ?e ?clear s)"
        using live by (simp add: afterAttempt_def Let_def)
      moreover have "geo_inv (finishRun r ?e (updEntry ?e ?clear s))"
        by (rule finishRun_inv [OF inv run refl]) (use ok None live at single(2) in \<open>simp_all add: entry_ok_def\<close>)
      ultimately show ?thesis by simp
    next
      case (Some nxt)
      then obtain sizer where sizer: "ge_pendingSizer ?en = Some sizer" using ok by (auto simp: entry_ok_def)
      have target: "ge_target ?en = Some nxt" using ok Some live single(2) by (simp add: entry_ok_def)
      show ?thesis
      proof (cases "ge_applied ?en = Some nxt")
        case True
        then have "afterAttempt r run s = finishRun r ?e (updEntry ?e ?clear s)"
          using live Some sizer by (simp add: afterAttempt_def Let_def)
        moreover have "geo_inv (finishRun r ?e (updEntry ?e ?clear s))"
          by (rule finishRun_inv [OF inv run refl]) (use True target in \<open>simp_all add: entry_ok_def\<close>)
        ultimately show ?thesis by simp
      next
        case False
        let ?run = "run\<lparr>gr_size := nxt, gr_sizer := sizer, gr_phase := Applying\<rparr>"
        have "afterAttempt r run s = callApply r ?run (updEntry ?e ?clear s)"
          using live Some sizer False by (simp add: afterAttempt_def Let_def)
        moreover have "geo_inv (callApply r ?run (updEntry ?e ?clear s))"
          by (rule goRound_inv [OF inv run refl]) (use target single(2) in simp_all)
        ultimately show ?thesis by simp
      qed
    qed
  qed
qed

lemma settleApply_inv:
  assumes inv: "geo_inv s"
  shows "geo_inv (settleApply r ok s)"
proof (cases "jget (gq_runs s) r")
  case (Some run)
  let ?e = "gr_entry run"
  have e: "?e < gq_next s" using geo_invD(5) [OF inv] jget_SomeD [OF Some] by blast
  have single: "runsOf ?e s = [(r, run)]" "ge_busy (gq_entry s ?e)" using runsOf_single [OF inv Some] by blast+
  note eok = geo_invD(7) [OF inv e, unfolded single]
  show ?thesis
  proof (cases "gr_phase run")
    case Reading then show ?thesis by (simp add: settleApply_def Some inv)
  next
    case Applying
    show ?thesis
    proof (cases ok)
      case False
      let ?s = "updEntry ?e (\<lambda>en. en\<lparr>ge_failed := True\<rparr>) s"
      have "geo_inv ?s"
        by (rule updEntry_inv [OF inv]) (use eok single(2) Applying in \<open>simp_all add: entry_ok_def single(1)\<close>)
      then have "geo_inv (afterAttempt r run ?s)" by (rule afterAttempt_inv) (simp_all add: Some)
      then show ?thesis using Applying False by (simp add: settleApply_def Some)
    next
      case True
      define s' where "s' = settleApply r ok s"
      have s': "gq_entries s' = gq_entries s" "gq_next s' = gq_next s" "gq_nextRun s' = gq_nextRun s"
        "gq_runs s' = jset r (run\<lparr>gr_phase := Reading\<rparr>) (gq_runs s)"
        "gq_entry s' = (gq_entry s)(?e := (gq_entry s ?e)\<lparr>ge_applied := Some (gr_size run), ge_failed := False\<rparr>)"
        using Applying True by (simp_all add: s'_def settleApply_def Some)
      have rn: "runsOf e' s' = (if e' = ?e then [(r, run\<lparr>gr_phase := Reading\<rparr>)] else runsOf e' s)" for e'
        using runsOf_jset_same [OF geo_invD(2) [OF inv] Some _ s'(4), of e'] single by simp
      have "geo_inv s'"
      proof (rule geo_inv_change [OF inv, where e = ?e])
        fix r0 run0 assume "(r0, run0) \<in> set (gq_runs s')" "gr_entry run0 = ?e"
        then have "(r0, run0) \<in> set (runsOf ?e s')" by (simp add: runsOf_def)
        then have "r0 = r" "run0 = run\<lparr>gr_phase := Reading\<rparr>" by (simp_all add: rn)
        then show "r0 < gq_nextRun s' \<and> ?e < gq_next s \<and>
            (\<not> ge_released (gq_entry s ?e) \<longrightarrow> (gr_key run0, ?e) \<in> set (gq_entries s))"
          using geo_invD(5,6) [OF inv jget_SomeD [OF Some]] by (simp add: s')
      next
        show "jok (gq_runs s')" unfolding s'(4) by (rule jok_jset [OF geo_invD(2) [OF inv]])
      next
        show "entry_ok (gq_entry s' ?e) (runsOf ?e s')"
          using eok single(2) by (cases "ge_pending (gq_entry s ?e)") (auto simp: s'(5) rn entry_ok_def)
      qed (simp_all add: s'(1-3,5) rn)
      then show ?thesis by (simp add: s'_def)
    qed
  qed
qed (simp add: settleApply_def inv)

lemma settleRead_inv:
  assumes inv: "geo_inv s"
  shows "geo_inv (snd (settleRead r res s))"
proof (cases "jget (gq_runs s) r")
  case (Some run)
  let ?e = "gr_entry run"
  have e: "?e < gq_next s" using geo_invD(5) [OF inv] jget_SomeD [OF Some] by blast
  have single: "runsOf ?e s = [(r, run)]" "ge_busy (gq_entry s ?e)" using runsOf_single [OF inv Some] by blast+
  note eok = geo_invD(7) [OF inv e, unfolded single]
  show ?thesis
  proof (cases "gr_phase run")
    case Applying then show ?thesis by (simp add: settleRead_def Some inv)
  next
    case Reading
    have "geo_inv (afterAttempt r run s)"
      by (rule afterAttempt_inv [OF inv Some]) (use eok Reading single(2) in \<open>simp add: entry_ok_def\<close>)
    then show ?thesis using Reading by (simp add: settleRead_def Some)
  qed
qed (simp add: settleRead_def inv)

lemma geo_init_inv: "geo_inv geo_init"
  by (simp add: geo_inv_def geo_init_def)


section \<open>The queue as a machine\<close>

datatype geo_event =
    GRequest string grid nat
  | GSeed string grid
  | GRelease string
  | GApply nat bool
  | GRead nat read_result

fun geo_step :: "geo_event \<Rightarrow> geo_state \<Rightarrow> geo_state" where
  "geo_step (GRequest key sz sizer) s = geoRequest key sz sizer s"
| "geo_step (GSeed key sz) s = geoSeed key sz s"
| "geo_step (GRelease key) s = geoRelease key s"
| "geo_step (GApply r ok) s = settleApply r ok s"
| "geo_step (GRead r res) s = snd (settleRead r res s)"

lemma geo_step_inv: "geo_inv s \<Longrightarrow> geo_inv (geo_step e s)"
  by (cases e) (simp_all add: geoRequest_inv geoSeed_inv geoRelease_inv settleApply_inv settleRead_inv)

interpretation geo_machine: event_machine geo_step geo_inv
  by unfold_locales (rule geo_step_inv)

definition geo_run_from_start :: "geo_event list \<Rightarrow> geo_state" where
  "geo_run_from_start es = fold geo_step es geo_init"

lemma geo_reachable_inv: "geo_inv (geo_run_from_start es)"
  unfolding geo_run_from_start_def by (rule geo_machine.run_inv [OF geo_init_inv])

abbreviation liveEntry :: "string \<Rightarrow> geo_state \<Rightarrow> geo_entry option" where
  "liveEntry key s \<equiv> map_option (gq_entry s) (jget (gq_entries s) key)"

text \<open>
  One writer per pane: whatever requests, seeds, releases and answers arrive and in whatever
  order, the live entry of a subshell never has more than one apply or readback in flight, and none
  when it is idle.
\<close>

theorem geometry_single_writer:
  "jget (gq_entries (geo_run_from_start es)) key = Some e \<Longrightarrow>
   length (runsOf e (geo_run_from_start es)) = (if ge_busy (gq_entry (geo_run_from_start es) e) then 1 else 0)"
  using geo_invD(4,7) [OF geo_reachable_inv [of es]] jget_SomeD
  by (fastforce simp: entry_ok_def)

definition wide :: grid where "wide = \<lparr>g_cols = 120, g_rows = 40\<rparr>"
definition narrow :: grid where "narrow = \<lparr>g_cols = 51, g_rows = 13\<rparr>"

lemmas geo_eval = geo_run_from_start_def geo_init_def geoRequest_def entryFor_def startRun_def callApply_def
  updEntry_def newEntry_def wide_def narrow_def settleApply_def settleRead_def afterAttempt_def finishRun_def
  geoSeed_def geoRelease_def

theorem geometry_single_writer_witness:
  "length (runsOf 0 (geo_run_from_start [GRequest ''s'' wide 1, GRequest ''s'' narrow 2])) = 1"
proof -
  have "jget (gq_entries (geo_run_from_start [GRequest ''s'' wide 1, GRequest ''s'' narrow 2])) ''s'' = Some 0"
    "ge_busy (gq_entry (geo_run_from_start [GRequest ''s'' wide 1, GRequest ''s'' narrow 2]) 0)"
    by (simp_all add: geo_eval)
  then show ?thesis using geometry_single_writer by fastforce
qed

section \<open>The queue settles\<close>

lemma goRound_entry:
  "gq_entry (callApply r run s) (gr_entry run) = (gq_entry s (gr_entry run))\<lparr>ge_mixed := False, ge_failed := False\<rparr>"
  by (simp add: callApply_def)

text \<open>A run keeps its entry.\<close>

lemma attempt_same_entry: "jget (gq_runs (afterAttempt r run s)) r = Some run1 \<Longrightarrow> gr_entry run1 = gr_entry run"
  by (auto simp: afterAttempt_def Let_def finishRun_def callApply_def split: if_split_asm option.splits)

lemma apply_same_entry:
  "jget (gq_runs s) r = Some run \<Longrightarrow> jget (gq_runs (settleApply r ok s)) r = Some run1 \<Longrightarrow> gr_entry run1 = gr_entry run"
  by (auto simp: settleApply_def split: if_split_asm dest: attempt_same_entry)

lemma apply_keeps_run: "jget (gq_runs s) r = Some run \<Longrightarrow> jget (gq_runs (settleApply r True s)) r \<noteq> None"
  by (simp add: settleApply_def)

lemma read_same_entry:
  "jget (gq_runs s) r = Some run \<Longrightarrow> jget (gq_runs (snd (settleRead r res s))) r = Some run1 \<Longrightarrow> gr_entry run1 = gr_entry run"
  by (auto simp: settleRead_def split: if_split_asm dest: attempt_same_entry)

text \<open>One attempt that is answered: the entry is idle at its target, or the last request is now applying.\<close>

lemma attempt_answered:
  fixes res
  assumes inv: "geo_inv s" and run: "jget (gq_runs s) r = Some run" and ph: "gr_phase run = Applying"
    and e: "jget (gq_entries s) key = Some (gr_entry run)"
  defines "s' \<equiv> snd (settleRead r res (settleApply r True s))"
  shows "gq_entries s' = gq_entries s \<and> ge_target (gq_entry s' (gr_entry run)) = ge_target (gq_entry s (gr_entry run)) \<and>
    \<not> ge_failed (gq_entry s' (gr_entry run)) \<and> (ge_mixed (gq_entry s' (gr_entry run)) \<longrightarrow> ge_mixed (gq_entry s (gr_entry run))) \<and>
    (\<not> ge_busy (gq_entry s' (gr_entry run)) \<or>
     ge_pending (gq_entry s' (gr_entry run)) = None \<and>
       (\<exists>run'. jget (gq_runs s') r = Some run' \<and> gr_phase run' = Applying \<and> gr_entry run' = gr_entry run) \<and>
       ge_pending (gq_entry s (gr_entry run)) \<noteq> None)"
proof -
  have live: "\<not> ge_released (gq_entry s (gr_entry run))" using geo_invD(4) [OF inv] jget_SomeD [OF e] by blast
  have lt: "gr_entry run < gq_next s" using geo_invD(4) [OF inv] jget_SomeD [OF e] by blast
  have ps: "ge_pending (gq_entry s (gr_entry run)) = None \<longleftrightarrow> ge_pendingSizer (gq_entry s (gr_entry run)) = None"
    using geo_invD(7) [OF inv lt] by (simp add: entry_ok_def)
  let ?s1 = "settleApply r True s"
  have s1: "gq_entries ?s1 = gq_entries s" "jget (gq_runs ?s1) r = Some (run\<lparr>gr_phase := Reading\<rparr>)"
    "gq_entry ?s1 = (gq_entry s)(gr_entry run := (gq_entry s (gr_entry run))\<lparr>ge_applied := Some (gr_size run), ge_failed := False\<rparr>)"
    using ph by (simp_all add: settleApply_def run)
  have s': "s' = afterAttempt r (run\<lparr>gr_phase := Reading\<rparr>) ?s1"
    by (simp add: s'_def settleRead_def s1)
  show ?thesis
    using live ps unfolding s' afterAttempt_def Let_def
    by (cases "ge_pending (gq_entry s (gr_entry run))"; cases "ge_pendingSizer (gq_entry s (gr_entry run))")
       (auto simp: s1 finishRun_def callApply_def)
qed

text \<open>
  C23: A resize settles where it was last asked to: from any reachable state, once the pane answers two
  rounds of apply and readback (one for what is in flight, one for the last request behind it) and
  nothing new arrives, the entry is idle, its last apply succeeded, and unless something outside the
  queue moved the pane meanwhile the applied size is the one last requested.
\<close>

theorem geometry_queue_settles:
  assumes "jget (gq_entries s) key = Some e" and "jget (gq_runs s) r = Some run" and "gr_entry run = e"
    and "gr_phase run = Applying" and "s = geo_run_from_start es"
    and "s' = fold geo_step [GApply r True, GRead r res1, GApply r True, GRead r res2] s"
  shows "\<not> ge_busy (gq_entry s' e) \<and> jget (gq_entries s') key = Some e \<and> \<not> ge_failed (gq_entry s' e) \<and>
    ge_target (gq_entry s' e) = ge_target (gq_entry s e) \<and>
    (\<not> ge_mixed (gq_entry s e) \<longrightarrow> ge_applied (gq_entry s' e) = ge_target (gq_entry s e))"
proof -
  let ?s1 = "snd (settleRead r res1 (settleApply r True s))"
  let ?s2 = "snd (settleRead r res2 (settleApply r True ?s1))"
  have inv: "geo_inv s" unfolding assms(5) by (rule geo_reachable_inv)
  have i1: "geo_inv ?s1" and i2: "geo_inv ?s2" by (intro settleRead_inv settleApply_inv inv)+
  have s': "s' = ?s2" by (simp add: assms(6))
  note a1 = attempt_answered [OF inv assms(2,4) assms(1) [folded assms(3)], of res1, unfolded assms(3)]
  have fin: "\<not> ge_busy (gq_entry s' e) \<and> gq_entries s' = gq_entries s \<and> \<not> ge_failed (gq_entry s' e) \<and>
      ge_target (gq_entry s' e) = ge_target (gq_entry s e) \<and> (ge_mixed (gq_entry s' e) \<longrightarrow> ge_mixed (gq_entry s e))"
  proof (cases "ge_busy (gq_entry ?s1 e)")
    case False
    have e1: "jget (gq_entries ?s1) key = Some e" using a1 assms(1) by simp
    have lt: "e < gq_next ?s1" using geo_invD(4) [OF i1] jget_SomeD [OF e1] by blast
    have "runsOf e ?s1 = []" by (rule idle_no_runs [OF i1 lt False])
    moreover have "gr_entry run1 = e" if "jget (gq_runs ?s1) r = Some run1" for run1
    proof -
      obtain run0 where run0: "jget (gq_runs (settleApply r True s)) r = Some run0"
        using apply_keeps_run [OF assms(2)] by blast
      show ?thesis using read_same_entry [OF run0 that] apply_same_entry [OF assms(2) run0] assms(3) by simp
    qed
    ultimately have none: "jget (gq_runs ?s1) r = None"
      by (cases "jget (gq_runs ?s1) r") (auto simp: runsOf_def filter_empty_conv dest!: jget_SomeD)
    then have "?s2 = ?s1" by (simp add: settleApply_def settleRead_def)
    then show ?thesis using a1 False by (simp add: s')
  next
    case True
    then obtain run1 where run1: "jget (gq_runs ?s1) r = Some run1" "gr_phase run1 = Applying" "gr_entry run1 = e"
      "ge_pending (gq_entry ?s1 e) = None" using a1 by blast
    have e1: "jget (gq_entries ?s1) key = Some (gr_entry run1)" using a1 assms(1) run1(3) by simp
    note a2 = attempt_answered [OF i1 run1(1,2) e1, of res2, unfolded run1(3)]
    show ?thesis using a1 a2 run1(4) by (auto simp: s')
  qed
  have e': "jget (gq_entries s') key = Some e" using fin assms(1) by simp
  have lt: "e < gq_next s'" "\<not> ge_released (gq_entry s' e)"
    using geo_invD(4) [OF i2] jget_SomeD [OF e'] unfolding s' by blast+
  have "entry_ok (gq_entry s' e) (runsOf e s')" using geo_invD(7) [OF i2] lt(1) unfolding s' by blast
  then show ?thesis using fin e' lt(2) by (auto simp: entry_ok_def)
qed

theorem geometry_queue_settles_witness:
  "ge_applied (gq_entry (fold geo_step [GApply 0 True, GRead 0 ReadNull, GApply 0 True, GRead 0 ReadNull]
     (geo_run_from_start [GRequest ''s'' wide 1, GRequest ''s'' narrow 2])) 0) = Some narrow"
proof -
  let ?s = "geo_run_from_start [GRequest ''s'' wide 1, GRequest ''s'' narrow 2]"
  have "jget (gq_entries ?s) ''s'' = Some 0"
    "jget (gq_runs ?s) 0 = Some \<lparr>gr_key = ''s'', gr_entry = 0, gr_size = wide, gr_sizer = 1, gr_phase = Applying\<rparr>"
    "\<not> ge_mixed (gq_entry ?s 0)" "ge_target (gq_entry ?s 0) = Some narrow"
    by (simp_all add: geo_eval)
  from geometry_queue_settles [OF this(1,2) _ _ refl refl] this(3,4) show ?thesis by simp
qed

end
