(* ===== verification/Viewers.thy ===== *)
theory Viewers
  imports GeometryQueue
begin

text \<open>
  \<open>apps/server/api/src/api/ws/viewers.ts\<close> and the presence branches of \<open>handleSubshellMessage\<close>: who
  watches each subshell, how the pane is sized for them, and what they are told.  Terminal input is in
  \<open>InputHold\<close>.
\<close>

section \<open>State\<close>

text \<open>
  The fields of \<open>WsData\<close> these operations read.  \<open>vd_assigned\<close> says that the attach has assigned the
  data (until then there is no launcher and no viewer id); \<open>deviceLabel\<close> and \<open>since\<close> only ride along
  in the presence frame and are left out.
\<close>

record viewer_data =
  vd_assigned :: bool
  vd_viewerId :: string
  vd_subshellId :: string
  vd_capacity :: "(jsnum \<times> jsnum) option"
  vd_hidden :: bool
  vd_canInput :: bool
  vd_accessRevoked :: bool
  vd_inputClosed :: bool
  vd_detachedEarly :: bool
  vd_user :: "string option"

datatype server_frame =
    GeometryFrame grid
  | ViewersFrame string "viewer_capacity list" sizing_policy

text \<open>
  \<open>vs_frames\<close> and \<open>vs_closes\<close> record the frames handed to sockets and the \<open>ws.close\<close> calls.
  \<open>vs_stale\<close> is history: the subshells whose grid was not re-decided since a viewer joined or the
  attach moved the pane itself.
\<close>

record viewers_state =
  vs_data :: "nat \<Rightarrow> viewer_data"
  vs_live :: "(string, (string, nat) jmap) jmap"
  vs_policies :: "(string, sizing_policy) jmap"
  vs_geo :: geo_state
  vs_frames :: "(nat \<times> server_frame) list"
  vs_closes :: "(nat \<times> nat) list"
  vs_stale :: "string set"

abbreviation viewersOf :: "string \<Rightarrow> viewers_state \<Rightarrow> (string, nat) jmap" where
  "viewersOf sub s \<equiv> (case jget (vs_live s) sub of None \<Rightarrow> [] | Some m \<Rightarrow> m)"

abbreviation policyOf :: "string \<Rightarrow> viewers_state \<Rightarrow> sizing_policy" where
  "policyOf sub s \<equiv> (case jget (vs_policies s) sub of None \<Rightarrow> DEFAULT_SIZING | Some p \<Rightarrow> p)"

definition setData :: "nat \<Rightarrow> (viewer_data \<Rightarrow> viewer_data) \<Rightarrow> viewers_state \<Rightarrow> viewers_state" where
  "setData ws f s = s\<lparr>vs_data := (vs_data s)(ws := f (vs_data s ws))\<rparr>"

section \<open>Frames\<close>

text \<open>\<open>sendFrame\<close>: nothing reaches a revoked socket.\<close>

definition sendTo :: "nat \<Rightarrow> server_frame \<Rightarrow> viewers_state \<Rightarrow> viewers_state" where
  "sendTo ws f s = (if vd_accessRevoked (vs_data s ws) then s else s\<lparr>vs_frames := vs_frames s @ [(ws, f)]\<rparr>)"

definition broadcastToViewers :: "string \<Rightarrow> server_frame \<Rightarrow> viewers_state \<Rightarrow> viewers_state" where
  "broadcastToViewers sub f s = s\<lparr>vs_frames := vs_frames s @ map (\<lambda>(_, ws). (ws, f)) (viewersOf sub s)\<rparr>"

definition presenceOf :: "viewers_state \<Rightarrow> nat \<Rightarrow> viewer_capacity" where
  "presenceOf s ws = (let d = vs_data s ws in
     \<lparr>vc_id = vd_viewerId d, vc_capacity = vd_capacity d, vc_hidden = vd_hidden d, vc_canInput = Some (vd_canInput d)\<rparr>)"

definition broadcastViewers :: "string \<Rightarrow> viewers_state \<Rightarrow> viewers_state" where
  "broadcastViewers sub s =
     (let sockets = map snd (viewersOf sub s); presence = map (presenceOf s) sockets in
      fold (\<lambda>ws. sendTo ws (ViewersFrame (vd_viewerId (vs_data s ws)) presence (policyOf sub s))) sockets s)"

section \<open>Sizing\<close>

definition sharedGridFor :: "string \<Rightarrow> viewers_state \<Rightarrow> grid option" where
  "sharedGridFor sub s =
     (if viewersOf sub s = [] then None
      else resolveSharedGrid (map (presenceOf s) (map snd (viewersOf sub s))) (policyOf sub s))"

text \<open>\<open>requestPaneResize\<close>: the sizer is the launcher and tmux socket of the asking socket.\<close>

definition applySharedGeometry :: "string \<Rightarrow> nat \<Rightarrow> viewers_state \<Rightarrow> viewers_state" where
  "applySharedGeometry sub ws s =
     (let s1 = s\<lparr>vs_stale := vs_stale s - {sub}\<rparr> in
      case sharedGridFor sub s of
        None \<Rightarrow> s1
      | Some g \<Rightarrow> s1\<lparr>vs_geo := geoRequest sub g ws (vs_geo s1)\<rparr>)"

definition setSizingPolicy :: "string \<Rightarrow> sizing_policy \<Rightarrow> viewers_state \<Rightarrow> viewers_state" where
  "setSizingPolicy sub p s = s\<lparr>vs_policies := jset sub p (vs_policies s)\<rparr>"

definition seedPaneGeometry :: "string \<Rightarrow> grid \<Rightarrow> viewers_state \<Rightarrow> viewers_state" where
  "seedPaneGeometry sub g s = s\<lparr>vs_geo := geoSeed sub g (vs_geo s), vs_stale := insert sub (vs_stale s)\<rparr>"

section \<open>The registry\<close>

definition registerViewer :: "nat \<Rightarrow> string \<Rightarrow> viewers_state \<Rightarrow> viewers_state" where
  "registerViewer ws sub s =
     (let vid = vd_viewerId (vs_data s ws) in
      if vid = [] then s
      else s\<lparr>vs_live := jset sub (jset vid ws (viewersOf sub s)) (vs_live s), vs_stale := insert sub (vs_stale s)\<rparr>)"

definition detachViewer :: "nat \<Rightarrow> viewers_state \<Rightarrow> viewers_state" where
  "detachViewer ws s =
     (let d = vs_data s ws; sub = vd_subshellId d; vid = vd_viewerId d in
      if sub = [] \<or> vid = [] \<or> jget (viewersOf sub s) vid = None then s
      else
        (let vs = jdel vid (viewersOf sub s) in
         if vs = []
         then s\<lparr>vs_live := jdel sub (vs_live s), vs_policies := jdel sub (vs_policies s),
                vs_geo := geoRelease sub (vs_geo s)\<rparr>
         else
           (let s1 = s\<lparr>vs_live := jset sub vs (vs_live s),
                       vs_policies := (case jget (vs_policies s) sub of
                           Some p \<Rightarrow> (if pinnedViewerId p = Some vid then jdel sub (vs_policies s) else vs_policies s)
                         | None \<Rightarrow> vs_policies s)\<rparr>
            in broadcastViewers sub (applySharedGeometry sub ws s1))))"

definition cleanupSubshellWs :: "nat \<Rightarrow> viewers_state \<Rightarrow> viewers_state" where
  "cleanupSubshellWs ws s =
     detachViewer ws (setData ws (\<lambda>d. d\<lparr>vd_inputClosed := True,
        vd_detachedEarly := (if vd_viewerId d = [] then True else vd_detachedEarly d)\<rparr>) s)"

definition closeSocket :: "nat \<Rightarrow> nat \<Rightarrow> viewers_state \<Rightarrow> viewers_state" where
  "closeSocket ws code s = s\<lparr>vs_closes := vs_closes s @ [(ws, code)]\<rparr>"

text \<open>The callback \<open>trackTerminalSocket\<close> registers: the share that let this socket in is gone.\<close>

definition revokeSocket :: "nat \<Rightarrow> viewers_state \<Rightarrow> viewers_state" where
  "revokeSocket ws s =
     closeSocket ws 1012 (cleanupSubshellWs ws
       (setData ws (\<lambda>d. d\<lparr>vd_accessRevoked := True, vd_detachedEarly := True, vd_canInput := False\<rparr>) s))"

definition closeViewersForSubshell :: "string \<Rightarrow> nat \<Rightarrow> viewers_state \<Rightarrow> viewers_state" where
  "closeViewersForSubshell sub code s =
     fold (\<lambda>ws s. closeSocket ws code (detachViewer ws (setData ws (\<lambda>d. d\<lparr>vd_inputClosed := True\<rparr>) s)))
       (map snd (viewersOf sub s)) s"

definition closeAllViewers :: "nat \<Rightarrow> viewers_state \<Rightarrow> viewers_state" where
  "closeAllViewers code s = fold (\<lambda>ws. closeSocket ws code) (concat (map (\<lambda>(_, vs). map snd vs) (vs_live s))) s"

definition dropTerminalSocketsFor :: "string \<Rightarrow> viewers_state \<Rightarrow> viewers_state" where
  "dropTerminalSocketsFor user s =
     fold (\<lambda>ws. closeSocket ws 1012)
       (filter (\<lambda>ws. vd_user (vs_data s ws) = Some user) (concat (map (\<lambda>(_, vs). map snd vs) (vs_live s)))) s"

section \<open>Handlers\<close>

text \<open>
  The attach assigns its data (with a fresh viewer id \<open>uuid ws\<close>) and registers, unless the socket was
  closed or revoked while it was still looking things up.
\<close>

definition attachViewer ::
  "(nat \<Rightarrow> string) \<Rightarrow> nat \<Rightarrow> string \<Rightarrow> (jsnum \<times> jsnum) option \<Rightarrow> bool \<Rightarrow> bool \<Rightarrow> viewers_state \<Rightarrow> viewers_state" where
  "attachViewer uuid ws sub cap hidden can s =
     (if vd_assigned (vs_data s ws) \<or> sub = [] then s
      else
        (let s1 = setData ws (\<lambda>d. d\<lparr>vd_assigned := True, vd_viewerId := uuid ws, vd_subshellId := sub,
                      vd_capacity := cap, vd_hidden := hidden, vd_canInput := can\<rparr>) s
         in if vd_detachedEarly (vs_data s1 ws) then s1 else registerViewer ws sub s1))"

text \<open>The end of the attach, reached whether or not the viewer left meanwhile.\<close>

definition finishAttach :: "nat \<Rightarrow> viewers_state \<Rightarrow> viewers_state" where
  "finishAttach ws s =
     (if vd_assigned (vs_data s ws)
      then let sub = vd_subshellId (vs_data s ws) in applySharedGeometry sub ws (broadcastViewers sub s)
      else s)"

abbreviation admitted :: "viewers_state \<Rightarrow> nat \<Rightarrow> bool" where
  "admitted s ws \<equiv> vd_assigned (vs_data s ws) \<and> \<not> vd_accessRevoked (vs_data s ws) \<and> \<not> vd_inputClosed (vs_data s ws)"

definition handleVisibility :: "nat \<Rightarrow> bool \<Rightarrow> viewers_state \<Rightarrow> viewers_state" where
  "handleVisibility ws hidden s =
     (let d = vs_data s ws; sub = vd_subshellId d in
      if \<not> admitted s ws \<or> vd_hidden d = hidden then s
      else broadcastViewers sub (applySharedGeometry sub ws (setData ws (\<lambda>d. d\<lparr>vd_hidden := hidden\<rparr>) s)))"

definition handleSetSizing :: "nat \<Rightarrow> sizing_policy \<Rightarrow> viewers_state \<Rightarrow> viewers_state" where
  "handleSetSizing ws p s =
     (let d = vs_data s ws; sub = vd_subshellId d in
      if \<not> admitted s ws \<or> \<not> vd_canInput d then s
      else broadcastViewers sub (applySharedGeometry sub ws (setSizingPolicy sub p s)))"

definition handleResize :: "nat \<Rightarrow> jsnum \<Rightarrow> jsnum \<Rightarrow> viewers_state \<Rightarrow> viewers_state" where
  "handleResize ws cols rows s =
     (let d = vs_data s ws; sub = vd_subshellId d;
          s1 = applySharedGeometry sub ws (setData ws (\<lambda>d. d\<lparr>vd_capacity := Some (cols, rows)\<rparr>) s) in
      if \<not> admitted s ws then s
      else if vd_capacity d \<noteq> Some (cols, rows) then broadcastViewers sub s1 else s1)"

datatype viewer_event =
    VAttach nat string "(jsnum \<times> jsnum) option" bool bool
  | VSeed nat grid
  | VAttached nat
  | VVisibility nat bool
  | VSetSizing nat sizing_policy
  | VResize nat jsnum jsnum
  | VClose nat
  | VRevoke nat
  | VClosePane string nat
  | VCloseAll nat
  | VDropUser string
  | VApplied nat bool
  | VRead nat read_result

text \<open>\<open>onGeometry\<close> of the queue announces the measured grid to everyone watching.\<close>

fun viewers_step :: "(nat \<Rightarrow> string) \<Rightarrow> viewer_event \<Rightarrow> viewers_state \<Rightarrow> viewers_state" where
  "viewers_step uuid (VAttach ws sub cap hidden can) s = attachViewer uuid ws sub cap hidden can s"
| "viewers_step uuid (VSeed ws g) s =
     (if vd_assigned (vs_data s ws) then seedPaneGeometry (vd_subshellId (vs_data s ws)) g s else s)"
| "viewers_step uuid (VAttached ws) s = finishAttach ws s"
| "viewers_step uuid (VVisibility ws hidden) s = handleVisibility ws hidden s"
| "viewers_step uuid (VSetSizing ws p) s = handleSetSizing ws p s"
| "viewers_step uuid (VResize ws cols rows) s = handleResize ws cols rows s"
| "viewers_step uuid (VClose ws) s = cleanupSubshellWs ws s"
| "viewers_step uuid (VRevoke ws) s = revokeSocket ws s"
| "viewers_step uuid (VClosePane sub code) s = closeViewersForSubshell sub code s"
| "viewers_step uuid (VCloseAll code) s = closeAllViewers code s"
| "viewers_step uuid (VDropUser user) s = dropTerminalSocketsFor user s"
| "viewers_step uuid (VApplied r ok) s = s\<lparr>vs_geo := settleApply r ok (vs_geo s)\<rparr>"
| "viewers_step uuid (VRead r res) s =
     (case settleRead r res (vs_geo s) of
        (None, geo) \<Rightarrow> s\<lparr>vs_geo := geo\<rparr>
      | (Some (sub, g), geo) \<Rightarrow> broadcastToViewers sub (GeometryFrame g) (s\<lparr>vs_geo := geo\<rparr>))"

definition viewers_init :: "(nat \<Rightarrow> string option) \<Rightarrow> viewers_state" where
  "viewers_init user =
     \<lparr>vs_data = (\<lambda>ws. \<lparr>vd_assigned = False, vd_viewerId = [], vd_subshellId = [], vd_capacity = None,
         vd_hidden = False, vd_canInput = False, vd_accessRevoked = False, vd_inputClosed = False,
         vd_detachedEarly = False, vd_user = user ws\<rparr>),
      vs_live = [], vs_policies = [], vs_geo = geo_init, vs_frames = [], vs_closes = [], vs_stale = {}\<rparr>"

definition viewers_run :: "(nat \<Rightarrow> string) \<Rightarrow> (nat \<Rightarrow> string option) \<Rightarrow> viewer_event list \<Rightarrow> viewers_state" where
  "viewers_run uuid user es = fold (viewers_step uuid) es (viewers_init user)"


section \<open>What each change leaves alone\<close>

lemma setData_simps [simp]:
  "vs_live (setData ws f s) = vs_live s" "vs_policies (setData ws f s) = vs_policies s"
  "vs_geo (setData ws f s) = vs_geo s" "vs_frames (setData ws f s) = vs_frames s"
  "vs_closes (setData ws f s) = vs_closes s" "vs_stale (setData ws f s) = vs_stale s"
  "vs_data (setData ws f s) = (vs_data s)(ws := f (vs_data s ws))"
  by (simp_all add: setData_def)

lemma sendTo_simps [simp]:
  "vs_live (sendTo ws f s) = vs_live s" "vs_policies (sendTo ws f s) = vs_policies s"
  "vs_geo (sendTo ws f s) = vs_geo s" "vs_data (sendTo ws f s) = vs_data s"
  "vs_closes (sendTo ws f s) = vs_closes s" "vs_stale (sendTo ws f s) = vs_stale s"
  by (simp_all add: sendTo_def)

lemma fold_sendTo_simps [simp]:
  "vs_live (fold (\<lambda>ws. sendTo ws (F ws)) xs s) = vs_live s" "vs_policies (fold (\<lambda>ws. sendTo ws (F ws)) xs s) = vs_policies s"
  "vs_geo (fold (\<lambda>ws. sendTo ws (F ws)) xs s) = vs_geo s" "vs_data (fold (\<lambda>ws. sendTo ws (F ws)) xs s) = vs_data s"
  "vs_closes (fold (\<lambda>ws. sendTo ws (F ws)) xs s) = vs_closes s" "vs_stale (fold (\<lambda>ws. sendTo ws (F ws)) xs s) = vs_stale s"
  by (induction xs arbitrary: s) simp_all

lemma broadcastViewers_simps [simp]:
  "vs_live (broadcastViewers sub s) = vs_live s" "vs_policies (broadcastViewers sub s) = vs_policies s"
  "vs_geo (broadcastViewers sub s) = vs_geo s" "vs_data (broadcastViewers sub s) = vs_data s"
  "vs_closes (broadcastViewers sub s) = vs_closes s" "vs_stale (broadcastViewers sub s) = vs_stale s"
  by (simp_all add: broadcastViewers_def Let_def)

lemma broadcastToViewers_simps [simp]:
  "vs_live (broadcastToViewers sub f s) = vs_live s" "vs_policies (broadcastToViewers sub f s) = vs_policies s"
  "vs_geo (broadcastToViewers sub f s) = vs_geo s" "vs_data (broadcastToViewers sub f s) = vs_data s"
  "vs_closes (broadcastToViewers sub f s) = vs_closes s" "vs_stale (broadcastToViewers sub f s) = vs_stale s"
  by (simp_all add: broadcastToViewers_def)

lemma applySharedGeometry_simps [simp]:
  "vs_live (applySharedGeometry sub ws s) = vs_live s" "vs_policies (applySharedGeometry sub ws s) = vs_policies s"
  "vs_data (applySharedGeometry sub ws s) = vs_data s" "vs_frames (applySharedGeometry sub ws s) = vs_frames s"
  "vs_closes (applySharedGeometry sub ws s) = vs_closes s" "vs_stale (applySharedGeometry sub ws s) = vs_stale s - {sub}"
  by (simp_all add: applySharedGeometry_def Let_def split: option.split)

lemma closeSocket_simps [simp]:
  "vs_live (closeSocket ws c s) = vs_live s" "vs_policies (closeSocket ws c s) = vs_policies s"
  "vs_data (closeSocket ws c s) = vs_data s" "vs_frames (closeSocket ws c s) = vs_frames s"
  "vs_geo (closeSocket ws c s) = vs_geo s" "vs_stale (closeSocket ws c s) = vs_stale s"
  by (simp_all add: closeSocket_def)

section \<open>The registry\<close>

text \<open>
  Every registered viewer is an admitted socket under its own id and subshell (up to the sockets in
  \<open>X\<close>, which are being removed), every admitted socket is registered, and policies exist only for
  subshells somebody watches.
\<close>

definition listed_ok :: "(nat \<Rightarrow> string) \<Rightarrow> nat set \<Rightarrow> viewers_state \<Rightarrow> bool" where
  "listed_ok uuid X s \<longleftrightarrow>
     (\<forall>sub vm. (sub, vm) \<in> set (vs_live s) \<longrightarrow> sub \<noteq> [] \<and> vm \<noteq> [] \<and> jok vm \<and>
        (\<forall>v ws. (v, ws) \<in> set vm \<longrightarrow> v = uuid ws \<and> vd_subshellId (vs_data s ws) = sub \<and>
                 vd_assigned (vs_data s ws) \<and> (ws \<in> X \<or> admitted s ws)))"

definition found_ok :: "(nat \<Rightarrow> string) \<Rightarrow> viewers_state \<Rightarrow> bool" where
  "found_ok uuid s \<longleftrightarrow>
     (\<forall>ws. admitted s ws \<longrightarrow> jget (viewersOf (vd_subshellId (vs_data s ws)) s) (uuid ws) = Some ws)"

definition socket_ok :: "string \<Rightarrow> viewer_data \<Rightarrow> bool" where
  "socket_ok v d \<longleftrightarrow>
     vd_viewerId d = (if vd_assigned d then v else []) \<and>
     (vd_detachedEarly d \<longrightarrow> vd_inputClosed d \<or> vd_accessRevoked d) \<and>
     (vd_accessRevoked d \<or> vd_inputClosed d \<and> \<not> vd_assigned d \<longrightarrow> vd_detachedEarly d)"

definition reg_inv :: "(nat \<Rightarrow> string) \<Rightarrow> nat set \<Rightarrow> viewers_state \<Rightarrow> bool" where
  "reg_inv uuid X s \<longleftrightarrow>
     jok (vs_live s) \<and> listed_ok uuid X s \<and> found_ok uuid s \<and> (\<forall>ws. socket_ok (uuid ws) (vs_data s ws)) \<and>
     fst ` set (vs_policies s) \<subseteq> fst ` set (vs_live s) \<and> jok (vs_policies s)"

lemma reg_invD:
  assumes "reg_inv uuid X s"
  shows "jok (vs_live s)"
    "(sub, vm) \<in> set (vs_live s) \<Longrightarrow> sub \<noteq> [] \<and> vm \<noteq> [] \<and> jok vm"
    "(sub, vm) \<in> set (vs_live s) \<Longrightarrow> (v, ws) \<in> set vm \<Longrightarrow>
       v = uuid ws \<and> vd_subshellId (vs_data s ws) = sub \<and> vd_assigned (vs_data s ws) \<and> (ws \<in> X \<or> admitted s ws)"
    "admitted s ws \<Longrightarrow> jget (viewersOf (vd_subshellId (vs_data s ws)) s) (uuid ws) = Some ws"
    "socket_ok (uuid ws) (vs_data s ws)"
    "fst ` set (vs_policies s) \<subseteq> fst ` set (vs_live s)" "jok (vs_policies s)"
proof -
  note r = assms [unfolded reg_inv_def]
  have l: "listed_ok uuid X s" and f: "found_ok uuid s" using r by blast+
  show "jok (vs_live s)" "fst ` set (vs_policies s) \<subseteq> fst ` set (vs_live s)" "jok (vs_policies s)"
    "socket_ok (uuid ws) (vs_data s ws)" using r by blast+
  show "admitted s ws \<Longrightarrow> jget (viewersOf (vd_subshellId (vs_data s ws)) s) (uuid ws) = Some ws"
    using f unfolding found_ok_def by blast
  show "(sub, vm) \<in> set (vs_live s) \<Longrightarrow> sub \<noteq> [] \<and> vm \<noteq> [] \<and> jok vm"
    "(sub, vm) \<in> set (vs_live s) \<Longrightarrow> (v, ws) \<in> set vm \<Longrightarrow>
       v = uuid ws \<and> vd_subshellId (vs_data s ws) = sub \<and> vd_assigned (vs_data s ws) \<and> (ws \<in> X \<or> admitted s ws)"
    using l unfolding listed_ok_def by blast+
qed

lemma viewersOf_mem: "(v, ws) \<in> set (viewersOf sub s) \<Longrightarrow> \<exists>vm. (sub, vm) \<in> set (vs_live s) \<and> (v, ws) \<in> set vm"
  by (cases "jget (vs_live s) sub") (auto dest: jget_SomeD)

lemma reg_viewer:
  assumes "reg_inv uuid X s" "(v, ws) \<in> set (viewersOf sub s)"
  shows "v = uuid ws \<and> vd_subshellId (vs_data s ws) = sub \<and> vd_assigned (vs_data s ws) \<and> (ws \<in> X \<or> admitted s ws)"
  using viewersOf_mem [OF assms(2)] reg_invD(3) [OF assms(1)] by blast

lemma reg_jok_viewers: "reg_inv uuid X s \<Longrightarrow> jok (viewersOf sub s)"
  using reg_invD(2) [of uuid X s] by (auto split: option.split dest: jget_SomeD)

text \<open>The invariant reads the registry, the policies and a few data fields only.\<close>

lemma reg_inv_same:
  assumes "vs_live s' = vs_live s" "vs_policies s' = vs_policies s" "vs_data s' = vs_data s"
  shows "reg_inv uuid X s' = reg_inv uuid X s"
  unfolding reg_inv_def listed_ok_def found_ok_def assms by (rule refl)

lemma reg_inv_data:
  assumes inv: "reg_inv uuid X s"
    and f: "vd_assigned (f (vs_data s ws)) = vd_assigned (vs_data s ws)"
    "vd_viewerId (f (vs_data s ws)) = vd_viewerId (vs_data s ws)"
    "vd_subshellId (f (vs_data s ws)) = vd_subshellId (vs_data s ws)"
    "vd_accessRevoked (f (vs_data s ws)) = vd_accessRevoked (vs_data s ws)"
    "vd_inputClosed (f (vs_data s ws)) = vd_inputClosed (vs_data s ws)"
    "vd_detachedEarly (f (vs_data s ws)) = vd_detachedEarly (vs_data s ws)"
  shows "reg_inv uuid X (setData ws f s)"
proof -
  have same: "\<And>x. vd_assigned (vs_data (setData ws f s) x) = vd_assigned (vs_data s x)"
    "\<And>x. vd_viewerId (vs_data (setData ws f s) x) = vd_viewerId (vs_data s x)"
    "\<And>x. vd_subshellId (vs_data (setData ws f s) x) = vd_subshellId (vs_data s x)"
    "\<And>x. vd_accessRevoked (vs_data (setData ws f s) x) = vd_accessRevoked (vs_data s x)"
    "\<And>x. vd_inputClosed (vs_data (setData ws f s) x) = vd_inputClosed (vs_data s x)"
    "\<And>x. vd_detachedEarly (vs_data (setData ws f s) x) = vd_detachedEarly (vs_data s x)"
    using f by simp_all
  show ?thesis
    using inv unfolding reg_inv_def listed_ok_def found_ok_def socket_ok_def same setData_simps(1,2) .
qed

text \<open>Marking a socket closed or revoked puts it in \<open>X\<close>.\<close>

lemma reg_inv_mark:
  assumes inv: "reg_inv uuid X s"
    and d: "vd_assigned (f (vs_data s ws)) = vd_assigned (vs_data s ws)"
    "vd_viewerId (f (vs_data s ws)) = vd_viewerId (vs_data s ws)"
    "vd_subshellId (f (vs_data s ws)) = vd_subshellId (vs_data s ws)"
    and off: "vd_accessRevoked (f (vs_data s ws)) \<or> vd_inputClosed (f (vs_data s ws))"
    and early: "vd_accessRevoked (f (vs_data s ws)) \<or> \<not> vd_assigned (vs_data s ws) \<Longrightarrow> vd_detachedEarly (f (vs_data s ws))"
  shows "reg_inv uuid (insert ws X) (setData ws f s)"
proof -
  have "v = uuid w \<and> vd_subshellId (vs_data (setData ws f s) w) = sub \<and>
      vd_assigned (vs_data (setData ws f s) w) \<and> (w \<in> insert ws X \<or> admitted (setData ws f s) w)"
    if "(sub, vm) \<in> set (vs_live s)" "(v, w) \<in> set vm" for sub vm v w
    using reg_invD(3) [OF inv that] d by (cases "w = ws") auto
  then have "listed_ok uuid (insert ws X) (setData ws f s)"
    unfolding listed_ok_def setData_simps(1) using reg_invD(2) [OF inv] by blast
  moreover have "found_ok uuid (setData ws f s)"
    using reg_invD(4) [OF inv] off by (auto simp: found_ok_def)
  moreover have "socket_ok (uuid w) (vs_data (setData ws f s) w)" for w
    using reg_invD(5) [OF inv, of w] d off early by (auto simp: socket_ok_def)
  ultimately show ?thesis using reg_invD(1,6,7) [OF inv] by (simp add: reg_inv_def)
qed


section \<open>Detaching\<close>

lemma detach_live:
  "vs_live (detachViewer ws s) =
     (let d = vs_data s ws; sub = vd_subshellId d; vid = vd_viewerId d; vs = jdel vid (viewersOf sub s) in
      if sub = [] \<or> vid = [] \<or> jget (viewersOf sub s) vid = None then vs_live s
      else if vs = [] then jdel sub (vs_live s) else jset sub vs (vs_live s))"
  "vs_data (detachViewer ws s) = vs_data s"
  by (simp_all add: detachViewer_def Let_def)

lemma detach_policies:
  assumes "vd_subshellId (vs_data s ws) \<noteq> []" "vd_viewerId (vs_data s ws) \<noteq> []"
    "jget (viewersOf (vd_subshellId (vs_data s ws)) s) (vd_viewerId (vs_data s ws)) \<noteq> None"
  shows "vs_policies (detachViewer ws s) = vs_policies s \<and>
           jdel (vd_viewerId (vs_data s ws)) (viewersOf (vd_subshellId (vs_data s ws)) s) \<noteq> [] \<or>
         vs_policies (detachViewer ws s) = jdel (vd_subshellId (vs_data s ws)) (vs_policies s)"
  using assms by (auto simp: detachViewer_def Let_def split: option.splits)

text \<open>A socket that is off the air leaves the registry.\<close>

lemma unlisted_reg:
  assumes inv: "reg_inv uuid (insert ws X) s" and ne: "\<And>w. uuid w \<noteq> []"
    and no: "vd_subshellId (vs_data s ws) = [] \<or> vd_viewerId (vs_data s ws) = [] \<or>
      jget (viewersOf (vd_subshellId (vs_data s ws)) s) (vd_viewerId (vs_data s ws)) = None"
  shows "reg_inv uuid X s"
proof -
  have "w \<noteq> ws" if "(sub, vm) \<in> set (vs_live s)" "(v, w) \<in> set vm" for sub vm v w
  proof
    assume "w = ws"
    have r: "v = uuid ws" "vd_subshellId (vs_data s ws) = sub" "vd_assigned (vs_data s ws)"
      using reg_invD(3) [OF inv that] \<open>w = ws\<close> by auto
    have "vd_viewerId (vs_data s ws) = uuid ws" using reg_invD(5) [OF inv, of ws] r(3) by (simp add: socket_ok_def)
    moreover have "jget (vs_live s) sub = Some vm" using that(1) reg_invD(1) [OF inv] by (simp add: jget_Some_iff)
    moreover have "jget vm (uuid ws) = Some ws"
      using that(2) reg_invD(2) [OF inv that(1)] r(1) \<open>w = ws\<close> by (simp add: jget_Some_iff)
    ultimately show False using no r(2) ne reg_invD(2) [OF inv that(1)] by auto
  qed
  then have "listed_ok uuid X s" using reg_invD(2,3) [OF inv] unfolding listed_ok_def by blast
  then show ?thesis using inv by (simp add: reg_inv_def)
qed

lemma detach_reg:
  assumes inv: "reg_inv uuid (insert ws X) s" and ne: "\<And>w. uuid w \<noteq> []" and inj: "inj uuid"
    and off: "\<not> admitted s ws"
  shows "reg_inv uuid X (detachViewer ws s)"
proof (cases "vd_subshellId (vs_data s ws) = [] \<or> vd_viewerId (vs_data s ws) = [] \<or>
      jget (viewersOf (vd_subshellId (vs_data s ws)) s) (vd_viewerId (vs_data s ws)) = None")
  case True
  then have "detachViewer ws s = s" by (auto simp: detachViewer_def Let_def)
  then show ?thesis using unlisted_reg [OF inv ne True] by simp
next
  case False
  define sub where "sub = vd_subshellId (vs_data s ws)"
  define vid where "vid = vd_viewerId (vs_data s ws)"
  define vs where "vs = jdel vid (viewersOf sub s)"
  define s' where "s' = detachViewer ws s"
  have vid: "vid = uuid ws" using False reg_invD(5) [OF inv, of ws]
    by (simp add: vid_def socket_ok_def split: if_split_asm)
  have live: "vs_live s' = (if vs = [] then jdel sub (vs_live s) else jset sub vs (vs_live s))"
    unfolding s'_def detach_live(1) Let_def if_not_P [OF False] sub_def vid_def vs_def by (rule refl)
  have data: "vs_data s' = vs_data s" by (simp add: s'_def detach_live(2))
  have jokL: "jok (vs_live s)" and jokV: "jok (viewersOf sub s)" and jokP: "jok (vs_policies s)"
    using reg_invD(1,7) [OF inv] reg_jok_viewers [OF inv] by blast+
  have mem: "sub' \<noteq> sub \<and> (sub', vm) \<in> set (vs_live s) \<or> sub' = sub \<and> vm = vs \<and> vs \<noteq> []"
    if "(sub', vm) \<in> set (vs_live s')" for sub' vm
    using that jokL unfolding live by (auto simp: set_jdel jok_set_jset split: if_split_asm)
  have get: "jget (vs_live s') sub' = (if sub' = sub then (if vs = [] then None else Some vs) else jget (vs_live s) sub')" for sub'
    unfolding live by simp
  have viewers: "viewersOf sub' s' = (if sub' = sub then vs else viewersOf sub' s)" for sub'
    unfolding get by (simp split: option.split)
  have vs_mem: "w \<noteq> ws \<and> (v, w) \<in> set (viewersOf sub s)" if "(v, w) \<in> set vs" for v w
    using that reg_viewer [OF inv, of v w sub] vid by (auto simp: vs_def set_jdel)
  have "listed_ok uuid X s'"
    unfolding listed_ok_def data
  proof (intro allI impI, elim disjE [OF mem])
    fix sub' vm assume "sub' \<noteq> sub \<and> (sub', vm) \<in> set (vs_live s)"
    then show "sub' \<noteq> [] \<and> vm \<noteq> [] \<and> jok vm \<and> (\<forall>v w. (v, w) \<in> set vm \<longrightarrow> v = uuid w \<and> vd_subshellId (vs_data s w) = sub' \<and>
        vd_assigned (vs_data s w) \<and> (w \<in> X \<or> admitted s w))"
      using reg_invD(2,3) [OF inv, of sub' vm] by (auto simp: sub_def)
  next
    fix sub' vm assume m: "sub' = sub \<and> vm = vs \<and> vs \<noteq> []"
    have "v = uuid w \<and> vd_subshellId (vs_data s w) = sub \<and> vd_assigned (vs_data s w) \<and> (w \<in> X \<or> admitted s w)"
      if "(v, w) \<in> set vs" for v w
      using vs_mem [OF that] reg_viewer [OF inv, of v w sub] by auto
    moreover have "jok vs" unfolding vs_def by (rule jok_jdel [OF jokV])
    moreover have "sub \<noteq> []" using False by (simp add: sub_def)
    ultimately show "sub' \<noteq> [] \<and> vm \<noteq> [] \<and> jok vm \<and> (\<forall>v w. (v, w) \<in> set vm \<longrightarrow> v = uuid w \<and> vd_subshellId (vs_data s w) = sub' \<and>
        vd_assigned (vs_data s w) \<and> (w \<in> X \<or> admitted s w))" using m by blast
  qed
  moreover have "found_ok uuid s'"
    unfolding found_ok_def
  proof (intro allI impI)
    fix w assume "admitted s' w"
    then have w: "admitted s w" "w \<noteq> ws" using off by (auto simp: data)
    have "uuid w \<noteq> vid" using inj w(2) by (auto simp: vid dest: injD)
    then show "jget (viewersOf (vd_subshellId (vs_data s' w)) s') (uuid w) = Some w"
      using reg_invD(4) [OF inv w(1)] unfolding viewers data by (auto simp: vs_def)
  qed
  moreover have "jok (vs_live s')" using jokL by (auto simp: live)
  moreover have pol: "vs_policies s' = vs_policies s \<and> vs \<noteq> [] \<or> vs_policies s' = jdel sub (vs_policies s)"
    using detach_policies [of s ws] False unfolding s'_def vs_def sub_def vid_def by blast
  moreover have "fst ` set (vs_live s') = (if vs = [] then fst ` set (vs_live s) - {sub} else insert sub (fst ` set (vs_live s)))"
    by (simp add: live)
  then have "fst ` set (vs_policies s') \<subseteq> fst ` set (vs_live s')"
    using pol reg_invD(6) [OF inv] by (cases "vs = []") (elim disjE; simp; blast)+
  moreover have "jok (vs_policies s')" using pol jok_jdel [OF jokP, of sub] jokP by metis
  ultimately show ?thesis using reg_invD(5) [OF inv] by (simp add: reg_inv_def s'_def [symmetric] data)
qed


lemma jset_not_Nil: "jset k v m \<noteq> []"
  by (induction k v m rule: jset.induct) auto

lemma attach_reg:
  assumes inv: "reg_inv uuid {} s" and ne: "\<And>w. uuid w \<noteq> []" and inj: "inj uuid"
  shows "reg_inv uuid {} (attachViewer uuid ws sub cap hidden can s)"
proof (cases "vd_assigned (vs_data s ws) \<or> sub = []")
  case False
  define d where "d = (vs_data s ws)\<lparr>vd_assigned := True, vd_viewerId := uuid ws, vd_subshellId := sub,
                      vd_capacity := cap, vd_hidden := hidden, vd_canInput := can\<rparr>"
  define s1 where "s1 = setData ws (\<lambda>d. d\<lparr>vd_assigned := True, vd_viewerId := uuid ws, vd_subshellId := sub,
                      vd_capacity := cap, vd_hidden := hidden, vd_canInput := can\<rparr>) s"
  have s1: "vs_live s1 = vs_live s" "vs_policies s1 = vs_policies s" "vs_data s1 = (vs_data s)(ws := d)"
    by (simp_all add: s1_def d_def)
  have so: "socket_ok (uuid ws) (vs_data s ws)" by (rule reg_invD(5) [OF inv])
  have sock: "socket_ok (uuid w) (vs_data s1 w)" for w
    using reg_invD(5) [OF inv, of w] False by (auto simp: s1 d_def socket_ok_def)
  have unlisted: "w \<noteq> ws" if "(sub', vm) \<in> set (vs_live s)" "(v, w) \<in> set vm" for sub' vm v w
    using reg_invD(3) [OF inv that] False by auto
  have listed1: "listed_ok uuid {} s1"
    unfolding listed_ok_def
  proof (intro allI impI)
    fix sub' vm assume "(sub', vm) \<in> set (vs_live s1)"
    then have m: "(sub', vm) \<in> set (vs_live s)" by (simp add: s1)
    show "sub' \<noteq> [] \<and> vm \<noteq> [] \<and> jok vm \<and> (\<forall>v w. (v, w) \<in> set vm \<longrightarrow> v = uuid w \<and>
        vd_subshellId (vs_data s1 w) = sub' \<and> vd_assigned (vs_data s1 w) \<and> (w \<in> {} \<or> admitted s1 w))"
      using reg_invD(2,3) [OF inv m] unlisted [OF m] by (auto simp: s1)
  qed
  show ?thesis
  proof (cases "vd_detachedEarly d")
    case True
    then have "vd_inputClosed d \<or> vd_accessRevoked d" using sock [of ws] by (simp add: s1 socket_ok_def)
    then have "found_ok uuid s1" using reg_invD(4) [OF inv] by (auto simp: found_ok_def s1)
    then have "reg_inv uuid {} s1"
      using listed1 sock reg_invD(1,6,7) [OF inv] by (simp add: reg_inv_def s1)
    moreover have "attachViewer uuid ws sub cap hidden can s = s1"
      using False True by (simp add: attachViewer_def s1_def d_def)
    ultimately show ?thesis by simp
  next
    case fresh: False
    then have ad: "admitted s1 ws" using so False by (auto simp: s1 d_def socket_ok_def)
    define s' where "s' = attachViewer uuid ws sub cap hidden can s"
    have s': "vs_live s' = jset sub (jset (uuid ws) ws (viewersOf sub s)) (vs_live s)" "vs_policies s' = vs_policies s"
      "vs_data s' = vs_data s1"
      using False fresh ne
      by (simp_all add: s'_def attachViewer_def registerViewer_def Let_def s1_def [symmetric] s1) (simp_all add: d_def s1_def)
    have jokL: "jok (vs_live s)" and jokV: "jok (viewersOf sub s)"
      using reg_invD(1) [OF inv] reg_jok_viewers [OF inv] by blast+
    have mem: "sub' \<noteq> sub \<and> (sub', vm) \<in> set (vs_live s1) \<or> sub' = sub \<and> vm = jset (uuid ws) ws (viewersOf sub s)"
      if "(sub', vm) \<in> set (vs_live s')" for sub' vm
      using that jokL by (auto simp: s' s1 jok_set_jset)
    have mine: "v = uuid w \<and> vd_subshellId (vs_data s1 w) = sub \<and> vd_assigned (vs_data s1 w) \<and> admitted s1 w"
      if "(v, w) \<in> set (jset (uuid ws) ws (viewersOf sub s))" for v w
    proof (cases "w = ws")
      case True
      then have "v = uuid ws" using that jokV reg_viewer [OF inv, of v w sub] by (auto simp: jok_set_jset)
      then show ?thesis using True ad by (simp add: s1 d_def)
    next
      case w: False
      then have "(v, w) \<in> set (viewersOf sub s)" using that jokV by (auto simp: jok_set_jset)
      then show ?thesis using reg_viewer [OF inv] w by (auto simp: s1)
    qed
    have "listed_ok uuid {} s'"
      unfolding listed_ok_def
    proof (intro allI impI, elim disjE [OF mem])
      fix sub' vm assume m: "sub' \<noteq> sub \<and> (sub', vm) \<in> set (vs_live s1)"
      then show "sub' \<noteq> [] \<and> vm \<noteq> [] \<and> jok vm \<and> (\<forall>v w. (v, w) \<in> set vm \<longrightarrow> v = uuid w \<and>
        vd_subshellId (vs_data s' w) = sub' \<and> vd_assigned (vs_data s' w) \<and> (w \<in> {} \<or> admitted s' w))"
        using listed1 unfolding listed_ok_def s'(3) by blast
    next
      fix sub' vm assume m: "sub' = sub \<and> vm = jset (uuid ws) ws (viewersOf sub s)"
      have each: "v = uuid w \<and> vd_subshellId (vs_data s' w) = sub' \<and> vd_assigned (vs_data s' w) \<and>
          (w \<in> {} \<or> admitted s' w)" if "(v, w) \<in> set vm" for v w
      proof -
        have "(v, w) \<in> set (jset (uuid ws) ws (viewersOf sub s))" using that m by (simp only:)
        from mine [OF this] show ?thesis using m unfolding s'(3) by (simp only: simp_thms)
      qed
      have "vm \<noteq> []" using m jset_not_Nil by metis
      moreover have "jok vm" using m jok_jset [OF jokV] by metis
      moreover have "sub' \<noteq> []" using m False by blast
      ultimately show "sub' \<noteq> [] \<and> vm \<noteq> [] \<and> jok vm \<and> (\<forall>v w. (v, w) \<in> set vm \<longrightarrow> v = uuid w \<and>
        vd_subshellId (vs_data s' w) = sub' \<and> vd_assigned (vs_data s' w) \<and> (w \<in> {} \<or> admitted s' w))"
        using each by blast
    qed
    moreover have "found_ok uuid s'"
      unfolding found_ok_def
    proof (intro allI impI)
      fix w assume a: "admitted s' w"
      show "jget (viewersOf (vd_subshellId (vs_data s' w)) s') (uuid w) = Some w"
      proof (cases "w = ws")
        case True then show ?thesis by (simp add: s' s1 d_def)
      next
        case w: False
        then have "uuid w \<noteq> uuid ws" using inj by (auto dest: injD)
        moreover have "admitted s w" using a w by (simp add: s' s1)
        ultimately show ?thesis using reg_invD(4) [OF inv, of w] w
          by (cases "vd_subshellId (vs_data s w) = sub") (auto simp: s' s1)
      qed
    qed
    ultimately have "reg_inv uuid {} s'"
      using sock reg_invD(1,6,7) [OF inv] by (auto simp: reg_inv_def s' )
    then show ?thesis by (simp add: s'_def)
  qed
qed (use inv in \<open>auto simp: attachViewer_def\<close>)

section \<open>Where the queue is heading\<close>

definition targetOf :: "string \<Rightarrow> geo_state \<Rightarrow> grid option" where
  "targetOf key g = (case jget (gq_entries g) key of None \<Rightarrow> None | Some e \<Rightarrow> ge_target (gq_entry g e))"

lemma entry_distinct:
  assumes "geo_inv g" "jget (gq_entries g) k = Some e" "jget (gq_entries g) k' = Some e" shows "k = k'"
  using geo_invD(3) [OF assms(1)] jget_SomeD [OF assms(2)] jget_SomeD [OF assms(3)]
  by (force simp: distinct_map inj_on_def)

lemma targetOf_entryFor:
  assumes inv: "geo_inv g" and "entryFor key g = (e, g1)" and "key' \<noteq> key"
  shows "targetOf key' g1 = targetOf key' g"
proof (cases "jget (gq_entries g) key")
  case None
  then have g1: "gq_entries g1 = jset key e (gq_entries g)" "gq_entry g1 = (gq_entry g)(e := newEntry)" "e = gq_next g"
    using assms(2) by (auto simp: entryFor_def)
  have "e' \<noteq> e" if "jget (gq_entries g) key' = Some e'" for e'
    using geo_invD(4) [OF inv jget_SomeD [OF that]] g1(3) by simp
  then show ?thesis using assms(3) by (auto simp: targetOf_def g1 split: option.split)
qed (use assms in \<open>simp add: entryFor_def\<close>)

lemma targetOf_upd:
  assumes "geo_inv g" "jget (gq_entries g) key = Some e"
    "gq_entries g' = gq_entries g" "\<And>x. x \<noteq> e \<Longrightarrow> gq_entry g' x = gq_entry g x" "key' \<noteq> key"
  shows "targetOf key' g' = targetOf key' g"
proof (cases "jget (gq_entries g) key'")
  case (Some e')
  then have "e' \<noteq> e" using entry_distinct [OF assms(1,2)] assms(5) by blast
  then show ?thesis using Some assms(3,4) by (simp add: targetOf_def)
qed (simp add: targetOf_def assms(3))

lemma callApply_entry: "gq_entry (callApply r run s) = (gq_entry s)(gr_entry run :=
    (gq_entry s (gr_entry run))\<lparr>ge_mixed := False, ge_failed := False\<rparr>)"
  "gq_entries (callApply r run s) = gq_entries s" "gq_next (callApply r run s) = gq_next s"
  by (simp_all add: callApply_def)

lemma startRun_entry: "gq_entry (startRun key e sz sizer s) = (gq_entry s)(e :=
    (gq_entry s e)\<lparr>ge_busy := True, ge_mixed := False, ge_failed := False\<rparr>)"
  "gq_entries (startRun key e sz sizer s) = gq_entries s"
  by (simp_all add: startRun_def callApply_entry)

lemma targetOf_request:
  assumes inv: "geo_inv g" and "g_cols sz > 0" "g_rows sz > 0"
  shows "targetOf key (geoRequest key sz sizer g) = Some sz"
proof -
  obtain e g1 where e: "entryFor key g = (e, g1)" by fastforce
  have "jget (gq_entries g1) key = Some e" using entryFor_inv [OF inv e] by blast
  then show ?thesis using assms(2,3) by (simp add: geoRequest_def e Let_def targetOf_def startRun_entry)
qed

lemma targetOf_request_other:
  assumes inv: "geo_inv g" and "key' \<noteq> key"
  shows "targetOf key' (geoRequest key sz sizer g) = targetOf key' g"
proof -
  obtain e g1 where e: "entryFor key g = (e, g1)" by fastforce
  have g1: "geo_inv g1" "jget (gq_entries g1) key = Some e" using entryFor_inv [OF inv e] by blast+
  have "targetOf key' (geoRequest key sz sizer g) = targetOf key' (if g_cols sz \<le> 0 \<or> g_rows sz \<le> 0 then g else g1)"
    using assms(2) by (auto simp: geoRequest_def e Let_def startRun_entry intro!: targetOf_upd [OF g1])
  then show ?thesis using targetOf_entryFor [OF inv e assms(2)] by (simp split: if_splits)
qed

lemma targetOf_seed_other:
  assumes inv: "geo_inv g" and "key' \<noteq> key"
  shows "targetOf key' (geoSeed key sz g) = targetOf key' g"
proof -
  obtain e g1 where e: "entryFor key g = (e, g1)" by fastforce
  have g1: "geo_inv g1" "jget (gq_entries g1) key = Some e" using entryFor_inv [OF inv e] by blast+
  have "targetOf key' (geoSeed key sz g) = targetOf key' (if g_cols sz \<le> 0 \<or> g_rows sz \<le> 0 then g else g1)"
    using assms(2) by (auto simp: geoSeed_def e intro!: targetOf_upd [OF g1])
  then show ?thesis using targetOf_entryFor [OF inv e assms(2)] by (simp split: if_splits)
qed

lemma targetOf_release_other:
  assumes inv: "geo_inv g" and "key' \<noteq> key"
  shows "targetOf key' (geoRelease key g) = targetOf key' g"
proof (cases "jget (gq_entries g) key")
  case (Some e)
  have "e' \<noteq> e" if "jget (gq_entries g) key' = Some e'" for e'
    using entry_distinct [OF inv Some] that assms(2) by blast
  then show ?thesis using assms(2) Some by (auto simp: targetOf_def geoRelease_def split: option.split)
qed (use assms(2) in \<open>simp add: targetOf_def geoRelease_def split: option.split\<close>)

lemma targetOf_attempt: "targetOf key (afterAttempt r run g) = targetOf key g"
  by (simp add: afterAttempt_def Let_def finishRun_def callApply_entry targetOf_def split: option.split)

lemma targetOf_settle:
  "targetOf key (settleApply r ok g) = targetOf key g"
  "targetOf key (snd (settleRead r res g)) = targetOf key g"
proof -
  have upd: "targetOf key (updEntry e (\<lambda>en. en\<lparr>ge_failed := True\<rparr>) g) = targetOf key g" for e
    by (simp add: targetOf_def split: option.split)
  show "targetOf key (settleApply r ok g) = targetOf key g"
    by (simp add: settleApply_def targetOf_attempt upd split: option.split) (simp add: targetOf_def split: option.split)
  show "targetOf key (snd (settleRead r res g)) = targetOf key g"
    by (simp add: settleRead_def targetOf_attempt split: option.split)
qed


section \<open>The grid the viewers ask for\<close>

lemma extremeOf_in:
  assumes "vs \<noteq> []"
  shows "g_cols (gd_grid (extremeOf vs p r)) \<in> colsOf vs \<and> g_rows (gd_grid (extremeOf vs p r)) \<in> rowsOf vs"
  using assms by (cases p) (simp_all add: extremeOf_grid Min_in Max_in)

lemma shared_positive:
  assumes "resolveSharedGrid viewers policy = Some g"
  shows "g_cols g > 0 \<and> g_rows g > 0"
proof -
  let ?valid = "List.map_filter isSized viewers"
  have pos: "g_cols (sv_capacity v) > 0 \<and> g_rows (sv_capacity v) > 0" if "v \<in> set ?valid" for v
    using that isSized_positive by (auto simp: set_map_filter_iff)
  obtain d where d: "decideSharedGrid viewers policy = Some d" "g = gd_grid d"
    using assms by (auto simp: resolveSharedGrid_def)
  have ne: "?valid \<noteq> []" using d(1) by (auto simp: decideSharedGrid_def Let_def)
  have ext: "g_cols (gd_grid (extremeOf vs p r)) > 0 \<and> g_rows (gd_grid (extremeOf vs p r)) > 0"
    if "vs \<noteq> []" "set vs \<subseteq> set ?valid" for vs p r
    using extremeOf_in [OF that(1), of p r] pos that(2) by (auto simp: colsOf_def rowsOf_def)
  show ?thesis
  proof (cases "pinnedViewer ?valid policy")
    case (Some v)
    then have "v \<in> set ?valid" by (auto simp: pinnedViewer_def dest: find_SomeD split: sizing_mode.splits option.splits if_splits)
    then show ?thesis using d Some ne pos by (auto simp: decideSharedGrid_def Let_def)
  next
    case None
    then have dd: "d = autoDecision ?valid" using d(1) decideSharedGrid_unpinned [OF refl ne None] by simp
    have sub: "set r \<subseteq> set ?valid" if "r \<in> set (sharedRungs ?valid)" for r
      using that by (auto simp: sharedRungs_def)
    show ?thesis
    proof (cases "firstUsableRung (sharedRungs ?valid)")
      case (Some u)
      then obtain r where "r \<in> set (sharedRungs ?valid)" "u = usableOf r" "u \<noteq> []" using firstUsableRung_Some by blast
      then have "u \<noteq> []" "set u \<subseteq> set ?valid" using sub by (auto simp: usableOf_def)
      then show ?thesis using ext Some by (simp add: d(2) dd autoDecision_def)
    next
      case None
      have "find (\<lambda>r. r \<noteq> []) (sharedRungs ?valid) = Some r \<Longrightarrow> r \<noteq> [] \<and> set r \<subseteq> set ?valid" for r
        using find_SomeD [of "\<lambda>r. r \<noteq> []" "sharedRungs ?valid" r] sub by blast
      then show ?thesis using ext None ne by (auto simp: d(2) dd autoDecision_def Let_def split: option.split)
    qed
  qed
qed

lemma sharedGridFor_positive: "sharedGridFor sub s = Some g \<Longrightarrow> g_cols g > 0 \<and> g_rows g > 0"
  unfolding sharedGridFor_def by (auto split: if_split_asm dest: shared_positive)

lemma sharedGridFor_cong:
  assumes "jget (vs_live s') sub = jget (vs_live s) sub" "jget (vs_policies s') sub = jget (vs_policies s) sub"
    and "\<And>v ws. (v, ws) \<in> set (viewersOf sub s) \<Longrightarrow> presenceOf s' ws = presenceOf s ws"
  shows "sharedGridFor sub s' = sharedGridFor sub s"
proof -
  have "map (presenceOf s') (map snd (viewersOf sub s)) = map (presenceOf s) (map snd (viewersOf sub s))"
    using assms(3) by auto
  then show ?thesis unfolding sharedGridFor_def assms(1,2) by (simp only:)
qed

text \<open>Outside \<open>A\<close> the queue heads for what the viewers ask for.\<close>

definition tgt_ok :: "string set \<Rightarrow> viewers_state \<Rightarrow> bool" where
  "tgt_ok A s \<longleftrightarrow>
     (\<forall>sub g. sub \<notin> A \<and> sharedGridFor sub s = Some g \<longrightarrow> targetOf sub (vs_geo s) = Some g)"

lemma tgt_ok_mono: "tgt_ok A s \<Longrightarrow> A \<subseteq> B \<Longrightarrow> tgt_ok B s"
  unfolding tgt_ok_def by blast

lemma tgt_ok_same:
  assumes "tgt_ok A s" "\<And>sub. sub \<notin> A \<Longrightarrow> sharedGridFor sub s' = sharedGridFor sub s \<or> sharedGridFor sub s' = None"
    "\<And>sub. sub \<notin> A \<Longrightarrow> targetOf sub (vs_geo s') = targetOf sub (vs_geo s)"
  shows "tgt_ok A s'"
  using assms unfolding tgt_ok_def by (metis option.distinct(1))

lemma apply_tgt:
  assumes inv: "geo_inv (vs_geo s)" and t: "tgt_ok (insert sub A) s"
  shows "tgt_ok (A - {sub}) (applySharedGeometry sub ws s)"
proof -
  let ?s = "applySharedGeometry sub ws s"
  have same: "sharedGridFor sub' ?s = sharedGridFor sub' s" for sub'
    by (rule sharedGridFor_cong) (simp_all add: presenceOf_def)
  have "targetOf sub' (vs_geo ?s) = Some g" if "sub' \<notin> A - {sub}" "sharedGridFor sub' s = Some g" for sub' g
  proof (cases "sub' = sub")
    case True
    then show ?thesis using that(2) targetOf_request [OF inv] sharedGridFor_positive [OF that(2)]
      by (simp add: applySharedGeometry_def)
  next
    case False
    then have "targetOf sub' (vs_geo s) = Some g" using t that unfolding tgt_ok_def by blast
    then show ?thesis using targetOf_request_other [OF inv False]
      by (simp add: applySharedGeometry_def Let_def split: option.split)
  qed
  then show ?thesis unfolding tgt_ok_def same by blast
qed

lemma apply_geo_inv: "geo_inv (vs_geo s) \<Longrightarrow> geo_inv (vs_geo (applySharedGeometry sub ws s))"
  by (simp add: applySharedGeometry_def Let_def geoRequest_inv split: option.split)

section \<open>The invariant of the whole module\<close>

definition viewers_inv :: "(nat \<Rightarrow> string) \<Rightarrow> viewers_state \<Rightarrow> bool" where
  "viewers_inv uuid s \<longleftrightarrow> reg_inv uuid {} s \<and> geo_inv (vs_geo s) \<and> tgt_ok (vs_stale s) s"

text \<open>A change of one socket's data concerns the subshell it is attached to only.\<close>

lemma setData_shared:
  assumes inv: "reg_inv uuid X s" and "sub \<noteq> vd_subshellId (vs_data s ws)"
  shows "sharedGridFor sub (setData ws f s) = sharedGridFor sub s"
  by (rule sharedGridFor_cong) (use assms(2) reg_viewer [OF inv] in \<open>auto simp: presenceOf_def\<close>)

lemma setData_shared_same:
  assumes "presenceOf (setData ws f s) ws = presenceOf s ws"
  shows "sharedGridFor sub (setData ws f s) = sharedGridFor sub s"
proof (rule sharedGridFor_cong)
  fix w show "presenceOf (setData ws f s) w = presenceOf s w"
    using assms by (cases "w = ws") (simp_all add: presenceOf_def)
qed simp_all

text \<open>Detaching a socket: its subshell's grid is decided again, or nobody watches it any more.\<close>

lemma detach_tgt:
  assumes reg: "reg_inv uuid X s" and inv: "geo_inv (vs_geo s)"
    and t: "tgt_ok (insert (vd_subshellId (vs_data s ws)) (vs_stale s)) s"
    and un: "jget (viewersOf (vd_subshellId (vs_data s ws)) s) (vd_viewerId (vs_data s ws)) = None \<or>
       vd_subshellId (vs_data s ws) = [] \<or> vd_viewerId (vs_data s ws) = [] \<Longrightarrow> tgt_ok (vs_stale s) s"
  shows "geo_inv (vs_geo (detachViewer ws s)) \<and> tgt_ok (vs_stale (detachViewer ws s)) (detachViewer ws s)"
proof -
  define sub where "sub = vd_subshellId (vs_data s ws)"
  define vid where "vid = vd_viewerId (vs_data s ws)"
  define vs where "vs = jdel vid (viewersOf sub s)"
  consider (absent) "sub = [] \<or> vid = [] \<or> jget (viewersOf sub s) vid = None"
    | (last) "\<not> (sub = [] \<or> vid = [] \<or> jget (viewersOf sub s) vid = None)" "vs = []"
    | (more) "\<not> (sub = [] \<or> vid = [] \<or> jget (viewersOf sub s) vid = None)" "vs \<noteq> []" by argo
  then show ?thesis
  proof cases
    case absent
    then have "detachViewer ws s = s" by (auto simp: detachViewer_def Let_def sub_def vid_def)
    then show ?thesis using inv un absent by (auto simp: sub_def vid_def)
  next
    case last
    define s' where "s' = detachViewer ws s"
    have s': "s' = s\<lparr>vs_live := jdel sub (vs_live s), vs_policies := jdel sub (vs_policies s),
                vs_geo := geoRelease sub (vs_geo s)\<rparr>"
      unfolding s'_def detachViewer_def Let_def sub_def [symmetric] vid_def [symmetric] vs_def [symmetric]
      unfolding if_not_P [OF last(1)] if_P [OF last(2)] by (rule refl)
    have none: "sharedGridFor sub s' = None" by (simp add: sharedGridFor_def s')
    have other: "sharedGridFor sub' s' = sharedGridFor sub' s" if "sub' \<noteq> sub" for sub'
      by (rule sharedGridFor_cong) (use that in \<open>simp_all add: s' presenceOf_def\<close>)
    have "targetOf sub' (vs_geo s') = Some g" if "sub' \<notin> vs_stale s" "sharedGridFor sub' s' = Some g" for sub' g
    proof -
      have ne: "sub' \<noteq> sub" using that(2) none by auto
      then have "targetOf sub' (vs_geo s) = Some g" using t that other [OF ne] by (auto simp: tgt_ok_def sub_def)
      then show ?thesis using targetOf_release_other [OF inv ne] by (simp add: s')
    qed
    then have "tgt_ok (vs_stale s') s'" by (simp add: tgt_ok_def s')
    then show ?thesis using geoRelease_inv [OF inv] by (simp add: s'_def [symmetric]) (simp add: s')
  next
    case more
    define s1 where "s1 = s\<lparr>vs_live := jset sub vs (vs_live s),
                       vs_policies := (case jget (vs_policies s) sub of
                           Some p \<Rightarrow> (if pinnedViewerId p = Some vid then jdel sub (vs_policies s) else vs_policies s)
                         | None \<Rightarrow> vs_policies s)\<rparr>"
    have s': "detachViewer ws s = broadcastViewers sub (applySharedGeometry sub ws s1)"
      unfolding detachViewer_def Let_def sub_def [symmetric] vid_def [symmetric] vs_def [symmetric] s1_def
      unfolding if_not_P [OF more(1)] if_not_P [OF more(2)] by (rule refl)
    have other: "sharedGridFor sub' s1 = sharedGridFor sub' s" if "sub' \<noteq> sub" for sub'
      by (rule sharedGridFor_cong) (use that in \<open>simp_all add: s1_def presenceOf_def split: option.split\<close>)
    have st: "vs_stale s1 = vs_stale s" "vs_geo s1 = vs_geo s" by (simp_all add: s1_def)
    have "tgt_ok (insert sub (vs_stale s1)) s1"
      unfolding st by (rule tgt_ok_same [OF t [folded sub_def]]) (auto simp: other st)
    then have "tgt_ok (vs_stale s - {sub}) (applySharedGeometry sub ws s1)"
      using apply_tgt [of s1 sub "vs_stale s1" ws] inv by (simp add: s1_def)
    moreover have "sharedGridFor x (broadcastViewers sub (applySharedGeometry sub ws s1)) =
        sharedGridFor x (applySharedGeometry sub ws s1)" for x
      by (rule sharedGridFor_cong) (simp_all add: presenceOf_def)
    ultimately show ?thesis unfolding s' using apply_geo_inv [of s1 sub ws] inv
      by (simp add: tgt_ok_def) (simp add: s1_def)
  qed
qed


lemma viewers_invI: "reg_inv uuid {} s \<Longrightarrow> geo_inv (vs_geo s) \<Longrightarrow> tgt_ok (vs_stale s) s \<Longrightarrow> viewers_inv uuid s"
  by (simp add: viewers_inv_def)

lemma viewers_invD:
  "viewers_inv uuid s \<Longrightarrow> reg_inv uuid {} s" "viewers_inv uuid s \<Longrightarrow> geo_inv (vs_geo s)"
  "viewers_inv uuid s \<Longrightarrow> tgt_ok (vs_stale s) s"
  by (simp_all add: viewers_inv_def)

text \<open>A state that differs in its logs only.\<close>

lemma viewers_inv_logs:
  assumes "viewers_inv uuid s" "vs_live s' = vs_live s" "vs_policies s' = vs_policies s" "vs_data s' = vs_data s"
    "vs_geo s' = vs_geo s" "vs_stale s' = vs_stale s"
  shows "viewers_inv uuid s'"
proof -
  have "sharedGridFor sub s' = sharedGridFor sub s" for sub
    by (rule sharedGridFor_cong) (simp_all add: assms presenceOf_def)
  then show ?thesis using assms(1) reg_inv_same [OF assms(2-4)] by (simp add: viewers_inv_def tgt_ok_def assms(5,6))
qed

lemma listed_lookup:
  assumes inv: "reg_inv uuid X s" and ne: "\<And>w. uuid w \<noteq> []" and m: "(v, ws) \<in> set (viewersOf sub s)"
  shows "vd_subshellId (vs_data s ws) = sub \<and> sub \<noteq> [] \<and> vd_viewerId (vs_data s ws) = uuid ws \<and>
         jget (viewersOf sub s) (uuid ws) = Some ws"
proof -
  have r: "v = uuid ws" "vd_subshellId (vs_data s ws) = sub" "vd_assigned (vs_data s ws)"
    using reg_viewer [OF inv m] by blast+
  obtain vm where "(sub, vm) \<in> set (vs_live s)" using viewersOf_mem [OF m] by blast
  then have "sub \<noteq> []" using reg_invD(2) [OF inv] by blast
  moreover have "vd_viewerId (vs_data s ws) = uuid ws" using reg_invD(5) [OF inv, of ws] r(3) by (simp add: socket_ok_def)
  moreover have "jget (viewersOf sub s) (uuid ws) = Some ws"
    using m r(1) reg_jok_viewers [OF inv, of sub] by (simp add: jget_Some_iff)
  ultimately show ?thesis using r(2) by blast
qed

text \<open>Taking a socket off the air and detaching it.\<close>

lemma off_air_inv:
  assumes inv: "viewers_inv uuid s" and ne: "\<And>w. uuid w \<noteq> []" and inj: "inj uuid"
    and d: "vd_assigned (f (vs_data s ws)) = vd_assigned (vs_data s ws)"
    "vd_viewerId (f (vs_data s ws)) = vd_viewerId (vs_data s ws)"
    "vd_subshellId (f (vs_data s ws)) = vd_subshellId (vs_data s ws)"
    and off: "vd_accessRevoked (f (vs_data s ws)) \<or> vd_inputClosed (f (vs_data s ws))"
    and early: "vd_accessRevoked (f (vs_data s ws)) \<or> \<not> vd_assigned (vs_data s ws) \<Longrightarrow> vd_detachedEarly (f (vs_data s ws))"
  shows "viewers_inv uuid (detachViewer ws (setData ws f s))"
proof -
  let ?s = "setData ws f s"
  note reg = viewers_invD(1) [OF inv] and tgt = viewers_invD(3) [OF inv]
  have reg1: "reg_inv uuid (insert ws {}) ?s" using reg_inv_mark [where f = f and ws = ws, OF reg] d off early by blast
  have "tgt_ok (insert (vd_subshellId (vs_data ?s ws)) (vs_stale ?s)) ?s"
    by (rule tgt_ok_same [OF tgt_ok_mono [OF tgt]]) (use setData_shared [OF reg] d(3) in auto)
  moreover have "tgt_ok (vs_stale ?s) ?s"
    if un: "jget (viewersOf (vd_subshellId (vs_data ?s ws)) ?s) (vd_viewerId (vs_data ?s ws)) = None \<or>
       vd_subshellId (vs_data ?s ws) = [] \<or> vd_viewerId (vs_data ?s ws) = []"
  proof -
    have no: "w \<noteq> ws" if m: "(v, w) \<in> set (viewersOf sub s)" for v w sub
    proof
      assume "w = ws"
      have "vd_subshellId (vs_data s ws) = sub \<and> sub \<noteq> [] \<and> vd_viewerId (vs_data s ws) = uuid ws \<and>
          jget (viewersOf sub s) (uuid ws) = Some ws"
        using listed_lookup [OF reg ne m] \<open>w = ws\<close> by simp
      then show False using un d(2,3) ne by simp
    qed
    have "sharedGridFor sub ?s = sharedGridFor sub s" for sub
      by (rule sharedGridFor_cong) (use no in \<open>auto simp: presenceOf_def\<close>)
    then show ?thesis using tgt by (simp add: tgt_ok_def)
  qed
  ultimately have "geo_inv (vs_geo (detachViewer ws ?s)) \<and> tgt_ok (vs_stale (detachViewer ws ?s)) (detachViewer ws ?s)"
    by (intro detach_tgt [OF reg1]) (use viewers_invD(2) [OF inv] in simp_all)
  moreover have "\<not> admitted ?s ws" using off by simp
  then have "reg_inv uuid {} (detachViewer ws ?s)" by (rule detach_reg [OF reg1 ne inj])
  ultimately show ?thesis by (simp add: viewers_inv_def)
qed

text \<open>A change of what one viewer shows or reports, followed by the new decision.\<close>

lemma redecide_inv:
  assumes inv: "viewers_inv uuid s"
    and reg: "reg_inv uuid {} s'" and same: "vs_geo s' = vs_geo s" "vs_stale s' = vs_stale s"
    and other: "\<And>sub'. sub' \<noteq> sub \<Longrightarrow> sharedGridFor sub' s' = sharedGridFor sub' s"
  shows "viewers_inv uuid (applySharedGeometry sub ws s')"
proof (rule viewers_invI)
  have "tgt_ok (insert sub (vs_stale s')) s'"
    unfolding same(2) by (rule tgt_ok_same [OF tgt_ok_mono [OF viewers_invD(3) [OF inv]]]) (auto simp: other same)
  then show "tgt_ok (vs_stale (applySharedGeometry sub ws s')) (applySharedGeometry sub ws s')"
    using apply_tgt [of s' sub "vs_stale s'" ws] viewers_invD(2) [OF inv] same by simp
  show "geo_inv (vs_geo (applySharedGeometry sub ws s'))"
    using apply_geo_inv viewers_invD(2) [OF inv] same by simp
  show "reg_inv uuid {} (applySharedGeometry sub ws s')"
    using reg reg_inv_same [of "applySharedGeometry sub ws s'" s' uuid "{}"] by simp
qed

lemma broadcast_shared: "sharedGridFor sub' (broadcastViewers sub s) = sharedGridFor sub' s"
  by (rule sharedGridFor_cong) (simp_all add: presenceOf_def)

lemma broadcast_reg: "reg_inv uuid X (broadcastViewers sub s) = reg_inv uuid X s"
  by (rule reg_inv_same) simp_all

lemma broadcast_inv: "viewers_inv uuid s \<Longrightarrow> viewers_inv uuid (broadcastViewers sub s)"
  by (rule viewers_inv_logs) simp_all

lemma closeSocket_inv: "viewers_inv uuid s \<Longrightarrow> viewers_inv uuid (closeSocket ws c s)"
  by (rule viewers_inv_logs) simp_all

lemma fold_closeSocket_inv: "viewers_inv uuid s \<Longrightarrow> viewers_inv uuid (fold (\<lambda>ws. closeSocket ws c) xs s)"
  by (induction xs arbitrary: s) (auto intro: closeSocket_inv)

lemma attach_inv:
  assumes inv: "viewers_inv uuid s" and ne: "\<And>w. uuid w \<noteq> []" and inj: "inj uuid"
  shows "viewers_inv uuid (attachViewer uuid ws sub cap hidden can s)"
proof (cases "vd_assigned (vs_data s ws) \<or> sub = []")
  case False
  let ?s = "attachViewer uuid ws sub cap hidden can s"
  note reg = viewers_invD(1) [OF inv]
  have no: "w \<noteq> ws" if m: "(v, w) \<in> set (viewersOf sub' s)" for v w sub'
    using reg_viewer [OF reg m] False by auto
  have geo: "vs_geo ?s = vs_geo s" "vs_stale ?s = vs_stale s \<and> vs_live ?s = vs_live s \<or> vs_stale ?s = insert sub (vs_stale s)"
    "vs_policies ?s = vs_policies s"
    by (auto simp: attachViewer_def registerViewer_def Let_def)
  have live: "jget (vs_live ?s) sub' = jget (vs_live s) sub'" if "sub' \<noteq> sub" for sub'
    using that by (simp add: attachViewer_def registerViewer_def Let_def)
  have data: "vs_data ?s w = vs_data s w" if "w \<noteq> ws" for w
    using that by (simp add: attachViewer_def registerViewer_def Let_def)
  have shared: "sharedGridFor sub' ?s = sharedGridFor sub' s" if "sub' \<notin> vs_stale ?s" for sub'
    by (rule sharedGridFor_cong) (use that geo live data no in \<open>auto simp: presenceOf_def\<close>)
  show ?thesis
  proof (rule viewers_invI [OF attach_reg [OF reg ne inj]])
    show "tgt_ok (vs_stale ?s) ?s"
      by (rule tgt_ok_same [OF tgt_ok_mono [OF viewers_invD(3) [OF inv]]]) (use geo shared in auto)
  qed (use geo viewers_invD(2) [OF inv] in simp)
qed (use inv in \<open>auto simp: attachViewer_def\<close>)

lemma seed_inv:
  assumes inv: "viewers_inv uuid s"
  shows "viewers_inv uuid (seedPaneGeometry sub g s)"
proof (rule viewers_invI)
  have "sharedGridFor sub' (seedPaneGeometry sub g s) = sharedGridFor sub' s" for sub'
    by (rule sharedGridFor_cong) (simp_all add: seedPaneGeometry_def presenceOf_def)
  then show "tgt_ok (vs_stale (seedPaneGeometry sub g s)) (seedPaneGeometry sub g s)"
    by (intro tgt_ok_same [OF tgt_ok_mono [OF viewers_invD(3) [OF inv]]])
       (auto simp: seedPaneGeometry_def targetOf_seed_other [OF viewers_invD(2) [OF inv]])
  show "reg_inv uuid {} (seedPaneGeometry sub g s)"
    using viewers_invD(1) [OF inv] reg_inv_same [of "seedPaneGeometry sub g s" s] by (simp add: seedPaneGeometry_def)
qed (use geoSeed_inv [OF viewers_invD(2) [OF inv]] in \<open>simp add: seedPaneGeometry_def\<close>)

lemma geo_change_inv:
  assumes inv: "viewers_inv uuid s" and "geo_inv geo" "\<And>key. targetOf key geo = targetOf key (vs_geo s)"
  shows "viewers_inv uuid (s\<lparr>vs_geo := geo\<rparr>)"
proof (rule viewers_invI)
  have "sharedGridFor sub' (s\<lparr>vs_geo := geo\<rparr>) = sharedGridFor sub' s" for sub'
    by (rule sharedGridFor_cong) (simp_all add: presenceOf_def)
  then show "tgt_ok (vs_stale (s\<lparr>vs_geo := geo\<rparr>)) (s\<lparr>vs_geo := geo\<rparr>)"
    using viewers_invD(3) [OF inv] assms(3) by (simp add: tgt_ok_def)
  show "reg_inv uuid {} (s\<lparr>vs_geo := geo\<rparr>)"
    using viewers_invD(1) [OF inv] reg_inv_same [of "s\<lparr>vs_geo := geo\<rparr>" s] by simp
qed (use assms(2) in simp)

lemma policy_reg:
  assumes inv: "reg_inv uuid {} s" and "admitted s ws"
  shows "reg_inv uuid {} (setSizingPolicy (vd_subshellId (vs_data s ws)) p s)"
proof -
  have "vd_subshellId (vs_data s ws) \<in> fst ` set (vs_live s)"
    using reg_invD(4) [OF inv assms(2)]
    by (cases "jget (vs_live s) (vd_subshellId (vs_data s ws))") (auto dest!: jget_SomeD intro: rev_image_eqI)
  then show ?thesis
    using inv by (auto simp: reg_inv_def setSizingPolicy_def listed_ok_def found_ok_def)
qed

lemma viewers_step_inv:
  assumes inv: "viewers_inv uuid s" and ne: "\<And>w. uuid w \<noteq> []" and inj: "inj uuid"
  shows "viewers_inv uuid (viewers_step uuid e s)"
proof -
  note reg = viewers_invD(1) [OF inv]
  have off: "vd_detachedEarly (vs_data s ws)" if "vd_accessRevoked (vs_data s ws)" for ws
    using reg_invD(5) [OF reg, of ws] that by (simp add: socket_ok_def)
  have early: "vd_viewerId (vs_data s ws) = []" if "\<not> vd_assigned (vs_data s ws)" for ws
    using reg_invD(5) [OF reg, of ws] that by (simp add: socket_ok_def)
  show ?thesis
  proof (cases e)
    case (VAttach ws sub cap hidden can) then show ?thesis using attach_inv [OF inv ne inj] by simp
  next
    case (VSeed ws g) then show ?thesis using seed_inv [OF inv] inv by simp
  next
    case (VAttached ws)
    have "viewers_inv uuid (applySharedGeometry sub ws (broadcastViewers sub s))" for sub
      by (rule redecide_inv [OF inv]) (simp_all add: broadcast_reg broadcast_shared reg)
    then show ?thesis using VAttached inv by (simp add: finishAttach_def Let_def)
  next
    case (VVisibility ws hidden)
    have "viewers_inv uuid (applySharedGeometry (vd_subshellId (vs_data s ws)) ws (setData ws (\<lambda>d. d\<lparr>vd_hidden := hidden\<rparr>) s))"
      by (rule redecide_inv [OF inv reg_inv_data [OF reg]]) (simp_all add: setData_shared [OF reg])
    then show ?thesis using VVisibility inv by (simp add: handleVisibility_def Let_def broadcast_inv)
  next
    case (VSetSizing ws p)
    have "viewers_inv uuid (applySharedGeometry (vd_subshellId (vs_data s ws)) ws (setSizingPolicy (vd_subshellId (vs_data s ws)) p s))"
      if "admitted s ws"
      by (rule redecide_inv [OF inv policy_reg [OF reg that]])
         (auto simp: setSizingPolicy_def presenceOf_def intro!: sharedGridFor_cong)
    then show ?thesis using VSetSizing inv by (simp add: handleSetSizing_def Let_def broadcast_inv)
  next
    case (VResize ws cols rows)
    have "viewers_inv uuid (applySharedGeometry (vd_subshellId (vs_data s ws)) ws (setData ws (\<lambda>d. d\<lparr>vd_capacity := Some (cols, rows)\<rparr>) s))"
      by (rule redecide_inv [OF inv reg_inv_data [OF reg]]) (simp_all add: setData_shared [OF reg])
    then show ?thesis using VResize inv by (simp add: handleResize_def Let_def broadcast_inv)
  next
    case (VClose ws)
    then show ?thesis unfolding VClose viewers_step.simps cleanupSubshellWs_def
      by (intro off_air_inv [OF inv ne inj]) (use off early in \<open>auto split: if_splits\<close>)
  next
    case (VRevoke ws)
    have "detachViewer ws (setData ws (\<lambda>d. d\<lparr>vd_inputClosed := True,
        vd_detachedEarly := (if vd_viewerId d = [] then True else vd_detachedEarly d)\<rparr>)
       (setData ws (\<lambda>d. d\<lparr>vd_accessRevoked := True, vd_detachedEarly := True, vd_canInput := False\<rparr>) s)) =
      detachViewer ws (setData ws (\<lambda>d. d\<lparr>vd_accessRevoked := True, vd_canInput := False, vd_inputClosed := True,
        vd_detachedEarly := True\<rparr>) s)"
      by (simp add: setData_def)
    moreover have "viewers_inv uuid (detachViewer ws (setData ws (\<lambda>d. d\<lparr>vd_accessRevoked := True, vd_canInput := False,
        vd_inputClosed := True, vd_detachedEarly := True\<rparr>) s))"
      by (rule off_air_inv [OF inv ne inj]) simp_all
    ultimately show ?thesis using VRevoke by (simp add: revokeSocket_def cleanupSubshellWs_def closeSocket_inv)
  next
    case (VClosePane sub code)
    have "viewers_inv uuid (fold (\<lambda>ws s. closeSocket ws code (detachViewer ws (setData ws (\<lambda>d. d\<lparr>vd_inputClosed := True\<rparr>) s))) xs s0)"
      if "viewers_inv uuid s0" "\<forall>ws \<in> set xs. vd_assigned (vs_data s0 ws)" for xs s0
      using that
    proof (induction xs arbitrary: s0)
      case (Cons ws xs)
      have off0: "vd_accessRevoked (vs_data s0 ws) \<Longrightarrow> vd_detachedEarly (vs_data s0 ws)"
        using reg_invD(5) [OF viewers_invD(1) [OF Cons.prems(1)], of ws] by (simp add: socket_ok_def)
      have "viewers_inv uuid (closeSocket ws code (detachViewer ws (setData ws (\<lambda>d. d\<lparr>vd_inputClosed := True\<rparr>) s0)))"
        by (intro closeSocket_inv off_air_inv [OF Cons.prems(1) ne inj]) (use Cons.prems(2) off0 in auto)
      then show ?case using Cons.IH Cons.prems(2) by (simp add: detach_live(2))
    qed simp
    moreover have "\<forall>ws \<in> set (map snd (viewersOf sub s)). vd_assigned (vs_data s ws)"
      using reg_viewer [OF reg] by auto
    ultimately show ?thesis using VClosePane inv by (simp add: closeViewersForSubshell_def)
  next
    case (VCloseAll code) then show ?thesis using inv by (simp add: closeAllViewers_def fold_closeSocket_inv)
  next
    case (VDropUser user) then show ?thesis using inv by (simp add: dropTerminalSocketsFor_def fold_closeSocket_inv)
  next
    case (VApplied r ok)
    then show ?thesis using geo_change_inv [OF inv settleApply_inv [OF viewers_invD(2) [OF inv]]] by (simp add: targetOf_settle)
  next
    case (VRead r res)
    have "viewers_inv uuid (s\<lparr>vs_geo := snd (settleRead r res (vs_geo s))\<rparr>)"
      using geo_change_inv [OF inv settleRead_inv [OF viewers_invD(2) [OF inv]]] by (simp add: targetOf_settle)
    moreover have "viewers_inv uuid (broadcastToViewers x y s0)" if "viewers_inv uuid s0" for x y s0
      using that by (rule viewers_inv_logs) simp_all
    ultimately show ?thesis using VRead by (auto split: prod.split option.split)
  qed
qed


section \<open>Reachable states\<close>

lemma viewers_init_inv: "viewers_inv uuid (viewers_init user)"
  by (auto simp: viewers_inv_def viewers_init_def reg_inv_def listed_ok_def found_ok_def socket_ok_def geo_init_inv
      tgt_ok_def sharedGridFor_def)

lemma viewers_fold_inv:
  assumes "\<And>w. uuid w \<noteq> []" "inj uuid" "viewers_inv uuid s"
  shows "viewers_inv uuid (fold (viewers_step uuid) es s)"
  using assms(3) by (induction es arbitrary: s) (simp_all add: viewers_step_inv assms(1,2))

lemma viewers_run_inv: "(\<And>w. uuid w \<noteq> []) \<Longrightarrow> inj uuid \<Longrightarrow> viewers_inv uuid (viewers_run uuid user es)"
  unfolding viewers_run_def by (rule viewers_fold_inv [OF _ _ viewers_init_inv])

text \<open>The ids \<open>crypto.randomUUID\<close> could have given, for the witnesses.\<close>

definition demo_uuid :: "nat \<Rightarrow> string" where
  "demo_uuid n = replicate (Suc n) CHR ''u''"

lemma demo_uuid_ok: "demo_uuid w \<noteq> []" "inj demo_uuid"
  by (simp_all add: demo_uuid_def inj_def)

lemmas viewers_eval = viewers_run_def viewers_init_def attachViewer_def registerViewer_def setData_def Let_def
  finishAttach_def broadcastViewers_def sendTo_def presenceOf_def applySharedGeometry_def sharedGridFor_def
  resolveSharedGrid_def decideSharedGrid_def isSized.simps autoDecision_def sharedRungs_def usableOf_def isUsable_def
  MIN_SHARED_COLS_def MIN_SHARED_ROWS_def extremeOf_def pinnedViewer_def DEFAULT_SIZING_def map_filter_simps
  demo_uuid_def geoRequest_def entryFor_def startRun_def callApply_def updEntry_def newEntry_def geo_init_def

definition demo_watch :: "viewer_event list" where
  "demo_watch =
     [VAttach 0 ''s'' (Some (IntNum 120, IntNum 40)) False True, VAttached 0,
      VAttach 1 ''s'' (Some (IntNum 51, IntNum 13)) False True, VAttached 1]"

text \<open>
  No ghost viewers: in every reachable state, however attaches, closes, revocations and detaches
  interleave, whoever is registered for a subshell is a socket attached to it that was neither closed
  nor revoked, listed once and under its own viewer id.
\<close>

theorem no_ghost_viewers:
  assumes "\<And>w. uuid w \<noteq> []" and "inj uuid"
    and "(v, ws) \<in> set (viewersOf sub (viewers_run uuid user es))"
  shows "v = uuid ws \<and> vd_subshellId (vs_data (viewers_run uuid user es) ws) = sub \<and>
    \<not> vd_accessRevoked (vs_data (viewers_run uuid user es) ws) \<and>
    \<not> vd_inputClosed (vs_data (viewers_run uuid user es) ws) \<and>
    distinct (map snd (viewersOf sub (viewers_run uuid user es)))"
proof -
  let ?s = "viewers_run uuid user es"
  have reg: "reg_inv uuid {} ?s" by (rule viewers_invD(1) [OF viewers_run_inv [OF assms(1,2)]])
  have key: "map fst (viewersOf sub ?s) = map uuid (map snd (viewersOf sub ?s))"
    using reg_viewer [OF reg, of _ _ sub] by auto
  have "distinct (map uuid (map snd (viewersOf sub ?s)))"
    using reg_jok_viewers [OF reg, of sub] by (simp only: key [symmetric])
  then have "distinct (map snd (viewersOf sub ?s))" using distinct_map by blast
  then show ?thesis using reg_viewer [OF reg assms(3)] by blast
qed

theorem no_ghost_viewers_witness:
  "\<not> vd_inputClosed (vs_data (viewers_run demo_uuid (\<lambda>_. None) demo_watch) 1)"
proof -
  have "(demo_uuid 1, 1) \<in> set (viewersOf ''s'' (viewers_run demo_uuid (\<lambda>_. None) demo_watch))"
    by (simp add: demo_watch_def viewers_eval)
  then show ?thesis using no_ghost_viewers [OF demo_uuid_ok(1) demo_uuid_ok(2)] by blast
qed

text \<open>
  C22: The pane follows its viewers: once the grid of a watched subshell was decided after the last
  join, the resize queue is heading for exactly the grid all its viewers can display, and when the
  queue is idle, its last apply succeeded and nothing else moved the pane meanwhile, that grid is the
  one applied.
\<close>

theorem pane_follows_viewers:
  assumes "\<And>w. uuid w \<noteq> []" and "inj uuid" and "s = viewers_run uuid user es"
    and "sub \<notin> vs_stale s" and "sharedGridFor sub s = Some g"
  shows "\<exists>e. jget (gq_entries (vs_geo s)) sub = Some e \<and> ge_target (gq_entry (vs_geo s) e) = Some g \<and>
    (\<not> ge_busy (gq_entry (vs_geo s) e) \<and> \<not> ge_mixed (gq_entry (vs_geo s) e) \<and> \<not> ge_failed (gq_entry (vs_geo s) e) \<longrightarrow>
       ge_applied (gq_entry (vs_geo s) e) = Some g)"
proof -
  have inv: "viewers_inv uuid s" unfolding assms(3) by (rule viewers_run_inv [OF assms(1,2)])
  then have "targetOf sub (vs_geo s) = Some g"
    using viewers_invD(3) assms(4,5) unfolding tgt_ok_def by blast
  then obtain e where e: "jget (gq_entries (vs_geo s)) sub = Some e" "ge_target (gq_entry (vs_geo s) e) = Some g"
    by (auto simp: targetOf_def split: option.splits)
  note geo = viewers_invD(2) [OF inv]
  have "e < gq_next (vs_geo s)" "\<not> ge_released (gq_entry (vs_geo s) e)"
    using geo_invD(4) [OF geo jget_SomeD [OF e(1)]] by blast+
  then show ?thesis using geo_invD(7) [OF geo] e by (auto simp: entry_ok_def)
qed

theorem pane_follows_viewers_witness:
  "\<exists>e. jget (gq_entries (vs_geo (viewers_run demo_uuid (\<lambda>_. None) demo_watch))) ''s'' = Some e \<and>
     ge_target (gq_entry (vs_geo (viewers_run demo_uuid (\<lambda>_. None) demo_watch)) e) = Some \<lparr>g_cols = 51, g_rows = 13\<rparr>"
proof -
  have "''s'' \<notin> vs_stale (viewers_run demo_uuid (\<lambda>_. None) demo_watch)"
    "sharedGridFor ''s'' (viewers_run demo_uuid (\<lambda>_. None) demo_watch) = Some \<lparr>g_cols = 51, g_rows = 13\<rparr>"
    by (simp_all add: demo_watch_def viewers_eval)
  from pane_follows_viewers [OF demo_uuid_ok(1) demo_uuid_ok(2) refl this] show ?thesis by blast
qed

section \<open>A dead viewer hears nothing\<close>

definition unlisted :: "nat \<Rightarrow> viewers_state \<Rightarrow> bool" where
  "unlisted ws s \<longleftrightarrow> (\<forall>sub v. (v, ws) \<notin> set (viewersOf sub s))"

definition framesTo :: "nat \<Rightarrow> viewers_state \<Rightarrow> server_frame list" where
  "framesTo ws s = map snd (filter (\<lambda>p. fst p = ws) (vs_frames s))"

abbreviation dead :: "nat \<Rightarrow> viewers_state \<Rightarrow> bool" where
  "dead ws s \<equiv> vd_accessRevoked (vs_data s ws) \<or> vd_inputClosed (vs_data s ws)"

lemma unlisted_live: "vs_live s' = vs_live s \<Longrightarrow> unlisted ws s' = unlisted ws s"
  by (simp add: unlisted_def)

lemma framesTo_same: "vs_frames s' = vs_frames s \<Longrightarrow> framesTo ws s' = framesTo ws s"
  by (simp add: framesTo_def)

lemma framesTo_fold:
  "ws \<notin> set xs \<Longrightarrow> framesTo ws (fold (\<lambda>w. sendTo w (F w)) xs s) = framesTo ws s"
  by (induction xs arbitrary: s) (auto simp: framesTo_def sendTo_def)

lemma framesTo_broadcast: "unlisted ws s \<Longrightarrow> framesTo ws (broadcastViewers sub s) = framesTo ws s"
  unfolding broadcastViewers_def Let_def by (rule framesTo_fold) (auto simp: unlisted_def)

lemma framesTo_announce: "unlisted ws s \<Longrightarrow> framesTo ws (broadcastToViewers sub f s) = framesTo ws s"
proof -
  assume u: "unlisted ws s"
  have "filter (\<lambda>p. fst p = ws) (map (\<lambda>(_, w). (w, f)) (viewersOf sub s)) = []"
    using u by (auto simp: filter_empty_conv unlisted_def)
  then show ?thesis by (simp only: framesTo_def broadcastToViewers_def) simp
qed

lemma viewersOf_detach: "set (viewersOf sub (detachViewer w s)) \<subseteq> set (viewersOf sub s)"
  unfolding detach_live Let_def by (auto simp: set_jdel split: if_splits option.splits)

lemma unlisted_detach: "unlisted ws s \<Longrightarrow> unlisted ws (detachViewer w s)"
  using viewersOf_detach unfolding unlisted_def by blast

lemma framesTo_detach:
  assumes "unlisted ws s"
  shows "framesTo ws (detachViewer w s) = framesTo ws s"
proof -
  define sub where "sub = vd_subshellId (vs_data s w)"
  define vid where "vid = vd_viewerId (vs_data s w)"
  define s1 where "s1 = s\<lparr>vs_live := jset sub (jdel vid (viewersOf sub s)) (vs_live s),
                       vs_policies := (case jget (vs_policies s) sub of
                           Some p \<Rightarrow> (if pinnedViewerId p = Some vid then jdel sub (vs_policies s) else vs_policies s)
                         | None \<Rightarrow> vs_policies s)\<rparr>"
  have "unlisted ws s1" using assms by (auto simp: unlisted_def s1_def set_jdel)
  then have "framesTo ws (broadcastViewers sub (applySharedGeometry sub w s1)) = framesTo ws s"
    using framesTo_broadcast [of ws "applySharedGeometry sub w s1" sub] unlisted_live [of "applySharedGeometry sub w s1" s1]
      framesTo_same [of "applySharedGeometry sub w s1" s1] framesTo_same [of s1 s] by (simp add: s1_def)
  then show ?thesis
    unfolding detachViewer_def Let_def sub_def [symmetric] vid_def [symmetric] s1_def [symmetric]
    by (simp add: framesTo_def)
qed

lemma setData_unlisted: "unlisted ws (setData w f s) = unlisted ws s" "framesTo ws (setData w f s) = framesTo ws s"
  by (simp_all add: unlisted_def framesTo_def)

lemma closeSocket_unlisted: "unlisted ws (closeSocket w c s) = unlisted ws s" "framesTo ws (closeSocket w c s) = framesTo ws s"
  by (simp_all add: unlisted_def framesTo_def)

lemma fold_close_frames: "framesTo ws (fold (\<lambda>w. closeSocket w c) xs s) = framesTo ws s"
  by (induction xs arbitrary: s) (simp_all add: closeSocket_unlisted)

lemma apply_frames: "framesTo ws (applySharedGeometry sub w s) = framesTo ws s"
  "unlisted ws (applySharedGeometry sub w s) = unlisted ws s"
  by (simp_all add: framesTo_def unlisted_def)

lemma policy_frames: "framesTo ws (setSizingPolicy sub p s) = framesTo ws s"
  "unlisted ws (setSizingPolicy sub p s) = unlisted ws s"
  by (simp_all add: framesTo_def unlisted_def setSizingPolicy_def)

lemmas quiet_simps = framesTo_broadcast framesTo_detach unlisted_detach setData_unlisted closeSocket_unlisted
  apply_frames policy_frames fold_close_frames

lemma closePane_frames:
  "unlisted ws s \<Longrightarrow>
   framesTo ws (fold (\<lambda>w s. closeSocket w c (detachViewer w (setData w f s))) xs s) = framesTo ws s"
  by (induction xs arbitrary: s) (simp_all add: quiet_simps)

lemma step_quiet:
  assumes u: "unlisted ws s"
  shows "framesTo ws (viewers_step uuid e s) = framesTo ws s"
proof (cases e)
  case (VRead r res)
  have "unlisted ws (s\<lparr>vs_geo := geo\<rparr>)" "framesTo ws (s\<lparr>vs_geo := geo\<rparr>) = framesTo ws s" for geo
    using u by (simp_all add: unlisted_def framesTo_def)
  then show ?thesis using VRead framesTo_announce by (auto split: prod.split option.split)
next
  case (VAttach w sub cap hidden can)
  then show ?thesis by (simp add: attachViewer_def registerViewer_def Let_def framesTo_def)
qed (use u in \<open>simp_all add: seedPaneGeometry_def finishAttach_def handleVisibility_def handleSetSizing_def handleResize_def
        Let_def cleanupSubshellWs_def revokeSocket_def closeViewersForSubshell_def closeAllViewers_def
        dropTerminalSocketsFor_def quiet_simps closePane_frames\<close>, simp_all add: framesTo_def)

text \<open>Being closed or revoked is for good.\<close>

lemma dead_detach: "dead ws (detachViewer w s) = dead ws s"
  by (simp add: detach_live(2))

lemma dead_fold_close: "dead ws (fold (\<lambda>w. closeSocket w c) xs s) = dead ws s"
  by (induction xs arbitrary: s) simp_all

lemma dead_closePane:
  "dead ws s \<Longrightarrow> dead ws (fold (\<lambda>w s. closeSocket w c (detachViewer w (setData w (\<lambda>d. d\<lparr>vd_inputClosed := True\<rparr>) s))) xs s)"
  by (induction xs arbitrary: s) (auto simp: detach_live(2))

lemma dead_step: "dead ws s \<Longrightarrow> dead ws (viewers_step uuid e s)"
proof (cases e)
  case (VClosePane sub c)
  assume "dead ws s"
  then show ?thesis using dead_closePane VClosePane by (simp add: closeViewersForSubshell_def)
next
  case (VCloseAll c)
  assume "dead ws s"
  then show ?thesis using dead_fold_close VCloseAll by (simp add: closeAllViewers_def)
next
  case (VDropUser user)
  assume "dead ws s"
  then show ?thesis using dead_fold_close VDropUser by (simp add: dropTerminalSocketsFor_def)
next
  case (VRead r res)
  assume "dead ws s"
  then show ?thesis using VRead by (auto split: prod.split option.split)
qed (auto simp: attachViewer_def registerViewer_def seedPaneGeometry_def finishAttach_def handleVisibility_def
      handleSetSizing_def handleResize_def setSizingPolicy_def Let_def cleanupSubshellWs_def revokeSocket_def detach_live(2))

text \<open>
  A share that is taken back is taken back at once: after a socket was revoked or closed, whatever
  happens later (a late attach of that very socket included) no geometry and no presence frame
  reaches it any more.
\<close>

theorem dead_viewer_hears_nothing:
  assumes "\<And>w. uuid w \<noteq> []" and "inj uuid" and "s = viewers_run uuid user es"
    and "vd_accessRevoked (vs_data s ws) \<or> vd_inputClosed (vs_data s ws)"
  shows "framesTo ws (fold (viewers_step uuid) es' s) = framesTo ws s"
proof -
  have quiet: "framesTo ws (fold (viewers_step uuid) es' s0) = framesTo ws s0"
    if "viewers_inv uuid s0" "dead ws s0" for s0
    using that
  proof (induction es' arbitrary: s0)
    case (Cons e es')
    have "unlisted ws s0" using reg_viewer [OF viewers_invD(1) [OF Cons.prems(1)]] Cons.prems(2)
      unfolding unlisted_def by blast
    moreover have "viewers_inv uuid (viewers_step uuid e s0)" by (rule viewers_step_inv [OF Cons.prems(1) assms(1,2)])
    moreover have "dead ws (viewers_step uuid e s0)" by (rule dead_step [OF Cons.prems(2)])
    ultimately show ?case using Cons.IH step_quiet by simp
  qed simp
  show ?thesis by (rule quiet) (use assms(3,4) viewers_run_inv [OF assms(1,2)] in simp_all)
qed

theorem dead_viewer_hears_nothing_witness:
  "framesTo 1 (fold (viewers_step demo_uuid) [VResize 0 (IntNum 80) (IntNum 24)]
      (viewers_run demo_uuid (\<lambda>_. None) (demo_watch @ [VRevoke 1]))) =
   framesTo 1 (viewers_run demo_uuid (\<lambda>_. None) (demo_watch @ [VRevoke 1]))"
proof (rule dead_viewer_hears_nothing [OF demo_uuid_ok(1) demo_uuid_ok(2) refl])
  show "vd_accessRevoked (vs_data (viewers_run demo_uuid (\<lambda>_. None) (demo_watch @ [VRevoke 1])) 1) \<or>
    vd_inputClosed (vs_data (viewers_run demo_uuid (\<lambda>_. None) (demo_watch @ [VRevoke 1])) 1)"
    by (simp add: viewers_run_def revokeSocket_def cleanupSubshellWs_def detach_live(2))
qed

end
