(* ===== verification/Access.thy ===== *)
theory Access
  imports Prelude
begin

text \<open>
  Who may see, launch on, configure and retire a machine: the effective access of a viewer
  (\<open>modules/nodes/access.ts\<close>), the gate every node route passes (\<open>modules/nodes/gate.ts\<close>), its
  counterpart for one subshell (\<open>modules/subshells/access.ts\<close>), the three queries they read
  (\<open>nodes.repository.ts\<close>), and the choice of the node a new subshell is launched on
  (\<open>resolveLaunchNode\<close> of \<open>subshells.service.ts\<close>).

  The four access levels form a linear order through the code's \<open>RANK\<close> table, and the loop over the
  grant rows is shown to compute the maximum of the grants that apply.  The database is the list of
  node rows in creation order with the grant rows and the roles; a live agent connection
  (\<open>getLive\<close>) is a predicate on node ids.
\<close>

section \<open>Access levels\<close>

datatype node_access = NoAccess | ViewAccess | EditAccess | OwnerAccess

fun RANK :: "node_access \<Rightarrow> nat" where
  "RANK NoAccess = 0"
| "RANK ViewAccess = 1"
| "RANK EditAccess = 2"
| "RANK OwnerAccess = 3"

lemma RANK_inj: "RANK a = RANK b \<longleftrightarrow> a = b"
  by (cases a; cases b) simp_all

instantiation node_access :: linorder
begin

definition less_eq_node_access :: "node_access \<Rightarrow> node_access \<Rightarrow> bool" where
  "less_eq_node_access a b \<longleftrightarrow> RANK a \<le> RANK b"

definition less_node_access :: "node_access \<Rightarrow> node_access \<Rightarrow> bool" where
  "less_node_access a b \<longleftrightarrow> RANK a < RANK b"

instance
  by standard (auto simp: less_eq_node_access_def less_node_access_def RANK_inj)

end

datatype share_permission = ShareView | ShareEdit

fun permissionAccess :: "share_permission \<Rightarrow> node_access" where
  "permissionAccess ShareView = ViewAccess"
| "permissionAccess ShareEdit = EditAccess"

record share_row =
  sr_granteeUserId :: "string option"
  sr_permission :: share_permission

fun bestGrant :: "string \<Rightarrow> share_row list \<Rightarrow> node_access \<Rightarrow> node_access" where
  "bestGrant viewer [] best = best"
| "bestGrant viewer (s # ss) best =
     (if sr_granteeUserId s \<noteq> None \<and> sr_granteeUserId s \<noteq> Some viewer then bestGrant viewer ss best
      else if RANK (permissionAccess (sr_permission s)) > RANK best
           then bestGrant viewer ss (permissionAccess (sr_permission s))
           else bestGrant viewer ss best)"

definition resolveNodeAccess :: "string \<Rightarrow> bool \<Rightarrow> string \<Rightarrow> share_row list \<Rightarrow> node_access" where
  "resolveNodeAccess viewer isAdmin owner shares =
     (if viewer = owner then OwnerAccess
      else if isAdmin then EditAccess
      else bestGrant viewer shares NoAccess)"

definition resolveSubshellAccess :: "string \<Rightarrow> string \<Rightarrow> share_row list \<Rightarrow> node_access" where
  "resolveSubshellAccess viewer owner shares =
     (if viewer = owner then OwnerAccess else bestGrant viewer shares NoAccess)"

definition accessAtLeast :: "node_access \<Rightarrow> node_access \<Rightarrow> bool" where
  "accessAtLeast have least \<longleftrightarrow> RANK have \<ge> RANK least"

section \<open>Capabilities\<close>

datatype node_kind = LocalNode | AgentNode

definition nodeCanLaunch :: "node_access \<Rightarrow> bool" where
  "nodeCanLaunch a \<longleftrightarrow> a \<noteq> NoAccess"

definition nodeCanConfigure :: "node_access \<Rightarrow> bool" where
  "nodeCanConfigure a \<longleftrightarrow> a = OwnerAccess \<or> a = EditAccess"

definition nodeCanManage :: "node_access \<Rightarrow> bool" where
  "nodeCanManage a \<longleftrightarrow> a = OwnerAccess"

definition nodeCanManageFor :: "node_kind \<Rightarrow> node_access \<Rightarrow> bool \<Rightarrow> bool" where
  "nodeCanManageFor k a isAdmin \<longleftrightarrow> nodeCanManage a \<or> (k = LocalNode \<and> isAdmin)"

definition nodeCanRetire :: "node_access \<Rightarrow> bool \<Rightarrow> bool" where
  "nodeCanRetire a isAdmin \<longleftrightarrow> nodeCanManage a \<or> isAdmin"

definition nodeCanLaunchOn :: "node_kind \<Rightarrow> node_access \<Rightarrow> node_access \<Rightarrow> bool \<Rightarrow> bool \<Rightarrow> bool" where
  "nodeCanLaunchOn k access granted maintenance serverAsNode =
     (if maintenance then False
      else if k = LocalNode \<and> \<not> serverAsNode then False
      else if k = LocalNode then nodeCanLaunch granted else nodeCanLaunch access)"

section \<open>The rows and the queries\<close>

record node_row =
  nr_id :: string
  nr_name :: string
  nr_kind :: node_kind
  nr_ownerUserId :: string
  nr_maintenance :: bool

record access_db =
  ad_nodes :: "node_row list"
  ad_shares :: "(string \<times> share_row) list"
  ad_role :: "string \<Rightarrow> string option"

definition nodeById :: "access_db \<Rightarrow> string \<Rightarrow> node_row option" where
  "nodeById db i = find (\<lambda>r. nr_id r = i) (ad_nodes db)"

definition listForNode :: "access_db \<Rightarrow> string \<Rightarrow> share_row list" where
  "listForNode db i = map snd (filter (\<lambda>p. fst p = i) (ad_shares db))"

definition findAccessible :: "access_db \<Rightarrow> string \<Rightarrow> node_row list" where
  "findAccessible db viewer =
     filter (\<lambda>r. nr_ownerUserId r = viewer \<or>
                 list_ex (\<lambda>(n, s). n = nr_id r \<and>
                           (sr_granteeUserId s = None \<or> sr_granteeUserId s = Some viewer)) (ad_shares db))
       (ad_nodes db)"

definition listByOwner :: "access_db \<Rightarrow> string \<Rightarrow> node_row list" where
  "listByOwner db owner = filter (\<lambda>r. nr_ownerUserId r = owner) (ad_nodes db)"

definition loadNodeAccess ::
  "access_db \<Rightarrow> string \<Rightarrow> string \<Rightarrow> bool \<Rightarrow> node_row option \<times> node_access \<times> node_access" where
  "loadNodeAccess db viewer i allowAdminAndShares =
     (case nodeById db i of
        None \<Rightarrow> (None, NoAccess, NoAccess)
      | Some row \<Rightarrow>
          let isAdmin = (allowAdminAndShares \<and> ad_role db viewer = Some ''admin'');
              shares = (if allowAdminAndShares then listForNode db i else [])
          in (Some row, resolveNodeAccess viewer isAdmin (nr_ownerUserId row) shares,
              resolveNodeAccess viewer False (nr_ownerUserId row) shares))"

section \<open>The route gate\<close>

datatype guard_actor = Cookie | SystemKey | SubshellKey

record node_gate =
  gt_row :: node_row
  gt_access :: node_access
  gt_granted :: node_access
  gt_isAdmin :: bool
  gt_shares :: "share_row list"
  gt_canManage :: bool
  gt_canRetire :: bool

definition loadNodeGate :: "access_db \<Rightarrow> string \<Rightarrow> string \<Rightarrow> guard_actor \<Rightarrow> node_gate option" where
  "loadNodeGate db viewer i actor =
     (case nodeById db i of
        None \<Rightarrow> None
      | Some row \<Rightarrow>
          if actor \<noteq> Cookie \<and> (nr_kind row \<noteq> AgentNode \<or> nr_ownerUserId row \<noteq> viewer) then None
          else
            let isAdmin = (actor = Cookie \<and> ad_role db viewer = Some ''admin'');
                shares = listForNode db i;
                access = resolveNodeAccess viewer isAdmin (nr_ownerUserId row) shares
            in if access = NoAccess then None
               else Some \<lparr>gt_row = row, gt_access = access,
                          gt_granted = resolveNodeAccess viewer False (nr_ownerUserId row) shares,
                          gt_isAdmin = isAdmin, gt_shares = shares,
                          gt_canManage = nodeCanManageFor (nr_kind row) access isAdmin,
                          gt_canRetire = nodeCanRetire access isAdmin\<rparr>)"

section \<open>Choosing the node of a launch\<close>

datatype launch_error =
    NodeNotFound
  | NodeInMaintenance string
  | LaunchSwitchedOff string
  | NoLaunchAccess string
  | NodeOffline
  | NodeRequired nat

definition LOCAL_NODE_ID :: string where
  "LOCAL_NODE_ID = ''local''"

definition launchGate ::
  "access_db \<Rightarrow> (string \<Rightarrow> bool) \<Rightarrow> string \<Rightarrow> bool \<Rightarrow> bool \<Rightarrow> string \<Rightarrow> launch_error + string" where
  "launchGate db live user machineActor serverAsNode i =
     (case loadNodeAccess db user i (\<not> machineActor) of
        (None, _, _) \<Rightarrow> Inl NodeNotFound
      | (Some row, access, granted) \<Rightarrow>
          if \<not> nodeCanLaunch access then Inl NodeNotFound
          else if nr_maintenance row then Inl (NodeInMaintenance (nr_name row))
          else if \<not> nodeCanLaunchOn (nr_kind row) access granted (nr_maintenance row) serverAsNode
          then (if nr_kind row = LocalNode \<and> \<not> serverAsNode
                then Inl (LaunchSwitchedOff (nr_name row)) else Inl (NoLaunchAccess (nr_name row)))
          else if nr_kind row = AgentNode \<and> \<not> live i then Inl NodeOffline
          else Inr i)"

definition launchesLocally :: "access_db \<Rightarrow> string \<Rightarrow> bool \<Rightarrow> bool \<Rightarrow> bool" where
  "launchesLocally db user machineActor serverAsNode =
     (case loadNodeAccess db user LOCAL_NODE_ID (\<not> machineActor) of
        (None, _, _) \<Rightarrow> False
      | (Some row, access, granted) \<Rightarrow>
          nodeCanLaunch access \<and>
          nodeCanLaunchOn (nr_kind row) access granted (nr_maintenance row) serverAsNode)"

definition resolveLaunchNode ::
  "access_db \<Rightarrow> (string \<Rightarrow> bool) \<Rightarrow> string \<Rightarrow> bool \<Rightarrow> string option \<Rightarrow> bool \<Rightarrow> launch_error + string" where
  "resolveLaunchNode db live user machineActor requested serverAsNode =
     (case requested of
        Some (c # cs) \<Rightarrow> launchGate db live user machineActor serverAsNode (c # cs)
      | _ \<Rightarrow>
          if launchesLocally db user machineActor serverAsNode then Inr LOCAL_NODE_ID
          else
            let candidates = (if machineActor then listByOwner db user else findAccessible db user);
                online = filter (\<lambda>n. nr_kind n = AgentNode \<and> \<not> nr_maintenance n \<and> live (nr_id n)) candidates
            in case online of
                 [n] \<Rightarrow> Inr (nr_id n)
               | _ \<Rightarrow> Inl (NodeRequired (length online)))"

section \<open>The grants that apply\<close>

definition applicable :: "string \<Rightarrow> share_row list \<Rightarrow> node_access set" where
  "applicable viewer shares =
     permissionAccess ` sr_permission ` {s \<in> set shares. sr_granteeUserId s = None \<or> sr_granteeUserId s = Some viewer}"

lemma applicable_simps [simp]:
  "applicable v [] = {}"
  "applicable v (s # ss) =
     (if sr_granteeUserId s = None \<or> sr_granteeUserId s = Some v
      then insert (permissionAccess (sr_permission s)) (applicable v ss) else applicable v ss)"
  by (auto simp: applicable_def)

lemma finite_applicable [simp, intro]: "finite (applicable v ss)"
  by (simp add: applicable_def)

lemma RANK_less [simp]: "RANK a < RANK b \<longleftrightarrow> a < b"
  by (simp add: less_node_access_def)

lemma RANK_le [simp]: "RANK a \<le> RANK b \<longleftrightarrow> a \<le> b"
  by (simp add: less_eq_node_access_def)

lemma NoAccess_least [simp]: "NoAccess \<le> a"
  by (simp add: less_eq_node_access_def)

lemma OwnerAccess_greatest [simp]: "a \<le> OwnerAccess"
  by (cases a) (simp_all add: less_eq_node_access_def)

lemma permissionAccess_pos [simp]: "permissionAccess p \<noteq> NoAccess"
  by (cases p) simp_all

lemma bestGrant_Max: "bestGrant v ss b = Max (insert b (applicable v ss))"
proof (induction v ss b rule: bestGrant.induct)
  case (2 v s ss b)
  then show ?case
    by (cases "applicable v ss = {}") (auto simp: max_def insert_commute)
qed simp

lemma bestGrant_NoAccess_iff: "bestGrant v ss NoAccess = NoAccess \<longleftrightarrow> applicable v ss = {}"
proof
  assume eq: "bestGrant v ss NoAccess = NoAccess"
  show "applicable v ss = {}"
  proof (rule ccontr)
    assume "applicable v ss \<noteq> {}"
    then obtain a where a: "a \<in> applicable v ss" by blast
    then have "a \<noteq> NoAccess" by (auto simp: applicable_def)
    moreover have "a \<le> NoAccess"
      using a eq Max_ge [of "insert NoAccess (applicable v ss)" a] by (simp add: bestGrant_Max)
    ultimately show False by (metis NoAccess_least order_antisym)
  qed
qed (simp add: bestGrant_Max)

lemma resolveNodeAccess_NoAccess_iff:
  "resolveNodeAccess v adm own ss = NoAccess \<longleftrightarrow> v \<noteq> own \<and> \<not> adm \<and> applicable v ss = {}"
  by (auto simp: resolveNodeAccess_def bestGrant_NoAccess_iff)

lemma permissionAccess_le [simp]: "permissionAccess p \<le> EditAccess"
  by (cases p) (simp_all add: less_eq_node_access_def)

lemma granted_le: "resolveNodeAccess v False own ss \<le> resolveNodeAccess v adm own ss"
proof -
  have "bestGrant v ss NoAccess \<le> EditAccess"
    by (auto simp: bestGrant_Max applicable_def)
  then show ?thesis
    by (simp add: resolveNodeAccess_def)
qed

lemma applicable_listForNode:
  "applicable v (listForNode db i) = {} \<longleftrightarrow>
   \<not> list_ex (\<lambda>(n, s). n = i \<and> (sr_granteeUserId s = None \<or> sr_granteeUserId s = Some v)) (ad_shares db)"
  by (force simp: applicable_def listForNode_def list_ex_iff)

lemma nodeById_SomeD: "nodeById db i = Some r \<Longrightarrow> r \<in> set (ad_nodes db) \<and> nr_id r = i"
  unfolding nodeById_def by (rule find_SomeD)

lemma nodeById_unique:
  assumes "distinct (map nr_id (ad_nodes db))" "r \<in> set (ad_nodes db)"
  shows "nodeById db (nr_id r) = Some r"
proof -
  obtain r' where "find (\<lambda>x. nr_id x = nr_id r) (ad_nodes db) = Some r'"
    using assms(2) by (cases "find (\<lambda>x. nr_id x = nr_id r) (ad_nodes db)") (auto simp: find_None_iff)
  with assms show ?thesis
    by (metis nodeById_def nodeById_SomeD distinct_map inj_on_eq_iff)
qed

section \<open>Properties\<close>

text \<open>
  The loop over the grant rows computes a maximum.  The access of a viewer is the highest of
  what ownership gives, what the admin role gives and what the grants for Everyone or for this
  viewer give, whatever the order and the multiplicity of the rows, and nothing else counts.\<close>

theorem node_access_best_grant:
  "resolveNodeAccess viewer isAdmin own shares =
     Max (insert NoAccess
            ({a. a = OwnerAccess \<and> viewer = own} \<union> {a. a = EditAccess \<and> isAdmin} \<union> applicable viewer shares))"
proof (cases "viewer = own")
  case True
  have "Max (insert NoAccess ({OwnerAccess} \<union> {a. a = EditAccess \<and> isAdmin} \<union> applicable viewer shares)) = OwnerAccess"
    by (rule Max_eqI) auto
  with True show ?thesis by (simp add: resolveNodeAccess_def)
next
  case False
  have "isAdmin \<Longrightarrow> Max (insert NoAccess (insert EditAccess (applicable viewer shares))) = EditAccess"
    by (rule Max_eqI) (auto simp: applicable_def)
  with False show ?thesis by (auto simp: resolveNodeAccess_def bestGrant_Max)
qed

section \<open>Removing a row\<close>

definition removeNode :: "string \<Rightarrow> access_db \<Rightarrow> access_db" where
  "removeNode i db = db\<lparr>ad_nodes := filter (\<lambda>r. nr_id r \<noteq> i) (ad_nodes db)\<rparr>"

lemma removeNode_simps [simp]:
  "ad_shares (removeNode i db) = ad_shares db" "ad_role (removeNode i db) = ad_role db"
  "listForNode (removeNode i db) j = listForNode db j"
  by (simp_all add: removeNode_def listForNode_def)

lemma nodeById_removeNode: "nodeById (removeNode i db) j = (if i = j then None else nodeById db j)"
proof -
  have "find (\<lambda>r. nr_id r = j) (filter (\<lambda>r. nr_id r \<noteq> i) rs) =
        (if i = j then None else find (\<lambda>r. nr_id r = j) rs)" for rs
    by (induction rs) auto
  from this [of "ad_nodes db"] show ?thesis unfolding nodeById_def removeNode_def by simp
qed

lemma listByOwner_removeNode:
  "(\<And>r. r \<in> set (ad_nodes db) \<Longrightarrow> nr_id r = i \<Longrightarrow> nr_ownerUserId r \<noteq> v) \<Longrightarrow>
   listByOwner (removeNode i db) v = listByOwner db v"
  by (auto simp: listByOwner_def removeNode_def intro!: filter_cong)

lemma findAccessible_removeNode:
  "(\<And>r. r \<in> set (ad_nodes db) \<Longrightarrow> nr_id r = i \<Longrightarrow> nr_ownerUserId r \<noteq> v) \<Longrightarrow>
   applicable v (listForNode db i) = {} \<Longrightarrow> findAccessible (removeNode i db) v = findAccessible db v"
  unfolding findAccessible_def removeNode_def applicable_listForNode
  by (auto intro!: filter_cong)

definition invisible :: "access_db \<Rightarrow> string \<Rightarrow> string \<Rightarrow> bool \<Rightarrow> bool" where
  "invisible db viewer i allow \<longleftrightarrow> fst (snd (loadNodeAccess db viewer i allow)) = NoAccess"

lemma invisibleD:
  assumes "invisible db v i allow" "nodeById db i = Some r"
  shows "nr_ownerUserId r \<noteq> v" "allow \<Longrightarrow> applicable v (listForNode db i) = {}"
    "allow \<Longrightarrow> ad_role db v \<noteq> Some ''admin''"
  using assms
  by (auto simp: invisible_def loadNodeAccess_def Let_def resolveNodeAccess_NoAccess_iff split: if_splits)

lemma loadNodeAccess_removeNode:
  "loadNodeAccess (removeNode i db) v j allow =
     (if i = j then (None, NoAccess, NoAccess) else loadNodeAccess db v j allow)"
  by (simp add: loadNodeAccess_def nodeById_removeNode cong: option.case_cong)

lemma invisible_cases:
  assumes "invisible db v i allow"
  obtains "loadNodeAccess db v i allow = (None, NoAccess, NoAccess)"
  | r g where "loadNodeAccess db v i allow = (Some r, NoAccess, g)"
  using assms unfolding invisible_def
  by (cases "loadNodeAccess db v i allow") (auto simp: loadNodeAccess_def Let_def split: option.splits)

lemma launchGate_removeNode:
  assumes "invisible db v i (\<not> m)"
  shows "launchGate (removeNode i db) live v m sas j = launchGate db live v m sas j"
  using assms
  by (auto elim!: invisible_cases simp: launchGate_def loadNodeAccess_removeNode nodeCanLaunch_def split: if_splits)

lemma launchesLocally_removeNode:
  assumes "invisible db v i (\<not> m)"
  shows "launchesLocally (removeNode i db) v m sas = launchesLocally db v m sas"
  using assms
  by (auto elim!: invisible_cases simp: launchesLocally_def loadNodeAccess_removeNode nodeCanLaunch_def split: if_splits)

definition ids_ok :: "access_db \<Rightarrow> bool" where
  "ids_ok db \<longleftrightarrow> distinct (map nr_id (ad_nodes db)) \<and>
     list_all (\<lambda>r. nr_kind r = LocalNode \<longleftrightarrow> nr_id r = LOCAL_NODE_ID) (ad_nodes db)"

text \<open>What the documentation promises of a node a launch may land on.\<close>

definition launchPolicy ::
  "access_db \<Rightarrow> (string \<Rightarrow> bool) \<Rightarrow> string \<Rightarrow> bool \<Rightarrow> bool \<Rightarrow> node_row \<Rightarrow> bool" where
  "launchPolicy db live user machineActor serverAsNode row \<longleftrightarrow>
     \<not> nr_maintenance row \<and>
     (nr_kind row = AgentNode \<longrightarrow> live (nr_id row)) \<and> (nr_kind row = LocalNode \<longrightarrow> serverAsNode) \<and>
     (nr_ownerUserId row = user \<or>
      \<not> machineActor \<and>
      (applicable user (listForNode db (nr_id row)) \<noteq> {} \<or>
       nr_kind row = AgentNode \<and> ad_role db user = Some ''admin''))"

lemma launchGate_iff:
  "launchGate db live u m sas i = Inr j \<longleftrightarrow>
     j = i \<and> (\<exists>row. nodeById db i = Some row \<and> launchPolicy db live u m sas row)"
proof (cases "nodeById db i")
  case None
  then show ?thesis by (simp add: launchGate_def loadNodeAccess_def)
next
  case (Some row)
  then have i: "nr_id row = i" using nodeById_SomeD by blast
  show ?thesis
    using granted_le [of u "nr_ownerUserId row" "listForNode db i" "ad_role db u = Some ''admin''"]
    by (cases "nr_kind row"; cases m)
      (auto simp: launchGate_def loadNodeAccess_def Let_def Some i launchPolicy_def nodeCanLaunchOn_def
         nodeCanLaunch_def resolveNodeAccess_NoAccess_iff)
qed

lemma launchesLocally_policy:
  assumes "ids_ok db" "launchesLocally db u m sas"
  shows "\<exists>row. nodeById db LOCAL_NODE_ID = Some row \<and> launchPolicy db live u m sas row"
proof -
  obtain row where row: "nodeById db LOCAL_NODE_ID = Some row"
    using assms(2) by (auto simp: launchesLocally_def loadNodeAccess_def split: option.splits)
  then have id: "nr_id row = LOCAL_NODE_ID" "nr_kind row = LocalNode"
    using assms(1) nodeById_SomeD [OF row] by (auto simp: ids_ok_def list_all_iff)
  show ?thesis
    using assms(2) row id
    by (cases m)
      (auto simp: launchesLocally_def loadNodeAccess_def Let_def launchPolicy_def nodeCanLaunchOn_def
         nodeCanLaunch_def resolveNodeAccess_NoAccess_iff split: if_splits)
qed

lemma candidate_policy:
  assumes "ids_ok db" "r \<in> set (if m then listByOwner db u else findAccessible db u)"
    and "nr_kind r = AgentNode" "\<not> nr_maintenance r" "live (nr_id r)"
  shows "nodeById db (nr_id r) = Some r \<and> launchPolicy db live u m sas r"
proof -
  have "r \<in> set (ad_nodes db)"
    using assms(2) by (auto simp: listByOwner_def findAccessible_def split: if_splits)
  with assms(1) have "nodeById db (nr_id r) = Some r"
    by (simp add: ids_ok_def nodeById_unique)
  moreover have "launchPolicy db live u m sas r"
    using assms(2-5)
    by (auto simp: launchPolicy_def applicable_listForNode listByOwner_def findAccessible_def split: if_splits)
  ultimately show ?thesis ..
qed

text \<open>
  C25: A launch only lands where the policy allows it.  Whatever node \<open>resolveLaunchNode\<close> answers,
  asked for or picked, exists, is not in maintenance, has a live agent if it is a machine, is not
  the server when the server is switched off as a node, and is owned by the user or, for a person in
  a browser, granted to them; the admin role alone opens machines but never the server host, and a
  machine credential gets its owner's nodes only.  A node that was asked for is never replaced by
  another one.\<close>

theorem launch_node_allowed:
  assumes "ids_ok db"
    and "resolveLaunchNode db live user machineActor requested serverAsNode = Inr i"
  shows "(\<exists>row. nodeById db i = Some row \<and> launchPolicy db live user machineActor serverAsNode row) \<and>
         (\<forall>q. requested = Some q \<longrightarrow> q \<noteq> [] \<longrightarrow> i = q)"
proof (cases "requested \<noteq> None \<and> requested \<noteq> Some []")
  case True
  then obtain c cs where "requested = Some (c # cs)"
    by (cases requested) (auto simp: neq_Nil_conv)
  with assms(2) show ?thesis by (auto simp: resolveLaunchNode_def launchGate_iff)
next
  case False
  show ?thesis
  proof (cases "launchesLocally db user machineActor serverAsNode")
    case True
    with False assms launchesLocally_policy [OF assms(1) True] show ?thesis
      by (auto simp: resolveLaunchNode_def)
  next
    case loc: False
    let ?cs = "if machineActor then listByOwner db user else findAccessible db user"
    let ?on = "filter (\<lambda>n. nr_kind n = AgentNode \<and> \<not> nr_maintenance n \<and> live (nr_id n)) ?cs"
    obtain n where n: "?on = [n]" "i = nr_id n"
      using False loc assms(2)
      by (auto simp: resolveLaunchNode_def Let_def split: option.splits list.splits if_splits)
    then have "n \<in> set ?on" by (metis list.set_intros(1))
    then have "nodeById db (nr_id n) = Some n \<and> launchPolicy db live user machineActor serverAsNode n"
      by (intro candidate_policy [OF assms(1)]) (auto split: if_splits)
    with False n(2) show ?thesis by auto
  qed
qed

lemma loadNodeGate_removeNode:
  assumes "invisible db v i (actor = Cookie)"
  shows "loadNodeGate (removeNode i db) v j actor = loadNodeGate db v j actor"
proof (cases "i = j")
  case True
  then show ?thesis
    using invisibleD [OF assms]
    by (cases "nodeById db j")
      (auto simp: loadNodeGate_def nodeById_removeNode Let_def resolveNodeAccess_NoAccess_iff)
qed (simp add: loadNodeGate_def nodeById_removeNode Let_def split: option.split)

lemma candidates_removeNode:
  assumes "ids_ok db" "invisible db v i (\<not> m)"
  shows "(if m then listByOwner (removeNode i db) v else findAccessible (removeNode i db) v) =
         (if m then listByOwner db v else findAccessible db v)"
proof (cases "nodeById db i")
  case None
  then have "removeNode i db = db"
    by (auto simp: nodeById_def find_None_iff removeNode_def filter_id_conv)
  then show ?thesis by simp
next
  case (Some row)
  have "r \<in> set (ad_nodes db) \<Longrightarrow> nr_id r = i \<Longrightarrow> r = row" for r
    using assms(1) Some nodeById_unique [of db r] by (auto simp: ids_ok_def)
  then show ?thesis
    using invisibleD [OF assms(2) Some] by (cases m) (auto intro!: listByOwner_removeNode findAccessible_removeNode)
qed

text \<open>
  A node that is invisible to the caller cannot be probed.  Every launch request, explicit or
  not, and every node route's gate answer exactly as they would if the node's row did not exist.\<close>

theorem invisible_node_hidden:
  assumes "ids_ok db" and "invisible db viewer i (actor = Cookie)"
  shows "resolveLaunchNode (removeNode i db) live viewer (actor \<noteq> Cookie) requested serverAsNode =
           resolveLaunchNode db live viewer (actor \<noteq> Cookie) requested serverAsNode \<and>
         loadNodeGate (removeNode i db) viewer j actor = loadNodeGate db viewer j actor"
proof -
  have inv: "invisible db viewer i (\<not> (actor \<noteq> Cookie))" using assms(2) by simp
  show ?thesis
    unfolding resolveLaunchNode_def launchGate_removeNode [OF inv] launchesLocally_removeNode [OF inv]
      candidates_removeNode [OF assms(1) inv] loadNodeGate_removeNode [OF assms(2)]
    by (rule conjI refl)+
qed

section \<open>Witnesses\<close>

definition sample_db :: access_db where
  "sample_db =
     \<lparr>ad_nodes = [\<lparr>nr_id = ''local'', nr_name = ''server'', nr_kind = LocalNode, nr_ownerUserId = ''sys'', nr_maintenance = False\<rparr>,
                  \<lparr>nr_id = ''n1'', nr_name = ''box'', nr_kind = AgentNode, nr_ownerUserId = ''ann'', nr_maintenance = False\<rparr>,
                  \<lparr>nr_id = ''n2'', nr_name = ''mac'', nr_kind = AgentNode, nr_ownerUserId = ''bob'', nr_maintenance = False\<rparr>],
      ad_shares = [(''n1'', \<lparr>sr_granteeUserId = Some ''bob'', sr_permission = ShareView\<rparr>)],
      ad_role = (\<lambda>_. None)\<rparr>"

lemma sample_db_ok: "ids_ok sample_db"
  by (simp add: ids_ok_def sample_db_def LOCAL_NODE_ID_def)

lemma sample_launch: "resolveLaunchNode sample_db (\<lambda>n. n = ''n1'') ''bob'' False None True = Inr ''n1''"
  by (simp add: resolveLaunchNode_def launchesLocally_def loadNodeAccess_def nodeById_def sample_db_def
      LOCAL_NODE_ID_def resolveNodeAccess_def listForNode_def nodeCanLaunch_def findAccessible_def)

lemma sample_invisible: "invisible sample_db ''ann'' ''n2'' True"
  by (simp add: invisible_def loadNodeAccess_def nodeById_def sample_db_def resolveNodeAccess_def listForNode_def)

theorem launch_node_allowed_witness:
  "\<exists>row. nodeById sample_db ''n1'' = Some row \<and> launchPolicy sample_db (\<lambda>n. n = ''n1'') ''bob'' False True row"
  using launch_node_allowed [OF sample_db_ok sample_launch] by simp

theorem invisible_node_hidden_witness:
  "resolveLaunchNode (removeNode ''n2'' sample_db) (\<lambda>n. True) ''ann'' False (Some ''n2'') True =
   resolveLaunchNode sample_db (\<lambda>n. True) ''ann'' False (Some ''n2'') True"
  using invisible_node_hidden [OF sample_db_ok, of "''ann''" "''n2''" Cookie] sample_invisible by simp

end
