(* ===== verification/Maintenance.thy ===== *)
theory Maintenance
  imports Json Access
begin

text \<open>
  The maintenance flag of a node and its two copies: the row of the control plane
  (\<open>apps/server/api/src/modules/nodes/maintenance.ts\<close>) and the mirror file of the machine
  (\<open>apps/node/agent/src/maintenance.ts\<close>, \<open>commands/report.ts\<close>, \<open>commands/set-maintenance.ts\<close> and the
  refusal at the top of \<open>commands/launch.ts\<close>).

  The model is the pair of the row and the file with the two directions of the socket between them.
  An event is a flip on either side, a connect, a heartbeat, the delivery of one frame or command, a
  disconnect, or damage to the file.  \<open>Date.parse\<close> is a parameter \<open>dp\<close> of the definitions that use
  it (it answers \<open>None\<close> for NaN), and so is \<open>kill\<close>, the outcome of the kill command for one running
  subshell.  The effects of an adopted write, which the code starts without awaiting them, are one
  atomic step.
\<close>

section \<open>The wire value and the mirror file\<close>

record wire =
  mw_on :: bool
  mw_changedAt :: string

definition parseNodeMaintenance :: "json \<Rightarrow> wire option" where
  "parseNodeMaintenance v =
     (case isRecord v of
        None \<Rightarrow> None
      | Some m \<Rightarrow>
          (case (jget m ''on'', jget m ''changedAt'') of
             (Some (JBool b), Some (JStr t)) \<Rightarrow> Some \<lparr>mw_on = b, mw_changedAt = t\<rparr>
           | _ \<Rightarrow> None))"

text \<open>The file, when there is one: its JSON value if reading and parsing the text works, and its
  modification time if \<open>stat\<close> works.\<close>

record mirror =
  mi_json :: "json option"
  mi_mtime :: "string option"

datatype maintenance_read = Absent | State wire | Unreadable "string option"

definition readMaintenance :: "mirror option \<Rightarrow> maintenance_read" where
  "readMaintenance f =
     (case f of
        None \<Rightarrow> Absent
      | Some mi \<Rightarrow>
          (case Option.bind (mi_json mi) parseNodeMaintenance of
             Some st \<Rightarrow> State st
           | None \<Rightarrow> Unreadable (case mi_mtime mi of Some t \<Rightarrow> (if t = [] then None else Some t) | None \<Rightarrow> None)))"

definition reportableMaintenance :: "maintenance_read \<Rightarrow> wire option" where
  "reportableMaintenance r =
     (case r of
        State st \<Rightarrow> Some st
      | Unreadable (Some t) \<Rightarrow> Some \<lparr>mw_on = True, mw_changedAt = t\<rparr>
      | _ \<Rightarrow> None)"

definition writeMaintenance :: "wire \<Rightarrow> string option \<Rightarrow> mirror" where
  "writeMaintenance st mtime =
     \<lparr>mi_json = Some (JObj [(''on'', JBool (mw_on st)), (''changedAt'', JStr (mw_changedAt st))]), mi_mtime = mtime\<rparr>"

text \<open>The launch command's own gate.\<close>

definition nodeRefusesLaunch :: "mirror option \<Rightarrow> bool" where
  "nodeRefusesLaunch f =
     (case readMaintenance f of Unreadable _ \<Rightarrow> True | State st \<Rightarrow> mw_on st | Absent \<Rightarrow> False)"

section \<open>The row and the decision\<close>

datatype maintenance_source = FromPlane | FromNode

record maint_row =
  mr_maintenance :: bool
  mr_maintenanceAt :: "string option"
  mr_source :: "maintenance_source option"

datatype maintenance_decision = AdoptNode | PushPlane | Noop

definition rowStamp :: "(string \<Rightarrow> int option) \<Rightarrow> maint_row \<Rightarrow> int option" where
  "rowStamp dp row =
     (case mr_maintenanceAt row of Some t \<Rightarrow> (if t = [] then None else dp t) | None \<Rightarrow> None)"

definition decideMaintenance ::
  "(string \<Rightarrow> int option) \<Rightarrow> maint_row \<Rightarrow> wire option \<Rightarrow> maintenance_decision" where
  "decideMaintenance dp row reported =
     (let planeAt = rowStamp dp row in
      case reported of
        None \<Rightarrow> (if planeAt = None then Noop else PushPlane)
      | Some w \<Rightarrow>
          (case dp (mw_changedAt w) of
             None \<Rightarrow> PushPlane
           | Some nodeAt \<Rightarrow>
               (case planeAt of
                  None \<Rightarrow> AdoptNode
                | Some p \<Rightarrow> (if nodeAt > p then AdoptNode else if nodeAt < p then PushPlane else Noop))))"

definition clampAdoptedStamp :: "(string \<Rightarrow> int option) \<Rightarrow> string \<Rightarrow> string \<Rightarrow> string" where
  "clampAdoptedStamp dp changedAt nowIso =
     (case (dp changedAt, dp nowIso) of
        (Some reported, Some now) \<Rightarrow> (if reported > now then nowIso else changedAt)
      | _ \<Rightarrow> nowIso)"

section \<open>The two ends and the socket between them\<close>

record maint_audit =
  ma_actor :: "string option"
  ma_on :: bool
  ma_source :: maintenance_source
  ma_stopped :: "string list"
  ma_failed :: "string list"
  ma_changedAt :: string

record maint_state =
  ms_nodeId :: string
  ms_row :: maint_row
  ms_running :: "string list"
  ms_audit :: "maint_audit list"
  ms_file :: "mirror option"
  ms_memo :: "wire option"
  ms_restoreLogged :: bool
  ms_online :: bool
  ms_up :: "wire option list"
  ms_down :: "wire list"

record maint_write =
  wr_on :: bool
  wr_changedAt :: string
  wr_source :: maintenance_source
  wr_actor :: "string option"

definition setRow :: "maint_write \<Rightarrow> maint_state \<Rightarrow> maint_state" where
  "setRow w s =
     s\<lparr>ms_row := \<lparr>mr_maintenance = wr_on w, mr_maintenanceAt = Some (wr_changedAt w), mr_source = Some (wr_source w)\<rparr>\<rparr>"

text \<open>\<open>sendCommand\<close> fails for an offline node; the failure is logged.\<close>

definition pushSetMaintenance :: "wire \<Rightarrow> maint_state \<Rightarrow> maint_state" where
  "pushSetMaintenance st s =
     (if ms_nodeId s = LOCAL_NODE_ID then s
      else if ms_online s then s\<lparr>ms_down := ms_down s @ [st]\<rparr> else s)"

text \<open>The sequential loop: one row after the other, a refused kill does not stop it.\<close>

fun stopRunning :: "(string \<Rightarrow> bool) \<Rightarrow> string list \<Rightarrow> string list \<times> string list \<times> string list \<Rightarrow> string list \<times> string list \<times> string list" where
  "stopRunning kill [] acc = acc"
| "stopRunning kill (i # rows) (running, stopped, failed) =
     (if kill i then stopRunning kill rows (filter (\<lambda>r. r \<noteq> i) running, stopped @ [i], failed)
      else stopRunning kill rows (running, stopped, failed @ [i]))"

definition applyMaintenanceEffects ::
  "(string \<Rightarrow> bool) \<Rightarrow> maint_write \<Rightarrow> maint_state \<Rightarrow> (string list \<times> string list) \<times> maint_state" where
  "applyMaintenanceEffects kill w s =
     (let (running, stopped, failed) =
            (if wr_on w then stopRunning kill (ms_running s) (ms_running s, [], [])
             else (ms_running s, [], []));
          s1 = pushSetMaintenance \<lparr>mw_on = wr_on w, mw_changedAt = wr_changedAt w\<rparr> (s\<lparr>ms_running := running\<rparr>)
      in ((stopped, failed),
          s1\<lparr>ms_audit := ms_audit s1 @
              [\<lparr>ma_actor = wr_actor w, ma_on = wr_on w, ma_source = wr_source w, ma_stopped = stopped,
                ma_failed = failed, ma_changedAt = wr_changedAt w\<rparr>]\<rparr>))"

definition setNodeMaintenance ::
  "(string \<Rightarrow> bool) \<Rightarrow> maint_write \<Rightarrow> maint_state \<Rightarrow> (string list \<times> string list) \<times> maint_state" where
  "setNodeMaintenance kill w s = applyMaintenanceEffects kill w (setRow w s)"

definition reconcileMaintenance ::
  "(string \<Rightarrow> int option) \<Rightarrow> (string \<Rightarrow> bool) \<Rightarrow> string \<Rightarrow> wire option \<Rightarrow> maint_state \<Rightarrow> maint_state" where
  "reconcileMaintenance dp kill nowIso reported s =
     (case decideMaintenance dp (ms_row s) reported of
        Noop \<Rightarrow> s
      | PushPlane \<Rightarrow>
          (case mr_maintenanceAt (ms_row s) of
             Some t \<Rightarrow>
               (if t = [] then s
                else pushSetMaintenance \<lparr>mw_on = mr_maintenance (ms_row s), mw_changedAt = t\<rparr> s)
           | None \<Rightarrow> s)
      | AdoptNode \<Rightarrow>
          (case reported of
             None \<Rightarrow> s
           | Some ad \<Rightarrow>
               snd (setNodeMaintenance kill
                      \<lparr>wr_on = mw_on ad, wr_changedAt = clampAdoptedStamp dp (mw_changedAt ad) nowIso,
                       wr_source = FromNode, wr_actor = None\<rparr> s)))"

section \<open>The agent's half\<close>

text \<open>A write of the file succeeds when the outcome parameter is \<open>Some\<close>, which is then what a later
  \<open>stat\<close> of the file answers; \<open>None\<close> is a write that throws.\<close>

definition execSetMaintenance :: "wire \<Rightarrow> string option option \<Rightarrow> maint_state \<Rightarrow> bool \<times> maint_state" where
  "execSetMaintenance st disk s =
     (case disk of
        None \<Rightarrow> (False, s)
      | Some mtime \<Rightarrow> (True, s\<lparr>ms_file := Some (writeMaintenance st mtime), ms_memo := Some st\<rparr>))"

definition reportMaintenance :: "wire \<Rightarrow> maint_state \<Rightarrow> maint_state" where
  "reportMaintenance st s = s\<lparr>ms_up := ms_up s @ [Some st], ms_memo := Some st\<rparr>"

definition restoreMirrorFromMemo :: "string option option \<Rightarrow> maint_state \<Rightarrow> maint_state" where
  "restoreMirrorFromMemo disk s =
     (case ms_memo s of
        None \<Rightarrow> s
      | Some memo \<Rightarrow>
          (case disk of
             Some mtime \<Rightarrow> s\<lparr>ms_file := Some (writeMaintenance memo mtime)\<rparr>
           | None \<Rightarrow> s\<lparr>ms_restoreLogged := True\<rparr>))"

definition maybeReportMaintenance :: "string option option \<Rightarrow> maint_state \<Rightarrow> maint_state" where
  "maybeReportMaintenance disk s =
     (let r = readMaintenance (ms_file s) in
      if r = Absent then restoreMirrorFromMemo disk s
      else
        (case reportableMaintenance r of
           None \<Rightarrow> s
         | Some st \<Rightarrow> (if ms_memo s = Some st then s else reportMaintenance st s)))"

definition seedMaintenanceMemo :: "maint_state \<Rightarrow> wire option \<times> maint_state" where
  "seedMaintenanceMemo s =
     (let r = reportableMaintenance (readMaintenance (ms_file s))
      in (r, s\<lparr>ms_memo := r, ms_restoreLogged := False\<rparr>))"

text \<open>The launch command's gate: it refuses and, when there is a stamp to send, reports.\<close>

definition launchMaintenanceGate :: "maint_state \<Rightarrow> bool \<times> maint_state" where
  "launchMaintenanceGate s =
     (let r = readMaintenance (ms_file s) in
      if nodeRefusesLaunch (ms_file s)
      then (True, case reportableMaintenance r of None \<Rightarrow> s | Some st \<Rightarrow> reportMaintenance st s)
      else (False, s))"

section \<open>Events\<close>

datatype maint_event =
    PlaneFlip bool string string                 \<comment> \<open>the value, the plane's clock, the user\<close>
  | NodeFlip bool string "string option"         \<comment> \<open>\<open>subshell maintenance on | off\<close>, the machine's clock\<close>
  | Connect
  | Heartbeat "string option option"
  | LaunchAttempt
  | DeliverUp string                             \<comment> \<open>one report reaches the plane, whose clock reads so\<close>
  | DeliverDown "string option option"
  | Disconnect
  | FileDamaged "mirror option"

fun maintStep :: "(string \<Rightarrow> int option) \<Rightarrow> (string \<Rightarrow> bool) \<Rightarrow> maint_event \<Rightarrow> maint_state \<Rightarrow> maint_state" where
  "maintStep dp kill (PlaneFlip b now user) s =
     snd (setNodeMaintenance kill
            \<lparr>wr_on = b, wr_changedAt = now, wr_source = FromPlane, wr_actor = Some user\<rparr> s)"
| "maintStep dp kill (NodeFlip b now mtime) s =
     s\<lparr>ms_file := Some (writeMaintenance \<lparr>mw_on = b, mw_changedAt = now\<rparr> mtime)\<rparr>"
| "maintStep dp kill Connect s =
     (let (r, s1) = seedMaintenanceMemo (s\<lparr>ms_online := True, ms_up := [], ms_down := []\<rparr>)
      in s1\<lparr>ms_up := [r]\<rparr>)"
| "maintStep dp kill (Heartbeat disk) s = (if ms_online s then maybeReportMaintenance disk s else s)"
| "maintStep dp kill LaunchAttempt s = (if ms_online s then snd (launchMaintenanceGate s) else s)"
| "maintStep dp kill (DeliverUp now) s =
     (case ms_up s of
        [] \<Rightarrow> s
      | r # up \<Rightarrow> reconcileMaintenance dp kill now r (s\<lparr>ms_up := up\<rparr>))"
| "maintStep dp kill (DeliverDown disk) s =
     (case ms_down s of
        [] \<Rightarrow> s
      | st # down \<Rightarrow> snd (execSetMaintenance st disk (s\<lparr>ms_down := down\<rparr>)))"
| "maintStep dp kill Disconnect s = s\<lparr>ms_online := False, ms_up := [], ms_down := []\<rparr>"
| "maintStep dp kill (FileDamaged f) s = s\<lparr>ms_file := f\<rparr>"

abbreviation maintRun :: "(string \<Rightarrow> int option) \<Rightarrow> (string \<Rightarrow> bool) \<Rightarrow> maint_event list \<Rightarrow> maint_state \<Rightarrow> maint_state" where
  "maintRun dp kill es s \<equiv> fold (maintStep dp kill) es s"

section \<open>Facts about reading and deciding\<close>

named_theorems maint_simps \<open>evaluation of one step of the two copies\<close>

lemma read_written [simp, maint_simps]: "readMaintenance (Some (writeMaintenance st mt)) = State st"
  by (simp add: readMaintenance_def writeMaintenance_def parseNodeMaintenance_def isRecord_def)

lemma report_State [simp, maint_simps]: "reportableMaintenance (State st) = Some st"
  by (simp add: reportableMaintenance_def)

lemma report_Absent [simp, maint_simps]: "reportableMaintenance Absent = None"
  by (simp add: reportableMaintenance_def)

lemma refuses_written [simp, maint_simps]: "nodeRefusesLaunch (Some (writeMaintenance st mt)) = mw_on st"
  by (simp add: nodeRefusesLaunch_def)

lemma report_refuses:
  "reportableMaintenance (readMaintenance f) = Some w \<Longrightarrow> nodeRefusesLaunch f = mw_on w"
  by (auto simp: reportableMaintenance_def nodeRefusesLaunch_def split: maintenance_read.splits option.splits)

lemma rowStamp_set [simp, maint_simps]:
  "rowStamp dp \<lparr>mr_maintenance = b, mr_maintenanceAt = Some t, mr_source = q\<rparr> = (if t = [] then None else dp t)"
  by (simp add: rowStamp_def)

lemma rowStamp_SomeD: "rowStamp dp row = Some p \<Longrightarrow> \<exists>t. mr_maintenanceAt row = Some t \<and> t \<noteq> [] \<and> dp t = Some p"
  by (auto simp: rowStamp_def split: option.splits if_splits)

lemma decide_AdoptNode_iff:
  "decideMaintenance dp row r = AdoptNode \<longleftrightarrow>
     (\<exists>w a. r = Some w \<and> dp (mw_changedAt w) = Some a \<and> (\<forall>p. rowStamp dp row = Some p \<longrightarrow> p < a))"
  by (auto simp: decideMaintenance_def Let_def split: option.splits if_splits)

lemma decide_Noop_iff:
  "decideMaintenance dp row r = Noop \<longleftrightarrow>
     (case r of None \<Rightarrow> rowStamp dp row = None
      | Some w \<Rightarrow> rowStamp dp row \<noteq> None \<and> dp (mw_changedAt w) = rowStamp dp row)"
  by (auto simp: decideMaintenance_def Let_def split: option.splits if_splits)

lemma decide_PushPlane:
  assumes "rowStamp dp row = Some p" "\<And>w a. r = Some w \<Longrightarrow> dp (mw_changedAt w) = Some a \<Longrightarrow> a < p"
  shows "decideMaintenance dp row r = PushPlane"
  using assms
  by (cases r) (auto simp: decideMaintenance_def split: option.split dest: order.asym)

lemma clamp_stamp:
  assumes "dp c = Some a" "dp now = Some n"
  shows "dp (clampAdoptedStamp dp c now) = Some (min a n)"
  using assms by (auto simp: clampAdoptedStamp_def min_def)

lemma stopRunning_filter:
  "stopRunning kill rows (running, stopped, failed) =
     (filter (\<lambda>r. r \<notin> set (filter kill rows)) running, stopped @ filter kill rows,
      failed @ filter (\<lambda>r. \<not> kill r) rows)"
proof (induction rows arbitrary: running stopped failed)
  case (Cons i rows)
  then show ?case by (auto intro!: filter_cong)
qed (auto simp: filter_id_conv)

section \<open>What the whole act leaves behind\<close>

lemma push_fields [simp, maint_simps]:
  "ms_nodeId (pushSetMaintenance st s) = ms_nodeId s" "ms_row (pushSetMaintenance st s) = ms_row s"
  "ms_running (pushSetMaintenance st s) = ms_running s" "ms_audit (pushSetMaintenance st s) = ms_audit s"
  "ms_file (pushSetMaintenance st s) = ms_file s" "ms_memo (pushSetMaintenance st s) = ms_memo s"
  "ms_online (pushSetMaintenance st s) = ms_online s" "ms_up (pushSetMaintenance st s) = ms_up s"
  "ms_down (pushSetMaintenance st s) =
     (if ms_nodeId s \<noteq> LOCAL_NODE_ID \<and> ms_online s then ms_down s @ [st] else ms_down s)"
  by (simp_all add: pushSetMaintenance_def)

lemma setNode_fields [simp, maint_simps]:
  "ms_nodeId (snd (setNodeMaintenance kill w s)) = ms_nodeId s"
  "ms_row (snd (setNodeMaintenance kill w s)) =
     \<lparr>mr_maintenance = wr_on w, mr_maintenanceAt = Some (wr_changedAt w), mr_source = Some (wr_source w)\<rparr>"
  "ms_file (snd (setNodeMaintenance kill w s)) = ms_file s"
  "ms_online (snd (setNodeMaintenance kill w s)) = ms_online s"
  "ms_up (snd (setNodeMaintenance kill w s)) = ms_up s"
  "ms_down (snd (setNodeMaintenance kill w s)) =
     (if ms_nodeId s \<noteq> LOCAL_NODE_ID \<and> ms_online s
      then ms_down s @ [\<lparr>mw_on = wr_on w, mw_changedAt = wr_changedAt w\<rparr>] else ms_down s)"
  by (simp_all add: setNodeMaintenance_def applyMaintenanceEffects_def setRow_def Let_def split: prod.splits)

lemma reconcile_AdoptNode:
  assumes "decideMaintenance dp (ms_row s) (Some w) = AdoptNode"
  shows "reconcileMaintenance dp kill now (Some w) s =
     snd (setNodeMaintenance kill
            \<lparr>wr_on = mw_on w, wr_changedAt = clampAdoptedStamp dp (mw_changedAt w) now,
             wr_source = FromNode, wr_actor = None\<rparr> s)"
  by (simp add: reconcileMaintenance_def assms)

lemma reconcile_PushPlane:
  assumes "decideMaintenance dp (ms_row s) r = PushPlane" "mr_maintenanceAt (ms_row s) = Some t" "t \<noteq> []"
  shows "reconcileMaintenance dp kill now r s =
     pushSetMaintenance \<lparr>mw_on = mr_maintenance (ms_row s), mw_changedAt = t\<rparr> s"
  by (simp add: reconcileMaintenance_def assms)

section \<open>One reconnect\<close>

text \<open>Both copies hold the value \<open>w\<close>, nothing is under way, and both gates answer by it.\<close>

definition bothHold :: "wire \<Rightarrow> maint_state \<Rightarrow> bool" where
  "bothHold w s \<longleftrightarrow>
     readMaintenance (ms_file s) = State w \<and> mr_maintenance (ms_row s) = mw_on w \<and>
     mr_maintenanceAt (ms_row s) = Some (mw_changedAt w) \<and> ms_up s = [] \<and> ms_down s = [] \<and>
     nodeRefusesLaunch (ms_file s) = mr_maintenance (ms_row s)"

definition reconnect :: "(string \<Rightarrow> int option) \<Rightarrow> (string \<Rightarrow> bool) \<Rightarrow> string \<Rightarrow> string option \<Rightarrow> maint_state \<Rightarrow> maint_state" where
  "reconnect dp kill now mt s = maintRun dp kill [Connect, DeliverUp now, DeliverDown (Some mt)] s"

abbreviation fileReport :: "maint_state \<Rightarrow> wire option" where
  "fileReport s \<equiv> reportableMaintenance (readMaintenance (ms_file s))"

lemma reconnect_unfold:
  "reconnect dp kill now mt s =
     maintStep dp kill (DeliverDown (Some mt))
       (reconcileMaintenance dp kill now (fileReport s)
          (s\<lparr>ms_online := True, ms_down := [], ms_memo := fileReport s, ms_restoreLogged := False, ms_up := []\<rparr>))"
  by (simp add: reconnect_def seedMaintenanceMemo_def Let_def)

lemma reconnect_PushPlane:
  assumes "decideMaintenance dp (ms_row s) (fileReport s) = PushPlane" "ms_nodeId s \<noteq> LOCAL_NODE_ID"
    and "mr_maintenanceAt (ms_row s) = Some t" "t \<noteq> []"
  shows "bothHold \<lparr>mw_on = mr_maintenance (ms_row s), mw_changedAt = t\<rparr> (reconnect dp kill now mt s)"
    and "ms_row (reconnect dp kill now mt s) = ms_row s"
  using assms
  by (simp_all add: reconnect_unfold reconcile_PushPlane bothHold_def execSetMaintenance_def)

lemma reconnect_AdoptNode:
  assumes "decideMaintenance dp (ms_row s) (fileReport s) = AdoptNode" "ms_nodeId s \<noteq> LOCAL_NODE_ID"
    and "fileReport s = Some w"
  shows "bothHold \<lparr>mw_on = mw_on w, mw_changedAt = clampAdoptedStamp dp (mw_changedAt w) now\<rparr>
           (reconnect dp kill now mt s)"
  using assms
  by (simp add: reconnect_unfold reconcile_AdoptNode bothHold_def execSetMaintenance_def)

lemma reconnect_Noop:
  assumes "decideMaintenance dp (ms_row s) (fileReport s) = Noop"
  shows "ms_row (reconnect dp kill now mt s) = ms_row s" "ms_file (reconnect dp kill now mt s) = ms_file s"
    "ms_nodeId (reconnect dp kill now mt s) = ms_nodeId s"
  using assms by (simp_all add: reconnect_unfold reconcileMaintenance_def)

lemma bothHold_Noop:
  assumes "bothHold w s" "dp (mw_changedAt w) \<noteq> None" "mw_changedAt w \<noteq> []"
  shows "decideMaintenance dp (ms_row s) (fileReport s) = Noop"
  using assms by (auto simp: bothHold_def decide_Noop_iff rowStamp_def)

text \<open>What each end has to compare: the stamp of the machine's report, and which of two stamps is the later.\<close>

definition fileStamp :: "(string \<Rightarrow> int option) \<Rightarrow> maint_state \<Rightarrow> int option" where
  "fileStamp dp s = (case fileReport s of None \<Rightarrow> None | Some w \<Rightarrow> dp (mw_changedAt w))"

definition laterAtNode :: "int option \<Rightarrow> int option \<Rightarrow> bool" where
  "laterAtNode file row \<longleftrightarrow> (\<exists>a. file = Some a \<and> (\<forall>p. row = Some p \<longrightarrow> p < a))"

lemma decide_by_stamps:
  assumes "fileStamp dp s \<noteq> rowStamp dp (ms_row s)"
  shows "decideMaintenance dp (ms_row s) (fileReport s) \<noteq> Noop"
    and "decideMaintenance dp (ms_row s) (fileReport s) = AdoptNode \<longleftrightarrow> laterAtNode (fileStamp dp s) (rowStamp dp (ms_row s))"
    and "decideMaintenance dp (ms_row s) (fileReport s) = AdoptNode \<or> rowStamp dp (ms_row s) \<noteq> None"
  using assms
  by (cases "rowStamp dp (ms_row s)"; auto simp: fileStamp_def laterAtNode_def decide_Noop_iff decide_AdoptNode_iff split: option.splits)+

lemma decision_settles:
  assumes "dp [] = None" and "dp now = Some n" and "ms_nodeId s \<noteq> LOCAL_NODE_ID"
    and "decideMaintenance dp (ms_row s) (fileReport s) = d" and "d \<noteq> Noop"
    and "d = AdoptNode \<or> rowStamp dp (ms_row s) \<noteq> None"
  shows "\<exists>w. bothHold w (reconnect dp kill now mt s) \<and>
           mw_on w = (if d = AdoptNode then nodeRefusesLaunch (ms_file s) else mr_maintenance (ms_row s)) \<and>
           decideMaintenance dp (ms_row (reconnect dp kill now mt s)) (fileReport (reconnect dp kill now mt s)) = Noop"
proof (cases "d = AdoptNode")
  case True
  with assms(4) obtain w a where w: "fileReport s = Some w" "dp (mw_changedAt w) = Some a"
    by (auto simp: decide_AdoptNode_iff)
  let ?w = "\<lparr>mw_on = mw_on w, mw_changedAt = clampAdoptedStamp dp (mw_changedAt w) now\<rparr>"
  have both: "bothHold ?w (reconnect dp kill now mt s)"
    using reconnect_AdoptNode [OF _ assms(3) w(1)] assms(4) True by simp
  have st: "dp (mw_changedAt ?w) = Some (min a n)"
    using clamp_stamp [OF w(2) assms(2)] by simp
  then have "mw_changedAt ?w \<noteq> []" using assms(1) by (metis option.distinct(1))
  with both st have "decideMaintenance dp (ms_row (reconnect dp kill now mt s)) (fileReport (reconnect dp kill now mt s)) = Noop"
    by (intro bothHold_Noop [OF both]) auto
  with both True report_refuses [OF w(1)] show ?thesis by (intro exI [of _ ?w]) simp
next
  case False
  then have push: "decideMaintenance dp (ms_row s) (fileReport s) = PushPlane"
    using assms(4,5) by (cases d) auto
  obtain t p where t: "mr_maintenanceAt (ms_row s) = Some t" "t \<noteq> []" "dp t = Some p"
    using False assms(6) rowStamp_SomeD by blast
  let ?w = "\<lparr>mw_on = mr_maintenance (ms_row s), mw_changedAt = t\<rparr>"
  have both: "bothHold ?w (reconnect dp kill now mt s)"
    by (rule reconnect_PushPlane [OF push assms(3) t(1,2)])
  have "decideMaintenance dp (ms_row (reconnect dp kill now mt s)) (fileReport (reconnect dp kill now mt s)) = Noop"
    by (rule bothHold_Noop [OF both]) (use t in auto)
  with both False show ?thesis by (intro exI [of _ ?w]) simp
qed

text \<open>
  C26: One reconnect settles a disagreement, and the later stamp wins.  Take the stamp of the machine's file and
  the stamp of the plane's row, either of which may be missing or unreadable, and let them differ.  Then after
  the machine reconnects and the two frames of the exchange arrive both copies hold the same value under the
  same stamp: the machine's own if its stamp is the greater or the only one, the plane's if the plane's is.
  The plane's gate and the machine's own gate then agree on refusing launches, and the next reconnect changes
  neither copy.\<close>

theorem maintenance_converges:
  assumes "dp [] = None" and "dp now = Some n" and "ms_nodeId s \<noteq> LOCAL_NODE_ID"
    and "fileStamp dp s \<noteq> rowStamp dp (ms_row s)"
    and "s' = reconnect dp kill now mt s"
  shows "\<exists>w. bothHold w s' \<and>
     mw_on w = (case (fileStamp dp s, rowStamp dp (ms_row s)) of
                  (Some a, Some p) \<Rightarrow> if p < a then nodeRefusesLaunch (ms_file s) else mr_maintenance (ms_row s)
                | (Some a, None) \<Rightarrow> nodeRefusesLaunch (ms_file s)
                | (None, _) \<Rightarrow> mr_maintenance (ms_row s)) \<and>
     fileStamp dp s' = rowStamp dp (ms_row s') \<and>
     ms_row (reconnect dp kill' now' mt' s') = ms_row s' \<and> ms_file (reconnect dp kill' now' mt' s') = ms_file s'"
proof -
  obtain w where w: "bothHold w s'"
    "mw_on w = (if laterAtNode (fileStamp dp s) (rowStamp dp (ms_row s)) then nodeRefusesLaunch (ms_file s) else mr_maintenance (ms_row s))"
    and rest: "decideMaintenance dp (ms_row s') (fileReport s') = Noop"
    using decision_settles [OF assms(1-3) refl decide_by_stamps(1,3) [OF assms(4)], of kill mt]
    unfolding assms(5) decide_by_stamps(2) [OF assms(4)] by auto
  have "fileStamp dp s' = rowStamp dp (ms_row s')"
    using rest by (auto simp: fileStamp_def decide_Noop_iff split: option.splits)
  moreover have "mw_on w = (case (fileStamp dp s, rowStamp dp (ms_row s)) of
        (Some a, Some p) \<Rightarrow> if p < a then nodeRefusesLaunch (ms_file s) else mr_maintenance (ms_row s)
      | (Some a, None) \<Rightarrow> nodeRefusesLaunch (ms_file s)
      | (None, _) \<Rightarrow> mr_maintenance (ms_row s))"
    using w(2) by (auto simp: laterAtNode_def split: option.splits)
  ultimately show ?thesis using w(1) reconnect_Noop(1,2) [OF rest] by blast
qed

section \<open>A clock that runs ahead\<close>

text \<open>The plane's own clock readings, in the order they are made.\<close>

fun planeClock :: "maint_event \<Rightarrow> string list" where
  "planeClock (PlaneFlip b now user) = [now]"
| "planeClock (DeliverUp now) = [now]"
| "planeClock _ = []"

definition stampBound :: "(string \<Rightarrow> int option) \<Rightarrow> int \<Rightarrow> maint_state \<Rightarrow> bool" where
  "stampBound dp n s \<longleftrightarrow> (\<forall>p. rowStamp dp (ms_row s) = Some p \<longrightarrow> p \<le> n)"

lemma reconcile_bound:
  assumes "stampBound dp n s" "dp now = Some m" "m \<le> n"
  shows "stampBound dp n (reconcileMaintenance dp kill now r s)"
proof (cases "decideMaintenance dp (ms_row s) r = AdoptNode")
  case True
  then obtain w a where w: "r = Some w" "dp (mw_changedAt w) = Some a"
    by (auto simp: decide_AdoptNode_iff)
  have "ms_row (reconcileMaintenance dp kill now r s) =
      \<lparr>mr_maintenance = mw_on w, mr_maintenanceAt = Some (clampAdoptedStamp dp (mw_changedAt w) now),
       mr_source = Some FromNode\<rparr>"
    using True by (simp add: w(1) reconcile_AdoptNode)
  with clamp_stamp [OF w(2) assms(2)] assms(3) show ?thesis
    by (auto simp: stampBound_def min_def split: if_splits)
next
  case False
  then have "ms_row (reconcileMaintenance dp kill now r s) = ms_row s"
    by (cases "decideMaintenance dp (ms_row s) r") (auto simp: reconcileMaintenance_def split: option.split)
  with assms(1) show ?thesis by (simp add: stampBound_def)
qed

lemma step_bound:
  assumes "stampBound dp n s" "\<And>now. now \<in> set (planeClock e) \<Longrightarrow> \<exists>m. dp now = Some m \<and> m \<le> n"
  shows "stampBound dp n (maintStep dp kill e s)"
proof (cases e)
  case (DeliverUp now)
  then obtain m where "dp now = Some m" "m \<le> n" using assms(2) by auto
  moreover have "stampBound dp n (s\<lparr>ms_up := up\<rparr>)" for up
    using assms(1) by (simp add: stampBound_def)
  ultimately show ?thesis
    using assms(1) DeliverUp by (auto split: list.split intro: reconcile_bound)
next
  case (PlaneFlip b now u)
  then obtain m where "dp now = Some m" "m \<le> n" using assms(2) by auto
  with PlaneFlip show ?thesis by (auto simp: stampBound_def split: if_splits)
qed (use assms(1) in \<open>auto simp: stampBound_def Let_def seedMaintenanceMemo_def maybeReportMaintenance_def
      restoreMirrorFromMemo_def reportMaintenance_def launchMaintenanceGate_def execSetMaintenance_def
      split: option.splits list.splits\<close>)

lemma run_bound:
  assumes "stampBound dp n s"
    and "\<And>e now. e \<in> set es \<Longrightarrow> now \<in> set (planeClock e) \<Longrightarrow> \<exists>m. dp now = Some m \<and> m \<le> n"
  shows "stampBound dp n (maintRun dp kill es s)"
  using assms
proof (induction es arbitrary: s)
  case (Cons e es)
  show ?case
    unfolding fold.simps comp_apply
    by (intro Cons.IH step_bound Cons.prems(1)) (use Cons.prems(2) in auto)
qed simp

lemma run_nodeId [simp]: "ms_nodeId (maintRun dp kill es s) = ms_nodeId s"
proof (induction es arbitrary: s)
  case (Cons e es)
  have "ms_nodeId (maintStep dp kill e s) = ms_nodeId s"
    by (cases e) (auto simp: Let_def seedMaintenanceMemo_def maybeReportMaintenance_def
      restoreMirrorFromMemo_def reportMaintenance_def launchMaintenanceGate_def execSetMaintenance_def
      reconcileMaintenance_def split: option.splits list.splits maintenance_decision.splits)
  with Cons show ?case by simp
qed simp

lemma reconnect_report_bound:
  assumes "stampBound dp n s" "dp now = Some n" "ms_nodeId s \<noteq> LOCAL_NODE_ID"
    and "fileReport (reconnect dp kill now mt s) = Some w" "dp (mw_changedAt w) = Some a"
  shows "a \<le> n"
proof (cases "decideMaintenance dp (ms_row s) (fileReport s)")
  case AdoptNode
  then obtain w0 a0 where w0: "fileReport s = Some w0" "dp (mw_changedAt w0) = Some a0"
    by (auto simp: decide_AdoptNode_iff)
  show ?thesis
    using reconnect_AdoptNode [OF AdoptNode assms(3) w0(1), where kill = kill and now = now and mt = mt] assms(4,5)
      clamp_stamp [OF w0(2) assms(2)] by (auto simp: bothHold_def)
next
  case Noop
  with assms(1,4,5) show ?thesis
    by (auto simp: reconnect_Noop(2) [OF Noop] decide_Noop_iff stampBound_def)
next
  case PushPlane
  show ?thesis
  proof (cases "rowStamp dp (ms_row s)")
    case (Some p)
    then obtain t where t: "mr_maintenanceAt (ms_row s) = Some t" "t \<noteq> []" "dp t = Some p"
      using rowStamp_SomeD by blast
    with Some assms(1,4,5) reconnect_PushPlane(1) [OF PushPlane assms(3) t(1,2), where kill = kill and now = now and mt = mt] show ?thesis
      by (auto simp: bothHold_def stampBound_def)
  next
    case None
    show ?thesis
    proof (cases "\<exists>t. mr_maintenanceAt (ms_row s) = Some t \<and> t \<noteq> []")
      case True
      then obtain t where t: "mr_maintenanceAt (ms_row s) = Some t" "t \<noteq> []" by blast
      with None assms(4,5) reconnect_PushPlane(1) [OF PushPlane assms(3) t, where kill = kill and now = now and mt = mt] show ?thesis
        by (auto simp: bothHold_def rowStamp_def)
    next
      case False
      then have "ms_file (reconnect dp kill now mt s) = ms_file s"
        using PushPlane by (auto simp: reconnect_unfold reconcileMaintenance_def split: option.split)
      with assms(4,5) None PushPlane show ?thesis
        by (auto simp: decideMaintenance_def split: option.splits if_splits)
    qed
  qed
qed

text \<open>
  A machine whose clock runs ahead never outranks the plane for good.  Whatever happened before,
  and whatever stamp the mirror file carries, once the machine has reconnected a later flip in the
  browser stands: after the next reconnect both copies hold the flip.\<close>

theorem fast_clock_beaten:
  assumes "dp [] = None" and "ms_nodeId s0 \<noteq> LOCAL_NODE_ID" and "stampBound dp n s0"
    and "\<And>e now. e \<in> set es \<Longrightarrow> now \<in> set (planeClock e) \<Longrightarrow> \<exists>m. dp now = Some m \<and> m \<le> n"
    and "dp now1 = Some n" and "dp now2 = Some n2" and "n < n2"
  shows "bothHold \<lparr>mw_on = b, mw_changedAt = now2\<rparr>
           (reconnect dp kill now3 mt
             (maintRun dp kill [Disconnect, PlaneFlip b now2 user]
               (reconnect dp kill now1 mt (maintRun dp kill es s0))))"
proof -
  let ?s = "maintRun dp kill es s0"
  let ?s1 = "reconnect dp kill now1 mt ?s"
  let ?s2 = "maintRun dp kill [Disconnect, PlaneFlip b now2 user] ?s1"
  have ne: "now2 \<noteq> []" using assms(1,6) by (metis option.distinct(1))
  have id: "ms_nodeId ?s2 \<noteq> LOCAL_NODE_ID" unfolding reconnect_def run_nodeId by (rule assms(2))
  have row: "ms_row ?s2 = \<lparr>mr_maintenance = b, mr_maintenanceAt = Some now2, mr_source = Some FromPlane\<rparr>"
    and fil: "ms_file ?s2 = ms_file ?s1" by simp_all
  have bound: "a \<le> n" if "fileReport ?s1 = Some w" "dp (mw_changedAt w) = Some a" for w a
    by (rule reconnect_report_bound [OF run_bound [OF assms(3,4)] assms(5) _ that])
      (use assms(2) in simp_all)
  have "decideMaintenance dp (ms_row ?s2) (fileReport ?s2) = PushPlane"
    unfolding row fil
  proof (rule decide_PushPlane)
    show "rowStamp dp \<lparr>mr_maintenance = b, mr_maintenanceAt = Some now2, mr_source = Some FromPlane\<rparr> = Some n2"
      using ne assms(6) by simp
    show "a < n2" if "fileReport ?s1 = Some w" "dp (mw_changedAt w) = Some a" for w a
      using bound [OF that] assms(7) by simp
  qed
  from reconnect_PushPlane(1) [OF this id, of now2] ne show ?thesis
    by (simp add: row)
qed

section \<open>The effects of one write\<close>

text \<open>
  C27: One refused kill does not abandon the window.  Taking a node out of service asks for the end of
  every running subshell in turn; the ids reported as stopped are exactly those whose kill went
  through and the ids reported as failed exactly those still running, both in order, and whatever
  failed the flag is set, the machine is told when it is connected and the act is recorded once.\<close>

theorem maintenance_effects_exact:
  assumes "wr_on w" and "setNodeMaintenance kill w s = ((stopped, failed), s')"
  shows "stopped = filter kill (ms_running s) \<and> failed = filter (\<lambda>i. \<not> kill i) (ms_running s) \<and>
         ms_running s' = failed \<and> mr_maintenance (ms_row s') \<and>
         ms_down s' = ms_down s @ (if ms_online s \<and> ms_nodeId s \<noteq> LOCAL_NODE_ID
                                   then [\<lparr>mw_on = True, mw_changedAt = wr_changedAt w\<rparr>] else []) \<and>
         ms_audit s' = ms_audit s @
           [\<lparr>ma_actor = wr_actor w, ma_on = True, ma_source = wr_source w, ma_stopped = stopped,
             ma_failed = failed, ma_changedAt = wr_changedAt w\<rparr>]"
  using assms
  by (auto simp: setNodeMaintenance_def applyMaintenanceEffects_def setRow_def Let_def stopRunning_filter
      intro!: filter_cong)

section \<open>A lost flip\<close>

text \<open>
  \<open>execSetMaintenance\<close> compares no stamps.  A flip at the keyboard made while an older value is on
  its way to the machine is overwritten by it, on both sides, although it is the newer one.
\<close>

definition sample_dp :: "string \<Rightarrow> int option" where
  "sample_dp t = (if t = [] then None else Some (int (length t)))"

definition sample_maint :: maint_state where
  "sample_maint =
     \<lparr>ms_nodeId = ''n1'', ms_row = \<lparr>mr_maintenance = False, mr_maintenanceAt = None, mr_source = None\<rparr>,
      ms_running = [''p'', ''q''], ms_audit = [], ms_file = None, ms_memo = None, ms_restoreLogged = False,
      ms_online = False, ms_up = [], ms_down = []\<rparr>"

lemma newer_flip_lost:
  "bothHold \<lparr>mw_on = False, mw_changedAt = ''t''\<rparr>
     (maintRun sample_dp (\<lambda>_. True)
        [Connect, DeliverUp ''t'', PlaneFlip False ''t'' ''u'', NodeFlip True ''tt'' None,
         DeliverDown (Some None), Heartbeat None] sample_maint)"
  by (simp add: bothHold_def sample_maint_def seedMaintenanceMemo_def reconcileMaintenance_def
      decideMaintenance_def rowStamp_def setNodeMaintenance_def applyMaintenanceEffects_def setRow_def
      pushSetMaintenance_def LOCAL_NODE_ID_def execSetMaintenance_def maybeReportMaintenance_def
      readMaintenance_def [of None])

section \<open>Witnesses\<close>

definition flipped_at_node :: maint_state where
  "flipped_at_node = maintRun sample_dp (\<lambda>_. True) [PlaneFlip False ''t'' ''u'', NodeFlip True ''tttt'' None] sample_maint"

lemma sample_stamps:
  "fileStamp sample_dp flipped_at_node = Some 4" "rowStamp sample_dp (ms_row flipped_at_node) = Some 1"
  by (simp_all add: flipped_at_node_def sample_maint_def rowStamp_def fileStamp_def sample_dp_def LOCAL_NODE_ID_def)

theorem maintenance_converges_witness:
  "\<exists>w. bothHold w (reconnect sample_dp (\<lambda>_. True) ''tt'' None flipped_at_node) \<and> mw_on w"
proof -
  have "sample_dp [] = None" "sample_dp ''tt'' = Some 2" "ms_nodeId flipped_at_node \<noteq> LOCAL_NODE_ID"
    by (simp_all add: sample_dp_def flipped_at_node_def sample_maint_def LOCAL_NODE_ID_def)
  moreover have "nodeRefusesLaunch (ms_file flipped_at_node)" by (simp add: flipped_at_node_def)
  ultimately show ?thesis
    using maintenance_converges [of sample_dp "''tt''" 2 flipped_at_node _ "\<lambda>_. True" None
        "\<lambda>_. True" "''t''" None, OF _ _ _ _ refl] sample_stamps by auto
qed

theorem fast_clock_beaten_witness:
  "bothHold \<lparr>mw_on = False, mw_changedAt = ''ttt''\<rparr>
     (reconnect sample_dp (\<lambda>_. True) ''t'' None
        (maintRun sample_dp (\<lambda>_. True) [Disconnect, PlaneFlip False ''ttt'' ''u'']
           (reconnect sample_dp (\<lambda>_. True) ''tt'' None
              (maintRun sample_dp (\<lambda>_. True) [NodeFlip True ''ttttttt'' None] sample_maint))))"
  by (rule fast_clock_beaten [where n = 2 and ?n2.0 = 3])
    (simp_all add: sample_dp_def sample_maint_def LOCAL_NODE_ID_def stampBound_def rowStamp_def)

theorem maintenance_effects_exact_witness:
  "fst (setNodeMaintenance (\<lambda>i. i = ''q'') \<lparr>wr_on = True, wr_changedAt = ''t'', wr_source = FromPlane, wr_actor = None\<rparr>
          sample_maint) = ([''q''], [''p''])"
proof -
  obtain st fl s' where r: "setNodeMaintenance (\<lambda>i. i = ''q'')
      \<lparr>wr_on = True, wr_changedAt = ''t'', wr_source = FromPlane, wr_actor = None\<rparr> sample_maint = ((st, fl), s')"
    by (metis prod.exhaust)
  from maintenance_effects_exact [OF _ r] have "st = [''q''] \<and> fl = [''p'']"
    by (simp add: sample_maint_def)
  with r show ?thesis by simp
qed

end
