(* ===== verification/AllowedDirs.thy ===== *)
theory AllowedDirs
  imports Text "HOL-Library.Sublist"
begin

text \<open>
  \<open>packages/subshell-protocol/src/dir-allowlist.ts\<close>: the rules that say under which directories a
  node launches subshells.  Paths are sequences of UTF-16 code units.  \<open>localeCompare\<close> is a parameter
  \<open>le\<close> (\<open>a.localeCompare(b) <= 0\<close>); \<open>Array.prototype.sort\<close> is stable, and is the stable insertion
  sort on that comparison.  A path's meaning is the list of its segments, and the textual tests are
  shown to be the prefix order on segments.
\<close>

section \<open>One entry\<close>

definition SEP :: "16 word" where "SEP = 47"
definition DOT :: "16 word" where "DOT = 46"

definition MAX_ALLOWED_DIRS :: nat where "MAX_ALLOWED_DIRS = 64"

text \<open>The code units \<open>String.prototype.trim\<close> removes.\<close>

definition js_space :: "16 word \<Rightarrow> bool" where
  "js_space c \<longleftrightarrow> c \<in> {9, 10, 11, 12, 13, 32, 160, 0x1680, 0x2028, 0x2029, 0x202F, 0x205F, 0x3000, 0xFEFF} \<or>
                  (0x2000 \<le> c \<and> c \<le> 0x200A)"

definition js_trim :: "jstring \<Rightarrow> jstring" where
  "js_trim s = List.rev (dropWhile js_space (List.rev (dropWhile js_space s)))"

definition dotSegment :: "jstring \<Rightarrow> bool" where
  "dotSegment w \<longleftrightarrow> w = [DOT] \<or> w = [DOT, DOT]"

definition normalizeAllowedDir :: "jstring \<Rightarrow> jstring option" where
  "normalizeAllowedDir raw =
     (let trimmed = js_trim raw in
      if \<not> prefix [SEP] trimmed then None
      else
        let segments = filter (\<lambda>w. length w > 0) (splitOn SEP trimmed) in
        if list_ex dotSegment segments then None
        else if segments = [] then Some [SEP] else Some (SEP # joinWith SEP segments))"

definition isUnder :: "jstring \<Rightarrow> jstring \<Rightarrow> bool" where
  "isUnder child parent \<longleftrightarrow>
     (if child = parent then True
      else if parent = [SEP] then prefix [SEP] child else prefix (parent @ [SEP]) child)"

section \<open>A set of entries\<close>

fun insortBy :: "('a \<Rightarrow> 'a \<Rightarrow> bool) \<Rightarrow> 'a \<Rightarrow> 'a list \<Rightarrow> 'a list" where
  "insortBy le x [] = [x]"
| "insortBy le x (y # ys) = (if le x y then x # y # ys else y # insortBy le x ys)"

definition sortBy :: "('a \<Rightarrow> 'a \<Rightarrow> bool) \<Rightarrow> 'a list \<Rightarrow> 'a list" where
  "sortBy le xs = foldr (insortBy le) xs []"

text \<open>\<open>a.length - b.length || a.localeCompare(b)\<close>.\<close>

definition byLength :: "(jstring \<Rightarrow> jstring \<Rightarrow> bool) \<Rightarrow> jstring \<Rightarrow> jstring \<Rightarrow> bool" where
  "byLength le a b \<longleftrightarrow> length a < length b \<or> length a = length b \<and> le a b"

fun normalizeEach :: "jstring list \<Rightarrow> jstring list \<Rightarrow> jstring list" where
  "normalizeEach [] normalized = normalized"
| "normalizeEach (entry # raw) normalized =
     (case normalizeAllowedDir entry of
        Some dir \<Rightarrow> normalizeEach raw (if dir \<notin> set normalized then normalized @ [dir] else normalized)
      | None \<Rightarrow> normalizeEach raw normalized)"

fun dropCovered :: "jstring list \<Rightarrow> jstring list \<Rightarrow> jstring list" where
  "dropCovered [] kept = kept"
| "dropCovered (dir # dirs) kept =
     dropCovered dirs (if list_ex (isUnder dir) kept then kept else kept @ [dir])"

definition keptDirs :: "(jstring \<Rightarrow> jstring \<Rightarrow> bool) \<Rightarrow> jstring list \<Rightarrow> jstring list" where
  "keptDirs le raw = dropCovered (sortBy (byLength le) (normalizeEach raw [])) []"

definition normalizeAllowedDirs :: "(jstring \<Rightarrow> jstring \<Rightarrow> bool) \<Rightarrow> jstring list \<Rightarrow> jstring list" where
  "normalizeAllowedDirs le raw = take MAX_ALLOWED_DIRS (sortBy le (keptDirs le raw))"

section \<open>The two tests\<close>

definition dirAllowed :: "jstring \<Rightarrow> jstring list \<Rightarrow> bool" where
  "dirAllowed candidate roots =
     (if length roots = 0 then True
      else
        (case normalizeAllowedDir candidate of
           None \<Rightarrow> False
         | Some path \<Rightarrow>
             list_ex (\<lambda>root. case normalizeAllowedDir root of None \<Rightarrow> False | Some r \<Rightarrow> isUnder path r) roots))"

definition dirNavigable :: "jstring \<Rightarrow> jstring list \<Rightarrow> bool" where
  "dirNavigable candidate roots =
     (if length roots = 0 then True
      else
        (case normalizeAllowedDir candidate of
           None \<Rightarrow> False
         | Some path \<Rightarrow>
             list_ex (\<lambda>root. case normalizeAllowedDir root of
                               None \<Rightarrow> False
                             | Some r \<Rightarrow> isUnder path r \<or> isUnder r path) roots))"

section \<open>Paths as segment lists\<close>

definition render :: "jstring list \<Rightarrow> jstring" where
  "render segs = (if segs = [] then [SEP] else SEP # joinWith SEP segs)"

definition goodSegs :: "jstring list \<Rightarrow> bool" where
  "goodSegs segs \<longleftrightarrow> (\<forall>w \<in> set segs. w \<noteq> [] \<and> SEP \<notin> set w \<and> \<not> dotSegment w)"

text \<open>The reference reading of an entry: its segments, when it is an absolute path without dot segments.\<close>

definition dirSegments :: "jstring \<Rightarrow> jstring list option" where
  "dirSegments raw =
     (let segs = filter (\<lambda>w. w \<noteq> []) (splitOn SEP (js_trim raw)) in
      if js_trim raw \<noteq> [] \<and> hd (js_trim raw) = SEP \<and> (\<forall>w \<in> set segs. \<not> dotSegment w)
      then Some segs else None)"

lemma normalize_dirSegments: "normalizeAllowedDir raw = map_option render (dirSegments raw)"
  by (cases "js_trim raw") (auto simp: normalizeAllowedDir_def dirSegments_def Let_def render_def list_ex_iff)

lemma dirSegments_good: "dirSegments raw = Some segs \<Longrightarrow> goodSegs segs"
  by (auto simp: dirSegments_def goodSegs_def Let_def dest: splitOn_no_sep split: if_splits)

lemma normalize_SomeD: "normalizeAllowedDir raw = Some d \<Longrightarrow> \<exists>segs. goodSegs segs \<and> d = render segs"
  by (auto simp: normalize_dirSegments dest: dirSegments_good)

lemma splitOn_render: "goodSegs segs \<Longrightarrow> filter (\<lambda>w. w \<noteq> []) (splitOn SEP (render segs)) = segs"
proof (cases "segs = []")
  case False
  assume "goodSegs segs"
  with False show ?thesis
    using splitOn_joinWith [of segs SEP] by (auto simp: render_def goodSegs_def filter_id_conv)
qed (simp add: render_def)

lemma render_inj: "goodSegs a \<Longrightarrow> goodSegs b \<Longrightarrow> render a = render b \<longleftrightarrow> a = b"
  by (metis splitOn_render)

lemma splitOn_join_append:
  assumes "ws \<noteq> []" "\<forall>w \<in> set ws. c \<notin> set w"
  shows "splitOn c (joinWith c ws @ c # xs) = ws @ splitOn c xs"
  using assms
proof (induction c ws rule: joinWith.induct)
  case (2 c w)
  then show ?case by (simp add: splitOn_append)
next
  case (3 c w v ws)
  then show ?case using splitOn_append [of c w "joinWith c (v # ws) @ c # xs"] by simp
qed simp

text \<open>The textual subtree test is the prefix order on segments.\<close>

lemma isUnder_render:
  assumes "goodSegs a" "goodSegs b"
  shows "isUnder (render a) (render b) \<longleftrightarrow> prefix b a"
proof (cases "b = []")
  case True
  then show ?thesis by (cases a) (auto simp: isUnder_def render_def)
next
  case b: False
  have rb: "render b \<noteq> [SEP]"
    using b render_inj [OF assms(2), of "[]"] by (auto simp: goodSegs_def render_def [of "[]"])
  show ?thesis
  proof (cases "a = b")
    case False
    have "prefix (render b @ [SEP]) (render a) \<longleftrightarrow> prefix b a"
    proof
      assume "prefix (render b @ [SEP]) (render a)"
      then obtain xs where xs: "render a = SEP # joinWith SEP b @ SEP # xs"
        using b by (auto simp: prefix_def render_def)
      then have a: "a \<noteq> []" by (auto simp: render_def)
      then have "joinWith SEP a = joinWith SEP b @ SEP # xs" using xs by (simp add: render_def)
      then have "a = b @ splitOn SEP xs"
        using splitOn_join_append [OF b, of SEP xs] splitOn_joinWith [OF a, of SEP] assms
        by (auto simp: goodSegs_def)
      then show "prefix b a" by (simp add: prefix_def)
    next
      assume "prefix b a"
      then obtain c where c: "a = b @ c" "c \<noteq> []" using False by (auto simp: prefix_def)
      then show "prefix (render b @ [SEP]) (render a)"
        using b by (auto simp: render_def joinWith_append prefix_def)
    qed
    with False rb assms show ?thesis by (auto simp: isUnder_def render_inj)
  qed (simp add: isUnder_def)
qed

lemma allowed_segments:
  "(dirAllowed candidate roots \<longleftrightarrow>
      roots = [] \<or>
      (\<exists>p. dirSegments candidate = Some p \<and>
           (\<exists>r q. r \<in> set roots \<and> dirSegments r = Some q \<and> prefix q p))) \<and>
   (dirNavigable candidate roots \<longleftrightarrow>
      roots = [] \<or>
      (\<exists>p. dirSegments candidate = Some p \<and>
           (\<exists>r q. r \<in> set roots \<and> dirSegments r = Some q \<and> (prefix q p \<or> prefix p q))))"
proof (cases "dirSegments candidate")
  case None
  then show ?thesis by (simp add: dirAllowed_def dirNavigable_def normalize_dirSegments)
next
  case (Some p)
  note p = dirSegments_good [OF Some]
  have up: "isUnder (render p) (render q) \<longleftrightarrow> prefix q p" and down: "isUnder (render q) (render p) \<longleftrightarrow> prefix p q"
    if "dirSegments r = Some q" for r q
    using isUnder_render dirSegments_good [OF that] p by blast+
  show ?thesis
    by (auto simp: dirAllowed_def dirNavigable_def normalize_dirSegments Some list_ex_iff up down
        split: option.splits)
qed

section \<open>Sorting and dropping\<close>

lemma mset_insortBy [simp]: "mset (insortBy le x xs) = add_mset x (mset xs)"
  by (induction xs) auto

lemma mset_sortBy [simp]: "mset (sortBy le xs) = mset xs"
  by (induction xs) (auto simp: sortBy_def)

lemma set_sortBy [simp]: "set (sortBy le xs) = set xs"
  by (metis mset_sortBy set_mset_mset)

lemma length_sortBy [simp]: "length (sortBy le xs) = length xs"
  by (metis mset_sortBy size_mset)

lemma distinct_sortBy [simp]: "distinct (sortBy le xs) = distinct xs"
  by (metis distinct_mset_cong mset_sortBy)

lemma sortBy_sorted:
  assumes "\<And>a b. le a b \<or> le b a" "\<And>a b c. le a b \<Longrightarrow> le b c \<Longrightarrow> le a c"
  shows "sorted_wrt le (sortBy le xs)"
proof -
  have "sorted_wrt le ys \<Longrightarrow> sorted_wrt le (insortBy le x ys)" for x ys
  proof (induction ys)
    case (Cons y ys)
    have "set (insortBy le x ys) = insert x (set ys)"
      by (metis mset_insortBy set_mset_add_mset_insert set_mset_mset)
    moreover have "le x y \<Longrightarrow> \<forall>z \<in> set ys. le x z" using Cons.prems assms(2) by auto
    moreover have "\<not> le x y \<Longrightarrow> le y x" using assms(1) by blast
    ultimately show ?case using Cons by (cases "le x y") auto
  qed simp
  then show ?thesis by (induction xs) (auto simp: sortBy_def)
qed

lemma sortBy_id: "sorted_wrt le xs \<Longrightarrow> sortBy le xs = xs"
proof (induction xs)
  case (Cons x xs)
  then show ?case by (cases xs) (auto simp: sortBy_def)
qed (simp add: sortBy_def)

lemma sorted_wrt_unique:
  assumes "\<And>a b. le a b \<Longrightarrow> le b a \<Longrightarrow> a = b"
    and "sorted_wrt le xs" "sorted_wrt le ys" "mset xs = mset ys"
  shows "xs = ys"
  using assms(2-4)
proof (induction xs arbitrary: ys)
  case (Cons x xs)
  then obtain y ys' where ys: "ys = y # ys'" by (cases ys) auto
  have "x = y"
  proof (rule ccontr)
    assume "x \<noteq> y"
    then have "y \<in> set xs" "x \<in> set ys'"
      using Cons.prems(3) ys by (metis list.set_intros(1) set_ConsD mset_eq_setD)+
    then show False using Cons.prems(1,2) ys assms(1) \<open>x \<noteq> y\<close> by auto
  qed
  with Cons ys show ?case by auto
qed simp

lemma set_normalizeEach:
  "set (normalizeEach raw acc) = set acc \<union> {d. \<exists>e \<in> set raw. normalizeAllowedDir e = Some d}"
  by (induction raw acc rule: normalizeEach.induct) (auto split: option.splits)

lemma distinct_normalizeEach: "distinct acc \<Longrightarrow> distinct (normalizeEach raw acc)"
  by (induction raw acc rule: normalizeEach.induct) (auto split: option.splits)

lemma isUnder_refl [simp]: "isUnder d d"
  by (simp add: isUnder_def)

lemma isUnder_length: "isUnder a b \<Longrightarrow> a \<noteq> b \<Longrightarrow> length b < length a \<or> b = [SEP] \<and> length b \<le> length a"
  by (auto simp: isUnder_def dest: prefix_length_le split: if_splits)

lemma isUnder_strict: "isUnder a b \<Longrightarrow> a \<noteq> b \<Longrightarrow> length b < length a"
  using isUnder_length [of a b] by (auto simp: isUnder_def prefix_def split: if_splits)

lemma dropCovered_subset: "set kept \<subseteq> set (dropCovered dirs kept) \<and> set (dropCovered dirs kept) \<subseteq> set kept \<union> set dirs"
  by (induction dirs kept rule: dropCovered.induct) (fastforce split: if_splits)+

lemma dropCovered_covers: "d \<in> set dirs \<Longrightarrow> \<exists>k \<in> set (dropCovered dirs kept). isUnder d k"
proof (induction dirs kept rule: dropCovered.induct)
  case (2 dir dirs kept)
  let ?kept = "if list_ex (isUnder dir) kept then kept else kept @ [dir]"
  have "\<exists>k \<in> set ?kept. isUnder dir k" by (auto simp: list_ex_iff)
  then have "\<exists>k \<in> set (dropCovered dirs ?kept). isUnder dir k"
    using dropCovered_subset [of ?kept dirs] by (meson subsetD)
  then show ?case using 2 by auto
qed simp

abbreviation apart :: "jstring \<Rightarrow> jstring \<Rightarrow> bool" where
  "apart x y \<equiv> \<not> isUnder x y \<and> \<not> isUnder y x"

lemma dropCovered_apart:
  assumes "sorted_wrt (\<lambda>x y. length x \<le> length y) (kept @ dirs)" "sorted_wrt apart kept"
  shows "sorted_wrt apart (dropCovered dirs kept)"
  using assms
proof (induction dirs kept rule: dropCovered.induct)
  case (2 dir dirs kept)
  show ?case
  proof (cases "list_ex (isUnder dir) kept")
    case False
    then have "apart x dir" if "x \<in> set kept" for x
      using that 2(2) False isUnder_strict [of x dir]
      by (cases "x = dir") (fastforce simp: list_ex_iff sorted_wrt_append)+
    with 2 False show ?thesis by (auto simp: sorted_wrt_append)
  qed (use 2 in \<open>auto simp: sorted_wrt_append\<close>)
qed simp

lemma dropCovered_id: "sorted_wrt apart (kept @ dirs) \<Longrightarrow> dropCovered dirs kept = kept @ dirs"
proof (induction dirs kept rule: dropCovered.induct)
  case (2 dir dirs kept)
  have n: "\<not> list_ex (isUnder dir) kept" using 2(2) by (simp add: list_ex_iff sorted_wrt_append)
  have "sorted_wrt apart ((kept @ [dir]) @ dirs)" using 2(2) by simp
  with 2(1) n show ?case by (simp only: dropCovered.simps if_False append_assoc append.simps)
qed simp

lemma sorted_wrt_apart_mset:
  assumes "sorted_wrt apart xs" "mset xs = mset ys"
  shows "sorted_wrt apart ys"
proof -
  have "distinct xs"
    using assms(1) by (induction xs) auto
  then have d: "distinct ys" using assms(2) by (metis distinct_mset_cong)
  have "apart x y" if "x \<in> set xs" "y \<in> set xs" "x \<noteq> y" for x y
    using assms(1) that by (induction xs) auto
  then have "apart x y" if "x \<in> set ys" "y \<in> set ys" "x \<noteq> y" for x y
    using that mset_eq_setD [OF assms(2)] by simp
  with d show ?thesis by (induction ys) auto
qed

lemma apart_not_in: "sorted_wrt apart (acc @ d # ds) \<Longrightarrow> d \<notin> set acc"
  using isUnder_refl by (auto simp: sorted_wrt_append)

lemma normalizeEach_id:
  assumes "\<forall>d \<in> set ds. normalizeAllowedDir d = Some d" "sorted_wrt apart (acc @ ds)"
  shows "normalizeEach ds acc = acc @ ds"
  using assms
proof (induction ds arbitrary: acc)
  case (Cons d ds)
  have n: "normalizeAllowedDir d = Some d" "d \<notin> set acc"
    using Cons.prems apart_not_in by auto
  have "normalizeEach ds (acc @ [d]) = (acc @ [d]) @ ds"
    by (rule Cons.IH) (use Cons.prems in simp_all)
  with n show ?case by simp
qed simp

section \<open>Entries that survive being read again\<close>

text \<open>
  \<open>trim\<close> is applied to the whole text only, so an entry whose last segment ends in a blank before a
  trailing slash is not a fixed point: reading it twice loses the blank.  The facts about whole sets
  are about entries without one.
\<close>

definition solid :: "jstring \<Rightarrow> bool" where
  "solid raw = (case dirSegments raw of None \<Rightarrow> True | Some segs \<Rightarrow> segs = [] \<or> \<not> js_space (last (last segs)))"

lemma normalize_not_idempotent:
  "normalizeAllowedDir [SEP, 97, 32, SEP] = Some [SEP, 97, 32] \<and> normalizeAllowedDir [SEP, 97, 32] = Some [SEP, 97]"
  by (simp add: normalizeAllowedDir_def js_trim_def js_space_def SEP_def dotSegment_def DOT_def)

lemma js_trim_id: "s \<noteq> [] \<Longrightarrow> \<not> js_space (hd s) \<Longrightarrow> \<not> js_space (last s) \<Longrightarrow> js_trim s = s"
proof -
  assume s: "s \<noteq> []" "\<not> js_space (hd s)" "\<not> js_space (last s)"
  have "dropWhile js_space s = s" using s by (cases s) auto
  moreover have "dropWhile js_space (List.rev s) = List.rev s"
    using s by (cases s rule: rev_cases) auto
  ultimately show ?thesis by (simp add: js_trim_def)
qed

lemma joinWith_Nil_iff: "joinWith c ws = [] \<longleftrightarrow> ws = [] \<or> ws = [[]]"
  by (cases "(c, ws)" rule: joinWith.cases) auto

lemma last_joinWith: "ws \<noteq> [] \<Longrightarrow> last ws \<noteq> [] \<Longrightarrow> last (joinWith c ws) = last (last ws)"
  by (induction c ws rule: joinWith.induct) (auto simp: joinWith_Nil_iff split: if_splits)

lemma dirSegments_render:
  assumes "goodSegs segs" "segs = [] \<or> \<not> js_space (last (last segs))"
  shows "dirSegments (render segs) = Some segs"
proof -
  have sep: "\<not> js_space SEP" by (simp add: js_space_def SEP_def)
  have "js_trim (render segs) = render segs"
  proof (cases "segs = []")
    case False
    then have "last segs \<noteq> []" using assms(1) by (simp add: goodSegs_def)
    moreover have "joinWith SEP segs \<noteq> []"
      using False assms(1) by (auto simp: joinWith_Nil_iff goodSegs_def)
    ultimately show ?thesis
      using False assms(2) sep last_joinWith [OF False, of SEP] by (intro js_trim_id) (auto simp: render_def)
  qed (use sep in \<open>simp add: render_def js_trim_def\<close>)
  with splitOn_render [OF assms(1)] assms(1) show ?thesis
    by (auto simp: dirSegments_def Let_def goodSegs_def render_def [of segs] split: if_splits)
qed

lemma solid_normalize:
  assumes "solid raw" "normalizeAllowedDir raw = Some d"
  shows "normalizeAllowedDir d = Some d \<and> dirSegments d = dirSegments raw"
proof -
  obtain segs where s: "dirSegments raw = Some segs" "d = render segs"
    using assms(2) by (auto simp: normalize_dirSegments)
  then have "dirSegments d = Some segs"
    using assms(1) dirSegments_good [OF s(1)] by (auto simp: solid_def intro!: dirSegments_render)
  with s show ?thesis by (simp add: normalize_dirSegments)
qed

section \<open>The whole set\<close>

lemma set_kept_subset: "set (keptDirs le raw) \<subseteq> {d. \<exists>e \<in> set raw. normalizeAllowedDir e = Some d}"
  using dropCovered_subset [of "[]" "sortBy (byLength le) (normalizeEach raw [])"]
  by (auto simp: keptDirs_def set_normalizeEach)

lemma keptDirs_covers:
  assumes "e \<in> set raw" "normalizeAllowedDir e = Some d"
  shows "\<exists>k \<in> set (keptDirs le raw). isUnder d k"
  unfolding keptDirs_def by (rule dropCovered_covers) (use assms in \<open>auto simp: set_normalizeEach\<close>)

lemma set_normalizeAllowedDirs:
  assumes "length (keptDirs le raw) \<le> MAX_ALLOWED_DIRS"
  shows "set (normalizeAllowedDirs le raw) = set (keptDirs le raw)"
  using assms by (simp add: normalizeAllowedDirs_def)

lemma normalized_solid:
  assumes "list_all solid raw" "d \<in> set (normalizeAllowedDirs le raw)"
  shows "normalizeAllowedDir d = Some d"
proof -
  have "d \<in> set (keptDirs le raw)"
    using assms(2) set_take_subset [of MAX_ALLOWED_DIRS "sortBy le (keptDirs le raw)"]
    by (auto simp: normalizeAllowedDirs_def)
  with assms(1) set_kept_subset [of le raw] solid_normalize show ?thesis
    by (fastforce simp: list_all_iff)
qed

text \<open>
  Cleaning a set of rules changes no answer.  Deduplication, dropping the rules a broader one
  covers and sorting leave every decision about every candidate as it was, as long as some rule is
  valid, none ends in a blank before a trailing slash, and the survivors fit the cap.\<close>

theorem normalized_rules_decide_alike:
  assumes "list_all solid raw" and "list_ex (\<lambda>e. normalizeAllowedDir e \<noteq> None) raw"
    and "length (keptDirs le raw) \<le> MAX_ALLOWED_DIRS"
  shows "dirAllowed candidate (normalizeAllowedDirs le raw) = dirAllowed candidate raw"
proof -
  let ?L = "normalizeAllowedDirs le raw"
  note L = set_normalizeAllowedDirs [OF assms(3)]
  obtain e d where e: "e \<in> set raw" "normalizeAllowedDir e = Some d"
    using assms(2) by (auto simp: list_ex_iff)
  have ne: "raw \<noteq> []" "?L \<noteq> []"
    using e keptDirs_covers [OF e, of le] L by auto
  have into: "\<exists>r' q'. r' \<in> set ?L \<and> dirSegments r' = Some q' \<and> prefix q' q"
    if r: "r \<in> set raw" "dirSegments r = Some q" for r q
  proof -
    have "normalizeAllowedDir r = Some (render q)" by (simp add: normalize_dirSegments r(2))
    from keptDirs_covers [OF r(1) this] obtain k where k: "k \<in> set ?L" "isUnder (render q) k"
      using L by blast
    obtain q' where q': "dirSegments k = Some q'" "k = render q'"
      using normalized_solid [OF assms(1) k(1)] by (auto simp: normalize_dirSegments)
    with k(2) isUnder_render dirSegments_good r(2) have "prefix q' q" by blast
    with k(1) q'(1) show ?thesis by blast
  qed
  have from_raw: "\<exists>r. r \<in> set raw \<and> dirSegments r = Some q" if r: "r \<in> set ?L" "dirSegments r = Some q" for r q
  proof -
    obtain e where e: "e \<in> set raw" "normalizeAllowedDir e = Some r"
      using r(1) L set_kept_subset [of le raw] by blast
    with assms(1) solid_normalize [of e r] r(2) show ?thesis by (auto simp: list_all_iff)
  qed
  have "(\<exists>r q. r \<in> set ?L \<and> dirSegments r = Some q \<and> prefix q p) \<longleftrightarrow>
        (\<exists>r q. r \<in> set raw \<and> dirSegments r = Some q \<and> prefix q p)" for p
    using into from_raw prefix_order.order_trans by meson
  then show ?thesis
    using ne allowed_segments [of candidate] by simp
qed

text \<open>
  The cleaned set is canonical.  It has at most 64 rules, no rule covers another, and cleaning
  it again changes nothing, given that the collation is a linear order on the rules and none ends in
  a blank before a trailing slash.\<close>

theorem normalized_rules_canonical:
  assumes "\<And>a b. le a b \<or> le b a" and "\<And>a b c. le a b \<Longrightarrow> le b c \<Longrightarrow> le a c"
    and "\<And>a b. le a b \<Longrightarrow> le b a \<Longrightarrow> a = b" and "list_all solid raw"
  shows "length (normalizeAllowedDirs le raw) \<le> MAX_ALLOWED_DIRS \<and>
         sorted_wrt apart (normalizeAllowedDirs le raw) \<and>
         normalizeAllowedDirs le (normalizeAllowedDirs le raw) = normalizeAllowedDirs le raw"
proof -
  let ?L = "normalizeAllowedDirs le raw" and ?S = "sortBy (byLength le) (normalizeEach raw [])"
  have le: "byLength le a b \<or> byLength le b a" "byLength le a b \<Longrightarrow> byLength le b c \<Longrightarrow> byLength le a c" for a b c
    using assms(1) [of a b] assms(2) [of a b c] unfolding byLength_def by linarith+
  have "sorted_wrt (byLength le) ?S"
    by (rule sortBy_sorted) (fact le)+
  then have "sorted_wrt (\<lambda>x y. length x \<le> length y) ?S"
    by (rule sorted_wrt_mono_rel [rotated]) (auto simp: byLength_def)
  then have "sorted_wrt apart (keptDirs le raw)"
    unfolding keptDirs_def by (intro dropCovered_apart) auto
  then have "sorted_wrt apart (sortBy le (keptDirs le raw))"
    by (rule sorted_wrt_apart_mset) simp
  then have ap: "sorted_wrt apart ?L" by (simp add: normalizeAllowedDirs_def sorted_wrt_take)
  have len: "length ?L \<le> MAX_ALLOWED_DIRS" by (simp add: normalizeAllowedDirs_def)
  have srt: "sorted_wrt le ?L"
    unfolding normalizeAllowedDirs_def by (rule sorted_wrt_take, rule sortBy_sorted) (fact assms(1,2))+
  have each: "normalizeEach ?L [] = ?L"
    using normalizeEach_id [of ?L "[]"] normalized_solid [OF assms(4)] ap by simp
  have "sorted_wrt apart (sortBy (byLength le) ?L)"
    by (rule sorted_wrt_apart_mset [OF ap]) simp
  then have kept: "keptDirs le ?L = sortBy (byLength le) ?L"
    by (simp add: keptDirs_def each dropCovered_id)
  have srt2: "sorted_wrt le (sortBy le (keptDirs le ?L))"
    by (rule sortBy_sorted) (fact assms(1,2))+
  have "sortBy le (keptDirs le ?L) = ?L"
    by (rule sorted_wrt_unique [of le]) (fact assms(3), fact srt2, fact srt, simp add: kept)
  with len ap show ?thesis by (simp add: normalizeAllowedDirs_def [of le ?L])
qed

text \<open>
  C28: The allowlist is a test on whole path segments.  With no rule every directory is allowed;
  with rules a candidate is allowed exactly when it is an absolute path without dot segments and the
  segments of some valid rule begin its own, so no sibling that merely shares a textual prefix gets
  in.  A picker may in addition list the ancestors of a rule, and nothing else.\<close>

theorem dir_rules_are_segment_prefixes:
  "(dirAllowed candidate roots \<longleftrightarrow>
      roots = [] \<or>
      (\<exists>p. dirSegments candidate = Some p \<and>
           (\<exists>r q. r \<in> set roots \<and> dirSegments r = Some q \<and> prefix q p))) \<and>
   (dirNavigable candidate roots \<longleftrightarrow>
      roots = [] \<or>
      (\<exists>p. dirSegments candidate = Some p \<and>
           (\<exists>r q. r \<in> set roots \<and> dirSegments r = Some q \<and> (prefix q p \<or> prefix p q))))"
  by (rule allowed_segments)

text \<open>A non-empty set without a valid rule forbids everything; cleaned, it allows everything.\<close>

lemma invalid_rules_open:
  "\<not> dirAllowed [SEP] [[97]] \<and> dirAllowed [SEP] (normalizeAllowedDirs le [[97]])"
  by (simp add: dirAllowed_def normalizeAllowedDirs_def keptDirs_def normalizeAllowedDir_def js_trim_def
      js_space_def SEP_def sortBy_def)

section \<open>Witnesses\<close>

text \<open>\<open>/a\<close>, \<open>/a/b\<close>, \<open>/c/\<close> and a relative entry, under the order of the code units.\<close>

fun unitsLe :: "jstring \<Rightarrow> jstring \<Rightarrow> bool" where
  "unitsLe [] ys = True"
| "unitsLe (x # xs) [] = False"
| "unitsLe (x # xs) (y # ys) = (x < y \<or> x = y \<and> unitsLe xs ys)"

lemma unitsLe_total: "unitsLe a b \<or> unitsLe b a"
  by (induction a b rule: unitsLe.induct) auto

lemma unitsLe_trans: "unitsLe a b \<Longrightarrow> unitsLe b c \<Longrightarrow> unitsLe a c"
proof (induction a b arbitrary: c rule: unitsLe.induct)
  case (3 x xs y ys)
  then show ?case by (cases c) auto
qed auto

lemma unitsLe_antisym: "unitsLe a b \<Longrightarrow> unitsLe b a \<Longrightarrow> a = b"
proof (induction a b rule: unitsLe.induct)
  case (1 ys)
  then show ?case by (cases ys) auto
qed auto

definition sample_rules :: "jstring list" where
  "sample_rules = [[47, 97, 47, 98], [47, 97], [47, 99, 47], [97]]"

lemma sample_rules_ok:
  "list_all solid sample_rules" "normalizeAllowedDir [47, 97] = Some [47, 97]"
  "keptDirs unitsLe sample_rules = [[47, 97], [47, 99]]"
  by (simp_all add: sample_rules_def solid_def dirSegments_def normalizeAllowedDir_def js_trim_def js_space_def
      SEP_def DOT_def dotSegment_def Let_def keptDirs_def sortBy_def byLength_def isUnder_def)

theorem normalized_rules_decide_alike_witness:
  "dirAllowed [47, 97, 98] (normalizeAllowedDirs unitsLe sample_rules) = dirAllowed [47, 97, 98] sample_rules"
  by (rule normalized_rules_decide_alike)
    (simp_all add: sample_rules_ok MAX_ALLOWED_DIRS_def sample_rules_ok(2) [unfolded sample_rules_ok]
      list_ex_iff, auto simp: sample_rules_def sample_rules_ok(2))

theorem normalized_rules_canonical_witness:
  "normalizeAllowedDirs unitsLe (normalizeAllowedDirs unitsLe sample_rules) = normalizeAllowedDirs unitsLe sample_rules"
proof -
  have "length (normalizeAllowedDirs unitsLe sample_rules) \<le> MAX_ALLOWED_DIRS \<and>
        sorted_wrt apart (normalizeAllowedDirs unitsLe sample_rules) \<and>
        normalizeAllowedDirs unitsLe (normalizeAllowedDirs unitsLe sample_rules) = normalizeAllowedDirs unitsLe sample_rules"
    by (rule normalized_rules_canonical) (fact unitsLe_total unitsLe_trans unitsLe_antisym sample_rules_ok(1))+
  then show ?thesis by blast
qed

end
