(* ===== verification/CrashProg.thy ===== *)
theory CrashProg
  imports Prelude
begin

text \<open>
  Sequential programs on a store that survives a crash.  A program does one durable act after the
  other and may look at the store to decide how to go on; a crash, or an exception nobody catches,
  leaves the store as it was after some number of acts.  \<open>'a\<close> are the acts and \<open>'d\<close> is the store; the
  meaning of an act is the parameter \<open>ex\<close> of every definition.
\<close>

section \<open>Programs and their runs\<close>

datatype ('a, 'd) prog =
    Done
  | Halt                                   \<comment> \<open>an exception that leaves the program\<close>
  | Do 'a "('a, 'd) prog"
  | Look "'d \<Rightarrow> ('a, 'd) prog"

text \<open>The store after a crash that lets \<open>n\<close> acts through, and after the whole run.\<close>

primrec runTo :: "('a \<Rightarrow> 'd \<Rightarrow> 'd) \<Rightarrow> ('a, 'd) prog \<Rightarrow> nat \<Rightarrow> 'd \<Rightarrow> 'd" where
  "runTo ex Done n d = d"
| "runTo ex Halt n d = d"
| "runTo ex (Do a p) n d = (case n of 0 \<Rightarrow> d | Suc m \<Rightarrow> runTo ex p m (ex a d))"
| "runTo ex (Look f) n d = runTo ex (f d) n d"

primrec complete :: "('a \<Rightarrow> 'd \<Rightarrow> 'd) \<Rightarrow> ('a, 'd) prog \<Rightarrow> 'd \<Rightarrow> 'd" where
  "complete ex Done d = d"
| "complete ex Halt d = d"
| "complete ex (Do a p) d = complete ex p (ex a d)"
| "complete ex (Look f) d = complete ex (f d) d"

primrec returns :: "('a \<Rightarrow> 'd \<Rightarrow> 'd) \<Rightarrow> ('a, 'd) prog \<Rightarrow> 'd \<Rightarrow> bool" where
  "returns ex Done d = True"
| "returns ex Halt d = False"
| "returns ex (Do a p) d = returns ex p (ex a d)"
| "returns ex (Look f) d = returns ex (f d) d"

section \<open>What holds at every crash point\<close>

text \<open>
  \<open>outlasts ex I Q E p d\<close>: run from \<open>d\<close>, the program keeps \<open>I\<close> after every act, ends in \<open>Q\<close> when it
  returns, and can only end in an exception when \<open>E\<close> holds.
\<close>

primrec outlasts ::
  "('a \<Rightarrow> 'd \<Rightarrow> 'd) \<Rightarrow> ('d \<Rightarrow> bool) \<Rightarrow> ('d \<Rightarrow> bool) \<Rightarrow> bool \<Rightarrow> ('a, 'd) prog \<Rightarrow> 'd \<Rightarrow> bool" where
  "outlasts ex I Q E Done d = (I d \<and> Q d)"
| "outlasts ex I Q E Halt d = (I d \<and> E)"
| "outlasts ex I Q E (Do a p) d = (I d \<and> outlasts ex I Q E p (ex a d))"
| "outlasts ex I Q E (Look f) d = outlasts ex I Q E (f d) d"

lemma outlasts_runTo: "outlasts ex I Q E p d \<Longrightarrow> I (runTo ex p n d)"
  by (induction p arbitrary: n d) (auto split: nat.split)

lemma outlasts_start: "outlasts ex I Q E p d \<Longrightarrow> I d"
  using outlasts_runTo [of ex I Q E p d 0] by (induction p) (auto split: nat.split)

lemma outlasts_returns: "outlasts ex I Q E p d \<Longrightarrow> \<not> E \<Longrightarrow> returns ex p d"
  by (induction p arbitrary: d) auto

lemma outlasts_complete: "outlasts ex I Q E p d \<Longrightarrow> returns ex p d \<Longrightarrow> Q (complete ex p d)"
  by (induction p arbitrary: d) auto

lemma outlasts_mono:
  assumes "outlasts ex I Q E p d" "\<And>d. I d \<Longrightarrow> I' d" "\<And>d. Q d \<Longrightarrow> Q' d" "E \<Longrightarrow> E'"
  shows "outlasts ex I' Q' E' p d"
  using assms(1) by (induction p arbitrary: d) (auto intro: assms(2-4))

text \<open>
  The same with a condition on the store an exception leaves behind: \<open>Q\<close> after a return, \<open>X\<close> after an
  exception.
\<close>

primrec sustains ::
  "('a \<Rightarrow> 'd \<Rightarrow> 'd) \<Rightarrow> ('d \<Rightarrow> bool) \<Rightarrow> ('d \<Rightarrow> bool) \<Rightarrow> ('d \<Rightarrow> bool) \<Rightarrow> ('a, 'd) prog \<Rightarrow> 'd \<Rightarrow> bool" where
  "sustains ex I Q X Done d = (I d \<and> Q d)"
| "sustains ex I Q X Halt d = (I d \<and> X d)"
| "sustains ex I Q X (Do a p) d = (I d \<and> sustains ex I Q X p (ex a d))"
| "sustains ex I Q X (Look f) d = sustains ex I Q X (f d) d"

lemma sustains_runTo: "sustains ex I Q X p d \<Longrightarrow> I (runTo ex p n d)"
  by (induction p arbitrary: n d) (auto split: nat.split)

lemma sustains_ends:
  "sustains ex I Q X p d \<Longrightarrow>
   I (complete ex p d) \<and> (if returns ex p d then Q (complete ex p d) else X (complete ex p d))"
  by (induction p arbitrary: d) auto

section \<open>Recovery that may itself be interrupted\<close>

text \<open>
  A recovery program that keeps its own precondition at every crash point may be interrupted any
  number of times; the first attempt that is let through reaches the goal.
\<close>

locale recoverable =
  fixes ex :: "'a \<Rightarrow> 'd \<Rightarrow> 'd" and p :: "('a, 'd) prog" and I :: "'d \<Rightarrow> bool" and G :: "'d \<Rightarrow> bool" and E :: bool
  assumes resumes: "I d \<Longrightarrow> outlasts ex I G E p d"
begin

lemma attempts_keep: "I d \<Longrightarrow> I (fold (runTo ex p) ns d)"
  by (induction ns arbitrary: d) (auto intro: outlasts_runTo resumes)

lemma attempt_finishes: "I d \<Longrightarrow> \<not> E \<Longrightarrow> returns ex p (fold (runTo ex p) ns d)"
  by (rule outlasts_returns [OF resumes [OF attempts_keep]])

lemma attempt_reaches: "I d \<Longrightarrow> \<not> E \<Longrightarrow> G (complete ex p (fold (runTo ex p) ns d))"
  by (rule outlasts_complete [OF resumes [OF attempts_keep] attempt_finishes])

end

section \<open>Programs restarted until one gets through\<close>

text \<open>
  A service that is started again and again, each start a process of its own: whatever holds at
  every crash point of one start holds after any number of starts cut off anywhere.
\<close>

locale restartable =
  fixes ex :: "'a \<Rightarrow> 'd \<Rightarrow> 'd" and p :: "'x \<Rightarrow> ('a, 'd) prog"
    and ok :: "'x \<Rightarrow> bool" and I :: "'d \<Rightarrow> bool" and Z :: "'d \<Rightarrow> bool"
  assumes runs: "I d \<Longrightarrow> ok x \<Longrightarrow> sustains ex I Z Z (p x) d"
begin

lemma starts_keep: "I d \<Longrightarrow> list_all (\<lambda>(x, n). ok x) bs \<Longrightarrow> I (fold (\<lambda>(x, n). runTo ex (p x) n) bs d)"
  by (induction bs arbitrary: d) (auto intro: sustains_runTo runs)

lemma start_ends:
  "I d \<Longrightarrow> list_all (\<lambda>(x, n). ok x) bs \<Longrightarrow> ok x \<Longrightarrow>
   I (complete ex (p x) (fold (\<lambda>(x, n). runTo ex (p x) n) bs d)) \<and>
   Z (complete ex (p x) (fold (\<lambda>(x, n). runTo ex (p x) n) bs d))"
  using sustains_ends [OF runs [OF starts_keep]] by (metis (full_types))

end

end
