(* ===== verification/HostPath.thy ===== *)
theory HostPath
  imports Text
begin

text \<open>
  The part of the runtime's \<open>node:path\<close> (POSIX) the server uses on the paths it manages: \<open>isAbsolute\<close>,
  \<open>resolve\<close>, \<open>dirname\<close> and \<open>join\<close>.  The working directory is an argument.
\<close>

definition isAbsolute :: "string \<Rightarrow> bool" where
  "isAbsolute p \<longleftrightarrow> p \<noteq> [] \<and> hd p = CHR ''/''"

fun walkSegments :: "string list \<Rightarrow> string list \<Rightarrow> string list" where
  "walkSegments acc [] = acc"
| "walkSegments acc (w # ws) =
     (if w = [] \<or> w = ''.'' then walkSegments acc ws
      else if w = ''..'' then walkSegments (butlast acc) ws
      else walkSegments (acc @ [w]) ws)"

definition renderPath :: "string list \<Rightarrow> string" where
  "renderPath ws = CHR ''/'' # joinWith CHR ''/'' ws"

definition pathSegments :: "string \<Rightarrow> string \<Rightarrow> string list" where
  "pathSegments cwd p =
     walkSegments [] (splitOn CHR ''/'' (if isAbsolute p then p else cwd @ CHR ''/'' # p))"

definition resolvePath :: "string \<Rightarrow> string \<Rightarrow> string" where
  "resolvePath cwd p = renderPath (pathSegments cwd p)"

definition dirname :: "string \<Rightarrow> string \<Rightarrow> string" where
  "dirname cwd p = renderPath (butlast (pathSegments cwd p))"

text \<open>\<open>join(dir, name)\<close> for a resolved directory and a plain name.\<close>

definition joinPath :: "string \<Rightarrow> string \<Rightarrow> string" where
  "joinPath dir name = (if dir = ''/'' then dir @ name else dir @ CHR ''/'' # name)"

definition plainSegment :: "string \<Rightarrow> bool" where
  "plainSegment w \<longleftrightarrow> w \<noteq> [] \<and> w \<noteq> ''.'' \<and> w \<noteq> ''..'' \<and> CHR ''/'' \<notin> set w"

lemma walk_plain: "\<forall>w \<in> set ws. plainSegment w \<Longrightarrow> walkSegments acc ws = acc @ ws"
  by (induction acc ws rule: walkSegments.induct) (auto simp: plainSegment_def)

lemma walk_keeps:
  "list_all plainSegment acc \<Longrightarrow> list_all (\<lambda>w. CHR ''/'' \<notin> set w) ws \<Longrightarrow>
   list_all plainSegment (walkSegments acc ws)"
proof (induction acc ws rule: walkSegments.induct)
  case (2 acc w ws)
  have "list_all plainSegment (butlast acc)"
    using 2(4) by (auto simp: list_all_iff dest: in_set_butlastD)
  moreover have "w \<noteq> [] \<Longrightarrow> w \<noteq> ''.'' \<Longrightarrow> w \<noteq> ''..'' \<Longrightarrow> plainSegment w"
    using 2(5) by (simp add: plainSegment_def)
  ultimately show ?case using 2 by auto
qed simp

lemma pathSegments_plain: "\<forall>w \<in> set (pathSegments cwd p). plainSegment w"
  using walk_keeps [of "[]" "splitOn CHR ''/'' (if isAbsolute p then p else cwd @ CHR ''/'' # p)"] splitOn_no_sep
  by (fastforce simp: pathSegments_def list_all_iff)

lemma isAbsolute_render [simp]: "isAbsolute (renderPath ws)"
  by (simp add: isAbsolute_def renderPath_def)

lemma pathSegments_render:
  assumes "\<forall>w \<in> set ws. plainSegment w"
  shows "pathSegments cwd (renderPath ws) = ws"
proof (cases "ws = []")
  case True
  then show ?thesis by (simp add: pathSegments_def renderPath_def isAbsolute_def)
next
  case False
  have "splitOn CHR ''/'' (renderPath ws) = [] # ws"
    using splitOn_joinWith [OF False, of "CHR ''/''"] assms by (simp add: renderPath_def plainSegment_def)
  then show ?thesis using walk_plain [OF assms, of "[]"] by (simp add: pathSegments_def)
qed

lemma resolvePath_idem [simp]: "resolvePath cwd (resolvePath cwd p) = resolvePath cwd p"
  by (simp add: resolvePath_def pathSegments_render [OF pathSegments_plain])

lemma isAbsolute_resolve [simp]: "isAbsolute (resolvePath cwd p)"
  by (simp add: resolvePath_def)

end
