(* ===== verification/RestoreJournal.thy ===== *)
theory RestoreJournal
  imports CrashProg HostPath "HOL-Library.Sublist"
begin

text \<open>
  Restoring an instance backup: \<open>modules/backups/journal.ts\<close> and \<open>modules/backups/transaction.ts\<close>
  (\<open>restoreInstanceBackup\<close>) of the server.

  The store is the directory as far as the restore touches it.  A path holds the identity of a file
  or directory tree; a rename moves it, a hard link shares it, and a rename onto another name of the
  same file does nothing, as in POSIX.  The journal is published by link or rename of a temporary,
  each an act of its own.  An act is durable once it is done (the code flushes files and directories
  at the places where that matters).  Outcomes of code outside the model are parameters: which paths
  are symbolic links, whether another process keeps the database busy, the length of the journal's
  text and what the staged archive holds for each component.  Rewriting the prepared copies (the
  configuration, revoked sessions, network publication) changes their content, not their identity.
\<close>

section \<open>The journal\<close>

record replacement =
  rp_component :: string
  rp_target :: string
  rp_previous :: string
  rp_next :: string
  rp_originalExists :: bool
  rp_replacementExists :: bool

datatype phase = Preparing | Applying | PendingBoot | RollingBack | Finalizing

record destination =
  ds_databasePath :: string
  ds_dataDir :: string
  ds_configPath :: "string option"

record journal =
  jn_version :: nat
  jn_transactionId :: string
  jn_phase :: phase
  jn_destination :: destination
  jn_replacements :: "replacement list"

datatype outcome = Completed | RolledBack

definition DATA_COMPONENTS :: "string list" where
  "DATA_COMPONENTS =
     [''node-signing.json'', ''node-encryption.json'', ''vapid.json'', ''peers.json'', ''identities'',
      ''ssh-relay'', ''plugins'', ''plugins-state'', ''subshells'', ''logs'']"

text \<open>\<open>/^[a-f0-9-]{36}$/\<close> and the stricter form a new transaction must have.\<close>

definition hexChar :: "char \<Rightarrow> bool" where
  "hexChar c \<longleftrightarrow> is_digit 10 c \<or> c \<in> set ''abcdef''"

definition journalId :: "string \<Rightarrow> bool" where
  "journalId s \<longleftrightarrow> length s = 36 \<and> list_all (\<lambda>c. hexChar c \<or> c = CHR ''-'') s"

definition transactionIdOk :: "string \<Rightarrow> bool" where
  "transactionIdOk s \<longleftrightarrow> map length (splitOn CHR ''-'' s) = [8, 4, 4, 4, 12] \<and>
                         list_all (list_all hexChar) (splitOn CHR ''-'' s)"

definition clash :: "string \<Rightarrow> string \<Rightarrow> bool" where
  "clash a b \<longleftrightarrow> a = b \<or> prefix (b @ ''/'') a"

fun overlapping :: "string list \<Rightarrow> bool" where
  "overlapping [] = False"
| "overlapping (a # as) = (list_ex (\<lambda>b. clash a b \<or> clash b a) as \<or> overlapping as)"

definition restoreTargets :: "string \<Rightarrow> destination \<Rightarrow> bool \<Rightarrow> (string \<times> string) list option" where
  "restoreTargets cwd ds legacy =
     (let db = [(''database'', resolvePath cwd (ds_databasePath ds))] in
      if legacy then Some db
      else
        (case ds_configPath ds of
           Some (c # cs) \<Rightarrow>
             Some (db @ [(''config'', resolvePath cwd (c # cs))] @
                   map (\<lambda>comp. (comp, joinPath (resolvePath cwd (ds_dataDir ds)) comp)) DATA_COMPONENTS)
         | _ \<Rightarrow> None))"

definition replacementOf :: "string \<Rightarrow> string \<times> string \<Rightarrow> replacement" where
  "replacementOf tid ct =
     \<lparr>rp_component = fst ct, rp_target = snd ct, rp_previous = snd ct @ ''.restore-old-'' @ tid,
      rp_next = snd ct @ ''.restore-new-'' @ tid, rp_originalExists = False, rp_replacementExists = False\<rparr>"

definition replacementsFor :: "string \<Rightarrow> destination \<Rightarrow> string \<Rightarrow> bool \<Rightarrow> replacement list option" where
  "replacementsFor cwd ds tid legacy =
     (case restoreTargets cwd ds legacy of
        None \<Rightarrow> None
      | Some targets \<Rightarrow>
          if overlapping (map snd targets) then None else Some (map (replacementOf tid) targets))"

section \<open>The store and its acts\<close>

record disk =
  dk_fs :: "string \<Rightarrow> nat option"
  dk_journal :: "journal option"
  dk_writing :: "journal option"
  dk_result :: "(string \<times> outcome) option"

datatype act =
    Rename string string
  | Link string string
  | Remove string
  | Put string nat
  | TempRemove
  | TempWrite journal
  | TempRename
  | TempLink
  | DropJournal
  | ResultWrite string outcome

fun exec :: "act \<Rightarrow> disk \<Rightarrow> disk" where
  "exec (Rename a b) d =
     (case dk_fs d a of
        None \<Rightarrow> d
      | Some i \<Rightarrow> if dk_fs d b = Some i then d else d\<lparr>dk_fs := (dk_fs d)(a := None, b := Some i)\<rparr>)"
| "exec (Link a b) d = (if dk_fs d b = None then d\<lparr>dk_fs := (dk_fs d)(b := dk_fs d a)\<rparr> else d)"
| "exec (Remove a) d = d\<lparr>dk_fs := (dk_fs d)(a := None)\<rparr>"
| "exec (Put a i) d = d\<lparr>dk_fs := (dk_fs d)(a := Some i)\<rparr>"
| "exec TempRemove d = d\<lparr>dk_writing := None\<rparr>"
| "exec (TempWrite j) d = d\<lparr>dk_writing := Some j\<rparr>"
| "exec TempRename d = d\<lparr>dk_journal := dk_writing d, dk_writing := None\<rparr>"
| "exec TempLink d = d\<lparr>dk_journal := dk_writing d\<rparr>"
| "exec DropJournal d = d\<lparr>dk_journal := None\<rparr>"
| "exec (ResultWrite tid oc) d = d\<lparr>dk_result := Some (tid, oc)\<rparr>"

type_synonym rprog = "(act, disk) prog"

record restore_env =
  ev_cwd :: string
  ev_journalPath :: string
  ev_symlink :: "string \<Rightarrow> bool"
  ev_busy :: bool
  ev_size :: "journal \<Rightarrow> nat"

definition unsafePath :: "restore_env \<Rightarrow> string \<Rightarrow> bool" where
  "unsafePath env p \<longleftrightarrow> ev_symlink env (resolvePath (ev_cwd env) p) \<or> ev_symlink env (dirname (ev_cwd env) p)"

definition tempPath :: "restore_env \<Rightarrow> journal \<Rightarrow> string" where
  "tempPath env j = ev_journalPath env @ ''.writing-'' @ jn_transactionId j"

definition writeRestoreJournalSync :: "restore_env \<Rightarrow> journal \<Rightarrow> bool \<Rightarrow> rprog \<Rightarrow> rprog" where
  "writeRestoreJournalSync env j initial k =
     (if unsafePath env (ev_journalPath env) \<or> unsafePath env (tempPath env j) then Halt
      else Do TempRemove (Do (TempWrite j)
        (if initial
         then Look (\<lambda>d. if dk_journal d \<noteq> None then Do TempRemove Halt
                        else Do TempLink (Do TempRemove k))
         else Do TempRename k)))"

definition resultPath :: "restore_env \<Rightarrow> string" where
  "resultPath env = joinPath (dirname (ev_cwd env) (ev_journalPath env)) ''restore-result.json''"

definition writeRestoreResult :: "restore_env \<Rightarrow> journal \<Rightarrow> outcome \<Rightarrow> rprog \<Rightarrow> rprog" where
  "writeRestoreResult env j oc k =
     (if unsafePath env (resultPath env) \<or> unsafePath env (resultPath env @ ''.writing-'' @ jn_transactionId j)
      then Halt else Do (ResultWrite (jn_transactionId j) oc) k)"

definition itemMatches :: "replacement \<Rightarrow> replacement \<Rightarrow> bool" where
  "itemMatches item valid \<longleftrightarrow> rp_component item = rp_component valid \<and> rp_target item = rp_target valid \<and>
     rp_next item = rp_next valid \<and> rp_previous item = rp_previous valid"

definition validJournal :: "restore_env \<Rightarrow> journal \<Rightarrow> bool" where
  "validJournal env j \<longleftrightarrow>
     ev_size env j \<le> 64 * 1024 \<and> jn_version j = 1 \<and> journalId (jn_transactionId j) \<and>
     isAbsolute (ds_databasePath (jn_destination j)) \<and> isAbsolute (ds_dataDir (jn_destination j)) \<and>
     (case ds_configPath (jn_destination j) of None \<Rightarrow> True | Some c \<Rightarrow> isAbsolute c) \<and>
     (case replacementsFor (ev_cwd env) (jn_destination j) (jn_transactionId j)
             (length (jn_replacements j) = 1) of
        None \<Rightarrow> False
      | Some valid \<Rightarrow>
          length (jn_replacements j) = length valid \<and> list_all2 itemMatches (jn_replacements j) valid) \<and>
     list_all (\<lambda>item. \<not> unsafePath env (rp_target item) \<and> \<not> unsafePath env (rp_next item) \<and>
                      \<not> unsafePath env (rp_previous item)) (jn_replacements j)"

text \<open>\<open>readJournal\<close>: \<open>None\<close> is a thrown error.\<close>

definition readJournal :: "restore_env \<Rightarrow> disk \<Rightarrow> journal option option" where
  "readJournal env d =
     (if unsafePath env (ev_journalPath env) then None
      else
        (case dk_journal d of
           None \<Rightarrow> Some None
         | Some j \<Rightarrow> if validJournal env j then Some (Some j) else None))"

section \<open>Rollback, commit and recovery\<close>

definition onDisk :: "disk \<Rightarrow> string \<Rightarrow> bool" where
  "onDisk d p \<longleftrightarrow> dk_fs d p \<noteq> None"

definition sidecars :: "string \<Rightarrow> string list" where
  "sidecars p = map (\<lambda>suffix. p @ suffix) [''-journal'', ''-wal'', ''-shm'']"

fun removeAll :: "string list \<Rightarrow> rprog \<Rightarrow> rprog" where
  "removeAll [] k = k"
| "removeAll (p # ps) k = Do (Remove p) (removeAll ps k)"

definition discardDatabaseSidecars :: "restore_env \<Rightarrow> string \<Rightarrow> rprog \<Rightarrow> rprog" where
  "discardDatabaseSidecars env p k =
     (if list_ex (unsafePath env) (sidecars p) then Halt
      else Look (\<lambda>d. if onDisk d p \<and> ev_busy env then Halt else removeAll (sidecars p) k))"

definition removeFileAndSidecars :: "string \<Rightarrow> rprog \<Rightarrow> rprog" where
  "removeFileAndSidecars p k = removeAll (p # sidecars p) k"

definition putBack :: "restore_env \<Rightarrow> replacement \<Rightarrow> bool \<Rightarrow> rprog \<Rightarrow> rprog" where
  "putBack env item previousExists k =
     (let finish = (if previousExists
                    then Do (Rename (rp_previous item) (rp_target item)) (Do (Remove (rp_previous item)) k)
                    else k);
          clear = (if rp_component item \<noteq> ''config'' \<or> \<not> previousExists
                   then Do (Remove (rp_target item)) finish else finish)
      in if rp_component item = ''database'' then discardDatabaseSidecars env (rp_target item) clear else clear)"

definition rollbackItem :: "restore_env \<Rightarrow> bool \<Rightarrow> replacement \<Rightarrow> rprog \<Rightarrow> rprog" where
  "rollbackItem env wasPreparing item k =
     Look (\<lambda>d.
       let previousExists = onDisk d (rp_previous item);
           installedNew = (\<not> wasPreparing \<and> rp_replacementExists item \<and> \<not> onDisk d (rp_next item));
           cleanup = removeFileAndSidecars (rp_next item) k
       in if previousExists \<or> (\<not> rp_originalExists item \<and> installedNew)
          then putBack env item previousExists cleanup else cleanup)"

fun rollbackItems :: "restore_env \<Rightarrow> bool \<Rightarrow> replacement list \<Rightarrow> rprog \<Rightarrow> rprog" where
  "rollbackItems env wasPreparing [] k = k"
| "rollbackItems env wasPreparing (item # items) k =
     rollbackItem env wasPreparing item (rollbackItems env wasPreparing items k)"

definition closeJournal :: "restore_env \<Rightarrow> journal \<Rightarrow> outcome \<Rightarrow> rprog" where
  "closeJournal env j oc = writeRestoreResult env j oc (Do DropJournal (Do TempRemove Done))"

definition rollbackInstanceRestoreSync :: "restore_env \<Rightarrow> rprog" where
  "rollbackInstanceRestoreSync env =
     Look (\<lambda>d. case readJournal env d of
        None \<Rightarrow> Halt
      | Some None \<Rightarrow> Done
      | Some (Some j) \<Rightarrow>
          if jn_phase j = Finalizing then Halt
          else
            let wasPreparing = (jn_phase j = Preparing); j' = j\<lparr>jn_phase := RollingBack\<rparr>
            in writeRestoreJournalSync env j' False
                 (rollbackItems env wasPreparing (List.rev (jn_replacements j)) (closeJournal env j' RolledBack)))"

fun finalizeItems :: "replacement list \<Rightarrow> rprog \<Rightarrow> rprog" where
  "finalizeItems [] k = k"
| "finalizeItems (item # items) k =
     Do (Remove (rp_previous item)) (removeFileAndSidecars (rp_next item) (finalizeItems items k))"

definition finalizeInstanceRestoreSync :: "restore_env \<Rightarrow> rprog" where
  "finalizeInstanceRestoreSync env =
     Look (\<lambda>d. case readJournal env d of
        None \<Rightarrow> Halt
      | Some None \<Rightarrow> Done
      | Some (Some j) \<Rightarrow>
          if jn_phase j \<noteq> PendingBoot \<and> jn_phase j \<noteq> Finalizing then Halt
          else
            let j' = j\<lparr>jn_phase := Finalizing\<rparr>
            in writeRestoreJournalSync env j' False
                 (finalizeItems (jn_replacements j) (closeJournal env j' Completed)))"

definition recoverInstanceRestoreSync :: "restore_env \<Rightarrow> rprog" where
  "recoverInstanceRestoreSync env =
     Look (\<lambda>d. case readJournal env d of
        None \<Rightarrow> Halt
      | Some None \<Rightarrow> Done
      | Some (Some j) \<Rightarrow>
          if jn_phase j = PendingBoot then Done
          else if jn_phase j = Finalizing then finalizeInstanceRestoreSync env
          else rollbackInstanceRestoreSync env)"

text \<open>\<open>assertInstanceRestoreDestination\<close>: does the serving process use the journal's paths?\<close>

definition assertInstanceRestoreDestination :: "restore_env \<Rightarrow> destination \<Rightarrow> disk \<Rightarrow> bool" where
  "assertInstanceRestoreDestination env actual d =
     (case readJournal env d of
        None \<Rightarrow> False
      | Some None \<Rightarrow> True
      | Some (Some j) \<Rightarrow>
          if resolvePath (ev_cwd env) (ds_databasePath actual) \<noteq> ds_databasePath (jn_destination j) then False
          else if length (jn_replacements j) > 1 \<and>
                  (resolvePath (ev_cwd env) (ds_dataDir actual) \<noteq> ds_dataDir (jn_destination j) \<or>
                   (case ds_configPath actual of
                      Some (c # cs) \<Rightarrow> Some (resolvePath (ev_cwd env) (c # cs)) \<noteq> ds_configPath (jn_destination j)
                    | _ \<Rightarrow> True))
          then False else True)"

section \<open>The restore itself\<close>

record restore_request =
  rq_destination :: destination
  rq_transactionId :: string
  rq_legacy :: bool
  rq_source :: "string \<Rightarrow> nat option"       \<comment> \<open>the prepared copy of each staged component\<close>
  rq_stagedDir :: string
  rq_stagedDatabaseOk :: bool
  rq_configRegular :: bool

text \<open>An exception inside the \<open>try\<close> block runs the rollback and is thrown again.\<close>

definition failRestore :: "restore_env \<Rightarrow> rprog" where
  "failRestore env = rollbackInstanceRestoreSync env"

fun prepareItems :: "restore_env \<Rightarrow> restore_request \<Rightarrow> replacement list \<Rightarrow> rprog \<Rightarrow> rprog" where
  "prepareItems env rq [] k = k"
| "prepareItems env rq (item # items) k =
     (case rq_source rq (rp_component item) of
        Some i \<Rightarrow> Do (Put (rp_next item) i) (prepareItems env rq items k)
      | None \<Rightarrow> if rp_component item = ''config'' then failRestore env else prepareItems env rq items k)"

definition installNew :: "replacement \<Rightarrow> rprog \<Rightarrow> rprog" where
  "installNew item k =
     (if rp_replacementExists item then Do (Rename (rp_next item) (rp_target item)) k else k)"

fun applyItems :: "restore_env \<Rightarrow> restore_request \<Rightarrow> replacement list \<Rightarrow> rprog \<Rightarrow> rprog" where
  "applyItems env rq [] k = k"
| "applyItems env rq (item # items) k =
     (let rest = installNew item (applyItems env rq items k) in
      if rp_originalExists item
      then if rp_component item = ''config''
           then if \<not> rq_configRegular rq then failRestore env
                else Do (Link (rp_target item) (rp_previous item)) rest
           else Do (Rename (rp_target item) (rp_previous item)) rest
      else rest)"

definition requestJournal :: "restore_env \<Rightarrow> restore_request \<Rightarrow> phase \<Rightarrow> replacement list \<Rightarrow> journal" where
  "requestJournal env rq ph items =
     \<lparr>jn_version = 1, jn_transactionId = rq_transactionId rq, jn_phase = ph,
      jn_destination =
        \<lparr>ds_databasePath = resolvePath (ev_cwd env) (ds_databasePath (rq_destination rq)),
         ds_dataDir = resolvePath (ev_cwd env) (ds_dataDir (rq_destination rq)),
         ds_configPath = (case ds_configPath (rq_destination rq) of
                            Some (c # cs) \<Rightarrow> Some (resolvePath (ev_cwd env) (c # cs)) | _ \<Rightarrow> None)\<rparr>,
      jn_replacements = items\<rparr>"

definition overlapsStage :: "restore_env \<Rightarrow> restore_request \<Rightarrow> replacement \<Rightarrow> bool" where
  "overlapsStage env rq item \<longleftrightarrow>
     ev_journalPath env = rp_target item \<or> prefix (rp_target item @ ''/'') (ev_journalPath env) \<or>
     prefix (resolvePath (ev_cwd env) (rq_stagedDir rq) @ ''/'') (rp_target item) \<or>
     prefix (rp_target item @ ''/'') (resolvePath (ev_cwd env) (rq_stagedDir rq))"

text \<open>\<open>assertSafeHostPath\<close>: no link at the path or at any directory above it.\<close>

definition hostPathSafe :: "restore_env \<Rightarrow> string \<Rightarrow> bool" where
  "hostPathSafe env p =
     list_all (\<lambda>ws. \<not> ev_symlink env (renderPath ws)) (tl (prefixes (pathSegments (ev_cwd env) p)))"

definition applyPhase :: "restore_env \<Rightarrow> restore_request \<Rightarrow> replacement list \<Rightarrow> rprog" where
  "applyPhase env rq items =
     (let items' = map (\<lambda>item. item\<lparr>rp_replacementExists := rq_source rq (rp_component item) \<noteq> None\<rparr>) items in
      if rq_source rq ''database'' = None \<or> ev_busy env then failRestore env
      else writeRestoreJournalSync env (requestJournal env rq Applying items') False
             (applyItems env rq items'
               (writeRestoreJournalSync env (requestJournal env rq PendingBoot items') False Done)))"

definition restoreInstanceBackup :: "restore_env \<Rightarrow> restore_request \<Rightarrow> rprog" where
  "restoreInstanceBackup env rq =
     Look (\<lambda>d.
       if \<not> transactionIdOk (rq_transactionId rq) then Halt
       else if map_option fst (dk_result d) = Some (rq_transactionId rq) then Halt
       else
         (case replacementsFor (ev_cwd env) (jn_destination (requestJournal env rq Preparing []))
                 (rq_transactionId rq) (rq_legacy rq) of
            None \<Rightarrow> Halt
          | Some base \<Rightarrow>
              if list_ex (overlapsStage env rq) base \<or>
                 list_ex (\<lambda>item. \<not> hostPathSafe env (rp_target item)) base \<or>
                 \<not> hostPathSafe env (ev_journalPath env) \<or> \<not> rq_stagedDatabaseOk rq
              then Halt
              else
                let items = map (\<lambda>item. item\<lparr>rp_originalExists := onDisk d (rp_target item)\<rparr>) base
                in writeRestoreJournalSync env (requestJournal env rq Preparing items) True
                     (prepareItems env rq items (applyPhase env rq items))))"

section \<open>Names and the state of one component\<close>

definition itemNames :: "replacement \<Rightarrow> string list" where
  "itemNames it = [rp_target it, rp_previous it, rp_next it] @ sidecars (rp_next it) @
                  (if rp_component it = ''database'' then sidecars (rp_target it) else [])"

definition namesApart :: "replacement list \<Rightarrow> bool" where
  "namesApart items \<longleftrightarrow> distinct (concat (map itemNames items))"

text \<open>
  The states a component can be in while its original can still be put back: the original stands
  (and there is no previous name for it), or the previous name holds it, or there was none and a
  replacement was installed.  A configuration file that existed is never missing.
\<close>

definition itemOk :: "(string \<Rightarrow> nat option) \<Rightarrow> phase \<Rightarrow> (string \<Rightarrow> nat option) \<Rightarrow> replacement \<Rightarrow> bool" where
  "itemOk orig ph f it \<longleftrightarrow>
     rp_originalExists it = (orig (rp_target it) \<noteq> None) \<and>
     (rp_component it = ''config'' \<and> rp_originalExists it \<longrightarrow> f (rp_target it) \<noteq> None) \<and>
     (f (rp_previous it) = None \<and> f (rp_target it) = orig (rp_target it) \<or>
      orig (rp_target it) \<noteq> None \<and> f (rp_previous it) = orig (rp_target it) \<or>
      orig (rp_target it) = None \<and> f (rp_previous it) = None \<and> rp_replacementExists it \<and>
        f (rp_next it) = None \<and> ph \<noteq> Preparing)"

definition itemDone :: "(string \<Rightarrow> nat option) \<Rightarrow> (string \<Rightarrow> nat option) \<Rightarrow> replacement \<Rightarrow> bool" where
  "itemDone orig f it \<longleftrightarrow>
     rp_originalExists it = (orig (rp_target it) \<noteq> None) \<and>
     f (rp_target it) = orig (rp_target it) \<and> f (rp_previous it) = None \<and>
     list_all (\<lambda>p. f p = None) (rp_next it # sidecars (rp_next it))"

lemma itemDone_Ok: "itemDone orig f it \<Longrightarrow> itemOk orig ph f it"
  by (auto simp: itemDone_def itemOk_def)

lemma itemOk_phase: "itemOk orig ph f it \<Longrightarrow> ph' \<noteq> Preparing \<Longrightarrow> itemOk orig ph' f it"
  by (auto simp: itemOk_def)

definition agreeOff :: "string set \<Rightarrow> (string \<Rightarrow> nat option) \<Rightarrow> (string \<Rightarrow> nat option) \<Rightarrow> bool" where
  "agreeOff N f g \<longleftrightarrow> (\<forall>x. x \<notin> N \<longrightarrow> f x = g x)"

lemma agreeOff_refl [simp, intro]: "agreeOff N f f"
  by (simp add: agreeOff_def)

lemma agreeOff_upd: "agreeOff N f g \<Longrightarrow> p \<in> N \<Longrightarrow> agreeOff N f (g(p := v))"
  by (simp add: agreeOff_def)

lemma namesApart_other:
  assumes "namesApart items" "a \<in> set items" "b \<in> set items" "a \<noteq> b" "x \<in> set (itemNames a)"
  shows "x \<notin> set (itemNames b)"
  using assms
proof (induction items)
  case (Cons c items)
  then have "distinct (concat (map itemNames items))"
    and "set (itemNames c) \<inter> (\<Union>it \<in> set items. set (itemNames it)) = {}"
    by (auto simp: namesApart_def)
  with Cons show ?case by (auto simp: namesApart_def)
qed simp

lemma itemDone_agree:
  "agreeOff (set (itemNames other)) f g \<Longrightarrow> (\<And>x. x \<in> set (itemNames it) \<Longrightarrow> x \<notin> set (itemNames other)) \<Longrightarrow>
   itemDone orig f it \<Longrightarrow> itemDone orig g it"
  by (auto simp: agreeOff_def itemDone_def itemNames_def list_all_iff)

lemma itemOk_agree:
  "agreeOff (set (itemNames other)) f g \<Longrightarrow> (\<And>x. x \<in> set (itemNames it) \<Longrightarrow> x \<notin> set (itemNames other)) \<Longrightarrow>
   itemOk orig ph f it \<Longrightarrow> itemOk orig ph g it"
  by (auto simp: agreeOff_def itemOk_def itemNames_def)

lemma namesApart_self:
  assumes "namesApart items" "it \<in> set items"
  shows "distinct (itemNames it)"
  using assms by (induction items) (auto simp: namesApart_def)

lemma item_names_distinct:
  assumes "namesApart items" "it \<in> set items"
  shows "rp_target it \<noteq> rp_previous it" "rp_target it \<noteq> rp_next it" "rp_previous it \<noteq> rp_next it"
    "p \<in> set (sidecars (rp_next it)) \<Longrightarrow> p \<noteq> rp_target it \<and> p \<noteq> rp_previous it \<and> p \<noteq> rp_next it"
    "rp_component it = ''database'' \<Longrightarrow> p \<in> set (sidecars (rp_target it)) \<Longrightarrow>
       p \<noteq> rp_target it \<and> p \<noteq> rp_previous it \<and> p \<noteq> rp_next it"
  using namesApart_self [OF assms] by (auto simp: itemNames_def split: if_splits)

lemma namesApart_distinct: "namesApart items \<Longrightarrow> distinct items"
proof (induction items)
  case (Cons c items)
  have "rp_target c \<in> set (itemNames c)" by (simp add: itemNames_def)
  with Cons show ?case by (auto simp: namesApart_def)
qed simp

section \<open>Runs of removals\<close>

lemma outlasts_removeAll:
  assumes "\<And>d p. P d \<Longrightarrow> p \<in> set ps \<Longrightarrow> P (exec (Remove p) d)" "\<And>d. P d \<Longrightarrow> I d"
    and "\<And>d'. P d' \<Longrightarrow> (\<forall>p \<in> set ps. dk_fs d' p = None) \<Longrightarrow> outlasts exec I Q E k d'" and "P d"
  shows "outlasts exec I Q E (removeAll ps k) d"
proof -
  have "outlasts exec I Q E (removeAll rs k) d"
    if "set rs \<subseteq> set ps" "P d" "\<forall>p \<in> set ps - set rs. dk_fs d p = None" for rs d
    using that
  proof (induction rs arbitrary: d)
    case (Cons r rs)
    have "outlasts exec I Q E (removeAll rs k) (exec (Remove r) d)"
    proof (rule Cons.IH)
      show "P (exec (Remove r) d)" by (rule assms(1)) (use Cons.prems in auto)
    qed (use Cons.prems in auto)
    with Cons.prems(2) assms(2) show ?case by simp
  qed (use assms(3) in auto)
  from this [of ps d] assms(4) show ?thesis by simp
qed

section \<open>Rolling one component back\<close>

text \<open>What the rollback knows while it works on component \<open>it\<close>: nothing but that component's names
  has changed since \<open>d0\<close>.\<close>

definition onlyItem :: "replacement \<Rightarrow> disk \<Rightarrow> disk \<Rightarrow> bool" where
  "onlyItem it d0 d \<longleftrightarrow> dk_journal d = dk_journal d0 \<and> dk_result d = dk_result d0 \<and>
     agreeOff (set (itemNames it)) (dk_fs d0) (dk_fs d)"

lemma onlyItem_refl [simp, intro]: "onlyItem it d d"
  by (simp add: onlyItem_def)

lemma onlyItem_Remove: "onlyItem it d0 d \<Longrightarrow> p \<in> set (itemNames it) \<Longrightarrow> onlyItem it d0 (exec (Remove p) d)"
  by (simp add: onlyItem_def agreeOff_upd)

lemma onlyItem_Rename:
  "onlyItem it d0 d \<Longrightarrow> p \<in> set (itemNames it) \<Longrightarrow> q \<in> set (itemNames it) \<Longrightarrow> onlyItem it d0 (exec (Rename p q) d)"
  by (auto simp: onlyItem_def agreeOff_upd split: option.split)

lemma own_names [simp]:
  "rp_target it \<in> set (itemNames it)" "rp_previous it \<in> set (itemNames it)" "rp_next it \<in> set (itemNames it)"
  "p \<in> set (sidecars (rp_next it)) \<Longrightarrow> p \<in> set (itemNames it)"
  "rp_component it = ''database'' \<Longrightarrow> p \<in> set (sidecars (rp_target it)) \<Longrightarrow> p \<in> set (itemNames it)"
  by (simp_all add: itemNames_def)

lemma cleanup_outlasts:
  assumes apart: "namesApart items" "it \<in> set items"
    and I: "\<And>d. onlyItem it d0 d \<Longrightarrow> itemOk orig ph (dk_fs d) it \<Longrightarrow> I d"
    and k: "\<And>d. onlyItem it d0 d \<Longrightarrow> itemDone orig (dk_fs d) it \<Longrightarrow> outlasts exec I Q E k d"
    and d: "onlyItem it d0 d" "rp_originalExists it = (orig (rp_target it) \<noteq> None)"
      "dk_fs d (rp_previous it) = None" "dk_fs d (rp_target it) = orig (rp_target it)"
  shows "outlasts exec I Q E (removeFileAndSidecars (rp_next it) k) d"
  unfolding removeFileAndSidecars_def
proof (rule outlasts_removeAll [where P = "\<lambda>d. onlyItem it d0 d \<and> dk_fs d (rp_previous it) = None \<and>
                                             dk_fs d (rp_target it) = orig (rp_target it)"])
  fix d p
  assume P: "onlyItem it d0 d \<and> dk_fs d (rp_previous it) = None \<and> dk_fs d (rp_target it) = orig (rp_target it)"
    and p: "p \<in> set (rp_next it # sidecars (rp_next it))"
  have "p \<noteq> rp_target it" "p \<noteq> rp_previous it" "p \<in> set (itemNames it)"
    using p item_names_distinct [OF apart] by auto
  then show "onlyItem it d0 (exec (Remove p) d) \<and> dk_fs (exec (Remove p) d) (rp_previous it) = None \<and>
             dk_fs (exec (Remove p) d) (rp_target it) = orig (rp_target it)"
    using P onlyItem_Remove by simp
next
  fix d
  assume P: "onlyItem it d0 d \<and> dk_fs d (rp_previous it) = None \<and> dk_fs d (rp_target it) = orig (rp_target it)"
  then show "I d" using d(2) by (intro I) (auto simp: itemOk_def)
  assume "\<forall>p\<in>set (rp_next it # sidecars (rp_next it)). dk_fs d p = None"
  with P show "outlasts exec I Q E k d" using d(2) by (intro k) (auto simp: itemDone_def list_all_iff)
qed (use d in auto)

lemma discard_outlasts:
  assumes "namesApart items" "it \<in> set items" "rp_component it = ''database''"
    and "\<not> list_ex (unsafePath env) (sidecars (rp_target it))"
    and P: "\<And>d d'. P d \<Longrightarrow> onlyItem it d d' \<Longrightarrow> dk_fs d' (rp_target it) = dk_fs d (rp_target it) \<Longrightarrow>
              dk_fs d' (rp_previous it) = dk_fs d (rp_previous it) \<Longrightarrow>
              dk_fs d' (rp_next it) = dk_fs d (rp_next it) \<Longrightarrow> P d'"
    and "\<And>d. P d \<Longrightarrow> I d" "\<And>d. P d \<Longrightarrow> outlasts exec I Q (ev_busy env) k d" "P d"
  shows "outlasts exec I Q (ev_busy env) (discardDatabaseSidecars env (rp_target it) k) d"
proof -
  have "outlasts exec I Q (ev_busy env) (removeAll (sidecars (rp_target it)) k) d"
  proof (rule outlasts_removeAll [where P = P])
    fix d p assume d: "P d" and p: "p \<in> set (sidecars (rp_target it))"
    have "p \<noteq> rp_target it \<and> p \<noteq> rp_previous it \<and> p \<noteq> rp_next it"
      using item_names_distinct(5) [OF assms(1-3) p] .
    then show "P (exec (Remove p) d)"
      using P [OF d, of "exec (Remove p) d"] onlyItem_Remove [OF onlyItem_refl, of p it d] own_names(5) [OF assms(3) p]
      by auto
  qed (use assms in auto)
  with assms(4,6,8) show ?thesis by (simp add: discardDatabaseSidecars_def)
qed

lemma putBack_old_outlasts:
  assumes apart: "namesApart items" "it \<in> set items"
    and safe: "\<not> list_ex (unsafePath env) (sidecars (rp_target it))"
    and I: "\<And>d. onlyItem it d0 d \<Longrightarrow> itemOk orig ph (dk_fs d) it \<Longrightarrow> I d"
    and k: "\<And>d. onlyItem it d0 d \<Longrightarrow> dk_fs d (rp_previous it) = None \<Longrightarrow>
              dk_fs d (rp_target it) = orig (rp_target it) \<Longrightarrow> outlasts exec I Q (ev_busy env) k d"
    and d: "onlyItem it d0 d" "rp_originalExists it" "orig (rp_target it) = Some i"
      "dk_fs d (rp_previous it) = Some i" "rp_component it = ''config'' \<longrightarrow> dk_fs d (rp_target it) \<noteq> None"
  shows "outlasts exec I Q (ev_busy env) (putBack env it True k) d"
proof -
  define P where "P d \<longleftrightarrow> onlyItem it d0 d \<and> dk_fs d (rp_previous it) = Some i \<and>
    (rp_component it = ''config'' \<longrightarrow> dk_fs d (rp_target it) \<noteq> None)" for d
  note ne = item_names_distinct [OF apart]
  have IP: "I d" if "P d" for d
    using that d(2,3) by (intro I) (auto simp: P_def itemOk_def)
  have finish: "outlasts exec I Q (ev_busy env)
      (Do (Rename (rp_previous it) (rp_target it)) (Do (Remove (rp_previous it)) k)) d" if "P d" for d
  proof -
    let ?r = "exec (Rename (rp_previous it) (rp_target it)) d"
    have r: "onlyItem it d0 ?r" by (rule onlyItem_Rename) (use that in \<open>auto simp: P_def\<close>)
    have t: "dk_fs ?r (rp_target it) = Some i" using that ne(1) by (auto simp: P_def)
    have "I ?r" using r t d(2,3) that ne(1) by (intro I) (auto simp: P_def itemOk_def)
    moreover have "outlasts exec I Q (ev_busy env) k (exec (Remove (rp_previous it)) ?r)"
      using onlyItem_Remove [OF r, of "rp_previous it"] t d(3) ne(1) by (intro k) auto
    ultimately show ?thesis using IP [OF that] by simp
  qed
  have clear: "outlasts exec I Q (ev_busy env)
      (if rp_component it \<noteq> ''config'' \<or> \<not> True
       then Do (Remove (rp_target it)) (Do (Rename (rp_previous it) (rp_target it)) (Do (Remove (rp_previous it)) k))
       else Do (Rename (rp_previous it) (rp_target it)) (Do (Remove (rp_previous it)) k)) d" if "P d" for d
  proof -
    have "rp_component it \<noteq> ''config'' \<Longrightarrow> P (exec (Remove (rp_target it)) d)"
      using that onlyItem_Remove ne(1) by (auto simp: P_def)
    then show ?thesis using finish that IP by (simp del: exec.simps)
  qed
  show ?thesis
  proof (cases "rp_component it = ''database''")
    case True
    have "outlasts exec I Q (ev_busy env) (discardDatabaseSidecars env (rp_target it)
      (Do (Remove (rp_target it)) (Do (Rename (rp_previous it) (rp_target it)) (Do (Remove (rp_previous it)) k)))) d"
      by (rule discard_outlasts [OF apart True safe, where P = P])
        (use IP clear True d in \<open>auto simp: P_def onlyItem_def agreeOff_def\<close>)
    with True show ?thesis by (simp add: putBack_def Let_def)
  qed (use clear [of d] d in \<open>auto simp: putBack_def Let_def P_def\<close>)
qed

lemma putBack_new_outlasts:
  assumes apart: "namesApart items" "it \<in> set items"
    and safe: "\<not> list_ex (unsafePath env) (sidecars (rp_target it))"
    and I: "\<And>d. onlyItem it d0 d \<Longrightarrow> itemOk orig ph (dk_fs d) it \<Longrightarrow> I d"
    and k: "\<And>d. onlyItem it d0 d \<Longrightarrow> dk_fs d (rp_previous it) = None \<Longrightarrow>
              dk_fs d (rp_target it) = orig (rp_target it) \<Longrightarrow> outlasts exec I Q (ev_busy env) k d"
    and d: "onlyItem it d0 d" "itemOk orig ph (dk_fs d) it" "orig (rp_target it) = None"
      "dk_fs d (rp_previous it) = None"
  shows "outlasts exec I Q (ev_busy env) (putBack env it False k) d"
proof -
  define P where "P d \<longleftrightarrow> onlyItem it d0 d \<and> itemOk orig ph (dk_fs d) it \<and> dk_fs d (rp_previous it) = None" for d
  have IP: "I d" if "P d" for d
    using that by (intro I) (auto simp: P_def)
  have clear: "outlasts exec I Q (ev_busy env) (Do (Remove (rp_target it)) k) d" if "P d" for d
  proof -
    have "onlyItem it d0 (exec (Remove (rp_target it)) d)"
      by (rule onlyItem_Remove) (use that in \<open>auto simp: P_def\<close>)
    then have "outlasts exec I Q (ev_busy env) k (exec (Remove (rp_target it)) d)"
      using that d(3) by (intro k) (auto simp: P_def)
    with IP [OF that] show ?thesis by simp
  qed
  show ?thesis
  proof (cases "rp_component it = ''database''")
    case True
    have "outlasts exec I Q (ev_busy env)
      (discardDatabaseSidecars env (rp_target it) (Do (Remove (rp_target it)) k)) d"
      by (rule discard_outlasts [OF apart True safe, where P = P])
        (use IP clear d in \<open>auto simp: P_def onlyItem_def agreeOff_def itemOk_def\<close>)
    with True show ?thesis by (simp add: putBack_def Let_def)
  qed (use clear [of d] d in \<open>auto simp: putBack_def Let_def P_def\<close>)
qed

lemma rollbackItem_outlasts:
  assumes apart: "namesApart items" "it \<in> set items"
    and safe: "\<not> list_ex (unsafePath env) (sidecars (rp_target it))"
    and ph: "wasPreparing \<longleftrightarrow> ph = Preparing"
    and I: "\<And>d. onlyItem it d0 d \<Longrightarrow> itemOk orig ph (dk_fs d) it \<Longrightarrow> I d"
    and k: "\<And>d. onlyItem it d0 d \<Longrightarrow> itemDone orig (dk_fs d) it \<Longrightarrow> outlasts exec I Q (ev_busy env) k d"
    and d: "itemOk orig ph (dk_fs d0) it"
  shows "outlasts exec I Q (ev_busy env) (rollbackItem env wasPreparing it k) d0"
proof -
  have ex: "rp_originalExists it = (orig (rp_target it) \<noteq> None)" using d by (simp add: itemOk_def)
  have clean: "outlasts exec I Q (ev_busy env) (removeFileAndSidecars (rp_next it) k) d"
    if "onlyItem it d0 d" "dk_fs d (rp_previous it) = None" "dk_fs d (rp_target it) = orig (rp_target it)" for d
    by (rule cleanup_outlasts [OF apart, where ?d0.0 = d0 and orig = orig and ph = ph])
      (fact I, fact k, fact that(1), fact ex, fact that(2), fact that(3))
  consider (old) i where "dk_fs d0 (rp_previous it) = Some i" "orig (rp_target it) = Some i"
    | (fresh) "dk_fs d0 (rp_previous it) = None" "\<not> rp_originalExists it"
        "\<not> wasPreparing \<and> rp_replacementExists it \<and> \<not> onDisk d0 (rp_next it)"
    | (kept) "dk_fs d0 (rp_previous it) = None"
        "\<not> (\<not> rp_originalExists it \<and> \<not> wasPreparing \<and> rp_replacementExists it \<and> \<not> onDisk d0 (rp_next it))"
    using d by (cases "dk_fs d0 (rp_previous it)") (auto simp: itemOk_def)
  then show ?thesis
  proof cases
    case old
    then have o: "rp_originalExists it" using ex by simp
    have "outlasts exec I Q (ev_busy env) (putBack env it True (removeFileAndSidecars (rp_next it) k)) d0"
      by (rule putBack_old_outlasts [OF apart safe, where ?d0.0 = d0 and orig = orig and ph = ph])
        (fact I, fact clean, fact onlyItem_refl, fact o, fact old(2), fact old(1),
         use d o in \<open>simp add: itemOk_def\<close>)
    with old show ?thesis by (simp add: rollbackItem_def Let_def onDisk_def)
  next
    case fresh
    then have o: "orig (rp_target it) = None" using ex by simp
    have "outlasts exec I Q (ev_busy env) (putBack env it False (removeFileAndSidecars (rp_next it) k)) d0"
      by (rule putBack_new_outlasts [OF apart safe, where ?d0.0 = d0 and orig = orig and ph = ph])
        (fact I, fact clean, fact onlyItem_refl, fact d, fact o, fact fresh(1))
    with fresh show ?thesis by (simp add: rollbackItem_def Let_def onDisk_def)
  next
    case kept
    have "dk_fs d0 (rp_target it) = orig (rp_target it)"
      using kept d ph ex by (auto simp: itemOk_def onDisk_def)
    then have "outlasts exec I Q (ev_busy env) (removeFileAndSidecars (rp_next it) k) d0"
      using kept(1) by (intro clean) auto
    with kept show ?thesis by (auto simp: rollbackItem_def Let_def onDisk_def)
  qed
qed

section \<open>Rolling everything back\<close>

definition journalReady :: "restore_env \<Rightarrow> journal \<Rightarrow> bool" where
  "journalReady env j \<longleftrightarrow>
     (\<forall>ph. validJournal env (j\<lparr>jn_phase := ph\<rparr>)) \<and>
     list_all (\<lambda>p. \<not> unsafePath env p)
       [ev_journalPath env, tempPath env j, resultPath env, resultPath env @ ''.writing-'' @ jn_transactionId j] \<and>
     list_all (\<lambda>it. \<not> list_ex (unsafePath env) (sidecars (rp_target it))) (jn_replacements j) \<and>
     namesApart (jn_replacements j)"

text \<open>The journal is on disk in phase \<open>ph\<close> and every original can be put back.\<close>

definition revertible :: "journal \<Rightarrow> (string \<Rightarrow> nat option) \<Rightarrow> phase \<Rightarrow> disk \<Rightarrow> bool" where
  "revertible j orig ph d \<longleftrightarrow>
     dk_journal d = Some (j\<lparr>jn_phase := ph\<rparr>) \<and> list_all (itemOk orig ph (dk_fs d)) (jn_replacements j)"

text \<open>The journal is gone and every original is in place, with no leftovers.\<close>

definition reverted :: "journal \<Rightarrow> (string \<Rightarrow> nat option) \<Rightarrow> disk \<Rightarrow> bool" where
  "reverted j orig d \<longleftrightarrow>
     dk_journal d = None \<and> dk_result d = Some (jn_transactionId j, RolledBack) \<and>
     list_all (itemDone orig (dk_fs d)) (jn_replacements j)"

definition reverting :: "phase set \<Rightarrow> restore_env \<Rightarrow> journal \<Rightarrow> (string \<Rightarrow> nat option) \<Rightarrow> disk \<Rightarrow> bool" where
  "reverting S env j orig d \<longleftrightarrow>
     RollingBack \<in> S \<and> Finalizing \<notin> S \<and> journalReady env j \<and>
     ((\<exists>ph \<in> S. revertible j orig ph d) \<or> reverted j orig d)"

lemma readJournal_ready:
  assumes "journalReady env j"
  shows "dk_journal d = Some (j\<lparr>jn_phase := ph\<rparr>) \<Longrightarrow> readJournal env d = Some (Some (j\<lparr>jn_phase := ph\<rparr>))"
    and "dk_journal d = None \<Longrightarrow> readJournal env d = Some None"
  using assms by (simp_all add: readJournal_def journalReady_def)

lemma rollbackItems_outlasts:
  assumes ready: "journalReady env j" and S: "RollingBack \<in> S" "Finalizing \<notin> S"
    and ph: "wasPreparing \<longleftrightarrow> ph = Preparing"
    and "set (fin @ its) = set (jn_replacements j)" "distinct its" "set its \<inter> set fin = {}"
    and "dk_journal d = Some (j\<lparr>jn_phase := RollingBack\<rparr>)"
    and "list_all (itemDone orig (dk_fs d)) fin" "list_all (itemOk orig ph (dk_fs d)) its"
    and k: "\<And>d. dk_journal d = Some (j\<lparr>jn_phase := RollingBack\<rparr>) \<Longrightarrow>
                list_all (itemDone orig (dk_fs d)) (jn_replacements j) \<Longrightarrow>
                outlasts exec (reverting S env j orig) Q (ev_busy env) k d"
  shows "outlasts exec (reverting S env j orig) Q (ev_busy env) (rollbackItems env wasPreparing its k) d"
  using assms(5-10)
proof (induction its arbitrary: fin d)
  case Nil
  then have "list_all (itemDone orig (dk_fs d)) (jn_replacements j)" by (metis append_Nil2 list_all_iff)
  with Nil show ?case by (auto intro: k)
next
  case (Cons it its)
  have apart: "namesApart (jn_replacements j)" "it \<in> set (jn_replacements j)"
    using ready Cons.prems(1) by (auto simp: journalReady_def)
  have safe: "\<not> list_ex (unsafePath env) (sidecars (rp_target it))"
    using ready apart(2) by (auto simp: journalReady_def list_all_iff)
  have off: "x \<notin> set (itemNames it)" if "other \<in> set (fin @ its)" "x \<in> set (itemNames other)" for other x
    by (rule namesApart_other [OF apart(1) _ apart(2) _ that(2)])
      (use that(1) Cons.prems(1-3) in auto)
  have frame: "list_all (itemDone orig (dk_fs d')) fin \<and> list_all (itemOk orig ph (dk_fs d')) its \<and>
      dk_journal d' = Some (j\<lparr>jn_phase := RollingBack\<rparr>)" if "onlyItem it d d'" for d'
  proof -
    have ag: "agreeOff (set (itemNames it)) (dk_fs d) (dk_fs d')" and j: "dk_journal d' = dk_journal d"
      using that by (simp_all add: onlyItem_def)
    have "itemDone orig (dk_fs d') x" if "x \<in> set fin" for x
      by (rule itemDone_agree [OF ag off [of x]]) (use that Cons.prems(5) in \<open>auto simp: list_all_iff\<close>)
    moreover have "itemOk orig ph (dk_fs d') x" if "x \<in> set its" for x
      by (rule itemOk_agree [OF ag off [of x]]) (use that Cons.prems(6) in \<open>auto simp: list_all_iff\<close>)
    ultimately show ?thesis using j Cons.prems(4) by (simp add: list_all_iff)
  qed
  show ?case
    unfolding rollbackItems.simps
  proof (rule rollbackItem_outlasts [OF apart safe ph])
    fix d' assume d': "onlyItem it d d'" "itemOk orig ph (dk_fs d') it"
    note fr = frame [OF d'(1)]
    have "itemOk orig RollingBack (dk_fs d') other" if "other \<in> set (jn_replacements j)" for other
    proof -
      have "other \<in> set (fin @ it # its)" unfolding Cons.prems(1) by (rule that)
      then have "other = it \<or> other \<in> set fin \<or> other \<in> set its" by auto
      moreover have "other \<in> set fin \<Longrightarrow> itemDone orig (dk_fs d') other"
        and "other \<in> set its \<Longrightarrow> itemOk orig ph (dk_fs d') other"
        using fr by (simp_all add: list_all_iff)
      ultimately have "itemOk orig ph (dk_fs d') other"
        using d'(2) itemDone_Ok by blast
      then show ?thesis by (rule itemOk_phase) simp
    qed
    with fr have "revertible j orig RollingBack d'" by (simp add: revertible_def list_all_iff)
    with ready S show "reverting S env j orig d'" by (auto simp: reverting_def)
  next
    fix d' assume d': "onlyItem it d d'" "itemDone orig (dk_fs d') it"
    show "outlasts exec (reverting S env j orig) Q (ev_busy env) (rollbackItems env wasPreparing its k) d'"
      by (rule Cons.IH [of "it # fin"])
        (use frame [OF d'(1)] d'(2) Cons.prems(1-3) in auto)
  qed (use Cons.prems(6) in simp)
qed

lemma revertible_other_fields [simp]:
  "revertible j orig ph (d\<lparr>dk_writing := w\<rparr>) = revertible j orig ph d"
  "reverted j orig (d\<lparr>dk_writing := w\<rparr>) = reverted j orig d"
  "reverting S env j orig (d\<lparr>dk_writing := w\<rparr>) = reverting S env j orig d"
  "revertible j orig ph (d\<lparr>dk_result := r\<rparr>) = revertible j orig ph d"
  by (simp_all add: revertible_def reverted_def reverting_def)

lemma ready_paths:
  assumes "journalReady env j"
  shows "\<not> unsafePath env (ev_journalPath env)" "\<not> unsafePath env (tempPath env (j\<lparr>jn_phase := ph\<rparr>))"
    "\<not> unsafePath env (resultPath env)" "\<not> unsafePath env (resultPath env @ ''.writing-'' @ jn_transactionId j)"
    "distinct (jn_replacements j)"
  using assms namesApart_distinct by (simp_all add: journalReady_def tempPath_def)

lemma closeJournal_reverts:
  assumes "journalReady env j" and S: "RollingBack \<in> S" "Finalizing \<notin> S" and "dk_journal d = Some (j\<lparr>jn_phase := RollingBack\<rparr>)"
    and "list_all (itemDone orig (dk_fs d)) (jn_replacements j)"
  shows "outlasts exec (reverting S env j orig) (reverted j orig) (ev_busy env)
           (closeJournal env (j\<lparr>jn_phase := RollingBack\<rparr>) RolledBack) d"
proof -
  have "revertible j orig RollingBack d"
    using assms(4,5) itemDone_Ok by (auto simp: revertible_def list_all_iff)
  then have "reverting S env j orig d" using assms(1) S by (auto simp: reverting_def)
  moreover have "reverting S env j orig (d\<lparr>dk_result := r\<rparr>)" for r
    using \<open>revertible j orig RollingBack d\<close> assms(1) S by (auto simp: reverting_def)
  moreover have "reverted j orig (d\<lparr>dk_result := Some (jn_transactionId j, RolledBack), dk_journal := None\<rparr>)"
    using assms(5) by (simp add: reverted_def)
  ultimately show ?thesis
    using ready_paths [OF assms(1)] assms(1) S
    by (simp add: closeJournal_def writeRestoreResult_def reverting_def)
qed

lemma rollback_resumes:
  assumes "reverting S env j orig d"
  shows "outlasts exec (reverting S env j orig) (reverted j orig) (ev_busy env) (rollbackInstanceRestoreSync env) d"
proof (cases "reverted j orig d")
  case True
  then have "readJournal env d = Some None"
    using assms by (intro readJournal_ready) (auto simp: reverting_def reverted_def)
  with True assms show ?thesis by (simp add: rollbackInstanceRestoreSync_def)
next
  case False
  then obtain ph where ready: "journalReady env j" and S: "RollingBack \<in> S" "Finalizing \<notin> S"
    and ph: "ph \<noteq> Finalizing" and rev: "revertible j orig ph d"
    using assms unfolding reverting_def by metis
  have rd: "readJournal env d = Some (Some (j\<lparr>jn_phase := ph\<rparr>))"
    using rev by (intro readJournal_ready ready) (simp add: revertible_def)
  let ?j = "j\<lparr>jn_phase := RollingBack\<rparr>"
  let ?d = "d\<lparr>dk_journal := Some ?j, dk_writing := None\<rparr>"
  have "outlasts exec (reverting S env j orig) (reverted j orig) (ev_busy env)
          (rollbackItems env (ph = Preparing) (List.rev (jn_replacements j)) (closeJournal env ?j RolledBack)) ?d"
    by (rule rollbackItems_outlasts [OF ready S, where fin = "[]" and ph = ph])
      (use rev ready_paths(5) [OF ready] closeJournal_reverts [OF ready S]
        in \<open>auto simp: revertible_def list_all_iff\<close>)
  with rd ph assms ready_paths(1,2) [OF ready] show ?thesis
    by (simp add: rollbackInstanceRestoreSync_def writeRestoreJournalSync_def Let_def)
qed

interpretation rollback: recoverable exec "rollbackInstanceRestoreSync env" "reverting S env j orig" "reverted j orig" "ev_busy env"
  for S env j orig
  by unfold_locales (rule rollback_resumes)

lemma recover_resumes:
  assumes "reverting S env j orig d" "PendingBoot \<notin> S"
  shows "outlasts exec (reverting S env j orig) (reverted j orig) (ev_busy env) (recoverInstanceRestoreSync env) d"
proof (cases "reverted j orig d")
  case True
  then have "readJournal env d = Some None"
    using assms(1) by (intro readJournal_ready) (auto simp: reverting_def reverted_def)
  with True assms show ?thesis by (simp add: recoverInstanceRestoreSync_def)
next
  case False
  then obtain ph where ready: "journalReady env j" and ph: "ph \<noteq> Finalizing" "ph \<noteq> PendingBoot"
    and rev: "revertible j orig ph d"
    using assms unfolding reverting_def by metis
  have "readJournal env d = Some (Some (j\<lparr>jn_phase := ph\<rparr>))"
    using rev by (intro readJournal_ready ready) (simp add: revertible_def)
  with ph rollback_resumes [OF assms(1)] show ?thesis by (simp add: recoverInstanceRestoreSync_def)
qed

text \<open>The states boot recovery has to cope with, once a restore has started.\<close>

definition undoing :: "restore_env \<Rightarrow> journal \<Rightarrow> (string \<Rightarrow> nat option) \<Rightarrow> disk \<Rightarrow> bool" where
  "undoing = reverting {Preparing, Applying, RollingBack}"

interpretation undo: recoverable exec "recoverInstanceRestoreSync env" "undoing env j orig" "reverted j orig" "ev_busy env"
  for env j orig
  by unfold_locales (simp add: undoing_def recover_resumes)

section \<open>Committing\<close>

definition freshTarget :: "restore_request \<Rightarrow> replacement \<Rightarrow> nat option" where
  "freshTarget rq it = rq_source rq (rp_component it)"

text \<open>Every target holds what the backup holds for it.\<close>

definition installed :: "restore_request \<Rightarrow> replacement list \<Rightarrow> disk \<Rightarrow> bool" where
  "installed rq items d \<longleftrightarrow> list_all (\<lambda>it. dk_fs d (rp_target it) = freshTarget rq it) items"

definition committed :: "restore_request \<Rightarrow> journal \<Rightarrow> disk \<Rightarrow> bool" where
  "committed rq j d \<longleftrightarrow>
     dk_journal d = None \<and> dk_result d = Some (jn_transactionId j, Completed) \<and>
     installed rq (jn_replacements j) d \<and>
     list_all (\<lambda>it. list_all (\<lambda>p. dk_fs d p = None) (rp_previous it # rp_next it # sidecars (rp_next it)))
       (jn_replacements j)"

text \<open>The replacement is in place and waits for its boot, or is being committed, or is committed.\<close>

definition committing :: "phase set \<Rightarrow> restore_env \<Rightarrow> restore_request \<Rightarrow> journal \<Rightarrow> (string \<Rightarrow> nat option) \<Rightarrow> disk \<Rightarrow> bool" where
  "committing S env rq j orig d \<longleftrightarrow>
     S \<subseteq> {PendingBoot, Finalizing} \<and> Finalizing \<in> S \<and> journalReady env j \<and>
     ((\<exists>ph \<in> S. dk_journal d = Some (j\<lparr>jn_phase := ph\<rparr>) \<and> installed rq (jn_replacements j) d \<and>
                (ph = PendingBoot \<longrightarrow> revertible j orig ph d)) \<or>
      committed rq j d)"

lemma finalizeItems_removeAll:
  "finalizeItems items k =
     removeAll (concat (map (\<lambda>it. rp_previous it # rp_next it # sidecars (rp_next it)) items)) k"
proof (induction items)
  case (Cons it items)
  have "removeAll (ps @ qs) k = removeAll ps (removeAll qs k)" for ps qs k
    by (induction ps) simp_all
  with Cons show ?case by (simp add: removeFileAndSidecars_def)
qed simp

lemma installed_fields [simp]:
  "installed rq items (d\<lparr>dk_writing := w\<rparr>) = installed rq items d"
  "installed rq items (d\<lparr>dk_journal := x\<rparr>) = installed rq items d"
  "installed rq items (d\<lparr>dk_result := r\<rparr>) = installed rq items d"
  "committed rq j (d\<lparr>dk_writing := w\<rparr>) = committed rq j d"
  "committing S env rq j orig (d\<lparr>dk_writing := w\<rparr>) = committing S env rq j orig d"
  by (simp_all add: installed_def committed_def committing_def)

lemma finalize_resumes:
  assumes "committing S env rq j orig d"
  shows "outlasts exec (committing S env rq j orig) (committed rq j) (ev_busy env) (finalizeInstanceRestoreSync env) d"
proof (cases "committed rq j d")
  case True
  then have "readJournal env d = Some None"
    using assms by (intro readJournal_ready) (auto simp: committing_def committed_def)
  with True assms show ?thesis by (simp add: finalizeInstanceRestoreSync_def)
next
  case False
  then obtain ph where ready: "journalReady env j" and S: "S \<subseteq> {PendingBoot, Finalizing}" "Finalizing \<in> S" "ph \<in> S"
    and jr: "dk_journal d = Some (j\<lparr>jn_phase := ph\<rparr>)" and ins: "installed rq (jn_replacements j) d"
    using assms unfolding committing_def by metis
  note paths = ready_paths [OF ready]
  let ?j = "j\<lparr>jn_phase := Finalizing\<rparr>"
  let ?d = "d\<lparr>dk_journal := Some ?j, dk_writing := None\<rparr>"
  let ?ps = "concat (map (\<lambda>it. rp_previous it # rp_next it # sidecars (rp_next it)) (jn_replacements j))"
  define P where "P d \<longleftrightarrow> dk_journal d = Some ?j \<and> installed rq (jn_replacements j) d" for d
  have PI: "committing S env rq j orig d" if "P d" for d
    using that ready S by (auto simp: P_def committing_def)
  have "outlasts exec (committing S env rq j orig) (committed rq j) (ev_busy env)
          (removeAll ?ps (closeJournal env ?j Completed)) ?d"
  proof (rule outlasts_removeAll [where P = P])
    fix d p assume d: "P d" and p: "p \<in> set ?ps"
    have apart: "namesApart (jn_replacements j)" using ready by (simp add: journalReady_def)
    have "rp_target it \<noteq> p" if it: "it \<in> set (jn_replacements j)" for it
    proof -
      obtain ot where o: "ot \<in> set (jn_replacements j)" "p \<in> set (rp_previous ot # rp_next ot # sidecars (rp_next ot))"
        using p by auto
      show ?thesis
      proof (cases "ot = it")
        case True
        then show ?thesis using o(2) item_names_distinct [OF apart it] by auto
      next
        case False
        have "p \<in> set (itemNames ot)" using o(2) by auto
        with namesApart_other [OF apart o(1) it False] show ?thesis using own_names(1) [of it] by blast
      qed
    qed
    with d show "P (exec (Remove p) d)" by (simp add: P_def installed_def list_all_iff)
  next
    fix d assume d: "P d" and none: "\<forall>p \<in> set ?ps. dk_fs d p = None"
    have "committed rq j (d\<lparr>dk_result := Some (jn_transactionId j, Completed), dk_journal := None\<rparr>)"
      using d none by (auto simp: P_def committed_def installed_def list_all_iff)
    moreover have "committing S env rq j orig (d\<lparr>dk_result := r\<rparr>)" for r
      using d by (intro PI) (simp add: P_def)
    ultimately show "outlasts exec (committing S env rq j orig) (committed rq j) (ev_busy env)
          (closeJournal env ?j Completed) d"
      using PI [OF d] paths ready S by (auto simp: closeJournal_def writeRestoreResult_def committing_def)
  qed (use PI ins in \<open>auto simp: P_def\<close>)
  moreover have "readJournal env d = Some (Some (j\<lparr>jn_phase := ph\<rparr>))"
    by (rule readJournal_ready(1) [OF ready jr])
  ultimately show ?thesis
    using assms S paths(1,2)
    by (auto simp: finalizeInstanceRestoreSync_def writeRestoreJournalSync_def Let_def finalizeItems_removeAll)
qed

interpretation commit: recoverable exec "finalizeInstanceRestoreSync env" "committing S env rq j orig" "committed rq j" "ev_busy env"
  for S env rq j orig
  by unfold_locales (rule finalize_resumes)

end
