(* ===== verification/RestoreCrash.thy ===== *)
theory RestoreCrash
  imports RestoreJournal
begin

text \<open>
  What a crash of the restore leaves behind, and what boot recovery makes of it: the journals the
  restore writes are the ones the recovery accepts, every crash point of the restore is a state from
  which the originals can be put back until the replacement is complete, and recovery itself may be
  interrupted at any of its acts.
\<close>

section \<open>The journals a restore writes are accepted\<close>

definition withOriginals :: "disk \<Rightarrow> replacement list \<Rightarrow> replacement list" where
  "withOriginals d = map (\<lambda>item. item\<lparr>rp_originalExists := onDisk d (rp_target item)\<rparr>)"

definition withReplacements :: "restore_request \<Rightarrow> replacement list \<Rightarrow> replacement list" where
  "withReplacements rq = map (\<lambda>item. item\<lparr>rp_replacementExists := rq_source rq (rp_component item) \<noteq> None\<rparr>)"

definition requestBase :: "restore_env \<Rightarrow> restore_request \<Rightarrow> replacement list option" where
  "requestBase env rq =
     replacementsFor (ev_cwd env) (jn_destination (requestJournal env rq Preparing [])) (rq_transactionId rq) (rq_legacy rq)"

lemma itemNames_update [simp]:
  "itemNames (it\<lparr>rp_originalExists := b\<rparr>) = itemNames it"
  "itemNames (it\<lparr>rp_replacementExists := c\<rparr>) = itemNames it"
  by (simp_all add: itemNames_def)

lemma namesApart_with [simp]:
  "namesApart (withOriginals d items) = namesApart items"
  "namesApart (withReplacements rq items) = namesApart items"
  by (simp_all add: namesApart_def withOriginals_def withReplacements_def comp_def)

lemma length_with [simp]:
  "length (withOriginals d items) = length items" "length (withReplacements rq items) = length items"
  by (simp_all add: withOriginals_def withReplacements_def)

lemma matches_with:
  "list_all2 itemMatches items base \<Longrightarrow> list_all2 itemMatches (withOriginals d items) base"
  "list_all2 itemMatches items base \<Longrightarrow> list_all2 itemMatches (withReplacements rq items) base"
  by (auto simp: withOriginals_def withReplacements_def list.rel_map itemMatches_def elim!: list.rel_mono_strong)

lemma transactionIdOk_journalId: "transactionIdOk s \<Longrightarrow> journalId s"
proof -
  assume ok: "transactionIdOk s"
  obtain a b c d e where ws: "splitOn CHR ''-'' s = [a, b, c, d, e]"
      "length a = 8" "length b = 4" "length c = 4" "length d = 4" "length e = 12"
    using ok by (auto simp: transactionIdOk_def map_eq_Cons_conv)
  have s: "s = joinWith CHR ''-'' [a, b, c, d, e]"
    using joinWith_splitOn [of "CHR ''-''" s] ws(1) by simp
  show ?thesis
    using ok ws unfolding transactionIdOk_def ws(1) journalId_def
    by (auto simp: s list_all_iff)
qed

lemma replacementsFor_length: "replacementsFor cwd ds tid legacy = Some base \<Longrightarrow> length base = 1 \<longleftrightarrow> legacy"
  by (auto simp: replacementsFor_def restoreTargets_def Let_def DATA_COMPONENTS_def
      split: option.splits list.splits if_splits)

text \<open>What the host has to grant: no symbolic links in the way, journals of a sane length.\<close>

definition hostOk :: "restore_env \<Rightarrow> bool" where
  "hostOk env \<longleftrightarrow> (\<forall>p. \<not> ev_symlink env p) \<and> (\<forall>j. ev_size env j \<le> 64 * 1024)"

lemma request_ready:
  assumes "hostOk env" "transactionIdOk (rq_transactionId rq)" "requestBase env rq = Some base" "namesApart base"
    and "list_all2 itemMatches items base" "namesApart items"
  shows "journalReady env (requestJournal env rq ph items)"
proof -
  have safe: "\<not> unsafePath env p" for p using assms(1) by (simp add: hostOk_def unsafePath_def)
  have len: "length items = length base" using assms(5) by (rule list_all2_lengthD)
  then have "replacementsFor (ev_cwd env) (jn_destination (requestJournal env rq ph' items)) (rq_transactionId rq)
      (length items = 1) = Some base" for ph'
    using assms(3) replacementsFor_length by (fastforce simp: requestBase_def requestJournal_def)
  then have "validJournal env (requestJournal env rq ph' items)" for ph'
    using assms(1,2,5) len safe transactionIdOk_journalId
    by (auto simp: validJournal_def requestJournal_def hostOk_def list_all_iff split: option.split list.split)
  moreover have "requestJournal env rq ph items\<lparr>jn_phase := ph'\<rparr> = requestJournal env rq ph' items" for ph'
    by (simp add: requestJournal_def)
  ultimately show ?thesis
    using safe assms(6) by (simp add: journalReady_def requestJournal_def list_all_iff list_ex_iff)
qed

section \<open>Crashes of the restore\<close>

lemma names_ne:
  assumes "namesApart items" "a \<in> set items" "b \<in> set items"
  shows "rp_target a \<noteq> rp_previous b" "rp_target a \<noteq> rp_next b" "rp_previous a \<noteq> rp_next b"
    "a \<noteq> b \<Longrightarrow> rp_target a \<noteq> rp_target b" "a \<noteq> b \<Longrightarrow> rp_previous a \<noteq> rp_previous b"
    "a \<noteq> b \<Longrightarrow> rp_next a \<noteq> rp_next b"
  using namesApart_other [OF assms] item_names_distinct(1-3) [OF assms(1,2)] own_names(1-3) [of a] own_names(1-3) [of b]
  by (cases "a = b"; fastforce)+

text \<open>No original has moved yet; the copies of the components \<open>ready\<close> are prepared.\<close>

definition preparedOk :: "restore_request \<Rightarrow> (string \<Rightarrow> nat option) \<Rightarrow> replacement list \<Rightarrow> replacement list \<Rightarrow> disk \<Rightarrow> bool" where
  "preparedOk rq orig items ready d \<longleftrightarrow>
     list_all (\<lambda>it. rp_originalExists it = (orig (rp_target it) \<noteq> None) \<and>
                    dk_fs d (rp_target it) = orig (rp_target it) \<and> dk_fs d (rp_previous it) = None) items \<and>
     list_all (\<lambda>it. rq_source rq (rp_component it) \<noteq> None \<longrightarrow>
                    dk_fs d (rp_next it) = rq_source rq (rp_component it)) ready"

lemma preparedOk_Put:
  assumes "namesApart items" "preparedOk rq orig items fin d" "set fin \<subseteq> set items" "it \<in> set items"
    and "rq_source rq (rp_component it) = Some i"
  shows "preparedOk rq orig items (fin @ [it]) (exec (Put (rp_next it) i) d)"
proof -
  have nx: "x = it" if "rp_next x = rp_next it" "x \<in> set fin" for x
    using names_ne(6) [OF assms(1,4), of x] that assms(3) by auto
  show ?thesis
    using assms(2,5) names_ne(2,3) [OF assms(1) _ assms(4)]
    by (auto simp: preparedOk_def list_all_iff dest: nx)
qed

lemma preparedOk_revertible:
  assumes "preparedOk rq orig items fin d" "dk_journal d = Some (j\<lparr>jn_phase := ph\<rparr>)" "jn_replacements j = items"
  shows "revertible j orig ph d"
  using assms by (auto simp: preparedOk_def revertible_def itemOk_def list_all_iff)

lemma prepareItems_outlasts:
  assumes "namesApart items" "set (fin @ its) \<subseteq> set items"
    and "preparedOk rq orig items fin d" "dk_journal d = Some j"
    and k: "\<And>d. preparedOk rq orig items (fin @ its) d \<Longrightarrow> dk_journal d = Some j \<Longrightarrow>
              list_all (\<lambda>it. rp_component it = ''config'' \<longrightarrow> rq_source rq ''config'' \<noteq> None) its \<Longrightarrow>
              outlasts exec I Q E k d"
    and fail: "\<And>d fin. preparedOk rq orig items fin d \<Longrightarrow> dk_journal d = Some j \<Longrightarrow> outlasts exec I Q E (failRestore env) d"
    and I: "\<And>d fin. preparedOk rq orig items fin d \<Longrightarrow> dk_journal d = Some j \<Longrightarrow> I d"
  shows "outlasts exec I Q E (prepareItems env rq its k) d"
  using assms(2-5)
proof (induction its arbitrary: fin d)
  case (Cons it its)
  show ?case
  proof (cases "rq_source rq (rp_component it)")
    case None
    have "preparedOk rq orig items (fin @ [it]) d"
      using Cons.prems(2) None by (simp add: preparedOk_def)
    then have "outlasts exec I Q E (prepareItems env rq its k) d" if "rp_component it \<noteq> ''config''"
      by (rule Cons.IH [of "fin @ [it]", rotated 1]) (use Cons.prems that in auto)
    with None fail Cons.prems show ?thesis by auto
  next
    case (Some i)
    let ?d = "exec (Put (rp_next it) i) d"
    have p: "preparedOk rq orig items (fin @ [it]) ?d"
      by (rule preparedOk_Put [OF assms(1) Cons.prems(2) _ _ Some]) (use Cons.prems(1) in auto)
    have cfg: "rp_component it = ''config'' \<longrightarrow> rq_source rq ''config'' \<noteq> None" using Some by auto
    have "outlasts exec I Q E (prepareItems env rq its k) ?d"
    proof (rule Cons.IH [OF _ p])
      fix d assume "preparedOk rq orig items ((fin @ [it]) @ its) d" "dk_journal d = Some j"
        "list_all (\<lambda>it. rp_component it = ''config'' \<longrightarrow> rq_source rq ''config'' \<noteq> None) its"
      with cfg show "outlasts exec I Q E k d" by (intro Cons.prems(4)) simp_all
    qed (use Cons.prems(1,3) in simp_all)
    with Some I Cons.prems show ?thesis by auto
  qed
qed (use assms(5) in auto)

text \<open>The components \<open>fin\<close> are replaced, the others untouched.\<close>

definition appliedOk :: "restore_request \<Rightarrow> (string \<Rightarrow> nat option) \<Rightarrow> replacement list \<Rightarrow> replacement list \<Rightarrow> disk \<Rightarrow> bool" where
  "appliedOk rq orig fin its d \<longleftrightarrow>
     list_all (\<lambda>it. dk_fs d (rp_target it) = freshTarget rq it \<and> dk_fs d (rp_previous it) = orig (rp_target it) \<and>
                    (rp_replacementExists it \<longrightarrow> dk_fs d (rp_next it) = None)) fin \<and>
     list_all (\<lambda>it. dk_fs d (rp_target it) = orig (rp_target it) \<and> dk_fs d (rp_previous it) = None \<and>
                    (rp_replacementExists it \<longrightarrow> dk_fs d (rp_next it) = freshTarget rq it)) its"

definition requestFacts :: "restore_request \<Rightarrow> (string \<Rightarrow> nat option) \<Rightarrow> replacement list \<Rightarrow> bool" where
  "requestFacts rq orig items \<longleftrightarrow>
     namesApart items \<and>
     list_all (\<lambda>it. rp_originalExists it = (orig (rp_target it) \<noteq> None) \<and>
                    rp_replacementExists it = (freshTarget rq it \<noteq> None) \<and>
                    (rp_component it = ''config'' \<longrightarrow> freshTarget rq it \<noteq> None) \<and>
                    (freshTarget rq it \<noteq> None \<longrightarrow> freshTarget rq it \<noteq> orig (rp_target it))) items"

lemma appliedOk_itemOk:
  assumes "requestFacts rq orig items" "appliedOk rq orig fin its d" "it \<in> set fin \<union> set its" "it \<in> set items"
    and "ph \<noteq> Preparing"
  shows "itemOk orig ph (dk_fs d) it"
  using assms by (auto simp: requestFacts_def appliedOk_def itemOk_def list_all_iff)

lemma onlyItem_Link:
  "onlyItem it d0 d \<Longrightarrow> q \<in> set (itemNames it) \<Longrightarrow> onlyItem it d0 (exec (Link p q) d)"
  by (simp add: onlyItem_def agreeOff_upd)

lemma onlyItem_other:
  assumes "namesApart items" "it \<in> set items" "x \<in> set items" "x \<noteq> it" "onlyItem it d d'"
  shows "dk_fs d' (rp_target x) = dk_fs d (rp_target x)" "dk_fs d' (rp_previous x) = dk_fs d (rp_previous x)"
    "dk_fs d' (rp_next x) = dk_fs d (rp_next x)"
proof -
  have "dk_fs d' p = dk_fs d p" if "p \<in> set (itemNames x)" for p
    using namesApart_other [OF assms(1,3,2,4) that] assms(5) by (simp add: onlyItem_def agreeOff_def)
  then show "dk_fs d' (rp_target x) = dk_fs d (rp_target x)" "dk_fs d' (rp_previous x) = dk_fs d (rp_previous x)"
    "dk_fs d' (rp_next x) = dk_fs d (rp_next x)" by simp_all
qed

lemma applied_step:
  assumes rf: "requestFacts rq orig items" and ap: "appliedOk rq orig fin (it # its) d"
    and its: "set (fin @ it # its) = set items" "distinct (fin @ it # its)" and o: "onlyItem it d d'"
  shows "itemOk orig Applying (dk_fs d') it \<Longrightarrow> x \<in> set items \<Longrightarrow> itemOk orig Applying (dk_fs d') x"
    and "dk_fs d' (rp_target it) = freshTarget rq it \<Longrightarrow> dk_fs d' (rp_previous it) = orig (rp_target it) \<Longrightarrow>
         (rp_replacementExists it \<longrightarrow> dk_fs d' (rp_next it) = None) \<Longrightarrow> appliedOk rq orig (fin @ [it]) its d'"
proof -
  have apart: "namesApart items" "it \<in> set items" using rf its(1) by (auto simp: requestFacts_def)
  note other = onlyItem_other [OF apart _ _ o]
  show "itemOk orig Applying (dk_fs d') x" if x: "itemOk orig Applying (dk_fs d') it" "x \<in> set items"
  proof (cases "x = it")
    case False
    have "x \<in> set fin \<union> set (it # its)" using x(2) its(1) by auto
    then have "itemOk orig Applying (dk_fs d) x" by (rule appliedOk_itemOk [OF rf ap _ x(2)]) simp
    with other [OF x(2) False] show ?thesis by (simp add: itemOk_def)
  qed (use x in simp)
  have "y \<noteq> it" "y \<in> set items" if "y \<in> set fin \<union> set its" for y
    using that its by auto
  with ap other
  show "appliedOk rq orig (fin @ [it]) its d'"
    if "dk_fs d' (rp_target it) = freshTarget rq it" "dk_fs d' (rp_previous it) = orig (rp_target it)"
      "rp_replacementExists it \<longrightarrow> dk_fs d' (rp_next it) = None"
    using that by (simp add: appliedOk_def list_all_iff)
qed

lemma installNew_outlasts:
  assumes rf: "requestFacts rq orig items" and ap: "appliedOk rq orig fin (it # its) d"
    and its: "set (fin @ it # its) = set items" "distinct (fin @ it # its)" and o: "onlyItem it d d1"
    and d1: "dk_fs d1 (rp_previous it) = orig (rp_target it)" "dk_fs d1 (rp_next it) = dk_fs d (rp_next it)"
      "dk_fs d1 (rp_target it) = (if rp_component it = ''config'' then orig (rp_target it) else None)"
    and I: "\<And>d'. onlyItem it d d' \<Longrightarrow> (\<And>x. x \<in> set items \<Longrightarrow> itemOk orig Applying (dk_fs d') x) \<Longrightarrow> I d'"
    and k: "\<And>d'. onlyItem it d d' \<Longrightarrow> appliedOk rq orig (fin @ [it]) its d' \<Longrightarrow> outlasts exec I Q E k d'"
  shows "outlasts exec I Q E (installNew it k) d1"
proof -
  have it: "it \<in> set items" and apart: "namesApart items"
    using its(1) rf by (auto simp: requestFacts_def)
  have facts: "rp_originalExists it = (orig (rp_target it) \<noteq> None)"
    "rp_replacementExists it = (freshTarget rq it \<noteq> None)"
    "rp_component it = ''config'' \<longrightarrow> freshTarget rq it \<noteq> None"
    "freshTarget rq it \<noteq> None \<longrightarrow> freshTarget rq it \<noteq> orig (rp_target it)"
    using rf it by (auto simp: requestFacts_def list_all_iff)
  have ne: "rp_target it \<noteq> rp_previous it" "rp_target it \<noteq> rp_next it" "rp_previous it \<noteq> rp_next it"
    using item_names_distinct(1-3) [OF apart it] by auto
  have nx: "rp_replacementExists it \<longrightarrow> dk_fs d (rp_next it) = freshTarget rq it"
    using ap by (simp add: appliedOk_def)
  have ok1: "itemOk orig Applying (dk_fs d1) it"
    using facts d1 by (auto simp: itemOk_def)
  have I1: "I d1" by (rule I [OF o applied_step(1) [OF rf ap its o ok1]])
  show ?thesis
  proof (cases "rp_replacementExists it")
    case False
    then have "freshTarget rq it = None" "rp_component it \<noteq> ''config''" using facts by auto
    then have "appliedOk rq orig (fin @ [it]) its d1"
      using d1 False by (intro applied_step(2) [OF rf ap its o]) auto
    with False k [OF o] show ?thesis by (simp add: installNew_def)
  next
    case True
    then obtain i where i: "freshTarget rq it = Some i" using facts by auto
    let ?d2 = "exec (Rename (rp_next it) (rp_target it)) d1"
    have t: "dk_fs d1 (rp_target it) \<noteq> Some i" using d1(3) facts(4) i by (auto split: if_splits)
    have o2: "onlyItem it d ?d2" by (rule onlyItem_Rename [OF o]) simp_all
    have "appliedOk rq orig (fin @ [it]) its ?d2"
      using d1 nx True i t ne by (intro applied_step(2) [OF rf ap its o2]) auto
    from k [OF o2 this] True I1 show ?thesis by (simp add: installNew_def)
  qed
qed

lemma applyItems_outlasts:
  assumes rf: "requestFacts rq orig items"
    and "set (fin @ its) = set items" "distinct (fin @ its)" "appliedOk rq orig fin its d" "dk_journal d = Some j"
    and I: "\<And>d. dk_journal d = Some j \<Longrightarrow> (\<And>x. x \<in> set items \<Longrightarrow> itemOk orig Applying (dk_fs d) x) \<Longrightarrow> I d"
    and fail: "\<And>d. dk_journal d = Some j \<Longrightarrow> (\<And>x. x \<in> set items \<Longrightarrow> itemOk orig Applying (dk_fs d) x) \<Longrightarrow>
                 outlasts exec I Q E (failRestore env) d"
    and k: "\<And>d. dk_journal d = Some j \<Longrightarrow> appliedOk rq orig (fin @ its) [] d \<Longrightarrow> outlasts exec I Q E k d"
  shows "outlasts exec I Q E (applyItems env rq its k) d"
  using assms(2-5) k
proof (induction its arbitrary: fin d)
  case (Cons it its)
  note p = Cons.prems
  have it: "it \<in> set items" and apart: "namesApart items"
    using p(1) rf by (auto simp: requestFacts_def)
  have facts: "rp_originalExists it = (orig (rp_target it) \<noteq> None)"
    using rf it by (auto simp: requestFacts_def list_all_iff)
  have ne: "rp_target it \<noteq> rp_previous it" "rp_target it \<noteq> rp_next it" "rp_previous it \<noteq> rp_next it"
    using item_names_distinct(1-3) [OF apart it] by auto
  have here: "dk_fs d (rp_target it) = orig (rp_target it)" "dk_fs d (rp_previous it) = None"
    using p(3) by (simp_all add: appliedOk_def)
  have all: "itemOk orig Applying (dk_fs d) x" if "x \<in> set items" for x
    by (rule appliedOk_itemOk [OF rf p(3) _ that]) (use that p(1) in auto)
  have I0: "I d" by (rule I [OF p(4) all])
  have rest: "outlasts exec I Q E (installNew it (applyItems env rq its k)) d1"
    if "onlyItem it d d1" "dk_fs d1 (rp_previous it) = orig (rp_target it)" "dk_fs d1 (rp_next it) = dk_fs d (rp_next it)"
      "dk_fs d1 (rp_target it) = (if rp_component it = ''config'' then orig (rp_target it) else None)" for d1
  proof (rule installNew_outlasts [OF rf p(3) p(1,2) that])
    fix d' assume o: "onlyItem it d d'" and ok: "\<And>x. x \<in> set items \<Longrightarrow> itemOk orig Applying (dk_fs d') x"
    show "I d'" by (rule I) (use o p(4) ok in \<open>auto simp: onlyItem_def\<close>)
  next
    fix d' assume o: "onlyItem it d d'" and ap: "appliedOk rq orig (fin @ [it]) its d'"
    show "outlasts exec I Q E (applyItems env rq its k) d'"
      by (rule Cons.IH [OF _ _ ap]) (use p o in \<open>auto simp: onlyItem_def\<close>)
  qed
  show ?case
  proof (cases "rp_originalExists it")
    case False
    then have "orig (rp_target it) = None" using facts by simp
    then have "outlasts exec I Q E (installNew it (applyItems env rq its k)) d"
      using here by (intro rest) auto
    with False show ?thesis by (simp add: Let_def)
  next
    case True
    then obtain oi where o: "orig (rp_target it) = Some oi" using facts by auto
    show ?thesis
    proof (cases "rp_component it = ''config''")
      case True
      have "outlasts exec I Q E (installNew it (applyItems env rq its k)) (exec (Link (rp_target it) (rp_previous it)) d)"
        using here o ne True by (intro rest onlyItem_Link) auto
      moreover have "outlasts exec I Q E (failRestore env) d" by (rule fail [OF p(4) all])
      ultimately show ?thesis using True \<open>rp_originalExists it\<close> I0 by (simp add: Let_def)
    next
      case False
      have "outlasts exec I Q E (installNew it (applyItems env rq its k)) (exec (Rename (rp_target it) (rp_previous it)) d)"
        using here o ne False onlyItem_Rename [OF onlyItem_refl, of "rp_target it" it "rp_previous it" d]
        by (intro rest) auto
      then show ?thesis using False \<open>rp_originalExists it\<close> I0 by (simp add: Let_def)
    qed
  qed
qed simp

section \<open>The restore from the outside\<close>

text \<open>What a crash, or a failed restore that undid itself, may leave; \<open>ds\<close> is the store before.\<close>

definition requestItems :: "restore_request \<Rightarrow> disk \<Rightarrow> replacement list \<Rightarrow> replacement list" where
  "requestItems rq d0 base = withReplacements rq (withOriginals d0 base)"

definition pendingBoot :: "restore_env \<Rightarrow> restore_request \<Rightarrow> disk \<Rightarrow> replacement list \<Rightarrow> disk \<Rightarrow> bool" where
  "pendingBoot env rq d0 base d \<longleftrightarrow>
     (let j = requestJournal env rq PendingBoot (requestItems rq d0 base) in
      dk_journal d = Some j \<and> revertible j (dk_fs d0) PendingBoot d \<and> installed rq (jn_replacements j) d)"

definition undoable :: "restore_env \<Rightarrow> restore_request \<Rightarrow> disk \<Rightarrow> replacement list \<Rightarrow> disk \<Rightarrow> bool" where
  "undoable env rq d0 base d \<longleftrightarrow>
     undoing env (requestJournal env rq Preparing (withOriginals d0 base)) (dk_fs d0) d \<or>
     undoing env (requestJournal env rq Preparing (requestItems rq d0 base)) (dk_fs d0) d"

definition restoreCrash :: "restore_env \<Rightarrow> restore_request \<Rightarrow> disk \<Rightarrow> replacement list \<Rightarrow> disk \<Rightarrow> bool" where
  "restoreCrash env rq d0 base d \<longleftrightarrow>
     dk_journal d = None \<and> dk_fs d = dk_fs d0 \<or> undoable env rq d0 base d \<or> pendingBoot env rq d0 base d"

text \<open>The request starts from a clean place: nobody uses the names a fresh transaction id gives, the
  prepared copies are new files, and the staged configuration is there.\<close>

definition requestOk :: "restore_env \<Rightarrow> restore_request \<Rightarrow> disk \<Rightarrow> replacement list \<Rightarrow> bool" where
  "requestOk env rq d0 base \<longleftrightarrow>
     hostOk env \<and> dk_journal d0 = None \<and> requestBase env rq = Some base \<and> namesApart base \<and>
     list_all (\<lambda>it. dk_fs d0 (rp_previous it) = None \<and>
                    (rq_source rq (rp_component it) \<noteq> None \<longrightarrow>
                     rq_source rq (rp_component it) \<noteq> dk_fs d0 (rp_target it))) base"

lemma requestItems_matches:
  assumes "requestBase env rq = Some base"
  shows "list_all2 itemMatches (withOriginals d0 base) base" "list_all2 itemMatches (requestItems rq d0 base) base"
proof -
  have "list_all2 itemMatches base base" by (rule list_all2_refl) (simp add: itemMatches_def)
  then show "list_all2 itemMatches (withOriginals d0 base) base" "list_all2 itemMatches (requestItems rq d0 base) base"
    by (simp_all add: matches_with requestItems_def)
qed

lemma requestJournal_simps [simp]:
  "jn_replacements (requestJournal env rq ph items) = items"
  "jn_phase (requestJournal env rq ph items) = ph"
  "requestJournal env rq ph items\<lparr>jn_phase := ph'\<rparr> = requestJournal env rq ph' items"
  "jn_transactionId (requestJournal env rq ph items) = rq_transactionId rq"
  by (simp_all add: requestJournal_def)

lemma restore_outlasts:
  assumes ok: "requestOk env rq d0 base"
  shows "outlasts exec (restoreCrash env rq d0 base)
           (\<lambda>d. pendingBoot env rq d0 base d \<or>
                reverted (requestJournal env rq Preparing (withOriginals d0 base)) (dk_fs d0) d \<or>
                reverted (requestJournal env rq Preparing (requestItems rq d0 base)) (dk_fs d0) d)
           True (restoreInstanceBackup env rq) d0" (is "outlasts exec ?I ?Q True _ _")
proof (cases "transactionIdOk (rq_transactionId rq)")
  case False
  then show ?thesis using ok by (simp add: restoreInstanceBackup_def restoreCrash_def requestOk_def)
next
  case tid: True
  let ?orig = "dk_fs d0" and ?i0 = "withOriginals d0 base" and ?i1 = "requestItems rq d0 base"
  let ?j0 = "requestJournal env rq Preparing ?i0" and ?j1 = "requestJournal env rq Applying ?i1"
  have host: "hostOk env" and base: "requestBase env rq = Some base" "namesApart base" and j0: "dk_journal d0 = None"
    using ok by (auto simp: requestOk_def)
  have apart: "namesApart ?i0" "namesApart ?i1" using base(2) by (simp_all add: requestItems_def)
  have ready0: "journalReady env (requestJournal env rq ph ?i0)" for ph
    by (rule request_ready [OF host tid base requestItems_matches(1) [OF base(1)] apart(1)])
  have ready1: "journalReady env (requestJournal env rq ph ?i1)" for ph
    by (rule request_ready [OF host tid base requestItems_matches(2) [OF base(1)] apart(2)])
  have safe: "\<not> unsafePath env p" for p using host by (simp add: hostOk_def unsafePath_def)
  have start: "?I d" if "dk_journal d = None" "dk_fs d = ?orig" for d
    using that by (simp add: restoreCrash_def)
  have undo0: "undoing env ?j0 ?orig d" if "revertible ?j0 ?orig Preparing d" for d
    using that ready0 by (auto simp: undoing_def reverting_def)
  have undo1: "undoing env (requestJournal env rq Preparing ?i1) ?orig d" if "revertible ?j1 ?orig Applying d" for d
    using that ready1 by (auto simp: undoing_def reverting_def revertible_def)
  have fail: "outlasts exec ?I ?Q True (failRestore env) d" if "undoing env (requestJournal env rq Preparing items) ?orig d"
      "items = ?i0 \<or> items = ?i1" for d items
    unfolding failRestore_def
    by (rule outlasts_mono [OF rollback_resumes [OF that(1) [unfolded undoing_def]]])
      (use that(2) in \<open>auto simp: restoreCrash_def undoable_def undoing_def\<close>)
  have facts: "rp_originalExists it = (?orig (rp_target it) \<noteq> None) \<and> ?orig (rp_previous it) = None"
    if "it \<in> set ?i0" for it
    using that ok by (auto simp: withOriginals_def onDisk_def requestOk_def list_all_iff)

  have last: "outlasts exec ?I ?Q True
      (writeRestoreJournalSync env (requestJournal env rq PendingBoot ?i1) False Done) d"
    if d: "dk_journal d = Some ?j1" "appliedOk rq ?orig ?i1 [] d" "requestFacts rq ?orig ?i1" for d
  proof -
    have "itemOk ?orig ph (dk_fs d) x" if "x \<in> set ?i1" "ph \<noteq> Preparing" for x ph
      by (rule appliedOk_itemOk [OF d(3,2) _ that(1,2)]) (use that in auto)
    then have rev: "revertible (requestJournal env rq ph' ?i1) ?orig ph (d\<lparr>dk_journal := Some (requestJournal env rq ph ?i1)\<rparr>)"
      if "ph \<noteq> Preparing" for ph ph'
      using that by (simp add: revertible_def list_all_iff)
    have inst: "installed rq ?i1 d" using d(2) by (simp add: appliedOk_def installed_def list_all_iff)
    have "revertible ?j1 ?orig Applying d" using rev [of Applying Applying] d(1) by (simp add: revertible_def)
    then have "?I (d\<lparr>dk_writing := w\<rparr>)" for w
      using undo1 [of "d\<lparr>dk_writing := w\<rparr>"] by (auto simp: restoreCrash_def undoable_def)
    moreover have "pendingBoot env rq d0 base
        (d\<lparr>dk_journal := Some (requestJournal env rq PendingBoot ?i1), dk_writing := None\<rparr>)"
      using rev [of PendingBoot PendingBoot] inst by (simp add: pendingBoot_def Let_def)
    ultimately show ?thesis
      using safe \<open>\<And>w. ?I (d\<lparr>dk_writing := w\<rparr>)\<close> [of "dk_writing d"]
      by (simp add: writeRestoreJournalSync_def restoreCrash_def)
  qed
  have applies: "outlasts exec ?I ?Q True (applyPhase env rq ?i0) d"
    if d: "preparedOk rq ?orig ?i0 ?i0 d" "dk_journal d = Some ?j0"
      and cfg: "list_all (\<lambda>it. rp_component it = ''config'' \<longrightarrow> rq_source rq ''config'' \<noteq> None) ?i0" for d
  proof -
    have rev0: "revertible ?j0 ?orig Preparing d" by (rule preparedOk_revertible [OF d(1)]) (simp_all add: d(2))
    then have I0: "?I (d\<lparr>dk_writing := w\<rparr>)" for w
      using undo0 [of "d\<lparr>dk_writing := w\<rparr>"] by (auto simp: restoreCrash_def undoable_def)
    have rf: "requestFacts rq ?orig ?i1"
      using apart(2) cfg ok
      by (auto simp: requestFacts_def requestItems_def withReplacements_def withOriginals_def list_all_iff
          freshTarget_def onDisk_def requestOk_def)
    let ?d = "d\<lparr>dk_journal := Some ?j1, dk_writing := None\<rparr>"
    have ap: "appliedOk rq ?orig [] ?i1 ?d"
      using d(1) by (auto simp: appliedOk_def preparedOk_def requestItems_def withReplacements_def list_all_iff freshTarget_def)
    have items: "map (\<lambda>item. item\<lparr>rp_replacementExists := rq_source rq (rp_component item) \<noteq> None\<rparr>) ?i0 = ?i1"
      by (simp add: requestItems_def withReplacements_def)
    have "outlasts exec ?I ?Q True (applyItems env rq ?i1
            (writeRestoreJournalSync env (requestJournal env rq PendingBoot ?i1) False Done)) ?d"
    proof (rule applyItems_outlasts [OF rf _ _ ap, where j = ?j1])
      show "distinct ([] @ ?i1)" using namesApart_distinct [OF apart(2)] by simp
    next
      fix d :: disk assume d: "dk_journal d = Some ?j1" and oks: "\<And>x. x \<in> set ?i1 \<Longrightarrow> itemOk ?orig Applying (dk_fs d) x"
      have "revertible ?j1 ?orig Applying d" using d oks by (simp add: revertible_def list_all_iff)
      then have u: "undoing env (requestJournal env rq Preparing ?i1) ?orig d" by (rule undo1)
      then show "?I d" by (simp add: restoreCrash_def undoable_def)
      from u show "outlasts exec ?I ?Q True (failRestore env) d" by (rule fail) simp
    next
      fix d :: disk assume "dk_journal d = Some ?j1" "appliedOk rq ?orig ([] @ ?i1) [] d"
      then show "outlasts exec ?I ?Q True
          (writeRestoreJournalSync env (requestJournal env rq PendingBoot ?i1) False Done) d"
        using last [OF _ _ rf] by simp
    qed simp_all
    moreover have "outlasts exec ?I ?Q True (failRestore env) d" by (rule fail [OF undo0 [OF rev0]]) simp
    ultimately show ?thesis
      using I0 I0 [of "dk_writing d"] safe
      unfolding applyPhase_def Let_def items
      by (simp add: writeRestoreJournalSync_def)
  qed
  have prepare: "outlasts exec ?I ?Q True (prepareItems env rq ?i0 (applyPhase env rq ?i0)) d"
    if d: "dk_journal d = Some ?j0" "dk_fs d = ?orig" for d
  proof (rule prepareItems_outlasts [OF apart(1), where fin = "[]" and j = ?j0])
    show "preparedOk rq ?orig ?i0 [] d" using facts d(2) by (auto simp: preparedOk_def list_all_iff)
  next
    fix d :: disk and fin assume p: "preparedOk rq ?orig ?i0 fin d" "dk_journal d = Some ?j0"
    have "revertible ?j0 ?orig Preparing d" by (rule preparedOk_revertible [OF p(1)]) (simp_all add: p(2))
    then have u: "undoing env ?j0 ?orig d" by (rule undo0)
    then show "?I d" by (simp add: restoreCrash_def undoable_def)
    from u show "outlasts exec ?I ?Q True (failRestore env) d" by (rule fail) simp
  qed (use d applies in auto)
  have "outlasts exec ?I ?Q True (writeRestoreJournalSync env ?j0 True (prepareItems env rq ?i0 (applyPhase env rq ?i0))) d0"
  proof -
    have rev: "revertible ?j0 ?orig Preparing (d0\<lparr>dk_writing := w, dk_journal := Some ?j0\<rparr>)" for w
      using facts by (auto simp: revertible_def itemOk_def list_all_iff)
    have "?I (d0\<lparr>dk_writing := w, dk_journal := Some ?j0\<rparr>)" for w
      using undo0 [OF rev [of w]] by (simp add: restoreCrash_def undoable_def)
    then show ?thesis
      using j0 safe start prepare by (simp add: writeRestoreJournalSync_def)
  qed
  moreover have "?I d0" using j0 by (intro start) simp_all
  ultimately show ?thesis
    using base(1) unfolding restoreInstanceBackup_def requestBase_def
    by (simp add: withOriginals_def [of d0, symmetric] Let_def)
qed

section \<open>Recovery after a crash\<close>

definition originalsBack :: "disk \<Rightarrow> replacement list \<Rightarrow> disk \<Rightarrow> bool" where
  "originalsBack d0 base d \<longleftrightarrow>
     list_all (\<lambda>it. dk_fs d (rp_target it) = dk_fs d0 (rp_target it) \<and> dk_fs d (rp_previous it) = None \<and>
                    dk_fs d (rp_next it) = None) base"

lemma reverted_originals:
  assumes "reverted (requestJournal env rq ph items) (dk_fs d0) d" "items = withOriginals d0 base \<or> items = requestItems rq d0 base"
  shows "dk_journal d = None \<and> originalsBack d0 base d"
  using assms
  by (auto simp: reverted_def originalsBack_def itemDone_def list_all_iff withOriginals_def requestItems_def
      withReplacements_def)

lemma recover_idle:
  assumes "dk_journal d = None \<or> (\<exists>j. dk_journal d = Some j \<and> jn_phase j = PendingBoot)"
  shows "fold (runTo exec (recoverInstanceRestoreSync env)) ns d = d"
    and "complete exec (recoverInstanceRestoreSync env) d = d"
proof -
  have r: "runTo exec (recoverInstanceRestoreSync env) n d = d" for n
    using assms by (auto simp: recoverInstanceRestoreSync_def readJournal_def split: option.split)
  show "fold (runTo exec (recoverInstanceRestoreSync env)) ns d = d"
    by (induction ns) (simp_all add: r)
  show "complete exec (recoverInstanceRestoreSync env) d = d"
    using assms by (auto simp: recoverInstanceRestoreSync_def readJournal_def split: option.split)
qed

lemma pendingBoot_phase: "pendingBoot env rq d0 base d \<Longrightarrow> \<exists>j. dk_journal d = Some j \<and> jn_phase j = PendingBoot"
  by (auto simp: pendingBoot_def Let_def)

abbreviation recovering :: "restore_env \<Rightarrow> nat list \<Rightarrow> disk \<Rightarrow> disk" where
  "recovering env ns \<equiv> fold (runTo exec (recoverInstanceRestoreSync env)) ns"

lemma restoreCrash_recovering:
  assumes "restoreCrash env rq d0 base d"
  shows "restoreCrash env rq d0 base (recovering env ns d)"
  using assms undo.attempts_keep pendingBoot_phase recover_idle(1)
  unfolding restoreCrash_def undoable_def by metis

lemma pendingBoot_ready:
  assumes "requestOk env rq d0 base" "transactionIdOk (rq_transactionId rq)"
  shows "journalReady env (requestJournal env rq ph (requestItems rq d0 base))"
proof -
  have base: "hostOk env" "requestBase env rq = Some base" "namesApart base"
    using assms(1) by (auto simp: requestOk_def)
  show ?thesis
    by (rule request_ready [OF base(1) assms(2) base(2,3) requestItems_matches(2) [OF base(2)]])
      (simp add: requestItems_def base(3))
qed

text \<open>
  C14: A crash never loses the instance.  Stop the restore after any number of durable acts, let
  boot recovery be interrupted any number of times, and let it run once: either every original is
  back under its own name, nothing of the restore is left and the journal is gone, or the
  replacement was complete and still waits for its first boot, with every original kept aside.\<close>

theorem restore_crash_safe:
  assumes "requestOk env rq d0 base" and "\<not> ev_busy env"
    and "d = recovering env ns (runTo exec (restoreInstanceBackup env rq) n d0)"
  shows "dk_journal (complete exec (recoverInstanceRestoreSync env) d) = None \<and>
           (originalsBack d0 base (complete exec (recoverInstanceRestoreSync env) d) \<or>
            dk_fs (complete exec (recoverInstanceRestoreSync env) d) = dk_fs d0) \<or>
         pendingBoot env rq d0 base (complete exec (recoverInstanceRestoreSync env) d)"
proof -
  let ?d = "runTo exec (restoreInstanceBackup env rq) n d0"
  have "restoreCrash env rq d0 base ?d"
    by (rule outlasts_runTo [OF restore_outlasts [OF assms(1)]])
  then consider (idle) "dk_journal ?d = None" "dk_fs ?d = dk_fs d0" | (undo) "undoable env rq d0 base ?d"
    | (pending) "pendingBoot env rq d0 base ?d" by (auto simp: restoreCrash_def)
  then show ?thesis
  proof cases
    case idle
    then show ?thesis by (simp add: assms(3) recover_idle)
  next
    case pending
    then show ?thesis using pendingBoot_phase [OF pending] by (simp add: assms(3) recover_idle)
  next
    case undo
    then obtain items where "undoing env (requestJournal env rq Preparing items) (dk_fs d0) ?d"
        and items: "items = withOriginals d0 base \<or> items = requestItems rq d0 base"
      unfolding undoable_def by blast
    from undo.attempt_reaches [OF this(1) assms(2)] have
      "reverted (requestJournal env rq Preparing items) (dk_fs d0) (complete exec (recoverInstanceRestoreSync env) d)"
      by (simp add: assms(3))
    from reverted_originals [OF this items] show ?thesis by simp
  qed
qed

text \<open>
  C29: Boot recovery always comes to an end.  Wherever the restore was stopped, and however often
  recovery was interrupted, the next run of recovery returns: it neither throws nor finds a journal
  it would refuse.\<close>

theorem recovery_returns:
  assumes "requestOk env rq d0 base" and "transactionIdOk (rq_transactionId rq)" and "\<not> ev_busy env"
  shows "returns exec (recoverInstanceRestoreSync env)
           (recovering env ns (runTo exec (restoreInstanceBackup env rq) n d0))"
proof -
  let ?d = "recovering env ns (runTo exec (restoreInstanceBackup env rq) n d0)"
  have "restoreCrash env rq d0 base ?d"
    by (rule restoreCrash_recovering [OF outlasts_runTo [OF restore_outlasts [OF assms(1)]]])
  then consider (idle) "dk_journal ?d = None" | (undo) j where "undoing env j (dk_fs d0) ?d"
    | (pending) "pendingBoot env rq d0 base ?d" by (auto simp: restoreCrash_def undoable_def)
  then show ?thesis
  proof cases
    case idle
    have "\<not> unsafePath env p" for p using assms(1) by (simp add: requestOk_def hostOk_def unsafePath_def)
    with idle show ?thesis by (simp add: recoverInstanceRestoreSync_def readJournal_def)
  next
    case undo
    from undo.attempt_finishes [OF undo assms(3), of "[]"] show ?thesis by simp
  next
    case pending
    then have "dk_journal ?d = Some (requestJournal env rq PendingBoot (requestItems rq d0 base)\<lparr>jn_phase := PendingBoot\<rparr>)"
      by (simp add: pendingBoot_def Let_def)
    from readJournal_ready(1) [OF pendingBoot_ready [OF assms(1,2)] this] show ?thesis
      by (simp add: recoverInstanceRestoreSync_def)
  qed
qed

text \<open>
  The configuration file a service boots with is never missing.  If it existed before the
  restore, it exists at every crash point of the restore and of every interrupted recovery.\<close>

theorem config_always_present:
  assumes "requestOk env rq d0 base" and "it \<in> set base" and "rp_component it = ''config''"
    and "dk_fs d0 (rp_target it) \<noteq> None"
  shows "dk_fs (recovering env ns (runTo exec (restoreInstanceBackup env rq) n d0)) (rp_target it) \<noteq> None"
proof -
  let ?d = "recovering env ns (runTo exec (restoreInstanceBackup env rq) n d0)"
  have present: "dk_fs d (rp_target it) \<noteq> None"
    if st: "revertible (requestJournal env rq ph items) (dk_fs d0) ph' d \<or> reverted (requestJournal env rq ph items) (dk_fs d0) d"
      and its: "items = withOriginals d0 base \<or> items = requestItems rq d0 base" for d ph ph' items
  proof -
    obtain it' where "it' \<in> set items" "rp_target it' = rp_target it" "rp_component it' = ''config''"
      using its assms(2,3) by (fastforce simp: withOriginals_def requestItems_def withReplacements_def)
    with st assms(4) show ?thesis
      by (fastforce simp: revertible_def reverted_def itemOk_def itemDone_def list_all_iff)
  qed
  have "restoreCrash env rq d0 base ?d"
    by (rule restoreCrash_recovering [OF outlasts_runTo [OF restore_outlasts [OF assms(1)]]])
  then show ?thesis
    using assms(4) present
    unfolding restoreCrash_def undoable_def undoing_def reverting_def pendingBoot_def Let_def by metis
qed

section \<open>After the restore\<close>

text \<open>
  A failed first boot can always go back.  From a complete replacement the rollback, interrupted
  as often as it may be and then let through, puts every original back.\<close>

theorem failed_boot_rolls_back:
  assumes "requestOk env rq d0 base" and "transactionIdOk (rq_transactionId rq)" and "\<not> ev_busy env"
    and "pendingBoot env rq d0 base d"
  shows "originalsBack d0 base
           (complete exec (rollbackInstanceRestoreSync env) (fold (runTo exec (rollbackInstanceRestoreSync env)) ns d))"
proof -
  have "reverting {PendingBoot, RollingBack} env (requestJournal env rq PendingBoot (requestItems rq d0 base)) (dk_fs d0) d"
    using assms(4) pendingBoot_ready [OF assms(1,2)] by (simp add: reverting_def pendingBoot_def Let_def)
  from reverted_originals [OF rollback.attempt_reaches [OF this assms(3)]] show ?thesis by blast
qed

lemma settle_resumes:
  assumes "committing {Finalizing} env rq j orig d"
  shows "outlasts exec (committing {Finalizing} env rq j orig) (committed rq j) (ev_busy env)
           (recoverInstanceRestoreSync env) d"
proof (cases "committed rq j d")
  case True
  then have "readJournal env d = Some None"
    using assms by (intro readJournal_ready) (auto simp: committing_def committed_def)
  with True assms show ?thesis by (simp add: recoverInstanceRestoreSync_def)
next
  case False
  then have "journalReady env j" "dk_journal d = Some (j\<lparr>jn_phase := Finalizing\<rparr>)"
    using assms by (auto simp: committing_def)
  with readJournal_ready(1) [OF this] finalize_resumes [OF assms] show ?thesis
    by (simp add: recoverInstanceRestoreSync_def)
qed

interpretation settle: recoverable exec "recoverInstanceRestoreSync env" "committing {Finalizing} env rq j orig"
    "committed rq j" "ev_busy env"
  for env rq j orig
  by unfold_locales (rule settle_resumes)

text \<open>
  A commit is all or nothing.  Interrupt the commit after a good first boot anywhere, and the
  recoveries after it as well: once recovery runs through, either the commit had not begun and the
  complete replacement still waits with its originals, or the commit is finished, every component
  holds what the backup held, and no name of the restore is left.\<close>

theorem commit_crash_safe:
  assumes "requestOk env rq d0 base" and "transactionIdOk (rq_transactionId rq)" and "\<not> ev_busy env"
    and "pendingBoot env rq d0 base d0'"
    and "d = complete exec (recoverInstanceRestoreSync env) (recovering env ns (runTo exec (finalizeInstanceRestoreSync env) n d0'))"
  shows "pendingBoot env rq d0 base d \<or>
         committed rq (requestJournal env rq PendingBoot (requestItems rq d0 base)) d"
proof -
  let ?j = "requestJournal env rq PendingBoot (requestItems rq d0 base)"
  let ?d = "runTo exec (finalizeInstanceRestoreSync env) n d0'"
  have "committing {PendingBoot, Finalizing} env rq ?j (dk_fs d0) d0'"
    using assms(4) pendingBoot_ready [OF assms(1,2)] by (simp add: committing_def pendingBoot_def Let_def)
  then have "committing {PendingBoot, Finalizing} env rq ?j (dk_fs d0) ?d"
    by (rule outlasts_runTo [OF finalize_resumes])
  then consider (pending) "pendingBoot env rq d0 base ?d" | (settling) "committing {Finalizing} env rq ?j (dk_fs d0) ?d"
    by (auto simp: committing_def pendingBoot_def Let_def)
  then show ?thesis
  proof cases
    case pending
    then show ?thesis using pendingBoot_phase [OF pending] by (simp add: assms(5) recover_idle)
  next
    case settling
    from settle.attempt_reaches [OF settling assms(3)] show ?thesis by (simp add: assms(5))
  qed
qed

section \<open>Witnesses\<close>

definition sample_env :: restore_env where
  "sample_env = \<lparr>ev_cwd = ''/'', ev_journalPath = ''/c/restore-journal.json'', ev_symlink = (\<lambda>_. False),
                 ev_busy = False, ev_size = (\<lambda>_. 100)\<rparr>"

definition sample_rq :: "bool \<Rightarrow> restore_request" where
  "sample_rq legacy =
     \<lparr>rq_destination = \<lparr>ds_databasePath = ''/d/db'', ds_dataDir = ''/d'', ds_configPath = Some ''/c/env''\<rparr>,
      rq_transactionId = ''01234567-89ab-cdef-0123-456789abcdef'', rq_legacy = legacy,
      rq_source = (\<lambda>c. if c = ''database'' then Some 7 else if c = ''config'' then Some 8 else None),
      rq_stagedDir = ''/s'', rq_stagedDatabaseOk = True, rq_configRegular = True\<rparr>"

definition sample_disk :: disk where
  "sample_disk = \<lparr>dk_fs = (\<lambda>p. if p = ''/d/db'' then Some 1 else if p = ''/c/env'' then Some 2 else None),
                  dk_journal = None, dk_writing = None, dk_result = None\<rparr>"

definition sample_base :: "bool \<Rightarrow> replacement list" where
  "sample_base legacy = the (requestBase sample_env (sample_rq legacy))"

lemma sample_ok:
  "requestBase sample_env (sample_rq True) = Some (sample_base True)"
  "requestBase sample_env (sample_rq False) = Some (sample_base False)"
  "namesApart (sample_base True)" "namesApart (sample_base False)"
  by code_simp+

lemma sample_components:
  "map rp_component (sample_base True) = [''database'']" "map rp_target (sample_base True) = [''/d/db'']"
  "map rp_component (take 2 (sample_base False)) = [''database'', ''config'']"
  "map rp_target (take 2 (sample_base False)) = [''/d/db'', ''/c/env'']"
  by code_simp+

definition namesFree :: "bool \<Rightarrow> bool" where
  "namesFree legacy =
     list_all (\<lambda>it. dk_fs sample_disk (rp_previous it) = None \<and>
       (rq_source (sample_rq legacy) (rp_component it) \<noteq> None \<longrightarrow>
        rq_source (sample_rq legacy) (rp_component it) \<noteq> dk_fs sample_disk (rp_target it))) (sample_base legacy)"

lemma sample_id_ok: "transactionIdOk (rq_transactionId (sample_rq legacy))"
  by (cases legacy) (simp_all add: sample_rq_def transactionIdOk_def hexChar_def is_digit_def)

lemma sample_free: "namesFree True" "namesFree False"
  by code_simp+

lemma sample_requestOk: "requestOk sample_env (sample_rq legacy) sample_disk (sample_base legacy)"
proof -
  have "hostOk sample_env" "dk_journal sample_disk = None" "\<not> ev_busy sample_env"
    by (simp_all add: hostOk_def sample_env_def sample_disk_def)
  with sample_ok sample_free show ?thesis
    unfolding requestOk_def namesFree_def by (cases legacy) simp_all
qed

theorem restore_crash_safe_witness:
  "let e = complete exec (recoverInstanceRestoreSync sample_env)
             (recovering sample_env [2, 5] (runTo exec (restoreInstanceBackup sample_env (sample_rq True)) 9 sample_disk)) in
   dk_journal e = None \<and> (originalsBack sample_disk (sample_base True) e \<or> dk_fs e = dk_fs sample_disk) \<or>
   pendingBoot sample_env (sample_rq True) sample_disk (sample_base True) e"
proof -
  have "\<not> ev_busy sample_env" by (simp add: sample_env_def)
  from restore_crash_safe [OF sample_requestOk this refl] show ?thesis unfolding Let_def .
qed

theorem recovery_returns_witness:
  "returns exec (recoverInstanceRestoreSync sample_env)
     (recovering sample_env [3] (runTo exec (restoreInstanceBackup sample_env (sample_rq True)) 9 sample_disk))"
  by (rule recovery_returns [OF sample_requestOk sample_id_ok]) (simp add: sample_env_def)

theorem config_always_present_witness:
  "dk_fs (recovering sample_env [1] (runTo exec (restoreInstanceBackup sample_env (sample_rq False)) 20 sample_disk))
     ''/c/env'' \<noteq> None"
proof -
  let ?it = "sample_base False ! 1"
  have len: "1 < length (take 2 (sample_base False))"
    using arg_cong [OF sample_components(3), of length] by simp
  then have it: "?it \<in> set (sample_base False)" "take 2 (sample_base False) ! 1 = ?it" by simp_all
  have "rp_component ?it = ''config''" "rp_target ?it = ''/c/env''"
    using nth_map [OF len, of rp_component] nth_map [OF len, of rp_target] sample_components(3,4) it(2) by simp_all
  with config_always_present [OF sample_requestOk it(1), of "[1]" 20] show ?thesis
    by (simp add: sample_disk_def)
qed

definition sample_pending :: disk where
  "sample_pending = complete exec (restoreInstanceBackup sample_env (sample_rq True)) sample_disk"

lemma sample_pending_ok: "pendingBoot sample_env (sample_rq True) sample_disk (sample_base True) sample_pending"
  by code_simp

theorem failed_boot_rolls_back_witness:
  "originalsBack sample_disk (sample_base True)
     (complete exec (rollbackInstanceRestoreSync sample_env)
        (fold (runTo exec (rollbackInstanceRestoreSync sample_env)) [1, 6] sample_pending))"
  by (rule failed_boot_rolls_back [OF sample_requestOk sample_id_ok _ sample_pending_ok])
    (simp add: sample_env_def)

theorem commit_crash_safe_witness:
  "\<exists>d. pendingBoot sample_env (sample_rq True) sample_disk (sample_base True) d \<or>
       committed (sample_rq True) (requestJournal sample_env (sample_rq True) PendingBoot
         (requestItems (sample_rq True) sample_disk (sample_base True))) d"
proof -
  have "\<not> ev_busy sample_env" by (simp add: sample_env_def)
  from commit_crash_safe [OF sample_requestOk sample_id_ok this sample_pending_ok refl, of "[]" 4]
  show ?thesis by blast
qed

end
