(* ===== verification/RestoreProtocol.thy ===== *)
theory RestoreProtocol
  imports RestoreCrash
begin

text \<open>
  The restore as an operator and a boot sequence see it, as an abstract machine of five states, and
  the proof that the programs of \<open>journal.ts\<close> and \<open>transaction.ts\<close> refine it: whatever order the
  restore, boot recovery, an explicit rollback and a commit are started in, and wherever each of them
  is cut off, the store is in the state the abstract machine allows.
\<close>

section \<open>The abstract machine\<close>

datatype restore_view =
    VOld          \<comment> \<open>the originals, no transaction\<close>
  | VUndoing      \<comment> \<open>a transaction that can only go back\<close>
  | VPending      \<comment> \<open>the complete replacement, waiting for its first boot\<close>
  | VCommitting   \<comment> \<open>a transaction that can only go forward\<close>
  | VNew          \<comment> \<open>the replacement, no transaction\<close>

datatype restore_op = RecoverOp nat | RollbackOp nat | FinalizeOp nat

fun viewStep :: "restore_op \<Rightarrow> restore_view \<Rightarrow> restore_view set" where
  "viewStep (RecoverOp n) VUndoing = {VUndoing, VOld}"
| "viewStep (RecoverOp n) VCommitting = {VCommitting, VNew}"
| "viewStep (RollbackOp n) VUndoing = {VUndoing, VOld}"
| "viewStep (RollbackOp n) VPending = {VPending, VUndoing, VOld}"
| "viewStep (FinalizeOp n) VPending = {VPending, VCommitting, VNew}"
| "viewStep (FinalizeOp n) VCommitting = {VCommitting, VNew}"
| "viewStep _ v = {v}"

fun views :: "restore_op list \<Rightarrow> restore_view set \<Rightarrow> restore_view set" where
  "views [] V = V"
| "views (q # qs) V = views qs (\<Union>v \<in> V. viewStep q v)"

section \<open>The concrete operations\<close>

text \<open>One operation, cut off after \<open>n\<close> acts; a cut-off beyond its last act is a full run.\<close>

fun diskStep :: "restore_env \<Rightarrow> restore_op \<Rightarrow> disk \<Rightarrow> disk" where
  "diskStep env (RecoverOp n) d = runTo exec (recoverInstanceRestoreSync env) n d"
| "diskStep env (RollbackOp n) d = runTo exec (rollbackInstanceRestoreSync env) n d"
| "diskStep env (FinalizeOp n) d = runTo exec (finalizeInstanceRestoreSync env) n d"

definition requestJournals :: "restore_env \<Rightarrow> restore_request \<Rightarrow> disk \<Rightarrow> replacement list \<Rightarrow> journal set" where
  "requestJournals env rq d0 base =
     {requestJournal env rq Preparing (withOriginals d0 base), requestJournal env rq Preparing (requestItems rq d0 base)}"

fun viewOf :: "restore_env \<Rightarrow> restore_request \<Rightarrow> disk \<Rightarrow> replacement list \<Rightarrow> restore_view \<Rightarrow> disk \<Rightarrow> bool" where
  "viewOf env rq d0 base VOld d \<longleftrightarrow>
     dk_journal d = None \<and>
     list_all (\<lambda>it. dk_fs d (rp_target it) = dk_fs d0 (rp_target it) \<and> dk_fs d (rp_previous it) = None) base"
| "viewOf env rq d0 base VUndoing d \<longleftrightarrow>
     (\<exists>j \<in> requestJournals env rq d0 base. journalReady env j \<and>
        (\<exists>ph \<in> {Preparing, Applying, RollingBack}. revertible j (dk_fs d0) ph d))"
| "viewOf env rq d0 base VPending d \<longleftrightarrow> pendingBoot env rq d0 base d"
| "viewOf env rq d0 base VCommitting d \<longleftrightarrow>
     dk_journal d = Some (requestJournal env rq Finalizing (requestItems rq d0 base)) \<and>
     installed rq (requestItems rq d0 base) d"
| "viewOf env rq d0 base VNew d \<longleftrightarrow>
     committed rq (requestJournal env rq PendingBoot (requestItems rq d0 base)) d"

section \<open>Simulation\<close>

lemma undoing_views:
  assumes "undoing env j (dk_fs d0) d" "j \<in> requestJournals env rq d0 base"
  shows "viewOf env rq d0 base VUndoing d \<or> viewOf env rq d0 base VOld d"
proof (cases "reverted j (dk_fs d0) d")
  case True
  then obtain items where "reverted (requestJournal env rq Preparing items) (dk_fs d0) d"
      "items = withOriginals d0 base \<or> items = requestItems rq d0 base"
    using assms(2) by (auto simp: requestJournals_def)
  from reverted_originals [OF this] show ?thesis by (auto simp: originalsBack_def list_all_iff)
next
  case False
  with assms show ?thesis by (auto simp: undoing_def reverting_def)
qed

lemma undoing_of_view:
  assumes "viewOf env rq d0 base VUndoing d"
  obtains j where "j \<in> requestJournals env rq d0 base" "undoing env j (dk_fs d0) d"
  using assms by (auto simp: undoing_def reverting_def)

lemma idle_ops:
  assumes "dk_journal d = None"
  shows "diskStep env q d = d"
  using assms
  by (cases q) (auto simp: recoverInstanceRestoreSync_def rollbackInstanceRestoreSync_def
      finalizeInstanceRestoreSync_def readJournal_def)

text \<open>From the complete replacement the rollback either has not begun or can only go back.\<close>

lemma rollback_from_pending:
  assumes "requestOk env rq d0 base" "transactionIdOk (rq_transactionId rq)" "pendingBoot env rq d0 base d"
  shows "outlasts exec (\<lambda>d. pendingBoot env rq d0 base d \<or>
             undoing env (requestJournal env rq Preparing (requestItems rq d0 base)) (dk_fs d0) d)
           (\<lambda>_. True) (ev_busy env) (rollbackInstanceRestoreSync env) d"
proof -
  let ?j = "requestJournal env rq Preparing (requestItems rq d0 base)"
  let ?I = "\<lambda>d. pendingBoot env rq d0 base d \<or> undoing env ?j (dk_fs d0) d"
  have ready: "journalReady env ?j" by (rule pendingBoot_ready [OF assms(1,2)])
  have rev: "revertible ?j (dk_fs d0) PendingBoot d" using assms(3) by (simp add: pendingBoot_def Let_def revertible_def)
  have pend: "pendingBoot env rq d0 base (d\<lparr>dk_writing := w\<rparr>)" for w
    using assms(3) by (simp add: pendingBoot_def Let_def)
  let ?d = "d\<lparr>dk_journal := Some (?j\<lparr>jn_phase := RollingBack\<rparr>), dk_writing := None\<rparr>"
  have "outlasts exec (reverting {Preparing, Applying, RollingBack} env ?j (dk_fs d0)) (reverted ?j (dk_fs d0)) (ev_busy env)
          (rollbackItems env False (List.rev (jn_replacements ?j)) (closeJournal env (?j\<lparr>jn_phase := RollingBack\<rparr>) RolledBack)) ?d"
    by (rule rollbackItems_outlasts [OF ready, where fin = "[]" and ph = PendingBoot])
      (use rev ready_paths(5) [OF ready] closeJournal_reverts [OF ready]
        in \<open>auto simp: revertible_def list_all_iff\<close>)
  then have "outlasts exec ?I (\<lambda>_. True) (ev_busy env)
      (rollbackItems env False (List.rev (jn_replacements ?j)) (closeJournal env (?j\<lparr>jn_phase := RollingBack\<rparr>) RolledBack)) ?d"
    by (rule outlasts_mono) (auto simp: undoing_def)
  moreover have "readJournal env d = Some (Some (?j\<lparr>jn_phase := PendingBoot\<rparr>))"
    by (rule readJournal_ready(1) [OF ready]) (use assms(3) in \<open>simp add: pendingBoot_def Let_def\<close>)
  ultimately show ?thesis
    using pend pend [of "dk_writing d"] ready_paths(1,2) [OF ready]
    by (simp add: rollbackInstanceRestoreSync_def writeRestoreJournalSync_def Let_def)
qed

text \<open>What each program does from each state.\<close>

lemma undoing_sim:
  assumes "viewOf env rq d0 base VUndoing d"
  shows "\<exists>v \<in> viewStep q VUndoing. viewOf env rq d0 base v (diskStep env q d)"
proof -
  obtain j where j: "j \<in> requestJournals env rq d0 base" "undoing env j (dk_fs d0) d"
    using undoing_of_view [OF assms] .
  show ?thesis
  proof (cases q)
    case (RecoverOp n)
    have "undoing env j (dk_fs d0) (diskStep env q d)"
      using outlasts_runTo [OF undo.resumes [OF j(2)]] RecoverOp by simp
    from undoing_views [OF this j(1)] RecoverOp show ?thesis by (simp del: viewOf.simps diskStep.simps)
  next
    case (RollbackOp n)
    have "undoing env j (dk_fs d0) (diskStep env q d)"
      using outlasts_runTo [OF rollback.resumes [OF j(2) [unfolded undoing_def]]] RollbackOp
      by (simp add: undoing_def)
    from undoing_views [OF this j(1)] RollbackOp show ?thesis by (simp del: viewOf.simps diskStep.simps)
  next
    case (FinalizeOp n)
    obtain ph j' where "ph \<in> {Preparing, Applying, RollingBack}" "dk_journal d = Some (j'\<lparr>jn_phase := ph\<rparr>)"
      using assms by (auto simp: revertible_def)
    then have "diskStep env q d = d"
      using FinalizeOp by (auto simp: finalizeInstanceRestoreSync_def readJournal_def)
    with assms FinalizeOp show ?thesis by (simp del: viewOf.simps diskStep.simps)
  qed
qed

lemma pendingBoot_committing:
  assumes "requestOk env rq d0 base" "transactionIdOk (rq_transactionId rq)" "pendingBoot env rq d0 base d"
  shows "committing {PendingBoot, Finalizing} env rq (requestJournal env rq PendingBoot (requestItems rq d0 base)) (dk_fs d0) d"
  using assms(3) pendingBoot_ready [OF assms(1,2)] by (simp add: committing_def pendingBoot_def Let_def)

lemma committing_views:
  assumes "committing S env rq (requestJournal env rq PendingBoot (requestItems rq d0 base)) (dk_fs d0) d"
  shows "viewOf env rq d0 base VPending d \<and> PendingBoot \<in> S \<or> viewOf env rq d0 base VCommitting d \<or>
         viewOf env rq d0 base VNew d"
  using assms by (auto simp: committing_def pendingBoot_def Let_def)

lemma pending_sim:
  assumes ok: "requestOk env rq d0 base" "transactionIdOk (rq_transactionId rq)"
    and pend: "viewOf env rq d0 base VPending d"
  shows "\<exists>v \<in> viewStep q VPending. viewOf env rq d0 base v (diskStep env q d)"
proof -
  have p: "pendingBoot env rq d0 base d" using pend by simp
  show ?thesis
  proof (cases q)
    case (RecoverOp n)
    have "diskStep env q d = d"
      using RecoverOp recover_idle(1) [of d env "[n]"] pendingBoot_phase [OF p] by simp
    with pend RecoverOp show ?thesis by (simp del: viewOf.simps diskStep.simps)
  next
    case (RollbackOp n)
    have "pendingBoot env rq d0 base (diskStep env q d) \<or>
        undoing env (requestJournal env rq Preparing (requestItems rq d0 base)) (dk_fs d0) (diskStep env q d)"
      using outlasts_runTo [OF rollback_from_pending [OF ok p]] RollbackOp by simp
    then have "viewOf env rq d0 base VPending (diskStep env q d) \<or>
        viewOf env rq d0 base VUndoing (diskStep env q d) \<or> viewOf env rq d0 base VOld (diskStep env q d)"
      using undoing_views [of env _ d0 "diskStep env q d" rq base] by (auto simp del: diskStep.simps viewOf.simps(1,2) simp: requestJournals_def)
    with RollbackOp show ?thesis by (simp del: viewOf.simps diskStep.simps)
  next
    case (FinalizeOp n)
    have "committing {PendingBoot, Finalizing} env rq (requestJournal env rq PendingBoot (requestItems rq d0 base))
        (dk_fs d0) (diskStep env q d)"
      using outlasts_runTo [OF commit.resumes [OF pendingBoot_committing [OF ok p]]] FinalizeOp by simp
    from committing_views [OF this] FinalizeOp show ?thesis by (auto simp del: viewOf.simps diskStep.simps)
  qed
qed

lemma committing_sim:
  assumes ok: "requestOk env rq d0 base" "transactionIdOk (rq_transactionId rq)"
    and comm: "viewOf env rq d0 base VCommitting d"
  shows "\<exists>v \<in> viewStep q VCommitting. viewOf env rq d0 base v (diskStep env q d)"
proof -
  let ?C = "committing {Finalizing} env rq (requestJournal env rq PendingBoot (requestItems rq d0 base)) (dk_fs d0)"
  have c: "?C d" using comm pendingBoot_ready [OF ok] by (simp add: committing_def)
  show ?thesis
  proof (cases q)
    case (RecoverOp n)
    have "?C (diskStep env q d)" using outlasts_runTo [OF settle.resumes [OF c]] RecoverOp by simp
    from committing_views [OF this] RecoverOp show ?thesis by (auto simp del: viewOf.simps diskStep.simps)
  next
    case (FinalizeOp n)
    have "?C (diskStep env q d)" using outlasts_runTo [OF commit.resumes [OF c]] FinalizeOp by simp
    from committing_views [OF this] FinalizeOp show ?thesis by (auto simp del: viewOf.simps diskStep.simps)
  next
    case (RollbackOp n)
    have "diskStep env q d = d"
      using RollbackOp comm by (auto simp: rollbackInstanceRestoreSync_def readJournal_def)
    with comm RollbackOp show ?thesis by (simp del: viewOf.simps diskStep.simps)
  qed
qed

lemma step_sim:
  assumes ok: "requestOk env rq d0 base" "transactionIdOk (rq_transactionId rq)" and "viewOf env rq d0 base v d"
  shows "\<exists>v' \<in> viewStep q v. viewOf env rq d0 base v' (diskStep env q d)"
proof (cases v)
  case VOld
  with assms(3) have "diskStep env q d = d" by (intro idle_ops) simp
  with assms(3) VOld show ?thesis by (cases q) (simp_all del: viewOf.simps diskStep.simps)
next
  case VNew
  with assms(3) have "diskStep env q d = d" by (intro idle_ops) (simp add: committed_def)
  with assms(3) VNew show ?thesis by (cases q) (simp_all del: viewOf.simps diskStep.simps)
next
  case VUndoing
  with assms(3) undoing_sim show ?thesis by blast
next
  case VPending
  with assms pending_sim show ?thesis by blast
next
  case VCommitting
  with assms committing_sim show ?thesis by blast
qed

lemma crash_views:
  assumes "requestOk env rq d0 base"
  shows "\<exists>v \<in> {VOld, VUndoing, VPending}. viewOf env rq d0 base v (runTo exec (restoreInstanceBackup env rq) n d0)"
proof -
  let ?d = "runTo exec (restoreInstanceBackup env rq) n d0"
  have "restoreCrash env rq d0 base ?d" by (rule outlasts_runTo [OF restore_outlasts [OF assms]])
  then consider (idle) "dk_journal ?d = None" "dk_fs ?d = dk_fs d0" | (undo) "undoable env rq d0 base ?d"
    | (pending) "pendingBoot env rq d0 base ?d" by (auto simp: restoreCrash_def)
  then show ?thesis
  proof cases
    case idle
    with assms have "viewOf env rq d0 base VOld ?d" by (auto simp: requestOk_def list_all_iff)
    then show ?thesis by blast
  next
    case undo
    then obtain j where "j \<in> requestJournals env rq d0 base" "undoing env j (dk_fs d0) ?d"
      by (auto simp: undoable_def requestJournals_def)
    with undoing_views show ?thesis by blast
  next
    case pending
    then have "viewOf env rq d0 base VPending ?d" by simp
    then show ?thesis by blast
  qed
qed

text \<open>
  C30: The restore, boot recovery, rollback and commit refine the abstract machine.  Crash the
  restore anywhere, then start recovery, rollback and commit in any order, each cut off anywhere: the
  store is always in one of the states the machine reaches by the same operations.\<close>

theorem restore_refines_machine:
  assumes "requestOk env rq d0 base" and "transactionIdOk (rq_transactionId rq)"
  shows "\<exists>v \<in> views qs {VOld, VUndoing, VPending}.
           viewOf env rq d0 base v (fold (diskStep env) qs (runTo exec (restoreInstanceBackup env rq) n d0))"
proof -
  have "\<exists>v \<in> views qs V. viewOf env rq d0 base v (fold (diskStep env) qs d)"
    if "\<exists>v \<in> V. viewOf env rq d0 base v d" for V d
    using that
  proof (induction qs arbitrary: V d)
    case (Cons q qs)
    then obtain v v' where "v \<in> V" "v' \<in> viewStep q v" "viewOf env rq d0 base v' (diskStep env q d)"
      using step_sim [OF assms] by blast
    then have "\<exists>v' \<in> (\<Union>v \<in> V. viewStep q v). viewOf env rq d0 base v' (diskStep env q d)" by blast
    from Cons.IH [OF this] show ?case by (simp del: viewOf.simps diskStep.simps)
  qed (simp del: viewOf.simps)
  from this [OF crash_views [OF assms(1)]] show ?thesis .
qed

theorem restore_refines_machine_witness:
  "\<exists>v \<in> views [RollbackOp 3, FinalizeOp 9, RecoverOp 40] {VOld, VUndoing, VPending}.
     viewOf sample_env (sample_rq True) sample_disk (sample_base True) v
       (fold (diskStep sample_env) [RollbackOp 3, FinalizeOp 9, RecoverOp 40]
         (runTo exec (restoreInstanceBackup sample_env (sample_rq True)) 9 sample_disk))"
  by (rule restore_refines_machine [OF sample_requestOk sample_id_ok])

end
