(* ===== verification/Utf8.thy ===== *)
theory Utf8
  imports Text
begin

text \<open>
  The runtime's text codec: \<open>TextEncoder.encode\<close>, and \<open>TextDecoder.decode\<close> as the Encoding standard
  defines it (not fatal: ill-formed input becomes U+FFFD, and a leading byte order mark is dropped).
  A JavaScript string is the list of its code points, an unpaired surrogate being a code point of its
  own; the encoder writes U+FFFD for it.
\<close>

type_synonym byte = "8 word"
type_synonym jtext = "nat list"

definition ascii :: "string \<Rightarrow> jtext" where
  "ascii s = map of_char s"

section \<open>Encoding\<close>

definition surrogate :: "nat \<Rightarrow> bool" where
  "surrogate c \<longleftrightarrow> 0xD800 \<le> c \<and> c \<le> 0xDFFF"

definition scalar :: "nat \<Rightarrow> bool" where
  "scalar c \<longleftrightarrow> c < 0x110000 \<and> \<not> surrogate c"

definition utf8Char :: "nat \<Rightarrow> nat list" where
  "utf8Char c0 =
     (let c = if surrogate c0 then 0xFFFD else c0 in
      if c < 0x80 then [c]
      else if c < 0x800 then [0xC0 + c div 64, 0x80 + c mod 64]
      else if c < 0x10000 then [0xE0 + c div 4096, 0x80 + c div 64 mod 64, 0x80 + c mod 64]
      else [0xF0 + c div 262144, 0x80 + c div 4096 mod 64, 0x80 + c div 64 mod 64, 0x80 + c mod 64])"

definition utf8 :: "jtext \<Rightarrow> nat list" where
  "utf8 s = concat (map utf8Char s)"

definition textEncode :: "jtext \<Rightarrow> byte list" where
  "textEncode s = map word_of_nat (utf8 s)"

section \<open>Decoding\<close>

text \<open>
  The decoder's state: how many continuation bytes are still needed, the code point so far, and the
  range the next one must lie in.  A byte out of range ends the sequence and is read again.
\<close>

fun utf8Run :: "nat \<Rightarrow> nat \<Rightarrow> nat \<Rightarrow> nat \<Rightarrow> nat list \<Rightarrow> jtext" where
  "utf8Run need cp lo hi [] = (if need = 0 then [] else [0xFFFD])"
| "utf8Run need cp lo hi (b # bs) =
     (if need = 0 then
        if b < 0x80 then b # utf8Run 0 0 0x80 0xBF bs
        else if 0xC2 \<le> b \<and> b \<le> 0xDF then utf8Run 1 (b - 0xC0) 0x80 0xBF bs
        else if 0xE0 \<le> b \<and> b \<le> 0xEF then
          utf8Run 2 (b - 0xE0) (if b = 0xE0 then 0xA0 else 0x80) (if b = 0xED then 0x9F else 0xBF) bs
        else if 0xF0 \<le> b \<and> b \<le> 0xF4 then
          utf8Run 3 (b - 0xF0) (if b = 0xF0 then 0x90 else 0x80) (if b = 0xF4 then 0x8F else 0xBF) bs
        else 0xFFFD # utf8Run 0 0 0x80 0xBF bs
      else if lo \<le> b \<and> b \<le> hi then
        if need = 1 then (cp * 64 + (b - 0x80)) # utf8Run 0 0 0x80 0xBF bs
        else utf8Run (need - 1) (cp * 64 + (b - 0x80)) 0x80 0xBF bs
      else 0xFFFD # utf8Run 0 0 0x80 0xBF (b # bs))"

definition utf8Decode :: "nat list \<Rightarrow> jtext" where
  "utf8Decode bs = utf8Run 0 0 0x80 0xBF bs"

fun dropBom :: "jtext \<Rightarrow> jtext" where
  "dropBom [] = []"
| "dropBom (c # cs) = (if c = 0xFEFF then cs else c # cs)"

definition textDecode :: "byte list \<Rightarrow> jtext" where
  "textDecode bs = dropBom (utf8Decode (map unat bs))"

section \<open>Round trip\<close>

lemma utf8_simps [simp]:
  "utf8 [] = []" "utf8 (c # cs) = utf8Char c @ utf8 cs" "utf8 (s @ t) = utf8 s @ utf8 t"
  by (simp_all add: utf8_def)

lemma textEncode_simps [simp]:
  "textEncode [] = []" "textEncode (s @ t) = textEncode s @ textEncode t"
  by (simp_all add: textEncode_def)

lemma ascii_simps [simp]:
  "ascii [] = []" "ascii (c # cs) = of_char c # ascii cs" "ascii (s @ t) = ascii s @ ascii t"
  "length (ascii s) = length s"
  by (simp_all add: ascii_def)

lemma utf8Char_bytes: "c < 0x110000 \<Longrightarrow> b \<in> set (utf8Char c) \<Longrightarrow> b < 256"
  by (auto simp: utf8Char_def Let_def split: if_split_asm)

lemma utf8_bytes: "\<forall>c \<in> set s. c < 0x110000 \<Longrightarrow> b \<in> set (utf8 s) \<Longrightarrow> b < 256"
  by (auto simp: utf8_def dest: utf8Char_bytes)

lemma utf8Char_ascii: "c < 0x80 \<Longrightarrow> utf8Char c = [c]"
  by (simp add: utf8Char_def surrogate_def)

lemma utf8_ascii: "\<forall>c \<in> set s. c < 0x80 \<Longrightarrow> utf8 s = s"
  by (induction s) (simp_all add: utf8Char_ascii)

lemma run_two: "2 \<le> x \<Longrightarrow> x < 32 \<Longrightarrow> z < 64 \<Longrightarrow>
    utf8Run 0 i l h ((0xC0 + x) # (0x80 + z) # bs) = (x * 64 + z) # utf8Run 0 0 0x80 0xBF bs"
  by simp

lemma run_three:
  "x < 16 \<Longrightarrow> y < 64 \<Longrightarrow> z < 64 \<Longrightarrow> (x = 0 \<Longrightarrow> 0x20 \<le> y) \<Longrightarrow> (x = 0xD \<Longrightarrow> y \<le> 0x1F) \<Longrightarrow>
    utf8Run 0 i l h ((0xE0 + x) # (0x80 + y) # (0x80 + z) # bs) = ((x * 64 + y) * 64 + z) # utf8Run 0 0 0x80 0xBF bs"
  by simp

lemma run_four:
  "x \<le> 4 \<Longrightarrow> y < 64 \<Longrightarrow> z < 64 \<Longrightarrow> w < 64 \<Longrightarrow> (x = 0 \<Longrightarrow> 0x10 \<le> y) \<Longrightarrow> (x = 4 \<Longrightarrow> y \<le> 0xF) \<Longrightarrow>
    utf8Run 0 i l h ((0xF0 + x) # (0x80 + y) # (0x80 + z) # (0x80 + w) # bs) =
    (((x * 64 + y) * 64 + z) * 64 + w) # utf8Run 0 0 0x80 0xBF bs"
  by simp

lemma utf8Char_decode:
  assumes "scalar c"
  shows "utf8Run 0 i l h (utf8Char c @ bs) = c # utf8Run 0 0 0x80 0xBF bs"
proof -
  have c: "c < 0x110000" "\<not> surrogate c" using assms by (simp_all add: scalar_def)
  consider "c < 0x80" | "0x80 \<le> c" "c < 0x800" | "0x800 \<le> c" "c < 0x10000" | "0x10000 \<le> c" by linarith
  then show ?thesis
  proof cases
    case 1
    with c show ?thesis by (simp add: utf8Char_def)
  next
    case 2
    have "utf8Char c = [0xC0 + c div 64, 0x80 + c mod 64]" using 2 c by (simp add: utf8Char_def)
    moreover have "2 \<le> c div 64" "c div 64 < 32" using 2 by linarith+
    ultimately show ?thesis using run_two [of "c div 64" "c mod 64" i l h bs] by simp
  next
    case 3
    define k where "k = c div 64"
    have x: "c div 4096 = k div 64" by (simp add: k_def flip: div_mult2_eq)
    have k: "0x20 \<le> k" "k < 0x400" using 3 unfolding k_def by linarith+
    have ck: "k * 64 + c mod 64 = c" by (simp add: k_def)
    have "utf8Char c = [0xE0 + k div 64, 0x80 + k mod 64, 0x80 + c mod 64]"
      using 3 c unfolding k_def by (simp add: utf8Char_def flip: div_mult2_eq)
    moreover have "k div 64 < 16" using k by linarith
    moreover have "0x20 \<le> k mod 64" if "k div 64 = 0" using k that by simp
    moreover have "k mod 64 \<le> 0x1F" if "k div 64 = 0xD"
    proof (rule ccontr)
      assume "\<not> k mod 64 \<le> 0x1F"
      with that have "0x360 \<le> k" "k \<le> 0x37F" using div_mult_mod_eq [of k 64] mod_less_divisor [of 64 k] by linarith+
      with c(2) ck mod_less_divisor [of 64 c] show False unfolding surrogate_def by linarith
    qed
    ultimately show ?thesis using run_three [of "k div 64" "k mod 64" "c mod 64" i l h bs] ck by (simp del: utf8Run.simps)
  next
    case 4
    define k where "k = c div 64"
    define m where "m = k div 64"
    have k: "0x400 \<le> k" "k < 0x4400" using 4 c unfolding k_def by linarith+
    have m: "0x10 \<le> m" "m < 0x110" using k unfolding m_def by linarith+
    have ck: "k * 64 + c mod 64 = c" and mk: "m * 64 + k mod 64 = k" by (simp_all add: k_def m_def)
    have "utf8Char c = [0xF0 + m div 64, 0x80 + m mod 64, 0x80 + k mod 64, 0x80 + c mod 64]"
      using 4 c unfolding k_def m_def by (simp add: utf8Char_def flip: div_mult2_eq)
    moreover have "m div 64 \<le> 4" using m by linarith
    moreover have "0x10 \<le> m mod 64" if "m div 64 = 0" using m that by simp
    moreover have "m mod 64 \<le> 0xF" if "m div 64 = 4" using m that div_mult_mod_eq [of m 64] by linarith
    ultimately show ?thesis using run_four [of "m div 64" "m mod 64" "k mod 64" "c mod 64" i l h bs] ck mk
      by (simp del: utf8Run.simps)
  qed
qed

lemma utf8_decode: "\<forall>c \<in> set s. scalar c \<Longrightarrow> utf8Decode (utf8 s @ bs) = s @ utf8Decode bs"
  unfolding utf8Decode_def by (induction s) (simp_all add: utf8Char_decode)

lemma unat_bytes: "\<forall>b \<in> set ns. b < 256 \<Longrightarrow> map (unat :: byte \<Rightarrow> nat) (map word_of_nat ns) = ns"
  by (induction ns) (simp_all add: unat_of_nat)

lemma text_roundtrip:
  assumes "\<forall>c \<in> set s. scalar c"
  shows "textDecode (textEncode s) = dropBom s"
proof -
  have "\<forall>b \<in> set (utf8 s). b < 256" using assms utf8_bytes by (auto simp: scalar_def)
  then show ?thesis
    using utf8_decode [OF assms, of "[]"] unat_bytes
    by (simp add: textDecode_def textEncode_def utf8Decode_def)
qed

lemma dropBom_other: "(\<And>cs. s \<noteq> 0xFEFF # cs) \<Longrightarrow> dropBom s = s"
  by (cases s) auto

end
