(* ===== verification/TarBlocks.thy ===== *)
theory TarBlocks
  imports Utf8 HostPath "HOL-Library.Sublist"
begin

text \<open>
  The byte-level tar format of the transfer between machines: \<open>tar-blocks.ts\<close> of the pane runtime.
  Header blocks are built and parsed, long names travel in pax records, and one guard decides which
  paths an archive may name.  Offsets, widths and the order of the checks are the code's.
\<close>

datatype tar_error =
    UnsafePath | TraversalPath | EmptyPath | BadOctal | BadBlock | FieldOverflow | OctalOverflow
  | NameOverflow | PaxDiverged | TooManyBytes | TooManyEntries | FileTooBig | FileGrew | SizeDrifted
  | PaxTooBig | MetadataTooBig | DirWithBody | BadEntryType | Truncated
  | SymlinkedDestination | NotADirectory | Nonregular | HardLinked | OsError | BadLimit | BadSize

definition BLOCK :: nat where "BLOCK = 512"
definition TYPE_FILE :: jtext where "TYPE_FILE = ascii ''0''"
definition TYPE_DIR :: jtext where "TYPE_DIR = ascii ''5''"
definition TYPE_PAX :: jtext where "TYPE_PAX = ascii ''x''"

abbreviation SLASH :: nat where "SLASH \<equiv> 47"
abbreviation SPACE :: nat where "SPACE \<equiv> 32"
abbreviation NEWLINE :: nat where "NEWLINE \<equiv> 10"

section \<open>The path guard\<close>

fun keepSegments :: "jtext list \<Rightarrow> tar_error + jtext list" where
  "keepSegments [] = Inr []"
| "keepSegments (seg # segs) =
     (if seg = [] \<or> seg = ascii ''.'' then keepSegments segs
      else if seg = ascii ''..'' then Inl TraversalPath
      else ebind (keepSegments segs) (\<lambda>parts. Inr (seg # parts)))"

definition safeTransferPath :: "jtext \<Rightarrow> tar_error + jtext" where
  "safeTransferPath p =
     (if p = [] \<or> hd p = SLASH \<or> 0 \<in> set p \<or> NEWLINE \<in> set p then Inl UnsafePath
      else ebind (keepSegments (splitOn SLASH p))
             (\<lambda>parts. if parts = [] then Inl EmptyPath else Inr (joinWith SLASH parts)))"

section \<open>Fields\<close>

definition slice :: "nat \<Rightarrow> nat \<Rightarrow> 'a list \<Rightarrow> 'a list" where
  "slice a b h = take (b - a) (drop a h)"

definition setAt :: "nat \<Rightarrow> 'a list \<Rightarrow> 'a list \<Rightarrow> 'a list" where
  "setAt at bs h = take at h @ bs @ drop (at + length bs) h"

definition trimZeros :: "byte list \<Rightarrow> byte list" where
  "trimZeros b = List.rev (dropWhile (\<lambda>x. x = 0) (List.rev b))"

text \<open>\<open>String.trim\<close> and \<open>Number.parseInt(s, 8)\<close>; \<open>None\<close> is NaN.\<close>

definition jsSpace :: "nat \<Rightarrow> bool" where
  "jsSpace c \<longleftrightarrow> (9 \<le> c \<and> c \<le> 13) \<or> c = 32 \<or> c = 0xA0 \<or> c = 0x1680 \<or> (0x2000 \<le> c \<and> c \<le> 0x200A) \<or>
     c = 0x2028 \<or> c = 0x2029 \<or> c = 0x202F \<or> c = 0x205F \<or> c = 0x3000 \<or> c = 0xFEFF"

definition jsTrim :: "jtext \<Rightarrow> jtext" where
  "jsTrim s = List.rev (dropWhile jsSpace (List.rev (dropWhile jsSpace s)))"

definition octalDigit :: "nat \<Rightarrow> bool" where
  "octalDigit c \<longleftrightarrow> 48 \<le> c \<and> c < 56"

definition parseInt8 :: "jtext \<Rightarrow> int option" where
  "parseInt8 s =
     (let t = dropWhile jsSpace s;
          neg = (t \<noteq> [] \<and> hd t = 45);
          u = (if t \<noteq> [] \<and> (hd t = 45 \<or> hd t = 43) then tl t else t);
          ds = takeWhile octalDigit u;
          v = int (of_digits 8 (map char_of ds))
      in if ds = [] then None else Some (if neg then - v else v))"

definition readOctalField :: "byte list \<Rightarrow> tar_error + nat" where
  "readOctalField b =
     (let s = jsTrim (textDecode (trimZeros b)) in
      if s = [] then Inr 0
      else case parseInt8 s of
             None \<Rightarrow> Inl BadOctal
           | Some v \<Rightarrow> if v < 0 then Inl BadOctal else Inr (nat v))"

definition put :: "nat \<Rightarrow> nat \<Rightarrow> jtext \<Rightarrow> byte list \<Rightarrow> tar_error + byte list" where
  "put at len t buf =
     (let bytes = textEncode t in
      if length bytes > len then Inl FieldOverflow else Inr (setAt at bytes buf))"

definition padStart :: "nat \<Rightarrow> string \<Rightarrow> string" where
  "padStart width s = replicate (width - length s) CHR ''0'' @ s"

definition octal :: "nat \<Rightarrow> nat \<Rightarrow> tar_error + jtext" where
  "octal value width =
     (let s = to_digits 8 value in
      if length s > width then Inl OctalOverflow else Inr (ascii (padStart width s) @ [0]))"

section \<open>Header blocks\<close>

record parsed_header =
  ph_name :: jtext
  ph_prefix :: jtext
  ph_size :: nat
  ph_mode :: nat
  ph_mtime :: nat
  ph_typeflag :: jtext

definition parseHeader :: "byte list \<Rightarrow> tar_error + parsed_header" where
  "parseHeader block =
     (if length block \<noteq> BLOCK then Inl BadBlock
      else
        ebind (readOctalField (slice 124 136 block)) (\<lambda>size.
        ebind (readOctalField (slice 100 108 block)) (\<lambda>mode.
        ebind (readOctalField (slice 136 148 block)) (\<lambda>mtime.
          let t = textDecode (slice 156 157 block)
          in Inr \<lparr>ph_name = textDecode (trimZeros (slice 0 100 block)),
                  ph_prefix = textDecode (trimZeros (slice 345 500 block)),
                  ph_size = size, ph_mode = mode mod 4096, ph_mtime = mtime,
                  ph_typeflag = (if t = [] then TYPE_FILE else t)\<rparr>))))"

definition isZeroBlock :: "byte list \<Rightarrow> bool" where
  "isZeroBlock block \<longleftrightarrow> take BLOCK block = replicate BLOCK 0"

record header_spec =
  hs_nameBytes :: "byte list"
  hs_size :: nat
  hs_mode :: nat
  hs_mtimeSeconds :: int
  hs_typeflag :: jtext

definition putOctal :: "nat \<Rightarrow> nat \<Rightarrow> nat \<Rightarrow> nat \<Rightarrow> byte list \<Rightarrow> tar_error + byte list" where
  "putOctal at len value width h = ebind (octal value width) (\<lambda>t. put at len t h)"

definition writeChecksum :: "byte list \<Rightarrow> byte list" where
  "writeChecksum h =
     setAt 148 (textEncode (ascii (padStart 6 (to_digits 8 (sum_list (map unat h)))) @ [0, SPACE])) h"

definition buildHeader :: "header_spec \<Rightarrow> tar_error + byte list" where
  "buildHeader spec =
     (if length (hs_nameBytes spec) > 100 then Inl NameOverflow
      else
        ebind (putOctal 100 8 (hs_mode spec mod 4096) 6 (setAt 0 (hs_nameBytes spec) (replicate BLOCK 0))) (\<lambda>h.
        ebind (putOctal 108 8 0 6 h) (\<lambda>h.
        ebind (putOctal 116 8 0 6 h) (\<lambda>h.
        ebind (putOctal 124 12 (hs_size spec) 11 h) (\<lambda>h.
        ebind (putOctal 136 12 (nat (hs_mtimeSeconds spec mod 2 ^ 32)) 11 h) (\<lambda>h.
        ebind (put 156 1 (hs_typeflag spec) (setAt 148 (replicate 8 0x20) h)) (\<lambda>h.
        ebind (put 257 6 (ascii ''ustar'' @ [0]) h) (\<lambda>h.
        ebind (put 263 2 (ascii ''00'') h) (\<lambda>h. Inr (writeChecksum h))))))))))"

section \<open>Pax records\<close>

fun paxGrow :: "nat \<Rightarrow> jtext \<Rightarrow> nat \<Rightarrow> tar_error + byte list" where
  "paxGrow 0 kv len = Inl PaxDiverged"
| "paxGrow (Suc i) kv len =
     (let line = textEncode (ascii (to_digits 10 len) @ SPACE # kv @ [NEWLINE]) in
      if length line = len then Inr line else paxGrow i kv (length line))"

definition paxRecord :: "jtext \<Rightarrow> jtext \<Rightarrow> tar_error + byte list" where
  "paxRecord key value =
     (let kv = key @ ascii ''='' @ value in paxGrow 16 kv (length (textEncode kv) + 3))"

definition afterSpace :: "jtext \<Rightarrow> jtext" where
  "afterSpace line = tl (dropWhile (\<lambda>c. c \<noteq> SPACE) line)"

definition paxOverridePath :: "byte list \<Rightarrow> jtext option" where
  "paxOverridePath body =
     foldl (\<lambda>path line. let kv = afterSpace line in
              if prefix (ascii ''path='') kv then Some (drop 5 kv) else path)
       None (splitOn NEWLINE (textDecode body))"

definition paxPathBlocks :: "jtext \<Rightarrow> tar_error + byte list list" where
  "paxPathBlocks p =
     ebind (paxRecord (ascii ''path'') p) (\<lambda>record.
     ebind (buildHeader \<lparr>hs_nameBytes = textEncode (ascii ''./PaxHeaders/.longname''), hs_size = length record,
              hs_mode = 0x1A4, hs_mtimeSeconds = 0, hs_typeflag = TYPE_PAX\<rparr>) (\<lambda>header.
       Inr [header, setAt 0 record (replicate ((length record + (BLOCK - 1)) div BLOCK * BLOCK) 0)]))"

definition needsPax :: "jtext \<Rightarrow> bool" where
  "needsPax p \<longleftrightarrow> length (textEncode p) > 100 \<or> 0 \<in> set p"

definition blockPadding :: "nat \<Rightarrow> nat" where
  "blockPadding n = (BLOCK - n mod BLOCK) mod BLOCK"

section \<open>Slices\<close>

lemma length_setAt: "at + length bs \<le> length h \<Longrightarrow> length (setAt at bs h) = length h"
  by (simp add: setAt_def)

lemma slice_setAt_other:
  assumes "at + length bs \<le> length h" "at + length bs \<le> a \<or> b \<le> at"
  shows "slice a b (setAt at bs h) = slice a b h"
proof (cases "at + length bs \<le> a")
  case True
  then show ?thesis using assms(1) by (simp add: slice_def setAt_def min_def)
next
  case False
  with assms have b: "b \<le> at" and at: "at \<le> length h" by simp_all
  have "slice a b (take at h @ ys) = slice a b h" for ys
    using b at by (cases "a < at") (simp_all add: slice_def drop_take)
  then show ?thesis by (simp add: setAt_def)
qed

lemma slice_setAt_here:
  assumes "at + length bs \<le> length h" "at + length bs \<le> b"
  shows "slice at b (setAt at bs h) = bs @ slice (at + length bs) b h"
  using assms by (simp add: slice_def setAt_def min_def)

lemma slice_zeros: "b \<le> n \<Longrightarrow> slice a b (replicate n x) = replicate (b - a) x"
  by (simp add: slice_def min_def)

lemma slice_empty: "b \<le> a \<Longrightarrow> slice a b h = []"
  by (simp add: slice_def)

section \<open>Text in fields\<close>

lemma ascii_scalar: "\<forall>c \<in> set (ascii s). c < 256"
  by (auto simp: ascii_def)

lemma utf8Char_last: "c \<noteq> 0 \<Longrightarrow> utf8Char c \<noteq> [] \<and> last (utf8Char c) \<noteq> 0"
  by (simp add: utf8Char_def Let_def)

lemma word_of_nat_zero: "b < 256 \<Longrightarrow> (word_of_nat b :: byte) = 0 \<longleftrightarrow> b = 0"
  by (simp add: word_of_nat_eq_0_iff dvd_eq_mod_eq_0)

lemma textEncode_last:
  assumes "s \<noteq> []" "last s \<noteq> 0" "\<forall>c \<in> set s. scalar c"
  shows "textEncode s \<noteq> [] \<and> last (textEncode s) \<noteq> 0"
proof -
  obtain t c where s: "s = t @ [c]" using assms(1) by (cases s rule: rev_cases) auto
  then have c: "c \<noteq> 0" "c < 0x110000" using assms by (auto simp: scalar_def)
  then have "last (utf8Char c) < 256" using utf8Char_bytes utf8Char_last by simp
  then show ?thesis using c utf8Char_last [OF c(1)] by (simp add: s textEncode_def last_map word_of_nat_zero)
qed

lemma trimZeros_append: "xs = [] \<or> last xs \<noteq> 0 \<Longrightarrow> trimZeros (xs @ replicate n 0) = xs"
proof -
  assume "xs = [] \<or> last xs \<noteq> 0"
  then have "dropWhile (\<lambda>x. x = 0) (List.rev xs) = List.rev xs"
    by (cases xs rule: rev_cases) auto
  moreover have "dropWhile (\<lambda>x. x = 0) (replicate n (0::byte) @ ys) = dropWhile (\<lambda>x. x = 0) ys" for ys
    by (induction n) auto
  ultimately show ?thesis by (simp add: trimZeros_def)
qed

text \<open>The texts a fixed field gives back: no trailing NUL and no leading byte order mark.\<close>

definition fieldText :: "jtext \<Rightarrow> bool" where
  "fieldText s \<longleftrightarrow> (\<forall>c \<in> set s. scalar c) \<and> (s = [] \<or> last s \<noteq> 0) \<and> (s = [] \<or> hd s \<noteq> 0xFEFF)"

lemma field_roundtrip: "fieldText s \<Longrightarrow> textDecode (trimZeros (textEncode s @ replicate n 0)) = s"
proof -
  assume s: "fieldText s"
  have "textEncode s = [] \<or> last (textEncode s) \<noteq> 0"
    using textEncode_last s by (cases "s = []") (auto simp: fieldText_def)
  moreover have "dropBom s = s" using s by (intro dropBom_other) (auto simp: fieldText_def)
  ultimately show ?thesis using s by (simp add: trimZeros_append text_roundtrip fieldText_def)
qed

lemma fieldText_digits:
  assumes "\<forall>c \<in> set s. is_digit 10 c"
  shows "fieldText (ascii s)"
proof -
  have "c < 58 \<and> 48 \<le> c" if "c \<in> set (ascii s)" for c
    using assms that by (auto simp: ascii_def is_digit_def)
  then have "\<forall>c \<in> set (ascii s). scalar c \<and> c \<noteq> 0 \<and> c \<noteq> 0xFEFF"
    by (fastforce simp: scalar_def surrogate_def)
  then show ?thesis unfolding fieldText_def by (metis hd_in_set last_in_set)
qed

lemma textEncode_ascii: "\<forall>c \<in> set s. c < 0x80 \<Longrightarrow> textEncode s = map word_of_nat s"
  by (simp add: textEncode_def utf8_ascii)

section \<open>Octal fields\<close>

definition octalDigits :: "nat \<Rightarrow> nat \<Rightarrow> jtext" where
  "octalDigits width v = ascii (padStart width (to_digits 8 v))"

lemma padStart_digits: "c \<in> set (padStart w (to_digits 8 v)) \<Longrightarrow> is_digit 8 c"
  using to_digits_digits [of 8] by (auto simp: padStart_def is_digit_def split: if_split_asm)

lemma octalDigits_range: "c \<in> set (octalDigits w v) \<Longrightarrow> octalDigit c \<and> c < 0x80 \<and> \<not> jsSpace c"
  using padStart_digits by (fastforce simp: octalDigits_def ascii_def is_digit_def octalDigit_def jsSpace_def)

lemma octalDigits_value: "of_digits 8 (map char_of (octalDigits w v)) = v"
proof -
  have "CHR ''0'' = digit_char 0" by code_simp
  then have "of_digits 8 (padStart w (to_digits 8 v)) = of_digits 8 (to_digits 8 v)"
    by (simp add: padStart_def of_digits_zeros)
  then show ?thesis by (simp add: octalDigits_def ascii_def comp_def of_to_digits)
qed

lemma octalDigits_ne: "octalDigits w v \<noteq> []"
  by (simp add: octalDigits_def padStart_def ascii_def)

lemma jsTrim_id:
  assumes "s \<noteq> [] \<Longrightarrow> \<not> jsSpace (hd s) \<and> \<not> jsSpace (last s)"
  shows "jsTrim s = s"
proof -
  have "dropWhile jsSpace s = s" using assms by (cases s) auto
  moreover have "dropWhile jsSpace (List.rev s) = List.rev s" using assms by (cases s rule: rev_cases) auto
  ultimately show ?thesis by (simp add: jsTrim_def)
qed

lemma parseInt8_digits:
  assumes "s \<noteq> []" "\<forall>c \<in> set s. octalDigit c"
  shows "parseInt8 s = Some (int (of_digits 8 (map char_of s)))"
proof -
  obtain c cs where s: "s = c # cs" using assms(1) by (cases s) auto
  then have c: "octalDigit c" using assms(2) by simp
  then have "\<not> jsSpace c" "c \<noteq> 45" "c \<noteq> 43" by (auto simp: octalDigit_def jsSpace_def)
  moreover have "takeWhile octalDigit s = s" using assms(2) by simp
  ultimately show ?thesis by (simp add: parseInt8_def Let_def s)
qed

lemma octal_field_roundtrip: "readOctalField (textEncode (octalDigits w v) @ replicate n 0) = Inr v"
proof -
  have "fieldText (octalDigits w v)"
    unfolding octalDigits_def by (rule fieldText_digits) (use padStart_digits in \<open>fastforce simp: is_digit_def\<close>)
  moreover have "jsTrim (octalDigits w v) = octalDigits w v"
    by (rule jsTrim_id) (use octalDigits_range [OF hd_in_set] octalDigits_range [OF last_in_set] octalDigits_ne in blast)
  ultimately show ?thesis
    using octalDigits_range
    by (simp add: readOctalField_def field_roundtrip octalDigits_ne parseInt8_digits octalDigits_value)
qed

lemma octalDigits_length: "v < 8 ^ w \<Longrightarrow> 0 < w \<Longrightarrow> length (octalDigits w v) = w"
  using length_to_digits [of 8 v w] by (simp add: octalDigits_def padStart_def)

lemma textEncode_octal: "textEncode (octalDigits w v) = map word_of_nat (octalDigits w v)"
  by (rule textEncode_ascii) (use octalDigits_range in blast)

lemma textEncode_chars [simp]: "c < 0x80 \<Longrightarrow> textEncode (c # s) = word_of_nat c # textEncode s"
  by (simp add: textEncode_def utf8Char_ascii)

lemma octal_iff: "0 < w \<Longrightarrow> octal v w = (if v < 8 ^ w then Inr (octalDigits w v @ [0]) else Inl OctalOverflow)"
  using length_to_digits_conv [of 8 w v] by (auto simp: octal_def octalDigits_def Let_def)

text \<open>The bytes of an octal field of \<open>w\<close> digits.\<close>

definition octalBytes :: "nat \<Rightarrow> nat \<Rightarrow> byte list" where
  "octalBytes w v = textEncode (octalDigits w v) @ [0]"

lemma octalBytes_length: "v < 8 ^ w \<Longrightarrow> 0 < w \<Longrightarrow> length (octalBytes w v) = Suc w"
  by (simp add: octalBytes_def textEncode_octal octalDigits_length)

lemma putOctal_iff:
  assumes "0 < w" "w < n"
  shows "putOctal at n v w h = (if v < 8 ^ w then Inr (setAt at (octalBytes w v) h) else Inl OctalOverflow)"
  using assms octalBytes_length [of v w] by (simp add: putOctal_def octal_iff put_def octalBytes_def Let_def)

lemma readOctal_octalBytes: "readOctalField (octalBytes w v @ replicate n 0) = Inr v"
  using octal_field_roundtrip [of w v "Suc n"] by (simp add: octalBytes_def)

section \<open>A built header reads back\<close>

definition headerBody :: "header_spec \<Rightarrow> byte list" where
  "headerBody spec =
     setAt 263 (textEncode (ascii ''00'')) (setAt 257 (textEncode (ascii ''ustar'' @ [0]))
     (setAt 156 (textEncode (hs_typeflag spec)) (setAt 148 (replicate 8 0x20)
     (setAt 136 (octalBytes 11 (nat (hs_mtimeSeconds spec mod 2 ^ 32))) (setAt 124 (octalBytes 11 (hs_size spec))
     (setAt 116 (octalBytes 6 0) (setAt 108 (octalBytes 6 0) (setAt 100 (octalBytes 6 (hs_mode spec mod 4096))
     (setAt 0 (hs_nameBytes spec) (replicate 512 0))))))))))"

lemma ascii_literals [simp]:
  "textEncode (ascii ''ustar'') = [117, 115, 116, 97, 114]" "textEncode (ascii ''00'') = [48, 48]"
  by (simp_all add: ascii_def)

lemma buildHeader_iff:
  "buildHeader spec =
     (if length (hs_nameBytes spec) > 100 then Inl NameOverflow
      else if \<not> hs_size spec < 8 ^ 11 then Inl OctalOverflow
      else if length (textEncode (hs_typeflag spec)) > 1 then Inl FieldOverflow
      else Inr (writeChecksum (headerBody spec)))"
proof -
  have "nat (hs_mtimeSeconds spec mod 2 ^ 32) < 8 ^ 11"
  proof -
    have "hs_mtimeSeconds spec mod 2 ^ 32 < 2 ^ 32" by (rule pos_mod_bound) simp
    then show ?thesis by simp
  qed
  moreover have "hs_mode spec mod 4096 < 8 ^ 6"
    using mod_less_divisor [of 4096 "hs_mode spec"] by (rule less_trans) simp_all
  ultimately show ?thesis
    by (simp add: buildHeader_def putOctal_iff put_def Let_def headerBody_def BLOCK_def)
qed

lemma headerBody_length:
  assumes "buildHeader spec = Inr h"
  shows "length (headerBody spec) = 512"
    and "length (octalBytes 11 (nat (hs_mtimeSeconds spec mod 2 ^ 32))) = 12"
    and "length (octalBytes 11 (hs_size spec)) = 12" "length (octalBytes 6 (hs_mode spec mod 4096)) = 7"
    and "length (octalBytes 6 0) = 7" "length (hs_nameBytes spec) \<le> 100" "length (textEncode (hs_typeflag spec)) \<le> 1"
    and "h = writeChecksum (headerBody spec)"
proof -
  have "hs_mtimeSeconds spec mod 2 ^ 32 < 2 ^ 32" by (rule pos_mod_bound) simp
  then have "nat (hs_mtimeSeconds spec mod 2 ^ 32) < 8 ^ 11" by simp
  then show L: "length (octalBytes 11 (nat (hs_mtimeSeconds spec mod 2 ^ 32))) = 12"
    by (simp add: octalBytes_length)
  have "hs_mode spec mod 4096 < 8 ^ 6"
    using mod_less_divisor [of 4096 "hs_mode spec"] by (rule less_trans) simp_all
  then
  show "length (octalBytes 11 (hs_size spec)) = 12" "length (octalBytes 6 (hs_mode spec mod 4096)) = 7"
    "length (octalBytes 6 0) = 7" "length (hs_nameBytes spec) \<le> 100" "length (textEncode (hs_typeflag spec)) \<le> 1"
    "h = writeChecksum (headerBody spec)"
    using assms by (simp_all add: buildHeader_iff octalBytes_length split: if_split_asm)
  with L show "length (headerBody spec) = 512" by (simp add: headerBody_def length_setAt)
qed

lemma checksum_bound: "length h = 512 \<Longrightarrow> sum_list (map unat (h :: byte list)) < 8 ^ 6"
proof -
  assume h: "length h = 512"
  have "sum_list (map unat (xs :: byte list)) \<le> 255 * length xs" for xs
  proof (induction xs)
    case (Cons x xs)
    have "unat x < 256" using unsigned_less [of x, where ?'a = nat] by simp
    with Cons show ?case by simp
  qed simp
  from this [of h] show ?thesis using h by simp
qed

lemma writeChecksum_eq:
  assumes "length h = 512"
  shows "writeChecksum h = setAt 148 (octalBytes 6 (sum_list (map unat h)) @ [32]) h"
  by (simp add: writeChecksum_def octalBytes_def octalDigits_def)

lemma writeChecksum_slice:
  assumes "length h = 512" "b \<le> 148 \<or> 156 \<le> a"
  shows "slice a b (writeChecksum h) = slice a b h" "length (writeChecksum h) = 512"
proof -
  have l: "length (octalBytes 6 (sum_list (map unat h)) @ [32]) = 8"
    using octalBytes_length [OF checksum_bound [OF assms(1)]] by simp
  show "slice a b (writeChecksum h) = slice a b h"
    unfolding writeChecksum_eq [OF assms(1)] by (rule slice_setAt_other) (use l assms in auto)
  show "length (writeChecksum h) = 512"
    unfolding writeChecksum_eq [OF assms(1)] using l assms(1) by (simp only: length_setAt)
qed

lemmas body_slices = slice_setAt_other slice_setAt_here length_setAt slice_zeros slice_empty

lemma headerBody_slices:
  assumes "buildHeader spec = Inr h"
  shows "slice 0 100 (headerBody spec) = hs_nameBytes spec @ replicate (100 - length (hs_nameBytes spec)) 0"
    and "slice 345 500 (headerBody spec) = replicate 155 0"
    and "slice 124 136 (headerBody spec) = octalBytes 11 (hs_size spec)"
    and "slice 100 108 (headerBody spec) = octalBytes 6 (hs_mode spec mod 4096) @ [0]"
    and "slice 136 148 (headerBody spec) = octalBytes 11 (nat (hs_mtimeSeconds spec mod 2 ^ 32))"
    and "length (textEncode (hs_typeflag spec)) = 1 \<Longrightarrow> slice 156 157 (headerBody spec) = textEncode (hs_typeflag spec)"
  using headerBody_length [OF assms] by (simp_all add: headerBody_def body_slices)

lemma built_header_parses:
  assumes "buildHeader spec = Inr h" and "hs_nameBytes spec = textEncode n" and "fieldText n"
    and "hs_typeflag spec = [t]" "t < 0x80"
  shows "parseHeader h = Inr \<lparr>ph_name = n, ph_prefix = [], ph_size = hs_size spec, ph_mode = hs_mode spec mod 4096,
           ph_mtime = nat (hs_mtimeSeconds spec mod 2 ^ 32), ph_typeflag = [t]\<rparr>"
proof -
  note len = headerBody_length [OF assms(1)] and sl = headerBody_slices [OF assms(1)]
  note chk = writeChecksum_slice [OF len(1)]
  have tf: "textDecode (textEncode [t]) = [t]"
    using text_roundtrip [of "[t]"] assms(5) by (simp add: scalar_def surrogate_def)
  have "textDecode (trimZeros (replicate 155 0)) = []"
    using trimZeros_append [of "[]" 155] by (simp add: textDecode_def utf8Decode_def)
  moreover have "readOctalField (slice 100 108 h) = Inr (hs_mode spec mod 4096)"
    using readOctal_octalBytes [of 6 _ 1] by (simp add: len(8) chk sl)
  moreover have "readOctalField (slice 124 136 h) = Inr (hs_size spec)"
    using readOctal_octalBytes [of 11 _ 0] by (simp add: len(8) chk sl)
  moreover have "readOctalField (slice 136 148 h) = Inr (nat (hs_mtimeSeconds spec mod 2 ^ 32))"
    using readOctal_octalBytes [of 11 _ 0] by (simp add: len(8) chk sl)
  moreover have "slice 156 157 h = textEncode [t]"
    using assms(4,5) sl(6) by (simp add: len(8) chk)
  moreover have "textDecode (trimZeros (slice 0 100 h)) = n"
    using field_roundtrip [OF assms(3)] by (simp add: len(8) chk sl assms(2))
  moreover have "slice 345 500 h = replicate 155 0" "length h = BLOCK"
    using chk(2) [of 0 0] by (simp_all add: len(8) chk(1) sl BLOCK_def)
  ultimately show ?thesis using tf by (simp add: parseHeader_def Let_def)
qed

text \<open>The stored checksum is the sum of the block with its checksum field blanked, as readers expect.\<close>

lemma built_header_checksum:
  assumes "buildHeader spec = Inr h"
  shows "slice 148 156 h = octalBytes 6 (sum_list (map unat (setAt 148 (replicate 8 0x20) h))) @ [0x20]"
proof -
  note len = headerBody_length [OF assms]
  let ?s = "sum_list (map unat (headerBody spec))"
  have l: "length (octalBytes 6 ?s @ [32]) = 8" using octalBytes_length [OF checksum_bound [OF len(1)]] by simp
  have "slice 148 156 (headerBody spec) = replicate 8 0x20"
    using len by (simp add: headerBody_def body_slices)
  then have blank: "setAt 148 (replicate 8 0x20) (headerBody spec) = headerBody spec"
    using append_take_drop_id [of 8 "drop 148 (headerBody spec)"] append_take_drop_id [of 148 "headerBody spec"]
    by (simp add: setAt_def slice_def)
  have over: "setAt 148 (replicate 8 0x20) (setAt 148 bs g) = setAt 148 (replicate 8 0x20) g"
    if "length bs = 8" "length g = 512" for bs g :: "byte list"
    using that by (simp add: setAt_def min_def)
  show ?thesis
    using slice_setAt_here [of 148 "octalBytes 6 ?s @ [32]" "headerBody spec" 156] l
    unfolding len(8) writeChecksum_eq [OF len(1)] over [OF l len(1)] blank
    by (simp add: len(1) slice_empty)
qed

section \<open>Pax records converge and read back\<close>

lemma digits_mono: "m \<le> n \<Longrightarrow> length (to_digits 10 m) \<le> length (to_digits 10 n)"
proof -
  assume "m \<le> n"
  moreover have "n < 10 ^ length (to_digits 10 n)"
    using length_to_digits_conv [of 10 "length (to_digits 10 n)" n] by simp
  ultimately show ?thesis using length_to_digits_conv [of 10 "length (to_digits 10 n)" m] by simp
qed

lemma small_power: "d + 10 ^ d \<le> (10::nat) ^ Suc d"
  proof -
  have "d < 2 ^ d" by (rule less_exp)
  also have "2 ^ d \<le> (10::nat) ^ d" by (rule power_mono) simp_all
  finally show ?thesis by simp
qed

definition paxLine :: "jtext \<Rightarrow> nat \<Rightarrow> byte list" where
  "paxLine kv len = textEncode (ascii (to_digits 10 len) @ SPACE # kv @ [NEWLINE])"

lemma digits_below: "c \<in> set (ascii (to_digits 10 n)) \<Longrightarrow> 48 \<le> c \<and> c < 58"
  using to_digits_digits [of 10 _ n] by (fastforce simp: ascii_def is_digit_def)

lemma paxLine_length: "length (paxLine kv len) = length (to_digits 10 len) + length (textEncode kv) + 2"
proof -
  have "\<forall>c \<in> set (ascii (to_digits 10 len)). c < 0x80" using digits_below by fastforce
  then show ?thesis by (simp add: paxLine_def textEncode_ascii)
qed

lemma paxGrow_step: "paxGrow (Suc i) kv len =
    (if length (paxLine kv len) = len then Inr (paxLine kv len) else paxGrow i kv (length (paxLine kv len)))"
  by (simp add: paxLine_def Let_def)

text \<open>At most three of the sixteen rounds are used, whatever the length of the record.\<close>

lemma paxGrow_total:
  "\<exists>len. paxGrow (Suc (Suc (Suc i))) kv (length (textEncode kv) + 3) = Inr (paxLine kv len) \<and>
         length (paxLine kv len) = len"
proof -
  define k where "k = length (textEncode kv)"
  define L where "L n = length (to_digits 10 n)" for n
  define d where "d = L (k + 3)"
  have len: "length (paxLine kv n) = k + 2 + L n" for n by (simp add: paxLine_length L_def k_def)
  have grow: "paxGrow (Suc i) kv n = (if k + 2 + L n = n then Inr (paxLine kv n) else paxGrow i kv (k + 2 + L n))" for i n
    by (simp only: paxGrow_step len)
  have pos: "1 \<le> L n" for n unfolding L_def by (simp add: Suc_le_eq)
  have conv: "0 < w \<Longrightarrow> L n \<le> w \<longleftrightarrow> n < 10 ^ w" for n w unfolding L_def by (rule length_to_digits_conv) simp_all
  have a0: "k + 3 < 10 ^ d" using conv [of d "k + 3"] pos [of "k + 3"] by (simp add: d_def)
  have up: "L (k + 2 + d) \<le> Suc d" "L (k + 2 + Suc d) \<le> Suc d"
    using conv [of "Suc d" "k + 2 + d"] conv [of "Suc d" "k + 2 + Suc d"] small_power [of d] a0 by simp_all
  have low: "d \<le> L (k + 2 + d)" "L (k + 2 + d) \<le> L (k + 2 + Suc d)"
    unfolding d_def L_def by (rule digits_mono, use pos [of "k + 3"] in \<open>simp add: L_def\<close>)+
  have s1: "paxGrow (Suc (Suc (Suc i))) kv (k + 3) =
      (if k + 2 + d = k + 3 then Inr (paxLine kv (k + 3)) else paxGrow (Suc (Suc i)) kv (k + 2 + d))"
    by (simp only: grow d_def)
  have s2: "paxGrow (Suc (Suc i)) kv (k + 2 + d) = Inr (paxLine kv (k + 2 + d))" if "L (k + 2 + d) = d"
    by (simp only: grow that refl if_True)
  have s3: "paxGrow (Suc (Suc i)) kv (k + 2 + d) = Inr (paxLine kv (k + 2 + Suc d))" if "L (k + 2 + d) = Suc d"
  proof -
    have "L (k + 2 + Suc d) = Suc d" using up(2) low(2) that by linarith
    then show ?thesis by (simp only: grow that refl if_True) simp
  qed
  consider "d = 1" | "d \<noteq> 1" "L (k + 2 + d) = d" | "d \<noteq> 1" "L (k + 2 + d) = Suc d" using up low by linarith
  then show ?thesis
  proof cases
    case 1
    then show ?thesis using s1 len [of "k + 3"] unfolding k_def [symmetric] by (intro exI [of _ "k + 3"]) (simp add: d_def)
  next
    case 2
    then show ?thesis using s1 s2 len [of "k + 2 + d"] unfolding k_def [symmetric] by (intro exI [of _ "k + 2 + d"]) simp
  next
    case 3
    then have "L (k + 2 + Suc d) = Suc d" using up(2) low(2) by linarith
    then have "length (paxLine kv (k + 2 + Suc d)) = k + 2 + Suc d" by (simp only: len)
    moreover have "paxGrow (Suc (Suc (Suc i))) kv (k + 3) = Inr (paxLine kv (k + 2 + Suc d))"
      unfolding s1 s3 [OF 3(2)] using 3(1) by simp
    ultimately show ?thesis unfolding k_def [symmetric] by blast
  qed
qed

lemma paxRecord_total:
  "\<exists>len. paxRecord key value = Inr (paxLine (key @ ascii ''='' @ value) len) \<and>
         length (paxLine (key @ ascii ''='' @ value) len) = len"
proof -
  have "(16::nat) = Suc (Suc (Suc 13))" by simp
  then show ?thesis
    using paxGrow_total [of 13 "key @ ascii ''='' @ value"] unfolding paxRecord_def Let_def by (simp only:)
qed

lemma paxLine_reads_back:
  assumes "\<forall>c \<in> set p. scalar c" "NEWLINE \<notin> set p"
  shows "paxOverridePath (paxLine (ascii ''path='' @ p) len) = Some p"
proof -
  let ?ds = "ascii (to_digits 10 len)"
  let ?line = "?ds @ SPACE # ascii ''path='' @ p"
  have ds: "48 \<le> c \<and> c < 58" if "c \<in> set ?ds" for c using digits_below [OF that] .
  have small: "scalar c" if "c < 256" for c using that by (simp add: scalar_def surrogate_def)
  have "scalar c" if "c \<in> set (?line @ [NEWLINE])" for c
    using that assms(1) ds small by (fastforce simp: ascii_def)
  moreover have "dropBom (?line @ [NEWLINE]) = ?line @ [NEWLINE]"
    by (rule dropBom_other) (use ds in \<open>cases "to_digits 10 len"; force simp: ascii_def\<close>)
  ultimately have dec: "textDecode (paxLine (ascii ''path='' @ p) len) = ?line @ [NEWLINE]"
    using text_roundtrip [of "?line @ [NEWLINE]"] by (simp add: paxLine_def)
  have "NEWLINE \<notin> set ?ds" using ds [of NEWLINE] by auto
  then have "NEWLINE \<notin> set ?line" using assms(2) by simp
  then have lines: "splitOn NEWLINE (?line @ [NEWLINE]) = [?line, []]"
    using splitOn_append [of NEWLINE ?line "[]"] by simp
  have "dropWhile (\<lambda>c. c \<noteq> SPACE) ?line = SPACE # ascii ''path='' @ p"
    using ds by (subst dropWhile_append2) fastforce+
  then have "afterSpace ?line = ascii ''path='' @ p" by (simp add: afterSpace_def)
  moreover have "afterSpace [] = []" by (simp add: afterSpace_def)
  moreover have "length (ascii ''path='') = 5" by simp
  ultimately show ?thesis unfolding paxOverridePath_def dec lines by (simp add: ascii_def)
qed

section \<open>What the path guard lets through\<close>

definition cleanSegment :: "jtext \<Rightarrow> bool" where
  "cleanSegment seg \<longleftrightarrow> seg \<noteq> [] \<and> seg \<noteq> ascii ''.'' \<and> seg \<noteq> ascii ''..'' \<and>
     SLASH \<notin> set seg \<and> 0 \<notin> set seg \<and> NEWLINE \<notin> set seg"

lemma keepSegments_Inr:
  "keepSegments segs = Inr parts \<Longrightarrow>
   parts = filter (\<lambda>s. s \<noteq> [] \<and> s \<noteq> ascii ''.'') segs \<and> ascii ''..'' \<notin> set segs"
  by (induction segs arbitrary: parts) (auto simp: ebind_Inr_iff split: if_split_asm)

lemma keepSegments_clean: "\<forall>s \<in> set segs. cleanSegment s \<Longrightarrow> keepSegments segs = Inr segs \<and> keepSegments (segs @ [[]]) = Inr segs"
  by (induction segs) (simp_all add: cleanSegment_def)

lemma splitOn_set: "s \<in> set (splitOn c p) \<Longrightarrow> set s \<subseteq> set p"
  by (induction p arbitrary: s) (fastforce split: if_split_asm list.splits)+

lemma safe_segments:
  assumes "safeTransferPath p = Inr rel"
  shows "splitOn SLASH rel \<noteq> []" "\<forall>s \<in> set (splitOn SLASH rel). cleanSegment s \<and> set s \<subseteq> set p"
    "rel = joinWith SLASH (splitOn SLASH rel)"
proof -
  obtain parts where p: "keepSegments (splitOn SLASH p) = Inr parts" "parts \<noteq> []" "rel = joinWith SLASH parts"
    and raw: "0 \<notin> set p" "NEWLINE \<notin> set p"
    using assms by (auto simp: safeTransferPath_def ebind_Inr_iff split: if_split_asm)
  have parts: "cleanSegment s \<and> set s \<subseteq> set p" if "s \<in> set parts" for s
  proof -
    have s: "s \<in> set (splitOn SLASH p)" "s \<noteq> []" "s \<noteq> ascii ''.''" "s \<noteq> ascii ''..''"
      using keepSegments_Inr [OF p(1)] that by auto
    then show ?thesis using splitOn_no_sep [OF s(1)] splitOn_set [OF s(1)] raw by (auto simp: cleanSegment_def)
  qed
  have "splitOn SLASH rel = parts"
    unfolding p(3) by (rule splitOn_joinWith) (use p(2) parts in \<open>auto simp: cleanSegment_def\<close>)
  then show "splitOn SLASH rel \<noteq> []" "\<forall>s \<in> set (splitOn SLASH rel). cleanSegment s \<and> set s \<subseteq> set p"
    "rel = joinWith SLASH (splitOn SLASH rel)" using p(2,3) parts by auto
qed

lemma joinWith_ends:
  assumes "ws \<noteq> []" "\<forall>w \<in> set ws. w \<noteq> []"
  shows "joinWith c ws \<noteq> []" "hd (joinWith c ws) = hd (hd ws)" "last (joinWith c ws) = last (last ws)"
  using assms by (induction c ws rule: joinWith.induct) auto

text \<open>A clean relative path passes unchanged, with or without the slash of a directory entry.\<close>

lemma safe_clean:
  assumes "ws \<noteq> []" "\<forall>w \<in> set ws. cleanSegment w"
  shows "safeTransferPath (joinWith SLASH ws) = Inr (joinWith SLASH ws)"
    and "safeTransferPath (joinWith SLASH ws @ [SLASH]) = Inr (joinWith SLASH ws)"
proof -
  let ?p = "joinWith SLASH ws"
  have ne: "\<forall>w \<in> set ws. w \<noteq> []" using assms(2) by (simp add: cleanSegment_def)
  have p: "?p \<noteq> []" "hd ?p \<noteq> SLASH"
    using joinWith_ends [OF assms(1) ne] assms by (auto simp: cleanSegment_def) (metis hd_in_set list.set_sel(1))
  have raw: "0 \<notin> set ?p" "NEWLINE \<notin> set ?p"
    using set_joinWith [of SLASH ws] assms(2) by (fastforce simp: cleanSegment_def)+
  have split: "splitOn SLASH ?p = ws"
    by (rule splitOn_joinWith) (use assms in \<open>auto simp: cleanSegment_def\<close>)
  have "?p @ [SLASH] = joinWith SLASH (ws @ [[]])" using assms(1) by (simp add: joinWith_append)
  also have "splitOn SLASH (joinWith SLASH (ws @ [[]])) = ws @ [[]]"
    by (rule splitOn_joinWith) (use assms in \<open>auto simp: cleanSegment_def\<close>)
  finally have split': "splitOn SLASH (?p @ [SLASH]) = ws @ [[]]" .
  show "safeTransferPath ?p = Inr ?p" "safeTransferPath (?p @ [SLASH]) = Inr ?p"
    using p raw split split' keepSegments_clean [OF assms(2)] assms(1) by (simp_all add: safeTransferPath_def)
qed

end
