(* ===== verification/TarWriter.thy ===== *)
theory TarWriter
  imports TarBlocks
begin

text \<open>
  Writing a transfer archive: \<open>writeTarGz\<close> of \<open>tar-writer.ts\<close>.  A source file is the list of chunks its
  read stream yields, with the size it was announced with; the archive is the byte stream handed to
  gzip.  Every block is counted against the caps as it is emitted.
\<close>

record archive_dir =
  ad_path :: jtext
  ad_mode :: "nat option"
  ad_mtimeSeconds :: "int option"

record archive_file =
  af_path :: jtext
  af_source :: "byte list list"
  af_size :: nat
  af_mode :: "nat option"
  af_mtimeSeconds :: "int option"

record archive_limits =
  al_maxFileBytes :: nat
  al_maxTotalBytes :: nat
  al_maxEntries :: nat

record wstate =
  ws_entries :: nat
  ws_tarBytes :: nat
  ws_out :: "byte list"

definition orElse :: "'a option \<Rightarrow> 'a \<Rightarrow> 'a" where
  "orElse v d = (case v of None \<Rightarrow> d | Some x \<Rightarrow> x)"

definition emit :: "archive_limits \<Rightarrow> byte list \<Rightarrow> wstate \<Rightarrow> tar_error + wstate" where
  "emit lim b w =
     (let t = ws_tarBytes w + length b in
      if t > al_maxTotalBytes lim then Inl TooManyBytes
      else Inr (w\<lparr>ws_tarBytes := t, ws_out := ws_out w @ b\<rparr>))"

fun emitAll :: "archive_limits \<Rightarrow> byte list list \<Rightarrow> wstate \<Rightarrow> tar_error + wstate" where
  "emitAll lim [] w = Inr w"
| "emitAll lim (b # bs) w = ebind (emit lim b w) (emitAll lim bs)"

definition countEntry :: "archive_limits \<Rightarrow> wstate \<Rightarrow> tar_error + wstate" where
  "countEntry lim w =
     (if Suc (ws_entries w) > al_maxEntries lim then Inl TooManyEntries
      else Inr (w\<lparr>ws_entries := Suc (ws_entries w)\<rparr>))"

definition writeHeader ::
  "archive_limits \<Rightarrow> jtext \<Rightarrow> string \<Rightarrow> nat \<Rightarrow> nat \<Rightarrow> int \<Rightarrow> jtext \<Rightarrow> wstate \<Rightarrow> tar_error + wstate" where
  "writeHeader lim name placeholder fsize mode mtime typeflag w =
     ebind (if needsPax name then ebind (paxPathBlocks name) (\<lambda>bs. emitAll lim bs w) else Inr w) (\<lambda>w.
     ebind (buildHeader \<lparr>hs_nameBytes = textEncode (if needsPax name then ascii placeholder else name),
              hs_size = fsize, hs_mode = mode, hs_mtimeSeconds = mtime, hs_typeflag = typeflag\<rparr>) (\<lambda>h.
     emit lim h w))"

definition writeDir :: "archive_limits \<Rightarrow> archive_dir \<Rightarrow> wstate \<Rightarrow> tar_error + wstate" where
  "writeDir lim d w =
     ebind (safeTransferPath (ad_path d)) (\<lambda>rel.
     ebind (countEntry lim w)
       (writeHeader lim (rel @ [SLASH]) ''./PaxHeaders/.dir'' 0 (orElse (ad_mode d) 0x1ED)
          (orElse (ad_mtimeSeconds d) 0) TYPE_DIR))"

section \<open>File bodies\<close>

function drainBlocks ::
  "archive_limits \<Rightarrow> byte list \<Rightarrow> nat \<Rightarrow> wstate \<Rightarrow> tar_error + byte list \<times> nat \<times> wstate" where
  "drainBlocks lim carry written w =
     (if length carry \<ge> BLOCK then
        if written + BLOCK > al_maxFileBytes lim then Inl FileGrew
        else ebind (emit lim (take BLOCK carry) w)
               (\<lambda>w. drainBlocks lim (drop BLOCK carry) (written + BLOCK) w)
      else Inr (carry, written, w))"
  by pat_completeness auto

termination
  by (relation "measure (\<lambda>(lim, carry, written, w). length carry)") (simp_all add: BLOCK_def)

declare drainBlocks.simps [simp del]

fun streamBody ::
  "archive_limits \<Rightarrow> byte list list \<Rightarrow> byte list \<Rightarrow> nat \<Rightarrow> wstate \<Rightarrow> tar_error + byte list \<times> nat \<times> wstate" where
  "streamBody lim [] carry written w = Inr (carry, written, w)"
| "streamBody lim (raw # src) carry written w =
     ebind (drainBlocks lim (carry @ raw) written w)
       (\<lambda>(carry, written, w). streamBody lim src carry written w)"

definition writeTail :: "archive_limits \<Rightarrow> byte list \<Rightarrow> nat \<Rightarrow> wstate \<Rightarrow> tar_error + nat \<times> wstate" where
  "writeTail lim carry written w =
     (if carry = [] then Inr (written, w)
      else
        let written = written + length carry in
        if written > al_maxFileBytes lim then Inl FileGrew
        else ebind (emit lim (setAt 0 carry (replicate (length carry + blockPadding (length carry)) 0)) w)
               (\<lambda>w. Inr (written, w)))"

definition writeFile :: "archive_limits \<Rightarrow> archive_file \<Rightarrow> wstate \<Rightarrow> tar_error + wstate" where
  "writeFile lim f w =
     ebind (safeTransferPath (af_path f)) (\<lambda>rel.
     ebind (countEntry lim w) (\<lambda>w.
     if af_size f > al_maxFileBytes lim then Inl FileTooBig
     else
       ebind (writeHeader lim rel ''./PaxHeaders/.file'' (af_size f) (orElse (af_mode f) 0x1A4)
                (orElse (af_mtimeSeconds f) 0) TYPE_FILE w) (\<lambda>w.
       ebind (streamBody lim (af_source f) [] 0 w) (\<lambda>(carry, written, w).
       ebind (writeTail lim carry written w) (\<lambda>(written, w).
       if written \<noteq> af_size f then Inl SizeDrifted else Inr w)))))"

fun writeEach :: "('a \<Rightarrow> wstate \<Rightarrow> tar_error + wstate) \<Rightarrow> 'a list \<Rightarrow> wstate \<Rightarrow> tar_error + wstate" where
  "writeEach f [] w = Inr w"
| "writeEach f (x # xs) w = ebind (f x w) (writeEach f xs)"

definition writeTarGz :: "archive_dir list \<Rightarrow> archive_file list \<Rightarrow> archive_limits \<Rightarrow> tar_error + wstate" where
  "writeTarGz dirs files lim =
     ebind (writeEach (writeDir lim) dirs \<lparr>ws_entries = 0, ws_tarBytes = 0, ws_out = []\<rparr>) (\<lambda>w.
     ebind (writeEach (writeFile lim) files w) (emit lim (replicate (BLOCK * 2) 0)))"

end
