(* ===== verification/TarExtract.thy ===== *)
theory TarExtract
  imports TarWriter
begin

text \<open>
  Extracting a transfer archive: \<open>extractTarGz\<close> of \<open>tar-extractor.ts\<close>.  The input is the sequence of
  chunks the gunzip stream yields, cut anywhere.  The file system has directories, symbolic links and
  inodes with a link count; the kernel resolves the directories of a path through symbolic links, as
  the real one does, so a write can escape unless the code prevents it.  The destination is given by
  its real location.  Which calls the operating system refuses is a parameter.  Nobody else changes
  the file system meanwhile, and directory modes are left out.
\<close>

section \<open>The file system\<close>

type_synonym path = "jtext list"

datatype node =
    Dir
  | Sym path       \<comment> \<open>a symbolic link, by the location it leads to\<close>
  | Ino nat        \<comment> \<open>one name of an inode\<close>

record inode =
  in_regular :: bool
  in_nlink :: nat
  in_data :: "byte list"
  in_mode :: nat
  in_mtime :: "nat option"     \<comment> \<open>\<open>None\<close>: the time of the last write\<close>

record fs =
  fs_names :: "path \<Rightarrow> node option"
  fs_inodes :: "nat \<Rightarrow> inode"
  fs_next :: nat

record extract_env =
  xe_limits :: archive_limits
  xe_realDest :: path
  xe_osFails :: "path \<Rightarrow> bool"

fun walkDir :: "fs \<Rightarrow> path \<Rightarrow> path \<Rightarrow> path option" where
  "walkDir fs cur [] = Some cur"
| "walkDir fs cur (s # ss) =
     (case fs_names fs (cur @ [s]) of
        Some Dir \<Rightarrow> walkDir fs (cur @ [s]) ss
      | Some (Sym t) \<Rightarrow> if t = [] \<or> fs_names fs t = Some Dir then walkDir fs t ss else None
      | _ \<Rightarrow> None)"

text \<open>Where a path that is not followed at its last step ends up.\<close>

definition locate :: "fs \<Rightarrow> path \<Rightarrow> path option" where
  "locate fs p = map_option (\<lambda>d. d @ [last p]) (walkDir fs [] (butlast p))"

definition setName :: "path \<Rightarrow> node \<Rightarrow> fs \<Rightarrow> fs" where
  "setName q n fs = fs\<lparr>fs_names := (fs_names fs)(q \<mapsto> n)\<rparr>"

definition setInode :: "nat \<Rightarrow> (inode \<Rightarrow> inode) \<Rightarrow> fs \<Rightarrow> fs" where
  "setInode i f fs = fs\<lparr>fs_inodes := (fs_inodes fs)(i := f (fs_inodes fs i))\<rparr>"

definition lstatSync :: "fs \<Rightarrow> path \<Rightarrow> tar_error + node option" where
  "lstatSync fs p = (case locate fs p of None \<Rightarrow> Inl OsError | Some q \<Rightarrow> Inr (fs_names fs q))"

definition mkdirSync :: "extract_env \<Rightarrow> path \<Rightarrow> fs \<Rightarrow> tar_error + fs" where
  "mkdirSync env p fs =
     (case locate fs p of
        None \<Rightarrow> Inl OsError
      | Some q \<Rightarrow> if xe_osFails env p \<or> fs_names fs q \<noteq> None then Inl OsError else Inr (setName q Dir fs))"

section \<open>Destination directories and leaves\<close>

text \<open>The checks on what \<open>lstat\<close> saw.\<close>

definition realDir :: "tar_error + node option \<Rightarrow> tar_error option" where
  "realDir st =
     (case st of
        Inl e \<Rightarrow> Some e
      | Inr None \<Rightarrow> Some OsError
      | Inr (Some (Sym t)) \<Rightarrow> Some SymlinkedDestination
      | Inr (Some (Ino i)) \<Rightarrow> Some NotADirectory
      | Inr (Some Dir) \<Rightarrow> None)"

definition ensureRealDir :: "extract_env \<Rightarrow> path \<Rightarrow> fs \<Rightarrow> tar_error option \<times> fs" where
  "ensureRealDir env p fs =
     (case lstatSync fs p of
        Inr None \<Rightarrow>
          (case mkdirSync env p fs of
             Inl e \<Rightarrow> (Some e, fs)
           | Inr fs' \<Rightarrow> (realDir (lstatSync fs' p), fs'))
      | st \<Rightarrow> (realDir st, fs))"

fun ensureDirChain :: "extract_env \<Rightarrow> path \<Rightarrow> jtext list \<Rightarrow> fs \<Rightarrow> tar_error option \<times> fs" where
  "ensureDirChain env cur [] fs = (None, fs)"
| "ensureDirChain env cur (seg # segs) fs =
     (case ensureRealDir env (cur @ [seg]) fs of
        (Some e, fs') \<Rightarrow> (Some e, fs')
      | (None, fs') \<Rightarrow> ensureDirChain env (cur @ [seg]) segs fs')"

definition openLeaf :: "extract_env \<Rightarrow> path \<Rightarrow> fs \<Rightarrow> tar_error + nat \<times> fs" where
  "openLeaf env leaf fs =
     (if xe_osFails env leaf then Inl OsError
      else
        (case locate fs leaf of
           None \<Rightarrow> Inl OsError
         | Some q \<Rightarrow>
             (case fs_names fs q of
                None \<Rightarrow>
                  (let i = fs_next fs in
                   Inr (i, setName q (Ino i) (fs\<lparr>fs_next := Suc i,
                     fs_inodes := (fs_inodes fs)(i := \<lparr>in_regular = True, in_nlink = 1, in_data = [], in_mode = 0x180, in_mtime = None\<rparr>)\<rparr>)))
              | Some Dir \<Rightarrow> Inl OsError
              | Some (Sym t) \<Rightarrow> Inl SymlinkedDestination
              | Some (Ino i) \<Rightarrow> Inr (i, fs))))"

section \<open>Reading the stream\<close>

type_synonym reader = "byte list \<times> byte list list"

definition rest :: "reader \<Rightarrow> byte list" where
  "rest r = fst r @ concat (snd r)"

fun needBytes :: "nat \<Rightarrow> byte list \<Rightarrow> byte list list \<Rightarrow> bool \<times> reader" where
  "needBytes n buf [] = (n \<le> length buf, (buf, []))"
| "needBytes n buf (c # cs) =
     (if n \<le> length buf then (True, (buf, c # cs))
      else needBytes n (if buf = [] then c else buf @ c) cs)"

function takeLoop :: "nat \<Rightarrow> byte list \<Rightarrow> byte list \<Rightarrow> byte list list \<Rightarrow> tar_error + byte list \<times> reader" where
  "takeLoop n out buf cs =
     (if n = 0 then Inr (out, (buf, cs))
      else if buf = [] then (case cs of [] \<Rightarrow> Inl Truncated | c # cs' \<Rightarrow> takeLoop n out c cs')
      else
        let w = min n (length buf) in takeLoop (n - w) (out @ take w buf) (drop w buf) cs)"
  by pat_completeness auto

termination
  by (relation "measures [\<lambda>(n, out, buf, cs). length cs, \<lambda>(n, out, buf, cs). length buf]") (auto simp: Let_def)

declare takeLoop.simps [simp del]

definition takeBytes :: "nat \<Rightarrow> reader \<Rightarrow> tar_error + byte list \<times> reader" where
  "takeBytes n r = takeLoop n [] (fst r) (snd r)"

function skipLoop :: "nat \<Rightarrow> byte list \<Rightarrow> byte list list \<Rightarrow> tar_error + reader" where
  "skipLoop n buf cs =
     (if n = 0 then Inr (buf, cs)
      else if buf = [] then (case cs of [] \<Rightarrow> Inl Truncated | c # cs' \<Rightarrow> skipLoop n c cs')
      else let w = min n (length buf) in skipLoop (n - w) (drop w buf) cs)"
  by pat_completeness auto

termination
  by (relation "measures [\<lambda>(n, buf, cs). length cs, \<lambda>(n, buf, cs). length buf]") (auto simp: Let_def)

declare skipLoop.simps [simp del]

definition skipBytes :: "nat \<Rightarrow> reader \<Rightarrow> tar_error + reader" where
  "skipBytes n r = skipLoop n (fst r) (snd r)"

text \<open>The body goes straight to the open inode; what was written stays there when the stream ends early.\<close>

function writeLoop :: "nat \<Rightarrow> nat \<Rightarrow> byte list \<Rightarrow> byte list list \<Rightarrow> fs \<Rightarrow> bool \<times> reader \<times> fs" where
  "writeLoop i n buf cs fs =
     (if n = 0 then (True, (buf, cs), fs)
      else if buf = [] then (case cs of [] \<Rightarrow> (False, ([], []), fs) | c # cs' \<Rightarrow> writeLoop i n c cs' fs)
      else
        let w = min n (length buf)
        in writeLoop i (n - w) (drop w buf) cs (setInode i (\<lambda>d. d\<lparr>in_data := in_data d @ take w buf\<rparr>) fs))"
  by pat_completeness auto

termination
  by (relation "measures [\<lambda>(i, n, buf, cs, fs). length cs, \<lambda>(i, n, buf, cs, fs). length buf]") (auto simp: Let_def)

declare writeLoop.simps [simp del]

definition writeBody ::
  "extract_env \<Rightarrow> path \<Rightarrow> nat \<Rightarrow> nat \<Rightarrow> nat \<Rightarrow> reader \<Rightarrow> fs \<Rightarrow> tar_error option \<times> reader \<times> fs" where
  "writeBody env leaf fsize mode mtime r fs =
     (case openLeaf env leaf fs of
        Inl e \<Rightarrow> (Some e, r, fs)
      | Inr (i, fs) \<Rightarrow>
          if \<not> in_regular (fs_inodes fs i) then (Some Nonregular, r, fs)
          else if in_nlink (fs_inodes fs i) > 1 then (Some HardLinked, r, fs)
          else
            (case writeLoop i fsize (fst r) (snd r)
                    (setInode i (\<lambda>d. d\<lparr>in_data := [], in_mtime := None, in_mode := mode mod 512\<rparr>) fs) of
               (False, r, fs) \<Rightarrow> (Some Truncated, r, fs)
             | (True, r, fs) \<Rightarrow>
                 (None, r, if mtime > 0 then setInode i (\<lambda>d. d\<lparr>in_mtime := Some mtime\<rparr>) fs else fs)))"

section \<open>One entry, and the pass\<close>

definition MAX_PAX_METADATA_BYTES :: nat where
  "MAX_PAX_METADATA_BYTES = 64 * 1024"

record xstate =
  xs_reader :: reader
  xs_fs :: fs
  xs_files :: nat
  xs_bytes :: nat
  xs_entries :: nat
  xs_metaTotal :: nat
  xs_pendingPath :: "jtext option"

datatype xstep = Next xstate | Stop xstate | Fail tar_error xstate

definition extractMeta :: "archive_limits \<Rightarrow> parsed_header \<Rightarrow> xstate \<Rightarrow> xstep" where
  "extractMeta lim h x =
     (if ph_size h > MAX_PAX_METADATA_BYTES then Fail PaxTooBig x
      else if xs_metaTotal x + ph_size h > al_maxTotalBytes lim then Fail MetadataTooBig x
      else
        let x = x\<lparr>xs_metaTotal := xs_metaTotal x + ph_size h\<rparr> in
        case takeBytes (ph_size h) (xs_reader x) of
          Inl e \<Rightarrow> Fail e x
        | Inr (body, r) \<Rightarrow>
            (let x = x\<lparr>xs_reader := r, xs_pendingPath :=
                         (if ph_typeflag h = TYPE_PAX
                          then (case paxOverridePath body of None \<Rightarrow> xs_pendingPath x | Some p \<Rightarrow> Some p)
                          else xs_pendingPath x)\<rparr>
             in case skipBytes (blockPadding (ph_size h)) r of
                  Inl e \<Rightarrow> Fail e x
                | Inr r \<Rightarrow> Next (x\<lparr>xs_reader := r\<rparr>)))"

definition declaredPath :: "parsed_header \<Rightarrow> jtext option \<Rightarrow> jtext" where
  "declaredPath h pending =
     (case pending of
        Some p \<Rightarrow> p
      | None \<Rightarrow> if ph_prefix h \<noteq> [] then ph_prefix h @ SLASH # ph_name h else ph_name h)"

definition extractDir :: "extract_env \<Rightarrow> parsed_header \<Rightarrow> jtext list \<Rightarrow> xstate \<Rightarrow> xstep" where
  "extractDir env h segs x =
     (if ph_size h \<noteq> 0 then Fail DirWithBody x
      else
        let x = x\<lparr>xs_entries := Suc (xs_entries x)\<rparr> in
        if xs_entries x > al_maxEntries (xe_limits env) then Fail TooManyEntries x
        else
          (case ensureDirChain env (xe_realDest env) segs (xs_fs x) of
             (Some e, fs) \<Rightarrow> Fail e (x\<lparr>xs_fs := fs\<rparr>)
           | (None, fs) \<Rightarrow> Next (x\<lparr>xs_fs := fs\<rparr>)))"

definition extractFile :: "extract_env \<Rightarrow> parsed_header \<Rightarrow> jtext list \<Rightarrow> xstate \<Rightarrow> xstep" where
  "extractFile env h segs x =
     (let lim = xe_limits env; x = x\<lparr>xs_entries := Suc (xs_entries x)\<rparr> in
      if xs_entries x > al_maxEntries lim then Fail TooManyEntries x
      else if ph_size h > al_maxFileBytes lim then Fail FileTooBig x
      else if xs_bytes x + ph_size h > al_maxTotalBytes lim then Fail TooManyBytes x
      else
        (case ensureDirChain env (xe_realDest env) (butlast segs) (xs_fs x) of
           (Some e, fs) \<Rightarrow> Fail e (x\<lparr>xs_fs := fs\<rparr>)
         | (None, fs) \<Rightarrow>
             (case writeBody env (xe_realDest env @ segs) (ph_size h) (ph_mode h) (ph_mtime h) (xs_reader x) fs of
                (Some e, r, fs) \<Rightarrow> Fail e (x\<lparr>xs_reader := r, xs_fs := fs\<rparr>)
              | (None, r, fs) \<Rightarrow>
                  (let x = x\<lparr>xs_reader := r, xs_fs := fs, xs_files := Suc (xs_files x), xs_bytes := xs_bytes x + ph_size h\<rparr>
                   in case skipBytes (blockPadding (ph_size h)) r of
                        Inl e \<Rightarrow> Fail e x
                      | Inr r \<Rightarrow> Next (x\<lparr>xs_reader := r\<rparr>)))))"

definition extractEntry :: "extract_env \<Rightarrow> parsed_header \<Rightarrow> xstate \<Rightarrow> xstep" where
  "extractEntry env h x =
     (let declared = declaredPath h (xs_pendingPath x); x = x\<lparr>xs_pendingPath := None\<rparr> in
      case safeTransferPath declared of
        Inl e \<Rightarrow> Fail e x
      | Inr rel \<Rightarrow>
          (let segs = splitOn SLASH rel in
           if ph_typeflag h = TYPE_DIR then extractDir env h segs x
           else if ph_typeflag h \<noteq> TYPE_FILE then Fail BadEntryType x
           else extractFile env h segs x))"

definition handleBlock :: "extract_env \<Rightarrow> byte list \<Rightarrow> xstate \<Rightarrow> xstep" where
  "handleBlock env headerBlock x =
     (case parseHeader headerBlock of
        Inl e \<Rightarrow> Fail e x
      | Inr h \<Rightarrow>
          if ph_typeflag h = TYPE_PAX \<or> ph_typeflag h = ascii ''g'' then extractMeta (xe_limits env) h x
          else extractEntry env h x)"

definition extractStep :: "extract_env \<Rightarrow> xstate \<Rightarrow> xstep" where
  "extractStep env x =
     (case needBytes BLOCK (fst (xs_reader x)) (snd (xs_reader x)) of
        (False, r) \<Rightarrow> Stop (x\<lparr>xs_reader := r\<rparr>)
      | (True, r) \<Rightarrow>
          if isZeroBlock (take BLOCK (fst r)) then Stop (x\<lparr>xs_reader := r\<rparr>)
          else handleBlock env (take BLOCK (fst r)) (x\<lparr>xs_reader := (drop BLOCK (fst r), snd r)\<rparr>))"

section \<open>The reader sees only the bytes, not the chunks\<close>

lemma needBytes_spec:
  assumes "needBytes n buf cs = (b, r)"
  shows "rest r = buf @ concat cs \<and> (b \<longleftrightarrow> n \<le> length (buf @ concat cs)) \<and> (b \<longrightarrow> n \<le> length (fst r))"
  using assms
proof (induction n buf cs rule: needBytes.induct)
  case (2 n buf c cs)
  then show ?case by (cases "n \<le> length buf"; cases "buf = []") (auto simp: rest_def)
qed (auto simp: rest_def)

lemma takeLoop_spec:
  "if n \<le> length (buf @ concat cs)
   then \<exists>r. takeLoop n out buf cs = Inr (out @ take n (buf @ concat cs), r) \<and> rest r = drop n (buf @ concat cs)
   else takeLoop n out buf cs = Inl Truncated"
proof (induction n out buf cs rule: takeLoop.induct)
  case (1 n out buf cs)
  consider "n = 0" | "n \<noteq> 0" "buf = []" "cs = []" | c cs' where "n \<noteq> 0" "buf = []" "cs = c # cs'" | "n \<noteq> 0" "buf \<noteq> []"
    by (cases cs) auto
  then show ?case
  proof cases
    case 1
    then show ?thesis by (simp add: takeLoop.simps [of 0 out] rest_def)
  next
    case 2
    then show ?thesis by (simp add: takeLoop.simps [of n])
  next
    case 3
    then have "takeLoop n out buf cs = takeLoop n out c cs'" "buf @ concat cs = c @ concat cs'"
      by (simp_all add: takeLoop.simps [of n out "[]"])
    then show ?thesis using "1.IH"(1) [OF 3] by (simp only:)
  next
    case 4
    let ?w = "min n (length buf)"
    have step: "takeLoop n out buf cs = takeLoop (n - ?w) (out @ take ?w buf) (drop ?w buf) cs"
      using 4 by (simp add: takeLoop.simps [of n out buf] Let_def)
    have i: "n - ?w \<le> length (drop ?w buf @ concat cs) \<longleftrightarrow> n \<le> length (buf @ concat cs)" by auto
    have t: "(out @ take ?w buf) @ take (n - ?w) (drop ?w buf @ concat cs) = out @ take n (buf @ concat cs)"
      by (cases "n \<le> length buf") simp_all
    have d: "drop (n - ?w) (drop ?w buf @ concat cs) = drop n (buf @ concat cs)"
      by (cases "n \<le> length buf") simp_all
    show ?thesis using "1.IH"(2) [OF 4 refl] unfolding step i t d .
  qed
qed

lemma takeBytes_spec:
  "n \<le> length (rest r) \<Longrightarrow> \<exists>r'. takeBytes n r = Inr (take n (rest r), r') \<and> rest r' = drop n (rest r)"
  "\<not> n \<le> length (rest r) \<Longrightarrow> takeBytes n r = Inl Truncated"
  using takeLoop_spec [of n "fst r" "snd r" "[]"]
  unfolding takeBytes_def rest_def [of r, symmetric] by (simp_all split: if_split_asm)

lemma skipLoop_spec:
  "if n \<le> length (buf @ concat cs)
   then \<exists>r. skipLoop n buf cs = Inr r \<and> rest r = drop n (buf @ concat cs)
   else skipLoop n buf cs = Inl Truncated"
proof (induction n buf cs rule: skipLoop.induct)
  case (1 n buf cs)
  consider "n = 0" | "n \<noteq> 0" "buf = []" "cs = []" | c cs' where "n \<noteq> 0" "buf = []" "cs = c # cs'" | "n \<noteq> 0" "buf \<noteq> []"
    by (cases cs) auto
  then show ?case
  proof cases
    case 1
    then show ?thesis by (simp add: skipLoop.simps [of 0 buf] rest_def)
  next
    case 2
    then show ?thesis by (simp add: skipLoop.simps [of n])
  next
    case 3
    then have "skipLoop n buf cs = skipLoop n c cs'" "buf @ concat cs = c @ concat cs'"
      by (simp_all add: skipLoop.simps [of n "[]"])
    then show ?thesis using "1.IH"(1) [OF 3] by (simp only:)
  next
    case 4
    let ?w = "min n (length buf)"
    have step: "skipLoop n buf cs = skipLoop (n - ?w) (drop ?w buf) cs"
      using 4 by (simp add: skipLoop.simps [of n buf] Let_def)
    have i: "n - ?w \<le> length (drop ?w buf @ concat cs) \<longleftrightarrow> n \<le> length (buf @ concat cs)" by auto
    have d: "drop (n - ?w) (drop ?w buf @ concat cs) = drop n (buf @ concat cs)"
      by (cases "n \<le> length buf") simp_all
    show ?thesis using "1.IH"(2) [OF 4 refl] unfolding step i d .
  qed
qed

lemma skipBytes_spec:
  "n \<le> length (rest r) \<Longrightarrow> \<exists>r'. skipBytes n r = Inr r' \<and> rest r' = drop n (rest r)"
  "\<not> n \<le> length (rest r) \<Longrightarrow> skipBytes n r = Inl Truncated"
  using skipLoop_spec [of n "fst r" "snd r"]
  unfolding skipBytes_def rest_def [of r, symmetric] by (simp_all split: if_split_asm)

lemma setInode_twice: "setInode i f (setInode i g fs) = setInode i (\<lambda>d. f (g d)) fs"
  by (simp add: setInode_def)

text \<open>The copy loop appends what the stream has, up to the announced size.\<close>

lemma writeLoop_spec:
  "\<exists>r. writeLoop i n buf cs fs =
       (n \<le> length (buf @ concat cs), r,
        if n = 0 \<or> buf @ concat cs = [] then fs else setInode i (\<lambda>d. d\<lparr>in_data := in_data d @ take n (buf @ concat cs)\<rparr>) fs) \<and>
       rest r = drop n (buf @ concat cs)"
proof (induction i n buf cs fs rule: writeLoop.induct)
  case (1 i n buf cs fs)
  consider "n = 0" | "n \<noteq> 0" "buf = []" "cs = []" | c cs' where "n \<noteq> 0" "buf = []" "cs = c # cs'" | "n \<noteq> 0" "buf \<noteq> []"
    by (cases cs) auto
  then show ?case
  proof cases
    case 1
    then show ?thesis by (simp add: writeLoop.simps [of i 0] rest_def)
  next
    case 2
    then show ?thesis by (simp add: writeLoop.simps [of i n] rest_def)
  next
    case 3
    then have "writeLoop i n buf cs fs = writeLoop i n c cs' fs" "buf @ concat cs = c @ concat cs'"
      by (simp_all add: writeLoop.simps [of i n "[]"])
    then show ?thesis using "1.IH"(1) [OF 3] by (simp only:)
  next
    case 4
    let ?w = "min n (length buf)"
    let ?fs = "setInode i (\<lambda>d. d\<lparr>in_data := in_data d @ take ?w buf\<rparr>) fs"
    have step: "writeLoop i n buf cs fs = writeLoop i (n - ?w) (drop ?w buf) cs ?fs"
      using 4 by (simp add: writeLoop.simps [of i n buf] Let_def)
    have len: "n - ?w \<le> length (drop ?w buf @ concat cs) \<longleftrightarrow> n \<le> length (buf @ concat cs)" by auto
    have drp: "drop (n - ?w) (drop ?w buf @ concat cs) = drop n (buf @ concat cs)"
      by (cases "n \<le> length buf") simp_all
    have tk: "take ?w buf @ take (n - ?w) (drop ?w buf @ concat cs) = take n (buf @ concat cs)"
      by (cases "n \<le> length buf") simp_all
    have last: "take ?w buf = take n (buf @ concat cs)" if "n - ?w = 0 \<or> drop ?w buf @ concat cs = []"
      using that tk by auto
    show ?thesis
      using "1.IH"(2) [OF 4 refl] 4 tk last unfolding step len drp
      by (auto simp: setInode_twice)
  qed
qed

section \<open>The whole pass\<close>

definition remaining :: "xstate \<Rightarrow> nat" where
  "remaining x = length (rest (xs_reader x))"

lemma takeBytes_Inr: "takeBytes n r = Inr (b, r') \<Longrightarrow> n \<le> length (rest r) \<and> b = take n (rest r) \<and> rest r' = drop n (rest r)"
  using takeBytes_spec [of n r] by (cases "n \<le> length (rest r)") auto

lemma skipBytes_Inr: "skipBytes n r = Inr r' \<Longrightarrow> n \<le> length (rest r) \<and> rest r' = drop n (rest r)"
  using skipBytes_spec [of n r] by (cases "n \<le> length (rest r)") auto

lemma writeBody_reader:
  assumes "writeBody env leaf n mode mtime r fs = (e, r', fs')"
  shows "rest r' = rest r \<or> rest r' = drop n (rest r)"
proof (cases "openLeaf env leaf fs")
  case (Inr p)
  obtain i fs0 where p: "p = (i, fs0)" by (cases p) auto
  let ?fs = "setInode i (\<lambda>d. d\<lparr>in_data := [], in_mtime := None, in_mode := mode mod 512\<rparr>) fs0"
  obtain q where "writeLoop i n (fst r) (snd r) ?fs = (n \<le> length (rest r), q, snd (snd (writeLoop i n (fst r) (snd r) ?fs)))"
      "rest q = drop n (rest r)"
    using writeLoop_spec [of i n "fst r" "snd r" ?fs] by (auto simp: rest_def)
  then show ?thesis using assms Inr p
    by (auto simp: writeBody_def split: if_split_asm prod.split_asm bool.split_asm)
qed (use assms in \<open>auto simp: writeBody_def\<close>)

lemma extractMeta_remaining: "extractMeta lim h x = Next x' \<Longrightarrow> remaining x' \<le> remaining x"
  by (auto simp: extractMeta_def Let_def remaining_def dest!: takeBytes_Inr skipBytes_Inr
      split: if_split_asm sum.split_asm)

lemma extractDir_remaining: "extractDir env h segs x = Next x' \<Longrightarrow> remaining x' \<le> remaining x"
  by (auto simp: extractDir_def Let_def remaining_def split: if_split_asm prod.split_asm option.split_asm)

lemma extractFile_remaining: "extractFile env h segs x = Next x' \<Longrightarrow> remaining x' \<le> remaining x"
  by (auto simp: extractFile_def Let_def remaining_def dest!: writeBody_reader skipBytes_Inr
      split: if_split_asm prod.split_asm option.split_asm sum.split_asm)

lemma extractEntry_remaining: "extractEntry env h x = Next x' \<Longrightarrow> remaining x' \<le> remaining x"
  by (auto simp: extractEntry_def Let_def remaining_def split: if_split_asm sum.split_asm
      dest!: extractDir_remaining extractFile_remaining)

lemma handleBlock_remaining: "handleBlock env block x = Next x' \<Longrightarrow> remaining x' \<le> remaining x"
  by (auto simp: handleBlock_def split: sum.split_asm if_split_asm
      dest: extractMeta_remaining extractEntry_remaining)

text \<open>A step, by what is left of the stream.\<close>

lemma extractStep_cases:
  obtains (short) r where "remaining x < BLOCK" "rest r = rest (xs_reader x)" "extractStep env x = Stop (x\<lparr>xs_reader := r\<rparr>)"
  | (zero) r where "BLOCK \<le> remaining x" "isZeroBlock (take BLOCK (rest (xs_reader x)))" "rest r = rest (xs_reader x)"
      "extractStep env x = Stop (x\<lparr>xs_reader := r\<rparr>)"
  | (block) r where "BLOCK \<le> remaining x" "\<not> isZeroBlock (take BLOCK (rest (xs_reader x)))"
      "rest r = drop BLOCK (rest (xs_reader x))"
      "extractStep env x = handleBlock env (take BLOCK (rest (xs_reader x))) (x\<lparr>xs_reader := r\<rparr>)"
proof -
  obtain b r where nb: "needBytes BLOCK (fst (xs_reader x)) (snd (xs_reader x)) = (b, r)" by (metis surj_pair)
  note sp = needBytes_spec [OF nb, folded rest_def]
  show thesis
  proof (cases b)
    case False
    then show thesis using short [of r] nb sp by (simp add: extractStep_def remaining_def)
  next
    case True
    then have len: "BLOCK \<le> length (fst r)" "rest r = rest (xs_reader x)" "BLOCK \<le> remaining x"
      using sp by (simp_all add: remaining_def)
    have tk: "take BLOCK (fst r) = take BLOCK (rest (xs_reader x))"
      using len(1) unfolding len(2) [symmetric] by (simp add: rest_def)
    have dr: "rest (drop BLOCK (fst r), snd r) = drop BLOCK (rest (xs_reader x))"
      using len(1) unfolding len(2) [symmetric] by (simp add: rest_def)
    show thesis
    proof (cases "isZeroBlock (take BLOCK (fst r))")
      case True
      with \<open>b\<close> show thesis using zero [of r] nb len tk by (simp add: extractStep_def)
    next
      case False
      with \<open>b\<close> show thesis using block [OF len(3) _ dr] nb tk by (simp add: extractStep_def)
    qed
  qed
qed

lemma extractStep_remaining:
  assumes "extractStep env x = Next x'"
  shows "remaining x' < remaining x"
proof (cases rule: extractStep_cases [of x env])
  case (block r)
  then have "remaining x' \<le> remaining (x\<lparr>xs_reader := r\<rparr>)" using assms handleBlock_remaining by simp
  also have "\<dots> < remaining x" using block by (simp add: remaining_def BLOCK_def)
  finally show ?thesis .
qed (use assms in simp_all)

function extractLoop :: "extract_env \<Rightarrow> xstate \<Rightarrow> tar_error option \<times> xstate" where
  "extractLoop env x =
     (case extractStep env x of
        Stop x' \<Rightarrow> (None, x')
      | Fail e x' \<Rightarrow> (Some e, x')
      | Next x' \<Rightarrow> extractLoop env x')"
  by pat_completeness auto

termination
  by (relation "measure (\<lambda>(env, x). remaining x)") (simp_all add: extractStep_remaining)

declare extractLoop.simps [simp del]

definition startExtract :: "byte list list \<Rightarrow> fs \<Rightarrow> xstate" where
  "startExtract chunks fs =
     \<lparr>xs_reader = ([], chunks), xs_fs = fs, xs_files = 0, xs_bytes = 0, xs_entries = 0, xs_metaTotal = 0,
      xs_pendingPath = None\<rparr>"

text \<open>The answer: the error or the totals, and in both cases the file system the pass leaves.\<close>

definition extractTarGz :: "extract_env \<Rightarrow> byte list list \<Rightarrow> fs \<Rightarrow> (tar_error + nat \<times> nat) \<times> fs" where
  "extractTarGz env chunks fs =
     (case extractLoop env (startExtract chunks fs) of
        (Some e, x) \<Rightarrow> (Inl e, xs_fs x)
      | (None, x) \<Rightarrow> (Inr (xs_files x, xs_bytes x), xs_fs x))"

end
