(* ===== verification/TarSafety.thy ===== *)
theory TarSafety
  imports TarExtract
begin

text \<open>
  Containment of an extraction: whatever bytes the archive holds, and whatever links the destination
  held before, nothing outside the destination changes.
\<close>

section \<open>What an extraction may change\<close>

definition realPath :: "fs \<Rightarrow> path \<Rightarrow> bool" where
  "realPath fs p \<longleftrightarrow> (\<forall>q. prefix q p \<and> q \<noteq> [] \<longrightarrow> fs_names fs q = Some Dir)"

text \<open>An inode with two names says so in its link count, and every inode in use has been allotted.\<close>

definition coherent :: "fs \<Rightarrow> bool" where
  "coherent fs \<longleftrightarrow>
     (\<forall>p q i. fs_names fs p = Some (Ino i) \<and> fs_names fs q = Some (Ino i) \<and> p \<noteq> q \<longrightarrow>
              1 < in_nlink (fs_inodes fs i)) \<and>
     (\<forall>p i. fs_names fs p = Some (Ino i) \<longrightarrow> i < fs_next fs)"

definition sameLinks :: "inode \<Rightarrow> inode \<Rightarrow> bool" where
  "sameLinks a b \<longleftrightarrow> in_nlink a = in_nlink b \<and> in_regular a = in_regular b"

definition contained :: "path \<Rightarrow> fs \<Rightarrow> fs \<Rightarrow> bool" where
  "contained dest fs0 fs \<longleftrightarrow>
     coherent fs \<and> realPath fs dest \<and> fs_next fs0 \<le> fs_next fs \<and>
     (\<forall>q n. fs_names fs0 q = Some n \<longrightarrow> fs_names fs q = Some n) \<and>
     (\<forall>q. \<not> strict_prefix dest q \<longrightarrow> fs_names fs q = fs_names fs0 q) \<and>
     (\<forall>q i. fs_names fs q = Some (Ino i) \<and> fs_names fs0 q = None \<longrightarrow> fs_next fs0 \<le> i) \<and>
     (\<forall>i < fs_next fs0. sameLinks (fs_inodes fs i) (fs_inodes fs0 i) \<and>
        (fs_inodes fs i = fs_inodes fs0 i \<or>
         (\<exists>q. strict_prefix dest q \<and> fs_names fs0 q = Some (Ino i) \<and> in_nlink (fs_inodes fs0 i) \<le> 1)))"

lemma contained_refl: "coherent fs \<Longrightarrow> realPath fs dest \<Longrightarrow> contained dest fs fs"
  by (auto simp: contained_def sameLinks_def)

lemma containedD:
  assumes "contained dest fs0 fs"
  shows "coherent fs" "realPath fs dest" "fs_next fs0 \<le> fs_next fs"
    and "fs_names fs0 q = Some n \<Longrightarrow> fs_names fs q = Some n"
    and "\<not> strict_prefix dest q \<Longrightarrow> fs_names fs q = fs_names fs0 q"
    and "fs_names fs q = Some (Ino i) \<Longrightarrow> fs_names fs0 q = None \<Longrightarrow> fs_next fs0 \<le> i"
    and "i < fs_next fs0 \<Longrightarrow> sameLinks (fs_inodes fs i) (fs_inodes fs0 i)"
    and "i < fs_next fs0 \<Longrightarrow> fs_inodes fs i = fs_inodes fs0 i \<or>
         (\<exists>q. strict_prefix dest q \<and> fs_names fs0 q = Some (Ino i) \<and> in_nlink (fs_inodes fs0 i) \<le> 1)"
    and "fs_names fs q = None \<Longrightarrow> fs_names fs0 q = None"
  using assms unfolding contained_def by (blast | metis not_None_eq)+

lemma containedI:
  assumes "coherent fs" "realPath fs dest" "fs_next fs0 \<le> fs_next fs"
    and "\<And>q n. fs_names fs0 q = Some n \<Longrightarrow> fs_names fs q = Some n"
    and "\<And>q. \<not> strict_prefix dest q \<Longrightarrow> fs_names fs q = fs_names fs0 q"
    and "\<And>q i. fs_names fs q = Some (Ino i) \<Longrightarrow> fs_names fs0 q = None \<Longrightarrow> fs_next fs0 \<le> i"
    and "\<And>i. i < fs_next fs0 \<Longrightarrow> sameLinks (fs_inodes fs i) (fs_inodes fs0 i)"
    and "\<And>i. i < fs_next fs0 \<Longrightarrow> fs_inodes fs i = fs_inodes fs0 i \<or>
         (\<exists>q. strict_prefix dest q \<and> fs_names fs0 q = Some (Ino i) \<and> in_nlink (fs_inodes fs0 i) \<le> 1)"
  shows "contained dest fs0 fs"
  unfolding contained_def by (intro conjI allI impI; (elim conjE)?; rule assms; assumption)

lemma realPath_names: "realPath fs p \<Longrightarrow> (\<And>q. fs_names fs q = Some Dir \<Longrightarrow> fs_names fs' q = Some Dir) \<Longrightarrow> realPath fs' p"
  by (simp add: realPath_def)

lemma realPath_snoc: "realPath fs p \<Longrightarrow> fs_names fs (p @ [s]) = Some Dir \<Longrightarrow> realPath fs (p @ [s])"
  by (auto simp: realPath_def)

lemma realPath_append: "realPath fs (p @ q) \<Longrightarrow> realPath fs p"
  by (auto simp: realPath_def dest: prefix_prefix)

lemma walk_real: "realPath fs (cur @ segs) \<Longrightarrow> walkDir fs cur segs = Some (cur @ segs)"
proof (induction segs arbitrary: cur)
  case (Cons s ss)
  have "fs_names fs (cur @ [s]) = Some Dir" using Cons.prems by (simp add: realPath_def)
  with Cons show ?case by simp
qed simp

lemma locate_real: "realPath fs p \<Longrightarrow> locate fs (p @ [s]) = Some (p @ [s])"
  using walk_real [of fs "[]" p] by (simp add: locate_def)

section \<open>The operations stay inside\<close>

lemma setName_simps [simp]:
  "fs_names (setName q n fs) = (fs_names fs)(q \<mapsto> n)" "fs_inodes (setName q n fs) = fs_inodes fs"
  "fs_next (setName q n fs) = fs_next fs"
  by (simp_all add: setName_def)

lemma setInode_simps [simp]:
  "fs_names (setInode i f fs) = fs_names fs" "fs_inodes (setInode i f fs) = (fs_inodes fs)(i := f (fs_inodes fs i))"
  "fs_next (setInode i f fs) = fs_next fs"
  by (simp_all add: setInode_def)

lemma coherent_mkdir: "coherent fs \<Longrightarrow> coherent (setName q Dir fs)"
  by (auto simp: coherent_def split: if_split_asm)

lemma contained_mkdir:
  assumes "contained dest fs0 fs" "strict_prefix dest q" "fs_names fs q = None"
  shows "contained dest fs0 (setName q Dir fs)"
proof (rule containedI)
  note old = containedD [OF assms(1)]
  have new: "fs_names fs0 q = None" using old(9) assms(3) .
  show "coherent (setName q Dir fs)" using old(1) by (rule coherent_mkdir)
  show "realPath (setName q Dir fs) dest" by (rule realPath_names [OF old(2)]) simp
  show "fs_names (setName q Dir fs) p = Some n" if "fs_names fs0 p = Some n" for p n
    using old(4) [OF that] new that by auto
  show "fs_next fs0 \<le> i" if "fs_names (setName q Dir fs) p = Some (Ino i)" "fs_names fs0 p = None" for p i
    using that old(6) [of p i] by (simp split: if_split_asm)
  show "fs_names (setName q Dir fs) p = fs_names fs0 p" if "\<not> strict_prefix dest p" for p
    using old(5) [OF that] that assms(2) by auto
  show "fs_next fs0 \<le> fs_next (setName q Dir fs)" using old(3) by simp
  show "sameLinks (fs_inodes (setName q Dir fs) i) (fs_inodes fs0 i)" if "i < fs_next fs0" for i
    using old(7) [OF that] by simp
  show "fs_inodes (setName q Dir fs) i = fs_inodes fs0 i \<or>
      (\<exists>q. strict_prefix dest q \<and> fs_names fs0 q = Some (Ino i) \<and> in_nlink (fs_inodes fs0 i) \<le> 1)"
    if "i < fs_next fs0" for i
    using old(8) [OF that] by simp
qed

lemma ensureRealDir_contained:
  assumes "contained dest fs0 fs" "realPath fs cur" "prefix dest cur"
  shows "contained dest fs0 (snd (ensureRealDir env (cur @ [seg]) fs)) \<and>
         (fst (ensureRealDir env (cur @ [seg]) fs) = None \<longrightarrow> realPath (snd (ensureRealDir env (cur @ [seg]) fs)) (cur @ [seg]))"
proof -
  note loc = locate_real [OF assms(2), of seg]
  have inside: "strict_prefix dest (cur @ [seg])"
    using assms(3) by (auto simp: strict_prefix_def prefix_def)
  show ?thesis
  proof (cases "fs_names fs (cur @ [seg])")
    case None
    let ?fs = "setName (cur @ [seg]) Dir fs"
    have real: "realPath ?fs (cur @ [seg])"
      by (rule realPath_snoc, rule realPath_names [OF assms(2)]) simp_all
    have "locate ?fs (cur @ [seg]) = Some (cur @ [seg])" using locate_real [OF realPath_append [OF real]] by simp
    then show ?thesis
      using None loc real contained_mkdir [OF assms(1) inside None] assms(1)
      by (auto simp: ensureRealDir_def lstatSync_def mkdirSync_def realDir_def)
  next
    case (Some n)
    then show ?thesis
      using loc assms(1,2) realPath_snoc [OF assms(2)]
      by (cases n) (auto simp: ensureRealDir_def lstatSync_def realDir_def)
  qed
qed

lemma ensureDirChain_contained:
  assumes "contained dest fs0 fs" "realPath fs cur" "prefix dest cur"
  shows "contained dest fs0 (snd (ensureDirChain env cur segs fs)) \<and>
         (fst (ensureDirChain env cur segs fs) = None \<longrightarrow> realPath (snd (ensureDirChain env cur segs fs)) (cur @ segs))"
  using assms
proof (induction env cur segs fs rule: ensureDirChain.induct)
  case (2 env cur seg segs fs)
  obtain e fs' where e: "ensureRealDir env (cur @ [seg]) fs = (e, fs')" by fastforce
  note step = ensureRealDir_contained [OF "2.prems", of env seg, unfolded e]
  show ?case
  proof (cases e)
    case None
    have "prefix dest (cur @ [seg])" using "2.prems"(3) by (rule prefix_prefix)
    from "2.IH" [OF e [symmetric] None _ _ this] step None show ?thesis by (simp add: e)
  next
    case (Some err)
    then show ?thesis using step by (simp add: e)
  qed
qed simp

lemma contained_setInode:
  assumes "contained dest fs0 fs" "fs_names fs leaf = Some (Ino i)" "strict_prefix dest leaf"
    and "\<not> 1 < in_nlink (fs_inodes fs i)" "\<And>d. sameLinks (f d) d"
  shows "contained dest fs0 (setInode i f fs)"
proof (rule containedI)
  note old = containedD [OF assms(1)]
  show "coherent (setInode i f fs)" using old(1) assms(5) by (auto simp: coherent_def sameLinks_def)
  show "realPath (setInode i f fs) dest" by (rule realPath_names [OF old(2)]) simp
  have links: "sameLinks (f (fs_inodes fs i)) (fs_inodes fs0 i)" if "i < fs_next fs0"
    using old(7) [OF that] assms(5) [of "fs_inodes fs i"] by (simp add: sameLinks_def)
  then show "sameLinks (fs_inodes (setInode i f fs) k) (fs_inodes fs0 k)" if "k < fs_next fs0" for k
    using old(7) [OF that] that by auto
  show "fs_inodes (setInode i f fs) k = fs_inodes fs0 k \<or>
      (\<exists>q. strict_prefix dest q \<and> fs_names fs0 q = Some (Ino k) \<and> in_nlink (fs_inodes fs0 k) \<le> 1)"
    if k: "k < fs_next fs0" for k
  proof (cases "k = i")
    case True
    obtain n where n: "fs_names fs0 leaf = Some n" using old(6) [OF assms(2)] k True by (cases "fs_names fs0 leaf") auto
    then have "fs_names fs0 leaf = Some (Ino i)" using old(4) [OF n] assms(2) by simp
    moreover have "in_nlink (fs_inodes fs0 i) \<le> 1"
      using old(7) [of i] k True assms(4) by (simp add: sameLinks_def)
    ultimately show ?thesis using assms(3) True by blast
  next
    case False
    then show ?thesis using old(8) [OF k] by simp
  qed
  show "fs_next fs0 \<le> fs_next (setInode i f fs)" using old(3) by simp
  show "fs_names (setInode i f fs) q = Some n" if "fs_names fs0 q = Some n" for q n using old(4) [OF that] by simp
  show "fs_names (setInode i f fs) q = fs_names fs0 q" if "\<not> strict_prefix dest q" for q using old(5) [OF that] by simp
  show "fs_next fs0 \<le> k" if "fs_names (setInode i f fs) q = Some (Ino k)" "fs_names fs0 q = None" for q k
    using old(6) that by simp
qed

lemma contained_create:
  assumes "contained dest fs0 fs" "strict_prefix dest q" "fs_names fs q = None" "in_nlink d = 1"
  shows "contained dest fs0 (setName q (Ino (fs_next fs)) (fs\<lparr>fs_next := Suc (fs_next fs),
           fs_inodes := (fs_inodes fs)(fs_next fs := d)\<rparr>))" (is "contained dest fs0 ?fs")
proof (rule containedI)
  note old = containedD [OF assms(1)]
  have new: "fs_names fs0 q = None" using old(9) assms(3) .
  have fresh: "i \<noteq> fs_next fs" if "fs_names fs p = Some (Ino i)" for p i
    using old(1) that unfolding coherent_def by blast
  show "coherent ?fs"
    using old(1) fresh unfolding coherent_def by (auto split: if_split_asm intro: less_SucI)
  show "realPath ?fs dest" by (rule realPath_names [OF old(2)]) (use assms(3) in auto)
  show "fs_names ?fs p = Some n" if "fs_names fs0 p = Some n" for p n
    using old(4) [OF that] new that by auto
  show "fs_next fs0 \<le> i" if "fs_names ?fs p = Some (Ino i)" "fs_names fs0 p = None" for p i
    using that old(6) [of p i] old(3) by (simp split: if_split_asm)
  show "fs_names ?fs p = fs_names fs0 p" if "\<not> strict_prefix dest p" for p
    using old(5) [OF that] that assms(2) by auto
  have same: "fs_inodes ?fs i = fs_inodes fs i" if "i < fs_next fs0" for i using that old(3) by simp
  show "sameLinks (fs_inodes ?fs i) (fs_inodes fs0 i)" if "i < fs_next fs0" for i
    unfolding same [OF that] by (rule old(7) [OF that])
  show "fs_inodes ?fs i = fs_inodes fs0 i \<or>
      (\<exists>q. strict_prefix dest q \<and> fs_names fs0 q = Some (Ino i) \<and> in_nlink (fs_inodes fs0 i) \<le> 1)"
    if "i < fs_next fs0" for i
    unfolding same [OF that] by (rule old(8) [OF that])
  show "fs_next fs0 \<le> fs_next ?fs" using old(3) by simp
qed


lemma openLeaf_contained:
  assumes "contained dest fs0 fs" "realPath fs cur" "prefix dest cur" "openLeaf env (cur @ [seg]) fs = Inr (i, fs')"
  shows "contained dest fs0 fs'" "fs_names fs' (cur @ [seg]) = Some (Ino i)" "strict_prefix dest (cur @ [seg])"
proof -
  note loc = locate_real [OF assms(2), of seg]
  show inside: "strict_prefix dest (cur @ [seg])"
    using assms(3) by (auto simp: strict_prefix_def prefix_def)
  have "contained dest fs0 fs' \<and> fs_names fs' (cur @ [seg]) = Some (Ino i)"
  proof (cases "fs_names fs (cur @ [seg])")
    case None
    from contained_create [OF assms(1) inside None] None assms(4) loc show ?thesis
      by (auto simp: openLeaf_def Let_def split: if_split_asm)
  next
    case (Some n)
    with assms(1,4) loc show ?thesis by (cases n) (auto simp: openLeaf_def split: if_split_asm)
  qed
  then show "contained dest fs0 fs'" "fs_names fs' (cur @ [seg]) = Some (Ino i)" by auto
qed

lemma writeBody_contained:
  assumes "contained dest fs0 fs" "realPath fs cur" "prefix dest cur"
  shows "contained dest fs0 (snd (snd (writeBody env (cur @ [seg]) n mode mtime r fs)))"
proof (cases "openLeaf env (cur @ [seg]) fs")
  case (Inl e)
  with assms(1) show ?thesis by (simp add: writeBody_def)
next
  case (Inr p)
  obtain i fs1 where p: "p = (i, fs1)" by (cases p) auto
  note open1 = openLeaf_contained [OF assms Inr [unfolded p]]
  let ?fs2 = "setInode i (\<lambda>d. d\<lparr>in_data := [], in_mtime := None, in_mode := mode mod 512\<rparr>) fs1"
  show ?thesis
  proof (cases "in_regular (fs_inodes fs1 i) \<and> \<not> 1 < in_nlink (fs_inodes fs1 i)")
    case False
    with Inr p open1(1) show ?thesis by (auto simp: writeBody_def)
  next
    case True
    have upd: "contained dest fs0 (setInode i f fs1)" if "\<And>d. sameLinks (f d) d" for f
      using contained_setInode [OF open1(1,2,3) _ that] True by simp
    obtain b q fs3 where w: "writeLoop i n (fst r) (snd r) ?fs2 = (b, q, fs3)" by (metis surj_pair)
    then have fs3: "fs3 = ?fs2 \<or> (\<exists>bs. fs3 = setInode i (\<lambda>d. d\<lparr>in_data := in_data d @ bs\<rparr>) ?fs2)"
      using writeLoop_spec [of i n "fst r" "snd r" ?fs2] by (auto split: if_split_asm)
    have "contained dest fs0 fs3 \<and> contained dest fs0 (setInode i (\<lambda>d. d\<lparr>in_mtime := Some mtime\<rparr>) fs3)"
      using fs3 by (auto simp: setInode_twice intro!: upd simp: sameLinks_def)
    with True w Inr p show ?thesis by (cases b) (auto simp: writeBody_def)
  qed
qed

section \<open>The pass stays inside\<close>

fun stepState :: "xstep \<Rightarrow> xstate" where
  "stepState (Next x) = x"
| "stepState (Stop x) = x"
| "stepState (Fail e x) = x"

abbreviation safeState :: "extract_env \<Rightarrow> fs \<Rightarrow> xstate \<Rightarrow> bool" where
  "safeState env fs0 x \<equiv> contained (xe_realDest env) fs0 (xs_fs x)"

lemma extractMeta_safe: "safeState env fs0 x \<Longrightarrow> safeState env fs0 (stepState (extractMeta lim h x))"
  by (auto simp: extractMeta_def Let_def split: sum.split)

lemma extractDir_safe:
  assumes "safeState env fs0 x"
  shows "safeState env fs0 (stepState (extractDir env h segs x))"
proof -
  have "realPath (xs_fs x) (xe_realDest env)" using assms by (rule containedD(2))
  from ensureDirChain_contained [OF assms this prefix_order.refl, of env segs]
  show ?thesis using assms
    by (auto simp: extractDir_def Let_def split: prod.split option.split)
qed

lemma extractFile_safe:
  assumes "safeState env fs0 x" "segs \<noteq> []"
  shows "safeState env fs0 (stepState (extractFile env h segs x))"
proof -
  obtain e fs where chain: "ensureDirChain env (xe_realDest env) (butlast segs) (xs_fs x) = (e, fs)" by fastforce
  have "realPath (xs_fs x) (xe_realDest env)" using assms(1) by (rule containedD(2))
  from ensureDirChain_contained [OF assms(1) this prefix_order.refl, of env "butlast segs", unfolded chain]
  have c: "contained (xe_realDest env) fs0 fs" and r: "e = None \<Longrightarrow> realPath fs (xe_realDest env @ butlast segs)" by auto
  have leaf: "xe_realDest env @ segs = (xe_realDest env @ butlast segs) @ [last segs]" using assms(2) by simp
  have w: "e = None \<Longrightarrow> contained (xe_realDest env) fs0
      (snd (snd (writeBody env (xe_realDest env @ segs) (ph_size h) (ph_mode h) (ph_mtime h) (xs_reader x) fs)))"
    unfolding leaf by (rule writeBody_contained [OF c r]) simp_all
  show ?thesis
    using assms(1) c w chain
    by (auto simp: extractFile_def Let_def split: prod.split option.split sum.split)
qed

lemma extractStep_safe:
  assumes "safeState env fs0 x"
  shows "safeState env fs0 (stepState (extractStep env x))"
proof -
  have entry: "safeState env fs0 (stepState (extractEntry env h x))" if "safeState env fs0 x" for h x
    using that extractDir_safe extractFile_safe
    by (auto simp: extractEntry_def Let_def split: sum.split)
  have "safeState env fs0 (stepState (handleBlock env b x))" if "safeState env fs0 x" for b x
    using that entry extractMeta_safe by (auto simp: handleBlock_def split: sum.split)
  then show ?thesis using assms by (cases rule: extractStep_cases [of x env]) simp_all
qed

lemma extractLoop_keeps:
  "(\<And>x. P x \<Longrightarrow> P (stepState (extractStep env x))) \<Longrightarrow> P x \<Longrightarrow> P (snd (extractLoop env x))"
proof (induction env x rule: extractLoop.induct)
  case (1 env x)
  have now: "P (stepState (extractStep env x))" by (rule "1.prems"(1) [OF "1.prems"(2)])
  show ?case
  proof (cases "extractStep env x")
    case (Next x')
    with now have "P x'" by simp
    from "1.IH" [OF Next "1.prems"(1) this] Next show ?thesis by (simp add: extractLoop.simps [of env x])
  next
    case (Stop x')
    with now show ?thesis by (simp add: extractLoop.simps [of env x])
  next
    case (Fail e x')
    with now show ?thesis by (simp add: extractLoop.simps [of env x])
  qed
qed

lemma extractTarGz_fs: "snd (extractTarGz env chunks fs0) = xs_fs (snd (extractLoop env (startExtract chunks fs0)))"
  by (simp add: extractTarGz_def split: prod.split option.split)

text \<open>
  C17: Extraction never leaves its destination.  Whatever the archive holds and wherever the pass
  stops, nothing that was there is removed or replaced by something else, no name outside the
  destination appears or changes, and no file that has a name outside it is written to, be it through
  a symbolic link, a hard link or a hostile path.\<close>

theorem extraction_contained:
  assumes "coherent fs0" and "realPath fs0 (xe_realDest env)" and "snd (extractTarGz env chunks fs0) = fs"
  shows "(\<forall>q n. fs_names fs0 q = Some n \<longrightarrow> fs_names fs q = Some n) \<and>
         (\<forall>q. \<not> strict_prefix (xe_realDest env) q \<longrightarrow> fs_names fs q = fs_names fs0 q) \<and>
         (\<forall>q i. \<not> strict_prefix (xe_realDest env) q \<and> fs_names fs0 q = Some (Ino i) \<longrightarrow> fs_inodes fs i = fs_inodes fs0 i)"
proof -
  have c: "contained (xe_realDest env) fs0 fs"
    unfolding assms(3) [symmetric] extractTarGz_fs
    by (rule extractLoop_keeps [where P = "safeState env fs0", OF extractStep_safe])
      (simp_all add: startExtract_def contained_refl assms(1,2))
  have "fs_inodes fs i = fs_inodes fs0 i" if q: "\<not> strict_prefix (xe_realDest env) q" "fs_names fs0 q = Some (Ino i)" for q i
  proof (rule ccontr)
    assume "fs_inodes fs i \<noteq> fs_inodes fs0 i"
    moreover have "i < fs_next fs0" using assms(1) q(2) unfolding coherent_def by blast
    ultimately obtain p where p: "strict_prefix (xe_realDest env) p" "fs_names fs0 p = Some (Ino i)"
        "in_nlink (fs_inodes fs0 i) \<le> 1"
      using containedD(8) [OF c] by blast
    then have "p \<noteq> q" using q(1) by blast
    then have "1 < in_nlink (fs_inodes fs0 i)" using assms(1) p(2) q(2) unfolding coherent_def by blast
    with p(3) show False by simp
  qed
  then show ?thesis using containedD(4,5) [OF c] by blast
qed

end
