(* ===== verification/TarTransfer.thy ===== *)
theory TarTransfer
  imports TarSafety
begin

text \<open>
  The writer and the extractor together: what one machine packs is what the other lays down.
\<close>


section \<open>What the writer puts into the stream\<close>

lemma emit_Inr:
  "emit lim b w = Inr w' \<longleftrightarrow>
   ws_tarBytes w + length b \<le> al_maxTotalBytes lim \<and>
   w' = w\<lparr>ws_tarBytes := ws_tarBytes w + length b, ws_out := ws_out w @ b\<rparr>"
  by (auto simp: emit_def Let_def)

lemma emitAll_Inr:
  "emitAll lim bs w = Inr w' \<Longrightarrow>
   ws_out w' = ws_out w @ concat bs \<and> ws_tarBytes w' = ws_tarBytes w + length (concat bs) \<and>
   ws_entries w' = ws_entries w \<and> (bs \<noteq> [] \<longrightarrow> ws_tarBytes w' \<le> al_maxTotalBytes lim)"
  by (induction bs arbitrary: w) (fastforce simp: ebind_Inr_iff emit_Inr)+

lemma drainBlocks_Inr:
  "drainBlocks lim carry written w = Inr (carry', written', w') \<Longrightarrow>
   ws_out w' @ carry' = ws_out w @ carry \<and> written' + length carry' = written + length carry \<and>
   length carry' < BLOCK \<and> (written mod BLOCK = 0 \<longrightarrow> written' mod BLOCK = 0) \<and>
   ws_tarBytes w' + written = ws_tarBytes w + written' \<and> ws_entries w' = ws_entries w"
proof (induction lim carry written w rule: drainBlocks.induct)
  case (1 lim carry written w)
  show ?case
  proof (cases "BLOCK \<le> length carry")
    case True
    with "1.prems" obtain w1 where w1: "\<not> al_maxFileBytes lim < written + BLOCK" "emit lim (take BLOCK carry) w = Inr w1"
        "drainBlocks lim (drop BLOCK carry) (written + BLOCK) w1 = Inr (carry', written', w')"
      by (auto simp: drainBlocks.simps [of lim carry] ebind_Inr_iff split: if_split_asm)
    from "1.IH" [OF True w1(1,3)] w1(2) True show ?thesis by (auto simp: emit_Inr)
  next
    case False
    with "1.prems" show ?thesis by (simp add: drainBlocks.simps [of lim carry])
  qed
qed

lemma streamBody_Inr:
  "streamBody lim src carry written w = Inr (carry', written', w') \<Longrightarrow> length carry < BLOCK \<Longrightarrow>
   ws_out w' @ carry' = ws_out w @ carry @ concat src \<and>
   written' + length carry' = written + length carry + length (concat src) \<and>
   length carry' < BLOCK \<and> (written mod BLOCK = 0 \<longrightarrow> written' mod BLOCK = 0) \<and>
   ws_tarBytes w' + written = ws_tarBytes w + written' \<and> ws_entries w' = ws_entries w"
proof (induction src arbitrary: carry written w)
  case (Cons raw src)
  obtain c1 n1 w1 where d: "drainBlocks lim (carry @ raw) written w = Inr (c1, n1, w1)"
      "streamBody lim src c1 n1 w1 = Inr (carry', written', w')"
    using Cons.prems(1) by (auto simp: ebind_Inr_iff)
  note step = drainBlocks_Inr [OF d(1)]
  from Cons.IH [OF d(2)] step show ?case by auto
qed simp

lemma streamBody_tarBytes:
  "streamBody lim src carry written w = Inr (carry', written', w') \<Longrightarrow> ws_tarBytes w \<le> ws_tarBytes w'"
proof (induction src arbitrary: carry written w)
  case (Cons raw src)
  have mono: "drainBlocks lim carry written w = Inr (c1, n1, w1) \<Longrightarrow> ws_tarBytes w \<le> ws_tarBytes w1" for carry written w c1 n1 w1
  proof (induction lim carry written w rule: drainBlocks.induct)
    case (1 lim carry written w)
    then show ?case
      by (fastforce simp: drainBlocks.simps [of lim carry] ebind_Inr_iff emit_Inr split: if_split_asm)
  qed
  obtain c1 n1 w1 where d: "drainBlocks lim (carry @ raw) written w = Inr (c1, n1, w1)"
      "streamBody lim src c1 n1 w1 = Inr (carry', written', w')"
    using Cons.prems(1) by (auto simp: ebind_Inr_iff)
  from mono [OF d(1)] Cons.IH [OF d(2)] show ?case by simp
qed simp

lemma setAt_front: "length c \<le> n \<Longrightarrow> setAt 0 c (replicate n x) = c @ replicate (n - length c) x"
  by (simp add: setAt_def)

lemma padding_mod: "m mod BLOCK = 0 \<Longrightarrow> blockPadding (m + n) = blockPadding n"
  by (simp add: blockPadding_def mod_add_eq [symmetric, of m] del: mod_add_eq)

text \<open>A written file body is the file, padded to a whole block.\<close>

lemma body_out:
  assumes "streamBody lim src [] 0 w = Inr (carry, written, w1)" "writeTail lim carry written w1 = Inr (amount, w2)"
  shows "ws_out w2 = ws_out w @ concat src @ replicate (blockPadding (length (concat src))) 0"
    and "amount = length (concat src)" "ws_entries w2 = ws_entries w" "ws_tarBytes w + amount \<le> ws_tarBytes w2"
proof -
  note s = streamBody_Inr [OF assms(1)]
  have lt: "length ([] :: byte list) < BLOCK" by (simp add: BLOCK_def)
  note s = streamBody_Inr [OF assms(1) lt]
  have w: "written mod BLOCK = 0" "written + length carry = length (concat src)" using s by simp_all
  have pad: "blockPadding (length carry) = blockPadding (length (concat src))"
    using padding_mod [OF w(1), of "length carry"] w(2) by simp
  have "ws_out w2 = ws_out w @ concat src @ replicate (blockPadding (length (concat src))) 0 \<and>
      amount = length (concat src) \<and> ws_entries w2 = ws_entries w \<and> ws_tarBytes w + amount \<le> ws_tarBytes w2"
  proof (cases "carry = []")
    case True
    then have "blockPadding (length (concat src)) = 0" using pad by (simp add: blockPadding_def)
    with True s assms(2) show ?thesis by (auto simp: writeTail_def)
  next
    case False
    have "setAt 0 carry (replicate (length carry + blockPadding (length carry)) 0) =
        carry @ replicate (blockPadding (length (concat src))) 0"
      using pad by (simp add: setAt_front)
    with False s assms(2) show ?thesis
      by (auto simp: writeTail_def Let_def ebind_Inr_iff emit_Inr split: if_split_asm)
  qed
  then show "ws_out w2 = ws_out w @ concat src @ replicate (blockPadding (length (concat src))) 0"
    "amount = length (concat src)" "ws_entries w2 = ws_entries w" "ws_tarBytes w + amount \<le> ws_tarBytes w2" by simp_all
qed


section \<open>Reading one header back\<close>

definition resume :: "extract_env \<Rightarrow> xstep \<Rightarrow> tar_error option \<times> xstate" where
  "resume env s = (case s of Stop x \<Rightarrow> (None, x) | Fail e x \<Rightarrow> (Some e, x) | Next x \<Rightarrow> extractLoop env x)"

lemma resume_simps [simp]:
  "resume env (Stop x) = (None, x)" "resume env (Fail e x) = (Some e, x)" "resume env (Next x) = extractLoop env x"
  by (simp_all add: resume_def)

lemma extractLoop_step: "extractLoop env x = resume env (extractStep env x)"
  by (simp add: extractLoop.simps [of env x] resume_def)

lemma built_not_zero:
  assumes "buildHeader spec = Inr h"
  shows "\<not> isZeroBlock h" "length h = 512"
proof -
  note len = headerBody_length [OF assms]
  have "slice 257 263 h = [117, 115, 116, 97, 114, 0]"
    unfolding len(8) writeChecksum_slice(1) [OF len(1), of 263 257, simplified]
    using len by (simp add: headerBody_def body_slices)
  moreover have "slice 257 263 (replicate 512 (0::byte)) = replicate 6 0" by (simp add: slice_zeros)
  moreover show h: "length h = 512" unfolding len(8) using writeChecksum_slice(2) [OF len(1), of 0 0] by simp
  moreover have "hd (replicate 6 (0::byte)) \<noteq> hd [117, 115, 116, 97, 114, 0]" by (simp add: hd_replicate)
  ultimately have "h \<noteq> replicate 512 0" by metis
  then show "\<not> isZeroBlock h" using h by (simp add: isZeroBlock_def BLOCK_def)
qed

lemma step_header:
  assumes "buildHeader spec = Inr h" "rest (xs_reader x) = h @ tail"
  obtains r where "rest r = tail" "extractStep env x = handleBlock env h (x\<lparr>xs_reader := r\<rparr>)"
proof -
  have h: "length h = BLOCK" "\<not> isZeroBlock h" using built_not_zero [OF assms(1)] by (simp_all add: BLOCK_def)
  then have "BLOCK \<le> remaining x" "take BLOCK (rest (xs_reader x)) = h" "drop BLOCK (rest (xs_reader x)) = tail"
    using assms(2) by (simp_all add: remaining_def)
  with h(2) that show thesis by (cases rule: extractStep_cases [of x env]) auto
qed

lemma placeholder_texts:
  "fieldText (ascii ''./PaxHeaders/.dir'')" "fieldText (ascii ''./PaxHeaders/.file'')"
  "fieldText (ascii ''./PaxHeaders/.longname'')"
  by (simp_all add: fieldText_def ascii_def scalar_def surrogate_def)

lemma digits_bound:
  assumes "n = length (to_digits 10 n) + c" "c \<le> 60010"
  shows "n \<le> 60020"
proof (rule ccontr)
  assume "\<not> n \<le> 60020"
  then have "10 \<le> length (to_digits 10 n)" using assms by linarith
  then obtain k where k: "length (to_digits 10 n) = 10 + k" unfolding le_iff_add by blast
  then have "\<not> length (to_digits 10 n) \<le> k + 9" by simp
  then have "10 ^ (k + 9) \<le> n" using length_to_digits_conv [of 10 "k + 9" n] by simp
  moreover have "k + 60020 < 10 ^ (k + 9)"
  proof (induction k)
    case (Suc k)
    have "(10::nat) ^ (Suc k + 9) = 10 * 10 ^ (k + 9)" by (simp only: power_Suc add_Suc)
    with Suc show ?case by linarith
  qed simp
  ultimately show False using assms k by linarith
qed

lemma pax_record_size:
  assumes "paxRecord (ascii ''path'') name = Inr record" "length (textEncode name) \<le> 60000"
  shows "length record \<le> 60020"
proof -
  obtain len where l: "record = paxLine (ascii ''path'' @ ascii ''='' @ name) len" "length record = len"
    using paxRecord_total [of "ascii ''path''" name] assms(1) by auto
  have "length (textEncode (ascii ''path'' @ ascii ''='' @ name)) = length (textEncode name) + 5"
    by (simp add: ascii_def)
  then have "len = length (to_digits 10 len) + (length (textEncode name) + 7)"
    using paxLine_length [of "ascii ''path'' @ ascii ''='' @ name" len] l by simp
  from digits_bound [OF this] assms(2) l(2) show ?thesis by simp
qed


text \<open>The header the extractor sees, and the path it takes from it.\<close>

definition readHeader :: "jtext \<Rightarrow> nat \<Rightarrow> nat \<Rightarrow> int \<Rightarrow> jtext \<Rightarrow> parsed_header" where
  "readHeader n fsize mode mtime t =
     \<lparr>ph_name = n, ph_prefix = [], ph_size = fsize, ph_mode = mode mod 4096, ph_mtime = nat (mtime mod 2 ^ 32),
      ph_typeflag = t\<rparr>"

lemma step_plain:
  assumes "buildHeader \<lparr>hs_nameBytes = textEncode n, hs_size = fsize, hs_mode = mode, hs_mtimeSeconds = mtime, hs_typeflag = [t]\<rparr> = Inr h"
    and "fieldText n" "t < 0x80" "[t] \<noteq> TYPE_PAX" "[t] \<noteq> ascii ''g''" "rest (xs_reader x) = h @ tail"
  obtains r where "rest r = tail"
    "extractLoop env x = resume env (extractEntry env (readHeader n fsize mode mtime [t]) (x\<lparr>xs_reader := r\<rparr>))"
proof -
  obtain r where r: "rest r = tail" "extractStep env x = handleBlock env h (x\<lparr>xs_reader := r\<rparr>)"
    using step_header [OF assms(1,6)] by metis
  have "parseHeader h = Inr (readHeader n fsize mode mtime [t])"
    using built_header_parses [OF assms(1) _ assms(2) _ assms(3)] by (simp add: readHeader_def)
  with r assms(4,5) show thesis
    by (intro that [of r]) (simp_all add: extractLoop_step handleBlock_def readHeader_def)
qed

lemma pax_blocks:
  assumes "paxPathBlocks name = Inr bs" "\<forall>c \<in> set name. scalar c" "NEWLINE \<notin> set name" "length (textEncode name) \<le> 60000"
  obtains h rcd where "bs = [h, rcd @ replicate (blockPadding (length rcd)) 0]"
    "buildHeader \<lparr>hs_nameBytes = textEncode (ascii ''./PaxHeaders/.longname''), hs_size = length rcd,
       hs_mode = 0x1A4, hs_mtimeSeconds = 0, hs_typeflag = TYPE_PAX\<rparr> = Inr h"
    "paxOverridePath rcd = Some name" "length rcd \<le> 60020"
proof -
  obtain rcd h where rec: "paxRecord (ascii ''path'') name = Inr rcd"
    and h: "buildHeader \<lparr>hs_nameBytes = textEncode (ascii ''./PaxHeaders/.longname''), hs_size = length rcd,
       hs_mode = 0x1A4, hs_mtimeSeconds = 0, hs_typeflag = TYPE_PAX\<rparr> = Inr h"
    and bs: "bs = [h, setAt 0 rcd (replicate ((length rcd + (BLOCK - 1)) div BLOCK * BLOCK) 0)]"
    using assms(1) by (auto simp: paxPathBlocks_def ebind_Inr_iff)
  have ceil: "(m + (BLOCK - 1)) div BLOCK * BLOCK = m + blockPadding m" for m
  proof -
    define q r where "q = m div 512" and "r = m mod 512"
    have m: "m = q * 512 + r" "r < 512" by (simp_all add: q_def r_def)
    have "(m + 511) div 512 = q + (r + 511) div 512" using m(1) by simp
    also have "(r + 511) div 512 = (if r = 0 then 0 else 1)" using m(2) by (auto intro: div_nat_eqI)
    finally have "(m + 511) div 512 * 512 = m + (512 - r) mod 512" using m by (cases "r = 0") simp_all
    then have "(m + 511) div 512 * 512 = m + (512 - m mod 512) mod 512" by (simp only: r_def)
    then show ?thesis by (simp add: BLOCK_def blockPadding_def)
  qed
  have "setAt 0 rcd (replicate ((length rcd + (BLOCK - 1)) div BLOCK * BLOCK) 0) =
      rcd @ replicate (blockPadding (length rcd)) 0"
    unfolding ceil by (simp add: setAt_front)
  moreover obtain len where "rcd = paxLine (ascii ''path='' @ name) len"
    using paxRecord_total [of "ascii ''path''" name] rec by (auto simp: ascii_def)
  ultimately show thesis
    using that [of h rcd] h bs paxLine_reads_back [OF assms(2,3)] pax_record_size [OF rec assms(4)] by simp
qed

lemma step_pax:
  assumes "paxPathBlocks name = Inr bs" "\<forall>c \<in> set name. scalar c" "NEWLINE \<notin> set name" "length (textEncode name) \<le> 60000"
    and "rest (xs_reader x) = concat bs @ tail" "xs_metaTotal x + length (concat bs) \<le> al_maxTotalBytes (xe_limits env)"
  obtains r m where "rest r = tail" "m \<le> xs_metaTotal x + length (concat bs)"
    "extractLoop env x = extractLoop env (x\<lparr>xs_reader := r, xs_metaTotal := m, xs_pendingPath := Some name\<rparr>)"
proof -
  obtain h rcd where b: "bs = [h, rcd @ replicate (blockPadding (length rcd)) 0]"
    and h: "buildHeader \<lparr>hs_nameBytes = textEncode (ascii ''./PaxHeaders/.longname''), hs_size = length rcd,
       hs_mode = 0x1A4, hs_mtimeSeconds = 0, hs_typeflag = TYPE_PAX\<rparr> = Inr h"
    and o: "paxOverridePath rcd = Some name" "length rcd \<le> 60020"
    using pax_blocks [OF assms(1-4)] .
  obtain r1 where r1: "rest r1 = rcd @ replicate (blockPadding (length rcd)) 0 @ tail"
      "extractStep env x = handleBlock env h (x\<lparr>xs_reader := r1\<rparr>)"
    by (rule step_header [OF h, of x "rcd @ replicate (blockPadding (length rcd)) 0 @ tail" env]) (use assms(5) b in simp_all)
  have ph: "parseHeader h = Inr (readHeader (ascii ''./PaxHeaders/.longname'') (length rcd) 0x1A4 0 TYPE_PAX)"
    using built_header_parses [OF h, of "ascii ''./PaxHeaders/.longname''" "hd TYPE_PAX"] placeholder_texts(3)
    by (simp add: readHeader_def TYPE_PAX_def)
  obtain r2 where r2: "takeBytes (length rcd) r1 = Inr (rcd, r2)" "rest r2 = replicate (blockPadding (length rcd)) 0 @ tail"
    using takeBytes_spec(1) [of "length rcd" r1] r1(1) by auto
  obtain r3 where r3: "skipBytes (blockPadding (length rcd)) r2 = Inr r3" "rest r3 = tail"
    using skipBytes_spec(1) [of "blockPadding (length rcd)" r2] r2(2) by auto
  have "extractStep env x = Next (x\<lparr>xs_reader := r3, xs_metaTotal := xs_metaTotal x + length rcd, xs_pendingPath := Some name\<rparr>)"
    using r1(2) ph r2(1) r3(1) o assms(6) b
    by (simp add: handleBlock_def extractMeta_def readHeader_def Let_def MAX_PAX_METADATA_BYTES_def)
  then show thesis
    by (intro that [OF r3(2), of "xs_metaTotal x + length rcd"]) (simp_all add: b extractLoop_step)
qed

definition transferName :: "jtext \<Rightarrow> bool" where
  "transferName n \<longleftrightarrow> (\<forall>c \<in> set n. scalar c) \<and> 0 \<notin> set n \<and> NEWLINE \<notin> set n \<and>
     n \<noteq> [] \<and> hd n \<noteq> 0xFEFF \<and> length (textEncode n) \<le> 60000"

lemma transferName_field: "transferName n \<Longrightarrow> fieldText n"
  using last_in_set [of n] unfolding transferName_def fieldText_def by metis

lemma header_read:
  assumes wh: "writeHeader lim name ph fsize mode mtime [t] w = Inr w'" and lim: "xe_limits env = lim"
    and name: "transferName name" and ph: "fieldText (ascii ph)" and t: "t < 0x80" "[t] \<noteq> TYPE_PAX" "[t] \<noteq> ascii ''g''"
  obtains hb where "ws_out w' = ws_out w @ hb" "ws_tarBytes w' = ws_tarBytes w + length hb" "ws_entries w' = ws_entries w"
    "ws_tarBytes w' \<le> al_maxTotalBytes lim"
    "\<And>x tail. rest (xs_reader x) = hb @ tail \<Longrightarrow> xs_pendingPath x = None \<Longrightarrow> xs_metaTotal x \<le> ws_tarBytes w \<Longrightarrow>
       \<exists>r m p n. rest r = tail \<and> m \<le> ws_tarBytes w' \<and> declaredPath (readHeader n fsize mode mtime [t]) p = name \<and>
         extractLoop env x = resume env (extractEntry env (readHeader n fsize mode mtime [t])
           (x\<lparr>xs_reader := r, xs_metaTotal := m, xs_pendingPath := p\<rparr>))"
proof -
  let ?name = "if needsPax name then ascii ph else name"
  obtain w1 h where w1: "(if needsPax name then ebind (paxPathBlocks name) (\<lambda>bs. emitAll lim bs w) else Inr w) = Inr w1"
    and h: "buildHeader \<lparr>hs_nameBytes = textEncode ?name, hs_size = fsize, hs_mode = mode, hs_mtimeSeconds = mtime,
              hs_typeflag = [t]\<rparr> = Inr h" and e: "emit lim h w1 = Inr w'"
    using wh unfolding writeHeader_def by (auto simp: ebind_Inr_iff)
  have field: "fieldText ?name" using ph transferName_field [OF name] by simp
  note plain = step_plain [OF h field t]
  show thesis
  proof (cases "needsPax name")
    case False
    have "\<exists>r m p n. rest r = tail \<and> m \<le> ws_tarBytes w' \<and> declaredPath (readHeader n fsize mode mtime [t]) p = name \<and>
         extractLoop env x = resume env (extractEntry env (readHeader n fsize mode mtime [t])
           (x\<lparr>xs_reader := r, xs_metaTotal := m, xs_pendingPath := p\<rparr>))"
      if x: "rest (xs_reader x) = h @ tail" "xs_pendingPath x = None" "xs_metaTotal x \<le> ws_tarBytes w" for x tail
    proof -
      obtain r where r: "rest r = tail"
        "extractLoop env x = resume env (extractEntry env (readHeader name fsize mode mtime [t]) (x\<lparr>xs_reader := r\<rparr>))"
        using plain [OF x(1), of env] False by auto
      have "x\<lparr>xs_reader := r, xs_metaTotal := xs_metaTotal x, xs_pendingPath := None\<rparr> = x\<lparr>xs_reader := r\<rparr>"
        using x(2) by simp
      moreover have "xs_metaTotal x \<le> ws_tarBytes w'" using x(3) e w1 False by (simp add: emit_Inr)
      moreover have "declaredPath (readHeader name fsize mode mtime [t]) None = name"
        by (simp add: declaredPath_def readHeader_def)
      ultimately show ?thesis using r by metis
    qed
    then show thesis using that [of h] e w1 False by (simp add: emit_Inr)
  next
    case True
    then obtain bs where bs: "paxPathBlocks name = Inr bs" "emitAll lim bs w = Inr w1"
      using w1 by (auto simp: ebind_Inr_iff)
    note out = emitAll_Inr [OF bs(2)]
    have ne: "bs \<noteq> []" using bs(1) by (auto simp: paxPathBlocks_def ebind_Inr_iff)
    have nm: "\<forall>c \<in> set name. scalar c" "NEWLINE \<notin> set name" "length (textEncode name) \<le> 60000"
      using name by (simp_all add: transferName_def)
    have "\<exists>r m p n. rest r = tail \<and> m \<le> ws_tarBytes w' \<and> declaredPath (readHeader n fsize mode mtime [t]) p = name \<and>
         extractLoop env x = resume env (extractEntry env (readHeader n fsize mode mtime [t])
           (x\<lparr>xs_reader := r, xs_metaTotal := m, xs_pendingPath := p\<rparr>))"
      if x: "rest (xs_reader x) = (concat bs @ h) @ tail" "xs_pendingPath x = None" "xs_metaTotal x \<le> ws_tarBytes w" for x tail
    proof -
      have x1: "rest (xs_reader x) = concat bs @ (h @ tail)" using x(1) by simp
      have cap: "xs_metaTotal x + length (concat bs) \<le> al_maxTotalBytes (xe_limits env)"
        using x(3) out ne lim by simp
      obtain r m where rm: "rest r = h @ tail" "m \<le> xs_metaTotal x + length (concat bs)"
        "extractLoop env x = extractLoop env (x\<lparr>xs_reader := r, xs_metaTotal := m, xs_pendingPath := Some name\<rparr>)"
        by (rule step_pax [OF bs(1) nm x1 cap])
      let ?x = "x\<lparr>xs_reader := r, xs_metaTotal := m, xs_pendingPath := Some name\<rparr>"
      have x2: "rest (xs_reader ?x) = h @ tail" using rm(1) by simp
      obtain r' where r': "rest r' = tail" "extractLoop env ?x =
          resume env (extractEntry env (readHeader ?name fsize mode mtime [t]) (?x\<lparr>xs_reader := r'\<rparr>))"
        by (rule plain [OF x2])
      have "?x\<lparr>xs_reader := r'\<rparr> = x\<lparr>xs_reader := r', xs_metaTotal := m, xs_pendingPath := Some name\<rparr>" by simp
      with r' True have r': "rest r' = tail" "extractLoop env ?x =
          resume env (extractEntry env (readHeader (ascii ph) fsize mode mtime [t])
            (x\<lparr>xs_reader := r', xs_metaTotal := m, xs_pendingPath := Some name\<rparr>))" by simp_all
      have "m \<le> ws_tarBytes w'" using rm(2) x(3) out e by (simp add: emit_Inr)
      moreover have "declaredPath (readHeader (ascii ph) fsize mode mtime [t]) (Some name) = name"
        by (simp add: declaredPath_def)
      ultimately show ?thesis using rm(3) r' by metis
    qed
    moreover have "ws_out w' = ws_out w @ (concat bs @ h)" "ws_tarBytes w' = ws_tarBytes w + length (concat bs @ h)"
        "ws_entries w' = ws_entries w" "ws_tarBytes w' \<le> al_maxTotalBytes lim"
      using e out by (simp_all add: emit_Inr)
    ultimately show thesis by (rule that [rotated 4])
  qed
qed

section \<open>The abstract landing\<close>

text \<open>
  What a transfer means, without archives: make each directory, then put each file's bytes, mode and
  time at its place, under the guards of the extractor.
\<close>

datatype item =
    DirItem "jtext list"
  | FileItem "jtext list" "byte list" nat nat

definition landFile :: "extract_env \<Rightarrow> path \<Rightarrow> byte list \<Rightarrow> nat \<Rightarrow> nat \<Rightarrow> fs \<Rightarrow> tar_error option \<times> fs" where
  "landFile env leaf data mode mtime fs =
     (case openLeaf env leaf fs of
        Inl e \<Rightarrow> (Some e, fs)
      | Inr (i, fs) \<Rightarrow>
          if \<not> in_regular (fs_inodes fs i) then (Some Nonregular, fs)
          else if in_nlink (fs_inodes fs i) > 1 then (Some HardLinked, fs)
          else (None, setInode i (\<lambda>d. d\<lparr>in_data := data, in_mode := mode mod 512,
                        in_mtime := (if mtime > 0 then Some mtime else None)\<rparr>) fs))"

fun landItem :: "extract_env \<Rightarrow> item \<Rightarrow> fs \<Rightarrow> tar_error option \<times> fs" where
  "landItem env (DirItem segs) fs = ensureDirChain env (xe_realDest env) segs fs"
| "landItem env (FileItem segs data mode mtime) fs =
     (case ensureDirChain env (xe_realDest env) (butlast segs) fs of
        (Some e, fs) \<Rightarrow> (Some e, fs)
      | (None, fs) \<Rightarrow> landFile env (xe_realDest env @ segs) data mode mtime fs)"

fun landAll :: "extract_env \<Rightarrow> item list \<Rightarrow> fs \<Rightarrow> tar_error option \<times> fs" where
  "landAll env [] fs = (None, fs)"
| "landAll env (it # its) fs =
     (case landItem env it fs of (Some e, fs) \<Rightarrow> (Some e, fs) | (None, fs) \<Rightarrow> landAll env its fs)"

lemma landAll_append:
  "landAll env (as @ bs) fs = (case landAll env as fs of (Some e, fs) \<Rightarrow> (Some e, fs) | (None, fs) \<Rightarrow> landAll env bs fs)"
  by (induction as arbitrary: fs) (auto split: prod.split option.split)

lemma inode_commute:
  "d\<lparr>in_data := [], in_mtime := None, in_mode := k\<rparr> = d\<lparr>in_data := [], in_mode := k, in_mtime := None\<rparr>"
  "d\<lparr>in_mode := k, in_mtime := None, in_data := z\<rparr> = d\<lparr>in_data := z, in_mode := k, in_mtime := None\<rparr>"
  by simp_all

lemma writeBody_lands:
  assumes "n \<le> length (rest r)"
  obtains r' where "writeBody env leaf n mode mtime r fs =
      (fst (landFile env leaf (take n (rest r)) mode mtime fs), r', snd (landFile env leaf (take n (rest r)) mode mtime fs))"
    "fst (landFile env leaf (take n (rest r)) mode mtime fs) = None \<Longrightarrow> rest r' = drop n (rest r)"
proof (cases "openLeaf env leaf fs")
  case (Inl e)
  then show thesis using that [of r] by (simp add: writeBody_def landFile_def)
next
  case (Inr p)
  obtain i fs1 where p: "p = (i, fs1)" by (cases p) auto
  let ?fs = "setInode i (\<lambda>d. d\<lparr>in_data := [], in_mtime := None, in_mode := mode mod 512\<rparr>) fs1"
  obtain q where q: "writeLoop i n (fst r) (snd r) ?fs =
      (True, q, if n = 0 \<or> rest r = [] then ?fs else setInode i (\<lambda>d. d\<lparr>in_data := in_data d @ take n (rest r)\<rparr>) ?fs)"
      "rest q = drop n (rest r)"
    using writeLoop_spec [of i n "fst r" "snd r" ?fs] assms unfolding rest_def by auto
  have fs: "(if n = 0 \<or> rest r = [] then ?fs else setInode i (\<lambda>d. d\<lparr>in_data := in_data d @ take n (rest r)\<rparr>) ?fs) =
      setInode i (\<lambda>d. d\<lparr>in_data := take n (rest r), in_mode := mode mod 512, in_mtime := None\<rparr>) fs1"
    using assms by (auto simp: setInode_twice inode_commute)
  show thesis
  proof (cases "in_regular (fs_inodes fs1 i) \<and> \<not> 1 < in_nlink (fs_inodes fs1 i)")
    case True
    then show thesis
      using that [of q] Inr p q(2) unfolding writeBody_def landFile_def
      by (simp add: q(1) [unfolded fs] setInode_twice)
  next
    case False
    then show thesis using that [of r] Inr p
      by (cases "in_regular (fs_inodes fs1 i)") (simp_all add: writeBody_def landFile_def)
  qed
qed

section \<open>Archive by archive entry, the extractor performs the landing\<close>

definition segsOf :: "jtext \<Rightarrow> jtext list" where
  "segsOf p = splitOn SLASH (projr (safeTransferPath p))"

text \<open>
  The names that survive the fixed name field: well-formed text, not longer than a pax record may be,
  and not starting with a byte order mark, which the reader's text decoder would drop.
\<close>

definition transferable :: "jtext \<Rightarrow> bool" where
  "transferable p \<longleftrightarrow>
     (\<forall>c \<in> set p. scalar c) \<and> hd (projr (safeTransferPath p)) \<noteq> 0xFEFF \<and>
     length (textEncode (projr (safeTransferPath p))) < 60000"

lemma transferable_names:
  assumes "safeTransferPath p = Inr rel" "transferable p"
  shows "transferName rel" "transferName (rel @ [SLASH])" "safeTransferPath rel = Inr rel"
    "safeTransferPath (rel @ [SLASH]) = Inr rel" "segsOf p \<noteq> []" "segsOf p = splitOn SLASH rel"
proof -
  note sg = safe_segments [OF assms(1)]
  have clean: "\<forall>w \<in> set (splitOn SLASH rel). cleanSegment w" using sg(2) by blast
  show "safeTransferPath rel = Inr rel" "safeTransferPath (rel @ [SLASH]) = Inr rel"
    using safe_clean [OF sg(1) clean] unfolding sg(3) [symmetric] by simp_all
  have ne: "rel \<noteq> []" using joinWith_ends(1) [OF sg(1), of SLASH] clean sg(3) by (auto simp: cleanSegment_def)
  have "set rel \<subseteq> insert SLASH (set p)" using set_joinWith [of SLASH "splitOn SLASH rel"] sg(2,3) by fastforce
  moreover have "scalar SLASH" by (simp add: scalar_def surrogate_def)
  ultimately have sc: "\<forall>c \<in> set rel. scalar c" using assms(2) by (auto simp: transferable_def)
  have "0 \<notin> set rel \<and> NEWLINE \<notin> set rel"
    using set_joinWith [of SLASH "splitOn SLASH rel"] sg(3) clean by (fastforce simp: cleanSegment_def)
  then show "transferName rel" "transferName (rel @ [SLASH])"
    using sc ne assms by (auto simp: transferName_def transferable_def scalar_def surrogate_def)
  show "segsOf p \<noteq> []" "segsOf p = splitOn SLASH rel" using assms(1) by (simp_all add: segsOf_def)
qed

definition follows :: "xstate \<Rightarrow> wstate \<Rightarrow> bool" where
  "follows x w \<longleftrightarrow> xs_pendingPath x = None \<and> xs_entries x = ws_entries w \<and> xs_bytes x \<le> ws_tarBytes w \<and>
     xs_metaTotal x \<le> ws_tarBytes w"

text \<open>From \<open>x\<close> the pass lands the items and goes on with \<open>tail\<close>, or stops with the landing's error.\<close>

definition delivers :: "extract_env \<Rightarrow> xstate \<Rightarrow> item list \<Rightarrow> byte list \<Rightarrow> wstate \<Rightarrow> nat \<Rightarrow> nat \<Rightarrow> bool" where
  "delivers env x its tail w k n \<longleftrightarrow>
     (case landAll env its (xs_fs x) of
        (Some e, fs) \<Rightarrow> \<exists>x'. extractLoop env x = (Some e, x') \<and> xs_fs x' = fs
      | (None, fs) \<Rightarrow> \<exists>x'. extractLoop env x = extractLoop env x' \<and> follows x' w \<and> rest (xs_reader x') = tail \<and>
                           xs_fs x' = fs \<and> xs_files x' = xs_files x + k \<and> xs_bytes x' = xs_bytes x + n)"

definition packs :: "extract_env \<Rightarrow> wstate \<Rightarrow> wstate \<Rightarrow> item list \<Rightarrow> nat \<Rightarrow> nat \<Rightarrow> bool" where
  "packs env w w' its k n \<longleftrightarrow>
     (\<exists>hb. ws_out w' = ws_out w @ hb \<and>
        (\<forall>x tail. rest (xs_reader x) = hb @ tail \<longrightarrow> follows x w \<longrightarrow> delivers env x its tail w' k n))"

lemma packs_refl: "packs env w w [] 0 0"
  unfolding packs_def by (rule exI [of _ "[]"]) (auto simp: delivers_def)

lemma packs_trans:
  assumes "packs env w w1 as k n" "packs env w1 w2 bs l m"
  shows "packs env w w2 (as @ bs) (k + l) (n + m)"
proof -
  obtain ha hb where ha: "ws_out w1 = ws_out w @ ha"
      "\<And>x tail. rest (xs_reader x) = ha @ tail \<Longrightarrow> follows x w \<Longrightarrow> delivers env x as tail w1 k n"
    and hb: "ws_out w2 = ws_out w1 @ hb"
      "\<And>x tail. rest (xs_reader x) = hb @ tail \<Longrightarrow> follows x w1 \<Longrightarrow> delivers env x bs tail w2 l m"
    using assms unfolding packs_def by blast
  have "delivers env x (as @ bs) tail w2 (k + l) (n + m)"
    if x: "rest (xs_reader x) = (ha @ hb) @ tail" "follows x w" for x tail
  proof -
    have first: "delivers env x as (hb @ tail) w1 k n" using ha(2) [of x "hb @ tail"] x by simp
    obtain e fs where land: "landAll env as (xs_fs x) = (e, fs)" by fastforce
    show ?thesis
    proof (cases e)
      case (Some err)
      with first land show ?thesis by (simp add: delivers_def landAll_append)
    next
      case None
      then obtain x1 where x1: "extractLoop env x = extractLoop env x1" "follows x1 w1" "rest (xs_reader x1) = hb @ tail"
          "xs_fs x1 = fs" "xs_files x1 = xs_files x + k" "xs_bytes x1 = xs_bytes x + n"
        using first land by (auto simp: delivers_def)
      from hb(2) [OF x1(3,2)] None land x1 show ?thesis
        by (auto simp: delivers_def landAll_append add.assoc split: prod.splits option.splits)
    qed
  qed
  then show ?thesis unfolding packs_def using ha(1) hb(1) by (intro exI [of _ "ha @ hb"]) auto
qed

lemma packs_each:
  assumes "writeEach f ys w = Inr w'" "\<And>y w w'. y \<in> set ys \<Longrightarrow> f y w = Inr w' \<Longrightarrow> packs env w w' [g y] k (n y)"
  shows "packs env w w' (map g ys) (k * length ys) (sum_list (map n ys))"
  using assms
proof (induction ys arbitrary: w)
  case Nil
  then show ?case by (simp add: packs_refl)
next
  case (Cons y ys)
  obtain w1 where w1: "f y w = Inr w1" "writeEach f ys w1 = Inr w'" using Cons.prems(1) by (auto simp: ebind_Inr_iff)
  have "packs env w w1 [g y] k (n y)" using Cons.prems(2) w1(1) by simp
  moreover have "packs env w1 w' (map g ys) (k * length ys) (sum_list (map n ys))"
    using Cons.IH [OF w1(2)] Cons.prems(2) by simp
  ultimately show ?case using packs_trans [of env w w1 "[g y]"] by fastforce
qed

lemma streamBody_cap:
  "streamBody lim src carry written w = Inr (carry', written', w') \<Longrightarrow>
   ws_tarBytes w' = ws_tarBytes w \<or> ws_tarBytes w' \<le> al_maxTotalBytes lim"
proof (induction src arbitrary: carry written w)
  case (Cons raw src)
  have drain: "drainBlocks lim carry written w = Inr (c1, n1, w1) \<Longrightarrow>
      ws_tarBytes w1 = ws_tarBytes w \<or> ws_tarBytes w1 \<le> al_maxTotalBytes lim" for carry written w c1 n1 w1
  proof (induction lim carry written w rule: drainBlocks.induct)
    case (1 lim carry written w)
    then show ?case
      by (fastforce simp: drainBlocks.simps [of lim carry] ebind_Inr_iff emit_Inr split: if_split_asm)
  qed
  obtain c1 n1 w1 where d: "drainBlocks lim (carry @ raw) written w = Inr (c1, n1, w1)"
      "streamBody lim src c1 n1 w1 = Inr (carry', written', w')"
    using Cons.prems(1) by (auto simp: ebind_Inr_iff)
  from drain [OF d(1)] Cons.IH [OF d(2)] show ?case by auto
qed simp

lemma body_cap:
  assumes "streamBody lim src [] 0 w = Inr (carry, written, w1)" "writeTail lim carry written w1 = Inr (amount, w2)"
  shows "ws_tarBytes w2 = ws_tarBytes w \<or> ws_tarBytes w2 \<le> al_maxTotalBytes lim"
  using streamBody_cap [OF assms(1)] assms(2)
  by (auto simp: writeTail_def Let_def ebind_Inr_iff emit_Inr split: if_split_asm)

definition dirItem :: "archive_dir \<Rightarrow> item" where
  "dirItem d = DirItem (segsOf (ad_path d))"

definition fileItem :: "archive_file \<Rightarrow> item" where
  "fileItem f = FileItem (segsOf (af_path f)) (concat (af_source f)) (orElse (af_mode f) 0x1A4 mod 4096)
                  (nat (orElse (af_mtimeSeconds f) 0 mod 2 ^ 32))"

lemma readHeader_simps [simp]:
  "ph_size (readHeader n s m t ty) = s" "ph_mode (readHeader n s m t ty) = m mod 4096"
  "ph_mtime (readHeader n s m t ty) = nat (t mod 2 ^ 32)" "ph_typeflag (readHeader n s m t ty) = ty"
  by (simp_all add: readHeader_def)

lemma type_flags:
  "TYPE_DIR = [53]" "TYPE_FILE = [48]" "TYPE_PAX = [120]" "ascii ''g'' = [103]"
  by (simp_all add: TYPE_DIR_def TYPE_FILE_def TYPE_PAX_def ascii_def)

lemma countEntry_Inr:
  "countEntry lim w = Inr w' \<longleftrightarrow> Suc (ws_entries w) \<le> al_maxEntries lim \<and> w' = w\<lparr>ws_entries := Suc (ws_entries w)\<rparr>"
  by (auto simp: countEntry_def)

lemma packs_dir:
  assumes "writeDir (xe_limits env) d w = Inr w'" "transferable (ad_path d)"
  shows "packs env w w' [dirItem d] 0 0"
proof -
  obtain rel w1 where rel: "safeTransferPath (ad_path d) = Inr rel" and w1: "countEntry (xe_limits env) w = Inr w1"
    and wh: "writeHeader (xe_limits env) (rel @ [SLASH]) ''./PaxHeaders/.dir'' 0 (orElse (ad_mode d) 0x1ED)
               (orElse (ad_mtimeSeconds d) 0) [53] w1 = Inr w'"
    using assms(1) by (auto simp: writeDir_def ebind_Inr_iff type_flags)
  note nm = transferable_names [OF rel assms(2)]
  obtain hb where hb: "ws_out w' = ws_out w1 @ hb" "ws_tarBytes w' = ws_tarBytes w1 + length hb" "ws_entries w' = ws_entries w1"
    and rd: "\<And>x tail. rest (xs_reader x) = hb @ tail \<Longrightarrow> xs_pendingPath x = None \<Longrightarrow> xs_metaTotal x \<le> ws_tarBytes w1 \<Longrightarrow>
       \<exists>r m p n. rest r = tail \<and> m \<le> ws_tarBytes w' \<and>
         declaredPath (readHeader n 0 (orElse (ad_mode d) 0x1ED) (orElse (ad_mtimeSeconds d) 0) [53]) p = rel @ [SLASH] \<and>
         extractLoop env x = resume env (extractEntry env (readHeader n 0 (orElse (ad_mode d) 0x1ED) (orElse (ad_mtimeSeconds d) 0) [53])
           (x\<lparr>xs_reader := r, xs_metaTotal := m, xs_pendingPath := p\<rparr>))"
    by (rule header_read [OF wh refl nm(2) placeholder_texts(1)]) (simp_all add: type_flags)
  have "delivers env x [dirItem d] tail w' 0 0" if x: "rest (xs_reader x) = hb @ tail" "follows x w" for x tail
  proof -
    have fx: "xs_pendingPath x = None" "xs_metaTotal x \<le> ws_tarBytes w1" "xs_entries x = ws_entries w" "xs_bytes x \<le> ws_tarBytes w1"
      using x(2) w1 by (auto simp: follows_def countEntry_Inr)
    obtain r m p n where r: "rest r = tail" "m \<le> ws_tarBytes w'"
      and dp: "declaredPath (readHeader n 0 (orElse (ad_mode d) 0x1ED) (orElse (ad_mtimeSeconds d) 0) [53]) p = rel @ [SLASH]"
      and lp: "extractLoop env x = resume env (extractEntry env (readHeader n 0 (orElse (ad_mode d) 0x1ED) (orElse (ad_mtimeSeconds d) 0) [53])
           (x\<lparr>xs_reader := r, xs_metaTotal := m, xs_pendingPath := p\<rparr>))"
      using rd [OF x(1) fx(1,2)] by blast
    let ?x = "x\<lparr>xs_reader := r, xs_metaTotal := m, xs_pendingPath := None, xs_entries := Suc (xs_entries x)\<rparr>"
    obtain e fs where land: "ensureDirChain env (xe_realDest env) (splitOn SLASH rel) (xs_fs x) = (e, fs)" by fastforce
    have "Suc (ws_entries w) \<le> al_maxEntries (xe_limits env)" using w1 by (simp add: countEntry_Inr)
    then have "extractLoop env x = resume env (case e of Some e \<Rightarrow> Fail e (?x\<lparr>xs_fs := fs\<rparr>) | None \<Rightarrow> Next (?x\<lparr>xs_fs := fs\<rparr>))"
      unfolding lp using land nm(4) fx(3)
      by (simp add: extractEntry_def extractDir_def dp Let_def type_flags split: option.split)
    moreover have "follows (?x\<lparr>xs_fs := fs\<rparr>) w'"
      using fx r(2) w1 hb by (auto simp: follows_def countEntry_Inr)
    ultimately show ?thesis
      using land r(1) nm(6) by (cases e) (auto simp: delivers_def dirItem_def intro!: exI [of _ "?x\<lparr>xs_fs := fs\<rparr>"])
  qed
  then show ?thesis unfolding packs_def using hb(1) w1 by (auto simp: countEntry_Inr)
qed


lemma packs_file:
  assumes "writeFile (xe_limits env) f w = Inr w'" "transferable (af_path f)"
  shows "packs env w w' [fileItem f] 1 (length (concat (af_source f)))"
proof -
  let ?lim = "xe_limits env" and ?mode = "orElse (af_mode f) 0x1A4" and ?mtime = "orElse (af_mtimeSeconds f) 0"
  let ?data = "concat (af_source f)"
  let ?hdr = "\<lambda>n. readHeader n (af_size f) ?mode ?mtime [48]"
  obtain rel w1 w2 carry written w3 amount where rel: "safeTransferPath (af_path f) = Inr rel"
    and w1: "countEntry ?lim w = Inr w1" and big: "af_size f \<le> al_maxFileBytes ?lim"
    and wh: "writeHeader ?lim rel ''./PaxHeaders/.file'' (af_size f) ?mode ?mtime [48] w1 = Inr w2"
    and sb: "streamBody ?lim (af_source f) [] 0 w2 = Inr (carry, written, w3)"
    and wt: "writeTail ?lim carry written w3 = Inr (amount, w')" and sz: "amount = af_size f"
    using assms(1) by (auto simp: writeFile_def ebind_Inr_iff type_flags split: if_split_asm)
  note nm = transferable_names [OF rel assms(2)] and bo = body_out [OF sb wt]
  have len: "af_size f = length ?data" using bo(2) sz by simp
  obtain hb where hb: "ws_out w2 = ws_out w1 @ hb" "ws_tarBytes w2 = ws_tarBytes w1 + length hb" "ws_entries w2 = ws_entries w1"
      "ws_tarBytes w2 \<le> al_maxTotalBytes ?lim"
    and rd: "\<And>x tail. rest (xs_reader x) = hb @ tail \<Longrightarrow> xs_pendingPath x = None \<Longrightarrow> xs_metaTotal x \<le> ws_tarBytes w1 \<Longrightarrow>
       \<exists>r m p n. rest r = tail \<and> m \<le> ws_tarBytes w2 \<and> declaredPath (?hdr n) p = rel \<and>
         extractLoop env x = resume env (extractEntry env (?hdr n) (x\<lparr>xs_reader := r, xs_metaTotal := m, xs_pendingPath := p\<rparr>))"
    by (rule header_read [OF wh refl nm(1) placeholder_texts(2)]) (simp_all add: type_flags)
  have cap: "ws_tarBytes w' \<le> al_maxTotalBytes ?lim"
  proof (rule ccontr)
    assume over: "\<not> ?thesis"
    have "ws_tarBytes w' = ws_tarBytes w2 \<or> ws_tarBytes w' \<le> al_maxTotalBytes ?lim"
      by (rule body_cap [OF sb wt])
    with over hb(4) show False by simp
  qed
  let ?pad = "replicate (blockPadding (length ?data)) (0::byte)"
  have "delivers env x [fileItem f] tail w' 1 (length ?data)" if x: "rest (xs_reader x) = (hb @ ?data @ ?pad) @ tail" "follows x w" for x tail
  proof -
    have fx: "xs_pendingPath x = None" "xs_metaTotal x \<le> ws_tarBytes w1" "xs_entries x = ws_entries w" "xs_bytes x \<le> ws_tarBytes w1"
      using x(2) w1 by (auto simp: follows_def countEntry_Inr)
    have x1: "rest (xs_reader x) = hb @ (?data @ ?pad @ tail)" using x(1) by simp
    obtain r m p n where r: "rest r = ?data @ ?pad @ tail" "m \<le> ws_tarBytes w2"
      and dp: "declaredPath (?hdr n) p = rel"
      and lp: "extractLoop env x = resume env (extractEntry env (?hdr n) (x\<lparr>xs_reader := r, xs_metaTotal := m, xs_pendingPath := p\<rparr>))"
      using rd [OF x1 fx(1,2)] by blast
    let ?x = "x\<lparr>xs_reader := r, xs_metaTotal := m, xs_pendingPath := None, xs_entries := Suc (xs_entries x)\<rparr>"
    have ent: "Suc (ws_entries w) \<le> al_maxEntries ?lim" using w1 by (simp add: countEntry_Inr)
    have tot: "xs_bytes x + af_size f \<le> al_maxTotalBytes ?lim" using fx(4) hb(2) bo(2,4) len cap by simp
    have go: "extractLoop env x = resume env (extractFile env (?hdr n) (splitOn SLASH rel) (?x\<lparr>xs_entries := xs_entries x\<rparr>))"
      unfolding lp by (simp add: extractEntry_def dp nm(3) Let_def type_flags)
    obtain e fs where chain: "ensureDirChain env (xe_realDest env) (butlast (splitOn SLASH rel)) (xs_fs x) = (e, fs)" by fastforce
    show ?thesis
    proof (cases e)
      case (Some err)
      have "extractLoop env x = resume env (Fail err (?x\<lparr>xs_fs := fs\<rparr>))"
        unfolding go using chain Some ent fx(3) big tot by (simp add: extractFile_def Let_def)
      then show ?thesis using chain Some nm(6) by (simp add: delivers_def fileItem_def)
    next
      case None
      let ?leaf = "xe_realDest env @ splitOn SLASH rel" and ?mt = "nat (?mtime mod 2 ^ 32)"
      have enough: "length ?data \<le> length (rest r)" "take (length ?data) (rest r) = ?data" using r(1) by simp_all
      obtain r1 where r1: "writeBody env ?leaf (length ?data) (?mode mod 4096) ?mt r fs =
          (fst (landFile env ?leaf ?data (?mode mod 4096) ?mt fs), r1, snd (landFile env ?leaf ?data (?mode mod 4096) ?mt fs))"
          "fst (landFile env ?leaf ?data (?mode mod 4096) ?mt fs) = None \<Longrightarrow> rest r1 = ?pad @ tail"
        using writeBody_lands [OF enough(1), of env ?leaf "?mode mod 4096" ?mt fs] enough(2) r(1) by (metis append_eq_conv_conj)
      obtain e' fs' where land: "landFile env ?leaf ?data (?mode mod 4096) ?mt fs = (e', fs')" by fastforce
      have item: "landAll env [fileItem f] (xs_fs x) = (e', fs')"
        using chain None land nm(6) by (cases e') (simp_all add: fileItem_def)
      show ?thesis
      proof (cases e')
        case (Some err)
        have "extractLoop env x = resume env (Fail err (?x\<lparr>xs_reader := r1, xs_fs := fs'\<rparr>))"
          unfolding go using chain None ent fx(3) big tot r1(1) land Some len
          by (simp add: extractFile_def Let_def)
        then show ?thesis using item Some by (simp add: delivers_def)
      next
        case None
        then have "rest r1 = ?pad @ tail" using r1(2) land by simp
        then obtain r2 where r2: "skipBytes (blockPadding (length ?data)) r1 = Inr r2" "rest r2 = tail"
          using skipBytes_spec(1) [of "blockPadding (length ?data)" r1] by auto
        let ?y = "?x\<lparr>xs_fs := fs', xs_files := Suc (xs_files x), xs_bytes := xs_bytes x + length ?data, xs_reader := r2\<rparr>"
        have "extractLoop env x = extractLoop env ?y"
          unfolding go using chain \<open>e = None\<close> ent fx(3) big tot r1(1) land None len r2(1)
          by (simp add: extractFile_def Let_def)
        moreover have "follows ?y w'"
          using fx r(2) w1 hb bo by (auto simp: follows_def countEntry_Inr)
        ultimately show ?thesis using item None r2(2) by (auto simp: delivers_def intro!: exI [of _ ?y])
      qed
    qed
  qed
  then show ?thesis unfolding packs_def using hb(1) w1 bo(1)
    by (intro exI [of _ "hb @ ?data @ ?pad"]) (auto simp: countEntry_Inr)
qed


text \<open>The whole archive.\<close>

definition itemsOf :: "archive_dir list \<Rightarrow> archive_file list \<Rightarrow> item list" where
  "itemsOf dirs files = map dirItem dirs @ map fileItem files"

lemma extract_is_landing:
  assumes "writeTarGz dirs files (xe_limits env) = Inr w" "concat chunks = ws_out w"
    and "\<forall>d \<in> set dirs. transferable (ad_path d)" "\<forall>f \<in> set files. transferable (af_path f)"
  shows "extractTarGz env chunks fs =
    (case landAll env (itemsOf dirs files) fs of
       (Some e, fs') \<Rightarrow> (Inl e, fs')
     | (None, fs') \<Rightarrow> (Inr (length files, sum_list (map (\<lambda>f. length (concat (af_source f))) files)), fs'))"
proof -
  let ?w0 = "\<lparr>ws_entries = 0, ws_tarBytes = 0, ws_out = []\<rparr>" and ?n = "sum_list (map (\<lambda>f. length (concat (af_source f))) files)"
  obtain w1 w2 where w: "writeEach (writeDir (xe_limits env)) dirs ?w0 = Inr w1"
      "writeEach (writeFile (xe_limits env)) files w1 = Inr w2" "emit (xe_limits env) (replicate (BLOCK * 2) 0) w2 = Inr w"
    using assms(1) by (auto simp: writeTarGz_def ebind_Inr_iff)
  have "packs env ?w0 w1 (map dirItem dirs) (0 * length dirs) (sum_list (map (\<lambda>_. 0) dirs))"
    by (rule packs_each [OF w(1)]) (use packs_dir assms(3) in blast)
  moreover have "packs env w1 w2 (map fileItem files) (1 * length files) ?n"
    by (rule packs_each [OF w(2)]) (use packs_file assms(4) in blast)
  ultimately have "packs env ?w0 w2 (itemsOf dirs files) (length files) ?n"
    using packs_trans [of env ?w0 w1 "map dirItem dirs" 0 0 w2] by (simp add: itemsOf_def)
  then obtain hb where hb: "ws_out w2 = hb" and
    del: "\<And>x tail. rest (xs_reader x) = hb @ tail \<Longrightarrow> follows x ?w0 \<Longrightarrow> delivers env x (itemsOf dirs files) tail w2 (length files) ?n"
    by (auto simp: packs_def)
  let ?x = "startExtract chunks fs"
  have "delivers env ?x (itemsOf dirs files) (replicate (BLOCK * 2) 0) w2 (length files) ?n"
    by (rule del) (use assms(2) w(3) hb in \<open>simp_all add: startExtract_def rest_def emit_Inr follows_def\<close>)
  moreover obtain e fs' where land: "landAll env (itemsOf dirs files) fs = (e, fs')" by fastforce
  ultimately show ?thesis
  proof (cases e)
    case (Some err)
    with land \<open>delivers env ?x _ _ _ _ _\<close> show ?thesis
      by (auto simp: delivers_def extractTarGz_def startExtract_def)
  next
    case None
    with land \<open>delivers env ?x _ _ _ _ _\<close> obtain x' where x': "extractLoop env ?x = extractLoop env x'"
        "rest (xs_reader x') = replicate (BLOCK * 2) 0" "xs_fs x' = fs'" "xs_files x' = length files" "xs_bytes x' = ?n"
      by (auto simp: delivers_def startExtract_def)
    have "isZeroBlock (take BLOCK (rest (xs_reader x')))" "BLOCK \<le> remaining x'"
      using x'(2) by (simp_all add: isZeroBlock_def BLOCK_def remaining_def)
    then obtain r where "extractStep env x' = Stop (x'\<lparr>xs_reader := r\<rparr>)"
      by (cases rule: extractStep_cases [of x' env]) auto
    then have "extractLoop env ?x = (None, x'\<lparr>xs_reader := r\<rparr>)" using x'(1) by (simp add: extractLoop_step)
    then show ?thesis using x' land None by (simp add: extractTarGz_def)
  qed
qed

section \<open>Landing on a fresh destination\<close>

fun itemPath :: "item \<Rightarrow> jtext list" where
  "itemPath (DirItem segs) = segs"
| "itemPath (FileItem segs data mode mtime) = segs"

fun itemDirs :: "item \<Rightarrow> jtext list" where
  "itemDirs (DirItem segs) = segs"
| "itemDirs (FileItem segs data mode mtime) = butlast segs"

text \<open>No file sits where another entry needs a directory, or at another file's place.\<close>

fun fits :: "item \<Rightarrow> item \<Rightarrow> bool" where
  "fits (FileItem segs data mode mtime) other = (\<not> prefix segs (itemPath other))"
| "fits (DirItem segs) other = True"

fun clashFree :: "item list \<Rightarrow> bool" where
  "clashFree [] = True"
| "clashFree (it # its) = (list_all (\<lambda>b. fits it b \<and> fits b it) its \<and> clashFree its)"

fun laid :: "path \<Rightarrow> fs \<Rightarrow> item \<Rightarrow> bool" where
  "laid dest fs (DirItem segs) = realPath fs (dest @ segs)"
| "laid dest fs (FileItem segs data mode mtime) =
     (\<exists>i. fs_names fs (dest @ segs) = Some (Ino i) \<and>
          fs_inodes fs i = \<lparr>in_regular = True, in_nlink = 1, in_data = data, in_mode = mode mod 512,
                            in_mtime = (if mtime > 0 then Some mtime else None)\<rparr>)"

definition landing :: "path \<Rightarrow> item set \<Rightarrow> fs \<Rightarrow> bool" where
  "landing dest old fs \<longleftrightarrow>
     coherent fs \<and> realPath fs dest \<and>
     (\<forall>q n. strict_prefix dest q \<and> fs_names fs q = Some n \<longrightarrow>
        (n = Dir \<and> (\<exists>it \<in> old. prefix q (dest @ itemDirs it))) \<or>
        (\<exists>i segs data mode mtime. n = Ino i \<and> FileItem segs data mode mtime \<in> old \<and> q = dest @ segs)) \<and>
     (\<forall>it \<in> old. laid dest fs it)"

lemma ensureDirChain_fresh:
  assumes "realPath fs cur" "\<And>q. prefix q segs \<Longrightarrow> q \<noteq> [] \<Longrightarrow> fs_names fs (cur @ q) \<in> {None, Some Dir}"
    and "\<And>p. \<not> xe_osFails env p"
  shows "\<exists>fs'. ensureDirChain env cur segs fs = (None, fs') \<and> fs_inodes fs' = fs_inodes fs \<and> fs_next fs' = fs_next fs \<and>
           (\<forall>p. fs_names fs' p = (if prefix p (cur @ segs) \<and> strict_prefix cur p then Some Dir else fs_names fs p))"
  using assms(1,2)
proof (induction segs arbitrary: cur fs)
  case Nil
  then show ?case by (auto simp: strict_prefix_def dest: prefix_order.antisym)
next
  case (Cons s segs)
  let ?c = "cur @ [s]"
  have here: "fs_names fs ?c \<in> {None, Some Dir}" using Cons.prems(2) [of "[s]"] by simp
  let ?fs = "if fs_names fs ?c = None then setName ?c Dir fs else fs"
  note loc = locate_real [OF Cons.prems(1), of s]
  have real: "realPath ?fs ?c"
    by (rule realPath_snoc, rule realPath_names [OF Cons.prems(1)]) (use here in auto)
  have "locate ?fs ?c = Some ?c" using locate_real [OF realPath_append [OF real]] by simp
  then have step: "ensureRealDir env ?c fs = (None, ?fs)"
    using here loc assms(3)
    by (auto simp: ensureRealDir_def lstatSync_def mkdirSync_def realDir_def split: if_split_asm)
  have other: "fs_names ?fs (?c @ q) \<in> {None, Some Dir}" if "prefix q segs" "q \<noteq> []" for q
    using Cons.prems(2) [of "s # q"] that by auto
  obtain fs' where fs': "ensureDirChain env ?c segs ?fs = (None, fs')" "fs_inodes fs' = fs_inodes ?fs" "fs_next fs' = fs_next ?fs"
      "\<And>p. fs_names fs' p = (if prefix p (?c @ segs) \<and> strict_prefix ?c p then Some Dir else fs_names ?fs p)"
    using Cons.IH [OF real other] by blast
  have "fs_names fs' p = (if prefix p (cur @ s # segs) \<and> strict_prefix cur p then Some Dir else fs_names fs p)" for p
  proof (cases "p = ?c")
    case True
    then have "fs_names ?fs p = Some Dir" using here by auto
    with True show ?thesis by (simp add: fs'(4) strict_prefix_def prefix_def)
  next
    case False
    then have "strict_prefix ?c p \<longleftrightarrow> strict_prefix cur p" if "prefix p (cur @ s # segs)"
      using that by (auto simp: strict_prefix_def prefix_def append_eq_append_conv2 append_eq_Cons_conv Cons_eq_append_conv)
    with False show ?thesis by (auto simp: fs'(4))
  qed
  with step fs' show ?case by auto
qed


lemma laid_keep:
  assumes "laid dest fs a" "\<And>p n. fs_names fs p = Some n \<Longrightarrow> fs_names fs' p = Some n"
    and "\<And>p i. fs_names fs p = Some (Ino i) \<Longrightarrow> fs_inodes fs' i = fs_inodes fs i"
  shows "laid dest fs' a"
proof (cases a)
  case (DirItem segs)
  with assms(1) realPath_names [OF _ assms(2)] show ?thesis by simp
next
  case (FileItem segs data mode mtime)
  then obtain i where "fs_names fs (dest @ segs) = Some (Ino i)"
      "fs_inodes fs i = \<lparr>in_regular = True, in_nlink = 1, in_data = data, in_mode = mode mod 512,
                         in_mtime = (if mtime > 0 then Some mtime else None)\<rparr>"
    using assms(1) unfolding FileItem laid.simps by blast
  with assms(2) [OF this(1)] assms(3) [OF this(1)] FileItem show ?thesis
    unfolding FileItem laid.simps by (intro exI [of _ i] conjI) simp_all
qed

lemma itemDirs_prefix: "prefix (itemDirs it) (itemPath it)"
  by (cases it) (auto simp: prefixeq_butlast)

lemma landing_names:
  assumes "landing dest old fs" "strict_prefix dest q" "fs_names fs q = Some n"
  shows "(n = Dir \<and> (\<exists>it \<in> old. prefix q (dest @ itemDirs it))) \<or>
         (\<exists>i segs data mode mtime. n = Ino i \<and> FileItem segs data mode mtime \<in> old \<and> q = dest @ segs)"
  using assms unfolding landing_def by blast

text \<open>The directories of a new item are made without touching what has landed.\<close>

lemma landing_chain:
  assumes l: "landing dest old fs" and os: "\<And>p. \<not> xe_osFails env p" and fit: "\<forall>a \<in> old. fits a it"
  obtains fs' where "ensureDirChain env dest (itemDirs it) fs = (None, fs')"
    "fs_inodes fs' = fs_inodes fs" "fs_next fs' = fs_next fs"
    "\<And>p. fs_names fs' p = (if prefix p (dest @ itemDirs it) \<and> strict_prefix dest p then Some Dir else fs_names fs p)"
    "\<And>p n. fs_names fs p = Some n \<Longrightarrow> fs_names fs' p = Some n"
    "coherent fs'" "realPath fs' (dest @ itemDirs it)" "\<forall>a \<in> old. laid dest fs' a"
proof -
  have real: "realPath fs dest" and coh: "coherent fs" and old: "\<forall>a \<in> old. laid dest fs a"
    using l unfolding landing_def by blast+
  have free: "fs_names fs (dest @ q) \<in> {None, Some Dir}" if "prefix q (itemDirs it)" "q \<noteq> []" for q
  proof (cases "fs_names fs (dest @ q)")
    case (Some n)
    have "strict_prefix dest (dest @ q)" using that(2) by (simp add: strict_prefix_def prefix_def)
    from landing_names [OF l this Some] show ?thesis
    proof
      assume "\<exists>i segs data mode mtime. n = Ino i \<and> FileItem segs data mode mtime \<in> old \<and> dest @ q = dest @ segs"
      then obtain data mode mtime where "FileItem q data mode mtime \<in> old" by auto
      with fit have "\<not> prefix q (itemPath it)" by fastforce
      with that(1) itemDirs_prefix show ?thesis using prefix_order.trans by blast
    qed (use Some in simp)
  qed simp
  obtain fs' where fs': "ensureDirChain env dest (itemDirs it) fs = (None, fs')"
      "fs_inodes fs' = fs_inodes fs" "fs_next fs' = fs_next fs"
    and nm: "\<And>p. fs_names fs' p = (if prefix p (dest @ itemDirs it) \<and> strict_prefix dest p then Some Dir else fs_names fs p)"
    using ensureDirChain_fresh [OF real free os] by blast
  have keep: "fs_names fs' p = Some n" if "fs_names fs p = Some n" for p n
  proof (cases "prefix p (dest @ itemDirs it) \<and> strict_prefix dest p")
    case True
    then obtain q where "p = dest @ q" "q \<noteq> []" by (auto simp: strict_prefix_def prefix_def)
    then have "fs_names fs p \<in> {None, Some Dir}" using free [of q] True by simp
    with that True show ?thesis by (auto simp: nm)
  next
    case False
    with that show ?thesis by (auto simp: nm)
  qed
  have ino: "fs_names fs' p = Some (Ino i) \<longleftrightarrow> fs_names fs p = Some (Ino i)" for p i
    using keep [of p] nm [of p] by (auto split: if_split_asm)
  have "coherent fs'" using coh unfolding coherent_def ino fs'(2,3) .
  moreover have "realPath fs' (dest @ itemDirs it)"
  proof -
    have "fs_names fs' q = Some Dir" if "prefix q (dest @ itemDirs it)" "q \<noteq> []" for q
    proof (cases "strict_prefix dest q")
      case True
      with that show ?thesis by (simp add: nm)
    next
      case False
      then have "prefix q dest" using that(1) by (auto simp: strict_prefix_def prefix_append dest: prefix_same_cases)
      with real that(2) keep show ?thesis by (simp add: realPath_def)
    qed
    then show ?thesis by (simp add: realPath_def)
  qed
  moreover have "laid dest fs' a" if "a \<in> old" for a
  proof -
    have "laid dest fs a" using old that by blast
    then show ?thesis by (cases a) (auto simp: ino fs'(2) intro: realPath_names keep)
  qed
  ultimately show thesis using that [OF fs' nm keep] by blast
qed

lemma landing_dir:
  assumes "landing dest old fs" "\<And>p. \<not> xe_osFails env p" "\<forall>a \<in> old. fits a (DirItem segs)" "xe_realDest env = dest"
  shows "\<exists>fs'. landItem env (DirItem segs) fs = (None, fs') \<and> landing dest (insert (DirItem segs) old) fs'"
proof -
  obtain fs' where fs': "ensureDirChain env dest (itemDirs (DirItem segs)) fs = (None, fs')"
      "\<And>p. fs_names fs' p = (if prefix p (dest @ itemDirs (DirItem segs)) \<and> strict_prefix dest p then Some Dir else fs_names fs p)"
      "coherent fs'" "realPath fs' (dest @ itemDirs (DirItem segs))" "\<forall>a \<in> old. laid dest fs' a"
    by (rule landing_chain [OF assms(1-3)]) blast
  have "landing dest (insert (DirItem segs) old) fs'"
    unfolding landing_def
  proof (intro conjI allI impI)
    fix q n assume "strict_prefix dest q \<and> fs_names fs' q = Some n"
    then show "n = Dir \<and> (\<exists>it \<in> insert (DirItem segs) old. prefix q (dest @ itemDirs it)) \<or>
        (\<exists>i segs' data mode mtime. n = Ino i \<and> FileItem segs' data mode mtime \<in> insert (DirItem segs) old \<and> q = dest @ segs')"
      using landing_names [OF assms(1), of q n] fs'(2) [of q] by (auto split: if_split_asm)
  qed (use fs' realPath_append in auto)
  with fs'(1) assms(4) show ?thesis by auto
qed

lemma landing_file:
  assumes l: "landing dest old fs" and os: "\<And>p. \<not> xe_osFails env p"
    and fit: "\<forall>a \<in> old. fits a (FileItem segs data mode mtime) \<and> fits (FileItem segs data mode mtime) a"
    and ne: "segs \<noteq> []" and dst: "xe_realDest env = dest"
  shows "\<exists>fs'. landItem env (FileItem segs data mode mtime) fs = (None, fs') \<and>
               landing dest (insert (FileItem segs data mode mtime) old) fs'"
proof -
  let ?it = "FileItem segs data mode mtime" and ?leaf = "dest @ segs"
  have fit1: "\<forall>a \<in> old. fits a ?it" using fit by blast
  obtain fs1 where fs1: "ensureDirChain env dest (itemDirs ?it) fs = (None, fs1)"
      "\<And>p. fs_names fs1 p = (if prefix p (dest @ itemDirs ?it) \<and> strict_prefix dest p then Some Dir else fs_names fs p)"
      "coherent fs1" "realPath fs1 (dest @ itemDirs ?it)" "\<forall>a \<in> old. laid dest fs1 a"
    by (rule landing_chain [OF l os fit1]) blast
  have inside: "strict_prefix dest ?leaf" using ne by (simp add: strict_prefix_def prefix_def)
  have none: "fs_names fs1 ?leaf = None"
  proof -
    have "\<not> prefix ?leaf (dest @ butlast segs)"
      using ne prefix_length_le [of segs "butlast segs"] by (cases segs rule: rev_cases) auto
    moreover have "fs_names fs ?leaf = None"
    proof (rule ccontr)
      assume "fs_names fs ?leaf \<noteq> None"
      then obtain n where "fs_names fs ?leaf = Some n" by blast
      from landing_names [OF l inside this] show False
      proof (elim disjE conjE exE bexE)
        fix a assume "a \<in> old" "prefix ?leaf (dest @ itemDirs a)"
        then have "prefix segs (itemPath a)" using itemDirs_prefix [of a] prefix_order.trans by auto
        with fit \<open>a \<in> old\<close> show False by auto
      next
        fix i segs' data' mode' mtime' assume "FileItem segs' data' mode' mtime' \<in> old" "?leaf = dest @ segs'"
        with fit show False by fastforce
      qed
    qed
    ultimately show ?thesis by (simp add: fs1(2))
  qed
  let ?i = "fs_next fs1"
  let ?node = "\<lparr>in_regular = True, in_nlink = 1, in_data = data, in_mode = mode mod 512,
                in_mtime = (if mtime > 0 then Some mtime else None)\<rparr>"
  let ?fs = "fs1\<lparr>fs_names := (fs_names fs1)(?leaf \<mapsto> Ino ?i), fs_inodes := (fs_inodes fs1)(?i := ?node), fs_next := Suc ?i\<rparr>"
  have "locate fs1 ((dest @ butlast segs) @ [last segs]) = Some ((dest @ butlast segs) @ [last segs])"
    by (rule locate_real) (use fs1(4) in simp)
  then have loc: "locate fs1 ?leaf = Some ?leaf" using ne by simp
  then have land: "landItem env ?it fs = (None, ?fs)"
    using fs1(1) none os dst by (simp add: landFile_def openLeaf_def setName_def setInode_def Let_def)
  have fresh: "i \<noteq> ?i" if "fs_names fs1 p = Some (Ino i)" for p i
    using fs1(3) that unfolding coherent_def by blast
  have "landing dest (insert ?it old) ?fs"
    unfolding landing_def
  proof (intro conjI allI impI ballI)
    show "coherent ?fs" using fs1(3) fresh unfolding coherent_def by (auto split: if_split_asm intro: less_SucI)
    show "realPath ?fs dest"
      by (rule realPath_names [OF realPath_append [OF fs1(4)]]) (use none in auto)
    fix q n assume "strict_prefix dest q \<and> fs_names ?fs q = Some n"
    then show "n = Dir \<and> (\<exists>it \<in> insert ?it old. prefix q (dest @ itemDirs it)) \<or>
        (\<exists>i segs' data' mode' mtime'. n = Ino i \<and> FileItem segs' data' mode' mtime' \<in> insert ?it old \<and> q = dest @ segs')"
      using landing_names [OF l, of q n] fs1(2) [of q] by (auto split: if_split_asm)
  next
    fix a assume "a \<in> insert ?it old"
    then show "laid dest ?fs a"
    proof
      assume "a \<in> old"
      then have "laid dest fs1 a" using fs1(5) by blast
      then show ?thesis
        by (rule laid_keep) (use none fresh in auto)
    qed simp
  qed
  with land show ?thesis by blast
qed


lemma landing_all:
  assumes "landing dest old fs" "\<And>p. \<not> xe_osFails env p" "xe_realDest env = dest"
    and "clashFree its" "\<forall>it \<in> set its. itemPath it \<noteq> []" "\<forall>a \<in> old. \<forall>b \<in> set its. fits a b \<and> fits b a"
  shows "\<exists>fs'. landAll env its fs = (None, fs') \<and> landing dest (old \<union> set its) fs'"
  using assms(1,4-6)
proof (induction its arbitrary: old fs)
  case (Cons it its)
  have "\<exists>fs1. landItem env it fs = (None, fs1) \<and> landing dest (insert it old) fs1"
  proof (cases it)
    case (DirItem segs)
    then show ?thesis using landing_dir [OF Cons.prems(1) assms(2) _ assms(3), of segs] Cons.prems(4) by auto
  next
    case (FileItem segs data mode mtime)
    then show ?thesis
      using landing_file [OF Cons.prems(1) assms(2) _ _ assms(3), of segs data mode mtime] Cons.prems(3,4) by auto
  qed
  then obtain fs1 where fs1: "landItem env it fs = (None, fs1)" "landing dest (insert it old) fs1" by blast
  have "\<forall>a \<in> insert it old. \<forall>b \<in> set its. fits a b \<and> fits b a"
    using Cons.prems(2,4) by (auto simp: list_all_iff)
  from Cons.IH [OF fs1(2) _ _ this] Cons.prems(2,3) fs1(1) show ?case by auto
qed simp

text \<open>
  C18: What one machine packs, the other lays down.  If the writer finished, then on a fresh
  destination, however the stream is cut into chunks, the extractor reports every file and byte, each
  directory is a directory, each file holds its source's bytes with its permissions and its time, and
  there is nothing else but the directories above them.\<close>

theorem transfer_roundtrip:
  assumes "writeTarGz dirs files (xe_limits env) = Inr w" and "concat chunks = ws_out w"
    and "\<forall>d \<in> set dirs. transferable (ad_path d)" and "\<forall>f \<in> set files. transferable (af_path f)"
    and "clashFree (itemsOf dirs files)"
    and "coherent fs0" and "realPath fs0 (xe_realDest env)" and "\<And>p. \<not> xe_osFails env p"
    and "\<And>q. strict_prefix (xe_realDest env) q \<Longrightarrow> fs_names fs0 q = None"
    and "extractTarGz env chunks fs0 = (answer, fs)"
  shows "answer = Inr (length files, sum_list (map (\<lambda>f. length (concat (af_source f))) files)) \<and>
         list_all (\<lambda>d. fs_names fs (xe_realDest env @ segsOf (ad_path d)) = Some Dir) dirs \<and>
         list_all (\<lambda>f. \<exists>i. fs_names fs (xe_realDest env @ segsOf (af_path f)) = Some (Ino i) \<and>
                     in_data (fs_inodes fs i) = concat (af_source f) \<and>
                     in_mode (fs_inodes fs i) = orElse (af_mode f) 0x1A4 mod 512 \<and>
                     in_mtime (fs_inodes fs i) =
                       (let t = nat (orElse (af_mtimeSeconds f) 0 mod 2 ^ 32) in if t > 0 then Some t else None)) files \<and>
         (\<forall>q. strict_prefix (xe_realDest env) q \<and> fs_names fs q \<noteq> None \<longrightarrow>
              (\<exists>p \<in> set (map ad_path dirs @ map af_path files). prefix q (xe_realDest env @ segsOf p)))"
proof -
  let ?dest = "xe_realDest env" and ?its = "itemsOf dirs files"
  have "landing ?dest {} fs0" using assms(6,7,9) by (auto simp: landing_def)
  moreover have segs: "segsOf p \<noteq> []" for p by (simp add: segsOf_def)
  then have "\<forall>it \<in> set ?its. itemPath it \<noteq> []" by (auto simp: itemsOf_def dirItem_def fileItem_def)
  ultimately obtain fs' where fs': "landAll env ?its fs0 = (None, fs')" "landing ?dest (set ?its) fs'"
    using landing_all [OF _ assms(8) refl assms(5), of "{}" fs0] by auto
  have ans: "answer = Inr (length files, sum_list (map (\<lambda>f. length (concat (af_source f))) files))" "fs = fs'"
    using extract_is_landing [OF assms(1-4), of fs0] fs'(1) assms(10) by simp_all
  have laid: "laid ?dest fs (dirItem d)" if "d \<in> set dirs" for d
    using fs'(2) that unfolding landing_def ans(2) itemsOf_def by simp
  have laid': "laid ?dest fs (fileItem f)" if "f \<in> set files" for f
    using fs'(2) that unfolding landing_def ans(2) itemsOf_def by simp
  have "fs_names fs (?dest @ segsOf (ad_path d)) = Some Dir" if "d \<in> set dirs" for d
    using laid [OF that] segs by (simp add: dirItem_def realPath_def)
  moreover have "\<exists>i. fs_names fs (?dest @ segsOf (af_path f)) = Some (Ino i) \<and>
        in_data (fs_inodes fs i) = concat (af_source f) \<and> in_mode (fs_inodes fs i) = orElse (af_mode f) 0x1A4 mod 512 \<and>
        in_mtime (fs_inodes fs i) = (let t = nat (orElse (af_mtimeSeconds f) 0 mod 2 ^ 32) in if t > 0 then Some t else None)"
    if "f \<in> set files" for f
    using laid' [OF that] by (auto simp: fileItem_def mod_mod_cancel)
  moreover have "\<exists>p \<in> set (map ad_path dirs @ map af_path files). prefix q (?dest @ segsOf p)"
    if "strict_prefix ?dest q" "fs_names fs q = Some n" for q n
  proof -
    have "fs_names fs' q = Some n" using that(2) ans(2) by simp
    from landing_names [OF fs'(2) that(1) this]
    have "\<exists>it \<in> set ?its. prefix q (?dest @ itemPath it)"
    proof (elim disjE conjE bexE exE)
      fix it assume "it \<in> set ?its" "prefix q (?dest @ itemDirs it)"
      moreover have "prefix (?dest @ itemDirs it) (?dest @ itemPath it)" using itemDirs_prefix [of it] by simp
      ultimately show ?thesis using prefix_order.trans by blast
    next
      fix i segs data mode mtime assume "FileItem segs data mode mtime \<in> set ?its" "q = ?dest @ segs"
      then show ?thesis by (intro bexI [of _ "FileItem segs data mode mtime"]) simp_all
    qed
    then obtain it where "it \<in> set ?its" "prefix q (?dest @ itemPath it)" by blast
    then show ?thesis by (auto simp: itemsOf_def dirItem_def fileItem_def)
  qed
  ultimately show ?thesis using ans(1) by (auto simp: list_all_iff)
qed

section \<open>Witnesses\<close>

definition sample_xenv :: extract_env where
  "sample_xenv = \<lparr>xe_limits = \<lparr>al_maxFileBytes = 1000, al_maxTotalBytes = 10000, al_maxEntries = 10\<rparr>,
                  xe_realDest = [ascii ''d''], xe_osFails = (\<lambda>_. False)\<rparr>"

definition sample_inode :: inode where
  "sample_inode = \<lparr>in_regular = True, in_nlink = 1, in_data = [7], in_mode = 0x180, in_mtime = None\<rparr>"

text \<open>A file outside the destination \<open>/d\<close>, and a symbolic link in it that leads to the root.\<close>

definition sample_fs :: fs where
  "sample_fs = \<lparr>fs_names = [[ascii ''d''] \<mapsto> Dir, [ascii ''d'', ascii ''l''] \<mapsto> Sym [], [ascii ''secret''] \<mapsto> Ino 0],
                fs_inodes = (\<lambda>_. sample_inode), fs_next = 1\<rparr>"

definition fresh_fs :: fs where
  "fresh_fs = \<lparr>fs_names = [[ascii ''d''] \<mapsto> Dir], fs_inodes = (\<lambda>_. sample_inode), fs_next = 0\<rparr>"

definition sample_file :: "string \<Rightarrow> archive_file" where
  "sample_file p = \<lparr>af_path = ascii p, af_source = [[1], [2]], af_size = 2, af_mode = None, af_mtimeSeconds = None\<rparr>"

lemma prefix_single: "prefix q [d] \<and> q \<noteq> [] \<longleftrightarrow> q = [d]"
  by (cases q) auto

lemma sample_fs_ok:
  "coherent sample_fs" "realPath sample_fs (xe_realDest sample_xenv)"
  "coherent fresh_fs" "realPath fresh_fs (xe_realDest sample_xenv)"
  by (auto simp: coherent_def sample_fs_def fresh_fs_def realPath_def sample_xenv_def prefix_single split: if_split_asm)

theorem extraction_contained_witness:
  "fs_inodes (snd (extractTarGz sample_xenv
      [ws_out (projr (writeTarGz [] [sample_file ''l/secret''] (xe_limits sample_xenv)))] sample_fs)) 0 = sample_inode"
proof -
  have "\<not> strict_prefix (xe_realDest sample_xenv) [ascii ''secret''] \<and> fs_names sample_fs [ascii ''secret''] = Some (Ino 0)"
    by (simp add: sample_xenv_def sample_fs_def ascii_def strict_prefix_def)
  with extraction_contained [OF sample_fs_ok(1,2) refl]
  have "fs_inodes (snd (extractTarGz sample_xenv chunks sample_fs)) 0 = fs_inodes sample_fs 0" for chunks by blast
  moreover have "fs_inodes sample_fs 0 = sample_inode" by (simp add: sample_fs_def)
  ultimately show ?thesis by simp
qed

lemma sample_writes: "\<exists>w. writeTarGz [] [sample_file ''a''] (xe_limits sample_xenv) = Inr w"
proof -
  let ?spec = "\<lparr>hs_nameBytes = textEncode (ascii ''a''), hs_size = 2, hs_mode = 0x1A4, hs_mtimeSeconds = 0, hs_typeflag = TYPE_FILE\<rparr>"
  have n: "textEncode (ascii ''a'') = [97]" "textEncode TYPE_FILE = [48]" by (simp_all add: ascii_def TYPE_FILE_def)
  then obtain h where h: "buildHeader ?spec = Inr h" by (simp add: buildHeader_iff)
  have len: "length h = 512" by (rule built_not_zero(2) [OF h])
  have safe: "safeTransferPath (ascii ''a'') = Inr (ascii ''a'')" by code_simp
  show ?thesis
    using h len n safe
    by (simp add: writeTarGz_def writeFile_def sample_file_def sample_xenv_def countEntry_def writeHeader_def needsPax_def
        emit_def orElse_def drainBlocks.simps BLOCK_def writeTail_def blockPadding_def setAt_def ascii_def Let_def)
qed

theorem transfer_roundtrip_witness:
  "\<exists>chunks fs i. extractTarGz sample_xenv chunks fresh_fs = (Inr (1, 2), fs) \<and>
     fs_names fs [ascii ''d'', ascii ''a''] = Some (Ino i) \<and> in_data (fs_inodes fs i) = [1, 2] \<and>
     in_mode (fs_inodes fs i) = 0x1A4"
proof -
  obtain w where w: "writeTarGz [] [sample_file ''a''] (xe_limits sample_xenv) = Inr w" using sample_writes by blast
  have rel: "safeTransferPath (ascii ''a'') = Inr (ascii ''a'')" "segsOf (ascii ''a'') = [ascii ''a'']" by code_simp+
  have names: "\<forall>d \<in> set []. transferable (ad_path d)" "\<forall>f \<in> set [sample_file ''a'']. transferable (af_path f)"
    using rel(1) by (simp_all add: transferable_def sample_file_def scalar_def surrogate_def ascii_def textEncode_def utf8Char_def)
  have free: "fs_names fresh_fs q = None" if "strict_prefix (xe_realDest sample_xenv) q" for q
    using that by (auto simp: fresh_fs_def sample_xenv_def)
  have os: "\<not> xe_osFails sample_xenv p" for p by (simp add: sample_xenv_def)
  have clash: "clashFree (itemsOf [] [sample_file ''a''])" by (simp add: itemsOf_def)
  obtain answer fs where x: "extractTarGz sample_xenv [ws_out w] fresh_fs = (answer, fs)" by fastforce
  have "concat [ws_out w] = ws_out w" by simp
  from transfer_roundtrip [OF w this names clash sample_fs_ok(3,4) os free x]
  have "answer = Inr (1, 2)" "\<exists>i. fs_names fs [ascii ''d'', ascii ''a''] = Some (Ino i) \<and>
      in_data (fs_inodes fs i) = [1, 2] \<and> in_mode (fs_inodes fs i) = 0x1A4"
    by (simp_all add: sample_file_def rel(2) [unfolded ascii_def, simplified] sample_xenv_def orElse_def Let_def) blast
  with x show ?thesis by blast
qed

end
