(* ===== verification/TarVendor.thy ===== *)
theory TarVendor
  imports TarBlocks
begin

text \<open>
  Unpacking a plugin's npm tarball in memory: \<open>extractTgz\<close> of \<open>tar-vendor.ts\<close>.  Decompression with an
  output ceiling is zlib's; it is the argument \<open>gunzip\<close>, which may fail.
\<close>

record tar_entry =
  te_path :: jtext
  te_content :: "byte list"

definition DEFAULT_MAX_BYTES :: nat where "DEFAULT_MAX_BYTES = 20 * 1024 * 1024"
definition DEFAULT_MAX_ENTRIES :: nat where "DEFAULT_MAX_ENTRIES = 1024"
definition MAX_METADATA_BYTES :: nat where "MAX_METADATA_BYTES = 1024 * 1024"
definition MAX_SAFE_INTEGER :: nat where "MAX_SAFE_INTEGER = 2 ^ 53 - 1"

text \<open>\<open>dropWrapper\<close> is the strip of npm's \<open>package/\<close> directory.\<close>

definition dropWrapper :: "jtext list \<Rightarrow> jtext list" where
  "dropWrapper parts =
     (if length parts > 1 \<and> (hd parts = ascii ''package'' \<or> prefix (ascii ''package@'') (hd parts))
      then tl parts else parts)"

definition safeRelativePath :: "jtext \<Rightarrow> tar_error + jtext" where
  "safeRelativePath p =
     (if (p \<noteq> [] \<and> hd p = SLASH) \<or> 0 \<in> set p then Inl UnsafePath
      else ebind (keepSegments (splitOn SLASH p))
             (\<lambda>parts. if dropWrapper parts = [] then Inl EmptyPath else Inr (joinWith SLASH (dropWrapper parts))))"

definition hexDigit :: "nat \<Rightarrow> bool" where
  "hexDigit c \<longleftrightarrow> (48 \<le> c \<and> c \<le> 57) \<or> (65 \<le> c \<and> c \<le> 70) \<or> (97 \<le> c \<and> c \<le> 102)"

definition hexValue :: "nat \<Rightarrow> nat" where
  "hexValue c = (if c \<le> 57 then c - 48 else if c \<le> 70 then c - 55 else c - 87)"

fun decodePax :: "jtext \<Rightarrow> jtext" where
  "decodePax (b # x # h # l # s) =
     (if b = 92 \<and> x = 120 \<and> hexDigit h \<and> hexDigit l then (hexValue h * 16 + hexValue l) # decodePax s
      else b # decodePax (x # h # l # s))"
| "decodePax (c # s) = c # decodePax s"
| "decodePax [] = []"

definition textField :: "byte list \<Rightarrow> nat \<Rightarrow> nat \<Rightarrow> jtext" where
  "textField blk start len = takeWhile (\<lambda>c. c \<noteq> 0) (textDecode (slice start (start + len) blk))"

definition paxPath :: "byte list \<Rightarrow> jtext option \<Rightarrow> jtext option" where
  "paxPath body pending =
     foldl (\<lambda>path line. let kv = afterSpace line in
              if prefix (ascii ''path='') kv then Some (decodePax (drop 5 kv)) else path)
       pending (splitOn NEWLINE (textDecode body))"

record vstate =
  vs_raw :: "byte list"
  vs_out :: "tar_entry list"
  vs_pending :: "jtext option"
  vs_total :: nat
  vs_entries :: nat
  vs_metadata :: nat

definition vendorEntry :: "nat \<Rightarrow> jtext \<Rightarrow> jtext \<Rightarrow> jtext \<Rightarrow> byte list \<Rightarrow> vstate \<Rightarrow> tar_error + vstate" where
  "vendorEntry maxBytes typeflag name pfx body v =
     (if typeflag = ascii ''x'' \<or> typeflag = ascii ''g'' then
        let m = vs_metadata v + length body in
        if m > MAX_METADATA_BYTES then Inl MetadataTooBig
        else Inr (v\<lparr>vs_metadata := m, vs_pending := paxPath body (vs_pending v)\<rparr>)
      else
        let rawPath = (case vs_pending v of Some p \<Rightarrow> p | None \<Rightarrow> if pfx \<noteq> [] then pfx @ SLASH # name else name);
            v = v\<lparr>vs_pending := None\<rparr>
        in if typeflag = ascii ''5'' then (if body \<noteq> [] then Inl DirWithBody else Inr v)
           else if typeflag \<noteq> ascii ''0'' then Inl BadEntryType
           else ebind (safeRelativePath rawPath) (\<lambda>rel.
                  let t = vs_total v + length body in
                  if t > maxBytes then Inl TooManyBytes
                  else Inr (v\<lparr>vs_total := t, vs_out := vs_out v @ [\<lparr>te_path = rel, te_content = body\<rparr>]\<rparr>)))"

definition vendorBlock :: "nat \<Rightarrow> nat \<Rightarrow> vstate \<Rightarrow> tar_error + vstate" where
  "vendorBlock maxBytes maxEntries v =
     (let header = take 512 (vs_raw v); raw = drop 512 (vs_raw v); n = Suc (vs_entries v) in
      if n > maxEntries then Inl TooManyEntries
      else
        case parseInt8 (jsTrim (textField header 124 12)) of
          None \<Rightarrow> Inl BadSize
        | Some s \<Rightarrow>
            if s < 0 then Inl BadSize
            else
              let fsize = nat s; body = take fsize raw;
                  t = textField header 156 1; typeflag = (if t = [] then ascii ''0'' else t)
              in if length body \<noteq> fsize then Inl Truncated
                 else vendorEntry maxBytes typeflag (textField header 0 100) (textField header 345 155) body
                        (v\<lparr>vs_raw := drop ((fsize + 511) div 512 * 512) raw, vs_entries := n\<rparr>))"

lemma vendorBlock_raw: "vendorBlock a b v = Inr v' \<Longrightarrow> length (vs_raw v') \<le> length (vs_raw v) - 512"
  by (auto simp: vendorBlock_def vendorEntry_def Let_def ebind_Inr_iff split: option.split_asm if_split_asm)

function vendorLoop :: "nat \<Rightarrow> nat \<Rightarrow> vstate \<Rightarrow> tar_error + tar_entry list" where
  "vendorLoop maxBytes maxEntries v =
     (if length (vs_raw v) < 512 \<or> list_all (\<lambda>b. b = 0) (take 512 (vs_raw v)) then Inr (vs_out v)
      else
        case vendorBlock maxBytes maxEntries v of
          Inl e \<Rightarrow> Inl e
        | Inr v' \<Rightarrow> vendorLoop maxBytes maxEntries v')"
  by pat_completeness auto

termination
  by (relation "measure (\<lambda>(a, b, v). length (vs_raw v))") (auto dest!: vendorBlock_raw)

declare vendorLoop.simps [simp del]

definition extractTgz ::
  "(byte list \<Rightarrow> nat \<Rightarrow> tar_error + byte list) \<Rightarrow> byte list \<Rightarrow> nat option \<Rightarrow> nat option \<Rightarrow> tar_error + tar_entry list" where
  "extractTgz gunzip tgz optBytes optEntries =
     (let maxBytes = (case optBytes of None \<Rightarrow> DEFAULT_MAX_BYTES | Some n \<Rightarrow> n);
          maxEntries = (case optEntries of None \<Rightarrow> DEFAULT_MAX_ENTRIES | Some n \<Rightarrow> n);
          maxExpandedBytes = maxBytes + maxEntries * 1024 + MAX_METADATA_BYTES + 1024
      in if list_ex (\<lambda>limit. limit > MAX_SAFE_INTEGER \<or> limit < 1) [maxBytes, maxEntries] then Inl BadLimit
         else if maxExpandedBytes > MAX_SAFE_INTEGER then Inl BadLimit
         else ebind (gunzip tgz maxExpandedBytes)
                (\<lambda>raw. vendorLoop maxBytes maxEntries
                   \<lparr>vs_raw = raw, vs_out = [], vs_pending = None, vs_total = 0, vs_entries = 0, vs_metadata = 0\<rparr>))"

section \<open>What comes out is safe and bounded\<close>

text \<open>A path that stays under the directory it is joined to.\<close>

definition relativeBelow :: "jtext \<Rightarrow> bool" where
  "relativeBelow p \<longleftrightarrow> p \<noteq> [] \<and> hd p \<noteq> SLASH \<and> 0 \<notin> set p \<and>
     (\<forall>s \<in> set (splitOn SLASH p). s \<noteq> [] \<and> s \<noteq> ascii ''.'' \<and> s \<noteq> ascii ''..'')"

lemma safeRelativePath_below:
  assumes "safeRelativePath p = Inr rel"
  shows "relativeBelow rel"
proof -
  obtain parts where p: "keepSegments (splitOn SLASH p) = Inr parts" "dropWrapper parts \<noteq> []" "0 \<notin> set p"
    and rel: "rel = joinWith SLASH (dropWrapper parts)"
    using assms by (auto simp: safeRelativePath_def ebind_Inr_iff split: if_split_asm)
  let ?ws = "dropWrapper parts"
  have sub: "set ?ws \<subseteq> set parts" by (cases parts) (auto simp: dropWrapper_def)
  have seg: "s \<noteq> [] \<and> s \<noteq> ascii ''.'' \<and> s \<noteq> ascii ''..'' \<and> SLASH \<notin> set s \<and> 0 \<notin> set s" if "s \<in> set ?ws" for s
  proof -
    have s: "s \<in> set (splitOn SLASH p)" "s \<noteq> []" "s \<noteq> ascii ''.''" "s \<noteq> ascii ''..''"
      using keepSegments_Inr [OF p(1)] sub that by auto
    then show ?thesis using splitOn_no_sep [OF s(1)] splitOn_set [OF s(1)] p(3) by auto
  qed
  have ne: "\<forall>w \<in> set ?ws. w \<noteq> []" using seg by blast
  have split: "splitOn SLASH rel = ?ws" unfolding rel by (rule splitOn_joinWith) (use p(2) seg in auto)
  have "hd (hd ?ws) \<noteq> SLASH" using seg [OF hd_in_set [OF p(2)]] hd_in_set by metis
  then have "rel \<noteq> []" "hd rel \<noteq> SLASH" using joinWith_ends [OF p(2) ne, of SLASH] rel by simp_all
  moreover have "0 \<notin> set rel" using set_joinWith [of SLASH ?ws] seg by (fastforce simp: rel)
  ultimately show ?thesis using split seg by (simp add: relativeBelow_def)
qed

definition vendorOk :: "nat \<Rightarrow> nat \<Rightarrow> vstate \<Rightarrow> bool" where
  "vendorOk maxBytes maxEntries v \<longleftrightarrow>
     list_all (\<lambda>e. relativeBelow (te_path e)) (vs_out v) \<and>
     vs_total v = sum_list (map (\<lambda>e. length (te_content e)) (vs_out v)) \<and> vs_total v \<le> maxBytes \<and>
     length (vs_out v) \<le> vs_entries v \<and> vs_entries v \<le> maxEntries"

lemma vendorBlock_ok: "vendorOk a b v \<Longrightarrow> vendorBlock a b v = Inr v' \<Longrightarrow> vendorOk a b v'"
  by (auto simp: vendorBlock_def vendorEntry_def vendorOk_def Let_def ebind_Inr_iff safeRelativePath_below
      split: option.split_asm if_split_asm)

lemma vendorLoop_ok:
  "vendorOk a b v \<Longrightarrow> vendorLoop a b v = Inr out \<Longrightarrow>
   list_all (\<lambda>e. relativeBelow (te_path e)) out \<and> sum_list (map (\<lambda>e. length (te_content e)) out) \<le> a \<and> length out \<le> b"
proof (induction a b v rule: vendorLoop.induct)
  case (1 a b v)
  show ?case
  proof (cases "length (vs_raw v) < 512 \<or> list_all (\<lambda>b. b = 0) (take 512 (vs_raw v))")
    case True
    with "1.prems" show ?thesis by (auto simp: vendorLoop.simps [of a b v] vendorOk_def)
  next
    case False
    with "1.prems" obtain v' where v': "vendorBlock a b v = Inr v'" "vendorLoop a b v' = Inr out"
      by (auto simp: vendorLoop.simps [of a b v] split: sum.split_asm)
    from "1.IH" [OF False v'(1) vendorBlock_ok [OF "1.prems"(1) v'(1)] v'(2)] show ?thesis .
  qed
qed

section \<open>What goes in comes out\<close>

text \<open>
  The archive npm would make of files and directories under \<open>package/\<close>: a header block of the code's own
  \<open>buildHeader\<close> for each member, a file's bytes behind it, filled up to a whole block, and two blocks of zeros.
\<close>

record packed_member =
  pk_path :: jtext
  pk_mode :: nat
  pk_mtime :: int
  pk_content :: "byte list option"

definition packedBody :: "packed_member \<Rightarrow> byte list" where
  "packedBody m = (case pk_content m of None \<Rightarrow> [] | Some c \<Rightarrow> c)"

definition packedHeader :: "packed_member \<Rightarrow> header_spec" where
  "packedHeader m =
     \<lparr>hs_nameBytes = textEncode (ascii ''package/'' @ pk_path m), hs_size = length (packedBody m), hs_mode = pk_mode m,
      hs_mtimeSeconds = pk_mtime m, hs_typeflag = (if pk_content m = None then TYPE_DIR else TYPE_FILE)\<rparr>"

definition packMember :: "packed_member \<Rightarrow> byte list" where
  "packMember m =
     (case buildHeader (packedHeader m) of
        Inl e \<Rightarrow> []
      | Inr h \<Rightarrow> h @ packedBody m @ replicate (blockPadding (length (packedBody m))) 0)"

definition packedTarball :: "packed_member list \<Rightarrow> byte list" where
  "packedTarball ms = concat (map packMember ms) @ replicate 1024 0"

text \<open>What fits: clean relative paths short enough for the name field, and the caps.\<close>

definition packable :: "packed_member \<Rightarrow> bool" where
  "packable m \<longleftrightarrow> relativeBelow (pk_path m) \<and> (\<forall>c \<in> set (pk_path m). scalar c) \<and>
     length (textEncode (ascii ''package/'' @ pk_path m)) \<le> 100 \<and> length (packedBody m) < 8 ^ 11"

definition unpacked :: "packed_member list \<Rightarrow> tar_entry list" where
  "unpacked ms = concat (map (\<lambda>m. case pk_content m of None \<Rightarrow> [] | Some c \<Rightarrow> [\<lparr>te_path = pk_path m, te_content = c\<rparr>]) ms)"

lemma safe_under_package:
  assumes "relativeBelow p"
  shows "safeRelativePath (ascii ''package/'' @ p) = Inr p"
proof -
  have pk: "ascii ''package/'' @ p = ascii ''package'' @ SLASH # p" "SLASH \<notin> set (ascii ''package'')"
    by (simp_all add: ascii_def)
  have split: "splitOn SLASH (ascii ''package/'' @ p) = ascii ''package'' # splitOn SLASH p"
    unfolding pk(1) by (rule splitOn_append [OF pk(2)])
  have clean: "keepSegments segs = Inr segs"
    if "\<forall>s \<in> set segs. s \<noteq> [] \<and> s \<noteq> ascii ''.'' \<and> s \<noteq> ascii ''..''" for segs
    using that by (induction segs) simp_all
  have "keepSegments (ascii ''package'' # splitOn SLASH p) = Inr (ascii ''package'' # splitOn SLASH p)"
    by (rule clean) (use assms in \<open>auto simp: relativeBelow_def ascii_def\<close>)
  moreover have "dropWrapper (ascii ''package'' # splitOn SLASH p) = splitOn SLASH p"
    by (simp add: dropWrapper_def)
  moreover have "0 \<notin> set (ascii ''package/'' @ p)" "hd (ascii ''package/'' @ p) \<noteq> SLASH"
    using assms by (auto simp: relativeBelow_def ascii_def)
  ultimately show ?thesis
    by (simp add: safeRelativePath_def split joinWith_splitOn)
qed

lemma textDecode_padded:
  assumes "\<forall>c \<in> set s. scalar c \<and> c \<noteq> 0" "s = [] \<or> hd s \<noteq> 0xFEFF"
  shows "takeWhile (\<lambda>c. c \<noteq> 0) (textDecode (textEncode s @ replicate n 0)) = s"
proof -
  have "textEncode s @ replicate n 0 = textEncode (s @ replicate n 0)"
    by (simp add: textEncode_def utf8_ascii [of "replicate n 0"])
  moreover have "textDecode (textEncode (s @ replicate n 0)) = dropBom (s @ replicate n 0)"
    by (rule text_roundtrip) (use assms(1) in \<open>auto simp: scalar_def surrogate_def\<close>)
  moreover have "dropBom (s @ replicate n 0) = s @ replicate n 0"
    by (rule dropBom_other) (use assms(2) in \<open>cases s; cases n; auto\<close>)
  moreover have "takeWhile (\<lambda>c. c \<noteq> 0) (s @ replicate n 0) = s"
    using assms(1) by (induction s) (auto simp: takeWhile_replicate)
  ultimately show ?thesis by simp
qed

lemma packed_header:
  assumes "packable m"
  obtains h where "buildHeader (packedHeader m) = Inr h" "length h = 512" "\<not> list_all (\<lambda>b. b = 0) h"
    and "textField h 0 100 = ascii ''package/'' @ pk_path m" "textField h 124 12 = octalDigits 11 (length (packedBody m))"
    and "textField h 156 1 = (if pk_content m = None then ascii ''5'' else ascii ''0'')" "textField h 345 155 = []"
proof -
  let ?s = "packedHeader m" and ?n = "ascii ''package/'' @ pk_path m"
  let ?t = "if pk_content m = None then 53 else 48 :: nat"
  have sz: "hs_size ?s = length (packedBody m)" by (simp add: packedHeader_def)
  have nb: "hs_nameBytes ?s = textEncode ?n" by (simp add: packedHeader_def)
  have tf: "hs_typeflag ?s = [?t]" by (simp add: packedHeader_def TYPE_DIR_def TYPE_FILE_def ascii_def)
  obtain h where h: "buildHeader ?s = Inr h"
    using assms tf by (cases "pk_content m") (auto simp: buildHeader_iff packedHeader_def packable_def TYPE_DIR_def TYPE_FILE_def ascii_def)
  note len = headerBody_length [OF h] and sl = headerBody_slices [OF h]
  note chk = writeChecksum_slice [OF len(1)]
  have l: "length h = 512" using chk(2) [of 0 0] by (simp add: len(8))
  have tb: "slice 156 157 h = [word_of_nat ?t]" using tf sl(6) by (simp add: len(8) chk)
  have "set (slice 156 157 h) \<subseteq> set h" by (auto simp: slice_def dest: in_set_takeD in_set_dropD)
  then have z: "\<not> list_all (\<lambda>b. b = 0) h" unfolding tb
    by (cases "pk_content m") (auto simp: list_all_iff intro: bexI [of _ "53 :: byte"] bexI [of _ "48 :: byte"])
  have p: "0 \<notin> set (pk_path m)" "\<forall>c \<in> set (pk_path m). scalar c"
    using assms by (simp_all add: packable_def relativeBelow_def)
  have "\<forall>c \<in> set (ascii ''package/''). scalar c \<and> c \<noteq> 0" by (simp add: ascii_def scalar_def surrogate_def)
  then have n: "\<forall>c \<in> set ?n. scalar c \<and> c \<noteq> 0" using p by (metis Un_iff set_append)
  have n': "hd ?n \<noteq> 0xFEFF" by (simp add: ascii_def)
  have "slice 0 100 h = textEncode ?n @ replicate (100 - length (textEncode ?n)) 0"
    by (simp add: len(8) chk sl nb)
  then have "textField h 0 100 = ?n"
    using textDecode_padded [OF n, of "100 - length (textEncode ?n)"] n' by (simp only: textField_def add_0 simp_thms)
  moreover have "textField h 124 12 = octalDigits 11 (length (packedBody m))"
  proof -
    let ?o = "octalDigits 11 (length (packedBody m))"
    have d: "48 \<le> c \<and> c < 56" if "c \<in> set ?o" for c using octalDigits_range [OF that] by (simp add: octalDigit_def)
    have "\<forall>c \<in> set ?o. scalar c \<and> c \<noteq> 0" using d by (fastforce simp: scalar_def surrogate_def)
    moreover have "hd ?o \<noteq> 0xFEFF" using d [OF hd_in_set [OF octalDigits_ne]] by linarith
    ultimately have "takeWhile (\<lambda>c. c \<noteq> 0) (textDecode (textEncode ?o @ replicate 1 0)) = ?o"
      by (intro textDecode_padded) simp_all
    then show ?thesis by (simp add: textField_def len(8) chk sl sz octalBytes_def)
  qed
  moreover have "textField h 156 1 = [?t]"
    using textDecode_padded [of "[?t]" 0] tb by (simp add: textField_def scalar_def surrogate_def)
  moreover have "textField h 345 155 = []"
    using textDecode_padded [of "[]" 155] by (simp add: textField_def len(8) chk sl)
  ultimately show ?thesis using that h l z by (simp add: ascii_def)
qed

lemma ceil_padding: "(n + 511) div 512 * 512 = n + blockPadding n"
proof -
  define q r where "q = n div 512" and "r = n mod 512"
  have n: "n = 512 * q + r" "r < 512" unfolding q_def r_def by simp_all
  have p: "blockPadding n = (512 - r) mod 512" by (simp add: blockPadding_def BLOCK_def r_def)
  show ?thesis
  proof (cases "r = 0")
    case True
    have "(n + 511) div 512 = q" unfolding n(1) True by simp
    then show ?thesis using True n(1) p by simp
  next
    case False
    have "(n + 511) div 512 = Suc q" by (rule div_nat_eqI) (use n False in simp_all)
    moreover have "(512 - r) mod 512 = 512 - r" using False by simp
    ultimately show ?thesis using n p by simp
  qed
qed

lemma vendorBlock_member:
  assumes "packable m" "vs_raw v = packMember m @ rest" "vs_pending v = None" "vs_entries v < b"
    and "vs_total v + length (packedBody m) \<le> a"
  shows "vendorBlock a b v = Inr (v\<lparr>vs_raw := rest, vs_entries := Suc (vs_entries v),
      vs_total := vs_total v + length (packedBody m), vs_out := vs_out v @ unpacked [m]\<rparr>)"
    and "\<not> (length (vs_raw v) < 512 \<or> list_all (\<lambda>b. b = 0) (take 512 (vs_raw v)))"
proof -
  obtain h where h: "buildHeader (packedHeader m) = Inr h" "length h = 512" "\<not> list_all (\<lambda>b. b = 0) h"
    and f: "textField h 0 100 = ascii ''package/'' @ pk_path m" "textField h 124 12 = octalDigits 11 (length (packedBody m))"
      "textField h 156 1 = (if pk_content m = None then ascii ''5'' else ascii ''0'')" "textField h 345 155 = []"
    by (rule packed_header [OF assms(1)])
  let ?c = "packedBody m"
  have raw: "take 512 (vs_raw v) = h" "drop 512 (vs_raw v) = ?c @ replicate (blockPadding (length ?c)) 0 @ rest"
    using h(1,2) assms(2) by (simp_all add: packMember_def)
  have "jsTrim (octalDigits 11 (length ?c)) = octalDigits 11 (length ?c)"
    by (rule jsTrim_id) (use octalDigits_range [OF hd_in_set] octalDigits_range [OF last_in_set] octalDigits_ne in blast)
  then have num: "parseInt8 (jsTrim (octalDigits 11 (length ?c))) = Some (int (length ?c))"
    using octalDigits_range [of _ 11] by (simp add: parseInt8_digits octalDigits_ne octalDigits_value)
  have skip: "drop ((length ?c + 511) div 512 * 512) (?c @ replicate (blockPadding (length ?c)) 0 @ rest) = rest"
    unfolding ceil_padding by simp
  have rel: "safeRelativePath (ascii ''package/'' @ pk_path m) = Inr (pk_path m)"
    by (rule safe_under_package) (use assms(1) in \<open>unfold packable_def, blast\<close>)
  have blk: "vendorBlock a b v = vendorEntry a (if pk_content m = None then ascii ''5'' else ascii ''0'')
      (ascii ''package/'' @ pk_path m) [] ?c (v\<lparr>vs_raw := rest, vs_entries := Suc (vs_entries v)\<rparr>)"
    using assms(4) skip num by (simp add: vendorBlock_def Let_def raw f f(3) [unfolded One_nat_def] ascii_def)
  show "vendorBlock a b v = Inr (v\<lparr>vs_raw := rest, vs_entries := Suc (vs_entries v),
      vs_total := vs_total v + length (packedBody m), vs_out := vs_out v @ unpacked [m]\<rparr>)"
    using assms(3,5) rel unfolding blk
    by (cases "pk_content m") (auto simp: vendorEntry_def unpacked_def packedBody_def ascii_def)
  show "\<not> (length (vs_raw v) < 512 \<or> list_all (\<lambda>b. b = 0) (take 512 (vs_raw v)))"
    unfolding raw(1) using h(1-3) assms(2) by (simp add: packMember_def)
qed

lemma vendorLoop_packed:
  assumes "list_all packable ms" "vs_raw v = packedTarball ms" "vs_pending v = None" "vs_entries v + length ms \<le> b"
    and "vs_total v + sum_list (map (\<lambda>m. length (packedBody m)) ms) \<le> a"
  shows "vendorLoop a b v = Inr (vs_out v @ unpacked ms)"
  using assms
proof (induction ms arbitrary: v)
  case Nil
  then have "take 512 (vs_raw v) = replicate 512 0" by (simp add: packedTarball_def)
  then show ?case by (simp add: vendorLoop.simps [of a b v] unpacked_def list_all_iff)
next
  case (Cons m ms)
  have raw: "vs_raw v = packMember m @ packedTarball ms" using Cons.prems(2) by (simp add: packedTarball_def)
  have blk: "vendorBlock a b v = Inr (v\<lparr>vs_raw := packedTarball ms, vs_entries := Suc (vs_entries v),
      vs_total := vs_total v + length (packedBody m), vs_out := vs_out v @ unpacked [m]\<rparr>)"
    "\<not> (length (vs_raw v) < 512 \<or> list_all (\<lambda>b. b = 0) (take 512 (vs_raw v)))"
    using vendorBlock_member [OF _ raw Cons.prems(3), of b a] Cons.prems(1,4,5) by simp_all
  show ?case
    using blk(2) Cons.IH [of "v\<lparr>vs_raw := packedTarball ms, vs_entries := Suc (vs_entries v),
      vs_total := vs_total v + length (packedBody m), vs_out := vs_out v @ unpacked [m]\<rparr>"] Cons.prems
    by (simp add: vendorLoop.simps [of a b v] blk(1) unpacked_def)
qed
text \<open>
  C31: A plugin tarball unpacks to files below the target, within the caps, and to exactly the files it holds.
  Every path the parser returns is relative, without empty, dot or dot-dot segments, and the caps on entries
  and bytes hold for what it returns.  And it returns what was packed: when the caps are usable and the
  decompressed bytes are the archive of a list of files and directories under \<open>package/\<close>, with clean relative
  paths that fit the name field, within the caps, then the result is the list of the files with their paths
  below \<open>package/\<close> and their bytes, in their order.\<close>

theorem tarball_entries_safe:
  assumes "maxBytes = (case optBytes of None \<Rightarrow> DEFAULT_MAX_BYTES | Some n \<Rightarrow> n)"
    and "maxEntries = (case optEntries of None \<Rightarrow> DEFAULT_MAX_ENTRIES | Some n \<Rightarrow> n)"
  shows "(extractTgz gunzip tgz optBytes optEntries = Inr out \<longrightarrow>
       list_all (\<lambda>e. relativeBelow (te_path e)) out \<and>
       sum_list (map (\<lambda>e. length (te_content e)) out) \<le> maxBytes \<and> length out \<le> maxEntries) \<and>
     (1 \<le> maxBytes \<and> 1 \<le> maxEntries \<and> maxBytes + maxEntries * 1024 + MAX_METADATA_BYTES + 1024 \<le> MAX_SAFE_INTEGER \<and>
        gunzip tgz (maxBytes + maxEntries * 1024 + MAX_METADATA_BYTES + 1024) = Inr (packedTarball ms) \<and>
        list_all packable ms \<and> length ms \<le> maxEntries \<and>
        sum_list (map (\<lambda>m. length (packedBody m)) ms) \<le> maxBytes \<longrightarrow>
      extractTgz gunzip tgz optBytes optEntries = Inr (unpacked ms))"
proof (intro conjI impI)
  let ?start = "\<lambda>raw. \<lparr>vs_raw = raw, vs_out = [], vs_pending = None, vs_total = 0, vs_entries = 0, vs_metadata = 0\<rparr>"
  note run = extractTgz_def Let_def assms [symmetric] ebind_Inr_iff
  assume x: "extractTgz gunzip tgz optBytes optEntries = Inr out"
  then obtain raw where raw: "vendorLoop maxBytes maxEntries (?start raw) = Inr out"
    by (auto simp: run split: if_split_asm)
  note ok = vendorLoop_ok [OF _ raw]
  have "vendorOk maxBytes maxEntries (?start raw)" by (simp add: vendorOk_def)
  from ok [OF this] show "list_all (\<lambda>e. relativeBelow (te_path e)) out"
    "sum_list (map (\<lambda>e. length (te_content e)) out) \<le> maxBytes" "length out \<le> maxEntries" by simp_all
next
  let ?start = "\<lambda>raw. \<lparr>vs_raw = raw, vs_out = [], vs_pending = None, vs_total = 0, vs_entries = 0, vs_metadata = 0\<rparr>"
  assume m: "1 \<le> maxBytes \<and> 1 \<le> maxEntries \<and> maxBytes + maxEntries * 1024 + MAX_METADATA_BYTES + 1024 \<le> MAX_SAFE_INTEGER \<and>
        gunzip tgz (maxBytes + maxEntries * 1024 + MAX_METADATA_BYTES + 1024) = Inr (packedTarball ms) \<and>
        list_all packable ms \<and> length ms \<le> maxEntries \<and> sum_list (map (\<lambda>m. length (packedBody m)) ms) \<le> maxBytes"
  then have "vendorLoop maxBytes maxEntries (?start (packedTarball ms)) = Inr ([] @ unpacked ms)"
    using vendorLoop_packed [of ms "?start (packedTarball ms)" maxEntries maxBytes] by simp
  moreover have "maxBytes \<le> MAX_SAFE_INTEGER" "maxEntries \<le> MAX_SAFE_INTEGER" using m by linarith+
  ultimately show "extractTgz gunzip tgz optBytes optEntries = Inr (unpacked ms)"
    using m by (simp add: extractTgz_def Let_def assms [symmetric])
qed

definition demo_members :: "packed_member list" where
  "demo_members =
     [\<lparr>pk_path = ascii ''lib'', pk_mode = 0x1ED, pk_mtime = 7, pk_content = None\<rparr>,
      \<lparr>pk_path = ascii ''lib/a.js'', pk_mode = 0x1A4, pk_mtime = 7, pk_content = Some [1, 2, 3]\<rparr>,
      \<lparr>pk_path = ascii ''b'', pk_mode = 0x1A4, pk_mtime = 8, pk_content = Some []\<rparr>]"

lemma demo_members_packable: "list_all packable demo_members"
  by (simp add: demo_members_def packable_def relativeBelow_def ascii_def scalar_def surrogate_def packedBody_def)

theorem tarball_entries_safe_witness:
  "let out = [\<lparr>te_path = ascii ''lib/a.js'', te_content = [1, 2, 3]\<rparr>, \<lparr>te_path = ascii ''b'', te_content = []\<rparr>] in
   extractTgz (\<lambda>tgz n. Inr (packedTarball demo_members)) [31, 139] None (Some 3) = Inr out \<and>
   list_all (\<lambda>e. relativeBelow (te_path e)) out"
proof -
  let ?g = "\<lambda>tgz n. Inr (packedTarball demo_members)"
    and ?out = "[\<lparr>te_path = ascii ''lib/a.js'', te_content = [1, 2, 3]\<rparr>, \<lparr>te_path = ascii ''b'', te_content = []\<rparr>]"
  note t = tarball_entries_safe [of DEFAULT_MAX_BYTES None 3 "Some 3" ?g "[31, 139]" _ demo_members, simplified]
  have "unpacked demo_members = ?out" by (simp add: unpacked_def demo_members_def)
  then have x: "extractTgz ?g [31, 139] None (Some 3) = Inr ?out"
    using t demo_members_packable
    by (simp add: DEFAULT_MAX_BYTES_def MAX_METADATA_BYTES_def MAX_SAFE_INTEGER_def demo_members_def packedBody_def)
  with t [of ?out] show ?thesis by (simp add: Let_def)
qed

end
