(* ===== verification/UpdateTxn.thy ===== *)
theory UpdateTxn
  imports CrashProg HostPath Json
begin

text \<open>
  The server's own update: \<open>modules/updates/update-transaction.ts\<close>, the transaction at the end of
  \<open>runJob\<close> in \<open>modules/updates/server-update.ts\<close> (the command line's \<open>update\<close> runs the same acts),
  \<open>restoreDatabase\<close> of \<open>modules/backups/db-backup.ts\<close>, the part of \<open>bootServer\<close> in \<open>index.ts\<close> that
  consumes the marker, and \<open>runRollback\<close> of \<open>cli/commands/update.ts\<close>.

  A file is an inode number and its content; a hard link shares both, and renaming one name of a
  file onto another name of it does nothing, as in POSIX.  Only the live binary and its kept copy
  ever share an inode and neither is written in place, so a write replaces the content of one name.
  A write is two acts, the file standing incomplete between them.  The database is its file together
  with the write-ahead log beside it: a commit goes to the log, and a log left beside another file
  is replayed onto it at the next open.  The state a database is in is a number; the migrator is the
  parameter \<open>ht_migrate\<close>, which yields the states it commits one after the other and whether it got
  through.  Which calls fail is given by the flags of the process.  Auditing, logging, directory
  creation, flushing and the in-memory tracker leave no trace in the store.
\<close>

section \<open>Markers\<close>

record pending_update =
  pu_from :: string
  pu_to :: string
  pu_binary :: string
  pu_previousBinary :: string
  pu_backup :: "string option"
  pu_archiveBackup :: "string option"
  pu_startedAt :: string
  pu_origin :: string
  pu_forced :: bool

record failed_update = pending_update +
  fu_error :: string
  fu_failedAt :: string

text \<open>What \<open>JSON.stringify\<close> writes of a marker, an absent field left out, and the fields read back.\<close>

definition pendingFields :: "'a pending_update_scheme \<Rightarrow> (string, json) jmap" where
  "pendingFields p =
     [(''from'', JStr (pu_from p)), (''to'', JStr (pu_to p)), (''binary'', JStr (pu_binary p)),
      (''previousBinary'', JStr (pu_previousBinary p)),
      (''backup'', case pu_backup p of None \<Rightarrow> JNull | Some b \<Rightarrow> JStr b)] @
     (case pu_archiveBackup p of None \<Rightarrow> [] | Some a \<Rightarrow> [(''archiveBackup'', JStr a)]) @
     [(''startedAt'', JStr (pu_startedAt p)), (''origin'', JStr (pu_origin p)), (''forced'', JBool (pu_forced p))]"

definition failedFields :: "failed_update \<Rightarrow> (string, json) jmap" where
  "failedFields f = pendingFields f @ [(''error'', JStr (fu_error f)), (''failedAt'', JStr (fu_failedAt f))]"

definition textAt :: "(string, json) jmap \<Rightarrow> string \<Rightarrow> string" where
  "textAt m k = (case jget m k of Some (JStr s) \<Rightarrow> s | _ \<Rightarrow> [])"

definition pendingOf :: "(string, json) jmap \<Rightarrow> pending_update" where
  "pendingOf m =
     \<lparr>pu_from = textAt m ''from'', pu_to = textAt m ''to'', pu_binary = textAt m ''binary'',
      pu_previousBinary = textAt m ''previousBinary'',
      pu_backup = (if jget m ''backup'' = Some JNull then None else Some (textAt m ''backup'')),
      pu_archiveBackup = (case jget m ''archiveBackup'' of Some (JStr a) \<Rightarrow> Some a | _ \<Rightarrow> None),
      pu_startedAt = textAt m ''startedAt'', pu_origin = textAt m ''origin'',
      pu_forced = (jget m ''forced'' = Some (JBool True))\<rparr>"

definition failedOf :: "(string, json) jmap \<Rightarrow> failed_update" where
  "failedOf m = pending_update.extend (pendingOf m) (failed_update.fields (textAt m ''error'') (textAt m ''failedAt''))"

definition failureOf :: "pending_update \<Rightarrow> string \<Rightarrow> string \<Rightarrow> failed_update" where
  "failureOf p message now = pending_update.extend p (failed_update.fields message now)"

section \<open>The store\<close>

datatype content =
    Exec string                 \<comment> \<open>a whole program that reports this version\<close>
  | Data nat                    \<comment> \<open>a database file or a snapshot of one\<close>
  | Tail nat                    \<comment> \<open>a write-ahead log that takes its database to this state\<close>
  | Doc "json option"           \<comment> \<open>a text, as \<open>JSON.parse\<close> reads it\<close>
  | Cut                         \<comment> \<open>a file whose writing has not finished\<close>

type_synonym ustore = "(string, nat \<times> content) jmap"

definition look :: "ustore \<Rightarrow> string \<Rightarrow> content option" where
  "look d q = map_option snd (jget d q)"

definition freshInode :: "ustore \<Rightarrow> nat" where
  "freshInode d = Suc (foldr (\<lambda>f n. max (fst (snd f)) n) d 0)"

datatype uact =
    Remove string
  | Move string string
  | HardLink string string
  | Write string content

fun uexec :: "uact \<Rightarrow> ustore \<Rightarrow> ustore" where
  "uexec (Remove q) d = jdel q d"
| "uexec (Move a b) d =
     (case jget d a of
        None \<Rightarrow> d
      | Some f \<Rightarrow> if map_option fst (jget d b) = Some (fst f) then d else jset b f (jdel a d))"
| "uexec (HardLink a b) d =
     (case jget d a of None \<Rightarrow> d | Some f \<Rightarrow> if jget d b = None then jset b f d else d)"
| "uexec (Write q c) d =
     jset q (case jget d q of Some f \<Rightarrow> fst f | None \<Rightarrow> freshInode d, c) d"

type_synonym uprog = "(uact, ustore) prog"

record update_host =
  ht_binary :: string                 \<comment> \<open>the path the service definition names\<close>
  ht_dir :: string                    \<comment> \<open>\<open>updateDir()\<close>\<close>
  ht_db :: string
  ht_cwd :: string
  ht_migrate :: "string \<Rightarrow> nat option \<Rightarrow> nat list \<times> bool"

record update_proc =
  up_pid :: string
  up_now :: string
  up_error :: string                  \<comment> \<open>the message of a migration that fails\<close>
  up_linkFails :: bool
  up_copyFails :: bool
  up_moveFails :: bool                \<comment> \<open>the rename onto the live path\<close>
  up_markFails :: bool                \<comment> \<open>writing a marker\<close>
  up_foldFails :: bool                \<comment> \<open>the checkpoint of the write-ahead log\<close>
  up_probeFails :: bool
  up_listens :: bool

definition pendingPath :: "update_host \<Rightarrow> string" where
  "pendingPath h = joinPath (ht_dir h) ''pending.json''"

definition failedPath :: "update_host \<Rightarrow> string" where
  "failedPath h = joinPath (ht_dir h) ''failed.json''"

definition failedPreviousPath :: "update_host \<Rightarrow> string" where
  "failedPreviousPath h = joinPath (ht_dir h) ''failed.previous.json''"

definition markerTemp :: "update_proc \<Rightarrow> string \<Rightarrow> string" where
  "markerTemp x path = path @ ''.tmp-'' @ up_pid x"

definition previousOf :: "string \<Rightarrow> string" where
  "previousOf binary = binary @ ''.previous''"

definition stageOf :: "update_host \<Rightarrow> update_proc \<Rightarrow> string" where
  "stageOf h x = ht_db h @ ''.restore-'' @ up_pid x"

definition walOf :: "update_host \<Rightarrow> string" where
  "walOf h = ht_db h @ ''-wal''"

definition shmOf :: "update_host \<Rightarrow> string" where
  "shmOf h = ht_db h @ ''-shm''"

section \<open>Reading and writing the markers\<close>

definition PENDING_KEYS :: "string list" where
  "PENDING_KEYS = [''from'', ''to'', ''binary'', ''previousBinary'', ''startedAt'', ''origin'']"

definition readMarker :: "string \<Rightarrow> string list \<Rightarrow> ustore \<Rightarrow> (string, json) jmap option" where
  "readMarker path keys d =
     (case look d path of
        Some (Doc (Some (JObj m))) \<Rightarrow> if list_all (\<lambda>k. jget m k \<noteq> None) keys then Some m else None
      | _ \<Rightarrow> None)"

definition readPending :: "update_host \<Rightarrow> ustore \<Rightarrow> pending_update option" where
  "readPending h d = map_option pendingOf (readMarker (pendingPath h) PENDING_KEYS d)"

definition readFailed :: "update_host \<Rightarrow> ustore \<Rightarrow> failed_update option" where
  "readFailed h d = map_option failedOf (readMarker (failedPath h) (PENDING_KEYS @ [''error'', ''failedAt'']) d)"

definition writeMarker :: "update_proc \<Rightarrow> string \<Rightarrow> (string, json) jmap \<Rightarrow> uprog \<Rightarrow> uprog \<Rightarrow> uprog" where
  "writeMarker x path m ok err =
     Do (Write (markerTemp x path) Cut)
       (if up_markFails x then err
        else Do (Write (markerTemp x path) (Doc (Some (JObj m)))) (Do (Move (markerTemp x path) path) ok))"

definition beginUpdate :: "update_host \<Rightarrow> update_proc \<Rightarrow> pending_update \<Rightarrow> uprog \<Rightarrow> uprog \<Rightarrow> uprog" where
  "beginUpdate h x p ok err =
     Look (\<lambda>d. if jget d (pendingPath h) \<noteq> None then err
               else if jget d (failedPath h) \<noteq> None
                    then Do (Move (failedPath h) (failedPreviousPath h))
                           (writeMarker x (pendingPath h) (pendingFields p) ok err)
                    else writeMarker x (pendingPath h) (pendingFields p) ok err)"

definition clearPending :: "update_host \<Rightarrow> uprog \<Rightarrow> uprog" where
  "clearPending h k = Do (Remove (pendingPath h)) k"

section \<open>Keeping the previous binary, and the swap\<close>

definition copyFile :: "update_proc \<Rightarrow> string \<Rightarrow> string \<Rightarrow> uprog \<Rightarrow> uprog \<Rightarrow> uprog" where
  "copyFile x a b ok err =
     Look (\<lambda>d. case jget d a of
        None \<Rightarrow> err
      | Some f \<Rightarrow> Do (Write b Cut) (if up_copyFails x then err else Do (Write b (snd f)) ok))"

definition keepPreviousBinary :: "update_proc \<Rightarrow> string \<Rightarrow> uprog \<Rightarrow> uprog \<Rightarrow> uprog" where
  "keepPreviousBinary x binary ok err =
     (let previous = previousOf binary; tmp = markerTemp x previous in
      Do (Remove previous)
        (Look (\<lambda>d. if jget d binary \<noteq> None \<and> \<not> up_linkFails x then Do (HardLink binary previous) ok
                   else copyFile x binary tmp (Do (Move tmp previous) ok) (Do (Remove tmp) err))))"

text \<open>The transaction of \<open>runJob\<close>: the new binary stands verified at \<open>tmp\<close> when it starts.\<close>

definition runJobSwap :: "update_host \<Rightarrow> update_proc \<Rightarrow> pending_update \<Rightarrow> string \<Rightarrow> uprog" where
  "runJobSwap h x p tmp =
     (let binary = pu_binary p; previousBinary = pu_previousBinary p in
      beginUpdate h x p
        (keepPreviousBinary x binary
           (if up_moveFails x
            then Do (Remove previousBinary) (clearPending h (Do (Remove tmp) Halt))
            else Do (Move tmp binary) Done)
           (clearPending h (Do (Remove tmp) Halt)))
        (Do (Remove tmp) Halt))"

section \<open>Restoring the database\<close>

definition removeEach :: "string list \<Rightarrow> uprog \<Rightarrow> uprog" where
  "removeEach qs k = foldr (\<lambda>q. Do (Remove q)) qs k"

definition stagedRestore :: "update_host \<Rightarrow> string \<Rightarrow> bool" where
  "stagedRestore h q \<longleftrightarrow>
     (let pre = ht_db h @ ''.restore-'' in take (length pre) q = pre \<and> CHR ''/'' \<notin> set (drop (length pre) q))"

definition sweepStagedRestores :: "update_host \<Rightarrow> uprog \<Rightarrow> uprog" where
  "sweepStagedRestores h k = Look (\<lambda>d. removeEach (filter (stagedRestore h) (jkeys d)) k)"

text \<open>The state an open of the database finds.\<close>

definition database :: "update_host \<Rightarrow> ustore \<Rightarrow> nat option" where
  "database h d =
     (case look d (ht_db h) of
        Some (Data s) \<Rightarrow> Some (case look d (walOf h) of Some (Tail t) \<Rightarrow> t | _ \<Rightarrow> s)
      | _ \<Rightarrow> None)"

definition checkpoint :: "update_host \<Rightarrow> update_proc \<Rightarrow> uprog \<Rightarrow> uprog \<Rightarrow> uprog" where
  "checkpoint h x ok err =
     Look (\<lambda>d. if jget d (ht_db h) \<noteq> None \<and> (jget d (walOf h) \<noteq> None \<or> jget d (shmOf h) \<noteq> None)
               then if up_foldFails x then err
                    else case database h d of
                           None \<Rightarrow> err
                         | Some s \<Rightarrow> Do (Write (ht_db h) (Data s)) (Do (Write (walOf h) Cut) ok)
               else ok)"

definition restoreDatabase :: "update_host \<Rightarrow> update_proc \<Rightarrow> string \<Rightarrow> uprog \<Rightarrow> uprog \<Rightarrow> uprog" where
  "restoreDatabase h x backup ok err =
     Look (\<lambda>d. if jget d backup = None then err
       else sweepStagedRestores h
         (copyFile x backup (stageOf h x)
            (checkpoint h x
               (Do (Remove (walOf h)) (Do (Remove (shmOf h)) (Do (Move (stageOf h x) (ht_db h)) ok)))
               (Do (Remove (stageOf h x)) err))
            (Do (Remove (stageOf h x)) err)))"

section \<open>Finishing, reverting and recording\<close>

definition completeUpdate :: "update_host \<Rightarrow> pending_update \<Rightarrow> uprog \<Rightarrow> uprog" where
  "completeUpdate h p k =
     Do (Remove (pu_previousBinary p))
       (Do (Remove (pendingPath h))
          (case pu_backup p of
             Some (b # bs) \<Rightarrow>
               if pu_archiveBackup p \<notin> {None, Some []} \<and>
                  dirname (ht_cwd h) (b # bs) = joinPath (ht_dir h) ''checkpoints''
               then Do (Remove (b # bs)) k else k
           | _ \<Rightarrow> k))"

definition rollbackBinaryRuns :: "update_proc \<Rightarrow> content \<Rightarrow> bool" where
  "rollbackBinaryRuns x c \<longleftrightarrow> (case c of Exec v \<Rightarrow> \<not> up_probeFails x | _ \<Rightarrow> False)"

definition recordFailure :: "update_host \<Rightarrow> update_proc \<Rightarrow> pending_update \<Rightarrow> string \<Rightarrow> uprog \<Rightarrow> uprog" where
  "recordFailure h x p reason k =
     (let rest = Do (Remove (pendingPath h)) k in
      writeMarker x (failedPath h) (failedFields (failureOf p reason (up_now x))) rest rest)"

definition putBackBinary :: "update_proc \<Rightarrow> pending_update \<Rightarrow> uprog \<Rightarrow> uprog" where
  "putBackBinary x p k =
     Look (\<lambda>d. case look d (pu_previousBinary p) of
        None \<Rightarrow> k
      | Some c \<Rightarrow>
          if \<not> rollbackBinaryRuns x c then k
          else if up_moveFails x then k
          else Do (Move (pu_previousBinary p) (pu_binary p)) k)"

definition revertUpdate :: "update_host \<Rightarrow> update_proc \<Rightarrow> pending_update \<Rightarrow> string \<Rightarrow> uprog \<Rightarrow> uprog" where
  "revertUpdate h x p message k =
     (let swap = putBackBinary x p (recordFailure h x p message k) in
      case pu_backup p of
        None \<Rightarrow> swap
      | Some b \<Rightarrow> restoreDatabase h x b swap swap)"

section \<open>Booting\<close>

definition commitState :: "update_host \<Rightarrow> nat \<Rightarrow> uprog \<Rightarrow> uprog" where
  "commitState h s k =
     Look (\<lambda>d. if jget d (ht_db h) = None then Do (Remove (walOf h)) (Do (Write (ht_db h) (Data s)) k)
               else Do (Write (walOf h) (Tail s)) k)"

definition runMigrations :: "update_host \<Rightarrow> string \<Rightarrow> uprog \<Rightarrow> uprog \<Rightarrow> uprog" where
  "runMigrations h version ok err =
     Look (\<lambda>d. case ht_migrate h version (database h d) of
        (states, good) \<Rightarrow> foldr (commitState h) states (if good then ok else err))"

definition bootServer :: "update_host \<Rightarrow> update_proc \<Rightarrow> string \<Rightarrow> uprog" where
  "bootServer h x version =
     Look (\<lambda>d.
       let pending = readPending h d;
           mine = (case pending of Some p \<Rightarrow> if pu_to p = version then Some p else None | None \<Rightarrow> None);
           boot = runMigrations h version
                    (if up_listens x
                     then case mine of Some p \<Rightarrow> completeUpdate h p Done | None \<Rightarrow> Done
                     else Halt)
                    (case mine of Some p \<Rightarrow> revertUpdate h x p (up_error x) Halt | None \<Rightarrow> Halt)
       in case pending of
            Some p \<Rightarrow>
              if pu_to p \<noteq> version
              then recordFailure h x p (''expected '' @ pu_to p @ '' to boot, '' @ version @ '' did'') boot
              else boot
          | None \<Rightarrow> boot)"

text \<open>The service manager starts whatever stands at the path of its definition.\<close>

definition serviceStart :: "update_host \<Rightarrow> update_proc \<Rightarrow> uprog" where
  "serviceStart h x =
     Look (\<lambda>d. case look d (ht_binary h) of Some (Exec version) \<Rightarrow> bootServer h x version | _ \<Rightarrow> Halt)"

text \<open>\<open>update --rollback\<close>, confirmed, with the service stopped.\<close>

definition runRollback :: "update_host \<Rightarrow> update_proc \<Rightarrow> uprog" where
  "runRollback h x =
     Look (\<lambda>d.
       let binary = ht_binary h; previousBinary = previousOf binary;
           marker = (case readPending h d of
                       Some p \<Rightarrow> Some p
                     | None \<Rightarrow> map_option pending_update.truncate (readFailed h d));
           swap = (if up_moveFails x then Halt else Do (Move previousBinary binary) (clearPending h Done))
       in case look d previousBinary of
            None \<Rightarrow> Halt
          | Some c \<Rightarrow>
              if \<not> rollbackBinaryRuns x c then Halt
              else case marker of
                     None \<Rightarrow> swap
                   | Some p \<Rightarrow>
                       (case (case pu_backup p of Some b \<Rightarrow> Some b | None \<Rightarrow> pu_archiveBackup p) of
                          None \<Rightarrow> swap
                        | Some b \<Rightarrow> restoreDatabase h x b swap Halt))"

end
