(* ===== verification/UpdateCrash.thy ===== *)
theory UpdateCrash
  imports UpdateTxn
begin

text \<open>
  What a crash leaves of an update.  First the store: which files share an inode, and what the acts
  change.  Then the restore of the database, the swap, and the boots that consume the marker, each
  with the invariant that holds after every act.
\<close>

section \<open>Names\<close>

definition fixedNames :: "update_host \<Rightarrow> pending_update \<Rightarrow> string \<Rightarrow> string list" where
  "fixedNames h p b =
     [pu_binary p, pu_previousBinary p, ht_db h, walOf h, shmOf h, pendingPath h, failedPath h, failedPreviousPath h, b]"

definition tempNames :: "update_host \<Rightarrow> update_proc \<Rightarrow> pending_update \<Rightarrow> string list" where
  "tempNames h x p =
     [markerTemp x (pu_previousBinary p), markerTemp x (pendingPath h), markerTemp x (failedPath h), stageOf h x]"

definition namesOk :: "update_host \<Rightarrow> pending_update \<Rightarrow> string \<Rightarrow> update_proc \<Rightarrow> bool" where
  "namesOk h p b x \<longleftrightarrow>
     distinct (fixedNames h p b @ tempNames h x p) \<and> list_all (\<lambda>q. \<not> stagedRestore h q) (fixedNames h p b)"

lemmas names_defs = namesOk_def fixedNames_def tempNames_def

section \<open>Files\<close>

text \<open>Only the live binary and its kept copy may be two names of one file.\<close>

definition sole :: "string \<Rightarrow> string \<Rightarrow> ustore \<Rightarrow> bool" where
  "sole B P d \<longleftrightarrow>
     (\<forall>q r i c e. jget d q = Some (i, c) \<longrightarrow> jget d r = Some (i, e) \<longrightarrow> q \<noteq> r \<longrightarrow> {q, r} = {B, P} \<and> c = e)"

lemma soleI:
  "(\<And>q r i c e. jget d q = Some (i, c) \<Longrightarrow> jget d r = Some (i, e) \<Longrightarrow> q \<noteq> r \<Longrightarrow> {q, r} = {B, P} \<and> c = e) \<Longrightarrow> sole B P d"
  unfolding sole_def by blast

lemma soleD:
  "sole B P d \<Longrightarrow> jget d q = Some (i, c) \<Longrightarrow> jget d r = Some (i, e) \<Longrightarrow> q \<noteq> r \<Longrightarrow> {q, r} = {B, P} \<and> c = e"
  unfolding sole_def by blast

lemma fresh_above: "jget d q = Some (i, c) \<Longrightarrow> i < freshInode d"
proof (induction d)
  case (Cons f d)
  obtain r j e where f: "f = (r, j, e)" by (cases f) auto
  show ?case
  proof (cases "r = q")
    case True
    then show ?thesis using Cons.prems f by (simp add: freshInode_def)
  next
    case False
    then have "i < freshInode d" using Cons f by simp
    then show ?thesis by (simp add: freshInode_def less_Suc_eq_le max.coboundedI2)
  qed
qed simp

lemma sole_Remove: "sole B P d \<Longrightarrow> sole B P (uexec (Remove q) d)"
  by (rule soleI) (auto split: if_split_asm dest: soleD)

lemma sole_HardLink: "sole B P d \<Longrightarrow> sole B P (uexec (HardLink B P) d)"
proof (cases "jget d B = None \<or> jget d P \<noteq> None")
  case True
  then show "sole B P d \<Longrightarrow> ?thesis" by (auto split: option.split)
next
  case False
  then have P: "jget d P = None" by (cases "jget d P") auto
  obtain f where "jget d B = Some f" using False by (cases "jget d B") auto
  then obtain j w where B: "jget d B = Some (j, w)" by (cases f) auto
  assume s: "sole B P d"
  have out: "jget (uexec (HardLink B P) d) t = (if t = P then Some (j, w) else jget d t)" for t
    using B P by simp
  have no: "t = B \<and> e = w" if "jget d t = Some (j, e)" for t e
    using soleD [OF s B that] B P that by (cases "t = B") (auto simp: doubleton_eq_iff)
  show ?thesis
  proof (rule soleI)
    fix q r i c e
    assume *: "jget (uexec (HardLink B P) d) q = Some (i, c)" "jget (uexec (HardLink B P) d) r = Some (i, e)" "q \<noteq> r"
    show "{q, r} = {B, P} \<and> c = e"
      using * no [of q c] no [of r e] soleD [OF s _ _ *(3)] unfolding out
      by (cases "q = P"; cases "r = P") (simp_all add: insert_commute)
  qed
qed

lemma sole_Write:
  assumes "sole B P d" "q \<noteq> B" "q \<noteq> P"
  shows "sole B P (uexec (Write q c) d)"
proof -
  define n where "n = (case jget d q of Some f \<Rightarrow> fst f | None \<Rightarrow> freshInode d)"
  have no: False if "jget d t = Some (n, w)" "t \<noteq> q" for t w
  proof (cases "jget d q")
    case None
    then show ?thesis using that fresh_above [of d t n w] by (simp add: n_def)
  next
    case (Some f)
    then have "jget d q = Some (n, snd f)" by (simp add: n_def)
    then show ?thesis using soleD [OF assms(1) that(1) _ that(2)] assms(2,3) by auto
  qed
  have out: "jget (uexec (Write q c) d) t = (if t = q then Some (n, c) else jget d t)" for t
    by (simp add: n_def)
  show ?thesis
  proof (rule soleI)
    fix r s i u v
    assume *: "jget (uexec (Write q c) d) r = Some (i, u)" "jget (uexec (Write q c) d) s = Some (i, v)" "r \<noteq> s"
    have "r \<noteq> q" "s \<noteq> q"
      using * no [of s v] no [of r u] unfolding out by (auto split: if_split_asm)
    then show "{r, s} = {B, P} \<and> u = v"
      using * soleD [OF assms(1)] unfolding out by simp
  qed
qed

lemma sole_Move:
  assumes "sole B P d" "a \<noteq> B" "a = P \<longrightarrow> b = B" "B \<noteq> P"
  shows "sole B P (uexec (Move a b) d)"
proof (cases "jget d a")
  case None
  then show ?thesis using assms(1) by simp
next
  case (Some f)
  obtain j c where f: "f = (j, c)" by fastforce
  show ?thesis
  proof (rule soleI)
    fix r s i u v
    assume *: "jget (uexec (Move a b) d) r = Some (i, u)" "jget (uexec (Move a b) d) s = Some (i, v)" "r \<noteq> s"
    have no: "\<not> (jget d t = Some (j, w) \<and> t \<noteq> a \<and> t \<noteq> b)" for t w
      using soleD [OF assms(1), of t j w a c] Some f assms(2-4) by (auto simp: doubleton_eq_iff)
    show "{r, s} = {B, P} \<and> u = v"
      using * no soleD [OF assms(1) _ _ *(3)] Some f by (auto split: if_split_asm)
  qed
qed

lemma look_simps [simp]:
  "look (jdel q d) r = (if r = q then None else look d r)"
  "look (jset q f d) r = (if r = q then Some (snd f) else look d r)"
  by (auto simp: look_def)

lemma look_None: "look d q = None \<longleftrightarrow> jget d q = None"
  by (simp add: look_def)

lemma move_lands:
  assumes "sole B P d" "jget d a = Some f" "a \<noteq> b" "{a, b} \<noteq> {B, P} \<or> look d a \<noteq> look d b"
  shows "uexec (Move a b) d = jset b f (jdel a d)"
proof -
  have "map_option fst (jget d b) \<noteq> Some (fst f)"
    using soleD [OF assms(1), of a "fst f" "snd f" b] assms(2-4) by (auto simp: look_def)
  then show ?thesis using assms(2) by simp
qed

section \<open>Restoring the database\<close>

text \<open>Everything but the database's own files stands as before.\<close>

definition framed :: "update_host \<Rightarrow> update_proc \<Rightarrow> string \<Rightarrow> string \<Rightarrow> ustore \<Rightarrow> ustore \<Rightarrow> bool" where
  "framed h x B P d e \<longleftrightarrow>
     sole B P e \<and>
     (\<forall>q. q \<notin> {ht_db h, walOf h, shmOf h, stageOf h x} \<longrightarrow> \<not> stagedRestore h q \<longrightarrow> jget e q = jget d q)"

lemma framed_same: "framed h x B P d e \<Longrightarrow> q \<notin> {ht_db h, walOf h, shmOf h, stageOf h x} \<Longrightarrow> \<not> stagedRestore h q \<Longrightarrow>
  jget e q = jget d q"
  unfolding framed_def by blast

lemma framed_sole: "framed h x B P d e \<Longrightarrow> sole B P e"
  unfolding framed_def by blast

lemma framed_Remove:
  "framed h x B P d e \<Longrightarrow> q \<in> {ht_db h, walOf h, shmOf h, stageOf h x} \<or> stagedRestore h q \<Longrightarrow>
   framed h x B P d (jdel q e)"
  using sole_Remove [of B P e q] unfolding framed_def by auto

lemma framed_Write:
  "framed h x B P d e \<Longrightarrow> q \<in> {ht_db h, walOf h, shmOf h, stageOf h x} \<Longrightarrow> q \<noteq> B \<Longrightarrow> q \<noteq> P \<Longrightarrow>
   framed h x B P d (uexec (Write q c) e)"
  using sole_Write [of B P e q c] unfolding framed_def by auto

lemma framed_Move:
  assumes "framed h x B P d e" "a \<in> {ht_db h, walOf h, shmOf h, stageOf h x}"
    "b \<in> {ht_db h, walOf h, shmOf h, stageOf h x}" "{B, P} \<inter> {ht_db h, walOf h, shmOf h, stageOf h x} = {}" "B \<noteq> P"
  shows "framed h x B P d (uexec (Move a b) e)"
proof -
  have "sole B P (uexec (Move a b) e)"
    using sole_Move [of B P e a b] framed_sole [OF assms(1)] assms(2-5) by auto
  moreover have "jget (uexec (Move a b) e) q = jget e q" if "q \<noteq> a" "q \<noteq> b" for q
    using that by (simp split: option.split)
  ultimately show ?thesis using assms(1-3) unfolding framed_def by fastforce
qed

lemma removeEach_sustains:
  assumes "R d" "\<And>e q. R e \<Longrightarrow> q \<in> set qs \<Longrightarrow> R (jdel q e)" "\<And>e. R e \<Longrightarrow> I e"
    "\<And>e. R e \<Longrightarrow> sustains uexec I Q X k e"
  shows "sustains uexec I Q X (removeEach qs k) d"
  using assms(1,2)
proof (induction qs arbitrary: d)
  case Nil
  then show ?case using assms(4) by (simp add: removeEach_def)
next
  case (Cons q qs)
  have "sustains uexec I Q X (removeEach qs k) (jdel q d)"
    using Cons by simp
  then show ?case using assms(3) Cons.prems(1) by (simp add: removeEach_def)
qed

lemma staged_names [simp]:
  "\<not> stagedRestore h (ht_db h)" "\<not> stagedRestore h (walOf h)" "\<not> stagedRestore h (shmOf h)"
  by (auto simp: stagedRestore_def walOf_def shmOf_def Let_def)

text \<open>The names the restore works on are not names of the live binary or its kept copy.\<close>

definition dbApart :: "update_host \<Rightarrow> update_proc \<Rightarrow> string \<Rightarrow> string \<Rightarrow> bool" where
  "dbApart h x B P \<longleftrightarrow>
     distinct [B, P, ht_db h, walOf h, shmOf h, stageOf h x] \<and> \<not> stagedRestore h B \<and> \<not> stagedRestore h P"

definition atState :: "update_host \<Rightarrow> update_proc \<Rightarrow> string \<Rightarrow> string \<Rightarrow> ustore \<Rightarrow> nat \<Rightarrow> ustore \<Rightarrow> bool" where
  "atState h x B P d s e \<longleftrightarrow> framed h x B P d e \<and> database h e = Some s"

lemma atState_Remove:
  assumes "atState h x B P d s e" "q = shmOf h \<or> q = stageOf h x \<or> stagedRestore h q \<or>
     q = walOf h \<and> (\<forall>t. look e q \<noteq> Some (Tail t))" "dbApart h x B P"
  shows "atState h x B P d s (jdel q e)"
proof -
  have "framed h x B P d (jdel q e)"
    using assms framed_Remove [of h x B P d e q] by (auto simp: atState_def)
  moreover have "database h (jdel q e) = database h e"
  proof (cases "q = walOf h")
    case True
    then show ?thesis
      using assms by (auto simp: database_def dbApart_def split: option.split content.split)
  next
    case False
    then have "q \<noteq> ht_db h" using assms by (auto simp: dbApart_def)
    then show ?thesis using False by (simp add: database_def split: option.split content.split)
  qed
  ultimately show ?thesis using assms(1) by (simp add: atState_def)
qed

lemma atState_Write:
  assumes "atState h x B P d s e" "dbApart h x B P"
    "q = stageOf h x \<or> q = ht_db h \<and> c = Data s \<or> q = walOf h \<and> c = Cut \<and> look e (ht_db h) = Some (Data s)"
  shows "atState h x B P d s (uexec (Write q c) e)"
proof -
  have "framed h x B P d (uexec (Write q c) e)"
    using assms framed_Write [of h x B P d e q c] by (auto simp: atState_def dbApart_def)
  moreover have "database h (uexec (Write q c) e) = Some s"
    using assms by (auto simp: atState_def database_def dbApart_def split: option.split_asm content.split_asm)
  ultimately show ?thesis by (simp add: atState_def)
qed

lemma checkpoint_sustains:
  assumes "atState h x B P d s e" "dbApart h x B P"
    and I: "\<And>e. atState h x B P d s e \<Longrightarrow> I e"
    and err: "\<And>e. up_foldFails x \<Longrightarrow> atState h x B P d s e \<Longrightarrow> sustains uexec I Q X err e"
    and ok: "\<And>e'. atState h x B P d s e' \<Longrightarrow> look e' (stageOf h x) = look e (stageOf h x) \<Longrightarrow>
               \<forall>t. look e' (walOf h) \<noteq> Some (Tail t) \<Longrightarrow> sustains uexec I Q X ok e'"
  shows "sustains uexec I Q X (checkpoint h x ok err) e"
proof -
  have db: "database h e = Some s" using assms(1) by (simp add: atState_def)
  then have there: "jget e (ht_db h) \<noteq> None" by (auto simp: database_def look_def split: option.split_asm)
  show ?thesis
  proof (cases "jget e (walOf h) \<noteq> None \<or> jget e (shmOf h) \<noteq> None")
    case False
    then have "jget e (walOf h) = None" "jget e (shmOf h) = None" by blast+
    then show ?thesis using ok [of e] assms(1) by (simp add: checkpoint_def look_def)
  next
    case True
    let ?f = "uexec (Write (ht_db h) (Data s)) e"
    let ?g = "uexec (Write (walOf h) Cut) ?f"
    have f: "atState h x B P d s ?f" using atState_Write [OF assms(1,2)] by blast
    moreover have "look ?f (ht_db h) = Some (Data s)" by simp
    ultimately have g: "atState h x B P d s ?g" using atState_Write [OF _ assms(2)] by blast
    have "look ?g (stageOf h x) = look e (stageOf h x)" "\<forall>t. look ?g (walOf h) \<noteq> Some (Tail t)"
      using assms(2) by (auto simp: dbApart_def)
    then have "sustains uexec I Q X ok ?g" using ok [OF g] by blast
    then show ?thesis
      using True there db I [OF assms(1)] I [OF f] err [OF _ assms(1)]
      by (simp add: checkpoint_def del: uexec.simps)
  qed
qed

lemma copyFile_sustains:
  assumes "jget e a = Some f" "I e" "I (uexec (Write b Cut) e)"
    "up_copyFails x \<Longrightarrow> sustains uexec I Q X err (uexec (Write b Cut) e)"
    "sustains uexec I Q X ok (uexec (Write b (snd f)) (uexec (Write b Cut) e))"
  shows "sustains uexec I Q X (copyFile x a b ok err) e"
  using assms by (simp add: copyFile_def del: uexec.simps)

text \<open>
  At every crash point of a restore the database is the old one or the snapshot; a restore that
  fails has not touched it, and nothing but the database's files changes.
\<close>

lemma restore_sustains:
  assumes apart: "dbApart h x B P" and d: "sole B P d" "database h d = Some s" "look d b = Some (Data S)"
    and b: "b \<notin> {ht_db h, walOf h, shmOf h, stageOf h x}" "\<not> stagedRestore h b"
    and I: "\<And>e. atState h x B P d s e \<or> atState h x B P d S e \<Longrightarrow> I e"
    and err: "\<And>e. up_copyFails x \<or> up_foldFails x \<Longrightarrow> atState h x B P d s e \<Longrightarrow> sustains uexec I Q X err e"
    and ok: "\<And>e. atState h x B P d S e \<Longrightarrow> sustains uexec I Q X ok e"
  shows "sustains uexec I Q X (restoreDatabase h x b ok err) d"
proof -
  let ?R = "atState h x B P d s" and ?stage = "stageOf h x"
  have fail: "sustains uexec I Q X (Do (Remove ?stage) err) e"
    if "?R e" "up_copyFails x \<or> up_foldFails x" for e
    using that err [OF that(2) atState_Remove [OF that(1) _ apart]] I by simp
  have swap: "sustains uexec I Q X (Do (Remove (walOf h)) (Do (Remove (shmOf h)) (Do (Move ?stage (ht_db h)) ok))) e"
    if R: "?R e" and st: "look e ?stage = Some (Data S)" and wal: "\<forall>t. look e (walOf h) \<noteq> Some (Tail t)" for e
  proof -
    let ?e1 = "jdel (walOf h) e" and ?e2 = "jdel (shmOf h) (jdel (walOf h) e)"
    have e1: "?R ?e1" using atState_Remove [OF R _ apart] wal by blast
    have e2: "?R ?e2" using atState_Remove [OF e1 _ apart] by blast
    have st2: "look ?e2 ?stage = Some (Data S)" "look ?e2 (walOf h) = None"
      using st apart by (auto simp: dbApart_def)
    then obtain i where i: "jget ?e2 ?stage = Some (i, Data S)" by (auto simp: look_def)
    have "framed h x B P d (uexec (Move ?stage (ht_db h)) ?e2)"
      using framed_Move [of h x B P d ?e2 ?stage "ht_db h"] e2 apart by (auto simp: atState_def dbApart_def)
    moreover have "uexec (Move ?stage (ht_db h)) ?e2 = jset (ht_db h) (i, Data S) (jdel ?stage ?e2)"
      using move_lands [OF _ i, of B P] e2 apart framed_sole by (auto simp: atState_def dbApart_def doubleton_eq_iff)
    moreover have "database h (jset (ht_db h) (i, Data S) (jdel ?stage ?e2)) = Some S"
      using st2 apart by (simp add: database_def dbApart_def)
    ultimately have "atState h x B P d S (uexec (Move ?stage (ht_db h)) ?e2)"
      by (simp add: atState_def)
    then show ?thesis using ok I R e1 e2 by simp
  qed
  have copied: "sustains uexec I Q X (copyFile x b ?stage
      (checkpoint h x (Do (Remove (walOf h)) (Do (Remove (shmOf h)) (Do (Move ?stage (ht_db h)) ok)))
         (Do (Remove ?stage) err)) (Do (Remove ?stage) err)) e" if R: "?R e" for e
  proof -
    have "jget e b = jget d b" using framed_same [of h x B P d e b] R b by (simp add: atState_def)
    then obtain i where i: "jget e b = Some (i, Data S)" using d(3) by (auto simp: look_def)
    let ?e1 = "uexec (Write ?stage Cut) e" and ?e2 = "uexec (Write ?stage (Data S)) (uexec (Write ?stage Cut) e)"
    have e1: "?R ?e1" using atState_Write [OF R apart] by blast
    have e2: "?R ?e2" using atState_Write [OF e1 apart] by blast
    have st: "look ?e2 ?stage = Some (Data S)" by simp
    have "sustains uexec I Q X (checkpoint h x (Do (Remove (walOf h)) (Do (Remove (shmOf h)) (Do (Move ?stage (ht_db h)) ok)))
         (Do (Remove ?stage) err)) ?e2"
      by (rule checkpoint_sustains [OF e2 apart]) (use I fail swap st in \<open>simp_all del: sustains.simps uexec.simps\<close>)
    then show ?thesis
      by (intro copyFile_sustains [OF i]) (use I R e1 fail in \<open>simp_all del: sustains.simps uexec.simps\<close>)
  qed
  have "?R d" using d by (simp add: atState_def framed_def)
  then have "sustains uexec I Q X (sweepStagedRestores h (copyFile x b ?stage
      (checkpoint h x (Do (Remove (walOf h)) (Do (Remove (shmOf h)) (Do (Move ?stage (ht_db h)) ok)))
         (Do (Remove ?stage) err)) (Do (Remove ?stage) err))) d"
    unfolding sweepStagedRestores_def sustains.simps
    by (rule removeEach_sustains [where R = ?R])
       (use I copied atState_Remove [OF _ _ apart] in \<open>auto simp del: sustains.simps\<close>)
  then show ?thesis using d(3) by (auto simp: restoreDatabase_def look_def)
qed

section \<open>Markers are read back as written\<close>

lemma pendingOf_fields: "pendingOf (pendingFields p) = pending_update.truncate p"
  by (cases "pu_backup p"; cases "pu_archiveBackup p")
     (simp_all add: pendingOf_def pendingFields_def textAt_def pending_update.truncate_def)

lemma fields_present:
  "list_all (\<lambda>k. jget (pendingFields p) k \<noteq> None) PENDING_KEYS"
  by (cases "pu_archiveBackup p") (simp_all add: PENDING_KEYS_def pendingFields_def)

lemma readPending_written:
  "look d (pendingPath h) = Some (Doc (Some (JObj (pendingFields p)))) \<Longrightarrow>
   readPending h d = Some (pending_update.truncate p)"
  using fields_present [of p] by (simp add: readPending_def readMarker_def pendingOf_fields)

lemma readPending_none: "look d (pendingPath h) = None \<Longrightarrow> readPending h d = None"
  by (simp add: readPending_def readMarker_def)

lemma failureOf_fields [simp]:
  "pu_from (failureOf p m t) = pu_from p" "pu_to (failureOf p m t) = pu_to p"
  "fu_error (failureOf p m t) = m" "fu_failedAt (failureOf p m t) = t"
  by (simp_all add: failureOf_def pending_update.extend_def failed_update.fields_def)

lemma readFailed_written:
  assumes "look d (failedPath h) = Some (Doc (Some (JObj (failedFields f))))"
  shows "\<exists>g. readFailed h d = Some g \<and> pu_from g = pu_from f \<and> pu_to g = pu_to f \<and> fu_error g = fu_error f"
proof -
  have "list_all (\<lambda>k. jget (failedFields f) k \<noteq> None) (PENDING_KEYS @ [''error'', ''failedAt''])"
    by (cases "pu_archiveBackup f") (simp_all add: PENDING_KEYS_def failedFields_def pendingFields_def)
  moreover have "pu_from (failedOf (failedFields f)) = pu_from f" "pu_to (failedOf (failedFields f)) = pu_to f"
    "fu_error (failedOf (failedFields f)) = fu_error f"
    by (cases "pu_archiveBackup f"; simp add: failedOf_def failedFields_def pendingFields_def pendingOf_def textAt_def
        pending_update.extend_def failed_update.fields_def)+
  ultimately show ?thesis using assms by (simp add: readFailed_def readMarker_def)
qed

section \<open>The state of the host\<close>

text \<open>A version is at home on a database state when its migrator has nothing to do there.\<close>

definition fine :: "update_host \<Rightarrow> string \<Rightarrow> nat \<Rightarrow> bool" where
  "fine h v s \<longleftrightarrow> ht_migrate h v (Some s) = ([], True)"

definition migratorOk :: "update_host \<Rightarrow> bool" where
  "migratorOk h \<longleftrightarrow>
     (\<forall>v s. snd (ht_migrate h v (Some s)) \<longrightarrow> fine h v (last (s # fst (ht_migrate h v (Some s)))))"

text \<open>What the new version's migrator can have made of the databases it met.\<close>

inductive onWay :: "update_host \<Rightarrow> string \<Rightarrow> nat \<Rightarrow> nat \<Rightarrow> nat \<Rightarrow> bool" for h v S D where
  start: "s = S \<or> s = D \<Longrightarrow> onWay h v S D s"
| step: "onWay h v S D s \<Longrightarrow> t \<in> set (fst (ht_migrate h v (Some s))) \<Longrightarrow> onWay h v S D t"

record update_case =
  uc_host :: update_host
  uc_marker :: pending_update
  uc_backup :: string
  uc_snapshot :: nat                  \<comment> \<open>the state in the backup\<close>
  uc_database :: nat                  \<comment> \<open>the state the updater leaves the database in\<close>
  uc_kept :: "content option"         \<comment> \<open>what an earlier update left at the kept copy's path\<close>

definition liveAt :: "update_case \<Rightarrow> ustore \<Rightarrow> content option" where
  "liveAt u d = look d (pu_binary (uc_marker u))"

definition keptAt :: "update_case \<Rightarrow> ustore \<Rightarrow> content option" where
  "keptAt u d = look d (pu_previousBinary (uc_marker u))"

definition markAt :: "update_case \<Rightarrow> ustore \<Rightarrow> content option" where
  "markAt u d = look d (pendingPath (uc_host u))"

definition oldBinary :: "update_case \<Rightarrow> content option" where
  "oldBinary u = Some (Exec (pu_from (uc_marker u)))"

definition newBinary :: "update_case \<Rightarrow> content option" where
  "newBinary u = Some (Exec (pu_to (uc_marker u)))"

lemmas view_defs = liveAt_def keptAt_def markAt_def oldBinary_def newBinary_def

text \<open>
  The live path holds the old binary on a database it runs on, or the new one on a database its
  migrator has met, in which case a marker has the kept copy beside it until the migrations are
  through; with \<open>g\<close>, a new binary without a marker has got through them.  The marker, when there is one, is the one written, and its backup stands.
\<close>

definition hostInv :: "bool \<Rightarrow> update_case \<Rightarrow> ustore \<Rightarrow> bool" where
  "hostInv g u d \<longleftrightarrow>
     sole (pu_binary (uc_marker u)) (pu_previousBinary (uc_marker u)) d \<and>
     (markAt u d \<noteq> None \<longrightarrow>
        markAt u d = Some (Doc (Some (JObj (pendingFields (uc_marker u))))) \<and>
        look d (uc_backup u) = Some (Data (uc_snapshot u))) \<and>
     keptAt u d \<in> {None, uc_kept u, oldBinary u} \<and>
     (\<exists>s. database (uc_host u) d = Some s \<and>
        (liveAt u d = oldBinary u \<and> fine (uc_host u) (pu_from (uc_marker u)) s \<or>
         liveAt u d = newBinary u \<and>
           onWay (uc_host u) (pu_to (uc_marker u)) (uc_snapshot u) (uc_database u) s \<and>
           (fine (uc_host u) (pu_to (uc_marker u)) s \<or>
            markAt u d = None \<and> \<not> g \<or> markAt u d \<noteq> None \<and> keptAt u d = oldBinary u)))"

definition caseOk :: "update_case \<Rightarrow> bool" where
  "caseOk u \<longleftrightarrow>
     (let h = uc_host u; p = uc_marker u in
      migratorOk h \<and> fine h (pu_from p) (uc_snapshot u) \<and> fine h (pu_from p) (uc_database u) \<and>
      pu_from p \<noteq> pu_to p \<and> pu_binary p = ht_binary h \<and> pu_previousBinary p = previousOf (ht_binary h) \<and>
      pu_backup p = Some (uc_backup u))"

definition procOk :: "update_case \<Rightarrow> update_proc \<Rightarrow> bool" where
  "procOk u x \<longleftrightarrow> namesOk (uc_host u) (uc_marker u) (uc_backup u) x \<and> \<not> up_copyFails x \<and> \<not> up_foldFails x"

definition smooth :: "update_proc \<Rightarrow> bool" where
  "smooth x \<longleftrightarrow> \<not> up_moveFails x \<and> \<not> up_markFails x \<and> \<not> up_probeFails x \<and> up_listens x"

text \<open>The failure of the update is on record.\<close>

definition onRecord :: "update_case \<Rightarrow> ustore \<Rightarrow> bool" where
  "onRecord u d \<longleftrightarrow>
     (\<exists>f. readFailed (uc_host u) d = Some f \<and> pu_from f = pu_from (uc_marker u) \<and> pu_to f = pu_to (uc_marker u))"

text \<open>An act on a path none of this depends on changes none of it.\<close>

definition corePaths :: "update_case \<Rightarrow> string set" where
  "corePaths u =
     {pu_binary (uc_marker u), pu_previousBinary (uc_marker u), ht_db (uc_host u), walOf (uc_host u),
      pendingPath (uc_host u), uc_backup u}"

lemma database_cong:
  "look e (ht_db h) = look d (ht_db h) \<Longrightarrow> look e (walOf h) = look d (walOf h) \<Longrightarrow> database h e = database h d"
  by (simp only: database_def)

lemma hostInv_cong:
  assumes "hostInv g u d" "\<And>q. q \<in> corePaths u \<Longrightarrow> look e q = look d q"
    "sole (pu_binary (uc_marker u)) (pu_previousBinary (uc_marker u)) e"
  shows "hostInv g u e"
proof -
  have "liveAt u e = liveAt u d" "keptAt u e = keptAt u d" "markAt u e = markAt u d"
    "look e (uc_backup u) = look d (uc_backup u)"
    using assms(2) by (simp_all add: corePaths_def view_defs)
  moreover have "database (uc_host u) e = database (uc_host u) d"
    using assms(2) by (intro database_cong) (simp_all add: corePaths_def)
  ultimately show ?thesis using assms(1,3) by (simp add: hostInv_def)
qed

lemma hostInv_Remove_other:
  "hostInv g u d \<Longrightarrow> q \<notin> corePaths u \<Longrightarrow> hostInv g u (uexec (Remove q) d)"
  by (rule hostInv_cong, assumption) (auto simp: hostInv_def intro: sole_Remove [simplified])

lemma hostInv_Write_other:
  "hostInv g u d \<Longrightarrow> q \<notin> corePaths u \<Longrightarrow> hostInv g u (uexec (Write q c) d)"
  by (rule hostInv_cong, assumption) (auto simp: hostInv_def corePaths_def intro!: sole_Write [simplified])

lemma hostInv_Move_other:
  assumes "hostInv g u d" "a \<notin> corePaths u" "b \<notin> corePaths u"
    "pu_binary (uc_marker u) \<noteq> pu_previousBinary (uc_marker u)"
  shows "hostInv g u (uexec (Move a b) d)"
proof (rule hostInv_cong [OF assms(1)])
  show "look (uexec (Move a b) d) q = look d q" if "q \<in> corePaths u" for q
    using that assms(2,3) by (auto split: option.split)
  show "sole (pu_binary (uc_marker u)) (pu_previousBinary (uc_marker u)) (uexec (Move a b) d)"
    using assms sole_Move by (auto simp: hostInv_def corePaths_def simp del: uexec.simps)
qed

end
