(* ===== verification/UpdateSafety.thy ===== *)
theory UpdateSafety
  imports UpdateCrash
begin

text \<open>
  The updater and the boots after it, each cut off anywhere: the host never ends up without a
  program to start and a database it can open, and two boots that are let through settle the update.
\<close>

section \<open>Acts that touch none of the paths that matter\<close>

definition alike :: "update_case \<Rightarrow> ustore \<Rightarrow> ustore \<Rightarrow> bool" where
  "alike u d e \<longleftrightarrow> (\<forall>q \<in> corePaths u. look e q = look d q)"

lemma alike_refl [simp]: "alike u d d"
  by (simp add: alike_def)

lemma alike_trans: "alike u d e \<Longrightarrow> alike u e f \<Longrightarrow> alike u d f"
  by (simp add: alike_def)

lemma alike_views:
  assumes "alike u d e"
  shows "liveAt u e = liveAt u d" "keptAt u e = keptAt u d" "markAt u e = markAt u d"
    "database (uc_host u) e = database (uc_host u) d" "look e (uc_backup u) = look d (uc_backup u)"
  using assms by (auto simp: alike_def corePaths_def view_defs intro!: database_cong)

lemma alike_acts:
  "q \<notin> corePaths u \<Longrightarrow> alike u d (uexec (Remove q) d)"
  "q \<notin> corePaths u \<Longrightarrow> alike u d (uexec (Write q c) d)"
  "a \<notin> corePaths u \<Longrightarrow> b \<notin> corePaths u \<Longrightarrow> alike u d (uexec (Move a b) d)"
  by (auto simp: alike_def split: option.split)

lemmas other_acts = hostInv_Remove_other hostInv_Write_other hostInv_Move_other

lemma proc_names:
  assumes "procOk u x"
  shows "markerTemp x (pu_previousBinary (uc_marker u)) \<notin> corePaths u"
    "markerTemp x (pendingPath (uc_host u)) \<notin> corePaths u"
    "markerTemp x (failedPath (uc_host u)) \<notin> corePaths u"
    "failedPath (uc_host u) \<notin> corePaths u" "failedPreviousPath (uc_host u) \<notin> corePaths u"
    "failedPath (uc_host u) \<noteq> pendingPath (uc_host u)"
    "markerTemp x (failedPath (uc_host u)) \<noteq> failedPath (uc_host u)"
    "pu_binary (uc_marker u) \<noteq> pu_previousBinary (uc_marker u)"
    "pendingPath (uc_host u) \<notin>
       {pu_binary (uc_marker u), pu_previousBinary (uc_marker u), ht_db (uc_host u), walOf (uc_host u), uc_backup u}"
    "pu_previousBinary (uc_marker u) \<notin>
       {pu_binary (uc_marker u), pendingPath (uc_host u), ht_db (uc_host u), walOf (uc_host u), uc_backup u}"
    "walOf (uc_host u) \<notin>
       {pu_binary (uc_marker u), pu_previousBinary (uc_marker u), ht_db (uc_host u), pendingPath (uc_host u), uc_backup u}"
    "failedPath (uc_host u) \<noteq> walOf (uc_host u)"
    "uc_backup u \<notin>
       {pu_binary (uc_marker u), pu_previousBinary (uc_marker u), ht_db (uc_host u), walOf (uc_host u),
        shmOf (uc_host u), stageOf (uc_host u) x}"
    "\<not> stagedRestore (uc_host u) (uc_backup u)"
    "dbApart (uc_host u) x (pu_binary (uc_marker u)) (pu_previousBinary (uc_marker u))"
  using assms by (auto simp: procOk_def names_defs corePaths_def dbApart_def)

lemma proc_names_restore:
  assumes "procOk u x" "q \<in> {pu_binary (uc_marker u), pu_previousBinary (uc_marker u), pendingPath (uc_host u),
    failedPath (uc_host u), uc_backup u}"
  shows "q \<notin> {ht_db (uc_host u), walOf (uc_host u), shmOf (uc_host u), stageOf (uc_host u) x} \<and>
    \<not> stagedRestore (uc_host u) q"
  using assms by (auto simp: procOk_def names_defs)

section \<open>Recording a failure\<close>

lemma old_new: "caseOk u \<Longrightarrow> oldBinary u \<noteq> newBinary u"
  by (simp add: caseOk_def Let_def view_defs)

lemma hostInv_clear:
  assumes "hostInv g u d" "procOk u x"
    "liveAt u d = oldBinary u \<or> (\<exists>s. database (uc_host u) d = Some s \<and> fine (uc_host u) (pu_to (uc_marker u)) s) \<or> \<not> g"
    and u: "caseOk u"
  shows "hostInv g u (jdel (pendingPath (uc_host u)) d)"
    "liveAt u (jdel (pendingPath (uc_host u)) d) = liveAt u d"
    "markAt u (jdel (pendingPath (uc_host u)) d) = None"
    "database (uc_host u) (jdel (pendingPath (uc_host u)) d) = database (uc_host u) d"
proof -
  let ?e = "jdel (pendingPath (uc_host u)) d"
  have v: "liveAt u ?e = liveAt u d" "keptAt u ?e = keptAt u d" "markAt u ?e = None"
    "look ?e (uc_backup u) = look d (uc_backup u)"
    using proc_names(9) [OF assms(2)] by (auto simp: view_defs)
  moreover have db: "database (uc_host u) ?e = database (uc_host u) d"
    using proc_names(9) [OF assms(2)] by (intro database_cong) auto
  moreover have "sole (pu_binary (uc_marker u)) (pu_previousBinary (uc_marker u)) ?e"
    using assms(1) sole_Remove [of "pu_binary (uc_marker u)" _ d "pendingPath (uc_host u)"] by (auto simp: hostInv_def)
  moreover obtain s where s: "database (uc_host u) d = Some s"
    "liveAt u d = oldBinary u \<and> fine (uc_host u) (pu_from (uc_marker u)) s \<or>
     liveAt u d = newBinary u \<and>
       onWay (uc_host u) (pu_to (uc_marker u)) (uc_snapshot u) (uc_database u) s"
    "keptAt u d \<in> {None, uc_kept u, oldBinary u}"
    using assms(1) unfolding hostInv_def by blast
  moreover have "liveAt u d = newBinary u \<Longrightarrow> fine (uc_host u) (pu_to (uc_marker u)) s \<or> \<not> g"
    using assms(3) s(1) old_new [OF u] by auto
  ultimately show "hostInv g u ?e"
    unfolding hostInv_def by (intro conjI exI [of _ s]) auto
  show "liveAt u ?e = liveAt u d" "markAt u ?e = None" "database (uc_host u) ?e = database (uc_host u) d"
    using v db by auto
qed

lemma written_onRecord:
  assumes "look e (failedPath (uc_host u)) = Some (Doc (Some (JObj (failedFields (failureOf (uc_marker u) m t)))))"
  shows "onRecord u e"
  using readFailed_written [OF assms] by (auto simp: onRecord_def)

lemma onRecord_cong:
  "look e (failedPath (uc_host u)) = look d (failedPath (uc_host u)) \<Longrightarrow> onRecord u e = onRecord u d"
  by (simp only: onRecord_def readFailed_def readMarker_def)

text \<open>
  A boot that meets the marker may not lose it: with \<open>r\<close>, at every moment the marker is there, or the failure
  is on record, or the new binary is in place.
\<close>

definition accounted :: "update_case \<Rightarrow> ustore \<Rightarrow> bool" where
  "accounted u d \<longleftrightarrow> markAt u d \<noteq> None \<or> onRecord u d \<or> liveAt u d = newBinary u"

definition accountedInv :: "bool \<Rightarrow> bool \<Rightarrow> update_case \<Rightarrow> ustore \<Rightarrow> bool" where
  "accountedInv g r u d \<longleftrightarrow> hostInv g u d \<and> (r \<longrightarrow> accounted u d)"

lemma accountedI [intro]: "hostInv g u d \<Longrightarrow> (r \<Longrightarrow> accounted u d) \<Longrightarrow> accountedInv g r u d"
  by (simp add: accountedInv_def)

lemma accountedInv_plain [simp]: "accountedInv g False u = hostInv g u"
  by (simp add: fun_eq_iff accountedInv_def)

lemma accounted_cases [simp]:
  "markAt u d \<noteq> None \<Longrightarrow> accounted u d" "onRecord u d \<Longrightarrow> accounted u d" "liveAt u d = newBinary u \<Longrightarrow> accounted u d"
  by (simp_all add: accounted_def)

lemma record_sustains:
  assumes inv: "hostInv g u d" and u: "caseOk u" and x: "procOk u x"
    and clear: "liveAt u d = oldBinary u \<or>
      (\<exists>s. database (uc_host u) d = Some s \<and> fine (uc_host u) (pu_to (uc_marker u)) s) \<or> \<not> g"
    and r: "r \<Longrightarrow> markAt u d \<noteq> None \<and> \<not> up_markFails x"
    and k: "\<And>e. hostInv g u e \<Longrightarrow> liveAt u e = liveAt u d \<Longrightarrow> markAt u e = None \<Longrightarrow>
      database (uc_host u) e = database (uc_host u) d \<Longrightarrow> (\<not> up_markFails x \<longrightarrow> onRecord u e) \<Longrightarrow>
      sustains uexec (accountedInv g r u) Q X k e"
  shows "sustains uexec (accountedInv g r u) Q X (recordFailure (uc_host u) x (uc_marker u) reason k) d"
proof -
  let ?t = "markerTemp x (failedPath (uc_host u))" and ?f = "failedPath (uc_host u)" and ?p = "pendingPath (uc_host u)"
  let ?doc = "Doc (Some (JObj (failedFields (failureOf (uc_marker u) reason (up_now x)))))"
  note N = proc_names [OF x]
  have rest: "sustains uexec (accountedInv g r u) Q X (Do (Remove ?p) k) e"
    if "alike u d e" "hostInv g u e" "\<not> up_markFails x \<longrightarrow> onRecord u e" for e
  proof -
    note v = alike_views [OF that(1)]
    have c: "liveAt u e = oldBinary u \<or>
      (\<exists>s. database (uc_host u) e = Some s \<and> fine (uc_host u) (pu_to (uc_marker u)) s) \<or> \<not> g"
      using clear v by simp
    have "onRecord u (jdel ?p e) = onRecord u e" using N(6) by (intro onRecord_cong) simp
    moreover have "accountedInv g r u e" using that r by auto
    ultimately show ?thesis using k [of "jdel ?p e"] hostInv_clear [OF that(2) x c u] that v by simp
  qed
  let ?e1 = "uexec (Write ?t Cut) d"
  have e1: "alike u d ?e1" "hostInv g u ?e1" using alike_acts(2) other_acts(2) [OF inv] N(3) by blast+
  let ?e2 = "uexec (Write ?t ?doc) ?e1"
  have e2: "alike u d ?e2" "hostInv g u ?e2"
    using alike_trans [OF e1(1) alike_acts(2)] other_acts(2) [OF e1(2)] N(3) by blast+
  let ?e3 = "uexec (Move ?t ?f) ?e2"
  have e3: "alike u d ?e3" "hostInv g u ?e3"
    using alike_trans [OF e2(1) alike_acts(3)] other_acts(3) [OF e2(2)] N by blast+
  have "look ?e2 ?t = Some ?doc" by simp
  then obtain i where i: "jget ?e2 ?t = Some (i, ?doc)" by (auto simp: look_def)
  have "?e3 = jset ?f (i, ?doc) (jdel ?t ?e2)"
    using move_lands [OF _ i N(7), of "pu_binary (uc_marker u)" "pu_previousBinary (uc_marker u)"] e2(2) N(3)
    by (auto simp: hostInv_def corePaths_def doubleton_eq_iff simp del: uexec.simps)
  then have "onRecord u ?e3" by (intro written_onRecord) simp
  moreover have "accountedInv g r u d" "accountedInv g r u ?e1" "accountedInv g r u ?e2"
    using inv e1 e2 r alike_views(3) [OF e1(1)] alike_views(3) [OF e2(1)] by (auto simp del: uexec.simps)
  ultimately show ?thesis
    using rest [OF e1] rest [OF e3]
    by (simp add: recordFailure_def writeMarker_def Let_def del: uexec.simps)
qed

section \<open>Migrating\<close>

text \<open>A commit leaves everything but the state of the database alone.\<close>

lemma commit_views:
  assumes "hostInv g u d" "procOk u x"
  shows "liveAt u (uexec (Write (walOf (uc_host u)) (Tail t)) d) = liveAt u d"
    "keptAt u (uexec (Write (walOf (uc_host u)) (Tail t)) d) = keptAt u d"
    "markAt u (uexec (Write (walOf (uc_host u)) (Tail t)) d) = markAt u d"
    "onRecord u (uexec (Write (walOf (uc_host u)) (Tail t)) d) = onRecord u d"
    "look (uexec (Write (walOf (uc_host u)) (Tail t)) d) (uc_backup u) = look d (uc_backup u)"
    "database (uc_host u) (uexec (Write (walOf (uc_host u)) (Tail t)) d) = Some t"
    "sole (pu_binary (uc_marker u)) (pu_previousBinary (uc_marker u)) (uexec (Write (walOf (uc_host u)) (Tail t)) d)"
proof -
  let ?e = "uexec (Write (walOf (uc_host u)) (Tail t)) d"
  note N = proc_names [OF assms(2)]
  show "liveAt u ?e = liveAt u d" "keptAt u ?e = keptAt u d" "markAt u ?e = markAt u d"
    "look ?e (uc_backup u) = look d (uc_backup u)"
    using N(11) by (auto simp: view_defs)
  show "onRecord u ?e = onRecord u d" using N(12) by (intro onRecord_cong) simp
  obtain s where "database (uc_host u) d = Some s" using assms(1) by (auto simp: hostInv_def)
  then obtain r where "look d (ht_db (uc_host u)) = Some (Data r)"
    by (auto simp: database_def split: option.split_asm content.split_asm)
  then show "database (uc_host u) ?e = Some t"
    using N(11) by (auto simp: database_def)
  show "sole (pu_binary (uc_marker u)) (pu_previousBinary (uc_marker u)) ?e"
    using assms(1) N(11) by (intro sole_Write) (auto simp: hostInv_def)
qed

lemma commit_sustains:
  "jget d (ht_db h) \<noteq> None \<Longrightarrow>
   sustains uexec I Q X (commitState h t k) d \<longleftrightarrow> I d \<and> sustains uexec I Q X k (uexec (Write (walOf h) (Tail t)) d)"
  by (auto simp: commitState_def simp del: uexec.simps)

lemma migrate_sustains:
  assumes "hostInv g u d" "procOk u x" "liveAt u d = newBinary u" "database (uc_host u) d = Some s"
    "\<forall>t \<in> set ts. onWay (uc_host u) (pu_to (uc_marker u)) (uc_snapshot u) (uc_database u) t"
    "ts \<noteq> [] \<Longrightarrow> markAt u d = None \<and> \<not> g \<or> markAt u d \<noteq> None \<and> keptAt u d = oldBinary u"
    "\<And>e. hostInv g u e \<Longrightarrow> liveAt u e = newBinary u \<Longrightarrow> keptAt u e = keptAt u d \<Longrightarrow> markAt u e = markAt u d \<Longrightarrow>
       onRecord u e = onRecord u d \<Longrightarrow> database (uc_host u) e = Some (last (s # ts)) \<Longrightarrow>
       sustains uexec (accountedInv g r u) Q X k e"
  shows "sustains uexec (accountedInv g r u) Q X (foldr (commitState (uc_host u)) ts k) d"
  using assms(1,3-7)
proof (induction ts arbitrary: d s)
  case Nil
  then show ?case by simp
next
  case (Cons t ts)
  let ?e = "uexec (Write (walOf (uc_host u)) (Tail t)) d"
  note v = commit_views [OF Cons.prems(1) assms(2), of t]
  have way: "markAt u d = None \<and> \<not> g \<or> markAt u d \<noteq> None \<and> keptAt u d = oldBinary u"
    using Cons.prems(5) by simp
  have on: "onWay (uc_host u) (pu_to (uc_marker u)) (uc_snapshot u) (uc_database u) t"
    using Cons.prems(4) by simp
  have "hostInv g u ?e"
    unfolding hostInv_def v(1-6) using v(7) Cons.prems(1,2) on way by (auto simp: hostInv_def simp del: uexec.simps)
  moreover have "sustains uexec (accountedInv g r u) Q X k e"
    if "hostInv g u e" "liveAt u e = newBinary u" "keptAt u e = keptAt u ?e" "markAt u e = markAt u ?e"
      "onRecord u e = onRecord u ?e" "database (uc_host u) e = Some (last (t # ts))" for e
    using Cons.prems(6) [of e] that unfolding v by (simp split: if_split_asm)
  ultimately have "sustains uexec (accountedInv g r u) Q X (foldr (commitState (uc_host u)) ts k) ?e"
    using Cons.IH [of ?e t] Cons.prems(2,4) way v by simp
  moreover have "jget d (ht_db (uc_host u)) \<noteq> None"
    using Cons.prems(3) by (auto simp: database_def look_def split: option.split_asm)
  moreover have "accountedInv g r u d" using Cons.prems(1,2) by auto
  ultimately show ?case using commit_sustains by fastforce
qed

section \<open>Completing and reverting\<close>

lemma complete_sustains:
  assumes inv: "hostInv g u d" and u: "caseOk u" and x: "procOk u x" and new: "liveAt u d = newBinary u"
    and s: "database (uc_host u) d = Some s" "fine (uc_host u) (pu_to (uc_marker u)) s"
    and k: "\<And>e. hostInv g u e \<Longrightarrow> liveAt u e = newBinary u \<Longrightarrow> markAt u e = None \<Longrightarrow> sustains uexec (accountedInv g r u) Q X k e"
  shows "sustains uexec (accountedInv g r u) Q X (completeUpdate (uc_host u) (uc_marker u) k) d"
proof -
  note N = proc_names [OF x]
  let ?P = "pu_previousBinary (uc_marker u)" and ?b = "uc_backup u"
  let ?e = "jdel ?P d"
  have v: "liveAt u ?e = liveAt u d" "keptAt u ?e = None" "markAt u ?e = markAt u d"
    "look ?e ?b = look d ?b"
    using N(10) by (auto simp: view_defs)
  have db: "database (uc_host u) ?e = Some s"
    using N(10) s(1) by (subst database_cong [of _ _ d]) auto
  have so: "sole (pu_binary (uc_marker u)) ?P ?e"
    using inv sole_Remove [of "pu_binary (uc_marker u)" ?P d ?P] by (auto simp: hostInv_def)
  have on: "onWay (uc_host u) (pu_to (uc_marker u)) (uc_snapshot u) (uc_database u) s"
    using inv new old_new [OF u] s(1) by (auto simp: hostInv_def)
  have e: "hostInv g u ?e"
    unfolding hostInv_def v db using so inv new s(2) on by (auto simp: hostInv_def)
  let ?f = "jdel (pendingPath (uc_host u)) ?e"
  have f: "hostInv g u ?f" "liveAt u ?f = newBinary u" "markAt u ?f = None" "database (uc_host u) ?f = Some s"
    using hostInv_clear [OF e x _ u] db s(2) v new by auto
  let ?h = "jdel ?b ?f"
  have "liveAt u ?h = liveAt u ?f" "keptAt u ?h = keptAt u ?f" "markAt u ?h = None"
    using N(9,10,13) f(3) by (auto simp: view_defs)
  moreover have "database (uc_host u) ?h = Some s"
    using N(13) f(4) by (subst database_cong [of _ _ ?f]) auto
  moreover have "sole (pu_binary (uc_marker u)) ?P ?h"
    using f(1) sole_Remove [of "pu_binary (uc_marker u)" ?P ?f ?b] by (auto simp: hostInv_def)
  ultimately have h: "hostInv g u ?h" "liveAt u ?h = newBinary u" "markAt u ?h = None"
    using f on s(2) by (auto simp: hostInv_def)
  have "pu_backup (uc_marker u) = Some ?b" using u by (simp add: caseOk_def Let_def)
  moreover have "accountedInv g r u d" "accountedInv g r u ?e" "accountedInv g r u ?f" "accountedInv g r u ?h"
    using inv e f h v(1) new by auto
  ultimately show ?thesis
    using k [OF f(1-3)] k [OF h] by (auto simp: completeUpdate_def split: list.split)
qed

text \<open>The kept copy goes back only onto a database it is at home on.\<close>

lemma putBack_sustains:
  assumes inv: "hostInv g u d" and u: "caseOk u" and x: "procOk u x" and new: "liveAt u d = newBinary u"
    and s: "database (uc_host u) d = Some s" "fine (uc_host u) (pu_from (uc_marker u)) s"
    and kept: "keptAt u d = oldBinary u" and calm: "g \<Longrightarrow> smooth x" and mark: "markAt u d \<noteq> None"
    and k: "\<And>e. hostInv g u e \<Longrightarrow> g \<longrightarrow> liveAt u e = oldBinary u \<Longrightarrow> database (uc_host u) e = Some s \<Longrightarrow>
      markAt u e \<noteq> None \<Longrightarrow>
      sustains uexec (accountedInv g r u) Q X k e"
  shows "sustains uexec (accountedInv g r u) Q X (putBackBinary x (uc_marker u) k) d"
proof (cases "up_moveFails x \<or> up_probeFails x")
  case True
  then have "\<not> g" using calm by (auto simp: smooth_def)
  then show ?thesis
    using True k [OF inv _ s(1) mark] kept by (auto simp: putBackBinary_def rollbackBinaryRuns_def view_defs)
next
  case False
  note N = proc_names [OF x]
  let ?B = "pu_binary (uc_marker u)" and ?P = "pu_previousBinary (uc_marker u)"
  have kp: "look d ?P = oldBinary u" "look d ?B = newBinary u" using kept new by (simp_all add: view_defs)
  then obtain i where i: "jget d ?P = Some (i, Exec (pu_from (uc_marker u)))"
    by (auto simp: look_def oldBinary_def)
  have so: "sole ?B ?P d" using inv by (simp add: hostInv_def)
  let ?e = "uexec (Move ?P ?B) d"
  have e: "?e = jset ?B (i, Exec (pu_from (uc_marker u))) (jdel ?P d)"
    using move_lands [OF so i] N(8) kp old_new [OF u] by auto
  have v: "liveAt u ?e = oldBinary u" "keptAt u ?e = None" "markAt u ?e = markAt u d"
    "look ?e (uc_backup u) = look d (uc_backup u)"
    unfolding e using N(8,9,10,13) by (auto simp: view_defs)
  have "database (uc_host u) ?e = database (uc_host u) d"
    unfolding e using N(15) by (intro database_cong) (auto simp: dbApart_def)
  then have db: "database (uc_host u) ?e = Some s" using s(1) by simp
  have "sole ?B ?P ?e" using sole_Move [OF so] N(8) by auto
  then have "hostInv g u ?e"
    unfolding hostInv_def v db using inv s(2) by (auto simp: hostInv_def)
  then have "sustains uexec (accountedInv g r u) Q X k ?e" using k v db mark by simp
  moreover have "accountedInv g r u d" using inv new by auto
  ultimately show ?thesis
    using False kp by (simp add: putBackBinary_def rollbackBinaryRuns_def oldBinary_def del: uexec.simps)
qed

lemma restored_views:
  assumes "atState (uc_host u) x (pu_binary (uc_marker u)) (pu_previousBinary (uc_marker u)) d t e" "procOk u x"
  shows "liveAt u e = liveAt u d" "keptAt u e = keptAt u d" "markAt u e = markAt u d"
    "look e (uc_backup u) = look d (uc_backup u)" "database (uc_host u) e = Some t"
    "sole (pu_binary (uc_marker u)) (pu_previousBinary (uc_marker u)) e"
proof -
  have "look e q = look d q" if "q \<in> {pu_binary (uc_marker u), pu_previousBinary (uc_marker u),
      pendingPath (uc_host u), failedPath (uc_host u), uc_backup u}" for q
    using framed_same [of "uc_host u" x _ _ d e q] proc_names_restore [OF assms(2) that] assms(1)
    by (auto simp: atState_def look_def)
  then show "liveAt u e = liveAt u d" "keptAt u e = keptAt u d" "markAt u e = markAt u d"
    "look e (uc_backup u) = look d (uc_backup u)"
    by (auto simp: view_defs)
  show "database (uc_host u) e = Some t" "sole (pu_binary (uc_marker u)) (pu_previousBinary (uc_marker u)) e"
    using assms(1) framed_sole by (auto simp: atState_def)
qed

lemma revert_sustains:
  assumes inv: "hostInv g u d" and u: "caseOk u" and x: "procOk u x" and new: "liveAt u d = newBinary u"
    and mark: "markAt u d \<noteq> None" and kept: "keptAt u d = oldBinary u" and calm: "g \<Longrightarrow> smooth x"
    and r: "r \<Longrightarrow> g"
    and k: "\<And>e. hostInv g u e \<Longrightarrow> markAt u e = None \<Longrightarrow> (g \<longrightarrow> liveAt u e = oldBinary u \<and> onRecord u e) \<Longrightarrow>
      sustains uexec (accountedInv g r u) Q X k e"
  shows "sustains uexec (accountedInv g r u) Q X (revertUpdate (uc_host u) x (uc_marker u) message k) d"
proof -
  note N = proc_names [OF x]
  obtain s where s: "database (uc_host u) d = Some s"
    "onWay (uc_host u) (pu_to (uc_marker u)) (uc_snapshot u) (uc_database u) s"
    using inv new old_new [OF u] by (auto simp: hostInv_def)
  have b: "look d (uc_backup u) = Some (Data (uc_snapshot u))" "sole (pu_binary (uc_marker u)) (pu_previousBinary (uc_marker u)) d"
    using inv mark by (auto simp: hostInv_def)
  have start: "onWay (uc_host u) (pu_to (uc_marker u)) (uc_snapshot u) (uc_database u) (uc_snapshot u)"
    by (simp add: onWay.start)
  let ?A = "atState (uc_host u) x (pu_binary (uc_marker u)) (pu_previousBinary (uc_marker u)) d"
  have keeps: "hostInv g u e" if "?A t e" "t = s \<or> t = uc_snapshot u" for t e
    unfolding hostInv_def restored_views(1-5) [OF that(1) x] using restored_views(6) [OF that(1) x] that(2) new mark kept b s(2) start inv
    by (auto simp: hostInv_def)
  let ?noted = "recordFailure (uc_host u) x (uc_marker u) message k"
  have rec: "sustains uexec (accountedInv g r u) Q X ?noted e"
    if "hostInv g u e" "g \<longrightarrow> liveAt u e = oldBinary u" "markAt u e \<noteq> None" for e
    by (rule record_sustains [OF that(1) u x]) (use that(2,3) k calm r in \<open>auto simp: smooth_def\<close>)
  have swap: "sustains uexec (accountedInv g r u) Q X (putBackBinary x (uc_marker u) ?noted) e" if at: "?A (uc_snapshot u) e" for e
    by (rule putBack_sustains [OF keeps [OF at] u x _ _ _ _ calm])
       (use rec restored_views [OF at x] new kept mark u in \<open>auto simp: caseOk_def Let_def\<close>)
  have both: "accountedInv g r u e" if "?A t e" "t = s \<or> t = uc_snapshot u" for t e
    using keeps [OF that] restored_views(1) [OF that(1) x] new by auto
  have "sustains uexec (accountedInv g r u) Q X
    (restoreDatabase (uc_host u) x (uc_backup u) (putBackBinary x (uc_marker u) ?noted) (putBackBinary x (uc_marker u) ?noted)) d"
    by (rule restore_sustains [OF N(15) b(2) s(1) b(1) _ N(14)])
       (use N(13) both swap x in \<open>auto simp: procOk_def\<close>)
  then show ?thesis using u by (simp add: revertUpdate_def Let_def caseOk_def)
qed

section \<open>A boot\<close>

lemma truncate_same: "pending_update.truncate p = p"
  by (simp add: pending_update.truncate_def)

lemma marker_read:
  assumes "hostInv g u d"
  shows "readPending (uc_host u) d = (if markAt u d = None then None else Some (uc_marker u))"
proof (cases "markAt u d = None")
  case True
  then show ?thesis using readPending_none [of d "uc_host u"] by (simp add: markAt_def)
next
  case False
  then have "markAt u d = Some (Doc (Some (JObj (pendingFields (uc_marker u)))))"
    using assms unfolding hostInv_def by blast
  then show ?thesis using readPending_written [of d "uc_host u" "uc_marker u"] by (simp add: markAt_def truncate_same)
qed

text \<open>
  After a boot in which nothing gets in the way the marker is gone.
\<close>

definition settledAt :: "bool \<Rightarrow> update_case \<Rightarrow> ustore \<Rightarrow> bool" where
  "settledAt g u e \<longleftrightarrow> (g \<longrightarrow> markAt u e = None)"

lemma old_boot:
  assumes inv: "hostInv g u d" and u: "caseOk u" and x: "procOk u x" and old: "liveAt u d = oldBinary u"
    and calm: "g \<Longrightarrow> smooth x" and r: "r \<Longrightarrow> g \<and> accounted u d"
  shows "sustains uexec (accountedInv g r u) (settledAt g u) (settledAt g u)
           (bootServer (uc_host u) x (pu_from (uc_marker u))) d"
proof -
  let ?h = "uc_host u" and ?v = "pu_from (uc_marker u)"
  let ?S = "sustains uexec (accountedInv g r u) (settledAt g u) (settledAt g u)"
  let ?boot = "runMigrations ?h ?v (if up_listens x then Done else Halt) Halt"
  have boot: "?S ?boot e" if e: "hostInv g u e" "liveAt u e = oldBinary u" "settledAt g u e" "r \<Longrightarrow> accounted u e" for e
  proof -
    obtain s where "database ?h e = Some s" "fine ?h ?v s"
      using e(1,2) old_new [OF u] by (auto simp: hostInv_def)
    then have "ht_migrate ?h ?v (database ?h e) = ([], True)" by (simp add: fine_def)
    moreover have "accountedInv g r u e" using e by auto
    ultimately show ?thesis using e(3) by (simp add: runMigrations_def)
  qed
  show ?thesis
  proof (cases "markAt u d = None")
    case True
    then have "settledAt g u d" by (auto simp: settledAt_def)
    then show ?thesis
      using True boot [OF inv old] r marker_read [OF inv]
      by (cases "up_listens x") (simp_all add: bootServer_def Let_def)
  next
    case False
    have ne: "pu_to (uc_marker u) \<noteq> ?v" using u by (auto simp: caseOk_def Let_def)
    have "?S (recordFailure ?h x (uc_marker u) (''expected '' @ pu_to (uc_marker u) @ '' to boot, '' @ ?v @ '' did'') ?boot) d"
      by (rule record_sustains [OF inv u x]) (use old boot calm r False in \<open>auto simp: settledAt_def smooth_def\<close>)
    then show ?thesis
      using False ne marker_read [OF inv] by (cases "markAt u d"; cases "up_listens x") (simp_all add: bootServer_def Let_def)
  qed
qed

lemma new_boot:
  assumes inv: "hostInv g u d" and u: "caseOk u" and x: "procOk u x" and new: "liveAt u d = newBinary u"
    and calm: "g \<Longrightarrow> smooth x" and r: "r \<Longrightarrow> g"
  shows "sustains uexec (accountedInv g r u) (settledAt g u) (settledAt g u)
           (bootServer (uc_host u) x (pu_to (uc_marker u))) d"
proof -
  let ?h = "uc_host u" and ?v = "pu_to (uc_marker u)"
  let ?S = "sustains uexec (accountedInv g r u) (settledAt g u) (settledAt g u)"
  obtain s where s: "database ?h d = Some s" "onWay ?h ?v (uc_snapshot u) (uc_database u) s"
    "fine ?h ?v s \<or> markAt u d = None \<and> \<not> g \<or> markAt u d \<noteq> None \<and> keptAt u d = oldBinary u"
    using inv new old_new [OF u] by (auto simp: hostInv_def)
  obtain ts good where m: "ht_migrate ?h ?v (Some s) = (ts, good)" by fastforce
  have on: "\<forall>t \<in> set ts. onWay ?h ?v (uc_snapshot u) (uc_database u) t"
    using onWay.step [OF s(2)] m by auto
  have idle: "fine ?h ?v s \<Longrightarrow> ts = [] \<and> good" using m by (simp add: fine_def)
  have through: "good \<Longrightarrow> fine ?h ?v (last (s # ts))"
    using u m unfolding caseOk_def migratorOk_def Let_def by (metis fst_conv snd_conv)
  have no_old: "newBinary u \<noteq> oldBinary u" using old_new [OF u] by auto
  let ?tail = "if good then
      (if up_listens x then (if markAt u d = None then Done else completeUpdate ?h (uc_marker u) Done) else Halt)
      else if markAt u d = None then Halt else revertUpdate ?h x (uc_marker u) (up_error x) Halt"
  have both: "accountedInv g r u e" if "hostInv g u e" "liveAt u e = newBinary u" for e using that by auto
  have "?S ?tail e"
    if e: "hostInv g u e" "liveAt u e = newBinary u" "keptAt u e = keptAt u d" "markAt u e = markAt u d"
      "database ?h e = Some (last (s # ts))" for e
  proof (cases good)
    case True
    note f = through [OF True]
    show ?thesis
    proof (cases "up_listens x \<and> markAt u d \<noteq> None")
      case True
      then show ?thesis
        using complete_sustains [OF e(1) u x e(2) e(5) f, where k = Done and r = r and Q = "settledAt g u" and X = "settledAt g u"]
          both \<open>good\<close> by (auto simp: settledAt_def)
    next
      case False
      then show ?thesis
        using \<open>good\<close> e both no_old calm by (auto simp: settledAt_def smooth_def)
    qed
  next
    case False
    show ?thesis
    proof (cases "markAt u d = None")
      case True
      then have "\<not> g" using s(3) idle \<open>\<not> good\<close> by auto
      then show ?thesis using True \<open>\<not> good\<close> both [OF e(1,2)] by (simp add: settledAt_def)
    next
      case mark: False
      then have k: "keptAt u e = oldBinary u" "markAt u e \<noteq> None" using s(3) idle \<open>\<not> good\<close> e by auto
      have "?S (revertUpdate ?h x (uc_marker u) (up_error x) Halt) e"
        by (rule revert_sustains [OF e(1) u x e(2) k(2,1) calm r]) (use r in \<open>auto simp: settledAt_def\<close>)
      then show ?thesis using mark \<open>\<not> good\<close> by auto
    qed
  qed
  then have "?S (foldr (commitState ?h) ts ?tail) d"
    by (intro migrate_sustains [OF inv x new s(1) on]) (use s(3) idle in auto)
  then show ?thesis
    using marker_read [OF inv] s(1) m
    by (cases "markAt u d"; cases good; cases "up_listens x")
       (simp_all add: bootServer_def runMigrations_def Let_def)
qed

lemma start_sustains:
  assumes "hostInv g u d" "caseOk u" "procOk u x" "g \<Longrightarrow> smooth x" "r \<Longrightarrow> g \<and> accounted u d"
  shows "sustains uexec (accountedInv g r u) (settledAt g u) (settledAt g u) (serviceStart (uc_host u) x) d"
proof -
  have path: "look d (ht_binary (uc_host u)) = liveAt u d" using assms(2) by (simp add: caseOk_def Let_def view_defs)
  have "liveAt u d = oldBinary u \<or> liveAt u d = newBinary u" using assms(1) by (auto simp: hostInv_def)
  then show ?thesis
  proof
    assume "liveAt u d = oldBinary u"
    then show ?thesis
      using old_boot [OF assms(1-3) _ assms(4,5)] path by (simp add: serviceStart_def oldBinary_def)
  next
    assume "liveAt u d = newBinary u"
    then show ?thesis
      using new_boot [OF assms(1-3) _ assms(4), of r] assms(5) path by (simp add: serviceStart_def newBinary_def)
  qed
qed

section \<open>The updater\<close>

text \<open>Before the swap: the old binary is live and the verified download stands at \<open>tmp\<close>.\<close>

definition ready :: "update_case \<Rightarrow> string \<Rightarrow> ustore \<Rightarrow> bool" where
  "ready u tmp d \<longleftrightarrow>
     sole (pu_binary (uc_marker u)) (pu_previousBinary (uc_marker u)) d \<and>
     markAt u d \<in> {None, Some (Doc (Some (JObj (pendingFields (uc_marker u)))))} \<and>
     keptAt u d \<in> {None, uc_kept u, oldBinary u} \<and> liveAt u d = oldBinary u \<and>
     look d tmp = newBinary u \<and> look d (uc_backup u) = Some (Data (uc_snapshot u)) \<and>
     database (uc_host u) d = Some (uc_database u)"

definition downloadApart :: "update_case \<Rightarrow> update_proc \<Rightarrow> string \<Rightarrow> bool" where
  "downloadApart u x tmp \<longleftrightarrow>
     namesOk (uc_host u) (uc_marker u) (uc_backup u) x \<and>
     tmp \<notin> set (fixedNames (uc_host u) (uc_marker u) (uc_backup u) @ tempNames (uc_host u) x (uc_marker u))"

lemma ready_inv: "caseOk u \<Longrightarrow> ready u tmp d \<Longrightarrow> hostInv g u d"
  by (auto simp: ready_def hostInv_def caseOk_def Let_def)

lemma ready_cong:
  assumes "ready u tmp d" "\<And>q. q \<in> insert tmp (corePaths u) \<Longrightarrow> look e q = look d q"
    "sole (pu_binary (uc_marker u)) (pu_previousBinary (uc_marker u)) e"
  shows "ready u tmp e"
proof -
  have "alike u d e" using assms(2) by (simp add: alike_def)
  note v = alike_views [OF this]
  have "look e tmp = look d tmp" using assms(2) by simp
  then show ?thesis using assms(1,3) v by (simp add: ready_def)
qed

lemma ready_acts:
  assumes "ready u tmp d" "pu_binary (uc_marker u) \<noteq> pu_previousBinary (uc_marker u)"
  shows "q \<notin> insert tmp (corePaths u) \<Longrightarrow> ready u tmp (uexec (Remove q) d)"
    "q \<notin> insert tmp (corePaths u) \<Longrightarrow> ready u tmp (uexec (Write q c) d)"
    "a \<notin> insert tmp (corePaths u) \<Longrightarrow> b \<notin> insert tmp (corePaths u) \<Longrightarrow> ready u tmp (uexec (Move a b) d)"
proof -
  have so: "sole (pu_binary (uc_marker u)) (pu_previousBinary (uc_marker u)) d"
    using assms(1) by (simp add: ready_def)
  show "q \<notin> insert tmp (corePaths u) \<Longrightarrow> ready u tmp (uexec (Remove q) d)"
    using sole_Remove [OF so, of q] by (intro ready_cong [OF assms(1)]) auto
  show "q \<notin> insert tmp (corePaths u) \<Longrightarrow> ready u tmp (uexec (Write q c) d)"
    using sole_Write [OF so, of q c] by (intro ready_cong [OF assms(1)]) (auto simp: corePaths_def)
  show "a \<notin> insert tmp (corePaths u) \<Longrightarrow> b \<notin> insert tmp (corePaths u) \<Longrightarrow> ready u tmp (uexec (Move a b) d)"
    using sole_Move [OF so, of a b] assms(2)
    by (intro ready_cong [OF assms(1)]) (auto simp: corePaths_def split: option.split)
qed

lemma download_names:
  assumes "downloadApart u x tmp"
  shows "markerTemp x (pu_previousBinary (uc_marker u)) \<notin> insert tmp (corePaths u)"
    "markerTemp x (pendingPath (uc_host u)) \<notin> insert tmp (corePaths u)"
    "failedPath (uc_host u) \<notin> insert tmp (corePaths u)" "failedPreviousPath (uc_host u) \<notin> insert tmp (corePaths u)"
    "pu_binary (uc_marker u) \<noteq> pu_previousBinary (uc_marker u)" "tmp \<notin> corePaths u"
    "pendingPath (uc_host u) \<notin>
       {tmp, pu_binary (uc_marker u), pu_previousBinary (uc_marker u), ht_db (uc_host u), walOf (uc_host u), uc_backup u}"
    "pu_previousBinary (uc_marker u) \<notin>
       {tmp, pu_binary (uc_marker u), pendingPath (uc_host u), ht_db (uc_host u), walOf (uc_host u), uc_backup u}"
    "pu_binary (uc_marker u) \<notin> {tmp, pendingPath (uc_host u), ht_db (uc_host u), walOf (uc_host u), uc_backup u}"
  using assms by (auto simp: downloadApart_def names_defs corePaths_def)

lemma ready_drop:
  assumes "ready u tmp d" "downloadApart u x tmp" "q = pendingPath (uc_host u) \<or> q = pu_previousBinary (uc_marker u)"
  shows "ready u tmp (jdel q d)"
proof -
  note N = download_names [OF assms(2)]
  have "liveAt u (jdel q d) = liveAt u d" "look (jdel q d) tmp = look d tmp" "look (jdel q d) (uc_backup u) = look d (uc_backup u)"
    "keptAt u (jdel q d) \<in> {None, keptAt u d}" "markAt u (jdel q d) \<in> {None, markAt u d}"
    using assms(3) N(7,8) by (auto simp: view_defs)
  moreover have "database (uc_host u) (jdel q d) = database (uc_host u) d"
    using assms(3) N(7,8) by (intro database_cong) auto
  moreover have "sole (pu_binary (uc_marker u)) (pu_previousBinary (uc_marker u)) (jdel q d)"
    using sole_Remove [of _ _ d q] assms(1) by (simp add: ready_def)
  ultimately show ?thesis using assms(1) unfolding ready_def by auto
qed

text \<open>A finished temporary lands on the marker's or the kept copy's path.\<close>

lemma ready_land:
  assumes "ready u tmp d" "downloadApart u x tmp" "a \<notin> insert tmp (corePaths u)"
    "b = pendingPath (uc_host u) \<and> look d a = Some (Doc (Some (JObj (pendingFields (uc_marker u))))) \<or>
     b = pu_previousBinary (uc_marker u) \<and> look d a = oldBinary u"
  shows "ready u tmp (uexec (Move a b) d)" "look (uexec (Move a b) d) b = look d a"
    "b = pu_previousBinary (uc_marker u) \<Longrightarrow> markAt u (uexec (Move a b) d) = markAt u d"
proof -
  note N = download_names [OF assms(2)]
  obtain f where f: "jget d a = Some f" using assms(4) by (auto simp: look_def oldBinary_def)
  have ab: "a \<notin> {pu_binary (uc_marker u), pu_previousBinary (uc_marker u)}" "b \<noteq> pu_binary (uc_marker u)" "a \<noteq> b"
    using assms(3,4) N(7,8) by (auto simp: corePaths_def)
  have so: "sole (pu_binary (uc_marker u)) (pu_previousBinary (uc_marker u)) d"
    using assms(1) by (simp add: ready_def)
  have e: "uexec (Move a b) d = jset b f (jdel a d)"
    using move_lands [OF so f ab(3)] ab by (auto simp: doubleton_eq_iff)
  have l: "Some (snd f) = look d a" using f by (simp add: look_def)
  then show "look (uexec (Move a b) d) b = look d a" unfolding e by simp
  have so': "sole (pu_binary (uc_marker u)) (pu_previousBinary (uc_marker u)) (uexec (Move a b) d)"
    using sole_Move [OF so] ab N(5) by auto
  show mk: "b = pu_previousBinary (uc_marker u) \<Longrightarrow> markAt u (uexec (Move a b) d) = markAt u d"
    unfolding e using assms(3) N(8) by (auto simp: markAt_def corePaths_def)
  have same: "look (uexec (Move a b) d) q = look d q" if "q \<noteq> a" "q \<noteq> b" for q
    unfolding e using that by simp
  have "database (uc_host u) (uexec (Move a b) d) = database (uc_host u) d"
    using assms(3,4) N(7,8) by (intro database_cong same) (auto simp: corePaths_def)
  moreover have "liveAt u (uexec (Move a b) d) = liveAt u d" "look (uexec (Move a b) d) tmp = look d tmp"
    "look (uexec (Move a b) d) (uc_backup u) = look d (uc_backup u)"
    using assms(3,4) N(7,8,9) unfolding liveAt_def by (auto intro!: same simp: corePaths_def simp del: uexec.simps)
  moreover have "keptAt u (uexec (Move a b) d) \<in> {keptAt u d, oldBinary u}"
    "markAt u (uexec (Move a b) d) \<in> {markAt u d, Some (Doc (Some (JObj (pendingFields (uc_marker u)))))}"
    unfolding e using assms(3,4) N(7,8) l by (auto simp: keptAt_def markAt_def corePaths_def)
  ultimately show "ready u tmp (uexec (Move a b) d)"
    using assms(1) so' unfolding ready_def by auto
qed

lemma ready_link:
  assumes "ready u tmp d" "downloadApart u x tmp" "jget d (pu_previousBinary (uc_marker u)) = None"
  shows "ready u tmp (uexec (HardLink (pu_binary (uc_marker u)) (pu_previousBinary (uc_marker u))) d)"
    "keptAt u (uexec (HardLink (pu_binary (uc_marker u)) (pu_previousBinary (uc_marker u))) d) = oldBinary u"
    "markAt u (uexec (HardLink (pu_binary (uc_marker u)) (pu_previousBinary (uc_marker u))) d) = markAt u d"
proof -
  note N = download_names [OF assms(2)]
  let ?e = "uexec (HardLink (pu_binary (uc_marker u)) (pu_previousBinary (uc_marker u))) d"
  obtain f where f: "jget d (pu_binary (uc_marker u)) = Some f" "snd f = Exec (pu_from (uc_marker u))"
    using assms(1) by (auto simp: ready_def liveAt_def look_def oldBinary_def)
  have e: "?e = jset (pu_previousBinary (uc_marker u)) f d" using f assms(3) by simp
  have so: "sole (pu_binary (uc_marker u)) (pu_previousBinary (uc_marker u)) ?e"
    using sole_HardLink assms(1) unfolding ready_def by blast
  show k: "keptAt u ?e = oldBinary u" "markAt u ?e = markAt u d"
    unfolding e using f N(8) by (auto simp: view_defs)
  have "liveAt u ?e = liveAt u d" "look ?e tmp = look d tmp" "look ?e (uc_backup u) = look d (uc_backup u)"
    unfolding e using N(8) by (auto simp: view_defs)
  moreover have "database (uc_host u) ?e = database (uc_host u) d"
    unfolding e using N(8) by (intro database_cong) auto
  ultimately show "ready u tmp ?e" using assms(1) so k unfolding ready_def by simp
qed

definition markerDoc :: "update_case \<Rightarrow> content" where
  "markerDoc u = Doc (Some (JObj (pendingFields (uc_marker u))))"

lemma abort_sustains:
  assumes "ready u tmp d" "downloadApart u x tmp" "caseOk u"
  shows "sustains uexec (hostInv g u) (\<lambda>_. True) (\<lambda>_. True) (Do (Remove tmp) Halt) d"
    "sustains uexec (hostInv g u) (\<lambda>_. True) (\<lambda>_. True) (clearPending (uc_host u) (Do (Remove tmp) Halt)) d"
    "sustains uexec (hostInv g u) (\<lambda>_. True) (\<lambda>_. True)
       (Do (Remove (pu_previousBinary (uc_marker u))) (clearPending (uc_host u) (Do (Remove tmp) Halt))) d"
proof -
  have drop: "sustains uexec (hostInv g u) (\<lambda>_. True) (\<lambda>_. True) (Do (Remove tmp) Halt) e" if "ready u tmp e" for e
    using ready_inv [OF assms(3) that] hostInv_Remove_other [of g u e tmp] download_names(6) [OF assms(2)] by simp
  then show "sustains uexec (hostInv g u) (\<lambda>_. True) (\<lambda>_. True) (Do (Remove tmp) Halt) d" using assms(1) by blast
  have clear: "sustains uexec (hostInv g u) (\<lambda>_. True) (\<lambda>_. True) (clearPending (uc_host u) (Do (Remove tmp) Halt)) e"
    if "ready u tmp e" for e
    using ready_inv [OF assms(3) that] drop [OF ready_drop [OF that assms(2)]] by (simp add: clearPending_def)
  then show "sustains uexec (hostInv g u) (\<lambda>_. True) (\<lambda>_. True) (clearPending (uc_host u) (Do (Remove tmp) Halt)) d"
    using assms(1) by blast
  show "sustains uexec (hostInv g u) (\<lambda>_. True) (\<lambda>_. True)
       (Do (Remove (pu_previousBinary (uc_marker u))) (clearPending (uc_host u) (Do (Remove tmp) Halt))) d"
    using ready_inv [OF assms(3,1)] clear [OF ready_drop [OF assms(1,2)]] by simp
qed

text \<open>The one rename that is the swap.\<close>

lemma swap_sustains:
  assumes R: "ready u tmp d" and n: "downloadApart u x tmp" and u: "caseOk u"
    and d: "markAt u d = Some (markerDoc u)" "keptAt u d = oldBinary u"
  shows "sustains uexec (hostInv g u) (\<lambda>_. True) (\<lambda>_. True) (Do (Move tmp (pu_binary (uc_marker u))) Done) d"
proof -
  note N = download_names [OF n]
  let ?B = "pu_binary (uc_marker u)" and ?P = "pu_previousBinary (uc_marker u)"
  obtain f where f: "jget d tmp = Some f" "Some (snd f) = newBinary u"
    using R by (auto simp: ready_def look_def newBinary_def)
  have so: "sole ?B ?P d" using R by (simp add: ready_def)
  have t: "tmp \<noteq> ?B" "tmp \<noteq> ?P" using N(6) by (auto simp: corePaths_def)
  have e: "uexec (Move tmp ?B) d = jset ?B f (jdel tmp d)"
    using move_lands [OF so f(1) t(1)] t by (auto simp: doubleton_eq_iff)
  have so': "sole ?B ?P (uexec (Move tmp ?B) d)" using sole_Move [OF so] t N(5) by auto
  have same: "look (uexec (Move tmp ?B) d) q = look d q" if "q \<in> corePaths u" "q \<noteq> ?B" for q
    unfolding e using that N(6) by auto
  have "database (uc_host u) (uexec (Move tmp ?B) d) = database (uc_host u) d"
    using N(9) by (intro database_cong same) (auto simp: corePaths_def)
  then have db: "database (uc_host u) (uexec (Move tmp ?B) d) = Some (uc_database u)" using R by (simp add: ready_def)
  have v: "keptAt u (uexec (Move tmp ?B) d) = keptAt u d" "markAt u (uexec (Move tmp ?B) d) = markAt u d"
    "look (uexec (Move tmp ?B) d) (uc_backup u) = look d (uc_backup u)"
    unfolding keptAt_def markAt_def using N(5,9) by (auto intro!: same simp: corePaths_def simp del: uexec.simps)
  have l: "liveAt u (uexec (Move tmp ?B) d) = newBinary u"
    unfolding e using f(2) by (simp add: liveAt_def)
  have on: "onWay (uc_host u) (pu_to (uc_marker u)) (uc_snapshot u) (uc_database u) (uc_database u)"
    by (simp add: onWay.start)
  have "look d (uc_backup u) = Some (Data (uc_snapshot u))" using R by (simp add: ready_def)
  then have "hostInv g u (uexec (Move tmp ?B) d)"
    unfolding hostInv_def v db l using d so' on by (simp add: markerDoc_def)
  then show ?thesis using ready_inv [OF u R] by simp
qed

lemma keep_sustains:
  assumes R: "ready u tmp d" and n: "downloadApart u x tmp" and u: "caseOk u" and d: "markAt u d = Some (markerDoc u)"
    and ok: "\<And>e. ready u tmp e \<Longrightarrow> markAt u e = Some (markerDoc u) \<Longrightarrow> keptAt u e = oldBinary u \<Longrightarrow>
      sustains uexec (hostInv g u) Q X ok e"
    and err: "\<And>e. ready u tmp e \<Longrightarrow> sustains uexec (hostInv g u) Q X err e"
  shows "sustains uexec (hostInv g u) Q X (keepPreviousBinary x (pu_binary (uc_marker u)) ok err) d"
proof -
  note N = download_names [OF n]
  let ?B = "pu_binary (uc_marker u)" and ?P = "pu_previousBinary (uc_marker u)"
  let ?t = "markerTemp x ?P"
  have P: "previousOf ?B = ?P" using u by (simp add: caseOk_def Let_def)
  have t: "?t \<noteq> ?B" "?t \<noteq> pendingPath (uc_host u)" "?t \<noteq> ?P" using N(1) by (auto simp: corePaths_def)
  let ?e = "jdel ?P d"
  have e: "ready u tmp ?e" "jget ?e ?P = None" "markAt u ?e = Some (markerDoc u)"
    using ready_drop [OF R n] d N(8) by (auto simp: markAt_def)
  obtain f where f: "jget ?e ?B = Some f" "Some (snd f) = oldBinary u"
    using e(1) by (auto simp: ready_def liveAt_def look_def oldBinary_def)
  have copied: "sustains uexec (hostInv g u) Q X
     (copyFile x ?B ?t (Do (Move ?t ?P) ok) (Do (Remove ?t) err)) ?e"
  proof (rule copyFile_sustains [OF f(1)])
    show "hostInv g u ?e" using ready_inv [OF u e(1)] .
    let ?e1 = "uexec (Write ?t Cut) ?e"
    have e1: "ready u tmp ?e1" using ready_acts(2) [OF e(1) N(5) N(1)] .
    then show "hostInv g u ?e1" using ready_inv [OF u] by blast
    show "sustains uexec (hostInv g u) Q X (Do (Remove ?t) err) ?e1"
      using ready_inv [OF u e1] err [OF ready_acts(1) [OF e1 N(5) N(1)]] by simp
    let ?e2 = "uexec (Write ?t (snd f)) ?e1"
    have e2: "ready u tmp ?e2" using ready_acts(2) [OF e1 N(5) N(1)] .
    have l2: "look ?e2 ?t = oldBinary u" using f(2) by simp
    have m2: "markAt u ?e2 = Some (markerDoc u)" using e(3) t by (simp add: markAt_def)
    have "sustains uexec (hostInv g u) Q X ok (uexec (Move ?t ?P) ?e2)"
      by (rule ok) (use ready_land [OF e2 n N(1), of ?P] l2 m2 in \<open>simp_all add: keptAt_def del: uexec.simps\<close>)
    then show "sustains uexec (hostInv g u) Q X (Do (Move ?t ?P) ok) ?e2"
      using ready_inv [OF u e2] by simp
  qed
  have "sustains uexec (hostInv g u) Q X (Do (HardLink ?B ?P) ok) ?e"
    using ready_inv [OF u e(1)] ok [OF ready_link(1) [OF e(1) n e(2)] _ ready_link(2) [OF e(1) n e(2)]]
      ready_link(3) [OF e(1) n e(2)] e(3) by simp
  then show ?thesis
    using copied ready_inv [OF u R] f(1) by (simp add: keepPreviousBinary_def Let_def P del: uexec.simps(2-4))
qed

lemma runJob_sustains:
  assumes R: "ready u tmp d" and n: "downloadApart u x tmp" and u: "caseOk u"
  shows "sustains uexec (hostInv g u) (\<lambda>_. True) (\<lambda>_. True) (runJobSwap (uc_host u) x (uc_marker u) tmp) d"
proof -
  note N = download_names [OF n]
  let ?S = "sustains uexec (hostInv g u) (\<lambda>_. True) (\<lambda>_. True)"
  let ?h = "uc_host u" and ?p = "uc_marker u"
  let ?t = "markerTemp x (pendingPath ?h)"
  let ?kp = "keepPreviousBinary x (pu_binary ?p)
           (if up_moveFails x
            then Do (Remove (pu_previousBinary ?p)) (clearPending ?h (Do (Remove tmp) Halt))
            else Do (Move tmp (pu_binary ?p)) Done)
           (clearPending ?h (Do (Remove tmp) Halt))"
  let ?err = "Do (Remove tmp) Halt"
  have kp: "?S ?kp e" if "ready u tmp e" "markAt u e = Some (markerDoc u)" for e
    by (rule keep_sustains [OF that(1) n u that(2)])
       (use abort_sustains [OF _ n u] swap_sustains [OF _ n u] in \<open>auto simp del: sustains.simps\<close>)
  have wr: "?S (writeMarker x (pendingPath ?h) (pendingFields ?p) ?kp ?err) e" if e: "ready u tmp e" for e
  proof -
    let ?e1 = "uexec (Write ?t Cut) e" and ?e2 = "uexec (Write ?t (markerDoc u)) (uexec (Write ?t Cut) e)"
    have e1: "ready u tmp ?e1" using ready_acts(2) [OF e N(5,2)] .
    have e2: "ready u tmp ?e2" using ready_acts(2) [OF e1 N(5,2)] .
    have l: "look ?e2 ?t = Some (Doc (Some (JObj (pendingFields ?p))))" by (simp add: markerDoc_def)
    have "?S ?kp (uexec (Move ?t (pendingPath ?h)) ?e2)"
      by (rule kp) (use ready_land [OF e2 n N(2), of "pendingPath ?h"] l in
        \<open>simp_all add: markAt_def markerDoc_def del: uexec.simps\<close>)
    then show ?thesis
      using ready_inv [OF u e] ready_inv [OF u e1] ready_inv [OF u e2] abort_sustains(1) [OF e1 n u]
      by (simp add: writeMarker_def markerDoc_def del: uexec.simps)
  qed
  have "?S (writeMarker x (pendingPath ?h) (pendingFields ?p) ?kp ?err) (uexec (Move (failedPath ?h) (failedPreviousPath ?h)) d)"
    by (rule wr [OF ready_acts(3) [OF R N(5) N(3,4)]])
  then show ?thesis
    using wr [OF R] abort_sustains(1) [OF R n u] ready_inv [OF u R]
    by (simp add: runJobSwap_def beginUpdate_def Let_def del: uexec.simps)
qed


section \<open>Updates that are cut off anywhere\<close>

definition afterStarts :: "update_host \<Rightarrow> (update_proc \<times> nat) list \<Rightarrow> ustore \<Rightarrow> ustore" where
  "afterStarts h bs d = fold (\<lambda>(x, n). runTo uexec (serviceStart h x) n) bs d"

interpretation service: restartable uexec "serviceStart (uc_host u)"
  "\<lambda>x. caseOk u \<and> procOk u x \<and> (g \<longrightarrow> smooth x) \<and> (r \<longrightarrow> g)" "accountedInv g r u" "settledAt g u"
  for g r u
proof unfold_locales
  fix d x
  assume "accountedInv g r u d" "caseOk u \<and> procOk u x \<and> (g \<longrightarrow> smooth x) \<and> (r \<longrightarrow> g)"
  then show "sustains uexec (accountedInv g r u) (settledAt g u) (settledAt g u) (serviceStart (uc_host u) x) d"
    by (intro start_sustains) (simp_all add: accountedInv_def)
qed

lemma service_keeps:
  assumes "caseOk u" "downloadApart u x tmp" "ready u tmp d"
    "list_all (\<lambda>(y, n). procOk u y \<and> (g \<longrightarrow> smooth y)) bs"
  shows "hostInv g u (afterStarts (uc_host u) bs (runTo uexec (runJobSwap (uc_host u) x (uc_marker u) tmp) n d))"
  unfolding afterStarts_def
  by (rule service.starts_keep [where r = False, unfolded accountedInv_plain, OF sustains_runTo [OF runJob_sustains [OF assms(3,2,1)]]])
     (use assms(1,4) in \<open>auto simp: list_all_iff\<close>)

lemma quiet_boot:
  assumes "hostInv True u d" "caseOk u" "markAt u d = None" "smooth x"
  shows "returns uexec (serviceStart (uc_host u) x) d" "complete uexec (serviceStart (uc_host u) x) d = d"
    "\<exists>s. database (uc_host u) d = Some s \<and>
       (liveAt u d = newBinary u \<and> fine (uc_host u) (pu_to (uc_marker u)) s \<or>
        liveAt u d = oldBinary u \<and> fine (uc_host u) (pu_from (uc_marker u)) s)"
proof -
  obtain s where s: "database (uc_host u) d = Some s"
    "liveAt u d = newBinary u \<and> fine (uc_host u) (pu_to (uc_marker u)) s \<or>
     liveAt u d = oldBinary u \<and> fine (uc_host u) (pu_from (uc_marker u)) s"
    using assms(1,3) by (auto simp: hostInv_def)
  then show "\<exists>s. database (uc_host u) d = Some s \<and>
       (liveAt u d = newBinary u \<and> fine (uc_host u) (pu_to (uc_marker u)) s \<or>
        liveAt u d = oldBinary u \<and> fine (uc_host u) (pu_from (uc_marker u)) s)"
    by blast
  have "look d (ht_binary (uc_host u)) = liveAt u d" using assms(2) by (simp add: caseOk_def Let_def view_defs)
  then obtain v where v: "look d (ht_binary (uc_host u)) = Some (Exec v)" "ht_migrate (uc_host u) v (database (uc_host u) d) = ([], True)"
    using s by (auto simp: fine_def oldBinary_def newBinary_def)
  have "readPending (uc_host u) d = None" using marker_read [OF assms(1)] assms(3) by simp
  then show "returns uexec (serviceStart (uc_host u) x) d" "complete uexec (serviceStart (uc_host u) x) d = d"
    using v assms(4) by (simp_all add: serviceStart_def bootServer_def runMigrations_def smooth_def)
qed

section \<open>Rolling back by hand\<close>

lemma rollback_sustains:
  assumes inv: "hostInv True u d" and u: "caseOk u" and x: "procOk u x" and new: "liveAt u d = newBinary u"
    and mark: "markAt u d \<noteq> None" and kept: "keptAt u d = oldBinary u"
  shows "sustains uexec (hostInv True u)
    (\<lambda>e. liveAt u e = oldBinary u \<and> database (uc_host u) e = Some (uc_snapshot u) \<and> markAt u e = None)
    (\<lambda>e. liveAt u e = newBinary u \<and> keptAt u e = oldBinary u \<and> markAt u e = markAt u d)
    (runRollback (uc_host u) x) d"
proof -
  let ?Q = "\<lambda>e. liveAt u e = oldBinary u \<and> database (uc_host u) e = Some (uc_snapshot u) \<and> markAt u e = None"
  let ?X = "\<lambda>e. liveAt u e = newBinary u \<and> keptAt u e = oldBinary u \<and> markAt u e = markAt u d"
  let ?S = "sustains uexec (hostInv True u) ?Q ?X"
  let ?B = "pu_binary (uc_marker u)" and ?P = "pu_previousBinary (uc_marker u)"
  note N = proc_names [OF x]
  obtain s where s: "database (uc_host u) d = Some s"
    "onWay (uc_host u) (pu_to (uc_marker u)) (uc_snapshot u) (uc_database u) s"
    using inv new old_new [OF u] by (auto simp: hostInv_def)
  have b: "look d (uc_backup u) = Some (Data (uc_snapshot u))" "sole ?B ?P d"
    using inv mark by (auto simp: hostInv_def)
  have start: "onWay (uc_host u) (pu_to (uc_marker u)) (uc_snapshot u) (uc_database u) (uc_snapshot u)"
    by (simp add: onWay.start)
  let ?A = "atState (uc_host u) x ?B ?P d"
  have keeps: "hostInv True u e" if "?A t e" "t = s \<or> t = uc_snapshot u" for t e
    unfolding hostInv_def restored_views(1-5) [OF that(1) x]
    using restored_views(6) [OF that(1) x] that(2) new mark kept b s(2) start inv
    by (auto simp: hostInv_def)
  have U: "?B = ht_binary (uc_host u)" "?P = previousOf (ht_binary (uc_host u))"
    "pu_backup (uc_marker u) = Some (uc_backup u)" "fine (uc_host u) (pu_from (uc_marker u)) (uc_snapshot u)"
    using u by (auto simp: caseOk_def Let_def)
  have swap: "?S (if up_moveFails x then Halt else Do (Move ?P ?B) (clearPending (uc_host u) Done)) e"
    if at: "?A (uc_snapshot u) e" for e
  proof (cases "up_moveFails x")
    case True
    then show ?thesis using keeps [OF at] restored_views [OF at x] new kept by simp
  next
    case False
    define calm where "calm = x\<lparr>up_moveFails := False, up_probeFails := False, up_markFails := False, up_listens := True\<rparr>"
    have c: "procOk u calm" "smooth calm"
      using x by (auto simp: procOk_def names_defs calm_def smooth_def markerTemp_def stageOf_def)
    have clear: "?S (clearPending (uc_host u) Done) f"
      if f: "hostInv True u f" "liveAt u f = oldBinary u" "database (uc_host u) f = Some (uc_snapshot u)" for f
      using hostInv_clear [OF f(1) x _ u] f by (simp add: clearPending_def)
    have "?S (putBackBinary calm (uc_marker u) (clearPending (uc_host u) Done)) e"
      by (rule putBack_sustains [where r = False, unfolded accountedInv_plain, OF keeps [OF at] u c(1)])
         (use clear restored_views [OF at x] new kept mark U c(2) in \<open>auto simp del: sustains.simps\<close>)
    moreover have "look e ?P = Some (Exec (pu_from (uc_marker u)))"
      using restored_views [OF at x] kept by (simp add: keptAt_def oldBinary_def)
    ultimately show ?thesis
      using False by (simp add: putBackBinary_def rollbackBinaryRuns_def calm_def del: uexec.simps)
  qed
  have halt: "?S Halt e" if "?A s e" for e
    using keeps [OF that] restored_views [OF that x] new kept by simp
  have "?S (restoreDatabase (uc_host u) x (uc_backup u)
      (if up_moveFails x then Halt else Do (Move ?P ?B) (clearPending (uc_host u) Done)) Halt) d"
    by (rule restore_sustains [OF N(15) b(2) s(1) b(1) _ N(14)])
       (use N(13) keeps swap halt in \<open>auto simp del: sustains.simps\<close>)
  moreover have "readPending (uc_host u) d = Some (uc_marker u)" using marker_read [OF inv] mark by simp
  moreover have "look d (previousOf (ht_binary (uc_host u))) = Some (Exec (pu_from (uc_marker u)))"
    using kept U by (simp add: keptAt_def oldBinary_def)
  moreover have "?S Halt d" using inv new kept by simp
  ultimately show ?thesis
    using U by (cases "up_moveFails x") (simp_all add: runRollback_def rollbackBinaryRuns_def Let_def)
qed

section \<open>Properties\<close>

text \<open>
  C15: However the updater and the boots after it are cut off, and whatever a boot runs into apart from
  a failing restore of the database, the path the service manager starts holds a whole program, the
  old or the new one; the old one always finds a database it is at home on, restored if need be; and
  no incomplete copy ever stands at the path a rollback would start.
\<close>

theorem update_never_bricks:
  assumes "caseOk u" "downloadApart u x tmp" "ready u tmp d" "list_all (\<lambda>(y, n). procOk u y) bs"
  shows "(let e = afterStarts (uc_host u) bs (runTo uexec (runJobSwap (uc_host u) x (uc_marker u) tmp) n d) in
     liveAt u e \<in> {oldBinary u, newBinary u} \<and>
     (\<exists>s. database (uc_host u) e = Some s \<and>
       (liveAt u e = oldBinary u \<longrightarrow> fine (uc_host u) (pu_from (uc_marker u)) s)) \<and>
     keptAt u e \<in> {None, uc_kept u, oldBinary u})"
proof -
  let ?e = "afterStarts (uc_host u) bs (runTo uexec (runJobSwap (uc_host u) x (uc_marker u) tmp) n d)"
  have "hostInv False u ?e"
    by (rule service_keeps [OF assms(1-3)]) (use assms(4) in \<open>auto simp: list_all_iff\<close>)
  then obtain s where "database (uc_host u) ?e = Some s" "keptAt u ?e \<in> {None, uc_kept u, oldBinary u}"
    "liveAt u ?e = oldBinary u \<and> fine (uc_host u) (pu_from (uc_marker u)) s \<or> liveAt u ?e = newBinary u"
    unfolding hostInv_def by blast
  then show ?thesis using old_new [OF assms(1)] unfolding Let_def by auto
qed

text \<open>
  C16: However the updater and any number of boots are cut off, one boot that is let through settles the
  update and the next one serves and changes nothing: the marker is gone, and either the new binary
  runs on the database it has migrated, or the old binary runs on a database it is at home on.  An update whose
  marker stood when the updater ended is never forgotten on the way: wherever a boot is cut off the marker is
  still there, or the failure is on record, or the new binary is in place, and once settled with the old
  binary the failure is on record.
\<close>

theorem update_converges:
  assumes "caseOk u" "downloadApart u x tmp" "ready u tmp d"
    "list_all (\<lambda>(y, n). procOk u y \<and> smooth y) bs" "procOk u y" "smooth y" "smooth z"
  shows "(let c = runTo uexec (runJobSwap (uc_host u) x (uc_marker u) tmp) n d;
              e = afterStarts (uc_host u) bs c;
              f = complete uexec (serviceStart (uc_host u) y) e in
     returns uexec (serviceStart (uc_host u) z) f \<and> complete uexec (serviceStart (uc_host u) z) f = f \<and>
     markAt u f = None \<and>
     (markAt u c \<noteq> None \<longrightarrow> markAt u e \<noteq> None \<or> onRecord u e \<or> liveAt u e = newBinary u) \<and>
     (\<exists>s. database (uc_host u) f = Some s \<and>
       (liveAt u f = newBinary u \<and> fine (uc_host u) (pu_to (uc_marker u)) s \<or>
        liveAt u f = oldBinary u \<and> fine (uc_host u) (pu_from (uc_marker u)) s \<and>
        (markAt u c \<noteq> None \<longrightarrow> onRecord u f))))"
proof -
  let ?c = "runTo uexec (runJobSwap (uc_host u) x (uc_marker u) tmp) n d"
  let ?e = "afterStarts (uc_host u) bs ?c"
  let ?f = "complete uexec (serviceStart (uc_host u) y) ?e" and ?r = "markAt u ?c \<noteq> None"
  have c: "accountedInv True ?r u ?c"
    using sustains_runTo [OF runJob_sustains [OF assms(3,2,1), of True], of n] by auto
  have bs: "list_all (\<lambda>(y, n). caseOk u \<and> procOk u y \<and> (True \<longrightarrow> smooth y) \<and> (?r \<longrightarrow> True)) bs"
    using assms(1,4) by (auto simp: list_all_iff)
  have e: "accountedInv True ?r u ?e"
    using service.starts_keep [OF c bs] by (simp add: afterStarts_def)
  have f: "accountedInv True ?r u ?f" "settledAt True u ?f"
    using service.start_ends [OF c bs, of y] assms(1,5,6) by (simp_all add: afterStarts_def)
  have none: "markAt u ?f = None" using f(2) by (simp add: settledAt_def)
  have host: "hostInv True u ?f" using f(1) by (simp add: accountedInv_def)
  note q = quiet_boot [OF host assms(1) none assms(7)]
  have "?r \<longrightarrow> liveAt u ?f = oldBinary u \<longrightarrow> onRecord u ?f"
    using f(1) none old_new [OF assms(1)] by (auto simp: accountedInv_def accounted_def)
  moreover have "?r \<longrightarrow> markAt u ?e \<noteq> None \<or> onRecord u ?e \<or> liveAt u ?e = newBinary u"
    using e by (simp add: accountedInv_def accounted_def)
  ultimately show ?thesis using q none unfolding Let_def by blast
qed

text \<open>
  C32: Restoring the database is all or nothing at every crash point: an open finds the state it had or
  the state in the backup, the write-ahead log of the replaced file is never replayed onto the
  snapshot, and a restore that fails has changed nothing.
\<close>

theorem restore_database_atomic:
  assumes "dbApart h x B P" "sole B P d" "database h d = Some s" "look d b = Some (Data S)"
    "b \<notin> {ht_db h, walOf h, shmOf h, stageOf h x}" "\<not> stagedRestore h b"
  shows "database h (runTo uexec (restoreDatabase h x b Done Halt) n d) \<in> {Some s, Some S} \<and>
         database h (complete uexec (restoreDatabase h x b Done Halt) d) =
           Some (if returns uexec (restoreDatabase h x b Done Halt) d then S else s)"
proof -
  have "sustains uexec (\<lambda>e. database h e \<in> {Some s, Some S}) (\<lambda>e. database h e = Some S) (\<lambda>e. database h e = Some s)
      (restoreDatabase h x b Done Halt) d"
    by (rule restore_sustains [OF assms]) (auto simp: atState_def)
  then show ?thesis by (auto dest: sustains_ends sustains_runTo)
qed

text \<open>
  \<open>update --rollback\<close> over an unfinished update puts back the previous binary and the snapshot
  together, or, when it gives up, leaves the new binary, the kept copy and the marker in place; cut off
  anywhere it leaves a state the next boot deals with.
\<close>

theorem rollback_restores_pair:
  assumes "hostInv True u d" "caseOk u" "procOk u x" "liveAt u d = newBinary u" "markAt u d \<noteq> None"
    "keptAt u d = oldBinary u"
  shows "hostInv True u (runTo uexec (runRollback (uc_host u) x) n d) \<and>
         (let e = complete uexec (runRollback (uc_host u) x) d in
           if returns uexec (runRollback (uc_host u) x) d
           then liveAt u e = oldBinary u \<and> database (uc_host u) e = Some (uc_snapshot u) \<and> markAt u e = None
           else liveAt u e = newBinary u \<and> keptAt u e = oldBinary u \<and> markAt u e = markAt u d)"
  using sustains_runTo [OF rollback_sustains [OF assms]] sustains_ends [OF rollback_sustains [OF assms]]
  by (simp add: Let_def)

section \<open>A host that updates\<close>

text \<open>
  Version 2 commits state 2 and then fails: its update has to be undone.
\<close>

definition sample_migrate :: "string \<Rightarrow> nat option \<Rightarrow> nat list \<times> bool" where
  "sample_migrate v s = (if v = ''1'' then ([], s = Some 1) else if s = Some 1 then ([2], False) else ([], False))"

definition sample_host :: update_host where
  "sample_host = \<lparr>ht_binary = ''/b'', ht_dir = ''/u'', ht_db = ''/d'', ht_cwd = ''/'', ht_migrate = sample_migrate\<rparr>"

definition sample_marker :: pending_update where
  "sample_marker = \<lparr>pu_from = ''1'', pu_to = ''2'', pu_binary = ''/b'', pu_previousBinary = ''/b.previous'',
     pu_backup = Some ''/s'', pu_archiveBackup = None, pu_startedAt = ''t'', pu_origin = ''cli'', pu_forced = False\<rparr>"

definition sample_case :: update_case where
  "sample_case = \<lparr>uc_host = sample_host, uc_marker = sample_marker, uc_backup = ''/s'', uc_snapshot = 1,
     uc_database = 1, uc_kept = None\<rparr>"

definition sample_proc :: update_proc where
  "sample_proc = \<lparr>up_pid = ''7'', up_now = ''now'', up_error = ''no such table'', up_linkFails = False, up_copyFails = False, up_moveFails = False,
     up_markFails = False, up_foldFails = False, up_probeFails = False, up_listens = True\<rparr>"

definition sample_store :: ustore where
  "sample_store = [(''/b'', 1, Exec ''1''), (''/d'', 2, Data 0), (''/d-wal'', 3, Tail 1), (''/s'', 4, Data 1), (''/n'', 5, Exec ''2'')]"

definition swapped_store :: ustore where
  "swapped_store = runTo uexec (runJobSwap sample_host sample_proc sample_marker ''/n'') 100 sample_store"

lemmas sample_defs = sample_case_def sample_host_def sample_marker_def sample_proc_def

lemma sample_names:
  "namesOk sample_host sample_marker ''/s'' sample_proc"
  by (simp add: names_defs sample_defs walOf_def shmOf_def pendingPath_def failedPath_def failedPreviousPath_def
      joinPath_def markerTemp_def stageOf_def stagedRestore_def)

lemma sample_case_ok:
  "caseOk sample_case" "procOk sample_case sample_proc" "smooth sample_proc"
  "downloadApart sample_case sample_proc ''/n''"
proof -
  show "caseOk sample_case"
    by (simp add: caseOk_def sample_defs migratorOk_def fine_def sample_migrate_def previousOf_def)
  show "procOk sample_case sample_proc" using sample_names by (simp add: procOk_def sample_defs)
  show "smooth sample_proc" by (simp add: smooth_def sample_proc_def)
  have "''/n'' \<notin> set (fixedNames sample_host sample_marker ''/s'' @ tempNames sample_host sample_proc sample_marker)"
    by (simp add: names_defs sample_defs walOf_def shmOf_def pendingPath_def failedPath_def failedPreviousPath_def
      joinPath_def markerTemp_def stageOf_def)
  then show "downloadApart sample_case sample_proc ''/n''"
    using sample_names by (simp add: downloadApart_def sample_case_def)
qed

lemma sample_sole: "sole ''/b'' ''/b.previous'' sample_store"
  by (rule soleI) (simp add: sample_store_def split: if_split_asm)

lemma sample_ready: "ready sample_case ''/n'' sample_store"
  using sample_sole
  by (simp add: ready_def view_defs sample_defs sample_store_def look_def database_def walOf_def pendingPath_def joinPath_def)

theorem update_never_bricks_witness:
  "(let e = afterStarts sample_host [(sample_proc, 4), (sample_proc, 9)]
              (runTo uexec (runJobSwap sample_host sample_proc sample_marker ''/n'') 7 sample_store) in
     liveAt sample_case e \<in> {oldBinary sample_case, newBinary sample_case} \<and>
     (\<exists>s. database sample_host e = Some s \<and> (liveAt sample_case e = oldBinary sample_case \<longrightarrow> fine sample_host ''1'' s)) \<and>
     keptAt sample_case e \<in> {None, uc_kept sample_case, oldBinary sample_case})"
  using update_never_bricks [OF sample_case_ok(1,4) sample_ready, of "[(sample_proc, 4), (sample_proc, 9)]" 7] sample_case_ok(2)
  by (simp add: sample_case_def sample_marker_def)

lemma sample_apart: "dbApart sample_host sample_proc ''/b'' ''/b.previous''"
  by (simp add: dbApart_def sample_defs walOf_def shmOf_def stageOf_def stagedRestore_def)

definition dirty_store :: ustore where
  "dirty_store = jset ''/d-wal'' (3, Tail 2) sample_store"

theorem restore_database_atomic_witness:
  "database sample_host (runTo uexec (restoreDatabase sample_host sample_proc ''/s'' Done Halt) 5 dirty_store)
     \<in> {Some 2, Some 1}"
proof -
  have "sole ''/b'' ''/b.previous'' dirty_store"
    by (rule soleI) (simp add: dirty_store_def sample_store_def split: if_split_asm)
  then show ?thesis
    using restore_database_atomic [OF sample_apart, of dirty_store 2 "''/s''" 1 5]
    by (simp add: sample_defs dirty_store_def sample_store_def database_def look_def walOf_def shmOf_def stageOf_def
        stagedRestore_def)
qed

lemma swapped_views:
  "liveAt sample_case swapped_store = newBinary sample_case" "markAt sample_case swapped_store \<noteq> None"
  "keptAt sample_case swapped_store = oldBinary sample_case"
  "returns uexec (runRollback sample_host sample_proc) swapped_store"
  by code_simp+

text \<open>The new version's migration fails, the first boot is cut off after four acts: the second one settles it.\<close>

theorem update_converges_witness:
  "let f = complete uexec (serviceStart sample_host sample_proc) (afterStarts sample_host [(sample_proc, 4)] swapped_store) in
   liveAt sample_case f = oldBinary sample_case \<and> database sample_host f = Some 1 \<and> onRecord sample_case f \<and>
   complete uexec (serviceStart sample_host sample_proc) f = f"
proof -
  have host: "uc_host sample_case = sample_host" "uc_marker sample_case = sample_marker" by (simp_all add: sample_case_def)
  have "\<not> fine sample_host (pu_to sample_marker) s" "fine sample_host (pu_from sample_marker) s \<longleftrightarrow> s = 1" for s
    by (simp_all add: fine_def sample_host_def sample_marker_def sample_migrate_def)
  then show ?thesis
    using update_converges [OF sample_case_ok(1,4) sample_ready _ sample_case_ok(2,3,3), of "[(sample_proc, 4)]" 100]
      sample_case_ok(2,3) swapped_views(2)
    by (simp add: Let_def host swapped_store_def [symmetric])
qed

theorem rollback_restores_pair_witness:
  "liveAt sample_case (complete uexec (runRollback sample_host sample_proc) swapped_store) = oldBinary sample_case \<and>
   database sample_host (complete uexec (runRollback sample_host sample_proc) swapped_store) = Some 1"
proof -
  have "hostInv True sample_case swapped_store"
    using sustains_runTo [OF runJob_sustains [OF sample_ready sample_case_ok(4,1)], of True 100]
    by (simp add: swapped_store_def sample_case_def)
  then show ?thesis
    using rollback_restores_pair [OF _ sample_case_ok(1,2) swapped_views(1-3)] swapped_views(4)
    by (simp add: Let_def sample_case_def)
qed

end
