(* ===== verification/NodeLink.thy ===== *)
theory NodeLink
  imports Json Text
begin

text \<open>
  The encrypted link of a node's socket: \<open>modules/nodes/link-session.ts\<close> of the server, the handshake
  frames of \<open>node-link-crypto.ts\<close> and the version gate of \<open>versions.ts\<close>.

  A text frame is what \<open>JSON.parse\<close> makes of it, \<open>None\<close> when it is no JSON.  libsodium (the key
  exchange, the opening of a frame, base64), the key verification of the authentication library, the
  reading of a number and the validators of \<open>node-frames.ts\<close> are the parameters of \<open>link_env\<close>.  The
  two directions of a session are independent streams: \<open>ld_session\<close> is the opaque state of the receiving
  one, and \<open>lk_first\<close> is what the sending one makes of the first frame, the answer that ends the handshake;
  the bytes of the commands sealed after it are not modelled.  An impossible state or a failing key store throws, which leaves the
  socket as it was.
\<close>

section \<open>Versions\<close>

text \<open>The dotted numbers a version starts with: \<open>/^\d+(\.\d+)*/\<close>, or 0.\<close>

fun numberRuns :: "string list \<Rightarrow> nat list" where
  "numberRuns [] = []"
| "numberRuns (w # ws) =
     (let ds = takeWhile (is_digit 10) w in
      if ds = [] then [] else of_digits 10 ds # (if ds = w then numberRuns ws else []))"

definition versionNumbers :: "string \<Rightarrow> nat list" where
  "versionNumbers v = (case numberRuns (splitOn CHR ''.'' v) of [] \<Rightarrow> [0] | n # ns \<Rightarrow> n # ns)"

fun numbersLt :: "nat list \<Rightarrow> nat list \<Rightarrow> bool" where
  "numbersLt [] [] = False"
| "numbersLt (a # as) [] = (if a \<noteq> 0 then False else numbersLt as [])"
| "numbersLt [] (b # bs) = (if b \<noteq> 0 then True else numbersLt [] bs)"
| "numbersLt (a # as) (b # bs) = (if a \<noteq> b then a < b else numbersLt as bs)"

definition semverLt :: "string \<Rightarrow> string \<Rightarrow> bool" where
  "semverLt a b = numbersLt (versionNumbers a) (versionNumbers b)"

definition MIN_NODE_VERSION :: "string" where
  "MIN_NODE_VERSION = ''3.1.0''"

definition nodeVersionSupported :: "string option \<Rightarrow> bool" where
  "nodeVersionSupported v = (case v of None \<Rightarrow> False | Some s \<Rightarrow> \<not> semverLt s MIN_NODE_VERSION)"

definition NODE_PROTOCOL_VERSION :: "int" where
  "NODE_PROTOCOL_VERSION = 26"

definition NODE_CLOSE_HANDSHAKE_REQUIRED :: "nat" where
  "NODE_CLOSE_HANDSHAKE_REQUIRED = 4410"

definition NODE_CLOSE_REPAIR_REQUIRED :: "nat" where
  "NODE_CLOSE_REPAIR_REQUIRED = 4411"

section \<open>Handshake frames\<close>

type_synonym octet = "8 word"
type_synonym ltext = "json option"

datatype link_frame = TextFrame ltext | BytesFrame "octet list"

text \<open>The parts of an agent's event the server's handler tells apart.\<close>

record ready_report =
  rr_agentVersion :: "string option"
  rr_protocolVersion :: int
  rr_fingerprint :: bool

datatype node_event =
    ReadyEvent ready_report
  | ResultEvent nat bool "string option"
  | OtherEvent json

record 's link_env =
  lk_verify :: "string \<Rightarrow> (string \<times> json) option"
  lk_keys :: bool
  lk_session :: "string \<Rightarrow> 's option"
  lk_open :: "'s \<Rightarrow> octet list \<Rightarrow> (ltext \<times> 's) option"
  lk_first :: "'s \<Rightarrow> json \<Rightarrow> octet list"
  lk_decode :: "string \<Rightarrow> octet list option"
  lk_encode :: "octet list \<Rightarrow> string"
  lk_int :: "string \<Rightarrow> int option"
  lk_event :: "ltext \<Rightarrow> node_event option"

text \<open>\<open>/^[A-Za-z0-9_-]+={0,2}$/\<close>\<close>

definition keyChar :: "char \<Rightarrow> bool" where
  "keyChar c \<longleftrightarrow>
     (let n = (of_char c :: nat) in
      65 \<le> n \<and> n \<le> 90 \<or> 97 \<le> n \<and> n \<le> 122 \<or> is_digit 10 c \<or> c = CHR ''_'' \<or> c = CHR ''-'')"

definition isB64 :: "string \<Rightarrow> bool" where
  "isB64 s \<longleftrightarrow> takeWhile keyChar s \<noteq> [] \<and> dropWhile keyChar s \<in> {[], ''='', ''==''}"

definition strField :: "(string, json) jmap \<Rightarrow> string \<Rightarrow> string option" where
  "strField m k = (case jget m k of Some (JStr s) \<Rightarrow> Some s | _ \<Rightarrow> None)"

definition b64Field :: "(string, json) jmap \<Rightarrow> string \<Rightarrow> string option" where
  "b64Field m k = (case strField m k of Some s \<Rightarrow> if isB64 s then Some s else None | None \<Rightarrow> None)"

definition parseKxFrame :: "ltext \<Rightarrow> (string \<times> string option) option" where
  "parseKxFrame v =
     (case v of
        Some (JObj m) \<Rightarrow>
          if strField m ''t'' \<noteq> Some ''kx'' then None
          else (case b64Field m ''eph'' of
                  None \<Rightarrow> None
                | Some eph \<Rightarrow>
                    if jget m ''pub'' = None then Some (eph, None)
                    else (case b64Field m ''pub'' of None \<Rightarrow> None | Some p \<Rightarrow> Some (eph, Some p)))
      | _ \<Rightarrow> None)"

definition parseRegisterFrame :: "ltext \<Rightarrow> string option" where
  "parseRegisterFrame v =
     (case v of
        Some (JObj m) \<Rightarrow> if strField m ''t'' \<noteq> Some ''register'' then None else b64Field m ''pub''
      | _ \<Rightarrow> None)"

record link_binding =
  lb_nodeId :: string
  lb_nodeKey :: string
  lb_protocolVersion :: int

definition parseLinkBinding :: "'s link_env \<Rightarrow> ltext \<Rightarrow> link_binding option" where
  "parseLinkBinding env v =
     (case v of
        Some (JObj m) \<Rightarrow>
          (case (strField m ''nodeId'', strField m ''nodeKey'', jget m ''protocolVersion'') of
             (Some n, Some k, Some (JNum t)) \<Rightarrow>
               map_option (\<lambda>i. \<lparr>lb_nodeId = n, lb_nodeKey = k, lb_protocolVersion = i\<rparr>) (lk_int env t)
           | _ \<Rightarrow> None)
      | _ \<Rightarrow> None)"

definition isRegisterClaim :: "ltext \<Rightarrow> bool" where
  "isRegisterClaim v \<longleftrightarrow> (case v of Some (JObj m) \<Rightarrow> strField m ''t'' = Some ''register'' | _ \<Rightarrow> False)"

definition decode32 :: "'s link_env \<Rightarrow> string \<Rightarrow> octet list option" where
  "decode32 env v = (case lk_decode env v of Some b \<Rightarrow> if length b = 32 then Some b else None | None \<Rightarrow> None)"

section \<open>The handshake\<close>

datatype link_mode = Handshake | Legacy
datatype link_phase = AwaitingKx | AwaitingBinding | Established

datatype refusal =
    CiphertextBeforeKx | RegisterOnPinnedRow | KxExpected | EphLength | PubLength | PinMissing | PubMismatch
  | EphUnusable | PlaintextBeforeBinding | BindingUndecryptable | BindingMalformed | BindingOtherNode
  | KeyNotLive | KeyOtherRow | StreamDead | PlaintextOnLink | RegisterMalformed | RegisterPubLength | LegacyKx

datatype link_outcome =
    Consumed
  | Establish "octet list" "int option"
  | Forward link_frame
  | HoldEncryptionRequired
  | Refuse nat refusal
  | AnswerRegister string
  | Throw

record 's link_data =
  ld_nodeId :: string
  ld_apiKeyId :: string
  ld_mode :: link_mode
  ld_pin :: "string option"
  ld_phase :: link_phase
  ld_session :: "'s option"

definition beginLinkUpgrade :: "string option \<Rightarrow> link_mode" where
  "beginLinkUpgrade pin = (if pin \<noteq> None then Handshake else Legacy)"

definition handshakeIncomplete :: "'s link_data \<Rightarrow> bool" where
  "handshakeIncomplete d \<longleftrightarrow> ld_mode d = Handshake \<and> ld_phase d \<noteq> Established"

definition refuse :: "refusal \<Rightarrow> link_outcome" where
  "refuse r = Refuse NODE_CLOSE_HANDSHAKE_REQUIRED r"

definition acceptKx :: "'s link_env \<Rightarrow> 's link_data \<Rightarrow> ltext \<Rightarrow> link_outcome \<times> 's link_data" where
  "acceptKx env d raw =
     (case parseKxFrame raw of
        Some (eph, Some pub) \<Rightarrow>
          if decode32 env eph = None then (refuse EphLength, d)
          else (case decode32 env pub of
            None \<Rightarrow> (refuse PubLength, d)
          | Some claimed \<Rightarrow>
              (case (case ld_pin d of None \<Rightarrow> None | Some p \<Rightarrow> decode32 env p) of
                 None \<Rightarrow> (refuse PinMissing, d)
               | Some pinned \<Rightarrow>
                   if claimed \<noteq> pinned then (refuse PubMismatch, d)
                   else if \<not> lk_keys env then (Throw, d)
                   else (case lk_session env eph of
                           None \<Rightarrow> (refuse EphUnusable, d)
                         | Some s \<Rightarrow> (Consumed, d\<lparr>ld_session := Some s, ld_phase := AwaitingBinding\<rparr>))))
      | _ \<Rightarrow> (refuse KxExpected, d))"

text \<open>The key in the binding is verified again, as at the upgrade.\<close>

definition reProveNodeKey :: "'s link_env \<Rightarrow> 's link_data \<Rightarrow> string \<Rightarrow> link_outcome option" where
  "reProveNodeKey env d nodeKey =
     (case lk_verify env nodeKey of
        None \<Rightarrow> Some (refuse KeyNotLive)
      | Some (keyId, meta) \<Rightarrow>
          (case meta of
             JObj m \<Rightarrow>
               if strField m ''kind'' \<noteq> Some ''node'' \<or> strField m ''nodeId'' \<noteq> Some (ld_nodeId d) \<or> keyId \<noteq> ld_apiKeyId d
               then Some (refuse KeyOtherRow) else None
           | _ \<Rightarrow> Some (refuse KeyOtherRow)))"

definition okFrame :: json where
  "okFrame = JObj [(''t'', JStr ''ok'')]"

definition completeBinding :: "'s link_env \<Rightarrow> 's link_data \<Rightarrow> octet list \<Rightarrow> link_outcome \<times> 's link_data" where
  "completeBinding env d bytes =
     (case ld_session d of
        None \<Rightarrow> (Throw, d)
      | Some s \<Rightarrow>
          (case lk_open env s bytes of
             None \<Rightarrow> (refuse BindingUndecryptable, d)
           | Some (plaintext, s') \<Rightarrow>
               let d = d\<lparr>ld_session := Some s'\<rparr> in
               (case parseLinkBinding env plaintext of
                  None \<Rightarrow> (refuse BindingMalformed, d)
                | Some b \<Rightarrow>
                    if lb_nodeId b \<noteq> ld_nodeId d then (refuse BindingOtherNode, d)
                    else (case reProveNodeKey env d (lb_nodeKey b) of
                            Some r \<Rightarrow> (r, d)
                          | None \<Rightarrow>
                              (Establish (lk_first env s' okFrame)
                                 (if lb_protocolVersion b \<noteq> NODE_PROTOCOL_VERSION
                                  then Some (lb_protocolVersion b) else None),
                               d\<lparr>ld_phase := Established\<rparr>)))))"

definition handleHandshakeFrame :: "'s link_env \<Rightarrow> 's link_data \<Rightarrow> link_frame \<Rightarrow> link_outcome \<times> 's link_data" where
  "handleHandshakeFrame env d frame =
     (case ld_phase d of
        AwaitingKx \<Rightarrow>
          (case frame of
             BytesFrame _ \<Rightarrow> (refuse CiphertextBeforeKx, d)
           | TextFrame t \<Rightarrow> if isRegisterClaim t then (refuse RegisterOnPinnedRow, d) else acceptKx env d t)
      | AwaitingBinding \<Rightarrow>
          (case frame of
             TextFrame _ \<Rightarrow> (refuse PlaintextBeforeBinding, d)
           | BytesFrame b \<Rightarrow> completeBinding env d b)
      | Established \<Rightarrow>
          (case frame of
             TextFrame _ \<Rightarrow> (refuse PlaintextOnLink, d)
           | BytesFrame b \<Rightarrow>
               (case ld_session d of
                  None \<Rightarrow> (Throw, d)
                | Some s \<Rightarrow>
                    (case lk_open env s b of
                       None \<Rightarrow> (refuse StreamDead, d)
                     | Some (plaintext, s') \<Rightarrow> (Forward (TextFrame plaintext), d\<lparr>ld_session := Some s'\<rparr>)))))"

definition acceptRegister :: "'s link_env \<Rightarrow> ltext \<Rightarrow> link_outcome" where
  "acceptRegister env raw =
     (case parseRegisterFrame raw of
        None \<Rightarrow> refuse RegisterMalformed
      | Some pub \<Rightarrow>
          (case decode32 env pub of
             None \<Rightarrow> refuse RegisterPubLength
           | Some b \<Rightarrow> AnswerRegister (lk_encode env b)))"

text \<open>A ready report that would pass both gates.\<close>

definition wouldPass :: "ready_report \<Rightarrow> bool" where
  "wouldPass r \<longleftrightarrow> nodeVersionSupported (rr_agentVersion r) \<and> rr_protocolVersion r = NODE_PROTOCOL_VERSION"

definition handleLegacyFrame :: "'s link_env \<Rightarrow> link_frame \<Rightarrow> link_outcome" where
  "handleLegacyFrame env frame =
     (case frame of
        BytesFrame b \<Rightarrow> Forward (BytesFrame b)
      | TextFrame t \<Rightarrow>
          if isRegisterClaim t then acceptRegister env t
          else (case parseKxFrame t of
                  Some (eph, Some pub) \<Rightarrow> Refuse NODE_CLOSE_REPAIR_REQUIRED LegacyKx
                | _ \<Rightarrow>
                    (case lk_event env t of
                       Some (ReadyEvent r) \<Rightarrow> if wouldPass r then HoldEncryptionRequired else Forward (TextFrame t)
                     | _ \<Rightarrow> Forward (TextFrame t))))"

definition handleLinkFrame :: "'s link_env \<Rightarrow> 's link_data \<Rightarrow> link_frame \<Rightarrow> link_outcome \<times> 's link_data" where
  "handleLinkFrame env d frame =
     (case ld_mode d of
        Handshake \<Rightarrow> handleHandshakeFrame env d frame
      | Legacy \<Rightarrow> (handleLegacyFrame env frame, d))"

end
