(* ===== verification/NodeSocket.thy ===== *)
theory NodeSocket
  imports NodeLink
begin

text \<open>
  The server's end of the nodes' sockets: the registry of live and held connections
  (\<open>modules/nodes/node-registry.ts\<close>), the command RPC (\<open>node-rpc.ts\<close>) and the socket handler
  (\<open>api/ws/node-ws-handler.ts\<close>), as one event machine.

  Sockets, connections and commands are numbers, given out in order.  Every await is a step of its
  own: a command goes through its queue, the loading of the keys and the signing; a frame may leave
  its socket waiting for the database, and the frames of one socket are handled one after the other.
  What the machine does is its log.  What a handler does with an accepted or any other event (the
  database row, presence, hooks, relays) is the log entry \<open>Acted\<close> or \<open>Accepted\<close>.
\<close>

section \<open>Connections\<close>

type_synonym ncmd = string

datatype rpc_stage =
    Waiting
  | Loading nat ncmd
  | Signing nat ncmd nat

record conn =
  cn_nodeId :: string
  cn_ws :: nat
  cn_seq :: nat
  cn_pending :: "nat list"
  cn_closing :: bool
  cn_chain :: "(nat \<times> ncmd) list"
  cn_stage :: rpc_stage
  cn_link :: bool
  cn_plaintextAllowed :: "bool option"

datatype held_reason = BelowFloor | ProtocolMismatch | EncryptionRequired

record held_entry =
  hd_conn :: nat
  hd_reason :: held_reason

datatype frame_stage =
    Idle
  | Applying ready_report          \<comment> \<open>\<open>applyReady\<close> is on its way\<close>
  | Gating ready_report            \<comment> \<open>the fingerprint is being stored\<close>
  | Holding "nat option"           \<comment> \<open>the row is being read for a hold proposed by the binding\<close>

record 's socket =
  sk_data :: "'s link_data"
  sk_conn :: "nat option"
  sk_stage :: frame_stage

datatype rpc_answer = Resolved | Offline | Unsupported | Failed | TimedOut

datatype out =
    Closed nat nat
  | SentPlain nat nat nat ncmd
  | SentSealed nat nat nat ncmd
  | SentOk nat "octet list"
  | SentRegisterOk nat
  | PinWritten string string
  | Settled nat rpc_answer
  | RowOffline string
  | RowReady nat ready_report
  | Accepted nat ready_report
  | Acted nat json

record 's nodes_state =
  ns_conns :: "nat \<Rightarrow> conn"
  ns_nextConn :: nat
  ns_nextJti :: nat
  ns_live :: "(string, nat) jmap"
  ns_held :: "(string, held_entry) jmap"
  ns_socks :: "(nat, 's socket) jmap"
  ns_log :: "out list"

definition NODE_CLOSE_SUPERSEDED :: nat where "NODE_CLOSE_SUPERSEDED = 4409"

definition NODE_CLOSE_UPDATE_REQUIRED :: nat where "NODE_CLOSE_UPDATE_REQUIRED = 4406"

definition NODE_CLOSE_TOO_BIG :: nat where "NODE_CLOSE_TOO_BIG = 1009"

definition OWNER_DISABLED_CLOSE_CODE :: nat where "OWNER_DISABLED_CLOSE_CODE = 4403"

definition NODE_MAX_FRAME_BYTES :: nat where "NODE_MAX_FRAME_BYTES = 1048576"

definition logOut :: "out \<Rightarrow> 's nodes_state \<Rightarrow> 's nodes_state" where
  "logOut e s = s\<lparr>ns_log := ns_log s @ [e]\<rparr>"

definition updConn :: "nat \<Rightarrow> (conn \<Rightarrow> conn) \<Rightarrow> 's nodes_state \<Rightarrow> 's nodes_state" where
  "updConn c f s = s\<lparr>ns_conns := (ns_conns s)(c := f (ns_conns s c))\<rparr>"

definition setSock :: "nat \<Rightarrow> 's socket \<Rightarrow> 's nodes_state \<Rightarrow> 's nodes_state" where
  "setSock w k s = s\<lparr>ns_socks := jset w k (ns_socks s)\<rparr>"

definition closeConn :: "nat \<Rightarrow> nat \<Rightarrow> 's nodes_state \<Rightarrow> 's nodes_state" where
  "closeConn c code s = logOut (Closed (cn_ws (ns_conns s c)) code) (updConn c (cn_closing_update (\<lambda>_. True)) s)"

section \<open>The registry\<close>

definition getLive :: "string \<Rightarrow> 's nodes_state \<Rightarrow> nat option" where
  "getLive n s = jget (ns_live s) n"

definition getHeld :: "string \<Rightarrow> 's nodes_state \<Rightarrow> nat option" where
  "getHeld n s = map_option hd_conn (jget (ns_held s) n)"

definition detachConnection :: "string \<Rightarrow> nat \<Rightarrow> 's nodes_state \<Rightarrow> 's nodes_state" where
  "detachConnection n w s =
     (case getLive n s of
        Some c \<Rightarrow> if cn_ws (ns_conns s c) = w then s\<lparr>ns_live := jdel n (ns_live s)\<rparr> else s
      | None \<Rightarrow> s)"

definition supersedeHeld :: "string \<Rightarrow> (nat \<Rightarrow> bool) \<Rightarrow> 's nodes_state \<Rightarrow> 's nodes_state" where
  "supersedeHeld n other s =
     (case getHeld n s of
        Some c \<Rightarrow> if other c then closeConn c NODE_CLOSE_SUPERSEDED (s\<lparr>ns_held := jdel n (ns_held s)\<rparr>) else s
      | None \<Rightarrow> s)"

definition holdConnection :: "string \<Rightarrow> nat \<Rightarrow> held_reason \<Rightarrow> 's nodes_state \<Rightarrow> 's nodes_state" where
  "holdConnection n c reason s =
     (let s = supersedeHeld n (\<lambda>p. p \<noteq> c) (detachConnection n (cn_ws (ns_conns s c)) s) in
      s\<lparr>ns_held := jset n \<lparr>hd_conn = c, hd_reason = reason\<rparr> (ns_held s)\<rparr>)"

definition releaseHeld :: "string \<Rightarrow> nat \<Rightarrow> 's nodes_state \<Rightarrow> 's nodes_state" where
  "releaseHeld n c s = (if getHeld n s = Some c then s\<lparr>ns_held := jdel n (ns_held s)\<rparr> else s)"

definition newConn :: "string \<Rightarrow> nat \<Rightarrow> conn" where
  "newConn n w = \<lparr>cn_nodeId = n, cn_ws = w, cn_seq = 0, cn_pending = [], cn_closing = False, cn_chain = [],
     cn_stage = Waiting, cn_link = False, cn_plaintextAllowed = None\<rparr>"

definition attachConnection :: "string \<Rightarrow> nat \<Rightarrow> 's nodes_state \<Rightarrow> nat \<times> 's nodes_state" where
  "attachConnection n w s =
     (let s = supersedeHeld n (\<lambda>c. cn_ws (ns_conns s c) \<noteq> w) s in
      case getLive n s of
        Some c \<Rightarrow>
          if cn_ws (ns_conns s c) = w then (c, s)
          else (ns_nextConn s,
                (closeConn c NODE_CLOSE_SUPERSEDED s)
                  \<lparr>ns_conns := (ns_conns (closeConn c NODE_CLOSE_SUPERSEDED s))(ns_nextConn s := newConn n w),
                   ns_nextConn := Suc (ns_nextConn s), ns_live := jset n (ns_nextConn s) (ns_live s)\<rparr>)
      | None \<Rightarrow>
          (ns_nextConn s,
           s\<lparr>ns_conns := (ns_conns s)(ns_nextConn s := newConn n w), ns_nextConn := Suc (ns_nextConn s),
             ns_live := jset n (ns_nextConn s) (ns_live s)\<rparr>))"

definition projectNodeOffline :: "string \<Rightarrow> 's nodes_state \<Rightarrow> 's nodes_state" where
  "projectNodeOffline n s = logOut (RowOffline n) s"

definition disconnectNode :: "string \<Rightarrow> nat \<Rightarrow> nat option \<Rightarrow> 's nodes_state \<Rightarrow> bool \<times> 's nodes_state" where
  "disconnectNode n code only s =
     (let mine = (\<lambda>c. only = None \<or> only = Some c);
          (heldGone, s1) = (case getHeld n s of
             Some c \<Rightarrow> if mine c then (True, closeConn c code (s\<lparr>ns_held := jdel n (ns_held s)\<rparr>)) else (False, s)
           | None \<Rightarrow> (False, s));
          (liveGone, s2) = (case getLive n s1 of
             Some c \<Rightarrow> if mine c then (True, detachConnection n (cn_ws (ns_conns s1 c)) (closeConn c code s1)) else (False, s1)
           | None \<Rightarrow> (False, s1))
      in if heldGone \<or> liveGone then (True, projectNodeOffline n s2) else (False, s2))"

section \<open>Commands\<close>

definition answer :: "nat \<Rightarrow> rpc_answer \<Rightarrow> 's nodes_state \<Rightarrow> 's nodes_state" where
  "answer j a s = logOut (Settled j a) s"

definition dropPending :: "nat \<Rightarrow> nat \<Rightarrow> 's nodes_state \<Rightarrow> 's nodes_state" where
  "dropPending c j s = updConn c (cn_pending_update (filter (\<lambda>i. i \<noteq> j))) s"

definition setStage :: "nat \<Rightarrow> rpc_stage \<Rightarrow> 's nodes_state \<Rightarrow> 's nodes_state" where
  "setStage c st s = updConn c (cn_stage_update (\<lambda>_. st)) s"

definition sendCommand :: "string \<Rightarrow> ncmd \<Rightarrow> 's nodes_state \<Rightarrow> 's nodes_state" where
  "sendCommand n cmd s =
     (let j = ns_nextJti s; s = s\<lparr>ns_nextJti := Suc (ns_nextJti s)\<rparr> in
      case (case getLive n s of Some c \<Rightarrow> Some c | None \<Rightarrow> if cmd = ''update'' then getHeld n s else None) of
        None \<Rightarrow> answer j Offline s
      | Some c \<Rightarrow> updConn c (cn_chain_update (\<lambda>q. q @ [(j, cmd)])) s)"

text \<open>What can go wrong in a step of a command.\<close>

datatype luck = Fine | KeysFail | SignFails | SendThrows

definition failStep :: "nat \<Rightarrow> nat \<Rightarrow> rpc_answer \<Rightarrow> 's nodes_state \<Rightarrow> 's nodes_state" where
  "failStep c j a s = answer j a (dropPending c j (setStage c Waiting s))"

definition advance :: "nat \<Rightarrow> luck \<Rightarrow> 's nodes_state \<Rightarrow> 's nodes_state" where
  "advance c l s =
     (let cn = ns_conns s c in
      case cn_stage cn of
        Waiting \<Rightarrow>
          (case cn_chain cn of
             [] \<Rightarrow> s
           | (j, cmd) # rest \<Rightarrow>
               let s = updConn c (cn_chain_update (\<lambda>_. rest)) s in
               if cn_closing cn \<or> (getLive (cn_nodeId cn) s \<noteq> Some c \<and> getHeld (cn_nodeId cn) s \<noteq> Some c)
               then failStep c j Offline s
               else if \<not> cn_link cn \<and> cn_plaintextAllowed cn = Some False then failStep c j Offline s
               else setStage c (Loading j cmd) s)
      | Loading j cmd \<Rightarrow>
          if l = KeysFail then failStep c j Failed s
          else setStage c (Signing j cmd (Suc (cn_seq cn))) (updConn c (cn_seq_update Suc) s)
      | Signing j cmd q \<Rightarrow>
          if l = SignFails then failStep c j Failed s
          else
            let s = updConn c (cn_pending_update (\<lambda>p. p @ [j])) (setStage c Waiting s) in
            if l = SendThrows then failStep c j Failed s
            else logOut (if cn_link cn then SentSealed (cn_ws cn) j q cmd else SentPlain (cn_ws cn) j q cmd) s)"

definition expire :: "nat \<Rightarrow> nat \<Rightarrow> 's nodes_state \<Rightarrow> 's nodes_state" where
  "expire c j s = (if j \<in> set (cn_pending (ns_conns s c)) then answer j TimedOut (dropPending c j s) else s)"

definition resolveResult :: "nat \<Rightarrow> nat \<Rightarrow> bool \<Rightarrow> string option \<Rightarrow> 's nodes_state \<Rightarrow> 's nodes_state" where
  "resolveResult c ref ok err s =
     (if ref \<in> set (cn_pending (ns_conns s c))
      then answer ref (if ok then Resolved else if err = Some ''unsupported'' then Unsupported else Failed)
             (dropPending c ref s)
      else s)"

definition failConnPendings :: "nat \<Rightarrow> 's nodes_state \<Rightarrow> 's nodes_state" where
  "failConnPendings c s =
     fold (\<lambda>j. answer j Offline) (cn_pending (ns_conns s c)) (updConn c (cn_pending_update (\<lambda>_. [])) s)"

section \<open>The handler\<close>

definition holdSocket :: "string \<Rightarrow> nat \<Rightarrow> held_reason \<Rightarrow> 's nodes_state \<Rightarrow> 's nodes_state" where
  "holdSocket n c reason s = logOut (RowOffline n) (holdConnection n c reason s)"

definition connOf :: "'s socket \<Rightarrow> 's nodes_state \<Rightarrow> nat option" where
  "connOf k s = (case sk_conn k of Some c \<Rightarrow> Some c | None \<Rightarrow> getLive (ld_nodeId (sk_data k)) s)"

definition holdRefusedNode :: "nat \<Rightarrow> 's socket \<Rightarrow> held_reason \<Rightarrow> 's nodes_state \<Rightarrow> 's nodes_state" where
  "holdRefusedNode w k reason s =
     (case connOf k s of
        None \<Rightarrow> logOut (Closed w NODE_CLOSE_UPDATE_REQUIRED) s
      | Some c \<Rightarrow> holdSocket (ld_nodeId (sk_data k)) c reason s)"

definition handleNodeOpen :: "nat \<Rightarrow> string \<Rightarrow> string \<Rightarrow> string option \<Rightarrow> 's nodes_state \<Rightarrow> 's nodes_state" where
  "handleNodeOpen w n key pin s =
     (if jget (ns_socks s) w \<noteq> None then s
      else
        let mode = beginLinkUpgrade pin; (c, s) = attachConnection n w s in
        setSock w
          \<lparr>sk_data = \<lparr>ld_nodeId = n, ld_apiKeyId = key, ld_mode = mode, ld_pin = pin, ld_phase = AwaitingKx,
             ld_session = None\<rparr>, sk_conn = Some c, sk_stage = Idle\<rparr>
          (updConn c (cn_plaintextAllowed_update (\<lambda>_. Some (mode = Legacy))) s))"

text \<open>The answer to the question whether the owner's account is disabled, asked after the attach.\<close>

definition ownerChecked :: "nat \<Rightarrow> bool \<Rightarrow> 's nodes_state \<Rightarrow> 's nodes_state" where
  "ownerChecked w disabled s =
     (case jget (ns_socks s) w of
        Some k \<Rightarrow>
          (case sk_conn k of
             Some c \<Rightarrow>
               if disabled
               then (let (evicted, s') = disconnectNode (ld_nodeId (sk_data k)) OWNER_DISABLED_CLOSE_CODE (Some c) s
                     in if evicted then failConnPendings c s' else s')
               else s
           | None \<Rightarrow> s)
      | None \<Rightarrow> s)"

definition handshakeDeadline :: "nat \<Rightarrow> 's nodes_state \<Rightarrow> 's nodes_state" where
  "handshakeDeadline w s =
     (case jget (ns_socks s) w of
        Some k \<Rightarrow> if handshakeIncomplete (sk_data k) then logOut (Closed w NODE_CLOSE_HANDSHAKE_REQUIRED) s else s
      | None \<Rightarrow> s)"

definition gateReady :: "nat \<Rightarrow> 's socket \<Rightarrow> ready_report \<Rightarrow> 's nodes_state \<Rightarrow> 's nodes_state" where
  "gateReady w k r s =
     (if \<not> nodeVersionSupported (rr_agentVersion r) then holdRefusedNode w k BelowFloor s
      else if rr_protocolVersion r \<noteq> NODE_PROTOCOL_VERSION then holdRefusedNode w k ProtocolMismatch s
      else logOut (Accepted w r) s)"

definition handleEvent :: "nat \<Rightarrow> 's socket \<Rightarrow> node_event option \<Rightarrow> 's nodes_state \<Rightarrow> 's nodes_state" where
  "handleEvent w k event s =
     (let n = ld_nodeId (sk_data k) in
      case event of
        None \<Rightarrow> s
      | Some ev \<Rightarrow>
          if getHeld n s \<noteq> None \<and> sk_conn k = getHeld n s
          then (case ev of ResultEvent ref ok err \<Rightarrow> resolveResult (the (sk_conn k)) ref ok err s | _ \<Rightarrow> s)
          else
            (case ev of
               ResultEvent ref ok err \<Rightarrow> (case connOf k s of Some c \<Rightarrow> resolveResult c ref ok err s | None \<Rightarrow> s)
             | ReadyEvent r \<Rightarrow> if getLive n s \<noteq> sk_conn k then s else setSock w (k\<lparr>sk_stage := Applying r\<rparr>) s
             | OtherEvent j \<Rightarrow> if getLive n s \<noteq> sk_conn k then s else logOut (Acted w j) s))"

definition handleNodeMessage ::
  "'s link_env \<Rightarrow> nat \<Rightarrow> nat \<Rightarrow> link_frame \<Rightarrow> 's nodes_state \<Rightarrow> 's nodes_state" where
  "handleNodeMessage env w bytes frame s =
     (case jget (ns_socks s) w of
        None \<Rightarrow> s
      | Some k0 \<Rightarrow>
          if sk_stage k0 \<noteq> Idle then s
          else if bytes > NODE_MAX_FRAME_BYTES then logOut (Closed w NODE_CLOSE_TOO_BIG) s
          else
            let (oc, d) = handleLinkFrame env (sk_data k0) frame; k = k0\<lparr>sk_data := d\<rparr>; s = setSock w k s in
            case oc of
              Throw \<Rightarrow> s
            | Refuse code r \<Rightarrow> logOut (Closed w code) s
            | AnswerRegister key \<Rightarrow>
                logOut (Closed w 1000) (logOut (SentRegisterOk w) (logOut (PinWritten (ld_nodeId d) key) s))
            | Consumed \<Rightarrow> s
            | Establish sealed hold \<Rightarrow>
                let s = logOut (SentOk w sealed) s;
                    s = (case connOf k s of Some c \<Rightarrow> updConn c (cn_link_update (\<lambda>_. True)) s | None \<Rightarrow> s)
                in (case hold of None \<Rightarrow> s | Some v \<Rightarrow> setSock w (k\<lparr>sk_stage := Holding (connOf k s)\<rparr>) s)
            | HoldEncryptionRequired \<Rightarrow>
                (case (case frame of TextFrame t \<Rightarrow> lk_event env t | BytesFrame _ \<Rightarrow> None) of
                   Some (ReadyEvent r) \<Rightarrow> holdRefusedNode w k EncryptionRequired s
                 | _ \<Rightarrow> logOut (Closed w NODE_CLOSE_HANDSHAKE_REQUIRED) s)
            | Forward f \<Rightarrow> handleEvent w k (case f of TextFrame t \<Rightarrow> lk_event env t | BytesFrame _ \<Rightarrow> None) s)"

text \<open>The database has answered: the handler of a frame goes on.\<close>

definition resumeFrame :: "nat \<Rightarrow> 's nodes_state \<Rightarrow> 's nodes_state" where
  "resumeFrame w s =
     (case jget (ns_socks s) w of
        None \<Rightarrow> s
      | Some k0 \<Rightarrow>
          let k = k0\<lparr>sk_stage := Idle\<rparr>; n = ld_nodeId (sk_data k) in
          case sk_stage k0 of
            Idle \<Rightarrow> s
          | Applying r \<Rightarrow>
              let s = logOut (RowReady w r) (setSock w k s) in
              if getLive n s \<noteq> sk_conn k then (if getLive n s = None then projectNodeOffline n s else s)
              else if rr_fingerprint r then setSock w (k\<lparr>sk_stage := Gating r\<rparr>) s
              else gateReady w k r s
          | Gating r \<Rightarrow> gateReady w k r (setSock w k s)
          | Holding cid \<Rightarrow>
              (case cid of
                 None \<Rightarrow> logOut (Closed w NODE_CLOSE_UPDATE_REQUIRED) (setSock w k s)
               | Some c \<Rightarrow> holdSocket n c ProtocolMismatch (setSock w k s)))"

definition handleNodeClose :: "nat \<Rightarrow> 's nodes_state \<Rightarrow> 's nodes_state" where
  "handleNodeClose w s =
     (case jget (ns_socks s) w of
        None \<Rightarrow> s
      | Some k \<Rightarrow>
          let n = ld_nodeId (sk_data k) in
          case getLive n s of
            Some c \<Rightarrow>
              if cn_ws (ns_conns s c) = w
              then logOut (RowOffline n)
                     (failConnPendings (case sk_conn k of Some c' \<Rightarrow> c' | None \<Rightarrow> c) (detachConnection n w s))
              else (case sk_conn k of Some c' \<Rightarrow> failConnPendings c' (releaseHeld n c' s) | None \<Rightarrow> s)
          | None \<Rightarrow> (case sk_conn k of Some c' \<Rightarrow> failConnPendings c' (releaseHeld n c' s) | None \<Rightarrow> s))"

definition heldIdle :: "string \<Rightarrow> nat \<Rightarrow> 's nodes_state \<Rightarrow> 's nodes_state" where
  "heldIdle n c s =
     (if getHeld n s = Some c
      then logOut (Closed (cn_ws (ns_conns s c)) NODE_CLOSE_UPDATE_REQUIRED) (s\<lparr>ns_held := jdel n (ns_held s)\<rparr>) else s)"

section \<open>The machine\<close>

datatype nevent =
    Open nat string string "string option"
  | OwnerChecked nat bool
  | Deadline nat
  | Frame nat nat link_frame
  | Resume nat
  | Close nat
  | HeldIdle string nat
  | Evict string nat
  | Call string ncmd
  | Advance nat luck
  | Expire nat nat

fun nodes_step :: "'s link_env \<Rightarrow> nevent \<Rightarrow> 's nodes_state \<Rightarrow> 's nodes_state" where
  "nodes_step env (Open w n key pin) s = handleNodeOpen w n key pin s"
| "nodes_step env (OwnerChecked w b) s = ownerChecked w b s"
| "nodes_step env (Deadline w) s = handshakeDeadline w s"
| "nodes_step env (Frame w n f) s = handleNodeMessage env w n f s"
| "nodes_step env (Resume w) s = resumeFrame w s"
| "nodes_step env (Close w) s = handleNodeClose w s"
| "nodes_step env (HeldIdle n c) s = heldIdle n c s"
| "nodes_step env (Evict n code) s = snd (disconnectNode n code None s)"
| "nodes_step env (Call n cmd) s = sendCommand n cmd s"
| "nodes_step env (Advance c l) s = advance c l s"
| "nodes_step env (Expire c j) s = expire c j s"

definition nodes_init :: "'s nodes_state" where
  "nodes_init = \<lparr>ns_conns = (\<lambda>_. newConn [] 0), ns_nextConn = 0, ns_nextJti = 0, ns_live = [], ns_held = [], ns_socks = [], ns_log = []\<rparr>"

end
