(* ===== verification/NodeSafety.thy ===== *)
theory NodeSafety
  imports NodeSocket
begin

text \<open>
  The invariants of the nodes' sockets: what a socket may have sent and been heard on, where each
  command is, and the order commands leave in.
\<close>
section \<open>What holds of sockets and connections\<close>

definition sock_ok :: "'s nodes_state \<Rightarrow> nat \<Rightarrow> 's socket \<Rightarrow> bool" where
  "sock_ok s w k \<longleftrightarrow>
     (\<exists>c. sk_conn k = Some c \<and> c < ns_nextConn s \<and> cn_ws (ns_conns s c) = w \<and>
        cn_nodeId (ns_conns s c) = ld_nodeId (sk_data k) \<and>
        cn_plaintextAllowed (ns_conns s c) = Some (ld_mode (sk_data k) = Legacy) \<and>
        (cn_link (ns_conns s c) \<longrightarrow> ld_mode (sk_data k) = Handshake \<and> ld_phase (sk_data k) = Established)) \<and>
     (case sk_stage k of
        Applying r \<Rightarrow> if ld_mode (sk_data k) = Handshake then ld_phase (sk_data k) = Established else \<not> wouldPass r
      | Gating r \<Rightarrow> if ld_mode (sk_data k) = Handshake then ld_phase (sk_data k) = Established else \<not> wouldPass r
      | Holding c \<Rightarrow> c = sk_conn k
      | Idle \<Rightarrow> True)"

definition onLink :: "'s nodes_state \<Rightarrow> nat \<Rightarrow> bool" where
  "onLink s w \<longleftrightarrow>
     (\<exists>k. jget (ns_socks s) w = Some k \<and> ld_mode (sk_data k) = Handshake \<and> ld_phase (sk_data k) = Established)"

definition unpaired :: "'s nodes_state \<Rightarrow> nat \<Rightarrow> bool" where
  "unpaired s w \<longleftrightarrow> (\<exists>k. jget (ns_socks s) w = Some k \<and> ld_mode (sk_data k) = Legacy)"

fun out_ok :: "'s nodes_state \<Rightarrow> out \<Rightarrow> bool" where
  "out_ok s (SentPlain w j q cmd) = unpaired s w"
| "out_ok s (SentSealed w j q cmd) = onLink s w"
| "out_ok s (SentOk w b) = onLink s w"
| "out_ok s (RowReady w r) = (onLink s w \<or> unpaired s w \<and> \<not> wouldPass r)"
| "out_ok s (Accepted w r) = (onLink s w \<and> wouldPass r)"
| "out_ok s (Acted w j) = (onLink s w \<or> unpaired s w)"
| "out_ok s e = True"

definition staged_ok :: "conn \<Rightarrow> bool" where
  "staged_ok cn \<longleftrightarrow> cn_stage cn = Waiting \<or> cn_link cn \<or> cn_plaintextAllowed cn \<noteq> Some False"

definition link_inv :: "'s nodes_state \<Rightarrow> bool" where
  "link_inv s \<longleftrightarrow>
     (\<forall>w k. jget (ns_socks s) w = Some k \<longrightarrow> sock_ok s w k) \<and>
     (\<forall>c < ns_nextConn s. \<exists>k. jget (ns_socks s) (cn_ws (ns_conns s c)) = Some k \<and> sk_conn k = Some c) \<and>
     (\<forall>n c. getLive n s = Some c \<longrightarrow> c < ns_nextConn s \<and> cn_nodeId (ns_conns s c) = n) \<and>
     (\<forall>n c. getHeld n s = Some c \<longrightarrow> c < ns_nextConn s \<and> cn_nodeId (ns_conns s c) = n) \<and>
     (\<forall>c < ns_nextConn s. staged_ok (ns_conns s c)) \<and>
     (\<forall>e \<in> set (ns_log s). out_ok s e)"

lemma link_invI:
  assumes "\<And>w k. jget (ns_socks s) w = Some k \<Longrightarrow> sock_ok s w k"
    "\<And>c. c < ns_nextConn s \<Longrightarrow> \<exists>k. jget (ns_socks s) (cn_ws (ns_conns s c)) = Some k \<and> sk_conn k = Some c"
    "\<And>n c. getLive n s = Some c \<Longrightarrow> c < ns_nextConn s \<and> cn_nodeId (ns_conns s c) = n"
    "\<And>n c. getHeld n s = Some c \<Longrightarrow> c < ns_nextConn s \<and> cn_nodeId (ns_conns s c) = n"
    "\<And>c. c < ns_nextConn s \<Longrightarrow> staged_ok (ns_conns s c)"
    "\<And>e. e \<in> set (ns_log s) \<Longrightarrow> out_ok s e"
  shows "link_inv s"
  using assms unfolding link_inv_def by blast

lemma link_invD:
  assumes "link_inv s"
  shows "jget (ns_socks s) w = Some k \<Longrightarrow> sock_ok s w k"
    "c < ns_nextConn s \<Longrightarrow> \<exists>k. jget (ns_socks s) (cn_ws (ns_conns s c)) = Some k \<and> sk_conn k = Some c"
    "getLive n s = Some c \<Longrightarrow> c < ns_nextConn s \<and> cn_nodeId (ns_conns s c) = n"
    "getHeld n s = Some c \<Longrightarrow> c < ns_nextConn s \<and> cn_nodeId (ns_conns s c) = n"
    "c < ns_nextConn s \<Longrightarrow> staged_ok (ns_conns s c)"
    "e \<in> set (ns_log s) \<Longrightarrow> out_ok s e"
  using assms unfolding link_inv_def by blast+

text \<open>What an output needs is about the sockets alone.\<close>

definition sameSocks :: "'s nodes_state \<Rightarrow> 's nodes_state \<Rightarrow> bool" where
  "sameSocks s t \<longleftrightarrow>
     (\<forall>w k. jget (ns_socks s) w = Some k \<longrightarrow>
        (\<exists>k'. jget (ns_socks t) w = Some k' \<and> ld_mode (sk_data k') = ld_mode (sk_data k) \<and>
           (ld_phase (sk_data k) = Established \<longrightarrow> ld_phase (sk_data k') = Established)))"

lemma sameSocks_eq: "ns_socks t = ns_socks s \<Longrightarrow> sameSocks s t"
  by (simp add: sameSocks_def)

lemma out_ok_mono: "sameSocks s t \<Longrightarrow> out_ok s e \<Longrightarrow> out_ok t e"
  by (cases e) (fastforce simp: sameSocks_def onLink_def unpaired_def)+

section \<open>The acts that keep it\<close>

definition sameShape :: "conn \<Rightarrow> conn \<Rightarrow> bool" where
  "sameShape a b \<longleftrightarrow> cn_ws a = cn_ws b \<and> cn_nodeId a = cn_nodeId b \<and> cn_plaintextAllowed a = cn_plaintextAllowed b \<and>
     (cn_link b \<longrightarrow> cn_link a)"

lemma sameShape_refl [simp]: "sameShape a a"
  by (simp add: sameShape_def)

lemma sock_ok_cong:
  "sock_ok s w k \<Longrightarrow> ns_nextConn s \<le> ns_nextConn t \<Longrightarrow> (\<And>c. c < ns_nextConn s \<Longrightarrow> sameShape (ns_conns s c) (ns_conns t c)) \<Longrightarrow>
   sock_ok t w k"
proof -
  assume a: "sock_ok s w k" "ns_nextConn s \<le> ns_nextConn t"
    "\<And>c. c < ns_nextConn s \<Longrightarrow> sameShape (ns_conns s c) (ns_conns t c)"
  obtain c where c: "sk_conn k = Some c" "c < ns_nextConn s" using a(1) by (auto simp: sock_ok_def)
  show ?thesis
    unfolding sock_ok_def
  proof (intro conjI exI [of _ c])
    show "c < ns_nextConn t" using a(2) c(2) by simp
  qed (use a(1) c a(3) [OF c(2)] in \<open>auto simp: sock_ok_def sameShape_def\<close>)
qed

lemma link_step:
  assumes inv: "link_inv s" and same: "ns_nextConn t = ns_nextConn s" "ns_socks t = ns_socks s"
    and shape: "\<And>c. c < ns_nextConn s \<Longrightarrow> sameShape (ns_conns s c) (ns_conns t c)"
    and live: "\<And>n c. getLive n t = Some c \<Longrightarrow> getLive n s = Some c"
    and held: "\<And>n c. getHeld n t = Some c \<Longrightarrow> getHeld n s = Some c \<or> c < ns_nextConn s \<and> cn_nodeId (ns_conns s c) = n"
    and staged: "\<And>c. c < ns_nextConn s \<Longrightarrow> staged_ok (ns_conns s c) \<Longrightarrow> staged_ok (ns_conns t c)"
    and log: "\<And>e. e \<in> set (ns_log t) \<Longrightarrow> e \<in> set (ns_log s) \<or> out_ok s e"
  shows "link_inv t"
proof (rule link_invI)
  show "sock_ok t w k" if "jget (ns_socks t) w = Some k" for w k
    using that same link_invD(1) [OF inv] sock_ok_cong [of s w k t] shape by simp
  show "\<exists>k. jget (ns_socks t) (cn_ws (ns_conns t c)) = Some k \<and> sk_conn k = Some c" if "c < ns_nextConn t" for c
    using that same link_invD(2) [OF inv, of c] shape [of c] by (simp add: sameShape_def)
  show "c < ns_nextConn t \<and> cn_nodeId (ns_conns t c) = n" if "getLive n t = Some c" for n c
    using live [OF that] same link_invD(3) [OF inv] shape by (metis sameShape_def)
  show "c < ns_nextConn t \<and> cn_nodeId (ns_conns t c) = n" if "getHeld n t = Some c" for n c
    using held [OF that] same link_invD(4) [OF inv] shape by (metis sameShape_def)
  show "staged_ok (ns_conns t c)" if "c < ns_nextConn t" for c
    using that same staged link_invD(5) [OF inv] by simp
  show "out_ok t e" if "e \<in> set (ns_log t)" for e
    using log [OF that] link_invD(6) [OF inv] out_ok_mono [OF sameSocks_eq [OF same(2)]] by blast
qed

lemma link_emit: "link_inv s \<Longrightarrow> out_ok s e \<Longrightarrow> link_inv (logOut e s)"
  by (rule link_step) (auto simp: logOut_def getLive_def getHeld_def)

lemma link_updConn:
  "link_inv s \<Longrightarrow> sameShape (ns_conns s c) (f (ns_conns s c)) \<Longrightarrow>
   (staged_ok (ns_conns s c) \<Longrightarrow> staged_ok (f (ns_conns s c))) \<Longrightarrow> link_inv (updConn c f s)"
  by (rule link_step) (auto simp: updConn_def getLive_def getHeld_def)

lemma link_jdel:
  "link_inv s \<Longrightarrow> link_inv (s\<lparr>ns_live := jdel n (ns_live s)\<rparr>)"
  "link_inv s \<Longrightarrow> link_inv (s\<lparr>ns_held := jdel n (ns_held s)\<rparr>)"
  by (rule link_step; auto simp: getLive_def getHeld_def split: if_split_asm)+

text \<open>The simple operations.\<close>

lemma link_closeConn: "link_inv s \<Longrightarrow> link_inv (closeConn c code s)"
  unfolding closeConn_def
  by (intro link_emit link_updConn) (auto simp: sameShape_def staged_ok_def)

lemma link_detach: "link_inv s \<Longrightarrow> link_inv (detachConnection n w s)"
  unfolding detachConnection_def by (auto split: option.split intro: link_jdel)

lemma link_supersede: "link_inv s \<Longrightarrow> link_inv (supersedeHeld n P s)"
  unfolding supersedeHeld_def by (auto split: option.split intro: link_closeConn link_jdel)

lemma link_release: "link_inv s \<Longrightarrow> link_inv (releaseHeld n c s)"
  unfolding releaseHeld_def by (auto intro: link_jdel)

lemma link_settle: "link_inv s \<Longrightarrow> link_inv (answer j a s)"
  unfolding answer_def by (rule link_emit) auto

lemma link_dropPending: "link_inv s \<Longrightarrow> link_inv (dropPending c j s)"
  unfolding dropPending_def by (rule link_updConn) (auto simp: sameShape_def staged_ok_def)

lemma link_idle: "link_inv s \<Longrightarrow> link_inv (setStage c Waiting s)"
  unfolding setStage_def by (rule link_updConn) (auto simp: sameShape_def staged_ok_def)

lemma link_failStep: "link_inv s \<Longrightarrow> link_inv (failStep c j a s)"
  unfolding failStep_def by (intro link_settle link_dropPending link_idle)

lemma link_offline: "link_inv s \<Longrightarrow> link_inv (projectNodeOffline n s)"
  unfolding projectNodeOffline_def by (rule link_emit) auto

lemma link_settles: "link_inv s \<Longrightarrow> link_inv (fold (\<lambda>j. answer j a) js s)"
  by (induction js arbitrary: s) (auto intro: link_settle)

lemma link_failConn: "link_inv s \<Longrightarrow> link_inv (failConnPendings c s)"
  unfolding failConnPendings_def
  by (intro link_settles link_updConn) (auto simp: sameShape_def staged_ok_def)

lemma link_resolve: "link_inv s \<Longrightarrow> link_inv (resolveResult c ref ok err s)"
  unfolding resolveResult_def by (auto intro: link_settle link_dropPending)

lemma link_expire: "link_inv s \<Longrightarrow> link_inv (expire c j s)"
  unfolding expire_def by (auto intro: link_settle link_dropPending)

lemma link_sendCommand: "link_inv s \<Longrightarrow> link_inv (sendCommand n cmd s)"
proof -
  assume s: "link_inv s"
  have "link_inv (s\<lparr>ns_nextJti := Suc (ns_nextJti s)\<rparr>)"
    by (rule link_step [OF s]) (auto simp: getLive_def getHeld_def)
  then show ?thesis
    unfolding sendCommand_def Let_def
    by (auto intro!: link_settle link_updConn simp: sameShape_def staged_ok_def split: option.split)
qed

lemma link_hold:
  assumes "link_inv s" "c < ns_nextConn s" "cn_nodeId (ns_conns s c) = n"
  shows "link_inv (holdSocket n c reason s)"
proof -
  let ?t = "supersedeHeld n (\<lambda>p. p \<noteq> c) (detachConnection n (cn_ws (ns_conns s c)) s)"
  have t: "link_inv ?t" by (intro link_supersede link_detach assms(1))
  have "ns_nextConn ?t = ns_nextConn s" "cn_nodeId (ns_conns ?t c) = cn_nodeId (ns_conns s c)"
    by (auto simp: supersedeHeld_def detachConnection_def closeConn_def logOut_def updConn_def split: option.split)
  then have "link_inv (?t\<lparr>ns_held := jset n \<lparr>hd_conn = c, hd_reason = reason\<rparr> (ns_held ?t)\<rparr>)"
    by (intro link_step [OF t]) (use assms(2,3) in \<open>auto simp: getLive_def getHeld_def split: if_split_asm\<close>)
  then show ?thesis
    unfolding holdSocket_def holdConnection_def Let_def by (intro link_emit) auto
qed

lemma link_disconnect: "link_inv s \<Longrightarrow> link_inv (snd (disconnectNode n code only s))"
  by (auto simp: disconnectNode_def Let_def split: option.split prod.split
      intro!: link_offline link_detach link_closeConn link_jdel)


section \<open>Sockets\<close>

lemma link_setSock:
  assumes s: "link_inv s" and k: "jget (ns_socks s) w = Some k" and k': "sock_ok s w k'" "sk_conn k' = sk_conn k"
    "ld_mode (sk_data k') = ld_mode (sk_data k)"
    "ld_phase (sk_data k) = Established \<Longrightarrow> ld_phase (sk_data k') = Established"
  shows "link_inv (setSock w k' s)"
proof (rule link_invI)
  let ?t = "setSock w k' s"
  have same: "ns_conns ?t = ns_conns s" "ns_nextConn ?t = ns_nextConn s" "ns_log ?t = ns_log s"
    "getLive n ?t = getLive n s" "getHeld n ?t = getHeld n s" for n
    by (simp_all add: setSock_def getLive_def getHeld_def)
  show "sock_ok ?t v j" if "jget (ns_socks ?t) v = Some j" for v j
  proof -
    have "sock_ok s v j" using that k'(1) link_invD(1) [OF s] by (auto simp: setSock_def split: if_split_asm)
    then show ?thesis by (rule sock_ok_cong) (simp_all add: same)
  qed
  show "\<exists>j. jget (ns_socks ?t) (cn_ws (ns_conns ?t c)) = Some j \<and> sk_conn j = Some c" if "c < ns_nextConn ?t" for c
    using link_invD(2) [OF s, of c] that k k'(2) same by (auto simp: setSock_def)
  show "c < ns_nextConn ?t \<and> cn_nodeId (ns_conns ?t c) = n" if "getLive n ?t = Some c" for n c
    using that same link_invD(3) [OF s] by simp
  show "c < ns_nextConn ?t \<and> cn_nodeId (ns_conns ?t c) = n" if "getHeld n ?t = Some c" for n c
    using that same link_invD(4) [OF s] by simp
  show "staged_ok (ns_conns ?t c)" if "c < ns_nextConn ?t" for c
    using that same link_invD(5) [OF s] by simp
  have "sameSocks s ?t" using k k' by (auto simp: sameSocks_def setSock_def)
  then show "out_ok ?t e" if "e \<in> set (ns_log ?t)" for e
    using that same(3) link_invD(6) [OF s, of e] out_ok_mono [of s ?t e] by simp
qed

lemma link_established:
  assumes s: "link_inv s" and k: "jget (ns_socks s) w = Some k" "sk_conn k = Some c" "ld_mode (sk_data k) = Handshake"
    "ld_phase (sk_data k) = Established"
  shows "link_inv (updConn c (cn_link_update (\<lambda>_. True)) s)"
proof (rule link_invI)
  let ?t = "updConn c (cn_link_update (\<lambda>_. True)) s"
  have same: "ns_socks ?t = ns_socks s" "ns_nextConn ?t = ns_nextConn s" "ns_log ?t = ns_log s"
    "getLive n ?t = getLive n s" "getHeld n ?t = getHeld n s" "cn_ws (ns_conns ?t e) = cn_ws (ns_conns s e)"
    "cn_nodeId (ns_conns ?t e) = cn_nodeId (ns_conns s e)" for n e
    by (simp_all add: updConn_def getLive_def getHeld_def)
  have "cn_ws (ns_conns s c) = w" using link_invD(1) [OF s k(1)] k(2) by (auto simp: sock_ok_def)
  then show "sock_ok ?t v j" if "jget (ns_socks ?t) v = Some j" for v j
    using that link_invD(1) [OF s, of v j] k by (auto simp: sock_ok_def updConn_def)
  show "\<exists>j. jget (ns_socks ?t) (cn_ws (ns_conns ?t e)) = Some j \<and> sk_conn j = Some e" if "e < ns_nextConn ?t" for e
    using link_invD(2) [OF s, of e] that same by simp
  show "e < ns_nextConn ?t \<and> cn_nodeId (ns_conns ?t e) = n" if "getLive n ?t = Some e" for n e
    using that same link_invD(3) [OF s] by simp
  show "e < ns_nextConn ?t \<and> cn_nodeId (ns_conns ?t e) = n" if "getHeld n ?t = Some e" for n e
    using that same link_invD(4) [OF s] by simp
  show "staged_ok (ns_conns ?t e)" if "e < ns_nextConn ?t" for e
    using that same link_invD(5) [OF s, of e] by (auto simp: updConn_def staged_ok_def)
  show "out_ok ?t e" if "e \<in> set (ns_log ?t)" for e
    using that same link_invD(6) [OF s] out_ok_mono [OF sameSocks_eq] by metis
qed

text \<open>A fresh socket gets a fresh connection.\<close>

lemma attach_fresh:
  assumes s: "link_inv s" and w: "jget (ns_socks s) w = None"
    and u: "u = supersedeHeld n (\<lambda>c. cn_ws (ns_conns s c) \<noteq> w) s"
  shows "\<exists>t. (t = u \<or> (\<exists>c. t = closeConn c NODE_CLOSE_SUPERSEDED u)) \<and> link_inv t \<and> ns_socks t = ns_socks s \<and>
    attachConnection n w s =
      (ns_nextConn t, t\<lparr>ns_conns := (ns_conns t)(ns_nextConn t := newConn n w), ns_nextConn := Suc (ns_nextConn t),
         ns_live := jset n (ns_nextConn t) (ns_live t)\<rparr>)"
proof -
  have i: "link_inv u" unfolding u by (rule link_supersede [OF s])
  have same: "ns_socks u = ns_socks s" "ns_nextConn u = ns_nextConn s"
    unfolding u by (auto simp: supersedeHeld_def closeConn_def logOut_def updConn_def split: option.split)
  show ?thesis
  proof (cases "getLive n u")
    case None
    then show ?thesis using i same u by (intro exI [of _ u]) (simp add: attachConnection_def Let_def)
  next
    case (Some c)
    then have "c < ns_nextConn u" using link_invD(3) [OF i] by blast
    then have "cn_ws (ns_conns u c) \<noteq> w" using link_invD(2) [OF i, of c] same w by auto
    then show ?thesis
      using Some u same link_closeConn [OF i]
      by (intro exI [of _ "closeConn c NODE_CLOSE_SUPERSEDED u"])
         (auto simp: attachConnection_def Let_def closeConn_def logOut_def updConn_def)
  qed
qed

lemma link_open: "link_inv s \<Longrightarrow> link_inv (handleNodeOpen w n key pin s)"
proof (cases "jget (ns_socks s) w = None")
  case False
  then show "link_inv s \<Longrightarrow> ?thesis" by (simp add: handleNodeOpen_def)
next
  case True
  assume s: "link_inv s"
  obtain t where t: "link_inv t" "ns_socks t = ns_socks s"
    and a: "attachConnection n w s = (ns_nextConn t,
        t\<lparr>ns_conns := (ns_conns t)(ns_nextConn t := newConn n w), ns_nextConn := Suc (ns_nextConn t),
          ns_live := jset n (ns_nextConn t) (ns_live t)\<rparr>)"
    using attach_fresh [OF s True refl, of n] by blast
  let ?c = "ns_nextConn t" and ?o = "handleNodeOpen w n key pin s"
  let ?k = "\<lparr>sk_data = \<lparr>ld_nodeId = n, ld_apiKeyId = key, ld_mode = beginLinkUpgrade pin, ld_pin = pin, ld_phase = AwaitingKx,
             ld_session = None\<rparr>, sk_conn = Some ?c, sk_stage = Idle\<rparr>"
  let ?cn = "(newConn n w)\<lparr>cn_plaintextAllowed := Some (beginLinkUpgrade pin = Legacy)\<rparr>"
  have o: "?o = t\<lparr>ns_conns := (ns_conns t)(?c := ?cn), ns_nextConn := Suc ?c,
                  ns_live := jset n ?c (ns_live t), ns_socks := jset w ?k (ns_socks t)\<rparr>"
    using True a by (simp add: handleNodeOpen_def Let_def setSock_def updConn_def)
  have free: "jget (ns_socks t) w = None" using True t(2) by simp
  show ?thesis
  proof (rule link_invI)
    show "sock_ok ?o v j" if "jget (ns_socks ?o) v = Some j" for v j
    proof (cases "v = w")
      case True
      then show ?thesis using that unfolding o by (auto simp: sock_ok_def newConn_def)
    next
      case False
      then have "sock_ok t v j" using that link_invD(1) [OF t(1)] unfolding o by simp
      then show ?thesis by (rule sock_ok_cong) (simp_all add: o)
    qed
    show "\<exists>j. jget (ns_socks ?o) (cn_ws (ns_conns ?o c)) = Some j \<and> sk_conn j = Some c" if "c < ns_nextConn ?o" for c
    proof (cases "c = ?c")
      case True
      then show ?thesis unfolding o by (simp add: newConn_def)
    next
      case False
      then show ?thesis
        using link_invD(2) [OF t(1), of c] that free unfolding o by (auto simp: less_Suc_eq)
    qed
    show "c < ns_nextConn ?o \<and> cn_nodeId (ns_conns ?o c) = m" if "getLive m ?o = Some c" for m c
      using that link_invD(3) [OF t(1), of m c] unfolding o
      by (auto simp: getLive_def newConn_def split: if_split_asm)
    show "c < ns_nextConn ?o \<and> cn_nodeId (ns_conns ?o c) = m" if "getHeld m ?o = Some c" for m c
      using that link_invD(4) [OF t(1), of m c] unfolding o by (auto simp: getHeld_def)
    show "staged_ok (ns_conns ?o c)" if "c < ns_nextConn ?o" for c
      using that link_invD(5) [OF t(1), of c] unfolding o by (auto simp: staged_ok_def newConn_def less_Suc_eq)
    have "sameSocks t ?o" using free unfolding o by (auto simp: sameSocks_def)
    then show "out_ok ?o e" if "e \<in> set (ns_log ?o)" for e
      using that link_invD(6) [OF t(1), of e] out_ok_mono [of t ?o e] unfolding o by simp
  qed
qed

lemma link_advance: "link_inv s \<Longrightarrow> c < ns_nextConn s \<Longrightarrow> link_inv (advance c l s)"
proof -
  assume s: "link_inv s" and c: "c < ns_nextConn s"
  let ?cn = "ns_conns s c"
  obtain k where k: "jget (ns_socks s) (cn_ws ?cn) = Some k" "sk_conn k = Some c" using link_invD(2) [OF s c] by blast
  have ok: "cn_plaintextAllowed ?cn = Some (ld_mode (sk_data k) = Legacy)"
    "cn_link ?cn \<longrightarrow> ld_mode (sk_data k) = Handshake \<and> ld_phase (sk_data k) = Established"
    using link_invD(1) [OF s k(1)] k(2) by (auto simp: sock_ok_def)
  have st: "staged_ok ?cn" by (rule link_invD(5) [OF s c])
  show ?thesis
  proof (cases "cn_stage ?cn")
    case Waiting
    show ?thesis
    proof (cases "cn_chain ?cn")
      case Nil
      then show ?thesis using s Waiting by (simp add: advance_def)
    next
      case (Cons jc rest)
      obtain j cmd where jc: "jc = (j, cmd)" by fastforce
      let ?t = "updConn c (cn_chain_update (\<lambda>_. rest)) s"
      have t: "link_inv ?t" by (rule link_updConn [OF s]) (auto simp: sameShape_def staged_ok_def)
      have "link_inv (setStage c (Loading j cmd) ?t)" if "cn_link ?cn \<or> cn_plaintextAllowed ?cn \<noteq> Some False"
        unfolding setStage_def by (rule link_updConn [OF t]) (use that in \<open>auto simp: sameShape_def staged_ok_def updConn_def\<close>)
      then show ?thesis
        using Waiting Cons jc link_failStep [OF t] by (auto simp: advance_def Let_def)
    qed
  next
    case (Loading j cmd)
    let ?t = "updConn c (cn_seq_update Suc) s"
    have "link_inv ?t" by (rule link_updConn [OF s]) (auto simp: sameShape_def staged_ok_def)
    then have "link_inv (setStage c (Signing j cmd (Suc (cn_seq ?cn))) ?t)"
      unfolding setStage_def
      by (rule link_updConn) (use st Loading in \<open>auto simp: sameShape_def staged_ok_def updConn_def\<close>)
    then show ?thesis using Loading link_failStep [OF s] by (simp add: advance_def Let_def)
  next
    case (Signing j cmd q)
    let ?t = "updConn c (cn_pending_update (\<lambda>p. p @ [j])) (setStage c Waiting s)"
    have t: "link_inv ?t" by (intro link_updConn link_idle s) (auto simp: sameShape_def staged_ok_def)
    have socks: "ns_socks ?t = ns_socks s" by (simp add: updConn_def setStage_def)
    have "out_ok ?t (SentSealed (cn_ws ?cn) j q cmd)" if "cn_link ?cn"
      using that k ok socks by (auto simp: onLink_def)
    moreover have "out_ok ?t (SentPlain (cn_ws ?cn) j q cmd)" if "\<not> cn_link ?cn"
      using that st Signing k ok socks by (auto simp: unpaired_def staged_ok_def)
    ultimately show ?thesis
      using Signing link_failStep [OF s] link_failStep [OF t] link_emit [OF t] by (simp add: advance_def Let_def)
  qed
qed

section \<open>Frames\<close>

lemma link_frame_facts:
  assumes "handleLinkFrame env d f = (oc, d')"
  shows "ld_mode d' = ld_mode d" "ld_nodeId d' = ld_nodeId d" "ld_apiKeyId d' = ld_apiKeyId d" "ld_pin d' = ld_pin d"
    "ld_phase d = Established \<Longrightarrow> ld_phase d' = Established"
    "oc = Establish sealed h \<Longrightarrow> ld_mode d = Handshake \<and> ld_phase d' = Established"
    "oc = Forward g \<Longrightarrow> ld_mode d = Handshake \<and> ld_phase d' = Established \<or>
       ld_mode d = Legacy \<and> g = f \<and> (\<forall>t r. f = TextFrame t \<longrightarrow> lk_event env t = Some (ReadyEvent r) \<longrightarrow> \<not> wouldPass r)"
  using assms
  by (auto simp: handleLinkFrame_def handleHandshakeFrame_def handleLegacyFrame_def acceptKx_def completeBinding_def
      acceptRegister_def reProveNodeKey_def refuse_def Let_def
      split: link_mode.split_asm link_phase.split_asm link_frame.split_asm option.split_asm if_split_asm prod.split_asm
        json.split_asm node_event.split_asm)

lemma connOf_known: "link_inv s \<Longrightarrow> jget (ns_socks s) w = Some k \<Longrightarrow> sk_conn k' = sk_conn k \<Longrightarrow>
  \<exists>c. connOf k' s = Some c \<and> sk_conn k = Some c \<and> c < ns_nextConn s \<and> cn_nodeId (ns_conns s c) = ld_nodeId (sk_data k) \<and>
    cn_ws (ns_conns s c) = w"
  using link_invD(1) [of s w k] by (auto simp: sock_ok_def connOf_def)

lemma link_holdRefused:
  assumes "link_inv s" "jget (ns_socks s) w = Some k"
  shows "link_inv (holdRefusedNode w k reason s)"
  using connOf_known [OF assms, of k] link_hold [OF assms(1)] by (auto simp: holdRefusedNode_def)

lemma link_gate:
  assumes "link_inv s" "jget (ns_socks s) w = Some k" "onLink s w \<or> \<not> wouldPass r"
  shows "link_inv (gateReady w k r s)"
proof -
  have "onLink s w" if "nodeVersionSupported (rr_agentVersion r)" "rr_protocolVersion r = NODE_PROTOCOL_VERSION"
    using that assms(3) by (auto simp: wouldPass_def)
  then show ?thesis
    using link_holdRefused [OF assms(1,2)] link_emit [OF assms(1), of "Accepted w r"]
    by (auto simp: gateReady_def wouldPass_def)
qed

text \<open>An event is heard on the link, or on an unpaired socket where it would not pass the gates.\<close>

definition heard_ok :: "'s nodes_state \<Rightarrow> nat \<Rightarrow> node_event option \<Rightarrow> bool" where
  "heard_ok s w ev \<longleftrightarrow> onLink s w \<or> unpaired s w \<and> (\<forall>r. ev = Some (ReadyEvent r) \<longrightarrow> \<not> wouldPass r)"

lemma link_handleEvent:
  assumes s: "link_inv s" and k: "jget (ns_socks s) w = Some k" and ev: "heard_ok s w ev"
  shows "link_inv (handleEvent w k ev s)"
proof (cases ev)
  case None
  then show ?thesis using s by (simp add: handleEvent_def)
next
  case (Some e)
  show ?thesis
  proof (cases e)
    case (ReadyEvent r)
    have "sock_ok s w (k\<lparr>sk_stage := Applying r\<rparr>)"
      using link_invD(1) [OF s k] ev k Some ReadyEvent
      by (auto simp: sock_ok_def heard_ok_def onLink_def unpaired_def)
    then have "link_inv (setSock w (k\<lparr>sk_stage := Applying r\<rparr>) s)"
      by (intro link_setSock [OF s k]) simp_all
    then show ?thesis using Some ReadyEvent s by (simp add: handleEvent_def Let_def)
  next
    case (ResultEvent ref ok err)
    then show ?thesis
      using Some s link_resolve by (auto simp: handleEvent_def Let_def split: option.split)
  next
    case (OtherEvent j)
    have "link_inv (logOut (Acted w j) s)" using ev by (intro link_emit [OF s]) (auto simp: heard_ok_def)
    then show ?thesis using Some OtherEvent s by (simp add: handleEvent_def Let_def)
  qed
qed

lemma link_heard:
  assumes s: "link_inv s" and k0: "jget (ns_socks s) w = Some k0" and h: "handleLinkFrame env (sk_data k0) f = (oc, d)"
    and idle: "sk_stage k0 = Idle"
  shows "link_inv (setSock w (k0\<lparr>sk_data := d\<rparr>) s)"
proof -
  note F = link_frame_facts [OF h]
  have "sock_ok s w (k0\<lparr>sk_data := d\<rparr>)"
    using link_invD(1) [OF s k0] F(1,2,5) idle by (auto simp: sock_ok_def)
  then show ?thesis using F(1,5) by (intro link_setSock [OF s k0]) simp_all
qed

lemma link_message:
  assumes s: "link_inv s"
  shows "link_inv (handleNodeMessage env w n f s)"
proof (cases "jget (ns_socks s) w")
  case None
  then show ?thesis using s by (simp add: handleNodeMessage_def)
next
  case (Some k0)
  show ?thesis
  proof (cases "sk_stage k0 = Idle \<and> \<not> n > NODE_MAX_FRAME_BYTES")
    case False
    then show ?thesis using Some s link_emit [OF s] by (auto simp: handleNodeMessage_def)
  next
    case idle: True
    obtain oc d where h: "handleLinkFrame env (sk_data k0) f = (oc, d)" by fastforce
    note F = link_frame_facts [OF h]
    let ?k = "k0\<lparr>sk_data := d\<rparr>" and ?t = "setSock w (k0\<lparr>sk_data := d\<rparr>) s"
    have t: "link_inv ?t" by (rule link_heard [OF s Some h]) (use idle in simp)
    have k: "jget (ns_socks ?t) w = Some ?k" by (simp add: setSock_def)
    obtain c where c: "connOf ?k ?t = Some c" "sk_conn ?k = Some c" using connOf_known [OF t k refl] by auto
    have msg: "handleNodeMessage env w n f s =
      (case oc of
              Throw \<Rightarrow> ?t
            | Refuse code r \<Rightarrow> logOut (Closed w code) ?t
            | AnswerRegister key \<Rightarrow>
                logOut (Closed w 1000) (logOut (SentRegisterOk w) (logOut (PinWritten (ld_nodeId d) key) ?t))
            | Consumed \<Rightarrow> ?t
            | Establish sealed hold \<Rightarrow>
                let s = updConn c (cn_link_update (\<lambda>_. True)) (logOut (SentOk w sealed) ?t)
                in (case hold of None \<Rightarrow> s | Some v \<Rightarrow> setSock w (?k\<lparr>sk_stage := Holding (sk_conn ?k)\<rparr>) s)
            | HoldEncryptionRequired \<Rightarrow>
                (case (case f of TextFrame t \<Rightarrow> lk_event env t | BytesFrame _ \<Rightarrow> None) of
                   Some (ReadyEvent r) \<Rightarrow> holdRefusedNode w ?k EncryptionRequired ?t
                 | _ \<Rightarrow> logOut (Closed w NODE_CLOSE_HANDSHAKE_REQUIRED) ?t)
            | Forward g \<Rightarrow> handleEvent w ?k (case g of TextFrame t \<Rightarrow> lk_event env t | BytesFrame _ \<Rightarrow> None) ?t)"
      using Some idle h c by (simp add: handleNodeMessage_def connOf_def Let_def split: link_outcome.split option.split)
    show ?thesis
    proof (cases oc)
      case (Establish sealed hold)
      have up: "ld_mode d = Handshake" "ld_phase d = Established" using F(1,6) Establish by auto
      have "onLink ?t w" using k up by (simp add: onLink_def)
      then have e: "link_inv (logOut (SentOk w sealed) ?t)" by (intro link_emit [OF t]) simp
      let ?e = "updConn c (cn_link_update (\<lambda>_. True)) (logOut (SentOk w sealed) ?t)"
      have l: "link_inv ?e" using link_established [OF e, of w ?k c] k c(2) up by (simp add: logOut_def)
      have ek: "jget (ns_socks ?e) w = Some ?k" using k by (simp add: updConn_def logOut_def)
      have "sock_ok ?e w (?k\<lparr>sk_stage := Holding (sk_conn ?k)\<rparr>)"
        using link_invD(1) [OF l ek] by (auto simp: sock_ok_def)
      then have "link_inv (setSock w (?k\<lparr>sk_stage := Holding (sk_conn ?k)\<rparr>) ?e)"
        by (intro link_setSock [OF l ek]) simp_all
      then show ?thesis using l unfolding msg Establish by (simp add: Let_def split: option.split)
    next
      case (Forward g)
      have "heard_ok ?t w (case g of TextFrame t \<Rightarrow> lk_event env t | BytesFrame _ \<Rightarrow> None)"
        using F(7) [OF Forward] F(1) k by (auto simp: heard_ok_def onLink_def unpaired_def split: link_frame.split)
      then show ?thesis unfolding msg Forward by (auto intro: link_handleEvent [OF t k])
    next
      case (AnswerRegister key)
      then show ?thesis unfolding msg by (auto intro!: link_emit t)
    next
      case HoldEncryptionRequired
      then show ?thesis unfolding msg
        using link_holdRefused [OF t k] link_emit [OF t, of "Closed w NODE_CLOSE_HANDSHAKE_REQUIRED"]
        by (auto split: option.split node_event.split)
    qed (use t msg link_emit [OF t] in auto)
  qed
qed

lemma link_resume:
  assumes s: "link_inv s"
  shows "link_inv (resumeFrame w s)"
proof (cases "jget (ns_socks s) w")
  case None
  then show ?thesis using s by (simp add: resumeFrame_def)
next
  case (Some k0)
  let ?k = "k0\<lparr>sk_stage := Idle\<rparr>"
  let ?t = "setSock w ?k s"
  have ok: "sock_ok s w k0" by (rule link_invD(1) [OF s Some])
  then have "sock_ok s w ?k" by (auto simp: sock_ok_def)
  then have t: "link_inv ?t" by (intro link_setSock [OF s Some]) simp_all
  have k: "jget (ns_socks ?t) w = Some ?k" by (simp add: setSock_def)
  show ?thesis
  proof (cases "sk_stage k0")
    case Idle
    then show ?thesis using Some s by (simp add: resumeFrame_def Let_def)
  next
    case (Applying r)
    have heard: "onLink ?t w \<or> unpaired ?t w \<and> \<not> wouldPass r"
      using ok Applying k by (cases "ld_mode (sk_data k0)") (auto simp: sock_ok_def onLink_def unpaired_def)
    let ?e = "logOut (RowReady w r) ?t"
    have e: "link_inv ?e" by (intro link_emit [OF t]) (use heard in simp)
    have ek: "jget (ns_socks ?e) w = Some ?k" using k by (simp add: logOut_def)
    have heard': "onLink ?e w \<or> \<not> wouldPass r" using heard by (auto simp: onLink_def logOut_def)
    have "sock_ok ?e w (?k\<lparr>sk_stage := Gating r\<rparr>)"
      using link_invD(1) [OF e ek] ok Applying by (auto simp: sock_ok_def)
    then have "link_inv (setSock w (?k\<lparr>sk_stage := Gating r\<rparr>) ?e)" by (intro link_setSock [OF e ek]) simp_all
    then show ?thesis
      using Some Applying e link_gate [OF e ek heard'] link_offline [OF e] by (simp add: resumeFrame_def Let_def)
  next
    case (Gating r)
    have "onLink ?t w \<or> \<not> wouldPass r"
      using ok Gating k by (cases "ld_mode (sk_data k0)") (auto simp: sock_ok_def onLink_def)
    then show ?thesis using Some Gating link_gate [OF t k] by (simp add: resumeFrame_def Let_def)
  next
    case (Holding cid)
    obtain c where c: "cid = Some c" "c < ns_nextConn ?t" "cn_nodeId (ns_conns ?t c) = ld_nodeId (sk_data k0)"
      using ok Holding by (auto simp: sock_ok_def setSock_def)
    then show ?thesis using Some Holding link_hold [OF t c(2)] by (simp add: resumeFrame_def Let_def)
  qed
qed

lemma link_close: "link_inv s \<Longrightarrow> link_inv (handleNodeClose w s)"
  unfolding handleNodeClose_def
  by (auto simp: Let_def split: option.split intro!: link_emit link_failConn link_detach link_release)

lemma link_owner: "link_inv s \<Longrightarrow> link_inv (ownerChecked w b s)"
proof -
  assume s: "link_inv s"
  have "link_inv s'" if "disconnectNode n code only s = (ev, s')" for n code only ev s'
    using link_disconnect [OF s, of n code only] that by simp
  then show ?thesis
    using s unfolding ownerChecked_def by (auto simp: Let_def split: option.split prod.split intro: link_failConn)
qed

lemma link_deadline: "link_inv s \<Longrightarrow> link_inv (handshakeDeadline w s)"
  unfolding handshakeDeadline_def by (auto split: option.split intro: link_emit)

lemma link_heldIdle: "link_inv s \<Longrightarrow> link_inv (heldIdle n c s)"
  unfolding heldIdle_def by (auto intro!: link_emit link_jdel)

end
