(* ===== verification/NodeBooks.thy ===== *)
theory NodeBooks
  imports NodeSafety
begin

text \<open>
  The books of the nodes' commands: every command given out is settled once or is held by exactly one
  connection, in its queue, on its way, or waiting for its answer; and what a socket sends leaves in
  the order of the calls, under rising numbers.
\<close>

section \<open>Who holds a command\<close>

fun stageJtis :: "rpc_stage \<Rightarrow> nat list" where
  "stageJtis Waiting = []"
| "stageJtis (Loading j cmd) = [j]"
| "stageJtis (Signing j cmd q) = [j]"

definition queuedJtis :: "conn \<Rightarrow> nat list" where
  "queuedJtis cn = stageJtis (cn_stage cn) @ map fst (cn_chain cn)"

definition openJtis :: "conn \<Rightarrow> nat multiset" where
  "openJtis cn = mset (queuedJtis cn) + mset (cn_pending cn)"

fun settledBy :: "out \<Rightarrow> nat list" where
  "settledBy (Settled j a) = [j]"
| "settledBy e = []"

definition settledJtis :: "'s nodes_state \<Rightarrow> nat list" where
  "settledJtis s = concat (map settledBy (ns_log s))"

definition heldJtis :: "'s nodes_state \<Rightarrow> nat multiset" where
  "heldJtis s = (\<Sum>c<ns_nextConn s. openJtis (ns_conns s c))"

definition books :: "'s nodes_state \<Rightarrow> nat multiset" where
  "books s = mset (settledJtis s) + heldJtis s"

definition noneBeyond :: "'s nodes_state \<Rightarrow> bool" where
  "noneBeyond s \<longleftrightarrow> (\<forall>c \<ge> ns_nextConn s. openJtis (ns_conns s c) = {#})"

definition books_inv :: "'s nodes_state \<Rightarrow> bool" where
  "books_inv s \<longleftrightarrow> noneBeyond s \<and> books s = mset [0..<ns_nextJti s]"

lemma stageJtis_Nil [simp]: "stageJtis st = [] \<longleftrightarrow> st = Waiting"
  by (cases st) auto

lemma openJtis_empty: "openJtis cn = {#} \<longleftrightarrow> cn_stage cn = Waiting \<and> cn_chain cn = [] \<and> cn_pending cn = []"
  by (auto simp: openJtis_def queuedJtis_def)

lemma quietD:
  "noneBeyond s \<Longrightarrow> \<not> c < ns_nextConn s \<Longrightarrow>
   cn_stage (ns_conns s c) = Waiting \<and> cn_chain (ns_conns s c) = [] \<and> cn_pending (ns_conns s c) = []"
  unfolding noneBeyond_def openJtis_empty by simp

section \<open>What was sent on a socket\<close>

fun sentOn :: "nat \<Rightarrow> out \<Rightarrow> (nat \<times> nat) list" where
  "sentOn w (SentPlain v j q cmd) = (if v = w then [(j, q)] else [])"
| "sentOn w (SentSealed v j q cmd) = (if v = w then [(j, q)] else [])"
| "sentOn w e = []"

definition sentFrames :: "nat \<Rightarrow> 's nodes_state \<Rightarrow> (nat \<times> nat) list" where
  "sentFrames w s = concat (map (sentOn w) (ns_log s))"

text \<open>A step that sends nothing and leaves every queue alone, and one that moves no command at all.\<close>

definition sameQueue :: "conn \<Rightarrow> conn \<Rightarrow> bool" where
  "sameQueue a b \<longleftrightarrow> cn_ws b = cn_ws a \<and> cn_seq b = cn_seq a \<and> cn_stage b = cn_stage a \<and> cn_chain b = cn_chain a"

definition steady :: "'s nodes_state \<Rightarrow> 's nodes_state \<Rightarrow> bool" where
  "steady s t \<longleftrightarrow>
     ns_nextJti t = ns_nextJti s \<and> ns_nextConn t = ns_nextConn s \<and> (\<forall>w. sentFrames w t = sentFrames w s) \<and>
     (\<forall>c. sameQueue (ns_conns s c) (ns_conns t c))"

definition calm :: "'s nodes_state \<Rightarrow> 's nodes_state \<Rightarrow> bool" where
  "calm s t \<longleftrightarrow>
     steady s t \<and> settledJtis t = settledJtis s \<and> (\<forall>c. cn_pending (ns_conns t c) = cn_pending (ns_conns s c))"

lemma calm_refl [simp]: "calm s s"
  by (simp add: calm_def steady_def sameQueue_def)

lemma steady_trans: "steady s t \<Longrightarrow> steady t u \<Longrightarrow> steady s u"
  by (simp add: steady_def sameQueue_def)

lemma calm_trans: "calm s t \<Longrightarrow> calm t u \<Longrightarrow> calm s u"
  using steady_trans [of s t u] by (simp add: calm_def)

lemma calm_steady: "calm s t \<Longrightarrow> steady s t"
  by (simp add: calm_def)

lemma calm_open_eq: "calm s t \<Longrightarrow> openJtis (ns_conns t c) = openJtis (ns_conns s c)"
  by (simp add: calm_def steady_def sameQueue_def openJtis_def queuedJtis_def)

lemma books_calm: "books_inv s \<Longrightarrow> calm s t \<Longrightarrow> books_inv t"
proof -
  assume s: "books_inv s" and c: "calm s t"
  have same: "ns_nextJti t = ns_nextJti s" "ns_nextConn t = ns_nextConn s" "settledJtis t = settledJtis s"
    using c by (simp_all add: calm_def steady_def)
  show ?thesis
    using s by (simp add: books_inv_def books_def noneBeyond_def heldJtis_def same calm_open_eq [OF c])
qed

lemma steady_emit: "(\<And>w. sentOn w e = []) \<Longrightarrow> steady s (logOut e s)"
  by (simp add: steady_def sameQueue_def logOut_def sentFrames_def)

lemma calm_emit: "settledBy e = [] \<Longrightarrow> (\<And>w. sentOn w e = []) \<Longrightarrow> calm s (logOut e s)"
  using steady_emit [of e s] by (simp add: calm_def logOut_def settledJtis_def)

lemma steady_updConn: "sameQueue (ns_conns s c) (f (ns_conns s c)) \<Longrightarrow> steady s (updConn c f s)"
  by (simp add: steady_def sameQueue_def updConn_def sentFrames_def)

lemma calm_updConn:
  "sameQueue (ns_conns s c) (f (ns_conns s c)) \<Longrightarrow> cn_pending (f (ns_conns s c)) = cn_pending (ns_conns s c) \<Longrightarrow>
   calm s (updConn c f s)"
  using steady_updConn [of s c f] by (simp add: calm_def updConn_def settledJtis_def)

lemma calm_maps: "calm s (s\<lparr>ns_live := x\<rparr>)" "calm s (s\<lparr>ns_held := y\<rparr>)" "calm s (setSock w k s)"
  by (simp_all add: calm_def steady_def sameQueue_def sentFrames_def settledJtis_def setSock_def)

lemma calm_closeConn: "calm s (closeConn c code s)"
  unfolding closeConn_def
  by (rule calm_trans [OF calm_updConn calm_emit]) (simp_all add: sameQueue_def)

lemma calm_detach: "calm s (detachConnection n w s)"
  by (auto simp: detachConnection_def calm_maps split: option.split)

lemma calm_supersede: "calm s (supersedeHeld n P s)"
  by (auto simp: supersedeHeld_def split: option.split intro: calm_trans [OF calm_maps(2) calm_closeConn])

lemma calm_release: "calm s (releaseHeld n c s)"
  by (simp add: releaseHeld_def calm_maps)

lemma calm_holdSocket: "calm s (holdSocket n c r s)"
  unfolding holdSocket_def holdConnection_def Let_def
  by (rule calm_trans [OF calm_detach calm_trans [OF calm_supersede calm_trans [OF calm_maps(2) calm_emit]]]) simp_all

lemma calm_offline: "calm s (projectNodeOffline n s)"
  unfolding projectNodeOffline_def by (rule calm_emit) simp_all

lemma calm_disconnect: "calm s (snd (disconnectNode n code only s))"
proof -
  have a: "calm s (closeConn c code (s\<lparr>ns_held := x\<rparr>))" for c x s
    by (rule calm_trans [OF calm_maps(2) calm_closeConn])
  have b: "calm s t \<Longrightarrow> calm s (detachConnection n w (closeConn c code t))" for w c s t
    by (rule calm_trans [OF _ calm_trans [OF calm_closeConn calm_detach]])
  have c: "calm s t \<Longrightarrow> calm s (projectNodeOffline n t)" for s t
    by (rule calm_trans [OF _ calm_offline])
  show ?thesis
    by (auto simp: disconnectNode_def Let_def split: option.split prod.split intro!: a b c)
qed

text \<open>A fresh socket: a calm step, then the new connection.\<close>

lemma open_calm:
  assumes "link_inv s" "jget (ns_socks s) w = None"
  shows "\<exists>t. calm s t \<and>
    handleNodeOpen w n key pin s =
      t\<lparr>ns_conns := (ns_conns t)(ns_nextConn t := (newConn n w)\<lparr>cn_plaintextAllowed := Some (beginLinkUpgrade pin = Legacy)\<rparr>),
        ns_nextConn := Suc (ns_nextConn t), ns_live := jset n (ns_nextConn t) (ns_live t),
        ns_socks := jset w \<lparr>sk_data = \<lparr>ld_nodeId = n, ld_apiKeyId = key, ld_mode = beginLinkUpgrade pin, ld_pin = pin,
          ld_phase = AwaitingKx, ld_session = None\<rparr>, sk_conn = Some (ns_nextConn t), sk_stage = Idle\<rparr> (ns_socks t)\<rparr>"
proof -
  let ?u = "supersedeHeld n (\<lambda>c. cn_ws (ns_conns s c) \<noteq> w) s"
  obtain t where "t = ?u \<or> (\<exists>c. t = closeConn c NODE_CLOSE_SUPERSEDED ?u)" and a: "attachConnection n w s =
      (ns_nextConn t, t\<lparr>ns_conns := (ns_conns t)(ns_nextConn t := newConn n w), ns_nextConn := Suc (ns_nextConn t),
         ns_live := jset n (ns_nextConn t) (ns_live t)\<rparr>)"
    using attach_fresh [OF assms refl, of n] by blast
  then have t: "calm s t" using calm_supersede calm_trans [OF calm_supersede calm_closeConn] by blast
  show ?thesis using assms(2) t a by (intro exI [of _ t]) (simp add: handleNodeOpen_def Let_def setSock_def updConn_def)
qed

lemma books_open:
  assumes s: "books_inv s" and l: "link_inv s"
  shows "books_inv (handleNodeOpen w n key pin s)"
proof (cases "jget (ns_socks s) w = None")
  case True
  let ?new = "(newConn n w)\<lparr>cn_plaintextAllowed := Some (beginLinkUpgrade pin = Legacy)\<rparr>"
  obtain t socks where t: "calm s t" and o: "handleNodeOpen w n key pin s =
      t\<lparr>ns_conns := (ns_conns t)(ns_nextConn t := ?new), ns_nextConn := Suc (ns_nextConn t),
        ns_live := jset n (ns_nextConn t) (ns_live t), ns_socks := socks\<rparr>"
    using open_calm [OF l True, of n key pin] by blast
  have b: "books_inv t" by (rule books_calm [OF s t])
  have e: "openJtis ?new = {#}" by (simp add: openJtis_empty newConn_def)
  have "heldJtis (handleNodeOpen w n key pin s) = heldJtis t"
    by (simp add: o heldJtis_def e sum.lessThan_Suc)
  then show ?thesis
    using b e by (simp add: books_inv_def books_def settledJtis_def noneBeyond_def o)
qed (use s in \<open>simp add: handleNodeOpen_def\<close>)

lemma calm_after: "calm s t \<Longrightarrow> settledBy e = [] \<Longrightarrow> (\<And>w. sentOn w e = []) \<Longrightarrow> calm s (logOut e t)"
  by (rule calm_trans [OF _ calm_emit])

lemma calm_holdRefused: "calm s (holdRefusedNode w k r s)"
  by (auto simp: holdRefusedNode_def split: option.split intro: calm_emit calm_holdSocket)

lemma calm_gate: "calm s (gateReady w k r s)"
  by (simp add: gateReady_def calm_holdRefused calm_emit)

lemma calm_resume: "calm s (resumeFrame w s)"
proof -
  have a: "calm s t \<Longrightarrow> calm s (projectNodeOffline n t)" "calm s t \<Longrightarrow> calm s (setSock w k t)" 
    "calm s t \<Longrightarrow> calm s (gateReady w k r t)" "calm s t \<Longrightarrow> calm s (holdSocket n c h t)" for n t k r c h
    using calm_trans calm_offline calm_maps(3) calm_gate calm_holdSocket by blast+
  show ?thesis
    by (auto simp: resumeFrame_def Let_def split: option.split frame_stage.split intro!: a calm_after)
qed

lemma calm_heldIdle: "calm s (heldIdle n c s)"
  by (auto simp: heldIdle_def intro!: calm_after calm_maps)

lemma calm_deadline: "calm s (handshakeDeadline w s)"
  by (auto simp: handshakeDeadline_def split: option.split intro: calm_emit)

section \<open>The moves of a command\<close>

lemma books_settle: "books (answer j a s) = add_mset j (books s)"
  by (simp add: books_def answer_def logOut_def settledJtis_def heldJtis_def)

lemma books_updConn:
  assumes "c < ns_nextConn s"
  shows "books (updConn c f s) + openJtis (ns_conns s c) = books s + openJtis (f (ns_conns s c))"
proof -
  have "heldJtis (updConn c f s) = openJtis (f (ns_conns s c)) + (\<Sum>e\<in>{..<ns_nextConn s} - {c}. openJtis (ns_conns s e))"
    using assms by (simp add: heldJtis_def updConn_def sum.remove [of _ c])
  moreover have "heldJtis s = openJtis (ns_conns s c) + (\<Sum>e\<in>{..<ns_nextConn s} - {c}. openJtis (ns_conns s e))"
    using assms by (simp add: heldJtis_def sum.remove [of _ c])
  ultimately show ?thesis by (simp add: books_def settledJtis_def updConn_def)
qed

lemma quiet_updConn: "noneBeyond s \<Longrightarrow> c < ns_nextConn s \<Longrightarrow> noneBeyond (updConn c f s)"
  by (simp add: noneBeyond_def updConn_def)

lemma books_distinct:
  assumes "books_inv s" "c < ns_nextConn s"
  shows "distinct (queuedJtis (ns_conns s c) @ cn_pending (ns_conns s c))"
proof -
  let ?xs = "queuedJtis (ns_conns s c) @ cn_pending (ns_conns s c)"
  have "openJtis (ns_conns s c) \<subseteq># heldJtis s"
    unfolding heldJtis_def using assms(2) by (simp add: sum.remove [of _ c])
  also have "heldJtis s \<subseteq># books s" by (simp add: books_def)
  also have "books s = mset [0..<ns_nextJti s]" using assms(1) by (simp add: books_inv_def)
  finally have "mset ?xs \<subseteq># mset [0..<ns_nextJti s]" by (simp add: openJtis_def)
  then show ?thesis by (rule mset_subset_distinct) simp
qed

lemma mset_drop: "distinct xs \<Longrightarrow> j \<in> set xs \<Longrightarrow> add_mset j (mset (filter (\<lambda>i. i \<noteq> j) xs)) = mset xs"
proof (induction xs)
  case (Cons x xs)
  have "j \<notin> set xs \<Longrightarrow> filter (\<lambda>i. i \<noteq> j) xs = xs" by (auto simp: filter_id_conv)
  then show ?case using Cons by (auto simp: add_mset_commute simp del: mset_filter)
qed simp

text \<open>A connection settles one command it holds.\<close>

lemma books_move:
  assumes s: "books_inv s" and c: "c < ns_nextConn s"
    and f: "add_mset j (openJtis (f (ns_conns s c))) = openJtis (ns_conns s c)"
  shows "books_inv (answer j a (updConn c f s))"
proof -
  have "books (answer j a (updConn c f s)) = books s"
    using books_updConn [OF c, of f] unfolding books_settle f [symmetric] by simp
  then show ?thesis
    using s quiet_updConn [OF _ c] by (simp add: books_inv_def answer_def logOut_def updConn_def noneBeyond_def)
qed

lemma updConn_updConn: "updConn c f (updConn c g s) = updConn c (\<lambda>x. f (g x)) s"
  by (simp add: updConn_def)

lemma books_pending:
  assumes s: "books_inv s" and j: "j \<in> set (cn_pending (ns_conns s c))"
  shows "books_inv (answer j a (dropPending c j s))"
proof -
  have c: "c < ns_nextConn s"
  proof (rule ccontr)
    assume "\<not> c < ns_nextConn s"
    then show False using quietD [of s c] s j by (simp add: books_inv_def)
  qed
  have "distinct (cn_pending (ns_conns s c))" using books_distinct [OF s c] by simp
  then show ?thesis
    unfolding dropPending_def using mset_drop [OF _ j]
    by (intro books_move [OF s c]) (simp add: openJtis_def queuedJtis_def flip: union_mset_add_mset_right)
qed

lemma books_resolve: "books_inv s \<Longrightarrow> books_inv (resolveResult c ref ok err s)"
  unfolding resolveResult_def using books_pending by auto

lemma books_expire: "books_inv s \<Longrightarrow> books_inv (expire c j s)"
  unfolding expire_def using books_pending by auto

lemma books_settles: "books (fold (\<lambda>j. answer j a) js s) = books s + mset js"
  by (induction js arbitrary: s) (simp_all add: books_settle)

lemma fold_settle_same:
  "ns_nextConn (fold (\<lambda>j. answer j a) js s) = ns_nextConn s" "ns_conns (fold (\<lambda>j. answer j a) js s) = ns_conns s"
  "ns_nextJti (fold (\<lambda>j. answer j a) js s) = ns_nextJti s" "ns_socks (fold (\<lambda>j. answer j a) js s) = ns_socks s"
  by (induction js arbitrary: s) (simp_all add: answer_def logOut_def)

lemma bag_move: "after + M = (before :: 'a multiset) \<Longrightarrow> b + before = a + after \<Longrightarrow> b + M = a"
proof -
  assume "after + M = before" "b + before = a + after"
  then have "(b + M) + after = a + after" by (auto simp: ac_simps)
  then show ?thesis by (rule add_right_imp_eq)
qed

lemma books_failConn:
  assumes s: "books_inv s"
  shows "books_inv (failConnPendings c s)"
proof (cases "c < ns_nextConn s")
  case True
  let ?u = "updConn c (cn_pending_update (\<lambda>_. [])) s"
  have "openJtis (cn_pending_update (\<lambda>_. []) (ns_conns s c)) + mset (cn_pending (ns_conns s c)) = openJtis (ns_conns s c)"
    by (simp add: openJtis_def queuedJtis_def)
  then have "books ?u + mset (cn_pending (ns_conns s c)) = books s"
    using books_updConn [OF True, of "cn_pending_update (\<lambda>_. [])"] by (rule bag_move)
  then have "books (failConnPendings c s) = books s" unfolding failConnPendings_def books_settles .
  moreover have "noneBeyond (failConnPendings c s)"
    using quiet_updConn [of s c "cn_pending_update (\<lambda>_. [])"] s True
    by (simp add: books_inv_def failConnPendings_def fold_settle_same noneBeyond_def)
  moreover have "ns_nextJti (failConnPendings c s) = ns_nextJti s"
    by (simp add: failConnPendings_def fold_settle_same updConn_def)
  ultimately show ?thesis using s by (simp add: books_inv_def)
next
  case False
  then have p: "cn_pending (ns_conns s c) = []" using quietD s by (auto simp: books_inv_def)
  then have "calm s (failConnPendings c s)"
    unfolding failConnPendings_def by (simp add: calm_updConn sameQueue_def)
  then show ?thesis by (rule books_calm [OF s])
qed

lemma books_sendCommand:
  assumes s: "books_inv s" and live: "\<And>m c. getLive m s = Some c \<or> getHeld m s = Some c \<Longrightarrow> c < ns_nextConn s"
  shows "books_inv (sendCommand n cmd s)"
proof -
  let ?s = "s\<lparr>ns_nextJti := Suc (ns_nextJti s)\<rparr>" and ?j = "ns_nextJti s"
  have b: "books ?s = books s" by (simp add: books_def settledJtis_def heldJtis_def)
  have q: "noneBeyond ?s" using s by (simp add: books_inv_def noneBeyond_def)
  have off: "books_inv (answer ?j Offline ?s)"
    using s q books_settle [of ?j Offline ?s] b by (simp add: books_inv_def answer_def logOut_def noneBeyond_def)
  have on: "books_inv (updConn c (cn_chain_update (\<lambda>q. q @ [(?j, cmd)])) ?s)" if "c < ns_nextConn s" for c
  proof -
    let ?f = "cn_chain_update (\<lambda>q. q @ [(?j, cmd)])"
    have "openJtis (?f (ns_conns s c)) = add_mset ?j (openJtis (ns_conns s c))"
      by (simp add: openJtis_def queuedJtis_def)
    then have "books (updConn c ?f ?s) = add_mset ?j (books s)"
      using books_updConn [of c ?s ?f] that b by simp
    then show ?thesis using s q quiet_updConn [OF q, of c ?f] that by (simp add: books_inv_def updConn_def)
  qed
  have "getLive n ?s = getLive n s" "getHeld n ?s = getHeld n s" by (simp_all add: getLive_def getHeld_def)
  then show ?thesis
    using off on live [of n] by (auto simp: sendCommand_def Let_def split: option.split)
qed

lemma failStep_updConn:
  "failStep c j a (updConn c g s) =
   answer j a (updConn c (\<lambda>cn. cn_pending_update (filter (\<lambda>i. i \<noteq> j)) ((g cn)\<lparr>cn_stage := Waiting\<rparr>)) s)"
  by (simp add: failStep_def dropPending_def setStage_def updConn_updConn)

lemma updConn_same: "updConn c (\<lambda>x. x) s = s"
  by (simp add: updConn_def)

lemma books_failStep:
  assumes s: "books_inv s" and c: "c < ns_nextConn s" and p: "j \<notin> set (cn_pending (ns_conns s c))"
    and g: "filter (\<lambda>i. i \<noteq> j) (cn_pending (g (ns_conns s c))) = cn_pending (ns_conns s c)"
      "j # map fst (cn_chain (g (ns_conns s c))) = queuedJtis (ns_conns s c)"
  shows "books_inv (failStep c j a (updConn c g s))"
  unfolding failStep_updConn
proof (rule books_move [OF s c])
  have "openJtis (ns_conns s c) = mset (j # map fst (cn_chain (g (ns_conns s c)))) + mset (cn_pending (ns_conns s c))"
    unfolding openJtis_def g(2) ..
  then show "add_mset j (openJtis (cn_pending_update (filter (\<lambda>i. i \<noteq> j)) ((g (ns_conns s c))\<lparr>cn_stage := Waiting\<rparr>)))
      = openJtis (ns_conns s c)"
    by (simp add: openJtis_def [of "cn_pending_update _ _"] queuedJtis_def g(1) del: mset_filter mset_map)
qed

lemma books_keep:
  assumes s: "books_inv s" and c: "c < ns_nextConn s" and f: "openJtis (f (ns_conns s c)) = openJtis (ns_conns s c)"
  shows "books_inv (updConn c f s)"
proof -
  have "books (updConn c f s) = books s" using books_updConn [OF c, of f] f by simp
  then show ?thesis using s quiet_updConn [of s c f] c by (simp add: books_inv_def updConn_def)
qed

lemma books_sent: "settledBy e = [] \<Longrightarrow> books_inv (logOut e s) = books_inv s"
  by (simp add: books_inv_def books_def settledJtis_def logOut_def heldJtis_def noneBeyond_def)

lemma books_advance:
  assumes s: "books_inv s"
  shows "books_inv (advance c l s)"
proof (cases "c < ns_nextConn s")
  case False
  then show ?thesis using s quietD [of s c] by (simp add: books_inv_def advance_def)
next
  case True
  let ?cn = "ns_conns s c"
  note d = books_distinct [OF s True]
  note fail = books_failStep [OF s True]
  note stay = books_keep [OF s True]
  show ?thesis
  proof (cases "cn_stage ?cn")
    case Waiting
    show ?thesis
    proof (cases "cn_chain ?cn")
      case Nil
      then show ?thesis using Waiting s by (simp add: advance_def)
    next
      case (Cons jc rest)
      obtain j cmd where jc: "jc = (j, cmd)" by fastforce
      have j: "j \<notin> set (cn_pending ?cn)" using d Cons jc by (auto simp: queuedJtis_def)
      have f: "books_inv (failStep c j a (updConn c (cn_chain_update (\<lambda>_. rest)) s))" for a
        by (rule fail [OF j]) (use j Waiting Cons jc in \<open>auto simp: queuedJtis_def filter_id_conv\<close>)
      have "books_inv (setStage c (Loading j cmd) (updConn c (cn_chain_update (\<lambda>_. rest)) s))"
        unfolding setStage_def updConn_updConn
        by (rule stay) (use Waiting Cons jc in \<open>simp add: openJtis_def queuedJtis_def\<close>)
      then show ?thesis using f Waiting Cons jc by (simp add: advance_def Let_def)
    qed
  next
    case (Loading j cmd)
    have j: "j \<notin> set (cn_pending ?cn)" using d Loading by (auto simp: queuedJtis_def)
    have f: "books_inv (failStep c j a s)" for a
      using fail [OF j, of "\<lambda>x. x"] j Loading by (auto simp: queuedJtis_def filter_id_conv updConn_same)
    have "books_inv (setStage c (Signing j cmd (Suc (cn_seq ?cn))) (updConn c (cn_seq_update Suc) s))"
      unfolding setStage_def updConn_updConn
      by (rule stay) (use Loading in \<open>simp add: openJtis_def queuedJtis_def\<close>)
    then show ?thesis using f Loading by (simp add: advance_def Let_def)
  next
    case (Signing j cmd q)
    have j: "j \<notin> set (cn_pending ?cn)" using d Signing by (auto simp: queuedJtis_def)
    have f: "books_inv (failStep c j a s)" for a
      using fail [OF j, of "\<lambda>x. x"] j Signing by (auto simp: queuedJtis_def filter_id_conv updConn_same)
    let ?g = "\<lambda>cn. cn_pending_update (\<lambda>p. p @ [j]) (cn\<lparr>cn_stage := Waiting\<rparr>)"
    have f': "books_inv (failStep c j a (updConn c ?g s))" for a
      by (rule fail [OF j]) (use j Signing in \<open>auto simp: queuedJtis_def filter_id_conv\<close>)
    have "books_inv (updConn c ?g s)"
      by (rule stay) (use Signing in \<open>simp add: openJtis_def queuedJtis_def\<close>)
    then have "books_inv (logOut (if b then SentSealed w j q cmd else SentPlain w j q cmd) (updConn c ?g s))" for b w
      by (cases b) (simp_all add: books_sent)
    then show ?thesis
      using f f' Signing by (simp add: advance_def Let_def setStage_def updConn_updConn)
  qed
qed

lemma books_close: "books_inv s \<Longrightarrow> books_inv (handleNodeClose w s)"
proof -
  assume s: "books_inv s"
  have a: "books_inv (logOut (RowOffline n) (failConnPendings c (detachConnection n w s)))" for n c
    by (rule books_calm [OF books_failConn [OF books_calm [OF s calm_detach]] calm_emit]) simp_all
  have b: "books_inv (failConnPendings c (releaseHeld n c s))" for n c
    by (rule books_failConn [OF books_calm [OF s calm_release]])
  show ?thesis
    unfolding handleNodeClose_def using s a b by (simp add: Let_def split: option.split)
qed

lemma books_owner: "books_inv s \<Longrightarrow> books_inv (ownerChecked w b s)"
proof -
  assume s: "books_inv s"
  have "books_inv s'" if "disconnectNode n code only s = (ev, s')" for n code only ev s'
    using books_calm [OF s calm_disconnect [of s n code only]] that by simp
  then show ?thesis
    using s unfolding ownerChecked_def by (auto simp: Let_def split: option.split prod.split intro: books_failConn)
qed

lemma books_event: "books_inv s \<Longrightarrow> books_inv (handleEvent w k ev s)"
  using books_calm [of s "setSock w k' s" for k'] books_calm [OF _ calm_emit, of s "Acted w j" for j] books_resolve [of s]
  by (auto simp: handleEvent_def Let_def calm_maps split: option.split node_event.split)

lemma books_message: "books_inv s \<Longrightarrow> books_inv (handleNodeMessage env w n f s)"
proof -
  assume s: "books_inv s"
  have em: "books_inv t \<Longrightarrow> settledBy e = [] \<Longrightarrow> books_inv (logOut e t)" for e t
    by (simp add: books_sent)
  have up: "books_inv t \<Longrightarrow> books_inv (updConn c (cn_link_update g) t)" for c g t
    by (rule books_calm [OF _ calm_updConn]) (simp_all add: sameQueue_def)
  have ss: "books_inv t \<Longrightarrow> books_inv (setSock v k t)" for v k t
    by (rule books_calm [OF _ calm_maps(3)])
  have hr: "books_inv t \<Longrightarrow> books_inv (holdRefusedNode v k r t)" for v k r t
    by (rule books_calm [OF _ calm_holdRefused])
  show ?thesis
    unfolding handleNodeMessage_def
    by (auto simp: s Let_def split: option.split prod.split link_outcome.split node_event.split
        intro!: em up ss hr books_event s)
qed

section \<open>The order of what is sent\<close>

definition order_ok :: "nat \<Rightarrow> (nat \<times> nat) list \<Rightarrow> conn \<Rightarrow> bool" where
  "order_ok n F cn \<longleftrightarrow>
     sorted_wrt (<) (map fst F @ queuedJtis cn) \<and> (\<forall>j \<in> set (map fst F @ queuedJtis cn). j < n) \<and>
     sorted_wrt (<) (map snd F) \<and> (\<forall>q \<in> set (map snd F). 0 < q \<and> q \<le> cn_seq cn) \<and>
     (\<forall>j cmd q. cn_stage cn = Signing j cmd q \<longrightarrow> q = cn_seq cn \<and> 0 < q \<and> (\<forall>p \<in> set (map snd F). p < q))"

definition order_inv :: "'s nodes_state \<Rightarrow> bool" where
  "order_inv s \<longleftrightarrow>
     (\<forall>c < ns_nextConn s. order_ok (ns_nextJti s) (sentFrames (cn_ws (ns_conns s c)) s) (ns_conns s c))"

lemma order_ok_cong:
  "sameQueue a b \<Longrightarrow> order_ok n F a \<Longrightarrow> order_ok n F b"
  by (simp add: order_ok_def sameQueue_def queuedJtis_def)

lemma order_steady: "order_inv s \<Longrightarrow> steady s t \<Longrightarrow> order_inv t"
  unfolding order_inv_def steady_def using order_ok_cong by (metis sameQueue_def)

lemmas order_calm = order_steady [OF _ calm_steady]

lemma order_conn:
  assumes "order_inv s" "\<And>cn. cn_ws (f cn) = cn_ws cn"
    "c < ns_nextConn s \<Longrightarrow> order_ok (ns_nextJti s) (sentFrames (cn_ws (ns_conns s c)) s) (ns_conns s c) \<Longrightarrow>
       order_ok (ns_nextJti s) (sentFrames (cn_ws (ns_conns s c)) s) (f (ns_conns s c))"
  shows "order_inv (updConn c f s)"
  using assms by (auto simp: order_inv_def updConn_def sentFrames_def)

lemma steady_settle: "steady s (answer j a s)"
  unfolding answer_def by (rule steady_emit) simp

lemma steady_dropPending: "steady s (dropPending c j s)"
  unfolding dropPending_def by (rule steady_updConn) (simp add: sameQueue_def)

lemma steady_answer: "steady s (answer j a (dropPending c j s))"
  by (rule steady_trans [OF steady_dropPending steady_settle])

lemma steady_settles: "steady s (fold (\<lambda>j. answer j a) js s)"
  by (induction js arbitrary: s) (auto simp: calm_steady intro: steady_trans [OF steady_settle])

lemma steady_failConn: "steady s (failConnPendings c s)"
  unfolding failConnPendings_def
  by (rule steady_trans [OF steady_updConn steady_settles]) (simp add: sameQueue_def)

lemma steady_resolve: "steady s (resolveResult c ref ok err s)"
  by (simp add: resolveResult_def steady_answer calm_steady)

lemma steady_expire: "steady s (expire c j s)"
  by (simp add: expire_def steady_answer calm_steady)

lemma unsent:
  assumes "link_inv s" "jget (ns_socks s) w = None"
  shows "sentFrames w s = []"
proof -
  have "sentOn w e = []" if "e \<in> set (ns_log s)" for e
    using link_invD(6) [OF assms(1) that] assms(2) by (cases e) (auto simp: unpaired_def onLink_def)
  then show ?thesis by (simp add: sentFrames_def)
qed

lemma order_open:
  assumes s: "order_inv s" and l: "link_inv s"
  shows "order_inv (handleNodeOpen w n key pin s)"
proof (cases "jget (ns_socks s) w = None")
  case True
  let ?new = "(newConn n w)\<lparr>cn_plaintextAllowed := Some (beginLinkUpgrade pin = Legacy)\<rparr>"
  obtain t socks where t: "calm s t" and o: "handleNodeOpen w n key pin s =
      t\<lparr>ns_conns := (ns_conns t)(ns_nextConn t := ?new), ns_nextConn := Suc (ns_nextConn t),
        ns_live := jset n (ns_nextConn t) (ns_live t), ns_socks := socks\<rparr>"
    using open_calm [OF l True, of n key pin] by blast
  have i: "order_inv t" by (rule order_calm [OF s t])
  have "sentFrames w t = []" using t unsent [OF l True] by (simp add: calm_def steady_def)
  then have "order_ok m (sentFrames w t) ?new" for m by (simp add: order_ok_def queuedJtis_def newConn_def)
  moreover have "sentFrames v (handleNodeOpen w n key pin s) = sentFrames v t" for v by (simp add: o sentFrames_def)
  ultimately show ?thesis using i by (auto simp: order_inv_def o less_Suc_eq newConn_def)
qed (use s in \<open>simp add: handleNodeOpen_def\<close>)

lemma order_ok_more: "order_ok n F cn \<Longrightarrow> n \<le> m \<Longrightarrow> order_ok m F cn"
  unfolding order_ok_def by (intro conjI) (use less_le_trans in blast)+

lemma order_sendCommand: "order_inv s \<Longrightarrow> order_inv (sendCommand n cmd s)"
proof -
  assume s: "order_inv s"
  let ?s = "s\<lparr>ns_nextJti := Suc (ns_nextJti s)\<rparr>" and ?f = "cn_chain_update (\<lambda>q. q @ [(ns_nextJti s, cmd)])"
  have frames: "sentFrames w ?s = sentFrames w s" for w by (simp add: sentFrames_def)
  have i: "order_inv ?s" using s order_ok_more [of "ns_nextJti s" _ _ "Suc (ns_nextJti s)"] by (auto simp: order_inv_def frames)
  have "order_inv (updConn c ?f ?s)" for c
  proof (rule order_conn [OF i])
    assume "c < ns_nextConn ?s"
    then have "order_ok (ns_nextJti s) (sentFrames (cn_ws (ns_conns s c)) s) (ns_conns s c)" using s by (simp add: order_inv_def)
    then show "order_ok (ns_nextJti ?s) (sentFrames (cn_ws (ns_conns ?s c)) ?s) (?f (ns_conns ?s c))"
      by (auto simp: order_ok_def queuedJtis_def sorted_wrt_append frames less_Suc_eq)
  qed simp
  then show ?thesis
    using order_steady [OF i steady_settle] by (auto simp: sendCommand_def Let_def split: option.split)
qed

text \<open>The commands that leave a queue keep the order of the rest.\<close>

lemma order_pop:
  assumes "order_ok n F cn" "queuedJtis cn = j # map fst (cn_chain cn')" "cn_stage cn' = Waiting" "cn_seq cn' = cn_seq cn"
  shows "order_ok n F cn'"
proof -
  have "queuedJtis cn' = map fst (cn_chain cn')" using assms(3) by (simp add: queuedJtis_def)
  then show ?thesis using assms by (auto simp: order_ok_def sorted_wrt_append)
qed

lemma order_failStep:
  assumes s: "order_inv s" and g: "\<And>cn. cn_ws (g cn) = cn_ws cn" "\<And>cn. cn_seq (g cn) = cn_seq cn"
    and q: "queuedJtis (ns_conns s c) = j # map fst (cn_chain (g (ns_conns s c)))"
  shows "order_inv (failStep c j a (updConn c g s))"
  unfolding failStep_updConn
proof (rule order_steady [OF order_conn [OF s] steady_settle])
  let ?f = "\<lambda>cn. cn_pending_update (filter (\<lambda>i. i \<noteq> j)) ((g cn)\<lparr>cn_stage := Waiting\<rparr>)"
  show "cn_ws (?f cn) = cn_ws cn" for cn by (simp add: g)
  show "order_ok n F (?f (ns_conns s c))" if "order_ok n F (ns_conns s c)" for n F
    by (rule order_pop [OF that]) (simp_all add: g q)
qed

lemma order_sent:
  assumes s: "order_inv s" and l: "link_inv s" and c: "c < ns_nextConn s"
    and st: "cn_stage (ns_conns s c) = Signing j cmd q"
    and g: "\<And>cn. cn_ws (g cn) = cn_ws cn" "\<And>cn. cn_seq (g cn) = cn_seq cn" "\<And>cn. cn_chain (g cn) = cn_chain cn"
      "\<And>cn. cn_stage (g cn) = Waiting"
    and e: "\<And>w. sentOn w e = (if w = cn_ws (ns_conns s c) then [(j, q)] else [])"
  shows "order_inv (logOut e (updConn c g s))"
proof -
  let ?t = "logOut e (updConn c g s)" and ?w = "cn_ws (ns_conns s c)"
  have F: "sentFrames w ?t = sentFrames w s @ sentOn w e" for w
    by (simp add: sentFrames_def logOut_def updConn_def)
  have other: "cn_ws (ns_conns s b) \<noteq> ?w" if "b < ns_nextConn s" "b \<noteq> c" for b
    using link_invD(2) [OF l that(1)] link_invD(2) [OF l c] that(2) by auto
  have ok: "order_ok (ns_nextJti s) (sentFrames ?w s) (ns_conns s c)" using s c by (simp add: order_inv_def)
  then have me: "order_ok (ns_nextJti s) (sentFrames ?w s @ [(j, q)]) (g (ns_conns s c))"
    using st by (auto simp: order_ok_def queuedJtis_def sorted_wrt_append g less_imp_le)
  show ?thesis
    unfolding order_inv_def
  proof (intro allI impI)
    fix b
    assume b: "b < ns_nextConn ?t"
    then have b': "b < ns_nextConn s" by (simp add: logOut_def updConn_def)
    show "order_ok (ns_nextJti ?t) (sentFrames (cn_ws (ns_conns ?t b)) ?t) (ns_conns ?t b)"
    proof (cases "b = c")
      case True
      then show ?thesis using me F [of ?w] e [of ?w] g(1) by (simp add: logOut_def updConn_def)
    next
      case False
      then show ?thesis
        using s b' F [of "cn_ws (ns_conns s b)"] e [of "cn_ws (ns_conns s b)"] other [OF b' False]
        by (simp add: logOut_def updConn_def order_inv_def)
    qed
  qed
qed

lemma order_advance:
  assumes s: "order_inv s" and l: "link_inv s" and c: "c < ns_nextConn s"
  shows "order_inv (advance c lk s)"
proof -
  let ?cn = "ns_conns s c"
  have whole: "order_inv (failStep c j a s)" if "queuedJtis ?cn = j # map fst (cn_chain ?cn)" for j a
    using order_failStep [OF s, of "\<lambda>x. x"] that by (simp add: updConn_same)
  show ?thesis
  proof (cases "cn_stage ?cn")
    case Waiting
    show ?thesis
    proof (cases "cn_chain ?cn")
      case Nil
      then show ?thesis using Waiting s by (simp add: advance_def)
    next
      case (Cons jc rest)
      obtain j cmd where jc: "jc = (j, cmd)" by fastforce
      have f: "order_inv (failStep c j a (updConn c (cn_chain_update (\<lambda>_. rest)) s))" for a
        by (rule order_failStep [OF s]) (use Waiting Cons jc in \<open>simp_all add: queuedJtis_def\<close>)
      have "order_inv (setStage c (Loading j cmd) (updConn c (cn_chain_update (\<lambda>_. rest)) s))"
        unfolding setStage_def updConn_updConn
        by (rule order_conn [OF s]) (use Waiting Cons jc in \<open>simp_all add: order_ok_def queuedJtis_def\<close>)
      then show ?thesis using f Waiting Cons jc by (simp add: advance_def Let_def)
    qed
  next
    case (Loading j cmd)
    have "order_inv (setStage c (Signing j cmd (Suc (cn_seq ?cn))) (updConn c (cn_seq_update Suc) s))"
      unfolding setStage_def updConn_updConn
      by (rule order_conn [OF s]) (use Loading in \<open>auto simp: order_ok_def queuedJtis_def less_Suc_eq_le intro: le_SucI\<close>)
    then show ?thesis using whole Loading by (simp add: advance_def Let_def queuedJtis_def)
  next
    case (Signing j cmd q)
    let ?g = "\<lambda>cn. cn_pending_update (\<lambda>p. p @ [j]) (cn\<lparr>cn_stage := Waiting\<rparr>)"
    have f': "order_inv (failStep c j a (updConn c ?g s))" for a
      by (rule order_failStep [OF s]) (use Signing in \<open>simp_all add: queuedJtis_def\<close>)
    have "order_inv (logOut (if b then SentSealed (cn_ws ?cn) j q cmd else SentPlain (cn_ws ?cn) j q cmd) (updConn c ?g s))" for b
      by (rule order_sent [OF s l c Signing]) simp_all
    then show ?thesis
      using f' whole Signing by (simp add: advance_def Let_def setStage_def updConn_updConn queuedJtis_def)
  qed
qed

section \<open>Live or held\<close>

definition apart_inv :: "'s nodes_state \<Rightarrow> bool" where
  "apart_inv s \<longleftrightarrow>
     (\<forall>n c. getLive n s = Some c \<longrightarrow> c < ns_nextConn s) \<and> (\<forall>n c. getHeld n s = Some c \<longrightarrow> c < ns_nextConn s) \<and>
     (\<forall>n c. getLive n s = Some c \<longrightarrow> getHeld n s \<noteq> Some c)"

text \<open>A step that attaches and holds nothing new.\<close>

definition detaching :: "'s nodes_state \<Rightarrow> 's nodes_state \<Rightarrow> bool" where
  "detaching s t \<longleftrightarrow>
     ns_nextConn t = ns_nextConn s \<and> (\<forall>n. getLive n t = getLive n s \<or> getLive n t = None) \<and>
     (\<forall>n. getHeld n t = getHeld n s \<or> getHeld n t = None)"

lemma detaching_refl [simp]: "detaching s s"
  by (simp add: detaching_def)

lemma detaching_trans: "detaching s t \<Longrightarrow> detaching t u \<Longrightarrow> detaching s u"
  unfolding detaching_def by metis

lemma apart_detaching: "apart_inv s \<Longrightarrow> detaching s t \<Longrightarrow> apart_inv t"
  unfolding apart_inv_def detaching_def by (metis option.distinct(1))

lemma detaching_maps:
  "ns_live t = ns_live s \<Longrightarrow> ns_held t = ns_held s \<Longrightarrow> ns_nextConn t = ns_nextConn s \<Longrightarrow> detaching s t"
  by (simp add: detaching_def getLive_def getHeld_def)

lemma detaching_emit [simp]: "detaching s (logOut e t) = detaching s t"
  and detaching_updConn [simp]: "detaching s (updConn c f t) = detaching s t"
  and detaching_setSock [simp]: "detaching s (setSock w k t) = detaching s t"
  and detaching_settle [simp]: "detaching s (answer j a t) = detaching s t"
  and detaching_closeConn [simp]: "detaching s (closeConn c code t) = detaching s t"
  by (simp_all add: detaching_def getLive_def getHeld_def logOut_def updConn_def setSock_def answer_def closeConn_def)

lemma detaching_jdel [simp]:
  "detaching s (s\<lparr>ns_live := jdel n (ns_live s)\<rparr>)" "detaching s (s\<lparr>ns_held := jdel n (ns_held s)\<rparr>)"
  by (auto simp: detaching_def getLive_def getHeld_def)

lemma detaching_detach: "detaching s (detachConnection n w s)"
  by (auto simp: detachConnection_def split: option.split)

lemma detaching_supersede: "detaching s (supersedeHeld n P s)"
  by (auto simp: supersedeHeld_def split: option.split)

lemma detaching_release: "detaching s (releaseHeld n c s)"
  by (simp add: releaseHeld_def)

lemma detaching_disconnect: "detaching s (snd (disconnectNode n code only s))"
proof -
  have a: "detaching s t \<Longrightarrow> detaching s (detachConnection n w t)" for t w
    by (rule detaching_trans [OF _ detaching_detach])
  show ?thesis
    by (auto simp: disconnectNode_def projectNodeOffline_def Let_def split: option.split prod.split intro!: a)
qed

lemma detaching_settles [simp]: "detaching s (fold (\<lambda>j. answer j a) js t) = detaching s t"
  by (induction js arbitrary: t) simp_all

lemma detaching_failConn [simp]: "detaching s (failConnPendings c t) = detaching s t"
  by (simp add: failConnPendings_def)

lemma apart_hold:
  assumes s: "apart_inv s" and c: "c < ns_nextConn s"
  shows "apart_inv (holdSocket n c r s)"
proof -
  let ?w = "cn_ws (ns_conns s c)"
  let ?d = "detachConnection n ?w s"
  let ?t = "supersedeHeld n (\<lambda>p. p \<noteq> c) ?d"
  have t: "apart_inv ?t" by (rule apart_detaching [OF s detaching_trans [OF detaching_detach detaching_supersede]])
  have "getLive n ?d \<noteq> Some c" by (auto simp: detachConnection_def getLive_def split: option.split)
  then have live: "getLive n ?t \<noteq> Some c"
    using detaching_supersede [of ?d n] unfolding detaching_def by (metis option.distinct(1))
  have "ns_nextConn ?t = ns_nextConn s"
    using detaching_trans [OF detaching_detach detaching_supersede, of s] by (simp add: detaching_def)
  then show ?thesis
    using t live c unfolding holdSocket_def holdConnection_def Let_def
    by (auto simp: apart_inv_def getLive_def getHeld_def logOut_def)
qed

lemma apart_holdRefused:
  assumes s: "apart_inv s" and l: "link_inv s" and k: "jget (ns_socks s) w = Some k"
  shows "apart_inv (holdRefusedNode w k r s)"
  using connOf_known [OF l k refl] apart_hold [OF s] apart_detaching [OF s, of "logOut e s" for e]
  by (auto simp: holdRefusedNode_def)

lemma apart_open:
  assumes s: "apart_inv s" and l: "link_inv s"
  shows "apart_inv (handleNodeOpen w n key pin s)"
proof (cases "jget (ns_socks s) w = None")
  case True
  let ?u = "supersedeHeld n (\<lambda>c. cn_ws (ns_conns s c) \<noteq> w) s"
  obtain t where t: "t = ?u \<or> (\<exists>c. t = closeConn c NODE_CLOSE_SUPERSEDED ?u)" and a: "attachConnection n w s =
      (ns_nextConn t, t\<lparr>ns_conns := (ns_conns t)(ns_nextConn t := newConn n w), ns_nextConn := Suc (ns_nextConn t),
         ns_live := jset n (ns_nextConn t) (ns_live t)\<rparr>)"
    using attach_fresh [OF l True refl, of n] by blast
  have "detaching s t" using t detaching_supersede by auto
  then have i: "apart_inv t" by (rule apart_detaching [OF s])
  then have "getHeld n t \<noteq> Some (ns_nextConn t)" by (auto simp: apart_inv_def)
  then show ?thesis
    using i True a
    by (auto simp: handleNodeOpen_def Let_def setSock_def updConn_def apart_inv_def getLive_def getHeld_def less_SucI)
qed (use s in \<open>simp add: handleNodeOpen_def\<close>)

lemma apart_event: "apart_inv s \<Longrightarrow> apart_inv (handleEvent w k ev s)"
  by (erule apart_detaching)
     (auto simp: handleEvent_def resolveResult_def dropPending_def Let_def split: option.split node_event.split)

lemma apart_message:
  assumes s: "apart_inv s" and l: "link_inv s"
  shows "apart_inv (handleNodeMessage env w n f s)"
proof (cases "jget (ns_socks s) w")
  case None
  then show ?thesis using s by (simp add: handleNodeMessage_def)
next
  case (Some k0)
  show ?thesis
  proof (cases "sk_stage k0 = Idle \<and> \<not> n > NODE_MAX_FRAME_BYTES")
    case False
    then show ?thesis using Some s apart_detaching [OF s] by (auto simp: handleNodeMessage_def)
  next
    case idle: True
    obtain oc d where h: "handleLinkFrame env (sk_data k0) f = (oc, d)" by fastforce
    let ?k = "k0\<lparr>sk_data := d\<rparr>" and ?t = "setSock w (k0\<lparr>sk_data := d\<rparr>) s"
    have t: "apart_inv ?t" by (rule apart_detaching [OF s]) simp
    have k: "jget (ns_socks ?t) w = Some ?k" by (simp add: setSock_def)
    have lt: "link_inv ?t" by (rule link_heard [OF l Some h]) (use idle in simp)
    have hr: "apart_inv (holdRefusedNode w ?k r ?t)" for r by (rule apart_holdRefused [OF t lt k])
    have em: "apart_inv u \<Longrightarrow> apart_inv (logOut e u)" "apart_inv u \<Longrightarrow> apart_inv (setSock v j u)"
      "apart_inv u \<Longrightarrow> apart_inv (updConn c g u)" for u e v j c g
      by (erule apart_detaching, simp)+
    show ?thesis
      using Some idle h
      by (auto simp: handleNodeMessage_def Let_def t split: link_outcome.split option.split node_event.split
          intro!: hr em t apart_event)
  qed
qed

lemma apart_resume:
  assumes s: "apart_inv s" and l: "link_inv s"
  shows "apart_inv (resumeFrame w s)"
proof (cases "jget (ns_socks s) w")
  case None
  then show ?thesis using s by (simp add: resumeFrame_def)
next
  case (Some k0)
  let ?k = "k0\<lparr>sk_stage := Idle\<rparr>"
  let ?t = "setSock w ?k s"
  have ok: "sock_ok s w k0" by (rule link_invD(1) [OF l Some])
  then have "sock_ok s w ?k" by (auto simp: sock_ok_def)
  then have lt: "link_inv ?t" by (intro link_setSock [OF l Some]) simp_all
  have k: "jget (ns_socks ?t) w = Some ?k" by (simp add: setSock_def)
  have t: "apart_inv ?t" by (rule apart_detaching [OF s]) simp
  have em: "apart_inv u \<Longrightarrow> apart_inv (logOut e u)" "apart_inv u \<Longrightarrow> apart_inv (setSock v j u)" for u :: "'a nodes_state" and e v j
    by (erule apart_detaching, simp)+
  have gate: "apart_inv (gateReady w ?k r u)"
    if u: "ns_live u = ns_live ?t" "ns_held u = ns_held ?t" "ns_conns u = ns_conns ?t" "ns_nextConn u = ns_nextConn ?t"
      "apart_inv u" for r u
  proof -
    obtain c where c: "connOf ?k u = Some c" "c < ns_nextConn u"
      using connOf_known [OF lt k, of ?k] u by (auto simp: connOf_def)
    then show ?thesis using apart_hold [OF u(5) c(2)] em(1) [OF u(5)] by (simp add: gateReady_def holdRefusedNode_def)
  qed
  have hold: "apart_inv (holdSocket n c ProtocolMismatch ?t)" if "sk_conn k0 = Some c" for c n
    by (rule apart_hold [OF t]) (use ok that in \<open>auto simp: sock_ok_def setSock_def\<close>)
  show ?thesis
  proof (cases "sk_stage k0")
    case Idle
    then show ?thesis using Some s by (simp add: resumeFrame_def Let_def)
  next
    case (Applying r)
    let ?e = "logOut (RowReady w r) ?t"
    have e: "apart_inv ?e" by (rule em(1) [OF t])
    have "apart_inv (gateReady w ?k r ?e)" by (rule gate [OF _ _ _ _ e]) (simp_all add: logOut_def)
    then show ?thesis
      using Some Applying e em [OF e] by (simp add: resumeFrame_def Let_def projectNodeOffline_def)
  next
    case (Gating r)
    then show ?thesis using Some gate [OF refl refl refl refl t] by (simp add: resumeFrame_def Let_def)
  next
    case (Holding cid)
    then obtain c where "cid = Some c" "sk_conn k0 = Some c" using ok by (auto simp: sock_ok_def)
    then show ?thesis using Some Holding hold by (simp add: resumeFrame_def Let_def)
  qed
qed

section \<open>The machine\<close>

definition nodes_inv :: "'s nodes_state \<Rightarrow> bool" where
  "nodes_inv s \<longleftrightarrow> link_inv s \<and> books_inv s \<and> order_inv s \<and> apart_inv s"

lemma nodes_invI: "link_inv s \<Longrightarrow> books_inv s \<Longrightarrow> order_inv s \<Longrightarrow> apart_inv s \<Longrightarrow> nodes_inv s"
  by (simp add: nodes_inv_def)

lemma advance_beyond: "books_inv s \<Longrightarrow> \<not> c < ns_nextConn s \<Longrightarrow> advance c l s = s"
  using quietD [of s c] by (simp add: books_inv_def advance_def)

lemma apart_steps:
  "apart_inv s \<Longrightarrow> apart_inv (ownerChecked w b s)" "apart_inv s \<Longrightarrow> apart_inv (handshakeDeadline w s)"
  "apart_inv s \<Longrightarrow> apart_inv (handleNodeClose w s)" "apart_inv s \<Longrightarrow> apart_inv (heldIdle n c s)"
  "apart_inv s \<Longrightarrow> apart_inv (snd (disconnectNode n code only s))" "apart_inv s \<Longrightarrow> apart_inv (sendCommand n cmd s)"
  "apart_inv s \<Longrightarrow> apart_inv (advance c lk s)" "apart_inv s \<Longrightarrow> apart_inv (expire c j s)"
proof -
  have d: "detaching s s'" if "disconnectNode n code only s = (ev, s')" for n code only ev s'
    using detaching_disconnect [of s n code only] that by simp
  have j: "detaching s (s\<lparr>ns_nextJti := x\<rparr>)" for x by (rule detaching_maps) simp_all
  have r: "detaching s (logOut e (failConnPendings c (detachConnection n w s)))" for e c n w
    by (simp add: detaching_detach)
  have "detaching s (ownerChecked w b s)"
    by (auto simp: ownerChecked_def d split: option.split prod.split)
  then show "apart_inv s \<Longrightarrow> apart_inv (ownerChecked w b s)" by (rule apart_detaching [rotated])
  have "detaching s (handshakeDeadline w s)" by (simp add: handshakeDeadline_def split: option.split)
  then show "apart_inv s \<Longrightarrow> apart_inv (handshakeDeadline w s)" by (rule apart_detaching [rotated])
  have "detaching s (handleNodeClose w s)"
    by (simp add: handleNodeClose_def Let_def detaching_detach detaching_release split: option.split)
  then show "apart_inv s \<Longrightarrow> apart_inv (handleNodeClose w s)" by (rule apart_detaching [rotated])
  have "detaching s (heldIdle n c s)" by (simp add: heldIdle_def)
  then show "apart_inv s \<Longrightarrow> apart_inv (heldIdle n c s)" by (rule apart_detaching [rotated])
  show "apart_inv s \<Longrightarrow> apart_inv (snd (disconnectNode n code only s))"
    by (rule apart_detaching [OF _ detaching_disconnect])
  have "detaching s (sendCommand n cmd s)" by (simp add: sendCommand_def Let_def j split: option.split)
  then show "apart_inv s \<Longrightarrow> apart_inv (sendCommand n cmd s)" by (rule apart_detaching [rotated])
  have "detaching s (advance c lk s)"
    by (simp add: advance_def Let_def failStep_def dropPending_def setStage_def split: rpc_stage.split list.split)
  then show "apart_inv s \<Longrightarrow> apart_inv (advance c lk s)" by (rule apart_detaching [rotated])
  have "detaching s (expire c j s)" by (simp add: expire_def dropPending_def)
  then show "apart_inv s \<Longrightarrow> apart_inv (expire c j s)" by (rule apart_detaching [rotated])
qed

lemma order_close: "order_inv s \<Longrightarrow> order_inv (handleNodeClose w s)"
proof -
  assume s: "order_inv s"
  have a: "order_inv (logOut (RowOffline n) (failConnPendings c (detachConnection n w s)))" for n c
    by (rule order_steady [OF s steady_trans [OF calm_steady [OF calm_detach]
          steady_trans [OF steady_failConn steady_emit]]]) simp
  have b: "order_inv (failConnPendings c (releaseHeld n c s))" for n c
    by (rule order_steady [OF s steady_trans [OF calm_steady [OF calm_release] steady_failConn]])
  show ?thesis
    unfolding handleNodeClose_def using s a b by (simp add: Let_def split: option.split)
qed

lemma order_owner: "order_inv s \<Longrightarrow> order_inv (ownerChecked w b s)"
proof -
  assume s: "order_inv s"
  have "order_inv s'" if "disconnectNode n code only s = (ev, s')" for n code only ev s'
    using order_calm [OF s calm_disconnect [of s n code only]] that by simp
  then show ?thesis
    using s unfolding ownerChecked_def
    by (auto simp: Let_def split: option.split prod.split intro: order_steady [OF _ steady_failConn])
qed

lemma order_event: "order_inv s \<Longrightarrow> order_inv (handleEvent w k ev s)"
proof -
  assume s: "order_inv s"
  have r: "order_inv (resolveResult c ref ok err s)" for c ref ok err by (rule order_steady [OF s steady_resolve])
  have "order_inv (setSock w k' s)" for k' by (rule order_calm [OF s calm_maps(3)])
  moreover have "order_inv (logOut (Acted w j) s)" for j by (rule order_calm [OF s calm_emit]) simp_all
  ultimately show ?thesis
    using s r by (auto simp: handleEvent_def Let_def split: option.split node_event.split)
qed

lemma order_message: "order_inv s \<Longrightarrow> order_inv (handleNodeMessage env w n f s)"
proof -
  assume s: "order_inv s"
  have em: "order_inv t \<Longrightarrow> (\<And>w. sentOn w e = []) \<Longrightarrow> order_inv (logOut e t)" for e t
    by (rule order_steady [OF _ steady_emit])
  have up: "order_inv t \<Longrightarrow> order_inv (updConn c (cn_link_update g) t)" for c g t
    by (rule order_steady [OF _ steady_updConn]) (simp_all add: sameQueue_def)
  have ss: "order_inv t \<Longrightarrow> order_inv (setSock v k t)" for v k t
    by (rule order_calm [OF _ calm_maps(3)])
  have hr: "order_inv t \<Longrightarrow> order_inv (holdRefusedNode v k r t)" for v k r t
    by (rule order_calm [OF _ calm_holdRefused])
  show ?thesis
    unfolding handleNodeMessage_def
    by (auto simp: s Let_def split: option.split prod.split link_outcome.split node_event.split
        intro!: em up ss hr order_event s)
qed

lemma nodes_step_inv:
  assumes "nodes_inv s"
  shows "nodes_inv (nodes_step env e s)"
proof -
  have s: "link_inv s" "books_inv s" "order_inv s" "apart_inv s" using assms by (simp_all add: nodes_inv_def)
  have calm: "books_inv t" "order_inv t" if "calm s t" for t
    using books_calm [OF s(2) that] order_calm [OF s(3) that] by blast+
  show ?thesis
  proof (cases e)
    case (Open w n key pin)
    show ?thesis unfolding Open nodes_step.simps
      by (intro nodes_invI link_open books_open order_open apart_open s)
  next
    case (OwnerChecked w b)
    show ?thesis unfolding OwnerChecked nodes_step.simps
      by (intro nodes_invI link_owner books_owner order_owner apart_steps s)
  next
    case (Deadline w)
    show ?thesis unfolding Deadline nodes_step.simps
      by (intro nodes_invI link_deadline calm calm_deadline apart_steps s)
  next
    case (Frame w n f)
    show ?thesis unfolding Frame nodes_step.simps
      by (intro nodes_invI link_message books_message order_message apart_message s)
  next
    case (Resume w)
    show ?thesis unfolding Resume nodes_step.simps
      by (intro nodes_invI link_resume calm calm_resume apart_resume s)
  next
    case (Close w)
    show ?thesis unfolding Close nodes_step.simps
      by (intro nodes_invI link_close books_close order_close apart_steps s)
  next
    case (HeldIdle n c)
    show ?thesis unfolding HeldIdle nodes_step.simps
      by (intro nodes_invI link_heldIdle calm calm_heldIdle apart_steps s)
  next
    case (Evict n code)
    show ?thesis unfolding Evict nodes_step.simps
      by (intro nodes_invI link_disconnect calm calm_disconnect apart_steps s)
  next
    case (Call n cmd)
    have "c < ns_nextConn s" if "getLive m s = Some c \<or> getHeld m s = Some c" for m c
      using that s(4) by (auto simp: apart_inv_def)
    then show ?thesis unfolding Call nodes_step.simps
      by (intro nodes_invI link_sendCommand books_sendCommand order_sendCommand apart_steps s)
  next
    case (Advance c l)
    show ?thesis
    proof (cases "c < ns_nextConn s")
      case True
      then show ?thesis unfolding Advance nodes_step.simps
        by (intro nodes_invI link_advance books_advance order_advance apart_steps s)
    next
      case False
      then show ?thesis using assms advance_beyond [OF s(2)] Advance by simp
    qed
  next
    case (Expire c j)
    show ?thesis unfolding Expire nodes_step.simps
      by (intro nodes_invI link_expire books_expire order_steady [OF s(3) steady_expire] apart_steps s)
  qed
qed

text \<open>The answers of the environment may differ from step to step.\<close>

definition nodes_move :: "'s link_env \<times> nevent \<Rightarrow> 's nodes_state \<Rightarrow> 's nodes_state" where
  "nodes_move ev = nodes_step (fst ev) (snd ev)"

interpretation nodes: event_machine nodes_move nodes_inv
  by unfold_locales (simp add: nodes_move_def nodes_step_inv)

lemma nodes_init_inv: "nodes_inv nodes_init"
  by (simp add: nodes_inv_def link_inv_def books_inv_def order_inv_def apart_inv_def nodes_init_def noneBeyond_def
      books_def heldJtis_def settledJtis_def openJtis_def queuedJtis_def newConn_def getLive_def getHeld_def)

definition nodes_run :: "('s link_env \<times> nevent) list \<Rightarrow> 's nodes_state" where
  "nodes_run es = fold nodes_move es nodes_init"

lemma nodes_run_inv: "nodes_inv (nodes_run es)"
  unfolding nodes_run_def by (rule nodes.run_inv [OF nodes_init_inv])

end
