(* ===== verification/NodeTraffic.thy ===== *)
theory NodeTraffic
  imports NodeBooks
begin

text \<open>
  What the nodes' sockets guarantee over every run: who was let in, what may be said in plaintext, that
  each command is answered once and sent in order, and two histories in which the registry does what
  its comments rule out.
\<close>

section \<open>Where a socket's handshake comes from\<close>

lemma socks_same [simp]:
  "ns_socks (logOut e s) = ns_socks s" "ns_socks (updConn c f s) = ns_socks s" "ns_socks (answer j a s) = ns_socks s"
  "ns_socks (closeConn c code s) = ns_socks s" "ns_socks (dropPending c j s) = ns_socks s"
  "ns_socks (setStage c st s) = ns_socks s" "ns_socks (failStep c j a s) = ns_socks s"
  "ns_socks (detachConnection n w s) = ns_socks s" "ns_socks (supersedeHeld n P s) = ns_socks s"
  "ns_socks (releaseHeld n c s) = ns_socks s" "ns_socks (holdSocket n c h s) = ns_socks s"
  "ns_socks (failConnPendings c s) = ns_socks s" "ns_socks (resolveResult c i ok err s) = ns_socks s"
  "ns_socks (projectNodeOffline n s) = ns_socks s"
  by (simp_all add: logOut_def updConn_def answer_def closeConn_def dropPending_def setStage_def failStep_def
      detachConnection_def supersedeHeld_def releaseHeld_def holdSocket_def holdConnection_def Let_def
      failConnPendings_def fold_settle_same resolveResult_def projectNodeOffline_def split: option.split)

lemma socks_disconnect [simp]: "ns_socks (snd (disconnectNode n code only s)) = ns_socks s"
  by (simp add: disconnectNode_def Let_def split: option.split prod.split)

lemma socks_setSock [simp]: "ns_socks (setSock w k s) = jset w k (ns_socks s)"
  by (simp add: setSock_def)

lemma socks_gate [simp]:
  "ns_socks (holdRefusedNode w k h s) = ns_socks s" "ns_socks (gateReady w k r s) = ns_socks s"
  by (simp_all add: holdRefusedNode_def gateReady_def split: option.split)

lemma socks_attach: "ns_socks (snd (attachConnection n w s)) = ns_socks s"
  by (simp add: attachConnection_def Let_def split: option.split)

definition openedData :: "string \<Rightarrow> string \<Rightarrow> string option \<Rightarrow> 's link_data" where
  "openedData n key pin = \<lparr>ld_nodeId = n, ld_apiKeyId = key, ld_mode = beginLinkUpgrade pin, ld_pin = pin,
     ld_phase = AwaitingKx, ld_session = None\<rparr>"

definition heardData :: "'s link_env \<Rightarrow> nevent \<Rightarrow> nat \<Rightarrow> 's link_data \<Rightarrow> 's link_data \<Rightarrow> bool" where
  "heardData env e w d d' \<longleftrightarrow> d' = d \<or> (\<exists>n f. e = Frame w n f \<and> d' = snd (handleLinkFrame env d f))"

definition dataStep :: "'s link_env \<Rightarrow> nevent \<Rightarrow> nat \<Rightarrow> (nat, 's socket) jmap \<Rightarrow> 's socket \<Rightarrow> bool" where
  "dataStep env e w m k' \<longleftrightarrow>
     (\<exists>k. jget m w = Some k \<and> heardData env e w (sk_data k) (sk_data k')) \<or>
     (\<exists>n key pin. e = Open w n key pin \<and> sk_data k' = openedData n key pin)"

lemma dataStep_same: "jget m w = Some k \<Longrightarrow> sk_data k' = sk_data k \<Longrightarrow> dataStep env e w m k'"
  by (auto simp: dataStep_def heardData_def)

lemma data_event:
  "jget (ns_socks (handleEvent w k ev s)) v = Some k' \<Longrightarrow> jget (ns_socks s) w = Some k \<Longrightarrow>
   \<exists>j. jget (ns_socks s) v = Some j \<and> sk_data k' = sk_data j"
  by (auto simp: handleEvent_def Let_def split: option.splits node_event.splits if_split_asm)

lemma data_message:
  assumes k': "jget (ns_socks (handleNodeMessage env w n f s)) v = Some k'"
  shows "\<exists>k. jget (ns_socks s) v = Some k \<and> heardData env (Frame w n f) v (sk_data k) (sk_data k')"
proof (cases "\<exists>k. jget (ns_socks s) w = Some k \<and> sk_stage k = Idle \<and> \<not> n > NODE_MAX_FRAME_BYTES")
  case False
  then show ?thesis
    using k' by (auto simp: handleNodeMessage_def heardData_def split: option.splits if_split_asm)
next
  case True
  then obtain k0 where k0: "jget (ns_socks s) w = Some k0" "sk_stage k0 = Idle" "\<not> n > NODE_MAX_FRAME_BYTES" by blast
  obtain oc d where h: "handleLinkFrame env (sk_data k0) f = (oc, d)" by fastforce
  let ?t = "setSock w (k0\<lparr>sk_data := d\<rparr>) s"
  have "\<exists>j. jget (ns_socks ?t) v = Some j \<and> sk_data k' = sk_data j"
    using k' k0 h data_event [of w "k0\<lparr>sk_data := d\<rparr>" _ ?t v k']
    by (auto simp: handleNodeMessage_def Let_def split: link_outcome.splits option.splits node_event.splits if_split_asm)
  then show ?thesis using k0(1) h by (auto simp: heardData_def split: if_split_asm)
qed

lemma data_resume:
  "jget (ns_socks (resumeFrame w s)) v = Some k' \<Longrightarrow> \<exists>k. jget (ns_socks s) v = Some k \<and> sk_data k' = sk_data k"
  by (auto simp: resumeFrame_def Let_def split: option.splits frame_stage.splits if_split_asm)

lemma data_open:
  assumes "jget (ns_socks (handleNodeOpen w n key pin s)) v = Some k'"
  shows "dataStep env (Open w n key pin) v (ns_socks s) k'"
proof -
  obtain c t where a: "attachConnection n w s = (c, t)" by fastforce
  then have "ns_socks t = ns_socks s" using socks_attach [of n w s] by simp
  then show ?thesis
    using assms a by (auto simp: handleNodeOpen_def Let_def dataStep_def heardData_def openedData_def split: if_split_asm)
qed

lemma socks_steps [simp]:
  "ns_socks (ownerChecked w b s) = ns_socks s" "ns_socks (handshakeDeadline w s) = ns_socks s"
  "ns_socks (handleNodeClose w s) = ns_socks s" "ns_socks (heldIdle n c s) = ns_socks s"
  "ns_socks (sendCommand n cmd s) = ns_socks s" "ns_socks (advance c l s) = ns_socks s" "ns_socks (expire c j s) = ns_socks s"
proof -
  have d: "ns_socks s' = ns_socks s" if "disconnectNode n code only s = (ev, s')" for n code only ev s'
    using socks_disconnect [of n code only s] that by simp
  show "ns_socks (ownerChecked w b s) = ns_socks s"
    by (simp add: ownerChecked_def d split: option.split prod.split)
qed (simp_all add: handshakeDeadline_def handleNodeClose_def heldIdle_def sendCommand_def advance_def expire_def Let_def
      split: option.split rpc_stage.split list.split)

lemma data_step:
  assumes "jget (ns_socks (nodes_step env e s)) w = Some k'"
  shows "dataStep env e w (ns_socks s) k'"
proof (cases e)
  case (Open v n key pin)
  then show ?thesis using data_open assms by auto
next
  case (Frame v n f)
  then show ?thesis using data_message [of env v n f s w k'] assms by (auto simp: dataStep_def)
next
  case (Resume v)
  then show ?thesis using data_resume [of v s w k'] assms dataStep_same by fastforce
qed (use assms dataStep_same [OF _ refl] in simp_all)

text \<open>
  The sessions a socket's own frames can have built: the key exchange that named the pinned key, and
  what decrypting each later frame made of it.
\<close>

inductive linkSession :: "('s link_env \<times> nevent) set \<Rightarrow> nat \<Rightarrow> string \<Rightarrow> 's \<Rightarrow> bool"
  for es :: "('s link_env \<times> nevent) set" and w :: nat and pin :: string where
  exchanged: "(env, Frame w n (TextFrame t)) \<in> es \<Longrightarrow> parseKxFrame t = Some (eph, Some pub) \<Longrightarrow>
    decode32 env pin = Some key \<Longrightarrow> decode32 env pub = Some key \<Longrightarrow> lk_session env eph = Some s \<Longrightarrow>
    linkSession es w pin s"
| opened: "linkSession es w pin s \<Longrightarrow> (env, Frame w n (BytesFrame b)) \<in> es \<Longrightarrow> lk_open env s b = Some (pt, s') \<Longrightarrow>
    linkSession es w pin s'"

text \<open>A binding under such a session that names the node and carries its live key.\<close>

definition boundNode :: "('s link_env \<times> nevent) set \<Rightarrow> nat \<Rightarrow> string \<Rightarrow> string \<Rightarrow> string \<Rightarrow> bool" where
  "boundNode es w pin node key \<longleftrightarrow>
     (\<exists>env n bytes s pt s' b m. (env, Frame w n (BytesFrame bytes)) \<in> es \<and> linkSession es w pin s \<and>
        lk_open env s bytes = Some (pt, s') \<and> parseLinkBinding env pt = Some b \<and> lb_nodeId b = node \<and>
        lk_verify env (lb_nodeKey b) = Some (key, JObj m) \<and>
        strField m ''kind'' = Some ''node'' \<and> strField m ''nodeId'' = Some node)"

lemma linkSession_mono: "linkSession es w pin s \<Longrightarrow> es \<subseteq> fs \<Longrightarrow> linkSession fs w pin s"
proof (induction rule: linkSession.induct)
  case (exchanged env n t eph pub key s)
  show ?case
    by (rule linkSession.exchanged [OF subsetD [OF exchanged.prems exchanged.hyps(1)] exchanged.hyps(2-5)])
next
  case (opened s env n b pt s')
  show ?case
    by (rule linkSession.opened [OF opened.IH [OF opened.prems] subsetD [OF opened.prems opened.hyps(2)] opened.hyps(3)])
qed

lemma boundNode_mono: "boundNode es w pin n key \<Longrightarrow> es \<subseteq> fs \<Longrightarrow> boundNode fs w pin n key"
proof -
  assume p: "boundNode es w pin n key" and sub: "es \<subseteq> fs"
  obtain env i bytes s pt s' b m where x: "(env, Frame w i (BytesFrame bytes)) \<in> es" "linkSession es w pin s"
    "lk_open env s bytes = Some (pt, s')" "parseLinkBinding env pt = Some b" "lb_nodeId b = n"
    "lk_verify env (lb_nodeKey b) = Some (key, JObj m)" "strField m ''kind'' = Some ''node''" "strField m ''nodeId'' = Some n"
    using p unfolding boundNode_def by (elim exE conjE)
  show ?thesis
    unfolding boundNode_def
    by (rule exI [of _ env], rule exI [of _ i], rule exI [of _ bytes], rule exI [of _ s], rule exI [of _ pt],
        rule exI [of _ s'], rule exI [of _ b], rule exI [of _ m])
       (use x subsetD [OF sub x(1)] linkSession_mono [OF x(2) sub] in simp)
qed

definition data_traced :: "('s link_env \<times> nevent) set \<Rightarrow> nat \<Rightarrow> 's link_data \<Rightarrow> bool" where
  "data_traced es w d \<longleftrightarrow>
     (\<exists>env. (env, Open w (ld_nodeId d) (ld_apiKeyId d) (ld_pin d)) \<in> es) \<and> ld_mode d = beginLinkUpgrade (ld_pin d) \<and>
     (\<forall>s. ld_session d = Some s \<longrightarrow> (\<exists>pin. ld_pin d = Some pin \<and> linkSession es w pin s)) \<and>
     (ld_phase d = Established \<longrightarrow> (\<exists>pin. ld_pin d = Some pin \<and> boundNode es w pin (ld_nodeId d) (ld_apiKeyId d)))"

lemma data_traced_mono:
  assumes "data_traced es w d" "es \<subseteq> fs"
  shows "data_traced fs w d"
proof -
  note d = assms(1) [unfolded data_traced_def]
  have "\<exists>env. (env, Open w (ld_nodeId d) (ld_apiKeyId d) (ld_pin d)) \<in> fs" using d assms(2) by auto
  moreover have "\<exists>pin. ld_pin d = Some pin \<and> linkSession fs w pin s" if "ld_session d = Some s" for s
    using d that linkSession_mono [OF _ assms(2)] by auto
  moreover have "\<exists>pin. ld_pin d = Some pin \<and> boundNode fs w pin (ld_nodeId d) (ld_apiKeyId d)" if "ld_phase d = Established"
    using d that boundNode_mono [OF _ assms(2)] by auto
  ultimately show ?thesis using d unfolding data_traced_def by simp
qed

lemma kx_traced:
  assumes "acceptKx env d t = (oc, d')" "data_traced es w d" "(env, Frame w n (TextFrame t)) \<in> es"
  shows "data_traced es w d'"
proof (cases "d' = d")
  case False
  then obtain eph pub key pin s where k: "parseKxFrame t = Some (eph, Some pub)" "decode32 env pub = Some key"
    "ld_pin d = Some pin" "decode32 env pin = Some key" "lk_session env eph = Some s"
    and d': "d' = d\<lparr>ld_session := Some s, ld_phase := AwaitingBinding\<rparr>"
    using assms(1) by (auto simp: acceptKx_def refuse_def split: option.splits prod.splits if_split_asm)
  have "linkSession es w pin s" by (rule exchanged [OF assms(3) k(1,4,2,5)])
  then show ?thesis using assms(2) k(3) unfolding d' data_traced_def by auto
qed (use assms in simp)

lemma live_key:
  "reProveNodeKey env d nodeKey = None \<Longrightarrow>
   \<exists>m. lk_verify env nodeKey = Some (ld_apiKeyId d, JObj m) \<and> strField m ''kind'' = Some ''node'' \<and>
       strField m ''nodeId'' = Some (ld_nodeId d)"
  by (auto simp: reProveNodeKey_def split: option.splits json.splits if_split_asm)

lemma binding_traced:
  assumes h: "completeBinding env d b = (oc, d')" and tr: "data_traced es w d"
    and e: "(env, Frame w n (BytesFrame b)) \<in> es"
  shows "data_traced es w d'"
proof (cases "\<exists>s pt s'. ld_session d = Some s \<and> lk_open env s b = Some (pt, s')")
  case True
  then obtain s pt s' where s: "ld_session d = Some s" "lk_open env s b = Some (pt, s')" by blast
  obtain pin where pin: "ld_pin d = Some pin" "linkSession es w pin s" using tr s(1) by (auto simp: data_traced_def)
  let ?d = "d\<lparr>ld_session := Some s'\<rparr>"
  have "linkSession es w pin s'" by (rule opened [OF pin(2) e s(2)])
  then have tr': "data_traced es w ?d" using tr pin(1) by (auto simp: data_traced_def)
  show ?thesis
  proof (cases "d' = ?d")
    case False
    then obtain bd where bd: "parseLinkBinding env pt = Some bd" "lb_nodeId bd = ld_nodeId d"
      "reProveNodeKey env ?d (lb_nodeKey bd) = None" and d': "d' = ?d\<lparr>ld_phase := Established\<rparr>"
      using h s by (auto simp: completeBinding_def Let_def split: option.splits if_split_asm)
    have "boundNode es w pin (ld_nodeId d) (ld_apiKeyId d)"
      using e pin(2) s(2) bd(1,2) live_key [OF bd(3)] unfolding boundNode_def by fastforce
    then show ?thesis using tr' pin(1) unfolding d' data_traced_def by simp
  qed (use tr' in simp)
next
  case False
  then show ?thesis using h tr by (auto simp: completeBinding_def split: option.splits)
qed

lemma frame_traced:
  assumes h: "handleLinkFrame env d f = (oc, d')" and tr: "data_traced es w d" and e: "(env, Frame w n f) \<in> es"
  shows "data_traced es w d'"
proof (cases "d' = d")
  case False
  then have mode: "ld_mode d = Handshake" "handleHandshakeFrame env d f = (oc, d')"
    using h by (auto simp: handleLinkFrame_def split: link_mode.splits)
  show ?thesis
  proof (cases f)
    case (TextFrame t)
    then have "acceptKx env d t = (oc, d')"
      using mode(2) False by (auto simp: handleHandshakeFrame_def split: link_phase.splits if_split_asm)
    then show ?thesis using kx_traced tr e TextFrame by blast
  next
    case (BytesFrame b)
    show ?thesis
    proof (cases "ld_phase d = AwaitingBinding")
      case True
      then show ?thesis using mode(2) binding_traced [OF _ tr] e BytesFrame by (auto simp: handleHandshakeFrame_def)
    next
      case later: False
      then obtain s pt s' where s: "ld_session d = Some s" "lk_open env s b = Some (pt, s')" "d' = d\<lparr>ld_session := Some s'\<rparr>"
        using mode(2) BytesFrame False by (auto simp: handleHandshakeFrame_def split: link_phase.splits option.splits)
      obtain pin where pin: "ld_pin d = Some pin" "linkSession es w pin s" using tr s(1) by (auto simp: data_traced_def)
      have "linkSession es w pin s'" using opened [OF pin(2) _ s(2)] e BytesFrame by blast
      then show ?thesis using tr pin(1) unfolding s(3) data_traced_def by auto
    qed
  qed
qed (use tr in simp)

lemma run_traced: "jget (ns_socks (nodes_run es)) w = Some k \<Longrightarrow> data_traced (set es) w (sk_data k)"
proof (induction es arbitrary: k w rule: rev_induct)
  case Nil
  then show ?case by (simp add: nodes_run_def nodes_init_def)
next
  case (snoc ev es)
  let ?fs = "set (es @ [ev])"
  obtain env e where ev: "ev = (env, e)" by fastforce
  have "jget (ns_socks (nodes_step env e (nodes_run es))) w = Some k"
    using snoc.prems by (simp add: nodes_run_def nodes_move_def ev)
  then have "dataStep env e w (ns_socks (nodes_run es)) k" by (rule data_step)
  then consider (heard) j where "jget (ns_socks (nodes_run es)) w = Some j" "heardData env e w (sk_data j) (sk_data k)"
    | (opens) n key pin where "e = Open w n key pin" "sk_data k = openedData n key pin"
    unfolding dataStep_def by blast
  then show ?case
  proof cases
    case heard
    have tr: "data_traced ?fs w (sk_data j)"
      by (rule data_traced_mono [OF snoc.IH [OF heard(1)]]) auto
    consider "sk_data k = sk_data j" | n f where "e = Frame w n f" "sk_data k = snd (handleLinkFrame env (sk_data j) f)"
      using heard(2) unfolding heardData_def by blast
    then show ?thesis
    proof cases
      case 2
      have "(env, Frame w n f) \<in> ?fs" using ev 2(1) by simp
      then show ?thesis using frame_traced [OF prod.collapse [symmetric] tr] 2(2) by metis
    qed (use tr in simp)
  next
    case opens
    then show ?thesis using ev by (auto simp: data_traced_def openedData_def)
  qed
qed

section \<open>Who is let in\<close>

lemma run_link: "link_inv (nodes_run es)"
  using nodes_run_inv [of es] by (simp add: nodes_inv_def)

lemmas run_logged = link_invD(6) [OF run_link]

text \<open>
  C4: A node's ready report is accepted only when it passes both version gates and its socket was opened
  for a paired row, on which the key exchange claimed the row's pinned public key (a claim in plaintext that is
  compared with the pin, no proof that the private key is held) and then, under a session that exchange
  opened, a frame named the node and presented the row's own live API key.
\<close>

theorem accepted_node_matches_pin:
  assumes "Accepted w r \<in> set (ns_log (nodes_run es))"
  shows "wouldPass r \<and>
    (\<exists>env node key pin. (env, Open w node key (Some pin)) \<in> set es \<and> boundNode (set es) w pin node key)"
proof -
  have "out_ok (nodes_run es) (Accepted w r)"
    by (rule run_logged [OF assms])
  then obtain k where k: "wouldPass r" "jget (ns_socks (nodes_run es)) w = Some k" "ld_phase (sk_data k) = Established"
    by (auto simp: onLink_def)
  let ?d = "sk_data k"
  obtain pin env where "ld_pin ?d = Some pin" "boundNode (set es) w pin (ld_nodeId ?d) (ld_apiKeyId ?d)"
    "(env, Open w (ld_nodeId ?d) (ld_apiKeyId ?d) (ld_pin ?d)) \<in> set es"
    using run_traced [OF k(2)] k(3) by (auto simp: data_traced_def)
  then show ?thesis using k(1) by auto
qed

definition demo_env :: "unit link_env" where
  "demo_env =
     \<lparr>lk_verify = (\<lambda>k. if k = ''secret'' then Some (''key-1'', JObj [(''kind'', JStr ''node''), (''nodeId'', JStr ''n'')]) else None),
      lk_keys = True, lk_session = (\<lambda>_. Some ()),
      lk_open = (\<lambda>_ b. Some (if b = [] then Some (JObj [(''nodeId'', JStr ''n''), (''nodeKey'', JStr ''secret''),
        (''protocolVersion'', JNum ''26'')]) else Some JNull, ())),
      lk_first = (\<lambda>_ _. []), lk_decode = (\<lambda>_. Some (replicate 32 0)), lk_encode = (\<lambda>_. ''''), lk_int = (\<lambda>_. Some 26),
      lk_event = (\<lambda>t. if t = Some JNull then Some (ReadyEvent \<lparr>rr_agentVersion = Some ''3.1.0'', rr_protocolVersion = 26,
        rr_fingerprint = False\<rparr>) else None)\<rparr>"

definition demo_kx :: "link_frame" where
  "demo_kx = TextFrame (Some (JObj [(''t'', JStr ''kx''), (''eph'', JStr ''AA''), (''pub'', JStr ''AA'')]))"

definition demo_join :: "nevent list" where
  "demo_join = [Open 0 ''n'' ''key-1'' (Some ''AA''), Frame 0 9 demo_kx, Frame 0 9 (BytesFrame [])]"

definition demo_ready :: "nevent list" where
  "demo_ready = [Frame 0 9 (BytesFrame [1]), Resume 0]"

text \<open>What evaluating a concrete run unfolds.\<close>

lemmas run_eval = nodes_run_def nodes_move_def demo_join_def demo_ready_def demo_kx_def demo_env_def
  handleNodeOpen_def attachConnection_def supersedeHeld_def Let_def getHeld_def getLive_def nodes_init_def newConn_def
  setSock_def updConn_def logOut_def closeConn_def beginLinkUpgrade_def handleNodeMessage_def handleLinkFrame_def
  handleHandshakeFrame_def isRegisterClaim_def strField_def acceptKx_def parseKxFrame_def b64Field_def isB64_def
  keyChar_def decode32_def connOf_def completeBinding_def parseLinkBinding_def reProveNodeKey_def handleEvent_def
  resumeFrame_def gateReady_def holdSocket_def holdConnection_def detachConnection_def handleLegacyFrame_def
  sendCommand_def advance_def setStage_def NODE_MAX_FRAME_BYTES_def is_digit_def NODE_PROTOCOL_VERSION_def

lemma supported_floor: "nodeVersionSupported (Some ''3.1.0'')"
  by code_simp

theorem accepted_node_matches_pin_witness:
  "wouldPass \<lparr>rr_agentVersion = Some ''3.1.0'', rr_protocolVersion = 26, rr_fingerprint = False\<rparr> \<and>
   (\<exists>env node key pin. (env, Open 0 node key (Some pin)) \<in> set (map (Pair demo_env) (demo_join @ demo_ready)) \<and>
      boundNode (set (map (Pair demo_env) (demo_join @ demo_ready))) 0 pin node key)"
proof (rule accepted_node_matches_pin)
  show "Accepted 0 \<lparr>rr_agentVersion = Some ''3.1.0'', rr_protocolVersion = 26, rr_fingerprint = False\<rparr>
      \<in> set (ns_log (nodes_run (map (Pair demo_env) (demo_join @ demo_ready))))"
    by (simp add: run_eval supported_floor)
qed

text \<open>
  C33: A command leaves in plaintext only on a socket that was opened for a row without a pinned key; a
  socket of a paired node never carries one, not even before its link stands.
\<close>

theorem plaintext_only_to_unpaired:
  assumes "SentPlain w j q cmd \<in> set (ns_log (nodes_run es))"
  shows "\<exists>env node key. (env, Open w node key None) \<in> set es"
proof -
  have "out_ok (nodes_run es) (SentPlain w j q cmd)"
    by (rule run_logged [OF assms])
  then obtain k where k: "jget (ns_socks (nodes_run es)) w = Some k" "ld_mode (sk_data k) = Legacy"
    by (auto simp: unpaired_def)
  then have "ld_pin (sk_data k) = None"
    using run_traced [OF k(1)] by (cases "ld_pin (sk_data k)") (auto simp: data_traced_def beginLinkUpgrade_def)
  then show ?thesis using run_traced [OF k(1)] by (auto simp: data_traced_def)
qed

theorem plaintext_only_to_unpaired_witness:
  "\<exists>env node key. (env, Open 0 node key None) \<in>
     set (map (Pair demo_env) [Open 0 ''n'' ''key-1'' None, Call ''n'' ''ping'', Advance 0 Fine, Advance 0 Fine, Advance 0 Fine])"
proof (rule plaintext_only_to_unpaired)
  show "SentPlain 0 0 1 ''ping'' \<in> set (ns_log (nodes_run
      (map (Pair demo_env) [Open 0 ''n'' ''key-1'' None, Call ''n'' ''ping'', Advance 0 Fine, Advance 0 Fine, Advance 0 Fine])))"
    by (simp add: run_eval)
qed

section \<open>What happens to a command\<close>

text \<open>
  C5: The command RPC keeps its books: whatever sockets open, close, are superseded, held or evicted and
  whatever answers, failures and timeouts arrive, every command given out has been answered exactly once
  or is held, once, by exactly one connection.
\<close>

theorem commands_answered_once:
  "mset (settledJtis (nodes_run es)) +
     (\<Sum>c<ns_nextConn (nodes_run es). mset (queuedJtis (ns_conns (nodes_run es) c)) + mset (cn_pending (ns_conns (nodes_run es) c)))
   = mset [0..<ns_nextJti (nodes_run es)]"
  using nodes_run_inv [of es] unfolding nodes_inv_def books_inv_def books_def heldJtis_def openJtis_def by blast

lemma sent_order:
  "sorted_wrt (<) (map fst (sentFrames w (nodes_run es))) \<and> sorted_wrt (<) (map snd (sentFrames w (nodes_run es))) \<and>
   (\<forall>q \<in> set (map snd (sentFrames w (nodes_run es))). 0 < q)"
proof (cases "jget (ns_socks (nodes_run es)) w")
  case None
  then show ?thesis using unsent [OF run_link None] by simp
next
  case (Some k)
  then obtain c where "c < ns_nextConn (nodes_run es)" "cn_ws (ns_conns (nodes_run es) c) = w"
    using link_invD(1) [OF run_link Some] by (auto simp: sock_ok_def)
  then have o: "order_ok (ns_nextJti (nodes_run es)) (sentFrames w (nodes_run es)) (ns_conns (nodes_run es) c)"
    using nodes_run_inv [of es] by (auto simp: nodes_inv_def order_inv_def)
  show ?thesis by (intro conjI) (use o in \<open>simp_all add: order_ok_def sorted_wrt_append\<close>)
qed

text \<open>
  On each socket the commands leave in the order they were called in, under strictly rising sequence
  numbers.
\<close>

theorem commands_leave_in_order:
  "sorted_wrt (<) (map fst (sentFrames w (nodes_run es))) \<and> sorted_wrt (<) (map snd (sentFrames w (nodes_run es)))"
  by (simp add: sent_order)

section \<open>Closing a socket\<close>

lemma settled_mono: "e \<in> set (ns_log s) \<Longrightarrow> e \<in> set (ns_log (advance c l s))"
  by (auto simp: advance_def Let_def logOut_def answer_def failStep_def dropPending_def setStage_def updConn_def
      split: rpc_stage.split list.split)

lemma advance_gone:
  assumes "cn_stage (ns_conns s c) = Waiting" "cn_chain (ns_conns s c) = (j, cmd) # rest"
    "getLive (cn_nodeId (ns_conns s c)) s \<noteq> Some c" "getHeld (cn_nodeId (ns_conns s c)) s \<noteq> Some c"
  shows "advance c l s = failStep c j Offline (updConn c (cn_chain_update (\<lambda>_. rest)) s)"
  using assms by (simp add: advance_def Let_def getLive_def getHeld_def updConn_def)

text \<open>The queue of a connection that has left the registry is answered, one command at a step.\<close>

lemma gone_drains:
  assumes "cn_stage (ns_conns s c) = Waiting" "cn_pending (ns_conns s c) = []"
    "getLive (cn_nodeId (ns_conns s c)) s \<noteq> Some c" "getHeld (cn_nodeId (ns_conns s c)) s \<noteq> Some c"
    "length (cn_chain (ns_conns s c)) \<le> length ls"
  shows "openJtis (ns_conns (fold (advance c) ls s) c) = {#} \<and>
    (\<forall>j \<in> set (map fst (cn_chain (ns_conns s c))). Settled j Offline \<in> set (ns_log (fold (advance c) ls s)))"
  using assms
proof (induction ls arbitrary: s)
  case Nil
  then show ?case by (simp add: openJtis_def queuedJtis_def)
next
  case (Cons l ls)
  have keep: "e \<in> set (ns_log t) \<Longrightarrow> e \<in> set (ns_log (fold (advance c) ls t))" for e t
    by (induction ls arbitrary: t) (auto intro: settled_mono)
  show ?case
  proof (cases "cn_chain (ns_conns s c)")
    case Nil
    then have "advance c l s = s" using Cons.prems(1) by (simp add: advance_def)
    then show ?thesis using Cons.IH [OF Cons.prems(1-4)] Nil by simp
  next
    case (Cons jc rest)
    obtain j cmd where jc: "jc = (j, cmd)" by fastforce
    let ?t = "failStep c j Offline (updConn c (cn_chain_update (\<lambda>_. rest)) s)"
    have t: "advance c l s = ?t" using advance_gone [OF Cons.prems(1) _ Cons.prems(3,4)] Cons jc by simp
    have conn: "cn_stage (ns_conns ?t c) = Waiting" "cn_pending (ns_conns ?t c) = []" "cn_chain (ns_conns ?t c) = rest"
      "cn_nodeId (ns_conns ?t c) = cn_nodeId (ns_conns s c)" "getLive n ?t = getLive n s" "getHeld n ?t = getHeld n s" for n
      using Cons.prems(2)
      by (simp_all add: failStep_def answer_def logOut_def dropPending_def setStage_def updConn_def getLive_def getHeld_def)
    have "Settled j Offline \<in> set (ns_log ?t)" by (simp add: failStep_def answer_def logOut_def)
    then have "Settled j Offline \<in> set (ns_log (fold (advance c) ls ?t))" by (rule keep)
    then show ?thesis
      using Cons.IH [of ?t] conn Cons.prems(3-5) Cons jc t by simp
  qed
qed

lemma settles_logged: "e \<in> set (ns_log s) \<Longrightarrow> e \<in> set (ns_log (fold (\<lambda>j. answer j a) js s))"
  by (induction js arbitrary: s) (simp_all add: answer_def logOut_def)

lemma settles_all: "j \<in> set js \<Longrightarrow> Settled j a \<in> set (ns_log (fold (\<lambda>j. answer j a) js s))"
  by (induction js arbitrary: s) (auto simp: answer_def logOut_def intro: settles_logged)

lemma settles_maps:
  "ns_live (fold (\<lambda>j. answer j a) js s) = ns_live s" "ns_held (fold (\<lambda>j. answer j a) js s) = ns_held s"
  by (induction js arbitrary: s) (simp_all add: answer_def logOut_def)

lemma failConn_effect:
  "ns_conns (failConnPendings c s) = (ns_conns s)(c := (ns_conns s c)\<lparr>cn_pending := []\<rparr>)"
  "ns_live (failConnPendings c s) = ns_live s" "ns_held (failConnPendings c s) = ns_held s"
  "j \<in> set (cn_pending (ns_conns s c)) \<Longrightarrow> Settled j Offline \<in> set (ns_log (failConnPendings c s))"
  by (auto simp: failConnPendings_def fold_settle_same settles_maps updConn_def intro: settles_all)

lemma close_shape:
  assumes i: "nodes_inv s" and k: "jget (ns_socks s) w = Some k" "sk_conn k = Some c"
  obtains t where "ns_conns t = ns_conns s" "getLive (cn_nodeId (ns_conns s c)) t \<noteq> Some c"
    "getHeld (cn_nodeId (ns_conns s c)) t \<noteq> Some c"
    "handleNodeClose w s = failConnPendings c t \<or>
     handleNodeClose w s = logOut (RowOffline (cn_nodeId (ns_conns s c))) (failConnPendings c t)"
proof -
  let ?n = "cn_nodeId (ns_conns s c)"
  have l: "link_inv s" and a: "apart_inv s" using i by (simp_all add: nodes_inv_def)
  have c: "cn_ws (ns_conns s c) = w" "ld_nodeId (sk_data k) = ?n"
    using link_invD(1) [OF l k(1)] k(2) by (auto simp: sock_ok_def)
  show ?thesis
  proof (cases "\<exists>b. getLive ?n s = Some b \<and> cn_ws (ns_conns s b) = w")
    case True
    then obtain b where b: "getLive ?n s = Some b" "cn_ws (ns_conns s b) = w" by blast
    have "b = c" using link_invD(2) [OF l, of b] link_invD(3) [OF l b(1)] b(2) k by auto
    then have live: "getLive ?n s = Some c" "getHeld ?n s \<noteq> Some c" using b(1) a by (auto simp: apart_inv_def)
    show ?thesis
      by (rule that [of "s\<lparr>ns_live := jdel ?n (ns_live s)\<rparr>"])
         (use live k c in \<open>simp_all add: handleNodeClose_def Let_def detachConnection_def getLive_def getHeld_def\<close>)
  next
    case False
    then have live: "getLive ?n s \<noteq> Some c" using c(1) by auto
    have "handleNodeClose w s = failConnPendings c (releaseHeld ?n c s)"
      using False k c by (auto simp: handleNodeClose_def Let_def split: option.split)
    then show ?thesis
      by (intro that [of "releaseHeld ?n c s"]) (use live in \<open>auto simp: releaseHeld_def getLive_def getHeld_def\<close>)
  qed
qed

text \<open>
  When a socket closes, no command waits on it for ever: what was waiting for its answer is answered
  at once, and the commands still queued behind it are answered as their turns come, all with offline,
  as soon as as many turns have passed as there were commands.
\<close>

theorem closing_answers_the_queue:
  assumes "jget (ns_socks (nodes_run es)) w = Some k" "sk_conn k = Some c"
    "cn_stage (ns_conns (nodes_run es) c) = Waiting" "length (cn_chain (ns_conns (nodes_run es) c)) \<le> length ls"
  shows "openJtis (ns_conns (fold (advance c) ls (handleNodeClose w (nodes_run es))) c) = {#} \<and>
    (\<lambda>j. Settled j Offline) ` set_mset (openJtis (ns_conns (nodes_run es) c))
      \<subseteq> set (ns_log (fold (advance c) ls (handleNodeClose w (nodes_run es))))"
proof -
  let ?s = "nodes_run es" and ?z = "handleNodeClose w (nodes_run es)"
  let ?cn = "ns_conns ?s c"
  obtain t where t: "ns_conns t = ns_conns ?s" "getLive (cn_nodeId ?cn) t \<noteq> Some c" "getHeld (cn_nodeId ?cn) t \<noteq> Some c"
    "?z = failConnPendings c t \<or> ?z = logOut (RowOffline (cn_nodeId ?cn)) (failConnPendings c t)"
    by (rule close_shape [OF nodes_run_inv assms(1,2)])
  have z: "ns_conns ?z c = ?cn\<lparr>cn_pending := []\<rparr>" "getLive (cn_nodeId ?cn) ?z \<noteq> Some c" "getHeld (cn_nodeId ?cn) ?z \<noteq> Some c"
    using t by (auto simp: failConn_effect logOut_def getLive_def getHeld_def)
  have log: "Settled j Offline \<in> set (ns_log ?z)" if "j \<in> set (cn_pending ?cn)" for j
    using t failConn_effect(4) [of j t c] that by (auto simp: logOut_def)
  have keep: "e \<in> set (ns_log u) \<Longrightarrow> e \<in> set (ns_log (fold (advance c) ls u))" for e and u :: "'a nodes_state"
    by (induction ls arbitrary: u) (auto intro: settled_mono)
  have d: "openJtis (ns_conns (fold (advance c) ls ?z) c) = {#} \<and>
    (\<forall>j \<in> set (map fst (cn_chain (ns_conns ?z c))). Settled j Offline \<in> set (ns_log (fold (advance c) ls ?z)))"
    by (rule gone_drains) (use assms(3,4) z in simp_all)
  then show ?thesis
    using keep [OF log] assms(3) z(1) by (auto simp: openJtis_def queuedJtis_def)
qed

theorem closing_answers_the_queue_witness:
  "openJtis (ns_conns (fold (advance 0) [Fine] (handleNodeClose 0
     (nodes_run (map (Pair demo_env) [Open 0 ''n'' ''key-1'' None, Call ''n'' ''ping''])))) 0) = {#} \<and>
   (\<lambda>j. Settled j Offline) ` set_mset (openJtis (ns_conns (nodes_run (map (Pair demo_env)
       [Open 0 ''n'' ''key-1'' None, Call ''n'' ''ping''])) 0))
      \<subseteq> set (ns_log (fold (advance 0) [Fine] (handleNodeClose 0
        (nodes_run (map (Pair demo_env) [Open 0 ''n'' ''key-1'' None, Call ''n'' ''ping''])))))"
proof (rule closing_answers_the_queue)
  let ?s = "nodes_run (map (Pair demo_env) [Open 0 ''n'' ''key-1'' None, Call ''n'' ''ping''])"
  show "jget (ns_socks ?s) 0 = Some \<lparr>sk_data = openedData ''n'' ''key-1'' None, sk_conn = Some 0, sk_stage = Idle\<rparr>"
    by (simp add: run_eval openedData_def)
  show "cn_stage (ns_conns ?s 0) = Waiting" "length (cn_chain (ns_conns ?s 0)) \<le> length [Fine]"
    by (simp_all add: run_eval)
qed simp

section \<open>Two histories the comments rule out\<close>

text \<open>
  A paired node's first socket is reading its row for a hold when the node's second socket takes over and
  is accepted; the hold then goes through, so that the registry has two records of one node and the row,
  just written for the live socket, reads offline.
\<close>

definition demo_stale :: "'s link_env \<Rightarrow> 's link_env" where
  "demo_stale env = env\<lparr>lk_int := (\<lambda>_. Some 25)\<rparr>"

definition superseded_hold :: "(unit link_env \<times> nevent) list" where
  "superseded_hold =
     map (Pair (demo_stale demo_env)) demo_join @
     map (Pair demo_env)
       [Open 1 ''n'' ''key-1'' (Some ''AA''), Frame 1 9 demo_kx, Frame 1 9 (BytesFrame []), Frame 1 9 (BytesFrame [1]),
        Resume 1, Resume 0]"

theorem superseded_socket_is_held:
  "getLive ''n'' (nodes_run superseded_hold) = Some 1 \<and> getHeld ''n'' (nodes_run superseded_hold) = Some 0 \<and>
   drop 5 (ns_log (nodes_run superseded_hold)) = [RowOffline ''n''] \<and>
   (\<exists>r. Accepted 1 r \<in> set (ns_log (nodes_run superseded_hold)))"
  by (simp add: run_eval superseded_hold_def demo_stale_def supported_floor)

text \<open>
  A command that is not \<open>update\<close> is called while the node is live; before its turn the socket is held,
  and the command is still sent.
\<close>

definition command_after_hold :: "(unit link_env \<times> nevent) list" where
  "command_after_hold =
     map (Pair (demo_stale demo_env))
       (demo_join @ [Call ''n'' ''service'', Resume 0, Advance 0 Fine, Advance 0 Fine, Advance 0 Fine])"

theorem held_node_gets_command:
  "getLive ''n'' (nodes_run command_after_hold) = None \<and> getHeld ''n'' (nodes_run command_after_hold) = Some 0 \<and>
   ns_log (nodes_run command_after_hold) = [SentOk 0 [], RowOffline ''n'', SentSealed 0 0 1 ''service'']"
  by (simp add: run_eval command_after_hold_def demo_stale_def)

end
