(* ===== verification/NodeVerify.thy ===== *)
theory NodeVerify
  imports NodeLink
begin

text \<open>
  The agent's check of a signed command: \<open>packages/subshell-protocol/src/node-signing.ts\<close>.

  The signature library is a parameter: \<open>vk_payload\<close> gives the JSON value of the bytes a token's
  signature vouches for under the pinned key, or nothing when the check or the parse throws.  Numbers
  are compared through \<open>vk_le\<close> and read as integers through \<open>vk_int\<close>; \<open>vk_cmd\<close> is the validator of a
  command's body.
\<close>

section \<open>The two memories\<close>

record 'c verify_env =
  vk_payload :: "string \<Rightarrow> json option"
  vk_le :: "string \<Rightarrow> int \<Rightarrow> bool"
  vk_int :: "string \<Rightarrow> int option"
  vk_cmd :: "json option \<Rightarrow> 'c option"

definition NODE_CMD_ISSUER :: string where "NODE_CMD_ISSUER = ''subshell-control''"

definition IAT_SKEW_SEC :: int where "IAT_SKEW_SEC = 5"

definition JTI_CAPACITY :: nat where "JTI_CAPACITY = 2048"

text \<open>The numbers accepted on one connection rise; the ids seen are kept across connections.\<close>

definition seqAccept :: "int option \<Rightarrow> int \<Rightarrow> bool \<times> int" where
  "seqAccept s prev = (case s of None \<Rightarrow> (False, prev) | Some i \<Rightarrow> if i \<le> prev then (False, prev) else (True, i))"

definition jtiSeen :: "nat \<Rightarrow> string \<Rightarrow> string list \<Rightarrow> bool \<times> string list" where
  "jtiSeen cap j seen =
     (if j \<in> set seen then (True, filter (\<lambda>i. i \<noteq> j) seen @ [j])
      else let added = seen @ [j] in (False, if length added > cap then tl added else added))"

section \<open>Verification\<close>

datatype reject_reason = BadSignature | BadClaims | Replayed | SeqBack | MalformedCommand

datatype 'c verify_outcome =
    Verified 'c string int
  | Rejected reject_reason
  | Threw

record verify_ctx =
  vc_seen :: "string list"
  vc_last :: int

definition audienceMatches :: "json option \<Rightarrow> string \<Rightarrow> bool" where
  "audienceMatches aud want \<longleftrightarrow>
     (case aud of Some (JStr s) \<Rightarrow> s = want | Some (JArr vs) \<Rightarrow> JStr want \<in> set vs | _ \<Rightarrow> False)"

text \<open>A member of what was parsed; reading one of \<open>null\<close> throws.\<close>

definition claimsOk :: "'c verify_env \<Rightarrow> string \<Rightarrow> int \<Rightarrow> (string, json) jmap \<Rightarrow> bool" where
  "claimsOk env node now m \<longleftrightarrow>
     jget m ''iss'' = Some (JStr NODE_CMD_ISSUER) \<and>
     audienceMatches (jget m ''aud'') (''node:'' @ node) \<and>
     (case jget m ''exp'' of Some (JNum n) \<Rightarrow> \<not> vk_le env n now | _ \<Rightarrow> False) \<and>
     (case jget m ''iat'' of Some (JNum n) \<Rightarrow> vk_le env n (now + IAT_SKEW_SEC) | _ \<Rightarrow> False)"

definition gateCommand ::
  "'c verify_env \<Rightarrow> nat \<Rightarrow> (string, json) jmap \<Rightarrow> verify_ctx \<Rightarrow> 'c verify_outcome \<times> verify_ctx" where
  "gateCommand env cap m ctx =
     (case (jget m ''jti'', jget m ''seq'') of
        (Some (JStr j), Some (JNum n)) \<Rightarrow>
          let (dup, seen) = jtiSeen cap j (vc_seen ctx); ctx = ctx\<lparr>vc_seen := seen\<rparr> in
          if dup then (Rejected Replayed, ctx)
          else
            let (ahead, now_at) = seqAccept (vk_int env n) (vc_last ctx); ctx = ctx\<lparr>vc_last := now_at\<rparr> in
            if \<not> ahead then (Rejected SeqBack, ctx)
            else (case vk_cmd env (jget m ''cmd'') of
                    None \<Rightarrow> (Rejected MalformedCommand, ctx)
                  | Some c \<Rightarrow> (Verified c j now_at, ctx))
      | _ \<Rightarrow> (Rejected MalformedCommand, ctx))"

definition verifyCommand ::
  "'c verify_env \<Rightarrow> nat \<Rightarrow> string \<Rightarrow> int \<Rightarrow> string \<Rightarrow> verify_ctx \<Rightarrow> 'c verify_outcome \<times> verify_ctx" where
  "verifyCommand env cap node now jws ctx =
     (case vk_payload env jws of
        None \<Rightarrow> (Rejected BadSignature, ctx)
      | Some JNull \<Rightarrow> (Threw, ctx)
      | Some (JObj m) \<Rightarrow> if claimsOk env node now m then gateCommand env cap m ctx else (Rejected BadClaims, ctx)
      | Some _ \<Rightarrow> (Rejected BadClaims, ctx))"

text \<open>\<open>signCommand\<close>: the claims of a command, valid for half a minute; \<open>num\<close> writes a number.\<close>

definition NODE_CMD_TTL_SEC :: int where "NODE_CMD_TTL_SEC = 30"

definition signedClaims :: "(int \<Rightarrow> string) \<Rightarrow> string \<Rightarrow> string \<Rightarrow> int \<Rightarrow> json \<Rightarrow> int \<Rightarrow> json" where
  "signedClaims num node j q cmd now =
     JObj [(''cmd'', cmd), (''seq'', JNum (num q)), (''iss'', JStr NODE_CMD_ISSUER), (''aud'', JStr (''node:'' @ node)),
       (''jti'', JStr j), (''iat'', JNum (num now)), (''exp'', JNum (num (now + NODE_CMD_TTL_SEC)))]"

section \<open>The memory of ids\<close>

lemma jtiSeen_dup: "fst (jtiSeen cap j seen) \<longleftrightarrow> j \<in> set seen"
  by (simp add: jtiSeen_def Let_def)

lemma jtiSeen_new: "jtiSeen cap j seen = (False, out) \<Longrightarrow> j \<notin> set seen"
  using jtiSeen_dup [of cap j seen] by simp

lemma jtiSeen_distinct: "distinct seen \<Longrightarrow> distinct (snd (jtiSeen cap j seen))"
  by (auto simp: jtiSeen_def Let_def distinct_tl)

lemma jtiSeen_bounded: "length seen \<le> cap \<Longrightarrow> length (snd (jtiSeen cap j seen)) \<le> cap"
proof (cases "j \<in> set seen")
  case True
  then have "length (filter (\<lambda>i. i \<noteq> j) seen) < length seen" by (intro length_filter_less [of j]) auto
  then show "length seen \<le> cap \<Longrightarrow> ?thesis" using True by (simp add: jtiSeen_def)
qed (auto simp: jtiSeen_def Let_def)

text \<open>What came after an id: as long as the id is kept it is followed by ids that were asked later.\<close>

definition after :: "string \<Rightarrow> string list \<Rightarrow> string list" where
  "after j xs = tl (dropWhile (\<lambda>i. i \<noteq> j) xs)"

lemma after_append: "j \<in> set xs \<Longrightarrow> after j (xs @ ys) = after j xs @ ys"
  by (induction xs) (auto simp: after_def)

lemma after_filter: "i \<noteq> j \<Longrightarrow> after j (filter (\<lambda>k. k \<noteq> i) xs) = filter (\<lambda>k. k \<noteq> i) (after j xs)"
  by (induction xs) (auto simp: after_def)

lemma after_tl: "j \<in> set (tl xs) \<Longrightarrow> distinct xs \<Longrightarrow> after j (tl xs) = after j xs"
  by (cases xs) (auto simp: after_def)

lemma after_hd: "xs \<noteq> [] \<Longrightarrow> hd xs = j \<Longrightarrow> after j xs = tl xs"
  by (cases xs) (auto simp: after_def)

lemma after_last: "j \<notin> set xs \<Longrightarrow> after j (xs @ [j]) = []"
  by (induction xs) (auto simp: after_def)

text \<open>
  From the question about an id on, either it is still kept, followed only by later ids, or as many
  other ids as the memory holds were asked in between.
\<close>

definition remembered :: "nat \<Rightarrow> string \<Rightarrow> string set \<Rightarrow> string list \<Rightarrow> bool" where
  "remembered cap j others seen \<longleftrightarrow>
     distinct seen \<and> (j \<in> set seen \<and> set (after j seen) \<subseteq> others \<or> cap \<le> card others)"

lemma after_distinct: "distinct xs \<Longrightarrow> distinct (after j xs) \<and> j \<notin> set (after j xs)"
  by (induction xs) (auto simp: after_def)

lemma remembered_step:
  assumes "remembered cap j others seen" "finite others"
  shows "remembered cap j (if i = j then others else insert i others) (snd (jtiSeen cap i seen))"
proof (cases "cap \<le> card others")
  case True
  then have "cap \<le> card (if i = j then others else insert i others)"
    using assms(2) by (auto simp: card_insert_if)
  then show ?thesis using assms(1) jtiSeen_distinct by (auto simp: remembered_def)
next
  case False
  then have d: "distinct seen" and k: "j \<in> set seen" "set (after j seen) \<subseteq> others"
    using assms(1) by (auto simp: remembered_def)
  let ?out = "snd (jtiSeen cap i seen)"
  have dd: "distinct ?out" by (rule jtiSeen_distinct [OF d])
  consider (self) "i = j" | (old) "i \<noteq> j" "i \<in> set seen" | (new) "i \<noteq> j" "i \<notin> set seen" by blast
  then show ?thesis
  proof cases
    case self
    then have "?out = filter (\<lambda>k. k \<noteq> j) seen @ [j]" using k by (simp add: jtiSeen_def)
    then show ?thesis using self after_last [of j "filter (\<lambda>k. k \<noteq> j) seen"] dd by (simp add: remembered_def)
  next
    case old
    then have o: "?out = filter (\<lambda>k. k \<noteq> i) seen @ [i]" by (simp add: jtiSeen_def)
    then have "after j ?out = filter (\<lambda>k. k \<noteq> i) (after j seen) @ [i]" using after_append after_filter old(1) k(1) by simp
    then show ?thesis using old k dd o by (auto simp: remembered_def)
  next
    case new
    let ?added = "seen @ [i]"
    have a: "after j ?added = after j seen @ [i]" by (rule after_append [OF k(1)])
    show ?thesis
    proof (cases "length ?added > cap")
      case False
      then have "?out = ?added" using new by (simp add: jtiSeen_def)
      then show ?thesis using new k a dd by (auto simp: remembered_def)
    next
      case True
      then have o: "?out = tl ?added" using new by (simp add: jtiSeen_def)
      show ?thesis
      proof (cases "j \<in> set ?out")
        case True
        then have "after j ?out = after j seen @ [i]" using after_tl [of j ?added] o a d new by simp
        then show ?thesis using True new k dd by (auto simp: remembered_def)
      next
        case gone: False
        have "seen \<noteq> []" "hd ?added = j" using gone o k(1) by (cases seen; auto)+
        then have "after j ?added = tl ?added" using after_hd [of ?added j] by simp
        then have "set (tl ?added) = set (after j seen @ [i])" using a by simp
        then have "set (tl ?added) \<subseteq> insert i others" using k(2) by auto
        moreover have "distinct (tl ?added)" using d new by (simp add: distinct_tl)
        ultimately have "length (tl ?added) \<le> card (insert i others)"
          using card_mono [of "insert i others" "set (tl ?added)"] assms(2) by (simp add: distinct_card)
        then have "cap \<le> card (insert i others)" using True by simp
        then show ?thesis using new dd by (simp add: remembered_def)
      qed
    qed
  qed
qed

section \<open>Streams of commands\<close>

text \<open>A question names the pinned control key, through its signature library, and the node the frame is checked for.\<close>

datatype 'c verify_event = Ask "'c verify_env" string int string | NewStream

fun verifyStep :: "nat \<Rightarrow> 'c verify_event \<Rightarrow> verify_ctx \<Rightarrow> 'c verify_outcome list \<times> verify_ctx" where
  "verifyStep cap (Ask env node now jws) ctx = (let (oc, ctx) = verifyCommand env cap node now jws ctx in ([oc], ctx))"
| "verifyStep cap NewStream ctx = ([], ctx\<lparr>vc_last := 0\<rparr>)"

fun verifyRun :: "nat \<Rightarrow> 'c verify_event list \<Rightarrow> verify_ctx \<Rightarrow> 'c verify_outcome list \<times> verify_ctx" where
  "verifyRun cap [] ctx = ([], ctx)"
| "verifyRun cap (e # es) ctx =
     (let (ocs, ctx) = verifyStep cap e ctx; (rest, ctx) = verifyRun cap es ctx in (ocs @ rest, ctx))"

definition verify_start :: verify_ctx where
  "verify_start = \<lparr>vc_seen = [], vc_last = 0\<rparr>"

text \<open>The id under which a frame asks the memory, when its signature and its claims hold.\<close>

fun askedJti :: "'c verify_event \<Rightarrow> string list" where
  "askedJti (Ask env node now jws) =
     (case vk_payload env jws of
        Some (JObj m) \<Rightarrow>
          if claimsOk env node now m
          then (case (jget m ''jti'', jget m ''seq'') of (Some (JStr j), Some (JNum n)) \<Rightarrow> [j] | _ \<Rightarrow> []) else []
      | _ \<Rightarrow> [])"
| "askedJti NewStream = []"

definition askedJtis :: "'c verify_event list \<Rightarrow> string list" where
  "askedJtis es = concat (map (askedJti) es)"

fun verifiedJti :: "'c verify_outcome \<Rightarrow> string list" where
  "verifiedJti (Verified c j q) = [j]"
| "verifiedJti oc = []"

definition verifiedJtis :: "'c verify_outcome list \<Rightarrow> string list" where
  "verifiedJtis ocs = concat (map verifiedJti ocs)"

lemma verifyRun_append:
  "verifyRun cap (es @ fs) ctx =
     (let (a, ctx) = verifyRun cap es ctx; (b, ctx) = verifyRun cap fs ctx in (a @ b, ctx))"
  by (induction es arbitrary: ctx) (auto split: prod.split)

lemma verify_seen:
  "verifyStep cap e ctx = (ocs, ctx') \<Longrightarrow>
   (case askedJti e of [] \<Rightarrow> vc_seen ctx' = vc_seen ctx \<and> verifiedJtis ocs = []
    | j # _ \<Rightarrow> askedJti e = [j] \<and> vc_seen ctx' = snd (jtiSeen cap j (vc_seen ctx)) \<and>
        (verifiedJtis ocs = [] \<or> verifiedJtis ocs = [j] \<and> j \<notin> set (vc_seen ctx)))"
  by (cases e)
     (auto simp: verifyCommand_def gateCommand_def verifiedJtis_def Let_def dest: jtiSeen_new
       split: option.splits json.splits if_split_asm prod.splits)

lemma asked_remembered:
  assumes "j \<notin> set seen" "distinct seen"
  shows "remembered cap j others (snd (jtiSeen cap j seen))"
proof (cases "length (seen @ [j]) > cap")
  case False
  then have "snd (jtiSeen cap j seen) = seen @ [j]" using assms(1) by (simp add: jtiSeen_def)
  then show ?thesis using assms after_last [OF assms(1)] by (simp add: remembered_def)
next
  case True
  then have o: "snd (jtiSeen cap j seen) = tl (seen @ [j])" using assms(1) by (simp add: jtiSeen_def)
  show ?thesis
  proof (cases seen)
    case Nil
    then show ?thesis using True o by (simp add: remembered_def)
  next
    case (Cons x xs)
    then show ?thesis using assms o after_last [of j xs] by (auto simp: remembered_def)
  qed
qed

lemma run_remembers:
  assumes "distinct (vc_seen ctx)"
  shows "distinct (vc_seen (snd (verifyRun cap es ctx))) \<and>
    (\<forall>j \<in> set (askedJtis es).
       remembered cap j (set (askedJtis es) - {j}) (vc_seen (snd (verifyRun cap es ctx))))"
proof (induction es rule: rev_induct)
  case Nil
  then show ?case using assms by (simp add: askedJtis_def)
next
  case (snoc e es)
  let ?A = "set (askedJtis es)" and ?seen = "vc_seen (snd (verifyRun cap es ctx))"
  obtain a c where r: "verifyRun cap es ctx = (a, c)" by fastforce
  obtain ocs c' where s: "verifyStep cap e c = (ocs, c')" by fastforce
  have run: "vc_seen (snd (verifyRun cap (es @ [e]) ctx)) = vc_seen c'"
    using r s by (simp add: verifyRun_append)
  have seen: "?seen = vc_seen c" using r by simp
  have asked: "set (askedJtis (es @ [e])) = ?A \<union> set (askedJti e)" by (simp add: askedJtis_def)
  show ?case
  proof (cases "askedJti e")
    case Nil
    then show ?thesis using verify_seen [OF s] snoc.IH run seen asked by simp
  next
    case (Cons i rest)
    then have i: "askedJti e = [i]" and out: "vc_seen c' = snd (jtiSeen cap i (vc_seen c))"
      using verify_seen [OF s] by simp_all
    have d: "distinct (vc_seen c)" using snoc.IH seen by simp
    have "remembered cap j (insert i ?A - {j}) (vc_seen c')" if "j \<in> insert i ?A" for j
    proof (cases "j \<in> ?A")
      case True
      have eq: "(if i = j then ?A - {j} else insert i (?A - {j})) = insert i ?A - {j}" by auto
      have "remembered cap j (?A - {j}) (vc_seen c)" using snoc.IH True seen by simp
      then show ?thesis using remembered_step [of cap j "?A - {j}" "vc_seen c" i] unfolding out eq by simp
    next
      case False
      then have ij: "i = j" using that by simp
      show ?thesis
      proof (cases "j \<in> set (vc_seen c)")
        case fresh: False
        then show ?thesis using asked_remembered [OF fresh d] ij out by simp
      next
        case True
        then have "snd (jtiSeen cap j (vc_seen c)) = filter (\<lambda>k. k \<noteq> j) (vc_seen c) @ [j]" by (simp add: jtiSeen_def)
        then show ?thesis
          using ij out d after_last [of j "filter (\<lambda>k. k \<noteq> j) (vc_seen c)"] by (simp add: remembered_def)
      qed
    qed
    then show ?thesis using jtiSeen_distinct [OF d] run asked i out by auto
  qed
qed

text \<open>Each id passes the check at most once while the ids asked about fit the memory.\<close>

lemma verified_once:
  assumes "card (set (askedJtis es)) \<le> cap"
  shows "distinct (verifiedJtis (fst (verifyRun cap es verify_start)))"
proof -
  have start: "distinct (vc_seen verify_start)" by (simp add: verify_start_def)
  have "distinct (verifiedJtis (fst (verifyRun cap fs verify_start))) \<and>
    set (verifiedJtis (fst (verifyRun cap fs verify_start))) \<subseteq> set (askedJtis fs)"
    if "set (askedJtis fs) \<subseteq> set (askedJtis es)" for fs
    using that
  proof (induction fs rule: rev_induct)
    case Nil
    then show ?case by (simp add: verifiedJtis_def)
  next
    case (snoc e fs)
    let ?A = "set (askedJtis fs)"
    obtain a c where r: "verifyRun cap fs verify_start = (a, c)" by fastforce
    obtain ocs c' where s: "verifyStep cap e c = (ocs, c')" by fastforce
    have out: "verifiedJtis (fst (verifyRun cap (fs @ [e]) verify_start)) = verifiedJtis a @ verifiedJtis ocs"
      using r s by (simp add: verifyRun_append verifiedJtis_def)
    have asked: "set (askedJtis (fs @ [e])) = ?A \<union> set (askedJti e)" by (simp add: askedJtis_def)
    have IH: "distinct (verifiedJtis a)" "set (verifiedJtis a) \<subseteq> ?A" using snoc r asked by simp_all
    have new: "set (askedJti e) \<subseteq> set (askedJtis es)" using snoc.prems asked by simp
    show ?case
    proof (cases "verifiedJtis ocs")
      case Nil
      then show ?thesis using IH out asked by auto
    next
      case (Cons j rest)
      then have j: "verifiedJtis ocs = [j]" "askedJti e = [j]" "j \<notin> set (vc_seen c)"
        using verify_seen [OF s] by (cases "askedJti e"; simp)+
      have "j \<notin> ?A"
      proof
        assume "j \<in> ?A"
        then have "cap \<le> card (?A - {j})"
          using run_remembers [OF start, of cap fs] j(3) r by (auto simp: remembered_def)
        also have "\<dots> < card ?A" using \<open>j \<in> ?A\<close> by (intro psubset_card_mono) auto
        also have "\<dots> \<le> card (set (askedJtis es))" using snoc.prems asked by (intro card_mono) auto
        finally show False using assms by simp
      qed
      then show ?thesis using IH j out asked by auto
    qed
  qed
  then show ?thesis by blast
qed

section \<open>Signing and verifying\<close>

text \<open>What the check relies on: numbers read as they were written.\<close>

definition reads_numbers :: "'c verify_env \<Rightarrow> (int \<Rightarrow> string) \<Rightarrow> bool" where
  "reads_numbers env num \<longleftrightarrow> (\<forall>i. vk_int env (num i) = Some i \<and> (\<forall>k. vk_le env (num i) k \<longleftrightarrow> i \<le> k))"

text \<open>A frame that carries the claims of a command, its body understood and its time not yet over.\<close>

definition carries :: "'c verify_env \<Rightarrow> (int \<Rightarrow> string) \<Rightarrow> string \<Rightarrow> int \<Rightarrow> string \<Rightarrow> string \<Rightarrow> int \<Rightarrow> 'c \<Rightarrow> bool" where
  "carries env num node now jws j q c \<longleftrightarrow>
     (\<exists>cmd iat. vk_payload env jws = Some (signedClaims num node j q cmd iat) \<and> vk_cmd env (Some cmd) = Some c \<and>
        iat \<le> now + IAT_SKEW_SEC \<and> now < iat + NODE_CMD_TTL_SEC)"

lemma carried_verifies:
  assumes "reads_numbers env num" "carries env num node now jws j q c" "j \<notin> set (vc_seen ctx)" "vc_last ctx < q"
  shows "verifyCommand env cap node now jws ctx = (Verified c j q, \<lparr>vc_seen = snd (jtiSeen cap j (vc_seen ctx)), vc_last = q\<rparr>)"
proof -
  obtain cmd iat where p: "vk_payload env jws = Some (signedClaims num node j q cmd iat)" "vk_cmd env (Some cmd) = Some c"
    "iat \<le> now + IAT_SKEW_SEC" "now < iat + NODE_CMD_TTL_SEC"
    using assms(2) by (auto simp: carries_def)
  obtain seen where j: "jtiSeen cap j (vc_seen ctx) = (False, seen)"
    using jtiSeen_dup [of cap j "vc_seen ctx"] assms(3) by (cases "jtiSeen cap j (vc_seen ctx)") auto
  have s: "seqAccept (vk_int env (num q)) (vc_last ctx) = (True, q)"
    using assms(1,4) by (simp add: reads_numbers_def seqAccept_def)
  have n: "vk_le env (num i) k \<longleftrightarrow> i \<le> k" for i k using assms(1) by (simp add: reads_numbers_def)
  show ?thesis
    using p j s by (simp add: verifyCommand_def signedClaims_def claimsOk_def audienceMatches_def n gateCommand_def)
qed

lemma disjoint_mono: "A \<subseteq> B \<Longrightarrow> T \<subseteq> S \<Longrightarrow> B \<inter> S = {} \<Longrightarrow> A \<inter> T = {}"
  by blast

lemma jtiSeen_subset: "set (snd (jtiSeen cap j seen)) \<subseteq> insert j (set seen)"
  using list.set_sel(2) [of "seen @ [j]"] by (auto simp: jtiSeen_def Let_def)

text \<open>Commands under new ids and rising numbers all pass, in order.\<close>

lemma carried_run:
  assumes "reads_numbers env num" "\<And>j q. (j, q) \<in> set cs \<Longrightarrow> carries env num node (now j) (jws j q) (name j) (int q) (cmd j)"
    and "distinct (map (\<lambda>(j, q). name j) cs)" "name ` fst ` set cs \<inter> set (vc_seen ctx) = {}"
    and "sorted_wrt (<) (map snd cs)" "\<And>j q. (j, q) \<in> set cs \<Longrightarrow> vc_last ctx < int q"
  shows "fst (verifyRun cap (map (\<lambda>(j, q). Ask env node (now j) (jws j q)) cs) ctx) =
    map (\<lambda>(j, q). Verified (cmd j) (name j) (int q)) cs"
  using assms(2-)
proof (induction cs arbitrary: ctx)
  case (Cons x cs)
  obtain j q where x: "x = (j, q)" by fastforce
  let ?ctx = "\<lparr>vc_seen = snd (jtiSeen cap (name j) (vc_seen ctx)), vc_last = int q\<rparr>"
  have v: "verifyCommand env cap node (now j) (jws j q) ctx = (Verified (cmd j) (name j) (int q), ?ctx)"
    by (rule carried_verifies [OF assms(1)]) (use Cons.prems x in auto)
  have "fst (verifyRun cap (map (\<lambda>(j, q). Ask env node (now j) (jws j q)) cs) ?ctx) =
      map (\<lambda>(j, q). Verified (cmd j) (name j) (int q)) cs"
  proof (rule Cons.IH)
    have "name ` fst ` set cs \<inter> set (vc_seen ctx) = {}" "name j \<notin> name ` fst ` set cs"
      using Cons.prems(2,3) x by (auto simp: split_def)
    then have "name ` fst ` set cs \<inter> insert (name j) (set (vc_seen ctx)) = {}" by (simp only: Int_insert_right) simp
    then show "name ` fst ` set cs \<inter> set (vc_seen ?ctx) = {}"
      using disjoint_mono [OF subset_refl jtiSeen_subset [of cap "name j" "vc_seen ctx"]] by simp
  qed (use Cons.prems x in \<open>auto simp: split_def\<close>)
  then show ?case using v by (auto simp: x split: prod.split)
qed simp

end
