(* ===== verification/AgentLink.thy ===== *)
theory AgentLink
  imports NodeVerify NodeSocket
begin

text \<open>
  The agent's end of the node link: the handshake of \<open>apps/node/agent/src/link-crypto.ts\<close> and the
  socket, frames and command execution of \<open>daemon.ts\<close>, as one event machine.

  The daemon dials one socket at a time.  An await is an operation left on the socket (\<open>as_ops\<close>) whose
  outcome is an event of its own, which may come after the socket is gone.  libsodium is \<open>ak_derive\<close> (a
  session and its ephemeral key for the pinned key), \<open>ak_seal\<close>, \<open>ak_open\<close> and \<open>ak_decode\<close>; storing a
  field of the configuration succeeds or fails.  Sealed and opened texts are JSON values.  A frame put on a
  socket that is gone is logged like any other.

  The configuration is reloaded from disk before a dial and on every heartbeat; what the loader read is part
  of the event, nothing when it failed.  \<open>link_config\<close> holds the fields that \<open>connectionIdentity\<close> of
  \<open>config.ts\<close> compares and \<open>applyConnectionFields\<close> swaps, so that the running identity is
  \<open>ad_config\<close> itself; \<open>ak_usable\<close> tells whether the control key, the address and the credential of a
  configuration are accepted, and \<open>ak_verify\<close> is the signature library under a pinned control key.

  The inventory pushes and the reports of changed settings, the update marker and the exit after some close
  codes are not part of it.
\<close>

section \<open>Configuration and sockets\<close>

record link_config =
  lc_serverUrl :: string
  lc_nodeWsUrl :: "string option"
  lc_nodeId :: string
  lc_nodeKey :: string
  lc_controlKey :: string                  \<comment> \<open>what commands are signed with\<close>
  lc_pair :: "(string \<times> string) option"
  lc_pin :: "string option"

datatype agent_phase = AIdle | AAwaitingAck | AAwaitingRegisterOk | APersistingPin | AProvisioned | AEstablished | ADead

datatype agent_mode = AHandshake | ARegister | AIncomplete

datatype agent_op =
    Deriving string string      \<comment> \<open>the session under the pinned key, for the own public key\<close>
  | GeneratingPair string string
  | StoringPair string string
  | DecodingPin string
  | StoringPin string
  | DroppingPin

record 's agent_sock =
  as_automatic :: bool
  as_phase :: agent_phase
  as_session :: "'s option"
  as_mode :: "agent_mode option"
  as_selfRefused :: bool
  as_reached :: bool
  as_decided :: bool
  as_settled :: bool
  as_ops :: "agent_op list"
  as_frames :: "ltext list"
  as_check :: "(string \<times> string) option"   \<comment> \<open>the node and the control key the first of them is checked for\<close>

definition freshSock :: "bool \<Rightarrow> 's agent_sock" where
  "freshSock automatic = \<lparr>as_automatic = automatic, as_phase = AIdle, as_session = None, as_mode = None, as_selfRefused = False,
     as_reached = False, as_decided = False, as_settled = False, as_ops = [], as_frames = [],
     as_check = None\<rparr>"

datatype 'r agent_event =
    ReadyReport
  | Heartbeat
  | CommandResult string 'r
  | VerifyError reject_reason

datatype ('c, 'r) agent_out =
    KxSent nat string string
  | BindingSent nat "octet list"
  | RegisterSent nat string
  | EventSent nat "'r agent_event" "octet list"
  | EventDropped nat "'r agent_event"
  | Hung nat "nat option"
  | PairStored string string
  | PinStored "string option"
  | Executed string 'c
  | Reloaded link_config

record ('s, 'c, 'r) agent_env =
  ak_derive :: "string \<Rightarrow> nat \<Rightarrow> ('s \<times> string) option"
  ak_seal :: "'s \<Rightarrow> json \<Rightarrow> octet list \<times> 's"
  ak_open :: "'s \<Rightarrow> octet list \<Rightarrow> (ltext \<times> 's) option"
  ak_decode :: "string \<Rightarrow> octet list option"
  ak_render :: "'r agent_event \<Rightarrow> json"
  ak_bytes :: "json \<Rightarrow> nat"
  ak_num :: "int \<Rightarrow> string"
  ak_usable :: "link_config \<Rightarrow> bool"
  ak_verify :: "string \<Rightarrow> 'c verify_env"
  ak_jtiOf :: "string \<Rightarrow> string option"
  ak_isInput :: "'c \<Rightarrow> bool"
  ak_reports :: "'c \<Rightarrow> bool"

record 'c task =
  tk_ws :: nat
  tk_jti :: string
  tk_cmd :: 'c

datatype task_state = Queued | Running

text \<open>The loop waits for a connection to end, reloads against the identity it saw, or is about to dial.\<close>

datatype loop_state = LoopWaits | LoopReloads link_config | LoopDials

record ('s, 'c, 'r) agent =
  ad_config :: link_config
  ad_socks :: "(nat, 's agent_sock) jmap"
  ad_next :: nat
  ad_current :: "nat option"
  ad_gate :: "(nat \<times> agent_op) option"    \<comment> \<open>the write of the configuration that was started last\<close>
  ad_turn :: loop_state
  ad_beats :: "(nat \<times> link_config) list"    \<comment> \<open>reloads that heartbeats began\<close>
  ad_verify :: verify_ctx
  ad_results :: "(string, 'r) jmap"
  ad_exec :: "'c task list"
  ad_execState :: task_state
  ad_input :: "'c task list"
  ad_inputState :: task_state
  ad_log :: "('c, 'r) agent_out list"

definition IDEMPOTENCE_CAP :: nat where "IDEMPOTENCE_CAP = 256"

definition jot :: "('c, 'r) agent_out \<Rightarrow> ('s, 'c, 'r) agent \<Rightarrow> ('s, 'c, 'r) agent" where
  "jot e a = a\<lparr>ad_log := ad_log a @ [e]\<rparr>"

definition putSock :: "nat \<Rightarrow> 's agent_sock \<Rightarrow> ('s, 'c, 'r) agent \<Rightarrow> ('s, 'c, 'r) agent" where
  "putSock w k a = a\<lparr>ad_socks := jset w k (ad_socks a)\<rparr>"

section \<open>The handshake\<close>

definition refuseLink :: "nat \<Rightarrow> 's agent_sock \<Rightarrow> ('s, 'c, 'r) agent \<Rightarrow> ('s, 'c, 'r) agent" where
  "refuseLink w k a =
     (if as_phase k = ADead then putSock w k a
      else jot (Hung w (Some NODE_CLOSE_HANDSHAKE_REQUIRED)) (putSock w (k\<lparr>as_phase := ADead, as_selfRefused := True\<rparr>) a))"

definition addOp :: "agent_op \<Rightarrow> 's agent_sock \<Rightarrow> 's agent_sock" where
  "addOp x k = k\<lparr>as_ops := as_ops k @ [x]\<rparr>"

text \<open>\<open>persistLink\<close>: a write of the configuration is started, and the loop will wait for it.\<close>

definition startPersist :: "nat \<Rightarrow> agent_op \<Rightarrow> 's agent_sock \<Rightarrow> ('s, 'c, 'r) agent \<Rightarrow> ('s, 'c, 'r) agent" where
  "startPersist w x k a = putSock w (addOp x k) (a\<lparr>ad_gate := Some (w, x)\<rparr>)"

definition registerWith :: "nat \<Rightarrow> string \<Rightarrow> 's agent_sock \<Rightarrow> ('s, 'c, 'r) agent \<Rightarrow> ('s, 'c, 'r) agent" where
  "registerWith w pub k a = jot (RegisterSent w pub) (putSock w (k\<lparr>as_phase := AAwaitingRegisterOk\<rparr>) a)"

text \<open>\<open>begin\<close>; \<open>made\<close> is the key pair that a registration without one generates.\<close>

definition beginLink :: "nat \<Rightarrow> string \<times> string \<Rightarrow> 's agent_sock \<Rightarrow> ('s, 'c, 'r) agent \<Rightarrow> ('s, 'c, 'r) agent" where
  "beginLink w made k a =
     (case (lc_pair (ad_config a), lc_pin (ad_config a)) of
        (Some (pub, priv), Some pin) \<Rightarrow> putSock w (addOp (Deriving pin pub) (k\<lparr>as_mode := Some AHandshake\<rparr>)) a
      | (Some (pub, priv), None) \<Rightarrow> registerWith w pub (k\<lparr>as_mode := Some ARegister\<rparr>) a
      | (None, None) \<Rightarrow> putSock w (addOp (GeneratingPair (fst made) (snd made)) (k\<lparr>as_mode := Some ARegister\<rparr>)) a
      | (None, Some pin) \<Rightarrow> refuseLink w (k\<lparr>as_mode := Some AIncomplete\<rparr>) a)"

definition bindingOf :: "('s, 'c, 'r) agent_env \<Rightarrow> link_config \<Rightarrow> json" where
  "bindingOf env c = JObj [(''nodeId'', JStr (lc_nodeId c)), (''nodeKey'', JStr (lc_nodeKey c)),
     (''protocolVersion'', JNum (ak_num env NODE_PROTOCOL_VERSION))]"

definition derived ::
  "('s, 'c, 'r) agent_env \<Rightarrow> nat \<Rightarrow> string \<Rightarrow> ('s \<times> string) option \<Rightarrow> 's agent_sock \<Rightarrow> ('s, 'c, 'r) agent \<Rightarrow> ('s, 'c, 'r) agent" where
  "derived env w pub got k a =
     (case got of
        None \<Rightarrow> refuseLink w k a
      | Some (s, eph) \<Rightarrow>
          if as_phase k = ADead then putSock w k a
          else
            let (sealed, s') = ak_seal env s (bindingOf env (ad_config a)) in
            jot (BindingSent w sealed) (jot (KxSent w eph pub)
              (putSock w (k\<lparr>as_phase := AAwaitingAck, as_session := Some s'\<rparr>) a)))"

definition pairStored ::
  "nat \<Rightarrow> string \<Rightarrow> string \<Rightarrow> bool \<Rightarrow> 's agent_sock \<Rightarrow> ('s, 'c, 'r) agent \<Rightarrow> ('s, 'c, 'r) agent" where
  "pairStored w pub priv ok k a =
     (if \<not> ok then refuseLink w k a
      else
        let a = jot (PairStored pub priv) (a\<lparr>ad_config := (ad_config a)\<lparr>lc_pair := Some (pub, priv)\<rparr>\<rparr>) in
        if as_phase k = ADead then putSock w k a else registerWith w pub k a)"

definition pinStored :: "nat \<Rightarrow> string \<Rightarrow> bool \<Rightarrow> 's agent_sock \<Rightarrow> ('s, 'c, 'r) agent \<Rightarrow> ('s, 'c, 'r) agent" where
  "pinStored w pin ok k a =
     (if \<not> ok then refuseLink w k a
      else jot (Hung w None) (jot (PinStored (Some pin))
             (putSock w (k\<lparr>as_phase := AProvisioned\<rparr>) (a\<lparr>ad_config := (ad_config a)\<lparr>lc_pin := Some pin\<rparr>\<rparr>))))"

definition pinDropped :: "nat \<Rightarrow> bool \<Rightarrow> 's agent_sock \<Rightarrow> ('s, 'c, 'r) agent \<Rightarrow> ('s, 'c, 'r) agent" where
  "pinDropped w ok k a =
     (if ok then jot (PinStored None) (putSock w k (a\<lparr>ad_config := (ad_config a)\<lparr>lc_pin := None\<rparr>\<rparr>)) else putSock w k a)"

text \<open>An operation of a socket has its outcome; the key exchange draws its ephemeral key from \<open>seed\<close>.\<close>

definition opOutcome ::
  "('s, 'c, 'r) agent_env \<Rightarrow> nat \<Rightarrow> agent_op \<Rightarrow> bool \<Rightarrow> nat \<Rightarrow> 's agent_sock \<Rightarrow> ('s, 'c, 'r) agent \<Rightarrow> ('s, 'c, 'r) agent" where
  "opOutcome env w x ok seed k a =
     (case x of
        Deriving pin pub \<Rightarrow> derived env w pub (ak_derive env pin seed) k a
      | GeneratingPair pub priv \<Rightarrow> if ok then startPersist w (StoringPair pub priv) k a else refuseLink w k a
      | StoringPair pub priv \<Rightarrow> pairStored w pub priv ok k a
      | DecodingPin pin \<Rightarrow>
          (case ak_decode env pin of
             Some b \<Rightarrow> if length b = 32 then startPersist w (StoringPin pin) k a else refuseLink w k a
           | None \<Rightarrow> refuseLink w k a)
      | StoringPin pin \<Rightarrow> pinStored w pin ok k a
      | DroppingPin \<Rightarrow> pinDropped w ok k a)"

definition opDone ::
  "('s, 'c, 'r) agent_env \<Rightarrow> nat \<Rightarrow> nat \<Rightarrow> bool \<Rightarrow> nat \<Rightarrow> ('s, 'c, 'r) agent \<Rightarrow> ('s, 'c, 'r) agent" where
  "opDone env w i ok seed a =
     (case jget (ad_socks a) w of
        None \<Rightarrow> a
      | Some k \<Rightarrow>
          if length (as_ops k) \<le> i then a
          else
            opOutcome env w (as_ops k ! i) ok seed (k\<lparr>as_ops := take i (as_ops k) @ drop (Suc i) (as_ops k)\<rparr>)
              (a\<lparr>ad_gate := (if ad_gate a = Some (w, as_ops k ! i) then None else ad_gate a)\<rparr>))"

definition parseRegisterOkFrame :: "ltext \<Rightarrow> string option" where
  "parseRegisterOkFrame v =
     (case v of
        Some (JObj m) \<Rightarrow> if strField m ''t'' \<noteq> Some ''register-ok'' then None else b64Field m ''controlEncryptPublicKey''
      | _ \<Rightarrow> None)"

definition parseLinkAck :: "ltext \<Rightarrow> bool" where
  "parseLinkAck v \<longleftrightarrow> (case v of Some (JObj m) \<Rightarrow> strField m ''t'' = Some ''ok'' | _ \<Rightarrow> False)"

definition onTextFrame :: "nat \<Rightarrow> ltext \<Rightarrow> 's agent_sock \<Rightarrow> ('s, 'c, 'r) agent \<Rightarrow> ('s, 'c, 'r) agent" where
  "onTextFrame w t k a =
     (if as_phase k = ADead \<or> as_phase k = AProvisioned then a
      else if as_phase k = AAwaitingRegisterOk
      then (case parseRegisterOkFrame t of
              Some pin \<Rightarrow> putSock w (addOp (DecodingPin pin) (k\<lparr>as_phase := APersistingPin\<rparr>)) a
            | None \<Rightarrow> refuseLink w k a)
      else refuseLink w k a)"

section \<open>The daemon\<close>

text \<open>\<open>send\<close>: nothing leaves but sealed under the link of the socket that is current.\<close>

definition sendEvent ::
  "('s, 'c, 'r) agent_env \<Rightarrow> nat \<Rightarrow> 'r agent_event \<Rightarrow> ('s, 'c, 'r) agent \<Rightarrow> ('s, 'c, 'r) agent" where
  "sendEvent env w ev a =
     (if ak_bytes env (ak_render env ev) > NODE_MAX_FRAME_BYTES \<or> ad_current a \<noteq> Some w then jot (EventDropped w ev) a
      else
        (case jget (ad_socks a) w of
           None \<Rightarrow> jot (EventDropped w ev) a
         | Some k \<Rightarrow>
             (case (if as_phase k = AEstablished then as_session k else None) of
                None \<Rightarrow> jot (EventDropped w ev) a
              | Some s \<Rightarrow>
                  let (sealed, s') = ak_seal env s (ak_render env ev) in
                  jot (EventSent w ev sealed) (putSock w (k\<lparr>as_session := Some s'\<rparr>) a))))"

definition onBytesFrame ::
  "('s, 'c, 'r) agent_env \<Rightarrow> nat \<Rightarrow> octet list \<Rightarrow> 's agent_sock \<Rightarrow> ('s, 'c, 'r) agent \<Rightarrow> ('s, 'c, 'r) agent" where
  "onBytesFrame env w bytes k a =
     (case as_phase k of
        ADead \<Rightarrow> a
      | AProvisioned \<Rightarrow> a
      | APersistingPin \<Rightarrow> a
      | AEstablished \<Rightarrow>
          (case (case as_session k of None \<Rightarrow> None | Some s \<Rightarrow> ak_open env s bytes) of
             None \<Rightarrow> refuseLink w k a
           | Some (t, s') \<Rightarrow> putSock w (k\<lparr>as_session := Some s', as_frames := as_frames k @ [t]\<rparr>) a)
      | AAwaitingAck \<Rightarrow>
          (case (case as_session k of None \<Rightarrow> None | Some s \<Rightarrow> ak_open env s bytes) of
             None \<Rightarrow> refuseLink w k a
           | Some (t, s') \<Rightarrow>
               let k = k\<lparr>as_session := Some s'\<rparr> in
               if \<not> parseLinkAck t then refuseLink w k a
               else sendEvent env w ReadyReport (putSock w (k\<lparr>as_phase := AEstablished, as_reached := True\<rparr>) a))
      | _ \<Rightarrow> if as_mode k = Some ARegister \<or> as_mode k = Some AIncomplete then a else refuseLink w k a)"

text \<open>A result that was given before is given again; the result of a new command is remembered, up to a cap.\<close>

definition rememberResult :: "string \<Rightarrow> 'r \<Rightarrow> (string, 'r) jmap \<Rightarrow> (string, 'r) jmap" where
  "rememberResult j r m = (let m = jset j r m in if length m > IDEMPOTENCE_CAP then tl m else m)"

definition commandFrame ::
  "('s, 'c, 'r) agent_env \<Rightarrow> nat \<Rightarrow> string \<Rightarrow> string \<Rightarrow> int \<Rightarrow> ltext \<Rightarrow> ('s, 'c, 'r) agent \<Rightarrow> ('s, 'c, 'r) agent" where
  "commandFrame env w node controlKey now t a =
     (case (case t of Some (JObj m) \<Rightarrow> strField m ''jws'' | _ \<Rightarrow> None) of
        None \<Rightarrow> sendEvent env w (VerifyError MalformedCommand) a
      | Some jws \<Rightarrow>
          let (oc, ctx) = verifyCommand (ak_verify env controlKey) JTI_CAPACITY node now jws (ad_verify a);
              a = a\<lparr>ad_verify := ctx\<rparr>
          in case oc of
               Threw \<Rightarrow> a
             | Rejected r \<Rightarrow>
                 let a = sendEvent env w (VerifyError r) a in
                 if r = Replayed
                 then (case ak_jtiOf env jws of
                         None \<Rightarrow> a
                       | Some j \<Rightarrow>
                           (case jget (ad_results a) j of
                              None \<Rightarrow> a
                            | Some x \<Rightarrow> sendEvent env w (CommandResult j x) a))
                 else if r = SeqBack then jot (Hung w (Some 1000)) a else a
             | Verified c j q \<Rightarrow>
                 let task = \<lparr>tk_ws = w, tk_jti = j, tk_cmd = c\<rparr> in
                 if ak_isInput env c then a\<lparr>ad_input := ad_input a @ [task]\<rparr> else a\<lparr>ad_exec := ad_exec a @ [task]\<rparr>)"

definition onFrame ::
  "('s, 'c, 'r) agent_env \<Rightarrow> nat \<Rightarrow> string \<Rightarrow> string \<Rightarrow> int \<Rightarrow> ltext \<Rightarrow> ('s, 'c, 'r) agent \<Rightarrow> ('s, 'c, 'r) agent" where
  "onFrame env w node controlKey now t a =
     (let type = (case t of Some (JObj m) \<Rightarrow> strField m ''type'' | _ \<Rightarrow> None) in
      if type = Some ''relay'' \<or> type = Some ''preview_data'' then a else commandFrame env w node controlKey now t a)"

text \<open>
  The next frame of a socket's chain: once the one before is through, its check starts under the control
  key and for the node of that moment, and when the check is through the frame is handled.
\<close>

definition checkFrame :: "nat \<Rightarrow> ('s, 'c, 'r) agent \<Rightarrow> ('s, 'c, 'r) agent" where
  "checkFrame w a =
     (case jget (ad_socks a) w of
        None \<Rightarrow> a
      | Some k \<Rightarrow>
          if as_frames k = [] \<or> as_check k \<noteq> None then a
          else putSock w (k\<lparr>as_check := Some (lc_nodeId (ad_config a), lc_controlKey (ad_config a))\<rparr>) a)"

definition handleFrame :: "('s, 'c, 'r) agent_env \<Rightarrow> nat \<Rightarrow> int \<Rightarrow> ('s, 'c, 'r) agent \<Rightarrow> ('s, 'c, 'r) agent" where
  "handleFrame env w now a =
     (case jget (ad_socks a) w of
        None \<Rightarrow> a
      | Some k \<Rightarrow>
          (case (as_frames k, as_check k) of
             (t # rest, Some (node, controlKey)) \<Rightarrow>
               onFrame env w node controlKey now t (putSock w (k\<lparr>as_frames := rest, as_check := None\<rparr>) a)
           | _ \<Rightarrow> a))"

text \<open>
  The two chains of execution, the one for input and the one for everything else: the head is looked
  up among the results, else it runs; when it is done its result is remembered and sent.
\<close>

definition chainOf :: "bool \<Rightarrow> ('s, 'c, 'r) agent \<Rightarrow> 'c task list \<times> task_state" where
  "chainOf input a = (if input then (ad_input a, ad_inputState a) else (ad_exec a, ad_execState a))"

definition setChain :: "bool \<Rightarrow> 'c task list \<Rightarrow> task_state \<Rightarrow> ('s, 'c, 'r) agent \<Rightarrow> ('s, 'c, 'r) agent" where
  "setChain input ts st a =
     (if input then a\<lparr>ad_input := ts, ad_inputState := st\<rparr> else a\<lparr>ad_exec := ts, ad_execState := st\<rparr>)"

definition startTask :: "('s, 'c, 'r) agent_env \<Rightarrow> bool \<Rightarrow> ('s, 'c, 'r) agent \<Rightarrow> ('s, 'c, 'r) agent" where
  "startTask env input a =
     (case chainOf input a of
        (task # rest, Queued) \<Rightarrow>
          (case jget (ad_results a) (tk_jti task) of
             Some r \<Rightarrow> sendEvent env (tk_ws task) (CommandResult (tk_jti task) r) (setChain input rest Queued a)
           | None \<Rightarrow> jot (Executed (tk_jti task) (tk_cmd task)) (setChain input (task # rest) Running a))
      | _ \<Rightarrow> a)"

definition finishTask :: "('s, 'c, 'r) agent_env \<Rightarrow> bool \<Rightarrow> 'r \<Rightarrow> ('s, 'c, 'r) agent \<Rightarrow> ('s, 'c, 'r) agent" where
  "finishTask env input r a =
     (case chainOf input a of
        (task # rest, Running) \<Rightarrow>
          let a = setChain input rest Queued (a\<lparr>ad_results := rememberResult (tk_jti task) r (ad_results a)\<rparr>);
              a = (if ak_reports env (tk_cmd task) then sendEvent env (tk_ws task) Heartbeat a else a)
          in sendEvent env (tk_ws task) (CommandResult (tk_jti task) r) a
      | _ \<Rightarrow> a)"

section \<open>Connections\<close>

text \<open>
  \<open>refreshConnectionConfig\<close>, from its read on: a configuration that cannot be used, or that was read
  while another reload swapped the identity this one began with, is not applied.
\<close>

definition refreshConfig ::
  "('s, 'c, 'r) agent_env \<Rightarrow> link_config \<Rightarrow> link_config option \<Rightarrow> ('s, 'c, 'r) agent \<Rightarrow> bool \<times> ('s, 'c, 'r) agent" where
  "refreshConfig env baseline got a =
     (case got of
        None \<Rightarrow> (False, a)
      | Some fresh \<Rightarrow>
          if fresh = ad_config a \<or> \<not> ak_usable env fresh \<or> ad_config a \<noteq> baseline then (False, a)
          else (True, jot (Reloaded fresh) (a\<lparr>ad_config := fresh\<rparr>)))"

text \<open>
  The loop waits for the last socket to finish and for the last write that was started, reloads, picks a
  route, and dials; a write may start in between.
\<close>

definition loopTurn :: "('s, 'c, 'r) agent \<Rightarrow> ('s, 'c, 'r) agent" where
  "loopTurn a =
     (if ad_turn a = LoopWaits \<and> list_all (\<lambda>wk. as_settled (snd wk)) (ad_socks a) \<and> ad_gate a = None
      then a\<lparr>ad_turn := LoopReloads (ad_config a)\<rparr> else a)"

definition loopReload :: "('s, 'c, 'r) agent_env \<Rightarrow> link_config option \<Rightarrow> ('s, 'c, 'r) agent \<Rightarrow> ('s, 'c, 'r) agent" where
  "loopReload env got a =
     (case ad_turn a of
        LoopReloads baseline \<Rightarrow> (snd (refreshConfig env baseline got a))\<lparr>ad_turn := LoopDials\<rparr>
      | _ \<Rightarrow> a)"

definition dial :: "bool \<Rightarrow> ('s, 'c, 'r) agent \<Rightarrow> ('s, 'c, 'r) agent" where
  "dial automatic a =
     (if ad_turn a \<noteq> LoopDials then a
      else putSock (ad_next a) (freshSock automatic)
             (a\<lparr>ad_next := Suc (ad_next a), ad_current := Some (ad_next a), ad_turn := LoopWaits,
                ad_verify := (ad_verify a)\<lparr>vc_last := 0\<rparr>\<rparr>))"

definition linkClosed :: "nat \<Rightarrow> nat \<Rightarrow> 's agent_sock \<Rightarrow> ('s, 'c, 'r) agent \<Rightarrow> ('s, 'c, 'r) agent" where
  "linkClosed w code k a =
     (if as_decided k then putSock w k a
      else
        let k = k\<lparr>as_decided := True\<rparr> in
        if code = NODE_CLOSE_REPAIR_REQUIRED \<and> \<not> as_selfRefused k \<and> as_mode k = Some AHandshake \<and> \<not> as_reached k
        then startPersist w DroppingPin k a else putSock w k a)"

definition finishSock :: "nat \<Rightarrow> nat \<Rightarrow> ('s, 'c, 'r) agent \<Rightarrow> ('s, 'c, 'r) agent" where
  "finishSock w code a =
     (case jget (ad_socks a) w of
        None \<Rightarrow> a
      | Some k \<Rightarrow>
          if as_settled k then a
          else
            let code = (if as_automatic k \<and> as_phase k \<noteq> AEstablished then 1006 else code) in
            linkClosed w code (k\<lparr>as_settled := True\<rparr>)
              (a\<lparr>ad_current := (if ad_current a = Some w then None else ad_current a)\<rparr>))"

text \<open>A direct route has ten seconds to establish.\<close>

definition connectTimeout :: "nat \<Rightarrow> ('s, 'c, 'r) agent \<Rightarrow> ('s, 'c, 'r) agent" where
  "connectTimeout w a =
     (case jget (ad_socks a) w of
        None \<Rightarrow> a
      | Some k \<Rightarrow>
          if as_automatic k \<and> \<not> as_settled k \<and> \<not> as_reached k then jot (Hung w None) (finishSock w 1006 a) else a)"

text \<open>A beat of the timer that runs from the acknowledgement to the end of the socket, and the reload it begins.\<close>

definition heartbeat :: "('s, 'c, 'r) agent_env \<Rightarrow> nat \<Rightarrow> ('s, 'c, 'r) agent \<Rightarrow> ('s, 'c, 'r) agent" where
  "heartbeat env w a =
     (case jget (ad_socks a) w of
        None \<Rightarrow> a
      | Some k \<Rightarrow>
          if as_settled k \<or> \<not> as_reached k then a
          else let a = sendEvent env w Heartbeat a in a\<lparr>ad_beats := ad_beats a @ [(w, ad_config a)]\<rparr>)"

definition beatReload :: "('s, 'c, 'r) agent_env \<Rightarrow> nat \<Rightarrow> link_config option \<Rightarrow> ('s, 'c, 'r) agent \<Rightarrow> ('s, 'c, 'r) agent" where
  "beatReload env i got a =
     (if length (ad_beats a) \<le> i then a
      else
        let (w, baseline) = ad_beats a ! i;
            (changed, a) = refreshConfig env baseline got (a\<lparr>ad_beats := take i (ad_beats a) @ drop (Suc i) (ad_beats a)\<rparr>)
        in if changed then jot (Hung w (Some 1000)) a else a)"

text \<open>What arrives on a socket that is not finished.\<close>

definition arrive ::
  "nat \<Rightarrow> ('s agent_sock \<Rightarrow> ('s, 'c, 'r) agent \<Rightarrow> ('s, 'c, 'r) agent) \<Rightarrow> ('s, 'c, 'r) agent \<Rightarrow> ('s, 'c, 'r) agent" where
  "arrive w f a = (case jget (ad_socks a) w of None \<Rightarrow> a | Some k \<Rightarrow> if as_settled k then a else f k a)"

definition admitFrame ::
  "('s, 'c, 'r) agent_env \<Rightarrow> nat \<Rightarrow> nat \<Rightarrow> link_frame \<Rightarrow> 's agent_sock \<Rightarrow> ('s, 'c, 'r) agent \<Rightarrow> ('s, 'c, 'r) agent" where
  "admitFrame env w len f k a =
     (if len > NODE_MAX_FRAME_BYTES then a
      else (case f of TextFrame t \<Rightarrow> onTextFrame w t k a | BytesFrame b \<Rightarrow> onBytesFrame env w b k a))"

datatype 'r agent_move =
    LoopTurn
  | LoopReload "link_config option"
  | Dial bool
  | Opened nat "string \<times> string"
  | OpDone nat nat bool nat
  | Arrived nat nat link_frame
  | CheckFrame nat
  | HandleFrame nat int
  | StartTask bool
  | FinishTask bool 'r
  | SocketClosed nat nat
  | ConnectTimeout nat
  | Beat nat
  | BeatReload nat "link_config option"

fun agent_step :: "('s, 'c, 'r) agent_env \<Rightarrow> 'r agent_move \<Rightarrow> ('s, 'c, 'r) agent \<Rightarrow> ('s, 'c, 'r) agent" where
  "agent_step env LoopTurn a = loopTurn a"
| "agent_step env (LoopReload got) a = loopReload env got a"
| "agent_step env (Dial automatic) a = dial automatic a"
| "agent_step env (Opened w made) a = arrive w (\<lambda>k. if as_mode k = None then beginLink w made k else (\<lambda>a. a)) a"
| "agent_step env (OpDone w i ok seed) a = opDone env w i ok seed a"
| "agent_step env (Arrived w len f) a = arrive w (admitFrame env w len f) a"
| "agent_step env (CheckFrame w) a = checkFrame w a"
| "agent_step env (HandleFrame w now) a = handleFrame env w now a"
| "agent_step env (StartTask input) a = startTask env input a"
| "agent_step env (FinishTask input r) a = finishTask env input r a"
| "agent_step env (SocketClosed w code) a = finishSock w code a"
| "agent_step env (ConnectTimeout w) a = connectTimeout w a"
| "agent_step env (Beat w) a = heartbeat env w a"
| "agent_step env (BeatReload i got) a = beatReload env i got a"

definition agent_start :: "link_config \<Rightarrow> ('s, 'c, 'r) agent" where
  "agent_start c = \<lparr>ad_config = c, ad_socks = [], ad_next = 0, ad_current = None, ad_gate = None,
     ad_turn = LoopWaits, ad_beats = [], ad_verify = verify_start, ad_results = [],
     ad_exec = [], ad_execState = Queued, ad_input = [], ad_inputState = Queued, ad_log = []\<rparr>"

definition agent_run :: "('s, 'c, 'r) agent_env \<Rightarrow> link_config \<Rightarrow> 'r agent_move list \<Rightarrow> ('s, 'c, 'r) agent" where
  "agent_run env c ms = fold (agent_step env) ms (agent_start c)"

end
