(* ===== verification/AgentSafety.thy ===== *)
theory AgentSafety
  imports AgentLink
begin

text \<open>
  What the agent's end of the link guarantees over every run: a command is executed at most once,
  nothing but the handshake leaves unsealed, no key is used but that of a configuration that was in force,
  and the plane's pinned key is given up only on the plane's demand or by a reload.
\<close>

section \<open>What an operation leaves alone\<close>

fun executedBy :: "('c, 'r) agent_out \<Rightarrow> string list" where
  "executedBy (Executed j c) = [j]"
| "executedBy e = []"

definition executedJtis :: "('s, 'c, 'r) agent \<Rightarrow> string list" where
  "executedJtis a = concat (map executedBy (ad_log a))"

definition waitingTasks :: "'c task list \<times> task_state \<Rightarrow> 'c task list" where
  "waitingTasks q = (case snd q of Queued \<Rightarrow> fst q | Running \<Rightarrow> tl (fst q))"

definition owed :: "('s, 'c, 'r) agent \<Rightarrow> string multiset" where
  "owed a = mset (executedJtis a) + mset (map tk_jti (waitingTasks (chainOf True a))) +
     mset (map tk_jti (waitingTasks (chainOf False a)))"

text \<open>A step that verifies nothing, executes nothing and leaves the chains alone.\<close>

definition idleStep :: "('s, 'c, 'r) agent \<Rightarrow> ('s, 'c, 'r) agent \<Rightarrow> bool" where
  "idleStep a b \<longleftrightarrow> ad_verify b = ad_verify a \<and> executedJtis b = executedJtis a \<and> ad_exec b = ad_exec a \<and>
     ad_execState b = ad_execState a \<and> ad_input b = ad_input a \<and> ad_inputState b = ad_inputState a"

lemma idle_refl [simp]: "idleStep a a"
  by (simp add: idleStep_def)

lemma idle_trans: "idleStep a b \<Longrightarrow> idleStep b c \<Longrightarrow> idleStep a c"
  by (simp add: idleStep_def)

lemma idle_jot [simp]: "executedBy e = [] \<Longrightarrow> idleStep a (jot e b) = idleStep a b"
  by (simp add: idleStep_def jot_def executedJtis_def)

lemma idle_putSock [simp]: "idleStep a (putSock w k b) = idleStep a b"
  by (simp add: idleStep_def putSock_def executedJtis_def)

lemma idle_config [simp]: "idleStep a (b\<lparr>ad_config := c\<rparr>) = idleStep a b"
  by (simp add: idleStep_def executedJtis_def)

lemma idle_gate [simp]: "idleStep a (b\<lparr>ad_gate := g\<rparr>) = idleStep a b"
  by (simp add: idleStep_def executedJtis_def)

lemma idle_persist [simp]: "idleStep a (startPersist w x k b) = idleStep a b"
  by (simp add: startPersist_def)

lemma idle_turns [simp]: "idleStep a (b\<lparr>ad_turn := t\<rparr>) = idleStep a b" "idleStep a (b\<lparr>ad_beats := bs\<rparr>) = idleStep a b"
  by (simp_all add: idleStep_def executedJtis_def)

lemma idle_turn: "idleStep a (loopTurn a)"
  by (simp add: loopTurn_def)

lemma idle_refresh: "idleStep a b \<Longrightarrow> idleStep a (snd (refreshConfig env base got b))"
  by (simp add: refreshConfig_def split: option.split)

lemma idle_reload: "idleStep a (loopReload env got a)"
  by (simp add: loopReload_def idle_refresh split: loop_state.split)

lemma idle_check: "idleStep a (checkFrame w a)"
  by (simp add: checkFrame_def split: option.split)

lemma idle_send: "idleStep a (sendEvent env w ev a)"
  by (simp add: sendEvent_def Let_def split: option.split prod.split)

lemma idle_refuse [simp]: "idleStep a (refuseLink w k b) = idleStep a b"
  by (simp add: refuseLink_def)

lemma idle_register [simp]: "idleStep a (registerWith w pub k b) = idleStep a b"
  by (simp add: registerWith_def)

lemma idle_opDone: "idleStep a (opDone env w i ok seed a)"
  by (simp add: opDone_def opOutcome_def derived_def pairStored_def pinStored_def pinDropped_def Let_def
      split: option.split agent_op.split prod.split)

lemma idle_arrived: "idleStep a (arrive w (admitFrame env w len f) a)"
  by (simp add: arrive_def admitFrame_def onTextFrame_def onBytesFrame_def Let_def idle_trans [OF _ idle_send]
      split: option.split link_frame.split agent_phase.split prod.split)

lemma idle_opened: "idleStep a (arrive w (\<lambda>k. if as_mode k = None then beginLink w made k else (\<lambda>a. a)) a)"
  by (simp add: arrive_def beginLink_def split: option.split prod.split)

lemma idle_finish: "idleStep a (finishSock w code a)"
  by (simp add: finishSock_def linkClosed_def startPersist_def Let_def idleStep_def putSock_def executedJtis_def
      split: option.split)

lemma idle_timeout: "idleStep a (connectTimeout w a)"
  by (simp add: connectTimeout_def idle_finish split: option.split)

lemma idle_heartbeat: "idleStep a (heartbeat env w a)"
  by (simp add: heartbeat_def Let_def idle_send split: option.split)

lemma idle_beatReload: "idleStep a (beatReload env i got a)"
  using idle_refresh [of a "a\<lparr>ad_beats := take i (ad_beats a) @ drop (Suc i) (ad_beats a)\<rparr>" env "snd (ad_beats a ! i)" got]
  by (auto simp: beatReload_def Let_def split: prod.split)

section \<open>A command is executed once\<close>

text \<open>The questions a run puts to the check of commands, and the connections it starts.\<close>

definition asksIn :: "('s, 'c, 'r) agent_env \<Rightarrow> string \<Rightarrow> string \<Rightarrow> int \<Rightarrow> ltext \<Rightarrow> 'c verify_event list" where
  "asksIn env node key now t =
     (case t of
        Some (JObj x) \<Rightarrow>
          if strField x ''type'' = Some ''relay'' \<or> strField x ''type'' = Some ''preview_data'' then []
          else (case strField x ''jws'' of Some jws \<Rightarrow> [Ask (ak_verify env key) node now jws] | None \<Rightarrow> [])
      | _ \<Rightarrow> [])"

definition askOf :: "('s, 'c, 'r) agent_env \<Rightarrow> 'r agent_move \<Rightarrow> ('s, 'c, 'r) agent \<Rightarrow> 'c verify_event list" where
  "askOf env m a =
     (case m of
        Dial automatic \<Rightarrow> if ad_turn a = LoopDials then [NewStream] else []
      | HandleFrame w now \<Rightarrow>
          (case jget (ad_socks a) w of
             Some k \<Rightarrow>
               (case (as_frames k, as_check k) of
                  (t # rest, Some (node, key)) \<Rightarrow> asksIn env node key now t
                | _ \<Rightarrow> [])
           | None \<Rightarrow> [])
      | _ \<Rightarrow> [])"

fun askStream :: "('s, 'c, 'r) agent_env \<Rightarrow> 'r agent_move list \<Rightarrow> ('s, 'c, 'r) agent \<Rightarrow> 'c verify_event list" where
  "askStream env [] a = []"
| "askStream env (m # ms) a = askOf env m a @ askStream env ms (agent_step env m a)"

definition busy_ok :: "('s, 'c, 'r) agent \<Rightarrow> bool" where
  "busy_ok a \<longleftrightarrow> (ad_execState a = Running \<longrightarrow> ad_exec a \<noteq> []) \<and> (ad_inputState a = Running \<longrightarrow> ad_input a \<noteq> [])"

definition once_inv :: "'c verify_event list \<Rightarrow> ('s, 'c, 'r) agent \<Rightarrow> bool" where
  "once_inv vs a \<longleftrightarrow>
     busy_ok a \<and> ad_verify a = snd (verifyRun JTI_CAPACITY vs verify_start) \<and>
     owed a \<subseteq># mset (verifiedJtis (fst (verifyRun JTI_CAPACITY vs verify_start)))"

lemma once_idle: "once_inv vs a \<Longrightarrow> idleStep a b \<Longrightarrow> once_inv vs b"
  by (simp add: once_inv_def idleStep_def owed_def chainOf_def busy_ok_def)

lemma once_command:
  assumes o: "once_inv vs a" and j: "(case t of Some (JObj m) \<Rightarrow> strField m ''jws'' | _ \<Rightarrow> None) = Some jws"
  shows "once_inv (vs @ [Ask (ak_verify env key) node now jws]) (commandFrame env w node key now t a)"
proof -
  let ?vs = "vs @ [Ask (ak_verify env key) node now jws]"
  obtain oc ctx where v: "verifyCommand (ak_verify env key) JTI_CAPACITY node now jws (ad_verify a) = (oc, ctx)" by fastforce
  let ?a = "a\<lparr>ad_verify := ctx\<rparr>"
  obtain ocs c0 where r: "verifyRun JTI_CAPACITY vs verify_start = (ocs, c0)" by fastforce
  have c0: "c0 = ad_verify a" using o r by (simp add: once_inv_def)
  have run: "verifyRun JTI_CAPACITY ?vs verify_start = (ocs @ [oc], ctx)"
    using r v c0 by (simp add: verifyRun_append)
  have owed: "owed ?a = owed a" by (simp add: owed_def chainOf_def executedJtis_def)
  have base: "once_inv ?vs b" if "idleStep ?a b" "verifiedJti oc = []" for b
  proof (rule once_idle [OF _ that(1)])
    show "once_inv ?vs ?a" using o r run owed that(2) by (simp add: once_inv_def verifiedJtis_def busy_ok_def)
  qed
  have send: "idleStep ?a b \<Longrightarrow> idleStep ?a (sendEvent env w ev b)" for b ev
    by (rule idle_trans [OF _ idle_send])
  show ?thesis
  proof (cases oc)
    case Threw
    then show ?thesis using v j base [of ?a] by (simp add: commandFrame_def)
  next
    case (Rejected x)
    have "idleStep ?a (commandFrame env w node key now t a)"
      using v j Rejected by (auto simp: commandFrame_def Let_def split: option.split intro!: send)
    then show ?thesis by (rule base) (simp add: Rejected)
  next
    case (Verified c k q)
    have "owed (commandFrame env w node key now t a) = add_mset k (owed a)"
      "ad_verify (commandFrame env w node key now t a) = ctx" "busy_ok (commandFrame env w node key now t a)"
      using v j Verified o
      by (auto simp: commandFrame_def Let_def owed_def chainOf_def executedJtis_def waitingTasks_def once_inv_def busy_ok_def
          tl_append2 split: task_state.split)
    then show ?thesis using o r run Verified by (simp add: once_inv_def verifiedJtis_def)
  qed
qed

lemma once_onFrame:
  assumes b: "once_inv vs b"
  shows "once_inv (vs @ asksIn env node key now t) (onFrame env w node key now t b)"
proof -
  have plain: "once_inv vs (onFrame env w node key now t b)"
    if "(case t of Some (JObj m) \<Rightarrow> strField m ''jws'' | _ \<Rightarrow> None) = None"
    using once_idle [OF b] b that by (simp add: onFrame_def Let_def commandFrame_def idle_send)
  show ?thesis
  proof (cases "\<exists>x. t = Some (JObj x)")
    case True
    then obtain x where t: "t = Some (JObj x)" by blast
    show ?thesis
      using b plain once_command [OF b, of t] by (auto simp: t asksIn_def onFrame_def Let_def split: option.split)
  next
    case False
    then have "(case t of Some (JObj m) \<Rightarrow> strField m ''jws'' | _ \<Rightarrow> None) = None" "asksIn env node key now t = []"
      by (auto simp: asksIn_def split: option.split json.split)
    then show ?thesis using plain by simp
  qed
qed

lemma once_frame:
  assumes o: "once_inv vs a"
  shows "once_inv (vs @ askOf env (HandleFrame w now) a) (handleFrame env w now a)"
proof -
  have b: "once_inv vs (putSock w k a)" for k by (rule once_idle [OF o]) simp
  show ?thesis
    using o once_onFrame [OF b] by (simp add: askOf_def handleFrame_def split: option.split list.split prod.split)
qed

lemma chain_moves:
  assumes q: "chainOf input a = (task # rest, Queued)" and o: "busy_ok a"
  shows "owed (jot (Executed (tk_jti task) c) (setChain input (task # rest) Running a)) = owed a"
    "owed a = add_mset (tk_jti task) (owed (setChain input rest Queued a))"
    "busy_ok (jot (Executed (tk_jti task) c) (setChain input (task # rest) Running a))"
    "busy_ok (setChain input rest Queued a)"
  using q o
  by (cases input; cases "ad_execState a"; cases "ad_inputState a";
      simp add: owed_def setChain_def chainOf_def jot_def executedJtis_def waitingTasks_def busy_ok_def)+

lemma verify_quiet: "ad_verify (setChain input ts st a) = ad_verify a" "ad_verify (jot e a) = ad_verify a"
  by (simp_all add: setChain_def jot_def)

lemma once_chain:
  assumes o: "once_inv vs a" and q: "chainOf input a = (task # rest, Queued)"
  shows "once_inv vs (jot (Executed (tk_jti task) c) (setChain input (task # rest) Running a))"
    "once_inv vs (setChain input rest Queued a)"
proof -
  have o': "busy_ok a" using o by (simp add: once_inv_def)
  show "once_inv vs (jot (Executed (tk_jti task) c) (setChain input (task # rest) Running a))"
    using o chain_moves(1,3) [OF q o', of c] by (simp add: once_inv_def verify_quiet)
  have "owed (setChain input rest Queued a) \<subseteq># owed a" using chain_moves(2) [OF q o'] by simp
  then show "once_inv vs (setChain input rest Queued a)"
    using o chain_moves(4) [OF q o'] subset_mset.order_trans unfolding once_inv_def verify_quiet by blast
qed

lemma once_send: "once_inv vs a \<Longrightarrow> once_inv vs (sendEvent env' w ev a)"
  by (rule once_idle [OF _ idle_send])

lemma once_start: "once_inv vs a \<Longrightarrow> once_inv vs (startTask env input a)"
  by (auto simp: startTask_def split: prod.split list.split task_state.split option.split
      intro: once_send once_chain)

lemma once_finish: "once_inv vs a \<Longrightarrow> once_inv vs (finishTask env input r a)"
proof -
  assume o: "once_inv vs a"
  have "once_inv vs (setChain input rest Queued (a\<lparr>ad_results := m\<rparr>))"
    if "chainOf input a = (task # rest, Running)" for task rest m
    using o that
    by (cases input; cases "ad_execState a"; cases "ad_inputState a")
       (auto simp: once_inv_def owed_def setChain_def chainOf_def executedJtis_def waitingTasks_def busy_ok_def)
  then show ?thesis
    using o by (auto simp: finishTask_def Let_def split: prod.split list.split task_state.split intro!: once_send)
qed

lemma once_dial:
  assumes o: "once_inv vs a"
  shows "once_inv (vs @ askOf env (Dial automatic) a) (dial automatic a)"
proof (cases "ad_turn a = LoopDials")
  case True
  obtain ocs c0 where r: "verifyRun JTI_CAPACITY vs verify_start = (ocs, c0)" by fastforce
  have "owed (dial automatic a) = owed a" "busy_ok (dial automatic a) = busy_ok a"
    by (simp_all add: dial_def owed_def chainOf_def executedJtis_def putSock_def busy_ok_def)
  then show ?thesis
    using o True r by (simp add: once_inv_def askOf_def verifyRun_append dial_def putSock_def)
qed (use o in \<open>simp add: askOf_def dial_def\<close>)

lemma once_step:
  assumes "once_inv vs a"
  shows "once_inv (vs @ askOf env m a) (agent_step env m a)"
proof (cases m)
  case (Dial automatic)
  then show ?thesis using once_dial [OF assms] by simp
next
  case (HandleFrame w now)
  then show ?thesis using once_frame [OF assms] by simp
qed (simp_all add: askOf_def once_idle [OF assms] idle_turn idle_opened idle_opDone idle_arrived idle_finish idle_timeout
      idle_reload idle_check idle_heartbeat idle_beatReload once_start [OF assms] once_finish [OF assms])

lemma once_run:
  "once_inv vs a \<Longrightarrow> once_inv (vs @ askStream env ms a) (fold (agent_step env) ms a)"
proof (induction ms arbitrary: vs a)
  case (Cons m ms)
  show ?case using Cons.IH [OF once_step [OF Cons.prems, of env m]] by simp
qed simp

lemma once_agent_start: "once_inv [] (agent_start c)"
  by (simp add: once_inv_def agent_start_def owed_def executedJtis_def chainOf_def waitingTasks_def busy_ok_def)

lemma askStream_run: "once_inv (askStream env ms (agent_start c)) (agent_run env c ms)"
  using once_run [OF once_agent_start, of env ms] by (simp add: agent_run_def)

text \<open>
  C6: The agent executes each command at most once: whatever frames arrive, replayed, reordered or over
  new connections, and however they interleave with executions that are still running, no id is executed
  twice, as long as the frames that were signed for this node and not expired name no more ids than the
  memory of ids holds.
\<close>

theorem agent_executes_once:
  assumes "card (set (askedJtis (askStream env ms (agent_start c)))) \<le> JTI_CAPACITY"
  shows "distinct (executedJtis (agent_run env c ms))"
proof -
  let ?V = "verifiedJtis (fst (verifyRun JTI_CAPACITY (askStream env ms (agent_start c)) verify_start))"
  have "mset (executedJtis (agent_run env c ms)) \<subseteq># owed (agent_run env c ms)" by (simp add: owed_def)
  also have "\<dots> \<subseteq># mset ?V" using askStream_run [of env ms c] by (simp add: once_inv_def)
  finally have "mset (executedJtis (agent_run env c ms)) \<subseteq># mset ?V" .
  then show ?thesis using verified_once [OF assms] by (rule mset_subset_distinct)
qed

section \<open>What leaves, and when the pin goes\<close>

text \<open>\<open>E\<close> are the moves so far and \<open>L\<close> what was logged.\<close>

definition pinned :: "link_config \<Rightarrow> ('c, 'r) agent_out set \<Rightarrow> string \<Rightarrow> bool" where
  "pinned c L pin \<longleftrightarrow> lc_pin c = Some pin \<or> PinStored (Some pin) \<in> L \<or> (\<exists>f. Reloaded f \<in> L \<and> lc_pin f = Some pin)"

text \<open>The configurations the loader read.\<close>

definition reads :: "'r agent_move set \<Rightarrow> link_config set" where
  "reads E = {f. LoopReload (Some f) \<in> E \<or> (\<exists>i. BeatReload i (Some f) \<in> E)}"

text \<open>The session of a socket after its binding was sealed: derived from a pinned key, its ephemeral key announced.\<close>

definition keyed ::
  "('s, 'c, 'r) agent_env \<Rightarrow> link_config \<Rightarrow> ('c, 'r) agent_out set \<Rightarrow> nat \<Rightarrow> 's option \<Rightarrow> bool" where
  "keyed env c L w x \<longleftrightarrow>
     (\<exists>pin seed s0 eph pub j. ak_derive env pin seed = Some (s0, eph) \<and> pinned c L pin \<and> KxSent w eph pub \<in> L \<and>
        x = Some (snd (ak_seal env s0 j)))"

text \<open>A frame came in that opens under that session and says \<open>ok\<close>.\<close>

definition acked ::
  "('s, 'c, 'r) agent_env \<Rightarrow> link_config \<Rightarrow> 'r agent_move set \<Rightarrow> ('c, 'r) agent_out set \<Rightarrow> nat \<Rightarrow> bool" where
  "acked env c E L w \<longleftrightarrow>
     (\<exists>s len b t s'. keyed env c L w (Some s) \<and> Arrived w len (BytesFrame b) \<in> E \<and> ak_open env s b = Some (t, s') \<and>
        parseLinkAck t)"

fun pinnedOp :: "link_config \<Rightarrow> ('c, 'r) agent_out set \<Rightarrow> agent_op \<Rightarrow> bool" where
  "pinnedOp c L (Deriving pin pub) = pinned c L pin"
| "pinnedOp c L x = True"

fun isDeriving :: "agent_op \<Rightarrow> bool" where
  "isDeriving (Deriving pin pub) = True"
| "isDeriving x = False"

definition sockInv ::
  "('s, 'c, 'r) agent_env \<Rightarrow> link_config \<Rightarrow> 'r agent_move set \<Rightarrow> ('c, 'r) agent_out set \<Rightarrow> nat \<Rightarrow> 's agent_sock \<Rightarrow> bool" where
  "sockInv env c E L w k \<longleftrightarrow>
     (as_phase k \<noteq> AEstablished \<or> as_reached k) \<and>
     (\<not> as_reached k \<or> as_mode k = Some AHandshake \<and> acked env c E L w) \<and>
     (as_phase k \<noteq> AAwaitingAck \<or> as_mode k = Some AHandshake \<and> keyed env c L w (as_session k)) \<and>
     (\<not> list_ex isDeriving (as_ops k) \<or> as_mode k = Some AHandshake) \<and> list_all (pinnedOp c L) (as_ops k) \<and>
     (as_mode k \<noteq> None \<or> (as_phase k = AIdle \<or> as_phase k = ADead) \<and> as_ops k = []) \<and>
     (DroppingPin \<notin> set (as_ops k) \<or>
        as_settled k \<and> \<not> as_reached k \<and> as_mode k = Some AHandshake \<and> SocketClosed w NODE_CLOSE_REPAIR_REQUIRED \<in> E)"

lemma pinned_mono: "pinned c L pin \<Longrightarrow> L \<subseteq> L' \<Longrightarrow> pinned c L' pin"
  by (auto simp: pinned_def)

lemma keyed_mono: "keyed env c L w x \<Longrightarrow> L \<subseteq> L' \<Longrightarrow> keyed env c L' w x"
  unfolding keyed_def using pinned_mono by blast

lemma acked_mono: "acked env c E L w \<Longrightarrow> E \<subseteq> E' \<Longrightarrow> L \<subseteq> L' \<Longrightarrow> acked env c E' L' w"
  unfolding acked_def using keyed_mono by (metis subsetD)

lemma pinnedOp_mono: "pinnedOp c L x \<Longrightarrow> L \<subseteq> L' \<Longrightarrow> pinnedOp c L' x"
  by (cases x) (auto intro: pinned_mono)

lemma pinnedOps_mono: "list_all (pinnedOp c L) xs \<Longrightarrow> L \<subseteq> L' \<Longrightarrow> list_all (pinnedOp c L') xs"
  by (auto simp: list_all_iff intro: pinnedOp_mono)

fun logInv :: "('s, 'c, 'r) agent_env \<Rightarrow> 'r agent_move set \<Rightarrow> ('s, 'c, 'r) agent \<Rightarrow> ('c, 'r) agent_out \<Rightarrow> bool" where
  "logInv env E a (EventSent w ev b) = (\<exists>k. jget (ad_socks a) w = Some k \<and> as_reached k)"
| "logInv env E a (PinStored None) =
     (\<exists>w k. jget (ad_socks a) w = Some k \<and> as_settled k \<and> \<not> as_reached k \<and> as_mode k = Some AHandshake \<and>
        SocketClosed w NODE_CLOSE_REPAIR_REQUIRED \<in> E)"
| "logInv env E a (Reloaded f) = (ak_usable env f \<and> f \<in> reads E)"
| "logInv env E a e = True"

definition agent_inv ::
  "('s, 'c, 'r) agent_env \<Rightarrow> link_config \<Rightarrow> 'r agent_move set \<Rightarrow> ('s, 'c, 'r) agent \<Rightarrow> bool" where
  "agent_inv env c E a \<longleftrightarrow>
     (\<forall>w k. jget (ad_socks a) w = Some k \<longrightarrow> sockInv env c E (set (ad_log a)) w k) \<and> (\<forall>e \<in> set (ad_log a). logInv env E a e) \<and>
     (\<forall>w k. jget (ad_socks a) w = Some k \<longrightarrow> w < ad_next a) \<and>
     (\<forall>pin. lc_pin (ad_config a) = Some pin \<longrightarrow> pinned c (set (ad_log a)) pin)"

lemma agent_invD:
  "agent_inv env c E a \<Longrightarrow> jget (ad_socks a) w = Some k \<Longrightarrow> sockInv env c E (set (ad_log a)) w k"
  "agent_inv env c E a \<Longrightarrow> e \<in> set (ad_log a) \<Longrightarrow> logInv env E a e"
  "agent_inv env c E a \<Longrightarrow> jget (ad_socks a) w = Some k \<Longrightarrow> w < ad_next a"
  "agent_inv env c E a \<Longrightarrow> lc_pin (ad_config a) = Some pin \<Longrightarrow> pinned c (set (ad_log a)) pin"
  by (simp_all add: agent_inv_def)

lemma sockInv_mono: "sockInv env c E L w k \<Longrightarrow> E \<subseteq> E' \<Longrightarrow> L \<subseteq> L' \<Longrightarrow> sockInv env c E' L' w k"
  using subsetD [of E E'] acked_mono [of env c E L w E' L'] keyed_mono [of env c L w "as_session k" L']
    pinnedOps_mono [of c L "as_ops k" L']
  unfolding sockInv_def by blast

lemma agent_inv_moves:
  assumes "agent_inv env c E a" "E \<subseteq> E'"
  shows "agent_inv env c E' a"
proof -
  have "logInv env E' a e" if "logInv env E a e" for e
  proof (cases e)
    case (PinStored p)
    then show ?thesis using that assms(2) by (cases p) auto
  qed (use that assms(2) in \<open>auto simp: reads_def\<close>)
  moreover have "sockInv env c E' (set (ad_log a)) w k" if "jget (ad_socks a) w = Some k" for w k
    by (rule sockInv_mono [OF agent_invD(1) [OF assms(1) that] assms(2)]) simp
  ultimately show ?thesis using assms(1) by (auto simp: agent_inv_def)
qed

text \<open>How a socket may change.\<close>

definition grows :: "'s agent_sock \<Rightarrow> 's agent_sock \<Rightarrow> bool" where
  "grows k k' \<longleftrightarrow> (as_reached k \<longrightarrow> as_reached k') \<and> (as_settled k \<longrightarrow> as_settled k' \<and> as_reached k' = as_reached k) \<and>
     (as_mode k \<noteq> None \<longrightarrow> as_mode k' = as_mode k)"

lemma jot_putSock: "jot e (putSock w k a) = putSock w k (jot e a)"
  by (simp add: jot_def putSock_def)

lemma socks_jot [simp]: "ad_socks (jot e a) = ad_socks a" "ad_next (jot e a) = ad_next a" "ad_log (jot e a) = ad_log a @ [e]"
  by (simp_all add: jot_def)

lemma socks_put [simp]:
  "ad_socks (putSock w k a) = jset w k (ad_socks a)" "ad_next (putSock w k a) = ad_next a" "ad_log (putSock w k a) = ad_log a"
  by (simp_all add: putSock_def)

lemma config_jot [simp]: "ad_config (jot e a) = ad_config a" "ad_config (putSock w k a) = ad_config a"
  by (simp_all add: jot_def putSock_def)

lemma inv_config:
  "agent_inv env c E a \<Longrightarrow> (\<And>pin. lc_pin (ad_config b) = Some pin \<Longrightarrow> pinned c (set (ad_log a)) pin) \<Longrightarrow>
   ad_socks b = ad_socks a \<Longrightarrow> ad_next b = ad_next a \<Longrightarrow> ad_log b = ad_log a \<Longrightarrow> agent_inv env c E b"
proof -
  assume a: "agent_inv env c E a" and p: "\<And>pin. lc_pin (ad_config b) = Some pin \<Longrightarrow> pinned c (set (ad_log a)) pin"
    and s: "ad_socks b = ad_socks a" "ad_next b = ad_next a" "ad_log b = ad_log a"
  have "logInv env E b e = logInv env E a e" for e
  proof (cases e)
    case (PinStored p)
    then show ?thesis by (cases p) (simp_all add: s)
  qed (simp_all add: s)
  then show ?thesis using a p by (simp add: agent_inv_def s)
qed

lemma inv_same:
  assumes a: "agent_inv env c E a"
    and s: "ad_socks b = ad_socks a" "ad_next b = ad_next a" "ad_log b = ad_log a" "ad_config b = ad_config a"
  shows "agent_inv env c E b"
  by (rule inv_config [OF a _ s(1-3)]) (use agent_invD(4) [OF a] s(4) in simp)

lemma inv_jot:
  assumes "agent_inv env c E a" "logInv env E a e"
  shows "agent_inv env c E (jot e a)"
proof -
  have log: "logInv env E (jot e a) x = logInv env E a x" for x
  proof (cases x)
    case (PinStored p)
    then show ?thesis by (cases p) simp_all
  qed simp_all
  have "sockInv env c E (set (ad_log (jot e a))) w k" if "jget (ad_socks a) w = Some k" for w k
    by (rule sockInv_mono [OF agent_invD(1) [OF assms(1) that]]) auto
  moreover have "pinned c (set (ad_log (jot e a))) pin" if "lc_pin (ad_config a) = Some pin" for pin
    by (rule pinned_mono [OF agent_invD(4) [OF assms(1) that]]) auto
  ultimately show ?thesis using assms log by (auto simp: agent_inv_def)
qed

lemma inv_put:
  assumes a: "agent_inv env c E a" and k: "jget (ad_socks a) w = Some k" and g: "grows k k'" and s: "sockInv env c E (set (ad_log a)) w k'"
  shows "agent_inv env c E (putSock w k' a)"
proof -
  have "logInv env E (putSock w k' a) e" if e: "logInv env E a e" for e
  proof (cases e)
    case (EventSent v ev b)
    then show ?thesis using e g k by (auto simp: grows_def)
  next
    case (PinStored p)
    show ?thesis
    proof (cases p)
      case None
      then obtain v j where "jget (ad_socks a) v = Some j" "as_settled j" "\<not> as_reached j" "as_mode j = Some AHandshake"
        "SocketClosed v NODE_CLOSE_REPAIR_REQUIRED \<in> E"
        using e PinStored by auto
      then show ?thesis using g k PinStored None by (cases "v = w") (auto simp: grows_def)
    qed (simp add: PinStored)
  qed (use e in simp_all)
  then show ?thesis using a k s by (auto simp: agent_inv_def)
qed

lemma inv_send:
  assumes a: "agent_inv env c E a"
  shows "agent_inv env c E (sendEvent env w ev a)"
proof -
  have d: "agent_inv env c E (jot (EventDropped w ev) a)" by (rule inv_jot [OF a]) simp
  have s: "agent_inv env c E (jot (EventSent w ev b) (putSock w (k\<lparr>as_session := x\<rparr>) a))"
    if k: "jget (ad_socks a) w = Some k" "as_phase k = AEstablished" for k b x
  proof -
    have o: "sockInv env c E (set (ad_log a)) w k" by (rule agent_invD(1) [OF a k(1)])
    then have "sockInv env c E (set (ad_log a)) w (k\<lparr>as_session := x\<rparr>)" using k(2) by (auto simp: sockInv_def)
    then have "agent_inv env c E (putSock w (k\<lparr>as_session := x\<rparr>) a)" by (intro inv_put [OF a k(1)]) (auto simp: grows_def)
    then show ?thesis by (rule inv_jot) (use o k(2) in \<open>simp add: sockInv_def\<close>)
  qed
  show ?thesis
    using d s by (auto simp: sendEvent_def Let_def split: option.split prod.split)
qed

lemma inv_refuse:
  assumes a: "agent_inv env c E a" and k: "jget (ad_socks a) w = Some k" "grows k k'" "sockInv env c E (set (ad_log a)) w k'"
  shows "agent_inv env c E (refuseLink w k' a)"
proof -
  have "sockInv env c E (set (ad_log a)) w (k'\<lparr>as_phase := ADead, as_selfRefused := True\<rparr>)" using k(3) by (auto simp: sockInv_def)
  then have "agent_inv env c E (putSock w (k'\<lparr>as_phase := ADead, as_selfRefused := True\<rparr>) a)"
    by (intro inv_put [OF a k(1)]) (use k(2) in \<open>auto simp: grows_def\<close>)
  then show ?thesis using inv_put [OF a k] by (auto simp: refuseLink_def intro: inv_jot)
qed

lemma grows_refl [simp]: "grows k k"
  by (simp add: grows_def)

lemma set_dropNth: "set (take i xs @ drop (Suc i) xs) \<subseteq> set xs"
  using set_take_subset [of i xs] set_drop_subset [of "Suc i" xs] by auto

lemma inv_gate: "agent_inv env c E a \<Longrightarrow> agent_inv env c E (a\<lparr>ad_gate := g\<rparr>)"
  by (rule inv_same [of env c E a]) simp_all

lemma inv_persist:
  assumes a: "agent_inv env c E a" and k: "jget (ad_socks a) w = Some k" "grows k (addOp x k')"
    and s: "sockInv env c E (set (ad_log a)) w (addOp x k')"
  shows "agent_inv env c E (startPersist w x k' a)"
  unfolding startPersist_def by (rule inv_put [OF inv_gate [OF a]]) (use k s in simp_all)

lemma inv_begin:
  assumes a: "agent_inv env c E a" and k: "jget (ad_socks a) w = Some k" "as_mode k = None" "\<not> as_settled k"
  shows "agent_inv env c E (beginLink w made k a)"
proof -
  note pin = agent_invD(4) [OF a]
  have o: "sockInv env c E (set (ad_log a)) w k" by (rule agent_invD(1) [OF a k(1)])
  have put: "agent_inv env c E (putSock w k' a)" if "sockInv env c E (set (ad_log a)) w k'" "as_settled k' = as_settled k" "as_reached k' = as_reached k" for k'
    by (rule inv_put [OF a k(1) _ that(1)]) (use that k in \<open>simp add: grows_def\<close>)
  have r: "\<not> as_reached k" using o k(2) by (auto simp: sockInv_def)
  have "agent_inv env c E (refuseLink w (k\<lparr>as_mode := Some AIncomplete\<rparr>) a)"
    by (rule inv_refuse [OF a k(1)]) (use o r k in \<open>auto simp: sockInv_def grows_def\<close>)
  moreover have "agent_inv env c E (registerWith w pub (k\<lparr>as_mode := Some ARegister\<rparr>) a)" for pub
    unfolding registerWith_def by (intro inv_jot put) (use o r k in \<open>auto simp: sockInv_def\<close>)
  moreover have "agent_inv env c E (putSock w (addOp (Deriving pin pub) (k\<lparr>as_mode := Some AHandshake\<rparr>)) a)"
    if "lc_pin (ad_config a) = Some pin" for pin pub
    by (intro put) (use o r k pin [OF that] in \<open>auto simp: sockInv_def addOp_def\<close>)
  moreover have "agent_inv env c E (putSock w (addOp (GeneratingPair x y) (k\<lparr>as_mode := Some ARegister\<rparr>)) a)" for x y
    by (intro put) (use o r k in \<open>auto simp: sockInv_def addOp_def\<close>)
  ultimately show ?thesis by (auto simp: beginLink_def split: option.split)
qed

lemma inv_derived:
  assumes a: "agent_inv env c E a" and k: "jget (ad_socks a) w = Some k0" "grows k0 k" "sockInv env c E (set (ad_log a)) w k"
    and m: "as_mode k = Some AHandshake" and p: "pinned c (set (ad_log a)) pin"
  shows "agent_inv env c E (derived env w pub (ak_derive env pin seed) k a)"
proof -
  have "agent_inv env c E (jot (BindingSent w b) (jot (KxSent w eph pub) (putSock w (k\<lparr>as_phase := AAwaitingAck, as_session := Some s\<rparr>) a)))"
    if g: "ak_derive env pin seed = Some (s0, eph)" "ak_seal env s0 j = (b, s)" for eph b s s0 j
  proof -
    let ?b = "jot (BindingSent w b) (jot (KxSent w eph pub) a)"
    have b: "agent_inv env c E ?b" by (intro inv_jot a) simp_all
    have "sockInv env c E (set (ad_log ?b)) w k" by (rule sockInv_mono [OF k(3)]) auto
    moreover have "pinned c (set (ad_log ?b)) pin" by (rule pinned_mono [OF p]) auto
    then have "keyed env c (set (ad_log ?b)) w (Some s)"
      unfolding keyed_def by (intro exI [of _ pin] exI [of _ seed] exI [of _ s0] exI [of _ eph] exI [of _ pub] exI [of _ j])
        (use g in simp)
    ultimately have "sockInv env c E (set (ad_log ?b)) w (k\<lparr>as_phase := AAwaitingAck, as_session := Some s\<rparr>)"
      using m by (simp add: sockInv_def)
    then have "agent_inv env c E (putSock w (k\<lparr>as_phase := AAwaitingAck, as_session := Some s\<rparr>) ?b)"
      by (intro inv_put [OF b, of w k0]) (use k(1,2) in \<open>auto simp: grows_def\<close>)
    then show ?thesis by (simp add: jot_putSock)
  qed
  then show ?thesis
    using inv_refuse [OF a k] inv_put [OF a k] by (auto simp: derived_def Let_def split: option.split prod.split)
qed

lemma inv_outcome:
  assumes a: "agent_inv env c E a" and k0: "jget (ad_socks a) w = Some k0" and x: "x \<in> set (as_ops k0)"
    and k: "grows k0 k" "sockInv env c E (set (ad_log a)) w k" "as_mode k = as_mode k0" "as_settled k = as_settled k0"
      "as_reached k = as_reached k0"
  shows "agent_inv env c E (opOutcome env w x ok seed k a)"
proof -
  have o: "sockInv env c E (set (ad_log a)) w k0" by (rule agent_invD(1) [OF a k0])
  have m: "as_mode k \<noteq> None" using o x k(3) by (auto simp: sockInv_def)
  note refuse = inv_refuse [OF a k0 k(1,2)]
  have put: "agent_inv env c E (putSock w k' b)"
    if "grows k k'" "sockInv env c E (set (ad_log b)) w k'" "agent_inv env c E b" "ad_socks b = ad_socks a" for k' b
    by (rule inv_put [OF that(3), of w k0]) (use that k0 k(1) in \<open>auto simp: grows_def\<close>)
  have persist: "agent_inv env c E (startPersist w y k a)" if "y \<noteq> DroppingPin" "\<not> isDeriving y" for y
    by (rule inv_persist [OF a k0])
       (use k m that in \<open>cases y; auto simp: grows_def sockInv_def addOp_def\<close>)+
  show ?thesis
  proof (cases x)
    case (Deriving pin pub)
    then have "list_ex isDeriving (as_ops k0)" using x by (auto simp: list_ex_iff intro!: bexI [OF _ x])
    then have "as_mode k = Some AHandshake" using o k(3) by (simp add: sockInv_def)
    moreover have "pinned c (set (ad_log a)) pin" using o x Deriving by (auto simp: sockInv_def list_all_iff)
    ultimately show ?thesis using inv_derived [OF a k0 k(1,2)] Deriving by (simp add: opOutcome_def)
  next
    case (GeneratingPair pub priv)
    then show ?thesis using persist refuse by (simp add: opOutcome_def)
  next
    case (StoringPair pub priv)
    let ?b = "jot (PairStored pub priv) (a\<lparr>ad_config := (ad_config a)\<lparr>lc_pair := Some (pub, priv)\<rparr>\<rparr>)"
    have b: "agent_inv env c E ?b"
      by (intro inv_jot inv_config [OF a]) (use agent_invD(4) [OF a] in simp_all)
    have k': "sockInv env c E (set (ad_log ?b)) w k" by (rule sockInv_mono [OF k(2)]) auto
    have "agent_inv env c E (putSock w k ?b)" by (rule put [OF _ k' b]) simp_all
    moreover have "agent_inv env c E (putSock w (k\<lparr>as_phase := AAwaitingRegisterOk\<rparr>) ?b)"
      by (rule put [OF _ _ b]) (use k' m in \<open>auto simp: grows_def sockInv_def\<close>)
    ultimately show ?thesis
      using refuse StoringPair by (simp add: opOutcome_def Let_def pairStored_def registerWith_def inv_jot)
  next
    case (DecodingPin pin)
    then show ?thesis using persist refuse by (simp add: opOutcome_def split: option.split)
  next
    case (StoringPin pin)
    let ?c = "(ad_config a)\<lparr>lc_pin := Some pin\<rparr>"
    let ?b = "(jot (PinStored (Some pin)) a)\<lparr>ad_config := ?c\<rparr>"
    have j: "agent_inv env c E (jot (PinStored (Some pin)) a)" by (rule inv_jot [OF a]) simp
    have b: "agent_inv env c E ?b" by (rule inv_config [OF j]) (simp_all add: pinned_def)
    have k': "sockInv env c E (set (ad_log ?b)) w k" by (rule sockInv_mono [OF k(2)]) auto
    have "agent_inv env c E (putSock w (k\<lparr>as_phase := AProvisioned\<rparr>) ?b)"
      by (rule put [OF _ _ b]) (use k' m in \<open>auto simp: grows_def sockInv_def\<close>)
    moreover have "putSock w (k\<lparr>as_phase := AProvisioned\<rparr>) ?b =
        jot (PinStored (Some pin)) (putSock w (k\<lparr>as_phase := AProvisioned\<rparr>) (a\<lparr>ad_config := ?c\<rparr>))"
      by (simp add: jot_def putSock_def)
    ultimately show ?thesis using refuse StoringPin by (simp add: opOutcome_def pinStored_def inv_jot)
  next
    case DroppingPin
    let ?c = "(ad_config a)\<lparr>lc_pin := None\<rparr>"
    have d: "as_settled k" "\<not> as_reached k" "as_mode k = Some AHandshake" "SocketClosed w NODE_CLOSE_REPAIR_REQUIRED \<in> E"
      using o x DroppingPin k(3-5) by (auto simp: sockInv_def)
    have b: "agent_inv env c E (a\<lparr>ad_config := ?c\<rparr>)" by (rule inv_config [OF a]) simp_all
    have "agent_inv env c E (jot (PinStored None) (putSock w k (a\<lparr>ad_config := ?c\<rparr>)))"
    proof (rule inv_jot)
      show "agent_inv env c E (putSock w k (a\<lparr>ad_config := ?c\<rparr>))" by (rule put [OF _ _ b]) (use k in simp_all)
      show "logInv env E (putSock w k (a\<lparr>ad_config := ?c\<rparr>)) (PinStored None)"
        unfolding logInv.simps by (rule exI [of _ w], rule exI [of _ k]) (use d in simp)
    qed
    moreover have "agent_inv env c E (putSock w k a)" by (rule put [OF _ k(2) a]) simp_all
    ultimately show ?thesis using DroppingPin by (simp add: opOutcome_def pinDropped_def)
  qed
qed

lemma inv_opDone:
  assumes a: "agent_inv env c E a"
  shows "agent_inv env c E (opDone env w i ok seed a)"
proof (cases "jget (ad_socks a) w")
  case (Some k)
  have "agent_inv env c E (opOutcome env w (as_ops k ! i) ok seed
      (k\<lparr>as_ops := take i (as_ops k) @ drop (Suc i) (as_ops k)\<rparr>) (a\<lparr>ad_gate := g\<rparr>))" if "i < length (as_ops k)" for g
  proof (rule inv_outcome [OF inv_gate [OF a]])
    have "sockInv env c E (set (ad_log a)) w k" by (rule agent_invD(1) [OF a Some])
    then show "sockInv env c E (set (ad_log (a\<lparr>ad_gate := g\<rparr>))) w (k\<lparr>as_ops := take i (as_ops k) @ drop (Suc i) (as_ops k)\<rparr>)"
      using set_take_subset [of i "as_ops k"] set_drop_subset [of "Suc i" "as_ops k"]
      by (auto simp: sockInv_def list_ex_iff list_all_iff)
  qed (use Some that in \<open>simp_all add: grows_def\<close>)
  then show ?thesis using a Some by (simp add: opDone_def)
qed (use a in \<open>simp add: opDone_def\<close>)

lemma inv_text:
  assumes a: "agent_inv env c E a" and k: "jget (ad_socks a) w = Some k"
  shows "agent_inv env c E (onTextFrame w t k a)"
proof -
  have o: "sockInv env c E (set (ad_log a)) w k" by (rule agent_invD(1) [OF a k])
  have refuse: "agent_inv env c E (refuseLink w k a)" by (rule inv_refuse [OF a k _ o]) simp
  have "agent_inv env c E (putSock w (addOp (DecodingPin pin) (k\<lparr>as_phase := APersistingPin\<rparr>)) a)"
    if "as_phase k = AAwaitingRegisterOk" for pin
    by (rule inv_put [OF a k]) (use o that in \<open>auto simp: grows_def sockInv_def addOp_def\<close>)
  then show ?thesis using refuse a by (simp add: onTextFrame_def split: option.split)
qed

lemma inv_bytes:
  assumes a: "agent_inv env c E a" and k: "jget (ad_socks a) w = Some k" "\<not> as_settled k"
    and e: "Arrived w len (BytesFrame b) \<in> E"
  shows "agent_inv env c E (onBytesFrame env w b k a)"
proof -
  have o: "sockInv env c E (set (ad_log a)) w k" by (rule agent_invD(1) [OF a k(1)])
  have refuse: "agent_inv env c E (refuseLink w k a)" by (rule inv_refuse [OF a k(1) _ o]) simp
  have frame: "agent_inv env c E (putSock w (k\<lparr>as_session := s, as_frames := f\<rparr>) a)" if "as_phase k = AEstablished" for s f
    by (rule inv_put [OF a k(1)]) (use o that in \<open>auto simp: grows_def sockInv_def\<close>)
  have refuse': "agent_inv env c E (refuseLink w (k\<lparr>as_session := s\<rparr>) a)" if p: "as_phase k = AAwaitingAck" for s
  proof -
    have "agent_inv env c E (putSock w (k\<lparr>as_session := s, as_phase := ADead, as_selfRefused := True\<rparr>) a)"
      by (rule inv_put [OF a k(1)]) (use o p in \<open>auto simp: grows_def sockInv_def\<close>)
    then show ?thesis using p by (simp add: refuseLink_def inv_jot)
  qed
  have "agent_inv env c E (putSock w (k\<lparr>as_session := s', as_phase := AEstablished, as_reached := True\<rparr>) a)"
    if p: "as_phase k = AAwaitingAck" "as_session k = Some s0" "ak_open env s0 b = Some (t, s1)" "parseLinkAck t" for s' s0 t s1
  proof (rule inv_put [OF a k(1)])
    have "keyed env c (set (ad_log a)) w (Some s0)" using o p(1,2) by (simp add: sockInv_def)
    then have "acked env c E (set (ad_log a)) w" unfolding acked_def using e p(3,4) by blast
    then show "sockInv env c E (set (ad_log a)) w (k\<lparr>as_session := s', as_phase := AEstablished, as_reached := True\<rparr>)"
      using o p(1) k(2) by (auto simp: sockInv_def)
  qed (use k in \<open>simp add: grows_def\<close>)
  then show ?thesis
    using refuse refuse' frame a
    by (simp add: onBytesFrame_def Let_def inv_send split: agent_phase.split option.split prod.split)
qed

lemma inv_arrived:
  assumes a: "agent_inv env c E a" and e: "Arrived w len f \<in> E"
  shows "agent_inv env c E (arrive w (admitFrame env w len f) a)"
  using inv_text [OF a] inv_bytes [OF a, of w _ len] a e
  by (cases f) (simp_all add: arrive_def admitFrame_def split: option.split)

lemma inv_opened:
  assumes a: "agent_inv env c E a"
  shows "agent_inv env c E (arrive w (\<lambda>k. if as_mode k = None then beginLink w made k else (\<lambda>a. a)) a)"
  using inv_begin [OF a] a by (simp add: arrive_def split: option.split)

lemma inv_verify [simp]: "agent_inv env c E (a\<lparr>ad_verify := v\<rparr>) = agent_inv env c E a"
  using inv_same [of env c E a "a\<lparr>ad_verify := v\<rparr>"] inv_same [of env c E "a\<lparr>ad_verify := v\<rparr>" a] by auto

lemma inv_chain: "agent_inv env c E a \<Longrightarrow> agent_inv env c E (setChain input ts st a)"
  by (rule inv_same [of env c E a]) (simp_all add: setChain_def)

lemma inv_check:
  assumes a: "agent_inv env c E a"
  shows "agent_inv env c E (checkFrame w a)"
proof -
  have "agent_inv env c E (putSock w (k\<lparr>as_check := x\<rparr>) a)" if k: "jget (ad_socks a) w = Some k" for k x
    by (rule inv_put [OF a k]) (use agent_invD(1) [OF a k] in \<open>simp_all add: grows_def sockInv_def\<close>)
  then show ?thesis using a by (simp add: checkFrame_def split: option.split)
qed

lemma inv_refresh:
  assumes a: "agent_inv env c E a" and g: "\<And>f. got = Some f \<Longrightarrow> f \<in> reads E"
  shows "agent_inv env c E (snd (refreshConfig env base got a))"
proof -
  have "agent_inv env c E (jot (Reloaded f) (a\<lparr>ad_config := f\<rparr>))" if "got = Some f" "ak_usable env f" for f
  proof -
    have j: "agent_inv env c E (jot (Reloaded f) a)" by (rule inv_jot [OF a]) (use that g in simp)
    have "agent_inv env c E ((jot (Reloaded f) a)\<lparr>ad_config := f\<rparr>)"
      by (rule inv_config [OF j]) (auto simp: pinned_def)
    moreover have "jot (Reloaded f) (a\<lparr>ad_config := f\<rparr>) = (jot (Reloaded f) a)\<lparr>ad_config := f\<rparr>" by (simp add: jot_def)
    ultimately show ?thesis by simp
  qed
  then show ?thesis using a by (simp add: refreshConfig_def split: option.split)
qed

lemma inv_turns: "agent_inv env c E a \<Longrightarrow> agent_inv env c E (a\<lparr>ad_turn := t\<rparr>)"
  "agent_inv env c E a \<Longrightarrow> agent_inv env c E (a\<lparr>ad_beats := bs\<rparr>)"
  by (erule inv_same; simp)+

lemma inv_reload:
  assumes a: "agent_inv env c E a" and g: "\<And>f. got = Some f \<Longrightarrow> f \<in> reads E"
  shows "agent_inv env c E (loopReload env got a)"
  using a inv_turns(1) [OF inv_refresh [OF a g]] by (simp add: loopReload_def split: loop_state.split)

lemma inv_heartbeat: "agent_inv env c E a \<Longrightarrow> agent_inv env c E (heartbeat env w a)"
  by (simp add: heartbeat_def Let_def inv_turns inv_send split: option.split)

lemma inv_beatReload:
  assumes "agent_inv env c E a" "\<And>f. got = Some f \<Longrightarrow> f \<in> reads E"
  shows "agent_inv env c E (beatReload env i got a)"
proof -
  let ?b = "a\<lparr>ad_beats := take i (ad_beats a) @ drop (Suc i) (ad_beats a)\<rparr>"
  have "agent_inv env c E (snd (refreshConfig env base got ?b))" for base
    by (rule inv_refresh [OF inv_turns(2) [OF assms(1)] assms(2)])
  then have "agent_inv env c E b" if "refreshConfig env base got ?b = (x, b)" for base x b
    using that by (metis snd_conv)
  then show ?thesis using assms(1) by (auto simp: beatReload_def Let_def intro: inv_jot split: prod.split)
qed

lemma inv_frame:
  assumes a: "agent_inv env c E a"
  shows "agent_inv env c E (handleFrame env w now a)"
proof -
  have c: "agent_inv env c E (commandFrame env w node key now t b)" if b: "agent_inv env c E b" for node key t b
  proof -
    have queue: "agent_inv env c E (b\<lparr>ad_verify := v, ad_input := x\<rparr>)" "agent_inv env c E (b\<lparr>ad_verify := v, ad_exec := x\<rparr>)" for v x
      by (rule inv_same [OF b]; simp)+
    show ?thesis
      using b queue
      by (simp add: commandFrame_def Let_def inv_send inv_jot split: option.split json.split prod.split verify_outcome.split)
  qed
  have f: "agent_inv env c E (onFrame env w node key now t b)" if "agent_inv env c E b" for node key t b
    using that c by (simp add: onFrame_def Let_def)
  have "agent_inv env c E (putSock w (k\<lparr>as_frames := r, as_check := None\<rparr>) a)" if k: "jget (ad_socks a) w = Some k" for k r
    by (rule inv_put [OF a k]) (use agent_invD(1) [OF a k] in \<open>simp_all add: grows_def sockInv_def\<close>)
  then show ?thesis using f a by (simp add: handleFrame_def split: option.split list.split prod.split)
qed

lemma inv_start: "agent_inv env c E a \<Longrightarrow> agent_inv env c E (startTask env input a)"
  by (simp add: startTask_def inv_send inv_jot inv_chain split: prod.split list.split task_state.split option.split)

lemma inv_task:
  assumes a: "agent_inv env c E a"
  shows "agent_inv env c E (finishTask env input r a)"
proof -
  have "agent_inv env c E (a\<lparr>ad_results := m\<rparr>)" for m by (rule inv_same [OF a]) simp_all
  then show ?thesis
    using a by (simp add: finishTask_def Let_def inv_send inv_chain split: prod.split list.split task_state.split)
qed

lemma inv_dial:
  assumes a: "agent_inv env c E a"
  shows "agent_inv env c E (dial automatic a)"
proof -
  let ?b = "putSock (ad_next a) (freshSock automatic)
      (a\<lparr>ad_next := Suc (ad_next a), ad_current := Some (ad_next a), ad_turn := LoopWaits, ad_verify := (ad_verify a)\<lparr>vc_last := 0\<rparr>\<rparr>)"
  have fresh: "sockInv env c E L w (freshSock automatic)" for L w by (simp add: sockInv_def freshSock_def)
  have old: "jget (ad_socks a) w = Some k \<Longrightarrow> w \<noteq> ad_next a" for w k using agent_invD(3) [OF a, of w k] by auto
  have log: "logInv env E ?b e" if e: "logInv env E a e" for e
  proof (cases e)
    case (EventSent v ev b)
    then show ?thesis using e old by auto
  next
    case (PinStored p)
    show ?thesis
    proof (cases p)
      case None
      then obtain v j where "jget (ad_socks a) v = Some j" "as_settled j" "\<not> as_reached j" "as_mode j = Some AHandshake"
        "SocketClosed v NODE_CLOSE_REPAIR_REQUIRED \<in> E"
        using e PinStored by auto
      then show ?thesis using old PinStored None by auto
    qed (simp add: PinStored)
  qed (use e in simp_all)
  have "agent_inv env c E ?b"
    unfolding agent_inv_def
    using agent_invD [OF a] log fresh by (auto simp: less_SucI)
  then show ?thesis using a by (simp add: dial_def)
qed

lemma inv_finish:
  assumes a: "agent_inv env c E a" and c: "code = NODE_CLOSE_REPAIR_REQUIRED \<Longrightarrow> SocketClosed w code \<in> E"
  shows "agent_inv env c E (finishSock w code a)"
proof (cases "jget (ad_socks a) w")
  case None
  then show ?thesis using a by (simp add: finishSock_def)
next
  case (Some k)
  have o: "sockInv env c E (set (ad_log a)) w k" by (rule agent_invD(1) [OF a Some])
  have b: "agent_inv env c E (a\<lparr>ad_current := x\<rparr>)" for x by (rule inv_same [OF a]) simp_all
  have l: "agent_inv env c E (linkClosed w d (k\<lparr>as_settled := True\<rparr>) (a\<lparr>ad_current := x\<rparr>))"
    if d: "d = NODE_CLOSE_REPAIR_REQUIRED \<Longrightarrow> SocketClosed w NODE_CLOSE_REPAIR_REQUIRED \<in> E" for d x
  proof -
    have "agent_inv env c E (putSock w (k\<lparr>as_settled := True, as_decided := e\<rparr>) (a\<lparr>ad_current := x\<rparr>))"
      "agent_inv env c E (putSock w (k\<lparr>as_settled := True\<rparr>) (a\<lparr>ad_current := x\<rparr>))" for e
      by (rule inv_put [OF b]; use Some o in \<open>auto simp: grows_def sockInv_def\<close>)+
    moreover have "agent_inv env c E (startPersist w DroppingPin (k\<lparr>as_settled := True, as_decided := True\<rparr>) (a\<lparr>ad_current := x\<rparr>))"
      if "d = NODE_CLOSE_REPAIR_REQUIRED" "as_mode k = Some AHandshake" "\<not> as_reached k"
      by (rule inv_persist [OF b]) (use Some o d that in \<open>auto simp: grows_def sockInv_def addOp_def\<close>)
    ultimately show ?thesis by (simp add: linkClosed_def Let_def)
  qed
  note r = l [of code] l [of 1006]
  show ?thesis using Some a r c by (simp add: finishSock_def Let_def NODE_CLOSE_REPAIR_REQUIRED_def)
qed

lemma inv_timeout: "agent_inv env c E a \<Longrightarrow> agent_inv env c E (connectTimeout w a)"
  using inv_finish [of env c E a 1006 w] by (simp add: connectTimeout_def NODE_CLOSE_REPAIR_REQUIRED_def inv_jot split: option.split)

lemma inv_step:
  assumes a: "agent_inv env c E a"
  shows "agent_inv env c (insert m E) (agent_step env m a)"
proof -
  have b: "agent_inv env c (insert m E) a" by (rule agent_inv_moves [OF a]) auto
  have f: "m = SocketClosed w code \<Longrightarrow> agent_inv env c (insert m E) (finishSock w code a)" for w code
    by (rule inv_finish [OF b]) simp
  have r: "m = Arrived w len f \<Longrightarrow> agent_inv env c (insert m E) (arrive w (admitFrame env w len f) a)" for w len f
    by (rule inv_arrived [OF b]) simp
  have "agent_inv env c (insert m E) (loopTurn a)" using b by (simp add: loopTurn_def inv_turns)
  moreover have "m = LoopReload got \<Longrightarrow> agent_inv env c (insert m E) (loopReload env got a)"
    "m = BeatReload i got \<Longrightarrow> agent_inv env c (insert m E) (beatReload env i got a)" for got i
    by (rule inv_reload [OF b] inv_beatReload [OF b]; auto simp: reads_def)+
  ultimately show ?thesis
    using inv_check [OF b] inv_heartbeat [OF b] inv_dial [OF b] inv_opened [OF b] inv_opDone [OF b] r inv_frame [OF b] inv_start [OF b]
      inv_task [OF b] inv_timeout [OF b] f
    by (cases m) simp_all
qed

lemma inv_run: "agent_inv env c (set ms) (agent_run env c ms)"
proof (induction ms rule: rev_induct)
  case Nil
  then show ?case by (simp add: agent_run_def agent_start_def agent_inv_def pinned_def)
next
  case (snoc m ms)
  show ?case using inv_step [OF snoc.IH, of m] by (simp add: agent_run_def)
qed

section \<open>One key\<close>

fun announced :: "('c, 'r) agent_out \<Rightarrow> string set" where
  "announced (KxSent w eph pub) = {pub}"
| "announced (RegisterSent w pub) = {pub}"
| "announced (PairStored pub priv) = {pub}"
| "announced e = {}"

definition announcedKeys :: "('s, 'c, 'r) agent \<Rightarrow> string set" where
  "announcedKeys a = \<Union> (announced ` set (ad_log a))"

text \<open>The configurations that were in force: the one the agent started with and those that a reload applied.\<close>

fun reloadedBy :: "('c, 'r) agent_out \<Rightarrow> link_config list" where
  "reloadedBy (Reloaded f) = [f]"
| "reloadedBy e = []"

definition applied :: "('s, 'c, 'r) agent \<Rightarrow> link_config list" where
  "applied a = concat (map reloadedBy (ad_log a))"

definition sources :: "link_config \<Rightarrow> ('s, 'c, 'r) agent \<Rightarrow> link_config list" where
  "sources c a = c # applied a"

definition keysIn :: "link_config list \<Rightarrow> string set" where
  "keysIn fs = {pub. \<exists>f \<in> set fs. \<exists>priv. lc_pair f = Some (pub, priv)}"

definition pairless :: "link_config list \<Rightarrow> bool" where
  "pairless fs \<longleftrightarrow> list_ex (\<lambda>f. lc_pair f = None) fs"

text \<open>While each of them has a key pair, no other is made, stored or used.\<close>

fun keepsKey :: "link_config list \<Rightarrow> agent_op \<Rightarrow> bool" where
  "keepsKey fs (Deriving pin pub) = (pairless fs \<or> pub \<in> keysIn fs)"
| "keepsKey fs (GeneratingPair pub priv) = pairless fs"
| "keepsKey fs (StoringPair pub priv) = pairless fs"
| "keepsKey fs x = True"

definition pair_inv :: "link_config \<Rightarrow> ('s, 'c, 'r) agent \<Rightarrow> bool" where
  "pair_inv c a \<longleftrightarrow>
     (\<forall>w k. jget (ad_socks a) w = Some k \<longrightarrow> list_all (keepsKey (sources c a)) (as_ops k)) \<and>
     (pairless (sources c a) \<or>
        announcedKeys a \<subseteq> keysIn (sources c a) \<and> lc_pair (ad_config a) = lc_pair (last (sources c a))) \<and>
     (lc_pin (ad_config a) \<noteq> None \<or> lc_pin (last (sources c a)) = None \<or> PinStored None \<in> set (ad_log a))"

lemma sources_jot [simp]: "sources c (jot e a) = sources c a @ reloadedBy e"
  by (simp add: sources_def applied_def)

lemma sources_same: "ad_log b = ad_log a \<Longrightarrow> sources c b = sources c a"
  by (simp add: sources_def applied_def)

lemma sources_simps [simp]:
  "sources c (putSock w k a) = sources c a" "sources c (a\<lparr>ad_config := f\<rparr>) = sources c a" "sources c (a\<lparr>ad_gate := g\<rparr>) = sources c a"
  "sources c (a\<lparr>ad_current := x\<rparr>) = sources c a"
  by (simp_all add: sources_def applied_def)

lemma keys_append: "pairless (fs @ gs) \<longleftrightarrow> pairless fs \<or> pairless gs" "keysIn (fs @ gs) = keysIn fs \<union> keysIn gs"
  by (auto simp: pairless_def keysIn_def)

lemma keys_last:
  "fs \<noteq> [] \<Longrightarrow> lc_pair (last fs) = Some (pub, priv) \<Longrightarrow> pub \<in> keysIn fs"
  "fs \<noteq> [] \<Longrightarrow> lc_pair (last fs) = None \<Longrightarrow> pairless fs"
  by (auto simp: keysIn_def pairless_def list_ex_iff intro!: bexI [OF _ last_in_set])

lemma sources_nonempty [simp]: "sources c a \<noteq> []"
  by (simp add: sources_def)

lemma keepsKey_more: "keepsKey fs x \<Longrightarrow> keepsKey (fs @ gs) x"
  by (cases x) (auto simp: keys_append)

lemma announced_jot [simp]: "announcedKeys (jot e a) = announced e \<union> announcedKeys a"
  by (auto simp: announcedKeys_def)

lemma announced_put [simp]: "announcedKeys (putSock w k a) = announcedKeys a"
  by (simp add: announcedKeys_def)

lemma pair_ops: "pair_inv c a \<Longrightarrow> jget (ad_socks a) w = Some k \<Longrightarrow> list_all (keepsKey (sources c a)) (as_ops k)"
  by (simp add: pair_inv_def)

lemma pair_same:
  "pair_inv c a \<Longrightarrow> ad_socks b = ad_socks a \<Longrightarrow> ad_log b = ad_log a \<Longrightarrow> ad_config b = ad_config a \<Longrightarrow> pair_inv c b"
  using sources_same [of b a c] by (simp add: pair_inv_def announcedKeys_def)

lemma pair_gate: "pair_inv c a \<Longrightarrow> pair_inv c (a\<lparr>ad_gate := g\<rparr>)"
  by (rule pair_same [of c a]) simp_all

lemma pair_jot:
  "pair_inv c a \<Longrightarrow> pairless (sources c a) \<or> announced e \<subseteq> keysIn (sources c a) \<Longrightarrow> reloadedBy e = [] \<Longrightarrow> pair_inv c (jot e a)"
  by (auto simp: pair_inv_def)

lemma pair_quiet: "pair_inv c a \<Longrightarrow> announced e = {} \<Longrightarrow> reloadedBy e = [] \<Longrightarrow> pair_inv c (jot e a)"
  by (rule pair_jot) simp_all

lemma pair_put:
  "pair_inv c a \<Longrightarrow> list_all (keepsKey (sources c a)) (as_ops k) \<Longrightarrow> pair_inv c (putSock w k a)"
  by (simp add: pair_inv_def)

lemma pair_add:
  "pair_inv c a \<Longrightarrow> list_all (keepsKey (sources c a)) (as_ops k) \<Longrightarrow> keepsKey (sources c a) x \<Longrightarrow> pair_inv c (putSock w (addOp x k) a)"
  by (rule pair_put) (simp_all add: addOp_def)

lemma pair_persist:
  "pair_inv c a \<Longrightarrow> list_all (keepsKey (sources c a)) (as_ops k) \<Longrightarrow> keepsKey (sources c a) x \<Longrightarrow> pair_inv c (startPersist w x k a)"
  unfolding startPersist_def by (rule pair_add [OF pair_gate]) simp_all

lemma pair_refuse:
  "pair_inv c a \<Longrightarrow> list_all (keepsKey (sources c a)) (as_ops k) \<Longrightarrow> pair_inv c (refuseLink w k a)"
  by (simp add: refuseLink_def pair_quiet pair_put)

lemma pair_register:
  assumes "pair_inv c a" "list_all (keepsKey (sources c a)) (as_ops k)" "pairless (sources c a) \<or> pub \<in> keysIn (sources c a)"
  shows "pair_inv c (registerWith w pub k a)"
  unfolding registerWith_def by (rule pair_jot [OF pair_put]) (use assms in auto)

lemma pair_send:
  assumes a: "pair_inv c a"
  shows "pair_inv c (sendEvent env w ev a)"
proof -
  have "pair_inv c (jot (EventSent w ev b) (putSock w (k\<lparr>as_session := x\<rparr>) a))" if "jget (ad_socks a) w = Some k" for k b x
    by (intro pair_quiet pair_put [OF a]) (use pair_ops [OF a that] in simp_all)
  then show ?thesis using pair_quiet [OF a] by (simp add: sendEvent_def Let_def split: option.split prod.split)
qed

lemma pair_begin:
  assumes a: "pair_inv c a" and k: "list_all (keepsKey (sources c a)) (as_ops k)"
  shows "pair_inv c (beginLink w made k a)"
proof -
  have ops: "list_all (keepsKey (sources c a)) (as_ops (k\<lparr>as_mode := m\<rparr>))" for m using k by simp
  have own: "pairless (sources c a) \<or> pub \<in> keysIn (sources c a)" if "lc_pair (ad_config a) = Some (pub, priv)" for pub priv
    using a that keys_last(1) [OF sources_nonempty, of c a] by (simp add: pair_inv_def) metis
  have none: "pairless (sources c a)" if "lc_pair (ad_config a) = None"
    using a that keys_last(2) [OF sources_nonempty, of c a] by (simp add: pair_inv_def) metis
  show ?thesis
    using pair_refuse [OF a ops] pair_register [OF a ops own] pair_add [OF a ops] own none
    by (auto simp: beginLink_def split: option.split)
qed

lemma pair_derived:
  assumes a: "pair_inv c a" and k: "list_all (keepsKey (sources c a)) (as_ops k)"
    and p: "pairless (sources c a) \<or> pub \<in> keysIn (sources c a)"
  shows "pair_inv c (derived env w pub got k a)"
proof -
  have "pair_inv c (jot (BindingSent w b) (jot (KxSent w eph pub) (putSock w (k\<lparr>as_phase := AAwaitingAck, as_session := s\<rparr>) a)))"
    for b eph s
    by (intro pair_quiet pair_jot pair_put [OF a]) (use k p in auto)
  then show ?thesis
    using pair_refuse [OF a k] pair_put [OF a k] by (simp add: derived_def Let_def split: option.split prod.split)
qed

lemma pair_outcome:
  assumes a: "pair_inv c a" and k: "list_all (keepsKey (sources c a)) (as_ops k)" and x: "keepsKey (sources c a) x"
  shows "pair_inv c (opOutcome env w x ok seed k a)"
proof (cases x)
  case (Deriving pin pub)
  then show ?thesis using pair_derived [OF a k] x by (simp add: opOutcome_def)
next
  case (StoringPair pub priv)
  then have none: "pairless (sources c a)" using x by simp
  let ?a = "jot (PairStored pub priv) (a\<lparr>ad_config := (ad_config a)\<lparr>lc_pair := Some (pub, priv)\<rparr>\<rparr>)"
  have b: "pair_inv c ?a" using a none by (simp add: pair_inv_def)
  have k': "list_all (keepsKey (sources c ?a)) (as_ops k)" using k by simp
  then show ?thesis
    using pair_put [OF b k'] pair_register [OF b k', of pub w] pair_refuse [OF a k] none StoringPair
    by (simp add: opOutcome_def pairStored_def Let_def)
next
  case (StoringPin pin)
  have "pair_inv c (a\<lparr>ad_config := (ad_config a)\<lparr>lc_pin := Some pin\<rparr>\<rparr>)"
    using a by (auto simp: pair_inv_def announcedKeys_def)
  then have "pair_inv c (jot (Hung w None) (jot (PinStored (Some pin))
      (putSock w (k\<lparr>as_phase := AProvisioned\<rparr>) (a\<lparr>ad_config := (ad_config a)\<lparr>lc_pin := Some pin\<rparr>\<rparr>))))"
    by (intro pair_quiet pair_put) (use k in simp_all)
  then show ?thesis using pair_refuse [OF a k] StoringPin by (simp add: opOutcome_def pinStored_def)
next
  case DroppingPin
  have "pair_inv c (jot (PinStored None) (putSock w k (a\<lparr>ad_config := (ad_config a)\<lparr>lc_pin := None\<rparr>\<rparr>)))"
    using pair_put [OF a k] by (auto simp: pair_inv_def announcedKeys_def)
  then show ?thesis using pair_put [OF a k] DroppingPin by (simp add: opOutcome_def pinDropped_def)
qed (use pair_refuse [OF a k] pair_persist [OF a k] x in \<open>simp_all add: opOutcome_def split: option.split\<close>)

lemma pair_opDone:
  assumes a: "pair_inv c a"
  shows "pair_inv c (opDone env w i ok seed a)"
proof (cases "jget (ad_socks a) w")
  case (Some k)
  note k = pair_ops [OF a Some]
  have "pair_inv c (opOutcome env w (as_ops k ! i) ok seed
      (k\<lparr>as_ops := take i (as_ops k) @ drop (Suc i) (as_ops k)\<rparr>) (a\<lparr>ad_gate := g\<rparr>))" if "i < length (as_ops k)" for g
    by (rule pair_outcome [OF pair_gate [OF a]])
       (use k that in \<open>auto simp: list_all_iff dest: in_set_takeD in_set_dropD\<close>)
  then show ?thesis using a Some by (simp add: opDone_def)
qed (use a in \<open>simp add: opDone_def\<close>)

lemma pair_opened:
  "pair_inv c a \<Longrightarrow> pair_inv c (arrive w (\<lambda>k. if as_mode k = None then beginLink w made k else (\<lambda>a. a)) a)"
  using pair_begin [of c a] pair_ops [of c a w] by (simp add: arrive_def split: option.split)

lemma pair_arrived:
  assumes a: "pair_inv c a"
  shows "pair_inv c (arrive w (admitFrame env w len f) a)"
proof -
  have "pair_inv c (onTextFrame w t k a)" "pair_inv c (onBytesFrame env w b k a)" if "jget (ad_socks a) w = Some k" for t b k
    using pair_ops [OF a that] a
    by (simp_all add: onTextFrame_def onBytesFrame_def Let_def pair_put pair_add pair_refuse pair_send
        split: agent_phase.split option.split prod.split)
  then show ?thesis using a by (simp add: arrive_def admitFrame_def split: option.split link_frame.split)
qed

lemma pair_frame:
  assumes a: "pair_inv c a"
  shows "pair_inv c (handleFrame env w now a)"
proof -
  have cmd: "pair_inv c (commandFrame env w node key now t b)" if b: "pair_inv c b" for node key t b
  proof -
    have queue: "pair_inv c (b\<lparr>ad_verify := v\<rparr>)" "pair_inv c (b\<lparr>ad_verify := v, ad_input := x\<rparr>)"
      "pair_inv c (b\<lparr>ad_verify := v, ad_exec := x\<rparr>)" for v x
      by (rule pair_same [OF b]; simp)+
    show ?thesis
      using b queue
      by (simp add: commandFrame_def Let_def pair_send pair_quiet split: option.split json.split prod.split verify_outcome.split)
  qed
  have f: "pair_inv c (onFrame env w node key now t b)" if "pair_inv c b" for node key t b
    using that cmd by (simp add: onFrame_def Let_def)
  have "pair_inv c (putSock w (k\<lparr>as_frames := r, as_check := None\<rparr>) a)" if "jget (ad_socks a) w = Some k" for k r
    by (rule pair_put [OF a]) (use pair_ops [OF a that] in simp)
  then show ?thesis using f a by (simp add: handleFrame_def split: option.split list.split prod.split)
qed

lemma pair_check:
  assumes a: "pair_inv c a"
  shows "pair_inv c (checkFrame w a)"
proof -
  have "pair_inv c (putSock w (k\<lparr>as_check := x\<rparr>) a)" if "jget (ad_socks a) w = Some k" for k x
    by (rule pair_put [OF a]) (use pair_ops [OF a that] in simp)
  then show ?thesis using a by (simp add: checkFrame_def split: option.split)
qed

text \<open>A reload adds a configuration to those that were in force.\<close>

lemma pair_refresh:
  assumes a: "pair_inv c a"
  shows "pair_inv c (snd (refreshConfig env base got a))"
proof -
  have "pair_inv c (jot (Reloaded f) (a\<lparr>ad_config := f\<rparr>))" for f
  proof -
    have "list_all (keepsKey (sources c a @ [f])) (as_ops k)" if "jget (ad_socks a) w = Some k" for w k
      using pair_ops [OF a that] keepsKey_more by (auto simp: list_all_iff)
    moreover have "pairless (sources c a @ [f]) \<or> announcedKeys a \<subseteq> keysIn (sources c a @ [f])"
      using a by (auto simp: pair_inv_def keys_append)
    ultimately show ?thesis by (cases "lc_pin f") (simp_all add: pair_inv_def announcedKeys_def)
  qed
  then show ?thesis using a by (simp add: refreshConfig_def split: option.split)
qed

lemma pair_turns: "pair_inv c a \<Longrightarrow> pair_inv c (a\<lparr>ad_turn := t\<rparr>)" "pair_inv c a \<Longrightarrow> pair_inv c (a\<lparr>ad_beats := bs\<rparr>)"
  by (erule pair_same; simp)+

lemma pair_reload: "pair_inv c a \<Longrightarrow> pair_inv c (loopReload env got a)"
  using pair_refresh [of c a env _ got] by (simp add: loopReload_def pair_turns split: loop_state.split)

lemma pair_heartbeat: "pair_inv c a \<Longrightarrow> pair_inv c (heartbeat env w a)"
  by (simp add: heartbeat_def Let_def pair_turns pair_send split: option.split)

lemma pair_beatReload:
  assumes "pair_inv c a"
  shows "pair_inv c (beatReload env i got a)"
proof -
  let ?b = "a\<lparr>ad_beats := take i (ad_beats a) @ drop (Suc i) (ad_beats a)\<rparr>"
  have "pair_inv c b" if "refreshConfig env base got ?b = (x, b)" for base x b
    using that pair_refresh [OF pair_turns(2) [OF assms]] by (metis snd_conv)
  then show ?thesis using assms by (auto simp: beatReload_def Let_def intro: pair_quiet split: prod.split)
qed

lemma pair_chain: "pair_inv c a \<Longrightarrow> pair_inv c (setChain input ts st a)"
  by (rule pair_same [of c a]) (simp_all add: setChain_def)

lemma pair_start: "pair_inv c a \<Longrightarrow> pair_inv c (startTask env input a)"
  by (simp add: startTask_def pair_send pair_quiet pair_chain split: prod.split list.split task_state.split option.split)

lemma pair_task:
  assumes a: "pair_inv c a"
  shows "pair_inv c (finishTask env input r a)"
proof -
  have "pair_inv c (a\<lparr>ad_results := m\<rparr>)" for m by (rule pair_same [OF a]) simp_all
  then show ?thesis
    using a by (simp add: finishTask_def Let_def pair_send pair_chain split: prod.split list.split task_state.split)
qed

lemma pair_dial: "pair_inv c a \<Longrightarrow> pair_inv c (dial automatic a)"
  by (auto simp: dial_def freshSock_def intro!: pair_put elim: pair_same)

lemma pair_turn: "pair_inv c a \<Longrightarrow> pair_inv c (loopTurn a)"
  by (simp add: loopTurn_def pair_turns)

lemma pair_closed:
  "pair_inv c a \<Longrightarrow> list_all (keepsKey (sources c a)) (as_ops k) \<Longrightarrow> pair_inv c (linkClosed w d k a)"
  by (simp add: linkClosed_def Let_def pair_put pair_persist)

lemma pair_finish:
  assumes a: "pair_inv c a"
  shows "pair_inv c (finishSock w code a)"
proof -
  have b: "pair_inv c (a\<lparr>ad_current := x\<rparr>)" for x by (rule pair_same [OF a]) simp_all
  show ?thesis
    using a b [of None] pair_ops [OF a] by (simp add: finishSock_def Let_def pair_closed split: option.split)
qed

lemma pair_timeout: "pair_inv c a \<Longrightarrow> pair_inv c (connectTimeout w a)"
  using pair_finish [of c a w 1006] by (simp add: connectTimeout_def pair_quiet split: option.split)

lemma pair_step:
  assumes a: "pair_inv c a"
  shows "pair_inv c (agent_step env m a)"
  using pair_turn [OF a] pair_reload [OF a] pair_check [OF a] pair_heartbeat [OF a] pair_beatReload [OF a] pair_dial [OF a] pair_opened [OF a] pair_opDone [OF a] pair_arrived [OF a] pair_frame [OF a]
    pair_start [OF a] pair_task [OF a] pair_finish [OF a] pair_timeout [OF a]
  by (cases m) simp_all

text \<open>The agent is an event machine: whatever the order of its events, one invariant holds.\<close>

interpretation agents: event_machine "agent_step env" "\<lambda>a. pair_inv c a \<and> (\<exists>E. agent_inv env c E a)" for env c
  by unfold_locales (blast intro: pair_step inv_step)

lemma pair_run: "pair_inv c (agent_run env c ms)"
proof -
  have "pair_inv c (agent_start c) \<and> (\<exists>E. agent_inv env c E (agent_start c))"
    using inv_run [of env c "[]"]
    by (cases "lc_pin c") (auto simp: agent_run_def agent_start_def pair_inv_def announcedKeys_def sources_def applied_def)
  then show ?thesis using agents.run_inv unfolding agent_run_def by blast
qed

section \<open>Properties\<close>

text \<open>
  C7: Nothing but the handshake leaves the agent until the plane has shown that it holds the pinned key: a
  report is sent only on a socket that announced a session derived from a key that was pinned, by the configuration the
  agent started with, by a registration or by a reloaded configuration, and on which a frame came in that
  opens under that session and acknowledges the link.
\<close>

theorem agent_reports_to_pinned_plane:
  assumes "EventSent w ev b \<in> set (ad_log (agent_run env c ms))"
  shows "acked env c (set ms) (set (ad_log (agent_run env c ms))) w"
proof -
  note i = inv_run [of env c ms]
  have "logInv env (set ms) (agent_run env c ms) (EventSent w ev b)" by (rule agent_invD(2) [OF i assms])
  then obtain k where "jget (ad_socks (agent_run env c ms)) w = Some k" "as_reached k" by auto
  then show ?thesis using agent_invD(1) [OF i] by (auto simp: sockInv_def)
qed

text \<open>A configuration is applied only when a reload read it and it can be used.\<close>

lemma applied_log: "f \<in> set (applied a) \<longleftrightarrow> Reloaded f \<in> set (ad_log a)"
proof -
  have "f \<in> set (reloadedBy e) \<longleftrightarrow> e = Reloaded f" for e :: "('b, 'c) agent_out" by (cases e) auto
  then show ?thesis by (auto simp: applied_def)
qed

lemma applied_read: "f \<in> set (applied (agent_run env c ms)) \<Longrightarrow> f \<in> reads (set ms) \<and> ak_usable env f"
  using agent_invD(2) [OF inv_run [of env c ms], of "Reloaded f"] by (simp add: applied_log)

text \<open>
  C34: An agent with a key pair makes up no other: as long as the configurations that were reloaded from disk
  have a pair too, every key it announces in a handshake, registers or stores is that of a configuration that
  was in force, the one it started with or one that a reload read, found usable and applied, and the pair it
  ends with is that of the last of them, over every registration, re-pairing, reload and reconnection.
\<close>

theorem agent_keeps_configured_key:
  assumes "lc_pair c \<noteq> None" and "\<And>f. f \<in> set (applied (agent_run env c ms)) \<Longrightarrow> lc_pair f \<noteq> None"
  shows "announcedKeys (agent_run env c ms) \<subseteq> keysIn (c # applied (agent_run env c ms)) \<and>
    lc_pair (ad_config (agent_run env c ms)) = lc_pair (last (c # applied (agent_run env c ms))) \<and>
    set (applied (agent_run env c ms)) \<subseteq> {f \<in> reads (set ms). ak_usable env f}"
proof -
  have "\<not> pairless (c # applied (agent_run env c ms))" using assms by (auto simp: pairless_def list_ex_iff)
  then show ?thesis using pair_run [of c env ms] applied_read by (auto simp: pair_inv_def sources_def)
qed

text \<open>
  C35: The pinned key of the plane is given up only on the plane's demand or by the machine's own configuration: an
  agent that had one and has none saw a socket closed with the code for re-pairing, which had begun its
  handshake with a pinned key and never got as far as the acknowledgement, or the configuration it last
  reloaded from disk had none.
\<close>

theorem agent_drops_pin_on_demand:
  assumes "lc_pin c \<noteq> None" "lc_pin (ad_config (agent_run env c ms)) = None"
  shows "(\<exists>w k. jget (ad_socks (agent_run env c ms)) w = Some k \<and> SocketClosed w NODE_CLOSE_REPAIR_REQUIRED \<in> set ms \<and>
      as_mode k = Some AHandshake \<and> \<not> as_reached k) \<or>
    (\<exists>f fs. applied (agent_run env c ms) = fs @ [f] \<and> f \<in> reads (set ms) \<and> lc_pin f = None)"
proof (cases "PinStored None \<in> set (ad_log (agent_run env c ms))")
  case True
  then have "logInv env (set ms) (agent_run env c ms) (PinStored None)" by (rule agent_invD(2) [OF inv_run])
  then show ?thesis by auto
next
  case False
  then have l: "lc_pin (last (sources c (agent_run env c ms))) = None" using pair_run [of c env ms] assms by (auto simp: pair_inv_def)
  show ?thesis
  proof (cases "applied (agent_run env c ms)" rule: rev_cases)
    case Nil
    then show ?thesis using l assms(1) by (simp add: sources_def)
  next
    case (snoc fs f)
    then show ?thesis using l applied_read [of f env c ms] by (simp add: sources_def)
  qed
qed

definition demo_num :: "int \<Rightarrow> string" where
  "demo_num i = (if i < 0 then CHR ''-'' # replicate (nat (- i)) (CHR ''1'') else replicate (nat i) (CHR ''1''))"

definition demo_read :: "string \<Rightarrow> int" where
  "demo_read s = (if s \<noteq> [] \<and> hd s = CHR ''-'' then - int (length s - 1) else int (length s))"

lemma demo_read_num: "demo_read (demo_num i) = i"
proof (cases "i < 0")
  case False
  then show ?thesis by (cases "nat i") (simp_all add: demo_num_def demo_read_def)
qed (simp add: demo_num_def demo_read_def)

text \<open>Every frame carries one command, \<open>ping\<close>, under the id \<open>j\<close>.\<close>

definition demo_verify :: "string verify_env" where
  "demo_verify = \<lparr>vk_payload = (\<lambda>jws. Some (signedClaims demo_num ''n'' jws 1 (JStr ''ping'') 0)),
     vk_le = (\<lambda>s k. demo_read s \<le> k), vk_int = (\<lambda>s. Some (demo_read s)), vk_cmd = (\<lambda>_. Some ''ping'')\<rparr>"

definition demo_agent :: "(unit, string, string) agent_env" where
  "demo_agent =
     \<lparr>ak_derive = (\<lambda>pin seed. Some ((), ''AA'')), ak_seal = (\<lambda>s v. ([], ())),
      ak_open = (\<lambda>s b. Some (Some (JObj (if b = [] then [(''t'', JStr ''ok'')] else [(''jws'', JStr ''j'')])), ())),
      ak_decode = (\<lambda>_. None), ak_render = (\<lambda>_. JNull), ak_bytes = (\<lambda>_. 4), ak_num = demo_num,
      ak_usable = (\<lambda>f. lc_serverUrl f \<noteq> []), ak_verify = (\<lambda>_. demo_verify),
      ak_jtiOf = (\<lambda>jws. Some jws), ak_isInput = (\<lambda>_. False), ak_reports = (\<lambda>_. False)\<rparr>"

definition demo_config :: "link_config" where
  "demo_config = \<lparr>lc_serverUrl = ''u'', lc_nodeWsUrl = None, lc_nodeId = ''n'', lc_nodeKey = ''secret'', lc_controlKey = ''ck'', lc_pair = Some (''AA'', ''BB''), lc_pin = Some ''AA''\<rparr>"

definition demo_connect :: "string agent_move list" where
  "demo_connect = [LoopTurn, LoopReload None, Dial False, Opened 0 ([], []), OpDone 0 0 True 0, Arrived 0 9 (BytesFrame [])]"

text \<open>The frame of the command comes in twice.\<close>

definition demo_twice :: "string agent_move list" where
  "demo_twice = demo_connect @ [Arrived 0 9 (BytesFrame [1]), Arrived 0 9 (BytesFrame [1]), CheckFrame 0, HandleFrame 0 0,
     CheckFrame 0, HandleFrame 0 0, StartTask False, FinishTask False ''pong'', StartTask False]"

lemmas agent_eval = agent_run_def agent_start_def demo_twice_def demo_connect_def demo_config_def dial_def loopTurn_def startPersist_def
  freshSock_def putSock_def jot_def arrive_def beginLink_def registerWith_def addOp_def opDone_def opOutcome_def derived_def refuseLink_def
  admitFrame_def onTextFrame_def onBytesFrame_def sendEvent_def parseLinkAck_def strField_def NODE_MAX_FRAME_BYTES_def
  handleFrame_def onFrame_def commandFrame_def verify_start_def startTask_def finishTask_def chainOf_def setChain_def
  rememberResult_def IDEMPOTENCE_CAP_def finishSock_def linkClosed_def NODE_CLOSE_REPAIR_REQUIRED_def pinDropped_def
  checkFrame_def loopReload_def refreshConfig_def heartbeat_def beatReload_def Let_def

lemma demo_verifies:
  "verifyCommand demo_verify JTI_CAPACITY ''n'' 0 ''j'' \<lparr>vc_seen = [], vc_last = 0\<rparr> =
     (Verified ''ping'' ''j'' 1, \<lparr>vc_seen = [''j''], vc_last = 1\<rparr>)"
  "verifyCommand demo_verify JTI_CAPACITY ''n'' 0 ''j'' \<lparr>vc_seen = [''j''], vc_last = 1\<rparr> =
     (Rejected Replayed, \<lparr>vc_seen = [''j''], vc_last = 1\<rparr>)"
  by (simp_all add: verifyCommand_def demo_verify_def signedClaims_def claimsOk_def audienceMatches_def gateCommand_def
      jtiSeen_def JTI_CAPACITY_def seqAccept_def demo_read_num IAT_SKEW_SEC_def NODE_CMD_TTL_SEC_def Let_def)

lemma demo_asked: "set (askedJti (Ask demo_verify ''n'' 0 ''j'')) = {''j''}"
  by (simp add: demo_verify_def signedClaims_def claimsOk_def audienceMatches_def demo_read_num IAT_SKEW_SEC_def
      NODE_CMD_TTL_SEC_def)

lemma demo_asks: "askStream demo_agent demo_twice (agent_start demo_config) =
    [NewStream, Ask demo_verify ''n'' 0 ''j'', Ask demo_verify ''n'' 0 ''j'']"
  by (simp add: agent_eval askOf_def asksIn_def demo_verifies demo_agent_def)

theorem agent_executes_once_witness:
  "distinct (executedJtis (agent_run demo_agent demo_config demo_twice))"
proof (rule agent_executes_once)
  have "set (askedJtis [NewStream, Ask demo_verify ''n'' 0 ''j'', Ask demo_verify ''n'' 0 ''j'']) = {''j''}"
    by (simp only: askedJtis_def list.map concat.simps set_append demo_asked askedJti.simps(2)) simp
  then show "card (set (askedJtis (askStream demo_agent demo_twice (agent_start demo_config)))) \<le> JTI_CAPACITY"
    by (simp only: demo_asks) (simp add: JTI_CAPACITY_def)
qed

text \<open>There the command was executed, and executed once.\<close>

lemma demo_executed: "executedJtis (agent_run demo_agent demo_config demo_twice) = [''j'']"
  by (simp add: agent_eval demo_verifies demo_agent_def executedJtis_def)

theorem agent_reports_to_pinned_plane_witness:
  "acked demo_agent demo_config (set demo_connect) (set (ad_log (agent_run demo_agent demo_config demo_connect))) 0"
proof (rule agent_reports_to_pinned_plane)
  show "EventSent 0 ReadyReport [] \<in> set (ad_log (agent_run demo_agent demo_config demo_connect))"
    by (simp add: agent_eval demo_agent_def)
qed

text \<open>A re-pairing: the pin is dropped on demand, and the same key is registered over the next socket.\<close>

definition demo_repair :: "string agent_move list" where
  "demo_repair = [LoopTurn, LoopReload None, Dial False, Opened 0 ([], []), OpDone 0 0 True 0,
     SocketClosed 0 NODE_CLOSE_REPAIR_REQUIRED, OpDone 0 0 True 0]"

theorem agent_drops_pin_on_demand_witness:
  "(\<exists>w k. jget (ad_socks (agent_run demo_agent demo_config demo_repair)) w = Some k \<and>
      SocketClosed w NODE_CLOSE_REPAIR_REQUIRED \<in> set demo_repair \<and> as_mode k = Some AHandshake \<and> \<not> as_reached k) \<or>
   (\<exists>f fs. applied (agent_run demo_agent demo_config demo_repair) = fs @ [f] \<and> f \<in> reads (set demo_repair) \<and> lc_pin f = None)"
proof (rule agent_drops_pin_on_demand)
  show "lc_pin demo_config \<noteq> None" by (simp add: demo_config_def)
  show "lc_pin (ad_config (agent_run demo_agent demo_config demo_repair)) = None"
    by (simp add: agent_eval demo_repair_def demo_agent_def)
qed

text \<open>
  A heartbeat finds another identity on disk: the connection is given up, and the next one, over which a reload
  without an address is refused, registers under the new key.
\<close>

definition demo_moved :: link_config where
  "demo_moved = demo_config\<lparr>lc_pair := Some (''CC'', ''DD''), lc_pin := None\<rparr>"

definition demo_reload :: "string agent_move list" where
  "demo_reload = demo_connect @ [Beat 0, Beat 0, BeatReload 0 (Some demo_moved), BeatReload 0 (Some demo_config), SocketClosed 0 1000,
     LoopTurn, LoopReload (Some (demo_moved\<lparr>lc_serverUrl := [], lc_pair := None\<rparr>)), Dial False, Opened 1 ([], [])]"

lemma demo_reloads:
  "applied (agent_run demo_agent demo_config demo_reload) = [demo_moved]"
  "Hung 0 (Some 1000) \<in> set (ad_log (agent_run demo_agent demo_config demo_reload))"
  "RegisterSent 1 ''CC'' \<in> set (ad_log (agent_run demo_agent demo_config demo_reload))"
  by (simp_all add: agent_eval demo_reload_def demo_moved_def demo_agent_def applied_def)

theorem agent_keeps_configured_key_witness:
  "announcedKeys (agent_run demo_agent demo_config demo_reload) \<subseteq> {''AA'', ''CC''} \<and>
   lc_pair (ad_config (agent_run demo_agent demo_config demo_reload)) = Some (''CC'', ''DD'')"
proof -
  have keys: "keysIn [demo_config, demo_moved] = {''AA'', ''CC''}" by (auto simp: keysIn_def demo_moved_def demo_config_def)
  have "announcedKeys (agent_run demo_agent demo_config demo_reload) \<subseteq> keysIn (demo_config # [demo_moved]) \<and>
    lc_pair (ad_config (agent_run demo_agent demo_config demo_reload)) = lc_pair (last (demo_config # [demo_moved]))"
    using agent_keeps_configured_key [of demo_config demo_agent demo_reload]
    by (simp add: demo_reloads) (simp add: demo_moved_def demo_config_def)
  then show ?thesis unfolding keys by (simp add: demo_moved_def)
qed

text \<open>
  An agent without a key pair may make two: the wait before a dial covers the writing of a pair, not its
  generation, so a second connection can begin while the first has not stored its pair.  Then the second
  pair is registered, and the first, stored last, is what the agent keeps.
\<close>

definition demo_two_pairs :: "string agent_move list" where
  "demo_two_pairs = [LoopTurn, LoopReload None, Dial False, Opened 0 (''A1'', ''B1''), SocketClosed 0 1006,
     LoopTurn, LoopReload None, Dial False, Opened 1 (''A2'', ''B2''), OpDone 0 0 True 0, OpDone 1 0 True 0, OpDone 1 0 True 0, OpDone 0 0 True 0]"

theorem first_key_may_be_two:
  "RegisterSent 1 ''A2'' \<in> set (ad_log (agent_run demo_agent (demo_config\<lparr>lc_pair := None, lc_pin := None\<rparr>) demo_two_pairs)) \<and>
   lc_pair (ad_config (agent_run demo_agent (demo_config\<lparr>lc_pair := None, lc_pin := None\<rparr>) demo_two_pairs)) =
     Some (''A1'', ''B1'')"
  by (simp add: agent_eval demo_two_pairs_def demo_agent_def pairStored_def)

end
