(* ===== verification/LinkProtocol.thy ===== *)
theory LinkProtocol
  imports NodeTraffic AgentSafety "HOL-Library.Countable"
begin

text \<open>
  The two ends of the node link together: an honest handshake comes through, and the commands the
  server's end sends on a socket pass the agent's check.
\<close>

section \<open>Commands across the link\<close>

text \<open>
  C9: What the server's end sends, the agent's end accepts: whatever happened at the server, every command that left
  on a socket passes the agent's check on a new connection, in the order it was sent, given that frames
  carry the signed claims, arrive in time, and that the ids drawn for commands are new and differ.
\<close>

theorem plane_commands_verify:
  assumes "reads_numbers env num" "inj name" "range name \<inter> set (vc_seen ctx) = {}" "vc_last ctx = 0"
    and "\<And>j q. (j, q) \<in> set (sentFrames w (nodes_run es)) \<Longrightarrow>
      carries env num node (now j) (jws j q) (name j) (int q) (cmd j)"
  shows "fst (verifyRun JTI_CAPACITY (map (\<lambda>(j, q). Ask env node (now j) (jws j q)) (sentFrames w (nodes_run es))) ctx) =
    map (\<lambda>(j, q). Verified (cmd j) (name j) (int q)) (sentFrames w (nodes_run es))"
proof (rule carried_run [OF assms(1)])
  note o = sent_order [of w es]
  have "distinct (map fst (sentFrames w (nodes_run es)))" using o by (simp add: strict_sorted_iff)
  then have "distinct (map name (map fst (sentFrames w (nodes_run es))))"
    using inj_on_subset [OF assms(2) subset_UNIV] by (simp only: distinct_map)
  then show "distinct (map (\<lambda>(j, q). name j) (sentFrames w (nodes_run es)))" by (simp add: split_def comp_def)
  show "sorted_wrt (<) (map snd (sentFrames w (nodes_run es)))" using o by blast
  show "vc_last ctx < int q" if "(j, q) \<in> set (sentFrames w (nodes_run es))" for j q
    using o assms(4) that by force
  show "name ` fst ` set (sentFrames w (nodes_run es)) \<inter> set (vc_seen ctx) = {}"
    by (rule disjoint_mono [OF _ subset_refl assms(3)]) blast
qed (rule assms(5))

definition demo_calls :: "(unit link_env \<times> nevent) list" where
  "demo_calls = map (Pair demo_env) [Open 0 ''n'' ''key-1'' None, Call ''n'' ''ping'', Advance 0 Fine, Advance 0 Fine, Advance 0 Fine,
     Call ''n'' ''ping'', Advance 0 Fine, Advance 0 Fine, Advance 0 Fine]"

lemma demo_frames: "sentFrames 0 (nodes_run demo_calls) = [(0, 1), (1, 2)]"
  by (simp add: demo_calls_def run_eval sentFrames_def)

definition demo_jws :: "nat \<Rightarrow> nat \<Rightarrow> string" where
  "demo_jws j q = replicate j (CHR ''1'') @ CHR ''.'' # replicate q (CHR ''1'')"

lemma demo_jws_split:
  "takeWhile (\<lambda>c. c \<noteq> CHR ''.'') (demo_jws j q) = replicate j (CHR ''1'')"
  "dropWhile (\<lambda>c. c \<noteq> CHR ''.'') (demo_jws j q) = CHR ''.'' # replicate q (CHR ''1'')"
  by (induction j) (simp_all add: demo_jws_def)

text \<open>Tokens that are the id and the number themselves.\<close>

definition demo_check :: "string verify_env" where
  "demo_check = demo_verify\<lparr>vk_payload := (\<lambda>jws. Some (signedClaims demo_num ''n'' (takeWhile (\<lambda>c. c \<noteq> CHR ''.'') jws)
     (int (length (tl (dropWhile (\<lambda>c. c \<noteq> CHR ''.'') jws)))) (JStr ''ping'') 0))\<rparr>"

theorem plane_commands_verify_witness:
  "fst (verifyRun JTI_CAPACITY [Ask demo_check ''n'' 0 (demo_jws 0 1), Ask demo_check ''n'' 0 (demo_jws 1 2)] verify_start) =
     [Verified ''ping'' '''' 1, Verified ''ping'' ''1'' 2]"
proof -
  have "fst (verifyRun JTI_CAPACITY
      (map (\<lambda>(j, q). Ask demo_check ''n'' 0 (demo_jws j q)) (sentFrames 0 (nodes_run demo_calls))) verify_start) =
    map (\<lambda>(j, q). Verified ''ping'' (replicate j (CHR ''1'')) (int q)) (sentFrames 0 (nodes_run demo_calls))"
  proof (rule plane_commands_verify [of demo_check demo_num "\<lambda>j. replicate j (CHR ''1'')" verify_start 0 demo_calls "''n''"
        "\<lambda>_. 0" demo_jws "\<lambda>_. ''ping''"])
    show "reads_numbers demo_check demo_num"
      by (simp add: reads_numbers_def demo_check_def demo_verify_def demo_read_num)
    show "inj (\<lambda>j. replicate j (CHR ''1''))" by (rule injI) (metis length_replicate)
    show "carries demo_check demo_num ''n'' 0 (demo_jws j q) (replicate j (CHR ''1'')) (int q) ''ping''" for j q
      unfolding carries_def
      by (rule exI [of _ "JStr ''ping''"], rule exI [of _ 0])
         (simp add: demo_check_def demo_verify_def demo_jws_split IAT_SKEW_SEC_def NODE_CMD_TTL_SEC_def)
  qed (simp_all add: verify_start_def)
  then show ?thesis by (simp add: demo_frames)
qed

section \<open>An honest handshake\<close>

definition kxFrame :: "string \<Rightarrow> string \<Rightarrow> link_frame" where
  "kxFrame eph pub = TextFrame (Some (JObj [(''t'', JStr ''kx''), (''eph'', JStr eph), (''pub'', JStr pub)]))"

text \<open>
  What is relied on of libsodium: a session the agent derives under the key \<open>pin\<close> comes with an ephemeral key
  from which the server derives its mate, and what one of two mates seals the other opens, in order.  The
  flag tells whether the agent has opened the server's first frame.
\<close>

definition sodium_link ::
  "('s, 'c, 'r) agent_env \<Rightarrow> 't link_env \<Rightarrow> string \<Rightarrow> (bool \<Rightarrow> 's \<Rightarrow> 't \<Rightarrow> bool) \<Rightarrow> bool" where
  "sodium_link aenv senv pin mate \<longleftrightarrow>
     (\<forall>seed s eph. ak_derive aenv pin seed = Some (s, eph) \<longrightarrow>
        isB64 eph \<and> decode32 senv eph \<noteq> None \<and> (\<exists>t. lk_session senv eph = Some t \<and> mate False s t)) \<and>
     (\<forall>opened s t j. mate opened s t \<longrightarrow>
        (\<exists>t'. lk_open senv t (fst (ak_seal aenv s j)) = Some (Some j, t') \<and> mate opened (snd (ak_seal aenv s j)) t')) \<and>
     (\<forall>s t j. mate False s t \<longrightarrow> (\<exists>s'. ak_open aenv s (lk_first senv t j) = Some (Some j, s') \<and> mate True s' t))"

lemma sodium_linkD:
  assumes "sodium_link aenv senv pin mate"
  shows "ak_derive aenv pin seed = Some (s, eph) \<Longrightarrow>
      isB64 eph \<and> decode32 senv eph \<noteq> None \<and> (\<exists>t. lk_session senv eph = Some t \<and> mate False s t)"
    "mate opened s t \<Longrightarrow> ak_seal aenv s j = (b, s') \<Longrightarrow> \<exists>t'. lk_open senv t b = Some (Some j, t') \<and> mate opened s' t'"
    "mate False s t \<Longrightarrow> \<exists>s'. ak_open aenv s (lk_first senv t j) = Some (Some j, s') \<and> mate True s' t"
  using assms unfolding sodium_link_def by (blast, metis fst_conv snd_conv, blast)

subsection \<open>The agent's side\<close>

text \<open>From any history at whose end the loop dials, the agent's half of a handshake that goes well.\<close>

lemma agent_dials:
  assumes "ad_turn A = LoopDials" "lc_pair (ad_config A) = Some (pub, priv)" "lc_pin (ad_config A) = Some pin"
    "ak_derive aenv pin seed = Some (s0, eph)" "ak_seal aenv s0 (bindingOf aenv (ad_config A)) = (sealed, s1)"
  shows "ad_log (fold (agent_step aenv) [Dial a, Opened (ad_next A) made, OpDone (ad_next A) 0 ok seed] A) =
      ad_log A @ [KxSent (ad_next A) eph pub, BindingSent (ad_next A) sealed] \<and>
    ad_current (fold (agent_step aenv) [Dial a, Opened (ad_next A) made, OpDone (ad_next A) 0 ok seed] A) = Some (ad_next A) \<and>
    (\<exists>k. jget (ad_socks (fold (agent_step aenv) [Dial a, Opened (ad_next A) made, OpDone (ad_next A) 0 ok seed] A)) (ad_next A) = Some k \<and>
       as_phase k = AAwaitingAck \<and> as_session k = Some s1 \<and> \<not> as_settled k)"
  using assms by (simp add: agent_eval)

lemma agent_acked:
  assumes "ad_current A = Some w" "jget (ad_socks A) w = Some k" "as_phase k = AAwaitingAck" "as_session k = Some s1" "\<not> as_settled k"
    "ak_open aenv s1 b = Some (Some okFrame, s2)" "ak_seal aenv s2 (ak_render aenv ReadyReport) = (ready, s3)"
    "l \<le> NODE_MAX_FRAME_BYTES" "ak_bytes aenv (ak_render aenv ReadyReport) \<le> NODE_MAX_FRAME_BYTES"
  shows "ad_log (agent_step aenv (Arrived w l (BytesFrame b)) A) = ad_log A @ [EventSent w ReadyReport ready]"
  using assms by (simp add: agent_eval okFrame_def)

subsection \<open>The server's side\<close>

text \<open>A socket whose connection is the live one of its node, with nothing held.\<close>

definition standing :: "nat \<Rightarrow> string \<Rightarrow> nat \<Rightarrow> 's link_data \<Rightarrow> frame_stage \<Rightarrow> 's nodes_state \<Rightarrow> bool" where
  "standing w n c d st s \<longleftrightarrow>
     jget (ns_socks s) w = Some \<lparr>sk_data = d, sk_conn = Some c, sk_stage = st\<rparr> \<and> ld_nodeId d = n \<and>
     getLive n s = Some c \<and> getHeld n s = None"

lemma open_stands:
  assumes i: "link_inv s" and w: "jget (ns_socks s) w = None"
  shows "standing w n (ns_nextConn s) (openedData n key pin) Idle (handleNodeOpen w n key pin s)"
proof -
  have "cn_ws (ns_conns s c) \<noteq> w" if "getLive n s = Some c \<or> getHeld n s = Some c" for c
    using link_invD(2) [OF i, of c] link_invD(3,4) [OF i] that w by force
  then show ?thesis
    using w
    by (auto simp: standing_def handleNodeOpen_def attachConnection_def supersedeHeld_def Let_def setSock_def updConn_def
        closeConn_def logOut_def getLive_def getHeld_def openedData_def split: option.split)
qed

lemma kx_stands:
  assumes "standing w n c d Idle s" "ld_mode d = Handshake" "ld_phase d = AwaitingKx" "ld_pin d = Some rowPin"
    "decode32 env rowPin = Some key" "decode32 env pub = Some key" "isB64 pub" "isB64 eph" "decode32 env eph = Some e"
    "lk_keys env" "lk_session env eph = Some t" "i \<le> NODE_MAX_FRAME_BYTES"
  shows "standing w n c (d\<lparr>ld_session := Some t, ld_phase := AwaitingBinding\<rparr>) Idle (handleNodeMessage env w i (kxFrame eph pub) s) \<and>
    ns_log (handleNodeMessage env w i (kxFrame eph pub) s) = ns_log s"
  using assms
  by (simp add: standing_def handleNodeMessage_def handleLinkFrame_def handleHandshakeFrame_def isRegisterClaim_def kxFrame_def
      acceptKx_def parseKxFrame_def b64Field_def strField_def Let_def setSock_def getLive_def getHeld_def)

lemma binding_stands:
  assumes "standing w n c d Idle s" "ld_mode d = Handshake" "ld_phase d = AwaitingBinding" "ld_session d = Some t"
    "lk_open env t b = Some (Some (bindingOf aenv cfg), t')" "lc_nodeId cfg = n" "lk_verify env (lc_nodeKey cfg) = Some (ld_apiKeyId d, JObj m)"
    "strField m ''kind'' = Some ''node''" "strField m ''nodeId'' = Some n"
    "lk_int env (ak_num aenv NODE_PROTOCOL_VERSION) = Some NODE_PROTOCOL_VERSION" "i \<le> NODE_MAX_FRAME_BYTES"
  shows "standing w n c (d\<lparr>ld_session := Some t', ld_phase := Established\<rparr>) Idle (handleNodeMessage env w i (BytesFrame b) s) \<and>
    ns_log (handleNodeMessage env w i (BytesFrame b) s) = ns_log s @ [SentOk w (lk_first env t' okFrame)]"
  using assms
  by (simp add: standing_def handleNodeMessage_def handleLinkFrame_def handleHandshakeFrame_def completeBinding_def bindingOf_def
      parseLinkBinding_def strField_def reProveNodeKey_def connOf_def Let_def setSock_def updConn_def logOut_def getLive_def getHeld_def)

lemma ready_accepted:
  assumes "standing w n c d Idle s" "ld_mode d = Handshake" "ld_phase d = Established" "ld_session d = Some t"
    "lk_open env t b = Some (plain, t')" "lk_event env plain = Some (ReadyEvent r)" "wouldPass r" "i \<le> NODE_MAX_FRAME_BYTES"
  shows "Accepted w r \<in> set (ns_log (resumeFrame w (resumeFrame w (handleNodeMessage env w i (BytesFrame b) s))))"
  using assms
  by (simp add: standing_def handleNodeMessage_def handleLinkFrame_def handleHandshakeFrame_def handleEvent_def resumeFrame_def
      gateReady_def wouldPass_def Let_def setSock_def logOut_def getLive_def getHeld_def)

subsection \<open>Both sides\<close>

text \<open>
  C8: An honest handshake comes through.  From any history of the agent at whose end its loop dials with a key pair and
  the plane's pinned key, and any history of the server before a new socket of that node opens, whose row pins
  the agent's key: the agent announces its session and seals its binding; the server, given exactly that,
  answers with one sealed frame; the agent, given exactly that frame, seals its ready report; and the server,
  given exactly that report, accepts the node.  Relied on are the streams of libsodium, a node key that is
  live for the row, and a report of a supported version.
\<close>

theorem honest_handshake_completes:
  assumes agent: "ad_turn (agent_run aenv c ms) = LoopDials" "ad_config (agent_run aenv c ms) = cfg"
      "lc_pair cfg = Some (pub, priv)" "lc_pin cfg = Some pin" "ak_derive aenv pin seed = Some (s0, eph)"
    and sodium: "sodium_link aenv senv pin mate"
    and row: "jget (ns_socks (nodes_run es)) w = None" "decode32 senv rowPin = Some key" "decode32 senv pub = Some key" "isB64 pub"
      "lk_keys senv"
    and node: "lk_verify senv (lc_nodeKey cfg) = Some (keyId, JObj m)" "strField m ''kind'' = Some ''node''"
      "strField m ''nodeId'' = Some (lc_nodeId cfg)" "lk_int senv (ak_num aenv NODE_PROTOCOL_VERSION) = Some NODE_PROTOCOL_VERSION"
    and report: "lk_event senv (Some (ak_render aenv ReadyReport)) = Some (ReadyEvent r)" "wouldPass r"
    and small: "i \<le> NODE_MAX_FRAME_BYTES" "j \<le> NODE_MAX_FRAME_BYTES" "k \<le> NODE_MAX_FRAME_BYTES" "l \<le> NODE_MAX_FRAME_BYTES"
      "ak_bytes aenv (ak_render aenv ReadyReport) \<le> NODE_MAX_FRAME_BYTES"
  shows "\<exists>v sealed okBytes ready.
    ad_log (agent_run aenv c (ms @ [Dial a, Opened v made, OpDone v 0 ok seed])) =
      ad_log (agent_run aenv c ms) @ [KxSent v eph pub, BindingSent v sealed] \<and>
    ns_log (nodes_run (es @ map (Pair senv) [Open w (lc_nodeId cfg) keyId (Some rowPin), Frame w i (kxFrame eph pub),
        Frame w j (BytesFrame sealed)])) =
      ns_log (nodes_run (es @ [(senv, Open w (lc_nodeId cfg) keyId (Some rowPin))])) @ [SentOk w okBytes] \<and>
    ad_log (agent_run aenv c (ms @ [Dial a, Opened v made, OpDone v 0 ok seed, Arrived v l (BytesFrame okBytes)])) =
      ad_log (agent_run aenv c ms) @ [KxSent v eph pub, BindingSent v sealed, EventSent v ReadyReport ready] \<and>
    Accepted w r \<in> set (ns_log (nodes_run (es @ map (Pair senv) [Open w (lc_nodeId cfg) keyId (Some rowPin),
        Frame w i (kxFrame eph pub), Frame w j (BytesFrame sealed), Frame w k (BytesFrame ready), Resume w, Resume w])))"
proof -
  let ?A = "agent_run aenv c ms" and ?n = "lc_nodeId cfg" and ?bind = "bindingOf aenv cfg"
  let ?v = "ad_next ?A" and ?d = "openedData (lc_nodeId cfg) keyId (Some rowPin)" and ?c = "ns_nextConn (nodes_run es)"
  note law = sodium_linkD [OF sodium]
  obtain t0 e where t0: "isB64 eph" "decode32 senv eph = Some e" "lk_session senv eph = Some t0" "mate False s0 t0"
    using law(1) [OF agent(5)] by blast
  obtain sealed s1 where s1: "ak_seal aenv s0 ?bind = (sealed, s1)" by fastforce
  obtain t1 where t1: "lk_open senv t0 sealed = Some (Some ?bind, t1)" "mate False s1 t1" using law(2) [OF t0(4) s1] by blast
  let ?ok = "lk_first senv t1 okFrame"
  obtain s2 where s2: "ak_open aenv s1 ?ok = Some (Some okFrame, s2)" "mate True s2 t1" using law(3) [OF t1(2)] by blast
  obtain ready s3 where s3: "ak_seal aenv s2 (ak_render aenv ReadyReport) = (ready, s3)" by fastforce
  obtain t2 where t2: "lk_open senv t1 ready = Some (Some (ak_render aenv ReadyReport), t2)" using law(2) [OF s2(2) s3] by blast
  let ?B = "agent_run aenv c (ms @ [Dial a, Opened ?v made, OpDone ?v 0 ok seed])"
  have B: "ad_log ?B = ad_log ?A @ [KxSent ?v eph pub, BindingSent ?v sealed]" "ad_current ?B = Some ?v"
    "\<exists>k. jget (ad_socks ?B) ?v = Some k \<and> as_phase k = AAwaitingAck \<and> as_session k = Some s1 \<and> \<not> as_settled k"
    using agent_dials [of ?A pub priv pin aenv seed s0 eph sealed s1 a made ok] agent s1 by (simp_all add: agent_run_def)
  have acked: "ad_log (agent_step aenv (Arrived ?v l (BytesFrame ?ok)) ?B) = ad_log ?B @ [EventSent ?v ReadyReport ready]"
    using B(2,3) agent_acked [OF _ _ _ _ _ s2(1) s3 small(4,5)] by blast
  let ?S0 = "handleNodeOpen w ?n keyId (Some rowPin) (nodes_run es)"
  let ?S1 = "handleNodeMessage senv w i (kxFrame eph pub) ?S0"
  let ?S2 = "handleNodeMessage senv w j (BytesFrame sealed) ?S1"
  have d: "ld_mode ?d = Handshake" "ld_phase ?d = AwaitingKx" "ld_pin ?d = Some rowPin" "ld_apiKeyId ?d = keyId"
    by (simp_all add: openedData_def beginLinkUpgrade_def)
  have "link_inv (nodes_run es)" using nodes_run_inv [of es] by (simp add: nodes_inv_def)
  note S0 = open_stands [OF this row(1), of ?n keyId "Some rowPin"]
  note S1 = kx_stands [OF S0 d(1-3) row(2,3,4) t0(1,2) row(5) t0(3) small(1)]
  note S2 = binding_stands [OF conjunct1 [OF S1], where env = senv and t = t0 and b = sealed and aenv = aenv and cfg = cfg and t' = t1
      and m = m and i = j]
  have S2: "standing w ?n ?c (?d\<lparr>ld_session := Some t1, ld_phase := Established\<rparr>) Idle ?S2 \<and> ns_log ?S2 = ns_log ?S1 @ [SentOk w ?ok]"
    using S2 t1(1) node small(2) by (simp add: d)
  have acc: "Accepted w r \<in> set (ns_log (resumeFrame w (resumeFrame w (handleNodeMessage senv w k (BytesFrame ready) ?S2))))"
    by (rule ready_accepted [OF conjunct1 [OF S2] _ _ _ t2 report small(3)]) (simp_all add: d)
  show ?thesis
    by (rule exI [of _ ?v], rule exI [of _ sealed], rule exI [of _ ?ok], rule exI [of _ ready])
       (use B(1) acked S1 S2 acc in \<open>simp add: agent_run_def nodes_run_def nodes_move_def\<close>)
qed

text \<open>
  Two ends over one demonstration cipher: a frame is a mark, the parity of the stream's position or the mark of
  the server's first frame, and as many octets as the value's number says.
\<close>

instance json :: countable by countable_datatype

definition demo_spell :: "octet \<Rightarrow> json \<Rightarrow> octet list" where
  "demo_spell mark j = mark # replicate (to_nat j) 0"

definition demo_unspell :: "octet \<Rightarrow> octet list \<Rightarrow> ltext option" where
  "demo_unspell mark b = (if b \<noteq> [] \<and> hd b = mark then Some (Some (from_nat (length b - 1))) else None)"

lemma demo_spelt: "demo_unspell mark (demo_spell mark j) = Some (Some j)"
  by (simp add: demo_unspell_def demo_spell_def)

definition demo_sealing :: "(nat \<times> bool, string, string) agent_env" where
  "demo_sealing =
     \<lparr>ak_derive = (\<lambda>pin seed. if pin = ''PP'' then Some ((0, False), ''EE'') else None),
      ak_seal = (\<lambda>s v. (demo_spell (of_nat (fst s mod 2)) v, (Suc (fst s), snd s))),
      ak_open = (\<lambda>s b. if snd s then None else map_option (\<lambda>v. (v, (fst s, True))) (demo_unspell 2 b)),
      ak_decode = (\<lambda>_. None), ak_render = (\<lambda>ev. case ev of ReadyReport \<Rightarrow> JStr ''ready'' | _ \<Rightarrow> JNull), ak_bytes = (\<lambda>_. 4),
      ak_num = demo_num, ak_usable = (\<lambda>_. True), ak_verify = (\<lambda>_. demo_verify), ak_jtiOf = (\<lambda>jws. Some jws),
      ak_isInput = (\<lambda>_. False), ak_reports = (\<lambda>_. False)\<rparr>"

definition demo_opening :: "nat link_env" where
  "demo_opening =
     \<lparr>lk_verify = (\<lambda>k. if k = ''secret'' then Some (''key-1'', JObj [(''kind'', JStr ''node''), (''nodeId'', JStr ''n'')]) else None),
      lk_keys = True, lk_session = (\<lambda>eph. if eph = ''EE'' then Some 0 else None),
      lk_open = (\<lambda>t b. map_option (\<lambda>v. (v, Suc t)) (demo_unspell (of_nat (t mod 2)) b)),
      lk_first = (\<lambda>_. demo_spell 2), lk_decode = (\<lambda>k. Some (replicate 32 (of_nat (length (takeWhile (\<lambda>c. c = CHR ''A'') k))))),
      lk_encode = (\<lambda>_. []), lk_int = (\<lambda>n. Some (demo_read n)),
      lk_event = (\<lambda>t. if t = Some (JStr ''ready'') then Some (ReadyEvent \<lparr>rr_agentVersion = Some ''3.1.0'', rr_protocolVersion = 26,
        rr_fingerprint = True\<rparr>) else None)\<rparr>"

lemma demo_sodium: "sodium_link demo_sealing demo_opening ''PP'' (\<lambda>opened s t. fst s = t \<and> snd s = opened)"
  by (simp add: sodium_link_def demo_sealing_def demo_opening_def demo_spelt decode32_def isB64_def keyChar_def)

text \<open>The agent's first connection failed, and the node's last socket is still open at the server.\<close>

definition demo_own :: link_config where
  "demo_own = demo_config\<lparr>lc_pair := Some (''AA'', ''BB''), lc_pin := Some ''PP''\<rparr>"

definition demo_second :: "string agent_move list" where
  "demo_second = [LoopTurn, LoopReload None, Dial False, SocketClosed 0 1006, LoopTurn, LoopReload None]"

definition demo_rejoin :: "octet list \<Rightarrow> octet list \<Rightarrow> (nat link_env \<times> nevent) list" where
  "demo_rejoin sealed ready = map (Pair demo_opening) [Open 0 ''n'' ''key-1'' (Some ''AA''), Open 1 ''n'' ''key-1'' (Some ''AA''),
     Frame 1 9 (kxFrame ''EE'' ''AA''), Frame 1 9 (BytesFrame sealed), Frame 1 9 (BytesFrame ready), Resume 1, Resume 1]"

theorem honest_handshake_completes_witness:
  "\<exists>v sealed okBytes ready.
    ad_log (agent_run demo_sealing demo_own (demo_second @
      [Dial False, Opened v ([], []), OpDone v 0 True 0, Arrived v 9 (BytesFrame okBytes)])) =
      [KxSent v ''EE'' ''AA'', BindingSent v sealed, EventSent v ReadyReport ready] \<and>
    (\<exists>r. Accepted 1 r \<in> set (ns_log (nodes_run (demo_rejoin sealed ready))))"
proof -
  have log: "ad_log (agent_run demo_sealing demo_own demo_second) = []"
    by (simp add: agent_eval demo_second_def demo_own_def)
  have "\<exists>v sealed okBytes ready.
    ad_log (agent_run demo_sealing demo_own (demo_second @ [Dial False, Opened v ([], []), OpDone v 0 True 0])) =
      ad_log (agent_run demo_sealing demo_own demo_second) @ [KxSent v ''EE'' ''AA'', BindingSent v sealed] \<and>
    ns_log (nodes_run ([(demo_opening, Open 0 ''n'' ''key-1'' (Some ''AA''))] @ map (Pair demo_opening)
        [Open 1 (lc_nodeId demo_own) ''key-1'' (Some ''AA''), Frame 1 9 (kxFrame ''EE'' ''AA''), Frame 1 9 (BytesFrame sealed)])) =
      ns_log (nodes_run ([(demo_opening, Open 0 ''n'' ''key-1'' (Some ''AA''))] @
        [(demo_opening, Open 1 (lc_nodeId demo_own) ''key-1'' (Some ''AA''))])) @ [SentOk 1 okBytes] \<and>
    ad_log (agent_run demo_sealing demo_own (demo_second @
        [Dial False, Opened v ([], []), OpDone v 0 True 0, Arrived v 9 (BytesFrame okBytes)])) =
      ad_log (agent_run demo_sealing demo_own demo_second) @
        [KxSent v ''EE'' ''AA'', BindingSent v sealed, EventSent v ReadyReport ready] \<and>
    Accepted 1 \<lparr>rr_agentVersion = Some ''3.1.0'', rr_protocolVersion = 26, rr_fingerprint = True\<rparr> \<in>
      set (ns_log (nodes_run ([(demo_opening, Open 0 ''n'' ''key-1'' (Some ''AA''))] @ map (Pair demo_opening)
        [Open 1 (lc_nodeId demo_own) ''key-1'' (Some ''AA''), Frame 1 9 (kxFrame ''EE'' ''AA''), Frame 1 9 (BytesFrame sealed),
         Frame 1 9 (BytesFrame ready), Resume 1, Resume 1])))"
  proof (rule honest_handshake_completes [OF _ _ _ _ _ demo_sodium, where ?s0.0 = "(0, False)" and seed = 0
        and m = "[(''kind'', JStr ''node''), (''nodeId'', JStr ''n'')]"])
    show "ad_turn (agent_run demo_sealing demo_own demo_second) = LoopDials" "ad_config (agent_run demo_sealing demo_own demo_second) = demo_own"
      by (simp_all add: agent_eval demo_second_def demo_own_def)
    show "jget (ns_socks (nodes_run [(demo_opening, Open 0 ''n'' ''key-1'' (Some ''AA''))])) 1 = None"
      by (simp add: run_eval)
    show "wouldPass \<lparr>rr_agentVersion = Some ''3.1.0'', rr_protocolVersion = 26, rr_fingerprint = True\<rparr>"
      using supported_floor by (simp add: wouldPass_def NODE_PROTOCOL_VERSION_def)
    show "isB64 ''AA''" by (simp add: isB64_def keyChar_def)
  qed (simp_all add: demo_sealing_def demo_opening_def demo_own_def demo_config_def decode32_def strField_def NODE_MAX_FRAME_BYTES_def
      demo_read_num)
  then show ?thesis unfolding log demo_rejoin_def by (simp add: demo_own_def demo_config_def) blast
qed

section \<open>A frame left over from the last connection\<close>

text \<open>
  The numbers of a connection start again at one, and dialling sets the agent's tracker back.  A frame of the
  last connection that is still waiting for its check moves the tracker of the new one, whose first
  command then looks like a step back and costs the connection.
\<close>

definition demo_late :: "(unit, string, string) agent_env" where
  "demo_late = demo_agent\<lparr>ak_verify := (\<lambda>_. demo_check),
     ak_open := (\<lambda>s b. Some (Some (JObj (if b = [] then [(''t'', JStr ''ok'')]
       else [(''jws'', JStr (demo_jws (length b) (length b)))])), ()))\<rparr>"

definition demo_leftover :: "string agent_move list" where
  "demo_leftover = demo_connect @ [Arrived 0 9 (BytesFrame [0, 0]), SocketClosed 0 1006,
     LoopTurn, LoopReload None, Dial False, Opened 1 ([], []), OpDone 1 0 True 0, Arrived 1 9 (BytesFrame []),
     CheckFrame 0, HandleFrame 0 0, Arrived 1 9 (BytesFrame [0]), CheckFrame 1, HandleFrame 1 0]"

lemma demo_checks:
  "verifyCommand demo_check JTI_CAPACITY ''n'' 0 (demo_jws 2 2) \<lparr>vc_seen = [], vc_last = 0\<rparr> =
     (Verified ''ping'' (replicate 2 (CHR ''1'')) 2, \<lparr>vc_seen = [replicate 2 (CHR ''1'')], vc_last = 2\<rparr>)"
  "verifyCommand demo_check JTI_CAPACITY ''n'' 0 (demo_jws 1 1) \<lparr>vc_seen = [replicate 2 (CHR ''1'')], vc_last = 2\<rparr> =
     (Rejected SeqBack, \<lparr>vc_seen = [replicate 2 (CHR ''1''), replicate 1 (CHR ''1'')], vc_last = 2\<rparr>)"
  by (simp_all add: verifyCommand_def demo_check_def demo_verify_def signedClaims_def claimsOk_def audienceMatches_def
      gateCommand_def demo_jws_split demo_read_num seqAccept_def jtiSeen_def JTI_CAPACITY_def IAT_SKEW_SEC_def
      NODE_CMD_TTL_SEC_def Let_def numeral_2_eq_2)

theorem leftover_frame_drops_the_link:
  "Hung 1 (Some 1000) \<in> set (ad_log (agent_run demo_late demo_config demo_leftover)) \<and>
   executedJtis (agent_run demo_late demo_config demo_leftover) = []"
  using demo_checks
  by (simp add: agent_eval demo_leftover_def demo_late_def demo_agent_def executedJtis_def numeral_2_eq_2)

end
