(* ===== verification/SyncStripper.thy ===== *)
theory SyncStripper
  imports Utf8 "HOL-Library.Sublist"
begin

text \<open>
  Taking the marks of synchronized output out of a terminal's text:
  \<open>apps/server/api/src/api/ws/sync-stripper.ts\<close>, the stateless removal and the stream that holds back a
  mark cut in two.  Text is a list of code points; the marks are ASCII.
\<close>

section \<open>The two modes\<close>

definition SYNC_BEGIN :: jtext where "SYNC_BEGIN = 27 # ascii ''[?2026h''"

definition SYNC_END :: jtext where "SYNC_END = 27 # ascii ''[?2026l''"

definition MAX_PARTIAL_LEN :: nat where "MAX_PARTIAL_LEN = length SYNC_BEGIN - 1"

text \<open>\<open>s.split(m).join("")\<close>.\<close>

function removeAllOf :: "jtext \<Rightarrow> jtext \<Rightarrow> jtext" where
  "removeAllOf m [] = []"
| "removeAllOf m (c # cs) =
     (if m \<noteq> [] \<and> prefix m (c # cs) then removeAllOf m (drop (length m) (c # cs)) else c # removeAllOf m cs)"
  by pat_completeness auto
termination by (relation "measure (length \<circ> snd)") auto

definition stripSyncMarkers :: "jtext \<Rightarrow> jtext" where
  "stripSyncMarkers s = (if \<not> sublist (ascii ''2026'') s then s else removeAllOf SYNC_END (removeAllOf SYNC_BEGIN s))"

fun longestHold :: "nat \<Rightarrow> jtext \<Rightarrow> nat" where
  "longestHold 0 s = 0"
| "longestHold (Suc k) s =
     (let tail = drop (length s - Suc k) s in
      if prefix tail SYNC_BEGIN \<or> prefix tail SYNC_END then Suc k else longestHold k s)"

definition partialMarkerSuffixLen :: "jtext \<Rightarrow> nat" where
  "partialMarkerSuffixLen s = longestHold (min (length s) MAX_PARTIAL_LEN) s"

text \<open>\<open>push\<close>, on the text held back so far.\<close>

definition stripPush :: "jtext \<Rightarrow> jtext \<Rightarrow> jtext \<times> jtext" where
  "stripPush pending chunk =
     (if chunk = [] then ([], pending)
      else
        let stripped = stripSyncMarkers (pending @ chunk); hold = partialMarkerSuffixLen stripped in
        (take (length stripped - hold) stripped, drop (length stripped - hold) stripped))"

fun stripStream :: "jtext \<Rightarrow> jtext list \<Rightarrow> jtext \<times> jtext" where
  "stripStream pending [] = ([], pending)"
| "stripStream pending (c # cs) =
     (let (out, pending) = stripPush pending c; (rest, pending) = stripStream pending cs in (out @ rest, pending))"

section \<open>Marks and pieces of marks\<close>

definition mark :: "jtext \<Rightarrow> bool" where
  "mark m \<longleftrightarrow> m = SYNC_BEGIN \<or> m = SYNC_END"

definition piece :: "jtext \<Rightarrow> bool" where
  "piece p \<longleftrightarrow> strict_prefix p SYNC_BEGIN \<or> strict_prefix p SYNC_END"

lemma marks_spelled:
  "SYNC_BEGIN = [27, 91, 63, 50, 48, 50, 54, 104]" "SYNC_END = [27, 91, 63, 50, 48, 50, 54, 108]"
  by (simp_all add: SYNC_BEGIN_def SYNC_END_def ascii_def)

lemma mark_head: "mark m \<Longrightarrow> \<exists>t. m = 27 # t \<and> 27 \<notin> set t \<and> length m = 8"
  by (auto simp: mark_def marks_spelled)

lemma piece_head: "piece p \<Longrightarrow> p = [] \<or> (\<exists>t. p = 27 # t \<and> 27 \<notin> set t)"
proof -
  assume "piece p"
  then obtain m where m: "mark m" "prefix p m" by (auto simp: piece_def mark_def strict_prefix_def)
  obtain t where t: "m = 27 # t" "27 \<notin> set t" using mark_head [OF m(1)] by blast
  show ?thesis
  proof (cases p)
    case (Cons c q)
    then have "c = 27" "prefix q t" using m(2) t(1) by simp_all
    then show ?thesis using Cons t(2) set_mono_prefix by blast
  qed simp
qed

lemma piece_nil [simp]: "piece []"
  by (simp add: piece_def marks_spelled)

lemma piece_of_mark: "mark m \<Longrightarrow> strict_prefix p m \<Longrightarrow> piece p"
  by (auto simp: mark_def piece_def)

lemma piece_prefix: "piece (p @ q) \<Longrightarrow> piece p"
  unfolding piece_def using append_prefixD prefix_order.le_less_trans prefix_def by (metis prefixI)

lemma piece_or_mark: "prefix q SYNC_BEGIN \<or> prefix q SYNC_END \<longleftrightarrow> piece q \<or> mark q"
  by (auto simp: piece_def mark_def strict_prefix_def)

lemma piece_short: "piece p \<Longrightarrow> length p \<le> MAX_PARTIAL_LEN"
  by (auto simp: piece_def MAX_PARTIAL_LEN_def marks_spelled dest!: prefix_length_less)

lemma mark_not_piece: "mark m \<Longrightarrow> \<not> piece m"
  using mark_head piece_short by (fastforce simp: MAX_PARTIAL_LEN_def marks_spelled)

section \<open>One character at a time\<close>

text \<open>The text as a machine reads it: what it lets through, and the piece of a mark it holds.\<close>

definition markStep :: "jtext \<Rightarrow> nat \<Rightarrow> jtext \<times> jtext" where
  "markStep p c =
     (if mark (p @ [c]) then ([], [])
      else if piece (p @ [c]) then ([], p @ [c])
      else if c = 27 then (p, [27]) else (p @ [c], []))"

fun markFeed :: "jtext \<Rightarrow> jtext \<Rightarrow> jtext \<times> jtext" where
  "markFeed p [] = ([], p)"
| "markFeed p (c # cs) = (let (out, p) = markStep p c; (rest, p) = markFeed p cs in (out @ rest, p))"

lemma feed_append:
  "markFeed p (s @ t) = (let (a, p) = markFeed p s; (b, p) = markFeed p t in (a @ b, p))"
  by (induction s arbitrary: p) (auto split: prod.split)

lemma feed_snoc:
  "markFeed p (s @ [c]) = (let (a, q) = markFeed p s; (b, r) = markStep q c in (a @ b, r))"
  by (simp add: feed_append split: prod.split)

lemma piece_esc: "piece [27]"
  by (simp add: piece_def marks_spelled)

lemma step_piece: "piece (snd (markStep p c))"
  by (simp add: markStep_def piece_esc)

lemma feed_piece: "piece p \<Longrightarrow> piece (snd (markFeed p s))"
proof (induction s arbitrary: p)
  case (Cons c s)
  have "piece (snd (markFeed (snd (markStep p c)) s))" by (rule Cons.IH) (rule step_piece)
  then show ?case by (simp add: split_def Let_def)
qed simp

lemma step_suffix: "suffix p s \<Longrightarrow> suffix (snd (markStep p c)) (s @ [c])"
  by (auto simp: markStep_def suffix_def)

lemma feed_suffix: "suffix (snd (markFeed [] s)) s"
proof (induction s rule: rev_induct)
  case (snoc c s)
  then show ?case using step_suffix [OF snoc, of c] by (simp add: feed_snoc split_def Let_def)
qed simp

lemma feed_piece_id: "piece p \<Longrightarrow> markFeed [] p = ([], p)"
proof (induction p rule: rev_induct)
  case (snoc c p)
  have "piece p" by (rule piece_prefix [OF snoc.prems])
  moreover have "\<not> mark (p @ [c])" using mark_not_piece snoc.prems by blast
  ultimately show ?case using snoc by (simp add: feed_snoc markStep_def)
qed simp

lemma feed_mark: "mark m \<Longrightarrow> markFeed [] m = ([], [])"
proof -
  assume m: "mark m"
  then obtain p c where pc: "m = p @ [c]" using mark_head [OF m] by (cases m rule: rev_cases) auto
  have "piece p" by (rule piece_of_mark [OF m]) (simp add: pc strict_prefix_def)
  then show ?thesis using feed_piece_id m pc by (simp add: feed_snoc markStep_def)
qed

definition hasMark :: "jtext \<Rightarrow> bool" where
  "hasMark s \<longleftrightarrow> (\<exists>u m v. mark m \<and> s = u @ m @ v)"

text \<open>Without a mark the machine lets everything through but the longest piece of one at the end.\<close>

lemma feed_plain:
  assumes "\<not> hasMark s"
  shows "fst (markFeed [] s) @ snd (markFeed [] s) = s \<and>
    (\<forall>q. suffix q s \<longrightarrow> piece q \<longrightarrow> length q \<le> length (snd (markFeed [] s)))"
  using assms
proof (induction s rule: rev_induct)
  case (snoc c s)
  have free: "\<not> hasMark s"
  proof
    assume "hasMark s"
    then obtain u m v where "mark m" "s = u @ m @ v" unfolding hasMark_def by blast
    then have "s @ [c] = u @ m @ (v @ [c])" by simp
    then show False using snoc.prems \<open>mark m\<close> unfolding hasMark_def by blast
  qed
  obtain a p where f: "markFeed [] s = (a, p)" by fastforce
  have ap: "a @ p = s" and long: "\<And>q. suffix q s \<Longrightarrow> piece q \<Longrightarrow> length q \<le> length p"
    using snoc.IH [OF free] f by auto
  have pp: "piece p" using feed_piece [of "[]" s] f by simp
  have nm: "\<not> mark (p @ [c])"
  proof
    assume "mark (p @ [c])"
    moreover have "s @ [c] = a @ (p @ [c]) @ []" using ap by simp
    ultimately show False using snoc.prems unfolding hasMark_def by blast
  qed
  obtain b r where st: "markStep p c = (b, r)" by fastforce
  have feed: "markFeed [] (s @ [c]) = (a @ b, r)" using f st by (simp add: feed_snoc)
  have br: "b @ r = p @ [c]" using st nm by (auto simp: markStep_def split: if_split_asm)
  have "length q \<le> length r" if q: "suffix q (s @ [c])" "piece q" for q
  proof (cases q rule: rev_cases)
    case (snoc q' d)
    then have q': "d = c" "suffix q' s" using q(1) by (auto simp: suffix_def)
    have pq': "piece q'" using piece_prefix q(2) snoc by blast
    show ?thesis
    proof (cases q')
      case Nil
      then have "c = 27" using piece_head [OF q(2)] snoc q'(1) by auto
      then show ?thesis using st nm snoc Nil by (auto simp: markStep_def split: if_split_asm)
    next
      case (Cons e t)
      have "length q' \<le> length p" by (rule long [OF q'(2) pq'])
      then have "suffix q' p" using q'(2) ap by (metis suffix_def suffix_length_suffix suffixI)
      then obtain x where x: "p = x @ q'" by (auto simp: suffix_def)
      have "e = 27" using piece_head [OF pq'] Cons by auto
      then have "x = []" using piece_head [OF pp] x Cons by (cases x) auto
      then have "piece (p @ [c])" using q(2) snoc q'(1) x by simp
      then show ?thesis using st nm snoc x \<open>x = []\<close> q'(1) by (auto simp: markStep_def split: if_split_asm)
    qed
  qed simp
  then show ?case using feed ap br by simp
qed (simp add: suffix_def)

section \<open>Removing marks\<close>

text \<open>A torn text has a mark right behind a piece of one, so that taking out the mark may make another.\<close>

definition torn :: "jtext \<Rightarrow> bool" where
  "torn s \<longleftrightarrow> (\<exists>u p m v. mark m \<and> piece p \<and> p \<noteq> [] \<and> s = u @ p @ m @ v)"

lemma torn_inside: "torn s \<Longrightarrow> torn (a @ s @ b)"
proof -
  assume "torn s"
  then obtain u p m v where t: "mark m" "piece p" "p \<noteq> []" "s = u @ p @ m @ v" unfolding torn_def by blast
  then have "a @ s @ b = (a @ u) @ p @ m @ (v @ b)" by simp
  then show ?thesis using t(1-3) unfolding torn_def by blast
qed

lemma first_mark:
  assumes "hasMark s"
  shows "\<exists>u m v. mark m \<and> s = u @ m @ v \<and> \<not> hasMark u"
  using assms
proof (induction s rule: length_induct)
  case (1 s)
  then obtain u m v where t: "mark m" "s = u @ m @ v" unfolding hasMark_def by blast
  show ?case
  proof (cases "hasMark u")
    case True
    have "length u < length s" using t mark_head [OF t(1)] by auto
    then obtain u' m' v' where "mark m'" "u = u' @ m' @ v'" "\<not> hasMark u'" using 1 True by blast
    then have "mark m' \<and> s = u' @ m' @ (v' @ m @ v) \<and> \<not> hasMark u'" using t by simp
    then show ?thesis by blast
  qed (use t in blast)
qed

lemma rm_front:
  assumes "\<And>k. k < length u \<Longrightarrow> \<not> prefix m (drop k (u @ w))"
  shows "removeAllOf m (u @ w) = u @ removeAllOf m w"
  using assms
proof (induction u)
  case (Cons c u)
  have "\<not> prefix m (c # u @ w)" using Cons.prems [of 0] by simp
  moreover have "\<not> prefix m (drop k (u @ w))" if "k < length u" for k using Cons.prems [of "Suc k"] that by simp
  ultimately show ?case using Cons.IH by simp
qed simp

text \<open>A mark that starts in a text without one reaches beyond it.\<close>

lemma straddles:
  assumes m: "mark m" and u: "\<not> hasMark u" and k: "k < length u" "prefix m (drop k (u @ w))"
  shows "\<exists>x y. suffix x u \<and> x \<noteq> [] \<and> piece x \<and> m = x @ y \<and> y \<noteq> [] \<and> prefix y w"
proof -
  let ?x = "drop k u"
  have d: "prefix m (?x @ w)" using k by simp
  show ?thesis
  proof (cases "length m \<le> length ?x")
    case True
    then have "prefix m ?x" using d prefix_length_prefix [of m "?x @ w" ?x] by simp
    then obtain v where "?x = m @ v" by (auto simp: prefix_def)
    then have "u = take k u @ m @ v" by (metis append_take_drop_id)
    then show ?thesis using m u unfolding hasMark_def by blast
  next
    case False
    then have "prefix ?x m" using d prefix_length_prefix [of ?x "?x @ w" m] by simp
    then obtain y where y: "m = ?x @ y" by (auto simp: prefix_def)
    then have "y \<noteq> []" "prefix y w" using False d by auto
    moreover have "piece ?x" using piece_of_mark [OF m] y \<open>y \<noteq> []\<close> by (simp add: strict_prefix_def prefix_def)
    moreover have "suffix ?x u" "?x \<noteq> []" using k(1) by (simp_all add: suffix_drop)
    ultimately show ?thesis using y by blast
  qed
qed

lemma rm_before_mark:
  assumes "mark m" "mark m'" "\<not> hasMark u"
  shows "removeAllOf m (u @ m' @ v) = u @ removeAllOf m (m' @ v)"
proof (rule rm_front, rule notI)
  fix k assume "k < length u" "prefix m (drop k (u @ m' @ v))"
  then obtain x y where x: "x \<noteq> []" "m = x @ y" "y \<noteq> []" "prefix y (m' @ v)"
    using straddles [OF assms(1,3)] by blast
  have "hd y = 27" using x(3,4) mark_head [OF assms(2)] by (auto simp: prefix_def neq_Nil_conv Cons_eq_append_conv)
  then show False using x(1,2,3) mark_head [OF assms(1)] by (cases x; cases y) auto
qed

lemma rm_untorn:
  assumes "mark m" "mark m'" "\<not> hasMark u" "\<not> torn (u @ m' @ v)"
  shows "removeAllOf m (u @ w) = u @ removeAllOf m w"
proof (rule rm_front, rule notI)
  fix k assume "k < length u" "prefix m (drop k (u @ w))"
  then obtain x where x: "suffix x u" "x \<noteq> []" "piece x" using straddles [OF assms(1,3)] by blast
  then obtain z where "u = z @ x" by (auto simp: suffix_def)
  then have "u @ m' @ v = z @ x @ m' @ v" by simp
  then show False using assms(2,4) x(2,3) unfolding torn_def by blast
qed

lemma rm_plain: "mark m \<Longrightarrow> \<not> hasMark u \<Longrightarrow> removeAllOf m u = u"
  using rm_front [of u m "[]"] straddles [of m u _ "[]"] by force

lemma rm_mark: "mark m \<Longrightarrow> removeAllOf m (m @ v) = removeAllOf m v"
  using mark_head [of m] by auto

lemma rm_other: "removeAllOf SYNC_BEGIN (SYNC_END @ v) = SYNC_END @ removeAllOf SYNC_BEGIN v"
  by (simp add: marks_spelled)

lemma plain_no_2026: "\<not> sublist (ascii ''2026'') s \<Longrightarrow> \<not> hasMark s"
proof
  assume n: "\<not> sublist (ascii ''2026'') s" and "hasMark s"
  then obtain u m v where m: "mark m" "s = u @ m @ v" unfolding hasMark_def by blast
  have "sublist (ascii ''2026'') m"
    unfolding sublist_def
    by (rule exI [of _ "take 3 m"], rule exI [of _ "drop 7 m"]) (use m(1) in \<open>auto simp: mark_def marks_spelled ascii_def\<close>)
  then show False using n m(2) sublist_appendI sublist_order.order_trans by blast
qed

lemma strip_both: "stripSyncMarkers s = removeAllOf SYNC_END (removeAllOf SYNC_BEGIN s)"
  using rm_plain plain_no_2026 by (auto simp: stripSyncMarkers_def mark_def)

lemma strip_plain: "\<not> hasMark s \<Longrightarrow> stripSyncMarkers s = s"
  by (simp add: strip_both rm_plain mark_def)

lemma strip_mark:
  assumes "mark m" "\<not> hasMark u" "\<not> torn (u @ m @ v)"
  shows "stripSyncMarkers (u @ m @ v) = u @ stripSyncMarkers v"
proof (cases "m = SYNC_BEGIN")
  case True
  have "removeAllOf SYNC_BEGIN (u @ m @ v) = u @ removeAllOf SYNC_BEGIN v"
    using rm_before_mark [OF _ assms(1,2), of SYNC_BEGIN v] rm_mark [OF assms(1), of v] True assms(1) by simp
  then show ?thesis using rm_untorn [OF _ assms, of SYNC_END] by (simp add: strip_both mark_def)
next
  case False
  then have e: "m = SYNC_END" using assms(1) by (simp add: mark_def)
  have "removeAllOf SYNC_BEGIN (u @ m @ v) = u @ SYNC_END @ removeAllOf SYNC_BEGIN v"
    using rm_before_mark [OF _ assms(1,2), of SYNC_BEGIN v] rm_other e by (simp add: mark_def)
  moreover have "removeAllOf SYNC_END (u @ SYNC_END @ w) = u @ removeAllOf SYNC_END w" for w
    using rm_before_mark [OF assms(1,1,2), of w] rm_mark [OF assms(1)] e by simp
  ultimately show ?thesis by (simp add: strip_both)
qed

section \<open>The stream\<close>

text \<open>On a text that is not torn the removal is what the machine does, and what it holds is the longest piece.\<close>

lemma strip_feed:
  assumes "\<not> torn s"
  shows "stripSyncMarkers s = fst (markFeed [] s) @ snd (markFeed [] s) \<and> \<not> hasMark (stripSyncMarkers s) \<and>
    (\<forall>q. suffix q (stripSyncMarkers s) \<longrightarrow> piece q \<longrightarrow> length q \<le> length (snd (markFeed [] s)))"
  using assms
proof (induction s rule: length_induct)
  case (1 s)
  show ?case
  proof (cases "hasMark s")
    case False
    then show ?thesis using feed_plain [OF False] strip_plain by simp
  next
    case True
    then obtain u m v where m: "mark m" "s = u @ m @ v" "\<not> hasMark u" using first_mark by blast
    have t: "\<not> torn (u @ m @ v)" using 1 m(2) by simp
    have nop: "q = []" if q: "suffix q u" "piece q" for q
    proof (rule ccontr)
      assume "q \<noteq> []"
      moreover obtain z where "u = z @ q" using q(1) by (auto simp: suffix_def)
      then have "u @ m @ v = z @ q @ m @ v" by simp
      ultimately show False using t m(1) q(2) unfolding torn_def by blast
    qed
    obtain a p where f: "markFeed [] u = (a, p)" by fastforce
    have "p = []" by (rule nop) (use f feed_suffix [of u] feed_piece [of "[]" u] in simp_all)
    then have fu: "markFeed [] u = (u, [])" using feed_plain [OF m(3)] f by simp
    obtain b q where v: "markFeed [] v = (b, q)" by fastforce
    have fs: "markFeed [] s = (u @ b, q)" using fu v by (simp add: m(2) feed_append feed_mark [OF m(1)])
    have "length v < length s" using m(2) mark_head [OF m(1)] by auto
    moreover have "\<not> torn v" using t torn_inside [of v "u @ m" "[]"] by auto
    ultimately have ih: "stripSyncMarkers v = b @ q" "\<not> hasMark (b @ q)"
      "\<And>x. suffix x (b @ q) \<Longrightarrow> piece x \<Longrightarrow> length x \<le> length q" using 1 v by auto
    have st: "stripSyncMarkers s = u @ b @ q" using strip_mark [OF m(1,3) t] ih(1) m(2) by simp
    have "\<not> hasMark (u @ b @ q)"
    proof
      assume "hasMark (u @ b @ q)"
      then obtain x n y where n: "mark n" "u @ b @ q = x @ n @ y" unfolding hasMark_def by blast
      show False
      proof (cases "length x < length u")
        case True
        have "prefix n (drop (length x) (u @ b @ q))" by (simp add: n(2))
        then show False using straddles [OF n(1) m(3) True] nop by blast
      next
        case False
        then have "drop (length u) (x @ n @ y) = drop (length u) x @ n @ y" by simp
        then have "b @ q = drop (length u) x @ n @ y" using arg_cong [OF n(2), of "drop (length u)"] by simp
        then show False using ih(2) n(1) unfolding hasMark_def by blast
      qed
    qed
    moreover have "length x \<le> length q" if x: "suffix x (u @ b @ q)" "piece x" for x
    proof (cases "suffix x (b @ q)")
      case True
      then show ?thesis using ih(3) x(2) by blast
    next
      case False
      then obtain z where z: "x = z @ b @ q" "suffix z u" "z \<noteq> []" using x(1) by (auto simp: suffix_append)
      then have "z = []" using nop piece_prefix x(2) by blast
      then show ?thesis using z(3) by simp
    qed
    ultimately show ?thesis using fs st by simp
  qed
qed

lemma longest_is:
  assumes "suffix p s" "piece p" "\<And>q. suffix q s \<Longrightarrow> piece q \<Longrightarrow> length q \<le> length p"
  shows "length p \<le> k \<Longrightarrow> k \<le> length s \<Longrightarrow> k \<le> MAX_PARTIAL_LEN \<Longrightarrow> longestHold k s = length p"
proof (induction k)
  case (Suc k)
  let ?t = "drop (length s - Suc k) s"
  have t: "suffix ?t s" "length ?t = Suc k" using Suc.prems(2) by (simp_all add: suffix_drop)
  have "prefix ?t SYNC_BEGIN \<or> prefix ?t SYNC_END \<longleftrightarrow> length p = Suc k"
  proof
    assume "prefix ?t SYNC_BEGIN \<or> prefix ?t SYNC_END"
    then have "piece ?t \<or> mark ?t" using piece_or_mark by blast
    moreover have "\<not> mark ?t"
    proof
      assume "mark ?t"
      then have "length ?t = 8" using mark_head by blast
      then show False using t(2) Suc.prems(3) by (simp add: MAX_PARTIAL_LEN_def marks_spelled)
    qed
    ultimately show "length p = Suc k" using assms(3) [OF t(1)] t(2) Suc.prems(1) by simp
  next
    assume "length p = Suc k"
    then have "?t = p" using assms(1) t by (metis suffix_order.antisym suffix_length_suffix order_refl)
    then show "prefix ?t SYNC_BEGIN \<or> prefix ?t SYNC_END" using assms(2) piece_or_mark by blast
  qed
  then show ?case using Suc by (auto simp: Let_def)
qed simp

lemma push_feed:
  assumes "piece p" "\<not> torn (p @ c)"
  shows "stripPush p c = markFeed p c"
proof (cases "c = []")
  case False
  obtain a q where f: "markFeed p c = (a, q)" by fastforce
  have fs: "markFeed [] (p @ c) = (a, q)" using f by (simp add: feed_append feed_piece_id [OF assms(1)])
  have st: "stripSyncMarkers (p @ c) = a @ q" "\<And>x. suffix x (a @ q) \<Longrightarrow> piece x \<Longrightarrow> length x \<le> length q"
    using strip_feed [OF assms(2)] fs by auto
  have pq: "piece q" using feed_piece [OF assms(1), of c] f by simp
  have "partialMarkerSuffixLen (a @ q) = length q"
    unfolding partialMarkerSuffixLen_def
    by (rule longest_is) (use st(2) pq piece_short [OF pq] in \<open>auto simp: suffix_def\<close>)
  then show ?thesis using False f st(1) by (simp add: stripPush_def Let_def)
qed (simp add: stripPush_def)

lemma stream_feed:
  "piece p \<Longrightarrow> \<not> torn (p @ concat cs) \<Longrightarrow> stripStream p cs = markFeed p (concat cs)"
proof (induction cs arbitrary: p)
  case (Cons c cs)
  obtain a q where f: "markFeed p c = (a, q)" by fastforce
  have "\<not> torn (p @ c)" using Cons.prems(2) torn_inside [of "p @ c" "[]" "concat cs"] by auto
  then have push: "stripPush p c = (a, q)" using push_feed [OF Cons.prems(1)] f by simp
  have pq: "piece q" using feed_piece [OF Cons.prems(1), of c] f by simp
  have "markFeed [] (p @ c) = (a, q)" using f by (simp add: feed_append feed_piece_id [OF Cons.prems(1)])
  then obtain z where z: "p @ c = z @ q" using feed_suffix [of "p @ c"] by (auto simp: suffix_def)
  have "p @ concat (c # cs) = z @ (q @ concat cs) @ []" using z by simp
  then have "\<not> torn (q @ concat cs)" using Cons.prems(2) torn_inside by metis
  then show ?case using Cons.IH [OF pq] push f by (simp add: feed_append)
qed simp

text \<open>
  C36: The live stream loses no character and is cut alike however it arrives: for every way of slicing a text
  that is not torn, what the stream lets through and holds at the end is the text without its marks, and no
  mark is left in it, not even one that a slice cut in two.
\<close>

theorem strip_stream_any_chunks:
  assumes "\<not> torn (concat chunks)" "stripStream [] chunks = (out, held)"
  shows "out @ held = stripSyncMarkers (concat chunks) \<and> \<not> hasMark (out @ held) \<and> length held \<le> MAX_PARTIAL_LEN"
proof -
  have f: "markFeed [] (concat chunks) = (out, held)" using stream_feed [of "[]" chunks] assms by simp
  note s = strip_feed [OF assms(1), unfolded f fst_conv snd_conv]
  have st: "stripSyncMarkers (concat chunks) = out @ held" using s by blast
  have "piece held" using feed_piece [of "[]" "concat chunks"] f by simp
  then show ?thesis using s [unfolded st] st piece_short by simp
qed

text \<open>Looking for a tear.\<close>

definition tornScan :: "jtext \<Rightarrow> bool" where
  "tornScan s \<longleftrightarrow> list_ex (\<lambda>i. list_ex (\<lambda>k. mark (take 8 (drop i s)) \<and> k \<le> i \<and> piece (drop (i - k) (take i s))) [1..<8]) [0..<length s]"

lemma torn_scanned: "torn s \<Longrightarrow> tornScan s"
proof -
  assume "torn s"
  then obtain u p m v where t: "mark m" "piece p" "p \<noteq> []" "s = u @ p @ m @ v" unfolding torn_def by blast
  let ?i = "length (u @ p)" and ?k = "length p"
  have m: "length m = 8" using mark_head [OF t(1)] by blast
  have "take 8 (drop ?i s) = m" "drop (?i - ?k) (take ?i s) = p" "?i < length s" using m t(4) by simp_all
  moreover have "?k \<in> set [1..<8]" using t(3) piece_short [OF t(2)] by (simp add: MAX_PARTIAL_LEN_def marks_spelled Suc_le_eq)
  ultimately show ?thesis
    unfolding tornScan_def list_ex_iff using t(1,2) by (intro bexI [of _ ?i] bexI [of _ ?k]) auto
qed

theorem strip_stream_any_chunks_witness:
  "(ascii ''a'' @ (27 # ascii ''[?25lb'')) @ [] =
     stripSyncMarkers (concat [ascii ''a'' @ (27 # ascii ''[?2''), ascii ''026h'' @ (27 # ascii ''[?2''), ascii ''5lb'']) \<and>
   \<not> hasMark ((ascii ''a'' @ (27 # ascii ''[?25lb'')) @ []) \<and> length ([] :: jtext) \<le> MAX_PARTIAL_LEN"
proof -
  let ?cs = "[ascii ''a'' @ (27 # ascii ''[?2''), ascii ''026h'' @ (27 # ascii ''[?2''), ascii ''5lb'']"
  have "\<not> tornScan (concat ?cs)"
    by (simp add: tornScan_def mark_def piece_def marks_spelled ascii_def upt_rec)
  then have t: "\<not> torn (concat ?cs)" using torn_scanned by blast
  have "stripStream [] ?cs = (ascii ''a'' @ (27 # ascii ''[?25lb''), [])" by code_simp
  then show ?thesis by (rule strip_stream_any_chunks [OF t])
qed

text \<open>Whatever the text, nothing but marks is ever taken out.\<close>

inductive cutMarks :: "jtext \<Rightarrow> jtext \<Rightarrow> bool" where
  cut_none: "cutMarks s s"
| cut_mark: "mark m \<Longrightarrow> cutMarks (u @ v) t \<Longrightarrow> cutMarks (u @ m @ v) t"

lemma cut_trans: "cutMarks s t \<Longrightarrow> cutMarks t r \<Longrightarrow> cutMarks s r"
  by (induction rule: cutMarks.induct) (auto intro: cutMarks.intros)

lemma cut_inside: "cutMarks s t \<Longrightarrow> cutMarks (a @ s @ b) (a @ t @ b)"
proof (induction rule: cutMarks.induct)
  case (cut_mark m u v t)
  then show ?case using cutMarks.cut_mark [of m "a @ u" "v @ b" "a @ t @ b"] by simp
qed (rule cut_none)

lemma cut_removeAll: "mark m \<Longrightarrow> cutMarks s (removeAllOf m s)"
proof (induction m s rule: removeAllOf.induct)
  case (2 m c cs)
  show ?case
  proof (cases "prefix m (c # cs)")
    case True
    then have e: "c # cs = m @ drop (length m) (c # cs)" by (auto simp: prefix_def)
    have "m \<noteq> []" using mark_head [OF 2(3)] by auto
    then have "cutMarks (drop (length m) (c # cs)) (removeAllOf m (c # cs))" using 2(1,3) True by simp
    then have "cutMarks ([] @ m @ drop (length m) (c # cs)) (removeAllOf m (c # cs))" by (intro cut_mark [OF 2(3)]) simp
    then show ?thesis using e by simp
  next
    case False
    then have "cutMarks cs (removeAllOf m cs)" using 2 by simp
    then show ?thesis using False cut_inside [of cs "removeAllOf m cs" "[c]" "[]"] by simp
  qed
qed (simp add: cut_none)

lemma cut_strip: "cutMarks s (stripSyncMarkers s)"
  unfolding strip_both by (rule cut_trans; rule cut_removeAll) (simp_all add: mark_def)

lemma cut_push: "stripPush p c = (out, q) \<Longrightarrow> cutMarks (p @ c) (out @ q)"
  using cut_strip [of "p @ c"] by (auto simp: stripPush_def Let_def cut_none split: if_split_asm)

text \<open>
  The live stream takes nothing out but marks: for every text, torn or not, and every way of slicing it,
  what is let through and held at the end comes from the text by deleting occurrences of the two marks.
\<close>

theorem strip_stream_only_marks:
  "cutMarks (concat chunks) (fst (stripStream [] chunks) @ snd (stripStream [] chunks))"
proof -
  have "cutMarks (p @ concat chunks) (fst (stripStream p chunks) @ snd (stripStream p chunks))" for p
  proof (induction chunks arbitrary: p)
    case (Cons c cs)
    obtain out q where c: "stripPush p c = (out, q)" by fastforce
    have "cutMarks ((p @ c) @ concat cs) ((out @ q) @ concat cs)"
      using cut_inside [OF cut_push [OF c], of "[]" "concat cs"] by simp
    moreover have "cutMarks (out @ q @ concat cs) (out @ fst (stripStream q cs) @ snd (stripStream q cs))"
      using cut_inside [OF Cons.IH [of q], of out "[]"] by simp
    ultimately show ?case using c by (auto simp: split_def Let_def intro: cut_trans)
  qed (simp add: cut_none)
  from this [of "[]"] show ?thesis by simp
qed

text \<open>A torn text can leave the removal with a mark in it, whole or in slices.\<close>

theorem torn_text_keeps_a_mark:
  "hasMark (stripSyncMarkers ((27 # ascii ''[?20'') @ SYNC_END @ ascii ''26h''))"
proof -
  have "stripSyncMarkers ((27 # ascii ''[?20'') @ SYNC_END @ ascii ''26h'') = [] @ SYNC_BEGIN @ []" by code_simp
  then show ?thesis unfolding hasMark_def mark_def by blast
qed

end
