(* ===== verification/PaneTail.thy ===== *)
theory PaneTail
  imports Prelude Utf8 "HOL-Library.Sublist"
begin

text \<open>
  A pane's log on its way from the machine to the server: the agent's pump and its log reads
  (\<open>apps/node/agent/src/commands/tail.ts\<close>) and the relay that receives them (\<open>tailStart\<close> of
  \<open>apps/server/api/src/modules/nodes/remote-launcher.ts\<close>).

  A log only grows until it is deleted for good.  The pump's awaits (a stat, a read, the wait before a
  frame) end in events of their own; a stat or a read may fail.
\<close>

section \<open>The agent's pump\<close>

definition TAIL_CHUNK_BYTES :: nat where "TAIL_CHUNK_BYTES = 192 * 1024"

definition TAIL_SEND_FAILURE_LIMIT :: nat where "TAIL_SEND_FAILURE_LIMIT = 2"

record output_event =
  oe_fromByte :: nat
  oe_toByte :: nat
  oe_data :: "byte list"

datatype tail_phase = TIdle | TStat | TReading nat | TSending "byte list" nat nat

record tail_state =
  tl_log :: "byte list"
  tl_made :: bool
  tl_gone :: bool
  tl_phase :: tail_phase
  tl_again :: bool
  tl_stopped :: bool
  tl_seen :: bool
  tl_fails :: nat
  tl_last :: nat
  tl_sent :: "output_event list"

definition there :: "tail_state \<Rightarrow> bool" where
  "there t \<longleftrightarrow> tl_made t \<and> \<not> tl_gone t"

definition stopTail :: "tail_state \<Rightarrow> tail_state" where
  "stopTail t = t\<lparr>tl_stopped := True\<rparr>"

definition stopAndFinish :: "tail_state \<Rightarrow> tail_state" where
  "stopAndFinish t = stopTail (t\<lparr>tl_phase := TIdle\<rparr>)"

text \<open>The end of a round: another one when something happened meanwhile.\<close>

definition endRound :: "tail_state \<Rightarrow> tail_state" where
  "endRound t = (if tl_again t \<and> \<not> tl_stopped t then t\<lparr>tl_phase := TStat, tl_again := False\<rparr> else t\<lparr>tl_phase := TIdle\<rparr>)"

definition pumpTick :: "tail_state \<Rightarrow> tail_state" where
  "pumpTick t =
     (if tl_stopped t then t
      else if tl_phase t \<noteq> TIdle then t\<lparr>tl_again := True\<rparr>
      else t\<lparr>tl_phase := TStat, tl_again := False\<rparr>)"

definition statDone :: "bool \<Rightarrow> tail_state \<Rightarrow> tail_state" where
  "statDone ok t =
     (if tl_phase t \<noteq> TStat then t
      else if \<not> (ok \<and> there t) then (if tl_seen t then stopAndFinish t else t\<lparr>tl_phase := TIdle\<rparr>)
      else
        let t = t\<lparr>tl_seen := True\<rparr> in
        if length (tl_log t) > tl_last t then t\<lparr>tl_phase := TReading (length (tl_log t))\<rparr> else endRound t)"

definition sendNext :: "byte list \<Rightarrow> nat \<Rightarrow> nat \<Rightarrow> tail_state \<Rightarrow> tail_state" where
  "sendNext bytes off cursor t =
     (if off < length bytes \<and> \<not> tl_stopped t then t\<lparr>tl_phase := TSending bytes off cursor\<rparr> else endRound t)"

definition readDone :: "bool \<Rightarrow> tail_state \<Rightarrow> tail_state" where
  "readDone ok t =
     (case tl_phase t of
        TReading sz \<Rightarrow>
          if \<not> (ok \<and> there t) then stopAndFinish t
          else if tl_stopped t then t\<lparr>tl_phase := TIdle\<rparr>
          else sendNext (take (sz - tl_last t) (drop (tl_last t) (tl_log t))) 0 (tl_last t) t
      | _ \<Rightarrow> t)"

definition chunkAt :: "byte list \<Rightarrow> nat \<Rightarrow> byte list" where
  "chunkAt bytes off = take (min TAIL_CHUNK_BYTES (length bytes - off)) (drop off bytes)"

text \<open>The throttle lets the next event go, and sending it succeeds or throws.\<close>

definition sendDone :: "bool \<Rightarrow> tail_state \<Rightarrow> tail_state" where
  "sendDone ok t =
     (case tl_phase t of
        TSending bytes off cursor \<Rightarrow>
          if tl_stopped t then t\<lparr>tl_phase := TIdle\<rparr>
          else if ok then
            let toByte = cursor + min TAIL_CHUNK_BYTES (length bytes - off);
                ev = \<lparr>oe_fromByte = cursor, oe_toByte = toByte, oe_data = chunkAt bytes off\<rparr>
            in sendNext bytes (off + TAIL_CHUNK_BYTES) toByte
                 (t\<lparr>tl_sent := tl_sent t @ [ev], tl_fails := 0, tl_last := toByte\<rparr>)
          else
            let t = t\<lparr>tl_fails := Suc (tl_fails t)\<rparr> in
            if tl_fails t \<ge> TAIL_SEND_FAILURE_LIMIT then stopAndFinish t else endRound t
      | _ \<Rightarrow> t)"

datatype tail_move =
    LogGrows "byte list"
  | LogDeleted
  | PumpTick
  | StatDone bool
  | ReadDone bool
  | SendDone bool
  | TailStop

fun tail_step :: "tail_move \<Rightarrow> tail_state \<Rightarrow> tail_state" where
  "tail_step (LogGrows bs) t = (if tl_gone t then t else t\<lparr>tl_log := tl_log t @ bs, tl_made := True\<rparr>)"
| "tail_step LogDeleted t = t\<lparr>tl_gone := True\<rparr>"
| "tail_step PumpTick t = pumpTick t"
| "tail_step (StatDone ok) t = statDone ok t"
| "tail_step (ReadDone ok) t = readDone ok t"
| "tail_step (SendDone ok) t = sendDone ok t"
| "tail_step TailStop t = stopTail t"

text \<open>\<open>execTailStart\<close>: the pump starts at the byte the command names.\<close>

definition tail_start :: "byte list \<Rightarrow> bool \<Rightarrow> nat \<Rightarrow> tail_state" where
  "tail_start log made fromByte = pumpTick
     \<lparr>tl_log = log, tl_made = made, tl_gone = False, tl_phase = TIdle, tl_again = False, tl_stopped = False, tl_seen = False,
      tl_fails = 0, tl_last = fromByte, tl_sent = []\<rparr>"

definition tail_run :: "byte list \<Rightarrow> nat \<Rightarrow> tail_move list \<Rightarrow> tail_state" where
  "tail_run log fromByte ms = fold tail_step ms (tail_start log (log \<noteq> []) fromByte)"

text \<open>\<open>execLogRead\<close>: a window of the log, and where the next one starts.\<close>

definition logRead :: "byte list \<Rightarrow> nat \<Rightarrow> nat \<Rightarrow> byte list \<times> nat \<times> nat" where
  "logRead log fromByte maxBytes =
     (let sz = length log in
      if sz = 0 \<or> fromByte \<ge> sz then ([], min fromByte sz, sz)
      else
        let bytes = take (min sz (fromByte + maxBytes) - fromByte) (drop fromByte log) in
        (bytes, fromByte + length bytes, sz))"

section \<open>The server's relay\<close>

record relay =
  ry_cursor :: nat
  ry_disposed :: bool
  ry_chunks :: "(byte list \<times> nat) list"

definition relay_start :: "nat \<Rightarrow> relay" where
  "relay_start fromByte = \<lparr>ry_cursor = fromByte, ry_disposed = False, ry_chunks = []\<rparr>"

definition onChunk :: "byte list \<Rightarrow> nat \<Rightarrow> relay \<Rightarrow> relay" where
  "onChunk bytes next r = r\<lparr>ry_cursor := next, ry_chunks := ry_chunks r @ [(bytes, next)]\<rparr>"

text \<open>The event's own bytes, less what was delivered before.\<close>

definition relayBytes :: "output_event \<Rightarrow> relay \<Rightarrow> relay" where
  "relayBytes ev r =
     (let bytes = (if oe_fromByte ev < ry_cursor r then drop (ry_cursor r - oe_fromByte ev) (oe_data ev) else oe_data ev) in
      if bytes = [] then r else onChunk bytes (oe_toByte ev) r)"

text \<open>
  One event of the queue.  A gap is read from the log first; the read may fail, and the relay may be disposed
  while it is awaited.
\<close>

definition relayEvent :: "byte list \<Rightarrow> bool \<Rightarrow> bool \<Rightarrow> output_event \<Rightarrow> relay \<Rightarrow> relay" where
  "relayEvent log readOk disposedMeanwhile ev r =
     (if ry_disposed r then r
      else if oe_fromByte ev > ry_cursor r then
        let (bytes, next) =
              (if readOk
               then (case logRead log (ry_cursor r) (oe_fromByte ev - ry_cursor r) of (bytes, next, sz) \<Rightarrow> (bytes, next))
               else ([], ry_cursor r)) in
        if disposedMeanwhile then r\<lparr>ry_disposed := True\<rparr>
        else relayBytes ev (if bytes \<noteq> [] \<and> next > ry_cursor r then onChunk bytes next r else r)
      else relayBytes ev r)"

text \<open>The log as it is when the event's turn comes, how its read goes, and the event.\<close>

type_synonym relay_turn = "byte list \<times> bool \<times> bool \<times> output_event"

definition relayTurn :: "relay_turn \<Rightarrow> relay \<Rightarrow> relay" where
  "relayTurn x r = (case x of (log, readOk, disposedMeanwhile, ev) \<Rightarrow> relayEvent log readOk disposedMeanwhile ev r)"

definition relay_run :: "nat \<Rightarrow> relay_turn list \<Rightarrow> relay" where
  "relay_run fromByte xs = fold relayTurn xs (relay_start fromByte)"

section \<open>Spans of a log\<close>

definition span :: "byte list \<Rightarrow> nat \<Rightarrow> nat \<Rightarrow> byte list" where
  "span log a b = take (b - a) (drop a log)"

lemma span_empty [simp]: "b \<le> a \<Longrightarrow> span log a b = []"
  by (simp add: span_def)

lemma span_length: "b \<le> length log \<Longrightarrow> length (span log a b) = b - a"
  by (simp add: span_def)

lemma span_append: "a \<le> b \<Longrightarrow> b \<le> c \<Longrightarrow> span log a b @ span log b c = span log a c"
proof -
  assume "a \<le> b" "b \<le> c"
  then obtain x y where "b = a + x" "c = a + x + y" by (metis le_iff_add)
  then show ?thesis by (simp add: span_def take_add add.commute)
qed

lemma span_grown: "b \<le> length log \<Longrightarrow> span (log @ bs) a b = span log a b"
  by (cases "a \<le> b") (simp_all add: span_def)

lemma span_drop: "a \<le> x \<Longrightarrow> drop (x - a) (span log a b) = span log x b"
  by (simp add: span_def drop_take)

 
section \<open>What the pump has sent\<close>

text \<open>The events of a pump, end to end, each within the bound of one frame.\<close>

fun contiguous :: "nat \<Rightarrow> output_event list \<Rightarrow> nat \<Rightarrow> bool" where
  "contiguous a [] b \<longleftrightarrow> a = b"
| "contiguous a (e # es) b \<longleftrightarrow>
     oe_fromByte e = a \<and> a < oe_toByte e \<and> oe_toByte e \<le> a + TAIL_CHUNK_BYTES \<and> contiguous (oe_toByte e) es b"

definition truthful :: "byte list \<Rightarrow> output_event \<Rightarrow> bool" where
  "truthful log e \<longleftrightarrow>
     oe_fromByte e < oe_toByte e \<and> oe_toByte e \<le> length log \<and> oe_data e = span log (oe_fromByte e) (oe_toByte e)"

fun phase_ok :: "byte list \<Rightarrow> nat \<Rightarrow> tail_phase \<Rightarrow> bool" where
  "phase_ok log l (TReading sz) \<longleftrightarrow> l < sz \<and> sz \<le> length log"
| "phase_ok log l (TSending bytes off cursor) \<longleftrightarrow>
     cursor = l \<and> off < length bytes \<and> (\<exists>a. l = a + off \<and> a + length bytes \<le> length log \<and> bytes = span log a (a + length bytes))"
| "phase_ok log l TIdle \<longleftrightarrow> True"
| "phase_ok log l TStat \<longleftrightarrow> True"

definition tail_inv :: "nat \<Rightarrow> tail_state \<Rightarrow> bool" where
  "tail_inv from t \<longleftrightarrow>
     contiguous from (tl_sent t) (tl_last t) \<and> (\<forall>e \<in> set (tl_sent t). truthful (tl_log t) e) \<and>
     phase_ok (tl_log t) (tl_last t) (tl_phase t)"

lemma contiguous_append: "contiguous a (es @ fs) c \<longleftrightarrow> (\<exists>b. contiguous a es b \<and> contiguous b fs c)"
  by (induction es arbitrary: a) auto

lemma truthful_grown: "truthful log e \<Longrightarrow> truthful (log @ bs) e"
  by (auto simp: truthful_def span_grown)

lemma phase_ok_grown: "phase_ok log l p \<Longrightarrow> phase_ok (log @ bs) l p"
proof (cases p)
  case (TSending bytes off cursor)
  assume "phase_ok log l p"
  then obtain a where "l = a + off" "a + length bytes \<le> length log" "bytes = span log a (a + length bytes)"
      "cursor = l" "off < length bytes"
    using TSending by auto
  then show ?thesis using TSending
    by (auto intro!: exI [of _ a] simp: span_grown)
qed auto

lemma inv_idle: "tail_inv from t \<Longrightarrow> tail_inv from (t\<lparr>tl_phase := TIdle\<rparr>)"
  and inv_stat: "tail_inv from t \<Longrightarrow> tail_inv from (t\<lparr>tl_phase := TStat, tl_again := False\<rparr>)"
  by (simp_all add: tail_inv_def)

lemma inv_endRound: "tail_inv from t \<Longrightarrow> tail_inv from (endRound t)"
  by (simp add: endRound_def inv_idle inv_stat)

lemma pump_finish_inv: "tail_inv from t \<Longrightarrow> tail_inv from (stopAndFinish t)"
  by (simp add: tail_inv_def stopAndFinish_def stopTail_def)

lemma inv_statDone: "tail_inv from t \<Longrightarrow> tail_inv from (statDone ok t)"
  by (auto simp: statDone_def Let_def pump_finish_inv inv_idle intro!: inv_endRound) (auto simp: tail_inv_def)

lemma inv_sendNext:
  assumes "tail_inv from t" "off < length bytes \<Longrightarrow> phase_ok (tl_log t) (tl_last t) (TSending bytes off cursor)"
  shows "tail_inv from (sendNext bytes off cursor t)"
  using assms by (auto simp: sendNext_def inv_endRound) (auto simp: tail_inv_def)

lemma inv_readDone: "tail_inv from t \<Longrightarrow> tail_inv from (readDone ok t)"
proof (cases "tl_phase t")
  case (TReading sz)
  assume i: "tail_inv from t"
  then have b: "tl_last t < sz" "sz \<le> length (tl_log t)" using TReading by (auto simp: tail_inv_def)
  have "phase_ok (tl_log t) (tl_last t) (TSending (span (tl_log t) (tl_last t) sz) 0 (tl_last t))"
    using b by (simp add: span_length)
  then show ?thesis using i TReading
    by (auto simp: readDone_def pump_finish_inv inv_idle intro!: inv_sendNext) (auto simp: span_def)
qed (simp_all add: readDone_def)

lemma span_inner: "off \<le> n \<Longrightarrow> k \<le> n - off \<Longrightarrow> take k (drop off (span log a (a + n))) = span log (a + off) (a + off + k)"
  by (simp add: span_def drop_take min_def add.commute)

lemma sendNext_phase: "sendNext bytes off cursor (t\<lparr>tl_phase := p\<rparr>) = sendNext bytes off cursor t"
  by (cases t) (simp add: sendNext_def endRound_def)

lemma inv_sendDone: "tail_inv from t \<Longrightarrow> tail_inv from (sendDone ok t)"
proof (cases "tl_phase t")
  case (TSending bytes off cursor)
  assume i: "tail_inv from t"
  then obtain a where p: "cursor = tl_last t" "off < length bytes" "tl_last t = a + off"
      "a + length bytes \<le> length (tl_log t)" "bytes = span (tl_log t) a (a + length bytes)"
    using TSending by (auto simp: tail_inv_def)
  define k where "k = min TAIL_CHUNK_BYTES (length bytes - off)"
  have k: "0 < k" "k \<le> TAIL_CHUNK_BYTES" "k \<le> length bytes - off" "cursor + k \<le> length (tl_log t)"
    using p unfolding k_def by (auto simp: TAIL_CHUNK_BYTES_def)
  let ?e = "\<lparr>oe_fromByte = cursor, oe_toByte = cursor + k, oe_data = chunkAt bytes off\<rparr>"
  let ?v = "t\<lparr>tl_sent := tl_sent t @ [?e], tl_fails := 0, tl_last := cursor + k\<rparr>"
  let ?u = "?v\<lparr>tl_phase := TIdle\<rparr>"
  have "chunkAt bytes off = span (tl_log t) cursor (cursor + k)"
    using p k span_inner [of off "length bytes" k "tl_log t" a] unfolding chunkAt_def k_def by simp
  then have u: "tail_inv from ?u"
    using i p k by (auto simp: tail_inv_def truthful_def contiguous_append)
  have "off + TAIL_CHUNK_BYTES < length bytes \<Longrightarrow> k = TAIL_CHUNK_BYTES" unfolding k_def by simp
  then have q: "phase_ok (tl_log t) (cursor + k) (TSending bytes (off + TAIL_CHUNK_BYTES) (cursor + k))"
    if "off + TAIL_CHUNK_BYTES < length bytes"
    using that p by (auto intro!: exI [of _ a])
  have "tail_inv from (sendNext bytes (off + TAIL_CHUNK_BYTES) (cursor + k) ?v)"
    using inv_sendNext [OF u] q by (simp add: sendNext_phase)
  then have "ok \<Longrightarrow> \<not> tl_stopped t \<Longrightarrow> tail_inv from (sendDone ok t)"
    using TSending by (simp add: sendDone_def Let_def k_def [symmetric])
  moreover have "tail_inv from (t\<lparr>tl_fails := n\<rparr>)" for n using i by (simp add: tail_inv_def)
  ultimately show ?thesis using i TSending
    by (cases ok; cases "tl_stopped t") (auto simp: sendDone_def Let_def inv_idle pump_finish_inv inv_endRound)
qed (simp_all add: sendDone_def)

interpretation tail_machine: event_machine tail_step "tail_inv from" for "from"
proof
  fix t e assume i: "tail_inv from t"
  show "tail_inv from (tail_step e t)"
  proof (cases e)
    case (LogGrows bs)
    then show ?thesis using i by (auto simp: tail_inv_def truthful_grown phase_ok_grown)
  next
    case PumpTick
    then show ?thesis using i by (auto simp: pumpTick_def inv_stat) (simp add: tail_inv_def)
  qed (use i in \<open>auto simp: inv_statDone inv_readDone inv_sendDone\<close>, simp_all add: tail_inv_def stopTail_def)
qed

lemma inv_tail_run: "tail_inv from (tail_run log from ms)"
  unfolding tail_run_def by (rule tail_machine.run_inv) (simp add: tail_start_def pumpTick_def tail_inv_def)

lemma contiguous_bytes:
  "contiguous a es b \<Longrightarrow> \<forall>e \<in> set es. truthful log e \<Longrightarrow> a \<le> b \<and> concat (map oe_data es) = span log a b"
proof (induction es arbitrary: a)
  case (Cons e es)
  then have "oe_toByte e \<le> b" "concat (map oe_data es) = span log (oe_toByte e) b" by auto
  then show ?case using Cons.prems span_append [of a "oe_toByte e" b log] by (auto simp: truthful_def)
qed simp

 
section \<open>The pump catches up\<close>

lemma sends_to_the_end:
  assumes "tl_phase t = TSending bytes off (a + off)" "\<not> tl_stopped t" "\<not> tl_again t" "off < length bytes"
    "length bytes \<le> off + n * TAIL_CHUNK_BYTES"
  shows "tl_last (fold tail_step (replicate n (SendDone True)) t) = a + length bytes \<and>
    tl_phase (fold tail_step (replicate n (SendDone True)) t) = TIdle"
  using assms
proof (induction n arbitrary: t off)
  case (Suc n)
  have idle: "tl_phase s = TIdle \<Longrightarrow> fold tail_step (replicate m (SendDone True)) s = s" for m and s :: tail_state
    by (induction m) (simp_all add: sendDone_def)
  let ?u = "tail_step (SendDone True) t"
  show ?case
  proof (cases "off + TAIL_CHUNK_BYTES < length bytes")
    case True
    then have "tl_phase ?u = TSending bytes (off + TAIL_CHUNK_BYTES) (a + (off + TAIL_CHUNK_BYTES))"
      "\<not> tl_stopped ?u" "\<not> tl_again ?u"
      using Suc.prems by (simp_all add: sendDone_def sendNext_def Let_def)
    then show ?thesis using Suc.IH [of ?u "off + TAIL_CHUNK_BYTES"] Suc.prems True by simp
  next
    case False
    then have "tl_phase ?u = TIdle" "tl_last ?u = a + length bytes"
      using Suc.prems by (simp_all add: sendDone_def sendNext_def endRound_def Let_def)
    then show ?thesis using idle [of ?u n] by simp
  qed
qed simp

definition caughtUp :: "nat \<Rightarrow> tail_move list" where
  "caughtUp n = [PumpTick, StatDone True, ReadDone True] @ replicate n (SendDone True)"

lemma idle_pump_catches_up:
  assumes "tl_phase t = TIdle" "\<not> tl_stopped t" "there t" "length (tl_log t) \<le> tl_last t + n * TAIL_CHUNK_BYTES"
  shows "tl_last (fold tail_step (caughtUp n) t) = max (tl_last t) (length (tl_log t)) \<and>
    tl_phase (fold tail_step (caughtUp n) t) = TIdle"
proof -
  let ?s = "t\<lparr>tl_phase := TStat, tl_again := False, tl_seen := True\<rparr>"
  have one: "fold tail_step [PumpTick, StatDone True] t =
      (if length (tl_log t) > tl_last t then ?s\<lparr>tl_phase := TReading (length (tl_log t))\<rparr> else ?s\<lparr>tl_phase := TIdle\<rparr>)"
    using assms by (cases t) (simp add: pumpTick_def statDone_def there_def endRound_def Let_def)
  have idle: "tl_phase s = TIdle \<Longrightarrow> fold tail_step (ReadDone True # replicate m (SendDone True)) s = s" for m and s :: tail_state
    by (induction m) (simp_all add: sendDone_def readDone_def)
  have split: "fold tail_step (caughtUp n) t = fold tail_step (ReadDone True # replicate n (SendDone True)) (fold tail_step [PumpTick, StatDone True] t)"
    by (simp add: caughtUp_def)
  show ?thesis
  proof (cases "length (tl_log t) > tl_last t")
    case False
    then show ?thesis unfolding split one using idle [of "?s\<lparr>tl_phase := TIdle\<rparr>" n] by simp
  next
    case True
    let ?r = "?s\<lparr>tl_phase := TReading (length (tl_log t))\<rparr>"
    let ?bytes = "drop (tl_last t) (tl_log t)"
    have "tail_step (ReadDone True) ?r = ?r\<lparr>tl_phase := TSending ?bytes 0 (tl_last t)\<rparr>"
      using True assms(2,3) by (simp add: readDone_def there_def sendNext_def)
    then show ?thesis
      unfolding split one
      using True assms sends_to_the_end [of "?r\<lparr>tl_phase := TSending ?bytes 0 (tl_last t)\<rparr>" ?bytes 0 "tl_last t" n]
      by simp
  qed
qed

section \<open>What the relay hands on\<close>

text \<open>Chunks that never go back: each is the span of the log that ends at its offset.\<close>

fun onward :: "byte list \<Rightarrow> nat \<Rightarrow> (byte list \<times> nat) list \<Rightarrow> nat \<Rightarrow> bool" where
  "onward log a [] b \<longleftrightarrow> a \<le> b"
| "onward log a ((bs, next) # xs) b \<longleftrightarrow>
     bs \<noteq> [] \<and> a + length bs \<le> next \<and> bs = span log (next - length bs) next \<and> onward log next xs b"

fun truthful_turn :: "byte list \<Rightarrow> relay_turn \<Rightarrow> bool" where
  "truthful_turn L (log, readOk, disposedMeanwhile, ev) \<longleftrightarrow> prefix log L \<and> truthful log ev"

fun smooth_turn :: "relay_turn \<Rightarrow> bool" where
  "smooth_turn (log, readOk, disposedMeanwhile, ev) \<longleftrightarrow> readOk \<and> \<not> disposedMeanwhile"

definition turnEvent :: "relay_turn \<Rightarrow> output_event" where
  "turnEvent x = snd (snd (snd x))"

lemma onward_mono: "onward L b ys c \<Longrightarrow> a \<le> b \<Longrightarrow> onward L a ys c"
  by (cases ys) auto

lemma onward_append: "onward L a (xs @ ys) c \<longleftrightarrow> (\<exists>b. onward L a xs b \<and> onward L b ys c)"
proof (induction xs arbitrary: a)
  case Nil
  have "onward L a ys c \<Longrightarrow> \<exists>b. onward L a [] b \<and> onward L b ys c" by (rule exI [of _ a]) simp
  moreover have "onward L a [] b \<and> onward L b ys c \<Longrightarrow> onward L a ys c" for b using onward_mono [of L b ys c a] by simp
  ultimately show ?case by (simp only: append_Nil) blast
next
  case (Cons x xs)
  show ?case by (cases x) (simp add: Cons.IH)
qed

lemma onward_snoc:
  assumes "onward L a xs b" "b \<le> s" "s < n" "n \<le> length L" "n \<le> c"
  shows "onward L a (xs @ [(span L s n, n)]) c"
proof -
  have l: "length (span L s n) = n - s" using assms by (simp add: span_length)
  then have "span L s n \<noteq> []" using assms by auto
  then have "onward L b [(span L s n, n)] c" using assms l by simp
  then show ?thesis using assms(1) onward_append by blast
qed

lemma span_prefix: "prefix log L \<Longrightarrow> b \<le> length log \<Longrightarrow> span log a b = span L a b"
  by (auto elim!: prefixE simp: span_grown)

lemma relayBytes_truthful:
  assumes "truthful L ev" "oe_fromByte ev \<le> ry_cursor r"
  shows "relayBytes ev r = (if oe_toByte ev \<le> ry_cursor r then r else onChunk (span L (ry_cursor r) (oe_toByte ev)) (oe_toByte ev) r)"
proof -
  have "(if oe_fromByte ev < ry_cursor r then drop (ry_cursor r - oe_fromByte ev) (oe_data ev) else oe_data ev) = span L (ry_cursor r) (oe_toByte ev)"
    using assms span_drop [of "oe_fromByte ev" "ry_cursor r" L "oe_toByte ev"] by (auto simp: truthful_def)
  moreover have "span L (ry_cursor r) (oe_toByte ev) = [] \<longleftrightarrow> oe_toByte ev \<le> ry_cursor r"
    using assms by (auto simp: truthful_def span_def)
  ultimately show ?thesis by (simp add: relayBytes_def Let_def)
qed

 
lemma logRead_span:
  "a < b \<Longrightarrow> b \<le> length log \<Longrightarrow> logRead log a (b - a) = (span log a b, b, length log)"
  by (cases "log = []") (simp_all add: logRead_def span_def Let_def)

lemma relayBytes_onward:
  assumes "truthful L ev" "oe_fromByte ev \<le> ry_cursor r" "onward L c (ry_chunks r) (ry_cursor r)"
  shows "onward L c (ry_chunks (relayBytes ev r)) (ry_cursor (relayBytes ev r)) \<and>
    ry_cursor (relayBytes ev r) = max (ry_cursor r) (oe_toByte ev) \<and> ry_disposed (relayBytes ev r) = ry_disposed r"
proof -
  have "oe_toByte ev \<le> length L" using assms(1) by (simp add: truthful_def)
  then show ?thesis using assms by (simp add: relayBytes_truthful onChunk_def onward_snoc)
qed

text \<open>An event past the cursor whose gap could not be read.\<close>

lemma relayBytes_jump:
  assumes "truthful L ev" "ry_cursor r < oe_fromByte ev" "onward L c (ry_chunks r) (ry_cursor r)"
  shows "onward L c (ry_chunks (relayBytes ev r)) (ry_cursor (relayBytes ev r))"
proof -
  have "oe_data ev = span L (oe_fromByte ev) (oe_toByte ev)" "oe_fromByte ev < oe_toByte ev" "oe_toByte ev \<le> length L"
    using assms by (simp_all add: truthful_def)
  moreover from this have "oe_data ev \<noteq> []" by (auto dest: arg_cong [of _ _ length] simp: span_length)
  ultimately show ?thesis
    using assms by (simp add: relayBytes_def onChunk_def onward_snoc)
qed

definition filled :: "byte list \<Rightarrow> nat \<Rightarrow> relay \<Rightarrow> relay" where
  "filled log b r = onChunk (span log (ry_cursor r) b) b r"

lemma relayEvent_cases:
  assumes "truthful log ev"
  shows "relayEvent log readOk disp ev r =
    (if ry_disposed r then r
     else if oe_fromByte ev \<le> ry_cursor r then relayBytes ev r
     else if disp then r\<lparr>ry_disposed := True\<rparr>
     else if readOk then relayBytes ev (filled log (oe_fromByte ev) r)
     else relayBytes ev r)"
proof -
  have "ry_cursor r < oe_fromByte ev \<Longrightarrow> logRead log (ry_cursor r) (oe_fromByte ev - ry_cursor r)
      = (span log (ry_cursor r) (oe_fromByte ev), oe_fromByte ev, length log)"
    using assms by (intro logRead_span) (simp_all add: truthful_def)
  moreover have "ry_cursor r < oe_fromByte ev \<Longrightarrow> span log (ry_cursor r) (oe_fromByte ev) \<noteq> []"
    using assms by (auto simp: truthful_def dest: arg_cong [of _ _ length] simp: span_length)
  ultimately show ?thesis by (auto simp: relayEvent_def filled_def)
qed

definition relay_inv :: "byte list \<Rightarrow> nat \<Rightarrow> relay \<Rightarrow> bool" where
  "relay_inv L c r \<longleftrightarrow> onward L c (ry_chunks r) (ry_cursor r)"

lemma filled_onward:
  assumes "relay_inv L c r" "truthful log ev" "prefix log L" "ry_cursor r < oe_fromByte ev"
  shows "relay_inv L c (filled log (oe_fromByte ev) r)"
proof -
  have "oe_fromByte ev \<le> length log" "length log \<le> length L"
    using assms by (auto simp: truthful_def dest: prefix_length_le)
  then show ?thesis
    using assms onward_snoc [of L c "ry_chunks r" "ry_cursor r" "ry_cursor r" "oe_fromByte ev" "oe_fromByte ev"]
    by (simp add: filled_def onChunk_def relay_inv_def span_prefix)
qed

lemma truthful_prefix: "truthful log ev \<Longrightarrow> prefix log L \<Longrightarrow> truthful L ev"
  by (auto simp: truthful_def span_prefix dest: prefix_length_le)

lemma relayTurn_inv: "relay_inv L c r \<Longrightarrow> truthful_turn L x \<Longrightarrow> relay_inv L c (relayTurn x r)"
proof (cases x)
  case (fields log readOk disp ev)
  assume r: "relay_inv L c r" and "truthful_turn L x"
  then have t: "truthful log ev" "prefix log L" "truthful L ev" using fields truthful_prefix by auto
  show ?thesis
  proof (cases "oe_fromByte ev \<le> ry_cursor r")
    case True
    then have "relay_inv L c (relayBytes ev r)" using conjunct1 [OF relayBytes_onward [OF t(3) True, of c]] r by (simp only: relay_inv_def)
    then show ?thesis using r t fields True by (simp add: relayTurn_def relayEvent_cases)
  next
    case False
    then have g: "ry_cursor r < oe_fromByte ev" by simp
    have "relay_inv L c (relayBytes ev (filled log (oe_fromByte ev) r))"
      using conjunct1 [OF relayBytes_onward [OF t(3), of "filled log (oe_fromByte ev) r" c]] filled_onward [OF r t(1,2) g]
      unfolding relay_inv_def by (simp add: filled_def onChunk_def)
    then show ?thesis using r t fields g relayBytes_jump [of L ev r c]
      by (simp add: relayTurn_def relayEvent_cases relay_inv_def)
  qed
qed

lemma relay_run_inv: "relay_inv L c r \<Longrightarrow> list_all (truthful_turn L) xs \<Longrightarrow> relay_inv L c (fold relayTurn xs r)"
  by (induction xs arbitrary: r) (auto intro: relayTurn_inv)

text \<open>When every read answers, nothing is left out.\<close>

definition whole_inv :: "byte list \<Rightarrow> nat \<Rightarrow> relay \<Rightarrow> bool" where
  "whole_inv L c r \<longleftrightarrow>
     \<not> ry_disposed r \<and> c \<le> ry_cursor r \<and> concat (map fst (ry_chunks r)) = span L c (ry_cursor r)"

lemma whole_onChunk:
  "whole_inv L c r \<Longrightarrow> ry_cursor r \<le> n \<Longrightarrow> whole_inv L c (onChunk (span L (ry_cursor r) n) n r)"
  by (auto simp: whole_inv_def onChunk_def span_append)

lemma relayTurn_whole:
  assumes "whole_inv L c r" "truthful_turn L x" "smooth_turn x"
  shows "whole_inv L c (relayTurn x r) \<and> ry_cursor (relayTurn x r) = max (ry_cursor r) (oe_toByte (turnEvent x))"
proof (cases x)
  case (fields log readOk disp ev)
  then have t: "truthful log ev" "prefix log L" "truthful L ev" "readOk" "\<not> disp" "\<not> ry_disposed r"
    using assms truthful_prefix by (auto simp: whole_inv_def)
  have rb: "whole_inv L c s \<Longrightarrow> oe_fromByte ev \<le> ry_cursor s \<Longrightarrow>
      whole_inv L c (relayBytes ev s) \<and> ry_cursor (relayBytes ev s) = max (ry_cursor s) (oe_toByte ev)" for s
    using relayBytes_truthful [OF t(3), of s] whole_onChunk [of L c s "oe_toByte ev"] by (auto simp: onChunk_def)
  show ?thesis
  proof (cases "oe_fromByte ev \<le> ry_cursor r")
    case True
    then show ?thesis using rb [OF assms(1)] t fields by (simp add: relayTurn_def relayEvent_cases turnEvent_def)
  next
    case False
    have e: "oe_fromByte ev \<le> length log" "oe_fromByte ev < oe_toByte ev" using t by (auto simp: truthful_def)
    let ?s = "filled log (oe_fromByte ev) r"
    have f: "?s = onChunk (span L (ry_cursor r) (oe_fromByte ev)) (oe_fromByte ev) r"
      using e t by (simp add: filled_def span_prefix)
    have "whole_inv L c ?s" using whole_onChunk [OF assms(1), of "oe_fromByte ev"] False f by simp
    moreover have "ry_cursor ?s = oe_fromByte ev" by (simp add: filled_def onChunk_def)
    ultimately have "whole_inv L c (relayBytes ev ?s) \<and> ry_cursor (relayBytes ev ?s) = oe_toByte ev"
      using rb [of ?s] e by simp
    then show ?thesis using t fields False e by (simp add: relayTurn_def relayEvent_cases turnEvent_def)
  qed
qed

lemma relay_run_whole:
  "whole_inv L c r \<Longrightarrow> list_all (truthful_turn L) xs \<Longrightarrow> list_all smooth_turn xs \<Longrightarrow>
   whole_inv L c (fold relayTurn xs r) \<and>
   ry_cursor (fold relayTurn xs r) = fold max (map (\<lambda>x. oe_toByte (turnEvent x)) xs) (ry_cursor r)"
proof (induction xs arbitrary: r)
  case (Cons x xs)
  have "whole_inv L c (relayTurn x r)" "ry_cursor (relayTurn x r) = max (ry_cursor r) (oe_toByte (turnEvent x))"
    using relayTurn_whole [of L c r x] Cons.prems by simp_all
  then show ?case using Cons.IH [of "relayTurn x r"] Cons.prems by (simp add: max.commute)
qed simp

lemma fold_max_in: "(\<forall>n \<in> set ns. n \<le> (m :: nat)) \<Longrightarrow> m \<in> set ns \<or> m = a \<Longrightarrow> a \<le> m \<Longrightarrow> fold max ns a = m"
  by (induction ns arbitrary: a) (auto simp: max_def)

 
section \<open>From the pump to the relay\<close>

text \<open>
  The link may drop events, repeat them and deliver them in any order; the log a turn reads is the pane's log
  at that moment, which holds the bytes of the event already.
\<close>

fun relayed_from :: "tail_state \<Rightarrow> relay_turn \<Rightarrow> bool" where
  "relayed_from t (log, readOk, disposedMeanwhile, ev) \<longleftrightarrow>
     ev \<in> set (tl_sent t) \<and> prefix log (tl_log t) \<and> oe_toByte ev \<le> length log"

lemma relayed_truthful: "tail_inv from t \<Longrightarrow> relayed_from t x \<Longrightarrow> truthful_turn (tl_log t) x"
  by (cases x) (auto simp: tail_inv_def truthful_def span_prefix)

lemma relayed_event: "relayed_from t x \<Longrightarrow> turnEvent x \<in> set (tl_sent t)"
  by (induction t x rule: relayed_from.induct) (simp add: turnEvent_def)

lemma relayed_all_truthful: "tail_inv from t \<Longrightarrow> list_all (relayed_from t) xs \<Longrightarrow> list_all (truthful_turn (tl_log t)) xs"
  by (auto simp: list_all_iff intro: relayed_truthful)

lemma contiguous_le: "contiguous a es b \<Longrightarrow> a \<le> b"
proof (induction es arbitrary: a)
  case (Cons e es)
  then have "oe_toByte e \<le> b" "a < oe_toByte e" by auto
  then show ?case by simp
qed simp

lemma sent_byte: "tail_inv from t \<Longrightarrow> e \<in> set (tl_sent t) \<Longrightarrow> oe_toByte e \<le> tl_last t \<and> from < oe_toByte e"
proof -
  assume i: "tail_inv from t" and e: "e \<in> set (tl_sent t)"
  obtain xs ys where "tl_sent t = xs @ e # ys" using e by (meson split_list)
  then have "contiguous from (xs @ e # ys) (tl_last t)" using i by (simp add: tail_inv_def)
  then obtain b where "contiguous from xs b" "b < oe_toByte e" "contiguous (oe_toByte e) ys (tl_last t)"
    by (auto simp: contiguous_append)
  then show ?thesis using contiguous_le [of "from" xs b] contiguous_le [of "oe_toByte e" ys "tl_last t"] by simp
qed

section \<open>Properties\<close>

text \<open>
  C11: However the pane writes, and however the pump's rounds, reads, failures and stops fall, the events a pump
  has sent are the log itself: each starts where the one before it ended, the first at the byte the command
  named, none carries more than a chunk, and their bytes together are exactly the log from that byte to the
  pump's cursor.
\<close>

theorem pump_sends_the_log:
  "let t = tail_run log from ms in
   contiguous from (tl_sent t) (tl_last t) \<and> list_all (truthful (tl_log t)) (tl_sent t) \<and>
   concat (map oe_data (tl_sent t)) = span (tl_log t) from (tl_last t)"
proof -
  have i: "tail_inv from (tail_run log from ms)" by (rule inv_tail_run)
  then show ?thesis unfolding Let_def list_all_iff tail_inv_def
    using contiguous_bytes [of "from"] by blast
qed

text \<open>
  C12: A pump that is resting, not stopped, and whose log is there sends all of it: after one poll, a stat and a
  read that succeed, and as many frames as the backlog has chunks, its cursor is at the end of the log and it
  rests again, whatever happened to it before.
\<close>

theorem pump_catches_up:
  assumes "t = tail_run log from ms" "tl_phase t = TIdle" "\<not> tl_stopped t" "there t"
    "length (tl_log t) \<le> tl_last t + n * TAIL_CHUNK_BYTES"
  shows "let u = fold tail_step (caughtUp n) t in
    tl_phase u = TIdle \<and> tl_last u = max (tl_last t) (length (tl_log t))"
  using idle_pump_catches_up [OF assms(2-5)] by (simp add: Let_def)

lemma pump_catches_up_witness:
  "let u = fold tail_step (caughtUp 1) (tail_run [] 0 [StatDone True, LogGrows [7, 8]]) in
   tl_phase u = TIdle \<and> tl_last u = 2"
  using pump_catches_up [of "tail_run [] 0 [StatDone True, LogGrows [7, 8]]" "[]" 0 "[StatDone True, LogGrows [7, 8]]" 1]
  by (simp add: tail_run_def tail_start_def pumpTick_def statDone_def there_def TAIL_CHUNK_BYTES_def Let_def)

text \<open>
  C13: Whatever the link does with the events of a pump (dropping, repeating or reordering them), whatever reads
  fail and whenever the relay is disposed, the chunks the relay hands on are spans of the pane's own log, each
  beginning at or after the end of the one before: no byte is invented and none is handed on twice.
\<close>

theorem relay_never_goes_back:
  assumes "t = tail_run log from ms" "list_all (relayed_from t) xs"
  shows "onward (tl_log t) from (ry_chunks (relay_run from xs)) (ry_cursor (relay_run from xs))"
proof -
  have "list_all (truthful_turn (tl_log t)) xs"
    using relayed_all_truthful [of "from"] inv_tail_run assms by blast
  then have "relay_inv (tl_log t) from (relay_run from xs)"
    unfolding relay_run_def by (intro relay_run_inv) (simp_all add: relay_inv_def relay_start_def)
  then show ?thesis by (simp add: relay_inv_def)
qed

definition demo_pump :: tail_state where
  "demo_pump = tail_run [] 0
     [LogGrows [1, 2], StatDone True, ReadDone True, SendDone True, LogGrows [3], PumpTick, StatDone True, ReadDone True, SendDone True]"

definition demo_turn :: "bool \<Rightarrow> relay_turn" where
  "demo_turn readOk = ([1, 2, 3], readOk, False, \<lparr>oe_fromByte = 2, oe_toByte = 3, oe_data = [3]\<rparr>)"

lemmas pump_run_defs = tail_run_def tail_start_def pumpTick_def statDone_def readDone_def sendDone_def sendNext_def
  endRound_def chunkAt_def there_def TAIL_CHUNK_BYTES_def Let_def

lemma demo_sent:
  "tl_log demo_pump = [1, 2, 3]" "tl_last demo_pump = 3"
  "tl_sent demo_pump = [\<lparr>oe_fromByte = 0, oe_toByte = 2, oe_data = [1, 2]\<rparr>, \<lparr>oe_fromByte = 2, oe_toByte = 3, oe_data = [3]\<rparr>]"
  unfolding demo_pump_def by (simp_all add: pump_run_defs)

lemmas relay_run_defs = relay_run_def relay_start_def demo_turn_def relayTurn_def relayEvent_def logRead_def relayBytes_def onChunk_def

lemma relay_never_goes_back_witness:
  "onward [1, 2, 3] 0 [([3], 3)] 3 \<and> ry_chunks (relay_run 0 [demo_turn False, demo_turn True]) = [([3], 3)]"
proof -
  have r: "ry_chunks (relay_run 0 [demo_turn False, demo_turn True]) = [([3], 3)]"
    "ry_cursor (relay_run 0 [demo_turn False, demo_turn True]) = 3"
    by (simp_all add: relay_run_defs)
  have "list_all (relayed_from demo_pump) [demo_turn False, demo_turn True]" by (simp add: demo_turn_def demo_sent)
  then show ?thesis using relay_never_goes_back [OF demo_pump_def] r demo_sent by metis
qed

text \<open>
  When the reads that fill the gaps answer and the relay is not disposed, nothing is left out either: the
  chunks together are exactly the pane's log from the first byte to the relay's cursor, and once the last event
  of the pump has come through, by whatever way and whatever was dropped before it, that cursor is the pump's.
\<close>

theorem relay_delivers_the_log:
  assumes "t = tail_run log from ms" "list_all (relayed_from t) xs" "list_all smooth_turn xs"
  shows "let r = relay_run from xs in
    concat (map fst (ry_chunks r)) = span (tl_log t) from (ry_cursor r) \<and>
    (turnEvent x = last (tl_sent t) \<and> x \<in> set xs \<longrightarrow> ry_cursor r = tl_last t)"
proof -
  have i: "tail_inv from t" using inv_tail_run assms(1) by blast
  have w: "whole_inv (tl_log t) from (relay_run from xs)"
    "ry_cursor (relay_run from xs) = fold max (map (\<lambda>x. oe_toByte (turnEvent x)) xs) from"
    using relay_run_whole [of "tl_log t" "from" "relay_start from" xs] relayed_all_truthful [OF i assms(2)] assms(3)
    by (simp_all add: relay_run_def relay_start_def whole_inv_def)
  have ev: "turnEvent y \<in> set (tl_sent t)" if "y \<in> set xs" for y
    using that assms(2) relayed_event unfolding list_all_iff by blast
  have "ry_cursor (relay_run from xs) = tl_last t" if x: "turnEvent x = last (tl_sent t)" "x \<in> set xs"
  proof -
    have ne: "tl_sent t \<noteq> []" using ev [OF x(2)] by auto
    have "contiguous from (butlast (tl_sent t) @ [last (tl_sent t)]) (tl_last t)"
      using i ne by (simp add: tail_inv_def)
    then have l: "oe_toByte (turnEvent x) = tl_last t" using x by (auto simp: contiguous_append)
    have "\<forall>n \<in> set (map (\<lambda>x. oe_toByte (turnEvent x)) xs). n \<le> tl_last t" using ev sent_byte [OF i] by auto
    moreover have "tl_last t \<in> set (map (\<lambda>x. oe_toByte (turnEvent x)) xs)" using l x(2) by force
    moreover have "from \<le> tl_last t" using sent_byte [OF i ev [OF x(2)]] by simp
    ultimately show ?thesis unfolding w(2) by (intro fold_max_in) auto
  qed
  then show ?thesis using w(1) by (auto simp: whole_inv_def Let_def)
qed

lemma relay_delivers_the_log_witness:
  "let r = relay_run 0 [demo_turn True] in concat (map fst (ry_chunks r)) = [1, 2, 3] \<and> ry_cursor r = 3"
proof -
  have "list_all (relayed_from demo_pump) [demo_turn True]" "list_all smooth_turn [demo_turn True]"
    by (simp_all add: demo_turn_def demo_sent)
  from relay_delivers_the_log [OF demo_pump_def this, of "demo_turn True"]
  show ?thesis by (simp add: demo_sent Let_def turnEvent_def demo_turn_def span_def)
qed

text \<open>
  A gap whose read fails is never closed: the event after it moves the cursor past it, and later reads start there.
\<close>

lemma failed_backfill_leaves_a_hole:
  "relayed_from demo_pump (demo_turn False) \<and>
   concat (map fst (ry_chunks (relay_run 0 (demo_turn False # replicate n (demo_turn True))))) = [3]"
proof -
  have "fold relayTurn (replicate n (demo_turn True)) \<lparr>ry_cursor = 3, ry_disposed = False, ry_chunks = [([3], 3)]\<rparr>
      = \<lparr>ry_cursor = 3, ry_disposed = False, ry_chunks = [([3], 3)]\<rparr>"
    by (induction n) (simp_all add: relay_run_defs)
  then have "relay_run 0 (demo_turn False # replicate n (demo_turn True)) = \<lparr>ry_cursor = 3, ry_disposed = False, ry_chunks = [([3], 3)]\<rparr>"
    by (simp add: relay_run_defs)
  then show ?thesis by (simp add: demo_turn_def demo_sent)
qed

end
