(* ===== verification/PaneStream.thy ===== *)
theory PaneStream
  imports Utf8 "HOL-Library.Sublist"
begin

text \<open>
  One output pump per pane, handed out to every viewer: the registry of
  \<open>apps/server/api/src/api/ws/pane-stream.ts\<close>.

  Streams and viewers are objects: each is named by its position in the list of all that were ever made.  A
  viewer's \<open>pv_got\<close> are the calls of its \<open>deliver\<close>, those that threw included, and no \<open>deliver\<close> calls back into
  the registry.
\<close>

record pane_viewer =
  pv_live :: bool
  pv_queued :: "jtext list"
  pv_got :: "jtext list"
  pv_attached :: nat

record pane_stream =
  ps_key :: string
  ps_viewers :: "nat list"
  ps_running :: bool

record pane_registry =
  pr_streams :: "(string, nat) jmap"
  pr_made :: "pane_stream list"
  pr_viewers :: "pane_viewer list"

definition createPaneStreamRegistry :: pane_registry where
  "createPaneStreamRegistry = \<lparr>pr_streams = [], pr_made = [], pr_viewers = []\<rparr>"

definition setViewer :: "nat \<Rightarrow> (pane_viewer \<Rightarrow> pane_viewer) \<Rightarrow> pane_registry \<Rightarrow> pane_registry" where
  "setViewer v f p = (if v < length (pr_viewers p) then p\<lparr>pr_viewers := (pr_viewers p)[v := f (pr_viewers p ! v)]\<rparr> else p)"

definition setStream :: "nat \<Rightarrow> (pane_stream \<Rightarrow> pane_stream) \<Rightarrow> pane_registry \<Rightarrow> pane_registry" where
  "setStream s f p = (if s < length (pr_made p) then p\<lparr>pr_made := (pr_made p)[s := f (pr_made p ! s)]\<rparr> else p)"

text \<open>\<open>subscribe\<close>: the viewer's number is the length of the list of viewers before.\<close>

definition subscribe :: "string \<Rightarrow> pane_registry \<Rightarrow> pane_registry" where
  "subscribe key p =
     (let p = (if jget (pr_streams p) key = None
               then p\<lparr>pr_streams := jset key (length (pr_made p)) (pr_streams p),
                      pr_made := pr_made p @ [\<lparr>ps_key = key, ps_viewers = [], ps_running = True\<rparr>]\<rparr>
               else p);
          s = the (jget (pr_streams p) key);
          v = length (pr_viewers p);
          p = setStream s (\<lambda>st. st\<lparr>ps_viewers := ps_viewers st @ [v]\<rparr>) p
      in p\<lparr>pr_viewers := pr_viewers p @ [\<lparr>pv_live = False, pv_queued = [], pv_got = [], pv_attached = s\<rparr>]\<rparr>)"

definition offer :: "jtext \<Rightarrow> pane_viewer \<Rightarrow> pane_viewer" where
  "offer text v = (if pv_live v then v\<lparr>pv_got := pv_got v @ [text]\<rparr> else v\<lparr>pv_queued := pv_queued v @ [text]\<rparr>)"

text \<open>A source's \<open>emit\<close>.\<close>

definition emitChunk :: "nat \<Rightarrow> jtext \<Rightarrow> pane_registry \<Rightarrow> pane_registry" where
  "emitChunk s text p =
     (if s < length (pr_made p) then fold (\<lambda>v. setViewer v (offer text)) (ps_viewers (pr_made p ! s)) p else p)"

definition openViewer :: "nat \<Rightarrow> pane_registry \<Rightarrow> pane_registry" where
  "openViewer v = setViewer v (\<lambda>w. if pv_live w then w
     else w\<lparr>pv_live := True, pv_queued := [], pv_got := pv_got w @ pv_queued w\<rparr>)"

definition discardQueued :: "nat \<Rightarrow> pane_registry \<Rightarrow> pane_registry" where
  "discardQueued v = setViewer v (\<lambda>w. w\<lparr>pv_queued := []\<rparr>)"

definition closeViewer :: "nat \<Rightarrow> pane_registry \<Rightarrow> pane_registry" where
  "closeViewer v p =
     (if v \<ge> length (pr_viewers p) then p
      else
        let s = pv_attached (pr_viewers p ! v) in
        if s \<ge> length (pr_made p) \<or> v \<notin> set (ps_viewers (pr_made p ! s)) then p
        else
          let st = pr_made p ! s; left = filter (\<lambda>w. w \<noteq> v) (ps_viewers st);
              p = setStream s (\<lambda>st. st\<lparr>ps_viewers := left\<rparr>) p
          in if left \<noteq> [] then p
             else setStream s (\<lambda>st. st\<lparr>ps_running := False\<rparr>)
                    (if jget (pr_streams p) (ps_key st) = Some s then p\<lparr>pr_streams := jdel (ps_key st) (pr_streams p)\<rparr> else p))"

definition viewerCount :: "string \<Rightarrow> pane_registry \<Rightarrow> nat" where
  "viewerCount key p = (case jget (pr_streams p) key of None \<Rightarrow> 0 | Some s \<Rightarrow> length (ps_viewers (pr_made p ! s)))"

definition resetForTests :: "pane_registry \<Rightarrow> pane_registry" where
  "resetForTests p =
     (fold (\<lambda>(key, s). setStream s (\<lambda>st. st\<lparr>ps_running := False\<rparr>)) (pr_streams p) p)\<lparr>pr_streams := []\<rparr>"

datatype pane_move =
    PSubscribe string
  | POpen nat
  | PDiscard nat
  | PClose nat
  | PEmit nat jtext
  | PReset

fun pane_step :: "pane_move \<Rightarrow> pane_registry \<Rightarrow> pane_registry" where
  "pane_step (PSubscribe key) p = subscribe key p"
| "pane_step (POpen v) p = openViewer v p"
| "pane_step (PDiscard v) p = discardQueued v p"
| "pane_step (PClose v) p = closeViewer v p"
| "pane_step (PEmit s text) p = emitChunk s text p"
| "pane_step PReset p = resetForTests p"

definition pane_run :: "pane_move list \<Rightarrow> pane_registry" where
  "pane_run ms = fold pane_step ms createPaneStreamRegistry"

text \<open>What a stream produced in a stretch of moves.\<close>

definition emissions :: "nat \<Rightarrow> pane_move list \<Rightarrow> jtext list" where
  "emissions s ms = concat (map (\<lambda>m. case m of PEmit t text \<Rightarrow> if t = s then [text] else [] | _ \<Rightarrow> []) ms)"

section \<open>The books of the registry\<close>

definition mapped_ok :: "pane_registry \<Rightarrow> string \<Rightarrow> nat \<Rightarrow> bool" where
  "mapped_ok p key s \<longleftrightarrow>
     s < length (pr_made p) \<and> ps_key (pr_made p ! s) = key \<and> ps_running (pr_made p ! s) \<and> ps_viewers (pr_made p ! s) \<noteq> []"

definition stream_ok :: "pane_registry \<Rightarrow> nat \<Rightarrow> bool" where
  "stream_ok p s \<longleftrightarrow>
     (ps_running (pr_made p ! s) \<longrightarrow> jget (pr_streams p) (ps_key (pr_made p ! s)) = Some s) \<and>
     distinct (ps_viewers (pr_made p ! s)) \<and>
     (\<forall>v \<in> set (ps_viewers (pr_made p ! s)). v < length (pr_viewers p) \<and> pv_attached (pr_viewers p ! v) = s)"

definition pane_inv :: "pane_registry \<Rightarrow> bool" where
  "pane_inv p \<longleftrightarrow>
     (\<forall>key s. jget (pr_streams p) key = Some s \<longrightarrow> mapped_ok p key s) \<and>
     (\<forall>s < length (pr_made p). stream_ok p s) \<and>
     (\<forall>v < length (pr_viewers p). pv_attached (pr_viewers p ! v) < length (pr_made p))"

lemma pane_invI:
  assumes "\<And>key s. jget (pr_streams p) key = Some s \<Longrightarrow> mapped_ok p key s" "\<And>s. s < length (pr_made p) \<Longrightarrow> stream_ok p s"
    "\<And>v. v < length (pr_viewers p) \<Longrightarrow> pv_attached (pr_viewers p ! v) < length (pr_made p)"
  shows "pane_inv p"
  using assms unfolding pane_inv_def by blast

lemma inv_mapped: "pane_inv p \<Longrightarrow> jget (pr_streams p) key = Some s \<Longrightarrow> mapped_ok p key s"
  and inv_stream: "pane_inv p \<Longrightarrow> s < length (pr_made p) \<Longrightarrow> stream_ok p s"
  and inv_viewer: "pane_inv p \<Longrightarrow> v < length (pr_viewers p) \<Longrightarrow> pv_attached (pr_viewers p ! v) < length (pr_made p)"
  unfolding pane_inv_def by blast+

lemma setViewer_simps [simp]:
  "pr_streams (setViewer v f p) = pr_streams p" "pr_made (setViewer v f p) = pr_made p"
  "length (pr_viewers (setViewer v f p)) = length (pr_viewers p)"
  by (simp_all add: setViewer_def)

lemma setViewer_nth: "w < length (pr_viewers p) \<Longrightarrow> pr_viewers (setViewer v f p) ! w = (if w = v then f (pr_viewers p ! v) else pr_viewers p ! w)"
  by (simp add: setViewer_def)

lemma setStream_simps [simp]:
  "pr_streams (setStream s f p) = pr_streams p" "pr_viewers (setStream s f p) = pr_viewers p"
  "length (pr_made (setStream s f p)) = length (pr_made p)"
  by (simp_all add: setStream_def)

lemma setStream_nth: "t < length (pr_made p) \<Longrightarrow> pr_made (setStream s f p) ! t = (if t = s then f (pr_made p ! s) else pr_made p ! t)"
  by (simp add: setStream_def)

lemma inv_setViewer: "pane_inv p \<Longrightarrow> (\<And>w. pv_attached (f w) = pv_attached w) \<Longrightarrow> pane_inv (setViewer v f p)"
  by (auto simp: pane_inv_def mapped_ok_def stream_ok_def setViewer_nth)

lemma offer_attached [simp]: "pv_attached (offer text w) = pv_attached w" "pv_live (offer text w) = pv_live w"
  by (simp_all add: offer_def)

 
lemma inv_offers: "pane_inv p \<Longrightarrow> pane_inv (fold (\<lambda>v. setViewer v (offer text)) vs p)"
proof (induction vs arbitrary: p)
  case (Cons v vs)
  then show ?case using inv_setViewer [OF Cons.prems, of "offer text" v] by simp
qed simp

lemma inv_emit: "pane_inv p \<Longrightarrow> pane_inv (emitChunk s text p)"
  by (simp add: emitChunk_def inv_offers)

lemma subscribe_joins:
  "jget (pr_streams p) key = Some s \<Longrightarrow> s < length (pr_made p) \<Longrightarrow>
   subscribe key p = p\<lparr>pr_made := (pr_made p)[s := (pr_made p ! s)\<lparr>ps_viewers := ps_viewers (pr_made p ! s) @ [length (pr_viewers p)]\<rparr>],
     pr_viewers := pr_viewers p @ [\<lparr>pv_live = False, pv_queued = [], pv_got = [], pv_attached = s\<rparr>]\<rparr>"
  by (simp add: subscribe_def Let_def setStream_def)

lemma subscribe_starts:
  "jget (pr_streams p) key = None \<Longrightarrow>
   subscribe key p = p\<lparr>pr_streams := jset key (length (pr_made p)) (pr_streams p),
     pr_made := pr_made p @ [\<lparr>ps_key = key, ps_viewers = [length (pr_viewers p)], ps_running = True\<rparr>],
     pr_viewers := pr_viewers p @ [\<lparr>pv_live = False, pv_queued = [], pv_got = [], pv_attached = length (pr_made p)\<rparr>]\<rparr>"
  by (simp add: subscribe_def Let_def setStream_def)

lemma inv_subscribe: "pane_inv p \<Longrightarrow> pane_inv (subscribe key p)"
proof (cases "jget (pr_streams p) key")
  case None
  assume i: "pane_inv p"
  have old: "stream_ok p s \<Longrightarrow> s < length (pr_made p) \<Longrightarrow> ps_running (pr_made p ! s) \<Longrightarrow> ps_key (pr_made p ! s) \<noteq> key" for s
    using None by (auto simp: stream_ok_def)
  show ?thesis unfolding subscribe_starts [OF None]
  proof (rule pane_invI, goal_cases)
    case (1 k s)
    then show ?case using inv_mapped [OF i, of k s] by (auto simp: mapped_ok_def nth_append split: if_splits)
  next
    case (2 s)
    then show ?case
    proof (cases "s < length (pr_made p)")
      case True
      then show ?thesis using inv_stream [OF i True] old [of s] by (auto simp: stream_ok_def nth_append)
    qed (auto simp: stream_ok_def nth_append)
  next
    case (3 v)
    then show ?case using inv_viewer [OF i, of v] by (auto simp: nth_append)
  qed
next
  case (Some s)
  assume i: "pane_inv p"
  have k: "s < length (pr_made p)" using inv_mapped [OF i Some] by (simp add: mapped_ok_def)
  show ?thesis unfolding subscribe_joins [OF Some k]
  proof (rule pane_invI, goal_cases)
    case (1 key' t)
    then show ?case using inv_mapped [OF i, of key' t] by (cases "t = s") (auto simp: mapped_ok_def)
  next
    case (2 t)
    then show ?case using inv_stream [OF i, of t] by (cases "t = s") (auto simp: stream_ok_def nth_append)
  next
    case (3 v)
    then show ?case using inv_viewer [OF i, of v] k by (auto simp: nth_append less_Suc_eq)
  qed
qed

lemma closeViewer_other: "v \<ge> length (pr_viewers p) \<or> v \<notin> set (ps_viewers (pr_made p ! pv_attached (pr_viewers p ! v))) \<Longrightarrow> closeViewer v p = p"
  by (auto simp: closeViewer_def Let_def)

lemma inv_close: "pane_inv p \<Longrightarrow> pane_inv (closeViewer v p)"
proof (cases "v \<ge> length (pr_viewers p) \<or> v \<notin> set (ps_viewers (pr_made p ! pv_attached (pr_viewers p ! v)))")
  case True
  then show "pane_inv p \<Longrightarrow> ?thesis" by (simp add: closeViewer_other)
next
  case False
  assume i: "pane_inv p"
  define s where "s = pv_attached (pr_viewers p ! v)"
  define left where "left = filter (\<lambda>w. w \<noteq> v) (ps_viewers (pr_made p ! s))"
  have s: "s < length (pr_made p)" using False inv_viewer [OF i, of v] by (simp add: s_def)
  define q where "q = setStream s (\<lambda>st. st\<lparr>ps_viewers := left\<rparr>) p"
  have q: "pr_streams q = pr_streams p" "pr_viewers q = pr_viewers p" "length (pr_made q) = length (pr_made p)"
    "\<And>t. t < length (pr_made p) \<Longrightarrow> pr_made q ! t = (if t = s then (pr_made p ! s)\<lparr>ps_viewers := left\<rparr> else pr_made p ! t)"
    by (simp_all add: q_def setStream_nth)
  have qs: "pr_made q ! s = (pr_made p ! s)\<lparr>ps_viewers := left\<rparr>" using q(4) [OF s] by simp
  have qo: "t < length (pr_made p) \<Longrightarrow> t \<noteq> s \<Longrightarrow> pr_made q ! t = pr_made p ! t" for t using q(4) by simp
  have c: "closeViewer v p = (if left \<noteq> [] then q
      else setStream s (\<lambda>st. st\<lparr>ps_running := False\<rparr>)
        (if jget (pr_streams q) (ps_key (pr_made p ! s)) = Some s then q\<lparr>pr_streams := jdel (ps_key (pr_made p ! s)) (pr_streams q)\<rparr> else q))"
    using False s by (auto simp: closeViewer_def Let_def s_def left_def q_def)
  have strm: "t < length (pr_made q) \<Longrightarrow> stream_ok q t" for t
  proof -
    assume "t < length (pr_made q)"
    then have t: "t < length (pr_made p)" by (simp add: q)
    show "stream_ok q t"
      using inv_stream [OF i t] by (cases "t = s") (auto simp: stream_ok_def q(1,2) qs qo t left_def)
  qed
  show ?thesis
  proof (cases "left = []")
    case False
    have "pane_inv q"
    proof (rule pane_invI, goal_cases)
      case (1 key t)
      then have m: "mapped_ok p key t" using inv_mapped [OF i] by (simp add: q)
      then have "t < length (pr_made p)" by (simp add: mapped_ok_def)
      from m qo [OF this] show ?case using False by (cases "t = s") (simp_all add: mapped_ok_def q(1,2,3) qs)
    qed (use strm inv_viewer [OF i] q in simp_all)
    then show ?thesis using False c by simp
  next
    case True
    let ?k = "ps_key (pr_made p ! s)"
    have other: "jget (pr_streams p) key = Some t \<Longrightarrow> t = s \<Longrightarrow> key = ?k" for key t
      using inv_mapped [OF i, of key t] by (auto simp: mapped_ok_def)
    define r where "r = closeViewer v p"
    have r: "pr_viewers r = pr_viewers p" "length (pr_made r) = length (pr_made p)"
      "jget (pr_streams r) = (if jget (pr_streams p) ?k = Some s then (jget (pr_streams p))(?k := None) else jget (pr_streams p))"
      "\<And>t. t < length (pr_made p) \<Longrightarrow> pr_made r ! t = (if t = s then (pr_made p ! s)\<lparr>ps_viewers := [], ps_running := False\<rparr> else pr_made p ! t)"
      using True s unfolding r_def c by (auto simp: setStream_nth q)
    have rs: "pr_made r ! s = (pr_made p ! s)\<lparr>ps_viewers := [], ps_running := False\<rparr>" using r(4) [OF s] by simp
    have "pane_inv r"
    proof (rule pane_invI, goal_cases)
      case (1 key t)
      then have g: "jget (pr_streams p) key = Some t" unfolding r(3) by (simp split: if_splits)
      have "t \<noteq> s"
      proof
        assume "t = s"
        moreover have "key = ?k" using other [OF g] \<open>t = s\<close> by simp
        ultimately show False using 1 g unfolding r(3) by simp
      qed
      from g have m: "mapped_ok p key t" "t < length (pr_made p)" using inv_mapped [OF i, of key t] by (simp_all add: mapped_ok_def)
      then show ?case using r(4) [OF m(2)] \<open>t \<noteq> s\<close> by (simp add: mapped_ok_def r(2))
    next
      case (2 t)
      then have t: "t < length (pr_made p)" using r by simp
      have "stream_ok p t" by (rule inv_stream [OF i t])
      then show ?case by (cases "t = s") (auto simp: stream_ok_def r(1,3) rs r(4) [OF t])
    qed (use inv_viewer [OF i] r in simp_all)
    then show ?thesis by (simp add: r_def)
  qed
qed

lemma stop_all:
  "pr_viewers (fold (\<lambda>(key, s). setStream s (\<lambda>st. st\<lparr>ps_running := False\<rparr>)) xs p) = pr_viewers p \<and>
   length (pr_made (fold (\<lambda>(key, s). setStream s (\<lambda>st. st\<lparr>ps_running := False\<rparr>)) xs p)) = length (pr_made p) \<and>
   (\<forall>t < length (pr_made p).
     pr_made (fold (\<lambda>(key, s). setStream s (\<lambda>st. st\<lparr>ps_running := False\<rparr>)) xs p) ! t =
     (pr_made p ! t)\<lparr>ps_running := ps_running (pr_made p ! t) \<and> t \<notin> snd ` set xs\<rparr>)"
proof (induction xs arbitrary: p)
  case (Cons x xs)
  obtain k s where x: "x = (k, s)" by (cases x)
  show ?case using Cons.IH [of "setStream s (\<lambda>st. st\<lparr>ps_running := False\<rparr>) p"] by (auto simp: x setStream_nth)
qed simp

lemma inv_reset: "pane_inv p \<Longrightarrow> pane_inv (resetForTests p)"
proof -
  assume i: "pane_inv p"
  note r = stop_all [of "pr_streams p" p]
  show ?thesis
  proof (rule pane_invI, goal_cases)
    case (2 t)
    then have t: "t < length (pr_made p)" using r by (simp add: resetForTests_def)
    have "ps_running (pr_made p ! t) \<Longrightarrow> t \<in> snd ` set (pr_streams p)"
      using inv_stream [OF i t] unfolding stream_ok_def jget_map_of by (force dest: map_of_SomeD)
    then show ?case using r t inv_stream [OF i t] by (auto simp: resetForTests_def stream_ok_def)
  qed (use r inv_viewer [OF i] in \<open>auto simp: resetForTests_def\<close>)
qed

interpretation pane_machine: event_machine pane_step pane_inv
proof
  fix p m assume i: "pane_inv p"
  show "pane_inv (pane_step m p)"
    by (cases m) (use i in \<open>auto simp: openViewer_def discardQueued_def inv_subscribe inv_close inv_emit inv_reset intro!: inv_setViewer\<close>)
qed

lemma inv_pane_run: "pane_inv (pane_run ms)"
  unfolding pane_run_def by (rule pane_machine.run_inv) (simp add: pane_inv_def createPaneStreamRegistry_def)

 
section \<open>What a viewer hears\<close>

abbreviation viewerOf :: "pane_registry \<Rightarrow> nat \<Rightarrow> pane_viewer" where
  "viewerOf p v \<equiv> pr_viewers p ! v"

definition heard :: "pane_registry \<Rightarrow> nat \<Rightarrow> jtext list" where
  "heard p v = pv_got (viewerOf p v) @ pv_queued (viewerOf p v)"

definition watching :: "pane_registry \<Rightarrow> nat \<Rightarrow> bool" where
  "watching p v \<longleftrightarrow> v < length (pr_viewers p) \<and> v \<in> set (ps_viewers (pr_made p ! pv_attached (viewerOf p v)))"

lemma offers_nth:
  "distinct vs \<Longrightarrow> v < length (pr_viewers p) \<Longrightarrow>
   pr_viewers (fold (\<lambda>v. setViewer v (offer text)) vs p) ! v = (if v \<in> set vs then offer text (viewerOf p v) else viewerOf p v)"
proof (induction vs arbitrary: p)
  case (Cons w vs)
  then show ?case using Cons.IH [of "setViewer w (offer text) p"] by (auto simp: setViewer_nth)
qed simp

lemma offers_rest [simp]:
  "pr_made (fold (\<lambda>v. setViewer v (offer text)) vs p) = pr_made p"
  "length (pr_viewers (fold (\<lambda>v. setViewer v (offer text)) vs p)) = length (pr_viewers p)"
  by (induction vs arbitrary: p) simp_all

lemma emit_viewer:
  assumes "pane_inv p" "v < length (pr_viewers p)"
  shows "viewerOf (emitChunk s text p) v = (if watching p v \<and> pv_attached (viewerOf p v) = s then offer text (viewerOf p v) else viewerOf p v)"
proof (cases "s < length (pr_made p)")
  case True
  have so: "stream_ok p s" by (rule inv_stream [OF assms(1) True])
  then have "v \<in> set (ps_viewers (pr_made p ! s)) \<longleftrightarrow> watching p v \<and> pv_attached (viewerOf p v) = s"
    using assms(2) by (auto simp: watching_def stream_ok_def)
  moreover have "viewerOf (emitChunk s text p) v =
      (if v \<in> set (ps_viewers (pr_made p ! s)) then offer text (viewerOf p v) else viewerOf p v)"
    using True so assms(2) by (simp add: emitChunk_def offers_nth stream_ok_def)
  ultimately show ?thesis by simp
next
  case False
  then show ?thesis using inv_viewer [OF assms] by (auto simp: emitChunk_def)
qed

lemma subscribe_viewers:
  assumes "pane_inv p"
  shows "pr_viewers (subscribe key p) = pr_viewers p @ [\<lparr>pv_live = False, pv_queued = [], pv_got = [],
      pv_attached = (case jget (pr_streams p) key of Some s \<Rightarrow> s | None \<Rightarrow> length (pr_made p))\<rparr>] \<and>
    (\<forall>t < length (pr_made p). set (ps_viewers (pr_made p ! t)) \<subseteq> set (ps_viewers (pr_made (subscribe key p) ! t)) \<and>
       set (ps_viewers (pr_made (subscribe key p) ! t)) \<subseteq> insert (length (pr_viewers p)) (set (ps_viewers (pr_made p ! t)))) \<and>
    watching (subscribe key p) (length (pr_viewers p))"
proof (cases "jget (pr_streams p) key")
  case None
  then show ?thesis by (auto simp: subscribe_starts watching_def nth_append)
next
  case (Some s)
  then have "s < length (pr_made p)" using inv_mapped [OF assms Some] by (simp add: mapped_ok_def)
  then show ?thesis using Some by (auto simp: subscribe_joins watching_def nth_append nth_list_update)
qed

lemma close_viewers: "pr_viewers (closeViewer v p) = pr_viewers p \<and> length (pr_made (closeViewer v p)) = length (pr_made p)"
  by (simp add: closeViewer_def Let_def)

lemma close_others:
  "t < length (pr_made p) \<Longrightarrow> w \<noteq> v \<Longrightarrow> w \<in> set (ps_viewers (pr_made (closeViewer v p) ! t)) \<longleftrightarrow> w \<in> set (ps_viewers (pr_made p ! t))"
  by (auto simp: closeViewer_def Let_def setStream_nth filter_empty_conv)

lemma reset_viewers:
  "pr_viewers (resetForTests p) = pr_viewers p \<and> length (pr_made (resetForTests p)) = length (pr_made p) \<and>
   (\<forall>t < length (pr_made p). ps_viewers (pr_made (resetForTests p) ! t) = ps_viewers (pr_made p ! t))"
  using stop_all [of "pr_streams p" p] by (simp add: resetForTests_def)

lemma step_grows: "pane_inv p \<Longrightarrow> length (pr_viewers p) \<le> length (pr_viewers (pane_step m p))"
  by (cases m) (auto simp: openViewer_def discardQueued_def emitChunk_def close_viewers reset_viewers subscribe_viewers)

lemma step_attached: "pane_inv p \<Longrightarrow> v < length (pr_viewers p) \<Longrightarrow> pv_attached (viewerOf (pane_step m p) v) = pv_attached (viewerOf p v)"
  by (cases m) (auto simp: openViewer_def discardQueued_def emit_viewer close_viewers reset_viewers subscribe_viewers setViewer_nth nth_append)

lemma step_watching:
  assumes "pane_inv p" "v < length (pr_viewers p)" "m \<noteq> PClose v"
  shows "watching (pane_step m p) v \<longleftrightarrow> watching p v"
proof -
  have a: "pv_attached (viewerOf (pane_step m p) v) = pv_attached (viewerOf p v)" by (rule step_attached [OF assms(1,2)])
  have l: "pv_attached (viewerOf p v) < length (pr_made p)" by (rule inv_viewer [OF assms(1,2)])
  have "v \<in> set (ps_viewers (pr_made (pane_step m p) ! pv_attached (viewerOf p v))) \<longleftrightarrow>
      v \<in> set (ps_viewers (pr_made p ! pv_attached (viewerOf p v)))"
  proof (cases m)
    case (PSubscribe key)
    then show ?thesis using subscribe_viewers [OF assms(1), of key] l assms(2) by fastforce
  qed (use assms l in \<open>auto simp: openViewer_def discardQueued_def emitChunk_def close_others reset_viewers\<close>)
  then show ?thesis using a step_grows [OF assms(1), of m] assms(2) by (auto simp: watching_def)
qed

definition calm :: "pane_registry \<Rightarrow> nat \<Rightarrow> bool" where
  "calm p v \<longleftrightarrow> (pv_live (viewerOf p v) \<longrightarrow> pv_queued (viewerOf p v) = [])"

text \<open>Every move but the viewer's own discard adds to what it heard what its stream produced.\<close>

lemma step_heard:
  assumes "pane_inv p" "v < length (pr_viewers p)" "calm p v" "m \<noteq> PDiscard v"
  shows "heard (pane_step m p) v = heard p v @ (if watching p v then emissions (pv_attached (viewerOf p v)) [m] else []) \<and>
    calm (pane_step m p) v \<and> (pv_live (viewerOf (pane_step m p) v) \<longleftrightarrow> pv_live (viewerOf p v) \<or> m = POpen v)"
proof (cases m)
  case (PEmit s x)
  have "viewerOf (pane_step m p) v = (if watching p v \<and> pv_attached (viewerOf p v) = s then offer x (viewerOf p v) else viewerOf p v)"
    using emit_viewer [OF assms(1,2)] PEmit by simp
  then show ?thesis using assms(3) by (auto simp: heard_def calm_def offer_def emissions_def PEmit)
next
  case (PSubscribe key)
  then show ?thesis using subscribe_viewers [OF assms(1), of key] assms
    by (simp add: heard_def calm_def emissions_def nth_append)
qed (use assms in \<open>auto simp: heard_def calm_def emissions_def openViewer_def discardQueued_def close_viewers reset_viewers setViewer_nth\<close>)

lemma discard_heard:
  assumes "v < length (pr_viewers p)"
  shows "heard (pane_step (PDiscard v) p) v = pv_got (viewerOf p v)" "calm (pane_step (PDiscard v) p) v"
    "pv_live (viewerOf (pane_step (PDiscard v) p) v) = pv_live (viewerOf p v)"
  using assms by (simp_all add: heard_def calm_def discardQueued_def setViewer_nth)

 
lemma run_heard:
  assumes "pane_inv p" "v < length (pr_viewers p)" "calm p v" "watching p v" "pv_attached (viewerOf p v) = s"
    "PClose v \<notin> set ms" "PDiscard v \<notin> set ms"
  shows "heard (fold pane_step ms p) v = heard p v @ emissions s ms \<and> calm (fold pane_step ms p) v \<and>
    (pv_live (viewerOf (fold pane_step ms p) v) \<longleftrightarrow> pv_live (viewerOf p v) \<or> POpen v \<in> set ms)"
  using assms
proof (induction ms arbitrary: p)
  case (Cons m ms)
  let ?q = "pane_step m p"
  have "m \<noteq> PClose v" "m \<noteq> PDiscard v" using Cons.prems by auto
  moreover have "pane_inv ?q" "v < length (pr_viewers ?q)"
    using Cons.prems pane_machine.step_inv step_grows [of p m] by auto
  moreover have "emissions s (m # ms) = emissions s [m] @ emissions s ms" by (simp add: emissions_def)
  ultimately show ?case
    using Cons.IH [of ?q] Cons.prems step_heard [of p v m] step_watching [of p v m] step_attached [of p v m] by auto
qed (simp_all add: emissions_def)

lemma run_grows: "pane_inv p \<Longrightarrow> length (pr_viewers p) \<le> length (pr_viewers (fold pane_step ms p))"
proof (induction ms arbitrary: p)
  case (Cons m ms)
  then show ?case using pane_machine.step_inv [of p m] step_grows [of p m] by (metis fold_simps(2) order_trans)
qed simp

text \<open>A viewer that has not been opened has heard nothing, and stays attached to its stream.\<close>

lemma pane_step_quiet:
  assumes "pane_inv p" "v < length (pr_viewers p)" "\<not> pv_live (viewerOf p v)" "pv_got (viewerOf p v) = []" "m \<noteq> POpen v"
  shows "\<not> pv_live (viewerOf (pane_step m p) v) \<and> pv_got (viewerOf (pane_step m p) v) = []"
proof (cases m)
  case (PEmit s x)
  then show ?thesis using emit_viewer [OF assms(1,2)] assms by (simp add: offer_def)
next
  case (PSubscribe key)
  then show ?thesis using subscribe_viewers [OF assms(1), of key] assms by (simp add: nth_append)
qed (use assms in \<open>auto simp: openViewer_def discardQueued_def close_viewers reset_viewers setViewer_nth\<close>)

lemma run_quiet:
  assumes "pane_inv p" "watching p v" "\<not> pv_live (viewerOf p v)" "pv_got (viewerOf p v) = []"
    "POpen v \<notin> set ms" "PClose v \<notin> set ms"
  shows "\<not> pv_live (viewerOf (fold pane_step ms p) v) \<and> pv_got (viewerOf (fold pane_step ms p) v) = [] \<and>
    watching (fold pane_step ms p) v \<and> pv_attached (viewerOf (fold pane_step ms p) v) = pv_attached (viewerOf p v)"
  using assms
proof (induction ms arbitrary: p)
  case (Cons m ms)
  have v: "v < length (pr_viewers p)" "m \<noteq> PClose v" "m \<noteq> POpen v" using Cons.prems by (auto simp: watching_def)
  then show ?case
    using Cons.IH [of "pane_step m p"] Cons.prems pane_machine.step_inv [of p m] pane_step_quiet [of p v m]
      step_watching [of p v m] step_attached [of p v m] by simp
qed simp

lemma joiner:
  assumes "pane_inv p" "q = subscribe key p" "v = length (pr_viewers p)"
  shows "pane_inv q \<and> watching q v \<and> v < length (pr_viewers q) \<and> calm q v \<and> heard q v = [] \<and>
    \<not> pv_live (viewerOf q v) \<and> pv_got (viewerOf q v) = [] \<and> jget (pr_streams q) key = Some (pv_attached (viewerOf q v))"
proof -
  have "jget (pr_streams q) key = Some (pv_attached (viewerOf q v))"
  proof (cases "jget (pr_streams p) key")
    case None
    then show ?thesis using assms by (simp add: subscribe_starts)
  next
    case (Some s)
    then have "s < length (pr_made p)" using inv_mapped [OF assms(1) Some] by (simp add: mapped_ok_def)
    then show ?thesis using assms Some by (simp add: subscribe_joins)
  qed
  then show ?thesis
    using assms inv_subscribe [OF assms(1), of key] subscribe_viewers [OF assms(1), of key]
    by (simp add: calm_def heard_def)
qed

text \<open>Every viewer's record is a suffix of what its stream produced.\<close>

definition tidy :: "pane_move list \<Rightarrow> pane_registry \<Rightarrow> nat \<Rightarrow> bool" where
  "tidy ms p v \<longleftrightarrow> calm p v \<and> (\<not> pv_live (viewerOf p v) \<longrightarrow> pv_got (viewerOf p v) = []) \<and>
     (watching p v \<longrightarrow> suffix (heard p v) (emissions (pv_attached (viewerOf p v)) ms))"

lemma emissions_snoc: "emissions s (ms @ [m]) = emissions s ms @ emissions s [m]"
  by (simp add: emissions_def)

lemma step_old_live:
  assumes "pane_inv p" "v < length (pr_viewers p)" "\<not> pv_live (viewerOf p v) \<longrightarrow> pv_got (viewerOf p v) = []"
  shows "\<not> pv_live (viewerOf (pane_step m p) v) \<longrightarrow> pv_got (viewerOf (pane_step m p) v) = []"
proof (cases m)
  case (PEmit s x)
  then show ?thesis using emit_viewer [OF assms(1,2)] assms by (simp add: offer_def)
next
  case (PSubscribe key)
  then show ?thesis using subscribe_viewers [OF assms(1), of key] assms by (simp add: nth_append)
qed (use assms in \<open>auto simp: openViewer_def discardQueued_def close_viewers reset_viewers setViewer_nth\<close>)

lemma close_stops_watching:
  assumes "pane_inv p" "v < length (pr_viewers p)"
  shows "\<not> watching (pane_step (PClose v) p) v"
  using inv_viewer [OF assms] assms(2)
  by (auto simp: watching_def close_viewers closeViewer_def Let_def setStream_nth)

lemma step_tidy:
  assumes i: "pane_inv p" and v: "v < length (pr_viewers p)" and t: "tidy ms p v"
  shows "tidy (ms @ [m]) (pane_step m p) v"
proof -
  note a = step_attached [OF i v, of m] and o = step_old_live [OF i v, of m]
  consider "m = PDiscard v" | "m = PClose v" | "m \<noteq> PDiscard v" "m \<noteq> PClose v" by blast
  then show ?thesis
  proof cases
    case 1
    have e: "emissions s [m] = []" for s using 1 by (simp add: emissions_def)
    have "suffix (pv_got (viewerOf p v)) (heard p v)" if "pv_live (viewerOf p v)"
      using t that by (simp add: tidy_def calm_def heard_def)
    moreover have "suffix (pv_got (viewerOf p v)) (heard p v)" if "\<not> pv_live (viewerOf p v)"
      using t that by (simp add: tidy_def)
    ultimately have "suffix (heard (pane_step m p) v) (heard p v)" using discard_heard [OF v] 1 by auto
    then show ?thesis
      using t o a e discard_heard [OF v] step_watching [OF i v, of m] 1
      by (auto simp: tidy_def emissions_snoc intro: suffix_order.trans)
  next
    case 2
    then show ?thesis using t o step_heard [OF i v, of m] close_stops_watching [OF i v] by (simp add: tidy_def)
  next
    case 3
    then show ?thesis
      using t o a step_heard [OF i v, of m] step_watching [OF i v, of m] by (auto simp: tidy_def emissions_snoc)
  qed
qed

lemma new_viewer:
  "pane_inv p \<Longrightarrow> length (pr_viewers p) \<le> v \<Longrightarrow> v < length (pr_viewers (pane_step m p)) \<Longrightarrow> \<exists>key. m = PSubscribe key \<and> v = length (pr_viewers p)"
  by (cases m) (auto simp: openViewer_def discardQueued_def emitChunk_def close_viewers reset_viewers subscribe_viewers split: if_split_asm)

lemma run_tidy: "v < length (pr_viewers (pane_run ms)) \<Longrightarrow> tidy ms (pane_run ms) v"
proof (induction ms rule: rev_induct)
  case (snoc m ms)
  have r: "pane_run (ms @ [m]) = pane_step m (pane_run ms)" by (simp add: pane_run_def)
  show ?case
  proof (cases "v < length (pr_viewers (pane_run ms))")
    case True
    then show ?thesis using step_tidy [OF inv_pane_run True] snoc.IH r by simp
  next
    case False
    then obtain key where "m = PSubscribe key" "v = length (pr_viewers (pane_run ms))"
      using new_viewer [OF inv_pane_run, of ms v m] snoc.prems r by auto
    then show ?thesis using joiner [OF inv_pane_run, of _ key ms v] r by (simp add: tidy_def)
  qed
qed (simp add: pane_run_def createPaneStreamRegistry_def)

section \<open>Properties\<close>

text \<open>
  C37: However viewers come and go (and whatever stale handles are closed again), a pane has exactly one running
  source while anybody watches it and none when nobody does.
\<close>

theorem one_pump_per_watched_pane:
  "let p = pane_run ms in
   length (filter (\<lambda>st. ps_key st = key \<and> ps_running st) (pr_made p)) = (if viewerCount key p = 0 then 0 else 1)"
proof -
  define p where "p = pane_run ms"
  have i: "pane_inv p" unfolding p_def by (rule inv_pane_run)
  have run: "t < length (pr_made p) \<and> ps_key (pr_made p ! t) = key \<and> ps_running (pr_made p ! t) \<longleftrightarrow> jget (pr_streams p) key = Some t" for t
    using inv_stream [OF i, of t] inv_mapped [OF i, of key t] by (auto simp: stream_ok_def mapped_ok_def)
  have "length (filter (\<lambda>st. ps_key st = key \<and> ps_running st) (pr_made p)) = card {t. jget (pr_streams p) key = Some t}"
    unfolding length_filter_conv_card using run by simp
  also have "\<dots> = (if viewerCount key p = 0 then 0 else 1)"
  proof (cases "jget (pr_streams p) key")
    case (Some s)
    then show ?thesis using inv_mapped [OF i Some] by (simp add: viewerCount_def mapped_ok_def)
  qed (simp add: viewerCount_def)
  finally show ?thesis by (simp add: p_def Let_def)
qed

text \<open>
  A viewer is sent exactly what its pane's stream produced after it joined: whenever it is opened, and
  whatever other viewers and other panes do meanwhile, no chunk produced since it subscribed is missing,
  repeated or out of order, and none from before is among them.
\<close>

theorem viewer_hears_what_follows:
  assumes "q = subscribe key (pane_run before)" "v = length (pr_viewers (pane_run before))"
    "PClose v \<notin> set ms" "PDiscard v \<notin> set ms" "POpen v \<in> set ms"
  shows "pv_got (viewerOf (fold pane_step ms q) v) = emissions (the (jget (pr_streams q) key)) ms"
proof -
  note j = joiner [OF inv_pane_run assms(1,2)]
  have "heard (fold pane_step ms q) v = emissions (pv_attached (viewerOf q v)) ms"
    "calm (fold pane_step ms q) v" "pv_live (viewerOf (fold pane_step ms q) v)"
    using run_heard [of q v _ ms] j assms(3-5) by auto
  then show ?thesis using j by (simp add: heard_def calm_def)
qed

lemma viewer_hears_what_follows_witness:
  "pv_got (viewerOf (fold pane_step [PEmit 0 [7], POpen 1, PEmit 0 [8]] (subscribe ''a'' (pane_run [PSubscribe ''a'', PEmit 0 [6]]))) 1)
     = [[7], [8]]"
  using viewer_hears_what_follows [of _ "''a''" "[PSubscribe ''a'', PEmit 0 [6]]" 1 "[PEmit 0 [7], POpen 1, PEmit 0 [8]]", OF refl]
  by (simp add: pane_run_def createPaneStreamRegistry_def subscribe_def Let_def setStream_def emitChunk_def setViewer_def emissions_def)

text \<open>
  A viewer of a booting pane that marks the moment before its replay is sent exactly what the stream
  produced after the mark: nothing of the boot that the replay already painted, and everything since.
\<close>

theorem booting_viewer_hears_from_the_mark:
  assumes "q = subscribe key (pane_run before)" "v = length (pr_viewers (pane_run before))"
    "PClose v \<notin> set (boot @ live)" "POpen v \<notin> set boot" "PDiscard v \<notin> set live" "POpen v \<in> set live"
  shows "pv_got (viewerOf (fold pane_step (boot @ PDiscard v # live) q) v) = emissions (the (jget (pr_streams q) key)) live"
proof -
  note j = joiner [OF inv_pane_run assms(1,2)]
  define b where "b = fold pane_step boot q"
  have b: "\<not> pv_live (viewerOf b v)" "pv_got (viewerOf b v) = []" "watching b v" "pv_attached (viewerOf b v) = pv_attached (viewerOf q v)"
    "pane_inv b" "v < length (pr_viewers b)"
    using run_quiet [of q v boot] j assms(3,4) pane_machine.run_inv [of q boot] run_grows [of q boot] by (auto simp: b_def)
  let ?d = "pane_step (PDiscard v) b"
  have d: "pane_inv ?d" "v < length (pr_viewers ?d)" "watching ?d v" "pv_attached (viewerOf ?d v) = pv_attached (viewerOf q v)"
    using b pane_machine.step_inv [of b "PDiscard v"] step_grows [of b "PDiscard v"] step_watching [of b v "PDiscard v"]
      step_attached [of b v "PDiscard v"] by auto
  note h = discard_heard [OF b(6)]
  have "heard (fold pane_step live ?d) v = emissions (pv_attached (viewerOf q v)) live"
    "calm (fold pane_step live ?d) v" "pv_live (viewerOf (fold pane_step live ?d) v)"
    using run_heard [OF d(1,2) h(2) d(3,4), of live] h(1) b(2) assms(3,5,6) by auto
  then have "pv_got (viewerOf (fold pane_step live ?d) v) = emissions (pv_attached (viewerOf q v)) live"
    by (simp add: heard_def calm_def)
  then show ?thesis using j by (simp add: b_def)
qed

lemma booting_viewer_hears_from_the_mark_witness:
  "pv_got (viewerOf (fold pane_step ([PEmit 0 [6]] @ PDiscard 0 # [PEmit 0 [7], POpen 0, PEmit 0 [8]]) (subscribe ''a'' (pane_run []))) 0)
     = [[7], [8]]"
  using booting_viewer_hears_from_the_mark [of _ "''a''" "[]" 0 "[PEmit 0 [6]]" "[PEmit 0 [7], POpen 0, PEmit 0 [8]]", OF refl]
  by (simp add: pane_run_def createPaneStreamRegistry_def subscribe_def Let_def setStream_def emissions_def)

text \<open>
  C38: Two open viewers of one stream agree to the byte: whatever happened before, everything sent to the one
  that heard less is the end of what was sent to the other.
\<close>

theorem viewers_of_one_stream_agree:
  assumes "p = pane_run ms" "watching p v" "watching p w" "pv_attached (viewerOf p v) = pv_attached (viewerOf p w)"
    "pv_live (viewerOf p v)" "pv_live (viewerOf p w)"
  shows "suffix (pv_got (viewerOf p v)) (pv_got (viewerOf p w)) \<or> suffix (pv_got (viewerOf p w)) (pv_got (viewerOf p v))"
proof -
  have "tidy ms p v" "tidy ms p w" using run_tidy assms(1-3) by (auto simp: watching_def)
  then have "suffix (pv_got (viewerOf p v)) (emissions (pv_attached (viewerOf p v)) ms)"
    "suffix (pv_got (viewerOf p w)) (emissions (pv_attached (viewerOf p v)) ms)"
    using assms(2-6) by (auto simp: tidy_def calm_def heard_def)
  then show ?thesis by (rule suffix_same_cases)
qed

lemma viewers_of_one_stream_agree_witness:
  "let p = pane_run [PSubscribe ''a'', POpen 0, PEmit 0 [6], PSubscribe ''a'', PEmit 0 [7], POpen 1, PEmit 0 [8]] in
   suffix (pv_got (viewerOf p 1)) (pv_got (viewerOf p 0)) \<or> suffix (pv_got (viewerOf p 0)) (pv_got (viewerOf p 1))"
  using viewers_of_one_stream_agree [of _ "[PSubscribe ''a'', POpen 0, PEmit 0 [6], PSubscribe ''a'', PEmit 0 [7], POpen 1, PEmit 0 [8]]" 1 0, OF refl]
  by (simp add: watching_def pane_run_def createPaneStreamRegistry_def subscribe_def Let_def setStream_def emitChunk_def setViewer_def
      openViewer_def offer_def)

end
