(* ===== verification/PaneOutput.thy ===== *)
theory PaneOutput
  imports SyncStripper PaneTail PaneStream
begin

text \<open>
  The sources a pane's stream is made of (\<open>apps/server/api/src/api/ws/pane-sources.ts\<close>): the tail of a local
  log, the tail a node relays with its watchdog, and the capture poll; and the way of a byte from the machine's
  log to an open viewer.

  A source's \<open>emit\<close> calls are kept in order in its record.  The decoder is the runtime's \<open>TextDecoder\<close> with
  \<open>stream: true\<close>, which keeps an unfinished character for the next call.
\<close>

section \<open>The streaming decoder\<close>

type_synonym utf8_state = "nat \<times> nat \<times> nat \<times> nat"

definition utf8Ready :: utf8_state where "utf8Ready = (0, 0, 0x80, 0xBF)"

definition utf8Lead :: "nat \<Rightarrow> jtext \<times> utf8_state" where
  "utf8Lead b =
     (if b < 0x80 then ([b], utf8Ready)
      else if 0xC2 \<le> b \<and> b \<le> 0xDF then ([], (1, b - 0xC0, 0x80, 0xBF))
      else if 0xE0 \<le> b \<and> b \<le> 0xEF then
        ([], (2, b - 0xE0, if b = 0xE0 then 0xA0 else 0x80, if b = 0xED then 0x9F else 0xBF))
      else if 0xF0 \<le> b \<and> b \<le> 0xF4 then
        ([], (3, b - 0xF0, if b = 0xF0 then 0x90 else 0x80, if b = 0xF4 then 0x8F else 0xBF))
      else ([0xFFFD], utf8Ready))"

fun utf8Step :: "utf8_state \<Rightarrow> nat \<Rightarrow> jtext \<times> utf8_state" where
  "utf8Step (need, cp, lo, hi) b =
     (if need = 0 then utf8Lead b
      else if lo \<le> b \<and> b \<le> hi then
        if need = 1 then ([cp * 64 + (b - 0x80)], utf8Ready) else ([], (need - 1, cp * 64 + (b - 0x80), 0x80, 0xBF))
      else (case utf8Lead b of (out, s) \<Rightarrow> (0xFFFD # out, s)))"

fun utf8Feed :: "utf8_state \<Rightarrow> nat list \<Rightarrow> jtext \<times> utf8_state" where
  "utf8Feed s [] = ([], s)"
| "utf8Feed s (b # bs) = (let (out, s) = utf8Step s b; (rest, s) = utf8Feed s bs in (out @ rest, s))"

record stream_decoder =
  sd_state :: utf8_state
  sd_started :: bool

definition newDecoder :: stream_decoder where
  "newDecoder = \<lparr>sd_state = utf8Ready, sd_started = False\<rparr>"

text \<open>\<open>decode(bytes, {stream: true})\<close>: the mark of byte order is dropped where the stream begins.\<close>

definition decodeChunk :: "byte list \<Rightarrow> stream_decoder \<Rightarrow> jtext \<times> stream_decoder" where
  "decodeChunk bytes d =
     (let (out, s) = utf8Feed (sd_state d) (map unat bytes) in
      (if sd_started d then out else dropBom out, \<lparr>sd_state = s, sd_started = sd_started d \<or> out \<noteq> []\<rparr>))"

fun decodeChunks :: "stream_decoder \<Rightarrow> byte list list \<Rightarrow> jtext list \<times> stream_decoder" where
  "decodeChunks d [] = ([], d)"
| "decodeChunks d (c # cs) = (let (out, d) = decodeChunk c d; (rest, d) = decodeChunks d cs in (out # rest, d))"

text \<open>The text a stretch of bytes has finished.\<close>

definition decodedText :: "byte list \<Rightarrow> jtext" where
  "decodedText bytes = dropBom (fst (utf8Feed utf8Ready (map unat bytes)))"

lemma feed8_append: "utf8Feed s (xs @ ys) = (let (a, s) = utf8Feed s xs; (b, s) = utf8Feed s ys in (a @ b, s))"
  by (induction xs arbitrary: s) (auto split: prod.split)

lemma decodeChunks_feed:
  "decodeChunks d cs = (outs, d') \<Longrightarrow> utf8Feed (sd_state d) (map unat (concat cs)) = (out, s) \<Longrightarrow>
   concat outs = (if sd_started d then out else dropBom out) \<and> sd_state d' = s \<and> (sd_started d' \<longleftrightarrow> sd_started d \<or> out \<noteq> [])"
proof (induction cs arbitrary: d outs out s d')
  case (Cons c cs)
  obtain o1 s1 where f: "utf8Feed (sd_state d) (map unat c) = (o1, s1)" by (meson surj_pair)
  let ?d = "\<lparr>sd_state = s1, sd_started = sd_started d \<or> o1 \<noteq> []\<rparr>"
  obtain rest d2 where r: "decodeChunks ?d cs = (rest, d2)" by (meson surj_pair)
  obtain o2 s2 where g: "utf8Feed s1 (map unat (concat cs)) = (o2, s2)" by (meson surj_pair)
  have o: "outs = (if sd_started d then o1 else dropBom o1) # rest" "d' = d2"
    using Cons.prems(1) r f by (auto simp: decodeChunk_def)
  have out: "out = o1 @ o2" "s = s2" using Cons.prems(2) f g by (simp_all add: feed8_append)
  have ih: "concat rest = (if sd_started ?d then o2 else dropBom o2) \<and> sd_state d2 = s2 \<and> (sd_started d2 \<longleftrightarrow> sd_started ?d \<or> o2 \<noteq> [])"
    using Cons.IH [OF r] g by simp
  show ?case using ih unfolding o out by (cases o1) auto
qed simp

text \<open>However the bytes are cut, the decoder's text is the same.\<close>

lemma decode_any_chunks: "concat (fst (decodeChunks newDecoder cs)) = decodedText (concat cs)"
proof -
  obtain outs d' where d: "decodeChunks newDecoder cs = (outs, d')" by (meson surj_pair)
  obtain out s where f: "utf8Feed utf8Ready (map unat (concat cs)) = (out, s)" by (meson surj_pair)
  show ?thesis using decodeChunks_feed [OF d, of out s] f d by (simp add: newDecoder_def decodedText_def)
qed

text \<open>And it is the beginning of what the whole decoder makes of them.\<close>

lemma run_step: "utf8Run need cp lo hi (b # bs) =
    (case utf8Step (need, cp, lo, hi) b of (out, n, c, l, h) \<Rightarrow> out @ utf8Run n c l h bs)"
  by (simp add: utf8Lead_def utf8Ready_def)

lemma run_feed: "utf8Run need cp lo hi bs =
    (case utf8Feed (need, cp, lo, hi) bs of (out, n, c, l, h) \<Rightarrow> out @ (if n = 0 then [] else [0xFFFD]))"
proof (induction bs arbitrary: need cp lo hi)
  case (Cons b bs)
  obtain o1 n c l h where "utf8Step (need, cp, lo, hi) b = (o1, n, c, l, h)" by (metis prod_cases5)
  then show ?case using Cons.IH [of n c l h] unfolding run_step by (auto split: prod.split)
qed simp

lemma decodedText_textDecode: "textDecode bytes = decodedText bytes \<or> textDecode bytes = decodedText bytes @ [0xFFFD]"
proof -
  obtain o1 n c l h where f: "utf8Feed utf8Ready (map unat bytes) = (o1, n, c, l, h)" by (metis prod_cases5)
  then have "utf8Decode (map unat bytes) = o1 @ (if n = 0 then [] else [0xFFFD])"
    by (simp add: utf8Decode_def run_feed utf8Ready_def)
  then show ?thesis using f by (cases o1) (auto simp: textDecode_def decodedText_def)
qed

 
section \<open>The tail a node relays\<close>

definition TAIL_STALL_AFTER_MS :: int where "TAIL_STALL_AFTER_MS = 25000"

datatype dead_reason = Stalled nat nat int | Refused

definition tailCloseReason :: "dead_reason \<Rightarrow> string" where
  "tailCloseReason reason = (case reason of Stalled _ _ _ \<Rightarrow> ''tail stalled'' | Refused \<Rightarrow> ''tail refused'')"

record remote_source =
  rs_cursor :: nat
  rs_lastDelivery :: int
  rs_stopped :: bool
  rs_reported :: bool
  rs_probing :: bool
  rs_dispose :: bool
  rs_disposed :: bool
  rs_decoder :: stream_decoder
  rs_pending :: jtext
  rs_emitted :: "jtext list"
  rs_dead :: "dead_reason list"

definition startRemote :: "nat \<Rightarrow> int \<Rightarrow> remote_source" where
  "startRemote fromByte now =
     \<lparr>rs_cursor = fromByte, rs_lastDelivery = now, rs_stopped = False, rs_reported = False, rs_probing = False, rs_dispose = False,
      rs_disposed = False, rs_decoder = newDecoder, rs_pending = [], rs_emitted = [], rs_dead = []\<rparr>"

definition callDispose :: "remote_source \<Rightarrow> remote_source" where
  "callDispose r = (if rs_dispose r then r\<lparr>rs_disposed := True\<rparr> else r)"

definition stopRemote :: "remote_source \<Rightarrow> remote_source" where
  "stopRemote r = (if rs_stopped r then r else callDispose (r\<lparr>rs_stopped := True\<rparr>))"

definition reportDead :: "dead_reason \<Rightarrow> remote_source \<Rightarrow> remote_source" where
  "reportDead reason r =
     (if rs_reported r \<or> rs_stopped r then r
      else let r = stopRemote (r\<lparr>rs_reported := True\<rparr>) in r\<lparr>rs_dead := rs_dead r @ [reason]\<rparr>)"

text \<open>The watchdog's tick arms a probe of the log's size; its answer comes later, or fails.\<close>

definition watchdogTick :: "int \<Rightarrow> remote_source \<Rightarrow> remote_source" where
  "watchdogTick now r =
     (if rs_stopped r \<or> rs_reported r \<or> rs_probing r then r
      else if now - rs_lastDelivery r < TAIL_STALL_AFTER_MS then r
      else r\<lparr>rs_probing := True\<rparr>)"

definition probeAnswered :: "nat \<Rightarrow> int \<Rightarrow> remote_source \<Rightarrow> remote_source" where
  "probeAnswered sz now r =
     (if \<not> rs_probing r then r
      else
        let r = r\<lparr>rs_probing := False\<rparr> in
        if rs_stopped r \<or> rs_reported r then r
        else if now - rs_lastDelivery r < TAIL_STALL_AFTER_MS then r
        else if sz = rs_cursor r then r
        else reportDead (Stalled sz (rs_cursor r) (now - rs_lastDelivery r)) r)"

definition probeFailed :: "remote_source \<Rightarrow> remote_source" where
  "probeFailed r = r\<lparr>rs_probing := False\<rparr>"

definition remoteChunk :: "byte list \<Rightarrow> nat \<Rightarrow> int \<Rightarrow> remote_source \<Rightarrow> remote_source" where
  "remoteChunk bytes next now r =
     (if rs_stopped r then r
      else
        let (decoded, d) = decodeChunk bytes (rs_decoder r); (out, pending) = stripPush (rs_pending r) decoded;
            r = r\<lparr>rs_cursor := next, rs_lastDelivery := now, rs_decoder := d, rs_pending := pending\<rparr>
        in if out = [] then r else r\<lparr>rs_emitted := rs_emitted r @ [out]\<rparr>)"

text \<open>The round trip of \<open>tail_start\<close> ends.\<close>

definition tailStarted :: "remote_source \<Rightarrow> remote_source" where
  "tailStarted r = (let r = r\<lparr>rs_dispose := True\<rparr> in if rs_stopped r then callDispose r else r)"

definition tailRefused :: "remote_source \<Rightarrow> remote_source" where
  "tailRefused r = reportDead Refused r"

text \<open>The disposer the registry calls.\<close>

definition disposeRemote :: "remote_source \<Rightarrow> remote_source" where
  "disposeRemote r = callDispose (r\<lparr>rs_stopped := True, rs_pending := []\<rparr>)"

datatype source_move =
    SrcChunk "byte list" nat int
  | SrcTick int
  | SrcProbe nat int
  | SrcProbeFailed
  | SrcStarted
  | SrcRefused
  | SrcDispose

fun source_step :: "source_move \<Rightarrow> remote_source \<Rightarrow> remote_source" where
  "source_step (SrcChunk bytes next now) r = remoteChunk bytes next now r"
| "source_step (SrcTick now) r = watchdogTick now r"
| "source_step (SrcProbe sz now) r = probeAnswered sz now r"
| "source_step SrcProbeFailed r = probeFailed r"
| "source_step SrcStarted r = tailStarted r"
| "source_step SrcRefused r = tailRefused r"
| "source_step SrcDispose r = disposeRemote r"

definition source_run :: "nat \<Rightarrow> int \<Rightarrow> source_move list \<Rightarrow> remote_source" where
  "source_run fromByte now ms = fold source_step ms (startRemote fromByte now)"


section \<open>The tail of a local log\<close>

datatype local_phase = LIdle | LStat | LReading nat

record local_source =
  ls_log :: "byte list"
  ls_size :: nat
  ls_phase :: local_phase
  ls_again :: bool
  ls_stopped :: bool
  ls_decoder :: stream_decoder
  ls_pending :: jtext
  ls_emitted :: "jtext list"

definition localTick :: "local_source \<Rightarrow> local_source" where
  "localTick l = (if ls_phase l \<noteq> LIdle then l\<lparr>ls_again := True\<rparr> else l\<lparr>ls_phase := LStat, ls_again := False\<rparr>)"

definition localRound :: "local_source \<Rightarrow> local_source" where
  "localRound l = (if ls_again l \<and> \<not> ls_stopped l then l\<lparr>ls_phase := LStat, ls_again := False\<rparr> else l\<lparr>ls_phase := LIdle\<rparr>)"

definition localStat :: "bool \<Rightarrow> local_source \<Rightarrow> local_source" where
  "localStat ok l =
     (if ls_phase l \<noteq> LStat then l
      else if ok \<and> length (ls_log l) > ls_size l then l\<lparr>ls_phase := LReading (length (ls_log l))\<rparr>
      else localRound l)"

definition localRead :: "bool \<Rightarrow> local_source \<Rightarrow> local_source" where
  "localRead ok l =
     (case ls_phase l of
        LReading sz \<Rightarrow>
          if \<not> ok then localRound l
          else
            let (decoded, d) = decodeChunk (take (sz - ls_size l) (drop (ls_size l) (ls_log l))) (ls_decoder l);
                (out, pending) = stripPush (ls_pending l) decoded;
                l = l\<lparr>ls_size := sz, ls_decoder := d, ls_pending := pending\<rparr>
            in if out = [] then localRound l
               else if ls_stopped l then l\<lparr>ls_phase := LIdle\<rparr>
               else localRound (l\<lparr>ls_emitted := ls_emitted l @ [out]\<rparr>)
      | _ \<Rightarrow> l)"

definition disposeLocal :: "local_source \<Rightarrow> local_source" where
  "disposeLocal l = l\<lparr>ls_stopped := True, ls_pending := []\<rparr>"

datatype local_move = LGrows "byte list" | LTick | LStatDone bool | LReadDone bool | LDispose

fun local_step :: "local_move \<Rightarrow> local_source \<Rightarrow> local_source" where
  "local_step (LGrows bs) l = l\<lparr>ls_log := ls_log l @ bs\<rparr>"
| "local_step LTick l = localTick l"
| "local_step (LStatDone ok) l = localStat ok l"
| "local_step (LReadDone ok) l = localRead ok l"
| "local_step LDispose l = disposeLocal l"

definition startLocal :: "byte list \<Rightarrow> nat \<Rightarrow> local_source" where
  "startLocal log fromByte = localTick
     \<lparr>ls_log = log, ls_size = fromByte, ls_phase = LIdle, ls_again = False, ls_stopped = False, ls_decoder = newDecoder,
      ls_pending = [], ls_emitted = []\<rparr>"

definition local_run :: "byte list \<Rightarrow> nat \<Rightarrow> local_move list \<Rightarrow> local_source" where
  "local_run log fromByte ms = fold local_step ms (startLocal log fromByte)"

section \<open>The capture poll\<close>

record poll_source =
  po_last :: jtext
  po_stopped :: bool
  po_emitted :: "jtext list"

text \<open>A poll whose capture answered; one that failed leaves everything as it was.\<close>

definition pollCapture :: "jtext \<Rightarrow> poll_source \<Rightarrow> poll_source" where
  "pollCapture out s =
     (if out = po_last s then s
      else
        let delta = (if prefix (po_last s) out then drop (length (po_last s)) out else out); s = s\<lparr>po_last := out\<rparr> in
        if delta = [] \<or> po_stopped s then s else s\<lparr>po_emitted := po_emitted s @ [delta]\<rparr>)"

definition poll_run :: "jtext list \<Rightarrow> poll_source" where
  "poll_run outs = fold pollCapture outs \<lparr>po_last = [], po_stopped = False, po_emitted = []\<rparr>"

 
section \<open>A source's text\<close>

lemma strip_snoc: "stripStream p (cs @ [c]) = (let (a, q) = stripStream p cs; (b, r) = stripPush q c in (a @ b, r))"
  by (induction cs arbitrary: p) (auto split: prod.split)

lemma decode_snoc: "decodeChunks d (cs @ [c]) = (let (a, d) = decodeChunks d cs; (b, d) = decodeChunk c d in (a @ [b], d))"
  by (induction cs arbitrary: d) (auto split: prod.split)

text \<open>What the decoder and the stripper together make of a list of reads.\<close>

definition readsText :: "byte list list \<Rightarrow> jtext \<times> jtext" where
  "readsText cs = stripStream [] (fst (decodeChunks newDecoder cs))"

definition readsDecoder :: "byte list list \<Rightarrow> stream_decoder" where
  "readsDecoder cs = snd (decodeChunks newDecoder cs)"

lemma reads_nil [simp]: "readsText [] = ([], [])" "readsDecoder [] = newDecoder"
  by (simp_all add: readsText_def readsDecoder_def)

lemma reads_snoc:
  "decodeChunk c (readsDecoder cs) = (decoded, d) \<Longrightarrow> stripPush (snd (readsText cs)) decoded = (out, pending) \<Longrightarrow>
   readsText (cs @ [c]) = (fst (readsText cs) @ out, pending) \<and> readsDecoder (cs @ [c]) = d"
  unfolding readsText_def readsDecoder_def by (auto simp: decode_snoc strip_snoc split: prod.split)

lemma reads_whole:
  assumes "\<not> torn (decodedText (concat cs))"
  shows "fst (readsText cs) @ snd (readsText cs) = stripSyncMarkers (decodedText (concat cs)) \<and>
    length (snd (readsText cs)) \<le> MAX_PARTIAL_LEN"
proof -
  let ?ts = "fst (decodeChunks newDecoder cs)"
  have t: "\<not> torn (concat ?ts)" using assms by (simp add: decode_any_chunks)
  then have f: "readsText cs = markFeed [] (concat ?ts)" using stream_feed [of "[]" ?ts] by (simp add: readsText_def)
  then show ?thesis using strip_feed [OF t] feed_piece [of "[]" "concat ?ts"] piece_short by (simp add: decode_any_chunks)
qed




lemmas source_ops = callDispose_def stopRemote_def reportDead_def watchdogTick_def probeAnswered_def probeFailed_def
  tailStarted_def tailRefused_def disposeRemote_def Let_def




section \<open>Liveness of the relayed tail\<close>

definition truthful_report :: "dead_reason \<Rightarrow> bool" where
  "truthful_report reason = (case reason of Stalled sz cursor silent \<Rightarrow> sz \<noteq> cursor \<and> silent \<ge> TAIL_STALL_AFTER_MS | Refused \<Rightarrow> True)"

definition alive_inv :: "remote_source \<Rightarrow> bool" where
  "alive_inv r \<longleftrightarrow>
     length (rs_dead r) = (if rs_reported r then 1 else 0) \<and> list_all truthful_report (rs_dead r) \<and>
     (rs_reported r \<longrightarrow> rs_stopped r) \<and> (rs_disposed r \<longleftrightarrow> rs_stopped r \<and> rs_dispose r)"

lemma alive_chunk: "alive_inv r \<Longrightarrow> alive_inv (remoteChunk bytes nxt now r)"
  by (auto simp: alive_inv_def remoteChunk_def Let_def split: prod.split)

interpretation source_machine: event_machine source_step alive_inv
proof
  fix r m assume "alive_inv r"
  then show "alive_inv (source_step m r)"
    by (cases m) (auto simp: alive_chunk, auto simp: alive_inv_def source_ops truthful_report_def)
qed

lemma alive_run: "alive_inv (source_run from now ms)"
  unfolding source_run_def by (rule source_machine.run_inv) (simp add: alive_inv_def startRemote_def)

lemma stopped_stays: "rs_stopped r \<Longrightarrow> rs_stopped (source_step m r) \<and> rs_emitted (source_step m r) = rs_emitted r \<and> rs_dead (source_step m r) = rs_dead r"
  by (cases m) (auto simp: source_ops remoteChunk_def)

lemma stopped_run: "rs_stopped r \<Longrightarrow> rs_stopped (fold source_step ms r) \<and> rs_emitted (fold source_step ms r) = rs_emitted r \<and> rs_dead (fold source_step ms r) = rs_dead r"
proof (induction ms arbitrary: r)
  case (Cons m ms)
  then show ?case using Cons.IH [of "source_step m r"] stopped_stays [OF Cons.prems, of m] by simp
qed simp

 
section \<open>A local tail's text\<close>

definition local_inv :: "nat \<Rightarrow> local_source \<Rightarrow> bool" where
  "local_inv from l \<longleftrightarrow>
     from \<le> ls_size l \<and> (from < ls_size l \<longrightarrow> ls_size l \<le> length (ls_log l)) \<and>
     (case ls_phase l of LReading sz \<Rightarrow> ls_size l < sz \<and> sz \<le> length (ls_log l) | _ \<Rightarrow> True) \<and>
     (\<not> ls_stopped l \<longrightarrow> (\<exists>cs. concat cs = span (ls_log l) from (ls_size l) \<and>
        (concat (ls_emitted l), ls_pending l) = readsText cs \<and> ls_decoder l = readsDecoder cs))"

lemmas local_ops = localTick_def localRound_def localStat_def disposeLocal_def

lemma local_grows: "local_inv from l \<Longrightarrow> local_inv from (l\<lparr>ls_log := ls_log l @ bs\<rparr>)"
  by (cases "from < ls_size l") (auto simp: local_inv_def span_grown split: local_phase.splits)

lemma local_round: "local_inv from l \<Longrightarrow> local_inv from (localRound l)"
  by (simp add: local_inv_def localRound_def)

lemma local_read:
  assumes i: "local_inv from l"
  shows "local_inv from (localRead ok l)"
proof (cases "\<exists>sz. ls_phase l = LReading sz \<and> ok")
  case False
  then show ?thesis using i by (auto simp: localRead_def local_round split: local_phase.splits)
next
  case True
  then obtain sz where ph: "ls_phase l = LReading sz" and ok: "ok" by blast
  have b: "from \<le> ls_size l" "ls_size l < sz" "sz \<le> length (ls_log l)" using i ph by (simp_all add: local_inv_def)
  let ?c = "span (ls_log l) (ls_size l) sz"
  obtain decoded d where d: "decodeChunk ?c (ls_decoder l) = (decoded, d)" by (meson surj_pair)
  obtain out pending where p: "stripPush (ls_pending l) decoded = (out, pending)" by (meson surj_pair)
  let ?m = "l\<lparr>ls_size := sz, ls_decoder := d, ls_pending := pending\<rparr>"
  have l: "localRead ok l = (if out = [] then localRound ?m
      else if ls_stopped l then ?m\<lparr>ls_phase := LIdle\<rparr> else localRound (?m\<lparr>ls_emitted := ls_emitted l @ [out]\<rparr>))"
    using ph ok d p by (simp add: localRead_def span_def)
  show ?thesis
  proof (cases "ls_stopped l")
    case True
    then show ?thesis unfolding l using b by (auto simp: local_inv_def localRound_def)
  next
    case False
    then obtain cs where cs: "concat cs = span (ls_log l) from (ls_size l)"
      "(concat (ls_emitted l), ls_pending l) = readsText cs" "ls_decoder l = readsDecoder cs"
      using i by (auto simp: local_inv_def)
    have e: "fst (readsText cs) = concat (ls_emitted l)" "snd (readsText cs) = ls_pending l"
      using cs(2) by (metis fst_conv, metis snd_conv)
    have n: "readsText (cs @ [?c]) = (concat (ls_emitted l) @ out, pending) \<and> readsDecoder (cs @ [?c]) = d"
      using reads_snoc [of ?c cs decoded d out pending] d p cs(3) e by simp
    have "concat (cs @ [?c]) = span (ls_log l) from sz" using cs(1) b span_append [of "from" "ls_size l" sz "ls_log l"] by simp
    then have w: "\<exists>cs. concat cs = span (ls_log l) from sz \<and> (concat (ls_emitted l) @ out, pending) = readsText cs \<and> d = readsDecoder cs"
      using n by (metis fst_conv snd_conv)
    show ?thesis unfolding l using b False w by (auto simp: local_inv_def localRound_def)
  qed
qed

interpretation local_machine: event_machine local_step "local_inv from" for "from"
proof
  fix l m assume i: "local_inv from l"
  show "local_inv from (local_step m l)"
  proof (cases m)
    case (LStatDone ok)
    then show ?thesis using i local_round [OF i] by (auto simp: localStat_def) (auto simp: local_inv_def)
  qed (use i in \<open>auto simp: local_grows local_read\<close>, auto simp: local_inv_def local_ops split: local_phase.splits)
qed

lemma local_inv_run: "local_inv from (local_run log from ms)"
  unfolding local_run_def
  by (rule local_machine.run_inv) (auto simp: local_inv_def startLocal_def localTick_def intro!: exI [of _ "[]"])

lemma localRead_frame [simp]:
  "ls_log (localRead ok l) = ls_log l" "ls_stopped (localRead ok l) = ls_stopped l"
  by (auto simp: localRead_def localRound_def Let_def split: local_phase.split prod.split)

lemma localRead_ends:
  "ls_phase l = LReading sz \<Longrightarrow> \<not> ls_again l \<Longrightarrow>
   ls_size (localRead True l) = sz \<and> ls_phase (localRead True l) = LIdle \<and> \<not> ls_again (localRead True l)"
  by (auto simp: localRead_def localRound_def Let_def split: prod.split)

definition polled :: "local_source \<Rightarrow> local_source" where
  "polled l = localRead True (localStat True (localTick l))"

text \<open>A resting local tail is at the end of the log after one poll.\<close>

lemma local_catches_up:
  assumes "ls_phase l = LIdle"
  shows "ls_size (polled l) = max (ls_size l) (length (ls_log l)) \<and> ls_phase (polled l) = LIdle \<and>
    ls_log (polled l) = ls_log l \<and> ls_stopped (polled l) = ls_stopped l"
proof (cases "ls_size l < length (ls_log l)")
  case True
  let ?s = "l\<lparr>ls_again := False, ls_phase := LReading (length (ls_log l))\<rparr>"
  have "polled l = localRead True ?s" using True assms by (simp add: polled_def localStat_def localTick_def)
  then show ?thesis using localRead_ends [of ?s "length (ls_log l)"] True by simp
next
  case False
  then have "polled l = l\<lparr>ls_phase := LIdle, ls_again := False\<rparr>"
    using assms by (simp add: polled_def localStat_def localTick_def localRound_def localRead_def)
  then show ?thesis using False by simp
qed

section \<open>The relay's cursor\<close>






section \<open>Properties\<close>

text \<open>
  C39: A relayed tail whose pump has gone silent does not stay the pane's view: once nothing was delivered for
  25 seconds, the next watchdog tick whose probe finds the log's end elsewhere than the pump's cursor stops the
  source and reports it, with the sizes and the silence it found.
\<close>

theorem silent_pump_is_reported:
  assumes "r = source_run from start ms" "\<not> rs_stopped r" "\<not> rs_probing r"
    "now - rs_lastDelivery r \<ge> TAIL_STALL_AFTER_MS" "now \<le> later" "sz \<noteq> rs_cursor r"
  shows "let u = fold source_step [SrcTick now, SrcProbe sz later] r in
    rs_stopped u \<and> rs_dead u = [Stalled sz (rs_cursor r) (later - rs_lastDelivery r)]"
proof -
  have "alive_inv r" unfolding assms(1) by (rule alive_run)
  then have "\<not> rs_reported r" "rs_dead r = []" using assms(2) by (auto simp: alive_inv_def split: if_splits)
  then show ?thesis using assms(2-6) by (simp add: source_ops)
qed

lemma silent_pump_is_reported_witness:
  "let u = fold source_step [SrcTick 25000, SrcProbe 9 25010] (source_run 4 0 [SrcStarted]) in
   rs_stopped u \<and> rs_dead u = [Stalled 9 4 25010]"
  using silent_pump_is_reported [of "source_run 4 0 [SrcStarted]" 4 0 "[SrcStarted]" 25000 25010 9]
  by (simp add: source_run_def startRemote_def tailStarted_def TAIL_STALL_AFTER_MS_def Let_def)

text \<open>
  A relayed tail ends once and for all: at most one report is made, a stall is only reported for a log that
  ended elsewhere after 25 silent seconds, a source that reported is stopped, and a stopped source whose
  tail was started has called its disposer, however start, refusal, probe and disposal are ordered.
\<close>

theorem relayed_tail_ends_once:
  "let r = source_run from start ms in
   length (rs_dead r) \<le> 1 \<and> list_all truthful_report (rs_dead r) \<and> (rs_dead r = [] \<or> rs_stopped r) \<and>
   rs_disposed r = (rs_stopped r \<and> rs_dispose r)"
proof -
  have "alive_inv (source_run from start ms)" by (rule alive_run)
  then show ?thesis by (auto simp: alive_inv_def Let_def)
qed

text \<open>
  Nothing comes out of a stopped source: whatever chunks, probes and answers still arrive, it emits and
  reports nothing more.
\<close>

theorem stopped_source_is_silent:
  assumes "rs_stopped (source_run from start ms)"
  shows "rs_emitted (source_run from start (ms @ ns)) = rs_emitted (source_run from start ms) \<and>
    rs_dead (source_run from start (ms @ ns)) = rs_dead (source_run from start ms)"
  using stopped_run [OF assms, of ns] by (simp add: source_run_def)

lemma stopped_source_is_silent_witness:
  "rs_emitted (source_run 0 0 ([SrcDispose] @ [SrcStarted, SrcChunk [65] 1 5, SrcTick 30000, SrcProbe 7 30001])) = []"
  using stopped_source_is_silent [of 0 0 "[SrcDispose]" "[SrcStarted, SrcChunk [65] 1 5, SrcTick 30000, SrcProbe 7 30001]"]
  by (simp add: source_run_def startRemote_def disposeRemote_def callDispose_def)

text \<open>
  C40: A local pane's text is its log: while the source runs, and however its polls, reads and failures fall and
  its reads cut characters and marks in two, everything emitted, with the piece of a mark still held, is the
  decoded log from the byte it started at, less the marks of synchronized output, provided the decoded log is
  not torn: no mark in it stands right behind an unfinished piece of a mark.
\<close>

theorem local_pane_text_is_the_log:
  assumes "l = local_run log from ms" "\<not> ls_stopped l" "\<not> torn (decodedText (span (ls_log l) from (ls_size l)))"
  shows "concat (ls_emitted l) @ ls_pending l = stripSyncMarkers (decodedText (span (ls_log l) from (ls_size l))) \<and>
    length (ls_pending l) \<le> MAX_PARTIAL_LEN"
proof -
  obtain cs where cs: "concat cs = span (ls_log l) from (ls_size l)" "(concat (ls_emitted l), ls_pending l) = readsText cs"
    using local_inv_run [of "from" log ms] assms(1,2) by (auto simp: local_inv_def)
  have "fst (readsText cs) @ snd (readsText cs) = stripSyncMarkers (decodedText (concat cs)) \<and> length (snd (readsText cs)) \<le> MAX_PARTIAL_LEN"
    using reads_whole assms(3) cs(1) by simp
  then show ?thesis using cs by (metis fst_conv snd_conv)
qed

lemma no_esc_not_torn: "27 \<notin> set s \<Longrightarrow> \<not> torn s"
  unfolding torn_def using mark_head by fastforce

lemma local_pane_text_is_the_log_witness:
  "let l = local_run [65] 0 [LStatDone True, LReadDone True, LGrows [0xC3], LTick, LStatDone True, LReadDone True,
       LGrows [0xA9], LTick, LStatDone True, LReadDone True] in
   concat (ls_emitted l) @ ls_pending l = stripSyncMarkers [65, 0xE9]"
proof -
  let ?ms = "[LStatDone True, LReadDone True, LGrows [0xC3], LTick, LStatDone True, LReadDone True,
       LGrows [0xA9], LTick, LStatDone True, LReadDone True]"
  define a where "a = polled \<lparr>ls_log = [65], ls_size = 0, ls_phase = LIdle, ls_again = False, ls_stopped = False, ls_decoder = newDecoder,
      ls_pending = [], ls_emitted = []\<rparr>"
  define b where "b = polled (a\<lparr>ls_log := ls_log a @ [0xC3]\<rparr>)"
  define l where "l = polled (b\<lparr>ls_log := ls_log b @ [0xA9]\<rparr>)"
  have l: "l = local_run [65] 0 ?ms" by (simp add: l_def b_def a_def polled_def local_run_def startLocal_def)
  have a: "ls_phase a = LIdle" "ls_log a = [65]" "ls_size a = 1" "\<not> ls_stopped a" unfolding a_def by (simp_all add: local_catches_up)
  have b: "ls_phase b = LIdle" "ls_log b = [65, 0xC3]" "ls_size b = 2" "\<not> ls_stopped b"
    unfolding b_def using a by (simp_all add: local_catches_up)
  have s: "ls_log l = [65, 0xC3, 0xA9]" "ls_size l = 3" "\<not> ls_stopped l" unfolding l_def using b by (simp_all add: local_catches_up)
  have d: "decodedText (span [65, 0xC3, 0xA9] 0 3) = [65, 0xE9]"
    by (simp add: decodedText_def span_def utf8Lead_def utf8Ready_def)
  show ?thesis
    using local_pane_text_is_the_log [OF l] s d no_esc_not_torn [of "[65, 0xE9]"] unfolding l by (simp add: Let_def)
qed

 


text \<open>Captures that only grow are shipped as their own text.\<close>

lemma poll_ships_growth:
  assumes "po_last s = concat (po_emitted s)" "\<not> po_stopped s" "sorted_wrt prefix (po_last s # outs)"
  shows "concat (po_emitted (fold pollCapture outs s)) = last (po_last s # outs)"
  using assms
proof (induction outs arbitrary: s)
  case (Cons o1 outs)
  then have "prefix (po_last s) o1" by simp
  then have "po_last (pollCapture o1 s) = o1" "concat (po_emitted (pollCapture o1 s)) = o1" "\<not> po_stopped (pollCapture o1 s)"
    using Cons.prems(1,2) by (auto simp: pollCapture_def Let_def elim!: prefixE)
  then show ?case using Cons.IH [of "pollCapture o1 s"] Cons.prems(3) by simp
qed simp

end
