(* ===== verification/Spec2Isabelle.thy ===== *)
theory Spec2Isabelle
  imports InputPath Layout Viewers Maintenance AllowedDirs RestoreProtocol TarTransfer TarVendor UpdateSafety LinkProtocol PaneOutput
begin

text \<open>
  A verification library for Subshell: the control-plane server (\<open>apps/server/api\<close>), the agent that
  runs on each machine (\<open>apps/node/agent\<close>) and the protocol package both share
  (\<open>packages/subshell-protocol\<close>).  A person's browser holds WebSockets to the server; the server
  keeps subshells (terminal panes) running on itself or on machines whose agents hold a socket to it.

  \<^bold>\<open>Parts and theories.\<close>

  \<^item> \<^bold>\<open>Terminal input\<close> (\<open>api/ws/input-budget.ts\<close>, \<open>input-window.ts\<close>, \<open>input-hold.ts\<close>, the input branch of
    \<open>subshell-ws.ts\<close>).  \<open>InputBudget\<close> charges every payload against a socket, a node and a process
    budget; \<open>InputWindow\<close> remembers the ids already written per session; \<open>InputHold\<close> keeps what could
    not be delivered and drains it when the node is back; \<open>InputHoldInv\<close> holds the invariants of the
    hold and \<open>InputPath\<close> the machine that composes the three with the message handler.  Events are
    one frame, one settled write, a node becoming ready, a reclaim, a closed or revoked socket.  The
    lemmas show that the tallies are exact and never leak, that held input is neither overtaken nor
    lost, that an acknowledgement means a write, and that a dead socket stays silent.

  \<^item> \<^bold>\<open>Shared geometry\<close> (\<open>shared-geometry.ts\<close>, \<open>api/ws/pane-geometry.ts\<close>, \<open>api/ws/viewers.ts\<close>).
    \<open>SharedGrid\<close> is the pure decision on the common grid, \<open>GeometryQueue\<close> the one-apply-at-a-time
    queue per pane, \<open>Viewers\<close> the registry with presence, revocation and the handlers that request
    sizes.  The composition theorem says that the pane heads for the grid the registered viewers share.

  \<^item> \<^bold>\<open>Workspace layouts\<close> (\<open>modules/workspaces/layout.ts\<close>, \<open>workspace-preview.ts\<close>): \<open>Json\<close>, \<open>Text\<close>, \<open>Layout\<close>.
    A stored layout is arbitrary JSON; pruning and backfilling are total functions on it.

  \<^item> \<^bold>\<open>Access\<close> (\<open>modules/nodes/access.ts\<close>, \<open>gate.ts\<close>, \<open>modules/subshells/access.ts\<close>, \<open>resolveLaunchNode\<close>):
    \<open>Access\<close>.  Access levels are a linear order, the loop over grants is a maximum, launches land where
    the policy allows, and an invisible node is indistinguishable from an absent one.

  \<^item> \<^bold>\<open>Maintenance\<close> (\<open>modules/nodes/maintenance.ts\<close> and the agent's mirror file): \<open>Maintenance\<close>.  Two copies
    of one flag, two channels and a clock on each side; one reconnect makes them agree on the value with the
    later stamp.

  \<^item> \<^bold>\<open>Directory allowlist\<close> (\<open>dir-allowlist.ts\<close>): \<open>AllowedDirs\<close>.  The textual tests are the prefix order on
    segments, and cleaning a set of rules is canonical and changes no decision.

  \<^item> \<^bold>\<open>Restoring a backup\<close> (\<open>modules/backups/journal.ts\<close>, \<open>transaction.ts\<close>, \<open>paths.ts\<close>): \<open>CrashProg\<close> is a
    small language of durable acts with crashes and a locale for recoveries that may be interrupted,
    \<open>HostPath\<close> the path functions, \<open>RestoreJournal\<close> the journal, rollback, commit and recovery, and
    \<open>RestoreCrash\<close> the restore itself with the crash-safety theorems, \<open>RestoreProtocol\<close> an abstract machine
    of five states that restore, recovery, rollback and commit refine in any order of interruption.

  \<^item> \<^bold>\<open>Transfer archives\<close> (\<open>packages/pane-runtime\<close>: \<open>tar-blocks.ts\<close>, \<open>tar-writer.ts\<close>,
    \<open>tar-extractor.ts\<close>, \<open>tar-vendor.ts\<close>): \<open>Utf8\<close> is the text codec, \<open>TarBlocks\<close> the block format and the path
    guard, \<open>TarWriter\<close> and \<open>TarExtract\<close> the two ends over a chunked stream and a file system with
    symbolic and hard links, \<open>TarSafety\<close> the containment of an extraction, \<open>TarTransfer\<close> the round trip by
    way of an abstract landing of items, \<open>TarVendor\<close> the plugin tarball parser, which hands on exactly the files
    of a well-formed package.

  \<^item> \<^bold>\<open>The server's own update\<close> (\<open>modules/updates/update-transaction.ts\<close>, the swap in \<open>server-update.ts\<close>,
    \<open>restoreDatabase\<close> in \<open>modules/backups/db-backup.ts\<close>, the boot hook in \<open>index.ts\<close>, \<open>update --rollback\<close>):
    \<open>UpdateTxn\<close> has the programs over files with inodes and a database with its write-ahead log,
    \<open>UpdateCrash\<close> the store, the restore and the host's invariant, \<open>UpdateSafety\<close> the updater, the boots and
    the rollback cut off anywhere.  The host always has a program to start and a database for it, two
    boots settle the update, and at every cut it is marked, on record as failed or in place.

  \<^item> \<^bold>\<open>The nodes' sockets\<close> (\<open>modules/nodes/node-registry.ts\<close>, \<open>node-rpc.ts\<close>, \<open>link-session.ts\<close>,
    \<open>api/ws/node-ws-handler.ts\<close>, the frame parsers of \<open>node-link-crypto.ts\<close>, \<open>versions.ts\<close>): \<open>NodeLink\<close> is
    the version gate and the handshake of the encrypted link, \<open>NodeSocket\<close> the registry, the command
    RPC and the handler as one event machine in which every await is a step of its own, \<open>NodeSafety\<close>
    the invariant of sockets and connections, \<open>NodeBooks\<close> the books of the commands, the order they leave in
    and the combined invariant, \<open>NodeTraffic\<close> what follows for every run: who is let in, what may leave in
    plaintext, that each command is answered once, and two histories the code's comments rule out.

  \<^item> \<^bold>\<open>The agent's end of the link\<close> (\<open>apps/node/agent/src/link-crypto.ts\<close>, the connections, frames and command
    chains of its \<open>daemon.ts\<close>, \<open>packages/subshell-protocol/src/node-signing.ts\<close>): \<open>NodeVerify\<close> is the signed
    command with its claims, the memory of ids and the sequence numbers, \<open>AgentLink\<close> the agent as an event
    machine whose awaits are operations that finish later, possibly on a dead socket, and whose configuration is
    reloaded from disk before a dial and on every heartbeat, \<open>AgentSafety\<close> its invariants: a command is
    executed once, reports go to the holder of a pinned key, no key is used but a configured one, and the
    pinned one goes on the plane's demand or by a reload only.  \<open>LinkProtocol\<close> joins both ends: the handshake
    of honest ends comes through, byte for byte, the commands one end sends pass the other's check, and a
    frame left over from the last connection can cost the next one.

  \<^item> \<^bold>\<open>Terminal output\<close> (\<open>apps/node/agent/src/commands/tail.ts\<close>, \<open>tailStart\<close> of
    \<open>modules/nodes/remote-launcher.ts\<close>, \<open>api/ws/pane-sources.ts\<close>, \<open>pane-stream.ts\<close>, \<open>sync-stripper.ts\<close>): \<open>PaneTail\<close>
    has the agent's pump over a growing log and the server's relay of its events, \<open>SyncStripper\<close> the removal of
    the marks of synchronized output, whole and as a stream, shown equal by way of a machine that reads one
    character at a time, \<open>PaneStream\<close> the registry that hands one source to all viewers of a pane, \<open>PaneOutput\<close>
    the streaming decoder, the sources with the watchdog of a relayed one, and the composition: what an open
    viewer was sent is the machine's log, decoded, less the marks.

  \<open>Prelude\<close> holds the insertion-ordered maps of the language, the locale of event machines with an
  invariant, UTF-16 strings and the error monad.

  \<^bold>\<open>How the code is rendered.\<close>  Objects with identity (hold entries, resize entries, usage tallies) live
  in stores indexed by numbers; Maps keep insertion order; an asynchronous operation is split into
  the step that starts it and the step that settles it, so every interleaving is a sequence of
  events; thrown errors are values.  Code outside the repository is a parameter where it is used:
  \<open>Date.parse\<close>, \<open>localeCompare\<close>, the outcome of a kill, of a pane resize, of a write to a node, whether a
  path is a symbolic link.  No fuel is used: every recursion is structural or has a measure.

  \<^bold>\<open>Interfaces.\<close>  \<open>keyed_store\<close> and \<open>event_machine\<close> (Prelude) and \<open>recoverable\<close> and \<open>restartable\<close> (CrashProg)
  are locales, interpreted on the maps, on the input, geometry, viewer, node, agent, pump, stream and source machines, on rollback,
  recovery and commit of a restore, and on the starts of the service during an update.

  \<^bold>\<open>Not modelled.\<close>  The user interfaces, native crates, the documentation site and build tooling; the
  database layer beyond the queries the access rules read; previews, SSH relay, plugins,
  authentication and notifications; the subshell lifecycle, wire parsers and release discovery; what
  an accepted node's events set off on the server, the stream of a pane's output apart; the attach sequence of
  a viewer with its replay; what a command but the tail does on the agent, its inventory pushes and
  its reports of changed settings, and which route it dials.  Contents of files moved by a restore are opaque.  Gzip is outside the model
  of archives, and so are other processes that change the destination meanwhile.
\<close>

end
